(* ===== verification/Prelude.thy ===== *)
theory Prelude
  imports Main "HOL-Library.Word"
begin

unbundle bit_operations_syntax

text \<open>
  What every theory of the development shares: the types of bytes and machine integers, the
  fixed-width little-endian and big-endian layouts of the C sources with their numeric reading,
  the order \<open>memcmp\<close> gives, and the collections of rewrite rules the component proofs use.

  \<^item> \<open>enc_len\<close>: the length of every encoder's output, in closed form.
  \<^item> \<open>rt_simps\<close>: reading back what was written (round trips).
  \<^item> \<open>lex_simps\<close>: how \<open>byte_lt\<close> and \<open>memcmp\<close> compute.
\<close>

named_theorems enc_len \<open>lengths of encodings\<close>
named_theorems rt_simps \<open>round trips of encodings\<close>
named_theorems lex_simps \<open>byte order\<close>

section \<open>Machine types\<close>

type_synonym byte = "8 word"
type_synonym bytes = "8 word list"
type_synonym u16 = "16 word"
type_synonym u32 = "32 word"
type_synonym u64 = "64 word"
type_synonym i32 = "32 word"
type_synonym i64 = "64 word"

section \<open>Fixed-width layouts\<close>

text \<open>
  \<open>put_le w v\<close> and \<open>put_be w v\<close> are the loops
  \<^verbatim>\<open>for (i = 0; i < w; i++) b[i] = (unsigned char)(v >> (8 * i))\<close> and its big-endian twin;
  \<open>get_le\<close> and \<open>get_be\<close> are the loops \<^verbatim>\<open>v = v << 8 | p[i]\<close>, run downwards and upwards.
\<close>

definition put_le :: "nat \<Rightarrow> 'a::len word \<Rightarrow> bytes" where
  "put_le w v = map (\<lambda>i. ucast (drop_bit (8 * i) v)) [0..<w]"

definition put_be :: "nat \<Rightarrow> 'a::len word \<Rightarrow> bytes" where
  "put_be w v = map (\<lambda>i. ucast (drop_bit (8 * (w - 1 - i)) v)) [0..<w]"

definition get_le :: "bytes \<Rightarrow> 'a::len word" where
  "get_le bs = foldr (\<lambda>b v. push_bit 8 v OR ucast b) bs 0"

definition get_be :: "bytes \<Rightarrow> 'a::len word" where
  "get_be bs = foldl (\<lambda>v b. push_bit 8 v OR ucast b) 0 bs"

text \<open>The number a byte string denotes.\<close>

fun le_nat :: "bytes \<Rightarrow> nat" where
  "le_nat [] = 0"
| "le_nat (b # bs) = unat b + 256 * le_nat bs"

definition be_nat :: "bytes \<Rightarrow> nat" where
  "be_nat bs = le_nat (rev bs)"

lemma put_le_length [simp, enc_len]: "length (put_le w v) = w"
  by (simp add: put_le_def)

lemma put_be_length [simp, enc_len]: "length (put_be w v) = w"
  by (simp add: put_be_def)

lemma put_be_rev: "put_be w v = rev (put_le w v)"
  by (rule nth_equalityI) (auto simp: put_be_def put_le_def rev_nth)

lemma get_be_rev: "get_be bs = get_le (rev bs)"
  by (simp add: get_be_def get_le_def foldr_conv_fold foldl_conv_fold)

lemma put_le_0 [simp]: "put_le 0 v = []"
  by (simp add: put_le_def)

lemma put_le_Suc: "put_le (Suc w) v = ucast v # put_le w (drop_bit 8 v)"
  by (simp add: put_le_def upt_conv_Cons map_Suc_upt [symmetric] comp_def drop_bit_drop_bit
      add.commute del: upt_Suc)

lemma get_le_Nil [simp]: "get_le [] = 0"
  by (simp add: get_le_def)

lemma get_le_Cons: "get_le (b # bs) = push_bit 8 (get_le bs) OR ucast b"
  by (simp add: get_le_def)

text \<open>Reading back, at any width: the low \<open>8 * w\<close> bits survive.\<close>

lemma get_le_put_le:
  fixes v :: "'a::len word"
  shows "get_le (put_le w v) = take_bit (8 * w) v"
proof (induction w arbitrary: v)
  case 0
  then show ?case by simp
next
  case (Suc w)
  show ?case
    by (simp add: put_le_Suc get_le_Cons Suc.IH)
      (rule bit_word_eqI, auto simp: bit_simps)
qed

lemma get_le_put_le_full [simp, rt_simps]:
  "LENGTH('a) \<le> 8 * w \<Longrightarrow> get_le (put_le w v) = (v::'a::len word)"
  by (simp add: get_le_put_le take_bit_word_eq_self)

lemma get_be_put_be_full [simp, rt_simps]:
  "LENGTH('a) \<le> 8 * w \<Longrightarrow> get_be (put_be w v) = (v::'a::len word)"
  by (simp add: get_be_rev put_be_rev)

lemma bit_get_le_imp: "bit (get_le bs :: 'a::len word) n \<Longrightarrow> n < 8 * length bs"
proof (induction bs arbitrary: n)
  case Nil
  then show ?case by simp
next
  case (Cons b bs)
  have "bit b n \<Longrightarrow> n < 8" using bit_imp_le_length [of b n] by simp
  moreover from Cons.IH [of "n - 8"] have "bit (get_le bs :: 'a word) (n - 8) \<Longrightarrow> n < 8 + 8 * length bs"
    by linarith
  ultimately show ?case
    using Cons.prems by (auto simp: get_le_Cons bit_simps)
qed

lemma put_le_get_le:
  "length bs = w \<Longrightarrow> 8 * w \<le> LENGTH('a) \<Longrightarrow> put_le w (get_le bs :: 'a::len word) = bs"
proof (induction bs arbitrary: w)
  case Nil
  then show ?case by simp
next
  case (Cons b bs)
  then obtain w' where w: "w = Suc w'" "length bs = w'" by (cases w) auto
  let ?v = "get_le bs :: 'a word"
  have hi: "\<not> bit ?v n" if "8 * w' \<le> n" for n
    using that w(2) by (auto dest: bit_get_le_imp)
  have 1: "ucast (push_bit 8 ?v OR (ucast b :: 'a word)) = b"
    using Cons.prems w by (intro bit_word_eqI) (auto simp: bit_simps)
  have 2: "drop_bit 8 (push_bit 8 ?v OR (ucast b :: 'a word)) = ?v"
  proof (rule bit_word_eqI)
    fix n assume n: "n < LENGTH('a)"
    show "bit (drop_bit 8 (push_bit 8 ?v OR (ucast b :: 'a word))) n = bit ?v n"
      using hi [of n] Cons.prems w n bit_imp_le_length [of b "8 + n"]
      by (cases "n < 8 * w'") (auto simp: bit_simps)
  qed
  from w Cons.IH [of w'] Cons.prems show ?case
    by (simp only: put_le_Suc get_le_Cons 1 2) simp
qed

lemma xor_eq_0_imp:
  assumes "a XOR b = (0::'a::len word)"
  shows "a = b"
proof (rule bit_word_eqI)
  fix n
  have "bit (a XOR b) n = bit (0::'a word) n" using assms by simp
  then show "bit a n = bit b n" by (simp add: bit_xor_iff)
qed

lemma and_255: "x AND 0xFF = take_bit 8 (x::'a::len word)"
  by (simp add: take_bit_eq_mask mask_eq_exp_minus_1)

lemma and_127: "x AND 0x7F = take_bit 7 (x::'a::len word)"
  by (simp add: take_bit_eq_mask mask_eq_exp_minus_1)

lemma and_128_eq_0: "x AND 0x80 = 0 \<longleftrightarrow> \<not> bit (x::'a::len word) 7"
proof -
  have "x AND 2 ^ 7 = 0 \<longleftrightarrow> \<not> bit x 7" by (rule and_exp_eq_0_iff_not_bit)
  then show ?thesis by simp
qed

lemma unat_2p: "n < LENGTH('a) \<Longrightarrow> unat (2 ^ n :: 'a::len word) = 2 ^ n"
proof -
  assume "n < LENGTH('a)"
  then have "unat (word_of_nat (2 ^ n) :: 'a word) = 2 ^ n"
    by (simp only: unsigned_of_nat) (simp add: take_bit_nat_eq_self_iff)
  then show ?thesis by simp
qed

lemma less_2p_take_bit:
  assumes "n < LENGTH('a)"
  shows "(v::'a::len word) < 2 ^ n \<longleftrightarrow> take_bit n v = v"
proof -
  have "unat (2 ^ n :: 'a word) = 2 ^ n" using assms by (rule unat_2p)
  then have "v < 2 ^ n \<longleftrightarrow> unat v < 2 ^ n" by (simp add: word_less_nat_alt)
  also have "\<dots> \<longleftrightarrow> take_bit n (unat v) = unat v" by (simp add: take_bit_nat_eq_self_iff)
  also have "\<dots> \<longleftrightarrow> take_bit n v = v"
    using assms by (simp add: word_unat_eq_iff unsigned_take_bit_eq)
  finally show ?thesis .
qed

text \<open>A field of a byte buffer, written (\<^verbatim>\<open>memcpy(p + off, bs, n)\<close>) and read.\<close>

definition poke :: "nat \<Rightarrow> bytes \<Rightarrow> bytes \<Rightarrow> bytes" where
  "poke off bs p = take off p @ bs @ drop (off + length bs) p"

definition peek :: "nat \<Rightarrow> nat \<Rightarrow> bytes \<Rightarrow> bytes" where
  "peek off n p = take n (drop off p)"

lemma poke_length [simp]: "off + length bs \<le> length p \<Longrightarrow> length (poke off bs p) = length p"
  by (simp add: poke_def)

lemma peek_length [simp]: "off + n \<le> length p \<Longrightarrow> length (peek off n p) = n"
  by (simp add: peek_def)

lemma peek_poke_same [simp]:
  "off + length bs \<le> length p \<Longrightarrow> n = length bs \<Longrightarrow> peek off n (poke off bs p) = bs"
  by (simp add: peek_def poke_def)

lemma peek_poke_other [simp]:
  assumes "off + length bs \<le> length p" "o' + n \<le> off \<or> off + length bs \<le> o'"
  shows "peek o' n (poke off bs p) = peek o' n p"
proof (rule nth_equalityI)
  show "length (peek o' n (poke off bs p)) = length (peek o' n p)"
    using assms(1) by (simp add: peek_def)
  fix i assume "i < length (peek o' n (poke off bs p))"
  with assms show "peek o' n (poke off bs p) ! i = peek o' n p ! i"
    by (auto simp: peek_def poke_def nth_append)
qed

section \<open>The numeric reading\<close>

lemma digit_less:
  assumes "(a::nat) < n" "b < k"
  shows "a + n * b < n * k"
proof -
  have "a + n * b < n * Suc b" using assms(1) by simp
  also have "\<dots> \<le> n * k" using assms(2) by (intro mult_le_mono2) simp
  finally show ?thesis .
qed

lemma digit_lt_iff:
  assumes "b < k" "d < (k::nat)"
  shows "a * k + b < c * k + d \<longleftrightarrow> a < c \<or> a = c \<and> b < d"
proof -
  have le: "x < y \<Longrightarrow> u < k \<Longrightarrow> x * k + u < y * k + v" for x y u v
  proof -
    assume "x < y" "u < k"
    then have "u + k * x < k * y" by (intro digit_less)
    then show ?thesis by (simp add: mult.commute)
  qed
  from le [of a c b d] le [of c a d b] assms show ?thesis
    by (cases a c rule: linorder_cases) auto
qed

lemma digit_eq_iff:
  assumes "b < k" "d < (k::nat)"
  shows "a * k + b = c * k + d \<longleftrightarrow> a = c \<and> b = d"
  using digit_lt_iff [OF assms, of a c] digit_lt_iff [OF assms(2,1), of c a] by auto

lemma le_nat_append: "le_nat (xs @ ys) = le_nat xs + 256 ^ length xs * le_nat ys"
  by (induction xs) (auto simp: algebra_simps)

lemma be_nat_Nil [simp]: "be_nat [] = 0"
  by (simp add: be_nat_def)

lemma be_nat_Cons: "be_nat (b # bs) = unat b * 256 ^ length bs + be_nat bs"
  by (simp add: be_nat_def le_nat_append)

lemma be_nat_append: "be_nat (xs @ ys) = be_nat xs * 256 ^ length ys + be_nat ys"
  by (simp add: be_nat_def le_nat_append)

lemma unat_less_2p: "unat (v::'a::len word) < 2 ^ LENGTH('a)"
  by (rule unsigned_less)

lemma unat_byte_less [simp]: "unat (b::byte) < 256"
  using unat_less_2p [of b] by simp

lemma le_nat_less: "le_nat bs < 256 ^ length bs"
proof (induction bs)
  case Nil
  then show ?case by simp
next
  case (Cons b bs)
  have "unat b < 256" by simp
  with Cons.IH have "unat b + 256 * le_nat bs < 256 * 256 ^ length bs"
    by (intro digit_less)
  then show ?case by simp
qed

lemma be_nat_less: "be_nat bs < 256 ^ length bs"
  using le_nat_less [of "rev bs"] by (simp add: be_nat_def)

lemma unat_ucast_byte: "unat (ucast v :: byte) = unat v mod 256"
  by (simp add: unsigned_ucast_eq take_bit_eq_mod)

lemma unat_drop_bit_div: "unat (drop_bit n v) = unat v div 2 ^ n"
  by (simp only: unat_drop_bit_eq drop_bit_eq_div [of n "unat v"])

lemma le_nat_put_le: "le_nat (put_le w v) = unat v mod 256 ^ w"
proof (induction w arbitrary: v)
  case 0
  then show ?case by simp
next
  case (Suc w)
  have "unat v mod (256 * 256 ^ w) = 256 * (unat v div 256 mod 256 ^ w) + unat v mod 256"
    by (rule mod_mult2_eq)
  moreover have "unat (drop_bit 8 v) = unat v div 256"
    by (simp only: unat_drop_bit_div) simp
  ultimately show ?case
    by (simp only: put_le_Suc Suc.IH le_nat.simps unat_ucast_byte) simp
qed

lemma be_nat_put_be: "be_nat (put_be w v) = unat v mod 256 ^ w"
  by (simp add: be_nat_def put_be_rev le_nat_put_le)

lemma be_nat_put_be_full [simp]:
  "LENGTH('a) \<le> 8 * w \<Longrightarrow> be_nat (put_be w (v::'a::len word)) = unat v"
proof -
  assume a: "LENGTH('a) \<le> 8 * w"
  have "unat v < 2 ^ LENGTH('a)" by (rule unat_less_2p)
  also have "\<dots> \<le> (2::nat) ^ (8 * w)" using a by (simp add: power_increasing)
  also have "\<dots> = 256 ^ w" by (simp add: power_mult)
  finally show ?thesis by (simp add: be_nat_put_be)
qed

lemma be_nat_inject: "length xs = length ys \<Longrightarrow> be_nat xs = be_nat ys \<longleftrightarrow> xs = ys"
proof (induction xs ys rule: list_induct2)
  case Nil
  then show ?case by simp
next
  case (Cons x xs y ys)
  let ?k = "256 ^ length ys"
  have "be_nat xs < ?k" "be_nat ys < ?k"
    using be_nat_less [of xs] be_nat_less [of ys] Cons.hyps by simp_all
  with Cons show ?case by (simp add: be_nat_Cons digit_eq_iff word_unat_eq_iff)
qed

section \<open>Byte order\<close>

text \<open>
  \<open>byte_lt xs ys\<close>: the two strings differ at a byte both have, and there \<open>xs\<close> is the smaller.
  It is what stays true whatever follows either string, so it is the order a self-delimiting
  encoding has to give. \<open>memcmp xs ys n\<close> is the sign C's function answers.
\<close>

fun byte_lt :: "bytes \<Rightarrow> bytes \<Rightarrow> bool" where
  "byte_lt (x # xs) (y # ys) = (x < y \<or> x = y \<and> byte_lt xs ys)"
| "byte_lt _ _ = False"

fun memcmp :: "bytes \<Rightarrow> bytes \<Rightarrow> nat \<Rightarrow> int" where
  "memcmp (x # xs) (y # ys) (Suc n) = (if x < y then -1 else if y < x then 1 else memcmp xs ys n)"
| "memcmp _ _ _ = 0"

lemma byte_lt_append [lex_simps]: "byte_lt xs ys \<Longrightarrow> byte_lt (xs @ r) (ys @ s)"
  by (induction xs ys rule: byte_lt.induct) auto

lemma byte_lt_same_prefix [simp, lex_simps]: "byte_lt (p @ xs) (p @ ys) \<longleftrightarrow> byte_lt xs ys"
  by (induction p) auto

lemma byte_lt_irrefl [simp]: "\<not> byte_lt xs xs"
  by (induction xs) auto

lemma byte_lt_asym: "byte_lt xs ys \<Longrightarrow> \<not> byte_lt ys xs"
  by (induction xs ys rule: byte_lt.induct) auto

lemma byte_lt_trans: "byte_lt xs ys \<Longrightarrow> byte_lt ys zs \<Longrightarrow> byte_lt xs zs"
proof (induction xs zs arbitrary: ys rule: byte_lt.induct)
  case (1 x xs z zs)
  then show ?case by (cases ys) auto
qed (auto elim: byte_lt.elims)

lemma byte_lt_be_nat: "length xs = length ys \<Longrightarrow> byte_lt xs ys \<longleftrightarrow> be_nat xs < be_nat ys"
proof (induction xs ys rule: list_induct2)
  case Nil
  then show ?case by simp
next
  case (Cons x xs y ys)
  let ?k = "256 ^ length ys"
  have b: "be_nat xs < ?k" "be_nat ys < ?k"
    using be_nat_less [of xs] be_nat_less [of ys] Cons.hyps by simp_all
  with Cons show ?case by (simp add: be_nat_Cons digit_lt_iff word_less_nat_alt word_unat_eq_iff)
qed

lemma byte_lt_total: "length xs = length ys \<Longrightarrow> byte_lt xs ys \<or> xs = ys \<or> byte_lt ys xs"
  by (metis byte_lt_be_nat be_nat_inject linorder_less_linear)

text \<open>Inverting every byte reverses the order: how a descending component is stored.\<close>

lemma byte_not_less: "NOT x < NOT y \<longleftrightarrow> y < (x::byte)"
proof -
  have *: "unat (NOT x) = 255 - unat x" for x :: byte
  proof -
    have "NOT x = 255 - x" by (simp add: not_eq_complement)
    moreover have "unat x \<le> 255" using unat_byte_less [of x] by linarith
    then have "x \<le> 255" by (simp add: word_le_nat_alt)
    ultimately show ?thesis by (simp add: unat_sub)
  qed
  have "unat x < 256" "unat y < 256" by simp_all
  with * [of x] * [of y] show ?thesis unfolding word_less_nat_alt by linarith
qed

lemma byte_lt_not [simp, lex_simps]: "byte_lt (map NOT xs) (map NOT ys) \<longleftrightarrow> byte_lt ys xs"
  by (induction xs ys rule: byte_lt.induct) (auto simp: byte_not_less)

lemma memcmp_less: "memcmp xs ys n = -1 \<Longrightarrow> byte_lt xs ys"
  by (induction xs ys n rule: memcmp.induct) (auto split: if_splits)

lemma memcmp_values: "memcmp xs ys n \<in> {-1, 0, 1}"
  by (induction xs ys n rule: memcmp.induct) auto

lemma memcmp_swap: "memcmp ys xs n = - memcmp xs ys n"
  by (induction xs ys n rule: memcmp.induct) (auto dest: less_asym)

lemma memcmp_zero_iff:
  "n \<le> length xs \<Longrightarrow> n \<le> length ys \<Longrightarrow> memcmp xs ys n = 0 \<longleftrightarrow> take n xs = take n ys"
  by (induction xs ys n rule: memcmp.induct) (auto simp: not_less)

lemma byte_lt_memcmp:
  "byte_lt xs ys \<Longrightarrow> memcmp xs ys (min (length xs) (length ys)) = -1"
  by (induction xs ys rule: byte_lt.induct) auto

end
