(* ===== verification/Numbers.thy ===== *)
theory Numbers
  imports Complex_Main Prelude
begin

text \<open>
  gBASIC numbers as \<^verbatim>\<open>src/eval.c\<close> holds them: an exact signed 64-bit integer, or an IEEE
  double kept as its bit pattern. \<open>decode_double\<close> reads the pattern as a rational number, an
  infinity or NaN, so the comparisons of the code (\<^verbatim>\<open>exact_vs_double_compare\<close>,
  \<^verbatim>\<open>number_compare_exactly\<close>, \<^verbatim>\<open>number_same_value\<close>, \<^verbatim>\<open>number_order\<close>) are about
  mathematical values. The lemmas show that comparing an integer with a double loses nothing and
  that \<^verbatim>\<open>number_order\<close> is one total order, NaN last.
\<close>

section \<open>Doubles\<close>

datatype dbl = DNaN | DInf bool | DFin rat

text \<open>Sign, exponent field and fraction of the 64-bit pattern; the value of a finite one is
  \<open>(-1)^s * m * 2^e\<close>.\<close>

definition dbl_negative :: "u64 \<Rightarrow> bool" where
  "dbl_negative bits \<longleftrightarrow> drop_bit 63 bits \<noteq> 0"

definition dbl_field :: "u64 \<Rightarrow> nat" where
  "dbl_field bits = unat (drop_bit 52 bits AND 0x7FF)"

definition dbl_frac :: "u64 \<Rightarrow> u64" where
  "dbl_frac bits = bits AND 0xFFFFFFFFFFFFF"

definition rat_2pow :: "int \<Rightarrow> rat" where
  "rat_2pow e = (if 0 \<le> e then 2 ^ nat e else inverse (2 ^ nat (- e)))"

definition dbl_magnitude :: "u64 \<Rightarrow> rat" where
  "dbl_magnitude bits =
     (if dbl_field bits = 0 then of_nat (unat (dbl_frac bits)) * rat_2pow (-1074)
      else of_nat (unat (dbl_frac bits) + 2 ^ 52) * rat_2pow (int (dbl_field bits) - 1075))"

definition decode_double :: "u64 \<Rightarrow> dbl" where
  "decode_double bits =
     (if dbl_field bits = 0x7FF then
        if dbl_frac bits \<noteq> 0 then DNaN else DInf (dbl_negative bits)
      else DFin (if dbl_negative bits then - dbl_magnitude bits else dbl_magnitude bits))"

text \<open>The C comparison operators, false on NaN.\<close>

fun dbl_less :: "dbl \<Rightarrow> dbl \<Rightarrow> bool" where
  "dbl_less (DFin a) (DFin b) = (a < b)"
| "dbl_less (DFin _) (DInf neg) = (\<not> neg)"
| "dbl_less (DInf neg) (DFin _) = neg"
| "dbl_less (DInf n1) (DInf n2) = (n1 \<and> \<not> n2)"
| "dbl_less _ _ = False"

fun dbl_eq :: "dbl \<Rightarrow> dbl \<Rightarrow> bool" where
  "dbl_eq (DFin a) (DFin b) = (a = b)"
| "dbl_eq (DInf n1) (DInf n2) = (n1 = n2)"
| "dbl_eq _ _ = False"

definition dbl_le :: "dbl \<Rightarrow> dbl \<Rightarrow> bool" where
  "dbl_le a b \<longleftrightarrow> dbl_less a b \<or> dbl_eq a b"

text \<open>\<^verbatim>\<open>b < 0 ? -floor(-b) : floor(b)\<close> on a finite double, and the C conversion to
  \<^verbatim>\<open>long long\<close>.\<close>

definition rat_toward_zero :: "rat \<Rightarrow> int" where
  "rat_toward_zero q = (if q < 0 then - \<lfloor>- q\<rfloor> else \<lfloor>q\<rfloor>)"

section \<open>Comparison\<close>

datatype number = Exact i64 | Inexact u64

definition int_cmp :: "int \<Rightarrow> int \<Rightarrow> int" where
  "int_cmp x y = of_bool (y < x) - of_bool (x < y)"

definition exact_vs_double_compare :: "i64 \<Rightarrow> dbl \<Rightarrow> int" where
  "exact_vs_double_compare a b =
     (if \<not> dbl_eq b b then 2
      else if dbl_le (DFin (2 ^ 63)) b then -1
      else if dbl_less b (DFin (- (2 ^ 63))) then 1
      else case b of
             DFin q \<Rightarrow>
               let floored = rat_toward_zero q;
                   bi = (word_of_int floored :: i64)
               in if a \<noteq> bi then (if sint a < sint bi then -1 else 1)
                  else if of_int floored < q then -1
                  else if q < of_int floored then 1
                  else 0
           | _ \<Rightarrow> 0)"

fun number_compare_exactly :: "number \<Rightarrow> number \<Rightarrow> int" where
  "number_compare_exactly (Exact x) (Exact y) = int_cmp (sint x) (sint y)"
| "number_compare_exactly (Exact x) (Inexact b) = exact_vs_double_compare x (decode_double b)"
| "number_compare_exactly (Inexact a) (Exact y) =
     (let cmp = exact_vs_double_compare y (decode_double a) in if cmp = 2 then 2 else - cmp)"
| "number_compare_exactly (Inexact a) (Inexact b) =
     (let x = decode_double a; y = decode_double b
      in if \<not> dbl_eq x x \<or> \<not> dbl_eq y y then 2
         else of_bool (dbl_less y x) - of_bool (dbl_less x y))"

fun number_is_nan :: "number \<Rightarrow> bool" where
  "number_is_nan (Exact _) = False"
| "number_is_nan (Inexact b) = (\<not> dbl_eq (decode_double b) (decode_double b))"

definition number_same_value :: "number \<Rightarrow> number \<Rightarrow> bool" where
  "number_same_value l r =
     (let ln = number_is_nan l; rn = number_is_nan r
      in if ln \<or> rn then ln \<and> rn else number_compare_exactly l r = 0)"

definition number_order :: "number \<Rightarrow> number \<Rightarrow> int" where
  "number_order l r =
     (let ln = number_is_nan l; rn = number_is_nan r
      in if ln \<or> rn then of_bool ln - of_bool rn else number_compare_exactly l r)"

section \<open>What a number denotes\<close>

fun num_val :: "number \<Rightarrow> dbl" where
  "num_val (Exact a) = DFin (of_int (sint a))"
| "num_val (Inexact b) = decode_double b"

text \<open>The extended line, NaN last: a class and, within the finite class, the value.\<close>

fun dbl_key :: "dbl \<Rightarrow> nat \<times> rat" where
  "dbl_key (DInf neg) = (if neg then (0, 0) else (2, 0))"
| "dbl_key (DFin q) = (1, q)"
| "dbl_key DNaN = (3, 0)"

definition key_cmp :: "nat \<times> rat \<Rightarrow> nat \<times> rat \<Rightarrow> int" where
  "key_cmp a b =
     (if fst a < fst b \<or> fst a = fst b \<and> snd a < snd b then -1
      else if a = b then 0 else 1)"

lemma dbl_eq_refl: "dbl_eq d d \<longleftrightarrow> d \<noteq> DNaN"
  by (cases d) auto

lemma rat_toward_zero_bounds:
  "q < 0 \<Longrightarrow> q \<le> of_int (rat_toward_zero q) \<and> of_int (rat_toward_zero q) < q + 1"
  "0 \<le> q \<Longrightarrow> of_int (rat_toward_zero q) \<le> q \<and> q < of_int (rat_toward_zero q) + 1"
  unfolding rat_toward_zero_def by (auto, linarith+)

lemma sint_word_of_int_64:
  assumes "- (2 ^ 63) \<le> (k::int)" "k < 2 ^ 63"
  shows "sint (word_of_int k :: i64) = k"
proof -
  have "signed_take_bit 63 k = k"
    using assms by (simp add: signed_take_bit_int_eq_self_iff)
  then show ?thesis by (simp add: sint_sbintrunc')
qed

lemma sint64_range: "- (2 ^ 63) \<le> sint (a::i64)" "sint (a::i64) < 2 ^ 63"
  using sint_range_size [of a] by (simp_all add: word_size)

text \<open>The comparison of an integer with a finite double is the sign of their difference.\<close>

lemma exact_vs_double_fin:
  "exact_vs_double_compare a (DFin q) =
     (if of_int (sint a) < q then -1 else if q < of_int (sint a) then 1 else 0)"
proof -
  let ?a = "of_int (sint a) :: rat"
  let ?f = "rat_toward_zero q"
  have lo: "- (2 ^ 63) \<le> ?a" and hi: "?a < 2 ^ 63"
    using sint64_range [of a] by (metis of_int_le_iff of_int_minus of_int_power of_int_numeral,
      metis of_int_less_iff of_int_power of_int_numeral)
  consider "2 ^ 63 \<le> q" | "q < - (2 ^ 63)" | "- (2 ^ 63) \<le> q" "q < 2 ^ 63" by linarith
  then show ?thesis
  proof cases
    case 1
    then show ?thesis using hi by (auto simp: exact_vs_double_compare_def dbl_le_def)
  next
    case 2
    then show ?thesis using lo by (auto simp: exact_vs_double_compare_def dbl_le_def)
  next
    case 3
    have f: "- (2 ^ 63) \<le> ?f" "?f < 2 ^ 63"
    proof -
      have "of_int (- (2 ^ 63)) < (of_int ?f + 1 :: rat) \<and> of_int ?f < (of_int (2 ^ 63) :: rat)"
        using 3 rat_toward_zero_bounds [of q] by (cases "q < 0") auto
      then have "- (2 ^ 63) < ?f + 1 \<and> ?f < 2 ^ 63"
        by (metis of_int_1 of_int_add of_int_less_iff)
      then show "- (2 ^ 63) \<le> ?f" "?f < 2 ^ 63" by simp_all
    qed
    then have bi: "sint (word_of_int ?f :: i64) = ?f" by (rule sint_word_of_int_64)
    then have ne: "a \<noteq> word_of_int ?f \<longleftrightarrow> sint a \<noteq> ?f"
      by (metis signed_word_eqI)
    have guards: "\<not> dbl_le (DFin (2 ^ 63)) (DFin q)" "\<not> dbl_less (DFin q) (DFin (- (2 ^ 63)))"
      using 3 by (auto simp: dbl_le_def)
    have step: "exact_vs_double_compare a (DFin q) =
        (if sint a \<noteq> ?f then (if sint a < ?f then -1 else 1)
         else if of_int ?f < q then -1 else if q < of_int ?f then 1 else 0)"
      using guards by (simp add: exact_vs_double_compare_def Let_def ne bi)
    show ?thesis
    proof (cases "sint a" ?f rule: linorder_cases)
      case less
      then have "of_int (sint a) + 1 \<le> (of_int ?f :: rat)"
        by (metis of_int_1 of_int_add of_int_le_iff zless_imp_add1_zle)
      then have "?a < q" using rat_toward_zero_bounds [of q] by (cases "q < 0") auto
      with less show ?thesis by (simp add: step)
    next
      case equal
      then show ?thesis by (simp add: step)
    next
      case greater
      then have "of_int ?f + 1 \<le> ?a"
        by (metis of_int_1 of_int_add of_int_le_iff zless_imp_add1_zle)
      then have "q < ?a" using rat_toward_zero_bounds [of q] by (cases "q < 0") auto
      with greater show ?thesis by (simp add: step)
    qed
  qed
qed

lemma exact_vs_double_inf: "exact_vs_double_compare a (DInf neg) = (if neg then 1 else -1)"
  by (simp add: exact_vs_double_compare_def dbl_le_def)

lemma int_cmp_key: "int_cmp x y = key_cmp (1, of_int x) (1, of_int y)"
  by (auto simp: int_cmp_def key_cmp_def)

lemma number_is_nan_val: "number_is_nan n \<longleftrightarrow> num_val n = DNaN"
  by (cases n) (auto simp: dbl_eq_refl)

lemma number_order_key: "number_order l r = key_cmp (dbl_key (num_val l)) (dbl_key (num_val r))"
proof (cases l; cases r)
  fix x y assume "l = Exact x" "r = Exact y"
  then show ?thesis by (simp add: number_order_def int_cmp_key Let_def)
next
  fix x b assume lr: "l = Exact x" "r = Inexact b"
  show ?thesis
    by (cases "decode_double b")
      (auto simp: lr number_order_def Let_def exact_vs_double_fin exact_vs_double_inf key_cmp_def)
next
  fix a y assume lr: "l = Inexact a" "r = Exact y"
  show ?thesis
    by (cases "decode_double a")
      (auto simp: lr number_order_def Let_def exact_vs_double_fin exact_vs_double_inf key_cmp_def)
next
  fix a b assume lr: "l = Inexact a" "r = Inexact b"
  show ?thesis
    by (cases "decode_double a"; cases "decode_double b")
      (auto simp: lr number_order_def Let_def key_cmp_def)
qed

lemma number_same_value_key:
  "number_same_value l r \<longleftrightarrow> dbl_key (num_val l) = dbl_key (num_val r)"
proof -
  have "number_same_value l r \<longleftrightarrow> number_order l r = 0"
    by (auto simp: number_same_value_def number_order_def Let_def)
  then show ?thesis by (auto simp: number_order_key key_cmp_def)
qed

lemma key_cmp_swap: "key_cmp b a = - key_cmp a b"
  by (cases a; cases b) (auto simp: key_cmp_def)

lemma key_cmp_trans: "key_cmp a b \<le> 0 \<Longrightarrow> key_cmp b c \<le> 0 \<Longrightarrow> key_cmp a c \<le> 0"
  by (cases a; cases b; cases c) (auto simp: key_cmp_def split: if_splits)

lemma key_cmp_values: "key_cmp a b \<in> {-1, 0, 1}"
  by (auto simp: key_cmp_def)

text \<open>\<^verbatim>\<open>number_order\<close> is a total order on numbers up to \<^verbatim>\<open>number_same_value\<close>:
  antisymmetric, transitive, always decided.\<close>

theorem number_order_total:
  "number_order b a = - number_order a b \<and>
   number_order a b \<in> {-1, 0, 1} \<and>
   (number_order a b = 0 \<longleftrightarrow> number_same_value a b) \<and>
   (number_order a b \<le> 0 \<longrightarrow> number_order b c \<le> 0 \<longrightarrow> number_order a c \<le> 0)"
proof (intro conjI impI)
  show "number_order b a = - number_order a b"
    unfolding number_order_key by (rule key_cmp_swap)
  show "number_order a b \<in> {-1, 0, 1}"
    unfolding number_order_key by (rule key_cmp_values)
  show "number_order a b = 0 \<longleftrightarrow> number_same_value a b"
    unfolding number_order_key number_same_value_key by (simp add: key_cmp_def)
  show "number_order a b \<le> 0 \<Longrightarrow> number_order b c \<le> 0 \<Longrightarrow> number_order a c \<le> 0"
    unfolding number_order_key by (rule key_cmp_trans)
qed

theorem number_order_total_witness:
  "number_order (Exact 3) (Exact 5) \<le> 0 \<and> number_order (Exact 5) (Exact 8) \<le> 0 \<and>
   number_order (Exact 3) (Exact 8) \<le> 0"
proof -
  have 1: "number_order (Exact 3) (Exact 5) \<le> 0" "number_order (Exact 5) (Exact 8) \<le> 0"
    by (simp_all add: number_order_def int_cmp_def)
  with number_order_total [of "Exact 5" "Exact 3" "Exact 8"] show ?thesis by blast
qed

text \<open>Comparing an exact integer with a double rounds neither: the answer is the sign of the
  difference of the two mathematical values.\<close>

theorem exact_vs_double_exact:
  "decode_double b = DFin q \<Longrightarrow>
   number_compare_exactly (Exact a) (Inexact b) =
     (if of_int (sint a) < q then -1 else if q < of_int (sint a) then 1 else 0)"
  by (simp add: exact_vs_double_fin)

theorem exact_vs_double_exact_witness:
  "number_compare_exactly (Exact 9007199254740993) (Inexact 0x4340000000000000) = 1"
proof -
  have d: "decode_double 0x4340000000000000 = DFin 9007199254740992"
    by (simp add: decode_double_def dbl_field_def dbl_frac_def dbl_negative_def dbl_magnitude_def
        rat_2pow_def)
  show ?thesis by (simp add: exact_vs_double_exact [OF d] del: number_compare_exactly.simps)
qed

end
