(* ===== verification/Crc32c.thy ===== *)
theory Crc32c
  imports Prelude
begin

text \<open>
  The checksum of \<^verbatim>\<open>src/gsql/store_common.c\<close>: CRC-32C by tables. \<open>crc_table\<close> is the
  table \<^verbatim>\<open>crc_init\<close> fills, \<open>crc32c_extend_portable\<close> the routine that reads eight bytes a
  round through eight tables and finishes byte by byte. The lemmas show that the eight-table
  round is the same function as eight byte steps, that checksums extend over concatenation, and
  that no change confined to one byte leaves a checksum as it was. The variant that uses a
  processor instruction is not modelled: what the instruction computes is not in the sources.
\<close>

section \<open>The tables\<close>

definition crc_poly :: u32 where
  "crc_poly = 0x82F63B78"

text \<open>One turn of the inner loop of \<^verbatim>\<open>crc_init\<close>, and the table it fills.\<close>

definition crc_shift :: "u32 \<Rightarrow> u32" where
  "crc_shift c = drop_bit 1 c XOR (crc_poly AND (0 - (c AND 1)))"

fun crc_table :: "nat \<Rightarrow> u32 \<Rightarrow> u32" where
  "crc_table 0 i = (crc_shift ^^ 8) i"
| "crc_table (Suc t) i =
     drop_bit 8 (crc_table t i) XOR (crc_shift ^^ 8) (crc_table t i AND 0xFF)"

section \<open>The checksum\<close>

text \<open>\<^verbatim>\<open>c = (c >> 8) ^ crc_table[0][(c ^ *p++) & 0xFF]\<close>\<close>

definition crc_byte :: "u32 \<Rightarrow> byte \<Rightarrow> u32" where
  "crc_byte c b = drop_bit 8 c XOR crc_table 0 ((c XOR ucast b) AND 0xFF)"

definition crc_round :: "u32 \<Rightarrow> byte \<Rightarrow> byte \<Rightarrow> byte \<Rightarrow> byte \<Rightarrow> byte \<Rightarrow> byte \<Rightarrow> byte \<Rightarrow> byte \<Rightarrow> u32" where
  "crc_round c0 p0 p1 p2 p3 p4 p5 p6 p7 =
     (let c = c0 XOR (ucast p0 OR push_bit 8 (ucast p1) OR push_bit 16 (ucast p2) OR
                      push_bit 24 (ucast p3))
      in crc_table 7 (c AND 0xFF) XOR crc_table 6 (drop_bit 8 c AND 0xFF) XOR
         crc_table 5 (drop_bit 16 c AND 0xFF) XOR crc_table 4 (drop_bit 24 c) XOR
         crc_table 3 (ucast p4) XOR crc_table 2 (ucast p5) XOR crc_table 1 (ucast p6) XOR
         crc_table 0 (ucast p7))"

fun crc_loop :: "u32 \<Rightarrow> bytes \<Rightarrow> u32" where
  "crc_loop c (p0 # p1 # p2 # p3 # p4 # p5 # p6 # p7 # p) =
     crc_loop (crc_round c p0 p1 p2 p3 p4 p5 p6 p7) p"
| "crc_loop c p = foldl crc_byte c p"

definition crc32c_extend_portable :: "u32 \<Rightarrow> bytes \<Rightarrow> u32" where
  "crc32c_extend_portable crc data = NOT (crc_loop (NOT crc) data)"

definition crc32c :: "bytes \<Rightarrow> u32" where
  "crc32c data = crc32c_extend_portable 0 data"

section \<open>The shift register is linear and injective\<close>

lemma crc_shift_cond: "crc_shift c = drop_bit 1 c XOR (if odd c then crc_poly else 0)"
proof -
  have "c AND 1 = of_bool (odd c)" by (simp add: and_one_eq mod_2_eq_odd)
  then show ?thesis by (auto simp: crc_shift_def)
qed

lemma crc_shift_xor: "crc_shift (a XOR b) = crc_shift a XOR crc_shift b"
proof -
  have "odd (a XOR b) \<longleftrightarrow> odd a \<noteq> odd b" by (auto simp: even_xor_iff)
  then show ?thesis
    by (auto simp: crc_shift_cond ac_simps intro!: bit_word_eqI)
qed

lemma crc_shift_pow_xor: "(crc_shift ^^ n) (a XOR b) = (crc_shift ^^ n) a XOR (crc_shift ^^ n) b"
  by (induction n) (simp_all add: crc_shift_xor)

lemma crc_shift_0 [simp]: "(crc_shift ^^ n) 0 = 0"
  by (induction n) (simp_all add: crc_shift_def)

text \<open>A value whose low bits are zero is only moved down.\<close>

lemma crc_shift_pow_low_zero:
  "take_bit n c = 0 \<Longrightarrow> (crc_shift ^^ n) c = drop_bit n c"
proof (induction n arbitrary: c)
  case 0
  then show ?case by simp
next
  case (Suc n)
  have "even c" using Suc.prems by (metis even_take_bit_eq even_zero zero_less_Suc nat.distinct(1))
  then have 1: "crc_shift c = drop_bit 1 c" by (simp add: crc_shift_cond)
  have "take_bit n (drop_bit 1 c) = 0"
    using Suc.prems by (simp add: take_bit_drop_bit add.commute del: take_bit_Suc)
  then have "(crc_shift ^^ n) (drop_bit 1 c) = drop_bit n (drop_bit 1 c)" by (rule Suc.IH)
  with 1 show ?case
    by (simp add: funpow_Suc_right drop_bit_drop_bit del: funpow.simps)
qed

lemma crc_shift_inj: "crc_shift a = 0 \<Longrightarrow> a = 0"
proof (rule ccontr)
  assume z: "crc_shift a = 0" and nz: "a \<noteq> 0"
  show False
  proof (cases "odd a")
    case True
    with z crc_shift_cond [of a] have "drop_bit 1 a XOR crc_poly = 0"
      by (simp only: if_True not_False_eq_True)
    then have "drop_bit 1 a = crc_poly" by (rule xor_eq_0_imp)
    then have "bit (drop_bit 1 a) 31" by (simp add: crc_poly_def)
    then have "bit a 32" by (simp add: bit_drop_bit_eq)
    then show False using bit_imp_le_length [of a 32] by simp
  next
    case False
    with z have "drop_bit 1 a = 0" by (simp add: crc_shift_cond)
    moreover have "take_bit 1 a = 0" using False by (simp add: take_bit_eq_mod even_iff_mod_2_eq_zero)
    ultimately show False using nz bits_ident [of 1 a] by simp
  qed
qed

lemma crc_shift_pow_inj: "(crc_shift ^^ n) a = 0 \<Longrightarrow> a = 0"
  by (induction n) (auto dest: crc_shift_inj)

section \<open>Bytes and rounds\<close>

lemma crc_shift8_split: "(crc_shift ^^ 8) x = drop_bit 8 x XOR (crc_shift ^^ 8) (x AND 0xFF)"
proof -
  let ?h = "push_bit 8 (drop_bit 8 x)"
  have x: "x = ?h XOR (x AND 0xFF)"
    unfolding and_255 by (rule bit_word_eqI) (auto simp: bit_simps)
  have "(crc_shift ^^ 8) ?h = drop_bit 8 ?h"
    by (rule crc_shift_pow_low_zero) (simp add: take_bit_push_bit)
  also have "\<dots> = drop_bit 8 x"
    by (rule bit_word_eqI) (auto simp: bit_simps dest: bit_imp_le_length)
  finally show ?thesis
    by (subst x) (simp only: crc_shift_pow_xor)
qed

lemma crc_shift8_byte: "(crc_shift ^^ 8) (push_bit (8 * Suc k) (ucast (b::byte))) = push_bit (8 * k) (ucast b)"
  if "k < 3"
proof -
  have "(crc_shift ^^ 8) (push_bit (8 * Suc k) (ucast b)) = drop_bit 8 (push_bit (8 * Suc k) (ucast b))"
    by (rule crc_shift_pow_low_zero) (simp add: take_bit_push_bit)
  also have "\<dots> = push_bit (8 * k) (ucast b)"
    using that by (intro bit_word_eqI) (auto simp: bit_simps dest: bit_imp_le_length)
  finally show ?thesis .
qed

lemma crc_byte_shift: "crc_byte c b = (crc_shift ^^ 8) (c XOR ucast b)"
proof -
  have "drop_bit 8 (c XOR ucast b) = drop_bit 8 c"
    by (rule bit_word_eqI) (auto simp: bit_simps dest: bit_imp_le_length)
  then show ?thesis
    by (subst crc_shift8_split) (simp add: crc_byte_def)
qed

lemma crc_table_shift: "crc_table t i = (crc_shift ^^ (8 * Suc t)) i"
proof (induction t)
  case 0
  then show ?case by simp
next
  case (Suc t)
  have "crc_table (Suc t) i = (crc_shift ^^ 8) (crc_table t i)"
    by (subst crc_shift8_split) simp
  also have "\<dots> = (crc_shift ^^ (8 + 8 * Suc t)) i"
    by (simp only: Suc funpow_add comp_apply)
  finally show ?case by simp
qed

lemma crc_pow_split:
  "(crc_shift ^^ (8 + n)) x = (crc_shift ^^ n) (drop_bit 8 x) XOR (crc_shift ^^ (8 + n)) (x AND 0xFF)"
proof -
  have "(crc_shift ^^ (8 + n)) y = (crc_shift ^^ n) ((crc_shift ^^ 8) y)" for y
    by (simp only: add.commute [of 8 n] funpow_add comp_apply)
  then show ?thesis by (simp add: crc_shift8_split [of x] crc_shift_pow_xor)
qed

text \<open>Eight table look-ups do what eight byte steps do.\<close>

lemma crc_round_bytes:
  "crc_round c p0 p1 p2 p3 p4 p5 p6 p7 = foldl crc_byte c [p0, p1, p2, p3, p4, p5, p6, p7]"
proof -
  define L where "L n = crc_shift ^^ n" for n
  have lin: "L n (a XOR b) = L n a XOR L n b" for n a b
    by (simp add: L_def crc_shift_pow_xor)
  have comp: "L m (L n a) = L (m + n) a" for m n a
    by (simp add: L_def funpow_add)
  have byte: "crc_byte a b = L 8 a XOR L 8 (ucast b)" for a b
    by (simp add: crc_byte_shift L_def crc_shift_pow_xor)
  have tab: "crc_table t i = L (8 * Suc t) i" for t i
    by (simp add: crc_table_shift L_def)
  let ?w = "c XOR (ucast p0 OR push_bit 8 (ucast p1) OR push_bit 16 (ucast p2) OR
                   push_bit 24 (ucast p3))"
  have or_xor: "(ucast p0 OR push_bit 8 (ucast p1) OR push_bit 16 (ucast p2) OR push_bit 24 (ucast p3) :: u32) =
      ucast p0 XOR push_bit 8 (ucast p1) XOR push_bit 16 (ucast p2) XOR push_bit 24 (ucast p3)"
    by (rule bit_word_eqI) (auto simp: bit_simps dest: bit_imp_le_length)
  have s1: "L (8 + n) (push_bit 8 (ucast (b::byte))) = L n (ucast b)" for n b
    using crc_shift8_byte [of 0 b] comp [of n 8 "push_bit 8 (ucast b)"]
    by (simp add: L_def add.commute)
  have s2: "L (16 + n) (push_bit 16 (ucast (b::byte))) = L n (ucast b)" for n b
    using crc_shift8_byte [of 1 b] comp [of "8 + n" 8 "push_bit 16 (ucast b)"] s1 [of n b]
    by (simp add: L_def add.commute)
  have s3: "L (24 + n) (push_bit 24 (ucast (b::byte))) = L n (ucast b)" for n b
    using crc_shift8_byte [of 2 b] comp [of "16 + n" 8 "push_bit 24 (ucast b)"] s2 [of n b]
    by (simp add: L_def add.commute)
  have w64: "L 64 ?w = L 64 c XOR L 64 (ucast p0) XOR L 56 (ucast p1) XOR L 48 (ucast p2) XOR L 40 (ucast p3)"
    using s1 [of 56 p1] s2 [of 48 p2] s3 [of 40 p3] unfolding or_xor lin by (simp add: ac_simps)
  have sp: "L (8 + n) x = L n (drop_bit 8 x) XOR L (8 + n) (x AND 0xFF)" for n x
    unfolding L_def by (rule crc_pow_split)
  have "L 64 ?w = L 40 (drop_bit 24 ?w) XOR L 48 (drop_bit 16 ?w AND 0xFF) XOR
      L 56 (drop_bit 8 ?w AND 0xFF) XOR L 64 (?w AND 0xFF)"
    using sp [of 56 ?w] sp [of 48 "drop_bit 8 ?w"] sp [of 40 "drop_bit 16 ?w"]
    by (simp only: drop_bit_drop_bit) (simp add: ac_simps)
  then have "crc_round c p0 p1 p2 p3 p4 p5 p6 p7 =
      L 64 ?w XOR L 32 (ucast p4) XOR L 24 (ucast p5) XOR L 16 (ucast p6) XOR L 8 (ucast p7)"
    unfolding crc_round_def Let_def tab by (simp add: ac_simps)
  also have "\<dots> = foldl crc_byte c [p0, p1, p2, p3, p4, p5, p6, p7]"
    by (subst w64, simp only: foldl.simps byte lin comp) (simp add: ac_simps)
  finally show ?thesis .
qed


lemma crc_loop_bytes: "crc_loop c p = foldl crc_byte c p"
  by (induction c p rule: crc_loop.induct) (simp_all add: crc_round_bytes)

text \<open>C8. The slicing-by-8 routine computes what the one-table, byte-at-a-time loop computes.\<close>

theorem crc32c_portable_bytewise:
  "crc32c_extend_portable crc data = NOT (foldl crc_byte (NOT crc) data)"
  by (simp add: crc32c_extend_portable_def crc_loop_bytes)

lemma crc32c_extend_foldl: "crc32c_extend_portable c p = NOT (foldl crc_byte (NOT c) p)"
  by (simp add: crc32c_extend_portable_def crc_loop_bytes)

lemma crc32c_extend_append:
  "crc32c_extend_portable crc (xs @ ys) =
     crc32c_extend_portable (crc32c_extend_portable crc xs) ys"
  by (simp add: crc32c_extend_foldl)

section \<open>What a checksum detects\<close>

lemma crc_bytes_shift:
  "length bs \<le> 4 \<Longrightarrow> foldl crc_byte c bs = (crc_shift ^^ (8 * length bs)) (c XOR get_le bs)"
proof (induction bs arbitrary: c)
  case Nil
  then show ?case by simp
next
  case (Cons b bs)
  let ?g = "get_le bs :: u32"
  have g: "(crc_shift ^^ 8) (push_bit 8 ?g) = ?g"
  proof -
    have "(crc_shift ^^ 8) (push_bit 8 ?g) = drop_bit 8 (push_bit 8 ?g)"
      by (rule crc_shift_pow_low_zero) (simp add: take_bit_push_bit)
    also have "\<dots> = ?g"
    proof (rule bit_word_eqI)
      fix n assume n: "n < LENGTH(32)"
      have "bit ?g n \<Longrightarrow> n < 24" using bit_get_le_imp [where 'a=32, of bs n] Cons.prems by simp
      with n show "bit (drop_bit 8 (push_bit 8 ?g)) n = bit ?g n" by (auto simp: bit_simps)
    qed
    finally show ?thesis .
  qed
  have or_xor: "push_bit 8 ?g OR ucast b = ucast b XOR push_bit 8 ?g"
    by (rule bit_word_eqI) (auto simp: bit_simps dest: bit_imp_le_length)
  have "foldl crc_byte c (b # bs) =
      (crc_shift ^^ (8 * length bs)) ((crc_shift ^^ 8) (c XOR ucast b) XOR ?g)"
    using Cons.IH [of "crc_byte c b"] Cons.prems crc_byte_shift [of c b] by simp
  also have "\<dots> = (crc_shift ^^ (8 * length bs)) ((crc_shift ^^ 8) (c XOR (ucast b XOR push_bit 8 ?g)))"
    using g by (simp only: crc_shift_pow_xor xor.assoc)
  also have "\<dots> = (crc_shift ^^ (8 * length (b # bs))) (c XOR get_le (b # bs))"
    by (simp only: get_le_Cons or_xor list.size mult_Suc_right add.commute [of 8] funpow_add comp_apply
        add_Suc_right add_0_right)
  finally show ?case .
qed

lemma crc_bytes_state_inj: "foldl crc_byte a s = foldl crc_byte b s \<Longrightarrow> a = b"
proof (induction s arbitrary: a b)
  case Nil
  then show ?case by simp
next
  case (Cons x s)
  then have "crc_byte a x = crc_byte b x" by simp
  then have "(crc_shift ^^ 8) ((a XOR ucast x) XOR (b XOR ucast x)) = 0"
    by (simp add: crc_byte_shift crc_shift_pow_xor)
  then have "(a XOR ucast x) XOR (b XOR ucast x) = 0" by (rule crc_shift_pow_inj)
  then have "a XOR b = 0" by (simp add: ac_simps)
  then show ?case by (rule xor_eq_0_imp)
qed

lemma get_le_inject4:
  assumes "(get_le xs :: u32) = get_le ys" "length xs = length ys" "length xs \<le> 4"
  shows "xs = ys"
  using put_le_get_le [of xs "length xs", where 'a=32] put_le_get_le [of ys "length xs", where 'a=32]
    assms by simp

lemma crc_burst:
  assumes "xs \<noteq> ys" "length xs = length ys" "length xs \<le> 4"
  shows "crc32c_extend_portable crc (p @ xs @ s) \<noteq> crc32c_extend_portable crc (p @ ys @ s)"
proof
  let ?c = "foldl crc_byte (NOT crc) p"
  assume "crc32c_extend_portable crc (p @ xs @ s) = crc32c_extend_portable crc (p @ ys @ s)"
  then have "foldl crc_byte (foldl crc_byte ?c xs) s = foldl crc_byte (foldl crc_byte ?c ys) s"
    by (simp add: crc32c_extend_foldl)
  then have "foldl crc_byte ?c xs = foldl crc_byte ?c ys" by (rule crc_bytes_state_inj)
  then have "(crc_shift ^^ (8 * length xs)) ((?c XOR get_le xs) XOR (?c XOR get_le ys)) = 0"
    using assms by (simp add: crc_bytes_shift crc_shift_pow_xor)
  then have "(?c XOR get_le xs) XOR (?c XOR get_le ys) = 0" by (rule crc_shift_pow_inj)
  then have "get_le xs XOR get_le ys = (0::u32)" by (simp add: ac_simps)
  then have "(get_le xs :: u32) = get_le ys" by (rule xor_eq_0_imp)
  with assms show False using get_le_inject4 by blast
qed

text \<open>No change confined to at most four adjacent bytes leaves a checksum unchanged.\<close>

theorem crc32c_detects_burst:
  assumes "xs \<noteq> ys" "length xs = length ys" "length xs \<le> 4"
  shows "crc32c (p @ xs @ s) \<noteq> crc32c (p @ ys @ s)"
  unfolding crc32c_def using assms by (rule crc_burst)

theorem crc32c_detects_burst_witness: "crc32c ([1] @ [2, 3] @ [4]) \<noteq> crc32c ([1] @ [2, 5] @ [4])"
  by (rule crc32c_detects_burst) simp_all

end
