(* ===== verification/Varint.thy ===== *)
theory Varint
  imports Prelude
begin

text \<open>
  The variable-length integers of the store, \<^verbatim>\<open>varint_put\<close>, \<^verbatim>\<open>varint_len\<close> and
  \<^verbatim>\<open>varint_get\<close> of \<^verbatim>\<open>src/gsql/store_common.c\<close> (LEB128: seven bits a byte, low group
  first, the top bit of a byte says another follows), and the locale that states what a client
  may rely on when one field is followed by others.
\<close>

section \<open>The interface of a self-delimiting field\<close>

text \<open>
  A writer and a reader of one field of a longer string: the reader finds the value and how many
  bytes it took, whatever follows. Clients are proved against this locale and each concrete
  field interprets it.
\<close>

locale field_codec =
  fixes put_field :: "'v \<Rightarrow> bytes"
    and get_field :: "bytes \<Rightarrow> ('v \<times> nat) option"
    and ok_field :: "'v \<Rightarrow> bool"
  assumes get_put: "ok_field v \<Longrightarrow> get_field (put_field v @ rest) = Some (v, length (put_field v))"
begin

lemma put_inject:
  assumes "ok_field v" "ok_field w" "put_field v @ r = put_field w @ s"
  shows "v = w \<and> r = s"
proof -
  have "get_field (put_field v @ r) = Some (v, length (put_field v))"
    using assms(1) by (rule get_put)
  moreover have "get_field (put_field w @ s) = Some (w, length (put_field w))"
    using assms(2) by (rule get_put)
  ultimately show ?thesis using assms(3) by simp
qed

lemma put_prefix_free:
  "ok_field v \<Longrightarrow> ok_field w \<Longrightarrow> put_field w = put_field v @ s \<Longrightarrow> s = []"
  using put_inject [of v w s "[]"] by simp

lemma put_many_inject:
  "list_all ok_field vs \<Longrightarrow> list_all ok_field ws \<Longrightarrow> length vs = length ws \<Longrightarrow>
   concat (map put_field vs) @ r = concat (map put_field ws) @ s \<Longrightarrow> vs = ws \<and> r = s"
proof (induction vs arbitrary: ws)
  case Nil
  then show ?case by simp
next
  case (Cons v vs)
  then obtain w ws' where ws: "ws = w # ws'" by (cases ws) auto
  with Cons.prems put_inject [of v w "concat (map put_field vs) @ r" "concat (map put_field ws') @ s"]
  have "v = w" "concat (map put_field vs) @ r = concat (map put_field ws') @ s" by simp_all
  with Cons ws show ?case by simp
qed

end

section \<open>Writing\<close>

function varint_put :: "u64 \<Rightarrow> bytes" where
  "varint_put v =
     (if 0x80 \<le> v then ucast (v OR 0x80) # varint_put (drop_bit 7 v) else [ucast v])"
  by pat_completeness auto

function varint_len :: "u64 \<Rightarrow> nat" where
  "varint_len v = (if 0x80 \<le> v then Suc (varint_len (drop_bit 7 v)) else 1)"
  by pat_completeness auto

lemma drop_bit_7_less: "0x80 \<le> v \<Longrightarrow> unat (drop_bit 7 (v::u64)) < unat v"
proof -
  assume "0x80 \<le> v"
  then have "0 < unat v" by (simp add: word_le_nat_alt)
  then have "unat v div 2 ^ 7 < unat v" by simp
  then show ?thesis by (simp only: unat_drop_bit_div)
qed

termination varint_put
  by (relation "measure unat") (auto intro: drop_bit_7_less)

termination varint_len
  by (relation "measure unat") (auto intro: drop_bit_7_less)

declare varint_put.simps [simp del] varint_len.simps [simp del]

section \<open>Reading\<close>

fun varint_get_from :: "nat \<Rightarrow> u64 \<Rightarrow> bytes \<Rightarrow> (u64 \<times> nat) option" where
  "varint_get_from i r [] = None"
| "varint_get_from i r (c # p) =
     (if 10 \<le> i then None
      else let b = ucast (c AND 0x7F)
           in if i = 9 \<and> 1 < b then None
              else let r' = r OR push_bit (7 * i) b
                   in if c AND 0x80 = 0 then Some (r', Suc i)
                      else varint_get_from (Suc i) r' p)"

definition varint_get :: "bytes \<Rightarrow> (u64 \<times> nat) option" where
  "varint_get p = varint_get_from 0 0 p"

section \<open>Round trip\<close>

lemma varint_len_put: "varint_len v = length (varint_put v)"
  by (induction v rule: varint_put.induct) (subst varint_len.simps, subst varint_put.simps, simp)

lemma bit_0x80: "bit (0x80::int) n \<longleftrightarrow> n = 7"
proof -
  have "bit (push_bit 7 1 :: int) n \<longleftrightarrow> n = 7"
    unfolding bit_push_bit_iff bit_1_iff by auto
  moreover have "push_bit 7 (1::int) = 0x80" by (simp add: push_bit_eq_mult)
  ultimately show ?thesis by argo
qed

text \<open>
  The loop invariant of the reader: \<open>r\<close> holds the groups already read and what is left of the
  value fits above bit \<open>7 * i\<close>.
\<close>

lemma varint_last_group: "take_bit 1 (v::u64) = v \<Longrightarrow> \<not> 1 < v"
proof -
  assume "take_bit 1 v = v"
  then have "v < 2 ^ 1" by (intro less_2p_take_bit [THEN iffD2]) simp_all
  then show ?thesis by (simp add: word_less_nat_alt)
qed

lemma varint_get_from_put:
  assumes "take_bit (64 - 7 * i) v = v" "i \<le> 9"
  shows "varint_get_from i r (varint_put v @ rest) =
     Some (r OR push_bit (7 * i) v, i + length (varint_put v))"
  using assms
proof (induction v arbitrary: i r rule: varint_put.induct)
  case (1 v)
  have bits: "bit v n \<Longrightarrow> n < 64 - 7 * i" for n
    using "1.prems"(1) by (metis bit_take_bit_iff)
  have last: "v = take_bit 1 v" if "i = 9"
    using that "1.prems" by simp
  show ?case
  proof (cases "0x80 \<le> v")
    case False
    then have "v < 2 ^ 7" by simp
    then have small: "take_bit 7 v = v" by (intro less_2p_take_bit [THEN iffD1]) simp_all
    have b: "ucast ((ucast v :: byte) AND 0x7F) = v"
      unfolding and_127
      by (rule bit_word_eqI) (use small in \<open>auto simp: bit_simps bit_eq_iff [of "take_bit 7 v"]\<close>)
    have c: "(ucast v :: byte) AND 0x80 = 0"
      unfolding and_128_eq_0 using small by (metis bit_take_bit_iff bit_ucast_iff less_irrefl)
    from False have p: "varint_put v = [ucast v]" by (simp add: varint_put.simps)
    have "\<not> (i = 9 \<and> 1 < v)" using last varint_last_group by metis
    with "1.prems" show ?thesis by (simp add: p b c)
  next
    case True
    let ?c = "ucast (v OR 0x80) :: byte"
    have i: "i < 9"
    proof (rule ccontr)
      assume "\<not> i < 9"
      with "1.prems" have "i = 9" by simp
      with last varint_last_group [of v] have "\<not> 1 < v" by metis
      with True show False by (simp add: word_less_nat_alt word_le_nat_alt)
    qed
    have b: "ucast (?c AND 0x7F) = take_bit 7 v"
      unfolding and_127 by (rule bit_word_eqI) (auto simp: bit_simps bit_0x80)
    have c: "?c AND 0x80 \<noteq> 0"
      unfolding and_128_eq_0 by (simp add: bit_simps bit_0x80)
    have d: "take_bit (64 - 7 * Suc i) (drop_bit 7 v) = drop_bit 7 v"
      by (rule bit_word_eqI) (auto simp: bit_simps dest: bits)
    have e: "push_bit (7 * i) (take_bit 7 v) OR push_bit (7 * Suc i) (drop_bit 7 v) = push_bit (7 * i) v"
    proof (rule bit_word_eqI)
      fix n assume "n < LENGTH(64)"
      show "bit (push_bit (7 * i) (take_bit 7 v) OR push_bit (7 * Suc i) (drop_bit 7 v)) n =
          bit (push_bit (7 * i) v) n"
      proof (cases "7 * Suc i \<le> n")
        case True
        then have "7 + (n - (7 + 7 * i)) = n - 7 * i" by simp
        with True \<open>n < LENGTH(64)\<close> show ?thesis by (auto simp: bit_simps)
      next
        case False
        then show ?thesis by (auto simp: bit_simps)
      qed
    qed
    from True have p: "varint_put v = ?c # varint_put (drop_bit 7 v)" by (simp add: varint_put.simps)
    from "1.IH" [OF True d, of "r OR push_bit (7 * i) (take_bit 7 v)"] i
    show ?thesis by (simp add: p b c or.assoc e del: mult_Suc_right)
  qed
qed

lemma varint_put_length_bounded: "take_bit (7 * n) v = v \<Longrightarrow> 0 < n \<Longrightarrow> length (varint_put v) \<le> n"
proof (induction v arbitrary: n rule: varint_put.induct)
  case (1 v)
  show ?case
  proof (cases "0x80 \<le> v")
    case False
    with "1.prems" show ?thesis by (simp add: varint_put.simps)
  next
    case True
    have bits: "k < 7 * n" if "bit v k" for k using that "1.prems"(1) by (metis bit_take_bit_iff)
    have "n \<noteq> 1"
    proof
      assume "n = 1"
      then have "v < 0x80" using "1.prems"(1) less_2p_take_bit [of 7 v] by simp
      with True show False by simp
    qed
    with "1.prems" obtain m where n: "n = Suc m" "0 < m" by (cases n) auto
    have "take_bit (7 * m) (drop_bit 7 v) = drop_bit 7 v"
      using n bits by (intro bit_word_eqI) (fastforce simp: bit_simps)
    from "1.IH" [OF True this n(2)] True n show ?thesis by (simp add: varint_put.simps)
  qed
qed

lemma varint_put_length: "length (varint_put v) \<le> 10"
  by (rule varint_put_length_bounded) (simp_all add: take_bit_word_eq_self)

lemma varint_put_nonempty [simp]: "varint_put v \<noteq> []"
  by (simp add: varint_put.simps)

lemma varint_get_put [simp, rt_simps]:
  "varint_get (varint_put v @ rest) = Some (v, length (varint_put v))"
  using varint_get_from_put [of 0 v 0 rest] by (simp add: varint_get_def take_bit_word_eq_self)

interpretation varint: field_codec varint_put varint_get "\<lambda>_. True"
  by unfold_locales simp

section \<open>What the reader accepts\<close>

lemma varint_get_from_bounds:
  "varint_get_from i r p = Some (v, n) \<Longrightarrow> i < n \<and> n \<le> i + length p \<and> n \<le> 10"
proof (induction i r p rule: varint_get_from.induct)
  case (1 i r)
  then show ?case by simp
next
  case (2 i r c p)
  then show ?case by (fastforce simp: Let_def split: if_splits)
qed

text \<open>What is not used is not read: the reader depends on the bytes it took only.\<close>

lemma varint_get_from_prefix:
  "varint_get_from i r p = Some (v, n) \<Longrightarrow>
   varint_get_from i r (take (n - i) p @ q) = Some (v, n)"
proof (induction i r p rule: varint_get_from.induct)
  case (1 i r)
  then show ?case by simp
next
  case (2 i r c p)
  from "2.prems" have "i < n" using varint_get_from_bounds by blast
  then obtain k where k: "n - i = Suc k" "n - Suc i = k" by (cases "n - i") auto
  with 2 show ?case by (auto simp: Let_def split: if_splits)
qed

end
