(* ===== verification/Store_Common.thy ===== *)
theory Store_Common
  imports Crc32c Varint
begin

text \<open>
  The rest of \<^verbatim>\<open>src/gsql/store_common.c\<close>: the comparison of keys, the file header, the
  header every page carries, and the small path and status helpers. A buffer is the list of its
  bytes; a field written at an offset is \<open>poke\<close>, one read there is \<open>peek\<close>.
\<close>

section \<open>Statuses\<close>

text \<open>\<^verbatim>\<open>GsStatus\<close> of \<^verbatim>\<open>include/gsql_store.h\<close>, in its order.\<close>

datatype gs_status =
    GS_OK | GS_NOT_FOUND | GS_EXISTS | GS_ORDER | GS_BUSY | GS_TOO_LARGE | GS_INVALIDATED
  | GS_CORRUPT | GS_IO | GS_FULL | GS_FAILED | GS_FORMAT | GS_READ_ONLY | GS_MISUSE
  | GS_ELSEWHERE | GS_FENCED

text \<open>The return codes of the I/O layer the store tells apart.\<close>

datatype io_code =
    IO_OK | ENOSPC | EWOULDBLOCK | IO_FENCED | ENOENT | EEXIST | ENOTDIR | EIO | EISDIR | EBADF | EXDEV | EDEADLK
  | IO_CRASHED | IO_ERRNO nat

definition gs_io_status :: "io_code \<Rightarrow> gs_status" where
  "gs_io_status rc =
     (if rc = IO_OK then GS_OK
      else if rc = ENOSPC then GS_FULL
      else if rc = EWOULDBLOCK then GS_BUSY
      else if rc = IO_FENCED then GS_FENCED
      else GS_IO)"

text \<open>Where a cursor seeks, and the length of the longest key (\<^verbatim>\<open>gsql_store.h\<close>).\<close>

datatype gs_seek = SEEK_GE | SEEK_GT | SEEK_LE | SEEK_LT | SEEK_EXACT

definition GS_MAX_KEY :: nat where
  "GS_MAX_KEY = 1024"

section \<open>Key comparison\<close>

definition bytes_cmp :: "bytes \<Rightarrow> bytes \<Rightarrow> int" where
  "bytes_cmp a b =
     (let n = (if length a < length b then length a else length b);
          c = (if n \<noteq> 0 then memcmp a b n else 0)
      in if c \<noteq> 0 then (if c < 0 then -1 else 1)
         else if length a < length b then -1
         else if length b < length a then 1 else 0)"

lemma memcmp_min: "(if length a < length b then length a else length b) = min (length a) (length b)"
  by simp

lemma bytes_cmp_unfold:
  "bytes_cmp a b =
     (let c = memcmp a b (min (length a) (length b))
      in if c \<noteq> 0 then c
         else if length a < length b then -1
         else if length b < length a then 1 else 0)"
  using memcmp_values [of a b "min (length a) (length b)"]
  by (auto simp: bytes_cmp_def Let_def min_def)

lemma bytes_cmp_byte_lt: "byte_lt a b \<Longrightarrow> bytes_cmp a b = -1"
  by (simp add: bytes_cmp_unfold byte_lt_memcmp)

lemma bytes_cmp_swap: "bytes_cmp b a = - bytes_cmp a b"
  using memcmp_swap [of b a "min (length a) (length b)"]
  by (auto simp: bytes_cmp_unfold Let_def min.commute [of "length b"])

lemma bytes_cmp_values: "bytes_cmp a b \<in> {-1, 0, 1}"
  using memcmp_values [of a b "min (length a) (length b)"]
  by (auto simp: bytes_cmp_unfold Let_def)

lemma bytes_cmp_eq_0: "bytes_cmp a b = 0 \<longleftrightarrow> a = b"
proof -
  have "memcmp a b (min (length a) (length b)) = 0 \<longleftrightarrow>
      take (min (length a) (length b)) a = take (min (length a) (length b)) b"
    by (rule memcmp_zero_iff) simp_all
  then show ?thesis
    by (auto simp: bytes_cmp_unfold Let_def)
qed

lemma bytes_cmp_Cons:
  "bytes_cmp (x # a) (y # b) = (if x < y then -1 else if y < x then 1 else bytes_cmp a b)"
  by (simp add: bytes_cmp_unfold)

lemma bytes_cmp_Nil [simp]: "bytes_cmp [] (y # b) = -1" "bytes_cmp (x # a) [] = 1" "bytes_cmp [] [] = 0"
  by (simp_all add: bytes_cmp_unfold)

lemma bytes_cmp_trans: "bytes_cmp a b \<le> 0 \<Longrightarrow> bytes_cmp b c \<le> 0 \<Longrightarrow> bytes_cmp a c \<le> 0"
proof (induction a arbitrary: b c)
  case Nil
  then show ?case by (cases c) simp_all
next
  case (Cons x a)
  then obtain y b' where b: "b = y # b'" by (cases b) auto
  with Cons.prems obtain z c' where c: "c = z # c'" by (cases c) auto
  from Cons.prems b c show ?case
    by (auto simp: bytes_cmp_Cons split: if_splits dest: Cons.IH)
qed

section \<open>The file header\<close>

record gs_file_header =
  major :: u16
  minor :: u16
  page_size :: u32
  identity :: bytes
  created :: u64
  flags :: u32

definition GS_MAGIC :: bytes where
  "GS_MAGIC = [0x47, 0x53, 0x51, 0x4C, 0x44, 0x42, 0x00, 0x01]"

definition GS_HEADER_FIXED :: nat where
  "GS_HEADER_FIXED = 80"

definition gs_header_write :: "gs_file_header \<Rightarrow> bytes" where
  "gs_header_write h =
     (let p = replicate GS_HEADER_FIXED 0;
          p = poke 0 GS_MAGIC p;
          p = poke 8 (put_le 2 (major h)) p;
          p = poke 10 (put_le 2 (minor h)) p;
          p = poke 12 (put_le 4 (page_size h)) p;
          p = poke 16 (identity h) p;
          p = poke 32 (put_le 8 (created h)) p;
          p = poke 40 (put_le 4 (flags h)) p
      in poke 76 (put_le 4 (crc32c (take 76 p))) p)"

definition gs_header_read :: "bytes \<Rightarrow> u16 \<Rightarrow> gs_status + gs_file_header" where
  "gs_header_read p maj =
     (if length p < GS_HEADER_FIXED \<or> peek 0 8 p \<noteq> GS_MAGIC then Inl GS_FORMAT
      else if get_le (peek 76 4 p) \<noteq> crc32c (take 76 p) then Inl GS_CORRUPT
      else let h_major = get_le (peek 8 2 p);
               h_minor = get_le (peek 10 2 p)
           in if h_major \<noteq> maj then Inl GS_FORMAT
              else let ps = get_le (peek 12 4 p);
                       h = \<lparr>major = h_major, minor = h_minor, page_size = ps,
                            identity = peek 16 16 p, created = get_le (peek 32 8 p),
                            flags = get_le (peek 40 4 p)\<rparr>
                   in if ps < 512 \<or> 65536 < ps \<or> ps AND (ps - 1) \<noteq> 0 then Inl GS_CORRUPT
                      else Inr h)"

definition header_ok :: "gs_file_header \<Rightarrow> bool" where
  "header_ok h \<longleftrightarrow> length (identity h) = 16 \<and>
     \<not> (page_size h < 512 \<or> 65536 < page_size h \<or> page_size h AND (page_size h - 1) \<noteq> 0)"

lemma take_poke [simp]: "k \<le> off \<Longrightarrow> off + length bs \<le> length p \<Longrightarrow> take k (poke off bs p) = take k p"
  by (simp add: poke_def)

lemma peek_append [simp]: "off + n \<le> length p \<Longrightarrow> peek off n (p @ q) = peek off n p"
  by (simp add: peek_def)

lemma GS_MAGIC_length [simp]: "length GS_MAGIC = 8"
  by (simp add: GS_MAGIC_def)

lemma gs_header_write_length [simp]: "length (identity h) = 16 \<Longrightarrow> length (gs_header_write h) = 80"
  by (simp add: gs_header_write_def Let_def GS_HEADER_FIXED_def)

lemma header_read_write:
  assumes "header_ok h"
  shows "gs_header_read (gs_header_write h @ rest) (major h) = Inr h"
proof -
  from assms have "length (identity h) = 16" by (simp add: header_ok_def)
  with assms show ?thesis
    by (simp add: gs_header_read_def gs_header_write_length)
      (simp add: gs_header_write_def Let_def GS_HEADER_FIXED_def header_ok_def)
qed

text \<open>A header read back is the header written, whatever follows it in the page.\<close>

theorem gs_header_roundtrip:
  "header_ok h \<Longrightarrow> gs_header_read (gs_header_write h @ rest) (major h) = Inr h"
  by (rule header_read_write)

theorem gs_header_roundtrip_witness:
  "gs_header_read (gs_header_write \<lparr>major = 1, minor = 0, page_size = 4096, identity = replicate 16 7,
     created = 5, flags = 0\<rparr> @ [9, 9]) 1 =
   Inr \<lparr>major = 1, minor = 0, page_size = 4096, identity = replicate 16 7, created = 5, flags = 0\<rparr>"
proof -
  let ?h = "\<lparr>major = 1, minor = 0, page_size = 4096, identity = replicate 16 7, created = 5, flags = 0\<rparr>"
  have "header_ok ?h" by (simp add: header_ok_def)
  from gs_header_roundtrip [OF this, of "[9, 9]"] show ?thesis by simp
qed

text \<open>What a caller may rely on after \<open>GS_OK\<close>: the version is its own and the page size a power of two.\<close>

lemma and_minus_1_power:
  fixes x :: u32
  assumes "x AND (x - 1) = 0" "x \<noteq> 0"
  obtains k where "unat x = 2 ^ k"
proof -
  let ?n = "unat x"
  have pos: "0 < ?n" using assms(2) by (simp add: unat_gt_0)
  then obtain k where k: "2 ^ k \<le> ?n" "?n < 2 ^ (k + 1)"
    using ex_power_ivl1 [of 2 ?n] by auto
  have m: "unat (x - 1) = ?n - 1" using assms(2) by (rule unat_minus_one)
  have bitk: "bit j k" if "2 ^ k \<le> j" "j < 2 ^ (k + 1)" for j :: nat
  proof -
    have "j div 2 ^ k = 1" using that by (intro div_nat_eqI) simp_all
    then show ?thesis by (simp add: bit_iff_odd)
  qed
  show ?thesis
  proof (cases "?n = 2 ^ k")
    case True
    then show ?thesis by (rule that)
  next
    case False
    with k pos have "bit (unat x) k" "bit (unat (x - 1)) k"
      by (auto simp: m intro!: bitk)
    then have "bit (x AND (x - 1)) k" by (simp add: bit_and_iff bit_unsigned_iff)
    with assms(1) show ?thesis by simp
  qed
qed

text \<open>A header that is accepted has the caller's major and a page size that is a power of two
  from 512 to 65536, and its first 76 bytes carry the checksum that follows them.\<close>

theorem gs_header_read_sound:
  assumes "gs_header_read p maj = Inr h"
  shows "major h = maj \<and> (\<exists>k. 9 \<le> k \<and> k \<le> 16 \<and> unat (page_size h) = 2 ^ k) \<and>
         length (identity h) = 16 \<and> get_le (peek 76 4 p) = crc32c (take 76 p)"
proof -
  from assms have ok: "major h = maj" "512 \<le> page_size h" "page_size h \<le> 65536"
      "page_size h AND (page_size h - 1) = 0" "length (identity h) = 16"
      "get_le (peek 76 4 p) = crc32c (take 76 p)"
    by (auto simp: gs_header_read_def Let_def GS_HEADER_FIXED_def split: if_splits)
  then have "page_size h \<noteq> 0" by auto
  with ok(4) obtain k where k: "unat (page_size h) = 2 ^ k" by (rule and_minus_1_power)
  from ok(2,3) k have "(2::nat) ^ 9 \<le> 2 ^ k" "(2::nat) ^ k \<le> 2 ^ 16"
    by (simp_all add: word_le_nat_alt)
  then have "9 \<le> k" "k \<le> 16" by (simp_all only: power_increasing_iff one_less_numeral_iff semiring_norm)
  with ok k show ?thesis by auto
qed


theorem gs_header_read_sound_witness:
  "\<exists>p h. gs_header_read p 1 = Inr h \<and> major h = 1 \<and> (\<exists>k. 9 \<le> k \<and> k \<le> 16 \<and> unat (page_size h) = 2 ^ k)"
proof -
  let ?h = "\<lparr>major = 1, minor = 0, page_size = 4096, identity = replicate 16 7, created = 5, flags = 0\<rparr>"
  have "header_ok ?h" by (simp add: header_ok_def)
  then have r: "gs_header_read (gs_header_write ?h @ []) 1 = Inr ?h"
    using header_read_write [of ?h "[]"] by simp
  from gs_header_read_sound [OF r] r show ?thesis by blast
qed

section \<open>The page header\<close>

text \<open>
  \<open>ps\<close> is the page size and a page is the list of its bytes. A page number is written at 8, the
  commit id at 16, and the checksum, at 4, is taken with its own field zero.
\<close>

definition gs_page_seal :: "bytes \<Rightarrow> nat \<Rightarrow> u64 \<Rightarrow> u64 \<Rightarrow> bytes" where
  "gs_page_seal page ps pgno commit_id =
     (let page = poke 8 (put_le 8 pgno) page;
          page = poke 16 (put_le 8 commit_id) page;
          page = poke 4 (put_le 4 (0::u32)) page
      in poke 4 (put_le 4 (crc32c (take ps page))) page)"

definition gs_page_verify :: "bytes \<Rightarrow> nat \<Rightarrow> u64 \<Rightarrow> gs_status" where
  "gs_page_verify page ps pgno =
     (let want = get_le (peek 4 4 page);
          c = crc32c_extend_portable 0 (peek 0 4 page);
          c = crc32c_extend_portable c [0, 0, 0, 0];
          c = crc32c_extend_portable c (peek 8 (ps - 8) page)
      in if c \<noteq> want then GS_CORRUPT
         else if page ! 0 = 0 then GS_CORRUPT
         else if get_le (peek 8 8 page) \<noteq> pgno then GS_CORRUPT
         else GS_OK)"

definition gs_page_type :: "bytes \<Rightarrow> byte" where
  "gs_page_type page = page ! 0"

definition gs_page_commit :: "bytes \<Rightarrow> u64" where
  "gs_page_commit page = get_le (peek 16 8 page)"

text \<open>What the checksum is over: the page with zeros in its field.\<close>

definition page_body :: "bytes \<Rightarrow> bytes" where
  "page_body page = take 4 page @ [0, 0, 0, 0] @ drop 8 page"

lemma page_verify_body:
  "length page = ps \<Longrightarrow> 24 \<le> ps \<Longrightarrow>
   gs_page_verify page ps pgno =
     (if crc32c (page_body page) \<noteq> get_le (peek 4 4 page) \<or> page ! 0 = 0 \<or>
         get_le (peek 8 8 page) \<noteq> pgno
      then GS_CORRUPT else GS_OK)"
  unfolding gs_page_verify_def crc32c_def page_body_def crc32c_extend_append Let_def
  by (simp add: peek_def)

lemma put_le_zero4: "put_le 4 (0::u32) = [0, 0, 0, 0]"
  by (simp add: put_le_def upt_rec)

lemma page_body_poke4: "length bs = 4 \<Longrightarrow> 8 \<le> length p \<Longrightarrow> page_body (poke 4 bs p) = page_body p"
  by (simp add: page_body_def poke_def)

lemma page_body_zero: "8 \<le> length p \<Longrightarrow> poke 4 [0, 0, 0, 0] p = page_body p"
  by (simp add: page_body_def poke_def)

lemma nth_poke: "i < off \<Longrightarrow> off \<le> length p \<Longrightarrow> poke off bs p ! i = p ! i"
  by (simp add: poke_def nth_append)

lemma page_seal_length [simp]: "24 \<le> length page \<Longrightarrow> length (gs_page_seal page ps n c) = length page"
  by (simp add: gs_page_seal_def Let_def)

lemma page_seal_crc:
  assumes "length page = ps" "24 \<le> ps"
  shows "get_le (peek 4 4 (gs_page_seal page ps n c)) = crc32c (page_body (gs_page_seal page ps n c))"
  using assms
  by (simp add: gs_page_seal_def Let_def page_body_poke4 put_le_zero4)
    (simp add: page_body_zero)

lemma page_verify_sealed:
  assumes "length page = ps" "24 \<le> ps" "gs_page_type page \<noteq> 0"
  shows "gs_page_verify (gs_page_seal page ps pgno cid) ps n = (if n = pgno then GS_OK else GS_CORRUPT) \<and>
         gs_page_commit (gs_page_seal page ps pgno cid) = cid"
proof -
  let ?q = "gs_page_seal page ps pgno cid"
  have q0: "?q ! 0 = page ! 0"
    using assms by (simp add: gs_page_seal_def Let_def nth_poke)
  have num: "get_le (peek 8 8 ?q) = pgno" and com: "gs_page_commit ?q = cid"
    using assms by (simp_all add: gs_page_seal_def Let_def gs_page_commit_def)
  have crc: "crc32c (page_body ?q) = get_le (peek 4 4 ?q)"
    using page_seal_crc [OF assms(1,2), of pgno cid] by simp
  have len: "length ?q = ps" using assms by simp
  have nz: "page ! 0 \<noteq> 0" using assms(3) by (simp add: gs_page_type_def)
  show ?thesis
    unfolding page_verify_body [OF len assms(2)] com crc num q0 using nz by auto
qed

text \<open>A sealed page verifies under its own number and under no other; its commit id reads back.\<close>

theorem page_seal_verify:
  "length page = ps \<Longrightarrow> 24 \<le> ps \<Longrightarrow> gs_page_type page \<noteq> 0 \<Longrightarrow>
   gs_page_verify (gs_page_seal page ps pgno cid) ps n = (if n = pgno then GS_OK else GS_CORRUPT) \<and>
   gs_page_commit (gs_page_seal page ps pgno cid) = cid"
  by (rule page_verify_sealed)

theorem page_seal_verify_witness:
  "gs_page_verify (gs_page_seal (2 # replicate 31 0) 32 7 9) 32 7 = GS_OK \<and>
   gs_page_verify (gs_page_seal (2 # replicate 31 0) 32 7 9) 32 8 = GS_CORRUPT"
  using page_seal_verify [of "2 # replicate 31 0" 32 7 9 7] page_seal_verify [of "2 # replicate 31 0" 32 7 9 8]
  by (simp add: gs_page_type_def)

lemma get_le_inject:
  assumes "(get_le xs :: 'a::len word) = get_le ys" "length xs = length ys" "8 * length xs \<le> LENGTH('a)"
  shows "xs = ys"
proof -
  have "xs = put_le (length xs) (get_le xs :: 'a word)"
    using assms(3) by (simp only: put_le_get_le)
  also have "\<dots> = put_le (length ys) (get_le ys :: 'a word)"
    by (simp only: assms)
  also have "\<dots> = ys"
    using assms(2,3) by (intro put_le_get_le) simp_all
  finally show ?thesis .
qed

text \<open>A page that verified does not verify after a change confined to at most four adjacent
  bytes, when the change lies in the checksum or clear of it.\<close>

theorem page_verify_detects_burst:
  assumes ok: "gs_page_verify (p @ xs @ s) ps pgno = GS_OK"
    and ps: "length (p @ xs @ s) = ps" "24 \<le> ps"
    and diff: "xs \<noteq> ys" "length xs = length ys" "length xs \<le> 4"
    and clear: "length p + length xs \<le> 4 \<or> 8 \<le> length p \<or> (4 \<le> length p \<and> length p + length xs \<le> 8)"
  shows "gs_page_verify (p @ ys @ s) ps n = GS_CORRUPT"
proof -
  let ?f = "\<lambda>z. p @ z @ s"
  from ok ps have crc: "crc32c (page_body (?f xs)) = get_le (peek 4 4 (?f xs))"
    by (simp add: page_verify_body split: if_splits)
  have "crc32c (page_body (?f ys)) \<noteq> get_le (peek 4 4 (?f ys))"
  proof (cases "4 \<le> length p \<and> length p + length xs \<le> 8")
    case True
    then have same: "page_body (?f ys) = page_body (?f xs)"
    proof -
      have "drop (8 - length p) ys = []" "drop (8 - length p) xs = []"
        using True diff(2) unfolding drop_eq_Nil by linarith+
      then show ?thesis using True diff by (simp add: page_body_def)
    qed
    have "peek 4 4 (?f ys) \<noteq> peek 4 4 (?f xs)"
    proof
      assume eq: "peek 4 4 (?f ys) = peek 4 4 (?f xs)"
      have pk: "peek 4 4 (?f z) = drop 4 p @ z @ take (8 - (length p + length xs)) s"
        if "length z = length xs" for z
      proof -
        have "4 - (length p - 4) = 8 - length p" using True by linarith
        moreover have "8 - length p - length xs = 8 - (length p + length xs)" by simp
        moreover have "length p - 4 \<le> 4" "length xs \<le> 8 - length p" using True by linarith+
        ultimately show ?thesis using True that by (simp add: peek_def)
      qed
      from pk [of xs] pk [of ys] eq diff show False by simp
    qed
    then have "(get_le (peek 4 4 (?f ys)) :: u32) \<noteq> get_le (peek 4 4 (?f xs))"
      using ps diff get_le_inject [of "peek 4 4 (?f ys)" "peek 4 4 (?f xs)", where 'a=32] by auto
    with same crc show ?thesis by simp
  next
    case False
    with clear have cl: "length p + length xs \<le> 4 \<or> 8 \<le> length p" by blast
    then obtain a b where ab: "page_body (?f z) = a @ z @ b" if "length z = length xs" for z
    proof
      assume "length p + length xs \<le> 4"
      then have "page_body (?f z) = p @ z @ (take (4 - (length p + length xs)) s @ [0, 0, 0, 0] @
          drop (8 - (length p + length xs)) s)" if "length z = length xs" for z
        using that by (simp add: page_body_def)
      then show ?thesis by (rule that)
    next
      assume "8 \<le> length p"
      then have "page_body (?f z) = (take 4 p @ [0, 0, 0, 0] @ drop 8 p) @ z @ s" if "length z = length xs" for z
        using that by (simp add: page_body_def)
      then show ?thesis by (rule that)
    qed
    have "crc32c (page_body (?f ys)) \<noteq> crc32c (page_body (?f xs))"
      unfolding ab [OF refl] ab [OF diff(2) [symmetric]] crc32c_def
      using diff by (intro crc_burst) simp_all
    moreover have "peek 4 4 (?f ys) = peek 4 4 (?f xs)"
      using cl diff by (auto simp: peek_def)
    ultimately show ?thesis using crc by metis
  qed
  then show ?thesis using ps diff by (simp add: page_verify_body)
qed

theorem page_verify_detects_burst_witness:
  "\<exists>page. length page = 32 \<and> gs_page_verify page 32 7 = GS_OK \<and>
     gs_page_verify ([0] @ drop 1 page) 32 7 = GS_CORRUPT"
proof -
  let ?q = "gs_page_seal (2 # replicate 31 0) 32 7 9"
  have len: "length ?q = 32" by simp
  have "?q ! 0 = 2" by (simp add: gs_page_seal_def Let_def nth_poke)
  with len obtain b where q: "?q = [] @ [2] @ b" by (cases ?q) auto
  have ok: "gs_page_verify ?q 32 7 = GS_OK"
    using page_verify_sealed [of "2 # replicate 31 0" 32 7 9 7] by (simp add: gs_page_type_def)
  have "gs_page_verify ([] @ [0] @ b) 32 7 = GS_CORRUPT"
    by (rule page_verify_detects_burst [of "[]" "[2]" b 32 7]) (use ok len in \<open>simp_all add: q\<close>)
  with ok len q show ?thesis by (intro exI [of _ ?q]) simp
qed

section \<open>Paths and names\<close>

text \<open>\<^verbatim>\<open>strrchr(path, '/')\<close>: the position of the last slash.\<close>

fun strrchr_slash :: "string \<Rightarrow> nat option" where
  "strrchr_slash [] = None"
| "strrchr_slash (c # cs) =
     (case strrchr_slash cs of Some i \<Rightarrow> Some (Suc i)
      | None \<Rightarrow> if c = CHR ''/'' then Some 0 else None)"

definition gs_dirname :: "string \<Rightarrow> string" where
  "gs_dirname path =
     (case strrchr_slash path of
        None \<Rightarrow> []
      | Some n \<Rightarrow> if n = 0 then ''/'' else take n path)"

definition gs_path_with :: "string \<Rightarrow> string \<Rightarrow> string" where
  "gs_path_with path suffix = path @ suffix"

definition gs_db_owned :: "string \<Rightarrow> bool" where
  "gs_db_owned name =
     (if take 2 name \<noteq> ''db'' then False
      else case drop 2 name of [] \<Rightarrow> True | c # _ \<Rightarrow> c = CHR ''.'' \<or> c = CHR ''-'')"

lemma strrchr_slash_join:
  "CHR ''/'' \<notin> set f \<Longrightarrow> strrchr_slash (d @ ''/'' @ f) = Some (length d)"
proof (induction d)
  case Nil
  have "strrchr_slash f = None" using Nil by (induction f) auto
  then show ?case by simp
next
  case (Cons c d)
  then show ?case by simp
qed

lemma gs_dirname_join:
  "CHR ''/'' \<notin> set f \<Longrightarrow> gs_dirname (d @ ''/'' @ f) = (if d = [] then ''/'' else d)"
  using strrchr_slash_join [of f d] by (simp add: gs_dirname_def)

end
