(* ===== verification/Values.thy ===== *)
theory Values
  imports Numbers Store_Common
begin

text \<open>
  The values of the interpreter (\<^verbatim>\<open>struct Value\<close> of \<^verbatim>\<open>src/eval.c\<close>) and the orders it gives
  strings and date-times. A string is its bytes. Reference counts, capacities and the cells that
  share storage are not part of a value: copying a gBASIC value never aliases it. The kinds that
  are handles to something outside the language (connections, processes, sockets) are one
  constructor with their kind.
\<close>

section \<open>Dates, durations, money\<close>

text \<open>\<^verbatim>\<open>DateTime\<close>, \<^verbatim>\<open>Duration\<close>: C \<^verbatim>\<open>int\<close> fields. \<open>precision\<close> is the number of
  \<^verbatim>\<open>DateTimePrecision\<close>, 1 (year) to 6 (second).\<close>

record datetime =
  year :: int
  month :: int
  day :: int
  hour :: int
  minute :: int
  second :: int
  time_only :: bool
  precision :: int

record duration =
  d_years :: int
  d_months :: int
  d_weeks :: int
  d_days :: int
  d_hours :: int
  d_minutes :: int
  d_seconds :: int

record money =
  units :: i64
  currency :: u16
  exponent :: byte

section \<open>Values\<close>

datatype opaque_kind =
    POSTGRES_CONNECTION | SQLITE_CONNECTION | ODBC_CONNECTION | LDAP_CONNECTION | XML_READER
  | PROCESS | HTTP | WATCHER | WORKBOOK | GSQL_CONNECTION | GSQL_STATEMENT | CSV_SOURCE | NET

datatype field_policy = POLICY_COPY | POLICY_LINK | POLICY_RESET | POLICY_EXCLUDE

text \<open>An actor handle is its write descriptor; a function value its registered name, its library
  and, when bound, the captured context; a regex its pattern and flags.\<close>

datatype val =
    VNull
  | VUnknown
  | VBool bool
  | VNumber number
  | VString bytes
  | VArray "val list"
  | VRecord "fld list"
  | VDatetime datetime
  | VDuration duration
  | VMoney money
  | VFile bytes
  | VDir bytes
  | VActor int
  | VFunction bytes "bytes option" "val option"
  | VRegex bytes bytes
  | VOpaque opaque_kind
and fld = Field (fname: bytes) (fpolicy: field_policy) (fval: val)

section \<open>Strings\<close>

definition string_value_equal :: "bytes \<Rightarrow> bytes \<Rightarrow> bool" where
  "string_value_equal a b \<longleftrightarrow> length a = length b \<and> memcmp a b (length a) = 0"

definition string_value_compare :: "bytes \<Rightarrow> bytes \<Rightarrow> int" where
  "string_value_compare a b =
     (let m = (if length a < length b then length a else length b);
          cmp = (if m \<noteq> 0 then memcmp a b m else 0)
      in if cmp \<noteq> 0 then cmp
         else if length a < length b then -1
         else if length b < length a then 1
         else 0)"

definition ascii_tolower :: "byte \<Rightarrow> byte" where
  "ascii_tolower c = (if 0x41 \<le> c \<and> c \<le> 0x5A then c + 0x20 else c)"

definition ascii_toupper :: "byte \<Rightarrow> byte" where
  "ascii_toupper c = (if 0x61 \<le> c \<and> c \<le> 0x7A then c - 0x20 else c)"

definition string_value_equal_caseless :: "bytes \<Rightarrow> bytes \<Rightarrow> bool" where
  "string_value_equal_caseless a b \<longleftrightarrow>
     length a = length b \<and>
     (\<forall>i < length a. ascii_tolower (a ! i) = ascii_tolower (b ! i))"

lemma string_value_equal_iff: "string_value_equal a b \<longleftrightarrow> a = b"
  by (auto simp: string_value_equal_def memcmp_zero_iff)

text \<open>The interpreter's string order is the store's key order.\<close>

lemma string_compare_bytes_cmp: "string_value_compare a b = bytes_cmp a b"
  using memcmp_values [of a b "if length a < length b then length a else length b"]
  by (auto simp: string_value_compare_def bytes_cmp_def Let_def)

lemma caseless_map: "string_value_equal_caseless a b \<longleftrightarrow> map ascii_tolower a = map ascii_tolower b"
  by (auto simp: string_value_equal_caseless_def list_eq_iff_nth_eq)

section \<open>Date-times\<close>

definition compare_ints :: "int \<Rightarrow> int \<Rightarrow> int" where
  "compare_ints l r = (if l < r then -1 else if r < l then 1 else 0)"

text \<open>A chain of \<^verbatim>\<open>cmp = ...; if (cmp != 0) return cmp;\<close> is the first non-zero answer.\<close>

fun first_nonzero :: "int list \<Rightarrow> int" where
  "first_nonzero [] = 0"
| "first_nonzero (c # cs) = (if c \<noteq> 0 then c else first_nonzero cs)"

definition datetime_compare_exact :: "datetime \<Rightarrow> datetime \<Rightarrow> int" where
  "datetime_compare_exact l r =
     first_nonzero
       ([compare_ints (of_bool (time_only l)) (of_bool (time_only r))]
        @ (if \<not> time_only l
           then [compare_ints (year l) (year r), compare_ints (month l) (month r),
                 compare_ints (day l) (day r)]
           else [])
        @ [compare_ints (hour l) (hour r), compare_ints (minute l) (minute r),
           compare_ints (second l) (second r), compare_ints (precision l) (precision r)])"

datatype cmp_op = OpEq | OpNe | OpGt | OpLt | OpGe | OpLe | OpNotGt | OpNotLt | OpNotGe | OpNotLe

fun comparison_result_from_cmp :: "cmp_op \<Rightarrow> int \<Rightarrow> bool" where
  "comparison_result_from_cmp OpEq c = (c = 0)"
| "comparison_result_from_cmp OpNe c = (c \<noteq> 0)"
| "comparison_result_from_cmp OpGt c = (0 < c)"
| "comparison_result_from_cmp OpLt c = (c < 0)"
| "comparison_result_from_cmp OpGe c = (0 \<le> c)"
| "comparison_result_from_cmp OpLe c = (c \<le> 0)"
| "comparison_result_from_cmp OpNotGt c = (\<not> 0 < c)"
| "comparison_result_from_cmp OpNotLt c = (\<not> c < 0)"
| "comparison_result_from_cmp OpNotGe c = (\<not> 0 \<le> c)"
| "comparison_result_from_cmp OpNotLe c = (\<not> c \<le> 0)"

text \<open>The tuple a date-time is compared by: lexicographic order on it is the code's order.\<close>

definition datetime_key :: "datetime \<Rightarrow> int list" where
  "datetime_key d =
     (if time_only d then [1] else [0, year d, month d, day d])
     @ [hour d, minute d, second d, precision d]"

fun lex_cmp :: "int list \<Rightarrow> int list \<Rightarrow> int" where
  "lex_cmp (x # xs) (y # ys) = (if x < y then -1 else if y < x then 1 else lex_cmp xs ys)"
| "lex_cmp _ _ = 0"

lemma first_nonzero_compare:
  "first_nonzero (compare_ints x y # cs) = (if x < y then -1 else if y < x then 1 else first_nonzero cs)"
  by (simp add: compare_ints_def)

lemma lex_cmp_first_nonzero: "lex_cmp xs ys = first_nonzero (map2 compare_ints xs ys)"
  by (induction xs ys rule: lex_cmp.induct) (auto simp: compare_ints_def)

lemma datetime_compare_lex: "datetime_compare_exact l r = lex_cmp (datetime_key l) (datetime_key r)"
  unfolding lex_cmp_first_nonzero datetime_compare_exact_def datetime_key_def
  by (cases "time_only l"; cases "time_only r") (simp_all add: compare_ints_def)

end
