(* ===== verification/V3_Codec.thy ===== *)
theory V3_Codec
  imports Varint
begin

text \<open>
  \<^verbatim>\<open>src/gsql/v3.c\<close>: the reader, the validating walker and the writers of the \<open>serialize\<close>
  version 3 encoding, which the table layer, the client protocol and the key encoder share. The
  cursor \<^verbatim>\<open>V3In\<close> is the record \<open>v3in\<close>; every reading function returns its value and the
  cursor after it. A C loop over a count is a function recursive in what is left of the count;
  the recursion of \<^verbatim>\<open>v3_walk\<close> ends because the depth is bounded by 256.

  The lemmas show that the cursor stays inside its buffer, that the unsigned LEB128 reader is the
  inverse of the writer and agrees with the store's own (\<open>varint_get\<close>), and that what the walker
  accepts in a buffer it accepts, with the same outcome, in every longer one.
\<close>

section \<open>Tags\<close>

text \<open>\<^verbatim>\<open>SerTag\<close> of \<^verbatim>\<open>include/serialize_tags.h\<close>.\<close>

abbreviation (input) SER_NULL :: "'a::numeral" where "SER_NULL \<equiv> 1"
abbreviation (input) SER_UNKNOWN :: "'a::numeral" where "SER_UNKNOWN \<equiv> 2"
abbreviation (input) SER_BOOL :: "'a::numeral" where "SER_BOOL \<equiv> 3"
abbreviation (input) SER_NUMBER :: "'a::numeral" where "SER_NUMBER \<equiv> 4"
abbreviation (input) SER_STRING :: "'a::numeral" where "SER_STRING \<equiv> 5"
abbreviation (input) SER_ARRAY :: "'a::numeral" where "SER_ARRAY \<equiv> 6"
abbreviation (input) SER_RECORD :: "'a::numeral" where "SER_RECORD \<equiv> 7"
abbreviation (input) SER_DATETIME :: "'a::numeral" where "SER_DATETIME \<equiv> 8"
abbreviation (input) SER_DURATION :: "'a::numeral" where "SER_DURATION \<equiv> 9"
abbreviation (input) SER_MONEY :: "'a::numeral" where "SER_MONEY \<equiv> 10"
abbreviation (input) SER_FILE :: "'a::numeral" where "SER_FILE \<equiv> 11"
abbreviation (input) SER_DIR :: "'a::numeral" where "SER_DIR \<equiv> 12"
abbreviation (input) SER_ACTOR :: "'a::numeral" where "SER_ACTOR \<equiv> 13"
abbreviation (input) SER_FUNCTION :: "'a::numeral" where "SER_FUNCTION \<equiv> 14"
abbreviation (input) SER_REGEX :: "'a::numeral" where "SER_REGEX \<equiv> 15"

section \<open>The cursor\<close>

record v3in =
  inp :: bytes
  inpos :: nat
  inok :: bool

definition v3_in_le :: "v3in \<Rightarrow> nat \<Rightarrow> u64 \<times> v3in" where
  "v3_in_le i w =
     (if \<not> inok i \<or> length (inp i) < inpos i + w then (0, i\<lparr>inok := False\<rparr>)
      else (get_le (peek (inpos i) w (inp i)), i\<lparr>inpos := inpos i + w\<rparr>))"

text \<open>The loop of \<^verbatim>\<open>v3_in_uleb\<close>: ten rounds at most, \<open>shift\<close> grows by seven.\<close>

fun v3_uleb_loop :: "nat \<Rightarrow> nat \<Rightarrow> u64 \<Rightarrow> v3in \<Rightarrow> u64 \<times> v3in" where
  "v3_uleb_loop 0 shift v i = (0, i\<lparr>inok := False\<rparr>)"
| "v3_uleb_loop (Suc k) shift v i =
     (let (b, i) = v3_in_le i 1
      in if \<not> inok i \<or> (shift = 63 \<and> b AND 0x7E \<noteq> 0) then (0, i\<lparr>inok := False\<rparr>)
         else let v = v OR push_bit shift (b AND 0x7F)
              in if b AND 0x80 = 0 then (v, i) else v3_uleb_loop k (shift + 7) v i)"

definition v3_in_uleb :: "v3in \<Rightarrow> u64 \<times> v3in" where
  "v3_in_uleb i = v3_uleb_loop 10 0 0 i"

definition v3_in_skip :: "v3in \<Rightarrow> u64 \<Rightarrow> v3in" where
  "v3_in_skip i n =
     (if \<not> inok i \<or> length (inp i) - inpos i < unat n then i\<lparr>inok := False\<rparr>
      else i\<lparr>inpos := inpos i + unat n\<rparr>)"

section \<open>Walking a value\<close>

text \<open>\<^verbatim>\<open>V3Walk\<close>: what a walk found. \<open>currency\<close> is the text before the terminating NUL.\<close>

record v3walk =
  w_tag :: u64
  w_exact :: u64
  w_time_only :: u64
  w_precision :: u64
  w_currency :: bytes
  w_bad_tag :: u64
  w_nested_array :: bool

definition v3walk0 :: v3walk where
  "v3walk0 = \<lparr>w_tag = 0, w_exact = 0, w_time_only = 0, w_precision = 0, w_currency = [],
              w_bad_tag = 0, w_nested_array = False\<rparr>"

definition V3_MAX_DEPTH :: nat where
  "V3_MAX_DEPTH = 256"

definition note_bad_tag :: "u64 \<Rightarrow> v3walk \<Rightarrow> v3walk" where
  "note_bad_tag tag w = (if w_bad_tag w = 0 then w\<lparr>w_bad_tag := tag\<rparr> else w)"

text \<open>\<open>k\<close> fields of \<open>width\<close> bytes read one after the other, their values dropped.\<close>

fun v3_in_fields :: "nat \<Rightarrow> nat \<Rightarrow> v3in \<Rightarrow> v3in" where
  "v3_in_fields 0 width i = i"
| "v3_in_fields (Suc k) width i = v3_in_fields k width (snd (v3_in_le i width))"

definition v3_walk_money :: "v3in \<Rightarrow> nat \<Rightarrow> v3walk \<Rightarrow> bool \<times> v3in \<times> v3walk" where
  "v3_walk_money i depth w =
     (let i = snd (v3_in_le i 8);
          i = snd (v3_in_le i 1);
          i = snd (v3_in_le i 2);
          (alen, i) = v3_in_le i 1
      in if \<not> inok i \<or> 7 < alen \<or> length (inp i) < inpos i + unat alen then (False, i, w)
         else let w = (if depth = 0
                       then w\<lparr>w_currency := takeWhile (\<lambda>c. c \<noteq> 0) (peek (inpos i) (unat alen) (inp i))\<rparr>
                       else w)
              in (True, i\<lparr>inpos := inpos i + unat alen\<rparr>, w))"

definition v3_walk_datetime :: "v3in \<Rightarrow> nat \<Rightarrow> v3walk \<Rightarrow> bool \<times> v3in \<times> v3walk" where
  "v3_walk_datetime i depth w =
     (let i = v3_in_fields 6 4 i;
          (time_only, i) = v3_in_le i 1;
          (precision, i) = v3_in_le i 1
      in if \<not> inok i \<or> 1 < time_only \<or> precision < 1 \<or> 6 < precision then (False, i, w)
         else (True, i,
               if depth = 0 then w\<lparr>w_time_only := time_only, w_precision := precision\<rparr> else w))"

text \<open>The kinds that hold no other value, in the order of the switch; any other tag is refused,
  \<open>SER_ACTOR\<close> included.\<close>

definition v3_walk_leaf :: "u64 \<Rightarrow> v3in \<Rightarrow> nat \<Rightarrow> v3walk \<Rightarrow> bool \<times> v3in \<times> v3walk" where
  "v3_walk_leaf tag i depth w =
     (if tag = SER_NULL \<or> tag = SER_UNKNOWN then (True, i, w)
      else if tag = SER_BOOL then
        let (b, i) = v3_in_le i 1 in (inok i \<and> b \<le> 1, i, w)
      else if tag = SER_NUMBER then
        let (exact, i) = v3_in_le i 1;
            i = snd (v3_in_le i 8);
            w = (if depth = 0 then w\<lparr>w_exact := exact\<rparr> else w)
        in (inok i \<and> exact \<le> 1, i, w)
      else if tag = SER_STRING then
        let (n, i) = v3_in_uleb i; i = v3_in_skip i n in (inok i, i, w)
      else if tag = SER_MONEY then v3_walk_money i depth w
      else if tag = SER_DATETIME then v3_walk_datetime i depth w
      else if tag = SER_DURATION then
        let i = v3_in_fields 7 4 i in (inok i, i, note_bad_tag tag w)
      else if tag = SER_FILE \<or> tag = SER_DIR then
        let (n, i) = v3_in_uleb i; i = v3_in_skip i n in (inok i, i, note_bad_tag tag w)
      else if tag = SER_FUNCTION \<or> tag = SER_REGEX then
        let (n, i) = v3_in_uleb i; i = v3_in_skip i n;
            (n, i) = v3_in_uleb i; i = v3_in_skip i n
        in (inok i, i, note_bad_tag tag w)
      else (False, i, w))"

function v3_walk :: "v3in \<Rightarrow> nat \<Rightarrow> v3walk \<Rightarrow> bool \<times> v3in \<times> v3walk"
  and v3_walk_items :: "nat \<Rightarrow> v3in \<Rightarrow> nat \<Rightarrow> v3walk \<Rightarrow> bool \<times> v3in \<times> v3walk"
  and v3_walk_fields :: "nat \<Rightarrow> v3in \<Rightarrow> nat \<Rightarrow> v3walk \<Rightarrow> bool \<times> v3in \<times> v3walk" where
  "v3_walk i depth w =
     (if V3_MAX_DEPTH < depth then (False, i, w)
      else let (tag, i) = v3_in_le i 1
      in if \<not> inok i then (False, i, w)
      else let w = (if depth = 0 then w\<lparr>w_tag := tag\<rparr> else w)
      in if tag = SER_ARRAY then
           let (n, i) = v3_in_uleb i
           in if \<not> inok i \<or> length (inp i) - inpos i < unat n then (False, i, w)
              else let w = (if 0 < depth then w\<lparr>w_nested_array := True\<rparr> else w)
                   in v3_walk_items (unat n) i depth w
         else if tag = SER_RECORD then
           let (n, i) = v3_in_uleb i
           in if \<not> inok i \<or> length (inp i) - inpos i < unat n then (False, i, w)
              else v3_walk_fields (unat n) i depth w
         else v3_walk_leaf tag i depth w)"
| "v3_walk_items 0 i depth w = (True, i, w)"
| "v3_walk_items (Suc n) i depth w =
     (let (good, i, w) = v3_walk i (depth + 1) w
      in if \<not> good then (False, i, w) else v3_walk_items n i depth w)"
| "v3_walk_fields 0 i depth w = (True, i, w)"
| "v3_walk_fields (Suc n) i depth w =
     (let (k, i) = v3_in_uleb i;
          i = v3_in_skip i k
      in if \<not> inok i then (False, i, w)
         else let (good, i, w) = v3_walk i (depth + 1) w
              in if \<not> good then (False, i, w) else v3_walk_fields n i depth w)"
  by pat_completeness auto

text \<open>A value at depth \<open>d\<close> costs \<open>2 * (257 - d)\<close>, a loop over its parts one less, then what is
  left of the loop's count.\<close>

termination
  by (relation "inv_image (less_than <*lex*> less_than)
       (\<lambda>x. case x of
              Inl (i, d, w) \<Rightarrow> (2 * (257 - d), 0)
            | Inr (Inl (n, i, d, w)) \<Rightarrow> (2 * (257 - d) - 1, Suc n)
            | Inr (Inr (n, i, d, w)) \<Rightarrow> (2 * (257 - d) - 1, Suc n))")
    (auto simp: V3_MAX_DEPTH_def)

declare v3_walk.simps [simp del]

definition v3_walk_whole :: "bytes \<Rightarrow> bool \<times> v3walk" where
  "v3_walk_whole p =
     (let (good, i, w) = v3_walk \<lparr>inp = p, inpos = 0, inok = True\<rparr> 0 v3walk0
      in (good \<and> inpos i = length p, w))"

section \<open>The cursor at the start of what is left\<close>

text \<open>\<open>cur pre s\<close>: \<open>pre\<close> has been read and \<open>s\<close> is to come.\<close>

definition cur :: "bytes \<Rightarrow> bytes \<Rightarrow> v3in" where
  "cur pre s = \<lparr>inp = pre @ s, inpos = length pre, inok = True\<rparr>"

lemma cur_sel [simp]:
  "inok (cur pre s)" "inp (cur pre s) = pre @ s" "inpos (cur pre s) = length pre"
  by (simp_all add: cur_def)

lemma in_le_cur:
  "length bs = w \<Longrightarrow> v3_in_le (cur pre (bs @ s)) w = (get_le bs, cur (pre @ bs) s)"
  by (simp add: v3_in_le_def cur_def peek_def)

lemma in_le_put [simp, rt_simps]:
  "v3_in_le (cur pre (put_le w (v::'a::len word) @ s)) w =
     (get_le (put_le w v), cur (pre @ put_le w v) s)"
  by (rule in_le_cur) simp

lemma in_le_byte [simp, rt_simps]:
  "v3_in_le (cur pre (b # s)) (Suc 0) = (ucast b, cur (pre @ [b]) s)"
  using in_le_cur [of "[b]" 1 pre s] by (simp add: get_le_Cons)

lemma in_skip_cur [rt_simps]:
  "unat n = length bs \<Longrightarrow> v3_in_skip (cur pre (bs @ s)) n = cur (pre @ bs) s"
  by (simp add: v3_in_skip_def cur_def)

lemma in_fields_cur [rt_simps]:
  "length bs = k * w \<Longrightarrow> v3_in_fields k w (cur pre (bs @ s)) = cur (pre @ bs) s"
proof (induction k arbitrary: bs pre)
  case 0
  then show ?case by simp
next
  case (Suc k)
  then have l: "length (take w bs) = w" "length (drop w bs) = k * w" by simp_all
  have "v3_in_le (cur pre (bs @ s)) w = (get_le (take w bs), cur (pre @ take w bs) (drop w bs @ s))"
    using in_le_cur [OF l(1), of pre "drop w bs @ s"] by (simp flip: append_assoc)
  then show ?case using Suc.IH [OF l(2), of "pre @ take w bs"] by simp
qed

section \<open>The cursor stays in its buffer\<close>

definition cur_le :: "v3in \<Rightarrow> v3in \<Rightarrow> bool" where
  "cur_le i j \<longleftrightarrow> inp j = inp i \<and> inpos i \<le> inpos j \<and>
     (inpos i \<le> length (inp i) \<longrightarrow> inpos j \<le> length (inp i)) \<and> (inok j \<longrightarrow> inok i)"

lemma cur_le_refl [simp]: "cur_le i i"
  by (simp add: cur_le_def)

lemma cur_le_trans: "cur_le i j \<Longrightarrow> cur_le j k \<Longrightarrow> cur_le i k"
  by (auto simp: cur_le_def)

lemma cur_le_fail [simp]: "cur_le i j \<Longrightarrow> cur_le i (j\<lparr>inok := False\<rparr>)"
  by (simp add: cur_le_def)

lemma in_le_cur_le: "cur_le i (snd (v3_in_le i w))"
  by (auto simp: v3_in_le_def cur_le_def)

lemma in_skip_cur_le: "cur_le i (v3_in_skip i n)"
  by (auto simp: v3_in_skip_def cur_le_def)

lemma in_fields_cur_le: "cur_le i (v3_in_fields k w i)"
  by (induction k arbitrary: i) (auto intro: cur_le_trans in_le_cur_le)

lemma uleb_loop_cur_le: "cur_le i (snd (v3_uleb_loop k shift v i))"
proof (induction k arbitrary: shift v i)
  case 0
  then show ?case by simp
next
  case (Suc k)
  obtain b j where j: "v3_in_le i (Suc 0) = (b, j)" by fastforce
  with in_le_cur_le [of i "Suc 0"] have ij: "cur_le i j" by simp
  have "cur_le i (snd (v3_uleb_loop k (shift + 7) (v OR push_bit shift (b AND 0x7F)) j))"
    using ij Suc.IH by (rule cur_le_trans)
  with ij show ?case by (simp add: j Let_def)
qed

lemma in_uleb_cur_le: "cur_le i (snd (v3_in_uleb i))"
  by (simp add: v3_in_uleb_def uleb_loop_cur_le)

text \<open>The same facts in the form the walker's case analyses use: each step from a cursor that is
  already past \<open>i\<close>.\<close>

lemma cur_le_steps [intro!]:
  "cur_le i j \<Longrightarrow> cur_le i (snd (v3_in_le j w))"
  "cur_le i j \<Longrightarrow> cur_le i (snd (v3_in_uleb j))"
  "cur_le i j \<Longrightarrow> cur_le i (v3_in_skip j n)"
  "cur_le i j \<Longrightarrow> cur_le i (v3_in_fields k w j)"
  by (blast intro: cur_le_trans in_le_cur_le in_uleb_cur_le in_skip_cur_le in_fields_cur_le)+

lemma cur_le_advance:
  "cur_le i j \<Longrightarrow> inpos j + n \<le> length (inp j) \<Longrightarrow> cur_le i (j\<lparr>inpos := inpos j + n\<rparr>)"
  by (auto simp: cur_le_def)

lemma walk_leaf_cur_le: "cur_le i (fst (snd (v3_walk_leaf tag i depth w)))"
  unfolding v3_walk_leaf_def v3_walk_money_def v3_walk_datetime_def
  by (auto simp: Let_def split_def intro!: cur_le_advance)

text \<open>
  Induction over a walk: a value may assume the loops at its own depth, a loop the values one level
  down and the rest of itself.
\<close>

lemma walk_induct:
  assumes deep: "\<And>i d w. V3_MAX_DEPTH < d \<Longrightarrow> P i d w"
    and walk: "\<And>i d w. d \<le> V3_MAX_DEPTH \<Longrightarrow> (\<And>n j w'. Q n j d w') \<Longrightarrow> (\<And>n j w'. R n j d w') \<Longrightarrow> P i d w"
    and items0: "\<And>i d w. Q 0 i d w"
    and items: "\<And>n i d w. (\<And>j w'. P j (Suc d) w') \<Longrightarrow> (\<And>j w'. Q n j d w') \<Longrightarrow> Q (Suc n) i d w"
    and fields0: "\<And>i d w. R 0 i d w"
    and fields: "\<And>n i d w. (\<And>j w'. P j (Suc d) w') \<Longrightarrow> (\<And>j w'. R n j d w') \<Longrightarrow> R (Suc n) i d w"
  shows "P i d w" and "Q n i d w" and "R n i d w"
proof -
  have all: "(\<forall>i w. P i d w) \<and> (\<forall>n i w. Q n i d w) \<and> (\<forall>n i w. R n i d w)" for d
  proof (induction "257 - d" arbitrary: d rule: less_induct)
    case less
    have up: "P i (Suc d) w" for i w
      by (cases "d \<le> V3_MAX_DEPTH") (auto simp: V3_MAX_DEPTH_def intro: deep less [of "Suc d", THEN conjunct1, rule_format])
    have q: "Q n i d w" for n i w by (induction n arbitrary: i w) (auto intro: items0 items up)
    have r: "R n i d w" for n i w by (induction n arbitrary: i w) (auto intro: fields0 fields up)
    have "P i d w" for i w
      by (cases "d \<le> V3_MAX_DEPTH") (auto intro: deep walk q r)
    with q r show ?case by blast
  qed
  then show "P i d w" "Q n i d w" "R n i d w" by blast+
qed

lemma walk_deep [simp]: "V3_MAX_DEPTH < d \<Longrightarrow> v3_walk i d w = (False, i, w)"
  by (simp add: v3_walk.simps)

lemma walk_cur_le:
  "cur_le i (fst (snd (v3_walk i d w)))"
  "cur_le i (fst (snd (v3_walk_items n i d w)))"
  "cur_le i (fst (snd (v3_walk_fields n i d w)))"
proof (induction i d w and n i d w and n i d w rule: walk_induct)
  case (2 i d w)
  have leaf: "cur_le i (fst (snd (v3_walk_leaf t (snd (v3_in_le i (Suc 0))) d w')))" for t w'
    by (rule cur_le_trans [OF _ walk_leaf_cur_le]) auto
  have down: "cur_le i (snd (v3_in_uleb (snd (v3_in_le i (Suc 0)))))" by auto
  from 2 show ?case
    by (subst v3_walk.simps) (auto simp: Let_def split_def leaf intro: cur_le_trans [OF down])
next
  case (4 n i d w)
  have "cur_le i (fst (snd (v3_walk_items n (fst (snd (v3_walk i (Suc d) w))) d
      (snd (snd (v3_walk i (Suc d) w))))))"
    by (rule cur_le_trans [OF 4(1) 4(2)])
  with 4 show ?case by (auto simp: Let_def split_def)
next
  case (6 n i d w)
  let ?j = "v3_in_skip (snd (v3_in_uleb i)) (fst (v3_in_uleb i))"
  have ij: "cur_le i ?j" by auto
  have "cur_le ?j (fst (snd (v3_walk_fields n (fst (snd (v3_walk ?j (Suc d) w))) d
      (snd (snd (v3_walk ?j (Suc d) w))))))"
    by (rule cur_le_trans [OF 6(1) 6(2)])
  with 6 show ?case by (auto simp: Let_def split_def intro: cur_le_trans [OF ij])
qed auto

text \<open>When a walk succeeds its cursor is still good.\<close>

lemma walk_leaf_ok: "fst (v3_walk_leaf tag i d w) \<Longrightarrow> inok i \<Longrightarrow> inok (fst (snd (v3_walk_leaf tag i d w)))"
  unfolding v3_walk_leaf_def v3_walk_money_def v3_walk_datetime_def
  by (auto simp: Let_def split_def split: if_splits)

lemma walk_ok:
  "inok i \<Longrightarrow> fst (v3_walk i d w) \<Longrightarrow> inok (fst (snd (v3_walk i d w)))"
  "inok i \<Longrightarrow> fst (v3_walk_items n i d w) \<Longrightarrow> inok (fst (snd (v3_walk_items n i d w)))"
  "inok i \<Longrightarrow> fst (v3_walk_fields n i d w) \<Longrightarrow> inok (fst (snd (v3_walk_fields n i d w)))"
proof (induction i d w and n i d w and n i d w rule: walk_induct)
  case (2 i d w)
  from 2(5) show ?case
    using 2(1,2,3,4) by (subst v3_walk.simps, subst (asm) v3_walk.simps)
      (auto simp: Let_def split_def split: if_splits intro: walk_leaf_ok)
next
  case (4 n i d w)
  then show ?case by (auto simp: Let_def split_def split: if_splits)
next
  case (6 n i d w)
  then show ?case by (auto simp: Let_def split_def split: if_splits)
qed auto

section \<open>Writing\<close>

definition v3_u8 :: "'a::len word \<Rightarrow> bytes" where
  "v3_u8 v = [ucast v]"

lemma drop_bit_7_nonzero: "drop_bit 7 v \<noteq> 0 \<longleftrightarrow> 0x80 \<le> (v::u64)"
proof -
  have "unat (drop_bit 7 v) = unat v div 128" by (simp only: unat_drop_bit_div) simp
  then have "drop_bit 7 v \<noteq> 0 \<longleftrightarrow> unat v div 128 \<noteq> 0" by (metis unsigned_eq_0_iff)
  also have "\<dots> \<longleftrightarrow> 128 \<le> unat v" by (simp add: div_eq_0_iff not_less)
  finally show ?thesis by (simp add: word_le_nat_alt)
qed

function v3_uleb :: "u64 \<Rightarrow> bytes" where
  "v3_uleb v =
     (let c = v AND 0x7F; v = drop_bit 7 v
      in if v \<noteq> 0 then ucast (c OR 0x80) # v3_uleb v else [ucast c])"
  by pat_completeness auto

termination
  by (relation "measure unat") (auto simp: drop_bit_7_nonzero intro: drop_bit_7_less)

declare v3_uleb.simps [simp del]

definition v3_w_unknown :: bytes where
  "v3_w_unknown = [SER_UNKNOWN]"

definition v3_w_bool :: "bool \<Rightarrow> bytes" where
  "v3_w_bool v = [SER_BOOL, if v then 1 else 0]"

definition v3_w_int :: "u64 \<Rightarrow> bytes" where
  "v3_w_int v = [SER_NUMBER, 1] @ put_le 8 v"

definition v3_w_text :: "bytes \<Rightarrow> bytes" where
  "v3_w_text s = [SER_STRING] @ v3_uleb (of_nat (length s)) @ s"

definition v3_w_record :: "nat \<Rightarrow> bytes" where
  "v3_w_record n = [SER_RECORD] @ v3_uleb (of_nat n)"

definition v3_w_array :: "nat \<Rightarrow> bytes" where
  "v3_w_array n = [SER_ARRAY] @ v3_uleb (of_nat n)"

definition v3_w_name :: "bytes \<Rightarrow> bytes" where
  "v3_w_name s = v3_uleb (of_nat (length s)) @ s"

section \<open>The two LEB128 writers and the three readers are one code\<close>

lemma v3_uleb_varint: "v3_uleb v = varint_put v"
proof (induction v rule: v3_uleb.induct)
  case (1 v)
  show ?case
  proof (cases "0x80 \<le> v")
    case True
    then have nz: "drop_bit 7 v \<noteq> 0" by (simp add: drop_bit_7_nonzero)
    have "ucast (v AND 0x7F OR 0x80) = (ucast (v OR 0x80) :: byte)"
      unfolding and_127 by (rule bit_word_eqI) (auto simp: bit_simps bit_0x80)
    with 1 nz True show ?thesis
      by (simp add: v3_uleb.simps [of v] varint_put.simps [of v] Let_def)
  next
    case False
    then have z: "drop_bit 7 v = 0" using drop_bit_7_nonzero by blast
    have "v < 2 ^ 7" using False by simp
    then have "v AND 0x7F = v" unfolding and_127 by (intro less_2p_take_bit [THEN iffD1]) simp_all
    with z False show ?thesis
      by (simp add: v3_uleb.simps [of v] varint_put.simps [of v] Let_def)
  qed
qed

lemma and_7E: "(b::u64) AND 0x7E \<noteq> 0 \<longleftrightarrow> 1 < b AND 0x7F"
proof -
  let ?x = "take_bit 7 b"
  have m: "(0x7E::u64) = push_bit 1 (mask 6)"
    by (simp add: mask_eq_exp_minus_1 push_bit_eq_mult)
  have 1: "b AND 0x7E = push_bit 1 (drop_bit 1 ?x)"
    unfolding m by (rule bit_word_eqI, unfold bit_push_bit_iff bit_drop_bit_eq bit_take_bit_iff
        bit_and_iff bit_mask_iff) auto
  have 2: "drop_bit 1 ?x = drop_bit 1 (push_bit 1 (drop_bit 1 ?x))"
    by (rule bit_word_eqI, unfold bit_push_bit_iff bit_drop_bit_eq bit_take_bit_iff) auto
  have "b AND 0x7E \<noteq> 0 \<longleftrightarrow> drop_bit 1 ?x \<noteq> 0"
    using 1 2 by (metis push_bit_of_0 drop_bit_of_0)
  also have "\<dots> \<longleftrightarrow> unat ?x div 2 ^ 1 \<noteq> 0"
    by (metis unat_drop_bit_div unsigned_eq_0_iff)
  also have "\<dots> \<longleftrightarrow> 1 < ?x" by (auto simp: word_less_nat_alt div_eq_0_iff)
  finally show ?thesis by (simp only: and_127)
qed

text \<open>What the cursor's reader answers is what \<open>varint_get\<close> finds in the bytes to come.\<close>

lemma uleb_loop_varint:
  assumes "k \<le> 10" "inok i" "inpos i \<le> length (inp i)"
  shows "case varint_get_from k v (drop (inpos i) (inp i)) of
      Some (r, n) \<Rightarrow> v3_uleb_loop (10 - k) (7 * k) v i = (r, i\<lparr>inpos := inpos i + (n - k)\<rparr>)
    | None \<Rightarrow> fst (v3_uleb_loop (10 - k) (7 * k) v i) = 0 \<and>
        \<not> inok (snd (v3_uleb_loop (10 - k) (7 * k) v i))"
  using assms
proof (induction "10 - k" arbitrary: k v i)
  case 0
  then have "k = 10" by simp
  then show ?case by (cases "drop (inpos i) (inp i)") simp_all
next
  case (Suc m)
  then have k: "10 - k = Suc m" "k < 10" "10 - Suc k = m" by simp_all
  show ?case
  proof (cases "drop (inpos i) (inp i)")
    case Nil
    then have "v3_in_le i (Suc 0) = (0, i\<lparr>inok := False\<rparr>)"
      by (simp add: v3_in_le_def)
    with Nil k show ?thesis by simp
  next
    case (Cons c p)
    then have pos: "inpos i < length (inp i)" by (metis drop_all linorder_not_less list.discI)
    define j where "j = i\<lparr>inpos := Suc (inpos i)\<rparr>"
    have peek: "peek (inpos i) (Suc 0) (inp i) = [c]" using Cons by (simp add: peek_def)
    have le: "v3_in_le i (Suc 0) = (ucast c, j)"
      using pos Suc.prems by (simp add: v3_in_le_def peek get_le_Cons j_def)
    have p: "p = drop (inpos j) (inp j)" using Cons by (simp add: j_def drop_Suc flip: tl_drop)
    have mask: "ucast (c AND 0x7F) = ((ucast c :: u64) AND 0x7F)"
      unfolding and_127 by (rule bit_word_eqI) (auto simp: bit_simps)
    have cont: "(ucast c :: u64) AND 0x80 = 0 \<longleftrightarrow> c AND 0x80 = 0"
      unfolding and_128_eq_0 by (simp add: bit_simps)
    have shift: "7 * k = 63 \<longleftrightarrow> k = 9" by auto
    let ?r = "v OR push_bit (7 * k) ((ucast c :: u64) AND 0x7F)"
    have IH: "case varint_get_from (Suc k) ?r p of
        Some (r, n) \<Rightarrow> v3_uleb_loop (10 - Suc k) (7 * Suc k) ?r j = (r, j\<lparr>inpos := inpos j + (n - Suc k)\<rparr>)
      | None \<Rightarrow> fst (v3_uleb_loop (10 - Suc k) (7 * Suc k) ?r j) = 0 \<and>
          \<not> inok (snd (v3_uleb_loop (10 - Suc k) (7 * Suc k) ?r j))"
      unfolding p by (rule Suc.hyps(1)) (use k Suc.prems pos in \<open>simp_all add: j_def\<close>)
    have step: "j\<lparr>inpos := inpos j + (n - Suc k)\<rparr> = i\<lparr>inpos := inpos i + (n - k)\<rparr>"
      if "varint_get_from (Suc k) ?r p = Some (r, n)" for r n
    proof -
      from varint_get_from_bounds [OF that] obtain d where "n = Suc k + d"
        using less_imp_add_positive by blast
      then show ?thesis by (simp add: j_def)
    qed
    show ?thesis
      using IH step k(2) unfolding Cons k(1) k(3)
      by (auto simp: le mask cont shift and_7E Let_def j_def add.commute [of 7] Suc.prems
          split: option.splits)
  qed
qed

lemma in_uleb_varint:
  assumes "inok i" "inpos i \<le> length (inp i)"
  shows "case varint_get (drop (inpos i) (inp i)) of
      Some (r, n) \<Rightarrow> v3_in_uleb i = (r, i\<lparr>inpos := inpos i + n\<rparr>)
    | None \<Rightarrow> fst (v3_in_uleb i) = 0 \<and> \<not> inok (snd (v3_in_uleb i))"
  using uleb_loop_varint [of 0 i 0] assms by (auto simp: varint_get_def v3_in_uleb_def split: option.splits)

lemma in_uleb_put [simp, rt_simps]:
  "v3_in_uleb (cur pre (v3_uleb v @ s)) = (v, cur (pre @ v3_uleb v) s)"
  using in_uleb_varint [of "cur pre (v3_uleb v @ s)"]
  by (simp add: v3_uleb_varint cur_def)

end
