(* ===== verification/Serialize.thy ===== *)
theory Serialize
  imports Values V3_Codec
begin

text \<open>
  \<^verbatim>\<open>serialize\<close> and \<^verbatim>\<open>deserialize\<close> of \<^verbatim>\<open>src/eval.c\<close>: the encoding that carries values
  to other actors, to files and into the rows of G-SQL. The writer may refuse; its refusals are
  the values of \<open>ser_error\<close>. What it reads outside the value (the currency table, the
  descriptors collected for a message or duplicated for a spawn) is in its context record; what
  the reader asks of its program (currencies, functions, the regex engine, received descriptors)
  is in its environment record. Payloads of version 1 and 2 hold integers and structs as the
  writing machine keeps them; they are read as on a little-endian LP64 machine.

  The main lemmas: the reader is the inverse of the writer on every value whose parts the reading
  program knows, and the store's walker accepts what the writer writes.
\<close>

section \<open>Writing\<close>

datatype ser_error =
    SerTooDeep | SerLiveLink bytes | SerHandle opaque_kind | SerSpawnDup | SerTooManyHandles
  | SerActor | SerBoundFunction

text \<open>\<open>spawn\<close>: the outcomes still to come of duplicating a descriptor for the child, \<open>None\<close> a
  failure, with the descriptors recorded so far; \<open>msg\<close>: the descriptors collected for a message.\<close>

record ser_ctx =
  strict :: bool
  alpha_of :: "u16 \<Rightarrow> bytes option"
  spawn :: "(int option list \<times> int list) option"
  msg :: "int list option"

definition SER_MAX_DEPTH :: nat where
  "SER_MAX_DEPTH = 256"

definition ACTOR_MAX_MESSAGE_FDS :: nat where
  "ACTOR_MAX_MESSAGE_FDS = 32"

definition serbuf_u8 :: "'a::len word \<Rightarrow> bytes" where
  "serbuf_u8 v = [ucast v]"

text \<open>\<^verbatim>\<open>serbuf_uleb\<close> is the loop \<^verbatim>\<open>v3_uleb\<close> is; \<^verbatim>\<open>serbuf_le\<close> the loop \<open>put_le\<close> is.\<close>

definition serbuf_uleb :: "u64 \<Rightarrow> bytes" where
  "serbuf_uleb v = v3_uleb v"

definition serbuf_le :: "'a::len word \<Rightarrow> nat \<Rightarrow> bytes" where
  "serbuf_le v width = put_le width v"

definition serbuf_i32 :: "int \<Rightarrow> bytes" where
  "serbuf_i32 v = serbuf_le (word_of_int v :: u32) 4"

definition serbuf_blob :: "bytes \<Rightarrow> bytes" where
  "serbuf_blob data = serbuf_uleb (of_nat (length data)) @ data"

fun ser_number :: "number \<Rightarrow> bytes" where
  "ser_number (Exact v) = [SER_NUMBER] @ [1] @ serbuf_le v 8"
| "ser_number (Inexact bits) = [SER_NUMBER] @ [0] @ serbuf_le bits 8"

definition ser_datetime :: "datetime \<Rightarrow> bytes" where
  "ser_datetime dt =
     [SER_DATETIME] @ serbuf_i32 (year dt) @ serbuf_i32 (month dt) @ serbuf_i32 (day dt) @
     serbuf_i32 (hour dt) @ serbuf_i32 (minute dt) @ serbuf_i32 (second dt) @
     [if time_only dt then 1 else 0] @ [word_of_int (precision dt)]"

definition ser_duration :: "duration \<Rightarrow> bytes" where
  "ser_duration d =
     [SER_DURATION] @ serbuf_i32 (d_years d) @ serbuf_i32 (d_months d) @ serbuf_i32 (d_weeks d) @
     serbuf_i32 (d_days d) @ serbuf_i32 (d_hours d) @ serbuf_i32 (d_minutes d) @
     serbuf_i32 (d_seconds d)"

definition ser_money :: "(u16 \<Rightarrow> bytes option) \<Rightarrow> money \<Rightarrow> bytes" where
  "ser_money alpha m =
     (let a = (case alpha (currency m) of Some a \<Rightarrow> a | None \<Rightarrow> [])
      in [SER_MONEY] @ serbuf_le (units m) 8 @ [exponent m] @ serbuf_le (currency m) 2 @
         [of_nat (length a)] @ a)"

definition ser_actor :: "int \<Rightarrow> ser_ctx \<Rightarrow> ser_error + bytes \<times> ser_ctx" where
  "ser_actor write_fd c =
     (case spawn c of
        Some (outcomes, fds) \<Rightarrow>
          (case outcomes of
             Some fd # rest \<Rightarrow>
               Inr ([SER_ACTOR] @ serbuf_uleb (word_of_int fd), c\<lparr>spawn := Some (rest, fds @ [fd])\<rparr>)
           | _ \<Rightarrow> Inl SerSpawnDup)
      | None \<Rightarrow>
          (case msg c of
             Some fds \<Rightarrow>
               if ACTOR_MAX_MESSAGE_FDS \<le> length fds then Inl SerTooManyHandles
               else Inr ([SER_ACTOR] @ serbuf_uleb (of_nat (length fds)),
                         c\<lparr>msg := Some (fds @ [write_fd])\<rparr>)
           | None \<Rightarrow> Inl SerActor))"

definition ser_function :: "bytes \<Rightarrow> bytes option \<Rightarrow> bytes" where
  "ser_function name library =
     [SER_FUNCTION] @ serbuf_blob name @
     (case library of Some l \<Rightarrow> [1] @ serbuf_blob l | None \<Rightarrow> [0])"

fun serialize_value :: "nat \<Rightarrow> val \<Rightarrow> ser_ctx \<Rightarrow> ser_error + bytes \<times> ser_ctx"
  and serialize_items :: "nat \<Rightarrow> val list \<Rightarrow> ser_ctx \<Rightarrow> ser_error + bytes \<times> ser_ctx"
  and serialize_fields :: "nat \<Rightarrow> fld list \<Rightarrow> ser_ctx \<Rightarrow> ser_error + bytes \<times> ser_ctx" where
  "serialize_value depth v c =
     (if SER_MAX_DEPTH < depth then Inl SerTooDeep
      else case v of
        VNull \<Rightarrow> Inr ([SER_NULL], c)
      | VUnknown \<Rightarrow> Inr ([SER_UNKNOWN], c)
      | VBool b \<Rightarrow> Inr ([SER_BOOL, if b then 1 else 0], c)
      | VNumber n \<Rightarrow> Inr (ser_number n, c)
      | VString s \<Rightarrow> Inr ([SER_STRING] @ serbuf_blob s, c)
      | VArray vs \<Rightarrow>
          (case serialize_items depth vs c of
             Inl e \<Rightarrow> Inl e
           | Inr (bs, c) \<Rightarrow> Inr ([SER_ARRAY] @ serbuf_uleb (of_nat (length vs)) @ bs, c))
      | VRecord fs \<Rightarrow>
          (case serialize_fields depth fs c of
             Inl e \<Rightarrow> Inl e
           | Inr (bs, c) \<Rightarrow> Inr ([SER_RECORD] @ serbuf_uleb (of_nat (length fs)) @ bs, c))
      | VDatetime dt \<Rightarrow> Inr (ser_datetime dt, c)
      | VDuration d \<Rightarrow> Inr (ser_duration d, c)
      | VMoney m \<Rightarrow> Inr (ser_money (alpha_of c) m, c)
      | VFile p \<Rightarrow> Inr ([SER_FILE] @ serbuf_blob p, c)
      | VDir p \<Rightarrow> Inr ([SER_DIR] @ serbuf_blob p, c)
      | VOpaque k \<Rightarrow> Inl (SerHandle k)
      | VActor fd \<Rightarrow> ser_actor fd c
      | VFunction name library context \<Rightarrow>
          (case context of Some _ \<Rightarrow> Inl SerBoundFunction
           | None \<Rightarrow> Inr (ser_function name library, c))
      | VRegex pattern flgs \<Rightarrow>
          Inr ([SER_REGEX] @ serbuf_blob pattern @ serbuf_blob flgs, c))"
| "serialize_items depth [] c = Inr ([], c)"
| "serialize_items depth (v # vs) c =
     (case serialize_value (depth + 1) v c of
        Inl e \<Rightarrow> Inl e
      | Inr (bs, c) \<Rightarrow>
          (case serialize_items depth vs c of
             Inl e \<Rightarrow> Inl e
           | Inr (bs', c) \<Rightarrow> Inr (bs @ bs', c)))"
| "serialize_fields depth [] c = Inr ([], c)"
| "serialize_fields depth (Field name policy v # fs) c =
     (if strict c \<and> policy = POLICY_LINK then Inl (SerLiveLink name)
      else case serialize_value (depth + 1) v c of
        Inl e \<Rightarrow> Inl e
      | Inr (bs, c) \<Rightarrow>
          (case serialize_fields depth fs c of
             Inl e \<Rightarrow> Inl e
           | Inr (bs', c) \<Rightarrow> Inr (serbuf_blob name @ bs @ bs', c)))"

declare serialize_value.simps [simp del]

definition SER_FRAME :: bytes where
  "SER_FRAME = [0x67, 0x42, 0x53, 3]"

definition serialize_to_buffer :: "val \<Rightarrow> ser_ctx \<Rightarrow> ser_error + bytes \<times> ser_ctx" where
  "serialize_to_buffer v c =
     (case serialize_value 0 v c of
        Inl e \<Rightarrow> Inl e
      | Inr (bs, c) \<Rightarrow> Inr (SER_FRAME @ bs, c))"

section \<open>Reading\<close>

text \<open>\<open>find_alpha\<close>: \<^verbatim>\<open>currency_find_alpha\<close>; \<open>resolves\<close>: \<^verbatim>\<open>function_resolve\<close> finds it;
  \<open>regex_ok\<close>: the pattern compiles (PCRE2); \<open>spawn_recv\<close>: a child reading its startup frame;
  \<open>msg_recv\<close>: the descriptors received with a message.\<close>

record des_env =
  version :: nat
  find_alpha :: "bytes \<Rightarrow> u16 option"
  resolves :: "bytes option \<Rightarrow> bytes \<Rightarrow> bool"
  regex_ok :: "bytes \<Rightarrow> bytes \<Rightarrow> bool"
  spawn_recv :: bool
  msg_recv :: "int list option"

text \<open>\<^verbatim>\<open>SerReader\<close> is the cursor \<open>v3in\<close>; its primitives are the ones \<^verbatim>\<open>v3.c\<close> was written after,
  refusing in the same cases.\<close>

definition serread_le :: "v3in \<Rightarrow> nat \<Rightarrow> u64 \<times> v3in" where
  "serread_le r width = v3_in_le r width"

definition serread_u8 :: "v3in \<Rightarrow> u64 \<times> v3in" where
  "serread_u8 r = v3_in_le r 1"

definition serread_u64 :: "v3in \<Rightarrow> u64 \<times> v3in" where
  "serread_u64 r = v3_in_le r 8"

definition serread_uleb :: "v3in \<Rightarrow> u64 \<times> v3in" where
  "serread_uleb r = v3_in_uleb r"

definition serread_i32 :: "v3in \<Rightarrow> int \<times> v3in" where
  "serread_i32 r = (let (v, r) = serread_le r 4 in (sint (ucast v :: i32), r))"

definition serread_count :: "des_env \<Rightarrow> v3in \<Rightarrow> u64 \<times> v3in" where
  "serread_count e r = (if 3 \<le> version e then serread_uleb r else serread_u64 r)"

definition r_fail :: "v3in \<Rightarrow> v3in" where
  "r_fail r = r\<lparr>inok := False\<rparr>"

text \<open>A counted run of bytes; the check is the one every user of a length makes.\<close>

definition des_blob :: "des_env \<Rightarrow> v3in \<Rightarrow> bytes \<times> v3in" where
  "des_blob e r =
     (let (len, r) = serread_count e r
      in if \<not> inok r \<or> length (inp r) - inpos r < unat len then ([], r_fail r)
         else (peek (inpos r) (unat len) (inp r), r\<lparr>inpos := inpos r + unat len\<rparr>))"

definition des_number :: "des_env \<Rightarrow> v3in \<Rightarrow> val \<times> v3in" where
  "des_number e r =
     (if 3 \<le> version e then
        let (exact, r) = serread_u8 r;
            (bits, r) = serread_le r 8
        in if \<not> inok r \<or> 1 < exact then (VNull, r_fail r)
           else if exact \<noteq> 0 then (VNumber (Exact bits), r)
           else (VNumber (Inexact bits), r)
      else let (bits, r) = serread_le r 8 in (VNumber (Inexact bits), r))"

text \<open>A raw struct of a version 1 or 2 payload: nothing is stored when it does not fit.\<close>

definition des_datetime :: "des_env \<Rightarrow> v3in \<Rightarrow> val \<times> v3in" where
  "des_datetime e r =
     (let (y, r) = serread_i32 r; (mo, r) = serread_i32 r; (d, r) = serread_i32 r;
          (h, r) = serread_i32 r; (mi, r) = serread_i32 r; (s, r) = serread_i32 r
      in if 3 \<le> version e then
           let (time_only, r) = serread_u8 r;
               (prec, r) = serread_u8 r
           in if \<not> inok r \<or> 1 < time_only \<or> prec < 1 \<or> 6 < prec then (VNull, r_fail r)
              else (VDatetime \<lparr>year = y, month = mo, day = d, hour = h, minute = mi, second = s,
                              time_only = (time_only \<noteq> 0), precision = uint prec\<rparr>, r)
         else
           let (time_only, r) = serread_i32 r;
               (prec, r) = serread_i32 r
           in (VDatetime \<lparr>year = y, month = mo, day = d, hour = h, minute = mi, second = s,
                          time_only = (time_only \<noteq> 0), precision = prec\<rparr>, r))"

definition des_duration :: "v3in \<Rightarrow> val \<times> v3in" where
  "des_duration r =
     (let (y, r) = serread_i32 r; (mo, r) = serread_i32 r; (w, r) = serread_i32 r;
          (d, r) = serread_i32 r; (h, r) = serread_i32 r; (mi, r) = serread_i32 r;
          (s, r) = serread_i32 r
      in if \<not> inok r then (VNull, r)
         else (VDuration \<lparr>d_years = y, d_months = mo, d_weeks = w, d_days = d, d_hours = h,
                          d_minutes = mi, d_seconds = s\<rparr>, r))"

definition value_money_cents :: "i64 \<Rightarrow> money" where
  "value_money_cents cents =
     (let p = sint cents * 10000
      in \<lparr>units = (if - (2 ^ 63) \<le> p \<and> p < 2 ^ 63 then word_of_int p
                   else if 0 < sint cents then word_of_int (2 ^ 63 - 1)
                   else word_of_int (- (2 ^ 63))),
          currency = 840, exponent = 2\<rparr>)"

definition des_money :: "des_env \<Rightarrow> v3in \<Rightarrow> val \<times> v3in" where
  "des_money e r =
     (if 3 \<le> version e then
        let (u, r) = serread_le r 8;
            (ex, r) = serread_u8 r;
            (cur, r) = serread_le r 2;
            (alen, r) = serread_u8 r
        in if \<not> inok r \<or> 8 \<le> alen \<or> length (inp r) < inpos r + unat alen then (VNull, r_fail r)
           else let alpha = takeWhile (\<lambda>ch. ch \<noteq> 0) (peek (inpos r) (unat alen) (inp r));
                    r = r\<lparr>inpos := inpos r + unat alen\<rparr>;
                    c = (if alen \<noteq> 0 then (case find_alpha e alpha of Some l \<Rightarrow> l | None \<Rightarrow> ucast cur)
                         else ucast cur)
                in (VMoney \<lparr>units = u, currency = c, exponent = ucast ex\<rparr>, r)
      else if 2 \<le> version e then
        let (u, r) = serread_le r 8;
            (cur, r) = serread_le r 2;
            (ex, r) = serread_le r 1
        in (VMoney \<lparr>units = u, currency = ucast cur, exponent = ucast ex\<rparr>, r)
      else
        let (cents, r) = serread_le r 8 in (VMoney (value_money_cents cents), r))"

definition des_actor :: "des_env \<Rightarrow> v3in \<Rightarrow> nat list \<Rightarrow> val \<times> v3in \<times> nat list" where
  "des_actor e r used =
     (let (ref, r) = serread_count e r
      in if \<not> inok r then (VNull, r, used)
         else if spawn_recv e then (VActor (sint (ucast ref :: i32)), r, used)
         else case msg_recv e of
                Some fds \<Rightarrow>
                  if length fds \<le> unat ref then (VNull, r_fail r, used)
                  else (VActor (fds ! unat ref), r, unat ref # used)
              | None \<Rightarrow> (VNull, r_fail r, used))"

definition des_function :: "des_env \<Rightarrow> v3in \<Rightarrow> val \<times> v3in" where
  "des_function e r =
     (let (name, r) = des_blob e r
      in if \<not> inok r then (VNull, r)
         else let (has_library, r) = serread_u8 r;
                  (library, r) =
                    (if inok r \<and> has_library \<noteq> 0
                     then let (l, r) = des_blob e r in (Some (takeWhile (\<lambda>ch. ch \<noteq> 0) l), r)
                     else (None, r));
                  name = takeWhile (\<lambda>ch. ch \<noteq> 0) name
              in if \<not> inok r then (VNull, r)
                 else if \<not> resolves e library name then (VNull, r_fail r)
                 else (VFunction name library None, r))"

definition des_regex :: "des_env \<Rightarrow> v3in \<Rightarrow> val \<times> v3in" where
  "des_regex e r =
     (let (pattern, r) = des_blob e r
      in if \<not> inok r then (VNull, r)
         else let (flgs, r) = des_blob e r
              in if \<not> inok r then (VNull, r)
                 else if \<not> regex_ok e pattern flgs then (VNull, r_fail r)
                 else (VRegex pattern flgs, r))"

definition des_path :: "u64 \<Rightarrow> des_env \<Rightarrow> v3in \<Rightarrow> val \<times> v3in" where
  "des_path tag e r =
     (let (bs, r) = des_blob e r
      in if \<not> inok r then (VNull, r)
         else if tag = SER_STRING then (VString bs, r)
         else let path = takeWhile (\<lambda>ch. ch \<noteq> 0) bs
              in (if tag = SER_FILE then VFile path else VDir path, r))"

function deserialize_value :: "des_env \<Rightarrow> v3in \<Rightarrow> nat \<Rightarrow> nat list \<Rightarrow> val \<times> v3in \<times> nat list"
  and deserialize_items :: "nat \<Rightarrow> des_env \<Rightarrow> v3in \<Rightarrow> nat \<Rightarrow> nat list \<Rightarrow> val list \<times> v3in \<times> nat list"
  and deserialize_fields :: "nat \<Rightarrow> des_env \<Rightarrow> v3in \<Rightarrow> nat \<Rightarrow> nat list \<Rightarrow> fld list \<times> v3in \<times> nat list" where
  "deserialize_value e r depth used =
     (if \<not> inok r \<or> SER_MAX_DEPTH < depth then (VNull, r_fail r, used)
      else let (tag, r) = serread_u8 r
      in if \<not> inok r then (VNull, r, used)
         else if tag = SER_NULL then (VNull, r, used)
         else if tag = SER_UNKNOWN then (VUnknown, r, used)
         else if tag = SER_BOOL then let (b, r) = serread_u8 r in (VBool (b \<noteq> 0), r, used)
         else if tag = SER_NUMBER then let (v, r) = des_number e r in (v, r, used)
         else if tag = SER_STRING \<or> tag = SER_FILE \<or> tag = SER_DIR then
           let (v, r) = des_path tag e r in (v, r, used)
         else if tag = SER_ARRAY then
           let (count, r) = serread_count e r
           in if \<not> inok r \<or> length (inp r) - inpos r < unat count then (VNull, r_fail r, used)
              else let (vs, r, used) = deserialize_items (unat count) e r depth used
                   in if \<not> inok r then (VNull, r, used) else (VArray vs, r, used)
         else if tag = SER_RECORD then
           let (count, r) = serread_count e r
           in if \<not> inok r \<or> length (inp r) - inpos r < unat count then (VNull, r_fail r, used)
              else let (fs, r, used) = deserialize_fields (unat count) e r depth used
                   in if \<not> inok r then (VNull, r, used) else (VRecord fs, r, used)
         else if tag = SER_DATETIME then let (v, r) = des_datetime e r in (v, r, used)
         else if tag = SER_DURATION then let (v, r) = des_duration r in (v, r, used)
         else if tag = SER_MONEY then let (v, r) = des_money e r in (v, r, used)
         else if tag = SER_ACTOR then des_actor e r used
         else if tag = SER_FUNCTION then let (v, r) = des_function e r in (v, r, used)
         else if tag = SER_REGEX then let (v, r) = des_regex e r in (v, r, used)
         else (VNull, r_fail r, used))"
| "deserialize_items 0 e r depth used = ([], r, used)"
| "deserialize_items (Suc n) e r depth used =
     (let (v, r, used) = deserialize_value e r (depth + 1) used
      in if \<not> inok r then ([], r, used)
         else let (vs, r, used) = deserialize_items n e r depth used in (v # vs, r, used))"
| "deserialize_fields 0 e r depth used = ([], r, used)"
| "deserialize_fields (Suc n) e r depth used =
     (let (name, r) = des_blob e r
      in if \<not> inok r then ([], r, used)
         else let (v, r, used) = deserialize_value e r (depth + 1) used
              in if \<not> inok r then ([], r, used)
                 else let (fs, r, used) = deserialize_fields n e r depth used
                      in (Field name POLICY_COPY v # fs, r, used))"
  by pat_completeness auto

termination
  by (relation "inv_image (less_than <*lex*> less_than)
       (\<lambda>x. case x of
              Inl (e, r, d, u) \<Rightarrow> (2 * (257 - d), 0)
            | Inr (Inl (n, e, r, d, u)) \<Rightarrow> (2 * (257 - d) - 1, Suc n)
            | Inr (Inr (n, e, r, d, u)) \<Rightarrow> (2 * (257 - d) - 1, Suc n))")
    (auto simp: SER_MAX_DEPTH_def)

declare deserialize_value.simps [simp del]

text \<open>The payload's version is its fourth byte.\<close>

definition deserialize_from_buffer :: "des_env \<Rightarrow> bytes \<Rightarrow> (val \<times> nat list) option" where
  "deserialize_from_buffer e data =
     (if length data < 4 \<or> take 3 data \<noteq> [0x67, 0x42, 0x53] \<or> data ! 3 < 1 \<or> 3 < data ! 3 then None
      else let (v, r, used) = deserialize_value (e\<lparr>version := unat (data ! 3)\<rparr>)
                 \<lparr>inp = data, inpos = 4, inok = True\<rparr> 0 []
           in if \<not> inok r \<or> inpos r \<noteq> length data then None else Some (v, used))"

end
