(* ===== verification/V3_Fields.thy ===== *)
theory V3_Fields
  imports V3_Codec
begin

text \<open>
  The rest of \<^verbatim>\<open>src/gsql/v3.c\<close>: a record split into its fields, an array into its items, and
  the readers of single values. A field is copied out of the buffer where the code borrows it.
\<close>

record v3field =
  fd_name :: bytes
  fd_value :: bytes

fun v3_fields_loop :: "nat \<Rightarrow> v3in \<Rightarrow> v3field list \<Rightarrow> (v3in \<times> v3field list) option" where
  "v3_fields_loop 0 i acc = Some (i, acc)"
| "v3_fields_loop (Suc n) i acc =
     (let (nl, i) = v3_in_uleb i;
          at = inpos i;
          i = v3_in_skip i nl
      in if \<not> inok i then None
         else let vstart = inpos i;
                  (good, i, w) = v3_walk i 1 v3walk0
              in if \<not> good then None
                 else v3_fields_loop n i
                   (acc @ [\<lparr>fd_name = peek at (unat nl) (inp i),
                            fd_value = peek vstart (inpos i - vstart) (inp i)\<rparr>]))"

definition v3_record_fields :: "bytes \<Rightarrow> nat \<Rightarrow> v3field list option" where
  "v3_record_fields p mx =
     (let i = \<lparr>inp = p, inpos = 0, inok = True\<rparr>;
          (tag, i) = v3_in_le i 1
      in if tag \<noteq> SER_RECORD then None
         else let (count, i) = v3_in_uleb i
              in if \<not> inok i \<or> mx < unat count then None
                 else case v3_fields_loop (unat count) i [] of
                        None \<Rightarrow> None
                      | Some (i, fs) \<Rightarrow> if inpos i = length p then Some fs else None)"

fun v3_field_named :: "v3field list \<Rightarrow> bytes \<Rightarrow> v3field option" where
  "v3_field_named [] name = None"
| "v3_field_named (f # fs) name =
     (if length (fd_name f) = length name \<and> memcmp (fd_name f) name (length name) = 0 then Some f
      else v3_field_named fs name)"

fun v3_items_loop :: "nat \<Rightarrow> v3in \<Rightarrow> bytes list \<Rightarrow> (v3in \<times> bytes list) option" where
  "v3_items_loop 0 i acc = Some (i, acc)"
| "v3_items_loop (Suc n) i acc =
     (let at = inpos i;
          (good, i, w) = v3_walk i 1 v3walk0
      in if \<not> good then None
         else v3_items_loop n i (acc @ [peek at (inpos i - at) (inp i)]))"

definition v3_array_items :: "bytes \<Rightarrow> nat \<Rightarrow> bytes list option" where
  "v3_array_items p mx =
     (let i = \<lparr>inp = p, inpos = 0, inok = True\<rparr>;
          (tag, i) = v3_in_le i 1
      in if tag \<noteq> SER_ARRAY then None
         else let (count, i) = v3_in_uleb i
              in if \<not> inok i \<or> mx < unat count then None
                 else case v3_items_loop (unat count) i [] of
                        None \<Rightarrow> None
                      | Some (i, vs) \<Rightarrow> if inpos i = length p then Some vs else None)"

definition v3_read_u64 :: "bytes \<Rightarrow> u64 option" where
  "v3_read_u64 p =
     (if length p \<noteq> 10 \<or> p ! 0 \<noteq> SER_NUMBER \<or> p ! 1 \<noteq> 1 then None
      else let x = (get_le (peek 2 8 p) :: u64) in if sint x < 0 then None else Some x)"

definition v3_read_bool :: "bytes \<Rightarrow> bool option" where
  "v3_read_bool p =
     (if length p \<noteq> 2 \<or> p ! 0 \<noteq> SER_BOOL \<or> 1 < p ! 1 then None else Some (p ! 1 = 1))"

definition v3_read_text :: "bytes \<Rightarrow> bytes option" where
  "v3_read_text p =
     (let i = \<lparr>inp = p, inpos = 0, inok = True\<rparr>;
          (tag, i) = v3_in_le i 1
      in if tag \<noteq> SER_STRING then None
         else let (len, i) = v3_in_uleb i
              in if \<not> inok i \<or> unat len \<noteq> length p - inpos i \<or> 0 \<in> set (peek (inpos i) (unat len) p)
                 then None
                 else Some (peek (inpos i) (unat len) p))"

section \<open>Reading back what the writers wrote\<close>

lemma start_cur: "\<lparr>inp = p, inpos = 0, inok = True\<rparr> = cur [] p"
  by (simp add: cur_def)

lemma read_bool_w [rt_simps]: "v3_read_bool (v3_w_bool b) = Some b"
  by (simp add: v3_read_bool_def v3_w_bool_def)

lemma read_u64_w [rt_simps]: "0 \<le> sint v \<Longrightarrow> v3_read_u64 (v3_w_int v) = Some v"
  by (simp add: v3_read_u64_def v3_w_int_def peek_def)

lemma read_text_w [rt_simps]:
  assumes "length s < 2 ^ 64" "0 \<notin> set s"
  shows "v3_read_text (v3_w_text s) = Some s"
proof -
  have "unat (word_of_nat (length s) :: u64) = length s"
    using assms(1) by (simp add: unsigned_of_nat take_bit_nat_eq_self)
  moreover have "v3_in_uleb (cur [5] (v3_uleb (word_of_nat (length s)) @ s)) =
      (word_of_nat (length s), cur ([5] @ v3_uleb (word_of_nat (length s))) s)"
    by (rule in_uleb_put)
  ultimately show ?thesis
    using assms(2) by (simp add: v3_read_text_def v3_w_text_def start_cur peek_def)
qed

end
