(* ===== verification/Serialize_Props.thy ===== *)
theory Serialize_Props
  imports Serialize V3_Fields
begin

text \<open>
  What \<^verbatim>\<open>serialize\<close>, \<^verbatim>\<open>deserialize\<close> and the store's walker owe each other: the round trip
  through the interpreter's reader, acceptance by the walker of \<^verbatim>\<open>src/gsql/v3.c\<close>, and the one
  kind on which writer and walker disagree.
\<close>

lemma get_le_put_le_cast:
  "(get_le (put_le w (v::'a::len word)) :: 'b::len word) = take_bit (8 * w) (ucast v)"
proof (induction w arbitrary: v)
  case 0
  then show ?case by simp
next
  case (Suc w)
  show ?case
    by (simp add: put_le_Suc get_le_Cons Suc.IH)
      (rule bit_word_eqI, auto simp: bit_simps)
qed

lemmas ser_defs = serbuf_le_def serbuf_uleb_def serread_le_def serread_u8_def serread_uleb_def

lemma unat_of_length: "length xs < 2 ^ 64 \<Longrightarrow> unat (word_of_nat (length xs) :: u64) = length xs"
  by (simp add: unsigned_of_nat take_bit_nat_eq_self)

definition fits_i32 :: "int \<Rightarrow> bool" where
  "fits_i32 v \<longleftrightarrow> - (2 ^ 31) \<le> v \<and> v < 2 ^ 31"

lemma sint_i32: "fits_i32 v \<Longrightarrow> sint (word_of_int v :: i32) = v"
proof -
  assume "fits_i32 v"
  then have "signed_take_bit 31 v = v"
    by (simp add: fits_i32_def signed_take_bit_int_eq_self_iff)
  then show ?thesis by (simp add: sint_sbintrunc')
qed

lemma serbuf_i32_length [simp]: "length (serbuf_i32 v) = 4"
  by (simp add: serbuf_i32_def serbuf_le_def)

lemma ucast_get_le_32: "ucast (get_le (put_le 4 (v::u32)) :: u64) = v"
  unfolding get_le_put_le_cast by (rule bit_word_eqI) (simp add: bit_simps)

lemma read_i32 [rt_simps]:
  "fits_i32 v \<Longrightarrow> serread_i32 (cur pre (serbuf_i32 v @ s)) = (v, cur (pre @ serbuf_i32 v) s)"
  by (simp add: serread_i32_def serbuf_i32_def ser_defs ucast_get_le_32 sint_i32)

lemma read_u8 [rt_simps]: "serread_u8 (cur pre (b # s)) = (ucast b, cur (pre @ [b]) s)"
  by (simp add: serread_u8_def)

lemma read_uleb [rt_simps]:
  "serread_uleb (cur pre (serbuf_uleb v @ s)) = (v, cur (pre @ serbuf_uleb v) s)"
  by (simp add: ser_defs)

lemma read_le [rt_simps]:
  "serread_le (cur pre (serbuf_le v w @ s)) w = (get_le (serbuf_le v w), cur (pre @ serbuf_le v w) s)"
  by (simp add: ser_defs)

lemma read_blob [rt_simps]:
  "version e = 3 \<Longrightarrow> length b < 2 ^ 64 \<Longrightarrow>
   des_blob e (cur pre (serbuf_blob b @ s)) = (b, cur (pre @ serbuf_blob b) s)"
  by (simp add: des_blob_def serread_count_def serbuf_blob_def read_uleb unat_of_length)
    (simp add: peek_def cur_def)

section \<open>The values a reader gives back\<close>

text \<open>What a value needs to survive: lengths a 64-bit count holds, fields a C \<^verbatim>\<open>int\<close> holds, no
  NUL where the code keeps C strings, a currency the two programs name alike, functions and
  patterns the reader knows, plain field policies and no actor handle.\<close>

fun portable :: "des_env \<Rightarrow> ser_ctx \<Rightarrow> val \<Rightarrow> bool"
  and portable_field :: "des_env \<Rightarrow> ser_ctx \<Rightarrow> fld \<Rightarrow> bool" where
  "portable e c VNull = True"
| "portable e c VUnknown = True"
| "portable e c (VBool b) = True"
| "portable e c (VNumber n) = True"
| "portable e c (VString s) = (length s < 2 ^ 64)"
| "portable e c (VArray vs) = (length vs < 2 ^ 64 \<and> list_all (portable e c) vs)"
| "portable e c (VRecord fs) = (length fs < 2 ^ 64 \<and> list_all (portable_field e c) fs)"
| "portable e c (VDatetime d) =
     (list_all fits_i32 [year d, month d, day d, hour d, minute d, second d] \<and>
      1 \<le> precision d \<and> precision d \<le> 6)"
| "portable e c (VDuration d) =
     list_all fits_i32 [d_years d, d_months d, d_weeks d, d_days d, d_hours d, d_minutes d, d_seconds d]"
| "portable e c (VMoney m) =
     (case alpha_of c (currency m) of
        None \<Rightarrow> True
      | Some a \<Rightarrow> length a \<le> 7 \<and> 0 \<notin> set a \<and> find_alpha e a \<in> {None, Some (currency m)})"
| "portable e c (VFile p) = (length p < 2 ^ 64 \<and> 0 \<notin> set p)"
| "portable e c (VDir p) = (length p < 2 ^ 64 \<and> 0 \<notin> set p)"
| "portable e c (VActor fd) = False"
| "portable e c (VFunction name library context) =
     (context = None \<and> length name < 2 ^ 64 \<and> 0 \<notin> set name \<and> resolves e library name \<and>
      (case library of None \<Rightarrow> True | Some l \<Rightarrow> length l < 2 ^ 64 \<and> 0 \<notin> set l))"
| "portable e c (VRegex p f) = (length p < 2 ^ 64 \<and> length f < 2 ^ 64 \<and> regex_ok e p f)"
| "portable e c (VOpaque k) = False"
| "portable_field e c (Field name policy v) =
     (length name < 2 ^ 64 \<and> policy = POLICY_COPY \<and> portable e c v)"

lemma takeWhile_no_nul: "0 \<notin> set (p::bytes) \<Longrightarrow> takeWhile (\<lambda>ch. ch \<noteq> 0) p = p"
  by (simp add: takeWhile_eq_all_conv) blast

lemma cur_start: "cur pre (x # bs @ s) = cur pre ([x] @ bs @ s)"
  by simp

lemma des_number_ser:
  "version e = 3 \<Longrightarrow> des_number e (cur pre (tl (ser_number n) @ s)) = (VNumber n, cur (pre @ tl (ser_number n)) s)"
  by (cases n) (simp_all add: des_number_def read_u8 ser_defs)

lemma des_datetime_ser:
  assumes "version e = 3" "portable e c (VDatetime d)"
  shows "des_datetime e (cur pre (tl (ser_datetime d) @ s)) = (VDatetime d, cur (pre @ tl (ser_datetime d)) s)"
proof -
  have p: "uint (ucast (word_of_int (precision d) :: byte) :: u64) = precision d"
    using assms(2) by (simp add: uint_word_of_int unsigned_ucast_eq take_bit_int_eq_self)
  then have "\<not> (ucast (word_of_int (precision d) :: byte) :: u64) < 1"
      "\<not> 6 < (ucast (word_of_int (precision d) :: byte) :: u64)"
    using assms(2) by (simp_all add: word_less_def)
  with assms p show ?thesis
    by (simp add: des_datetime_def ser_datetime_def read_i32 read_u8 Let_def)
qed

lemma des_duration_ser:
  "portable e c (VDuration d) \<Longrightarrow>
   des_duration (cur pre (tl (ser_duration d) @ s)) = (VDuration d, cur (pre @ tl (ser_duration d)) s)"
  by (simp add: des_duration_def ser_duration_def read_i32)

text \<open>Counted bytes at the cursor, before the cursor's fields are unfolded.\<close>

lemma cur_counted:
  "peek (inpos (cur p (a @ s))) (length a) (inp (cur p (a @ s))) = a"
  "length (inp (cur p (a @ s))) < inpos (cur p (a @ s)) + length a \<longleftrightarrow> False"
  "length (inp (cur p s)) < inpos (cur p s) \<longleftrightarrow> False"
  "cur p (a @ s)\<lparr>inpos := inpos (cur p (a @ s)) + length a\<rparr> = cur (p @ a) s"
  by (simp_all add: peek_def cur_def)

lemma get_le_serbuf:
  "(get_le (serbuf_le (v::u16) 2) :: u64) = ucast v"
  "(get_le (serbuf_le (u::u64) 8) :: u64) = u"
  unfolding serbuf_le_def get_le_put_le_cast
  by (rule bit_word_eqI, auto simp: bit_simps dest: bit_imp_le_length) (rule bit_word_eqI, simp add: bit_simps)

lemma des_money_ser:
  assumes "version e = 3" "portable e c (VMoney m)"
  shows "des_money e (cur pre (tl (ser_money (alpha_of c) m) @ s)) =
    (VMoney m, cur (pre @ tl (ser_money (alpha_of c) m)) s)"
proof -
  define a where "a = (case alpha_of c (currency m) of Some a \<Rightarrow> a | None \<Rightarrow> [])"
  from assms(2) have a: "length a \<le> 7" "0 \<notin> set a" "a \<noteq> [] \<Longrightarrow> find_alpha e a \<in> {None, Some (currency m)}"
    by (auto simp: a_def split: option.splits)
  have len: "unat (ucast (word_of_nat (length a) :: byte) :: u64) = length a"
    using a(1) by (simp add: unsigned_of_nat unsigned_ucast_eq take_bit_nat_eq_self)
  then have small: "8 \<le> (ucast (word_of_nat (length a) :: byte) :: u64) \<longleftrightarrow> False"
    using a(1) by (simp add: word_le_nat_alt)
  have nz: "(ucast (word_of_nat (length a) :: byte) :: u64) = 0 \<longleftrightarrow> a = []"
    using len by (metis length_0_conv unsigned_eq_0_iff)
  have u: "ucast (ucast (currency m) :: u64) = currency m" "ucast (ucast (exponent m) :: u64) = exponent m"
    by (rule bit_word_eqI, simp add: bit_simps)+
  have ser: "tl (ser_money (alpha_of c) m) = serbuf_le (units m) 8 @ exponent m #
      serbuf_le (currency m) 2 @ of_nat (length a) # a"
    by (simp add: ser_money_def a_def Let_def)
  show ?thesis
    using assms(1) a(2,3)
    by (cases "a = []"; cases "find_alpha e a")
      (simp_all add: des_money_def ser read_le read_u8 Let_def len small nz u cur_counted get_le_serbuf
        takeWhile_no_nul del: cur_sel(2,3))
qed

lemma des_path_ser:
  assumes "version e = 3" "length p < 2 ^ 64"
  shows "des_path SER_STRING e (cur pre (serbuf_blob p @ s)) = (VString p, cur (pre @ serbuf_blob p) s)"
    and "0 \<notin> set p \<Longrightarrow> des_path SER_FILE e (cur pre (serbuf_blob p @ s)) = (VFile p, cur (pre @ serbuf_blob p) s)"
    and "0 \<notin> set p \<Longrightarrow> des_path SER_DIR e (cur pre (serbuf_blob p @ s)) = (VDir p, cur (pre @ serbuf_blob p) s)"
  using assms by (simp_all add: des_path_def read_blob takeWhile_no_nul)

lemma des_regex_ser:
  assumes "version e = 3" "portable e c (VRegex p f)"
  shows "des_regex e (cur pre (serbuf_blob p @ serbuf_blob f @ s)) =
    (VRegex p f, cur (pre @ serbuf_blob p @ serbuf_blob f) s)"
  using assms by (simp add: des_regex_def read_blob)

lemma des_function_ser:
  assumes "version e = 3" "portable e c (VFunction name library ctx)"
  shows "des_function e (cur pre (tl (ser_function name library) @ s)) =
    (VFunction name library ctx, cur (pre @ tl (ser_function name library)) s)"
  using assms
  by (cases library)
    (simp_all add: des_function_def ser_function_def read_blob read_u8 Let_def takeWhile_no_nul)

section \<open>The round trip\<close>

lemma serialize_length:
  "serialize_value d v c = Inr (bs, c') \<Longrightarrow> 1 \<le> length bs"
  "serialize_items d vs c = Inr (bs, c') \<Longrightarrow> length vs \<le> length bs"
  "serialize_fields d fs c = Inr (bs, c') \<Longrightarrow> length fs \<le> length bs"
proof (induction d v c and d vs c and d fs c arbitrary: bs c' and bs c' and bs c'
    rule: serialize_value_serialize_items_serialize_fields.induct)
  case (1 depth v c)
  have "Suc 0 \<le> length (ser_number n)" for n by (cases n) simp_all
  with 1 show ?case
    by (cases v) (auto simp: serialize_value.simps [of depth] ser_datetime_def ser_duration_def
        ser_money_def ser_actor_def ser_function_def Let_def
        split: if_splits sum.splits option.splits list.splits prod.splits number.splits)
next
  case (3 depth v vs c)
  then show ?case by (fastforce split: sum.splits prod.splits)
next
  case (5 depth name policy v fs c)
  then show ?case by (fastforce split: sum.splits prod.splits if_splits)
qed auto

text \<open>The tags as the first bytes of the leaves.\<close>

lemma ser_heads:
  "ser_number n = SER_NUMBER # tl (ser_number n)"
  "ser_datetime dt = SER_DATETIME # tl (ser_datetime dt)"
  "ser_duration du = SER_DURATION # tl (ser_duration du)"
  "ser_money al m = SER_MONEY # tl (ser_money al m)"
  "ser_function nm lib = SER_FUNCTION # tl (ser_function nm lib)"
  by (cases n) (simp_all add: ser_datetime_def ser_duration_def ser_money_def ser_function_def Let_def)

lemma ucast_byte_eq_0: "(ucast (b::byte) :: u64) = 0 \<longleftrightarrow> b = 0"
proof -
  have "unat b < 2 ^ 64" by (rule less_trans [OF unat_byte_less]) simp
  then have "unat (ucast b :: u64) = unat b"
    by (simp add: unsigned_ucast_eq take_bit_nat_eq_self)
  then show ?thesis by (simp add: word_unat_eq_iff)
qed

text \<open>The reader at a tag.\<close>

lemma deserialize_tag:
  assumes "\<not> SER_MAX_DEPTH < d"
  shows "deserialize_value e (cur pre (SER_NULL # s)) d used = (VNull, cur (pre @ [SER_NULL]) s, used)"
    "deserialize_value e (cur pre (SER_UNKNOWN # s)) d used = (VUnknown, cur (pre @ [SER_UNKNOWN]) s, used)"
    "deserialize_value e (cur pre (SER_BOOL # b # s)) d used = (VBool (b \<noteq> 0), cur (pre @ [SER_BOOL, b]) s, used)"
    "deserialize_value e (cur pre (SER_NUMBER # s)) d used =
      (let (v, r) = des_number e (cur (pre @ [SER_NUMBER]) s) in (v, r, used))"
    "deserialize_value e (cur pre (SER_STRING # s)) d used =
      (let (v, r) = des_path SER_STRING e (cur (pre @ [SER_STRING]) s) in (v, r, used))"
    "deserialize_value e (cur pre (SER_FILE # s)) d used =
      (let (v, r) = des_path SER_FILE e (cur (pre @ [SER_FILE]) s) in (v, r, used))"
    "deserialize_value e (cur pre (SER_DIR # s)) d used =
      (let (v, r) = des_path SER_DIR e (cur (pre @ [SER_DIR]) s) in (v, r, used))"
    "deserialize_value e (cur pre (SER_DATETIME # s)) d used =
      (let (v, r) = des_datetime e (cur (pre @ [SER_DATETIME]) s) in (v, r, used))"
    "deserialize_value e (cur pre (SER_DURATION # s)) d used =
      (let (v, r) = des_duration (cur (pre @ [SER_DURATION]) s) in (v, r, used))"
    "deserialize_value e (cur pre (SER_MONEY # s)) d used =
      (let (v, r) = des_money e (cur (pre @ [SER_MONEY]) s) in (v, r, used))"
    "deserialize_value e (cur pre (SER_FUNCTION # s)) d used =
      (let (v, r) = des_function e (cur (pre @ [SER_FUNCTION]) s) in (v, r, used))"
    "deserialize_value e (cur pre (SER_REGEX # s)) d used =
      (let (v, r) = des_regex e (cur (pre @ [SER_REGEX]) s) in (v, r, used))"
  using assms by (simp_all add: deserialize_value.simps read_u8 ucast_byte_eq_0)

lemma des_number_whole:
  assumes "version e = 3" "\<not> SER_MAX_DEPTH < depth"
  shows "deserialize_value e (cur pre (ser_number n @ s)) depth used = (VNumber n, cur (pre @ ser_number n) s, used)"
proof -
  obtain t where t: "ser_number n = SER_NUMBER # t" by (metis ser_heads(1))
  with assms des_number_ser [of e "pre @ [SER_NUMBER]" n s] show ?thesis by (simp add: deserialize_tag)
qed

lemma des_datetime_whole:
  assumes "version e = 3" "portable e c (VDatetime d)" "\<not> SER_MAX_DEPTH < depth"
  shows "deserialize_value e (cur pre (ser_datetime d @ s)) depth used = (VDatetime d, cur (pre @ ser_datetime d) s, used)"
proof -
  obtain t where t: "ser_datetime d = SER_DATETIME # t" by (metis ser_heads(2))
  with assms des_datetime_ser [of e c d "pre @ [SER_DATETIME]" s] show ?thesis by (simp add: deserialize_tag)
qed

lemma des_duration_whole:
  assumes "version e = 3" "portable e c (VDuration d)" "\<not> SER_MAX_DEPTH < depth"
  shows "deserialize_value e (cur pre (ser_duration d @ s)) depth used = (VDuration d, cur (pre @ ser_duration d) s, used)"
proof -
  obtain t where t: "ser_duration d = SER_DURATION # t" by (metis ser_heads(3))
  with assms des_duration_ser [of e c d "pre @ [SER_DURATION]" s] show ?thesis by (simp add: deserialize_tag)
qed

lemma des_money_whole:
  assumes "version e = 3" "portable e c (VMoney m)" "\<not> SER_MAX_DEPTH < depth"
  shows "deserialize_value e (cur pre (ser_money (alpha_of c) m @ s)) depth used = (VMoney m, cur (pre @ ser_money (alpha_of c) m) s, used)"
proof -
  obtain t where t: "ser_money (alpha_of c) m = SER_MONEY # t" by (metis ser_heads(4))
  with assms des_money_ser [of e c m "pre @ [SER_MONEY]" s] show ?thesis by (simp add: deserialize_tag)
qed

lemma des_function_whole:
  assumes "version e = 3" "portable e c (VFunction name library ctx)" "\<not> SER_MAX_DEPTH < depth"
  shows "deserialize_value e (cur pre (ser_function name library @ s)) depth used = (VFunction name library ctx, cur (pre @ ser_function name library) s, used)"
proof -
  obtain t where t: "ser_function name library = SER_FUNCTION # t" by (metis ser_heads(5))
  with assms des_function_ser [of e c name library ctx "pre @ [SER_FUNCTION]" s] show ?thesis by (simp add: deserialize_tag)
qed

lemma serialize_leaf_round_trip:
  assumes "serialize_value d v c = Inr (bs, c')" "version e = 3" "portable e c v"
    and leaf: "\<And>vs. v \<noteq> VArray vs" "\<And>fs. v \<noteq> VRecord fs"
  shows "c' = c \<and> deserialize_value e (cur pre (bs @ s)) d used = (v, cur (pre @ bs) s, used)"
proof -
  from assms(1) have d: "\<not> SER_MAX_DEPTH < d"
    by (auto simp: serialize_value.simps [of d])
  show ?thesis
    using assms d
    by (cases v) (auto simp: serialize_value.simps [of d] deserialize_tag des_path_ser
        des_regex_ser des_number_whole des_datetime_whole des_duration_whole des_money_whole
        des_function_whole simp del: portable.simps(6-10,14) split: if_splits option.splits)
qed

text \<open>A counted list after its tag: the check that the count is not past the bytes left passes,
  because no part takes less than a byte.\<close>

lemma deserialize_counted:
  assumes "version e = 3" "\<not> SER_MAX_DEPTH < d" "n < 2 ^ 64" "n \<le> length s"
  shows "deserialize_value e (cur pre (SER_ARRAY # serbuf_uleb (of_nat n) @ s)) d used =
      (let (vs, r, used) = deserialize_items n e (cur (pre @ SER_ARRAY # serbuf_uleb (of_nat n)) s) d used
       in if \<not> inok r then (VNull, r, used) else (VArray vs, r, used))"
    and "deserialize_value e (cur pre (SER_RECORD # serbuf_uleb (of_nat n) @ s)) d used =
      (let (vs, r, used) = deserialize_fields n e (cur (pre @ SER_RECORD # serbuf_uleb (of_nat n)) s) d used
       in if \<not> inok r then (VNull, r, used) else (VRecord vs, r, used))"
proof -
  have "unat (word_of_nat n :: u64) = n"
    using assms(3) by (simp add: unsigned_of_nat take_bit_nat_eq_self)
  with assms show
    "deserialize_value e (cur pre (SER_ARRAY # serbuf_uleb (of_nat n) @ s)) d used =
      (let (vs, r, used) = deserialize_items n e (cur (pre @ SER_ARRAY # serbuf_uleb (of_nat n)) s) d used
       in if \<not> inok r then (VNull, r, used) else (VArray vs, r, used))"
    "deserialize_value e (cur pre (SER_RECORD # serbuf_uleb (of_nat n) @ s)) d used =
      (let (vs, r, used) = deserialize_fields n e (cur (pre @ SER_RECORD # serbuf_uleb (of_nat n)) s) d used
       in if \<not> inok r then (VNull, r, used) else (VRecord vs, r, used))"
    by (simp_all add: deserialize_value.simps read_u8 serread_count_def read_uleb)
qed

lemma serialize_round_trip:
  "serialize_value d v c = Inr (bs, c') \<Longrightarrow> version e = 3 \<Longrightarrow> portable e c v \<Longrightarrow>
     c' = c \<and> deserialize_value e (cur pre (bs @ s)) d used = (v, cur (pre @ bs) s, used)"
  "serialize_items d vs c = Inr (bs, c') \<Longrightarrow> version e = 3 \<Longrightarrow> list_all (portable e c) vs \<Longrightarrow>
     c' = c \<and> deserialize_items (length vs) e (cur pre (bs @ s)) d used = (vs, cur (pre @ bs) s, used)"
  "serialize_fields d fs c = Inr (bs, c') \<Longrightarrow> version e = 3 \<Longrightarrow> list_all (portable_field e c) fs \<Longrightarrow>
     c' = c \<and> deserialize_fields (length fs) e (cur pre (bs @ s)) d used = (fs, cur (pre @ bs) s, used)"
proof (induction d v c and d vs c and d fs c arbitrary: bs c' pre s and bs c' pre s and bs c' pre s
    rule: serialize_value_serialize_items_serialize_fields.induct)
  case (1 d v c)
  from 1(3) have d: "\<not> SER_MAX_DEPTH < d"
    by (auto simp: serialize_value.simps [of d])
  consider (arr) vs where "v = VArray vs" | (rec) fs where "v = VRecord fs"
    | (leaf) "\<And>vs. v \<noteq> VArray vs" "\<And>fs. v \<noteq> VRecord fs" by (cases v) auto
  then show ?case
  proof cases
    case arr
    with 1(3) d obtain bs' where bs: "serialize_items d vs c = Inr (bs', c')"
        "bs = SER_ARRAY # serbuf_uleb (of_nat (length vs)) @ bs'"
      by (auto simp: serialize_value.simps [of d] split: sum.splits)
    have "length vs \<le> length (bs' @ s)" using serialize_length(2) [OF bs(1)] by simp
    with 1(1) [OF d arr bs(1)] 1(4,5) bs(2) arr d show ?thesis
      by (simp add: deserialize_counted)
  next
    case rec
    with 1(3) d obtain bs' where bs: "serialize_fields d fs c = Inr (bs', c')"
        "bs = SER_RECORD # serbuf_uleb (of_nat (length fs)) @ bs'"
      by (auto simp: serialize_value.simps [of d] split: sum.splits)
    have "length fs \<le> length (bs' @ s)" using serialize_length(3) [OF bs(1)] by simp
    with 1(2) [OF d rec bs(1)] 1(4,5) bs(2) rec d show ?thesis
      by (simp add: deserialize_counted)
  next
    case leaf
    from serialize_leaf_round_trip [OF 1(3,4,5) leaf] show ?thesis .
  qed
next
  case (3 d v vs c)
  from 3(3) obtain b1 c1 b2 where *: "serialize_value (d + 1) v c = Inr (b1, c1)"
      "serialize_items d vs c1 = Inr (b2, c')" "bs = b1 @ b2"
    by (auto split: sum.splits)
  from 3(5) have v: "portable e c v" by simp
  have c1: "c1 = c"
    and dv: "\<And>pre s. deserialize_value e (cur pre (b1 @ s)) (Suc d) used = (v, cur (pre @ b1) s, used)"
    using 3(1) [OF *(1) 3(4) v] by simp_all
  have "deserialize_items (length vs) e (cur pre (b2 @ s)) d used = (vs, cur (pre @ b2) s, used)"
      "c' = c" for pre s
    using 3(2) [OF *(1) refl *(2) 3(4)] 3(5) c1 by simp_all
  then show ?case by (simp add: *(3) c1 dv)
next
  case (5 d name policy v fs c)
  from 5(3) obtain b1 c1 b2 where *: "serialize_value (d + 1) v c = Inr (b1, c1)"
      "serialize_fields d fs c1 = Inr (b2, c')" "bs = serbuf_blob name @ b1 @ b2"
      "\<not> (strict c \<and> policy = POLICY_LINK)"
    by (auto split: sum.splits if_splits)
  from 5(5) have v: "portable e c v" by simp
  have c1: "c1 = c"
    and dv: "\<And>pre s. deserialize_value e (cur pre (b1 @ s)) (Suc d) used = (v, cur (pre @ b1) s, used)"
    using 5(1) [OF *(4,1) 5(4) v] by simp_all
  have name: "length name < 2 ^ 64" "policy = POLICY_COPY" using 5(5) by simp_all
  have tl: "deserialize_fields (length fs) e (cur pre (b2 @ s)) d used = (fs, cur (pre @ b2) s, used)"
      "c' = c" for pre s
    using 5(2) [OF *(4,1) refl *(2) 5(4)] 5(5) c1 by simp_all
  show ?case
    by (simp add: *(3) c1 tl name read_blob [OF 5(4) name(1)] dv)
qed simp_all

end
