(* ===== verification/Serialize_Walk.thy ===== *)
theory Serialize_Walk
  imports Serialize_Props
begin

text \<open>
  The writer of \<^verbatim>\<open>src/eval.c\<close> against the walker of \<^verbatim>\<open>src/gsql/v3.c\<close>: the walker accepts what
  the writer writes, ends where the value ends, and records the first kind a column cannot hold.
  The one exception is a function with a library name, whose encoding the walker misreads.
\<close>

section \<open>What the walker reports of a value\<close>

fun walkable :: "(u16 \<Rightarrow> bytes option) \<Rightarrow> val \<Rightarrow> bool"
  and walkable_field :: "(u16 \<Rightarrow> bytes option) \<Rightarrow> fld \<Rightarrow> bool" where
  "walkable al (VString s) = (length s < 2 ^ 64)"
| "walkable al (VArray vs) = (length vs < 2 ^ 64 \<and> list_all (walkable al) vs)"
| "walkable al (VRecord fs) = (length fs < 2 ^ 64 \<and> list_all (walkable_field al) fs)"
| "walkable al (VDatetime d) = (1 \<le> precision d \<and> precision d \<le> 6)"
| "walkable al (VMoney m) = (case al (currency m) of None \<Rightarrow> True | Some a \<Rightarrow> length a \<le> 7)"
| "walkable al (VFile p) = (length p < 2 ^ 64)"
| "walkable al (VDir p) = (length p < 2 ^ 64)"
| "walkable al (VActor fd) = False"
| "walkable al (VFunction name library context) = (library = None \<and> length name < 2 ^ 64)"
| "walkable al (VRegex p f) = (length p < 2 ^ 64 \<and> length f < 2 ^ 64)"
| "walkable al _ = True"
| "walkable_field al (Field name policy v) = (length name < 2 ^ 64 \<and> walkable al v)"

fun value_tag :: "val \<Rightarrow> u64" where
  "value_tag VNull = SER_NULL"
| "value_tag VUnknown = SER_UNKNOWN"
| "value_tag (VBool b) = SER_BOOL"
| "value_tag (VNumber n) = SER_NUMBER"
| "value_tag (VString s) = SER_STRING"
| "value_tag (VArray vs) = SER_ARRAY"
| "value_tag (VRecord fs) = SER_RECORD"
| "value_tag (VDatetime d) = SER_DATETIME"
| "value_tag (VDuration d) = SER_DURATION"
| "value_tag (VMoney m) = SER_MONEY"
| "value_tag (VFile p) = SER_FILE"
| "value_tag (VDir p) = SER_DIR"
| "value_tag (VActor fd) = SER_ACTOR"
| "value_tag (VFunction name library context) = SER_FUNCTION"
| "value_tag (VRegex p f) = SER_REGEX"
| "value_tag (VOpaque k) = 0"

text \<open>The kinds no column holds, in the order they are met, and whether an array is inside.\<close>

fun bad_tags :: "val \<Rightarrow> u64 list" and bad_tags_field :: "fld \<Rightarrow> u64 list" where
  "bad_tags (VArray vs) = concat (map bad_tags vs)"
| "bad_tags (VRecord fs) = concat (map bad_tags_field fs)"
| "bad_tags v = (if value_tag v \<in> {SER_DURATION, SER_FILE, SER_DIR, SER_FUNCTION, SER_REGEX}
                 then [value_tag v] else [])"
| "bad_tags_field (Field name policy v) = bad_tags v"

fun nested_array :: "nat \<Rightarrow> val \<Rightarrow> bool" and nested_array_field :: "nat \<Rightarrow> fld \<Rightarrow> bool" where
  "nested_array depth (VArray vs) = (0 < depth \<or> list_ex (nested_array (depth + 1)) vs)"
| "nested_array depth (VRecord fs) = list_ex (nested_array_field depth) fs"
| "nested_array depth _ = False"
| "nested_array_field depth (Field name policy v) = nested_array (depth + 1) v"

definition first_bad :: "u64 list \<Rightarrow> u64 \<Rightarrow> u64" where
  "first_bad ts t = fold (\<lambda>x t. if t = 0 then x else t) ts t"

text \<open>\<open>w'\<close> is what a walk of parts with these tags leaves of \<open>w\<close>.\<close>

definition walk_result :: "u64 list \<Rightarrow> bool \<Rightarrow> v3walk \<Rightarrow> v3walk \<Rightarrow> bool" where
  "walk_result ts nest w w' \<longleftrightarrow>
     w_bad_tag w' = first_bad ts (w_bad_tag w) \<and> w_nested_array w' = (w_nested_array w \<or> nest)"

lemma first_bad_simps [simp]: "first_bad [] t = t" "first_bad (x # ts) t = first_bad ts (if t = 0 then x else t)"
  by (simp_all add: first_bad_def)

lemma note_bad_tag_sel [simp]:
  "w_bad_tag (note_bad_tag t w) = first_bad [t] (w_bad_tag w)"
  "w_nested_array (note_bad_tag t w) = w_nested_array w" "w_tag (note_bad_tag t w) = w_tag w"
  by (simp_all add: note_bad_tag_def)

lemma walk_result_trans:
  "walk_result ts a w w' \<Longrightarrow> walk_result us b w' w'' \<Longrightarrow> walk_result (ts @ us) (a \<or> b) w w''"
  by (auto simp: walk_result_def first_bad_def)

section \<open>The leaves\<close>

lemma skip_blob:
  "length b < 2 ^ 64 \<Longrightarrow>
   v3_in_skip (snd (v3_in_uleb (cur pre (serbuf_blob b @ s)))) (fst (v3_in_uleb (cur pre (serbuf_blob b @ s)))) =
   cur (pre @ serbuf_blob b) s"
  by (simp add: serbuf_blob_def serbuf_uleb_def in_skip_cur unat_of_length)

lemma walk_at_tag:
  assumes "\<not> V3_MAX_DEPTH < d" "b \<noteq> SER_ARRAY" "b \<noteq> SER_RECORD"
  shows "v3_walk (cur pre (b # s)) d w =
    v3_walk_leaf (ucast b) (cur (pre @ [b]) s) d (if d = 0 then w\<lparr>w_tag := ucast b\<rparr> else w)"
proof -
  have "ucast b \<noteq> (6::u64)" "ucast b \<noteq> (7::u64)"
    using assms(2,3) ucast_byte_eq_0 [of "b XOR 6"] ucast_byte_eq_0 [of "b XOR 7"]
      xor_eq_0_imp [of b 6] xor_eq_0_imp [of b 7]
    by (auto simp: unsigned_xor_eq)
  with assms(1) show ?thesis by (subst v3_walk.simps) (simp add: Let_def)
qed

text \<open>What a successful walk of \<open>bs\<close>, the encoding of \<open>v\<close>, looks like.\<close>

definition walks :: "bytes \<Rightarrow> val \<Rightarrow> nat \<Rightarrow> bool" where
  "walks bs v d \<longleftrightarrow> (\<forall>pre s w. \<exists>w'. v3_walk (cur pre (bs @ s)) d w = (True, cur (pre @ bs) s, w') \<and>
     walk_result (bad_tags v) (nested_array d v) w w' \<and>
     w_tag w' = (if d = 0 then value_tag v else w_tag w))"

lemma walks_leafI:
  assumes "\<not> V3_MAX_DEPTH < d" "bs = b # bs'" "b \<noteq> SER_ARRAY" "b \<noteq> SER_RECORD" "value_tag v = ucast b"
    and "\<And>pre s w. \<exists>w'. v3_walk_leaf (ucast b) (cur pre (bs' @ s)) d w = (True, cur (pre @ bs') s, w') \<and>
      walk_result (bad_tags v) (nested_array d v) w w' \<and> w_tag w' = w_tag w"
  shows "walks bs v d"
  unfolding walks_def
proof (intro allI)
  fix pre s w
  from assms(6) [where pre = "pre @ [b]" and s = s and w = "if d = 0 then w\<lparr>w_tag := ucast b\<rparr> else w"]
  show "\<exists>w'. v3_walk (cur pre (bs @ s)) d w = (True, cur (pre @ bs) s, w') \<and>
     walk_result (bad_tags v) (nested_array d v) w w' \<and>
     w_tag w' = (if d = 0 then value_tag v else w_tag w)"
    using assms(1-5) by (simp add: walk_at_tag walk_result_def split: if_splits)
qed

lemma walk_result_refl [simp]: "walk_result [] False w w"
  by (simp add: walk_result_def)

lemma walks_number:
  assumes "\<not> V3_MAX_DEPTH < d"
  shows "walks (ser_number n) (VNumber n) d"
proof -
  obtain x q where n: "ser_number n = SER_NUMBER # x # put_le 8 (q::u64)" "x = 0 \<or> x = 1"
    by (cases n) (simp_all add: serbuf_le_def)
  from n(2) show ?thesis unfolding n(1)
    by (intro walks_leafI [OF assms refl])
      (auto simp: v3_walk_leaf_def Let_def walk_result_def)
qed

lemma walks_datetime:
  assumes "\<not> V3_MAX_DEPTH < d" "walkable al (VDatetime dt)"
  shows "walks (ser_datetime dt) (VDatetime dt) d"
proof (rule walks_leafI [OF assms(1)])
  let ?six = "serbuf_i32 (year dt) @ serbuf_i32 (month dt) @ serbuf_i32 (day dt) @
     serbuf_i32 (hour dt) @ serbuf_i32 (minute dt) @ serbuf_i32 (second dt)"
  let ?to = "if time_only dt then 1 else 0 :: byte" and ?p = "word_of_int (precision dt) :: byte"
  show "ser_datetime dt = SER_DATETIME # ?six @ [?to, ?p]"
    by (simp add: ser_datetime_def)
  have "uint (ucast ?p :: u64) = precision dt"
    using assms(2) by (simp add: uint_word_of_int unsigned_ucast_eq take_bit_int_eq_self)
  then have p: "\<not> (ucast ?p :: u64) < 1" "\<not> 6 < (ucast ?p :: u64)"
    using assms(2) by (simp_all add: word_less_def)
  show "\<exists>w'. v3_walk_leaf (ucast (SER_DATETIME :: byte)) (cur pre ((?six @ [?to, ?p]) @ s)) d w =
      (True, cur (pre @ ?six @ [?to, ?p]) s, w') \<and>
      walk_result (bad_tags (VDatetime dt)) (nested_array d (VDatetime dt)) w w' \<and> w_tag w' = w_tag w"
    for pre s w
    using in_fields_cur [of ?six 6 4 pre "[?to, ?p] @ s"] p
    by (simp add: v3_walk_leaf_def v3_walk_datetime_def walk_result_def)
qed simp_all

lemma walks_duration:
  assumes "\<not> V3_MAX_DEPTH < d"
  shows "walks (ser_duration du) (VDuration du) d"
proof (rule walks_leafI [OF assms(1)])
  let ?seven = "serbuf_i32 (d_years du) @ serbuf_i32 (d_months du) @ serbuf_i32 (d_weeks du) @
     serbuf_i32 (d_days du) @ serbuf_i32 (d_hours du) @ serbuf_i32 (d_minutes du) @
     serbuf_i32 (d_seconds du)"
  show "ser_duration du = SER_DURATION # ?seven"
    by (simp add: ser_duration_def)
  show "\<exists>w'. v3_walk_leaf (ucast (SER_DURATION :: byte)) (cur pre (?seven @ s)) d w =
      (True, cur (pre @ ?seven) s, w') \<and>
      walk_result (bad_tags (VDuration du)) (nested_array d (VDuration du)) w w' \<and> w_tag w' = w_tag w"
    for pre s w
    using in_fields_cur [of ?seven 7 4 pre s]
    by (simp add: v3_walk_leaf_def walk_result_def)
qed simp_all

lemma walks_money:
  assumes "\<not> V3_MAX_DEPTH < d" "walkable al (VMoney m)"
  shows "walks (ser_money al m) (VMoney m) d"
proof (rule walks_leafI [OF assms(1)])
  define a where "a = (case al (currency m) of Some a \<Rightarrow> a | None \<Rightarrow> [])"
  from assms(2) have a: "length a \<le> 7" by (auto simp: a_def split: option.splits)
  have len: "unat (ucast (word_of_nat (length a) :: byte) :: u64) = length a"
    using a(1) by (simp add: unsigned_of_nat unsigned_ucast_eq take_bit_nat_eq_self)
  then have small: "7 < (ucast (word_of_nat (length a) :: byte) :: u64) \<longleftrightarrow> False"
    using a(1) by (simp add: word_less_nat_alt)
  let ?rest = "put_le 8 (units m) @ exponent m # put_le 2 (currency m) @ of_nat (length a) # a"
  show "ser_money al m = SER_MONEY # ?rest"
    by (simp add: ser_money_def a_def Let_def serbuf_le_def)
  show "\<exists>w'. v3_walk_leaf (ucast (SER_MONEY :: byte)) (cur pre (?rest @ s)) d w =
      (True, cur (pre @ ?rest) s, w') \<and>
      walk_result (bad_tags (VMoney m)) (nested_array d (VMoney m)) w w' \<and> w_tag w' = w_tag w"
    for pre s w
    by (cases "a = []")
      (simp_all add: v3_walk_leaf_def v3_walk_money_def walk_result_def len small cur_counted Let_def
        del: cur_sel(2,3))
qed simp_all

lemma walks_text:
  assumes "\<not> V3_MAX_DEPTH < d" "length p < 2 ^ 64"
  shows "walks (SER_STRING # serbuf_blob p) (VString p) d"
    "walks (SER_FILE # serbuf_blob p) (VFile p) d"
    "walks (SER_DIR # serbuf_blob p) (VDir p) d"
proof -
  show "walks (SER_STRING # serbuf_blob p) (VString p) d"
    using assms(2) by (intro walks_leafI [OF assms(1) refl])
      (simp_all add: v3_walk_leaf_def split_def Let_def skip_blob walk_result_def)
  show "walks (SER_FILE # serbuf_blob p) (VFile p) d"
    using assms(2) by (intro walks_leafI [OF assms(1) refl])
      (simp_all add: v3_walk_leaf_def split_def Let_def skip_blob walk_result_def)
  show "walks (SER_DIR # serbuf_blob p) (VDir p) d"
    using assms(2) by (intro walks_leafI [OF assms(1) refl])
      (simp_all add: v3_walk_leaf_def split_def Let_def skip_blob walk_result_def)
qed

lemma walks_two:
  assumes "\<not> V3_MAX_DEPTH < d" "length p < 2 ^ 64"
  shows "length f < 2 ^ 64 \<Longrightarrow> walks (SER_REGEX # serbuf_blob p @ serbuf_blob f) (VRegex p f) d"
    "walks (ser_function p None) (VFunction p None ctx) d"
proof -
  have "serbuf_blob [] = [0]"
    by (simp add: serbuf_blob_def serbuf_uleb_def v3_uleb.simps)
  with skip_blob [of "[]"] have z: "v3_in_skip (snd (v3_in_uleb (cur pre (0 # s))))
      (fst (v3_in_uleb (cur pre (0 # s)))) = cur (pre @ [0]) s" for pre s
    by simp
  show "length f < 2 ^ 64 \<Longrightarrow> walks (SER_REGEX # serbuf_blob p @ serbuf_blob f) (VRegex p f) d"
    using assms(2) by (intro walks_leafI [OF assms(1) refl])
      (simp_all add: v3_walk_leaf_def split_def Let_def skip_blob walk_result_def)
  show "walks (ser_function p None) (VFunction p None ctx) d"
    using assms(2) unfolding ser_function_def append.simps option.case
    by (intro walks_leafI [OF assms(1) refl])
      (simp_all add: v3_walk_leaf_def split_def Let_def skip_blob z walk_result_def)
qed

lemma walks_plain:
  assumes "\<not> V3_MAX_DEPTH < d"
  shows "walks [SER_NULL] VNull d" "walks [SER_UNKNOWN] VUnknown d"
    "walks [SER_BOOL, 1] (VBool True) d" "walks [SER_BOOL, 0] (VBool False) d"
proof -
  show "walks [SER_NULL] VNull d"
    by (intro walks_leafI [OF assms(1) refl]) (simp_all add: v3_walk_leaf_def)
  show "walks [SER_UNKNOWN] VUnknown d"
    by (intro walks_leafI [OF assms(1) refl]) (simp_all add: v3_walk_leaf_def)
  show "walks [SER_BOOL, 1] (VBool True) d" "walks [SER_BOOL, 0] (VBool False) d"
    by (intro walks_leafI [OF assms(1) refl]; simp_all add: v3_walk_leaf_def)+
qed

section \<open>Every value\<close>

lemma serialize_walks_leaf:
  assumes "serialize_value d v c = Inr (bs, c')" "walkable (alpha_of c) v"
    and leaf: "\<And>vs. v \<noteq> VArray vs" "\<And>fs. v \<noteq> VRecord fs"
  shows "c' = c \<and> walks bs v d"
proof -
  from assms(1) have d: "\<not> V3_MAX_DEPTH < d"
    by (auto simp: serialize_value.simps [of d] SER_MAX_DEPTH_def V3_MAX_DEPTH_def)
  show ?thesis
    using assms d
    by (cases v) (auto simp: serialize_value.simps [of d] walks_plain walks_number walks_datetime
        walks_duration walks_money walks_text walks_two simp del: walkable.simps(4,5)
        split: if_splits option.splits)
qed

text \<open>A counted list: the loop's result is the whole walk's.\<close>

lemma walk_counted:
  assumes "\<not> V3_MAX_DEPTH < d" "n < 2 ^ 64" "n \<le> length s"
  shows "v3_walk (cur pre (SER_ARRAY # serbuf_uleb (of_nat n) @ s)) d w =
      v3_walk_items n (cur (pre @ SER_ARRAY # serbuf_uleb (of_nat n)) s) d
        (if d = 0 then w\<lparr>w_tag := SER_ARRAY\<rparr> else w\<lparr>w_nested_array := True\<rparr>)"
    and "v3_walk (cur pre (SER_RECORD # serbuf_uleb (of_nat n) @ s)) d w =
      v3_walk_fields n (cur (pre @ SER_RECORD # serbuf_uleb (of_nat n)) s) d
        (if d = 0 then w\<lparr>w_tag := SER_RECORD\<rparr> else w)"
proof -
  have n: "unat (word_of_nat n :: u64) = n"
    using assms(2) by (simp add: unsigned_of_nat take_bit_nat_eq_self)
  with assms show "v3_walk (cur pre (SER_ARRAY # serbuf_uleb (of_nat n) @ s)) d w =
      v3_walk_items n (cur (pre @ SER_ARRAY # serbuf_uleb (of_nat n)) s) d
        (if d = 0 then w\<lparr>w_tag := SER_ARRAY\<rparr> else w\<lparr>w_nested_array := True\<rparr>)"
    by (subst v3_walk.simps) (simp add: Let_def serbuf_uleb_def)
  from n assms show "v3_walk (cur pre (SER_RECORD # serbuf_uleb (of_nat n) @ s)) d w =
      v3_walk_fields n (cur (pre @ SER_RECORD # serbuf_uleb (of_nat n)) s) d
        (if d = 0 then w\<lparr>w_tag := SER_RECORD\<rparr> else w)"
    by (subst v3_walk.simps) (simp add: Let_def serbuf_uleb_def)
qed

lemma serialize_walks:
  "serialize_value d v c = Inr (bs, c') \<Longrightarrow> walkable (alpha_of c) v \<Longrightarrow> c' = c \<and> walks bs v d"
  "serialize_items d vs c = Inr (bs, c') \<Longrightarrow> list_all (walkable (alpha_of c)) vs \<Longrightarrow>
     c' = c \<and> (\<forall>pre s w. \<exists>w'. v3_walk_items (length vs) (cur pre (bs @ s)) d w = (True, cur (pre @ bs) s, w') \<and>
       walk_result (concat (map bad_tags vs)) (list_ex (nested_array (d + 1)) vs) w w' \<and> w_tag w' = w_tag w)"
  "serialize_fields d fs c = Inr (bs, c') \<Longrightarrow> list_all (walkable_field (alpha_of c)) fs \<Longrightarrow>
     c' = c \<and> (\<forall>pre s w. \<exists>w'. v3_walk_fields (length fs) (cur pre (bs @ s)) d w = (True, cur (pre @ bs) s, w') \<and>
       walk_result (concat (map bad_tags_field fs)) (list_ex (nested_array_field d) fs) w w' \<and> w_tag w' = w_tag w)"
proof (induction d v c and d vs c and d fs c arbitrary: bs c' and bs c' and bs c'
    rule: serialize_value_serialize_items_serialize_fields.induct)
  case (1 d v c)
  from 1(3) have sd: "\<not> SER_MAX_DEPTH < d" by (auto simp: serialize_value.simps [of d])
  then have d: "\<not> V3_MAX_DEPTH < d" by (simp add: SER_MAX_DEPTH_def V3_MAX_DEPTH_def)
  consider (arr) vs where "v = VArray vs" | (rec) fs where "v = VRecord fs"
    | (leaf) "\<And>vs. v \<noteq> VArray vs" "\<And>fs. v \<noteq> VRecord fs" by (cases v) auto
  then show ?case
  proof cases
    case arr
    with 1(3) sd obtain bs' where bs: "serialize_items d vs c = Inr (bs', c')"
        "bs = SER_ARRAY # serbuf_uleb (of_nat (length vs)) @ bs'"
      by (auto simp: serialize_value.simps [of d] split: sum.splits)
    have len: "length vs \<le> length (bs' @ s)" for s using serialize_length(2) [OF bs(1)] by simp
    from 1(4) arr have ok: "list_all (walkable (alpha_of c)) vs" "length vs < 2 ^ 64" by simp_all
    from 1(1) [OF sd arr bs(1) ok(1)] have c: "c' = c" and items:
      "\<exists>w'. v3_walk_items (length vs) (cur pre (bs' @ s)) d w = (True, cur (pre @ bs') s, w') \<and>
       walk_result (concat (map bad_tags vs)) (list_ex (nested_array (d + 1)) vs) w w' \<and> w_tag w' = w_tag w"
      for pre s w by blast+
    have "walks bs v d"
      unfolding walks_def
    proof (intro allI)
      fix pre s w
      from items [of "pre @ SER_ARRAY # serbuf_uleb (of_nat (length vs))" s
          "if d = 0 then w\<lparr>w_tag := SER_ARRAY\<rparr> else w\<lparr>w_nested_array := True\<rparr>"]
      show "\<exists>w'. v3_walk (cur pre (bs @ s)) d w = (True, cur (pre @ bs) s, w') \<and>
          walk_result (bad_tags v) (nested_array d v) w w' \<and>
          w_tag w' = (if d = 0 then value_tag v else w_tag w)"
        by (auto simp: bs(2) arr walk_counted [OF d ok(2) len] walk_result_def split: if_splits)
    qed
    with c show ?thesis by simp
  next
    case rec
    with 1(3) sd obtain bs' where bs: "serialize_fields d fs c = Inr (bs', c')"
        "bs = SER_RECORD # serbuf_uleb (of_nat (length fs)) @ bs'"
      by (auto simp: serialize_value.simps [of d] split: sum.splits)
    have len: "length fs \<le> length (bs' @ s)" for s using serialize_length(3) [OF bs(1)] by simp
    from 1(4) rec have ok: "list_all (walkable_field (alpha_of c)) fs" "length fs < 2 ^ 64" by simp_all
    from 1(2) [OF sd rec bs(1) ok(1)] have c: "c' = c" and fields:
      "\<exists>w'. v3_walk_fields (length fs) (cur pre (bs' @ s)) d w = (True, cur (pre @ bs') s, w') \<and>
       walk_result (concat (map bad_tags_field fs)) (list_ex (nested_array_field d) fs) w w' \<and> w_tag w' = w_tag w"
      for pre s w by blast+
    have "walks bs v d"
      unfolding walks_def
    proof (intro allI)
      fix pre s w
      from fields [of "pre @ SER_RECORD # serbuf_uleb (of_nat (length fs))" s
          "if d = 0 then w\<lparr>w_tag := SER_RECORD\<rparr> else w"]
      show "\<exists>w'. v3_walk (cur pre (bs @ s)) d w = (True, cur (pre @ bs) s, w') \<and>
          walk_result (bad_tags v) (nested_array d v) w w' \<and>
          w_tag w' = (if d = 0 then value_tag v else w_tag w)"
        by (auto simp: bs(2) rec walk_counted [OF d ok(2) len] walk_result_def split: if_splits)
    qed
    with c show ?thesis by simp
  next
    case leaf
    from serialize_walks_leaf [OF 1(3,4) leaf] show ?thesis .
  qed
next
  case (3 d v vs c)
  from 3(3) obtain b1 c1 b2 where *: "serialize_value (d + 1) v c = Inr (b1, c1)"
      "serialize_items d vs c1 = Inr (b2, c')" "bs = b1 @ b2"
    by (auto split: sum.splits)
  from 3(4) have ok: "walkable (alpha_of c) v" "list_all (walkable (alpha_of c)) vs" by simp_all
  from 3(1) [OF *(1) ok(1)] have c1: "c1 = c" and head: "walks b1 v (d + 1)" by simp_all
  from 3(2) [OF *(1) refl *(2)] ok(2) c1 have c: "c' = c" and tail:
      "\<exists>w'. v3_walk_items (length vs) (cur pre (b2 @ s)) d w = (True, cur (pre @ b2) s, w') \<and>
       walk_result (concat (map bad_tags vs)) (list_ex (nested_array (d + 1)) vs) w w' \<and> w_tag w' = w_tag w"
      for pre s w by blast+
  show ?case
  proof (intro conjI allI c)
    fix pre s w
    from head obtain w1 where w1: "v3_walk (cur pre (b1 @ b2 @ s)) (d + 1) w = (True, cur (pre @ b1) (b2 @ s), w1)"
      "walk_result (bad_tags v) (nested_array (d + 1) v) w w1" "w_tag w1 = w_tag w"
      unfolding walks_def by fastforce
    from tail [of "pre @ b1" s w1] obtain w2 where w2:
      "v3_walk_items (length vs) (cur (pre @ b1) (b2 @ s)) d w1 = (True, cur (pre @ b1 @ b2) s, w2)"
      "walk_result (concat (map bad_tags vs)) (list_ex (nested_array (d + 1)) vs) w1 w2" "w_tag w2 = w_tag w1"
      by auto
    from walk_result_trans [OF w1(2) w2(2)] w1 w2
    show "\<exists>w'. v3_walk_items (length (v # vs)) (cur pre (bs @ s)) d w = (True, cur (pre @ bs) s, w') \<and>
       walk_result (concat (map bad_tags (v # vs))) (list_ex (nested_array (d + 1)) (v # vs)) w w' \<and>
       w_tag w' = w_tag w"
      by (simp add: *(3))
  qed
next
  case (5 d name policy v fs c)
  from 5(3) obtain b1 c1 b2 where *: "serialize_value (d + 1) v c = Inr (b1, c1)"
      "serialize_fields d fs c1 = Inr (b2, c')" "bs = serbuf_blob name @ b1 @ b2"
      "\<not> (strict c \<and> policy = POLICY_LINK)"
    by (auto split: sum.splits if_splits)
  from 5(4) have ok: "walkable (alpha_of c) v" "list_all (walkable_field (alpha_of c)) fs" "length name < 2 ^ 64"
    by simp_all
  from 5(1) [OF *(4,1) ok(1)] have c1: "c1 = c" and head: "walks b1 v (d + 1)" by simp_all
  from 5(2) [OF *(4,1) refl *(2)] ok(2) c1 have c: "c' = c" and tail:
      "\<exists>w'. v3_walk_fields (length fs) (cur pre (b2 @ s)) d w = (True, cur (pre @ b2) s, w') \<and>
       walk_result (concat (map bad_tags_field fs)) (list_ex (nested_array_field d) fs) w w' \<and> w_tag w' = w_tag w"
      for pre s w by blast+
  show ?case
  proof (intro conjI allI c)
    fix pre s w
    let ?p = "pre @ serbuf_blob name"
    from head obtain w1 where w1: "v3_walk (cur ?p (b1 @ b2 @ s)) (d + 1) w = (True, cur (?p @ b1) (b2 @ s), w1)"
      "walk_result (bad_tags v) (nested_array (d + 1) v) w w1" "w_tag w1 = w_tag w"
      unfolding walks_def by fastforce
    from tail [of "?p @ b1" s w1] obtain w2 where w2:
      "v3_walk_fields (length fs) (cur (?p @ b1) (b2 @ s)) d w1 = (True, cur (?p @ b1 @ b2) s, w2)"
      "walk_result (concat (map bad_tags_field fs)) (list_ex (nested_array_field d) fs) w1 w2" "w_tag w2 = w_tag w1"
      by auto
    from walk_result_trans [OF w1(2) w2(2)] w1 w2
    show "\<exists>w'. v3_walk_fields (length (Field name policy v # fs)) (cur pre (bs @ s)) d w = (True, cur (pre @ bs) s, w') \<and>
       walk_result (concat (map bad_tags_field (Field name policy v # fs)))
         (list_ex (nested_array_field d) (Field name policy v # fs)) w w' \<and> w_tag w' = w_tag w"
      by (simp add: *(3) split_def Let_def skip_blob [OF ok(3)])
  qed
qed auto

section \<open>When the writer refuses\<close>

fun nesting :: "val \<Rightarrow> nat" and nesting_items :: "val list \<Rightarrow> nat" and nesting_fields :: "fld list \<Rightarrow> nat" where
  "nesting (VArray vs) = nesting_items vs"
| "nesting (VRecord fs) = nesting_fields fs"
| "nesting _ = 0"
| "nesting_items [] = 0"
| "nesting_items (v # vs) = max (Suc (nesting v)) (nesting_items vs)"
| "nesting_fields [] = 0"
| "nesting_fields (Field name policy v # fs) = max (Suc (nesting v)) (nesting_fields fs)"

lemma serialize_nesting:
  "serialize_value d v c = Inr x \<Longrightarrow> d + nesting v \<le> SER_MAX_DEPTH"
  "serialize_items d vs c = Inr x \<Longrightarrow> d \<le> SER_MAX_DEPTH \<Longrightarrow> d + nesting_items vs \<le> SER_MAX_DEPTH"
  "serialize_fields d fs c = Inr x \<Longrightarrow> d \<le> SER_MAX_DEPTH \<Longrightarrow> d + nesting_fields fs \<le> SER_MAX_DEPTH"
proof (induction d v c and d vs c and d fs c arbitrary: x and x and x
    rule: serialize_value_serialize_items_serialize_fields.induct)
  case (1 d v c)
  from 1(3) have d: "\<not> SER_MAX_DEPTH < d" by (auto simp: serialize_value.simps [of d])
  show ?case
  proof (cases v)
    case (VArray vs)
    then obtain y where "serialize_items d vs c = Inr y"
      using 1(3) d by (auto simp: serialize_value.simps [of d] split: sum.splits)
    with 1(1) [OF d VArray] d VArray show ?thesis by simp
  next
    case (VRecord fs)
    then obtain y where "serialize_fields d fs c = Inr y"
      using 1(3) d by (auto simp: serialize_value.simps [of d] split: sum.splits)
    with 1(2) [OF d VRecord] d VRecord show ?thesis by simp
  qed (use d in simp_all)
next
  case (3 d v vs c)
  from 3(3) obtain b1 c1 y where *: "serialize_value (d + 1) v c = Inr (b1, c1)"
      "serialize_items d vs c1 = Inr y" by (auto split: sum.splits)
  from 3(1) [OF *(1)] 3(2) [OF *(1) refl *(2) 3(4)] show ?case by simp
next
  case (5 d name policy v fs c)
  from 5(3) obtain b1 c1 y where *: "serialize_value (d + 1) v c = Inr (b1, c1)"
      "serialize_fields d fs c1 = Inr y" "\<not> (strict c \<and> policy = POLICY_LINK)"
    by (auto split: sum.splits if_splits)
  from 5(1) [OF *(3,1)] 5(2) [OF *(3,1) refl *(2) 5(4)] show ?case by simp
qed simp_all

lemma serialize_refuses:
  "serialize_value d v c = Inl err \<Longrightarrow> version e = 3 \<Longrightarrow> portable e c v \<Longrightarrow>
     err = SerTooDeep \<and> SER_MAX_DEPTH < d + nesting v"
  "serialize_items d vs c = Inl err \<Longrightarrow> version e = 3 \<Longrightarrow> list_all (portable e c) vs \<Longrightarrow>
     err = SerTooDeep \<and> SER_MAX_DEPTH < d + nesting_items vs"
  "serialize_fields d fs c = Inl err \<Longrightarrow> version e = 3 \<Longrightarrow> list_all (portable_field e c) fs \<Longrightarrow>
     err = SerTooDeep \<and> SER_MAX_DEPTH < d + nesting_fields fs"
proof (induction d v c and d vs c and d fs c arbitrary: err and err and err
    rule: serialize_value_serialize_items_serialize_fields.induct)
  case (1 d v c)
  show ?case
  proof (cases "SER_MAX_DEPTH < d")
    case True
    with 1(3) show ?thesis by (simp add: serialize_value.simps [of d])
  next
    case d: False
    show ?thesis
    proof (cases v)
      case (VArray vs)
      then have "serialize_items d vs c = Inl err"
        using 1(3) d by (auto simp: serialize_value.simps [of d] split: sum.splits)
      with 1(1) [OF d VArray _ 1(4)] 1(5) VArray show ?thesis by simp
    next
      case (VRecord fs)
      then have "serialize_fields d fs c = Inl err"
        using 1(3) d by (auto simp: serialize_value.simps [of d] split: sum.splits)
      with 1(2) [OF d VRecord _ 1(4)] 1(5) VRecord show ?thesis by simp
    qed (use 1(3,5) d in \<open>auto simp: serialize_value.simps [of d]\<close>)
  qed
next
  case (3 d v vs c)
  from 3(5) have ok: "portable e c v" "list_all (portable e c) vs" by simp_all
  show ?case
  proof (cases "serialize_value (d + 1) v c")
    case (Inl x)
    with 3(1) [OF Inl 3(4) ok(1)] 3(3) show ?thesis by (auto simp: max_def)
  next
    case (Inr y)
    obtain b1 c1 where y: "y = (b1, c1)" by force
    with serialize_round_trip(1) [OF Inr [unfolded y] 3(4) ok(1)] have c: "c1 = c" by simp
    from 3(3) Inr y have "serialize_items d vs c1 = Inl err" by (auto split: sum.splits)
    with 3(2) [OF Inr y [symmetric] _ 3(4)] ok c show ?thesis by (auto simp: max_def)
  qed
next
  case (5 d name policy v fs c)
  from 5(5) have ok: "portable e c v" "list_all (portable_field e c) fs"
    and p: "\<not> (strict c \<and> policy = POLICY_LINK)" by simp_all
  show ?case
  proof (cases "serialize_value (d + 1) v c")
    case (Inl x)
    with 5(1) [OF p Inl 5(4) ok(1)] 5(3) p show ?thesis by (auto simp: max_def)
  next
    case (Inr y)
    obtain b1 c1 where y: "y = (b1, c1)" by force
    with serialize_round_trip(1) [OF Inr [unfolded y] 5(4) ok(1)] have c: "c1 = c" by simp
    from 5(3) Inr y p have "serialize_fields d fs c1 = Inl err" by (auto split: sum.splits)
    with 5(2) [OF p Inr y [symmetric] _ 5(4)] ok c show ?thesis by (auto simp: max_def)
  qed
qed simp_all

section \<open>The properties\<close>

text \<open>C1. Serializing a value the reading program can name, outside any actor message, either
  gives bytes from which deserialize rebuilds exactly that value, and then it nests no deeper
  than 256, or is refused as too deep, and then it does.\<close>

theorem serialize_deserialize:
  assumes "portable (e\<lparr>version := 3\<rparr>) c v"
  shows "case serialize_to_buffer v c of
      Inl err \<Rightarrow> err = SerTooDeep \<and> SER_MAX_DEPTH < nesting v
    | Inr (bs, c') \<Rightarrow> nesting v \<le> SER_MAX_DEPTH \<and> c' = c \<and> deserialize_from_buffer e bs = Some (v, [])"
proof (cases "serialize_value 0 v c")
  case (Inl err)
  with serialize_refuses(1) [OF Inl _ assms] show ?thesis by (simp add: serialize_to_buffer_def)
next
  case (Inr y)
  obtain bs c' where y: "y = (bs, c')" by force
  from serialize_round_trip(1) [OF Inr [unfolded y] _ assms, of "SER_FRAME" "[]" "[]"]
  have "c' = c" "deserialize_value (e\<lparr>version := 3\<rparr>) \<lparr>inp = SER_FRAME @ bs, inpos = 4, inok = True\<rparr> 0 [] =
      (v, cur (SER_FRAME @ bs) [], [])"
    by (simp_all add: cur_def SER_FRAME_def eval_nat_numeral)
  with serialize_nesting(1) [OF Inr] show ?thesis
    by (simp add: serialize_to_buffer_def deserialize_from_buffer_def Inr y SER_FRAME_def)
qed

definition demo_ctx :: ser_ctx where
  "demo_ctx = \<lparr>strict = True, alpha_of = (\<lambda>c. if c = 840 then Some [0x55, 0x53, 0x44] else None),
    spawn = None, msg = None\<rparr>"

definition demo_env :: des_env where
  "demo_env = \<lparr>version = 3, find_alpha = (\<lambda>a. if a = [0x55, 0x53, 0x44] then Some 840 else None),
    resolves = (\<lambda>l n. True), regex_ok = (\<lambda>p f. True), spawn_recv = False, msg_recv = None\<rparr>"

definition demo_value :: val where
  "demo_value = VRecord [Field [0x61] POLICY_COPY (VArray [VNumber (Exact 7), VNull]),
    Field [0x62] POLICY_COPY (VMoney \<lparr>units = 5, currency = 840, exponent = 2\<rparr>)]"

theorem serialize_deserialize_witness:
  "case serialize_to_buffer demo_value demo_ctx of
      Inl err \<Rightarrow> err = SerTooDeep \<and> SER_MAX_DEPTH < nesting demo_value
    | Inr (bs, c') \<Rightarrow> nesting demo_value \<le> SER_MAX_DEPTH \<and> c' = demo_ctx \<and>
        deserialize_from_buffer demo_env bs = Some (demo_value, [])"
  by (rule serialize_deserialize)
    (simp add: demo_ctx_def demo_env_def demo_value_def)

text \<open>C6. What the writer writes of a value without actor handles and library functions the store's
  walker accepts to its last byte, and it reports the value's kind, the first kind in it that a
  column cannot hold, and whether an array is inside another value.\<close>

theorem walker_accepts_serialized:
  assumes "serialize_value 0 v c = Inr (bs, c')" "walkable (alpha_of c) v"
  shows "\<exists>w. v3_walk_whole bs = (True, w) \<and> w_tag w = value_tag v \<and>
    w_bad_tag w = first_bad (bad_tags v) 0 \<and> w_nested_array w = nested_array 0 v"
proof -
  from serialize_walks(1) [OF assms] obtain w where
    w: "v3_walk (cur [] (bs @ [])) 0 v3walk0 = (True, cur ([] @ bs) [], w)"
      "walk_result (bad_tags v) (nested_array 0 v) v3walk0 w" "w_tag w = value_tag v"
    unfolding walks_def by (metis (mono_tags, lifting))
  then show ?thesis
    by (simp add: v3_walk_whole_def cur_def walk_result_def v3walk0_def)
qed

theorem walker_accepts_serialized_witness:
  "serialize_value 0 (VArray [VNumber (Exact 7), VDuration \<lparr>d_years = 0, d_months = 1, d_weeks = 0, d_days = 0,
      d_hours = 0, d_minutes = 0, d_seconds = 0\<rparr>]) demo_ctx \<noteq> Inl SerTooDeep \<and>
   (\<exists>bs w. v3_walk_whole bs = (True, w) \<and> w_tag w = SER_ARRAY \<and> w_bad_tag w = SER_DURATION)"
proof -
  let ?v = "VArray [VNumber (Exact 7), VDuration \<lparr>d_years = 0, d_months = 1, d_weeks = 0, d_days = 0,
      d_hours = 0, d_minutes = 0, d_seconds = 0\<rparr>]"
  obtain bs where bs: "serialize_value 0 ?v demo_ctx = Inr (bs, demo_ctx)"
    by (simp add: serialize_value.simps SER_MAX_DEPTH_def)
  from walker_accepts_serialized [OF bs] bs show ?thesis by auto
qed

text \<open>C9. A function that lives in a library defeats the walker, for every function name (under 2^64 bytes)
  and every library name of 1 to 127 bytes: what the writer writes of it the walker reads up to the
  library's name and no further, because it takes the flag byte for the length of a second counted
  string; so it never accepts the bytes as a whole.\<close>

theorem walker_misreads_library_function:
  assumes "length name < 2 ^ 64" "0 < length l" "length l < 128"
  shows "\<exists>pre w. serialize_value 0 (VFunction name (Some l) None) c = Inr (pre @ l, c) \<and>
    v3_walk (cur [] (pre @ l)) 0 v3walk0 = (True, cur pre l, w) \<and> \<not> fst (v3_walk_whole (pre @ l))"
proof -
  define k where "k = (of_nat (length l) :: u64)"
  have "unat k = length l" using assms(3) by (simp add: k_def unsigned_of_nat take_bit_nat_eq_self)
  then have "\<not> 0x80 \<le> k" using assms(3) by (simp add: word_le_nat_alt)
  then have "drop_bit 7 k = 0" using drop_bit_7_nonzero [of k] by blast
  then obtain b where b: "serbuf_uleb k = [b]"
    by (simp add: serbuf_uleb_def v3_uleb.simps [of k])
  have one: "v3_in_uleb (cur pre (1 # s)) = (1, cur (pre @ [1]) s)" for pre s
    using in_uleb_put [of pre 1 s] by (simp add: v3_uleb.simps)
  have ser: "ser_function name (Some l) = SER_FUNCTION # serbuf_blob name @ 1 # b # l"
    using b by (simp add: ser_function_def serbuf_blob_def [of l] k_def)
  have skip: "v3_in_skip (cur pre (b # s)) 1 = cur (pre @ [b]) s" for pre s
    using in_skip_cur [of 1 "[b]" pre s] by simp
  let ?pre = "SER_FUNCTION # serbuf_blob name @ [1, b]"
  have walk: "\<exists>w. v3_walk (cur [] (ser_function name (Some l))) 0 v3walk0 = (True, cur ?pre l, w)"
    unfolding ser using assms(1)
    by (subst walk_at_tag)
      (simp_all add: V3_MAX_DEPTH_def v3_walk_leaf_def split_def Let_def skip_blob one skip)
  then have "\<not> fst (v3_walk_whole (ser_function name (Some l)))"
    using assms(2) by (auto simp: v3_walk_whole_def cur_def ser)
  moreover have "ser_function name (Some l) = ?pre @ l" by (simp add: ser)
  ultimately show ?thesis using walk
    by (intro exI [of _ ?pre]) (simp add: serialize_value.simps SER_MAX_DEPTH_def)
qed

theorem walker_misreads_library_function_witness:
  "\<not> fst (v3_walk_whole (ser_function [0x66] (Some [0x6D])))"
proof -
  obtain pre where "serialize_value 0 (VFunction [0x66] (Some [0x6D]) None) demo_ctx = Inr (pre @ [0x6D], demo_ctx)"
    "\<not> fst (v3_walk_whole (pre @ [0x6D]))"
    using walker_misreads_library_function [of "[0x66]" "[0x6D]" demo_ctx] by auto
  then show ?thesis by (simp add: serialize_value.simps SER_MAX_DEPTH_def)
qed

end
