(* ===== verification/Key_Codec.thy ===== *)
theory Key_Codec
  imports V3_Codec Numbers
begin

text \<open>
  \<^verbatim>\<open>src/gsql/key.c\<close>: a serialized value turned into index key bytes, the length of a component
  read back from the bytes, and the value read back. A \<^verbatim>\<open>GsqlKey\<close> is the bytes written so far:
  its writers append, so each is modelled by the bytes it appends. The cursor \<^verbatim>\<open>In\<close> is the one
  of \<open>V3_Codec\<close>, its two readers the same loops.
\<close>

section \<open>Component tags\<close>

abbreviation (input) KEY_BOOL :: byte where "KEY_BOOL \<equiv> 0x10"
abbreviation (input) KEY_NEG_INF :: byte where "KEY_NEG_INF \<equiv> 0x21"
abbreviation (input) KEY_NEGATIVE :: byte where "KEY_NEGATIVE \<equiv> 0x22"
abbreviation (input) KEY_ZERO :: byte where "KEY_ZERO \<equiv> 0x23"
abbreviation (input) KEY_POSITIVE :: byte where "KEY_POSITIVE \<equiv> 0x24"
abbreviation (input) KEY_POS_INF :: byte where "KEY_POS_INF \<equiv> 0x25"
abbreviation (input) KEY_NAN :: byte where "KEY_NAN \<equiv> 0x26"
abbreviation (input) KEY_STRING :: byte where "KEY_STRING \<equiv> 0x30"
abbreviation (input) KEY_MONEY_TYPED :: byte where "KEY_MONEY_TYPED \<equiv> 0x40"
abbreviation (input) KEY_MONEY :: byte where "KEY_MONEY \<equiv> 0x41"
abbreviation (input) KEY_DATETIME :: byte where "KEY_DATETIME \<equiv> 0x52"
abbreviation (input) KEY_ABSENT :: byte where "KEY_ABSENT \<equiv> 0xF0"

definition EXPONENT_BIAS :: int where
  "EXPONENT_BIAS = 1100"

definition GSQL_KEY_DESC :: u32 where
  "GSQL_KEY_DESC = 1"

definition GSQL_KEY_MONEY_TYPED :: u32 where
  "GSQL_KEY_MONEY_TYPED = 2"

datatype key_status = KEY_OK | KEY_CORRUPT | KEY_NOT_INDEXABLE

section \<open>Writing\<close>

definition key_put_signed :: "u64 \<Rightarrow> nat \<Rightarrow> bytes" where
  "key_put_signed v width = put_be width (v + push_bit (8 * width - 1) 1)"

definition key_in_le :: "v3in \<Rightarrow> nat \<Rightarrow> u64 \<times> v3in" where
  "key_in_le i width = v3_in_le i width"

definition key_in_i32 :: "v3in \<Rightarrow> i32 \<times> v3in" where
  "key_in_i32 i = (let (v, i) = key_in_le i 4 in (ucast v, i))"

definition key_in_uleb :: "v3in \<Rightarrow> u64 \<times> v3in" where
  "key_in_uleb i = v3_in_uleb i"

text \<open>\<^verbatim>\<open>while (!(m >> top)) top--\<close>, from 63 down; \<open>m\<close> is never zero.\<close>

fun magnitude_top :: "nat \<Rightarrow> u64 \<Rightarrow> nat" where
  "magnitude_top 0 m = 0"
| "magnitude_top (Suc t) m = (if drop_bit (Suc t) m \<noteq> 0 then Suc t else magnitude_top t m)"

definition put_magnitude :: "bool \<Rightarrow> u64 \<Rightarrow> int \<Rightarrow> bytes" where
  "put_magnitude negative m e =
     (let top = magnitude_top 63 m;
          ex = int top + e;
          fraction = push_bit 1 (push_bit (63 - top) m);
          biased = (word_of_int (ex + EXPONENT_BIAS) :: u64);
          biased = (if negative then NOT biased AND 0xFFFF else biased);
          fraction = (if negative then NOT fraction else fraction)
      in [if negative then KEY_NEGATIVE else KEY_POSITIVE] @ put_be 2 biased @ put_be 8 fraction)"

definition key_number :: "v3in \<Rightarrow> bytes option \<times> v3in" where
  "key_number i =
     (let (exact, i) = key_in_le i 1;
          (bits, i) = key_in_le i 8
      in if \<not> inok i \<or> 1 < exact then (None, i)
         else if exact \<noteq> 0 then
           let v = bits
           in if v = 0 then (Some [KEY_ZERO], i)
              else if sint v < 0 then (Some (put_magnitude True (- (v + 1) + 1) 0), i)
              else (Some (put_magnitude False v 0), i)
         else
           let negative = dbl_negative bits;
               field = dbl_field bits;
               frac = dbl_frac bits
           in if field = 0x7FF then
                (Some [if frac \<noteq> 0 then KEY_NAN else if negative then KEY_NEG_INF else KEY_POS_INF], i)
              else if field = 0 \<and> frac = 0 then (Some [KEY_ZERO], i)
              else if field = 0 then (Some (put_magnitude negative frac (-1074)), i)
              else (Some (put_magnitude negative (frac OR push_bit 52 1) (int field - 1075)), i))"

text \<open>The escaping loop: \<open>run\<close> is where the bytes not yet copied start.\<close>

function key_string_loop :: "bytes \<Rightarrow> nat \<Rightarrow> nat \<Rightarrow> bytes \<Rightarrow> bytes" where
  "key_string_loop s i run key =
     (if length s \<le> i then key @ peek run (length s - run) s
      else if s ! i = 0 then
        key_string_loop s (i + 1) (i + 1) (key @ peek run (i - run) s @ [0x00] @ [0xFF])
      else key_string_loop s (i + 1) run key)"
  by pat_completeness auto

termination
  by (relation "measure (\<lambda>(s, i, run, key). length s - i)") auto

declare key_string_loop.simps [simp del]

definition key_string :: "v3in \<Rightarrow> bytes option \<times> v3in" where
  "key_string i =
     (let (n, i) = key_in_uleb i
      in if \<not> inok i \<or> length (inp i) - inpos i < unat n then (None, i)
         else let s = peek (inpos i) (unat n) (inp i)
              in (Some (key_string_loop s 0 0 [KEY_STRING] @ [0x00] @ [0x00]),
                  i\<lparr>inpos := inpos i + unat n\<rparr>))"

definition key_money :: "v3in \<Rightarrow> u32 \<Rightarrow> bytes option \<times> v3in" where
  "key_money i flags =
     (let (u, i) = key_in_le i 8;
          (_, i) = key_in_le i 1;
          (numeric, i) = key_in_le i 2;
          (alen, i) = key_in_le i 1
      in if \<not> inok i \<or> 7 < alen \<or> length (inp i) < inpos i + unat alen then (None, i)
         else let alpha = peek (inpos i) (unat alen) (inp i);
                  i = i\<lparr>inpos := inpos i + unat alen\<rparr>;
                  group = (if flags AND GSQL_KEY_MONEY_TYPED \<noteq> 0 then [KEY_MONEY_TYPED]
                           else [KEY_MONEY] @
                             (if alen \<noteq> 0 then alpha @ [0x00] else [0x01] @ put_be 2 numeric))
              in (Some (group @ key_put_signed u 8), i))"

text \<open>\<open>k\<close> date-time fields read one after the other.\<close>

fun key_in_fields :: "nat \<Rightarrow> v3in \<Rightarrow> i32 list \<times> v3in" where
  "key_in_fields 0 i = ([], i)"
| "key_in_fields (Suc k) i =
     (let (f, i) = key_in_i32 i; (fs, i) = key_in_fields k i in (f # fs, i))"

definition key_datetime :: "v3in \<Rightarrow> bytes option \<times> v3in" where
  "key_datetime i =
     (let (f, i) = key_in_fields 6 i;
          (t_only, i) = key_in_le i 1;
          (prec, i) = key_in_le i 1
      in if \<not> inok i \<or> 1 < t_only \<or> prec < 1 \<or> 6 < prec then (None, i)
         else (Some ([KEY_DATETIME] @ [ucast t_only] @
                 concat (map (\<lambda>x. key_put_signed (scast x) 4) (drop (if t_only \<noteq> 0 then 3 else 0) f)) @
                 [ucast prec]), i))"

text \<open>The switch of \<^verbatim>\<open>gsql_key_append\<close>: what is appended, or why nothing is.\<close>

definition key_component :: "u64 \<Rightarrow> v3in \<Rightarrow> u32 \<Rightarrow> (key_status + bytes) \<times> v3in" where
  "key_component tag i flags =
     (let corrupt_or = (\<lambda>(r, i). (case r of None \<Rightarrow> Inl KEY_CORRUPT | Some bs \<Rightarrow> Inr bs, i))
      in if tag = SER_NULL \<or> tag = SER_UNKNOWN then (Inr [KEY_ABSENT], i)
         else if tag = SER_BOOL then
           let (b, i) = key_in_le i 1
           in if \<not> inok i \<or> 1 < b then (Inl KEY_CORRUPT, i) else (Inr ([KEY_BOOL] @ [ucast b]), i)
         else if tag = SER_NUMBER then corrupt_or (key_number i)
         else if tag = SER_STRING then corrupt_or (key_string i)
         else if tag = SER_MONEY then corrupt_or (key_money i flags)
         else if tag = SER_DATETIME then corrupt_or (key_datetime i)
         else if tag \<in> {SER_DURATION, SER_ARRAY, SER_RECORD, SER_FILE, SER_DIR, SER_ACTOR,
                        SER_FUNCTION, SER_REGEX} then (Inl KEY_NOT_INDEXABLE, i)
         else (Inl KEY_CORRUPT, i))"

text \<open>\<open>(status, key afterwards, bytes of the value used)\<close>; on failure the key is as it was and
  \<open>used\<close> is not set.\<close>

definition gsql_key_append :: "bytes \<Rightarrow> bytes \<Rightarrow> u32 \<Rightarrow> key_status \<times> bytes \<times> nat option" where
  "gsql_key_append key val flags =
     (let (tag, i) = key_in_le \<lparr>inp = val, inpos = 0, inok = True\<rparr> 1
      in if \<not> inok i then (KEY_CORRUPT, key, None)
         else let (r, i) = key_component tag i flags
              in case r of
                   Inl st \<Rightarrow> (st, key, None)
                 | Inr bs \<Rightarrow>
                     (KEY_OK, key @ (if flags AND GSQL_KEY_DESC \<noteq> 0 then map NOT bs else bs),
                      Some (inpos i)))"

section \<open>Skipping\<close>

text \<open>The two scanning loops of \<^verbatim>\<open>gsql_key_skip\<close>, from index \<open>i\<close>.\<close>

function skip_to_nul :: "bytes \<Rightarrow> byte \<Rightarrow> nat \<Rightarrow> nat" where
  "skip_to_nul bs x i = (if i < length bs \<and> bs ! i XOR x \<noteq> 0 then skip_to_nul bs x (i + 1) else i)"
  by pat_completeness auto

termination
  by (relation "measure (\<lambda>(bs, x, i). length bs - i)") auto

function skip_string :: "bytes \<Rightarrow> byte \<Rightarrow> nat \<Rightarrow> nat option" where
  "skip_string bs x i =
     (if length bs \<le> i + 1 then None
      else if bs ! i XOR x = 0 then
        let nxt = bs ! (i + 1) XOR x
        in if nxt = 0 then Some (i + 2)
           else if nxt \<noteq> 0xFF then None
           else skip_string bs x (i + 2)
      else skip_string bs x (i + 1))"
  by pat_completeness auto

termination
  by (relation "measure (\<lambda>(bs, x, i). length bs - i)") auto

declare skip_to_nul.simps [simp del] skip_string.simps [simp del]

definition key_inversion :: "u32 \<Rightarrow> byte" where
  "key_inversion flags = (if flags AND GSQL_KEY_DESC \<noteq> 0 then 0xFF else 0x00)"

definition key_skip_length :: "byte \<Rightarrow> bytes \<Rightarrow> byte \<Rightarrow> nat option" where
  "key_skip_length tag bs x =
     (if tag = KEY_ABSENT \<or> tag = KEY_NEG_INF \<or> tag = KEY_ZERO \<or> tag = KEY_POS_INF \<or> tag = KEY_NAN
      then Some 1
      else if tag = KEY_BOOL then Some 2
      else if tag = KEY_NEGATIVE \<or> tag = KEY_POSITIVE then Some 11
      else if tag = KEY_MONEY_TYPED then Some 9
      else if tag = KEY_MONEY then
        (if length bs < 2 then None
         else if bs ! 1 XOR x = 0x01 then Some (1 + 1 + 2 + 8)
         else let i = skip_to_nul bs x 1
              in if length bs \<le> i then None else Some (i + 1 + 8))
      else if tag = KEY_DATETIME then
        (if length bs < 2 then None
         else let t_only = bs ! 1 XOR x
              in if 1 < t_only then None else Some (2 + (if t_only \<noteq> 0 then 3 else 6) * 4 + 1))
      else if tag = KEY_STRING then skip_string bs x 1
      else None)"

definition gsql_key_skip :: "bytes \<Rightarrow> u32 \<Rightarrow> nat option" where
  "gsql_key_skip bs flags =
     (let x = key_inversion flags
      in if length bs < 1 then None
         else case key_skip_length (bs ! 0 XOR x) bs x of
                None \<Rightarrow> None
              | Some n \<Rightarrow> if length bs < n then None else Some n)"

section \<open>Reading back\<close>

definition key_rd_be :: "bytes \<Rightarrow> nat \<Rightarrow> byte \<Rightarrow> u64" where
  "key_rd_be bs width x = foldl (\<lambda>v b. push_bit 8 v OR (ucast (b XOR x) AND 0xFF)) 0 (take width bs)"

text \<open>The two floating-point steps of the number case. \<^verbatim>\<open>1.0 + (double)k / 2^53\<close> rounds
  \<open>2^53 + k\<close> to an even multiple of the last place; \<^verbatim>\<open>ldexp\<close> scales, rounding when the result is
  subnormal (both to nearest, ties to even), and overflows to infinity.\<close>

definition round_half_even :: "nat \<Rightarrow> nat \<Rightarrow> nat" where
  "round_half_even n s =
     (let q = n div 2 ^ s; r = n mod 2 ^ s
      in if 2 ^ s < 2 * r \<or> (2 ^ s = 2 * r \<and> odd q) then q + 1 else q)"

definition double_one_plus :: "nat \<Rightarrow> nat" where
  "double_one_plus k = round_half_even (2 ^ 53 + k) 1"

text \<open>The bits of the double nearest to \<open>r * 2 ^ (e - 52)\<close>, for \<open>2 ^ 52 \<le> r \<le> 2 ^ 53\<close>.\<close>

definition double_ldexp :: "nat \<Rightarrow> int \<Rightarrow> u64" where
  "double_ldexp r e =
     (let (r, e) = (if r = 2 ^ 53 then (2 ^ 52, e + 1) else (r, e))
      in if 1023 < e then push_bit 52 0x7FF
         else if -1022 \<le> e then push_bit 52 (word_of_int (e + 1023)) OR of_nat (r - 2 ^ 52)
         else of_nat (round_half_even r (nat (-1022 - e))))"

definition out_double :: "u64 \<Rightarrow> bytes" where
  "out_double bits = [SER_NUMBER] @ [0] @ put_le 8 bits"

definition key_value_magnitude :: "bool \<Rightarrow> u64 \<Rightarrow> u64 \<Rightarrow> bytes" where
  "key_value_magnitude negative biased fraction =
     (let biased = (if negative then NOT biased AND 0xFFFF else biased);
          fraction = (if negative then NOT fraction else fraction);
          ex = uint biased - EXPONENT_BIAS;
          m = (if ex = 0 then 1 else push_bit (nat ex) 1 OR drop_bit (64 - nat ex) fraction)
      in if 0 \<le> ex \<and> ex \<le> 63 \<and> (if ex = 0 then fraction = 0 else push_bit (nat ex) fraction = 0) \<and>
            (if \<not> negative then m \<le> 0x7FFFFFFFFFFFFFFF else m \<le> 0x8000000000000000)
         then [SER_NUMBER] @ [1] @ put_le 8 (if negative then 0 - m else m)
         else let d = double_ldexp (double_one_plus (unat (drop_bit 11 fraction))) ex
              in out_double (if negative then d XOR push_bit 63 1 else d))"

text \<open>The unescaping loop, from index \<open>i\<close> to \<open>n - 2\<close>.\<close>

function key_value_text :: "bytes \<Rightarrow> byte \<Rightarrow> nat \<Rightarrow> nat \<Rightarrow> bytes" where
  "key_value_text bs x n i =
     (if n < i + 2 then []
      else let b = bs ! i XOR x
           in if b = 0 then
                if bs ! (i + 1) XOR x = 0 then [] else 0 # key_value_text bs x n (i + 2)
              else b # key_value_text bs x n (i + 1))"
  by pat_completeness auto

termination
  by (relation "measure (\<lambda>(bs, x, n, i). n - i)") auto

declare key_value_text.simps [simp del]

definition key_value_datetime :: "bytes \<Rightarrow> byte \<Rightarrow> bytes" where
  "key_value_datetime bs x =
     (let t_only = bs ! 1 XOR x;
          k = (if t_only \<noteq> 0 then 3 else 6);
          read = map (\<lambda>j. ucast (key_rd_be (drop (2 + 4 * j) bs) 4 x - push_bit 31 1) :: u32) [0..<k];
          f = replicate (6 - k) 0 @ read
      in [SER_DATETIME] @ concat (map (put_le 4) f) @ [t_only] @ [bs ! (2 + 4 * k) XOR x])"

text \<open>\<open>(status, out afterwards, bytes of the component)\<close>.\<close>

definition gsql_key_value :: "bytes \<Rightarrow> u32 \<Rightarrow> bytes \<Rightarrow> key_status \<times> bytes \<times> nat option" where
  "gsql_key_value bs flags out =
     (case gsql_key_skip bs flags of
        None \<Rightarrow> (KEY_CORRUPT, out, None)
      | Some n \<Rightarrow>
          let x = key_inversion flags; tag = bs ! 0 XOR x;
              number = (\<lambda>exact bits. [SER_NUMBER] @ [exact] @ put_le 8 (bits :: u64));
              body =
                (if tag = KEY_ABSENT then Some [SER_UNKNOWN]
                 else if tag = KEY_BOOL then Some ([SER_BOOL] @ [if bs ! 1 XOR x \<noteq> 0 then 1 else 0])
                 else if tag = KEY_ZERO then Some (number 1 0)
                 else if tag = KEY_NAN then Some (number 0 0x7FF8000000000000)
                 else if tag = KEY_POS_INF then Some (number 0 0x7FF0000000000000)
                 else if tag = KEY_NEG_INF then Some (number 0 0xFFF0000000000000)
                 else if tag = KEY_NEGATIVE \<or> tag = KEY_POSITIVE then
                   Some (key_value_magnitude (tag = KEY_NEGATIVE) (key_rd_be (drop 1 bs) 2 x)
                           (key_rd_be (drop 3 bs) 8 x))
                 else if tag = KEY_STRING then
                   let text = key_value_text bs x n 1
                   in Some ([SER_STRING] @ v3_uleb (of_nat (length text)) @ text)
                 else if tag = KEY_DATETIME then Some (key_value_datetime bs x)
                 else None)
          in (case body of
                None \<Rightarrow> (KEY_NOT_INDEXABLE, out, None)
              | Some bs \<Rightarrow> (KEY_OK, out @ bs, Some n)))"

end
