(* ===== verification/Key_Order.thy ===== *)
theory Key_Order
  imports Key_Codec Serialize_Walk
begin

text \<open>
  The contract of \<^verbatim>\<open>include/gsql_key.h\<close>: byte order of keys is gBASIC's own order. The locale
  \<open>order_codec\<close> states it for one kind of value; every kind of \<^verbatim>\<open>src/gsql/key.c\<close> is an
  interpretation. From the locale follow the behaviour of keys that go on after the component, of
  descending components, and that a component cannot be confused with another.
\<close>

section \<open>The contract\<close>

locale order_codec =
  fixes enc :: "'a \<Rightarrow> bytes" and ord :: "'a \<Rightarrow> 'a \<Rightarrow> int" and ok :: "'a \<Rightarrow> bool"
  assumes ord_swap: "ord b a = - ord a b"
    and enc_less: "ok a \<Longrightarrow> ok b \<Longrightarrow> ord a b < 0 \<Longrightarrow> byte_lt (enc a) (enc b)"
    and enc_equal: "ok a \<Longrightarrow> ok b \<Longrightarrow> ord a b = 0 \<Longrightarrow> enc a = enc b"
begin

lemma enc_less_iff: "ok a \<Longrightarrow> ok b \<Longrightarrow> byte_lt (enc a) (enc b) \<longleftrightarrow> ord a b < 0"
  using enc_less [of a b] enc_less [of b a] enc_equal [of a b] ord_swap [of a b]
  by (cases "ord a b" "0 :: int" rule: linorder_cases) (auto dest: byte_lt_asym)

lemma enc_eq_iff: "ok a \<Longrightarrow> ok b \<Longrightarrow> enc a = enc b \<longleftrightarrow> ord a b = 0"
  using enc_less [of a b] enc_less [of b a] enc_equal [of a b] ord_swap [of a b]
  by (cases "ord a b" "0 :: int" rule: linorder_cases) auto

lemma enc_order:
  assumes "ok a" "ok b"
  shows "bytes_cmp (enc a @ r) (enc b @ s) =
    (if ord a b < 0 then -1 else if 0 < ord a b then 1 else bytes_cmp r s)"
proof (cases "ord a b" "0 :: int" rule: linorder_cases)
  case less
  with enc_less [OF assms] show ?thesis by (simp add: byte_lt_append bytes_cmp_byte_lt)
next
  case equal
  have "bytes_cmp (p @ r) (p @ s) = bytes_cmp r s" for p
    by (induction p) (simp_all add: bytes_cmp_Cons)
  with equal enc_equal [OF assms] show ?thesis by simp
next
  case greater
  then have "byte_lt (enc b) (enc a)" using enc_less [OF assms(2,1)] ord_swap [of a b] by simp
  then have "bytes_cmp (enc b @ s) (enc a @ r) = -1" by (simp add: byte_lt_append bytes_cmp_byte_lt)
  with bytes_cmp_swap [of "enc b @ s" "enc a @ r"] greater show ?thesis by simp
qed

lemma enc_prefix_free: "ok a \<Longrightarrow> ok b \<Longrightarrow> enc a @ r = enc b @ s \<Longrightarrow> ord a b = 0 \<and> r = s"
  using enc_order [of a b r s] bytes_cmp_eq_0 [of "enc a @ r" "enc b @ s"] bytes_cmp_eq_0 [of r s]
  by (auto split: if_splits)

text \<open>Inverting every byte gives the reverse order the same contract.\<close>

lemma desc_codec: "order_codec (\<lambda>a. map NOT (enc a)) (\<lambda>a b. ord b a) ok"
proof
  show "ord a b = - ord b a" for a b by (rule ord_swap)
  show "byte_lt (map NOT (enc a)) (map NOT (enc b))" if "ok a" "ok b" "ord b a < 0" for a b
    using that by (simp add: enc_less)
  show "map NOT (enc a) = map NOT (enc b)" if "ok a" "ok b" "ord b a = 0" for a b
    using that enc_equal [of b a] by simp
qed

end

lemmas order_codec_laws = order_codec.enc_order order_codec.enc_eq_iff order_codec.enc_prefix_free

section \<open>Powers of two\<close>

lemma rat_2pow_powi: "rat_2pow e = 2 powi e"
  by (simp add: rat_2pow_def power_int_def power_one_over inverse_eq_divide)

lemma rat_2pow_pos [simp]: "0 < rat_2pow e"
  by (simp add: rat_2pow_powi)

lemma rat_2pow_add: "rat_2pow (a + b) = rat_2pow a * rat_2pow b"
  by (simp add: rat_2pow_powi power_int_add)

lemma rat_2pow_nat [simp]: "rat_2pow (int n) = 2 ^ n"
  by (simp add: rat_2pow_def)

lemma rat_2pow_less: "a < b \<Longrightarrow> 2 * rat_2pow a \<le> rat_2pow b"
proof -
  assume "a < b"
  then have "rat_2pow (1 + a) \<le> rat_2pow b"
    by (simp add: rat_2pow_powi power_int_increasing)
  moreover have "rat_2pow (1 + a) = 2 * rat_2pow a"
    by (simp only: rat_2pow_add) (simp add: rat_2pow_def)
  ultimately show ?thesis by simp
qed

text \<open>A normalised magnitude: exponent first, then the fraction.\<close>

definition norm_val :: "int \<Rightarrow> nat \<Rightarrow> rat" where
  "norm_val E F = rat_2pow E * (1 + of_nat F / 2 ^ 64)"

lemma norm_val_less:
  assumes "F1 < 2 ^ 64" "F2 < 2 ^ 64"
  shows "norm_val E1 F1 < norm_val E2 F2 \<longleftrightarrow> E1 < E2 \<or> E1 = E2 \<and> F1 < F2"
proof -
  have lt: "norm_val E F < norm_val E' F'" if "E < E'" "F < 2 ^ 64" for E F E' F'
  proof -
    have "of_nat F < (2 ^ 64 :: rat)" using that(2) by (metis of_nat_less_iff of_nat_numeral of_nat_power)
    then have "norm_val E F < rat_2pow E * 2"
      by (simp add: norm_val_def)
    also have "\<dots> \<le> rat_2pow E'" using rat_2pow_less [OF that(1)] by simp
    also have "\<dots> \<le> norm_val E' F'" by (simp add: norm_val_def)
    finally show ?thesis .
  qed
  show ?thesis
  proof (cases E1 E2 rule: linorder_cases)
    case less
    with lt [OF less assms(1)] show ?thesis by auto
  next
    case equal
    then show ?thesis by (simp add: norm_val_def divide_less_cancel)
  next
    case greater
    with lt [OF greater assms(2)] show ?thesis by (auto dest: less_asym)
  qed
qed

section \<open>Magnitudes\<close>

lemma magnitude_top_bounds:
  assumes "m \<noteq> 0" "unat m < 2 ^ Suc n"
  shows "magnitude_top n m \<le> n \<and> 2 ^ magnitude_top n m \<le> unat m \<and> unat m < 2 ^ Suc (magnitude_top n m)"
  using assms
proof (induction n)
  case 0
  then have "unat m \<noteq> 0" by (simp add: unsigned_eq_0_iff)
  with 0 show ?case by simp
next
  case (Suc n)
  have "drop_bit (Suc n) m \<noteq> 0 \<longleftrightarrow> unat m div 2 ^ Suc n \<noteq> 0"
    by (metis unat_drop_bit_div unsigned_eq_0_iff)
  then have d: "drop_bit (Suc n) m \<noteq> 0 \<longleftrightarrow> 2 ^ Suc n \<le> unat m"
    by (simp add: div_eq_0_iff not_less)
  show ?case
  proof (cases "2 ^ Suc n \<le> unat m")
    case True
    with d Suc.prems show ?thesis by simp
  next
    case False
    with d have "magnitude_top (Suc n) m = magnitude_top n m" by simp
    with Suc.IH Suc.prems False show ?thesis by simp
  qed
qed

definition mag_exp :: "u64 \<Rightarrow> int \<Rightarrow> int" where
  "mag_exp m e = int (magnitude_top 63 m) + e"

definition mag_frac :: "u64 \<Rightarrow> u64" where
  "mag_frac m = push_bit 1 (push_bit (63 - magnitude_top 63 m) m)"

lemma unat_push_bit: "unat (push_bit n (m::u64)) = unat m * 2 ^ n mod 2 ^ 64"
proof -
  have "unat (push_bit n m) = take_bit 64 (push_bit n (unat m))"
    by (subst unsigned_push_bit_eq) simp
  then show ?thesis by (simp only: push_bit_eq_mult [of n "unat m"] take_bit_eq_mod)
qed

lemma mag_frac_unat:
  assumes "m \<noteq> 0"
  shows "unat (mag_frac m) = (unat m - 2 ^ magnitude_top 63 m) * 2 ^ (64 - magnitude_top 63 m)"
proof -
  define t where "t = magnitude_top 63 m"
  have "unat m < 2 ^ Suc 63" using unat_less_2p [of m] by simp
  from magnitude_top_bounds [OF assms this] have t: "t \<le> 63" "2 ^ t \<le> unat m" "unat m < 2 ^ Suc t"
    by (simp_all add: t_def)
  define r where "r = unat m - 2 ^ t"
  have m: "unat m = 2 ^ t + r" "r < 2 ^ t" using t by (simp_all add: r_def)
  have s: "1 + (63 - t) = 64 - t" using t(1) by simp
  have "mag_frac m = push_bit (1 + (63 - t)) m"
    by (simp only: mag_frac_def t_def push_bit_push_bit)
  then have "unat (mag_frac m) = unat m * 2 ^ (64 - t) mod 2 ^ 64"
    using s by (simp only: unat_push_bit)
  also have "unat m * 2 ^ (64 - t) = 2 ^ 64 + r * 2 ^ (64 - t)"
    using t(1) by (simp add: m(1) add_mult_distrib flip: power_add)
  also have "\<dots> mod 2 ^ 64 = r * 2 ^ (64 - t)"
  proof -
    have "r * 2 ^ (64 - t) < 2 ^ t * 2 ^ (64 - t)" using m(2) by simp
    also have "\<dots> = (2::nat) ^ 64" using t(1) by (simp flip: power_add)
    finally show ?thesis by (simp add: mod_less)
  qed
  finally show ?thesis by (simp add: r_def t_def)
qed

lemma mag_value:
  assumes "m \<noteq> 0"
  shows "of_nat (unat m) * rat_2pow e = norm_val (mag_exp m e) (unat (mag_frac m))"
proof -
  define t where "t = magnitude_top 63 m"
  have "unat m < 2 ^ Suc 63" using unat_less_2p [of m] by simp
  from magnitude_top_bounds [OF assms this] have t: "t \<le> 63" "2 ^ t \<le> unat m" by (simp_all add: t_def)
  have pw: "(2::rat) ^ 64 = 2 ^ t * 2 ^ (64 - t)" using t(1) by (simp flip: power_add)
  have "of_nat (unat (mag_frac m)) / 2 ^ 64 = (of_nat (unat m - 2 ^ t) / 2 ^ t :: rat)"
    unfolding mag_frac_unat [OF assms] t_def [symmetric] pw by simp
  then have "(2::rat) ^ t * (1 + of_nat (unat (mag_frac m)) / 2 ^ 64) = of_nat (unat m)"
    using t(2) by (simp add: of_nat_diff field_simps)
  then show ?thesis
    by (simp add: norm_val_def mag_exp_def rat_2pow_add t_def)
qed

lemma unat_not64: "unat (NOT x :: u64) = 2 ^ 64 - 1 - unat x"
proof -
  have "NOT x = - 1 - x" by (simp add: not_eq_complement)
  moreover have "x \<le> - 1" by (rule word_n1_ge)
  moreover have "unat (- 1 :: u64) = 2 ^ 64 - 1"
    by (simp add: unsigned_minus_1_eq_mask mask_eq_exp_minus_1)
  ultimately show ?thesis by (simp add: unat_sub)
qed

definition mag_in_range :: "u64 \<Rightarrow> int \<Rightarrow> bool" where
  "mag_in_range m e \<longleftrightarrow> m \<noteq> 0 \<and> - 1100 \<le> mag_exp m e \<and> mag_exp m e < 64436"

text \<open>The eleven bytes, read as a number after the tag.\<close>

definition mag_code :: "u64 \<Rightarrow> int \<Rightarrow> nat" where
  "mag_code m e = nat (mag_exp m e + 1100) * 2 ^ 64 + unat (mag_frac m)"

lemma be_nat_pair:
  "be_nat (put_be 2 (b::u64) @ put_be 8 (f::u64)) = (unat b mod 65536) * 2 ^ 64 + unat f"
  using unat_less_2p [of f] by (simp add: be_nat_append be_nat_put_be)

lemma mag_code_less:
  assumes "mag_in_range m e"
  shows "mag_code m e < 2 ^ 80"
proof -
  have "unat (mag_frac m) + 2 ^ 64 * nat (mag_exp m e + 1100) < 2 ^ 64 * 65536"
    using assms unat_less_2p [of "mag_frac m"] by (intro digit_less) (auto simp: mag_in_range_def)
  then show ?thesis by (simp add: mag_code_def mult.commute)
qed

lemma put_magnitude_code:
  assumes "mag_in_range m e"
  obtains bs where "length bs = 10"
    "put_magnitude neg m e = (if neg then KEY_NEGATIVE else KEY_POSITIVE) # bs"
    "be_nat bs = (if neg then 2 ^ 80 - 1 - mag_code m e else mag_code m e)"
proof -
  define k where "k = nat (mag_exp m e + 1100)"
  define b where "b = (word_of_int (mag_exp m e + 1100) :: u64)"
  define f where "f = mag_frac m"
  have k: "k < 65536" using assms unfolding k_def mag_in_range_def by linarith
  have b: "unat b = k"
  proof -
    have "b = word_of_nat k" using assms by (simp add: b_def k_def mag_in_range_def)
    with k show ?thesis by (simp add: unsigned_of_nat take_bit_nat_eq_self)
  qed
  have nb: "unat (NOT b AND 0xFFFF) = 65535 - k"
  proof -
    have "NOT b AND 0xFFFF = take_bit 16 (NOT b)"
      by (simp add: take_bit_eq_mask mask_eq_exp_minus_1)
    then have "unat (NOT b AND 0xFFFF) = unat (NOT b) mod 2 ^ 16"
      by (simp only: unsigned_take_bit_eq) (simp add: take_bit_eq_mod)
    also have "\<dots> = (2 ^ 64 - 1 - k) mod 2 ^ 16" by (simp only: unat_not64 b)
    also have "\<dots> = 65535 - k"
    proof -
      have "(65535 - k + 65536 * q) mod 65536 = (65535 - k) mod 65536" for q :: nat
        by (rule mod_mult_self2)
      from this [of 281474976710655] show ?thesis using k by simp
    qed
    finally show ?thesis .
  qed
  have f: "unat f < 2 ^ 64" using unat_less_2p [of f] by simp
  let ?pos = "put_be 2 b @ put_be 8 f" and ?neg = "put_be 2 (NOT b AND 0xFFFF) @ put_be 8 (NOT f)"
  have pm: "put_magnitude neg m e =
      (if neg then KEY_NEGATIVE else KEY_POSITIVE) # (if neg then ?neg else ?pos)"
    by (simp add: put_magnitude_def Let_def b_def f_def mag_frac_def mag_exp_def EXPONENT_BIAS_def)
  have code: "mag_code m e = k * 2 ^ 64 + unat f" by (simp add: mag_code_def k_def f_def)
  have 1: "be_nat ?pos = mag_code m e"
    using k by (simp only: be_nat_pair b code) simp
  have 2: "be_nat ?neg = 2 ^ 80 - 1 - mag_code m e"
  proof -
    have "be_nat ?neg = (65535 - k) * 2 ^ 64 + (2 ^ 64 - 1 - unat f)"
      by (simp only: be_nat_pair nb unat_not64) simp
    also have "\<dots> = 2 ^ 80 - 1 - mag_code m e"
      using k f unfolding code by simp
    finally show ?thesis .
  qed
  show ?thesis
    by (rule that [OF _ pm]) (use 1 2 in \<open>simp_all del: power_numeral\<close>)
qed

lemma mag_code_order:
  assumes "mag_in_range m1 e1" "mag_in_range m2 e2"
  shows "mag_code m1 e1 < mag_code m2 e2 \<longleftrightarrow>
    of_nat (unat m1) * rat_2pow e1 < of_nat (unat m2) * rat_2pow e2"
proof -
  have f: "unat (mag_frac m) < 2 ^ 64" for m using unat_less_2p [of "mag_frac m"] by simp
  have "mag_code m1 e1 < mag_code m2 e2 \<longleftrightarrow>
      mag_exp m1 e1 < mag_exp m2 e2 \<or> mag_exp m1 e1 = mag_exp m2 e2 \<and> unat (mag_frac m1) < unat (mag_frac m2)"
    unfolding mag_code_def digit_lt_iff [OF f f] using assms by (auto simp: mag_in_range_def)
  moreover have "m1 \<noteq> 0" "m2 \<noteq> 0" using assms by (simp_all add: mag_in_range_def)
  ultimately show ?thesis
    unfolding mag_value [OF \<open>m1 \<noteq> 0\<close>] mag_value [OF \<open>m2 \<noteq> 0\<close>] norm_val_less [OF f f] by simp
qed

section \<open>Numbers\<close>

text \<open>What \<^verbatim>\<open>key_number\<close> writes of a number.\<close>

fun number_key :: "number \<Rightarrow> bytes" where
  "number_key (Exact v) =
     (if v = 0 then [KEY_ZERO]
      else if sint v < 0 then put_magnitude True (- (v + 1) + 1) 0
      else put_magnitude False v 0)"
| "number_key (Inexact bits) =
     (if dbl_field bits = 0x7FF then
        [if dbl_frac bits \<noteq> 0 then KEY_NAN else if dbl_negative bits then KEY_NEG_INF else KEY_POS_INF]
      else if dbl_field bits = 0 \<and> dbl_frac bits = 0 then [KEY_ZERO]
      else if dbl_field bits = 0 then put_magnitude (dbl_negative bits) (dbl_frac bits) (-1074)
      else put_magnitude (dbl_negative bits) (dbl_frac bits OR push_bit 52 1) (int (dbl_field bits) - 1075))"

lemma mag_in_rangeI: "m \<noteq> 0 \<Longrightarrow> - 1100 \<le> e \<Longrightarrow> e < 64372 \<Longrightarrow> mag_in_range m e"
proof -
  assume a: "m \<noteq> 0" "- 1100 \<le> e" "e < 64372"
  have "unat m < 2 ^ Suc 63" using unat_less_2p [of m] by simp
  from magnitude_top_bounds [OF a(1) this] have "magnitude_top 63 m \<le> 63" by simp
  with a show ?thesis by (simp add: mag_in_range_def mag_exp_def)
qed

lemma dbl_frac_less: "unat (dbl_frac bits) < 2 ^ 52"
proof -
  have "dbl_frac bits = take_bit 52 bits"
    by (simp add: dbl_frac_def take_bit_eq_mask mask_eq_exp_minus_1)
  then show ?thesis
    using take_bit_nat_less_exp [of 52 "unat bits"] by (simp only: unsigned_take_bit_eq)
qed

lemma dbl_field_less: "dbl_field bits < 2048"
proof -
  have "drop_bit 52 bits AND 0x7FF = take_bit 11 (drop_bit 52 bits)"
    by (simp add: take_bit_eq_mask mask_eq_exp_minus_1)
  then have "dbl_field bits < 2 ^ 11"
    using take_bit_nat_less_exp [of 11 "unat (drop_bit 52 bits)"]
    by (simp only: dbl_field_def unsigned_take_bit_eq)
  then show ?thesis by simp
qed

lemma unat_frac_or: "unat (dbl_frac bits OR push_bit 52 1) = unat (dbl_frac bits) + 2 ^ 52"
proof -
  have f: "dbl_frac bits = take_bit 52 bits"
    by (simp add: dbl_frac_def take_bit_eq_mask mask_eq_exp_minus_1)
  have "dbl_frac bits OR push_bit 52 1 = dbl_frac bits + push_bit 52 1"
    unfolding f
    by (rule disjunctive_add_eq_or [symmetric], rule bit_word_eqI,
        unfold bit_and_iff bit_push_bit_iff bit_take_bit_iff) auto
  moreover have "unat (push_bit 52 1 :: u64) = 2 ^ 52"
    by simp
  moreover have "unat (dbl_frac bits) + 2 ^ 52 < 2 ^ 64" using dbl_frac_less [of bits] by simp
  then have "unat (dbl_frac bits) + unat (push_bit 52 1 :: u64) < 2 ^ LENGTH(64)" by simp
  then have "unat (dbl_frac bits + push_bit 52 1) = unat (dbl_frac bits) + unat (push_bit 52 1 :: u64)"
    by (rule unat_add_lem [THEN iffD1])
  ultimately show ?thesis by simp
qed

lemma unat_negative:
  assumes "sint (v::i64) < 0"
  shows "int (unat (- (v + 1) + 1)) = - sint v"
proof -
  have "- (v + 1) + 1 = word_of_int (- sint v)"
    by simp
  then have "uint (- (v + 1) + 1) = (- sint v) mod 2 ^ 64"
    by (simp only: uint_word_of_int) simp
  moreover have "0 \<le> - sint v" "- sint v < 2 ^ 64" using assms sint64_range [of v] by simp_all
  ultimately show ?thesis by simp
qed

lemma unat_nonneg:
  assumes "\<not> sint (v::i64) < 0"
  shows "int (unat v) = sint v"
proof -
  have "uint (word_of_int (sint v) :: u64) = sint v mod 2 ^ 64"
    by (simp only: uint_word_of_int) simp
  then have "uint v = sint v mod 2 ^ 64" by simp
  moreover have "0 \<le> sint v" "sint v < 2 ^ 64" using assms sint64_range [of v] by simp_all
  ultimately show ?thesis by simp
qed

definition signed_rat :: "bool \<Rightarrow> rat \<Rightarrow> rat" where
  "signed_rat neg x = (if neg then - x else x)"

lemma number_key_cases:
  obtains (nan) "num_val n = DNaN" "number_key n = [KEY_NAN]"
  | (inf) neg where "num_val n = DInf neg" "number_key n = [if neg then KEY_NEG_INF else KEY_POS_INF]"
  | (zero) "num_val n = DFin 0" "number_key n = [KEY_ZERO]"
  | (mag) neg m e where "mag_in_range m e" "number_key n = put_magnitude neg m e"
      "num_val n = DFin (signed_rat neg (of_nat (unat m) * rat_2pow e))"
proof (cases n)
  case (Exact v)
  consider "v = 0" | "v \<noteq> 0" "sint v < 0" | "v \<noteq> 0" "\<not> sint v < 0" by blast
  then show ?thesis
  proof cases
    case 1
    with Exact zero show ?thesis by simp
  next
    case 2
    let ?m = "- (v + 1) + 1"
    have "?m \<noteq> 0" using 2(1) by simp
    moreover have "of_nat (unat ?m) = (of_int (- sint v) :: rat)"
      using unat_negative [OF 2(2)] by (metis of_int_of_nat_eq)
    ultimately show ?thesis
      using 2 Exact by (intro mag [of ?m 0 True]) (simp_all add: mag_in_rangeI signed_rat_def rat_2pow_def)
  next
    case 3
    have "of_nat (unat v) = (of_int (sint v) :: rat)"
      using unat_nonneg [OF 3(2)] by (metis of_int_of_nat_eq)
    then have "num_val n = DFin (signed_rat False (of_nat (unat v) * rat_2pow 0))"
      by (simp only: Exact num_val.simps signed_rat_def if_False) (simp add: rat_2pow_def)
    moreover have "number_key n = put_magnitude False v 0" using 3 Exact by simp
    ultimately show ?thesis using 3(1) by (intro mag [of v 0 False]) (simp_all add: mag_in_rangeI)
  qed
next
  case (Inexact bits)
  consider "dbl_field bits = 0x7FF" | "dbl_field bits = 0" "dbl_frac bits = 0"
    | "dbl_field bits = 0" "dbl_frac bits \<noteq> 0" | "dbl_field bits \<noteq> 0x7FF" "dbl_field bits \<noteq> 0" by blast
  then show ?thesis
  proof cases
    case 1
    with Inexact show ?thesis
      by (cases "dbl_frac bits = 0") (auto simp: decode_double_def intro: nan inf)
  next
    case 2
    with Inexact show ?thesis by (intro zero) (simp_all add: decode_double_def dbl_magnitude_def)
  next
    case 3
    with Inexact show ?thesis
      by (intro mag [of "dbl_frac bits" "-1074" "dbl_negative bits"])
        (simp_all add: decode_double_def dbl_magnitude_def mag_in_rangeI signed_rat_def)
  next
    case 4
    let ?m = "dbl_frac bits OR push_bit 52 1"
    have "?m \<noteq> 0" using unat_frac_or [of bits] by (metis add_is_0 unsigned_0 power_not_zero zero_neq_numeral)
    moreover have "of_nat (unat (dbl_frac bits) + 2 ^ 52) = (of_nat (unat ?m) :: rat)"
      by (simp only: unat_frac_or)
    ultimately show ?thesis
      using 4 Inexact dbl_field_less [of bits]
      by (intro mag [of ?m "int (dbl_field bits) - 1075" "dbl_negative bits"])
        (simp_all add: decode_double_def dbl_magnitude_def mag_in_rangeI signed_rat_def del: push_bit_of_1)
  qed
qed

lemma mag_positive:
  assumes "mag_in_range m e"
  shows "0 < (of_nat (unat m) * rat_2pow e :: rat)"
proof (rule mult_pos_pos [OF _ rat_2pow_pos])
  have "unat m \<noteq> 0" using assms by (simp add: mag_in_range_def unsigned_eq_0_iff)
  then have "0 < unat m" by (rule neq0_conv [THEN iffD1])
  then show "0 < (of_nat (unat m) :: rat)" by (rule of_nat_0_less_iff [THEN iffD2])
qed

lemma signed_rat_sign:
  assumes "mag_in_range m e"
  shows "signed_rat neg (of_nat (unat m) * rat_2pow e) \<noteq> 0"
    "signed_rat neg (of_nat (unat m) * rat_2pow e) < 0 \<longleftrightarrow> neg"
    "0 < signed_rat neg (of_nat (unat m) * rat_2pow e) \<longleftrightarrow> \<not> neg"
  using mag_positive [OF assms] by (auto simp: signed_rat_def)

lemma put_magnitude_less:
  assumes "mag_in_range m1 e1" "mag_in_range m2 e2"
    and "signed_rat n1 (of_nat (unat m1) * rat_2pow e1) < signed_rat n2 (of_nat (unat m2) * rat_2pow e2)"
  shows "byte_lt (put_magnitude n1 m1 e1) (put_magnitude n2 m2 e2)"
proof -
  obtain b1 where b1: "length b1 = 10" "put_magnitude n1 m1 e1 = (if n1 then KEY_NEGATIVE else KEY_POSITIVE) # b1"
    "be_nat b1 = (if n1 then 2 ^ 80 - 1 - mag_code m1 e1 else mag_code m1 e1)"
    by (rule put_magnitude_code [OF assms(1)])
  obtain b2 where b2: "length b2 = 10" "put_magnitude n2 m2 e2 = (if n2 then KEY_NEGATIVE else KEY_POSITIVE) # b2"
    "be_nat b2 = (if n2 then 2 ^ 80 - 1 - mag_code m2 e2 else mag_code m2 e2)"
    by (rule put_magnitude_code [OF assms(2)])
  have pos: "0 \<le> of_nat (unat m) * rat_2pow e" for m :: u64 and e
    by (rule mult_nonneg_nonneg [OF of_nat_0_le_iff less_imp_le [OF rat_2pow_pos]])
  have lt: "byte_lt b1 b2" if "n1 = n2"
  proof -
    have "be_nat b1 < be_nat b2"
      using assms(3) that mag_code_less [OF assms(1)] mag_code_less [OF assms(2)]
        mag_code_order [OF assms(1,2)] mag_code_order [OF assms(2,1)]
      by (cases n1) (auto simp: b1(3) b2(3) signed_rat_def)
    then show ?thesis by (simp add: byte_lt_be_nat b1(1) b2(1))
  qed
  show ?thesis
  proof (cases "n1 = n2")
    case True
    with lt show ?thesis unfolding b1(2) b2(2) by simp
  next
    case False
    have "n1"
    proof (rule ccontr)
      assume "\<not> n1"
      with False assms(3) have "of_nat (unat m1) * rat_2pow e1 < - (of_nat (unat m2) * rat_2pow e2)"
        by (simp add: signed_rat_def)
      with pos [of m1 e1] pos [of m2 e2] show False by linarith
    qed
    with False show ?thesis unfolding b1(2) b2(2) by simp
  qed
qed

lemma put_magnitude_equal:
  assumes "mag_in_range m1 e1" "mag_in_range m2 e2"
    and "signed_rat n1 (of_nat (unat m1) * rat_2pow e1) = signed_rat n2 (of_nat (unat m2) * rat_2pow e2)"
  shows "put_magnitude n1 m1 e1 = put_magnitude n2 m2 e2"
proof -
  obtain b1 where b1: "length b1 = 10" "put_magnitude n1 m1 e1 = (if n1 then KEY_NEGATIVE else KEY_POSITIVE) # b1"
    "be_nat b1 = (if n1 then 2 ^ 80 - 1 - mag_code m1 e1 else mag_code m1 e1)"
    by (rule put_magnitude_code [OF assms(1)])
  obtain b2 where b2: "length b2 = 10" "put_magnitude n2 m2 e2 = (if n2 then KEY_NEGATIVE else KEY_POSITIVE) # b2"
    "be_nat b2 = (if n2 then 2 ^ 80 - 1 - mag_code m2 e2 else mag_code m2 e2)"
    by (rule put_magnitude_code [OF assms(2)])
  have n: "n1 = n2"
    using assms(3) signed_rat_sign(2) [OF assms(1)] signed_rat_sign(2) [OF assms(2)] by metis
  have "mag_code m1 e1 = mag_code m2 e2"
    using assms(3) n mag_code_order [OF assms(1,2)] mag_code_order [OF assms(2,1)]
    by (auto simp: signed_rat_def split: if_splits)
  then have "be_nat b1 = be_nat b2" by (simp add: b1(3) b2(3) n)
  then have "b1 = b2" using be_nat_inject [of b1 b2] b1(1) b2(1) by simp
  with n show ?thesis unfolding b1(2) b2(2) by simp
qed

lemma put_magnitude_head: "\<exists>bs. put_magnitude neg m e = (if neg then KEY_NEGATIVE else KEY_POSITIVE) # bs"
  by (simp add: put_magnitude_def Let_def)

lemmas signed_rat_sign' = signed_rat_sign [simplified]

lemma number_key_less:
  assumes "number_order a b < 0"
  shows "byte_lt (number_key a) (number_key b)"
proof -
  have k: "key_cmp (dbl_key (num_val a)) (dbl_key (num_val b)) < 0"
    using assms by (simp add: number_order_key)
  show ?thesis
  proof (cases a rule: number_key_cases)
    case nan
    with k show ?thesis
      by (cases b rule: number_key_cases) (auto simp: key_cmp_def split: if_splits)
  next
    case (inf neg)
    with k show ?thesis
      by (cases b rule: number_key_cases)
        (auto simp: key_cmp_def put_magnitude_def Let_def split: if_splits)
  next
    case zero
    with k show ?thesis
      by (cases b rule: number_key_cases)
        (auto simp: key_cmp_def put_magnitude_def Let_def signed_rat_sign' split: if_splits)
  next
    case (mag neg m e)
    show ?thesis
    proof (cases b rule: number_key_cases)
      case nan
      with mag show ?thesis by (auto simp: put_magnitude_def Let_def)
    next
      case (inf neg')
      with k mag show ?thesis by (auto simp: key_cmp_def put_magnitude_def Let_def split: if_splits)
    next
      case zero
      with k mag show ?thesis
        using signed_rat_sign [OF mag(1), of neg]
        by (auto simp: key_cmp_def put_magnitude_def Let_def split: if_splits)
    next
      case b: (mag neg' m' e')
      with k mag show ?thesis
        by (simp add: put_magnitude_less key_cmp_def split: if_splits)
    qed
  qed
qed

lemma number_key_equal:
  assumes "number_order a b = 0"
  shows "number_key a = number_key b"
proof -
  have k: "dbl_key (num_val a) = dbl_key (num_val b)"
    using assms by (simp add: number_order_key key_cmp_def split: if_splits)
  show ?thesis
    using k
    by (cases a rule: number_key_cases; cases b rule: number_key_cases)
      (auto simp: signed_rat_sign dest: signed_rat_sign(1) split: if_splits intro: put_magnitude_equal)
qed

interpretation number_codec: order_codec number_key number_order "\<lambda>n. True"
proof
  show "number_order b a = - number_order a b" for a b
    unfolding number_order_key by (rule key_cmp_swap)
qed (simp_all add: number_key_less number_key_equal)

section \<open>Strings\<close>

definition esc :: "bytes \<Rightarrow> bytes" where
  "esc s = concat (map (\<lambda>b. if b = 0 then [0x00, 0xFF] else [b]) s)"

definition string_key :: "bytes \<Rightarrow> bytes" where
  "string_key s = KEY_STRING # esc s @ [0x00, 0x00]"

lemma esc_simps [simp]: "esc [] = []" "esc (b # s) = (if b = 0 then [0x00, 0xFF] else [b]) @ esc s"
  "esc (s @ t) = esc s @ esc t"
  by (simp_all add: esc_def)

lemma esc_plain: "0 \<notin> set s \<Longrightarrow> esc s = s"
  by (induction s) auto

text \<open>The run loop of the code is the escape of every byte.\<close>

lemma key_string_loop_esc:
  assumes "run \<le> i" "i \<le> length s" "0 \<notin> set (peek run (i - run) s)"
  shows "key_string_loop s i run key = key @ esc (drop run s)"
  using assms
proof (induction s i run key rule: key_string_loop.induct)
  case (1 s i run key)
  have split: "drop run s = peek run (i - run) s @ drop i s" if "run \<le> i"
    using that by (metis add_diff_inverse_nat append_take_drop_id drop_drop linorder_not_less peek_def add.commute)
  show ?case
  proof (cases "length s \<le> i")
    case True
    with 1(3-5) have "peek run (length s - run) s = drop run s" "0 \<notin> set (drop run s)"
      by (simp_all add: peek_def)
    with True show ?thesis by (simp add: key_string_loop.simps [of s i] esc_plain)
  next
    case False
    then have i: "i < length s" by simp
    then have d: "drop i s = s ! i # drop (Suc i) s" by (rule Cons_nth_drop_Suc [symmetric])
    show ?thesis
    proof (cases "s ! i = 0")
      case True
      have "peek (Suc i) (Suc i - Suc i) s = []" by (simp add: peek_def)
      then have "key_string_loop s (i + 1) (i + 1) (key @ peek run (i - run) s @ [0x00] @ [0xFF]) =
          (key @ peek run (i - run) s @ [0x00] @ [0xFF]) @ esc (drop (i + 1) s)"
        using 1(1) [OF False True] i by simp
      then show ?thesis
        using True False 1(3,5) split [OF 1(3)] d
        by (simp add: key_string_loop.simps [of s i] esc_plain)
    next
      case nz: False
      have "peek run (Suc i - run) s = peek run (i - run) s @ [s ! i]"
        using 1(3) i by (simp add: peek_def Suc_diff_le take_Suc_conv_app_nth)
      with nz 1(2) [OF False nz] 1(3,5) i show ?thesis
        by (simp add: key_string_loop.simps [of s i])
    qed
  qed
qed

lemma esc_less:
  "bytes_cmp s t < 0 \<Longrightarrow> byte_lt (esc s @ [0x00, 0x00]) (esc t @ [0x00, 0x00])"
proof (induction s arbitrary: t)
  case Nil
  then obtain y t' where "t = y # t'" by (cases t) auto
  moreover have "y \<noteq> 0 \<Longrightarrow> 0 < y" by (simp add: word_neq_0_conv)
  ultimately show ?case by simp
next
  case (Cons x s)
  then obtain y t' where t: "t = y # t'" by (cases t) auto
  with Cons have "x < y \<or> x = y \<and> bytes_cmp s t' < 0"
    by (auto simp: bytes_cmp_Cons split: if_splits)
  moreover have "x < y \<Longrightarrow> y \<noteq> 0" by auto
  ultimately show ?case using Cons.IH [of t'] by (auto simp: t word_neq_0_conv)
qed

interpretation string_codec: order_codec string_key string_value_compare "\<lambda>s. True"
proof
  show "string_value_compare b a = - string_value_compare a b" for a b
    unfolding string_compare_bytes_cmp by (rule bytes_cmp_swap)
  show "byte_lt (string_key a) (string_key b)" if "string_value_compare a b < 0" for a b
    using esc_less [of a b] that by (simp add: string_key_def string_compare_bytes_cmp)
  show "string_key a = string_key b" if "string_value_compare a b = 0" for a b
    using that by (simp add: string_compare_bytes_cmp bytes_cmp_eq_0)
qed

section \<open>Signed fields\<close>

lemma key_put_signed_nat:
  assumes "0 < w" "w \<le> 8" "- (2 ^ (8 * w - 1)) \<le> v" "v < 2 ^ (8 * w - 1)"
  shows "int (be_nat (key_put_signed (word_of_int v) w)) = v + 2 ^ (8 * w - 1)"
proof -
  let ?b = "v + 2 ^ (8 * w - 1)"
  have b2: "(2::int) ^ (8 * w) = 2 * 2 ^ (8 * w - 1)"
    using assms(1) by (simp flip: power_Suc)
  have b: "0 \<le> ?b" "?b < 2 ^ (8 * w)" using assms(3,4) unfolding b2 by simp_all
  have "(2::int) ^ (8 * w) \<le> 2 ^ 64" using assms(2) by (intro power_increasing) auto
  then have b64: "?b < 2 ^ 64" using b(2) by linarith
  have "word_of_int v + push_bit (8 * w - 1) 1 = (word_of_int ?b :: u64)"
    by (simp add: push_bit_eq_mult)
  moreover have "uint (word_of_int k :: u64) = k" if "0 \<le> k" "k < 2 ^ 64" for k
    using that by (simp add: uint_word_of_int)
  note this [OF b(1) b64]
  ultimately have u: "int (unat (word_of_int v + push_bit (8 * w - 1) 1 :: u64)) = ?b"
    by simp
  have "int (be_nat (key_put_signed (word_of_int v) w)) =
      int (unat (word_of_int v + push_bit (8 * w - 1) 1 :: u64)) mod 2 ^ (8 * w)"
    by (simp only: key_put_signed_def be_nat_put_be zmod_int of_nat_power) (simp add: power_mult)
  also have "\<dots> = ?b" unfolding u using b by (simp only: mod_pos_pos_trivial)
  finally show ?thesis .
qed

lemma key_put_signed_length [simp]: "length (key_put_signed v w) = w"
  by (simp add: key_put_signed_def)

lemma key_put_signed_less:
  assumes "0 < w" "w \<le> 8" "- (2 ^ (8 * w - 1)) \<le> v" "v < 2 ^ (8 * w - 1)"
    "- (2 ^ (8 * w - 1)) \<le> u" "u < 2 ^ (8 * w - 1)" "v < u"
  shows "byte_lt (key_put_signed (word_of_int v) w) (key_put_signed (word_of_int u) w)"
  using key_put_signed_nat [OF assms(1-4)] key_put_signed_nat [OF assms(1,2,5,6)] assms(7)
  by (simp add: byte_lt_be_nat)

section \<open>Date-times\<close>

abbreviation field_bytes :: "int \<Rightarrow> bytes" where
  "field_bytes v \<equiv> key_put_signed (word_of_int v) 4"

definition datetime_fields :: "datetime \<Rightarrow> int list" where
  "datetime_fields d =
     drop (if time_only d then 3 else 0) [year d, month d, day d, hour d, minute d, second d]"

definition datetime_key_bytes :: "datetime \<Rightarrow> bytes" where
  "datetime_key_bytes d =
     [KEY_DATETIME, if time_only d then 1 else 0] @ concat (map field_bytes (datetime_fields d)) @
     [word_of_int (precision d)]"

definition datetime_ok :: "datetime \<Rightarrow> bool" where
  "datetime_ok d \<longleftrightarrow>
     list_all fits_i32 [year d, month d, day d, hour d, minute d, second d] \<and>
     1 \<le> precision d \<and> precision d \<le> 6"

lemma field_bytes_less: "fits_i32 v \<Longrightarrow> fits_i32 u \<Longrightarrow> v < u \<Longrightarrow> byte_lt (field_bytes v) (field_bytes u)"
  by (rule key_put_signed_less) (simp_all add: fits_i32_def)

lemma precision_less:
  "1 \<le> p \<Longrightarrow> p \<le> 6 \<Longrightarrow> 1 \<le> q \<Longrightarrow> q \<le> 6 \<Longrightarrow> (word_of_int p :: byte) < word_of_int q \<longleftrightarrow> p < q"
  by (simp add: word_less_def uint_word_of_int)

lemma lex_cmp_fields:
  "length xs = length ys \<Longrightarrow> list_all fits_i32 xs \<Longrightarrow> list_all fits_i32 ys \<Longrightarrow>
   1 \<le> p \<Longrightarrow> p \<le> 6 \<Longrightarrow> 1 \<le> q \<Longrightarrow> q \<le> 6 \<Longrightarrow> lex_cmp (xs @ [p]) (ys @ [q]) < 0 \<Longrightarrow>
   byte_lt (concat (map field_bytes xs) @ [word_of_int p]) (concat (map field_bytes ys) @ [word_of_int q])"
proof (induction xs ys rule: list_induct2)
  case Nil
  then show ?case by (auto simp: precision_less split: if_splits)
next
  case (Cons x xs y ys)
  then have "x < y \<or> x = y \<and> lex_cmp (xs @ [p]) (ys @ [q]) < 0" by (auto split: if_splits)
  then show ?case
    using Cons byte_lt_append [OF field_bytes_less [of x y]] by (auto simp del: byte_lt.simps)
qed

lemma lex_cmp_eq_0: "length xs = length ys \<Longrightarrow> lex_cmp xs ys = 0 \<longleftrightarrow> xs = ys"
  by (induction xs ys rule: list_induct2) auto

lemma lex_cmp_swap: "lex_cmp ys xs = - lex_cmp xs ys"
  by (induction xs ys rule: lex_cmp.induct) auto

lemma datetime_key_fields: "datetime_key d = (if time_only d then 1 else 0) # datetime_fields d @ [precision d]"
  by (simp add: datetime_key_def datetime_fields_def)

interpretation datetime_codec: order_codec datetime_key_bytes datetime_compare_exact datetime_ok
proof
  show "datetime_compare_exact b a = - datetime_compare_exact a b" for a b
    unfolding datetime_compare_lex by (rule lex_cmp_swap)
  have fields: "list_all fits_i32 (datetime_fields d)" if "datetime_ok d" for d
    using that by (simp add: datetime_ok_def datetime_fields_def)
  have len: "length (datetime_fields a) = length (datetime_fields b)" if "time_only a = time_only b" for a b
    using that by (simp add: datetime_fields_def)
  show "byte_lt (datetime_key_bytes a) (datetime_key_bytes b)"
    if "datetime_ok a" "datetime_ok b" "datetime_compare_exact a b < 0" for a b
  proof (cases "time_only a = time_only b")
    case True
    with that show ?thesis
      using lex_cmp_fields [OF len [OF True] fields fields, of "precision a" "precision b"]
      by (simp add: datetime_key_bytes_def datetime_compare_lex datetime_key_fields datetime_ok_def)
  next
    case False
    with that show ?thesis
      by (auto simp: datetime_key_bytes_def datetime_compare_lex datetime_key_fields split: if_splits)
  qed
  show "datetime_key_bytes a = datetime_key_bytes b"
    if "datetime_ok a" "datetime_ok b" "datetime_compare_exact a b = 0" for a b
  proof -
    from that(3) have t: "time_only a = time_only b"
      by (auto simp: datetime_compare_lex datetime_key_fields split: if_splits)
    with that(3) len [OF t] have "datetime_fields a @ [precision a] = datetime_fields b @ [precision b]"
      by (simp add: datetime_compare_lex datetime_key_fields lex_cmp_eq_0)
    with t show ?thesis by (simp add: datetime_key_bytes_def)
  qed
qed

section \<open>Money\<close>

definition money_alpha :: "(u16 \<Rightarrow> bytes option) \<Rightarrow> money \<Rightarrow> bytes" where
  "money_alpha al m = (case al (currency m) of Some a \<Rightarrow> a | None \<Rightarrow> [])"

text \<open>What leads an amount: nothing in a column of one currency, otherwise its code or number.\<close>

definition money_group :: "bool \<Rightarrow> (u16 \<Rightarrow> bytes option) \<Rightarrow> money \<Rightarrow> bytes" where
  "money_group typed al m =
     (if typed then [KEY_MONEY_TYPED]
      else KEY_MONEY #
        (if money_alpha al m \<noteq> [] then money_alpha al m @ [0x00]
         else 0x01 # put_be 2 (ucast (currency m) :: u64)))"

definition money_key :: "bool \<Rightarrow> (u16 \<Rightarrow> bytes option) \<Rightarrow> money \<Rightarrow> bytes" where
  "money_key typed al m = money_group typed al m @ key_put_signed (units m) 8"

definition money_order :: "bool \<Rightarrow> (u16 \<Rightarrow> bytes option) \<Rightarrow> money \<Rightarrow> money \<Rightarrow> int" where
  "money_order typed al m n =
     (let g = bytes_cmp (money_group typed al m) (money_group typed al n)
      in if g \<noteq> 0 then g else int_cmp (sint (units m)) (sint (units n)))"

text \<open>A currency code is at most seven letters.\<close>

definition money_ok :: "(u16 \<Rightarrow> bytes option) \<Rightarrow> money \<Rightarrow> bool" where
  "money_ok al m \<longleftrightarrow>
     length (money_alpha al m) \<le> 7 \<and> (\<forall>b \<in> set (money_alpha al m). 0x41 \<le> b \<and> b \<le> 0x5A)"

lemma code_less:
  "0 \<notin> set s \<Longrightarrow> 0 \<notin> set t \<Longrightarrow> bytes_cmp (s @ [0]) (t @ [0]) < 0 \<Longrightarrow> byte_lt (s @ [0]) (t @ [0])"
proof (induction s arbitrary: t)
  case Nil
  then show ?case
    by (cases t) (auto simp: bytes_cmp_Cons word_neq_0_conv split: if_splits)
next
  case (Cons x s)
  then show ?case
    by (cases t) (auto simp: bytes_cmp_Cons word_neq_0_conv split: if_splits)
qed

lemma same_length_less: "length s = length t \<Longrightarrow> bytes_cmp s t < 0 \<Longrightarrow> byte_lt s t"
  by (induction s t rule: list_induct2) (auto simp: bytes_cmp_Cons split: if_splits)

lemma money_group_less:
  assumes "money_ok al m" "money_ok al n" "bytes_cmp (money_group ty al m) (money_group ty al n) < 0"
  shows "byte_lt (money_group ty al m) (money_group ty al n)"
proof -
  let ?a = "money_alpha al m" and ?b = "money_alpha al n"
  have z: "0 \<notin> set ?a" "0 \<notin> set ?b" using assms(1,2) by (auto simp: money_ok_def)
  have hd: "1 < x" if "x \<in> set ?a \<or> x \<in> set ?b" for x
  proof -
    have "0x41 \<le> x" using that assms(1,2) by (auto simp: money_ok_def)
    moreover have "(1::byte) < 0x41" by simp
    ultimately show ?thesis by (rule less_le_trans [rotated])
  qed
  show ?thesis
  proof (cases ty)
    case True
    with assms(3) show ?thesis by (simp add: money_group_def bytes_cmp_Cons)
  next
    case False
    consider "?a \<noteq> []" "?b \<noteq> []" | "?a = []" "?b = []" | "?a = []" "?b \<noteq> []" | "?a \<noteq> []" "?b = []" by blast
    then show ?thesis
    proof cases
      case 1
      with False assms(3) code_less [OF z] show ?thesis
        by (simp add: money_group_def bytes_cmp_Cons)
    next
      case 2
      with False assms(3) same_length_less
          [of "put_be 2 (ucast (currency m) :: u64)" "put_be 2 (ucast (currency n) :: u64)"]
      show ?thesis by (simp add: money_group_def bytes_cmp_Cons)
    next
      case 3
      then obtain y b where "?b = y # b" by (cases ?b) auto
      with 3 False hd [of y] show ?thesis by (simp add: money_group_def)
    next
      case 4
      then obtain y b where y: "?a = y # b" by (cases ?a) auto
      with hd [of y] have "1 < y" by simp
      then have "bytes_cmp (money_group ty al m) (money_group ty al n) = 1"
        using 4 False y by (cases "y = 0") (simp_all add: money_group_def bytes_cmp_Cons)
      with assms(3) show ?thesis by simp
    qed
  qed
qed

lemma units_less: "sint (u::i64) < sint v \<Longrightarrow> byte_lt (key_put_signed u 8) (key_put_signed v 8)"
proof -
  assume lt: "sint u < sint v"
  have "byte_lt (key_put_signed (word_of_int (sint u)) 8) (key_put_signed (word_of_int (sint v)) 8)"
    by (rule key_put_signed_less [OF _ _ _ _ _ _ lt]) (use sint64_range [of u] sint64_range [of v] in simp_all)
  then show ?thesis by simp
qed

interpretation money_codec: order_codec "money_key typed al" "money_order typed al" "money_ok al"
proof
  show "money_order typed al b a = - money_order typed al a b" for a b
    using bytes_cmp_swap [of "money_group typed al a" "money_group typed al b"]
    by (auto simp: money_order_def int_cmp_def Let_def)
  show "byte_lt (money_key typed al a) (money_key typed al b)"
    if "money_ok al a" "money_ok al b" "money_order typed al a b < 0" for a b
  proof (cases "bytes_cmp (money_group typed al a) (money_group typed al b) = 0")
    case True
    then have "money_group typed al a = money_group typed al b" by (simp add: bytes_cmp_eq_0)
    moreover have "sint (units a) < sint (units b)"
      using that(3) True by (auto simp: money_order_def int_cmp_def split: if_splits)
    ultimately show ?thesis by (simp add: money_key_def units_less)
  next
    case False
    with that show ?thesis
      by (auto simp: money_key_def money_order_def Let_def intro: byte_lt_append money_group_less)
  qed
  show "money_key typed al a = money_key typed al b"
    if "money_ok al a" "money_ok al b" "money_order typed al a b = 0" for a b
  proof -
    have *: "bytes_cmp (money_group typed al a) (money_group typed al b) = 0"
      and "sint (units a) = sint (units b)"
      using that(3)
      by (cases "sint (units a)" "sint (units b)" rule: linorder_cases;
          auto simp: money_order_def int_cmp_def Let_def split: if_splits)+
    then have "units a = units b" by (intro signed_word_eqI)
    with * show ?thesis by (simp add: money_key_def bytes_cmp_eq_0)
  qed
qed

end
