(* ===== verification/Key_Props.thy ===== *)
theory Key_Props
  imports Key_Order
begin

text \<open>
  The index keys of \<^verbatim>\<open>src/gsql/key.c\<close> as the table layer uses them: what \<^verbatim>\<open>gsql_key_append\<close>
  makes of a value gBASIC serialized, the order of composite keys, skipping a component, and
  reading a value back from its component.
\<close>

section \<open>The key of a value\<close>

fun value_key :: "bool \<Rightarrow> (u16 \<Rightarrow> bytes option) \<Rightarrow> val \<Rightarrow> bytes" where
  "value_key typed al VNull = [KEY_ABSENT]"
| "value_key typed al VUnknown = [KEY_ABSENT]"
| "value_key typed al (VBool b) = [KEY_BOOL, if b then 1 else 0]"
| "value_key typed al (VNumber n) = number_key n"
| "value_key typed al (VString s) = string_key s"
| "value_key typed al (VMoney m) = money_key typed al m"
| "value_key typed al (VDatetime d) = datetime_key_bytes d"
| "value_key typed al _ = []"

fun indexable :: "(u16 \<Rightarrow> bytes option) \<Rightarrow> val \<Rightarrow> bool" where
  "indexable al VNull = True"
| "indexable al VUnknown = True"
| "indexable al (VBool b) = True"
| "indexable al (VNumber n) = True"
| "indexable al (VString s) = (length s < 2 ^ 64)"
| "indexable al (VMoney m) = money_ok al m"
| "indexable al (VDatetime d) = datetime_ok d"
| "indexable al _ = False"

text \<open>The order of an index: gBASIC's order within a kind, absence after everything; which of two
  other kinds comes first is the store's own affair.\<close>

fun kind_rank :: "val \<Rightarrow> int" where
  "kind_rank (VBool _) = 0"
| "kind_rank (VNumber _) = 1"
| "kind_rank (VString _) = 2"
| "kind_rank (VMoney _) = 3"
| "kind_rank (VDatetime _) = 4"
| "kind_rank _ = 5"

definition value_order :: "bool \<Rightarrow> (u16 \<Rightarrow> bytes option) \<Rightarrow> val \<Rightarrow> val \<Rightarrow> int" where
  "value_order typed al v w =
     (let kinds = int_cmp (kind_rank v) (kind_rank w)
      in case v of
           VBool a \<Rightarrow> (case w of VBool b \<Rightarrow> int_cmp (of_bool a) (of_bool b) | _ \<Rightarrow> kinds)
         | VNumber a \<Rightarrow> (case w of VNumber b \<Rightarrow> number_order a b | _ \<Rightarrow> kinds)
         | VString a \<Rightarrow> (case w of VString b \<Rightarrow> string_value_compare a b | _ \<Rightarrow> kinds)
         | VMoney a \<Rightarrow> (case w of VMoney b \<Rightarrow> money_order typed al a b | _ \<Rightarrow> kinds)
         | VDatetime a \<Rightarrow> (case w of VDatetime b \<Rightarrow> datetime_compare_exact a b | _ \<Rightarrow> kinds)
         | _ \<Rightarrow> kinds)"

lemma number_key_head: "\<exists>b bs. number_key n = b # bs \<and> 0x21 \<le> b \<and> b \<le> 0x26"
  by (cases n rule: number_key_cases) (auto simp: put_magnitude_def Let_def)

text \<open>The tag of a key, by kind.\<close>

lemma value_key_head:
  assumes "indexable al v"
  obtains b bs where "value_key typed al v = b # bs"
    "b \<in> (if kind_rank v = 0 then {KEY_BOOL} else if kind_rank v = 1 then {0x21..0x26}
      else if kind_rank v = 2 then {KEY_STRING} else if kind_rank v = 3 then {KEY_MONEY_TYPED..KEY_MONEY}
      else if kind_rank v = 4 then {KEY_DATETIME} else {KEY_ABSENT})"
proof (cases v)
  case (VNumber n)
  with number_key_head [of n] that show ?thesis by auto
next
  case (VMoney m)
  with that show ?thesis by (cases typed) (simp_all add: money_key_def money_group_def)
qed (use assms that in \<open>auto simp: string_key_def money_key_def money_group_def datetime_key_bytes_def
      split: if_splits\<close>)

lemma kind_less:
  assumes "indexable al v" "indexable al w" "kind_rank v < kind_rank w"
  shows "byte_lt (value_key typed al v) (value_key typed al w)"
proof -
  obtain b bs where v: "value_key typed al v = b # bs"
    "b \<in> (if kind_rank v = 0 then {KEY_BOOL} else if kind_rank v = 1 then {0x21..0x26}
      else if kind_rank v = 2 then {KEY_STRING} else if kind_rank v = 3 then {KEY_MONEY_TYPED..KEY_MONEY}
      else if kind_rank v = 4 then {KEY_DATETIME} else {KEY_ABSENT})"
    by (rule value_key_head [OF assms(1)])
  obtain d ds where w: "value_key typed al w = d # ds"
    "d \<in> (if kind_rank w = 0 then {KEY_BOOL} else if kind_rank w = 1 then {0x21..0x26}
      else if kind_rank w = 2 then {KEY_STRING} else if kind_rank w = 3 then {KEY_MONEY_TYPED..KEY_MONEY}
      else if kind_rank w = 4 then {KEY_DATETIME} else {KEY_ABSENT})"
    by (rule value_key_head [OF assms(2)])
  have r: "kind_rank x \<in> {0, 1, 2, 3, 4, 5}" for x by (cases x) auto
  have "uint b < uint d"
    using v(2) w(2) assms(3) r [of v] r [of w] by (auto simp: word_le_def split: if_splits)
  then show ?thesis by (simp add: v(1) w(1) word_less_def)
qed

lemma value_order_kinds:
  "kind_rank v \<noteq> kind_rank w \<Longrightarrow> value_order typed al v w = int_cmp (kind_rank v) (kind_rank w)"
  by (cases v; cases w) (simp_all add: value_order_def Let_def)

lemma value_order_same:
  "value_order typed al (VBool a) (VBool b) = int_cmp (of_bool a) (of_bool b)"
  "value_order typed al (VNumber m) (VNumber n) = number_order m n"
  "value_order typed al (VString s) (VString t) = string_value_compare s t"
  "value_order typed al (VMoney x) (VMoney y) = money_order typed al x y"
  "value_order typed al (VDatetime d) (VDatetime e) = datetime_compare_exact d e"
  by (simp_all add: value_order_def)

text \<open>Two values of one kind, the absent ones together.\<close>

lemma same_kind_cases:
  assumes "kind_rank v = kind_rank w" "indexable al v" "indexable al w"
  obtains (bool) a b where "v = VBool a" "w = VBool b"
  | (number) a b where "v = VNumber a" "w = VNumber b"
  | (string) a b where "v = VString a" "w = VString b"
  | (money) a b where "v = VMoney a" "w = VMoney b"
  | (datetime) a b where "v = VDatetime a" "w = VDatetime b"
  | (absent) "v \<in> {VNull, VUnknown}" "w \<in> {VNull, VUnknown}"
proof (cases v)
  case (VBool a) with assms bool show ?thesis by (cases w) auto
next
  case (VNumber a) with assms number show ?thesis by (cases w) auto
next
  case (VString a) with assms string show ?thesis by (cases w) auto
next
  case (VMoney a) with assms money show ?thesis by (cases w) auto
next
  case (VDatetime a) with assms datetime show ?thesis by (cases w) auto
next
  case VNull with assms absent show ?thesis by (cases w) auto
next
  case VUnknown with assms absent show ?thesis by (cases w) auto
qed (use assms in auto)

lemma value_order_absent:
  "v \<in> {VNull, VUnknown} \<Longrightarrow> w \<in> {VNull, VUnknown} \<Longrightarrow> value_order typed al v w = 0"
  by (auto simp: value_order_def int_cmp_def)

lemma int_cmp_swap: "int_cmp y x = - int_cmp x y"
  by (simp add: int_cmp_def)

lemma value_order_swap: "value_order typed al w v = - value_order typed al v w"
proof (cases "kind_rank v = kind_rank w")
  case False
  then show ?thesis by (simp add: value_order_kinds int_cmp_swap [symmetric])
next
  case True
  then show ?thesis
    by (cases v; cases w) (simp_all add: value_order_def int_cmp_swap [symmetric]
        number_codec.ord_swap [symmetric] string_codec.ord_swap [symmetric]
        money_codec.ord_swap [symmetric] datetime_codec.ord_swap [symmetric])
qed

interpretation value_codec: order_codec "value_key typed al" "value_order typed al" "indexable al"
proof
  show "value_order typed al b a = - value_order typed al a b" for a b
    by (rule value_order_swap)
  show "byte_lt (value_key typed al a) (value_key typed al b)"
    if ok: "indexable al a" "indexable al b" and less: "value_order typed al a b < 0" for a b
  proof (cases "kind_rank a = kind_rank b")
    case True
    then show ?thesis using ok
    proof (cases rule: same_kind_cases)
      case (bool p q)
      with less show ?thesis by (cases p; cases q) (simp_all add: value_order_same int_cmp_def)
    qed (use ok less in \<open>simp_all add: value_order_same value_order_absent number_codec.enc_less
        string_codec.enc_less money_codec.enc_less datetime_codec.enc_less\<close>)
  next
    case False
    with less have "kind_rank a < kind_rank b"
      by (simp add: value_order_kinds int_cmp_def split: if_splits)
    with ok show ?thesis by (intro kind_less)
  qed
  show "value_key typed al a = value_key typed al b"
    if ok: "indexable al a" "indexable al b" and eq: "value_order typed al a b = 0" for a b
  proof (cases "kind_rank a = kind_rank b")
    case True
    then show ?thesis using ok
    proof (cases rule: same_kind_cases)
      case (bool p q)
      with eq show ?thesis by (cases p; cases q) (simp_all add: value_order_same int_cmp_def)
    next
      case absent
      then show ?thesis by auto
    qed (use ok eq in \<open>simp_all add: value_order_same number_codec.enc_eq_iff
        string_codec.enc_eq_iff money_codec.enc_eq_iff datetime_codec.enc_eq_iff\<close>)
  next
    case False
    with eq show ?thesis
      by (cases "kind_rank a" "kind_rank b" rule: linorder_cases) (simp_all add: value_order_kinds int_cmp_def)
  qed
qed

section \<open>Encoding a serialized value\<close>

lemmas key_reads = key_in_le_def key_in_uleb_def key_in_i32_def

lemma key_number_ser:
  "key_number (cur pre (tl (ser_number n) @ s)) = (Some (number_key n), cur (pre @ tl (ser_number n)) s)"
  by (cases n) (simp_all add: key_number_def key_reads serbuf_le_def Let_def)

lemma key_string_ser:
  assumes "length p < 2 ^ 64"
  shows "key_string (cur pre (serbuf_blob p @ s)) = (Some (string_key p), cur (pre @ serbuf_blob p) s)"
proof -
  have "key_string_loop p 0 0 [KEY_STRING] = KEY_STRING # esc p"
    using key_string_loop_esc [of 0 0 p "[KEY_STRING]"] by (simp add: peek_def)
  moreover have "peek (inpos (cur q (p @ s))) (length p) (inp (cur q (p @ s))) = p"
    "cur q (p @ s)\<lparr>inpos := inpos (cur q (p @ s)) + length p\<rparr> = cur (q @ p) s"
    "length (inp (cur q (p @ s))) - inpos (cur q (p @ s)) < length p \<longleftrightarrow> False" for q
    by (simp_all add: cur_counted(1) del: cur_sel(2,3)) (simp_all add: cur_def)
  ultimately show ?thesis
    using assms
    by (simp add: key_string_def key_reads serbuf_blob_def serbuf_uleb_def unat_of_length
        string_key_def del: cur_sel(2,3))
qed

lemma key_money_ser:
  assumes "money_ok al m"
  shows "key_money (cur pre (tl (ser_money al m) @ s)) fl =
    (Some (money_key (fl AND GSQL_KEY_MONEY_TYPED \<noteq> 0) al m), cur (pre @ tl (ser_money al m)) s)"
proof -
  define a where "a = money_alpha al m"
  have a: "length a \<le> 7" using assms by (simp add: a_def money_ok_def)
  have len: "unat (ucast (word_of_nat (length a) :: byte) :: u64) = length a"
    using a by (simp add: unsigned_of_nat unsigned_ucast_eq take_bit_nat_eq_self)
  then have small: "7 < (ucast (word_of_nat (length a) :: byte) :: u64) \<longleftrightarrow> False"
    using a by (simp add: word_less_nat_alt)
  have nz: "(ucast (word_of_nat (length a) :: byte) :: u64) = 0 \<longleftrightarrow> a = []"
    using len by (metis length_0_conv unsigned_eq_0_iff)
  have ser: "tl (ser_money al m) = serbuf_le (units m) 8 @ exponent m #
      serbuf_le (currency m) 2 @ of_nat (length a) # a"
    by (simp add: ser_money_def a_def money_alpha_def Let_def)
  have le: "v3_in_le (cur p (serbuf_le v w @ r)) w = (get_le (serbuf_le v w), cur (p @ serbuf_le v w) r)"
    for p r w and v :: "'w::len word"
    by (simp add: serbuf_le_def)
  show ?thesis
    by (cases "a = []")
      (simp_all add: key_money_def ser key_reads le Let_def len small nz cur_counted get_le_serbuf
        money_key_def money_group_def a_def [symmetric] del: cur_sel(2,3))
qed

lemma key_in_fields_ser:
  "list_all fits_i32 fs \<Longrightarrow>
   key_in_fields (length fs) (cur pre (concat (map serbuf_i32 fs) @ s)) =
     (map word_of_int fs, cur (pre @ concat (map serbuf_i32 fs)) s)"
proof (induction fs arbitrary: pre)
  case Nil
  then show ?case by simp
next
  case (Cons f fs)
  have "v3_in_le (cur pre (serbuf_i32 f @ r)) 4 = (get_le (serbuf_i32 f), cur (pre @ serbuf_i32 f) r)" for r
    by (rule in_le_cur) simp
  moreover have "ucast (get_le (serbuf_i32 f) :: u64) = (word_of_int f :: i32)"
    by (simp add: serbuf_i32_def serbuf_le_def ucast_get_le_32)
  ultimately show ?case
    using Cons.IH [of "pre @ serbuf_i32 f"] Cons.prems
    by (simp add: key_in_i32_def key_in_le_def)
qed

lemma key_datetime_ser:
  assumes "datetime_ok d"
  shows "key_datetime (cur pre (tl (ser_datetime d) @ s)) =
    (Some (datetime_key_bytes d), cur (pre @ tl (ser_datetime d)) s)"
proof -
  define fs where "fs = [year d, month d, day d, hour d, minute d, second d]"
  have fits: "list_all fits_i32 fs" and len: "6 = length fs"
    using assms by (simp_all add: datetime_ok_def fs_def)
  have ser: "tl (ser_datetime d) = concat (map serbuf_i32 fs) @
      [if time_only d then 1 else 0, word_of_int (precision d)]"
    by (simp add: ser_datetime_def fs_def)
  have key: "datetime_key_bytes d = [KEY_DATETIME, if time_only d then 1 else 0] @
      concat (map field_bytes (drop (if time_only d then 3 else 0) fs)) @ [word_of_int (precision d)]"
    by (simp add: datetime_key_bytes_def datetime_fields_def fs_def)
  have p: "uint (ucast (word_of_int (precision d) :: byte) :: u64) = precision d"
    using assms by (simp add: datetime_ok_def uint_word_of_int unsigned_ucast_eq take_bit_int_eq_self)
  then have small: "(ucast (word_of_int (precision d) :: byte) :: u64) \<noteq> 0"
      "6 < (ucast (word_of_int (precision d) :: byte) :: u64) \<longleftrightarrow> False"
    using assms by (auto simp: word_less_def datetime_ok_def)
  have again: "ucast (ucast (word_of_int (precision d) :: byte) :: u64) = (word_of_int (precision d) :: byte)"
    by (rule bit_word_eqI) (simp add: bit_simps)
  have "scast (word_of_int v :: i32) = (word_of_int v :: u64)" if "fits_i32 v" for v
  proof -
    have "scast (word_of_int v :: i32) = (word_of_int (sint (word_of_int v :: i32)) :: u64)" by simp
    then show ?thesis by (simp only: sint_i32 [OF that])
  qed
  then have put: "map (\<lambda>x. key_put_signed (scast x) 4) (drop k (map word_of_int fs :: i32 list)) =
      map field_bytes (drop k fs)" for k
    using fits by (auto simp: drop_map list_all_iff dest: in_set_dropD)
  have fields: "key_in_fields 6 (cur pre (concat (map serbuf_i32 fs) @ r)) =
     (map word_of_int fs, cur (pre @ concat (map serbuf_i32 fs)) r)" for r
    unfolding len by (rule key_in_fields_ser [OF fits])
  show ?thesis
    unfolding ser key
    by (simp add: key_datetime_def key_in_le_def fields put small again Let_def)
qed

text \<open>The component of a value, inverted in a descending column.\<close>

definition component :: "u32 \<Rightarrow> (u16 \<Rightarrow> bytes option) \<Rightarrow> val \<Rightarrow> bytes" where
  "component fl al v =
     (let k = value_key (fl AND GSQL_KEY_MONEY_TYPED \<noteq> 0) al v
      in if fl AND GSQL_KEY_DESC \<noteq> 0 then map NOT k else k)"

lemma key_append_eqI:
  assumes "bs = t # bs'" "key_component (ucast t) (cur [t] (bs' @ rest)) fl = (Inr k, cur (t # bs') rest)"
  shows "gsql_key_append key (bs @ rest) fl =
    (KEY_OK, key @ (if fl AND GSQL_KEY_DESC \<noteq> 0 then map NOT k else k), Some (length bs))"
proof -
  have "key_in_le \<lparr>inp = bs @ rest, inpos = 0, inok = True\<rparr> 1 = (ucast t, cur [t] (bs' @ rest))"
    using in_le_byte [of "[]" t "bs' @ rest"] by (simp add: key_in_le_def assms(1) cur_def)
  then show ?thesis
    using assms by (simp add: gsql_key_append_def)
qed

lemma key_append_serialized:
  assumes "serialize_value d v c = Inr (bs, c')" "indexable (alpha_of c) v"
  shows "gsql_key_append key (bs @ rest) fl = (KEY_OK, key @ component fl (alpha_of c) v, Some (length bs))"
proof -
  from assms(1) have d: "\<not> SER_MAX_DEPTH < d"
    by (auto simp: serialize_value.simps [of d])
  let ?k = "value_key (fl AND GSQL_KEY_MONEY_TYPED \<noteq> 0) (alpha_of c) v"
  have "\<exists>t bs'. bs = t # bs' \<and> key_component (ucast t) (cur [t] (bs' @ rest)) fl = (Inr ?k, cur (t # bs') rest)"
  proof (cases v)
    case (VNumber n)
    have "bs = SER_NUMBER # tl (ser_number n)"
      using assms(1) d VNumber ser_heads(1) [of n] by (simp add: serialize_value.simps [of d])
    with VNumber key_number_ser [of "[SER_NUMBER]" n rest] show ?thesis
      by (simp add: key_component_def)
  next
    case (VString p)
    have "bs = SER_STRING # serbuf_blob p"
      using assms(1) d VString by (simp add: serialize_value.simps [of d])
    with VString key_string_ser [of p "[SER_STRING]" rest] assms(2) show ?thesis
      by (simp add: key_component_def)
  next
    case (VMoney m)
    have "bs = SER_MONEY # tl (ser_money (alpha_of c) m)"
      using assms(1) d VMoney ser_heads(4) [of "alpha_of c" m] by (auto simp: serialize_value.simps [of d])
    with VMoney key_money_ser [of "alpha_of c" m "[SER_MONEY]" rest fl] assms(2) show ?thesis
      by (simp add: key_component_def)
  next
    case (VDatetime dt)
    have "bs = SER_DATETIME # tl (ser_datetime dt)"
      using assms(1) d VDatetime ser_heads(2) [of dt] by (auto simp: serialize_value.simps [of d])
    with VDatetime key_datetime_ser [of dt "[SER_DATETIME]" rest] assms(2) show ?thesis
      by (simp add: key_component_def)
  next
    case (VBool b)
    have "bs = [SER_BOOL, if b then 1 else 0]"
      using assms(1) d VBool by (simp add: serialize_value.simps [of d])
    with VBool show ?thesis by (cases b) (simp_all add: key_component_def key_reads)
  next
    case VNull
    then have "bs = [SER_NULL]" using assms(1) d by (simp add: serialize_value.simps [of d])
    with VNull show ?thesis by (simp add: key_component_def)
  next
    case VUnknown
    then have "bs = [SER_UNKNOWN]" using assms(1) d by (simp add: serialize_value.simps [of d])
    with VUnknown show ?thesis by (simp add: key_component_def)
  qed (use assms(2) in simp_all)
  then obtain t bs' where "bs = t # bs'"
    "key_component (ucast t) (cur [t] (bs' @ rest)) fl = (Inr ?k, cur (t # bs') rest)" by blast
  from key_append_eqI [OF this] show ?thesis by (simp add: component_def Let_def)
qed

text \<open>The kinds that have no index order are refused, and nothing is appended.\<close>

fun unindexed :: "val \<Rightarrow> bool" where
  "unindexed (VDuration _) = True"
| "unindexed (VArray _) = True"
| "unindexed (VRecord _) = True"
| "unindexed (VFile _) = True"
| "unindexed (VDir _) = True"
| "unindexed (VActor _) = True"
| "unindexed (VFunction _ _ _) = True"
| "unindexed (VRegex _ _) = True"
| "unindexed _ = False"

lemma serialized_tag:
  assumes "serialize_value d v c = Inr (bs, c')"
  shows "\<exists>t bs'. bs = t # bs' \<and> ucast t = value_tag v"
proof (cases v)
  case (VNumber n)
  with assms ser_heads(1) [of n] show ?thesis
    by (auto simp: serialize_value.simps [of d] split: if_splits)
qed (use assms in \<open>auto simp: serialize_value.simps [of d] ser_datetime_def ser_duration_def ser_money_def
      ser_function_def ser_actor_def Let_def split: if_splits sum.splits option.splits list.splits\<close>)

lemma key_append_unindexed:
  assumes "serialize_value d v c = Inr (bs, c')" "unindexed v"
  shows "gsql_key_append key (bs @ rest) fl = (KEY_NOT_INDEXABLE, key, None)"
proof -
  from serialized_tag [OF assms(1)] obtain t bs' where bs: "bs = t # bs'" "ucast t = value_tag v" by blast
  have "key_in_le \<lparr>inp = bs @ rest, inpos = 0, inok = True\<rparr> 1 = (value_tag v, cur [t] (bs' @ rest))"
    using in_le_byte [of "[]" t "bs' @ rest"] bs by (simp add: key_in_le_def cur_def)
  with assms(2) show ?thesis
    by (cases v) (simp_all add: gsql_key_append_def key_component_def)
qed

section \<open>The length of a component\<close>

lemma component_xor:
  "component fl al v = map (\<lambda>b. b XOR key_inversion fl) (value_key (fl AND GSQL_KEY_MONEY_TYPED \<noteq> 0) al v)"
proof -
  have "NOT b = b XOR 0xFF" for b :: byte
  proof -
    have "b XOR mask 8 = NOT b"
      by (rule bit_word_eqI) (simp add: bit_simps)
    then show ?thesis by (simp add: mask_eq_exp_minus_1)
  qed
  then show ?thesis by (auto simp: component_def key_inversion_def Let_def)
qed

lemma nth_after: "(p @ b # r) ! length p = b"
  by simp

lemma skip_string_esc:
  "skip_string (p @ map (\<lambda>b. b XOR x) (esc s @ [0, 0]) @ rest) x (length p) =
     Some (length p + length (esc s) + 2)"
proof (induction s arbitrary: p)
  case Nil
  show ?case
    by (subst skip_string.simps) (simp add: nth_append)
next
  case (Cons b s)
  show ?case
  proof (cases "b = 0")
    case True
    have "skip_string (p @ map (\<lambda>b. b XOR x) (esc (b # s) @ [0, 0]) @ rest) x (length p) =
        skip_string ((p @ [x, 0xFF XOR x]) @ map (\<lambda>b. b XOR x) (esc s @ [0, 0]) @ rest) x (length p + 2)"
      by (subst skip_string.simps) (simp add: True nth_append xor.assoc)
    with Cons.IH [of "p @ [x, 0xFF XOR x]"] True show ?thesis by simp
  next
    case False
    have "skip_string (p @ map (\<lambda>b. b XOR x) (esc (b # s) @ [0, 0]) @ rest) x (length p) =
        skip_string ((p @ [b XOR x]) @ map (\<lambda>b. b XOR x) (esc s @ [0, 0]) @ rest) x (length p + 1)"
      by (subst skip_string.simps) (simp add: False nth_append xor.assoc)
    with Cons.IH [of "p @ [b XOR x]"] False show ?thesis by simp
  qed
qed

lemma skip_to_nul_code:
  "0 \<notin> set a \<Longrightarrow>
   skip_to_nul (p @ map (\<lambda>b. b XOR x) (a @ [0]) @ rest) x (length p) = length p + length a"
proof (induction a arbitrary: p)
  case Nil
  show ?case by (subst skip_to_nul.simps) (simp add: nth_append)
next
  case (Cons b a)
  then have "skip_to_nul (p @ map (\<lambda>b. b XOR x) ((b # a) @ [0]) @ rest) x (length p) =
      skip_to_nul ((p @ [b XOR x]) @ map (\<lambda>b. b XOR x) (a @ [0]) @ rest) x (length p + 1)"
    by (subst skip_to_nul.simps) (auto simp: nth_append xor.assoc)
  with Cons.IH [of "p @ [b XOR x]"] Cons.prems show ?case by simp
qed

lemma put_magnitude_length [simp]: "length (put_magnitude neg m e) = 11"
  by (simp add: put_magnitude_def Let_def)

lemma number_key_skip:
  "key_skip_length (number_key n ! 0) bs x = Some (length (number_key n))"
  by (cases n rule: number_key_cases)
    (auto simp: key_skip_length_def put_magnitude_def Let_def)

lemma xor_cancel [simp]: "(b XOR x) XOR x = (b::byte)"
  by (simp add: xor.assoc)

lemma key_skip_component_length:
  assumes "indexable al v"
  shows "key_skip_length (value_key ty al v ! 0) (map (\<lambda>b. b XOR x) (value_key ty al v) @ rest) x =
    Some (length (value_key ty al v))"
proof (cases v)
  case (VNumber n)
  then show ?thesis by (simp add: number_key_skip)
next
  case (VString s)
  with skip_string_esc [of "[KEY_STRING XOR x]" x s rest] show ?thesis
    by (simp add: string_key_def key_skip_length_def)
next
  case (VDatetime d)
  then show ?thesis
    by (auto simp: datetime_key_bytes_def datetime_fields_def key_skip_length_def Let_def)
next
  case (VMoney m)
  let ?a = "money_alpha al m"
  have letters: "\<forall>b \<in> set ?a. 0x41 \<le> b" using assms VMoney by (simp add: money_ok_def)
  then have z: "0 \<notin> set ?a" by auto
  from letters have "1 \<notin> set ?a" by (auto simp: word_le_def)
  then have hd: "b \<in> set ?a \<Longrightarrow> b \<noteq> 1" for b by auto
  consider "ty" | "\<not> ty" "?a = []" | b a where "\<not> ty" "?a = b # a" by (cases ty; cases ?a) auto
  then show ?thesis
  proof cases
    case 1
    with VMoney show ?thesis by (simp add: money_key_def money_group_def key_skip_length_def)
  next
    case 2
    with VMoney show ?thesis by (simp add: money_key_def money_group_def key_skip_length_def)
  next
    case 3
    with VMoney z hd [of b] skip_to_nul_code [OF z, of "[KEY_MONEY XOR x]" x
        "map (\<lambda>b. b XOR x) (key_put_signed (units m) 8) @ rest"]
    show ?thesis by (simp add: money_key_def money_group_def key_skip_length_def Let_def)
  qed
qed (use assms in \<open>auto simp: key_skip_length_def\<close>)

lemma key_skip_component:
  assumes "indexable al v"
  shows "gsql_key_skip (component fl al v @ rest) fl = Some (length (component fl al v))"
proof -
  let ?k = "value_key (fl AND GSQL_KEY_MONEY_TYPED \<noteq> 0) al v"
  obtain b bs where k: "?k = b # bs"
    by (rule value_key_head [OF assms])
  have "(map (\<lambda>b. b XOR key_inversion fl) ?k @ rest) ! 0 XOR key_inversion fl = ?k ! 0"
    by (simp add: k)
  with key_skip_component_length [OF assms, of "fl AND GSQL_KEY_MONEY_TYPED \<noteq> 0" "key_inversion fl" rest]
  show ?thesis
    unfolding gsql_key_skip_def component_xor Let_def by (simp add: k)
qed

section \<open>The properties\<close>

lemma component_order:
  assumes "indexable al v" "indexable al w"
  shows "bytes_cmp (component fl al v @ r) (component fl al w @ s) =
    (let cmp = value_order (fl AND GSQL_KEY_MONEY_TYPED \<noteq> 0) al v w;
         cmp = (if fl AND GSQL_KEY_DESC \<noteq> 0 then - cmp else cmp)
     in if cmp < 0 then -1 else if 0 < cmp then 1 else bytes_cmp r s)"
proof -
  let ?ty = "fl AND GSQL_KEY_MONEY_TYPED \<noteq> 0"
  have swap: "value_order ?ty al w v = - value_order ?ty al v w" by (rule value_codec.ord_swap)
  show ?thesis
    using value_codec.enc_order [OF assms, of ?ty r s]
      order_codec.enc_order [OF value_codec.desc_codec, OF assms, of ?ty r s]
    by (simp add: component_def Let_def swap)
qed

text \<open>A whole index key: one column after the other, each with its own flags.\<close>

fun append_all :: "bytes \<Rightarrow> (u32 \<times> bytes) list \<Rightarrow> bytes option" where
  "append_all key [] = Some key"
| "append_all key ((fl, bs) # cols) =
     (case gsql_key_append key bs fl of
        (KEY_OK, key, _) \<Rightarrow> append_all key cols
      | _ \<Rightarrow> None)"

text \<open>The order of rows: the first column that differs decides, in its direction.\<close>

fun row_order :: "(u16 \<Rightarrow> bytes option) \<Rightarrow> (u32 \<times> val) list \<Rightarrow> (u32 \<times> val) list \<Rightarrow> int" where
  "row_order al ((fl, v) # vs) ((_, w) # ws) =
     (let cmp = value_order (fl AND GSQL_KEY_MONEY_TYPED \<noteq> 0) al v w;
          cmp = (if fl AND GSQL_KEY_DESC \<noteq> 0 then - cmp else cmp)
      in if cmp < 0 then -1 else if 0 < cmp then 1 else row_order al vs ws)"
| "row_order _ _ _ = 0"

text \<open>The columns of a row as gBASIC serialized them.\<close>

definition serialized_row :: "ser_ctx \<Rightarrow> (u32 \<times> val) list \<Rightarrow> (u32 \<times> bytes) list \<Rightarrow> bool" where
  "serialized_row c row cols \<longleftrightarrow>
     list_all2 (\<lambda>(fl, v) (fl', bs). fl' = fl \<and> serialize_value 0 v c = Inr (bs, c) \<and> indexable (alpha_of c) v)
       row cols"

lemma append_all_components:
  "serialized_row c row cols \<Longrightarrow>
   append_all key cols = Some (key @ concat (map (\<lambda>(fl, v). component fl (alpha_of c) v) row))"
proof (induction row arbitrary: cols key)
  case Nil
  then show ?case by (simp add: serialized_row_def)
next
  case (Cons rv row)
  obtain fl v where rv: "rv = (fl, v)" by force
  from Cons.prems obtain bs cols' where cols: "cols = (fl, bs) # cols'"
      "serialize_value 0 v c = Inr (bs, c)" "indexable (alpha_of c) v" "serialized_row c row cols'"
    by (auto simp: serialized_row_def rv list_all2_Cons1)
  have "gsql_key_append key bs fl = (KEY_OK, key @ component fl (alpha_of c) v, Some (length bs))"
    using key_append_serialized [OF cols(2,3), of key "[]" fl] by simp
  with Cons.IH [OF cols(4)] show ?case by (simp add: rv cols(1))
qed

lemma components_row_order:
  assumes "map fst rv = map fst rw" "list_all (\<lambda>(fl, v). indexable al v) rv" "list_all (\<lambda>(fl, v). indexable al v) rw"
  shows "bytes_cmp (concat (map (\<lambda>(fl, v). component fl al v) rv)) (concat (map (\<lambda>(fl, v). component fl al v) rw)) =
    row_order al rv rw"
proof -
  have "length rv = length rw" using assms(1) by (metis length_map)
  then show ?thesis using assms
  proof (induction rv rw rule: list_induct2)
    case Nil
    then show ?case by simp
  next
    case (Cons a rv b rw)
    then show ?case
      by (auto simp: component_order Let_def split: prod.splits)
  qed
qed

lemma serialized_row_indexable:
  "serialized_row c row cols \<Longrightarrow> list_all (\<lambda>(fl, v). indexable (alpha_of c) v) row"
  by (induction row arbitrary: cols) (auto simp: serialized_row_def list_all2_Cons1)

text \<open>C2. Byte order of index keys is the order of the rows: comparing the keys that
  \<^verbatim>\<open>gsql_key_append\<close> builds for two rows of the same index columns gives what gBASIC's own
  comparison of the values gives, column by column, reversed where a column is descending,
  absent values last; equal keys mean equal rows.\<close>

theorem index_key_order:
  assumes "serialized_row c rv cv" "serialized_row c rw cw" "map fst rv = map fst rw"
  shows "\<exists>kv kw. append_all [] cv = Some kv \<and> append_all [] cw = Some kw \<and>
    bytes_cmp kv kw = row_order (alpha_of c) rv rw \<and>
    (kv = kw \<longleftrightarrow> row_order (alpha_of c) rv rw = 0)"
proof -
  let ?k = "\<lambda>r. concat (map (\<lambda>(fl, v). component fl (alpha_of c) v) r)"
  have "bytes_cmp (?k rv) (?k rw) = row_order (alpha_of c) rv rw"
    by (rule components_row_order [OF assms(3)]) (use assms(1,2) serialized_row_indexable in blast)+
  with append_all_components [OF assms(1)] append_all_components [OF assms(2)] show ?thesis
    using bytes_cmp_eq_0 [of "?k rv" "?k rw"] by auto
qed

theorem index_key_order_witness:
  "\<exists>kv kw. append_all [] [(0, ser_number (Exact 5)), (1, [SER_STRING, 1, 0x61])] = Some kv \<and>
    append_all [] [(0, ser_number (Exact 5)), (1, [SER_STRING, 1, 0x62])] = Some kw \<and> bytes_cmp kv kw = 1"
proof -
  let ?rv = "[(0 :: u32, VNumber (Exact 5)), (1, VString [0x61])]"
  let ?rw = "[(0 :: u32, VNumber (Exact 5)), (1, VString [0x62])]"
  have "serialized_row demo_ctx ?rv [(0, ser_number (Exact 5)), (1, [SER_STRING, 1, 0x61])]"
    "serialized_row demo_ctx ?rw [(0, ser_number (Exact 5)), (1, [SER_STRING, 1, 0x62])]"
    by (simp_all add: serialized_row_def serialize_value.simps serbuf_blob_def serbuf_uleb_def v3_uleb.simps)
  moreover have "row_order (alpha_of demo_ctx) ?rv ?rw = 1"
    by (simp add: value_order_same number_order_def int_cmp_def GSQL_KEY_DESC_def
        string_value_compare_def)
  ultimately show ?thesis using index_key_order [of demo_ctx ?rv _ ?rw] by fastforce
qed

text \<open>C4. A component is self-delimiting: whatever follows it in an index entry, \<^verbatim>\<open>gsql_key_skip\<close>
  finds exactly where it ends, so an entry's columns come apart into the row key after them.\<close>

theorem key_skip_inverts_append:
  assumes "serialize_value 0 v c = Inr (bs, c')" "indexable (alpha_of c) v"
    and "gsql_key_append [] bs fl = (KEY_OK, key, used)"
  shows "gsql_key_skip (key @ rest) fl = Some (length key)"
  using key_append_serialized [OF assms(1,2), of "[]" "[]" fl] key_skip_component [OF assms(2), of fl rest] assms(3)
  by simp

theorem key_skip_inverts_append_witness:
  "gsql_key_skip (snd (GSQL_KEY_DESC, string_key [0, 0x61]) @ [1, 2, 3]) 0 = Some 6"
proof -
  have s: "serialize_value 0 (VString [0, 0x61]) demo_ctx = Inr ([SER_STRING, 2, 0, 0x61], demo_ctx)"
    by (simp add: serialize_value.simps serbuf_blob_def serbuf_uleb_def v3_uleb.simps SER_MAX_DEPTH_def)
  have i: "indexable (alpha_of demo_ctx) (VString [0, 0x61])" by simp
  have "gsql_key_append [] [SER_STRING, 2, 0, 0x61] 0 = (KEY_OK, string_key [0, 0x61], Some 4)"
    using key_append_serialized [OF s i, of "[]" "[]" 0] by (simp add: component_def Let_def)
  from key_skip_inverts_append [OF s i this, of "[1, 2, 3]"] show ?thesis by (simp add: string_key_def)
qed

text \<open>A value of a kind with no index order, however nested, is refused as not indexable and the
  key is left as it was.\<close>

theorem key_append_refuses_unindexed:
  assumes "serialize_value d v c = Inr (bs, c')" "unindexed v"
  shows "gsql_key_append key (bs @ rest) fl = (KEY_NOT_INDEXABLE, key, None)"
  by (rule key_append_unindexed [OF assms])

theorem key_append_refuses_unindexed_witness:
  "gsql_key_append [7] [SER_ARRAY, 0] 0 = (KEY_NOT_INDEXABLE, [7], None)"
proof -
  have "serialize_value 0 (VArray []) demo_ctx = Inr ([SER_ARRAY, 0], demo_ctx)"
    by (simp add: serialize_value.simps serbuf_uleb_def v3_uleb.simps SER_MAX_DEPTH_def)
  from key_append_refuses_unindexed [OF this, of "[7]" "[]" 0] show ?thesis by simp
qed

end
