(* ===== verification/Key_Back.thy ===== *)
theory Key_Back
  imports Key_Props
begin

text \<open>
  \<^verbatim>\<open>gsql_key_value\<close> of \<^verbatim>\<open>src/gsql/key.c\<close>: the value a component was written from, read back:
  the value it gives is \<open>value_back\<close>, equal in the order of the keys. The exact and the floating-point branch of the number case are shown to
  rebuild the number the key was made of.
\<close>

section \<open>Reading inverted bytes\<close>

lemma ucast_and_255: "(ucast (b::byte) :: u64) AND 0xFF = ucast b"
  unfolding and_255 by (rule bit_word_eqI) (auto simp: bit_simps dest: bit_imp_le_length)

lemma key_rd_be_xor:
  "key_rd_be (map (\<lambda>b. b XOR x) ys @ rest) (length ys) x = get_be ys"
proof -
  have "foldl (\<lambda>v b. push_bit 8 v OR (ucast (b XOR x) AND 0xFF)) a (map (\<lambda>b. b XOR x) ys) =
      foldl (\<lambda>v b. push_bit 8 v OR ucast b) (a :: u64) ys" for a
    by (induction ys arbitrary: a) (simp_all add: ucast_and_255)
  then show ?thesis by (simp add: key_rd_be_def get_be_def)
qed

lemma key_rd_be_put:
  "key_rd_be (map (\<lambda>b. b XOR x) (put_be w (v::u64)) @ rest) w x = take_bit (8 * w) v"
  using key_rd_be_xor [of x "put_be w v" rest]
  by (simp add: get_be_rev put_be_rev get_le_put_le)

lemma key_value_text_esc:
  "key_value_text (p @ map (\<lambda>b. b XOR x) (esc s @ [0, 0]) @ rest) x (length p + length (esc s) + 2) (length p) = s"
proof (induction s arbitrary: p)
  case Nil
  show ?case by (subst key_value_text.simps) (simp add: nth_append)
next
  case (Cons b s)
  show ?case
  proof (cases "b = 0")
    case True
    have "key_value_text (p @ map (\<lambda>b. b XOR x) (esc (b # s) @ [0, 0]) @ rest) x
          (length p + length (esc (b # s)) + 2) (length p) =
        0 # key_value_text ((p @ [x, 0xFF XOR x]) @ map (\<lambda>b. b XOR x) (esc s @ [0, 0]) @ rest) x
          (length p + 2 + length (esc s) + 2) (length p + 2)"
      by (subst key_value_text.simps) (simp add: True nth_append xor.assoc)
    with Cons.IH [of "p @ [x, 0xFF XOR x]"] True show ?thesis by simp
  next
    case False
    have "key_value_text (p @ map (\<lambda>b. b XOR x) (esc (b # s) @ [0, 0]) @ rest) x
          (length p + length (esc (b # s)) + 2) (length p) =
        b # key_value_text ((p @ [b XOR x]) @ map (\<lambda>b. b XOR x) (esc s @ [0, 0]) @ rest) x
          (length p + 1 + length (esc s) + 2) (length p + 1)"
      by (subst key_value_text.simps) (simp add: False nth_append xor.assoc)
    with Cons.IH [of "p @ [b XOR x]"] False show ?thesis by simp
  qed
qed

section \<open>A whole number\<close>

definition whole_test :: "bool \<Rightarrow> int \<Rightarrow> u64 \<Rightarrow> bool" where
  "whole_test neg E F \<longleftrightarrow>
     0 \<le> E \<and> E \<le> 63 \<and> (if E = 0 then F = 0 else push_bit (nat E) F = 0) \<and>
     (let m = (if E = 0 then 1 else push_bit (nat E) 1 OR drop_bit (64 - nat E) F)
      in if \<not> neg then m \<le> 0x7FFFFFFFFFFFFFFF else m \<le> 0x8000000000000000)"

definition whole_value :: "int \<Rightarrow> u64 \<Rightarrow> u64" where
  "whole_value E F = (if E = 0 then 1 else push_bit (nat E) 1 OR drop_bit (64 - nat E) F)"

lemma whole_value_unat:
  assumes "t \<le> 63" "0 < t"
  shows "unat (whole_value (int t) F) = 2 ^ t + unat F div 2 ^ (64 - t)"
proof -
  have "unat F div 2 ^ (64 - t) < 2 ^ t"
  proof -
    have "unat F < 2 ^ t * 2 ^ (64 - t)" using unat_less_2p [of F] assms by (simp flip: power_add)
    then show ?thesis by (simp add: less_mult_imp_div_less)
  qed
  then have d: "unat (drop_bit (64 - t) F) < 2 ^ t" by (simp only: unat_drop_bit_div)
  have dt: "take_bit t (drop_bit (64 - t) F) = drop_bit (64 - t) F"
    using assms by (intro bit_word_eqI) (auto simp: bit_simps dest: bit_imp_le_length)
  have "push_bit t 1 OR drop_bit (64 - t) F = push_bit t 1 + drop_bit (64 - t) F"
    by (rule disjunctive_add_eq_or [symmetric], subst dt [symmetric], rule bit_word_eqI,
        unfold bit_and_iff bit_push_bit_iff bit_take_bit_iff) auto
  moreover have p: "unat (push_bit t 1 :: u64) = 2 ^ t"
    using assms unat_2p [of t, where 'a = 64] by (simp add: push_bit_eq_mult)
  moreover have "unat (push_bit t 1 :: u64) + unat (drop_bit (64 - t) F) < 2 ^ LENGTH(64)"
  proof -
    have "2 ^ t + (2::nat) ^ t \<le> 2 ^ 64"
      using assms power_increasing [of "Suc t" 64 "2 :: nat"] by simp
    with d p show ?thesis by simp
  qed
  then have "unat (push_bit t 1 + drop_bit (64 - t) F) = unat (push_bit t 1 :: u64) + unat (drop_bit (64 - t) F)"
    by (rule unat_add_lem [THEN iffD1])
  ultimately show ?thesis
    using assms(2) by (simp only: whole_value_def unat_drop_bit_div) simp
qed

lemma whole_value_norm:
  assumes "whole_test neg E F"
  shows "of_nat (unat (whole_value E F)) = norm_val E (unat F)"
proof -
  from assms obtain t where t: "E = int t" "t \<le> 63"
    by (auto simp: whole_test_def intro: that [of "nat E"])
  show ?thesis
  proof (cases "t = 0")
    case True
    with assms t show ?thesis by (simp add: whole_test_def whole_value_def norm_val_def rat_2pow_def)
  next
    case False
    with assms t have "push_bit t F = 0" by (simp add: whole_test_def)
    then have "unat F * 2 ^ t mod 2 ^ 64 = 0" using unat_push_bit [of t F] by simp
    moreover have pw: "(2::nat) ^ 64 = 2 ^ t * 2 ^ (64 - t)" using t(2) by (simp flip: power_add)
    ultimately have "2 ^ t * 2 ^ (64 - t) dvd 2 ^ t * unat F"
      by (metis dvd_eq_mod_eq_0 mult.commute)
    then have "2 ^ (64 - t) dvd unat F" by simp
    then obtain q where q: "unat F = 2 ^ (64 - t) * q" by (elim dvdE)
    have "unat (whole_value E F) = 2 ^ t + q"
      using whole_value_unat [of t F] t False by (simp add: q)
    moreover have pr: "(2::rat) ^ 64 = 2 ^ t * 2 ^ (64 - t)" using t(2) by (simp flip: power_add)
    have "norm_val E (unat F) = 2 ^ t + of_nat q"
      unfolding norm_val_def q t(1) rat_2pow_nat pr by (simp add: field_simps)
    ultimately show ?thesis by simp
  qed
qed

lemma whole_value_sint:
  assumes "whole_test neg E F"
  shows "sint (if neg then 0 - whole_value E F else whole_value E F) =
    (if neg then - int (unat (whole_value E F)) else int (unat (whole_value E F)))"
proof -
  define k where "k = unat (whole_value E F)"
  have w: "whole_value E F = word_of_int (int k)" by (simp add: k_def)
  have m: "if neg then k \<le> 2 ^ 63 else k < 2 ^ 63"
    using assms by (auto simp: k_def whole_test_def whole_value_def word_le_nat_alt Let_def)
  show ?thesis
  proof (cases neg)
    case True
    have "0 - whole_value E F = word_of_int (- int k)" by (simp add: w)
    moreover have "sint (word_of_int (- int k) :: i64) = - int k"
      using m True by (intro sint_word_of_int_64) auto
    ultimately show ?thesis using True by (simp only: if_True k_def [symmetric])
  next
    case False
    have "sint (word_of_int (int k) :: i64) = int k"
      using m False by (intro sint_word_of_int_64) auto
    then show ?thesis using False by (simp only: if_False w [symmetric] k_def [symmetric])
  qed
qed

text \<open>Reading the exponent and fraction back, whether or not they were inverted.\<close>

lemma key_value_magnitude_put:
  assumes "- 1100 \<le> E" "E < 64436"
    and b: "b = (word_of_int (E + EXPONENT_BIAS) :: u64)"
  shows "key_value_magnitude neg (take_bit 16 (if neg then NOT b AND 0xFFFF else b)) (if neg then NOT F else F) =
    (if whole_test neg E F then ser_number (Exact (if neg then 0 - whole_value E F else whole_value E F))
     else let d = double_ldexp (double_one_plus (unat (drop_bit 11 F))) E
          in ser_number (Inexact (if neg then d XOR push_bit 63 1 else d)))"
proof -
  have E: "0 \<le> E + 1100" "E + 1100 < 65536" using assms(1,2) by simp_all
  have "uint (word_of_int k :: u64) = k" if "0 \<le> k" "k < 65536" for k
    using that by (simp add: uint_word_of_int)
  from this [OF E] have "uint b = E + 1100" by (simp add: b EXPONENT_BIAS_def)
  then have "take_bit 16 b = b" using E
    by (simp add: word_uint_eq_iff unsigned_take_bit_eq take_bit_int_eq_self)
  moreover have "NOT (take_bit 16 (NOT b AND 0xFFFF)) AND 0xFFFF = take_bit 16 b"
  proof -
    have f: "x AND 0xFFFF = take_bit 16 x" for x :: u64
      by (simp add: take_bit_eq_mask mask_eq_exp_minus_1)
    show ?thesis unfolding f by (rule bit_word_eqI) (auto simp: bit_simps)
  qed
  ultimately have undo: "(let s = take_bit 16 (if neg then NOT b AND 0xFFFF else b) in if neg then NOT s AND 0xFFFF else s) = b"
    by (simp add: Let_def)
  then show ?thesis
    using \<open>uint b = E + 1100\<close>
    by (auto simp: key_value_magnitude_def Let_def EXPONENT_BIAS_def whole_test_def whole_value_def
        out_double_def serbuf_le_def)
qed

section \<open>The number a magnitude came from\<close>

lemma mag_top:
  assumes "m \<noteq> 0"
  shows "magnitude_top 63 m \<le> 63" "2 ^ magnitude_top 63 m \<le> unat m" "unat m < 2 ^ Suc (magnitude_top 63 m)"
proof -
  have "unat m < 2 ^ Suc 63" using unat_less_2p [of m] by simp
  from magnitude_top_bounds [OF assms this]
  show "magnitude_top 63 m \<le> 63" "2 ^ magnitude_top 63 m \<le> unat m" "unat m < 2 ^ Suc (magnitude_top 63 m)"
    by simp_all
qed

text \<open>An exact integer always passes the whole-number test.\<close>

lemma integer_whole:
  assumes "m \<noteq> 0" "if neg then unat m \<le> 2 ^ 63 else unat m < 2 ^ 63"
  shows "whole_test neg (mag_exp m 0) (mag_frac m)"
proof -
  define t where "t = magnitude_top 63 m"
  have t: "t \<le> 63" "2 ^ t \<le> unat m" "unat m < 2 ^ Suc t"
    using mag_top [OF assms(1)] by (simp_all add: t_def)
  have E: "mag_exp m 0 = int t" by (simp add: mag_exp_def t_def)
  have F: "unat (mag_frac m) = (unat m - 2 ^ t) * 2 ^ (64 - t)"
    using mag_frac_unat [OF assms(1)] by (simp add: t_def)
  have bound: "unat (whole_value (int t) (mag_frac m)) = unat m"
  proof (cases "t = 0")
    case True
    with t show ?thesis by (simp add: whole_value_def)
  next
    case False
    with whole_value_unat [of t "mag_frac m"] t F show ?thesis by simp
  qed
  have zero: "push_bit t (mag_frac m) = 0"
  proof -
    have "(2::nat) ^ (64 - t) * 2 ^ t = 2 ^ 64" using t(1) by (simp flip: power_add)
    then have "unat (mag_frac m) * 2 ^ t = (unat m - 2 ^ t) * 2 ^ 64"
      unfolding F by (simp add: mult.assoc)
    then have "unat (push_bit t (mag_frac m)) = 0" unfolding unat_push_bit by simp
    then show ?thesis by (simp add: unsigned_eq_0_iff)
  qed
  have "mag_frac m = 0" if "t = 0" using zero that by simp
  with zero bound assms(2) t(1) show ?thesis
    unfolding E whole_test_def whole_value_def
    by (auto simp: word_le_nat_alt Let_def split: if_splits)
qed

lemma round_half_even_exact: "round_half_even (n * 2 ^ s) s = n"
  by (simp add: round_half_even_def Let_def)

lemma double_one_plus_even: "double_one_plus (2 * n) = 2 ^ 52 + n"
proof -
  have "2 ^ 53 + 2 * n = (2 ^ 52 + n) * 2 ^ 1" by simp
  then show ?thesis unfolding double_one_plus_def by (simp only: round_half_even_exact)
qed

lemma drop_11:
  assumes "unat F = k * 2 ^ 12"
  shows "unat (drop_bit 11 F) = 2 * k"
  unfolding unat_drop_bit_div assms by simp

lemma double_fields:
  "(word_of_nat (dbl_field bits) :: u64) = take_bit 11 (drop_bit 52 bits)"
  "dbl_frac bits = take_bit 52 bits"
  "dbl_negative bits \<longleftrightarrow> bit bits 63"
proof -
  have "drop_bit 52 bits AND 0x7FF = take_bit 11 (drop_bit 52 bits)"
    by (simp add: take_bit_eq_mask mask_eq_exp_minus_1)
  then show "(word_of_nat (dbl_field bits) :: u64) = take_bit 11 (drop_bit 52 bits)"
    by (simp add: dbl_field_def)
  show "dbl_frac bits = take_bit 52 bits"
    by (simp add: dbl_frac_def take_bit_eq_mask mask_eq_exp_minus_1)
  have "drop_bit 63 bits = of_bool (bit bits 63)"
  proof (rule bit_word_eqI)
    show "bit (drop_bit 63 bits) n = bit (of_bool (bit bits 63)) n" for n
      using bit_imp_le_length [of bits "63 + n"] by (cases n) (auto simp: bit_simps)
  qed
  then show "dbl_negative bits \<longleftrightarrow> bit bits 63" by (simp add: dbl_negative_def)
qed

lemma normal_double:
  assumes "dbl_field bits \<noteq> 0" "dbl_field bits \<noteq> 0x7FF"
  defines "m \<equiv> dbl_frac bits OR push_bit 52 1"
  shows "double_ldexp (double_one_plus (unat (drop_bit 11 (mag_frac m)))) (mag_exp m (int (dbl_field bits) - 1075)) =
    take_bit 63 bits"
proof -
  let ?f = "unat (dbl_frac bits)"
  have f: "?f < 2 ^ 52" by (rule dbl_frac_less)
  have m: "unat m = ?f + 2 ^ 52" unfolding m_def by (rule unat_frac_or)
  then have m0: "m \<noteq> 0" by auto
  have top: "magnitude_top 63 m = 52"
  proof -
    have "2 ^ magnitude_top 63 m < (2::nat) ^ 53" "(2::nat) ^ 52 < 2 ^ Suc (magnitude_top 63 m)"
      using mag_top [OF m0] m f by simp_all
    then have "magnitude_top 63 m < 53" "52 < Suc (magnitude_top 63 m)"
      by (simp_all only: power_strict_increasing_iff)
    then show ?thesis by simp
  qed
  have "unat (mag_frac m) = ?f * 2 ^ 12" using mag_frac_unat [OF m0] by (simp add: top m)
  then have d: "unat (drop_bit 11 (mag_frac m)) = 2 * ?f" by (rule drop_11)
  have E: "mag_exp m (int (dbl_field bits) - 1075) = int (dbl_field bits) - 1023"
    by (simp add: mag_exp_def top)
  have r: "double_ldexp (2 ^ 52 + ?f) (int (dbl_field bits) - 1023) =
      push_bit 52 (word_of_int (int (dbl_field bits))) OR of_nat ?f"
    using f assms(1,2) dbl_field_less [of bits] by (simp add: double_ldexp_def)
  have "push_bit 52 (word_of_nat (dbl_field bits)) OR dbl_frac bits = take_bit 63 bits"
    unfolding double_fields
    by (rule bit_word_eqI) (auto simp: bit_simps)
  then show ?thesis unfolding d double_one_plus_even E r by simp
qed

lemma subnormal_double:
  assumes "dbl_field bits = 0" "dbl_frac bits \<noteq> 0"
  defines "m \<equiv> dbl_frac bits"
  shows "double_ldexp (double_one_plus (unat (drop_bit 11 (mag_frac m)))) (mag_exp m (-1074)) =
    take_bit 63 bits"
proof -
  define t where "t = magnitude_top 63 m"
  have m0: "m \<noteq> 0" using assms(2) by (simp add: m_def)
  have f: "unat m < 2 ^ 52" unfolding m_def by (rule dbl_frac_less)
  have t: "2 ^ t \<le> unat m" "unat m < 2 ^ Suc t" using mag_top [OF m0] by (simp_all add: t_def)
  have "(2::nat) ^ t < 2 ^ 52" using t(1) f by linarith
  then have t52: "t < 52" by (simp only: power_strict_increasing_iff)
  define s where "s = 52 - t"
  have s: "52 = t + s" using t52 by (simp add: s_def)
  have s64: "64 - t = s + 12" using s by simp
  have F: "unat (mag_frac m) = ((unat m - 2 ^ t) * 2 ^ s) * 2 ^ 12"
    using mag_frac_unat [OF m0] by (simp add: t_def [symmetric] s64 power_add)
  have d: "unat (drop_bit 11 (mag_frac m)) = 2 * ((unat m - 2 ^ t) * 2 ^ s)"
    by (rule drop_11 [OF F])
  have pw: "(2::nat) ^ 52 = 2 ^ t * 2 ^ s" using s by (simp flip: power_add)
  have r: "2 ^ 52 + (unat m - 2 ^ t) * 2 ^ s = unat m * 2 ^ s"
    unfolding pw using t(1) by (simp add: diff_mult_distrib)
  have lt: "unat m * 2 ^ s < 2 ^ 53"
  proof -
    have "unat m * 2 ^ s < 2 ^ Suc t * 2 ^ s" using t(2) by simp
    also have "\<dots> = 2 * (2 ^ t * 2 ^ s)" by simp
    also have "\<dots> = 2 ^ 53" unfolding pw [symmetric] by simp
    finally show ?thesis .
  qed
  have E: "mag_exp m (-1074) = int t - 1074" by (simp add: mag_exp_def t_def)
  have n: "nat (52 - int t) = s" using s by simp
  have small: "\<not> - 1022 \<le> int t - 1074" using t52 by simp
  have "double_ldexp (unat m * 2 ^ s) (int t - 1074) = of_nat (unat m)"
    unfolding double_ldexp_def using lt small t52
    by (simp add: Let_def n round_half_even_exact del: power_numeral)
  moreover have "m = take_bit 63 bits"
  proof -
    have z: "take_bit 11 (drop_bit 52 bits) = 0" using double_fields(1) [of bits] assms(1) by simp
    have "bit bits k = False" if "52 \<le> k" "k < 63" for k
    proof -
      have "bit (take_bit 11 (drop_bit 52 bits)) (k - 52) = False" by (simp add: z)
      with that show ?thesis by (simp add: bit_simps)
    qed
    then have "bit bits k \<and> k < 63 \<longleftrightarrow> bit bits k \<and> k < 52" for k
      by (cases "k < 52"; cases "k < 63") auto
    then show ?thesis unfolding m_def double_fields
      by (intro bit_word_eqI) (auto simp: bit_simps)
  qed
  ultimately show ?thesis unfolding d double_one_plus_even E r by simp
qed

text \<open>The two branches of the number case rebuild the number.\<close>

definition magnitude_back :: "bool \<Rightarrow> u64 \<Rightarrow> int \<Rightarrow> number" where
  "magnitude_back neg m e =
     (if whole_test neg (mag_exp m e) (mag_frac m)
      then Exact (if neg then 0 - whole_value (mag_exp m e) (mag_frac m)
                  else whole_value (mag_exp m e) (mag_frac m))
      else let d = double_ldexp (double_one_plus (unat (drop_bit 11 (mag_frac m)))) (mag_exp m e)
           in Inexact (if neg then d XOR push_bit 63 1 else d))"

lemma magnitude_back_whole:
  assumes "m \<noteq> 0" "whole_test neg (mag_exp m e) (mag_frac m)"
  shows "num_val (magnitude_back neg m e) = DFin (signed_rat neg (of_nat (unat m) * rat_2pow e))"
proof -
  let ?w = "whole_value (mag_exp m e) (mag_frac m)"
  have "num_val (magnitude_back neg m e) =
      DFin (of_int (if neg then - int (unat ?w) else int (unat ?w)))"
    using assms(2) by (simp only: magnitude_back_def if_True num_val.simps whole_value_sint [OF assms(2)])
  also have "\<dots> = DFin (signed_rat neg (of_nat (unat ?w)))"
    by (cases neg) (simp_all add: signed_rat_def)
  also have "\<dots> = DFin (signed_rat neg (of_nat (unat m) * rat_2pow e))"
    by (simp only: whole_value_norm [OF assms(2)] mag_value [OF assms(1)])
  finally show ?thesis .
qed

lemma sign_back: "(if dbl_negative bits then take_bit 63 bits XOR push_bit 63 1 else take_bit 63 bits) = bits"
proof (rule bit_word_eqI)
  fix n assume "n < LENGTH(64)"
  then have "n < 63 \<or> n = 63" by auto
  then show "bit (if dbl_negative bits then take_bit 63 bits XOR push_bit 63 1 else take_bit 63 bits) n = bit bits n"
    unfolding double_fields
    by (cases "bit bits 63", simp_all only: if_True if_False bit_xor_iff bit_take_bit_iff bit_push_bit_iff) auto
qed

lemma magnitude_back_value:
  assumes "number_key n = put_magnitude neg m e" "mag_in_range m e"
    and "num_val n = DFin (signed_rat neg (of_nat (unat m) * rat_2pow e))"
    and "\<And>v. n = Exact v \<Longrightarrow> e = 0 \<and> (if neg then unat m \<le> 2 ^ 63 else unat m < 2 ^ 63)"
    and "\<And>bits. n = Inexact bits \<Longrightarrow> neg = dbl_negative bits \<and>
      double_ldexp (double_one_plus (unat (drop_bit 11 (mag_frac m)))) (mag_exp m e) = take_bit 63 bits"
  shows "num_val (magnitude_back neg m e) = num_val n"
proof (cases "whole_test neg (mag_exp m e) (mag_frac m)")
  case True
  with magnitude_back_whole [of m neg e] assms(2,3) show ?thesis by (simp add: mag_in_range_def)
next
  case False
  show ?thesis
  proof (cases n)
    case (Exact v)
    with assms(2,4) integer_whole [of m neg] False show ?thesis by (auto simp: mag_in_range_def)
  next
    case (Inexact bits)
    with assms(5) have "magnitude_back neg m e = Inexact bits"
      using False sign_back [of bits] by (simp add: magnitude_back_def Let_def)
    with Inexact show ?thesis by simp
  qed
qed

text \<open>
  What the component of a number reads back as: a whole number that a 64-bit integer holds exact, every
  NaN as the one quiet NaN, the infinities and every other double bit for bit.
\<close>

definition number_back :: "number \<Rightarrow> number" where
  "number_back n =
     (case num_val n of
        DNaN \<Rightarrow> Inexact 0x7FF8000000000000
      | DInf neg \<Rightarrow> Inexact (if neg then 0xFFF0000000000000 else 0x7FF0000000000000)
      | DFin q \<Rightarrow> if of_int \<lfloor>q\<rfloor> = q \<and> - (2 ^ 63) \<le> \<lfloor>q\<rfloor> \<and> \<lfloor>q\<rfloor> < 2 ^ 63 then Exact (word_of_int \<lfloor>q\<rfloor>) else n)"

text \<open>The whole-number test finds every integer: equal magnitudes have one exponent and fraction.\<close>

lemma whole_complete:
  assumes "m \<noteq> 0" "of_nat (unat m) * rat_2pow e = (of_nat k :: rat)" "0 < k" "if neg then k \<le> 2 ^ 63 else k < 2 ^ 63"
  shows "whole_test neg (mag_exp m e) (mag_frac m)"
proof -
  let ?m = "of_nat k :: u64"
  have len64: "LENGTH(64) = 64" by simp
  have k: "unat ?m = k" using assms(4) by (simp add: unsigned_of_nat take_bit_nat_eq_self split: if_splits)
  then have nz: "?m \<noteq> 0" using assms(3) by auto
  have "norm_val (mag_exp m e) (unat (mag_frac m)) = norm_val (mag_exp ?m 0) (unat (mag_frac ?m))"
    using assms(2) by (simp add: k rat_2pow_def flip: mag_value [OF assms(1)] mag_value [OF nz])
  then have "mag_exp m e = mag_exp ?m 0" "mag_frac m = mag_frac ?m"
    using norm_val_less [OF unat_less_2p [of "mag_frac m", unfolded len64] unat_less_2p [of "mag_frac ?m", unfolded len64], of "mag_exp m e" "mag_exp ?m 0"]
      norm_val_less [OF unat_less_2p [of "mag_frac ?m", unfolded len64] unat_less_2p [of "mag_frac m", unfolded len64], of "mag_exp ?m 0" "mag_exp m e"]
    by (auto simp: word_unat_eq_iff)
  then show ?thesis using integer_whole [OF nz, of neg] assms(4) unfolding k by simp
qed

lemma magnitude_back_number:
  assumes "number_key n = put_magnitude neg m e" "mag_in_range m e"
    and "num_val n = DFin (signed_rat neg (of_nat (unat m) * rat_2pow e))"
    and "\<And>v. n = Exact v \<Longrightarrow> e = 0 \<and> (if neg then unat m \<le> 2 ^ 63 else unat m < 2 ^ 63)"
    and "\<And>bits. n = Inexact bits \<Longrightarrow> neg = dbl_negative bits \<and>
      double_ldexp (double_one_plus (unat (drop_bit 11 (mag_frac m)))) (mag_exp m e) = take_bit 63 bits"
  shows "magnitude_back neg m e = number_back n"
proof (cases "whole_test neg (mag_exp m e) (mag_frac m)")
  case True
  then obtain w where w: "magnitude_back neg m e = Exact w" by (simp add: magnitude_back_def)
  define i where "i = sint w"
  have "num_val n = DFin (of_int i)" using w magnitude_back_value [OF assms] by (simp only: num_val.simps i_def)
  moreover have "word_of_int i = w" "- (2 ^ 63) \<le> i" "i < 2 ^ 63" using sint64_range [of w] by (simp_all add: i_def)
  ultimately show ?thesis by (simp add: w number_back_def)
next
  case False
  define x where "x = of_nat (unat m) * rat_2pow e"
  have m: "m \<noteq> 0" using assms(2) by (simp add: mag_in_range_def)
  then have "unat m \<noteq> 0" by (simp add: unsigned_eq_0_iff)
  then have "(0 :: rat) < of_nat (unat m)" by (simp only: of_nat_0_less_iff)
  then have x: "0 < x" by (simp only: x_def zero_less_mult_iff rat_2pow_pos simp_thms)
  show ?thesis
  proof (cases n)
    case (Exact v)
    with assms(2,4) integer_whole [of m neg] False show ?thesis by (auto simp: mag_in_range_def)
  next
    case (Inexact bits)
    with assms(5) have "magnitude_back neg m e = n"
      using False sign_back [of bits] by (simp add: magnitude_back_def Let_def)
    moreover have "\<not> (of_int \<lfloor>signed_rat neg x\<rfloor> = signed_rat neg x \<and> - (2 ^ 63) \<le> \<lfloor>signed_rat neg x\<rfloor> \<and> \<lfloor>signed_rat neg x\<rfloor> < 2 ^ 63)"
    proof
      assume i: "of_int \<lfloor>signed_rat neg x\<rfloor> = signed_rat neg x \<and> - (2 ^ 63) \<le> \<lfloor>signed_rat neg x\<rfloor> \<and> \<lfloor>signed_rat neg x\<rfloor> < 2 ^ 63"
      define j where "j = (if neg then - \<lfloor>signed_rat neg x\<rfloor> else \<lfloor>signed_rat neg x\<rfloor>)"
      have j: "of_int j = x" using i by (auto simp: j_def signed_rat_def split: if_splits)
      then have "0 < j" using x by (metis of_int_0_less_iff)
      then have "x = of_nat (nat j)" "0 < nat j" using j by simp_all
      moreover have "if neg then nat j \<le> 2 ^ 63 else nat j < 2 ^ 63"
        using i by (auto simp: j_def split: if_splits)
      ultimately show False using whole_complete [OF m, of e "nat j" neg] False by (simp add: x_def)
    qed
    ultimately show ?thesis using assms(3) by (auto simp: number_back_def x_def)
  qed
qed

text \<open>Every number, with the magnitude its key holds.\<close>

lemma number_back_cases:
  obtains (nan) "num_val n = DNaN" "number_key n = [KEY_NAN]"
  | (inf) neg where "num_val n = DInf neg" "number_key n = [if neg then KEY_NEG_INF else KEY_POS_INF]"
  | (zero) "num_val n = DFin 0" "number_key n = [KEY_ZERO]"
  | (mag) neg m e where "mag_in_range m e" "number_key n = put_magnitude neg m e"
      "num_val (magnitude_back neg m e) = num_val n" "magnitude_back neg m e = number_back n"
proof (cases n)
  case (Exact v)
  consider "v = 0" | "v \<noteq> 0" "sint v < 0" | "v \<noteq> 0" "\<not> sint v < 0" by blast
  then show ?thesis
  proof cases
    case 1
    with Exact zero show ?thesis by simp
  next
    case 2
    let ?m = "- (v + 1) + 1"
    have m: "?m \<noteq> 0" using 2(1) by simp
    have u: "int (unat ?m) = - sint v" by (rule unat_negative [OF 2(2)])
    then have r: "of_nat (unat ?m) = (of_int (- sint v) :: rat)" by (metis of_int_of_nat_eq)
    have "int (unat ?m) \<le> 2 ^ 63" unfolding u using sint64_range [of v] by linarith
    then have b: "unat ?m \<le> 2 ^ 63" by (metis of_nat_le_iff of_nat_numeral of_nat_power)
    have k: "number_key n = put_magnitude True ?m 0" using 2 Exact by simp
    have v: "num_val n = DFin (signed_rat True (of_nat (unat ?m) * rat_2pow 0))"
      unfolding r Exact by (simp add: signed_rat_def rat_2pow_def)
    have range: "mag_in_range ?m 0" using m by (rule mag_in_rangeI) simp_all
    have "num_val (magnitude_back True ?m 0) = num_val n \<and> magnitude_back True ?m 0 = number_back n"
      using magnitude_back_value [OF k range v] magnitude_back_number [OF k range v] b Exact by simp
    with mag [OF range k] show ?thesis by blast
  next
    case 3
    have u: "int (unat v) = sint v" by (rule unat_nonneg [OF 3(2)])
    then have r: "of_nat (unat v) = (of_int (sint v) :: rat)" by (metis of_int_of_nat_eq)
    have "int (unat v) < 2 ^ 63" unfolding u using sint64_range [of v] by linarith
    then have b: "unat v < 2 ^ 63" by (metis of_nat_less_iff of_nat_numeral of_nat_power)
    have k: "number_key n = put_magnitude False v 0" using 3 Exact by simp
    have v: "num_val n = DFin (signed_rat False (of_nat (unat v) * rat_2pow 0))"
      unfolding r Exact by (simp add: signed_rat_def rat_2pow_def)
    have range: "mag_in_range v 0" using 3(1) by (rule mag_in_rangeI) simp_all
    have "num_val (magnitude_back False v 0) = num_val n \<and> magnitude_back False v 0 = number_back n"
      using magnitude_back_value [OF k range v] magnitude_back_number [OF k range v] b Exact by simp
    with mag [OF range k] show ?thesis by blast
  qed
next
  case (Inexact bits)
  consider "dbl_field bits = 0x7FF" | "dbl_field bits = 0" "dbl_frac bits = 0"
    | "dbl_field bits = 0" "dbl_frac bits \<noteq> 0" | "dbl_field bits \<noteq> 0x7FF" "dbl_field bits \<noteq> 0" by blast
  then show ?thesis
  proof cases
    case 1
    with Inexact show ?thesis
      by (cases "dbl_frac bits = 0") (auto simp: decode_double_def intro: nan inf)
  next
    case 2
    with Inexact show ?thesis by (intro zero) (simp_all add: decode_double_def dbl_magnitude_def)
  next
    case 3
    let ?m = "dbl_frac bits"
    have k: "number_key n = put_magnitude (dbl_negative bits) ?m (-1074)" using 3 Inexact by simp
    have v: "num_val n = DFin (signed_rat (dbl_negative bits) (of_nat (unat ?m) * rat_2pow (-1074)))"
      using 3 Inexact by (simp add: decode_double_def dbl_magnitude_def signed_rat_def)
    have range: "mag_in_range ?m (-1074)" using 3(2) by (rule mag_in_rangeI) simp_all
    have d: "neg = dbl_negative bits' \<and>
        double_ldexp (double_one_plus (unat (drop_bit 11 (mag_frac ?m)))) (mag_exp ?m (-1074)) = take_bit 63 bits'"
      if "n = Inexact bits'" "neg = dbl_negative bits" for bits' neg
      using that subnormal_double [OF 3] Inexact by simp
    have "num_val (magnitude_back (dbl_negative bits) ?m (-1074)) = num_val n"
      by (rule magnitude_back_value [OF k range v]) (use d Inexact in simp_all)
    moreover have "magnitude_back (dbl_negative bits) ?m (-1074) = number_back n"
      by (rule magnitude_back_number [OF k range v]) (use d Inexact in simp_all)
    ultimately show ?thesis by (rule mag [OF range k])
  next
    case 4
    let ?m = "dbl_frac bits OR push_bit 52 1" and ?e = "int (dbl_field bits) - 1075"
    have m: "?m \<noteq> 0" using unat_frac_or [of bits] by (metis add_is_0 unsigned_0 power_not_zero zero_neq_numeral)
    have k: "number_key n = put_magnitude (dbl_negative bits) ?m ?e" using 4 Inexact by simp
    have "of_nat (unat (dbl_frac bits) + 2 ^ 52) = (of_nat (unat ?m) :: rat)" by (simp only: unat_frac_or)
    then have v: "num_val n = DFin (signed_rat (dbl_negative bits) (of_nat (unat ?m) * rat_2pow ?e))"
      using 4 Inexact by (simp add: decode_double_def dbl_magnitude_def signed_rat_def del: push_bit_of_1)
    have range: "mag_in_range ?m ?e" using m dbl_field_less [of bits] by (intro mag_in_rangeI) simp_all
    have d: "neg = dbl_negative bits' \<and>
        double_ldexp (double_one_plus (unat (drop_bit 11 (mag_frac ?m)))) (mag_exp ?m ?e) = take_bit 63 bits'"
      if "n = Inexact bits'" "neg = dbl_negative bits" for bits' neg
      using that normal_double [OF 4(2,1)] Inexact by simp
    have "num_val (magnitude_back (dbl_negative bits) ?m ?e) = num_val n"
      by (rule magnitude_back_value [OF k range v]) (use d Inexact in simp_all)
    moreover have "magnitude_back (dbl_negative bits) ?m ?e = number_back n"
      by (rule magnitude_back_number [OF k range v]) (use d Inexact in simp_all)
    ultimately show ?thesis by (rule mag [OF range k])
  qed
qed

section \<open>Reading a component\<close>

lemma key_value_number_mag:
  assumes "mag_in_range m e"
  shows "\<exists>b f. put_magnitude neg m e = (if neg then KEY_NEGATIVE else KEY_POSITIVE) # put_be 2 (b::u64) @ put_be 8 f \<and>
    key_value_magnitude neg (take_bit 16 b) f = ser_number (magnitude_back neg m e)"
proof -
  let ?b = "word_of_int (mag_exp m e + EXPONENT_BIAS) :: u64"
  have "put_magnitude neg m e = (if neg then KEY_NEGATIVE else KEY_POSITIVE) #
      put_be 2 (if neg then NOT ?b AND 0xFFFF else ?b) @ put_be 8 (if neg then NOT (mag_frac m) else mag_frac m)"
    by (simp add: put_magnitude_def Let_def mag_frac_def mag_exp_def)
  moreover have "key_value_magnitude neg (take_bit 16 (if neg then NOT ?b AND 0xFFFF else ?b))
      (if neg then NOT (mag_frac m) else mag_frac m) = ser_number (magnitude_back neg m e)"
    using key_value_magnitude_put [OF _ _ refl, of "mag_exp m e" neg "mag_frac m"] assms
    by (simp add: mag_in_range_def magnitude_back_def Let_def)
  ultimately show ?thesis by blast
qed

text \<open>What the component of a value reads back as.\<close>

lemma key_value_eqI:
  assumes "indexable al v"
    and "value_key (fl AND GSQL_KEY_MONEY_TYPED \<noteq> 0) al v = t # k"
  shows "gsql_key_skip (component fl al v @ rest) fl = Some (length (component fl al v))"
    "(component fl al v @ rest) ! 0 XOR key_inversion fl = t"
    "component fl al v @ rest = (t XOR key_inversion fl) # map (\<lambda>b. b XOR key_inversion fl) k @ rest"
  using key_skip_component [OF assms(1), of fl rest] by (simp_all add: component_xor assms(2))

lemma key_value_number:
  "gsql_key_value (component fl al (VNumber n) @ rest) fl out =
      (KEY_OK, out @ ser_number (number_back n), Some (length (component fl al (VNumber n)))) \<and>
   number_order n (number_back n) = 0"
proof (cases n rule: number_back_cases)
  case nan
  have "number_order n (Inexact 0x7FF8000000000000) = 0"
    by (simp add: number_order_key nan key_cmp_def decode_double_def dbl_field_def dbl_frac_def)
  with nan key_value_eqI [of al "VNumber n" fl KEY_NAN "[]" rest] show ?thesis
    by (simp add: gsql_key_value_def serbuf_le_def number_back_def)
next
  case (inf neg)
  let ?b = "if neg then 0xFFF0000000000000 else 0x7FF0000000000000 :: u64"
  have "number_order n (Inexact ?b) = 0"
    by (simp add: number_order_key inf key_cmp_def decode_double_def dbl_field_def dbl_frac_def dbl_negative_def)
  with inf key_value_eqI [of al "VNumber n" fl "if neg then KEY_NEG_INF else KEY_POS_INF" "[]" rest]
  show ?thesis
    by (simp add: gsql_key_value_def serbuf_le_def number_back_def)
next
  case zero
  have "number_order n (Exact 0) = 0" by (simp add: number_order_key zero key_cmp_def)
  with zero key_value_eqI [of al "VNumber n" fl KEY_ZERO "[]" rest] show ?thesis
    by (simp add: gsql_key_value_def serbuf_le_def number_back_def)
next
  case (mag neg m e)
  from key_value_number_mag [OF mag(1), of neg] obtain b :: u64 and f where
    k: "put_magnitude neg m e = (if neg then KEY_NEGATIVE else KEY_POSITIVE) # put_be 2 b @ put_be 8 f"
    and back': "key_value_magnitude neg (take_bit 16 b) f = ser_number (magnitude_back neg m e)" by blast
  let ?x = "key_inversion fl" and ?K = "component fl al (VNumber n) @ rest"
  note key = key_value_eqI [of al "VNumber n" fl "if neg then KEY_NEGATIVE else KEY_POSITIVE"
      "put_be 2 b @ put_be 8 f" rest]
  have K: "?K = ((if neg then KEY_NEGATIVE else KEY_POSITIVE) XOR ?x) #
      map (\<lambda>b. b XOR ?x) (put_be 2 b) @ map (\<lambda>b. b XOR ?x) (put_be 8 f) @ rest"
    using key(3) mag(2) k by simp
  have "key_rd_be (drop 1 ?K) 2 ?x = take_bit 16 b"
    using key_rd_be_put [of ?x 2 b] by (simp add: K)
  moreover have "key_rd_be (drop 3 ?K) 8 ?x = f"
    using key_rd_be_put [of ?x 8 f rest] by (simp add: K take_bit_word_eq_self)
  moreover have "number_order n (magnitude_back neg m e) = 0"
    using mag(3) by (simp add: number_order_key key_cmp_def)
  ultimately show ?thesis
    using key(1,2) mag(2) k back'
    unfolding mag(4) [symmetric] by (cases neg; simp add: gsql_key_value_def)
qed

lemma key_value_string:
  assumes "length s < 2 ^ 64"
  shows "gsql_key_value (component fl al (VString s) @ rest) fl out =
    (KEY_OK, out @ SER_STRING # serbuf_blob s, Some (length (component fl al (VString s))))"
proof -
  note key = key_value_eqI [of al "VString s" fl KEY_STRING "esc s @ [0, 0]" rest]
  have "key_value_text (component fl al (VString s) @ rest) (key_inversion fl)
      (length (component fl al (VString s))) 1 = s"
    using key_value_text_esc [of "[KEY_STRING XOR key_inversion fl]" "key_inversion fl" s rest] key(3) assms
    by (simp add: string_key_def component_xor)
  with key(1,2) assms show ?thesis
    by (simp add: gsql_key_value_def string_key_def serbuf_blob_def serbuf_uleb_def)
qed

definition datetime_back :: "datetime \<Rightarrow> datetime" where
  "datetime_back d = (if time_only d then d\<lparr>year := 0, month := 0, day := 0\<rparr> else d)"

lemma nth_concat_same:
  "list_all (\<lambda>f. length (g f) = n) fs \<Longrightarrow> j < length fs \<Longrightarrow>
   drop (n * j) (concat (map g fs) @ r) = g (fs ! j) @ concat (map g (drop (Suc j) fs)) @ r"
proof (induction fs arbitrary: j)
  case Nil
  then show ?case by simp
next
  case (Cons f fs)
  then show ?case
    by (cases j) (simp_all add: drop_append)
qed

lemma field_back:
  assumes "fits_i32 v"
  shows "ucast (key_rd_be (map (\<lambda>b. b XOR x) (field_bytes v) @ r) 4 x - push_bit 31 1) = (word_of_int v :: u32)"
proof -
  have rd: "key_rd_be (map (\<lambda>b. b XOR x) (field_bytes v) @ r) 4 x =
      take_bit 32 (word_of_int v + push_bit 31 1)"
    using key_rd_be_put [of x 4 "word_of_int v + push_bit 31 1" r] by (simp add: key_put_signed_def)
  have "uint (word_of_int k :: u64) = k" if "0 \<le> k" "k < 2 ^ 32" for k
    using that by (simp add: uint_word_of_int)
  moreover have "0 \<le> v + 2 ^ 31" "v + 2 ^ 31 < 2 ^ 32" using assms by (simp_all add: fits_i32_def)
  ultimately have "uint (word_of_int (v + 2 ^ 31) :: u64) = v + 2 ^ 31" by blast
  then have "take_bit 32 (word_of_int (v + 2 ^ 31) :: u64) = word_of_int (v + 2 ^ 31)"
    using assms by (simp only: word_uint_eq_iff unsigned_take_bit_eq)
      (simp add: take_bit_int_eq_self fits_i32_def)
  with rd have "key_rd_be (map (\<lambda>b. b XOR x) (field_bytes v) @ r) 4 x - push_bit 31 1 = word_of_int v"
    by simp
  moreover have "ucast (word_of_int v :: u64) = (word_of_int v :: u32)"
    by (rule bit_word_eqI) (simp add: bit_simps)
  ultimately show ?thesis by (simp only:)
qed

lemma key_value_datetime_ser:
  assumes "datetime_ok d"
  shows "key_value_datetime (map (\<lambda>b. b XOR x) (datetime_key_bytes d) @ rest) x = ser_datetime (datetime_back d)"
proof -
  define fs where "fs = datetime_fields d"
  define k where "k = (if time_only d then 3 else 6 :: nat)"
  define p where "p = (word_of_int (precision d) :: byte)"
  have fits: "list_all fits_i32 fs" using assms by (auto simp: fs_def datetime_fields_def datetime_ok_def)
  have len: "length fs = k" by (simp add: fs_def datetime_fields_def k_def)
  let ?g = "\<lambda>v. map (\<lambda>b. b XOR x) (field_bytes v)"
  let ?K = "map (\<lambda>b. b XOR x) (datetime_key_bytes d) @ rest"
  have K: "?K = (KEY_DATETIME XOR x) # ((if time_only d then 1 else 0) XOR x) #
      concat (map ?g fs) @ (p XOR x) # rest"
    by (simp add: datetime_key_bytes_def fs_def p_def map_concat comp_def)
  have g4: "list_all (\<lambda>f. length (?g f) = 4) fs" by (simp add: list_all_iff)
  have rd: "ucast (key_rd_be (drop (2 + 4 * j) ?K) 4 x - push_bit 31 1) = (word_of_int (fs ! j) :: u32)"
    if "j < k" for j
  proof -
    have "drop (2 + 4 * j) ?K = ?g (fs ! j) @ concat (map ?g (drop (Suc j) fs)) @ (p XOR x) # rest"
      using nth_concat_same [OF g4, of j "(p XOR x) # rest"] that len by (simp add: K)
    moreover have "fits_i32 (fs ! j)" using fits that len by (simp add: list_all_length)
    ultimately show ?thesis by (simp only: field_back)
  qed
  have "map (\<lambda>j. ucast (key_rd_be (drop (2 + 4 * j) ?K) 4 x - push_bit 31 1) :: u32) [0..<k] =
      map (\<lambda>j. word_of_int (fs ! j)) [0..<k]"
  proof (rule map_cong [OF refl])
    fix j assume "j \<in> set [0..<k]"
    then have "j < k" by simp
    then show "ucast (key_rd_be (drop (2 + 4 * j) ?K) 4 x - push_bit 31 1) = (word_of_int (fs ! j) :: u32)"
      by (rule rd)
  qed
  also have "\<dots> = map word_of_int fs"
    by (rule nth_equalityI) (simp_all add: len)
  finally have read: "map (\<lambda>j. ucast (key_rd_be (drop (2 + 4 * j) ?K) 4 x - push_bit 31 1) :: u32) [0..<k] =
      map word_of_int fs" .
  have "length (concat (map ?g fs)) = 4 * k"
    using g4 len by (simp add: length_concat comp_def sum_list_triv)
  then have last: "?K ! (2 + 4 * k) XOR x = p"
    by (simp add: K nth_append)
  have to: "?K ! 1 XOR x = (if time_only d then 1 else 0)"
    by (simp add: K)
  have k: "(if (if time_only d then 1 else 0 :: byte) \<noteq> 0 then 3 else 6) = k" by (simp add: k_def)
  have "key_value_datetime ?K x = [SER_DATETIME] @ concat (map (put_le 4) (replicate (6 - k) 0 @ map word_of_int fs :: u32 list)) @
      [if time_only d then 1 else 0] @ [p]"
    unfolding key_value_datetime_def Let_def to k read last ..
  also have "\<dots> = ser_datetime (datetime_back d)"
    by (cases "time_only d")
      (simp_all add: k_def fs_def p_def datetime_fields_def ser_datetime_def datetime_back_def
        serbuf_i32_def serbuf_le_def eval_nat_numeral)
  finally show ?thesis .
qed

lemma key_value_date:
  assumes "datetime_ok d"
  shows "gsql_key_value (component fl al (VDatetime d) @ rest) fl out =
    (KEY_OK, out @ ser_datetime (datetime_back d), Some (length (component fl al (VDatetime d))))"
proof -
  obtain k where k: "datetime_key_bytes d = KEY_DATETIME # k" by (simp add: datetime_key_bytes_def)
  note key = key_value_eqI [of al "VDatetime d" fl KEY_DATETIME k rest]
  have "key_value_datetime (component fl al (VDatetime d) @ rest) (key_inversion fl) = ser_datetime (datetime_back d)"
    using key_value_datetime_ser [OF assms] by (simp add: component_xor)
  with key(1,2) assms k show ?thesis by (simp add: gsql_key_value_def)
qed

text \<open>What every value reads back as, and that it is the same key.\<close>

definition value_back :: "val \<Rightarrow> val" where
  "value_back v =
     (case v of
        VNull \<Rightarrow> VUnknown
      | VNumber n \<Rightarrow> VNumber (number_back n)
      | VDatetime d \<Rightarrow> VDatetime (datetime_back d)
      | _ \<Rightarrow> v)"

definition reads_back :: "(u16 \<Rightarrow> bytes option) \<Rightarrow> val \<Rightarrow> val \<Rightarrow> bytes \<Rightarrow> bool" where
  "reads_back al v v' bs \<longleftrightarrow> indexable al v' \<and> value_order False al v v' = 0 \<and>
     (\<forall>c. serialize_value 0 v' c = Inr (bs, c))"

lemma key_value_component:
  assumes "indexable al v" "\<And>m. v \<noteq> VMoney m"
  shows "\<exists>bs. reads_back al v (value_back v) bs \<and>
    gsql_key_value (component fl al v @ rest) fl out = (KEY_OK, out @ bs, Some (length (component fl al v)))"
proof (cases v)
  case (VNumber n)
  with key_value_number [of fl al n rest out] show ?thesis
    by (auto simp: reads_back_def value_back_def value_order_same serialize_value.simps)
next
  case (VString s)
  with key_value_string [of s fl al rest out] assms(1) show ?thesis
    by (auto simp: reads_back_def value_back_def value_order_same serialize_value.simps string_compare_bytes_cmp
        bytes_cmp_eq_0)
next
  case (VDatetime d)
  have "datetime_compare_exact d (datetime_back d) = 0" "datetime_ok (datetime_back d)"
    using assms(1) VDatetime
    by (auto simp: datetime_back_def datetime_compare_exact_def compare_ints_def datetime_ok_def fits_i32_def)
  with VDatetime key_value_date [of d fl al rest out] assms(1) show ?thesis
    by (auto simp: reads_back_def value_back_def value_order_same serialize_value.simps)
next
  case (VBool b)
  have "gsql_key_value (component fl al v @ rest) fl out =
      (KEY_OK, out @ [SER_BOOL, if b then 1 else 0], Some (length (component fl al v)))"
    using key_value_eqI [of al v fl KEY_BOOL "[if b then 1 else 0]" rest] VBool
    by (cases b) (simp_all add: gsql_key_value_def)
  with VBool show ?thesis
    by (auto simp: reads_back_def value_back_def value_order_same int_cmp_def serialize_value.simps)
next
  case VNull
  have "gsql_key_value (component fl al v @ rest) fl out = (KEY_OK, out @ [SER_UNKNOWN], Some (length (component fl al v)))"
    using key_value_eqI [of al v fl KEY_ABSENT "[]" rest] VNull by (simp add: gsql_key_value_def)
  with VNull show ?thesis
    by (auto simp: reads_back_def value_back_def value_order_absent serialize_value.simps)
next
  case VUnknown
  have "gsql_key_value (component fl al v @ rest) fl out = (KEY_OK, out @ [SER_UNKNOWN], Some (length (component fl al v)))"
    using key_value_eqI [of al v fl KEY_ABSENT "[]" rest] VUnknown by (simp add: gsql_key_value_def)
  with VUnknown show ?thesis
    by (auto simp: reads_back_def value_back_def value_order_absent serialize_value.simps)
qed (use assms in auto)

lemma key_value_money:
  assumes "indexable al (VMoney m)"
  shows "gsql_key_value (component fl al (VMoney m) @ rest) fl out = (KEY_NOT_INDEXABLE, out, None)"
proof -
  let ?ty = "fl AND GSQL_KEY_MONEY_TYPED \<noteq> 0"
  obtain k where k: "value_key ?ty al (VMoney m) = (if ?ty then KEY_MONEY_TYPED else KEY_MONEY) # k"
    by (cases ?ty) (simp_all add: money_key_def money_group_def)
  from key_value_eqI(1,2) [OF assms k, of rest] show ?thesis
    by (cases ?ty) (simp_all add: gsql_key_value_def)
qed

lemma key_value_same_key:
  assumes "indexable al v" "reads_back al v v' bs" "\<And>m. v \<noteq> VMoney m"
  shows "component fl al v' = component fl al v"
proof -
  have "value_order ty al v v' = 0" for ty
  proof -
    have "value_order ty al v v' = value_order False al v v'"
      using assms(3) by (cases v) (auto simp: value_order_def)
    with assms(2) show ?thesis by (simp add: reads_back_def)
  qed
  then have "value_key ty al v' = value_key ty al v" for ty
    using value_codec.enc_eq_iff [OF assms(1), of v' ty] assms(2) by (auto simp: reads_back_def)
  then show ?thesis by (simp add: component_def)
qed

text \<open>C5. Reading a component back gives a known value: a number that is a whole number of 64 bits signed
  comes back as that exact integer, whichever way it was stored (minus zero as 0); every NaN as the one quiet NaN, and the
  infinities and every other double bit for bit; null and unknown as unknown; a time without its date
  fields; truth values, strings and date-times as they are. That value orders equal to the one the
  component was written from, and encoding it again gives the same component. Money alone is refused,
  and then nothing is appended.\<close>

theorem key_value_inverts_append:
  assumes "serialize_value 0 v c = Inr (bs, c')" "indexable (alpha_of c) v"
    and "gsql_key_append [] bs fl = (KEY_OK, key, used)"
  shows "if \<exists>m. v = VMoney m then gsql_key_value (key @ rest) fl out = (KEY_NOT_INDEXABLE, out, None)
    else \<exists>bs'. serialize_value 0 (value_back v) c = Inr (bs', c) \<and>
      gsql_key_value (key @ rest) fl out = (KEY_OK, out @ bs', Some (length key)) \<and>
      value_order False (alpha_of c) v (value_back v) = 0 \<and>
      gsql_key_append [] bs' fl = (KEY_OK, key, Some (length bs'))"
proof -
  let ?al = "alpha_of c"
  have key: "key = component fl ?al v"
    using key_append_serialized [OF assms(1,2), of "[]" "[]" fl] assms(3) by simp
  show ?thesis
  proof (cases "\<exists>m. v = VMoney m")
    case True
    with key_value_money assms(2) show ?thesis by (auto simp: key)
  next
    case False
    with key_value_component [OF assms(2), of fl rest out] obtain bs' where
      r: "reads_back ?al v (value_back v) bs'" "gsql_key_value (key @ rest) fl out = (KEY_OK, out @ bs', Some (length key))"
      by (auto simp: key)
    have same: "component fl ?al (value_back v) = key"
      using key_value_same_key [OF assms(2) r(1)] False key by blast
    have s: "serialize_value 0 (value_back v) c = Inr (bs', c)" "indexable ?al (value_back v)"
      "value_order False ?al v (value_back v) = 0" using r(1) by (simp_all add: reads_back_def)
    have "gsql_key_append [] bs' fl = (KEY_OK, key, Some (length bs'))"
      using key_append_serialized [OF s(1,2), of "[]" "[]" fl] same by simp
    with r(2) s False show ?thesis by auto
  qed
qed

text \<open>The double 5.0, read back as the integer 5.\<close>

theorem key_value_inverts_append_witness:
  "gsql_key_value (number_key (Inexact 0x4014000000000000) @ [9]) 0 [] = (KEY_OK, ser_number (Exact 5), Some 11)"
proof -
  let ?v = "VNumber (Inexact 0x4014000000000000)"
  have s: "serialize_value 0 ?v demo_ctx = Inr (ser_number (Inexact 0x4014000000000000), demo_ctx)"
    by (simp add: serialize_value.simps SER_MAX_DEPTH_def)
  have i: "indexable (alpha_of demo_ctx) ?v" by simp
  have "gsql_key_append [] (ser_number (Inexact 0x4014000000000000)) 0 =
      (KEY_OK, number_key (Inexact 0x4014000000000000), Some (length (ser_number (Inexact 0x4014000000000000))))"
    using key_append_serialized [OF s i, of "[]" "[]" 0] by (simp add: component_def Let_def)
  from key_value_inverts_append [OF s i this, of "[9]" "[]"]
  obtain bs' where b: "serialize_value 0 (value_back ?v) demo_ctx = Inr (bs', demo_ctx)"
    "gsql_key_value (number_key (Inexact 0x4014000000000000) @ [9]) 0 [] = (KEY_OK, bs', Some (length (number_key (Inexact 0x4014000000000000))))"
    by auto
  have "number_back (Inexact 0x4014000000000000) = Exact 5"
    by (simp add: number_back_def decode_double_def dbl_field_def dbl_frac_def dbl_negative_def dbl_magnitude_def rat_2pow_def)
  then have "bs' = ser_number (Exact 5)"
    using b(1) by (simp add: value_back_def serialize_value.simps SER_MAX_DEPTH_def)
  moreover have "length (number_key (Inexact 0x4014000000000000)) = 11" by code_simp
  ultimately show ?thesis using b(2) by simp
qed

end
