(* ===== verification/Wire.thy ===== *)
theory Wire
  imports V3_Codec
begin

text \<open>
  \<^verbatim>\<open>src/gsql/wire.c\<close>: the frames of the client protocol, their reassembly from a stream
  delivered in pieces of any size, and the names of its messages and errors. The reader is its
  buffer and the position of the first byte not yet consumed; a frame's body is copied out where
  the code borrows it until the next call.

  The abstraction of a reader is the bytes it has not consumed. The lemmas show that what comes
  out of a reader depends on the bytes fed and not on how they were cut into pieces, and that
  frames written by \<^verbatim>\<open>gsql_frame_put\<close> come out as they went in.
\<close>

section \<open>Names\<close>

definition msg_names :: "string list" where
  "msg_names = [''?'', ''HELLO'', ''WELCOME'', ''REFUSED'', ''QUERY'', ''ROWS'', ''FETCH'', ''CLOSE'',
     ''PREPARE'', ''PREPARED'', ''BEGIN'', ''COMMIT'', ''ROLLBACK'', ''CANCEL'', ''DONE'', ''PING'',
     ''PONG'', ''BYE'', ''ERROR'']"

definition GSQL_M_LAST :: int where
  "GSQL_M_LAST = 18"

definition gsql_msg_name :: "int \<Rightarrow> string" where
  "gsql_msg_name type = (if type < 1 \<or> GSQL_M_LAST < type then ''?'' else msg_names ! nat type)"

text \<open>The table layer's codes, \<^verbatim>\<open>code_names\<close> of \<^verbatim>\<open>src/gsql/table.c\<close>.\<close>

definition code_names :: "string list" where
  "code_names = [''OK'', ''NOT_FOUND'', ''EXISTS'', ''DUPLICATE'', ''NOT_NULL'', ''TYPE'', ''SCHEMA'',
     ''CORRUPT'', ''STORAGE'', ''MISUSE'']"

definition gsql_code_name :: "int \<Rightarrow> string" where
  "gsql_code_name code =
     (if code < 0 \<or> int (length code_names) \<le> code then ''?'' else code_names ! nat code)"

definition wire_names :: "string list" where
  "wire_names = [''PROTOCOL'', ''VERSION'', ''TOO_LARGE'', ''CANCELLED'', ''UNSUPPORTED'', ''STATE'',
     ''READ_ONLY'', ''FAILED'', ''TIMEOUT'', ''LOST'', ''NO_OWNER'', ''SYNTAX'', ''EXPRESSION'',
     ''FOREIGN_KEY'', ''CHECK'', ''SERIAL'', ''ELSEWHERE'']"

definition GSQL_OK :: int where "GSQL_OK = 0"
definition GSQL_MISUSE :: int where "GSQL_MISUSE = 9"
definition GSQL_PROTOCOL :: int where "GSQL_PROTOCOL = 10"
definition GSQL_CODE_LAST :: int where "GSQL_CODE_LAST = 26"

definition gsql_error_name :: "int \<Rightarrow> string" where
  "gsql_error_name code =
     (if GSQL_PROTOCOL \<le> code \<and> code \<le> GSQL_CODE_LAST then wire_names ! nat (code - GSQL_PROTOCOL)
      else gsql_code_name code)"

text \<open>A C loop \<^verbatim>\<open>for (c = from; c <= to; c++) if (name_of(c) is name) return c\<close>.\<close>

fun first_code :: "(int \<Rightarrow> string) \<Rightarrow> string \<Rightarrow> int list \<Rightarrow> int option" where
  "first_code name_of name [] = None"
| "first_code name_of name (c # cs) = (if name_of c = name then Some c else first_code name_of name cs)"

definition gsql_error_code :: "string \<Rightarrow> int" where
  "gsql_error_code name =
     (case first_code gsql_code_name name [GSQL_OK..GSQL_MISUSE] of
        Some c \<Rightarrow> c
      | None \<Rightarrow>
          (case first_code (\<lambda>c. wire_names ! nat (c - GSQL_PROTOCOL)) name [GSQL_PROTOCOL..GSQL_CODE_LAST] of
             Some c \<Rightarrow> c
           | None \<Rightarrow> -1))"

section \<open>Frames\<close>

definition GSQL_FRAME_HEADER :: nat where "GSQL_FRAME_HEADER = 9"
definition GSQL_FRAME_MAX :: nat where "GSQL_FRAME_MAX = 16 * 2 ^ 20"

record gsql_frame =
  ftype :: byte
  frame_id :: u32
  body :: bytes

record gsql_reader =
  rin :: bytes
  rpos :: nat

datatype read_status = READ_FRAME gsql_frame | READ_MORE | READ_SHORT | READ_TOO_LARGE

text \<open>\<^verbatim>\<open>type\<close> is an unsigned of which one byte is written.\<close>

definition gsql_frame_put :: "bytes \<Rightarrow> byte \<Rightarrow> u32 \<Rightarrow> bytes \<Rightarrow> bytes" where
  "gsql_frame_put out type ident bs =
     out @ put_le 4 (of_nat (length bs) + 5 :: u64) @ [type] @ put_le 4 ident @ bs"

definition le32 :: "bytes \<Rightarrow> u32" where
  "le32 p = ucast (p ! 0) OR push_bit 8 (ucast (p ! 1)) OR push_bit 16 (ucast (p ! 2)) OR
     push_bit 24 (ucast (p ! 3))"

definition reader_compact :: "gsql_reader \<Rightarrow> gsql_reader" where
  "reader_compact r = (if rpos r = 0 then r else r\<lparr>rin := drop (rpos r) (rin r), rpos := 0\<rparr>)"

definition gsql_reader_feed :: "gsql_reader \<Rightarrow> bytes \<Rightarrow> gsql_reader" where
  "gsql_reader_feed r bs = (let r = reader_compact r in r\<lparr>rin := rin r @ bs\<rparr>)"

definition gsql_reader_next :: "gsql_reader \<Rightarrow> read_status \<times> gsql_reader" where
  "gsql_reader_next r =
     (let r = reader_compact r;
          have = length (rin r)
      in if have < 4 then (READ_MORE, r)
         else let len = unat (le32 (rin r))
              in if len < 5 then (READ_SHORT, r)
                 else if GSQL_FRAME_MAX < len then (READ_TOO_LARGE, r)
                 else if have - 4 < len then (READ_MORE, r)
                 else (READ_FRAME \<lparr>ftype = rin r ! 4, frame_id = le32 (drop 5 (rin r)),
                                   body = peek GSQL_FRAME_HEADER (len - 5) (rin r)\<rparr>,
                       r\<lparr>rpos := 4 + len\<rparr>))"

definition gsql_reader_pending :: "gsql_reader \<Rightarrow> nat" where
  "gsql_reader_pending r = length (rin r) - rpos r"

definition gsql_reader_free :: "gsql_reader \<Rightarrow> gsql_reader" where
  "gsql_reader_free r = \<lparr>rin = [], rpos = 0\<rparr>"

section \<open>A reader is the bytes it has not consumed\<close>

definition unread :: "gsql_reader \<Rightarrow> bytes" where
  "unread r = drop (rpos r) (rin r)"

definition reader_ok :: "gsql_reader \<Rightarrow> bool" where
  "reader_ok r \<longleftrightarrow> rpos r \<le> length (rin r)"

text \<open>The next frame of a byte string: what \<^verbatim>\<open>gsql_reader_next\<close> answers and leaves.\<close>

definition next_frame :: "bytes \<Rightarrow> read_status \<times> bytes" where
  "next_frame s =
     (if length s < 4 then (READ_MORE, s)
      else let len = unat (le32 s)
           in if len < 5 then (READ_SHORT, s)
              else if GSQL_FRAME_MAX < len then (READ_TOO_LARGE, s)
              else if length s < 4 + len then (READ_MORE, s)
              else (READ_FRAME \<lparr>ftype = s ! 4, frame_id = le32 (drop 5 s), body = take (len - 5) (drop 9 s)\<rparr>,
                    drop (4 + len) s))"

lemma compact_abs: "rin (reader_compact r) = unread r" "rpos (reader_compact r) = 0"
  by (simp_all add: reader_compact_def unread_def)

lemma feed_abs: "unread (gsql_reader_feed r bs) = unread r @ bs" "reader_ok (gsql_reader_feed r bs)"
  by (simp_all add: gsql_reader_feed_def Let_def unread_def reader_ok_def compact_abs [unfolded unread_def])

lemma next_abs:
  "fst (gsql_reader_next r) = fst (next_frame (unread r))"
  "unread (snd (gsql_reader_next r)) = snd (next_frame (unread r))"
  "reader_ok (snd (gsql_reader_next r))"
proof -
  obtain s where s: "reader_compact r = \<lparr>rin = s, rpos = 0\<rparr>" "unread r = s"
    using compact_abs [of r] by (metis gsql_reader.surjective old.unit.exhaust)
  show "fst (gsql_reader_next r) = fst (next_frame (unread r))"
    "unread (snd (gsql_reader_next r)) = snd (next_frame (unread r))"
    "reader_ok (snd (gsql_reader_next r))"
    by (auto simp: gsql_reader_next_def next_frame_def s(1) Let_def unread_def reader_ok_def
        peek_def GSQL_FRAME_HEADER_def s(2) [unfolded unread_def])
qed

lemma next_frame_shorter: "next_frame s = (READ_FRAME f, t) \<Longrightarrow> length t + 9 \<le> length s"
  by (auto simp: next_frame_def Let_def split: if_splits)

lemma reader_next_shorter:
  assumes "gsql_reader_next r = (READ_FRAME f, r')"
  shows "length (unread r') < length (unread r)"
proof -
  have "next_frame (unread r) = (READ_FRAME f, unread r')"
    using next_abs(1,2) [of r] assms by (metis prod.collapse fst_conv snd_conv)
  from next_frame_shorter [OF this] show ?thesis by simp
qed

text \<open>The loop every user runs: frames until there is none.\<close>

function drain :: "gsql_reader \<Rightarrow> gsql_frame list \<times> read_status \<times> gsql_reader" where
  "drain r =
     (case gsql_reader_next r of
        (READ_FRAME f, r') \<Rightarrow> (case drain r' of (fs, st, r'') \<Rightarrow> (f # fs, st, r''))
      | (st, r') \<Rightarrow> ([], st, r'))"
  by pat_completeness auto

termination
  by (relation "measure (length \<circ> unread)") (auto dest: reader_next_shorter [OF sym])

declare drain.simps [simp del]

text \<open>What a connection does with the pieces it receives, until the stream is beyond repair.\<close>

fun feed_all :: "gsql_reader \<Rightarrow> bytes list \<Rightarrow> gsql_frame list \<times> read_status \<times> gsql_reader" where
  "feed_all r [] = ([], READ_MORE, r)"
| "feed_all r (c # cs) =
     (case drain (gsql_reader_feed r c) of
        (fs, READ_MORE, r') \<Rightarrow> (case feed_all r' cs of (gs, st, r'') \<Rightarrow> (fs @ gs, st, r''))
      | (fs, st, r') \<Rightarrow> (fs, st, r'))"

section \<open>The frames of a stream\<close>

function frames :: "bytes \<Rightarrow> gsql_frame list \<times> read_status \<times> bytes" where
  "frames s =
     (case next_frame s of
        (READ_FRAME f, t) \<Rightarrow> (case frames t of (fs, st, u) \<Rightarrow> (f # fs, st, u))
      | (st, t) \<Rightarrow> ([], st, t))"
  by pat_completeness auto

termination
  by (relation "measure length") (auto dest: next_frame_shorter [OF sym])

declare frames.simps [simp del]

lemma drain_frames:
  "frames (unread r) = (fst (drain r), fst (snd (drain r)), unread (snd (snd (drain r))))"
proof (induction r rule: drain.induct)
  case (1 r)
  obtain st r' where n: "gsql_reader_next r = (st, r')" by force
  then have a: "next_frame (unread r) = (st, unread r')"
    using next_abs(1,2) [of r] by (metis prod.collapse fst_conv snd_conv)
  show ?case
  proof (cases st)
    case (READ_FRAME f)
    with 1 n a show ?thesis
      by (simp add: frames.simps [of "unread r"] drain.simps [of r] split_def)
  qed (simp_all add: n a frames.simps [of "unread r"] drain.simps [of r])
qed

lemma le32_append [simp]: "4 \<le> length s \<Longrightarrow> le32 (s @ t) = le32 s"
proof -
  assume "4 \<le> length s"
  then have "(s @ t) ! i = s ! i" if "i < 4" for i using that by (simp add: nth_append)
  from this [of 0] this [of 1] this [of 2] this [of 3] show ?thesis by (simp add: le32_def)
qed

lemma next_frame_append:
  "next_frame s = (READ_FRAME f, u) \<Longrightarrow> next_frame (s @ t) = (READ_FRAME f, u @ t)"
  "next_frame s = (READ_SHORT, u) \<Longrightarrow> next_frame (s @ t) = (READ_SHORT, u @ t)"
  "next_frame s = (READ_TOO_LARGE, u) \<Longrightarrow> next_frame (s @ t) = (READ_TOO_LARGE, u @ t)"
  by (auto simp: next_frame_def Let_def nth_append split: if_splits)

lemma next_frame_more: "next_frame s = (READ_MORE, u) \<Longrightarrow> u = s"
  by (auto simp: next_frame_def Let_def split: if_splits)

lemma frames_append:
  "frames (s @ t) =
     (case frames s of
        (fs, READ_MORE, rest) \<Rightarrow> (case frames (rest @ t) of (gs, st, u) \<Rightarrow> (fs @ gs, st, u))
      | (fs, st, rest) \<Rightarrow> (fs, st, rest @ t))"
proof (induction s rule: frames.induct)
  case (1 s)
  obtain st u where n: "next_frame s = (st, u)" by force
  show ?case
  proof (cases st)
    case (READ_FRAME f)
    with n next_frame_append(1) [of s f u t] 1 show ?thesis
      by (auto simp: frames.simps [of s] frames.simps [of "s @ t"] split: prod.splits read_status.splits)
  next
    case READ_MORE
    with n next_frame_more [of s u] show ?thesis
      by (simp add: frames.simps [of s])
  next
    case READ_SHORT
    with n next_frame_append(2) [of s u t] show ?thesis
      by (simp add: frames.simps [of s] frames.simps [of "s @ t"])
  next
    case READ_TOO_LARGE
    with n next_frame_append(3) [of s u t] show ?thesis
      by (simp add: frames.simps [of s] frames.simps [of "s @ t"])
  qed
qed

lemma frames_status: "frames s = (fs, st, u) \<Longrightarrow> st \<noteq> READ_FRAME f"
proof (induction s arbitrary: fs rule: frames.induct)
  case (1 s)
  then show ?case
    by (auto simp: frames.simps [of s] split: prod.splits read_status.splits)
qed

lemma frames_more_rest: "frames s = (fs, READ_MORE, u) \<Longrightarrow> frames u = ([], READ_MORE, u)"
proof (induction s arbitrary: fs rule: frames.induct)
  case (1 s)
  obtain st v where n: "next_frame s = (st, v)" by force
  show ?case
  proof (cases st)
    case (READ_FRAME f)
    with 1 n show ?thesis by (auto simp: frames.simps [of s] split: prod.splits)
  next
    case READ_MORE
    with 1(2) n next_frame_more [of s v] show ?thesis by (simp add: frames.simps [of s])
  qed (use 1(2) n in \<open>auto simp: frames.simps [of s]\<close>)
qed

text \<open>Feeding pieces is parsing what is left over followed by all of them.\<close>

lemma feed_all_frames:
  assumes "frames (unread r) = ([], READ_MORE, unread r)" "feed_all r cs = (fs, st, r')"
  shows "\<exists>rest. frames (unread r @ concat cs) = (fs, st, rest) \<and> (st = READ_MORE \<longrightarrow> rest = unread r')"
  using assms
proof (induction cs arbitrary: r fs st r')
  case Nil
  then show ?case by simp
next
  case (Cons c cs)
  let ?r = "gsql_reader_feed r c"
  obtain gs st1 r1 where d: "drain ?r = (gs, st1, r1)" by (metis prod_cases3)
  then have f: "frames (unread r @ c) = (gs, st1, unread r1)"
    using drain_frames [of ?r] by (simp add: feed_abs)
  show ?case
  proof (cases "st1 = READ_MORE")
    case True
    obtain hs st2 r2 where h: "feed_all r1 cs = (hs, st2, r2)" by (metis prod_cases3)
    with Cons.IH [OF frames_more_rest [OF f [unfolded True]] h] obtain rest where
      "frames (unread r1 @ concat cs) = (hs, st2, rest)" "st2 = READ_MORE \<longrightarrow> rest = unread r2" by blast
    with Cons.prems(2) d h True frames_append [of "unread r @ c" "concat cs"] f show ?thesis
      by auto
  next
    case False
    with Cons.prems(2) d frames_append [of "unread r @ c" "concat cs"] f frames_status [OF f] show ?thesis
      by (cases st1) auto
  qed
qed

definition fresh_reader :: gsql_reader where
  "fresh_reader = \<lparr>rin = [], rpos = 0\<rparr>"

lemma fresh_frames [simp]: "unread fresh_reader = []" "frames [] = ([], READ_MORE, [])"
  by (simp_all add: fresh_reader_def unread_def frames.simps next_frame_def)

section \<open>What was put comes out\<close>

definition frame_ok :: "gsql_frame \<Rightarrow> bool" where
  "frame_ok f \<longleftrightarrow> length (body f) + 5 \<le> GSQL_FRAME_MAX"

definition frame_bytes :: "gsql_frame \<Rightarrow> bytes" where
  "frame_bytes f = gsql_frame_put [] (ftype f) (frame_id f) (body f)"

lemma gsql_frame_put_bytes: "gsql_frame_put out (ftype f) (frame_id f) (body f) = out @ frame_bytes f"
  by (simp add: frame_bytes_def gsql_frame_put_def)

lemma list4: "length b = 4 \<Longrightarrow> \<exists>x y z w. b = [x, y, z, w]"
  by (auto simp: length_Suc_conv eval_nat_numeral)

lemma le32_get_le: "length b = 4 \<Longrightarrow> le32 (b @ s) = get_le b"
  by (drule list4) (auto simp: le32_def get_le_Cons intro!: bit_word_eqI simp: bit_simps)

lemma le32_put: "le32 (put_le 4 (v::'a::len word) @ s) = get_le (put_le 4 v)"
  by (rule le32_get_le) simp

lemma get_le_put_le_narrow: "(get_le (put_le 4 (v::u64)) :: u32) = ucast v"
proof -
  have "(get_le (put_le w (u::u64)) :: u32) = take_bit (8 * w) (ucast u)" for w u
  proof (induction w arbitrary: u)
    case 0
    then show ?case by simp
  next
    case (Suc w)
    show ?case
      by (simp add: put_le_Suc get_le_Cons Suc.IH)
        (rule bit_word_eqI, auto simp: bit_simps)
  qed
  from this [of 4 v] show ?thesis by (simp add: take_bit_word_eq_self)
qed

lemma next_frame_put:
  assumes "frame_ok f"
  shows "next_frame (frame_bytes f @ s) = (READ_FRAME f, s)"
proof -
  let ?n = "length (body f)"
  have n: "?n + 5 \<le> 16777216" using assms by (simp add: frame_ok_def GSQL_FRAME_MAX_def)
  then have u: "unat (ucast (word_of_nat ?n + 5 :: u64) :: u32) = ?n + 5"
  proof -
    have "word_of_nat ?n + 5 = (word_of_nat (?n + 5) :: u64)" by simp
    then show ?thesis using n
      by (simp only: unsigned_ucast_eq unsigned_of_nat) (simp add: take_bit_nat_eq_self)
  qed
  have e: "frame_bytes f @ s = put_le 4 (of_nat ?n + 5 :: u64) @ ftype f # put_le 4 (frame_id f) @ body f @ s"
    by (simp add: frame_bytes_def gsql_frame_put_def)
  have l: "unat (le32 (frame_bytes f @ s)) = ?n + 5"
    unfolding e le32_put get_le_put_le_narrow by (rule u)
  have i: "le32 (drop 5 (frame_bytes f @ s)) = frame_id f"
    unfolding e by (simp add: le32_put drop_append drop_Cons')
  define h where "h = put_le 4 (of_nat ?n + 5 :: u64) @ ftype f # put_le 4 (frame_id f)"
  have h: "frame_bytes f @ s = h @ body f @ s" "length h = 9" "h ! 4 = ftype f"
    unfolding e by (simp_all add: h_def nth_append)
  show ?thesis
    using l i n unfolding h(1)
    by (simp add: next_frame_def Let_def GSQL_FRAME_MAX_def h(2,3) nth_append)
qed

lemma frames_put: "list_all frame_ok fs \<Longrightarrow> frames (concat (map frame_bytes fs)) = (fs, READ_MORE, [])"
  by (induction fs) (simp_all add: frames.simps [of "frame_bytes _ @ _"] next_frame_put)

section \<open>The properties\<close>

text \<open>C7. The frames a connection reads and the status it ends in depend on the stream alone, not on the
  pieces it was delivered in; and so does, as long as the reader is not stopped by a bad frame (the status
  is still \<open>READ_MORE\<close>), how many bytes stay pending.\<close>

theorem reassembly_ignores_chunks:
  assumes "concat cs = concat ds"
    and "feed_all fresh_reader cs = (fs, st, r)" and "feed_all fresh_reader ds = (gs, st', r')"
  shows "fs = gs \<and> st = st' \<and> (st = READ_MORE \<longrightarrow> gsql_reader_pending r = gsql_reader_pending r')"
proof -
  have pend: "gsql_reader_pending x = length (unread x)" for x
    by (simp add: gsql_reader_pending_def unread_def)
  from feed_all_frames [OF _ assms(2)] feed_all_frames [OF _ assms(3)] assms(1)
  show ?thesis by (auto simp: pend)
qed

theorem reassembly_ignores_chunks_witness:
  "fst (feed_all fresh_reader [[6, 0], [0, 0, 15, 1, 0, 0], [0, 42]]) =
   fst (feed_all fresh_reader [[6, 0, 0, 0, 15, 1, 0, 0, 0, 42]])"
  using reassembly_ignores_chunks [of "[[6, 0], [0, 0, 15, 1, 0, 0], [0, 42]]" "[[6, 0, 0, 0, 15, 1, 0, 0, 0, 42]]"]
  by (metis prod.collapse concat.simps append.simps)

text \<open>C3. Frames written one after the other and delivered in any pieces whatever come out as they
  went in, in order and complete, with nothing left over.\<close>

theorem frames_survive_the_wire:
  assumes "list_all frame_ok fs"
    and "concat cs = foldl (\<lambda>out f. gsql_frame_put out (ftype f) (frame_id f) (body f)) [] fs"
  shows "\<exists>r. feed_all fresh_reader cs = (fs, READ_MORE, r) \<and> gsql_reader_pending r = 0"
proof -
  have "foldl (\<lambda>out f. gsql_frame_put out (ftype f) (frame_id f) (body f)) o' fs = o' @ concat (map frame_bytes fs)" for o'
    by (induction fs arbitrary: o') (simp_all add: gsql_frame_put_bytes)
  with assms(2) have c: "concat cs = concat (map frame_bytes fs)" by simp
  obtain gs st r where f: "feed_all fresh_reader cs = (gs, st, r)" by (metis prod_cases3)
  have pend: "gsql_reader_pending r = length (unread r)"
    by (simp add: gsql_reader_pending_def unread_def)
  from feed_all_frames [OF _ f] frames_put [OF assms(1)] c show ?thesis
    by (auto simp: f pend)
qed

theorem frames_survive_the_wire_witness:
  "\<exists>r. feed_all fresh_reader [[6, 0], [0, 0, 15, 1, 0, 0], [0, 42]] =
     ([\<lparr>ftype = 15, frame_id = 1, body = [42]\<rparr>], READ_MORE, r) \<and> gsql_reader_pending r = 0"
  by (rule frames_survive_the_wire)
    (simp_all add: frame_ok_def GSQL_FRAME_MAX_def gsql_frame_put_def put_le_def upt_conv_Cons)

lemma error_codes_list: "[GSQL_OK..GSQL_CODE_LAST] = [0, 1, 2, 3, 4, 5, 6, 7, 8, 9, 10, 11, 12, 13, 14, 15, 16,
    17, 18, 19, 20, 21, 22, 23, 24, 25, 26]"
  by (simp add: GSQL_OK_def GSQL_CODE_LAST_def upto.simps)

lemma error_names_known: "list_all (\<lambda>c. gsql_error_code (gsql_error_name c) = c) [GSQL_OK..GSQL_CODE_LAST]"
  unfolding error_codes_list list.pred_inject by (intro conjI TrueI; code_simp)

lemma error_code_unknown: "gsql_error_code ''?'' = -1"
  by code_simp

text \<open>An error crosses the wire as its name: every code either layer can raise comes back as
  itself, and anything else comes back as -1.\<close>

theorem error_names_round_trip:
  "gsql_error_code (gsql_error_name c) = (if GSQL_OK \<le> c \<and> c \<le> GSQL_CODE_LAST then c else -1)"
proof (cases "GSQL_OK \<le> c \<and> c \<le> GSQL_CODE_LAST")
  case True
  then have "c \<in> set [GSQL_OK..GSQL_CODE_LAST]" by simp
  with error_names_known have "gsql_error_code (gsql_error_name c) = c" by (simp only: list_all_iff)
  with True show ?thesis by simp
next
  case False
  then have "gsql_error_name c = ''?''"
    by (auto simp: gsql_error_name_def gsql_code_name_def code_names_def GSQL_OK_def GSQL_CODE_LAST_def
        GSQL_PROTOCOL_def)
  with False show ?thesis by (auto simp: error_code_unknown)
qed

text \<open>A length no frame can have is refused as soon as its four bytes are there, whatever follows.\<close>

theorem bad_length_refused_at_once:
  assumes "4 \<le> length (unread r)" "unat (le32 (unread r)) < 5 \<or> GSQL_FRAME_MAX < unat (le32 (unread r))"
  shows "fst (gsql_reader_next (gsql_reader_feed r bs)) \<in> {READ_SHORT, READ_TOO_LARGE}"
proof -
  have "fst (gsql_reader_next (gsql_reader_feed r bs)) = fst (next_frame (unread r @ bs))"
    by (simp add: next_abs feed_abs)
  with assms show ?thesis by (auto simp: next_frame_def Let_def)
qed

theorem bad_length_refused_at_once_witness:
  "fst (gsql_reader_next (gsql_reader_feed \<lparr>rin = [4, 0, 0, 0], rpos = 0\<rparr> [1, 2])) \<in> {READ_SHORT, READ_TOO_LARGE}"
  by (rule bad_length_refused_at_once) (simp_all add: unread_def le32_def)

end
