(* ===== verification/Version.thy ===== *)
theory Version
  imports Store_Common "HOL-Library.AList"
begin

text \<open>
  \<^verbatim>\<open>src/gsql/version.c\<close>: the version store, the history G-SQL keeps of temporal columns, over any
  storage engine. The engine is the vtable \<^verbatim>\<open>GsEngine\<close> of \<^verbatim>\<open>include/gsql_store.h\<close>: the record
  \<open>gs_engine\<close> of the operations this file calls, on a transaction of type \<open>'t\<close> and cursors of
  type \<open>'c\<close>. What the file relies on of it is the locale \<open>ordered_engine\<close>. Buffers are byte
  lists, so the out-of-memory branches of \<^verbatim>\<open>GsBuf\<close> are not in the model.
\<close>

section \<open>The engine\<close>

record ('t, 'c) gs_engine =
  e_put :: "'t \<Rightarrow> bytes \<Rightarrow> bytes \<Rightarrow> bytes \<Rightarrow> u32 \<Rightarrow> gs_status \<times> 't"
  e_tree_create :: "'t \<Rightarrow> bytes \<Rightarrow> gs_status \<times> 't"
  e_cursor_open :: "'t \<Rightarrow> bytes \<Rightarrow> gs_status + 'c"
  e_seek :: "'c \<Rightarrow> bytes \<Rightarrow> gs_seek \<Rightarrow> gs_status \<times> 'c \<times> bool"
  e_key :: "'c \<Rightarrow> gs_status + bytes"
  e_value :: "'c \<Rightarrow> gs_status + bytes"
  e_txn_id :: "('t \<Rightarrow> gs_status + u64) option"

section \<open>Keys and records\<close>

definition HIST_NAME :: bytes where
  "HIST_NAME = [0, 0x68, 0x69, 0x73, 0x74, 0x6F, 0x72, 0x79]"

definition TIME_NAME :: bytes where
  "TIME_NAME = [0, 0x63, 0x6F, 0x6D, 0x6D, 0x69, 0x74, 0x74, 0x69, 0x6D, 0x65]"

definition V_REMOVED :: byte where "V_REMOVED = 1"
definition V_HDR :: nat where "V_HDR = 13"

record gsql_stamp =
  s_start :: u64
  s_second :: u64
  s_author :: u32

definition hist_prefix :: "bytes \<Rightarrow> bytes \<Rightarrow> u32 \<Rightarrow> bytes" where
  "hist_prefix table row column =
     varint_put (of_nat (length table)) @ table @ varint_put (of_nat (length row)) @ row @
     varint_put (ucast column)"

definition hist_key :: "bytes \<Rightarrow> bytes \<Rightarrow> u32 \<Rightarrow> u64 \<Rightarrow> bytes" where
  "hist_key table row column start = hist_prefix table row column @ put_be 8 start"

lemma names_fit: "length HIST_NAME \<le> GS_MAX_KEY" "length TIME_NAME \<le> GS_MAX_KEY"
  by (simp_all add: HIST_NAME_def TIME_NAME_def GS_MAX_KEY_def)

section \<open>Operations\<close>

definition put_creating :: "('t, 'c) gs_engine \<Rightarrow> 't \<Rightarrow> bytes \<Rightarrow> bytes \<Rightarrow> bytes \<Rightarrow> gs_status \<times> 't" where
  "put_creating e w tree key val =
     (let (rc, w) = e_put e w tree key val 0
      in if rc = GS_NOT_FOUND then
           let (rc, w) = e_tree_create e w tree
           in if rc = GS_OK then e_put e w tree key val 0 else (rc, w)
         else (rc, w))"

text \<open>The status, and the record found when there is one.\<close>

definition floor_of :: "('t, 'c) gs_engine \<Rightarrow> 't \<Rightarrow> bytes \<Rightarrow> bytes \<Rightarrow> gs_status \<times> (bytes \<times> bytes) option" where
  "floor_of e t tree key =
     (case e_cursor_open e t tree of
        Inl rc \<Rightarrow> (if rc = GS_NOT_FOUND then GS_OK else rc, None)
      | Inr c \<Rightarrow>
          (let (rc, c, pos) = e_seek e c key SEEK_LE
           in if rc = GS_OK \<and> pos then
                (case e_key e c of
                   Inl rc \<Rightarrow> (rc, None)
                 | Inr kb \<Rightarrow> (case e_value e c of Inl rc \<Rightarrow> (rc, None) | Inr vb \<Rightarrow> (GS_OK, Some (kb, vb))))
              else (rc, None)))"

definition gsql_version_at :: "('t, 'c) gs_engine \<Rightarrow> 't \<Rightarrow> u64 \<Rightarrow> gs_status \<times> u64" where
  "gsql_version_at e t sec =
     (let (rc, found) = floor_of e t TIME_NAME (put_be 8 sec)
      in case found of
           Some (k, v) \<Rightarrow>
             if rc = GS_OK then
               if length k \<noteq> 8 \<or> length v \<noteq> 8 then (GS_CORRUPT, 0) else (GS_OK, get_le v)
             else (rc, 0)
         | None \<Rightarrow> (rc, 0))"

definition gsql_version_begin ::
    "('t, 'c) gs_engine \<Rightarrow> 't \<Rightarrow> u64 \<Rightarrow> u32 \<Rightarrow> (gs_status + gsql_stamp) \<times> 't" where
  "gsql_version_begin e w sec author =
     (case e_txn_id e of
        None \<Rightarrow> (Inl GS_MISUSE, w)
      | Some txn_id \<Rightarrow>
          (case txn_id w of
             Inl rc \<Rightarrow> (Inl rc, w)
           | Inr ident \<Rightarrow>
               let (rc, found) = floor_of e w TIME_NAME (replicate 8 0xFF);
                   (rc, sec) =
                     (case found of
                        Some (k, v) \<Rightarrow>
                          if rc = GS_OK then
                            if length k \<noteq> 8 then (GS_CORRUPT, sec)
                            else if sec < get_be k then (rc, get_be k) else (rc, sec)
                          else (rc, sec)
                      | None \<Rightarrow> (rc, sec))
               in if rc \<noteq> GS_OK then (Inl rc, w)
                  else let (rc, w) = put_creating e w TIME_NAME (put_be 8 sec) (put_le 8 ident)
                  in if rc \<noteq> GS_OK then (Inl rc, w)
                  else let (rc, w) =
                         (case e_cursor_open e w HIST_NAME of
                            Inl rc \<Rightarrow> if rc = GS_NOT_FOUND then e_tree_create e w HIST_NAME else (rc, w)
                          | Inr c \<Rightarrow> (GS_OK, w))
                  in if rc \<noteq> GS_OK then (Inl rc, w)
                     else (Inr \<lparr>s_start = ident, s_second = sec, s_author = author\<rparr>, w)))"

definition put_version ::
    "('t, 'c) gs_engine \<Rightarrow> 't \<Rightarrow> bytes \<Rightarrow> bytes \<Rightarrow> u32 \<Rightarrow> u64 \<Rightarrow> byte \<Rightarrow> u64 \<Rightarrow> u32 \<Rightarrow> bytes \<Rightarrow> gs_status \<times> 't" where
  "put_version e w table row column start flgs sec author val =
     put_creating e w HIST_NAME (hist_key table row column start)
       ([flgs] @ put_le 8 sec @ put_le 4 author @ val)"

definition gsql_version_keep ::
    "('t, 'c) gs_engine \<Rightarrow> 't \<Rightarrow> bytes \<Rightarrow> bytes \<Rightarrow> u32 \<Rightarrow> gsql_stamp \<Rightarrow> bytes \<Rightarrow> gsql_stamp \<Rightarrow> gs_status \<times> 't" where
  "gsql_version_keep e w table row column was old now =
     (if s_start now \<le> s_start was then (GS_OK, w)
      else put_version e w table row column (s_start was) 0 (s_second was) (s_author was) old)"

definition gsql_version_remove ::
    "('t, 'c) gs_engine \<Rightarrow> 't \<Rightarrow> bytes \<Rightarrow> bytes \<Rightarrow> u32 \<Rightarrow> gsql_stamp \<Rightarrow> gs_status \<times> 't" where
  "gsql_version_remove e w table row column now =
     put_version e w table row column (s_start now) V_REMOVED (s_second now) (s_author now) []"

text \<open>The search of \<^verbatim>\<open>gsql_version_asof\<close> below the current value: another column's history, or a time
  before this column's first version, is not found.\<close>

definition version_before ::
    "('t, 'c) gs_engine \<Rightarrow> 't \<Rightarrow> bytes \<Rightarrow> bytes \<Rightarrow> u32 \<Rightarrow> u64 \<Rightarrow> gs_status + gsql_stamp \<times> bytes" where
  "version_before e t table row column asof =
     (let key = hist_key table row column asof;
          (rc, found) = floor_of e t HIST_NAME key
      in if rc \<noteq> GS_OK then Inl rc
         else case found of
                None \<Rightarrow> Inl GS_NOT_FOUND
              | Some (k, v) \<Rightarrow>
                  if length k \<noteq> length key \<or> memcmp k key (length key - 8) \<noteq> 0 then Inl GS_NOT_FOUND
                  else if length v < V_HDR then Inl GS_CORRUPT
                  else if v ! 0 AND V_REMOVED \<noteq> 0 then Inl GS_NOT_FOUND
                  else Inr (\<lparr>s_start = get_be (drop (length k - 8) k), s_second = get_le (peek 1 8 v),
                             s_author = get_le (peek 9 4 v)\<rparr>, drop V_HDR v))"

definition gsql_version_asof ::
    "('t, 'c) gs_engine \<Rightarrow> 't \<Rightarrow> bytes \<Rightarrow> bytes \<Rightarrow> u32 \<Rightarrow> u64 \<Rightarrow> gsql_stamp option \<Rightarrow> bytes \<Rightarrow>
     gs_status + gsql_stamp \<times> bytes" where
  "gsql_version_asof e t table row column asof cur cur_value =
     (case cur of
        Some c \<Rightarrow> if s_start c \<le> asof then Inr (c, cur_value) else
          version_before e t table row column asof
      | None \<Rightarrow> version_before e t table row column asof)"

section \<open>What the file relies on\<close>

text \<open>\<open>(k', v)\<close> is the greatest record at or below \<open>k\<close>.\<close>

definition floor_entry :: "(bytes \<rightharpoonup> bytes) \<Rightarrow> bytes \<Rightarrow> bytes \<Rightarrow> bytes \<Rightarrow> bool" where
  "floor_entry m k k' v \<longleftrightarrow>
     m k' = Some v \<and> bytes_cmp k' k \<le> 0 \<and> (\<forall>k'' \<in> dom m. bytes_cmp k'' k \<le> 0 \<longrightarrow> bytes_cmp k'' k' \<le> 0)"

text \<open>A write transaction is a map from tree names to ordered trees: a put with no flags stores, a
  missing tree is reported as such, for keys and names the engine takes; a cursor's \<^verbatim>\<open>GS_SEEK_LE\<close> finds the floor, and the id of the
  transaction does not change while it writes.\<close>

locale ordered_engine =
  fixes e :: "('t, 'c) gs_engine" and trees :: "'t \<Rightarrow> bytes \<Rightarrow> (bytes \<rightharpoonup> bytes) option"
    and ident :: "'t \<Rightarrow> u64"
  assumes put_there: "trees t nm = Some m \<Longrightarrow> length k \<le> GS_MAX_KEY \<Longrightarrow>
      \<exists>t'. e_put e t nm k v 0 = (GS_OK, t') \<and> trees t' = (trees t)(nm \<mapsto> m(k \<mapsto> v)) \<and> ident t' = ident t"
    and put_missing: "trees t nm = None \<Longrightarrow> length nm \<le> GS_MAX_KEY \<Longrightarrow> length k \<le> GS_MAX_KEY \<Longrightarrow>
      e_put e t nm k v 0 = (GS_NOT_FOUND, t)"
    and create_missing: "trees t nm = None \<Longrightarrow> length nm \<le> GS_MAX_KEY \<Longrightarrow>
      \<exists>t'. e_tree_create e t nm = (GS_OK, t') \<and> trees t' = (trees t)(nm \<mapsto> Map.empty) \<and> ident t' = ident t"
    and open_missing: "trees t nm = None \<Longrightarrow> length nm \<le> GS_MAX_KEY \<Longrightarrow> e_cursor_open e t nm = Inl GS_NOT_FOUND"
    and open_there: "trees t nm = Some m \<Longrightarrow> length k \<le> GS_MAX_KEY \<Longrightarrow> \<exists>c. e_cursor_open e t nm = Inr c \<and>
      ((\<forall>k' \<in> dom m. 0 < bytes_cmp k' k) \<and> (\<exists>c'. e_seek e c k SEEK_LE = (GS_OK, c', False)) \<or>
       (\<exists>c' k' v. e_seek e c k SEEK_LE = (GS_OK, c', True) \<and> e_key e c' = Inr k' \<and> e_value e c' = Inr v \<and>
         floor_entry m k k' v))"
    and id_known: "\<exists>f. e_txn_id e = Some f \<and> f t = Inr (ident t)"
begin

lemma put_creating_stores:
  assumes "length k \<le> GS_MAX_KEY" "length nm \<le> GS_MAX_KEY"
  shows "\<exists>t'. put_creating e t nm k v = (GS_OK, t') \<and> ident t' = ident t \<and>
    trees t' = (trees t)(nm \<mapsto> (case trees t nm of None \<Rightarrow> Map.empty | Some m \<Rightarrow> m)(k \<mapsto> v))"
proof (cases "trees t nm")
  case None
  from create_missing [OF None assms(2)] obtain t1 where t1: "e_tree_create e t nm = (GS_OK, t1)"
    "trees t1 = (trees t)(nm \<mapsto> Map.empty)" "ident t1 = ident t" by blast
  then have "trees t1 nm = Some Map.empty" by simp
  from put_there [OF this assms(1), of v] t1 put_missing [OF None assms(2,1), of v] None show ?thesis
    by (auto simp: put_creating_def)
next
  case (Some m)
  from put_there [OF Some assms(1), of v] Some show ?thesis by (auto simp: put_creating_def)
qed

lemma floor_of_missing: "trees t nm = None \<Longrightarrow> length nm \<le> GS_MAX_KEY \<Longrightarrow> floor_of e t nm k = (GS_OK, None)"
  by (simp add: floor_of_def open_missing)

lemma floor_of_there:
  assumes "trees t nm = Some m" "length k \<le> GS_MAX_KEY"
  shows "(\<forall>k' \<in> dom m. 0 < bytes_cmp k' k) \<and> floor_of e t nm k = (GS_OK, None) \<or>
    (\<exists>k' v. floor_entry m k k' v \<and> floor_of e t nm k = (GS_OK, Some (k', v)))"
  using open_there [OF assms] by (auto simp: floor_of_def)

end

section \<open>The keys of a column\<close>

lemma bytes_cmp_same_prefix [simp]: "bytes_cmp (p @ x) (p @ y) = bytes_cmp x y"
  by (induction p) (simp_all add: bytes_cmp_Cons)

lemma bytes_cmp_be: "bytes_cmp (put_be 8 (a::u64)) (put_be 8 b) \<le> 0 \<longleftrightarrow> a \<le> b"
proof -
  have lt: "byte_lt (put_be 8 x) (put_be 8 y) \<longleftrightarrow> x < y" for x y :: u64
    by (simp add: byte_lt_be_nat word_less_nat_alt)
  have "bytes_cmp z z = 0" for z by (simp add: bytes_cmp_eq_0)
  then show ?thesis
    using bytes_cmp_byte_lt [of "put_be 8 a" "put_be 8 b"] bytes_cmp_byte_lt [of "put_be 8 b" "put_be 8 a"]
      bytes_cmp_swap [of "put_be 8 a" "put_be 8 b"] lt [of a b] lt [of b a]
    by (cases a b rule: linorder_cases) auto
qed

text \<open>Between two strings that begin alike every string begins so.\<close>

lemma bytes_between:
  "bytes_cmp (p @ x) k \<le> 0 \<Longrightarrow> bytes_cmp k (p @ y) \<le> 0 \<Longrightarrow> \<exists>z. k = p @ z"
proof (induction p arbitrary: k)
  case Nil
  then show ?case by simp
next
  case (Cons c p)
  then obtain d k' where k: "k = d # k'" by (cases k) auto
  with Cons.prems have "c = d" "bytes_cmp (p @ x) k' \<le> 0" "bytes_cmp k' (p @ y) \<le> 0"
    by (auto simp: bytes_cmp_Cons split: if_splits)
  with Cons.IH [of k'] k show ?case by simp
qed

lemma hist_prefix_inject:
  assumes "length t < 2 ^ 64" "length r < 2 ^ 64" "length t' < 2 ^ 64" "length r' < 2 ^ 64"
    and "hist_prefix t r c @ x = hist_prefix t' r' c' @ y"
  shows "t = t' \<and> r = r' \<and> c = c' \<and> x = y"
proof -
  have len: "length a = length b" if "(word_of_nat (length a) :: u64) = word_of_nat (length b)"
    "length a < 2 ^ 64" "length b < 2 ^ 64" for a b :: bytes
  proof -
    from that(1) have "unat (word_of_nat (length a) :: u64) = unat (word_of_nat (length b) :: u64)" by simp
    with that(2,3) show ?thesis by (simp add: unsigned_of_nat take_bit_nat_eq_self)
  qed
  from assms(5) have 1: "varint_put (of_nat (length t)) @ t @ varint_put (of_nat (length r)) @ r @ varint_put (ucast c) @ x =
      varint_put (of_nat (length t')) @ t' @ varint_put (of_nat (length r')) @ r' @ varint_put (ucast c') @ y"
    by (simp add: hist_prefix_def)
  from varint.put_inject [OF _ _ 1] have "(word_of_nat (length t) :: u64) = word_of_nat (length t')"
    and 2: "t @ varint_put (of_nat (length r)) @ r @ varint_put (ucast c) @ x =
      t' @ varint_put (of_nat (length r')) @ r' @ varint_put (ucast c') @ y" by simp_all
  with len [of t t'] assms(1,3) have "length t = length t'" by simp
  with 2 have t: "t = t'" and 3: "varint_put (of_nat (length r)) @ r @ varint_put (ucast c) @ x =
      varint_put (of_nat (length r')) @ r' @ varint_put (ucast c') @ y" by simp_all
  from varint.put_inject [OF _ _ 3] have "(word_of_nat (length r) :: u64) = word_of_nat (length r')"
    and 4: "r @ varint_put (ucast c) @ x = r' @ varint_put (ucast c') @ y" by simp_all
  with len [of r r'] assms(2,4) have "length r = length r'" by simp
  with 4 have r: "r = r'" and 5: "varint_put (ucast c) @ x = varint_put (ucast c') @ y" by simp_all
  from varint.put_inject [OF _ _ 5] have "(ucast c :: u64) = ucast c'" "x = y" by simp_all
  then have "unat (ucast c :: u64) = unat (ucast c' :: u64)" by simp
  then have "c = c'" by (simp add: unsigned_ucast_eq word_unat_eq_iff take_bit_nat_eq_self
        order.strict_trans [OF unsigned_less])
  with t r \<open>x = y\<close> show ?thesis by simp
qed

text \<open>A column's address, and its kept versions by the id they start at.\<close>

type_synonym col = "bytes \<times> bytes \<times> u32"

definition col_key :: "col \<Rightarrow> u64 \<Rightarrow> bytes" where
  "col_key a s = (case a of (t, r, c) \<Rightarrow> hist_key t r c s)"

definition col_ok :: "col \<Rightarrow> bool" where
  "col_ok a \<longleftrightarrow> (case a of (t, r, c) \<Rightarrow> length (col_key a 0) \<le> GS_MAX_KEY)"

definition kept :: "(bytes \<rightharpoonup> bytes) \<Rightarrow> col \<Rightarrow> u64 \<rightharpoonup> bytes" where
  "kept m a s = m (col_key a s)"

definition wf_history :: "(bytes \<rightharpoonup> bytes) \<Rightarrow> bool" where
  "wf_history m \<longleftrightarrow> (\<forall>k \<in> dom m. \<exists>a s. col_ok a \<and> k = col_key a s)"

lemma col_key_length: "length (col_key a s) = length (col_key a 0)"
  by (simp add: col_key_def hist_key_def split: prod.splits)

lemma col_ok_lengths: "col_ok (t, r, c) \<Longrightarrow> length t < 2 ^ 64 \<and> length r < 2 ^ 64"
  by (simp add: col_ok_def col_key_def hist_key_def hist_prefix_def GS_MAX_KEY_def)

lemma put_be_8_inject: "put_be 8 (a::u64) = put_be 8 b \<longleftrightarrow> a = b"
  by (metis bytes_cmp_be bytes_cmp_eq_0 order_antisym order_refl)

lemma col_key_inject:
  assumes "col_ok a" "col_ok b"
  shows "col_key a s = col_key b u \<longleftrightarrow> a = b \<and> s = u"
proof -
  obtain t r c t' r' c' where ab: "a = (t, r, c)" "b = (t', r', c')" by (metis prod_cases3)
  show ?thesis
    using hist_prefix_inject [of t r t' r' c "put_be 8 s" c' "put_be 8 u"]
      col_ok_lengths [of t r c] col_ok_lengths [of t' r' c'] assms
    by (auto simp: ab col_key_def hist_key_def put_be_8_inject)
qed

text \<open>The floor of a column's key lands in the column exactly when it has a version that old.\<close>

lemma floor_in_column:
  assumes "wf_history m" "col_ok a" "floor_entry m (col_key a x) k v" "kept m a s \<noteq> None" "s \<le> x"
  shows "\<exists>u. k = col_key a u \<and> kept m a u = Some v \<and> u \<le> x \<and> (\<forall>w. kept m a w \<noteq> None \<longrightarrow> w \<le> x \<longrightarrow> w \<le> u)"
proof -
  obtain t r c where a: "a = (t, r, c)" by (metis prod_cases3)
  let ?p = "hist_prefix t r c"
  have key: "col_key a z = ?p @ put_be 8 z" for z by (simp add: a col_key_def hist_key_def)
  have k: "m k = Some v" "bytes_cmp k (?p @ put_be 8 x) \<le> 0"
    and greatest: "\<And>k''. k'' \<in> dom m \<Longrightarrow> bytes_cmp k'' (?p @ put_be 8 x) \<le> 0 \<Longrightarrow> bytes_cmp k'' k \<le> 0"
    using assms(3) by (auto simp: floor_entry_def key)
  have at_most: "bytes_cmp (col_key a w) k \<le> 0" if "kept m a w \<noteq> None" "w \<le> x" for w
    using greatest [of "col_key a w"] that by (auto simp: kept_def key bytes_cmp_be)
  from bytes_between [OF _ k(2), of "put_be 8 s"] at_most [OF assms(4,5)] obtain z where z: "k = ?p @ z"
    by (auto simp: key)
  obtain b u where b: "col_ok b" "k = col_key b u"
    using assms(1) [unfolded wf_history_def] domI [of m k, OF k(1)] by blast
  obtain t' r' c' where b': "b = (t', r', c')" by (metis prod_cases3)
  have "a = b \<and> z = put_be 8 u"
    using hist_prefix_inject [of t r t' r' c z c' "put_be 8 u"] col_ok_lengths [of t r c]
      col_ok_lengths [of t' r' c'] assms(2) b z
    by (auto simp: a b' col_key_def hist_key_def)
  then have u: "k = col_key a u" using b by simp
  with k have "kept m a u = Some v" "u \<le> x" by (simp_all add: kept_def key bytes_cmp_be)
  moreover have "w \<le> u" if "kept m a w \<noteq> None" "w \<le> x" for w
    using at_most [OF that] by (simp add: u key bytes_cmp_be)
  ultimately show ?thesis using u by blast
qed

lemma floor_outside_column:
  assumes "col_ok a" "floor_entry m (col_key a x) k v" "\<And>s. s \<le> x \<Longrightarrow> kept m a s = None"
  shows "length k \<noteq> length (col_key a x) \<or> memcmp k (col_key a x) (length (col_key a x) - 8) \<noteq> 0"
proof (rule ccontr)
  assume "\<not> ?thesis"
  then have len: "length k = length (col_key a x)"
    and mem: "memcmp k (col_key a x) (length (col_key a x) - 8) = 0" by auto
  obtain t r c where a: "a = (t, r, c)" by (metis prod_cases3)
  let ?p = "hist_prefix t r c"
  have key: "col_key a z = ?p @ put_be 8 z" for z by (simp add: a col_key_def hist_key_def)
  have "take (length ?p) k = ?p"
    using mem len by (simp add: key memcmp_zero_iff)
  then obtain z where z: "k = ?p @ z" by (metis append_take_drop_id)
  with len have "length z = 8" by (simp add: key)
  then have "z = put_be 8 (get_be z :: u64)"
    using put_le_get_le [of "rev z" 8, where 'a = 64] by (simp add: put_be_rev get_be_rev rev_swap)
  then obtain u where u: "k = col_key a u" using z key by metis
  with assms(2) have "kept m a u = Some v" "u \<le> x" by (auto simp: floor_entry_def kept_def key bytes_cmp_be)
  with assms(3) show False by auto
qed

section \<open>Records\<close>

definition version_record :: "gsql_stamp \<Rightarrow> bytes option \<Rightarrow> bytes" where
  "version_record st v =
     [case v of Some _ \<Rightarrow> 0 | None \<Rightarrow> V_REMOVED] @ put_le 8 (s_second st) @ put_le 4 (s_author st) @
     (case v of Some bs \<Rightarrow> bs | None \<Rightarrow> [])"

lemma record_fields:
  "length (version_record st v) \<ge> V_HDR"
  "peek 1 8 (version_record st v) = put_le 8 (s_second st)"
  "peek 9 4 (version_record st v) = put_le 4 (s_author st)"
  "drop V_HDR (version_record st (Some bs)) = bs"
  by (simp_all add: version_record_def V_HDR_def peek_def drop_append drop_Cons')

context ordered_engine
begin

text \<open>What a search below the current value answers, from the versions kept.\<close>

lemma version_before_kept:
  assumes "trees t HIST_NAME = Some m" "wf_history m" "col_ok (tb, r, c)"
  shows "(\<forall>s \<le> x. kept m (tb, r, c) s = None) \<Longrightarrow> version_before e t tb r c x = Inl GS_NOT_FOUND"
    and "kept m (tb, r, c) s = Some (version_record st v) \<Longrightarrow> s \<le> x \<Longrightarrow> s_start st = s \<Longrightarrow>
      (\<And>w. s < w \<Longrightarrow> w \<le> x \<Longrightarrow> kept m (tb, r, c) w = None) \<Longrightarrow>
      version_before e t tb r c x = (case v of None \<Rightarrow> Inl GS_NOT_FOUND | Some bs \<Rightarrow> Inr (st, bs))"
proof -
  let ?a = "(tb, r, c)"
  have key: "hist_key tb r c z = col_key ?a z" for z by (simp add: col_key_def)
  have "length (col_key ?a x) \<le> GS_MAX_KEY"
    using assms(3) col_key_length [of ?a x] by (simp add: col_ok_def)
  note fl = floor_of_there [OF assms(1) this]
  show "version_before e t tb r c x = Inl GS_NOT_FOUND" if none: "\<forall>s \<le> x. kept m ?a s = None"
    using fl
  proof (elim disjE exE conjE)
    fix k v assume f: "floor_entry m (col_key ?a x) k v" "floor_of e t HIST_NAME (col_key ?a x) = (GS_OK, Some (k, v))"
    from floor_outside_column [OF assms(3) f(1)] none
    have "length k \<noteq> length (col_key ?a x) \<or> memcmp k (col_key ?a x) (length (col_key ?a x) - 8) \<noteq> 0" by blast
    with f(2) show ?thesis by (auto simp: version_before_def key)
  qed (simp add: version_before_def key)
  show "version_before e t tb r c x = (case v of None \<Rightarrow> Inl GS_NOT_FOUND | Some bs \<Rightarrow> Inr (st, bs))"
    if k: "kept m ?a s = Some (version_record st v)" "s \<le> x" "s_start st = s"
      and gap: "\<And>w. s < w \<Longrightarrow> w \<le> x \<Longrightarrow> kept m ?a w = None"
    using fl
  proof (elim disjE exE conjE)
    assume "\<forall>k' \<in> dom m. 0 < bytes_cmp k' (col_key ?a x)"
    moreover have "col_key ?a s \<in> dom m" using k(1) by (auto simp: kept_def)
    moreover have "bytes_cmp (col_key ?a s) (col_key ?a x) \<le> 0"
      using k(2) by (simp add: col_key_def hist_key_def bytes_cmp_be)
    ultimately show ?thesis by force
  next
    fix k' v' assume f: "floor_entry m (col_key ?a x) k' v'"
      "floor_of e t HIST_NAME (col_key ?a x) = (GS_OK, Some (k', v'))"
    from floor_in_column [OF assms(2,3) f(1) _ k(2)] k(1) obtain u where
      u: "k' = col_key ?a u" "kept m ?a u = Some v'" "u \<le> x" "s \<le> u" using k(2) by auto
    have "u = s" using gap [of u] u by (cases "s < u") auto
    then have v': "k' = col_key ?a s" "v' = version_record st v" using u(1,2) k(1) by simp_all
    have mem: "memcmp (col_key ?a s) (col_key ?a x) (length (col_key ?a x) - 8) = 0"
      using col_key_length [of ?a s] col_key_length [of ?a x]
      by (simp add: memcmp_zero_iff) (simp add: col_key_def hist_key_def)
    have len: "length (col_key ?a s) = length (col_key ?a x)"
      using col_key_length [of ?a s] col_key_length [of ?a x] by simp
    have start: "get_be (drop (length (col_key ?a s) - 8) (col_key ?a s)) = s"
      by (simp add: col_key_def hist_key_def)
    have flag: "version_record st v ! 0 AND V_REMOVED \<noteq> 0 \<longleftrightarrow> v = None"
      by (cases v) (simp_all add: version_record_def V_REMOVED_def)
    have "\<not> length (version_record st v) < V_HDR" using record_fields(1) [of st v] by simp
    then show ?thesis
      using f(2) mem len start flag k(3) record_fields(2,3) [of st v]
      by (cases v) (auto simp: version_before_def key v' record_fields(4))
  qed
qed

end

section \<open>Columns over time\<close>

text \<open>
  What the relational layer does with a temporal column, as \<^verbatim>\<open>include/gsql_version.h\<close> asks: the
  current value and its stamp are kept by the row (\<open>cur\<close>); before a commit replaces or removes it,
  the old value is handed over, and a removal is recorded after that.
\<close>

type_synonym col_event = "col \<times> gsql_stamp \<times> bytes option"
type_synonym 't col_state = "(col \<Rightarrow> (gsql_stamp \<times> bytes) option) \<times> 't"

definition version_event :: "('t, 'c) gs_engine \<Rightarrow> col_event \<Rightarrow> 't col_state \<Rightarrow> gs_status \<times> 't col_state" where
  "version_event e ev s =
     (let (a, now, v) = ev; (tb, r, c) = a; (cur, w) = s;
          (rc, w) = (case cur a of
                       Some (was, old) \<Rightarrow> gsql_version_keep e w tb r c was old now
                     | None \<Rightarrow> (GS_OK, w))
      in if rc \<noteq> GS_OK then (rc, (cur, w))
         else case v of
                Some bs \<Rightarrow> (GS_OK, (cur(a \<mapsto> (now, bs)), w))
              | None \<Rightarrow> let (rc, w) = gsql_version_remove e w tb r c now in (rc, (cur(a := None), w)))"

fun version_run :: "('t, 'c) gs_engine \<Rightarrow> col_event list \<Rightarrow> 't col_state \<Rightarrow> gs_status \<times> 't col_state" where
  "version_run e [] s = (GS_OK, s)"
| "version_run e (ev # evs) s =
     (let (rc, s) = version_event e ev s in if rc \<noteq> GS_OK then (rc, s) else version_run e evs s)"

text \<open>The same, as a mathematician would write it down: a column's values, newest first.\<close>

type_synonym history = "(gsql_stamp \<times> bytes option) list"

definition started :: "gsql_stamp \<times> bytes option \<Rightarrow> u64" where
  "started sv = s_start (fst sv)"

fun col_history :: "col_event list \<Rightarrow> col \<Rightarrow> history \<Rightarrow> history" where
  "col_history [] a h = h"
| "col_history ((b, now, v) # evs) a h = col_history evs a (if b = a then (now, v) # h else h)"

definition value_as_of :: "history \<Rightarrow> u64 \<Rightarrow> (gsql_stamp \<times> bytes) option" where
  "value_as_of h x = (case find (\<lambda>sv. started sv \<le> x) h of Some (st, Some v) \<Rightarrow> Some (st, v) | _ \<Rightarrow> None)"

text \<open>The ids of a column's events never go back.\<close>

fun ids_grow :: "history \<Rightarrow> bool" where
  "ids_grow [] = True"
| "ids_grow (x # h) = ((\<forall>y \<in> set h. started y \<le> started x) \<and> ids_grow h)"

definition current_of :: "history \<Rightarrow> (gsql_stamp \<times> bytes) option" where
  "current_of h = (case h of (st, Some v) # _ \<Rightarrow> Some (st, v) | _ \<Rightarrow> None)"

definition kept_of :: "history \<Rightarrow> (u64 \<rightharpoonup> bytes) \<Rightarrow> bool" where
  "kept_of h k \<longleftrightarrow> (\<forall>s.
     (case find (\<lambda>sv. started sv = s) h of
        None \<Rightarrow> k s = None
      | Some (st, v) \<Rightarrow> (\<exists>st' bs h'. h = (st', Some bs) # h' \<and> s_start st' = s) \<or> k s = Some (version_record st v)))"

text \<open>The history tree of a transaction, empty before the first version creates it.\<close>

definition hist_of :: "(bytes \<Rightarrow> (bytes \<rightharpoonup> bytes) option) \<Rightarrow> bytes \<rightharpoonup> bytes" where
  "hist_of ts = (case ts HIST_NAME of None \<Rightarrow> Map.empty | Some m \<Rightarrow> m)"

context ordered_engine
begin

lemma put_version_stores:
  assumes "col_ok (tb, r, c)"
    and "[flgs] @ put_le 8 sec @ put_le 4 author @ val = version_record st v"
  shows "\<exists>w'. put_version e w tb r c s flgs sec author val = (GS_OK, w') \<and> ident w' = ident w \<and>
    hist_of (trees w') = (hist_of (trees w))(col_key (tb, r, c) s \<mapsto> version_record st v)"
proof -
  have "length (hist_key tb r c s) \<le> GS_MAX_KEY"
    using assms(1) col_key_length [of "(tb, r, c)" s] by (simp add: col_ok_def col_key_def)
  from put_creating_stores [OF this names_fit(1), of w "version_record st v"] show ?thesis
    by (auto simp: put_version_def hist_of_def col_key_def assms(2) [simplified])
qed

lemma keep_stores:
  assumes "col_ok (tb, r, c)" "\<not> s_start now \<le> s_start was"
  shows "\<exists>w'. gsql_version_keep e w tb r c was old now = (GS_OK, w') \<and> ident w' = ident w \<and>
    hist_of (trees w') = (hist_of (trees w))(col_key (tb, r, c) (s_start was) \<mapsto> version_record was (Some old))"
  using assms(2) put_version_stores [OF assms(1), of 0 "s_second was" "s_author was" old was "Some old" w]
  by (simp add: gsql_version_keep_def version_record_def)

lemma remove_stores:
  assumes "col_ok (tb, r, c)"
  shows "\<exists>w'. gsql_version_remove e w tb r c now = (GS_OK, w') \<and> ident w' = ident w \<and>
    hist_of (trees w') = (hist_of (trees w))(col_key (tb, r, c) (s_start now) \<mapsto> version_record now None)"
  using put_version_stores [OF assms, of V_REMOVED "s_second now" "s_author now" "[]" now None w]
  by (simp add: gsql_version_remove_def version_record_def)

lemma kept_update: "col_ok a \<Longrightarrow> col_ok b \<Longrightarrow>
    kept (m(col_key a s \<mapsto> x)) b = (if a = b then (kept m b)(s \<mapsto> x) else kept m b)"
  by (auto simp: kept_def col_key_inject fun_eq_iff)

lemma wf_update: "wf_history m \<Longrightarrow> col_ok a \<Longrightarrow> wf_history (m(col_key a s \<mapsto> x))"
  by (auto simp: wf_history_def simp del: split_paired_Ex)

end

lemma find_none_bound: "ids_grow (x # h) \<Longrightarrow> started x < s \<Longrightarrow> find (\<lambda>sv. started sv = s) (x # h) = None"
  by (fastforce simp: find_None_iff)

text \<open>What one event leaves of the versions kept of its column.\<close>

definition kept_after :: "history \<Rightarrow> gsql_stamp \<Rightarrow> bytes option \<Rightarrow> (u64 \<rightharpoonup> bytes) \<Rightarrow> (u64 \<rightharpoonup> bytes)" where
  "kept_after h now v k =
     (let k = (case current_of h of
                 Some (was, old) \<Rightarrow> if s_start now \<le> s_start was then k else k(s_start was \<mapsto> version_record was (Some old))
               | None \<Rightarrow> k)
      in case v of Some _ \<Rightarrow> k | None \<Rightarrow> k(s_start now \<mapsto> version_record now None))"

lemma kept_of_event:
  assumes "kept_of h k" "ids_grow ((now, v) # h)"
  shows "kept_of ((now, v) # h) (kept_after h now v k)"
  unfolding kept_of_def
proof (intro allI)
  fix s
  have inv: "case find (\<lambda>sv. started sv = s) h of
        None \<Rightarrow> k s = None
      | Some (st, v) \<Rightarrow> (\<exists>st' bs h'. h = (st', Some bs) # h' \<and> s_start st' = s) \<or> k s = Some (version_record st v)"
    using assms(1) by (simp add: kept_of_def)
  show "case find (\<lambda>sv. started sv = s) ((now, v) # h) of
        None \<Rightarrow> kept_after h now v k s = None
      | Some (st, u) \<Rightarrow> (\<exists>st' bs h'. (now, v) # h = (st', Some bs) # h' \<and> s_start st' = s) \<or>
          kept_after h now v k s = Some (version_record st u)"
  proof (cases "s_start now = s")
    case True
    then show ?thesis by (cases v) (auto simp: started_def kept_after_def Let_def)
  next
    case ne: False
    show ?thesis
    proof (cases "current_of h")
      case None
      then have "\<not> (\<exists>st' bs h'. h = (st', Some bs) # h' \<and> s_start st' = s)"
        by (auto simp: current_of_def)
      with inv None ne show ?thesis
        by (auto simp: started_def kept_after_def Let_def split: option.splits)
    next
      case (Some wo)
      obtain was old where wo: "wo = (was, old)" by force
      with Some obtain h' where h: "h = (was, Some old) # h'"
        by (auto simp: current_of_def split: list.splits option.splits prod.splits)
      show ?thesis
      proof (cases "s_start was = s")
        case True
        with assms(2) ne h have "\<not> s_start now \<le> s_start was" by (auto simp: started_def)
        with Some wo h ne True show ?thesis
          by (auto simp: started_def kept_after_def Let_def split: option.splits)
      next
        case False
        with inv h Some wo ne show ?thesis
          by (auto simp: started_def kept_after_def Let_def split: option.splits)
      qed
    qed
  qed
qed

lemma find_ids_grow:
  assumes "ids_grow h" "find (\<lambda>sv. started sv \<le> x) h = Some sv"
  shows "find (\<lambda>u. started u = started sv) h = Some sv \<and> started sv \<le> x \<and>
    (\<forall>u \<in> set h. started u \<le> x \<longrightarrow> started u \<le> started sv)"
  using assms
proof (induction h)
  case Nil
  then show ?case by simp
next
  case (Cons y h)
  show ?case
  proof (cases "started y \<le> x")
    case True
    with Cons.prems show ?thesis by simp
  next
    case False
    with Cons.prems have f: "find (\<lambda>sv. started sv \<le> x) h = Some sv" by simp
    from Cons.IH [OF _ f] Cons.prems(1) have
      "find (\<lambda>u. started u = started sv) h = Some sv" "started sv \<le> x"
      "\<forall>u \<in> set h. started u \<le> x \<longrightarrow> started u \<le> started sv" by simp_all
    moreover from False \<open>started sv \<le> x\<close> have "started y \<noteq> started sv" by auto
    ultimately show ?thesis using False by simp
  qed
qed

text \<open>The state of the columns agrees with their histories.\<close>

definition agrees :: "('t \<Rightarrow> bytes \<Rightarrow> (bytes \<rightharpoonup> bytes) option) \<Rightarrow> 't col_state \<Rightarrow> (col \<Rightarrow> history) \<Rightarrow> bool" where
  "agrees trees s hs \<longleftrightarrow> (case s of (cur, w) \<Rightarrow>
     wf_history (hist_of (trees w)) \<and>
     (\<forall>a. col_ok a \<longrightarrow> cur a = current_of (hs a) \<and> kept_of (hs a) (kept (hist_of (trees w)) a) \<and> ids_grow (hs a)))"

lemma agreesD:
  assumes "agrees trees (cur, w) hs"
  shows "wf_history (hist_of (trees w))"
    and "col_ok a \<Longrightarrow> cur a = current_of (hs a)"
    and "col_ok a \<Longrightarrow> kept_of (hs a) (kept (hist_of (trees w)) a)"
    and "col_ok a \<Longrightarrow> ids_grow (hs a)"
  using assms unfolding agrees_def split by blast+

context ordered_engine
begin

lemma version_event_agrees:
  assumes "agrees trees (cur, w) hs" "col_ok a" "ids_grow ((now, v) # hs a)"
  shows "\<exists>cur' w'. version_event e (a, now, v) (cur, w) = (GS_OK, (cur', w')) \<and>
    agrees trees (cur', w') (hs(a := (now, v) # hs a))"
proof -
  obtain tb r c where a: "a = (tb, r, c)" by (metis prod_cases3)
  have ok: "col_ok (tb, r, c)" using assms(2) a by simp
  have inv: "wf_history (hist_of (trees w))" "cur a = current_of (hs a)"
    "kept_of (hs a) (kept (hist_of (trees w)) a)"
    using agreesD [OF assms(1)] assms(2) by blast+
  obtain w1 where w1: "(case cur a of
        Some (was, old) \<Rightarrow> gsql_version_keep e w tb r c was old now
      | None \<Rightarrow> (GS_OK, w)) = (GS_OK, w1)"
    "hist_of (trees w1) = (case current_of (hs a) of
        Some (was, old) \<Rightarrow> if s_start now \<le> s_start was then hist_of (trees w)
          else (hist_of (trees w))(col_key a (s_start was) \<mapsto> version_record was (Some old))
      | None \<Rightarrow> hist_of (trees w))"
  proof (cases "current_of (hs a)")
    case None
    with inv(2) that [of w] show ?thesis by simp
  next
    case (Some wo)
    obtain was old where wo: "wo = (was, old)" by force
    show ?thesis
    proof (cases "s_start now \<le> s_start was")
      case True
      with Some wo inv(2) that [of w] show ?thesis by (simp add: gsql_version_keep_def)
    next
      case False
      from keep_stores [OF ok False, of w old] Some wo inv(2) False that a show ?thesis by auto
    qed
  qed
  obtain cur' w' where w': "version_event e (a, now, v) (cur, w) = (GS_OK, (cur', w'))"
    "cur' = cur(a := current_of ((now, v) # hs a))"
    "hist_of (trees w') = (case v of Some _ \<Rightarrow> hist_of (trees w1)
       | None \<Rightarrow> (hist_of (trees w1))(col_key a (s_start now) \<mapsto> version_record now None))"
  proof (cases v)
    case (Some bs)
    with w1(1) that [of "cur(a \<mapsto> (now, bs))" w1] show ?thesis
      by (simp add: version_event_def a current_of_def)
  next
    case None
    from remove_stores [OF ok, of w1 now] obtain w2 where "gsql_version_remove e w1 tb r c now = (GS_OK, w2)"
      "hist_of (trees w2) = (hist_of (trees w1))(col_key a (s_start now) \<mapsto> version_record now None)"
      using a by blast
    with w1(1) None that [of "cur(a := None)" w2] show ?thesis
      by (simp add: version_event_def a current_of_def)
  qed
  have here: "kept (hist_of (trees w')) a = kept_after (hs a) now v (kept (hist_of (trees w)) a)"
    using w'(3) w1(2) assms(2)
    by (auto simp: kept_after_def kept_update Let_def split: option.splits prod.splits)
  have there: "kept (hist_of (trees w')) b = kept (hist_of (trees w)) b" if "col_ok b" "b \<noteq> a" for b
    using w'(3) w1(2) assms(2) that
    by (auto simp: kept_update split: option.splits prod.splits)
  have "wf_history (hist_of (trees w'))"
    using w'(3) w1(2) assms(2) inv(1) by (auto simp: wf_update split: option.splits prod.splits)
  moreover have "kept_of ((now, v) # hs a) (kept (hist_of (trees w')) a)"
    unfolding here by (rule kept_of_event [OF inv(3) assms(3)])
  ultimately have "agrees trees (cur', w') (hs(a := (now, v) # hs a))"
    unfolding agrees_def split
  proof (intro conjI allI impI)
    fix b assume b: "col_ok b"
    show "cur' b = current_of ((hs(a := (now, v) # hs a)) b)"
      using agreesD(2) [OF assms(1) b] w'(2) by simp
    show "kept_of ((hs(a := (now, v) # hs a)) b) (kept (hist_of (trees w')) b)"
      using agreesD(3) [OF assms(1) b] there [OF b] \<open>kept_of ((now, v) # hs a) (kept (hist_of (trees w')) a)\<close>
      by (cases "b = a") simp_all
    show "ids_grow ((hs(a := (now, v) # hs a)) b)"
      using agreesD(4) [OF assms(1) b] assms(3) by (cases "b = a") simp_all
  qed
  with w'(1) show ?thesis by blast
qed

text \<open>A read as of any id.\<close>

lemma asof_agrees:
  assumes "agrees trees (cur, w) hs" "col_ok (tb, r, c)"
  shows "gsql_version_asof e w tb r c x (map_option fst (cur (tb, r, c)))
      (case cur (tb, r, c) of Some (_, v) \<Rightarrow> v | None \<Rightarrow> []) =
    (case value_as_of (hs (tb, r, c)) x of None \<Rightarrow> Inl GS_NOT_FOUND | Some sv \<Rightarrow> Inr sv)"
proof -
  let ?a = "(tb, r, c)" and ?h = "hs (tb, r, c)" and ?k = "kept (hist_of (trees w)) (tb, r, c)"
  have inv: "wf_history (hist_of (trees w))" "cur ?a = current_of ?h" "kept_of ?h ?k" "ids_grow ?h"
    using agreesD [OF assms(1)] assms(2) by blast+
  have none: "?k s = None" if "find (\<lambda>sv. started sv = s) ?h = None" for s
    using inv(3) that by (auto simp: kept_of_def dest: spec [of _ s])
  have before: "version_before e w tb r c x = (case value_as_of ?h x of None \<Rightarrow> Inl GS_NOT_FOUND | Some sv \<Rightarrow> Inr sv)"
    if older: "\<And>st bs h'. ?h = (st, Some bs) # h' \<Longrightarrow> x < s_start st"
  proof (cases "find (\<lambda>sv. started sv \<le> x) ?h")
    case None
    have nk: "?k s = None" if "s \<le> x" for s
      using None that by (intro none) (auto simp: find_None_iff)
    have "version_before e w tb r c x = Inl GS_NOT_FOUND"
    proof (cases "trees w HIST_NAME")
      case None
      then show ?thesis by (simp add: version_before_def floor_of_missing names_fit)
    next
      case (Some m)
      with nk inv(1) show ?thesis
        by (intro version_before_kept(1) [OF Some _ assms(2)]) (simp_all add: hist_of_def)
    qed
    with None show ?thesis by (simp add: value_as_of_def)
  next
    case (Some sv)
    obtain st v where sv: "sv = (st, v)" by force
    from find_ids_grow [OF inv(4) Some] have
      f: "find (\<lambda>u. started u = s_start st) ?h = Some (st, v)" "s_start st \<le> x"
      and newest: "\<And>u. u \<in> set ?h \<Longrightarrow> started u \<le> x \<Longrightarrow> started u \<le> s_start st"
      by (auto simp: sv started_def)
    have k: "?k (s_start st) = Some (version_record st v)"
    proof -
      have "\<not> (\<exists>st' bs h'. ?h = (st', Some bs) # h' \<and> s_start st' = s_start st)"
        using older f(2) by force
      with inv(3) f(1) show ?thesis
        by (auto simp: kept_of_def dest!: spec [of _ "s_start st"])
    qed
    have gap: "?k u = None" if "s_start st < u" "u \<le> x" for u
      using newest that by (intro none) (force simp: find_None_iff)
    obtain m where m: "trees w HIST_NAME = Some m"
      using k by (cases "trees w HIST_NAME") (simp_all add: hist_of_def kept_def)
    then have hm: "hist_of (trees w) = m" by (simp add: hist_of_def)
    have "version_before e w tb r c x = (case v of None \<Rightarrow> Inl GS_NOT_FOUND | Some bs \<Rightarrow> Inr (st, bs))"
      by (rule version_before_kept(2) [OF m _ assms(2)]) (use inv(1) k gap f(2) hm in simp_all)
    with Some sv show ?thesis by (auto simp: value_as_of_def split: option.splits)
  qed
  show ?thesis
  proof (cases "current_of ?h")
    case None
    then have "\<And>st bs h'. ?h = (st, Some bs) # h' \<Longrightarrow> x < s_start st"
      by (auto simp: current_of_def)
    with before None inv(2) show ?thesis by (simp add: gsql_version_asof_def)
  next
    case (Some wo)
    obtain was old where wo: "wo = (was, old)" by force
    with Some obtain h' where h: "?h = (was, Some old) # h'"
      by (auto simp: current_of_def split: list.splits option.splits prod.splits)
    show ?thesis
    proof (cases "s_start was \<le> x")
      case True
      with Some wo inv(2) h show ?thesis
        by (simp add: gsql_version_asof_def value_as_of_def started_def)
    next
      case False
      with before h have "version_before e w tb r c x =
          (case value_as_of ?h x of None \<Rightarrow> Inl GS_NOT_FOUND | Some sv \<Rightarrow> Inr sv)" by auto
      with False Some wo inv(2) show ?thesis by (simp add: gsql_version_asof_def)
    qed
  qed
qed

text \<open>A whole run.\<close>

lemma version_run_agrees:
  assumes "agrees trees (cur, w) hs" "\<forall>(a, now, v) \<in> set evs. col_ok a"
    and "\<And>a. col_ok a \<Longrightarrow> ids_grow (col_history evs a (hs a))"
  shows "\<exists>cur' w'. version_run e evs (cur, w) = (GS_OK, (cur', w')) \<and>
    agrees trees (cur', w') (\<lambda>a. col_history evs a (hs a))"
  using assms
proof (induction evs arbitrary: cur w hs)
  case Nil
  then show ?case by simp
next
  case (Cons ev evs)
  obtain a now v where ev: "ev = (a, now, v)" by (metis prod_cases3)
  have ok: "col_ok a" using Cons.prems(2) ev by simp
  have grow: "ids_grow h" if "ids_grow (col_history es b h)" for es b h
    using that
  proof (induction es b h rule: col_history.induct)
    case (2 c now v evs a h)
    then show ?case by (auto split: if_splits)
  qed simp
  have "ids_grow ((now, v) # hs a)"
    by (rule grow [of evs a]) (use Cons.prems(3) [OF ok] ev in simp)
  from version_event_agrees [OF Cons.prems(1) ok this] obtain cur1 w1 where
    s1: "version_event e (a, now, v) (cur, w) = (GS_OK, (cur1, w1))"
      "agrees trees (cur1, w1) (hs(a := (now, v) # hs a))" by blast
  have "ids_grow (col_history evs b ((hs(a := (now, v) # hs a)) b))" if "col_ok b" for b
    using Cons.prems(3) [OF that] ev by (auto split: if_splits)
  from Cons.IH [OF s1(2) _ this] Cons.prems(2) obtain cur' w' where
    s2: "version_run e evs (cur1, w1) = (GS_OK, (cur', w'))"
      "agrees trees (cur', w') (\<lambda>b. col_history evs b ((hs(a := (now, v) # hs a)) b))" by auto
  have "(\<lambda>b. col_history evs b ((hs(a := (now, v) # hs a)) b)) = (\<lambda>b. col_history (ev # evs) b (hs b))"
    by (auto simp: ev fun_eq_iff)
  with s1(1) s2 show ?case by (simp add: ev)
qed

end

end
