(* ===== verification/Version_Props.thy ===== *)
theory Version_Props
  imports Version
begin

text \<open>
  The version store of \<open>Version\<close> as properties: reads as of any commit, the index from seconds to
  commits, and an engine that keeps the contract of \<^verbatim>\<open>include/gsql_store.h\<close> with its trees as
  association lists, on which the locale is interpreted.
\<close>

section \<open>Seconds to commits\<close>

text \<open>The versioning commits, newest first: the second each was indexed under, and its id.\<close>

type_synonym commits = "(u64 \<times> u64) list"

fun seconds_grow :: "commits \<Rightarrow> bool" where
  "seconds_grow [] = True"
| "seconds_grow (x # l) = ((\<forall>y \<in> set l. fst y \<le> fst x) \<and> seconds_grow l)"

definition time_tree :: "commits \<Rightarrow> bytes \<rightharpoonup> bytes" where
  "time_tree l k =
     (case find (\<lambda>si. put_be 8 (fst si) = k) l of None \<Rightarrow> None | Some si \<Rightarrow> Some (put_le 8 (snd si)))"

definition time_agrees :: "(bytes \<Rightarrow> (bytes \<rightharpoonup> bytes) option) \<Rightarrow> commits \<Rightarrow> bool" where
  "time_agrees ts l \<longleftrightarrow> (case ts TIME_NAME of None \<Rightarrow> l = [] | Some m \<Rightarrow> m = time_tree l) \<and> seconds_grow l"

text \<open>The second a commit is indexed under: never before the last one.\<close>

definition clamp_second :: "commits \<Rightarrow> u64 \<Rightarrow> u64" where
  "clamp_second l sec = (case l of [] \<Rightarrow> sec | (s, i) # _ \<Rightarrow> max sec s)"

definition commit_at :: "commits \<Rightarrow> u64 \<Rightarrow> u64" where
  "commit_at l sec = (case find (\<lambda>si. fst si \<le> sec) l of None \<Rightarrow> 0 | Some si \<Rightarrow> snd si)"

lemma time_tree_dom: "k \<in> dom (time_tree l) \<longleftrightarrow> (\<exists>si \<in> set l. k = put_be 8 (fst si))"
proof -
  have "time_tree l k = None \<longleftrightarrow> find (\<lambda>si. put_be 8 (fst si) = k) l = None"
    by (simp add: time_tree_def split: option.splits)
  then have "k \<in> dom (time_tree l) \<longleftrightarrow> \<not> (\<forall>si \<in> set l. put_be 8 (fst si) \<noteq> k)"
    by (auto simp: domIff find_None_iff simp del: split_paired_All split_paired_Ex)
  then show ?thesis by (metis (no_types))
qed

lemma find_grow:
  assumes "seconds_grow l" "find (\<lambda>si. fst si \<le> x) l = Some si"
  shows "si \<in> set l" "fst si \<le> x" "find (\<lambda>u. fst u = fst si) l = Some si"
    "\<And>u. u \<in> set l \<Longrightarrow> fst u \<le> x \<Longrightarrow> fst u \<le> fst si"
proof -
  have "si \<in> set l \<and> fst si \<le> x \<and> find (\<lambda>u. fst u = fst si) l = Some si \<and>
      (\<forall>u \<in> set l. fst u \<le> x \<longrightarrow> fst u \<le> fst si)"
    using assms
  proof (induction l)
    case Nil
    then show ?case by simp
  next
    case (Cons y l)
    show ?case
    proof (cases "fst y \<le> x")
      case True
      with Cons.prems show ?thesis by auto
    next
      case False
      with Cons.prems have f: "find (\<lambda>si. fst si \<le> x) l = Some si" by simp
      from Cons.IH [OF _ f] Cons.prems(1) have
        "si \<in> set l" "fst si \<le> x" "find (\<lambda>u. fst u = fst si) l = Some si"
        "\<forall>u \<in> set l. fst u \<le> x \<longrightarrow> fst u \<le> fst si" by simp_all
      moreover from False \<open>fst si \<le> x\<close> have "fst y \<noteq> fst si" by auto
      ultimately show ?thesis using False by simp
    qed
  qed
  then show "si \<in> set l" "fst si \<le> x" "find (\<lambda>u. fst u = fst si) l = Some si"
    "\<And>u. u \<in> set l \<Longrightarrow> fst u \<le> x \<Longrightarrow> fst u \<le> fst si" by blast+
qed

lemma time_floor:
  assumes "seconds_grow l" "floor_entry (time_tree l) (put_be 8 x) k v"
  shows "\<exists>si. find (\<lambda>si. fst si \<le> x) l = Some si \<and> k = put_be 8 (fst si) \<and> v = put_le 8 (snd si)"
proof -
  have m: "time_tree l k = Some v" and le: "bytes_cmp k (put_be 8 x) \<le> 0"
    and greatest: "\<And>k''. k'' \<in> dom (time_tree l) \<Longrightarrow> bytes_cmp k'' (put_be 8 x) \<le> 0 \<Longrightarrow> bytes_cmp k'' k \<le> 0"
    using assms(2) by (auto simp: floor_entry_def)
  obtain u where u: "u \<in> set l" "k = put_be 8 (fst u)"
    using time_tree_dom [of k l] domI [of "time_tree l", OF m] by blast
  with le have ux: "fst u \<le> x" by (simp add: bytes_cmp_be)
  obtain si where si: "find (\<lambda>si. fst si \<le> x) l = Some si"
    using u(1) ux by (metis find_None_iff not_Some_eq)
  note f = find_grow [OF assms(1) si]
  have "bytes_cmp (put_be 8 (fst si)) k \<le> 0"
    using f(1,2) by (intro greatest) (auto simp: time_tree_dom bytes_cmp_be)
  then have "fst si \<le> fst u" by (simp add: u(2) bytes_cmp_be)
  with f(4) [OF u(1) ux] have eq: "fst u = fst si" by simp
  have "v = put_le 8 (snd si)"
    using m f(3) by (simp add: time_tree_def u(2) eq put_be_8_inject)
  with si eq u(2) show ?thesis by auto
qed

context ordered_engine
begin

lemma floor_of_time:
  assumes "time_agrees (trees t) l"
  shows "floor_of e t TIME_NAME (put_be 8 x) = (GS_OK,
    case find (\<lambda>si. fst si \<le> x) l of None \<Rightarrow> None | Some si \<Rightarrow> Some (put_be 8 (fst si), put_le 8 (snd si)))"
proof (cases "trees t TIME_NAME")
  case None
  with assms show ?thesis by (simp add: time_agrees_def floor_of_missing names_fit)
next
  case (Some m)
  with assms have m: "m = time_tree l" "seconds_grow l" by (simp_all add: time_agrees_def)
  have "length (put_be 8 x) \<le> GS_MAX_KEY" by (simp add: GS_MAX_KEY_def)
  from floor_of_there [OF Some this] show ?thesis
  proof (elim disjE exE conjE)
    assume none: "\<forall>k' \<in> dom m. 0 < bytes_cmp k' (put_be 8 x)" and f: "floor_of e t TIME_NAME (put_be 8 x) = (GS_OK, None)"
    have "find (\<lambda>si. fst si \<le> x) l = None"
    proof (cases "find (\<lambda>si. fst si \<le> x) l")
      case (Some si)
      with find_grow(1,2) [OF m(2) Some] have "put_be 8 (fst si) \<in> dom m" "fst si \<le> x"
        by (auto simp: m(1) time_tree_dom)
      with none have "0 < bytes_cmp (put_be 8 (fst si)) (put_be 8 x)" by blast
      with bytes_cmp_be [of "fst si" x] \<open>fst si \<le> x\<close> have False by simp
      then show ?thesis ..
    qed simp
    with f show ?thesis by simp
  next
    fix k v assume f: "floor_entry m (put_be 8 x) k v" "floor_of e t TIME_NAME (put_be 8 x) = (GS_OK, Some (k, v))"
    from time_floor [OF m(2) f(1) [unfolded m(1)]] f(2) show ?thesis by auto
  qed
qed

lemma version_at_agrees:
  assumes "time_agrees (trees t) l"
  shows "gsql_version_at e t sec = (GS_OK, commit_at l sec)"
  by (cases "find (\<lambda>si. fst si \<le> sec) l")
    (simp_all add: gsql_version_at_def floor_of_time [OF assms] commit_at_def)

lemma time_tree_Cons: "time_tree ((s, i) # l) = (time_tree l)(put_be 8 s \<mapsto> put_le 8 i)"
  by (auto simp: time_tree_def fun_eq_iff)

lemma version_begin_agrees:
  assumes "time_agrees (trees w) l"
  shows "\<exists>w'. gsql_version_begin e w sec author =
      (Inr \<lparr>s_start = ident w, s_second = clamp_second l sec, s_author = author\<rparr>, w') \<and>
    time_agrees (trees w') ((clamp_second l sec, ident w) # l) \<and> trees w' HIST_NAME \<noteq> None \<and>
    ident w' = ident w \<and> (\<forall>nm. nm \<noteq> TIME_NAME \<longrightarrow> nm \<noteq> HIST_NAME \<longrightarrow> trees w' nm = trees w nm) \<and>
    hist_of (trees w') = hist_of (trees w)"
proof -
  let ?s = "clamp_second l sec"
  have ff: "replicate 8 0xFF = put_be 8 (- 1 :: u64)"
  proof (rule nth_equalityI)
    show "replicate 8 0xFF ! i = put_be 8 (- 1 :: u64) ! i" if "i < length (replicate 8 (0xFF :: byte))" for i
    proof -
      have "ucast (drop_bit (8 * (7 - i)) (- 1 :: u64)) = (- 1 :: byte)"
        by (rule bit_word_eqI) (simp add: bit_simps)
      moreover have "(0xFF :: byte) = - 1" by simp
      ultimately show ?thesis using that by (simp add: put_be_def)
    qed
  qed simp
  have fl: "floor_of e w TIME_NAME (replicate 8 0xFF) = (GS_OK,
      case l of [] \<Rightarrow> None | (s, i) # _ \<Rightarrow> Some (put_be 8 s, put_le 8 i))"
    unfolding ff floor_of_time [OF assms] by (cases l) (auto simp: word_n1_ge)
  have "length (put_be 8 ?s) \<le> GS_MAX_KEY" by (simp add: GS_MAX_KEY_def)
  from put_creating_stores [OF this names_fit(2), of w "put_le 8 (ident w)"] obtain w1 where
    w1: "put_creating e w TIME_NAME (put_be 8 ?s) (put_le 8 (ident w)) = (GS_OK, w1)" "ident w1 = ident w"
      "trees w1 = (trees w)(TIME_NAME \<mapsto> (case trees w TIME_NAME of None \<Rightarrow> Map.empty | Some m \<Rightarrow> m)
        (put_be 8 ?s \<mapsto> put_le 8 (ident w)))" by blast
  have grow: "seconds_grow ((?s, ident w) # l)"
    using assms by (cases l) (fastforce simp: time_agrees_def clamp_second_def le_max_iff_disj split: prod.splits)+
  have t1: "time_agrees (trees w1) ((?s, ident w) # l)"
    using assms grow by (auto simp: time_agrees_def w1(3) time_tree_Cons time_tree_def fun_eq_iff
        split: option.splits)
  have names: "HIST_NAME \<noteq> TIME_NAME" by (simp add: HIST_NAME_def TIME_NAME_def)
  obtain w2 where w2: "(case e_cursor_open e w1 HIST_NAME of
        Inl rc \<Rightarrow> if rc = GS_NOT_FOUND then e_tree_create e w1 HIST_NAME else (rc, w1)
      | Inr c \<Rightarrow> (GS_OK, w1)) = (GS_OK, w2)" "ident w2 = ident w"
    "trees w2 HIST_NAME \<noteq> None" "\<forall>nm. nm \<noteq> HIST_NAME \<longrightarrow> trees w2 nm = trees w1 nm"
    "hist_of (trees w2) = hist_of (trees w1)"
  proof (cases "trees w1 HIST_NAME")
    case None
    from create_missing [OF None names_fit(1)] obtain w2 where "e_tree_create e w1 HIST_NAME = (GS_OK, w2)"
      "trees w2 = (trees w1)(HIST_NAME \<mapsto> Map.empty)" "ident w2 = ident w1" by blast
    with open_missing [OF None names_fit(1)] None that [of w2] w1(2) show ?thesis by (simp add: hist_of_def)
  next
    case (Some m)
    from open_there [OF Some, of "[]"] obtain c where "e_cursor_open e w1 HIST_NAME = Inr c" by auto
    with Some that [of w1] w1(2) show ?thesis by simp
  qed
  have t2: "time_agrees (trees w2) ((?s, ident w) # l)"
    using t1 w2(4) names by (simp add: time_agrees_def)
  obtain f where f: "e_txn_id e = Some f" "f w = Inr (ident w)" using id_known by blast
  have sec: "(case l of [] \<Rightarrow> sec | (s, i) # _ \<Rightarrow> if sec < s then s else sec) = ?s"
    by (auto simp: clamp_second_def max_def split: list.splits)
  have "gsql_version_begin e w sec author =
      (Inr \<lparr>s_start = ident w, s_second = ?s, s_author = author\<rparr>, w2)"
  proof (cases l)
    case Nil
    with w1(1) w2(1) f fl sec show ?thesis by (simp add: gsql_version_begin_def)
  next
    case (Cons si l')
    obtain s i where "si = (s, i)" by force
    with Cons w1(1) w2(1) f fl sec show ?thesis
      by (cases "sec < s") (simp_all add: gsql_version_begin_def)
  qed
  with t2 w2 w1(3) names show ?thesis
    by (intro exI [of _ w2]) (auto simp: hist_of_def)
qed

end

section \<open>An engine that keeps the contract\<close>

text \<open>
  A transaction whose trees are association lists, with the errors of \<^verbatim>\<open>src/gsql/lsm.c\<close> for long
  keys and missing trees (\<^verbatim>\<open>lsm_put\<close>, \<^verbatim>\<open>lsm_tree_create\<close>, \<^verbatim>\<open>lsm_cursor_open\<close>, \<^verbatim>\<open>lsm_seek\<close>); its
  cursor holds the tree as it was and the record it is on.
\<close>

type_synonym rows = "(bytes \<times> bytes) list"

record ref_txn =
  ref_trees :: "(bytes \<times> rows) list"
  ref_id :: u64

type_synonym ref_cursor = "rows \<times> (bytes \<times> bytes) option"

definition ref_put :: "ref_txn \<Rightarrow> bytes \<Rightarrow> bytes \<Rightarrow> bytes \<Rightarrow> u32 \<Rightarrow> gs_status \<times> ref_txn" where
  "ref_put t nm k v flg =
     (if GS_MAX_KEY < length k then (GS_TOO_LARGE, t)
      else case map_of (ref_trees t) nm of
             None \<Rightarrow> (if GS_MAX_KEY < length nm then GS_TOO_LARGE else GS_NOT_FOUND, t)
           | Some l \<Rightarrow>
               if flg AND 1 \<noteq> 0 \<and> map_of l k \<noteq> None then (GS_EXISTS, t)
               else (GS_OK, t\<lparr>ref_trees := AList.update nm (AList.update k v l) (ref_trees t)\<rparr>))"

definition ref_tree_create :: "ref_txn \<Rightarrow> bytes \<Rightarrow> gs_status \<times> ref_txn" where
  "ref_tree_create t nm =
     (if GS_MAX_KEY < length nm then (GS_TOO_LARGE, t)
      else if map_of (ref_trees t) nm \<noteq> None then (GS_EXISTS, t)
      else (GS_OK, t\<lparr>ref_trees := (nm, []) # ref_trees t\<rparr>))"

definition ref_cursor_open :: "ref_txn \<Rightarrow> bytes \<Rightarrow> gs_status + ref_cursor" where
  "ref_cursor_open t nm =
     (case map_of (ref_trees t) nm of
        None \<Rightarrow> Inl (if GS_MAX_KEY < length nm then GS_TOO_LARGE else GS_NOT_FOUND)
      | Some l \<Rightarrow> Inr (l, None))"

text \<open>The record a seek lands on: of those it admits, the nearest.\<close>

definition seek_admits :: "gs_seek \<Rightarrow> bytes \<Rightarrow> bytes \<Rightarrow> bool" where
  "seek_admits md k k' =
     (case md of
        SEEK_GE \<Rightarrow> 0 \<le> bytes_cmp k' k | SEEK_GT \<Rightarrow> 0 < bytes_cmp k' k
      | SEEK_LE \<Rightarrow> bytes_cmp k' k \<le> 0 | SEEK_LT \<Rightarrow> bytes_cmp k' k < 0
      | SEEK_EXACT \<Rightarrow> k' = k)"

definition seek_nearer :: "gs_seek \<Rightarrow> bytes \<Rightarrow> bytes \<Rightarrow> bool" where
  "seek_nearer md a b = (if md = SEEK_GE \<or> md = SEEK_GT then bytes_cmp a b < 0 else 0 < bytes_cmp a b)"

fun nearest :: "gs_seek \<Rightarrow> bytes \<Rightarrow> rows \<Rightarrow> (bytes \<times> bytes) option" where
  "nearest md k [] = None"
| "nearest md k ((k', v) # l) =
     (case nearest md k l of
        None \<Rightarrow> if seek_admits md k k' then Some (k', v) else None
      | Some kv \<Rightarrow> if seek_admits md k k' \<and> \<not> seek_nearer md (fst kv) k' then Some (k', v) else Some kv)"

definition ref_seek :: "ref_cursor \<Rightarrow> bytes \<Rightarrow> gs_seek \<Rightarrow> gs_status \<times> ref_cursor \<times> bool" where
  "ref_seek c k md =
     (if GS_MAX_KEY + 1 < length k then (GS_OK, c, False)
      else let kv = nearest md k (fst c) in (GS_OK, (fst c, kv), kv \<noteq> None))"

definition ref_engine :: "(ref_txn, ref_cursor) gs_engine" where
  "ref_engine =
     \<lparr>e_put = ref_put, e_tree_create = ref_tree_create, e_cursor_open = ref_cursor_open, e_seek = ref_seek,
      e_key = (\<lambda>c. case snd c of None \<Rightarrow> Inl GS_MISUSE | Some kv \<Rightarrow> Inr (fst kv)),
      e_value = (\<lambda>c. case snd c of None \<Rightarrow> Inl GS_MISUSE | Some kv \<Rightarrow> Inr (snd kv)),
      e_txn_id = Some (\<lambda>t. Inr (ref_id t))\<rparr>"

definition ref_view :: "ref_txn \<Rightarrow> bytes \<Rightarrow> (bytes \<rightharpoonup> bytes) option" where
  "ref_view t nm = map_option map_of (map_of (ref_trees t) nm)"

lemma nearest_LE:
  "case nearest SEEK_LE k l of
     None \<Rightarrow> \<forall>k' \<in> dom (map_of l). 0 < bytes_cmp k' k
   | Some kv \<Rightarrow> floor_entry (map_of l) k (fst kv) (snd kv)"
proof (induction l)
  case Nil
  then show ?case by simp
next
  case (Cons x l)
  obtain k' v where x: "x = (k', v)" by force
  have "bytes_cmp z z = 0" for z by (simp add: bytes_cmp_eq_0)
  then have self: "bytes_cmp z z \<le> 0" for z by simp
  show ?case
  proof (cases "nearest SEEK_LE k l")
    case None
    with Cons.IH have none: "\<And>u. u \<in> dom (map_of l) \<Longrightarrow> 0 < bytes_cmp u k" by simp
    show ?thesis
      using None none self by (fastforce simp: x seek_admits_def floor_entry_def)
  next
    case (Some kv)
    with Cons.IH have f: "map_of l (fst kv) = Some (snd kv)" "bytes_cmp (fst kv) k \<le> 0"
      "\<And>u. u \<in> dom (map_of l) \<Longrightarrow> bytes_cmp u k \<le> 0 \<Longrightarrow> bytes_cmp u (fst kv) \<le> 0"
      by (auto simp: floor_entry_def)
    show ?thesis
    proof (cases "bytes_cmp k' k \<le> 0 \<and> \<not> 0 < bytes_cmp (fst kv) k'")
      case True
      then have le: "bytes_cmp (fst kv) k' \<le> 0" "bytes_cmp k' k \<le> 0" by simp_all
      have "bytes_cmp u k' \<le> 0" if "u \<in> dom (map_of ((k', v) # l))" "bytes_cmp u k \<le> 0" for u
        using that f(3) [of u] le(1) self bytes_cmp_trans [of u "fst kv" k'] by (cases "u = k'") auto
      with Some True le(2) show ?thesis
        by (auto simp: x seek_admits_def seek_nearer_def floor_entry_def)
    next
      case False
      have ne: "fst kv \<noteq> k'" using False f(2) bytes_cmp_eq_0 [of k' k'] by auto
      have k'le: "bytes_cmp k' (fst kv) \<le> 0" if "bytes_cmp k' k \<le> 0"
        using False that bytes_cmp_swap [of "fst kv" k'] by simp
      have "bytes_cmp u (fst kv) \<le> 0" if "u \<in> dom (map_of ((k', v) # l))" "bytes_cmp u k \<le> 0" for u
        using that f(3) [of u] k'le by (cases "u = k'") auto
      with Some False ne f(1,2) show ?thesis
        by (auto simp: x seek_admits_def seek_nearer_def floor_entry_def)
    qed
  qed
qed

interpretation reference: ordered_engine ref_engine ref_view ref_id
proof
  fix t :: ref_txn and nm k v and m
  show "\<exists>t'. e_put ref_engine t nm k v 0 = (GS_OK, t') \<and> ref_view t' = (ref_view t)(nm \<mapsto> m(k \<mapsto> v)) \<and> ref_id t' = ref_id t"
    if "ref_view t nm = Some m" "length k \<le> GS_MAX_KEY"
    using that by (auto simp: ref_engine_def ref_put_def ref_view_def fun_eq_iff update_conv')
  show "e_put ref_engine t nm k v 0 = (GS_NOT_FOUND, t)" if "ref_view t nm = None" "length nm \<le> GS_MAX_KEY" "length k \<le> GS_MAX_KEY"
    using that by (simp add: ref_engine_def ref_put_def ref_view_def)
  show "\<exists>t'. e_tree_create ref_engine t nm = (GS_OK, t') \<and> ref_view t' = (ref_view t)(nm \<mapsto> Map.empty) \<and> ref_id t' = ref_id t"
    if "ref_view t nm = None" "length nm \<le> GS_MAX_KEY"
    using that by (auto simp: ref_engine_def ref_tree_create_def ref_view_def fun_eq_iff)
  show "e_cursor_open ref_engine t nm = Inl GS_NOT_FOUND" if "ref_view t nm = None" "length nm \<le> GS_MAX_KEY"
    using that by (simp add: ref_engine_def ref_cursor_open_def ref_view_def)
  show "\<exists>c. e_cursor_open ref_engine t nm = Inr c \<and>
      ((\<forall>k' \<in> dom m. 0 < bytes_cmp k' k) \<and> (\<exists>c'. e_seek ref_engine c k SEEK_LE = (GS_OK, c', False)) \<or>
       (\<exists>c' k' v. e_seek ref_engine c k SEEK_LE = (GS_OK, c', True) \<and> e_key ref_engine c' = Inr k' \<and>
         e_value ref_engine c' = Inr v \<and> floor_entry m k k' v))"
    if asm: "ref_view t nm = Some m" "length k \<le> GS_MAX_KEY"
  proof -
    from asm(1) obtain l where l: "map_of (ref_trees t) nm = Some l" "m = map_of l"
      by (auto simp: ref_view_def)
    note near = nearest_LE [where k = k and l = l]
    from near show ?thesis
      using l asm(2) by (cases "nearest SEEK_LE k l") (auto simp: ref_engine_def ref_cursor_open_def ref_seek_def)
  qed
  show "\<exists>f. e_txn_id ref_engine = Some f \<and> f t = Inr (ref_id t)"
    by (simp add: ref_engine_def)
qed

section \<open>Properties\<close>

text \<open>A temporal column's history, over any engine that keeps the contract of
  \<^verbatim>\<open>include/gsql_store.h\<close>: after any run of writes and removals of any columns whose ids never go
  back, a read of a column as of any id answers the value the newest write at or before that id left,
  with its stamp, and not-found where there was none or it was removed. Several writes under one id,
  equal ids across columns, and columns whose names are prefixes of each other do not disturb it.\<close>

theorem version_store_reads_history:
  assumes "ordered_engine e trees ident" "hist_of (trees w) = Map.empty"
    and "\<forall>(a, now, v) \<in> set evs. col_ok a"
    and "\<And>a. col_ok a \<Longrightarrow> ids_grow (col_history evs a [])"
  shows "\<exists>cur w'. version_run e evs (\<lambda>_. None, w) = (GS_OK, (cur, w')) \<and>
    (\<forall>tb r c x. col_ok (tb, r, c) \<longrightarrow>
      gsql_version_asof e w' tb r c x (map_option fst (cur (tb, r, c)))
          (case cur (tb, r, c) of Some (_, v) \<Rightarrow> v | None \<Rightarrow> []) =
        (case value_as_of (col_history evs (tb, r, c) []) x of None \<Rightarrow> Inl GS_NOT_FOUND | Some sv \<Rightarrow> Inr sv))"
proof -
  have "agrees trees (\<lambda>_. None, w) (\<lambda>_. [])"
    using assms(2) by (simp add: agrees_def wf_history_def current_of_def kept_of_def kept_def)
  from ordered_engine.version_run_agrees [OF assms(1) this assms(3)] assms(4) obtain cur w' where
    run: "version_run e evs (\<lambda>_. None, w) = (GS_OK, (cur, w'))"
      "agrees trees (cur, w') (\<lambda>a. col_history evs a [])" by auto
  from ordered_engine.asof_agrees [OF assms(1) run(2)] run(1) show ?thesis by blast
qed

definition demo_events :: "col_event list" where
  "demo_events =
     [(([1], [2], 3), \<lparr>s_start = 5, s_second = 100, s_author = 1\<rparr>, Some [10]),
      (([1], [2], 4), \<lparr>s_start = 6, s_second = 100, s_author = 1\<rparr>, Some [11]),
      (([1], [2], 3), \<lparr>s_start = 7, s_second = 101, s_author = 2\<rparr>, Some [12]),
      (([1], [2], 3), \<lparr>s_start = 9, s_second = 102, s_author = 2\<rparr>, None)]"

lemma version_store_reads_history_witness:
  "\<exists>cur w'. version_run ref_engine demo_events (\<lambda>_. None, \<lparr>ref_trees = [], ref_id = 5\<rparr>) = (GS_OK, (cur, w')) \<and>
     gsql_version_asof ref_engine w' [1] [2] 3 6 (map_option fst (cur ([1], [2], 3)))
       (case cur ([1], [2], 3) of Some (_, v) \<Rightarrow> v | None \<Rightarrow> []) =
     Inr (\<lparr>s_start = 5, s_second = 100, s_author = 1\<rparr>, [10]) \<and>
     gsql_version_asof ref_engine w' [1] [2] 3 9 (map_option fst (cur ([1], [2], 3)))
       (case cur ([1], [2], 3) of Some (_, v) \<Rightarrow> v | None \<Rightarrow> []) = Inl GS_NOT_FOUND"
proof -
  let ?w = "\<lparr>ref_trees = [], ref_id = 5\<rparr>"
  have ok: "col_ok ([1], [2], 3)" "col_ok ([1], [2], 4)"
    by (simp_all add: col_ok_def col_key_def hist_key_def hist_prefix_def GS_MAX_KEY_def varint_put.simps)
  have fresh: "hist_of (ref_view ?w) = Map.empty" by (simp add: hist_of_def ref_view_def)
  have cols: "\<forall>(a, now, v) \<in> set demo_events. col_ok a" using ok by (simp add: demo_events_def)
  have grow: "ids_grow (col_history demo_events a [])" for a
    by (simp add: demo_events_def started_def)
  from version_store_reads_history [OF reference.ordered_engine_axioms fresh cols grow] obtain cur w' where
    run: "version_run ref_engine demo_events (\<lambda>_. None, ?w) = (GS_OK, (cur, w'))"
    and reads: "\<forall>tb r c x. col_ok (tb, r, c) \<longrightarrow>
      gsql_version_asof ref_engine w' tb r c x (map_option fst (cur (tb, r, c)))
          (case cur (tb, r, c) of Some (_, v) \<Rightarrow> v | None \<Rightarrow> []) =
        (case value_as_of (col_history demo_events (tb, r, c) []) x of None \<Rightarrow> Inl GS_NOT_FOUND | Some sv \<Rightarrow> Inr sv)"
    by blast
  from reads ok(1) have "gsql_version_asof ref_engine w' [1] [2] 3 x (map_option fst (cur ([1], [2], 3)))
      (case cur ([1], [2], 3) of Some (_, v) \<Rightarrow> v | None \<Rightarrow> []) =
    (case value_as_of (col_history demo_events ([1], [2], 3) []) x of None \<Rightarrow> Inl GS_NOT_FOUND | Some sv \<Rightarrow> Inr sv)"
    for x by blast
  from this [of 6] this [of 9] run show ?thesis
    by (simp add: demo_events_def value_as_of_def started_def)
qed

text \<open>The clock index: beginning a versioning commit stamps it with the transaction's id and a
  second that is never before the last commit's, even where the machine's clock went back, and from
  then on every second maps to the newest commit stamped at or before it.\<close>

theorem version_clock_never_goes_back:
  assumes "ordered_engine e trees ident" "time_agrees (trees w) l"
  shows "\<exists>w'. gsql_version_begin e w sec author =
      (Inr \<lparr>s_start = ident w, s_second = clamp_second l sec, s_author = author\<rparr>, w') \<and>
    time_agrees (trees w') ((clamp_second l sec, ident w) # l) \<and>
    (\<forall>x. gsql_version_at e w' x = (GS_OK, commit_at ((clamp_second l sec, ident w) # l) x))"
  using ordered_engine.version_begin_agrees [OF assms, of sec author]
    ordered_engine.version_at_agrees [OF assms(1)] by blast

lemma version_clock_never_goes_back_witness:
  "\<exists>w'. gsql_version_begin ref_engine \<lparr>ref_trees = [(TIME_NAME, [(put_be 8 (50 :: u64), put_le 8 (2 :: u64))])], ref_id = 5\<rparr> 40 7 =
      (Inr \<lparr>s_start = 5, s_second = 50, s_author = 7\<rparr>, w') \<and>
    gsql_version_at ref_engine w' 49 = (GS_OK, 0) \<and> gsql_version_at ref_engine w' 60 = (GS_OK, 5)"
proof -
  let ?w = "\<lparr>ref_trees = [(TIME_NAME, [(put_be 8 (50 :: u64), put_le 8 (2 :: u64))])], ref_id = 5\<rparr>"
  have "time_agrees (ref_view ?w) [(50, 2)]"
    by (auto simp: time_agrees_def ref_view_def time_tree_def fun_eq_iff)
  from version_clock_never_goes_back [OF reference.ordered_engine_axioms this, of 40 7] obtain w' where
    b: "gsql_version_begin ref_engine ?w 40 7 = (Inr \<lparr>s_start = 5, s_second = 50, s_author = 7\<rparr>, w')"
    and at: "\<And>x. gsql_version_at ref_engine w' x = (GS_OK, commit_at [(50, 5), (50, 2)] x)"
    by (auto simp: clamp_second_def)
  from b at [of 49] at [of 60] show ?thesis by (simp add: commit_at_def)
qed

end
