(* ===== verification/Chars.thy ===== *)
theory Chars
  imports Prelude
begin

text \<open>
  C characters and strings as lists of characters: the \<^verbatim>\<open>ctype.h\<close> functions of the C locale, the
  tests the lexer writes out again and again, and reading at a pointer (\<open>hd0\<close>: NUL at the end).
\<close>

section \<open>Characters\<close>

abbreviation (input) NUL :: char where "NUL \<equiv> CHR 0x00"
abbreviation (input) TAB :: char where "TAB \<equiv> CHR 0x09"
abbreviation (input) NL :: char where "NL \<equiv> CHR 0x0A"
abbreviation (input) CR :: char where "CR \<equiv> CHR 0x0D"
abbreviation (input) DQUOTE :: char where "DQUOTE \<equiv> CHR 0x22"
abbreviation (input) QUOTE :: char where "QUOTE \<equiv> CHR 0x27"
abbreviation (input) BACKSLASH :: char where "BACKSLASH \<equiv> CHR 0x5C"

definition isdigit :: "char \<Rightarrow> bool" where
  "isdigit c \<longleftrightarrow> (let n = (of_char c :: nat) in 48 \<le> n \<and> n \<le> 57)"

definition isupper :: "char \<Rightarrow> bool" where
  "isupper c \<longleftrightarrow> (let n = (of_char c :: nat) in 65 \<le> n \<and> n \<le> 90)"

definition isalpha :: "char \<Rightarrow> bool" where
  "isalpha c \<longleftrightarrow> isupper c \<or> (let n = (of_char c :: nat) in 97 \<le> n \<and> n \<le> 122)"

definition isalnum :: "char \<Rightarrow> bool" where
  "isalnum c \<longleftrightarrow> isalpha c \<or> isdigit c"

definition isxdigit :: "char \<Rightarrow> bool" where
  "isxdigit c \<longleftrightarrow>
     (let n = (of_char c :: nat) in isdigit c \<or> 65 \<le> n \<and> n \<le> 70 \<or> 97 \<le> n \<and> n \<le> 102)"

definition tolower :: "char \<Rightarrow> char" where
  "tolower c = (if isupper c then char_of (of_char c + 32 :: nat) else c)"

text \<open>The tests the code writes out again and again.\<close>

definition is_blank :: "char \<Rightarrow> bool" where
  "is_blank c \<longleftrightarrow> c = CHR '' '' \<or> c = TAB"

definition is_blank_cr :: "char \<Rightarrow> bool" where
  "is_blank_cr c \<longleftrightarrow> is_blank c \<or> c = CR"

definition word_start :: "char \<Rightarrow> bool" where
  "word_start c \<longleftrightarrow> isalpha c \<or> c = CHR ''_''"

definition word_char :: "char \<Rightarrow> bool" where
  "word_char c \<longleftrightarrow> isalnum c \<or> c = CHR ''_''"

definition hd0 :: "string \<Rightarrow> char" where
  "hd0 p = (case p of [] \<Rightarrow> NUL | c # _ \<Rightarrow> c)"

text \<open>The decimal digits of a number, as \<^verbatim>\<open>printf\<close> writes them.\<close>

fun decimal :: "nat \<Rightarrow> string" where
  "decimal n = (if n < 10 then [char_of (48 + n)] else decimal (n div 10) @ [char_of (48 + n mod 10)])"

declare decimal.simps [simp del]

end
