(* ===== verification/Lexer.thy ===== *)
theory Lexer
  imports Chars
begin

text \<open>
  \<^verbatim>\<open>src/lexer.c\<close>: gBASIC's lexer. A C string is a list of characters without NUL; the pointer
  \<^verbatim>\<open>current\<close> is an index into it, and a probing pointer is the text from there on, which reads as
  NUL at its end (\<open>hd0\<close>). Lines and columns are C \<^verbatim>\<open>int\<close>s that do not overflow here.
\<close>

section \<open>Tokens and the lexer\<close>

text \<open>The constructors of \<^verbatim>\<open>TokenType\<close>, in four groups: the reserved words (in the order
  \<^verbatim>\<open>identifier_type\<close> tries them), the operators and punctuation, and the rest.\<close>

datatype structure_word =
    TOKEN_PROGRAM | TOKEN_LIBRARY | TOKEN_LOAD | TOKEN_USE | TOKEN_EXPORT | TOKEN_IF | TOKEN_THEN
  | TOKEN_ELSE | TOKEN_END | TOKEN_FOR | TOKEN_TO | TOKEN_STEP | TOKEN_DO | TOKEN_UNTIL
  | TOKEN_WHILE | TOKEN_CONSIDER | TOKEN_BREAK | TOKEN_CONTINUE | TOKEN_FUNCTION | TOKEN_RETURN
  | TOKEN_PRINT | TOKEN_DIM | TOKEN_AS

datatype reserved_word =
    TOKEN_WATCH | TOKEN_UNWATCH | TOKEN_WITHOUT | TOKEN_WATCHERS | TOKEN_MODIFIER | TOKEN_GOTO
  | TOKEN_GOSUB | TOKEN_WITH | TOKEN_NEW | TOKEN_SPAWN | TOKEN_ON | TOKEN_NEXT | TOKEN_STOP
  | TOKEN_ERROR_VALUE | TOKEN_TRUE | TOKEN_FALSE | TOKEN_NOTHING | TOKEN_UNKNOWN | TOKEN_AND
  | TOKEN_OR | TOKEN_NOT | TOKEN_TRY | TOKEN_EXCLUDING | TOKEN_INTERSECTING | TOKEN_IN | TOKEN_EACH

datatype symbol =
    TOKEN_OP_EQ | TOKEN_OP_NE | TOKEN_OP_GT | TOKEN_OP_LT | TOKEN_OP_GE | TOKEN_OP_LE
  | TOKEN_OP_NGT | TOKEN_OP_NLT | TOKEN_OP_NGE | TOKEN_OP_NLE | TOKEN_PLUS | TOKEN_MINUS
  | TOKEN_STAR | TOKEN_SLASH | TOKEN_PLUS_EQ | TOKEN_MINUS_EQ | TOKEN_STAR_EQ | TOKEN_SLASH_EQ
  | TOKEN_LPAREN | TOKEN_RPAREN | TOKEN_LBRACKET | TOKEN_RBRACKET | TOKEN_LBRACE | TOKEN_RBRACE
  | TOKEN_COMMA | TOKEN_DOT | TOKEN_COLON

datatype token_type =
    TOKEN_EOF | TOKEN_IDENT | TOKEN_QUALIFIED_IDENT | TOKEN_NUMBER | TOKEN_STRING
  | TOKEN_LENS_CONTENT | Structure structure_word | Reserved reserved_word | Symbol symbol
  | TOKEN_CONSIDER_IF | TOKEN_CONSIDER_ELSE | TOKEN_END_CONSIDER
  | TOKEN_MODIFIER_PREFIX | TOKEN_MODIFIER_VALUE | TOKEN_WINDOW_OPEN | TOKEN_DATABASE_OPEN
  | TOKEN_SQL_OPEN | TOKEN_SQL_TEXT | TOKEN_NEWLINE | TOKEN_ERROR

record token =
  t_type :: token_type
  t_start :: nat
  t_length :: nat
  t_line :: nat
  t_column :: nat

record lexer =
  source :: string
  current :: nat
  error_message :: string
  line :: nat
  column :: nat
  lens_content_mode :: bool
  consider_depth :: nat
  consider_columns :: "nat list"
  bracket_depth :: nat
  bracket_lines :: "nat list"
  bracket_chars :: string
  sql_body_pending :: nat
  sql_open_line :: nat

definition GBASIC_BRACKET_STACK :: nat where
  "GBASIC_BRACKET_STACK = 64"

definition text_at :: "lexer \<Rightarrow> string" where
  "text_at lx = drop (current lx) (source lx)"

text \<open>The index of a probing pointer.\<close>

definition index_of :: "lexer \<Rightarrow> string \<Rightarrow> nat" where
  "index_of lx p = length (source lx) - length p"

section \<open>The cursor\<close>

definition is_at_end :: "lexer \<Rightarrow> bool" where
  "is_at_end lx \<longleftrightarrow> hd0 (text_at lx) = NUL"

definition peek_char :: "lexer \<Rightarrow> char" where
  "peek_char lx = hd0 (text_at lx)"

definition peek_next :: "lexer \<Rightarrow> char" where
  "peek_next lx = (if is_at_end lx then NUL else hd0 (tl (text_at lx)))"

definition advance :: "lexer \<Rightarrow> lexer" where
  "advance lx =
     (let ch = peek_char lx
      in if ch \<noteq> NUL then
           if ch = NL then lx\<lparr>current := current lx + 1, line := line lx + 1, column := 1\<rparr>
           else lx\<lparr>current := current lx + 1, column := column lx + 1\<rparr>
         else lx)"

text \<open>What is left of the text, the measure of every loop.\<close>

definition remaining :: "lexer \<Rightarrow> nat" where
  "remaining lx = length (source lx) - current lx"

lemma not_at_end: "\<not> is_at_end lx \<Longrightarrow> current lx < length (source lx)"
  by (cases "current lx < length (source lx)") (simp_all add: is_at_end_def text_at_def hd0_def)

lemma advance_source [simp]: "source (advance lx) = source lx"
  by (simp add: advance_def Let_def)

lemma advance_current: "\<not> is_at_end lx \<Longrightarrow> current (advance lx) = current lx + 1"
  by (simp add: advance_def Let_def is_at_end_def peek_char_def)

text \<open>\<^verbatim>\<open>while (p(peek(lexer))) advance(lexer);\<close> where \<open>p\<close> is false of NUL.\<close>

function advance_while :: "(char \<Rightarrow> bool) \<Rightarrow> lexer \<Rightarrow> lexer" where
  "advance_while p lx =
     (if \<not> is_at_end lx \<and> p (peek_char lx) then advance_while p (advance lx) else lx)"
  by pat_completeness auto

termination
  by (relation "measure (\<lambda>(p, lx). remaining lx)") (auto simp: remaining_def advance_current dest: not_at_end)

declare advance_while.simps [simp del]

definition match_char :: "lexer \<Rightarrow> char \<Rightarrow> bool \<times> lexer" where
  "match_char lx expected =
     (if is_at_end lx \<or> peek_char lx \<noteq> expected then (False, lx) else (True, advance lx))"

section \<open>Making tokens\<close>

definition make_token :: "lexer \<Rightarrow> token_type \<Rightarrow> nat \<Rightarrow> nat \<Rightarrow> nat \<Rightarrow> token" where
  "make_token lx ty start ln col =
     \<lparr>t_type = ty, t_start = start, t_length = current lx - start, t_line = ln, t_column = col\<rparr>"

definition error_token :: "lexer \<Rightarrow> nat \<Rightarrow> nat \<Rightarrow> nat \<Rightarrow> token" where
  "error_token lx start ln col = make_token lx TOKEN_ERROR start ln col"

definition error_token_message :: "lexer \<Rightarrow> nat \<Rightarrow> nat \<Rightarrow> nat \<Rightarrow> string \<Rightarrow> token \<times> lexer" where
  "error_token_message lx start ln col message =
     (let lx = lx\<lparr>error_message := take 95 message\<rparr> in (error_token lx start ln col, lx))"

definition follows_identifier :: "lexer \<Rightarrow> nat \<Rightarrow> bool" where
  "follows_identifier lx start \<longleftrightarrow>
     start \<noteq> 0 \<and> (let prev = source lx ! (start - 1) in prev = CHR ''_'' \<or> isalnum prev)"

definition sigil_error :: "lexer \<Rightarrow> nat \<Rightarrow> nat \<Rightarrow> nat \<Rightarrow> char \<Rightarrow> token \<times> lexer" where
  "sigil_error lx start ln col sigil =
     error_token_message lx start ln col
       (take 95 ([QUOTE] @ [sigil] @ [QUOTE] @ '' is a type sigil; gBASIC has none -- write the name alone''))"

section \<open>Blanks and comments\<close>

text \<open>Every scan is a number of \<^verbatim>\<open>advance\<close>s.\<close>

definition advances :: "lexer \<Rightarrow> lexer \<Rightarrow> bool" where
  "advances lx lx' \<longleftrightarrow> (\<exists>n. lx' = (advance ^^ n) lx)"

lemma advances_refl [simp, intro]: "advances lx lx"
  unfolding advances_def by (rule exI [of _ 0]) simp

lemma advances_step: "advances (advance lx) lx' \<Longrightarrow> advances lx lx'"
  unfolding advances_def by (metis funpow_Suc_right o_apply)

lemma advances_trans [trans]: "advances lx lx' \<Longrightarrow> advances lx' lx'' \<Longrightarrow> advances lx lx''"
  unfolding advances_def by (metis funpow_add o_apply)

lemma advances_advance [simp, intro]: "advances lx (advance lx)"
  by (rule advances_step) simp

lemma advances_induct [consumes 1, case_names refl step]:
  assumes "advances lx lx'" "P lx" "\<And>l. P l \<Longrightarrow> P (advance l)"
  shows "P lx'"
proof -
  have "P ((advance ^^ n) lx)" for n
    by (induction n) (simp_all add: assms(2,3))
  then show ?thesis using assms(1) by (auto simp: advances_def)
qed

lemma advances_source: "advances lx lx' \<Longrightarrow> source lx' = source lx"
  by (induction rule: advances_induct) simp_all

lemma advances_current: "advances lx lx' \<Longrightarrow> current lx \<le> current lx'"
  by (induction rule: advances_induct) (simp_all add: advance_def Let_def)

lemma advance_while_advances: "advances lx (advance_while p lx)"
proof (induction p lx rule: advance_while.induct)
  case (1 p lx)
  then show ?case by (subst advance_while.simps) (auto intro: advances_step)
qed

lemma advance_while_progress:
  assumes "p (peek_char lx)" "peek_char lx \<noteq> NUL"
  shows "current lx < current (advance_while p lx)"
proof -
  have e: "\<not> is_at_end lx" using assms(2) by (simp add: is_at_end_def peek_char_def)
  then have "current lx < current (advance lx)" by (simp add: advance_current)
  also have "\<dots> \<le> current (advance_while p (advance lx))"
    by (rule advances_current [OF advance_while_advances])
  finally show ?thesis using assms e by (subst advance_while.simps) simp
qed

lemma peek_not_end: "peek_char lx = c \<Longrightarrow> c \<noteq> NUL \<Longrightarrow> \<not> is_at_end lx"
  by (simp add: is_at_end_def peek_char_def)

lemma advances_shrinks: "\<not> is_at_end lx \<Longrightarrow> advances (advance lx) lx' \<Longrightarrow> remaining lx' < remaining lx"
  using advances_current [of "advance lx" lx'] advances_source [of "advance lx" lx'] not_at_end [of lx]
  by (simp add: advance_current remaining_def)

lemma advance_shrinks: "\<not> is_at_end lx \<Longrightarrow> remaining (advance lx) < remaining lx"
  by (rule advances_shrinks) simp_all

lemma advance_while_step: "advances lx lx' \<Longrightarrow> advances lx (advance_while p lx')"
  by (rule advances_trans [OF _ advance_while_advances])

lemma advance_step: "advances lx lx' \<Longrightarrow> advances lx (advance lx')"
  by (rule advances_trans [OF _ advances_advance])

function skip_spaces_and_comments :: "lexer \<Rightarrow> lexer" where
  "skip_spaces_and_comments lx =
     (let ch = peek_char lx
      in if ch = CHR '' '' \<or> ch = CR \<or> ch = TAB then skip_spaces_and_comments (advance lx)
         else if ch = QUOTE then skip_spaces_and_comments (advance_while (\<lambda>c. c \<noteq> NL) lx)
         else lx)"
  by pat_completeness auto

termination
proof (relation "measure remaining")
  fix lx ch assume "ch = peek_char lx" "ch = CHR '' '' \<or> ch = CR \<or> ch = TAB"
  then show "(advance lx, lx) \<in> measure remaining"
    by (auto simp: is_at_end_def peek_char_def intro!: advance_shrinks)
next
  fix lx ch assume "ch = peek_char lx" "ch = QUOTE"
  then have "peek_char lx = QUOTE" by simp
  with advance_while_progress [of "\<lambda>c. c \<noteq> NL" lx] peek_not_end [of lx QUOTE] not_at_end [of lx]
    advances_source [OF advance_while_advances, of "\<lambda>c. c \<noteq> NL" lx]
  show "(advance_while (\<lambda>c. c \<noteq> NL) lx, lx) \<in> measure remaining"
    by (simp add: remaining_def)
qed simp

declare skip_spaces_and_comments.simps [simp del]

lemma skip_spaces_advances: "advances lx (skip_spaces_and_comments lx)"
proof (induction lx rule: skip_spaces_and_comments.induct)
  case (1 lx)
  then show ?case
    by (subst skip_spaces_and_comments.simps)
      (auto simp: Let_def intro: advances_step advances_trans [OF advance_while_advances])
qed

text \<open>Inside brackets a line break is blank: the loop of \<^verbatim>\<open>lexer_next\<close>.\<close>

function skip_line_breaks :: "lexer \<Rightarrow> lexer" where
  "skip_line_breaks lx =
     (if 0 < bracket_depth lx \<and> \<not> is_at_end lx \<and> peek_char lx = NL
      then skip_line_breaks (skip_spaces_and_comments (advance lx)) else lx)"
  by pat_completeness auto

termination
  by (relation "measure remaining")
    (auto intro!: advances_shrinks advances_trans [OF _ skip_spaces_advances])

declare skip_line_breaks.simps [simp del]

section \<open>Strings and lens contents\<close>

text \<open>Behind a backslash: the error, or none and the cursor behind the escape.\<close>

definition string_escape :: "lexer \<Rightarrow> string option \<times> lexer" where
  "string_escape lx =
     (if is_at_end lx \<or> peek_char lx = NL then (Some ''unterminated escape sequence'', lx)
      else let esc = peek_char lx; lx = advance lx
      in if esc \<noteq> CHR ''u'' then (None, lx)
         else if is_at_end lx \<or> peek_char lx \<noteq> CHR ''{''
         then (Some (''invalid escape sequence: '' @ [BACKSLASH] @ ''u must be followed by {''), lx)
         else let lx = advance lx; first = current lx; lx = advance_while isxdigit lx;
                  digits = current lx - first
         in if is_at_end lx \<or> peek_char lx \<noteq> CHR ''}''
            then (Some (''invalid unicode escape: expected } after '' @ [BACKSLASH] @ ''u{''), lx)
            else let lx = advance lx
            in if digits = 0
               then (Some (''invalid unicode escape: '' @ [BACKSLASH] @ ''u{} needs hex digits''), lx)
               else (None, lx))"

lemma string_escape_advances: "advances lx (snd (string_escape lx))"
  by (simp add: string_escape_def Let_def advance_step advance_while_step)

text \<open>\<^verbatim>\<open>string_token\<close>'s loop from behind the opening quote: the error, or none at the closing quote.\<close>

function string_loop :: "lexer \<Rightarrow> string option \<times> lexer" where
  "string_loop lx =
     (if is_at_end lx then (Some ''unterminated string'', lx)
      else let ch = peek_char lx; lx = advance lx
      in if ch = DQUOTE then (None, lx)
         else if ch = BACKSLASH then
           (case string_escape lx of
              (None, lx) \<Rightarrow> string_loop lx
            | (Some message, lx) \<Rightarrow> (Some message, lx))
         else string_loop lx)"
  by pat_completeness auto

termination
proof (relation "measure remaining")
  fix lx ch l esc l'
  assume "\<not> is_at_end lx" "l = advance lx" "(esc, l') = string_escape l"
  then show "(l', lx) \<in> measure remaining"
    using string_escape_advances [of l] advances_shrinks [of lx l'] by (metis in_measure snd_conv)
qed (auto intro: advance_shrinks)

declare string_loop.simps [simp del]

definition string_token :: "lexer \<Rightarrow> nat \<Rightarrow> nat \<Rightarrow> nat \<Rightarrow> token \<times> lexer" where
  "string_token lx start ln col =
     (case string_loop lx of
        (None, lx) \<Rightarrow> (make_token lx TOKEN_STRING start ln col, lx)
      | (Some message, lx) \<Rightarrow> error_token_message lx start ln col message)"

text \<open>The loop of \<^verbatim>\<open>lens_content_token\<close>: whether the closing brace was met.\<close>

function lens_loop :: "bool \<Rightarrow> bool \<Rightarrow> lexer \<Rightarrow> bool \<times> lexer" where
  "lens_loop in_string esc lx =
     (if is_at_end lx then (False, lx)
      else let ch = peek_char lx
      in if esc then lens_loop in_string False (advance lx)
         else if in_string \<and> ch = BACKSLASH then lens_loop in_string True (advance lx)
         else let in_string = (if ch = DQUOTE then \<not> in_string else in_string)
         in if \<not> in_string \<and> ch = CHR ''}'' then (True, lx)
            else if ch = NL then (False, lx)
            else lens_loop in_string False (advance lx))"
  by pat_completeness auto

termination
  by (relation "measure (\<lambda>(in_string, esc, lx). remaining lx)") (auto intro!: advance_shrinks)

declare lens_loop.simps [simp del]

definition lens_content_token :: "lexer \<Rightarrow> token \<times> lexer" where
  "lens_content_token lx =
     (let start = current lx; ln = line lx; col = column lx;
          (closed, lx) = lens_loop False False lx
      in if closed then (make_token lx TOKEN_LENS_CONTENT start ln col, lx\<lparr>lens_content_mode := False\<rparr>)
         else let lx = lx\<lparr>lens_content_mode := False\<rparr> in (error_token lx start ln col, lx))"

definition lexer_begin_lens_content :: "lexer \<Rightarrow> lexer" where
  "lexer_begin_lens_content lx = lx\<lparr>lens_content_mode := True\<rparr>"

section \<open>Numbers\<close>

text \<open>From behind the first digit.\<close>

definition number_is_hex :: "lexer \<Rightarrow> nat \<Rightarrow> bool" where
  "number_is_hex lx start \<longleftrightarrow>
     source lx ! start = CHR ''0'' \<and> (peek_char lx = CHR ''x'' \<or> peek_char lx = CHR ''X'') \<and>
     isxdigit (peek_next lx)"

definition number_fraction :: "lexer \<Rightarrow> lexer" where
  "number_fraction lx =
     (if peek_char lx = CHR ''.'' \<and> isdigit (peek_next lx) then advance_while isdigit (advance lx) else lx)"

definition number_exponent :: "lexer \<Rightarrow> lexer" where
  "number_exponent lx =
     (if peek_char lx = CHR ''e'' \<or> peek_char lx = CHR ''E'' then
        let rest = tl (text_at lx);
            rest = (if hd0 rest = CHR ''+'' \<or> hd0 rest = CHR ''-'' then tl rest else rest)
        in if isdigit (hd0 rest) then
             let lx = advance lx;
                 lx = (if peek_char lx = CHR ''+'' \<or> peek_char lx = CHR ''-'' then advance lx else lx)
             in advance_while isdigit lx
           else lx
      else lx)"

definition number_token :: "lexer \<Rightarrow> nat \<Rightarrow> nat \<Rightarrow> nat \<Rightarrow> token \<times> lexer" where
  "number_token lx start ln col =
     (let lx = (if number_is_hex lx start then advance_while isxdigit (advance lx)
                else number_exponent (number_fraction (advance_while isdigit lx)))
      in (make_token lx TOKEN_NUMBER start ln col, lx))"

section \<open>Words\<close>

definition keyword_equals :: "string \<Rightarrow> string \<Rightarrow> bool" where
  "keyword_equals span keyword \<longleftrightarrow>
     length span = length keyword \<and> (\<forall>i < length span. tolower (span ! i) = keyword ! i)"

definition keyword_table :: "(string \<times> token_type) list" where
  "keyword_table =
     [(''program'', Structure TOKEN_PROGRAM), (''library'', Structure TOKEN_LIBRARY), (''load'', Structure TOKEN_LOAD),
      (''use'', Structure TOKEN_USE), (''export'', Structure TOKEN_EXPORT), (''if'', Structure TOKEN_IF),
      (''then'', Structure TOKEN_THEN), (''else'', Structure TOKEN_ELSE), (''end'', Structure TOKEN_END),
      (''for'', Structure TOKEN_FOR), (''to'', Structure TOKEN_TO), (''step'', Structure TOKEN_STEP),
      (''do'', Structure TOKEN_DO), (''until'', Structure TOKEN_UNTIL), (''while'', Structure TOKEN_WHILE),
      (''consider'', Structure TOKEN_CONSIDER), (''break'', Structure TOKEN_BREAK),
      (''continue'', Structure TOKEN_CONTINUE), (''function'', Structure TOKEN_FUNCTION),
      (''return'', Structure TOKEN_RETURN), (''print'', Structure TOKEN_PRINT), (''dim'', Structure TOKEN_DIM),
      (''as'', Structure TOKEN_AS), (''watch'', Reserved TOKEN_WATCH), (''unwatch'', Reserved TOKEN_UNWATCH),
      (''without'', Reserved TOKEN_WITHOUT), (''watchers'', Reserved TOKEN_WATCHERS),
      (''modifier'', Reserved TOKEN_MODIFIER), (''goto'', Reserved TOKEN_GOTO), (''gosub'', Reserved TOKEN_GOSUB),
      (''with'', Reserved TOKEN_WITH), (''new'', Reserved TOKEN_NEW), (''spawn'', Reserved TOKEN_SPAWN),
      (''on'', Reserved TOKEN_ON), (''next'', Reserved TOKEN_NEXT), (''stop'', Reserved TOKEN_STOP),
      (''error'', Reserved TOKEN_ERROR_VALUE), (''true'', Reserved TOKEN_TRUE), (''false'', Reserved TOKEN_FALSE),
      (''nothing'', Reserved TOKEN_NOTHING), (''unknown'', Reserved TOKEN_UNKNOWN), (''and'', Reserved TOKEN_AND),
      (''or'', Reserved TOKEN_OR), (''not'', Reserved TOKEN_NOT), (''try'', Reserved TOKEN_TRY),
      (''excluding'', Reserved TOKEN_EXCLUDING), (''intersecting'', Reserved TOKEN_INTERSECTING),
      (''in'', Reserved TOKEN_IN), (''each'', Reserved TOKEN_EACH)]"

definition identifier_type :: "string \<Rightarrow> token_type" where
  "identifier_type span =
     (case find (\<lambda>(keyword, _). keyword_equals span keyword) keyword_table of
        Some (_, ty) \<Rightarrow> ty
      | None \<Rightarrow> TOKEN_IDENT)"

definition lexer_identifier_type :: "string \<Rightarrow> token_type" where
  "lexer_identifier_type span = identifier_type span"

section \<open>\<^verbatim>\<open>sql\<close> blocks\<close>

text \<open>Probing pointers are texts here; \<open>None\<close> is the null pointer.\<close>

definition sql_skip_word :: "string \<Rightarrow> string option" where
  "sql_skip_word p = (if word_start (hd0 p) then Some (dropWhile word_char p) else None)"

definition sql_line_ends :: "string \<Rightarrow> bool" where
  "sql_line_ends p =
     (let p = dropWhile is_blank_cr p in hd0 p = NL \<or> hd0 p = QUOTE \<or> hd0 p = NUL)"

definition sql_head_follows :: "string \<Rightarrow> bool" where
  "sql_head_follows p =
     (case sql_skip_word (dropWhile is_blank p) of
        None \<Rightarrow> False
      | Some after \<Rightarrow>
          if \<not> is_blank (hd0 after) then False
          else let on = dropWhile is_blank after
          in (case sql_skip_word on of
                None \<Rightarrow> False
              | Some after \<Rightarrow>
                  if length on - length after \<noteq> 2 \<or> tolower (hd0 on) \<noteq> CHR ''o'' \<or>
                     tolower (hd0 (tl on)) \<noteq> CHR ''n'' \<or> \<not> is_blank (hd0 after) then False
                  else (case sql_skip_word (dropWhile is_blank after) of
                          None \<Rightarrow> False
                        | Some p \<Rightarrow>
                            if hd0 p = CHR ''.'' then
                              (case sql_skip_word (tl p) of None \<Rightarrow> False | Some p \<Rightarrow> sql_line_ends p)
                            else sql_line_ends p)))"

fun sql_word_is :: "string \<Rightarrow> string \<Rightarrow> bool" where
  "sql_word_is p [] = True"
| "sql_word_is p (w # word) = (tolower (hd0 p) = w \<and> sql_word_is (tl p) word)"

definition sql_end_line :: "string \<Rightarrow> bool" where
  "sql_end_line p =
     (let p = dropWhile is_blank p
      in if \<not> sql_word_is p ''end'' \<or> \<not> is_blank (hd0 (drop 3 p)) then False
         else let p = dropWhile is_blank (drop 3 p)
         in if \<not> sql_word_is p ''sql'' then False else sql_line_ends (drop 3 p))"

text \<open>The search for the line that ends the body: whether it was met.\<close>

function sql_body_loop :: "lexer \<Rightarrow> bool \<times> lexer" where
  "sql_body_loop lx =
     (if is_at_end lx then (False, lx)
      else if column lx = 1 \<and> sql_end_line (text_at lx) then (True, lx)
      else sql_body_loop (advance lx))"
  by pat_completeness auto

termination
  by (relation "measure remaining") (auto intro!: advance_shrinks)

declare sql_body_loop.simps [simp del]

definition sql_body_token :: "lexer \<Rightarrow> token \<times> lexer" where
  "sql_body_token lx =
     (let lx = lx\<lparr>sql_body_pending := 0\<rparr>;
          start = current lx; ln = line lx; col = column lx;
          (ended, lx) = sql_body_loop lx
      in if ended then
           (\<lparr>t_type = TOKEN_SQL_TEXT, t_start = start, t_length = current lx - start, t_line = ln, t_column = col\<rparr>, lx)
         else error_token_message lx start ln col
           (take 95 (''unclosed '' @ [QUOTE] @ ''sql'' @ [QUOTE] @ '' block opened on line '' @
             decimal (sql_open_line lx) @ '' -- it ends at a line reading end sql'')))"

section \<open>Brackets\<close>

definition bracket_open :: "lexer \<Rightarrow> char \<Rightarrow> nat \<Rightarrow> lexer" where
  "bracket_open lx ch ln =
     (let lx = (if bracket_depth lx < GBASIC_BRACKET_STACK then
                  lx\<lparr>bracket_chars := (bracket_chars lx)[bracket_depth lx := ch],
                     bracket_lines := (bracket_lines lx)[bracket_depth lx := ln]\<rparr>
                else lx)
      in lx\<lparr>bracket_depth := bracket_depth lx + 1\<rparr>)"

definition lexer_in_brace :: "lexer \<Rightarrow> bool" where
  "lexer_in_brace lx =
     (if bracket_depth lx = 0 \<or> GBASIC_BRACKET_STACK < bracket_depth lx then False
      else bracket_chars lx ! (bracket_depth lx - 1) = CHR ''{'')"

definition bracket_close :: "lexer \<Rightarrow> lexer" where
  "bracket_close lx =
     (if 0 < bracket_depth lx then lx\<lparr>bracket_depth := bracket_depth lx - 1\<rparr> else lx)"

section \<open>Identifiers\<close>

definition span :: "lexer \<Rightarrow> nat \<Rightarrow> string" where
  "span lx start = take (current lx - start) (drop start (source lx))"

text \<open>\<open>IDENT (\<close>, blanks around the identifier: the heads of \<^verbatim>\<open>window\<close> and \<^verbatim>\<open>database\<close> blocks.\<close>

definition block_head_follows :: "string \<Rightarrow> bool" where
  "block_head_follows p =
     (let probe = dropWhile is_blank p
      in word_start (hd0 probe) \<and> hd0 (dropWhile is_blank (dropWhile word_char probe)) = CHR ''('')"

text \<open>The column the innermost \<^verbatim>\<open>consider\<close> began at. The array has 64 places; \<open>None\<close> is a read past
  it, whose outcome C leaves undefined.\<close>

definition consider_column :: "lexer \<Rightarrow> nat option" where
  "consider_column lx =
     (if consider_depth lx - 1 < 64 then Some (consider_columns lx ! (consider_depth lx - 1)) else None)"

text \<open>\<^verbatim>\<open>end consider\<close>, looked for behind an \<^verbatim>\<open>end\<close>.\<close>

definition end_consider_follows :: "lexer \<Rightarrow> lexer option" where
  "end_consider_follows lx =
     (let lx = advance_while is_blank_cr lx; first = current lx; lx = advance_while word_char lx
      in if keyword_equals (span lx first) ''consider'' then Some lx else None)"

text \<open>The type of the word \<open>w\<close> ending at \<open>lx\<close>, by what surrounds it.\<close>

definition word_in_place :: "lexer \<Rightarrow> nat \<Rightarrow> nat \<Rightarrow> token_type \<times> lexer" where
  "word_in_place lx start ln =
     (let w = span lx start;
          ty = identifier_type w;
          ty = (if ty \<noteq> TOKEN_IDENT \<and> 0 < start \<and> source lx ! (start - 1) = CHR ''.'' then TOKEN_IDENT else ty);
          ty = (if ty = TOKEN_IDENT \<and> keyword_equals w ''window'' \<and> block_head_follows (text_at lx)
                then TOKEN_WINDOW_OPEN else ty);
          ty = (if ty = TOKEN_IDENT \<and> keyword_equals w ''database'' \<and> block_head_follows (text_at lx)
                then TOKEN_DATABASE_OPEN else ty);
          opens_sql = (ty = TOKEN_IDENT \<and> keyword_equals w ''sql'' \<and> sql_head_follows (text_at lx));
          ty = (if opens_sql then TOKEN_SQL_OPEN else ty);
          lx = (if opens_sql then lx\<lparr>sql_body_pending := 1, sql_open_line := ln\<rparr> else lx);
          ty = (if ty \<noteq> TOKEN_IDENT \<and> lexer_in_brace lx \<and> peek_char (advance_while is_blank_cr lx) = CHR '':''
                then TOKEN_IDENT else ty)
      in (ty, lx))"

text \<open>\<open>IDENT.IDENT (\<close>: the cursor behind the second identifier.\<close>

definition qualified_call_follows :: "lexer \<Rightarrow> lexer option" where
  "qualified_call_follows lx =
     (if peek_char lx = CHR ''.'' \<and> word_start (peek_next lx) then
        let lx = advance_while word_char (advance lx)
        in if peek_char (advance_while is_blank_cr lx) = CHR ''('' then Some lx else None
      else None)"

definition consider_branch :: "lexer \<Rightarrow> token_type \<Rightarrow> nat \<Rightarrow> token_type \<times> lexer" where
  "consider_branch lx ty col =
     (if ty = Structure TOKEN_CONSIDER then
        let lx = (if consider_depth lx < 64
                  then lx\<lparr>consider_columns := (consider_columns lx)[consider_depth lx := col]\<rparr> else lx)
        in (ty, lx\<lparr>consider_depth := consider_depth lx + 1\<rparr>)
      else if 0 < consider_depth lx \<and> Some col = consider_column lx \<and> ty = Structure TOKEN_IF
      then (TOKEN_CONSIDER_IF, lx)
      else if 0 < consider_depth lx \<and> Some col = consider_column lx \<and> ty = Structure TOKEN_ELSE
      then (TOKEN_CONSIDER_ELSE, lx)
      else (ty, lx))"

definition identifier_token :: "lexer \<Rightarrow> nat \<Rightarrow> nat \<Rightarrow> nat \<Rightarrow> token \<times> lexer" where
  "identifier_token lx start ln col =
     (let lx = advance_while word_char lx
      in case (if keyword_equals (span lx start) ''end'' then end_consider_follows lx else None) of
           Some lx \<Rightarrow>
             let lx = (if 0 < consider_depth lx then lx\<lparr>consider_depth := consider_depth lx - 1\<rparr> else lx)
             in (make_token lx TOKEN_END_CONSIDER start ln col, lx)
         | None \<Rightarrow>
             let (ty, lx) = word_in_place lx start ln
             in case (if ty = TOKEN_IDENT then qualified_call_follows lx else None) of
                  Some lx \<Rightarrow> (make_token lx TOKEN_QUALIFIED_IDENT start ln col, lx)
                | None \<Rightarrow>
                    let (ty, lx) = consider_branch lx ty col
                    in (make_token lx ty start ln col, lx))"

section \<open>Braces\<close>

text \<open>A library-qualified name goes on at each dot a word follows.\<close>

function skip_dotted :: "string \<Rightarrow> string" where
  "skip_dotted p =
     (if hd0 p = CHR ''.'' \<and> word_start (hd0 (tl p)) then skip_dotted (dropWhile word_char (tl p)) else p)"
  by pat_completeness auto

termination
proof (relation "measure length")
  fix p assume "hd0 p = CHR ''.'' \<and> word_start (hd0 (tl p))"
  then have "p \<noteq> []" by (auto simp: hd0_def)
  moreover have "length (dropWhile word_char (tl p)) \<le> length (tl p)" by (rule length_dropWhile_le)
  ultimately show "(dropWhile word_char (tl p), p) \<in> measure length" by (cases p) auto
qed simp

declare skip_dotted.simps [simp del]

text \<open>The closing brace of a modifier clause on this line: the text from it on.\<close>

fun close_scan :: "string \<Rightarrow> bool \<Rightarrow> bool \<Rightarrow> nat \<Rightarrow> string option" where
  "close_scan [] in_string esc depth = None"
| "close_scan (c # p) in_string esc depth =
     (if c = NUL \<or> c = NL then None
      else if esc then close_scan p in_string False depth
      else if c = BACKSLASH \<and> in_string then close_scan p in_string True depth
      else if c = DQUOTE then close_scan p (\<not> in_string) esc depth
      else if \<not> in_string \<and> c = CHR ''{'' then close_scan p in_string esc (depth + 1)
      else if \<not> in_string \<and> c = CHR ''}'' then
        if depth = 0 then Some (c # p) else close_scan p in_string esc (depth - 1)
      else close_scan p in_string esc depth)"

text \<open>A modifier in braces at \<open>lx\<close>, just behind the brace that began at \<open>start\<close>: the type, the
  text of its name or phrase, and the text behind its closing brace.\<close>

definition brace_modifier :: "string \<Rightarrow> (token_type \<times> string \<times> nat \<times> string) option" where
  "brace_modifier p =
     (let name_start = dropWhile is_blank p
      in if \<not> word_start (hd0 name_start) then None
         else let probe = skip_dotted (dropWhile word_char name_start);
                  name_len = length name_start - length probe;
                  after = dropWhile is_blank probe
         in if hd0 after = CHR ''}'' \<and> 0 < name_len then
              let tail = dropWhile is_blank (tl after);
                  names_a_type = (hd0 tail = CHR '','' \<or> hd0 tail = CHR '')'' \<or> hd0 tail = NL \<or>
                                  hd0 tail = CR \<or> hd0 tail = NUL)
              in Some (if names_a_type then TOKEN_MODIFIER_VALUE else TOKEN_MODIFIER_PREFIX,
                       name_start, name_len, tl after)
            else if hd0 after \<noteq> CHR '':'' \<and> hd0 after \<noteq> CHR ''='' \<and> hd0 after \<noteq> CHR ''('' \<and> 0 < name_len then
              (case close_scan after False False 0 of
                 None \<Rightarrow> None
               | Some close \<Rightarrow>
                   let phrase = take (length name_start - length close) name_start
                   in Some (TOKEN_MODIFIER_PREFIX, name_start,
                            length (rev (dropWhile is_blank (rev phrase))), tl close))
            else None)"

definition brace_token :: "lexer \<Rightarrow> nat \<Rightarrow> nat \<Rightarrow> nat \<Rightarrow> token \<times> lexer" where
  "brace_token lx start ln col =
     (case brace_modifier (text_at lx) of
        Some (ty, name, len, after) \<Rightarrow>
          (\<lparr>t_type = ty, t_start = index_of lx name, t_length = len, t_line = ln, t_column = col\<rparr>,
           lx\<lparr>column := column lx + (index_of lx after - start), current := index_of lx after\<rparr>)
      | None \<Rightarrow>
          let lx = bracket_open lx (CHR ''{'') ln
          in (make_token lx (Symbol TOKEN_LBRACE) start ln col, lx))"

section \<open>The next token\<close>

text \<open>The end of the text: an unclosed bracket is named, once.\<close>

definition end_token :: "lexer \<Rightarrow> nat \<Rightarrow> nat \<Rightarrow> nat \<Rightarrow> token \<times> lexer" where
  "end_token lx start ln col =
     (if 0 < bracket_depth lx then
        let index = bracket_depth lx - 1;
            index = (if GBASIC_BRACKET_STACK \<le> index then GBASIC_BRACKET_STACK - 1 else index);
            message = take 95 (''unclosed '' @ [QUOTE] @ [bracket_chars lx ! index] @ [QUOTE] @ '' opened on line '' @
              decimal (bracket_lines lx ! index) @ '' -- a line break inside brackets continues the statement'')
        in error_token_message (lx\<lparr>bracket_depth := 0\<rparr>) start ln col message
      else (make_token lx TOKEN_EOF start ln col, lx))"

text \<open>\<open>a\<close> unless \<^verbatim>\<open>=\<close> follows, then \<open>b\<close>.\<close>

definition with_equals :: "lexer \<Rightarrow> symbol \<Rightarrow> symbol \<Rightarrow> nat \<Rightarrow> nat \<Rightarrow> nat \<Rightarrow> token \<times> lexer" where
  "with_equals lx a b start ln col =
     (case match_char lx (CHR ''='') of
        (True, lx) \<Rightarrow> (make_token lx (Symbol b) start ln col, lx)
      | (False, lx) \<Rightarrow> (make_token lx (Symbol a) start ln col, lx))"

definition bang_token :: "lexer \<Rightarrow> nat \<Rightarrow> nat \<Rightarrow> nat \<Rightarrow> token \<times> lexer" where
  "bang_token lx start ln col =
     (case match_char lx (CHR ''='') of
        (True, lx) \<Rightarrow> (make_token lx (Symbol TOKEN_OP_NE) start ln col, lx)
      | (False, lx) \<Rightarrow>
     (case match_char lx (CHR ''>'') of
        (True, lx) \<Rightarrow> with_equals lx TOKEN_OP_NGT TOKEN_OP_NGE start ln col
      | (False, lx) \<Rightarrow>
     (case match_char lx (CHR ''<'') of
        (True, lx) \<Rightarrow> with_equals lx TOKEN_OP_NLT TOKEN_OP_NLE start ln col
      | (False, lx) \<Rightarrow>
          if follows_identifier lx start then sigil_error lx start ln col (CHR ''!'')
          else (error_token lx start ln col, lx))))"

definition less_token :: "lexer \<Rightarrow> nat \<Rightarrow> nat \<Rightarrow> nat \<Rightarrow> token \<times> lexer" where
  "less_token lx start ln col =
     (case match_char lx (CHR ''='') of
        (True, lx) \<Rightarrow> (make_token lx (Symbol TOKEN_OP_LE) start ln col, lx)
      | (False, lx) \<Rightarrow>
          if peek_char lx = CHR ''>'' then
            error_token_message (advance lx) start ln col
              ([QUOTE] @ ''<>'' @ [QUOTE] @ '' is not an operator; not-equal is != -- a != b'')
          else (make_token lx (Symbol TOKEN_OP_LT) start ln col, lx))"

text \<open>A character QBasic uses as a sigil or an operator.\<close>

definition sigil_or :: "lexer \<Rightarrow> nat \<Rightarrow> nat \<Rightarrow> nat \<Rightarrow> char \<Rightarrow> string \<Rightarrow> token \<times> lexer" where
  "sigil_or lx start ln col c message =
     (if follows_identifier lx start then sigil_error lx start ln col c
      else error_token_message lx start ln col message)"

definition quoted :: "string \<Rightarrow> string" where
  "quoted w = [QUOTE] @ w @ [QUOTE]"

definition symbol_token :: "lexer \<Rightarrow> char \<Rightarrow> nat \<Rightarrow> nat \<Rightarrow> nat \<Rightarrow> token \<times> lexer" where
  "symbol_token lx ch start ln col =
     (if ch = DQUOTE then string_token lx start ln col
      else if ch = CHR ''='' then (make_token lx (Symbol TOKEN_OP_EQ) start ln col, lx)
      else if ch = CHR ''!'' then bang_token lx start ln col
      else if ch = CHR ''>'' then with_equals lx TOKEN_OP_GT TOKEN_OP_GE start ln col
      else if ch = CHR ''<'' then less_token lx start ln col
      else if ch = CHR ''+'' then with_equals lx TOKEN_PLUS TOKEN_PLUS_EQ start ln col
      else if ch = CHR ''-'' then with_equals lx TOKEN_MINUS TOKEN_MINUS_EQ start ln col
      else if ch = CHR ''*'' then with_equals lx TOKEN_STAR TOKEN_STAR_EQ start ln col
      else if ch = CHR ''/'' then with_equals lx TOKEN_SLASH TOKEN_SLASH_EQ start ln col
      else if ch = CHR ''('' then
        let lx = bracket_open lx (CHR ''('') ln in (make_token lx (Symbol TOKEN_LPAREN) start ln col, lx)
      else if ch = CHR '')'' then
        let lx = bracket_close lx in (make_token lx (Symbol TOKEN_RPAREN) start ln col, lx)
      else if ch = CHR ''['' then
        let lx = bracket_open lx (CHR ''['') ln in (make_token lx (Symbol TOKEN_LBRACKET) start ln col, lx)
      else if ch = CHR '']'' then
        let lx = bracket_close lx in (make_token lx (Symbol TOKEN_RBRACKET) start ln col, lx)
      else if ch = CHR ''{'' then brace_token lx start ln col
      else if ch = CHR ''}'' then
        let lx = bracket_close lx in (make_token lx (Symbol TOKEN_RBRACE) start ln col, lx)
      else if ch = CHR '','' then (make_token lx (Symbol TOKEN_COMMA) start ln col, lx)
      else if ch = CHR ''.'' then (make_token lx (Symbol TOKEN_DOT) start ln col, lx)
      else if ch = CHR '':'' then (make_token lx (Symbol TOKEN_COLON) start ln col, lx)
      else if ch = CHR ''$'' then
        sigil_or lx start ln col (CHR ''$'')
          (quoted ''$'' @ '' is not a money literal; write p(USD)= 19.99 -- money is a modifier from a plain number'')
      else if ch = BACKSLASH then
        error_token_message lx start ln col
          (quoted [BACKSLASH] @ '' is not an operator; integer division is floor(a / b)'')
      else if ch = CHR ''^'' then
        error_token_message lx start ln col
          (quoted ''^'' @ '' is not an operator; exponentiation is pow(a, b)'')
      else if ch = CHR ''%'' then
        sigil_or lx start ln col (CHR ''%'') (quoted ''%'' @ '' is not an operator; the remainder is mod(a, b)'')
      else if ch = CHR ''#'' then
        if follows_identifier lx start then sigil_error lx start ln col (CHR ''#'')
        else (error_token lx start ln col, lx)
      else if ch = CHR ''&'' then
        sigil_or lx start ln col (CHR ''&'')
          (quoted ''&'' @ '' does not join text; use + -- '' @ [DQUOTE] @ ''a'' @ [DQUOTE] @ '' + '' @
           [DQUOTE] @ ''b'' @ [DQUOTE])
      else (error_token lx start ln col, lx))"

definition lexer_next :: "lexer \<Rightarrow> token \<times> lexer" where
  "lexer_next lx =
     (if lens_content_mode lx then lens_content_token lx
      else if sql_body_pending lx = 2 then sql_body_token lx
      else
        let lx = skip_line_breaks (skip_spaces_and_comments lx);
            start = current lx; ln = line lx; col = column lx
        in if is_at_end lx then end_token lx start ln col
           else
             let ch = peek_char lx; lx = advance lx
             in if ch = NL then
                  let lx = (if sql_body_pending lx = 1 then lx\<lparr>sql_body_pending := 2\<rparr> else lx)
                  in (make_token lx TOKEN_NEWLINE start ln col, lx)
                else if word_start ch then identifier_token lx start ln col
                else if isdigit ch then number_token lx start ln col
                else symbol_token lx ch start ln col)"

definition lexer_init_at :: "string \<Rightarrow> nat \<Rightarrow> lexer" where
  "lexer_init_at src first_line =
     \<lparr>source = src,
      current = (if take 3 src = [CHR 0xEF, CHR 0xBB, CHR 0xBF] then 3 else 0),
      error_message = [], line = first_line, column = 1, lens_content_mode = False,
      consider_depth = 0, consider_columns = replicate 64 0, bracket_depth = 0,
      bracket_lines = replicate 64 0, bracket_chars = replicate 64 NUL, sql_body_pending = 0,
      sql_open_line = 0\<rparr>"

definition lexer_init :: "string \<Rightarrow> lexer" where
  "lexer_init src = lexer_init_at src 1"

section \<open>Names of tokens\<close>

text \<open>Two reserved words have no case of their own and fall through to the last line.\<close>

definition structure_names :: "(structure_word \<times> string) list" where
  "structure_names =
     [(TOKEN_PROGRAM, ''PROGRAM''), (TOKEN_LIBRARY, ''LIBRARY''), (TOKEN_LOAD, ''LOAD''), (TOKEN_USE, ''USE''),
      (TOKEN_EXPORT, ''EXPORT''), (TOKEN_IF, ''IF''), (TOKEN_THEN, ''THEN''), (TOKEN_ELSE, ''ELSE''),
      (TOKEN_END, ''END''), (TOKEN_FOR, ''FOR''), (TOKEN_TO, ''TO''), (TOKEN_STEP, ''STEP''),
      (TOKEN_WHILE, ''WHILE''), (TOKEN_DO, ''DO''), (TOKEN_UNTIL, ''UNTIL''), (TOKEN_CONSIDER, ''CONSIDER''),
      (TOKEN_BREAK, ''BREAK''), (TOKEN_CONTINUE, ''CONTINUE''), (TOKEN_FUNCTION, ''FUNCTION''),
      (TOKEN_RETURN, ''RETURN''), (TOKEN_PRINT, ''PRINT''), (TOKEN_DIM, ''DIM''), (TOKEN_AS, ''AS'')]"

definition reserved_names :: "(reserved_word \<times> string) list" where
  "reserved_names =
     [(TOKEN_EACH, ''EACH''), (TOKEN_WATCH, ''WATCH''), (TOKEN_UNWATCH, ''UNWATCH''), (TOKEN_WITHOUT, ''WITHOUT''),
      (TOKEN_WATCHERS, ''WATCHERS''), (TOKEN_MODIFIER, ''MODIFIER''), (TOKEN_GOTO, ''GOTO''),
      (TOKEN_GOSUB, ''GOSUB''), (TOKEN_WITH, ''WITH''), (TOKEN_NEW, ''NEW''), (TOKEN_SPAWN, ''SPAWN''),
      (TOKEN_ON, ''ON''), (TOKEN_NEXT, ''NEXT''), (TOKEN_STOP, ''STOP''), (TOKEN_ERROR_VALUE, ''ERROR_VALUE''),
      (TOKEN_TRUE, ''TRUE''), (TOKEN_FALSE, ''FALSE''), (TOKEN_NOTHING, ''NOTHING''),
      (TOKEN_UNKNOWN, ''UNKNOWN''), (TOKEN_AND, ''AND''), (TOKEN_OR, ''OR''), (TOKEN_NOT, ''NOT''),
      (TOKEN_TRY, ''TRY''), (TOKEN_IN, ''IN'')]"

definition symbol_names :: "(symbol \<times> string) list" where
  "symbol_names =
     [(TOKEN_OP_EQ, ''OP_EQ''), (TOKEN_OP_NE, ''OP_NE''), (TOKEN_OP_GT, ''OP_GT''), (TOKEN_OP_LT, ''OP_LT''),
      (TOKEN_OP_GE, ''OP_GE''), (TOKEN_OP_LE, ''OP_LE''), (TOKEN_OP_NGT, ''OP_NGT''), (TOKEN_OP_NLT, ''OP_NLT''),
      (TOKEN_OP_NGE, ''OP_NGE''), (TOKEN_OP_NLE, ''OP_NLE''), (TOKEN_PLUS, ''PLUS''), (TOKEN_PLUS_EQ, ''PLUS_EQ''),
      (TOKEN_MINUS_EQ, ''MINUS_EQ''), (TOKEN_STAR_EQ, ''STAR_EQ''), (TOKEN_SLASH_EQ, ''SLASH_EQ''),
      (TOKEN_MINUS, ''MINUS''), (TOKEN_STAR, ''STAR''), (TOKEN_SLASH, ''SLASH''), (TOKEN_LPAREN, ''LPAREN''),
      (TOKEN_RPAREN, ''RPAREN''), (TOKEN_LBRACKET, ''LBRACKET''), (TOKEN_RBRACKET, ''RBRACKET''),
      (TOKEN_LBRACE, ''LBRACE''), (TOKEN_RBRACE, ''RBRACE''), (TOKEN_COMMA, ''COMMA''), (TOKEN_DOT, ''DOT''),
      (TOKEN_COLON, ''COLON'')]"

definition name_of :: "('a \<times> string) list \<Rightarrow> 'a \<Rightarrow> string" where
  "name_of names x = (case map_of names x of Some n \<Rightarrow> n | None \<Rightarrow> ''UNKNOWN'')"

fun token_type_name :: "token_type \<Rightarrow> string" where
  "token_type_name TOKEN_EOF = ''EOF''"
| "token_type_name TOKEN_IDENT = ''IDENT''"
| "token_type_name TOKEN_QUALIFIED_IDENT = ''QUALIFIED_IDENT''"
| "token_type_name TOKEN_NUMBER = ''NUMBER''"
| "token_type_name TOKEN_STRING = ''STRING''"
| "token_type_name TOKEN_LENS_CONTENT = ''LENS_CONTENT''"
| "token_type_name (Structure w) = name_of structure_names w"
| "token_type_name (Reserved w) = name_of reserved_names w"
| "token_type_name (Symbol y) = name_of symbol_names y"
| "token_type_name TOKEN_CONSIDER_IF = ''CONSIDER_IF''"
| "token_type_name TOKEN_CONSIDER_ELSE = ''CONSIDER_ELSE''"
| "token_type_name TOKEN_END_CONSIDER = ''END_CONSIDER''"
| "token_type_name TOKEN_MODIFIER_PREFIX = ''MODIFIER_PREFIX''"
| "token_type_name TOKEN_MODIFIER_VALUE = ''MODIFIER_VALUE''"
| "token_type_name TOKEN_WINDOW_OPEN = ''WINDOW_OPEN''"
| "token_type_name TOKEN_DATABASE_OPEN = ''DATABASE_OPEN''"
| "token_type_name TOKEN_SQL_OPEN = ''SQL_OPEN''"
| "token_type_name TOKEN_SQL_TEXT = ''SQL_TEXT''"
| "token_type_name TOKEN_NEWLINE = ''NEWLINE''"
| "token_type_name TOKEN_ERROR = ''ERROR''"

end
