(* ===== verification/Lexer_Props.thy ===== *)
theory Lexer_Props
  imports Lexer
begin

text \<open>
  What \<open>Lexer\<close> guarantees: where every token begins and ends, that its line number is exact and
  when its column is, that lexing comes to an end, that brackets join lines, how words and numbers
  are recognised; and the two places where the code is wrong.
\<close>

section \<open>Scanning\<close>

definition cursor_eq :: "lexer \<Rightarrow> lexer \<Rightarrow> bool" where
  "cursor_eq a b \<longleftrightarrow> source a = source b \<and> current a = current b \<and> line a = line b \<and> column a = column b"

text \<open>\<open>lx'\<close> is where some \<^verbatim>\<open>advance\<close>s from \<open>lx\<close> lead, whatever else changed; the bookkeeping of
  modes is the one of \<open>lx\<close>.\<close>

definition scans :: "lexer \<Rightarrow> lexer \<Rightarrow> bool" where
  "scans lx lx' \<longleftrightarrow> (\<exists>l. advances lx l \<and> cursor_eq l lx') \<and> lens_content_mode lx' = lens_content_mode lx"

lemma cursor_eq_advance: "cursor_eq a b \<Longrightarrow> cursor_eq (advance a) (advance b)"
  by (simp add: cursor_eq_def advance_def peek_char_def text_at_def Let_def)

lemma cursor_eq_advances:
  assumes "advances b b'" "cursor_eq a b"
  shows "\<exists>a'. advances a a' \<and> cursor_eq a' b'"
  using assms
proof (induction rule: advances_induct)
  case refl
  then show ?case by auto
next
  case (step l)
  then show ?case using advance_step cursor_eq_advance by blast
qed

lemma advances_mode: "advances lx lx' \<Longrightarrow> lens_content_mode lx' = lens_content_mode lx"
  by (induction rule: advances_induct) (simp_all add: advance_def Let_def)

lemma scans_advances: "advances lx lx' \<Longrightarrow> scans lx lx'"
  using advances_mode by (auto simp: scans_def cursor_eq_def)

lemma scans_refl [simp, intro]: "scans lx lx"
  by (rule scans_advances) simp

lemma scans_trans:
  assumes "scans lx lx'" "scans lx' lx''"
  shows "scans lx lx''"
proof -
  from assms obtain l l' where l: "advances lx l" "cursor_eq l lx'" "advances lx' l'" "cursor_eq l' lx''"
    by (auto simp: scans_def)
  from cursor_eq_advances [OF l(3,2)] obtain a' where "advances l a'" "cursor_eq a' l'" by blast
  with l advances_trans [of lx l a'] assms show ?thesis
    by (auto simp: scans_def cursor_eq_def)
qed

lemma scans_then_advance: "scans lx lx' \<Longrightarrow> scans lx (advance lx')"
  by (rule scans_trans [OF _ scans_advances]) auto

lemma scans_then_while: "scans lx lx' \<Longrightarrow> scans lx (advance_while p lx')"
  by (rule scans_trans [OF _ scans_advances [OF advance_while_advances]])

text \<open>Updates of anything but the cursor.\<close>

lemma scans_updates [simp]:
  "scans lx (l\<lparr>error_message := m\<rparr>) = scans lx l"
  "scans lx (l\<lparr>consider_depth := d\<rparr>) = scans lx l"
  "scans lx (l\<lparr>consider_columns := cs\<rparr>) = scans lx l"
  "scans lx (l\<lparr>bracket_depth := d\<rparr>) = scans lx l"
  "scans lx (l\<lparr>bracket_lines := ls\<rparr>) = scans lx l"
  "scans lx (l\<lparr>bracket_chars := bs\<rparr>) = scans lx l"
  "scans lx (l\<lparr>sql_body_pending := p\<rparr>) = scans lx l"
  "scans lx (l\<lparr>sql_open_line := n\<rparr>) = scans lx l"
  by (simp_all add: scans_def cursor_eq_def)

lemma current_bounds:
  "scans lx lx' \<Longrightarrow> source lx' = source lx \<and> current lx \<le> current lx'"
  using advances_source advances_current by (fastforce simp: scans_def cursor_eq_def)

section \<open>One token at the cursor\<close>

definition plain :: "token_type \<Rightarrow> bool" where
  "plain ty \<longleftrightarrow> ty \<noteq> TOKEN_EOF \<and> ty \<noteq> TOKEN_MODIFIER_PREFIX \<and> ty \<noteq> TOKEN_MODIFIER_VALUE"

text \<open>A token from \<open>start\<close> to where the cursor now is.\<close>

definition token_here :: "lexer \<Rightarrow> nat \<Rightarrow> nat \<Rightarrow> nat \<Rightarrow> token \<times> lexer \<Rightarrow> bool" where
  "token_here lx start ln col r \<longleftrightarrow>
     scans lx (snd r) \<and> fst r = make_token (snd r) (t_type (fst r)) start ln col \<and> plain (t_type (fst r))"

lemma plain_simps [simp]:
  "plain TOKEN_IDENT" "plain TOKEN_QUALIFIED_IDENT" "plain TOKEN_NUMBER" "plain TOKEN_STRING"
  "plain TOKEN_LENS_CONTENT" "plain (Structure w)" "plain (Reserved v)" "plain (Symbol y)"
  "plain TOKEN_CONSIDER_IF" "plain TOKEN_CONSIDER_ELSE" "plain TOKEN_END_CONSIDER"
  "plain TOKEN_WINDOW_OPEN" "plain TOKEN_DATABASE_OPEN" "plain TOKEN_SQL_OPEN" "plain TOKEN_SQL_TEXT"
  "plain TOKEN_NEWLINE" "plain TOKEN_ERROR"
  by (simp_all add: plain_def)

lemma token_here_make [simp]:
  "plain ty \<Longrightarrow> token_here lx start ln col (make_token l ty start ln col, l) = scans lx l"
  by (simp add: token_here_def make_token_def)

lemma token_here_error [simp]: "token_here lx start ln col (error_token l start ln col, l) = scans lx l"
  by (simp add: error_token_def)

lemma token_here_message [simp]:
  "token_here lx start ln col (error_token_message l start ln col m) = scans lx l"
  by (simp add: error_token_message_def Let_def)

lemma token_here_sigil [simp]: "token_here lx start ln col (sigil_error l start ln col c) = scans lx l"
  by (simp add: sigil_error_def)

lemma token_here_mono: "scans lx lx' \<Longrightarrow> token_here lx' start ln col r \<Longrightarrow> token_here lx start ln col r"
  using scans_trans by (auto simp: token_here_def)

lemma match_scans: "scans lx (snd (match_char lx c))"
  by (auto simp: match_char_def intro: scans_then_advance)

lemma match_token:
  assumes "match_char lx c = (b, lx')"
  shows "scans lx lx'"
  using match_scans [of lx c] assms by simp

lemma string_loop_advances: "advances lx (snd (string_loop lx))"
proof (induction lx rule: string_loop.induct)
  case (1 lx)
  show ?case
  proof (cases "is_at_end lx \<or> peek_char lx = DQUOTE")
    case True
    then show ?thesis by (subst string_loop.simps) (auto simp: Let_def)
  next
    case False
    obtain m l where e: "string_escape (advance lx) = (m, l)" by force
    then have "advances lx l" using string_escape_advances [of "advance lx"] advances_step [of lx] by simp
    moreover have "advances l (snd (string_loop l))" if "peek_char lx = BACKSLASH" "m = None"
      using 1(1) [OF _ refl refl _ _ e [symmetric]] False that by simp
    moreover have "advances (advance lx) (snd (string_loop (advance lx)))" if "peek_char lx \<noteq> BACKSLASH"
      using 1(2) [OF _ refl refl] False that by simp
    ultimately show ?thesis
      using False e advances_trans [of lx l] advances_step [of lx "snd (string_loop (advance lx))"]
      by (subst string_loop.simps) (auto simp: Let_def split: option.splits)
  qed
qed

lemma string_token_here: "token_here lx start ln col (string_token lx start ln col)"
  using scans_advances [OF string_loop_advances, of lx]
  by (auto simp: string_token_def split: prod.splits option.splits)

lemma lens_loop_advances: "advances lx (snd (lens_loop in_string esc lx))"
proof (induction lx arbitrary: in_string esc rule: measure_induct_rule [of remaining])
  case (less lx)
  show ?case
  proof (cases "is_at_end lx")
    case True
    then show ?thesis by (subst lens_loop.simps) simp
  next
    case False
    have "advances lx (snd (lens_loop s e (advance lx)))" for s e
      using less [OF advance_shrinks [OF False]] by (rule advances_step)
    then show ?thesis using False by (subst lens_loop.simps) (simp add: Let_def)
  qed
qed

lemma number_token_here: "token_here lx start ln col (number_token lx start ln col)"
proof -
  have f: "scans lx (number_fraction l)" if "scans lx l" for l
    using that by (simp add: number_fraction_def scans_then_while scans_then_advance)
  have e: "scans lx (number_exponent l)" if "scans lx l" for l
    using that by (simp add: number_exponent_def Let_def scans_then_while scans_then_advance)
  show ?thesis
    by (simp add: number_token_def Let_def e f scans_then_while scans_then_advance)
qed

lemma with_equals_here: "scans lx l \<Longrightarrow> token_here lx start ln col (with_equals l a b start ln col)"
  using scans_trans [OF _ match_token] by (fastforce simp: with_equals_def split: prod.splits bool.splits)

lemma bang_token_here: "token_here lx start ln col (bang_token lx start ln col)"
  by (auto simp: bang_token_def split: prod.splits bool.splits
      dest!: match_token intro!: with_equals_here elim: scans_trans intro: scans_trans)

lemma less_token_here: "token_here lx start ln col (less_token lx start ln col)"
  by (auto simp: less_token_def split: prod.splits bool.splits
      dest!: match_token intro: scans_then_advance)

lemma bracket_scans [simp]:
  "scans lx (bracket_open l c n) = scans lx l" "scans lx (bracket_close l) = scans lx l"
  by (simp_all add: bracket_open_def bracket_close_def Let_def)

lemma symbol_token_here:
  assumes "ch \<noteq> CHR ''{''"
  shows "token_here lx start ln col (symbol_token lx ch start ln col)"
  using assms
  by (simp add: symbol_token_def string_token_here bang_token_here with_equals_here less_token_here
      sigil_or_def Let_def)

lemma word_in_place_scans: "scans lx (snd (word_in_place lx start ln))"
  by (simp add: word_in_place_def Let_def)

lemma word_in_place_plain: "plain (fst (word_in_place lx start ln))"
proof -
  have "plain ty" if "(k, ty) \<in> set keyword_table" for k ty
    using that by (auto simp: keyword_table_def)
  then have "plain (identifier_type w)" for w
    using find_Some_iff [of "\<lambda>(keyword, _). keyword_equals w keyword" keyword_table]
    by (auto simp: identifier_type_def split: option.splits) (metis nth_mem)
  then show ?thesis by (auto simp: word_in_place_def Let_def)
qed

lemma qualified_call_advances: "qualified_call_follows lx = Some lx' \<Longrightarrow> advances lx lx'"
  by (auto simp: qualified_call_follows_def Let_def advance_step advance_while_step split: if_splits)

lemma end_consider_advances: "end_consider_follows lx = Some lx' \<Longrightarrow> advances lx lx'"
  by (auto simp: end_consider_follows_def Let_def advance_step advance_while_step split: if_splits)

lemma consider_branch_scans:
  "scans lx (snd (consider_branch l ty col)) = scans lx l"
  "plain ty \<Longrightarrow> plain (fst (consider_branch l ty col))"
  by (auto simp: consider_branch_def Let_def)

lemma identifier_token_here: "token_here lx start ln col (identifier_token lx start ln col)"
proof -
  let ?l = "advance_while word_char lx"
  have l: "scans lx ?l" by (rule scans_then_while) simp
  show ?thesis
  proof (cases "if keyword_equals (span ?l start) ''end'' then end_consider_follows ?l else None")
    case (Some l')
    then have "end_consider_follows ?l = Some l'" by (simp split: if_splits)
    from scans_trans [OF l scans_advances [OF end_consider_advances [OF this]]] Some show ?thesis
      by (simp add: identifier_token_def Let_def)
  next
    case None
    obtain ty w where w: "word_in_place ?l start ln = (ty, w)" by force
    then have tw: "scans lx w" "plain ty"
      using scans_trans [OF l word_in_place_scans [of ?l start ln]] word_in_place_plain [of ?l start ln] by simp_all
    show ?thesis
    proof (cases "if ty = TOKEN_IDENT then qualified_call_follows w else None")
      case (Some l')
      then have "qualified_call_follows w = Some l'" by (simp split: if_splits)
      from scans_trans [OF tw(1) scans_advances [OF qualified_call_advances [OF this]]] Some None w show ?thesis
        by (simp add: identifier_token_def Let_def)
    next
      case N: None
      obtain ty' w' where w': "consider_branch w ty col = (ty', w')" by force
      with consider_branch_scans(1) [of lx w ty col] consider_branch_scans(2) [OF tw(2), of w col] tw(1)
      have "scans lx w'" "plain ty'" by simp_all
      with N None w w' show ?thesis by (simp add: identifier_token_def Let_def)
    qed
  qed
qed

lemma sql_body_loop_advances: "advances lx (snd (sql_body_loop lx))"
proof (induction lx rule: sql_body_loop.induct)
  case (1 lx)
  then show ?case
    using advances_step [of lx "snd (sql_body_loop (advance lx))"] by (subst sql_body_loop.simps) simp
qed

lemma sql_body_token_here:
  "token_here lx (current lx) (line lx) (column lx) (sql_body_token lx)"
proof -
  let ?l = "lx\<lparr>sql_body_pending := 0\<rparr>"
  obtain e l where e: "sql_body_loop ?l = (e, l)" by force
  then have "scans ?l l" using scans_advances [OF sql_body_loop_advances, of ?l] by simp
  then have "scans lx l" using scans_trans [of lx ?l l] by simp
  with e show ?thesis
    by (auto simp: sql_body_token_def Let_def token_here_def make_token_def error_token_message_def error_token_def)
qed

lemma lens_content_token_span:
  assumes "lens_content_token lx = (t, lx')"
  shows "\<exists>l. advances lx l \<and> cursor_eq l lx' \<and> \<not> lens_content_mode lx' \<and>
    t = make_token lx' (t_type t) (current lx) (line lx) (column lx) \<and> plain (t_type t)"
proof -
  obtain c l where c: "lens_loop False False lx = (c, l)" by force
  then have "advances lx l" using lens_loop_advances [of lx False False] by simp
  with c assms show ?thesis
    by (intro exI [of _ l]) (auto simp: lens_content_token_def cursor_eq_def make_token_def error_token_def Let_def split: if_splits)
qed

section \<open>Modifiers in braces\<close>

lemma skip_dotted_split: "\<exists>d. p = d @ skip_dotted p \<and> NL \<notin> set d \<and> NUL \<notin> set d"
proof (induction p rule: skip_dotted.induct)
  case (1 p)
  show ?case
  proof (cases "hd0 p = CHR ''.'' \<and> word_start (hd0 (tl p))")
    case True
    then obtain p' where p: "p = CHR ''.'' # p'" by (cases p) (auto simp: hd0_def)
    let ?w = "takeWhile word_char p'"
    from 1 [OF True] obtain d where d: "dropWhile word_char p' = d @ skip_dotted (dropWhile word_char p')"
      "NL \<notin> set d" "NUL \<notin> set d" by (auto simp: p)
    have "p = (CHR ''.'' # ?w @ d) @ skip_dotted (dropWhile word_char p')"
      using d(1) takeWhile_dropWhile_id [of word_char p'] by (simp add: p)
    moreover have "NL \<notin> set ?w" "NUL \<notin> set ?w"
      by (auto dest: set_takeWhileD simp: word_char_def isalnum_def isalpha_def isdigit_def isupper_def)
    moreover have "skip_dotted p = skip_dotted (dropWhile word_char p')"
      using True by (subst skip_dotted.simps) (simp add: p)
    ultimately show ?thesis using d(2,3) by (intro exI [of _ "CHR ''.'' # ?w @ d"]) auto
  next
    case False
    then have "skip_dotted p = p" by (subst skip_dotted.simps) auto
    then show ?thesis by (intro exI [of _ "[]"]) simp
  qed
qed

lemma close_scan_split:
  "close_scan p in_string esc depth = Some q \<Longrightarrow>
   \<exists>m r. p = m @ q \<and> q = CHR ''}'' # r \<and> NL \<notin> set m \<and> NUL \<notin> set m"
proof (induction p in_string esc depth rule: close_scan.induct)
  case (1 in_string esc depth)
  then show ?case by simp
next
  case (2 c p in_string esc depth)
  have step: "\<exists>m r. c # p = m @ q \<and> q = CHR ''}'' # r \<and> NL \<notin> set m \<and> NUL \<notin> set m"
    if "\<exists>m r. p = m @ q \<and> q = CHR ''}'' # r \<and> NL \<notin> set m \<and> NUL \<notin> set m" "c \<noteq> NL" "c \<noteq> NUL"
    using that by (metis append_Cons set_ConsD)
  have c: "c \<noteq> NL" "c \<noteq> NUL" using 2(7) by (auto split: if_splits)
  show ?case
  proof (cases "\<not> in_string \<and> \<not> esc \<and> c = CHR ''}'' \<and> depth = 0")
    case True
    then have "q = c # p" "c = CHR ''}''" using 2(7) by simp_all
    then show ?thesis by (intro exI [of _ "[]"] exI [of _ p]) simp
  next
    case False
    show ?thesis
      by (rule step [OF _ c]) (use 2 False c in \<open>auto split: if_splits\<close>)
  qed
qed

lemma blank_prefix: "NL \<notin> set (takeWhile is_blank p)" "NUL \<notin> set (takeWhile is_blank p)"
  by (auto dest!: set_takeWhileD simp: is_blank_def)

lemma word_prefix: "NL \<notin> set (takeWhile word_char p)" "NUL \<notin> set (takeWhile word_char p)"
  by (auto dest!: set_takeWhileD simp: word_char_def isalnum_def isalpha_def isdigit_def isupper_def)

lemma word_start_char: "word_start c \<Longrightarrow> word_char c \<and> \<not> is_blank c \<and> c \<noteq> NUL \<and> c \<noteq> NL"
  by (auto simp: word_start_def word_char_def isalnum_def isalpha_def isupper_def is_blank_def)

lemma brace_modifier_split:
  assumes "brace_modifier p = Some (ty, name, len, after)"
  shows "\<exists>pre phrase gap. p = pre @ name \<and> name = phrase @ gap @ CHR ''}'' # after \<and> len = length phrase \<and>
    NL \<notin> set (pre @ phrase @ gap) \<and> NUL \<notin> set (pre @ phrase @ gap) \<and> phrase \<noteq> [] \<and>
    ty \<in> {TOKEN_MODIFIER_PREFIX, TOKEN_MODIFIER_VALUE}"
proof -
  define start where "start = dropWhile is_blank p"
  define w where "w = takeWhile word_char start"
  obtain d probe where d: "dropWhile word_char start = d @ probe" "probe = skip_dotted (dropWhile word_char start)"
    "NL \<notin> set d" "NUL \<notin> set d" using skip_dotted_split by blast
  define gap where "gap = takeWhile is_blank probe"
  define rest where "rest = dropWhile is_blank probe"
  have p: "p = takeWhile is_blank p @ start" by (simp add: start_def)
  have start: "start = (w @ d) @ gap @ rest"
    using d(1) by (simp add: w_def gap_def rest_def) (metis takeWhile_dropWhile_id)
  have ws: "word_start (hd0 start)"
    using assms by (simp add: brace_modifier_def start_def Let_def split: if_splits)
  then have w: "w \<noteq> []"
    using word_start_char [OF ws] by (cases start) (auto simp: w_def hd0_def)
  have clean: "NL \<notin> set (takeWhile is_blank p @ (w @ d) @ gap)" "NUL \<notin> set (takeWhile is_blank p @ (w @ d) @ gap)"
    using blank_prefix word_prefix d(3,4) by (auto simp: w_def gap_def)
  have len: "length start - length probe = length (w @ d)"
    using start by (simp add: gap_def rest_def)
  show ?thesis
  proof (cases "hd0 rest = CHR ''}''")
    case True
    then obtain r where r: "rest = CHR ''}'' # r" by (cases rest) (auto simp: hd0_def)
    have "name = start" "len = length (w @ d)" "after = r" "ty \<in> {TOKEN_MODIFIER_PREFIX, TOKEN_MODIFIER_VALUE}"
      using assms ws True len w r
      by (auto simp: brace_modifier_def Let_def start_def [symmetric] d(2) [symmetric] rest_def [symmetric] split: if_splits)
    then show ?thesis
      using p start r clean w by (intro exI [of _ "takeWhile is_blank p"] exI [of _ "w @ d"] exI [of _ gap]) auto
  next
    case False
    then obtain close where c: "close_scan rest False False 0 = Some close"
      "name = start" "after = tl close" "ty = TOKEN_MODIFIER_PREFIX"
      "len = length (rev (dropWhile is_blank (rev (take (length start - length close) start))))"
      using assms ws len w
      by (auto simp: brace_modifier_def Let_def start_def [symmetric] d(2) [symmetric] rest_def [symmetric]
          split: if_splits option.splits)
    from close_scan_split [OF c(1)] obtain m r where m: "rest = m @ close" "close = CHR ''}'' # r"
      "NL \<notin> set m" "NUL \<notin> set m" by blast
    define body where "body = (w @ d) @ gap @ m"
    have sb: "start = body @ close" using start m(1) by (simp add: body_def)
    define phrase where "phrase = rev (dropWhile is_blank (rev body))"
    define tail where "tail = rev (takeWhile is_blank (rev body))"
    have bt: "body = phrase @ tail"
      by (simp add: phrase_def tail_def rev_append [symmetric] del: rev_append)
    have "phrase \<noteq> []"
    proof -
      obtain c0 where c0: "c0 \<in> set body" "\<not> is_blank c0"
        using word_start_char [OF ws] w by (cases start) (auto simp: body_def w_def hd0_def)
      then show ?thesis by (auto simp: phrase_def)
    qed
    moreover have "len = length phrase" using c(5) by (simp add: sb phrase_def)
    moreover have "NL \<notin> set (takeWhile is_blank p @ phrase @ tail)" "NUL \<notin> set (takeWhile is_blank p @ phrase @ tail)"
      using clean m(3,4) bt [symmetric] by (auto simp: body_def)
    ultimately show ?thesis
      using p sb bt m(2) c(2-4)
      by (intro exI [of _ "takeWhile is_blank p"] exI [of _ phrase] exI [of _ tail]) simp
  qed
qed

section \<open>Positions\<close>

text \<open>The line and the column of an index: \<open>f\<close> is the number of the first line, \<open>b\<close> the bytes of a
  byte-order mark, which count for no column.\<close>

definition line_at :: "nat \<Rightarrow> string \<Rightarrow> nat \<Rightarrow> nat" where
  "line_at f src i = f + count_list (take i src) NL"

definition column_at :: "nat \<Rightarrow> string \<Rightarrow> nat \<Rightarrow> nat" where
  "column_at b src i =
     1 + length (takeWhile (\<lambda>c. c \<noteq> NL) (rev (take i src))) - (if NL \<in> set (take i src) then 0 else b)"

definition positioned :: "nat \<Rightarrow> lexer \<Rightarrow> bool" where
  "positioned f lx \<longleftrightarrow>
     current lx \<le> length (source lx) \<and> NUL \<notin> set (source lx) \<and> line lx = line_at f (source lx) (current lx)"

definition column_exact :: "nat \<Rightarrow> lexer \<Rightarrow> bool" where
  "column_exact b lx \<longleftrightarrow> b \<le> current lx \<and> column lx = column_at b (source lx) (current lx)"

lemma positioned_cong: "cursor_eq a b \<Longrightarrow> positioned f a = positioned f b"
  by (simp add: positioned_def cursor_eq_def)

lemma column_exact_cong: "cursor_eq a c \<Longrightarrow> column_exact b a = column_exact b c"
  by (simp add: column_exact_def cursor_eq_def)

lemma at_end_positioned:
  assumes "positioned f lx"
  shows "is_at_end lx \<longleftrightarrow> current lx = length (source lx)"
    and "current lx < length (source lx) \<Longrightarrow> peek_char lx = source lx ! current lx"
proof -
  show "is_at_end lx \<longleftrightarrow> current lx = length (source lx)"
  proof (cases "current lx < length (source lx)")
    case True
    then have "hd0 (text_at lx) = source lx ! current lx"
      by (simp add: text_at_def hd0_def Cons_nth_drop_Suc [symmetric])
    with assms True show ?thesis
      by (auto simp: is_at_end_def positioned_def) (metis nth_mem)
  next
    case False
    with assms show ?thesis by (simp add: is_at_end_def text_at_def hd0_def positioned_def)
  qed
  show "current lx < length (source lx) \<Longrightarrow> peek_char lx = source lx ! current lx"
    by (simp add: peek_char_def text_at_def hd0_def Cons_nth_drop_Suc [symmetric])
qed

lemma advance_position:
  assumes "positioned f lx"
  shows "positioned f (advance lx)" "column_exact b lx \<Longrightarrow> column_exact b (advance lx)"
proof -
  note e = at_end_positioned [OF assms]
  have "positioned f (advance lx) \<and> (column_exact b lx \<longrightarrow> column_exact b (advance lx))"
  proof (cases "is_at_end lx")
    case True
    then have "advance lx = lx" by (simp add: advance_def Let_def is_at_end_def peek_char_def)
    with assms show ?thesis by simp
  next
    case False
    then have lt: "current lx < length (source lx)" by (rule not_at_end)
    have c: "peek_char lx = source lx ! current lx" "peek_char lx \<noteq> NUL"
      using e(2) [OF lt] False by (simp_all add: is_at_end_def peek_char_def)
    have t: "take (Suc (current lx)) (source lx) = take (current lx) (source lx) @ [peek_char lx]"
      using lt by (simp add: c(1) take_Suc_conv_app_nth)
    have "b \<le> length (takeWhile (\<lambda>c. c \<noteq> NL) (rev (take (current lx) (source lx))))"
      if "NL \<notin> set (take (current lx) (source lx))" "b \<le> current lx"
    proof -
      have "takeWhile (\<lambda>c. c \<noteq> NL) (rev (take (current lx) (source lx))) = rev (take (current lx) (source lx))"
        using that(1) by (auto simp: takeWhile_eq_all_conv)
      then have "length (takeWhile (\<lambda>c. c \<noteq> NL) (rev (take (current lx) (source lx)))) = current lx"
        using lt by (metis length_rev length_take min.absorb4)
      with that(2) show ?thesis by simp
    qed
    then show ?thesis
      using assms lt c(2)
      by (auto simp: positioned_def column_exact_def advance_def Let_def line_at_def column_at_def t)
  qed
  then show "positioned f (advance lx)" "column_exact b lx \<Longrightarrow> column_exact b (advance lx)" by blast+
qed

lemma advances_position:
  assumes "advances lx lx'" "positioned f lx"
  shows "positioned f lx'" "column_exact b lx \<Longrightarrow> column_exact b lx'"
proof -
  from assms have "positioned f lx' \<and> (column_exact b lx \<longrightarrow> column_exact b lx')"
    by (induction rule: advances_induct) (auto intro: advance_position)
  then show "positioned f lx'" "column_exact b lx \<Longrightarrow> column_exact b lx'" by blast+
qed

lemma scans_position:
  assumes "scans lx lx'" "positioned f lx"
  shows "positioned f lx'" "column_exact b lx \<Longrightarrow> column_exact b lx'"
  using assms advances_position positioned_cong column_exact_cong by (fastforce simp: scans_def)+

text \<open>Over text without a line break.\<close>

lemma advance_over:
  assumes "text_at lx = s @ r" "NL \<notin> set s" "NUL \<notin> set s"
  shows "(advance ^^ length s) lx = lx\<lparr>current := current lx + length s, column := column lx + length s\<rparr>"
  using assms
proof (induction s arbitrary: lx)
  case Nil
  then show ?case by simp
next
  case (Cons c s)
  have p: "peek_char lx = c" using Cons.prems(1) by (simp add: peek_char_def hd0_def)
  then have a: "advance lx = lx\<lparr>current := current lx + 1, column := column lx + 1\<rparr>"
    using Cons.prems by (auto simp: advance_def Let_def)
  have "text_at (advance lx) = s @ r"
    using Cons.prems(1) by (simp add: a text_at_def) (metis drop_Suc list.sel(3) tl_drop)
  from Cons.IH [OF this] Cons.prems a show ?case by (simp add: funpow_Suc_right del: funpow.simps)
qed

lemma skip_line_breaks_advances: "advances lx (skip_line_breaks lx)"
proof (induction lx rule: skip_line_breaks.induct)
  case (1 lx)
  show ?case
  proof (cases "0 < bracket_depth lx \<and> \<not> is_at_end lx \<and> peek_char lx = NL")
    case True
    have "advances lx (skip_line_breaks (skip_spaces_and_comments (advance lx)))"
      using advances_trans [OF skip_spaces_advances 1 [OF True]] by (rule advances_step)
    then show ?thesis using True by (subst skip_line_breaks.simps) simp
  next
    case False
    then show ?thesis by (subst skip_line_breaks.simps) auto
  qed
qed

text \<open>A modifier leaves the cursor behind its brace, one column too far.\<close>

lemma brace_token_modifier:
  assumes "brace_modifier (text_at lx) = Some (ty, name, len, after)"
    and "positioned f lx" "current lx = start + 1"
  shows "\<exists>l. advances lx l \<and> current lx < current l \<and>
    brace_token lx start ln col =
      (\<lparr>t_type = ty, t_start = index_of lx name, t_length = len, t_line = ln, t_column = col\<rparr>,
       l\<lparr>column := column l + 1\<rparr>) \<and>
    ty \<in> {TOKEN_MODIFIER_PREFIX, TOKEN_MODIFIER_VALUE} \<and>
    start < index_of lx name \<and> index_of lx name + len < current l \<and>
    NL \<notin> set (take (index_of lx name - start - 1) (text_at lx))"
proof -
  from brace_modifier_split [OF assms(1)] obtain pre phrase gap where
    p: "text_at lx = pre @ name" "name = phrase @ gap @ CHR ''}'' # after" "len = length phrase"
      "NL \<notin> set (pre @ phrase @ gap)" "NUL \<notin> set (pre @ phrase @ gap)"
      "ty \<in> {TOKEN_MODIFIER_PREFIX, TOKEN_MODIFIER_VALUE}" by blast
  define s where "s = pre @ phrase @ gap @ [CHR ''}'']"
  have s: "text_at lx = s @ after" "NL \<notin> set s" "NUL \<notin> set s" using p by (auto simp: s_def)
  note over = advance_over [OF s]
  have src: "length (source lx) = current lx + length s + length after"
    using assms(2) s(1) by (auto simp: positioned_def text_at_def dest: arg_cong [of _ _ length])
  then have ix: "index_of lx after = current lx + length s" "index_of lx name = current lx + length pre"
    using p(1,2) by (simp_all add: index_of_def s_def)
  have pos: "0 < length s" by (simp add: s_def)
  define l where "l = (advance ^^ length s) lx"
  have l: "advances lx l" "l = lx\<lparr>current := current lx + length s, column := column lx + length s\<rparr>"
    unfolding l_def advances_def by (blast, rule over)
  have "brace_token lx start ln col =
      (\<lparr>t_type = ty, t_start = index_of lx name, t_length = len, t_line = ln, t_column = col\<rparr>,
       l\<lparr>column := column l + 1\<rparr>)"
    using assms(1,3) ix pos by (simp add: brace_token_def l(2))
  moreover have "index_of lx name + len < current l" "start < index_of lx name" "current lx < current l"
    using ix(2) assms(3) pos by (simp_all add: l(2) s_def p(3))
  moreover have "NL \<notin> set (take (index_of lx name - start - 1) (text_at lx))"
    using ix(2) assms(3) p(4) by (simp add: p(1))
  ultimately show ?thesis using l(1) p(6) by blast
qed

lemma brace_token_plain:
  "brace_modifier (text_at lx) = None \<Longrightarrow> token_here lx start ln col (brace_token lx start ln col)"
  by (simp add: brace_token_def Let_def)

end
