(* ===== verification/Lexer_Total.thy ===== *)
theory Lexer_Total
  imports Lexer_Props
begin

text \<open>
  The guarantees of \<^verbatim>\<open>lexer_next\<close> as a whole, over every mode it can be in.
\<close>

section \<open>The four ways a token is made\<close>

definition modifier_type :: "token_type \<Rightarrow> bool" where
  "modifier_type ty \<longleftrightarrow> ty = TOKEN_MODIFIER_PREFIX \<or> ty = TOKEN_MODIFIER_VALUE"

definition modes_kept :: "lexer \<Rightarrow> lexer \<Rightarrow> bool" where
  "modes_kept l lx' \<longleftrightarrow> bracket_depth lx' = bracket_depth l \<and> sql_body_pending lx' = sql_body_pending l"

lemma advances_modes: "advances lx l \<Longrightarrow> modes_kept lx l"
  by (induction rule: advances_induct) (simp_all add: advance_def Let_def modes_kept_def)

text \<open>Raw text, a lens or the body of an \<^verbatim>\<open>sql\<close> block, begins where the cursor is and ends its mode.\<close>

definition raw_token :: "lexer \<Rightarrow> token \<Rightarrow> lexer \<Rightarrow> bool" where
  "raw_token lx t lx' \<longleftrightarrow>
     (\<exists>l. advances lx l \<and> cursor_eq l lx') \<and> plain (t_type t) \<and>
     t = make_token lx' (t_type t) (current lx) (line lx) (column lx) \<and>
     bracket_depth lx' = bracket_depth lx \<and>
     (lens_content_mode lx \<and> \<not> lens_content_mode lx' \<and> sql_body_pending lx' = sql_body_pending lx \<or>
      sql_body_pending lx = 2 \<and> sql_body_pending lx' = 0 \<and> lens_content_mode lx' = lens_content_mode lx)"

definition end_reached :: "lexer \<Rightarrow> token \<Rightarrow> lexer \<Rightarrow> bool" where
  "end_reached lx t lx' \<longleftrightarrow>
     (\<exists>l. advances lx l \<and> is_at_end l \<and> cursor_eq l lx' \<and>
        t = make_token lx' (t_type t) (current l) (line l) (column l)) \<and>
     lens_content_mode lx' = lens_content_mode lx \<and> sql_body_pending lx' = sql_body_pending lx \<and>
     bracket_depth lx' = 0 \<and>
     t_type t = (if 0 < bracket_depth lx then TOKEN_ERROR else TOKEN_EOF)"

definition token_found :: "lexer \<Rightarrow> token \<Rightarrow> lexer \<Rightarrow> bool" where
  "token_found lx t lx' \<longleftrightarrow>
     (\<exists>l. advances lx l \<and> \<not> is_at_end l \<and>
        token_here (advance l) (current l) (line l) (column l) (t, lx'))"

definition modifier_found :: "lexer \<Rightarrow> token \<Rightarrow> lexer \<Rightarrow> bool" where
  "modifier_found lx t lx' \<longleftrightarrow>
     (\<exists>l l'. advances lx l \<and> \<not> is_at_end l \<and> advances (advance l) l' \<and> lx' = l'\<lparr>column := column l' + 1\<rparr> \<and>
        modifier_type (t_type t) \<and> current l < t_start t \<and> t_start t + t_length t < current l' \<and>
        t_line t = line l \<and> t_column t = column l \<and>
        NL \<notin> set (take (t_start t - current l) (text_at l)))"

lemma lens_content_raw:
  assumes "lens_content_mode lx" "lexer_next lx = (t, lx')"
  shows "raw_token lx t lx'"
proof -
  obtain c l where c: "lens_loop False False lx = (c, l)" by force
  then have "advances lx l" using lens_loop_advances [of lx False False] by simp
  with c assms advances_modes [of lx l] show ?thesis
    by (auto simp: raw_token_def lexer_next_def lens_content_token_def cursor_eq_def make_token_def
        error_token_def modes_kept_def Let_def split: if_splits)
qed

lemma sql_body_raw:
  assumes "\<not> lens_content_mode lx" "sql_body_pending lx = 2" "lexer_next lx = (t, lx')"
  shows "raw_token lx t lx'"
proof -
  let ?l = "lx\<lparr>sql_body_pending := 0\<rparr>"
  obtain e l where e: "sql_body_loop ?l = (e, l)" by force
  then have l: "advances ?l l" using sql_body_loop_advances [of ?l] by simp
  then have "modes_kept ?l l" "lens_content_mode l = lens_content_mode lx" 
    using advances_modes advances_mode by fastforce+
  moreover have "\<exists>l'. advances lx l' \<and> cursor_eq l' l"
    using cursor_eq_advances [OF l, of lx] by (auto simp: cursor_eq_def)
  ultimately show ?thesis
    using e assms
    by (auto simp: raw_token_def lexer_next_def sql_body_token_def Let_def cursor_eq_def make_token_def
        error_token_message_def error_token_def modes_kept_def split: if_splits)
qed

lemma lexer_next_normal:
  assumes "\<not> lens_content_mode lx" "sql_body_pending lx \<noteq> 2" "positioned f lx" "lexer_next lx = (t, lx')"
  shows "end_reached lx t lx' \<or> token_found lx t lx' \<or> modifier_found lx t lx'"
proof -
  define l where "l = skip_line_breaks (skip_spaces_and_comments lx)"
  have l: "advances lx l"
    unfolding l_def by (rule advances_trans [OF skip_spaces_advances skip_line_breaks_advances])
  have kept: "bracket_depth l = bracket_depth lx" "sql_body_pending l = sql_body_pending lx"
    "lens_content_mode l = lens_content_mode lx"
    using advances_modes [OF l] advances_mode [OF l] by (simp_all add: modes_kept_def)
  show ?thesis
  proof (cases "is_at_end l")
    case True
    have "lexer_next lx = end_token l (current l) (line l) (column l)"
      using assms(1,2) True by (simp add: lexer_next_def l_def [symmetric] Let_def)
    then have "end_reached lx t lx'"
      using assms(4) l True kept
      by (auto simp: end_reached_def end_token_def Let_def make_token_def cursor_eq_def
          error_token_message_def error_token_def split: if_splits intro!: exI [of _ l])
    then show ?thesis ..
  next
    case False
    let ?ch = "peek_char l"
    have pos: "positioned f (advance l)" "current (advance l) = current l + 1"
      using advance_position(1) [OF advances_position(1) [OF l assms(3)]] advance_current [OF False] by simp_all
    note next_def = lexer_next_def l_def [symmetric] Let_def
    show ?thesis
    proof (cases "?ch = CHR ''{'' \<and> brace_modifier (text_at (advance l)) \<noteq> None")
      case True
      then obtain ty name len after where m: "brace_modifier (text_at (advance l)) = Some (ty, name, len, after)"
        by auto
      from brace_token_modifier [OF m pos, of "line l" "column l"] obtain l' where l':
        "advances (advance l) l'" "brace_token (advance l) (current l) (line l) (column l) =
          (\<lparr>t_type = ty, t_start = index_of (advance l) name, t_length = len, t_line = line l, t_column = column l\<rparr>,
           l'\<lparr>column := column l' + 1\<rparr>)"
        "ty \<in> {TOKEN_MODIFIER_PREFIX, TOKEN_MODIFIER_VALUE}"
        "current l < index_of (advance l) name" "index_of (advance l) name + len < current l'"
        "NL \<notin> set (take (index_of (advance l) name - current l - 1) (text_at (advance l)))" by blast
      have "lexer_next lx = brace_token (advance l) (current l) (line l) (column l)"
        using assms(1,2) False True
        by (simp add: next_def symbol_token_def word_start_def isalpha_def isupper_def isdigit_def)
      with assms(4) l'(2) have t: "t = \<lparr>t_type = ty, t_start = index_of (advance l) name, t_length = len, t_line = line l, t_column = column l\<rparr>"
        "lx' = l'\<lparr>column := column l' + 1\<rparr>" by simp_all
      have "text_at l = CHR ''{'' # text_at (advance l)"
        using True not_at_end [OF False] pos(2)
        by (simp add: text_at_def peek_char_def hd0_def Cons_nth_drop_Suc [symmetric])
      then have "NL \<notin> set (take (t_start t - current l) (text_at l))"
        using l'(4,6) by (auto simp: t take_Cons' split: if_splits)
      with l l' False t have "modifier_found lx t lx'"
        unfolding modifier_found_def modifier_type_def by (intro exI [of _ l] exI [of _ l']) auto
      then show ?thesis by blast
    next
      case nm: False
      have "token_here (advance l) (current l) (line l) (column l) (lexer_next lx)"
      proof (cases "?ch = NL \<or> word_start ?ch \<or> isdigit ?ch")
        case True
        then show ?thesis
          using assms(1,2) False
          by (auto simp: next_def identifier_token_here number_token_here)
      next
        case other: False
        have "lexer_next lx = symbol_token (advance l) ?ch (current l) (line l) (column l)"
          using assms(1,2) False other by (simp add: next_def)
        moreover have "token_here (advance l) (current l) (line l) (column l)
            (symbol_token (advance l) ?ch (current l) (line l) (column l))"
        proof (cases "?ch = CHR ''{''")
          case True
          with nm have "brace_modifier (text_at (advance l)) = None" by blast
          from brace_token_plain [OF this] True show ?thesis by (simp add: symbol_token_def)
        qed (rule symbol_token_here)
        ultimately show ?thesis by simp
      qed
      with assms(4) l False have "token_found lx t lx'" unfolding token_found_def by auto
      then show ?thesis by blast
    qed
  qed
qed

lemma lexer_next_cases:
  assumes "positioned f lx" "lexer_next lx = (t, lx')"
  shows "raw_token lx t lx' \<or> end_reached lx t lx' \<or> token_found lx t lx' \<or> modifier_found lx t lx'"
  using lens_content_raw [OF _ assms(2)] sql_body_raw [OF _ _ assms(2)] lexer_next_normal [OF _ _ assms] by blast

section \<open>Spans and lines\<close>

lemma advances_bounds: "advances lx l \<Longrightarrow> source l = source lx \<and> current lx \<le> current l"
  using advances_source advances_current by blast

lemma line_at_gap:
  "NL \<notin> set (take (j - i) (drop i src)) \<Longrightarrow> i \<le> j \<Longrightarrow> line_at f src j = line_at f src i"
  using take_add [of i "j - i" src] by (simp add: line_at_def count_list_0_iff)

lemma next_span:
  assumes "positioned f lx" "lexer_next lx = (t, lx')"
  shows "positioned f lx' \<and> source lx' = source lx \<and> current lx \<le> t_start t \<and>
    t_start t + t_length t \<le> current lx' \<and> t_line t = line_at f (source lx) (t_start t)"
  using lexer_next_cases [OF assms]
proof (elim disjE)
  assume "raw_token lx t lx'"
  then obtain l where l: "advances lx l" "cursor_eq l lx'"
    "t = make_token lx' (t_type t) (current lx) (line lx) (column lx)" by (auto simp: raw_token_def)
  have "t_start t = current lx" "t_length t = current lx' - current lx" "t_line t = line lx"
    by (subst l(3); simp add: make_token_def)+
  then show ?thesis
    using advances_position(1) [OF l(1) assms(1)] positioned_cong [OF l(2)] advances_bounds [OF l(1)] l(2) assms(1)
    by (auto simp: cursor_eq_def positioned_def)
next
  assume "end_reached lx t lx'"
  then obtain l where l: "advances lx l" "cursor_eq l lx'"
    "t = make_token lx' (t_type t) (current l) (line l) (column l)" by (auto simp: end_reached_def)
  have "t_start t = current l" "t_length t = current lx' - current l" "t_line t = line l"
    by (subst l(3); simp add: make_token_def)+
  then show ?thesis
    using advances_position(1) [OF l(1) assms(1)] positioned_cong [OF l(2)] advances_bounds [OF l(1)] l(2)
    by (auto simp: cursor_eq_def positioned_def)
next
  assume "token_found lx t lx'"
  then obtain l where l: "advances lx l" "\<not> is_at_end l" "scans (advance l) lx'"
    "t = make_token lx' (t_type t) (current l) (line l) (column l)" by (auto simp: token_found_def token_here_def)
  have "t_start t = current l" "t_length t = current lx' - current l" "t_line t = line l"
    by (subst l(4); simp add: make_token_def)+
  then show ?thesis
    using advances_position(1) [OF l(1) assms(1)] scans_position(1) [OF l(3) advance_position(1)]
      advances_bounds [OF l(1)] current_bounds [OF l(3)] advance_current [OF l(2)]
    by (auto simp: positioned_def)
next
  assume "modifier_found lx t lx'"
  then obtain l l' where l: "advances lx l" "\<not> is_at_end l" "advances (advance l) l'"
    "lx' = l'\<lparr>column := column l' + 1\<rparr>" "current l < t_start t" "t_start t + t_length t < current l'"
    "t_line t = line l" "NL \<notin> set (take (t_start t - current l) (text_at l))" unfolding modifier_found_def by blast
  have p: "positioned f l" "positioned f l'"
    using advances_position(1) [OF l(1) assms(1)] advances_position(1) [OF l(3) advance_position(1)] by blast+
  then have "positioned f lx'" by (simp add: l(4) positioned_def)
  moreover have "t_line t = line_at f (source lx) (t_start t)"
    using p(1) l(5,7,8) line_at_gap [of "t_start t" "current l" "source l" f] advances_bounds [OF l(1)]
    by (simp add: positioned_def text_at_def)
  ultimately show ?thesis
    using advances_bounds [OF l(1)] advances_bounds [OF l(3)] l(4-6) by simp
qed

lemma next_column:
  assumes "positioned f lx" "column_exact b lx" "lexer_next lx = (t, lx')"
  shows "if modifier_type (t_type t) then column lx' = column_at b (source lx') (current lx') + 1
    else column_exact b lx' \<and> t_column t = column_at b (source lx') (t_start t)"
  using lexer_next_cases [OF assms(1,3)]
proof (elim disjE)
  assume r: "raw_token lx t lx'"
  then obtain l where l: "advances lx l" "cursor_eq l lx'"
    "t = make_token lx' (t_type t) (current lx) (line lx) (column lx)" by (auto simp: raw_token_def)
  have "t_start t = current lx" "t_column t = column lx" by (subst l(3); simp add: make_token_def)+
  moreover have "\<not> modifier_type (t_type t)"
    using r unfolding raw_token_def plain_def modifier_type_def by blast
  moreover have "column_exact b lx'"
    using advances_position(2) [OF l(1) assms(1,2)] column_exact_cong [OF l(2)] by blast
  moreover have "column lx = column_at b (source lx') (current lx)"
    using assms(2) advances_bounds [OF l(1)] l(2) by (simp add: column_exact_def cursor_eq_def)
  ultimately show ?thesis by simp
next
  assume r: "end_reached lx t lx'"
  then obtain l where l: "advances lx l" "cursor_eq l lx'"
    "t = make_token lx' (t_type t) (current l) (line l) (column l)" by (auto simp: end_reached_def)
  have "t_start t = current l" "t_column t = column l" by (subst l(3); simp add: make_token_def)+
  moreover have "t_type t = (if 0 < bracket_depth lx then TOKEN_ERROR else TOKEN_EOF)"
    using r unfolding end_reached_def by blast
  then have "\<not> modifier_type (t_type t)" by (simp add: modifier_type_def)
  moreover have "column_exact b l" "column_exact b lx'" "source lx' = source l"
    using advances_position(2) [OF l(1) assms(1,2)] column_exact_cong [OF l(2)] l(2)
    by (simp_all add: cursor_eq_def)
  ultimately show ?thesis by (simp add: column_exact_def)
next
  assume r: "token_found lx t lx'"
  then obtain l where l: "advances lx l" "\<not> is_at_end l" "scans (advance l) lx'"
    "t = make_token lx' (t_type t) (current l) (line l) (column l)" "plain (t_type t)"
    by (auto simp: token_found_def token_here_def)
  have "t_start t = current l" "t_column t = column l" by (subst l(4); simp add: make_token_def)+
  moreover have p: "positioned f l" "column_exact b l" using advances_position [OF l(1) assms(1)] assms(2) by blast+
  ultimately show ?thesis
    using scans_position(2) [OF l(3) advance_position(1) [OF p(1)] advance_position(2) [OF p]] current_bounds [OF l(3)] l(5)
    by (auto simp: column_exact_def plain_def modifier_type_def)
next
  assume "modifier_found lx t lx'"
  then obtain l l' where l: "advances lx l" "advances (advance l) l'"
    "lx' = l'\<lparr>column := column l' + 1\<rparr>" "modifier_type (t_type t)" unfolding modifier_found_def by blast
  have p: "positioned f l" "column_exact b l" using advances_position [OF l(1) assms(1)] assms(2) by blast+
  have "column_exact b l'"
    by (rule advances_position(2) [OF l(2) advance_position(1) [OF p(1)] advance_position(2) [OF p]])
  with l(3,4) show ?thesis by (simp add: column_exact_def)
qed

section \<open>The end of the text\<close>

definition weight :: "lexer \<Rightarrow> nat" where
  "weight lx = 4 * remaining lx + of_bool (lens_content_mode lx) + of_bool (sql_body_pending lx \<noteq> 0) +
     of_bool (0 < bracket_depth lx)"

lemma next_lighter:
  assumes "positioned f lx" "lexer_next lx = (t, lx')" "t_type t \<noteq> TOKEN_EOF"
  shows "weight lx' < weight lx"
  using lexer_next_cases [OF assms(1,2)]
proof (elim disjE)
  assume r: "raw_token lx t lx'"
  then obtain l where l: "advances lx l" "cursor_eq l lx'" by (auto simp: raw_token_def)
  then have "remaining lx' \<le> remaining lx"
    using advances_bounds [OF l(1)] by (auto simp: remaining_def cursor_eq_def)
  with r show ?thesis by (auto simp: weight_def raw_token_def)
next
  assume r: "end_reached lx t lx'"
  then obtain l where l: "advances lx l" "cursor_eq l lx'" by (auto simp: end_reached_def)
  then have "remaining lx' \<le> remaining lx"
    using advances_bounds [OF l(1)] by (auto simp: remaining_def cursor_eq_def)
  with r assms(3) show ?thesis by (auto simp: weight_def end_reached_def split: if_splits)
next
  assume "token_found lx t lx'"
  then obtain l where l: "advances lx l" "\<not> is_at_end l" "scans (advance l) lx'"
    by (auto simp: token_found_def token_here_def)
  have "remaining lx' < remaining lx"
    using advances_bounds [OF l(1)] current_bounds [OF l(3)] advance_current [OF l(2)] not_at_end [OF l(2)]
    by (auto simp: remaining_def)
  moreover have "lens_content_mode lx' = lens_content_mode lx"
    using l(3) advances_mode [OF l(1)] advances_mode [OF advances_advance, of l] by (simp add: scans_def)
  ultimately show ?thesis by (auto simp: weight_def of_bool_def)
next
  assume "modifier_found lx t lx'"
  then obtain l l' where l: "advances lx l" "\<not> is_at_end l" "advances (advance l) l'"
    "lx' = l'\<lparr>column := column l' + 1\<rparr>" unfolding modifier_found_def by blast
  have "remaining lx' < remaining lx"
    using advances_bounds [OF l(1)] advances_bounds [OF l(3)] advance_current [OF l(2)] not_at_end [OF l(2)]
    by (auto simp: remaining_def l(4))
  moreover have "lens_content_mode lx' = lens_content_mode lx"
    using advances_mode [OF l(1)] advances_mode [OF l(3)] advances_mode [OF advances_advance, of l] by (simp add: l(4))
  ultimately show ?thesis by (auto simp: weight_def of_bool_def)
qed

text \<open>The lexer after \<open>n\<close> tokens.\<close>

definition after_tokens :: "nat \<Rightarrow> lexer \<Rightarrow> lexer" where
  "after_tokens n lx = ((snd \<circ> lexer_next) ^^ n) lx"

lemma lexing_ends:
  assumes "positioned f lx"
  shows "\<exists>n \<le> weight lx. t_type (fst (lexer_next (after_tokens n lx))) = TOKEN_EOF"
  using assms
proof (induction lx rule: measure_induct_rule [of weight])
  case (less lx)
  obtain t lx' where n: "lexer_next lx = (t, lx')" by force
  show ?case
  proof (cases "t_type t = TOKEN_EOF")
    case True
    with n show ?thesis by (intro exI [of _ 0]) (simp add: after_tokens_def)
  next
    case False
    from next_lighter [OF less.prems n False] have w: "weight lx' < weight lx" .
    from less.IH [OF w] next_span [OF less.prems n] obtain k where
      "k \<le> weight lx'" "t_type (fst (lexer_next (after_tokens k lx'))) = TOKEN_EOF" by blast
    with w n show ?thesis
      by (intro exI [of _ "Suc k"]) (simp add: after_tokens_def funpow_Suc_right del: funpow.simps)
  qed
qed

lemma init_positioned:
  assumes "NUL \<notin> set src"
  shows "positioned f (lexer_init_at src f)"
    "column_exact (current (lexer_init_at src f)) (lexer_init_at src f)"
proof -
  have t: "take 3 src = [CHR 0xEF, CHR 0xBB, CHR 0xBF] \<Longrightarrow> 3 \<le> length src"
    by (metis length_take list.size(3,4) min.absorb_iff1 min_def numeral_3_eq_3 One_nat_def add.right_neutral add_Suc_right nat_le_linear)
  show "positioned f (lexer_init_at src f)"
    using assms t by (auto simp: positioned_def lexer_init_at_def line_at_def)
  show "column_exact (current (lexer_init_at src f)) (lexer_init_at src f)"
    by (auto simp: column_exact_def lexer_init_at_def column_at_def)
qed

section \<open>Words\<close>

lemma keyword_equals_lower: "keyword_equals w k \<longleftrightarrow> map tolower w = k"
  by (auto simp: keyword_equals_def list_eq_iff_nth_eq)

lemma identifier_type_lookup:
  "identifier_type w = (case map_of keyword_table (map tolower w) of Some ty \<Rightarrow> ty | None \<Rightarrow> TOKEN_IDENT)"
proof -
  have "(case find (\<lambda>(k, _). map tolower w = k) tab of Some (_, ty) \<Rightarrow> ty | None \<Rightarrow> TOKEN_IDENT) =
    (case map_of tab (map tolower w) of Some ty \<Rightarrow> ty | None \<Rightarrow> TOKEN_IDENT)" for tab :: "(string \<times> token_type) list"
    by (induction tab) auto
  then show ?thesis by (simp add: identifier_type_def keyword_equals_lower)
qed

lemma keywords_distinct: "distinct (map fst keyword_table)" "distinct (map snd keyword_table)"
  by (simp_all add: keyword_table_def)

section \<open>Line breaks in brackets\<close>

lemma skip_line_breaks_stops:
  "\<not> (0 < bracket_depth (skip_line_breaks lx) \<and> \<not> is_at_end (skip_line_breaks lx) \<and>
      peek_char (skip_line_breaks lx) = NL)"
proof (induction lx rule: skip_line_breaks.induct)
  case (1 lx)
  show ?case
  proof (cases "0 < bracket_depth lx \<and> \<not> is_at_end lx \<and> peek_char lx = NL")
    case True
    then have "skip_line_breaks lx = skip_line_breaks (skip_spaces_and_comments (advance lx))"
      by (subst skip_line_breaks.simps) simp
    with 1 [OF True] show ?thesis by simp
  next
    case False
    then have "skip_line_breaks lx = lx" by (subst skip_line_breaks.simps) auto
    with False show ?thesis by simp
  qed
qed

lemma word_type_no_newline: "t_type (fst (identifier_token lx start ln col)) \<noteq> TOKEN_NEWLINE"
proof -
  have "ty \<noteq> TOKEN_NEWLINE" if "(k, ty) \<in> set keyword_table" for k ty
    using that by (auto simp: keyword_table_def)
  then have "identifier_type w \<noteq> TOKEN_NEWLINE" for w
    using map_of_SomeD [of keyword_table "map tolower w"] by (auto simp: identifier_type_lookup split: option.splits)
  then have w: "fst (word_in_place l s n) \<noteq> TOKEN_NEWLINE" for l s n
    by (simp add: word_in_place_def Let_def)
  have c: "ty \<noteq> TOKEN_NEWLINE \<Longrightarrow> fst (consider_branch l ty c) \<noteq> TOKEN_NEWLINE" for l ty c
    by (simp add: consider_branch_def Let_def)
  show ?thesis
  proof (cases "word_in_place (advance_while word_char lx) start ln")
    case (Pair ty l)
    then have "ty \<noteq> TOKEN_NEWLINE" using w [of "advance_while word_char lx" start ln] by simp
    with Pair c [of ty l col] show ?thesis
      by (auto simp: identifier_token_def Let_def make_token_def split: option.splits prod.splits)
  qed
qed

text \<open>Only words have the types of words, and only a line break that of one.\<close>

definition word_types :: "token_type set" where
  "word_types = insert TOKEN_NEWLINE (range Structure)"

lemma word_types_simps [simp]:
  "TOKEN_NEWLINE \<in> word_types" "Structure w \<in> word_types" "TOKEN_EOF \<notin> word_types"
  "TOKEN_NUMBER \<notin> word_types" "TOKEN_STRING \<notin> word_types" "TOKEN_LENS_CONTENT \<notin> word_types"
  "Symbol y \<notin> word_types" "TOKEN_MODIFIER_PREFIX \<notin> word_types" "TOKEN_MODIFIER_VALUE \<notin> word_types"
  "TOKEN_SQL_TEXT \<notin> word_types" "TOKEN_ERROR \<notin> word_types"
  by (auto simp: word_types_def)

lemma symbol_type: "t_type (fst (symbol_token lx ch start ln col)) \<notin> word_types"
proof -
  have e: "t_type (fst (error_token_message l start ln col m)) \<notin> word_types" for l m
    by (simp add: error_token_message_def error_token_def make_token_def Let_def)
  have w: "t_type (fst (with_equals l a b start ln col)) \<notin> word_types" for l a b
    by (simp add: with_equals_def make_token_def split: prod.splits bool.splits)
  have n: "t_type (fst (bang_token lx start ln col)) \<notin> word_types"
    "t_type (fst (less_token lx start ln col)) \<notin> word_types"
    "t_type (fst (string_token lx start ln col)) \<notin> word_types"
    "t_type (fst (sigil_or lx start ln col c m)) \<notin> word_types" for c m
    using e w by (simp_all add: bang_token_def less_token_def string_token_def sigil_or_def sigil_error_def
        make_token_def error_token_def split: prod.splits bool.splits option.splits)
  have b: "t_type (fst (brace_token lx start ln col)) \<notin> word_types"
    using brace_modifier_split [of "text_at lx"]
    by (fastforce simp: brace_token_def Let_def make_token_def split: option.splits prod.splits)
  show ?thesis
    using e w n b by (simp add: symbol_token_def make_token_def error_token_def sigil_error_def Let_def)
qed

lemma newline_outside:
  assumes "\<not> lens_content_mode lx" "sql_body_pending lx \<noteq> 2" "0 < bracket_depth lx" "lexer_next lx = (t, lx')"
  shows "t_type t \<noteq> TOKEN_NEWLINE"
proof -
  define l where "l = skip_line_breaks (skip_spaces_and_comments lx)"
  have "bracket_depth l = bracket_depth lx"
    using advances_modes [OF advances_trans [OF skip_spaces_advances skip_line_breaks_advances], of lx]
    by (simp add: l_def modes_kept_def)
  with assms(3) skip_line_breaks_stops [of "skip_spaces_and_comments lx"] have nl: "is_at_end l \<or> peek_char l \<noteq> NL"
    by (auto simp: l_def)
  have num: "t_type (fst (number_token a s n c)) \<noteq> TOKEN_NEWLINE" for a s n c
    by (simp add: number_token_def make_token_def Let_def)
  have sym: "t_type (fst (symbol_token a ch s n c)) \<noteq> TOKEN_NEWLINE" for a ch s n c
    using symbol_type [of a ch s n c] by auto
  have "t_type (fst (lexer_next lx)) \<noteq> TOKEN_NEWLINE"
    using assms(1,2) nl word_type_no_newline sym num
    by (auto simp: lexer_next_def l_def [symmetric] end_token_def make_token_def error_token_message_def
        error_token_def Let_def)
  with assms(4) show ?thesis by simp
qed

section \<open>The depth of \<^verbatim>\<open>consider\<close>\<close>

lemma advances_consider: "advances lx l \<Longrightarrow> consider_depth l = consider_depth lx"
  by (induction rule: advances_induct) (simp_all add: advance_def Let_def)

lemma identifier_consider:
  assumes "identifier_token lx start ln col = (t, lx')" "t_type t = Structure TOKEN_CONSIDER"
  shows "consider_depth lx' = consider_depth lx + 1"
proof -
  obtain ty l where w: "word_in_place (advance_while word_char lx) start ln = (ty, l)" by force
  have "consider_depth (snd (word_in_place (advance_while word_char lx) start ln)) = consider_depth lx"
    using advances_consider [OF advance_while_advances] by (simp add: word_in_place_def Let_def)
  then have d: "consider_depth l = consider_depth lx" by (simp add: w)
  obtain ty' l' where c: "consider_branch l ty col = (ty', l')" by force
  have "t = make_token lx' ty' start ln col \<and> lx' = l'"
    using assms w c by (auto simp: identifier_token_def Let_def make_token_def split: option.splits if_splits)
  with assms(2) have "ty' = Structure TOKEN_CONSIDER" "lx' = l'" by (simp_all add: make_token_def)
  with c d show ?thesis by (auto simp: consider_branch_def Let_def split: if_splits)
qed

lemma consider_grows:
  assumes "lexer_next lx = (t, lx')" "t_type t = Structure TOKEN_CONSIDER"
  shows "consider_depth lx' = consider_depth lx + 1"
proof -
  define l where "l = skip_line_breaks (skip_spaces_and_comments lx)"
  have d: "consider_depth (advance l) = consider_depth lx"
    unfolding l_def
    by (rule advances_consider, rule advance_step, rule advances_trans [OF skip_spaces_advances skip_line_breaks_advances])
  have "t_type (fst (number_token a s n c)) \<notin> word_types" "t_type (fst (end_token a s n c)) \<notin> word_types"
    "t_type (fst (lens_content_token a)) \<notin> word_types" "t_type (fst (sql_body_token a)) \<notin> word_types" for a s n c
    by (simp_all add: number_token_def end_token_def lens_content_token_def sql_body_token_def make_token_def
        error_token_message_def error_token_def Let_def split: prod.splits)
  moreover have "t_type t \<in> word_types" using assms(2) by simp
  ultimately have no: "number_token a s n c \<noteq> (t, lx')" "end_token a s n c \<noteq> (t, lx')"
    "lens_content_token a \<noteq> (t, lx')" "sql_body_token a \<noteq> (t, lx')"
    "symbol_token a ch s n c \<noteq> (t, lx')" for a ch s n c
    using symbol_type [of a ch s n c] by (metis fst_conv)+
  have "make_token a TOKEN_NEWLINE s n c \<noteq> t" for a s n c
    using assms(2) by (auto simp: make_token_def)
  then have "identifier_token (advance l) (current l) (line l) (column l) = (t, lx')"
    using assms(1) no by (auto simp: lexer_next_def l_def [symmetric] Let_def split: if_splits)
  from identifier_consider [OF this assms(2)] d show ?thesis by simp
qed

section \<open>Names\<close>

definition named_types :: "token_type list" where
  "named_types =
     map (Structure \<circ> fst) structure_names @ map (Reserved \<circ> fst) reserved_names @
     map (Symbol \<circ> fst) symbol_names @
     [TOKEN_EOF, TOKEN_IDENT, TOKEN_QUALIFIED_IDENT, TOKEN_NUMBER, TOKEN_STRING, TOKEN_LENS_CONTENT,
      TOKEN_CONSIDER_IF, TOKEN_CONSIDER_ELSE, TOKEN_END_CONSIDER, TOKEN_MODIFIER_PREFIX, TOKEN_MODIFIER_VALUE,
      TOKEN_WINDOW_OPEN, TOKEN_DATABASE_OPEN, TOKEN_SQL_OPEN, TOKEN_SQL_TEXT, TOKEN_NEWLINE, TOKEN_ERROR]"

lemma named_types_all: "ty \<in> set named_types \<or> ty = Reserved TOKEN_EXCLUDING \<or> ty = Reserved TOKEN_INTERSECTING"
proof (cases ty)
  case (Structure w)
  then show ?thesis by (cases w) (simp_all add: named_types_def structure_names_def)
next
  case (Reserved w)
  then show ?thesis by (cases w) (simp_all add: named_types_def reserved_names_def)
next
  case (Symbol w)
  then show ?thesis by (cases w) (simp_all add: named_types_def symbol_names_def)
qed (simp_all add: named_types_def)

lemma names_distinct: "distinct (map token_type_name named_types)"
  by code_simp

section \<open>Properties\<close>

text \<open>C10. Tokens lie in the text in order: a token begins at or behind the cursor and ends at or
  before the new one, the text is not changed, and its line number is exactly one more than the
  line breaks before its first character, in every mode and for every kind of token, raw \<^verbatim>\<open>sql\<close>
  bodies and strings over several lines included.\<close>

theorem lexer_spans_and_lines:
  assumes "positioned f lx" "lexer_next lx = (t, lx')"
  shows "positioned f lx' \<and> source lx' = source lx \<and> current lx \<le> t_start t \<and>
    t_start t + t_length t \<le> current lx' \<and> t_line t = line_at f (source lx) (t_start t)"
  by (rule next_span [OF assms])

lemma lexer_spans_and_lines_witness:
  "t_line (fst (lexer_next (snd (lexer_next (lexer_init [CHR ''a'', NL, CHR ''b'']))))) = 1"
proof -
  let ?lx = "lexer_init [CHR ''a'', NL, CHR ''b'']"
  have p: "positioned 1 ?lx" using init_positioned(1) [of "[CHR ''a'', NL, CHR ''b'']" 1] by (simp add: lexer_init_def)
  have a: "lexer_next ?lx = (fst (lexer_next ?lx), snd (lexer_next ?lx))" by simp
  have p': "positioned 1 (snd (lexer_next ?lx))" using lexer_spans_and_lines [OF p a] by simp
  have b: "lexer_next (snd (lexer_next ?lx)) = (fst (lexer_next (snd (lexer_next ?lx))), snd (lexer_next (snd (lexer_next ?lx))))"
    by simp
  have v: "source (snd (lexer_next ?lx)) = [CHR ''a'', NL, CHR ''b'']"
    "t_start (fst (lexer_next (snd (lexer_next ?lx)))) = 1" by code_simp+
  from lexer_spans_and_lines [OF p' b] v show ?thesis by (simp add: line_at_def)
qed

text \<open>Columns: as long as no modifier in braces has been met on the line, the column of a token is
  the distance of its first character from the line's start. Behind a modifier the lexer's column is
  one too large: the brace is counted once by \<^verbatim>\<open>advance\<close> and again by the jump over the clause.\<close>

theorem lexer_columns:
  assumes "positioned f lx" "column_exact b lx" "lexer_next lx = (t, lx')"
  shows "if modifier_type (t_type t) then column lx' = column_at b (source lx') (current lx') + 1
    else column_exact b lx' \<and> t_column t = column_at b (source lx') (t_start t)"
  by (rule next_column [OF assms])

lemma lexer_columns_witness:
  "t_type (fst (lexer_next (lexer_init ''{USD}x''))) = TOKEN_MODIFIER_PREFIX \<and>
   current (snd (lexer_next (lexer_init ''{USD}x''))) = 5 \<and>
   column (snd (lexer_next (lexer_init ''{USD}x''))) = 7 \<and> column_at 0 ''{USD}x'' 5 = 6"
proof -
  let ?lx = "lexer_init ''{USD}x''"
  have p: "positioned 1 ?lx" "column_exact 0 ?lx"
    using init_positioned [of "''{USD}x''" 1] by (simp_all add: lexer_init_def lexer_init_at_def)
  have n: "lexer_next ?lx = (fst (lexer_next ?lx), snd (lexer_next ?lx))" by simp
  have v: "t_type (fst (lexer_next ?lx)) = TOKEN_MODIFIER_PREFIX" "current (snd (lexer_next ?lx)) = 5"
    "source (snd (lexer_next ?lx)) = ''{USD}x''" by code_simp+
  have "column_at 0 ''{USD}x'' 5 = 6" by (simp add: column_at_def)
  with lexer_columns [OF p n] v show ?thesis by (simp add: modifier_type_def)
qed

text \<open>C11. Lexing any text comes to its end: at the latest after four tokens a character the lexer
  answers \<^verbatim>\<open>EOF\<close>, whatever errors, unclosed brackets and unclosed blocks it met.\<close>

theorem lexer_reaches_end:
  assumes "NUL \<notin> set src"
  shows "\<exists>n \<le> 4 * length src. t_type (fst (lexer_next (after_tokens n (lexer_init src)))) = TOKEN_EOF"
proof -
  have "weight (lexer_init src) \<le> 4 * length src"
    by (simp add: weight_def lexer_init_def lexer_init_at_def remaining_def)
  with lexing_ends [OF init_positioned(1) [OF assms], of 1] show ?thesis
    using order_trans by (fastforce simp: lexer_init_def)
qed

lemma lexer_reaches_end_witness:
  "\<exists>n \<le> 16. t_type (fst (lexer_next (after_tokens n (lexer_init ''f([{'')))) = TOKEN_EOF"
  using lexer_reaches_end [of "''f([{''"] by simp

text \<open>C13. Inside brackets a line break is blank: while any bracket is open no \<^verbatim>\<open>NEWLINE\<close> is answered.\<close>

theorem brackets_join_lines:
  assumes "\<not> lens_content_mode lx" "sql_body_pending lx \<noteq> 2" "0 < bracket_depth lx" "lexer_next lx = (t, lx')"
  shows "t_type t \<noteq> TOKEN_NEWLINE"
  by (rule newline_outside [OF assms])

lemma brackets_join_lines_witness:
  "t_type (fst (lexer_next (snd (lexer_next (lexer_init [CHR ''('', NL, CHR ''b'']))))) \<noteq> TOKEN_NEWLINE"
proof -
  let ?lx = "snd (lexer_next (lexer_init [CHR ''('', NL, CHR ''b'']))"
  have n: "lexer_next ?lx = (fst (lexer_next ?lx), snd (lexer_next ?lx))" by simp
  have "\<not> lens_content_mode ?lx" "sql_body_pending ?lx \<noteq> 2" "0 < bracket_depth ?lx" by code_simp+
  from brackets_join_lines [OF this n] show ?thesis .
qed

text \<open>Reserved words are recognised in any mixture of cases, and nothing else is: the type of a
  word is what the table of reserved words says of its lower-case form, each word has a type of its
  own, and a word not in the table is an identifier.\<close>

theorem reserved_words_caseless:
  "identifier_type w = (case map_of keyword_table (map tolower w) of Some ty \<Rightarrow> ty | None \<Rightarrow> TOKEN_IDENT) \<and>
   distinct (map fst keyword_table) \<and> distinct (map snd keyword_table)"
  using identifier_type_lookup keywords_distinct by blast

text \<open>Diagnostics name token types by distinct names, except that \<^verbatim>\<open>excluding\<close> and
  \<^verbatim>\<open>intersecting\<close>, which \<^verbatim>\<open>token_type_name\<close> forgets, are both called what the word
  \<^verbatim>\<open>unknown\<close> is called.\<close>

theorem token_names:
  "token_type_name a = token_type_name b \<longleftrightarrow>
     a = b \<or> {a, b} \<subseteq> {Reserved TOKEN_UNKNOWN, Reserved TOKEN_EXCLUDING, Reserved TOKEN_INTERSECTING}"
proof -
  let ?u = "Reserved TOKEN_UNKNOWN"
  have same: "token_type_name (Reserved TOKEN_EXCLUDING) = token_type_name ?u"
    "token_type_name (Reserved TOKEN_INTERSECTING) = token_type_name ?u"
    by (simp_all add: name_of_def reserved_names_def)
  have u: "?u \<in> set named_types" by (simp add: named_types_def reserved_names_def)
  define r where "r ty = (if ty = Reserved TOKEN_EXCLUDING \<or> ty = Reserved TOKEN_INTERSECTING then ?u else ty)" for ty
  have r: "token_type_name ty = token_type_name (r ty)" "r ty \<in> set named_types" for ty
    using same u named_types_all [of ty] by (auto simp: r_def)
  have "inj_on token_type_name (set named_types)" using names_distinct by (simp add: distinct_map)
  then have "token_type_name a = token_type_name b \<longleftrightarrow> r a = r b"
    using r [of a] r [of b] by (auto dest: inj_onD)
  then show ?thesis by (auto simp: r_def)
qed

text \<open>The 64 places for the columns of open \<^verbatim>\<open>consider\<close> blocks are not guarded where they are read:
  once a \<^verbatim>\<open>consider\<close> is met with 64 open, the next word is compared with a column behind the array.\<close>

theorem consider_stack_overrun:
  assumes "lexer_next lx = (t, lx')" "t_type t = Structure TOKEN_CONSIDER" "64 \<le> consider_depth lx"
  shows "0 < consider_depth lx' \<and> consider_column lx' = None"
  using consider_grows [OF assms(1,2)] assms(3) by (simp add: consider_column_def)

lemma consider_stack_overrun_witness:
  "consider_column (snd (lexer_next ((lexer_init ''consider'')\<lparr>consider_depth := 64\<rparr>))) = None"
proof -
  let ?lx = "(lexer_init ''consider'')\<lparr>consider_depth := 64\<rparr>"
  have n: "lexer_next ?lx = (fst (lexer_next ?lx), snd (lexer_next ?lx))" by simp
  have "t_type (fst (lexer_next ?lx)) = Structure TOKEN_CONSIDER" "64 \<le> consider_depth ?lx" by code_simp+
  from consider_stack_overrun [OF n this] show ?thesis by blast
qed

end
