(* ===== verification/Lexer_Literals.thy ===== *)
theory Lexer_Literals
  imports Lexer_Total
begin

text \<open>
  Number and string literals: a number token is the longest prefix of the text that is a number by
  the grammar, and every text has a string literal that lexes as one token.
\<close>

section \<open>Scans as texts\<close>

lemma text_at_advance:
  assumes "peek_char lx \<noteq> NUL"
  shows "text_at lx = peek_char lx # text_at (advance lx)" "current (advance lx) = current lx + 1"
proof -
  have e: "\<not> is_at_end lx" using assms by (simp add: is_at_end_def peek_char_def)
  then show "current (advance lx) = current lx + 1" by (rule advance_current)
  then show "text_at lx = peek_char lx # text_at (advance lx)"
    using not_at_end [OF e] by (simp add: text_at_def peek_char_def hd0_def Cons_nth_drop_Suc [symmetric])
qed

lemma advance_while_text:
  assumes "\<not> p NUL"
  shows "text_at (advance_while p lx) = dropWhile p (text_at lx)"
    "current (advance_while p lx) = current lx + length (takeWhile p (text_at lx))"
proof -
  have "text_at (advance_while p lx) = dropWhile p (text_at lx) \<and>
      current (advance_while p lx) = current lx + length (takeWhile p (text_at lx))"
    using assms
  proof (induction p lx rule: advance_while.induct)
    case (1 p lx)
    show ?case
    proof (cases "\<not> is_at_end lx \<and> p (peek_char lx)")
      case True
      then have "peek_char lx \<noteq> NUL" by (simp add: is_at_end_def peek_char_def)
      note t = text_at_advance [OF this]
      have "advance_while p lx = advance_while p (advance lx)" using True by (subst advance_while.simps) simp
      with 1 True t show ?thesis by simp
    next
      case False
      then have "\<not> p (peek_char lx)" using 1(2) by (auto simp: is_at_end_def peek_char_def)
      then have "takeWhile p (text_at lx) = [] \<and> dropWhile p (text_at lx) = text_at lx"
        by (cases "text_at lx") (auto simp: peek_char_def hd0_def)
      moreover have "advance_while p lx = lx" using False by (subst advance_while.simps) auto
      ultimately show ?thesis by simp
    qed
  qed
  then show "text_at (advance_while p lx) = dropWhile p (text_at lx)"
    "current (advance_while p lx) = current lx + length (takeWhile p (text_at lx))" by blast+
qed

lemma digit_not_nul: "\<not> isdigit NUL" "\<not> isxdigit NUL"
  by (simp_all add: isdigit_def isxdigit_def)

section \<open>The grammar of numbers\<close>

definition digits :: "string \<Rightarrow> bool" where
  "digits d \<longleftrightarrow> d \<noteq> [] \<and> list_all isdigit d"

definition fraction_part :: "string \<Rightarrow> bool" where
  "fraction_part f \<longleftrightarrow> f = [] \<or> (\<exists>d. f = CHR ''.'' # d \<and> digits d)"

definition exponent_part :: "string \<Rightarrow> bool" where
  "exponent_part e \<longleftrightarrow>
     e = [] \<or> (\<exists>c g d. e = c # g @ d \<and> c \<in> {CHR ''e'', CHR ''E''} \<and> g \<in> {[], ''+'', ''-''} \<and> digits d)"

definition number_literal :: "string \<Rightarrow> bool" where
  "number_literal s \<longleftrightarrow>
     (\<exists>x h. s = CHR ''0'' # x # h \<and> x \<in> {CHR ''x'', CHR ''X''} \<and> h \<noteq> [] \<and> list_all isxdigit h) \<or>
     (\<exists>i f e. s = i @ f @ e \<and> digits i \<and> fraction_part f \<and> exponent_part e)"

section \<open>The scan as a length\<close>

definition fraction_length :: "string \<Rightarrow> nat" where
  "fraction_length r =
     (if hd0 r = CHR ''.'' \<and> isdigit (hd0 (tl r)) then 1 + length (takeWhile isdigit (tl r)) else 0)"

definition exponent_length :: "string \<Rightarrow> nat" where
  "exponent_length r =
     (if hd0 r = CHR ''e'' \<or> hd0 r = CHR ''E'' then
        let sign = (if hd0 (tl r) = CHR ''+'' \<or> hd0 (tl r) = CHR ''-'' then 1 else 0)
        in if isdigit (hd0 (drop sign (tl r)))
           then 1 + sign + length (takeWhile isdigit (drop sign (tl r))) else 0
      else 0)"

lemma number_fraction_text:
  "text_at (number_fraction lx) = drop (fraction_length (text_at lx)) (text_at lx) \<and>
   current (number_fraction lx) = current lx + fraction_length (text_at lx)"
proof (cases "hd0 (text_at lx) = CHR ''.'' \<and> isdigit (hd0 (tl (text_at lx)))")
  case True
  then have p: "peek_char lx = CHR ''.''" by (simp add: peek_char_def)
  then have "peek_char lx \<noteq> NUL" by simp
  note t = text_at_advance [OF this]
  from True p have "peek_char lx = CHR ''.'' \<and> isdigit (peek_next lx)"
    by (simp add: peek_next_def is_at_end_def)
  then have "number_fraction lx = advance_while isdigit (advance lx)" by (simp add: number_fraction_def)
  then show ?thesis
    using advance_while_text [of isdigit "advance lx"] digit_not_nul t True
    by (simp add: fraction_length_def) (simp add: dropWhile_eq_drop)
next
  case False
  then have "\<not> (peek_char lx = CHR ''.'' \<and> isdigit (peek_next lx))"
    by (auto simp: peek_char_def peek_next_def digit_not_nul)
  then show ?thesis using False by (auto simp: number_fraction_def fraction_length_def)
qed

lemma number_exponent_text:
  "text_at (number_exponent lx) = drop (exponent_length (text_at lx)) (text_at lx) \<and>
   current (number_exponent lx) = current lx + exponent_length (text_at lx)"
proof (cases "hd0 (text_at lx) = CHR ''e'' \<or> hd0 (text_at lx) = CHR ''E''")
  case True
  then have e: "peek_char lx = CHR ''e'' \<or> peek_char lx = CHR ''E''" by (simp add: peek_char_def)
  then have "peek_char lx \<noteq> NUL" by auto
  note t = text_at_advance [OF this]
  have tl: "tl (text_at lx) = text_at (advance lx)" using t(1) by (metis list.sel(3))
  define sign where "sign \<longleftrightarrow> hd0 (tl (text_at lx)) = CHR ''+'' \<or> hd0 (tl (text_at lx)) = CHR ''-''"
  let ?rest = "if sign then tl (tl (text_at lx)) else tl (text_at lx)"
  define l where "l = (if sign then advance (advance lx) else advance lx)"
  have l: "text_at l = ?rest \<and> current l = current lx + (if sign then 2 else 1)"
  proof (cases sign)
    case True
    then have "peek_char (advance lx) \<noteq> NUL" by (auto simp: sign_def tl peek_char_def)
    note u = text_at_advance [OF this]
    have "tl (text_at (advance lx)) = text_at (advance (advance lx))" using u(1) by (metis list.sel(3))
    with u(2) t(2) True show ?thesis by (simp add: l_def tl)
  next
    case False
    with t(2) show ?thesis by (simp add: l_def tl)
  qed
  have sign': "(peek_char (advance lx) = CHR ''+'' \<or> peek_char (advance lx) = CHR ''-'') = sign"
    by (simp add: sign_def tl peek_char_def)
  have n: "number_exponent lx = (if isdigit (hd0 ?rest) then advance_while isdigit l else lx)"
    using e sign' by (simp add: number_exponent_def Let_def l_def sign_def [symmetric])
  have len: "exponent_length (text_at lx) =
      (if isdigit (hd0 ?rest) then (if sign then 2 else 1) + length (takeWhile isdigit ?rest) else 0)"
    using True by (simp add: exponent_length_def Let_def sign_def [symmetric] drop_Suc)
  show ?thesis
    using n len l advance_while_text [of isdigit l] digit_not_nul
    by (cases sign) (auto simp: dropWhile_eq_drop drop_Suc add.commute)
next
  case False
  then show ?thesis by (simp add: number_exponent_def exponent_length_def peek_char_def)
qed

section \<open>The longest number\<close>

definition hex_begins :: "string \<Rightarrow> bool" where
  "hex_begins r \<longleftrightarrow>
     hd0 r = CHR ''0'' \<and> hd0 (tl r) \<in> {CHR ''x'', CHR ''X''} \<and> isxdigit (hd0 (tl (tl r)))"

definition number_length :: "string \<Rightarrow> nat" where
  "number_length r =
     (if hex_begins r then 2 + length (takeWhile isxdigit (drop 2 r))
      else let i = length (takeWhile isdigit r); f = fraction_length (drop i r)
      in i + f + exponent_length (drop (i + f) r))"

lemma take_takeWhile [simp]: "take (length (takeWhile p r)) r = takeWhile p r"
  by (metis takeWhile_eq_take)

lemma hd0_digit: "isdigit (hd0 r) \<Longrightarrow> digits (takeWhile isdigit r)"
  by (cases r) (auto simp: digits_def hd0_def digit_not_nul list_all_iff dest: set_takeWhileD)

lemma digits_then: "digits d \<Longrightarrow> takeWhile isdigit (d @ s) = d @ takeWhile isdigit s \<and> isdigit (hd0 (d @ s))"
  by (cases d) (auto simp: digits_def list_all_iff hd0_def)

lemma fraction_is: "fraction_part (take (fraction_length r) r)"
  using hd0_digit [of "tl r"] by (cases r) (auto simp: fraction_length_def fraction_part_def hd0_def)

lemma exponent_is: "exponent_part (take (exponent_length r) r)"
proof (cases "exponent_length r = 0")
  case False
  then obtain c q where r: "r = c # q" "c = CHR ''e'' \<or> c = CHR ''E''"
    by (cases r) (auto simp: exponent_length_def hd0_def split: if_splits)
  show ?thesis
  proof (cases "hd0 q = CHR ''+'' \<or> hd0 q = CHR ''-''")
    case True
    then obtain g u where q: "q = g # u" "g = CHR ''+'' \<or> g = CHR ''-''" by (cases q) (auto simp: hd0_def)
    with False r have d: "isdigit (hd0 u)" "exponent_length r = 2 + length (takeWhile isdigit u)"
      by (auto simp: exponent_length_def hd0_def Let_def split: if_splits)
    have "take (exponent_length r) r = c # [g] @ takeWhile isdigit u"
      by (simp only: d(2)) (simp add: r(1) q(1))
    with r(2) q(2) hd0_digit [OF d(1)] show ?thesis unfolding exponent_part_def by blast
  next
    case nosign: False
    with False r have d: "isdigit (hd0 q)" "exponent_length r = 1 + length (takeWhile isdigit q)"
      by (auto simp: exponent_length_def hd0_def Let_def split: if_splits)
    have "take (exponent_length r) r = c # [] @ takeWhile isdigit q"
      by (simp only: d(2)) (simp add: r(1))
    with r(2) hd0_digit [OF d(1)] show ?thesis unfolding exponent_part_def by blast
  qed
qed (simp add: exponent_part_def)

lemma exponent_longest:
  assumes "exponent_part e"
  shows "length e \<le> exponent_length (e @ s)"
proof (cases "e = []")
  case False
  then obtain c g d where e: "e = c # g @ d" "c \<in> {CHR ''e'', CHR ''E''}" "g \<in> {[], ''+'', ''-''}" "digits d"
    using assms by (auto simp: exponent_part_def)
  have "isdigit (hd0 (d @ s)) \<Longrightarrow> hd0 (d @ s) \<noteq> CHR ''+'' \<and> hd0 (d @ s) \<noteq> CHR ''-''"
    by (auto simp: isdigit_def)
  with digits_then [OF e(4), of s] e(2,3) show ?thesis
    by (auto simp: e(1) exponent_length_def hd0_def Let_def)
qed simp

lemma fraction_exponent_longest:
  assumes "fraction_part f" "exponent_part e"
  shows "length f + length e \<le>
    fraction_length (f @ e @ s) + exponent_length (drop (fraction_length (f @ e @ s)) (f @ e @ s))"
proof (cases "e = []")
  case True
  have "length f \<le> fraction_length (f @ s)"
    using assms(1) digits_then by (fastforce simp: fraction_part_def fraction_length_def hd0_def)
  with True show ?thesis by simp
next
  case False
  then obtain c q where e: "e = c # q" "c = CHR ''e'' \<or> c = CHR ''E''"
    using assms(2) by (auto simp: exponent_part_def)
  have "fraction_length (f @ e @ s) = length f"
  proof (cases "f = []")
    case True
    with e show ?thesis by (auto simp: fraction_length_def hd0_def)
  next
    case False
    then obtain d where f: "f = CHR ''.'' # d" "digits d" using assms(1) by (auto simp: fraction_part_def)
    from digits_then [OF f(2), of "e @ s"] e show ?thesis
      by (auto simp: f(1) fraction_length_def hd0_def isdigit_def)
  qed
  with exponent_longest [OF assms(2), of s] show ?thesis by simp
qed

lemma number_length_is:
  assumes "isdigit (hd0 r)"
  shows "number_literal (take (number_length r) r)"
proof (cases "hex_begins r")
  case True
  then obtain x q where r: "r = CHR ''0'' # x # q" "x \<in> {CHR ''x'', CHR ''X''}" "isxdigit (hd0 q)"
    by (cases r; cases "tl r") (auto simp: hex_begins_def hd0_def)
  then have "take (number_length r) r = CHR ''0'' # x # takeWhile isxdigit q"
    using True by (simp add: number_length_def)
  moreover have "takeWhile isxdigit q \<noteq> [] \<and> list_all isxdigit (takeWhile isxdigit q)"
    using r(3) by (cases q) (auto simp: hd0_def digit_not_nul list_all_iff dest: set_takeWhileD)
  ultimately show ?thesis using r(2) unfolding number_literal_def by blast
next
  case False
  let ?i = "takeWhile isdigit r"
  let ?f = "fraction_length (drop (length ?i) r)"
  let ?q = "drop (length ?i) r"
  have "take (number_length r) r = ?i @ take ?f ?q @ take (exponent_length (drop ?f ?q)) (drop ?f ?q)"
    using False by (simp add: number_length_def Let_def take_add add.assoc add.commute [of _ "length ?i"])
  with hd0_digit [OF assms] fraction_is [of ?q] exponent_is [of "drop ?f ?q"] show ?thesis
    unfolding number_literal_def by blast
qed

lemma number_longest:
  assumes "number_literal p"
  shows "length p \<le> number_length (p @ s)"
  using assms unfolding number_literal_def
proof (elim disjE exE conjE)
  fix x h assume p: "p = CHR ''0'' # x # h" "x \<in> {CHR ''x'', CHR ''X''}" "h \<noteq> []" "list_all isxdigit h"
  then have "hex_begins (p @ s)" by (cases h) (auto simp: hex_begins_def hd0_def)
  moreover have "takeWhile isxdigit (h @ s) = h @ takeWhile isxdigit s" using p(4) by (simp add: list_all_iff)
  ultimately show ?thesis by (simp add: number_length_def p(1))
next
  fix i f e assume p: "p = i @ f @ e" "digits i" "fraction_part f" "exponent_part e"
  note i = digits_then [OF p(2), of "f @ e @ s"]
  have head: "f @ e \<noteq> [] \<Longrightarrow> hd0 (f @ e @ s) \<in> {CHR ''.'', CHR ''e'', CHR ''E''}"
    using p(3,4) by (auto simp: fraction_part_def exponent_part_def hd0_def)
  then have i': "f @ e \<noteq> [] \<Longrightarrow> takeWhile isdigit (f @ e @ s) = []"
    by (cases "f @ e @ s") (auto simp: hd0_def isdigit_def)
  show ?thesis
  proof (cases "hex_begins (p @ s)")
    case True
    have "length p \<le> 2"
    proof (rule ccontr)
      assume long: "\<not> length p \<le> 2"
      obtain x q where q: "p @ s = CHR ''0'' # x # q" "x \<in> {CHR ''x'', CHR ''X''}"
        using True by (cases "p @ s"; cases "tl (p @ s)") (auto simp: hex_begins_def hd0_def)
      have "\<not> isdigit x" using q(2) by (auto simp: isdigit_def)
      with q(1) have "takeWhile isdigit (p @ s) = ''0''" by (simp add: isdigit_def)
      with i p(1) have "i = ''0''" "takeWhile isdigit (f @ e @ s) = []"
        using p(2) by (cases i; auto simp: digits_def)+
      with q(1) p(1) have "f @ e @ s = x # q" by simp
      moreover have "f @ e \<noteq> []" using long p(1) \<open>i = ''0''\<close> by auto
      ultimately have "x \<in> {CHR ''.'', CHR ''e'', CHR ''E''}" using head by (simp add: hd0_def)
      with q(2) show False by auto
    qed
    with True show ?thesis by (simp add: number_length_def)
  next
    case False
    show ?thesis
    proof (cases "f @ e = []")
      case True
      with False i p(1) show ?thesis by (simp add: number_length_def Let_def)
    next
      case ne: False
      with i i' p(1) have "length (takeWhile isdigit (p @ s)) = length i" by simp
      with fraction_exponent_longest [OF p(3,4), of s] False p(1) show ?thesis
        by (simp add: number_length_def Let_def)
    qed
  qed
qed

lemma number_token_length:
  assumes "isdigit (peek_char lx)" "number_token (advance lx) (current lx) ln col = (t, lx')"
  shows "t_type t = TOKEN_NUMBER \<and> t_start t = current lx \<and> t_length t = number_length (text_at lx)"
proof -
  have nn: "peek_char lx \<noteq> NUL" using assms(1) digit_not_nul by auto
  note t = text_at_advance [OF nn]
  obtain c r where r: "text_at lx = c # r" "peek_char lx = c" "isdigit c"
    using t(1) assms(1) by blast
  have r': "text_at (advance lx) = r" using t(1) r(1) by simp
  have "current lx < length (source lx)" using nn not_at_end [of lx] by (auto simp: is_at_end_def peek_char_def)
  then have src: "source (advance lx) ! current lx = c"
    using r(1) by (simp add: text_at_def) (metis hd_drop_conv_nth list.sel(1))
  have peeks: "peek_char (advance lx) = hd0 r" "hd0 r \<noteq> NUL \<Longrightarrow> peek_next (advance lx) = hd0 (tl r)"
    by (simp_all add: peek_char_def peek_next_def is_at_end_def r')
  have hex: "number_is_hex (advance lx) (current lx) = hex_begins (text_at lx)"
    using peeks src by (auto simp: number_is_hex_def hex_begins_def r(1) hd0_def)
  have "current lx' = current lx + number_length (text_at lx) \<and> t = make_token lx' TOKEN_NUMBER (current lx) ln col"
  proof (cases "hex_begins (text_at lx)")
    case True
    then have "peek_char (advance lx) \<noteq> NUL" by (auto simp: peeks(1) hex_begins_def r(1))
    note u = text_at_advance [OF this]
    have "text_at (advance (advance lx)) = drop 2 (text_at lx)" using u(1) r' by (simp add: r(1) drop_Suc)
    with True hex assms(2) advance_while_text(2) [of isxdigit "advance (advance lx)"] digit_not_nul u(2) t(2) show ?thesis
      by (auto simp: number_token_def number_length_def Let_def)
  next
    case False
    let ?a = "advance_while isdigit (advance lx)"
    let ?i = "length (takeWhile isdigit (text_at lx))"
    have i: "?i = 1 + length (takeWhile isdigit r)" using r by simp
    have a: "text_at ?a = drop ?i (text_at lx)" "current ?a = current lx + ?i"
      using advance_while_text [of isdigit "advance lx"] digit_not_nul t(2) i
      by (simp_all add: r' r(1,3) dropWhile_eq_drop)
    let ?b = "number_fraction ?a"
    have b: "text_at ?b = drop (?i + fraction_length (drop ?i (text_at lx))) (text_at lx)"
      "current ?b = current lx + ?i + fraction_length (drop ?i (text_at lx))"
      using number_fraction_text [of ?a] a by (simp_all add: add.commute)
    have "current (number_exponent ?b) = current lx + number_length (text_at lx)"
      using number_exponent_text [of ?b] b False by (simp add: number_length_def Let_def)
    with False hex assms(2) show ?thesis by (auto simp: number_token_def Let_def)
  qed
  then show ?thesis by (simp add: make_token_def)
qed

text \<open>A number token is the longest prefix of the text that is a number: a hexadecimal literal, or
  digits with an optional fraction and an optional exponent, each with a digit of its own.\<close>

theorem number_token_longest:
  assumes "isdigit (peek_char lx)" "number_token (advance lx) (current lx) ln col = (t, lx')"
  shows "t_type t = TOKEN_NUMBER \<and> t_start t = current lx \<and>
    number_literal (take (t_length t) (text_at lx)) \<and>
    (\<forall>p s. text_at lx = p @ s \<longrightarrow> number_literal p \<longrightarrow> length p \<le> t_length t)"
proof -
  have "isdigit (hd0 (text_at lx))" using assms(1) by (simp add: peek_char_def)
  with number_token_length [OF assms] number_length_is number_longest show ?thesis by auto
qed

lemma number_token_longest_witness:
  "number_literal (take (t_length (fst (number_token (advance (lexer_init ''1.5e+x'')) 0 1 1))) ''1.5e+x'') \<and>
   t_length (fst (number_token (advance (lexer_init ''1.5e+x'')) 0 1 1)) = 3"
proof -
  let ?lx = "lexer_init ''1.5e+x''"
  let ?n = "number_token (advance ?lx) 0 1 1"
  have d: "isdigit (peek_char ?lx)" "current ?lx = 0" "text_at ?lx = ''1.5e+x''" by code_simp+
  have "number_token (advance ?lx) (current ?lx) 1 1 = (fst ?n, snd ?n)" using d(2) by simp
  from number_token_longest [OF d(1) this] d(3)
  have "number_literal (take (t_length (fst ?n)) ''1.5e+x'')" by simp
  moreover have "t_length (fst ?n) = 3" by code_simp
  ultimately show ?thesis by simp
qed

section \<open>String literals\<close>

text \<open>A text as it is written between quotes.\<close>

fun quote_text :: "string \<Rightarrow> string" where
  "quote_text [] = []"
| "quote_text (c # s) =
     (if c = DQUOTE \<or> c = BACKSLASH then BACKSLASH # c # quote_text s else c # quote_text s)"

lemma string_loop_quoted:
  assumes "text_at lx = quote_text s @ DQUOTE # r" "NUL \<notin> set s"
  shows "fst (string_loop lx) = None \<and>
    current (snd (string_loop lx)) = current lx + length (quote_text s) + 1"
  using assms
proof (induction s arbitrary: lx)
  case Nil
  then have p: "peek_char lx = DQUOTE" by (simp add: peek_char_def hd0_def)
  then have "peek_char lx \<noteq> NUL" by simp
  from text_at_advance(2) [OF this] p show ?case
    by (subst (1 2) string_loop.simps) (simp add: Let_def is_at_end_def peek_char_def)
next
  case (Cons c s)
  show ?case
  proof (cases "c = DQUOTE \<or> c = BACKSLASH")
    case True
    have p: "peek_char lx = BACKSLASH" using Cons.prems(1) True by (auto simp: peek_char_def hd0_def)
    then have pn: "peek_char lx \<noteq> NUL" by simp
    note t = text_at_advance [OF pn]
    have t1: "text_at (advance lx) = c # quote_text s @ DQUOTE # r" using Cons.prems(1) True t(1) by auto
    have p1: "peek_char (advance lx) = c" by (simp add: peek_char_def t1 hd0_def)
    then have "peek_char (advance lx) \<noteq> NUL" using True by auto
    note u = text_at_advance [OF this]
    have t2: "text_at (advance (advance lx)) = quote_text s @ DQUOTE # r" using u(1) t1 by simp
    have "string_escape (advance lx) = (None, advance (advance lx))"
      using True p1 by (auto simp: string_escape_def Let_def is_at_end_def peek_char_def)
    then have "string_loop lx = string_loop (advance (advance lx))"
      using p by (subst string_loop.simps) (simp add: Let_def is_at_end_def peek_char_def)
    with Cons.IH [OF t2] Cons.prems(2) True u(2) t(2) show ?thesis by auto
  next
    case False
    have p: "peek_char lx = c" using Cons.prems(1) False by (auto simp: peek_char_def hd0_def)
    then have pn: "peek_char lx \<noteq> NUL" using Cons.prems(2) by auto
    note t = text_at_advance [OF pn]
    have t1: "text_at (advance lx) = quote_text s @ DQUOTE # r" using Cons.prems(1) False t(1) by auto
    have "string_loop lx = string_loop (advance lx)"
      using p pn False by (subst string_loop.simps) (auto simp: Let_def is_at_end_def peek_char_def)
    with Cons.IH [OF t1] Cons.prems(2) False t(2) show ?thesis by auto
  qed
qed

lemma string_token_quoted:
  assumes "text_at lx = DQUOTE # quote_text s @ DQUOTE # r" "NUL \<notin> set s"
  shows "t_type (fst (string_token (advance lx) (current lx) ln col)) = TOKEN_STRING \<and>
    t_length (fst (string_token (advance lx) (current lx) ln col)) = length (quote_text s) + 2 \<and>
    text_at (snd (string_token (advance lx) (current lx) ln col)) = r"
proof -
  have p: "peek_char lx = DQUOTE" using assms(1) by (simp add: peek_char_def hd0_def)
  then have "peek_char lx \<noteq> NUL" by simp
  note t = text_at_advance [OF this]
  have t1: "text_at (advance lx) = quote_text s @ DQUOTE # r" using assms(1) t(1) by simp
  obtain m l where l: "string_loop (advance lx) = (m, l)" by force
  with string_loop_quoted [OF t1 assms(2)] have m: "m = None" "current l = current (advance lx) + length (quote_text s) + 1"
    by simp_all
  have "text_at l = drop (length (quote_text s) + 1) (text_at (advance lx))"
    using m(2) advances_source [OF string_loop_advances, of "advance lx"] l by (simp add: text_at_def add.commute)
  then have "text_at l = r" by (simp add: t1)
  with l m t(2) show ?thesis by (simp add: string_token_def make_token_def)
qed

text \<open>C12. Every text has a literal: written with its quotes and backslashes escaped it lexes as one
  string token, from quote to quote, and the rest of the program is left untouched. Line breaks need
  no escape.\<close>

theorem string_literal_lexes:
  assumes "text_at lx = DQUOTE # quote_text s @ DQUOTE # r" "NUL \<notin> set s"
    and "\<not> lens_content_mode lx" "sql_body_pending lx \<noteq> 2"
  shows "t_type (fst (lexer_next lx)) = TOKEN_STRING \<and> t_start (fst (lexer_next lx)) = current lx \<and>
    t_length (fst (lexer_next lx)) = length (quote_text s) + 2 \<and> text_at (snd (lexer_next lx)) = r"
proof -
  have p: "peek_char lx = DQUOTE" using assms(1) by (simp add: peek_char_def hd0_def)
  have "skip_spaces_and_comments lx = lx"
    using p by (subst skip_spaces_and_comments.simps) (simp add: Let_def)
  moreover have "skip_line_breaks lx = lx" using p by (subst skip_line_breaks.simps) simp
  ultimately have "lexer_next lx = string_token (advance lx) (current lx) (line lx) (column lx)"
    using assms(3,4) p
    by (simp add: lexer_next_def Let_def symbol_token_def is_at_end_def peek_char_def word_start_def isalpha_def
        isupper_def isdigit_def)
  moreover have "t_start (fst (string_token a b c d)) = b" for a b c d
    by (simp add: string_token_def make_token_def error_token_message_def error_token_def Let_def
        split: prod.splits option.splits)
  ultimately show ?thesis using string_token_quoted [OF assms(1,2)] by simp
qed

lemma string_literal_lexes_witness:
  "t_length (fst (lexer_next (lexer_init [DQUOTE, BACKSLASH, DQUOTE, NL, DQUOTE, CHR ''+'']))) = 5"
proof -
  let ?lx = "lexer_init [DQUOTE, BACKSLASH, DQUOTE, NL, DQUOTE, CHR ''+'']"
  have "text_at ?lx = DQUOTE # quote_text [DQUOTE, NL] @ DQUOTE # ''+''" "NUL \<notin> set [DQUOTE, NL]"
    "\<not> lens_content_mode ?lx" "sql_body_pending ?lx \<noteq> 2" by code_simp+
  from string_literal_lexes [OF this] show ?thesis by simp
qed

end
