(* ===== verification/Civil.thy ===== *)
theory Civil
  imports Values "HOL-Library.Signed_Division" "HOL-Library.Monad_Syntax"
begin

text \<open>
  Civil time: the calendar of \<^verbatim>\<open>src/eval.c\<close> (leap years, months, the loops that normalise a
  date-time, the weekday) and the instant arithmetic of \<^verbatim>\<open>src/platform_win32.c\<close> that
  \<^verbatim>\<open>zone_timegm\<close> and \<^verbatim>\<open>zone_civil_from_epoch_utc\<close> call (on POSIX the C library's \<^verbatim>\<open>timegm\<close> and
  \<^verbatim>\<open>gmtime_r\<close> stand in its place). Signed C arithmetic that overflows is undefined: the arithmetic
  on the \<^verbatim>\<open>int\<close> fields of a date-time that can leave the type is checked (\<open>c_int\<close>) and its overflow
  is \<open>None\<close>; the \<^verbatim>\<open>long long\<close> arithmetic, which cannot overflow on \<^verbatim>\<open>int\<close> fields, is on \<open>int\<close>. \<open>/\<close> and \<open>%\<close> round towards zero: \<open>sdiv\<close> and \<open>smod\<close>. The \<^verbatim>\<open>unsigned\<close>
  arithmetic of the day algorithms, which wraps on purpose, is on 32-bit words.
\<close>

section \<open>The calendar\<close>

definition is_leap_year :: "int \<Rightarrow> bool" where
  "is_leap_year y \<longleftrightarrow> y smod 4 = 0 \<and> y smod 100 \<noteq> 0 \<or> y smod 400 = 0"

definition month_lengths :: "int list" where
  "month_lengths = [31, 28, 31, 30, 31, 30, 31, 31, 30, 31, 30, 31]"

definition days_in_month :: "int \<Rightarrow> int \<Rightarrow> int" where
  "days_in_month y m = (if m = 2 \<and> is_leap_year y then 29 else month_lengths ! nat (m - 1))"

section \<open>Normalising a date-time\<close>

text \<open>The C type \<^verbatim>\<open>int\<close> of 32 bits: the result of an operation, or \<open>None\<close> when it overflows.\<close>

definition in_int :: "int \<Rightarrow> bool" where
  "in_int x \<longleftrightarrow> - (2 ^ 31) \<le> x \<and> x < 2 ^ 31"

definition c_int :: "int \<Rightarrow> int option" where
  "c_int x = (if in_int x then Some x else None)"

text \<open>
  \<^verbatim>\<open>while (lo >= limit) { lo -= base; hi++; }\<close> and \<^verbatim>\<open>while (lo < limit) { lo += base; hi--; }\<close>:
  the eight carry loops of \<^verbatim>\<open>normalize_datetime\<close>, with base 60, 60, 24 and 12. The low part moves
  towards the limit and cannot overflow; the high part can.
\<close>

function carry_up :: "int \<Rightarrow> int \<Rightarrow> int \<Rightarrow> int \<Rightarrow> (int \<times> int) option" where
  "carry_up base limit lo hi =
     (if 0 < base \<and> limit \<le> lo then do { hi \<leftarrow> c_int (hi + 1); carry_up base limit (lo - base) hi }
      else Some (lo, hi))"
  by pat_completeness auto
termination by (relation "measure (\<lambda>(base, limit, lo, hi). nat (lo - limit + 1))") auto

function carry_down :: "int \<Rightarrow> int \<Rightarrow> int \<Rightarrow> int \<Rightarrow> (int \<times> int) option" where
  "carry_down base limit lo hi =
     (if 0 < base \<and> lo < limit then do { hi \<leftarrow> c_int (hi - 1); carry_down base limit (lo + base) hi }
      else Some (lo, hi))"
  by pat_completeness auto
termination by (relation "measure (\<lambda>(base, limit, lo, hi). nat (limit - lo))") auto

lemma month_cases:
  "1 \<le> m \<Longrightarrow> m \<le> 12 \<Longrightarrow> m \<in> {1, 2, 3, 4, 5, 6, 7, 8, 9, 10, 11, 12 :: int}"
proof -
  assume "1 \<le> m" "m \<le> 12"
  then have "m \<in> set [1..12]" by simp
  then show ?thesis by (simp add: upto.simps)
qed

lemma month_length_bounds:
  "1 \<le> m \<Longrightarrow> m \<le> 12 \<Longrightarrow> 28 \<le> days_in_month y m \<and> days_in_month y m \<le> 31"
  using month_cases [of m] by (auto simp: days_in_month_def month_lengths_def)

text \<open>The two day loops. The month is in range when they start: the month loops have run.\<close>

function day_up :: "int \<Rightarrow> int \<Rightarrow> int \<Rightarrow> (int \<times> int \<times> int) option" where
  "day_up y m d =
     (if 1 \<le> m \<and> m \<le> 12 \<and> days_in_month y m < d
      then (let d' = d - days_in_month y m; m' = m + 1
            in if 12 < m' then do { y' \<leftarrow> c_int (y + 1); day_up y' 1 d' } else day_up y m' d')
      else Some (y, m, d))"
  by pat_completeness auto
termination
proof (relation "measure (\<lambda>(y, m, d). nat d)", simp, goal_cases)
  case (1 y m d d' m' y')
  with month_length_bounds [of m y] show ?case by (auto simp del: One_nat_def)
next
  case (2 y m d d' m')
  with month_length_bounds [of m y] show ?case by auto
qed

function day_down :: "int \<Rightarrow> int \<Rightarrow> int \<Rightarrow> (int \<times> int \<times> int) option" where
  "day_down y m d =
     (if 1 \<le> m \<and> m \<le> 12 \<and> d < 1
      then (let m' = m - 1
            in if m' < 1 then do { y' \<leftarrow> c_int (y - 1); day_down y' 12 (d + days_in_month y' 12) }
               else day_down y m' (d + days_in_month y m'))
      else Some (y, m, d))"
  by pat_completeness auto
termination
proof (relation "measure (\<lambda>(y, m, d). nat (1 - d))", simp, goal_cases)
  case (1 y m d m' y')
  with month_length_bounds [of 12 y'] show ?case by simp
next
  case (2 y m d m')
  with month_length_bounds [of m' y] show ?case by simp
qed

declare carry_up.simps [simp del] carry_down.simps [simp del] day_up.simps [simp del] day_down.simps [simp del]

definition normalize_datetime :: "datetime \<Rightarrow> datetime option" where
  "normalize_datetime dt =
     do { (s, mi) \<leftarrow> carry_up 60 60 (second dt) (minute dt);
          (s, mi) \<leftarrow> carry_down 60 0 s mi;
          (mi, h) \<leftarrow> carry_up 60 60 mi (hour dt);
          (mi, h) \<leftarrow> carry_down 60 0 mi h;
          (h, d) \<leftarrow> carry_up 24 24 h (day dt);
          (h, d) \<leftarrow> carry_down 24 0 h d;
          (m, y) \<leftarrow> carry_up 12 13 (month dt) (year dt);
          (m, y) \<leftarrow> carry_down 12 1 m y;
          (y, m, d) \<leftarrow> day_up y m d;
          (y, m, d) \<leftarrow> day_down y m d;
          Some (dt\<lparr>year := y, month := m, day := d, hour := h, minute := mi, second := s\<rparr>) }"

section \<open>The weekday\<close>

definition sakamoto_offsets :: "int list" where
  "sakamoto_offsets = [0, 3, 2, 5, 0, 3, 5, 1, 4, 6, 2, 4]"

definition datetime_weekday_iso :: "int \<Rightarrow> int \<Rightarrow> int \<Rightarrow> int" where
  "datetime_weekday_iso yr mo d =
     (let y = (if mo < 3 then yr - 1 else yr);
          w = (y + y sdiv 4 - y sdiv 100 + y sdiv 400 + sakamoto_offsets ! nat (mo - 1) + d) smod 7
      in if w = 0 then 7 else w)"

definition dt_day_of_week :: "int \<Rightarrow> int \<Rightarrow> int \<Rightarrow> int" where
  "dt_day_of_week y m d =
     (let y = (if m < 3 then y - 1 else y)
      in (y + y sdiv 4 - y sdiv 100 + y sdiv 400 + sakamoto_offsets ! nat (m - 1) + d) smod 7)"

section \<open>Days and instants\<close>

definition floor_div :: "int \<Rightarrow> int \<Rightarrow> int" where
  "floor_div a b = (let q = a sdiv b in if a smod b \<noteq> 0 \<and> (a < 0) \<noteq> (b < 0) then q - 1 else q)"

definition days_from_civil :: "int \<Rightarrow> u32 \<Rightarrow> u32 \<Rightarrow> int" where
  "days_from_civil y m d =
     (let y = y - (if m \<le> 2 then 1 else 0);
          era = floor_div y 400;
          yoe = word_of_int (y - era * 400) :: u32;
          doy = (153 * (m + (if 2 < m then - 3 else 9)) + 2) div 5 + d - 1;
          doe = yoe * 365 + yoe div 4 - yoe div 100 + doy
      in era * 146097 + uint doe - 719468)"

definition civil_from_days :: "int \<Rightarrow> int \<times> u32 \<times> u32" where
  "civil_from_days z =
     (let z = z + 719468;
          era = floor_div z 146097;
          doe = word_of_int (z - era * 146097) :: u32;
          yoe = (doe - doe div 1460 + doe div 36524 - doe div 146096) div 365;
          doy = doe - (365 * yoe + yoe div 4 - yoe div 100);
          mp = (5 * doy + 2) div 153;
          d = doy - (153 * mp + 2) div 5 + 1;
          m = (if mp < 10 then mp + 3 else mp - 9);
          y = uint yoe + era * 400 + (if m \<le> 2 then 1 else 0)
      in (y, m, d))"

text \<open>\<^verbatim>\<open>struct tm\<close>, and the cast \<^verbatim>\<open>(int)\<close> of a \<^verbatim>\<open>long long\<close>, which keeps the low 32 bits.\<close>

record tm =
  tm_year :: int
  tm_mon :: int
  tm_mday :: int
  tm_hour :: int
  tm_min :: int
  tm_sec :: int
  tm_wday :: int
  tm_yday :: int
  tm_isdst :: int

definition int_cast :: "int \<Rightarrow> int" where
  "int_cast x = signed_take_bit 31 x"

definition gb_gmtime :: "int \<Rightarrow> tm" where
  "gb_gmtime secs =
     (let days = floor_div secs 86400;
          rem = secs - days * 86400;
          (y, m, d) = civil_from_days days
      in \<lparr>tm_year = int_cast (y - 1900), tm_mon = uint m - 1, tm_mday = uint d,
          tm_hour = int_cast (rem sdiv 3600), tm_min = int_cast (rem smod 3600 sdiv 60),
          tm_sec = int_cast (rem smod 60),
          tm_wday = int_cast (floor_div (days + 4) 7 * - 7 + days + 4),
          tm_yday = int_cast (days - days_from_civil y 1 1), tm_isdst = 0\<rparr>)"

text \<open>\<^verbatim>\<open>gb_timegm\<close> answers the instant and rewrites the fields to match it.\<close>

definition gb_timegm :: "tm \<Rightarrow> int \<times> tm" where
  "gb_timegm t =
     (let y = tm_year t + 1900 + floor_div (tm_mon t) 12;
          mon = tm_mon t - floor_div (tm_mon t) 12 * 12;
          days = days_from_civil y (word_of_int mon + 1) 1 + tm_mday t - 1;
          secs = days * 86400 + tm_hour t * 3600 + tm_min t * 60 + tm_sec t
      in (secs, gb_gmtime secs))"

definition zone_fill_tm :: "datetime \<Rightarrow> tm" where
  "zone_fill_tm dt =
     \<lparr>tm_year = year dt - 1900, tm_mon = (if 1 \<le> month dt then month dt else 1) - 1,
      tm_mday = (if 1 \<le> day dt then day dt else 1), tm_hour = hour dt, tm_min = minute dt,
      tm_sec = second dt, tm_wday = 0, tm_yday = 0, tm_isdst = 0\<rparr>"

definition zone_tm_matches :: "tm \<Rightarrow> datetime \<Rightarrow> bool" where
  "zone_tm_matches l dt \<longleftrightarrow>
     tm_year l = year dt - 1900 \<and> tm_mon l = month dt - 1 \<and> tm_mday l = day dt \<and>
     tm_hour l = hour dt \<and> tm_min l = minute dt \<and> tm_sec l = second dt"

definition zone_timegm :: "datetime \<Rightarrow> int" where
  "zone_timegm dt = fst (gb_timegm (zone_fill_tm dt))"

abbreviation (input) "PREC_YEAR \<equiv> 1 :: int"
abbreviation (input) "PREC_MONTH \<equiv> 2 :: int"
abbreviation (input) "PREC_DAY \<equiv> 3 :: int"
abbreviation (input) "PREC_HOUR \<equiv> 4 :: int"
abbreviation (input) "PREC_MINUTE \<equiv> 5 :: int"
abbreviation (input) "PREC_SECOND \<equiv> 6 :: int"

definition zone_civil_from_epoch_utc :: "int \<Rightarrow> int \<Rightarrow> datetime" where
  "zone_civil_from_epoch_utc epoch prec =
     (let g = gb_gmtime epoch
      in \<lparr>year = tm_year g + 1900, month = tm_mon g + 1, day = tm_mday g, hour = tm_hour g,
          minute = tm_min g, second = tm_sec g, time_only = False,
          precision = (if prec < PREC_HOUR then PREC_SECOND else prec)\<rparr>)"

section \<open>Named zones\<close>

text \<open>
  \<^verbatim>\<open>zone_resolve_instants\<close> as built for Windows (the \<^verbatim>\<open>_WIN32\<close> branch; the POSIX branch asks the C
  library's \<^verbatim>\<open>mktime\<close> under both daylight hints and is not modelled), where it asks \<^verbatim>\<open>gb_zone_offset\<close> (ICU) for the
  offset of the zone at an instant; \<open>offset\<close> stands for that call, \<open>None\<close> for its refusal. The
  answer is the kind (0 unique, 1 ambiguous, 2 nonexistent) with the instants chosen, earlier and
  later. \<open>zone_candidate\<close> is the loop body that validates one candidate.
\<close>

definition zone_candidate :: "(int \<Rightarrow> int option) \<Rightarrow> int \<Rightarrow> int \<Rightarrow> bool" where
  "zone_candidate offset cand want = (offset cand = Some want)"

definition zone_choose :: "bool \<Rightarrow> bool \<Rightarrow> int \<Rightarrow> int \<Rightarrow> int \<times> int \<times> int \<times> int" where
  "zone_choose valid0 valid1 cand0 cand1 =
     (let lo = (if cand0 < cand1 then cand0 else cand1);
          hi = (if cand0 < cand1 then cand1 else cand0)
      in if valid0 \<and> valid1 then (1, lo, lo, hi)
         else if valid0 \<or> valid1 then
           (let chosen = (if valid0 then cand0 else cand1) in (0, chosen, chosen, chosen))
         else (2, hi, lo, hi))"

definition zone_resolve_instants :: "(int \<Rightarrow> int option) \<Rightarrow> datetime \<Rightarrow> int \<times> int \<times> int \<times> int" where
  "zone_resolve_instants offset dt =
     (let naive = zone_timegm dt
      in case (offset (naive - 86400), offset (naive + 86400)) of
           (Some before, Some after) \<Rightarrow>
             (let valid0 = zone_candidate offset (naive - before) before;
                  valid1 = (before \<noteq> after \<and> zone_candidate offset (naive - after) after)
              in zone_choose valid0 valid1 (naive - before) (naive - after))
         | _ \<Rightarrow> (0, naive, naive, naive))"

text \<open>
  The local zone: \<open>local_offset\<close> answers the offset and whether it is daylight time; \<open>c_localtime\<close>
  and \<open>c_mktime\<close> are the C runtime's, which are asked when there is no zone database.
\<close>

definition gb_localtime :: "(int \<Rightarrow> (int \<times> bool) option) \<Rightarrow> (int \<Rightarrow> tm option) \<Rightarrow> int \<Rightarrow> tm option" where
  "gb_localtime local_offset c_localtime t =
     (case local_offset t of
        None \<Rightarrow> c_localtime t
      | Some (off, is_dst) \<Rightarrow> Some ((gb_gmtime (t + off))\<lparr>tm_isdst := of_bool is_dst\<rparr>))"

definition gb_mktime :: "(int \<Rightarrow> (int \<times> bool) option) \<Rightarrow> (tm \<Rightarrow> int) \<Rightarrow> tm \<Rightarrow> int" where
  "gb_mktime local_offset c_mktime t =
     (let naive = fst (gb_timegm t); offset = map_option fst \<circ> local_offset
      in case (offset (naive - 86400), offset (naive + 86400)) of
           (Some before, Some after) \<Rightarrow>
             (let cand0 = naive - before; cand1 = naive - after;
                  valid0 = zone_candidate offset cand0 before;
                  valid1 = (before \<noteq> after \<and> zone_candidate offset cand1 after);
                  lo = (if cand0 < cand1 then cand0 else cand1);
                  hi = (if cand0 < cand1 then cand1 else cand0)
              in if valid0 \<and> valid1 then lo else if valid0 then cand0 else if valid1 then cand1 else hi)
         | _ \<Rightarrow> c_mktime t)"

definition datetime_to_epoch :: "(tm \<Rightarrow> int) \<Rightarrow> datetime \<Rightarrow> int option" where
  "datetime_to_epoch mktime_local dt =
     (if time_only dt then None
      else let t = mktime_local ((zone_fill_tm dt)\<lparr>tm_isdst := -1\<rparr>)
           in if t = -1 then None else Some t)"

text \<open>\<^verbatim>\<open>zone_localtime\<close>, the other direction: the civil fields of an instant in the zone.\<close>

definition zone_localtime :: "(int \<Rightarrow> int option) \<Rightarrow> int \<Rightarrow> tm option" where
  "zone_localtime offset raw =
     (case offset raw of None \<Rightarrow> None | Some off \<Rightarrow> Some (gb_gmtime (raw + off)))"

end
