(* ===== verification/Datetime.thy ===== *)
theory Datetime
  imports Civil Chars
begin

text \<open>
  Date-times and durations of \<^verbatim>\<open>src/eval.c\<close>: the calendar check and its messages, the readers of
  ISO text with their zone suffixes, the text a value is shown as, the lenses, the arithmetic of
  date-times and durations and the dot fields. A reader answers the date-time, or the message of
  the calendar rule the text broke, or no message when the text has not the shape of a date. An
  operation that raises (always code 1003) answers the message. Adding a duration computes on \<^verbatim>\<open>int\<close>
  fields; where it would overflow, which C leaves undefined, it answers \<open>None\<close>. Texts are the characters before
  the NUL; the message buffers are long enough for every message written here.
\<close>

section \<open>Formatting numbers\<close>

text \<open>\<^verbatim>\<open>%d\<close> and \<^verbatim>\<open>%0<w>d\<close> of \<^verbatim>\<open>snprintf\<close>.\<close>

definition fmt_d :: "int \<Rightarrow> string" where
  "fmt_d v = (if v < 0 then CHR ''-'' # decimal (nat (- v)) else decimal (nat v))"

definition fmt_0d :: "nat \<Rightarrow> int \<Rightarrow> string" where
  "fmt_0d w v =
     (let s = decimal (nat \<bar>v\<bar>); sign = (if v < 0 then ''-'' else [])
      in sign @ replicate (w - length sign - length s) CHR ''0'' @ s)"

section \<open>The calendar check\<close>

definition DT_MONTH_SHORT :: "string list" where
  "DT_MONTH_SHORT = [''Jan'', ''Feb'', ''Mar'', ''Apr'', ''May'', ''Jun'', ''Jul'', ''Aug'', ''Sep'', ''Oct'', ''Nov'', ''Dec'']"

definition DT_MONTH_LONG :: "string list" where
  "DT_MONTH_LONG = [''January'', ''February'', ''March'', ''April'', ''May'', ''June'', ''July'', ''August'',
     ''September'', ''October'', ''November'', ''December'']"

definition DT_DAY_SHORT :: "string list" where
  "DT_DAY_SHORT = [''Sun'', ''Mon'', ''Tue'', ''Wed'', ''Thu'', ''Fri'', ''Sat'']"

definition DT_DAY_LONG :: "string list" where
  "DT_DAY_LONG = [''Sunday'', ''Monday'', ''Tuesday'', ''Wednesday'', ''Thursday'', ''Friday'', ''Saturday'']"

definition time_fault :: "datetime \<Rightarrow> string option" where
  "time_fault dt =
     (if PREC_HOUR \<le> precision dt \<and> (hour dt < 0 \<or> 23 < hour dt) then
        Some (''an hour is 0 to 23, not '' @ fmt_d (hour dt))
      else if PREC_MINUTE \<le> precision dt \<and> (minute dt < 0 \<or> 59 < minute dt) then
        Some (''a minute is 0 to 59, not '' @ fmt_d (minute dt))
      else if PREC_SECOND \<le> precision dt \<and> (second dt < 0 \<or> 59 < second dt) then
        Some (''a second is 0 to 59, not '' @ fmt_d (second dt))
      else None)"

definition day_fault :: "datetime \<Rightarrow> string option" where
  "day_fault dt =
     (let limit = month_lengths ! nat (month dt - 1);
          y = year dt;
          leap = (month dt = 2 \<and> (y smod 4 = 0 \<and> y smod 100 \<noteq> 0 \<or> y smod 400 = 0));
          limit = (if leap then 29 else limit)
      in if day dt < 1 then Some (''a day of the month is 1 or more, not '' @ fmt_d (day dt))
         else if limit < day dt then
           Some (if month dt = 2 \<and> day dt = 29 \<and> \<not> leap then
                   fmt_d y @ '' was not a leap year, so February '' @ fmt_d y @ '' has 28 days''
                 else DT_MONTH_LONG ! nat (month dt - 1) @ '' '' @ fmt_d y @ '' has '' @ fmt_d limit @ '' days'')
         else None)"

text \<open>A time-only value has its hour checked at every precision.\<close>

definition date_parts_fault :: "datetime \<Rightarrow> string option" where
  "date_parts_fault dt =
     (if time_only dt then
        if hour dt < 0 \<or> 23 < hour dt then Some (''an hour is 0 to 23, not '' @ fmt_d (hour dt))
        else time_fault dt
      else if month dt < 1 \<or> 12 < month dt then Some (''a month is 1 to 12, not '' @ fmt_d (month dt))
      else case (if PREC_DAY \<le> precision dt then day_fault dt else None) of
             Some why \<Rightarrow> Some why
           | None \<Rightarrow> time_fault dt)"

section \<open>Reading\<close>

definition all_digits :: "string \<Rightarrow> nat \<Rightarrow> nat \<Rightarrow> bool" where
  "all_digits text start count = list_all (\<lambda>i. isdigit (text ! (start + i))) [0..<count]"

definition digit_value :: "char \<Rightarrow> int" where
  "digit_value c = of_char c - 48"

definition parse_int_span :: "string \<Rightarrow> nat \<Rightarrow> nat \<Rightarrow> int" where
  "parse_int_span text start count = foldl (\<lambda>value i. value * 10 + digit_value (text ! (start + i))) 0 [0..<count]"

text \<open>\<^verbatim>\<open>+HH\<close>, \<^verbatim>\<open>+HHMM\<close>, \<^verbatim>\<open>+HH:MM\<close>: the hours and minutes after the sign, -1 for no zone.\<close>

definition zone_suffix :: "string \<Rightarrow> int \<times> int" where
  "zone_suffix p =
     (if length p = 2 \<and> all_digits p 0 2 then (parse_int_span p 0 2, 0)
      else if length p = 4 \<and> all_digits p 0 4 then (parse_int_span p 0 2, parse_int_span p 2 2)
      else if length p = 5 \<and> all_digits p 0 2 \<and> p ! 2 = CHR '':'' \<and> all_digits p 3 2 then
        (parse_int_span p 0 2, parse_int_span p 3 2)
      else (-1, 0))"

fun zone_scan :: "string \<Rightarrow> nat \<Rightarrow> (string \<times> int) option" where
  "zone_scan buf 0 = Some (buf, 0)"
| "zone_scan buf (Suc i) =
     (if Suc i \<le> 11 then Some (buf, 0)
      else let c = buf ! i
           in if c \<noteq> CHR ''+'' \<and> c \<noteq> CHR ''-'' then zone_scan buf i
              else let (hh, mm) = zone_suffix (drop (Suc i) buf)
                   in if hh < 0 \<or> 23 < hh \<or> 59 < mm then None
                      else Some (take i buf, (hh * 3600 + mm * 60) * (if c = CHR ''-'' then -1 else 1)))"

definition datetime_strip_zone :: "string \<Rightarrow> (string \<times> int) option" where
  "datetime_strip_zone text =
     (let len = length text
      in if len = 0 \<or> 64 \<le> len then None
         else if len \<le> 10 \<or> text ! 10 \<noteq> CHR '' '' \<and> text ! 10 \<noteq> CHR ''T'' then Some (text, 0)
         else let buf = text[10 := CHR '' '']
              in if 11 < len \<and> (buf ! (len - 1) = CHR ''Z'' \<or> buf ! (len - 1) = CHR ''z'') then
                   Some (take (len - 1) buf, 0)
                 else zone_scan buf len)"

definition no_datetime :: datetime where
  "no_datetime = \<lparr>year = 0, month = 0, day = 0, hour = 0, minute = 0, second = 0, time_only = False, precision = 0\<rparr>"

definition checked :: "datetime \<Rightarrow> string option + datetime" where
  "checked dt = (case date_parts_fault dt of Some why \<Rightarrow> Inl (Some why) | None \<Rightarrow> Inr dt)"

definition parse_date_value_strict :: "string \<Rightarrow> string option + datetime" where
  "parse_date_value_strict text =
     (let len = length text; dt = no_datetime\<lparr>month := 1, day := 1\<rparr>
      in if len < 4 \<or> \<not> all_digits text 0 4 then Inl None
         else let dt = dt\<lparr>year := parse_int_span text 0 4, precision := PREC_YEAR\<rparr>
         in if len = 4 then Inr dt
         else if len < 7 \<or> text ! 4 \<noteq> CHR ''-'' \<or> \<not> all_digits text 5 2 then Inl None
         else let dt = dt\<lparr>month := parse_int_span text 5 2, precision := PREC_MONTH\<rparr>
         in if len = 7 then checked dt
         else if len < 10 \<or> text ! 7 \<noteq> CHR ''-'' \<or> \<not> all_digits text 8 2 then Inl None
         else let dt = dt\<lparr>day := parse_int_span text 8 2, precision := PREC_DAY\<rparr>
         in if len = 10 then checked dt
         else if len < 13 \<or> text ! 10 \<noteq> CHR '' '' \<or> \<not> all_digits text 11 2 then Inl None
         else let dt = dt\<lparr>hour := parse_int_span text 11 2, precision := PREC_HOUR\<rparr>
         in if len = 13 then checked dt
         else if len < 16 \<or> text ! 13 \<noteq> CHR '':'' \<or> \<not> all_digits text 14 2 then Inl None
         else let dt = dt\<lparr>minute := parse_int_span text 14 2, precision := PREC_MINUTE\<rparr>
         in if len = 16 then checked dt
         else if len \<noteq> 19 \<or> text ! 16 \<noteq> CHR '':'' \<or> \<not> all_digits text 17 2 then Inl None
         else checked (dt\<lparr>second := parse_int_span text 17 2, precision := PREC_SECOND\<rparr>))"

definition parse_date_value :: "string \<Rightarrow> string option + datetime" where
  "parse_date_value text =
     (case datetime_strip_zone text of
        None \<Rightarrow> Inl None
      | Some (buf, offset) \<Rightarrow>
          (case parse_date_value_strict buf of
             Inl why \<Rightarrow> Inl why
           | Inr dt \<Rightarrow>
               Inr (if offset \<noteq> 0 then zone_civil_from_epoch_utc (zone_timegm dt - offset) (precision dt) else dt)))"

definition parse_time_value :: "string \<Rightarrow> string option + datetime" where
  "parse_time_value text =
     (let len = length text; dt = no_datetime\<lparr>time_only := True\<rparr>
      in if len < 2 \<or> \<not> all_digits text 0 2 then Inl None
         else let dt = dt\<lparr>hour := parse_int_span text 0 2, precision := PREC_HOUR\<rparr>
         in if len = 2 then checked dt
         else if len < 5 \<or> text ! 2 \<noteq> CHR '':'' \<or> \<not> all_digits text 3 2 then Inl None
         else let dt = dt\<lparr>minute := parse_int_span text 3 2, precision := PREC_MINUTE\<rparr>
         in if len = 5 then checked dt
         else if len \<noteq> 8 \<or> text ! 5 \<noteq> CHR '':'' \<or> \<not> all_digits text 6 2 then Inl None
         else checked (dt\<lparr>second := parse_int_span text 6 2, precision := PREC_SECOND\<rparr>))"

definition parse_datetime_like_value :: "string \<Rightarrow> datetime option" where
  "parse_datetime_like_value text =
     (case parse_date_value text of
        Inr dt \<Rightarrow> Some dt
      | Inl _ \<Rightarrow> (case parse_time_value text of Inr dt \<Rightarrow> Some dt | Inl _ \<Rightarrow> None))"

section \<open>Showing\<close>

text \<open>The cases of \<^verbatim>\<open>builtin_string_value\<close> for the two kinds, and \<^verbatim>\<open>sqlite_datetime_text\<close>.\<close>

definition date_text :: "datetime \<Rightarrow> string" where
  "date_text d = fmt_0d 4 (year d) @ ''-'' @ fmt_0d 2 (month d) @ ''-'' @ fmt_0d 2 (day d)"

definition datetime_string :: "datetime \<Rightarrow> string" where
  "datetime_string d =
     (if time_only d then
        if precision d = PREC_HOUR then fmt_0d 2 (hour d)
        else if precision d = PREC_MINUTE then fmt_0d 2 (hour d) @ '':'' @ fmt_0d 2 (minute d)
        else fmt_0d 2 (hour d) @ '':'' @ fmt_0d 2 (minute d) @ '':'' @ fmt_0d 2 (second d)
      else if precision d = PREC_YEAR then fmt_0d 4 (year d)
      else if precision d = PREC_MONTH then fmt_0d 4 (year d) @ ''-'' @ fmt_0d 2 (month d)
      else if precision d = PREC_DAY then date_text d
      else if precision d = PREC_HOUR then date_text d @ '' '' @ fmt_0d 2 (hour d)
      else if precision d = PREC_MINUTE then date_text d @ '' '' @ fmt_0d 2 (hour d) @ '':'' @ fmt_0d 2 (minute d)
      else date_text d @ '' '' @ fmt_0d 2 (hour d) @ '':'' @ fmt_0d 2 (minute d) @ '':'' @ fmt_0d 2 (second d))"

definition sqlite_datetime_text :: "datetime \<Rightarrow> string + string" where
  "sqlite_datetime_text d =
     (if time_only d then
        Inr (if precision d = PREC_HOUR then fmt_0d 2 (hour d) @ '':00:00''
             else if precision d = PREC_MINUTE then fmt_0d 2 (hour d) @ '':'' @ fmt_0d 2 (minute d) @ '':00''
             else fmt_0d 2 (hour d) @ '':'' @ fmt_0d 2 (minute d) @ '':'' @ fmt_0d 2 (second d))
      else if precision d < PREC_DAY then Inl ''SQLite date parameters require day precision''
      else if precision d = PREC_DAY then Inr (date_text d)
      else Inr (date_text d @ '' '' @ fmt_0d 2 (hour d) @ '':'' @ fmt_0d 2 (minute d) @ '':'' @ fmt_0d 2 (second d)))"

definition duration_parts :: "duration \<Rightarrow> (int \<times> string) list" where
  "duration_parts d =
     [(d_years d, ''year''), (d_months d, ''month''), (d_weeks d, ''week''), (d_days d, ''day''),
      (d_hours d, ''hour''), (d_minutes d, ''minute''), (d_seconds d, ''second'')]"

text \<open>The buffer has 128 bytes; a part that does not fit with its NUL ends the text.\<close>

fun duration_text_loop :: "string \<Rightarrow> (int \<times> string) list \<Rightarrow> string" where
  "duration_text_loop buffer [] = buffer"
| "duration_text_loop buffer ((amount, unit) # parts) =
     (if amount = 0 then duration_text_loop buffer parts
      else let written = (if buffer \<noteq> [] then '' '' else []) @ fmt_d amount @ '' '' @ unit
                         @ (if amount = 1 \<or> amount = -1 then [] else ''s'')
           in if 128 - length buffer \<le> length written then buffer
              else duration_text_loop (buffer @ written) parts)"

definition duration_string :: "duration \<Rightarrow> string" where
  "duration_string d = (let s = duration_text_loop [] (duration_parts d) in if s = [] then ''0 seconds'' else s)"

section \<open>Lenses\<close>

definition datetime_lens_precision :: "string \<Rightarrow> int option" where
  "datetime_lens_precision name =
     (if name = ''year'' then Some PREC_YEAR
      else if name = ''month'' then Some PREC_MONTH
      else if name = ''day'' then Some PREC_DAY
      else if name = ''hour'' then Some PREC_HOUR
      else if name = ''minute'' then Some PREC_MINUTE
      else if name = ''second'' then Some PREC_SECOND
      else None)"

definition datetime_apply_lens :: "datetime \<Rightarrow> int \<Rightarrow> datetime" where
  "datetime_apply_lens dt lens =
     (let dt = dt\<lparr>precision := lens\<rparr>;
          dt = (if lens < PREC_SECOND then dt\<lparr>second := 0\<rparr> else dt);
          dt = (if lens < PREC_MINUTE then dt\<lparr>minute := 0\<rparr> else dt);
          dt = (if lens < PREC_HOUR then dt\<lparr>hour := 0\<rparr> else dt)
      in if \<not> time_only dt then
           let dt = (if lens < PREC_DAY then dt\<lparr>day := 1\<rparr> else dt)
           in if lens < PREC_MONTH then dt\<lparr>month := 1\<rparr> else dt
         else dt)"

text \<open>The C string of a string value: its characters up to a NUL.\<close>

definition c_text :: "bytes \<Rightarrow> string" where
  "c_text bs = map (\<lambda>b. char_of (unat b)) (takeWhile (\<lambda>b. b \<noteq> 0) bs)"

definition lens_operand :: "val \<Rightarrow> datetime option" where
  "lens_operand v =
     (case v of VDatetime dt \<Rightarrow> Some dt | VString s \<Rightarrow> parse_datetime_like_value (c_text s) | _ \<Rightarrow> None)"

definition apply_datetime_lens_to_value :: "val \<Rightarrow> int \<Rightarrow> string \<Rightarrow> string + val" where
  "apply_datetime_lens_to_value v lens modifier_name =
     (case lens_operand v of
        None \<Rightarrow> Inl (modifier_name @ '' lens expects a date/time value'')
      | Some dt \<Rightarrow>
          if time_only dt \<and> lens < PREC_HOUR then
            Inl (modifier_name @ '' lens cannot be applied to a time-only value'')
          else if precision dt < lens then
            Inl (modifier_name @ '' lens requires sufficient date/time precision'')
          else Inr (VDatetime (datetime_apply_lens dt lens)))"

section \<open>Arithmetic\<close>

definition duration_totals :: "duration \<Rightarrow> int \<times> int" where
  "duration_totals d =
     (d_years d * 12 + d_months d,
      (d_weeks d * 7 + d_days d) * 86400 + d_hours d * 3600 + d_minutes d * 60 + d_seconds d)"

definition duration_from_totals :: "int \<Rightarrow> int \<Rightarrow> duration" where
  "duration_from_totals months seconds =
     (let r = seconds smod 86400
      in \<lparr>d_years = int_cast (months sdiv 12), d_months = int_cast (months smod 12), d_weeks = 0,
          d_days = int_cast (seconds sdiv 86400), d_hours = int_cast (r sdiv 3600),
          d_minutes = int_cast (r smod 3600 sdiv 60), d_seconds = int_cast (r smod 3600 smod 60)\<rparr>)"

text \<open>The month part, from the month's number from 0; the casts keep the low 32 bits.\<close>

definition add_months :: "datetime \<Rightarrow> int \<Rightarrow> int \<Rightarrow> datetime" where
  "add_months dt m0 dm =
     (let total = year dt * 12 + m0 + dm;
          y = total sdiv 12;
          m = total smod 12;
          (y, m) = (if m < 0 then (y - 1, m + 12) else (y, m));
          dt = dt\<lparr>year := int_cast y, month := int_cast m + 1\<rparr>;
          dim = days_in_month (year dt) (month dt)
      in if dim < day dt then dt\<lparr>day := dim\<rparr> else dt)"

definition add_duration_to_datetime :: "datetime \<Rightarrow> duration \<Rightarrow> int \<Rightarrow> datetime option" where
  "add_duration_to_datetime dt d sign =
     do { let dm = sign * (d_years d * 12 + d_months d);
          dt \<leftarrow> (if dm \<noteq> 0 then do { m0 \<leftarrow> c_int (month dt - 1); Some (add_months dt m0 dm) } else Some dt);
          w7 \<leftarrow> c_int (d_weeks d * 7);
          wd \<leftarrow> c_int (w7 + d_days d);
          sd \<leftarrow> c_int (sign * wd);
          dd \<leftarrow> c_int (day dt + sd);
          sh \<leftarrow> c_int (sign * d_hours d);
          hh \<leftarrow> c_int (hour dt + sh);
          sm \<leftarrow> c_int (sign * d_minutes d);
          mi \<leftarrow> c_int (minute dt + sm);
          sec \<leftarrow> c_int (sign * d_seconds d);
          s \<leftarrow> c_int (second dt + sec);
          dt \<leftarrow> normalize_datetime (dt\<lparr>day := dd, hour := hh, minute := mi, second := s\<rparr>);
          Some (if precision dt < PREC_SECOND \<and> (d_hours d \<noteq> 0 \<or> d_minutes d \<noteq> 0 \<or> d_seconds d \<noteq> 0)
                then dt\<lparr>precision := PREC_SECOND\<rparr> else dt) }"

text \<open>The branches of the binary operators for the two kinds: date-time and duration, date-time
  minus date-time, duration and duration, and the comparison of durations.\<close>

definition datetime_difference :: "datetime \<Rightarrow> datetime \<Rightarrow> string + duration" where
  "datetime_difference l r =
     (let ea = (if \<not> time_only l then zone_timegm l else 0);
          eb = (if \<not> time_only r then zone_timegm r else 0)
      in if time_only l \<or> time_only r then Inl ''a time-only value has no epoch''
         else Inr (duration_from_totals 0 (ea - eb)))"

definition duration_sum :: "bool \<Rightarrow> duration \<Rightarrow> duration \<Rightarrow> duration" where
  "duration_sum sub l r =
     (let (lm, ls) = duration_totals l; (rm, rs) = duration_totals r
      in duration_from_totals (if sub then lm - rm else lm + rm) (if sub then ls - rs else ls + rs))"

definition duration_compare :: "cmp_op \<Rightarrow> duration \<Rightarrow> duration \<Rightarrow> string + bool" where
  "duration_compare op l r =
     (let (lm, ls) = duration_totals l; (rm, rs) = duration_totals r
      in if op = OpEq then Inr (lm = rm \<and> ls = rs)
         else if op = OpNe then Inr (\<not> (lm = rm \<and> ls = rs))
         else if lm \<noteq> 0 \<or> rm \<noteq> 0 then
           Inl ''a month has no fixed length; compare exact durations or use dates.between''
         else Inr (comparison_result_from_cmp op (of_bool (rs < ls) - of_bool (ls < rs))))"

definition duration_to_ms :: "duration \<Rightarrow> int" where
  "duration_to_ms d =
     (d_years d * 365 * 24 * 3600 + d_months d * 30 * 24 * 3600 + d_weeks d * 7 * 24 * 3600
      + d_days d * 24 * 3600 + d_hours d * 3600 + d_minutes d * 60 + d_seconds d) * 1000"

section \<open>Fields\<close>

text \<open>What a dot field answers: a number (\<^verbatim>\<open>value_number\<close> of an \<^verbatim>\<open>int\<close> is exact), a string, a
  duration, or unknown.\<close>

datatype field_value = FNumber int | FString string | FDuration duration | FUnknown

definition datetime_precision_name :: "datetime \<Rightarrow> string" where
  "datetime_precision_name dt =
     (if time_only dt then ''time''
      else if precision dt = PREC_YEAR then ''year''
      else if precision dt = PREC_MONTH then ''month''
      else if precision dt = PREC_DAY then ''day''
      else if precision dt = PREC_HOUR then ''hour''
      else if precision dt = PREC_MINUTE then ''minute''
      else ''second'')"

definition weekday_names :: "string list" where
  "weekday_names = [''Monday'', ''Tuesday'', ''Wednesday'', ''Thursday'', ''Friday'', ''Saturday'', ''Sunday'']"

definition day_of_year :: "datetime \<Rightarrow> int" where
  "day_of_year dt = foldl (\<lambda>doy m. doy + days_in_month (year dt) m) (day dt) [1..month dt - 1]"

definition datetime_field_value :: "datetime \<Rightarrow> string \<Rightarrow> string + field_value" where
  "datetime_field_value dt name =
     (let has_date = (\<not> time_only dt); p = precision dt; known = (\<lambda>b f. Inr (if b then f else FUnknown))
      in if name = ''precision'' then Inr (FString (datetime_precision_name dt))
         else if name = ''year'' then known has_date (FNumber (year dt))
         else if name = ''month'' then known (has_date \<and> PREC_MONTH \<le> p) (FNumber (month dt))
         else if name = ''day'' then known (has_date \<and> PREC_DAY \<le> p) (FNumber (day dt))
         else if name = ''hour'' then known (PREC_HOUR \<le> p) (FNumber (hour dt))
         else if name = ''minute'' then known (PREC_MINUTE \<le> p) (FNumber (minute dt))
         else if name = ''second'' then known (PREC_SECOND \<le> p) (FNumber (second dt))
         else if name = ''weekday'' then
           known (has_date \<and> PREC_DAY \<le> p) (FNumber (datetime_weekday_iso (year dt) (month dt) (day dt)))
         else if name = ''dayname'' then
           known (has_date \<and> PREC_DAY \<le> p)
             (FString (weekday_names ! nat (datetime_weekday_iso (year dt) (month dt) (day dt) - 1)))
         else if name = ''day_of_year'' then known (has_date \<and> PREC_DAY \<le> p) (FNumber (day_of_year dt))
         else if name = ''time'' then
           known (PREC_HOUR \<le> p)
             (FDuration (duration_from_totals 0 (hour dt * 3600 + minute dt * 60 + second dt)))
         else Inl (''datetime has no field '' @ QUOTE # name @ [QUOTE]))"

definition duration_field_value :: "duration \<Rightarrow> string \<Rightarrow> string + field_value" where
  "duration_field_value d name =
     (if name = ''years'' then Inr (FNumber (d_years d))
      else if name = ''months'' then Inr (FNumber (d_months d))
      else if name = ''weeks'' then Inr (FNumber (d_weeks d))
      else if name = ''days'' then Inr (FNumber (d_days d))
      else if name = ''hours'' then Inr (FNumber (d_hours d))
      else if name = ''minutes'' then Inr (FNumber (d_minutes d))
      else if name = ''seconds'' then Inr (FNumber (d_seconds d))
      else if name = ''total_seconds'' then
        (let (months, seconds) = duration_totals d
         in if months \<noteq> 0 then Inl ''a month has no fixed length; total_seconds requires an exact duration''
            else Inr (FNumber seconds))
      else Inl (''duration has no field '' @ QUOTE # name @ [QUOTE]))"

end
