(* ===== verification/Civil_Props.thy ===== *)
theory Civil_Props
  imports Civil
begin

text \<open>
  What civil time promises: \<open>normalize_datetime\<close> ends with a real date at the same instant, the
  day algorithms of \<^verbatim>\<open>platform_win32.c\<close> count the days of the calendar of \<^verbatim>\<open>eval.c\<close>, so that
  the two ways of normalising agree, and the weekday is the day count modulo 7. The reference is
  \<open>day_count\<close>, the days since 1 January 1970 of a date whose month may be out of range.
\<close>

named_theorems civil_simps \<open>what the C operators of the calendar compute\<close>

section \<open>The reference calendar\<close>

definition civil_date :: "int \<Rightarrow> int \<Rightarrow> int \<Rightarrow> bool" where
  "civil_date y m d \<longleftrightarrow> 1 \<le> m \<and> m \<le> 12 \<and> 1 \<le> d \<and> d \<le> days_in_month y m"

definition next_date :: "int \<times> int \<times> int \<Rightarrow> int \<times> int \<times> int" where
  "next_date = (\<lambda>(y, m, d). if d < days_in_month y m then (y, m, d + 1)
                            else if m < 12 then (y, m + 1, 1) else (y + 1, 1, 1))"

definition year_start :: "int \<Rightarrow> int" where
  "year_start y = 365 * y + (y - 1) div 4 - (y - 1) div 100 + (y - 1) div 400"

definition days_before_month :: "int \<Rightarrow> int \<Rightarrow> int" where
  "days_before_month y m = (\<Sum>k\<leftarrow>[1..m - 1]. days_in_month y k)"

definition day_count :: "int \<Rightarrow> int \<Rightarrow> int \<Rightarrow> int" where
  "day_count y m d =
     (let y' = y + (m - 1) div 12; m' = (m - 1) mod 12 + 1
      in year_start y' + days_before_month y' m' + d - 719528)"

lemma smod_eq_0: "0 < k \<Longrightarrow> (a::int) smod k = 0 \<longleftrightarrow> k dvd a"
  by (auto simp: signed_modulo_int_def sgn_eq_0_iff simp flip: dvd_eq_mod_eq_0)

lemma leap_dvd [civil_simps]: "is_leap_year y \<longleftrightarrow> 4 dvd y \<and> \<not> 100 dvd y \<or> 400 dvd y"
  by (simp add: is_leap_year_def smod_eq_0)

lemma floor_div_div [civil_simps]: "0 < b \<Longrightarrow> floor_div a b = a div b"
  using signed_divide_int_eq_divide_int [of a b] smod_eq_0 [of b a]
  by (cases a "0 :: int" rule: linorder_cases) (auto simp: floor_div_def Let_def)

lemma div_pred: "0 < k \<Longrightarrow> (y::int) div k = (y - 1) div k + of_bool (k dvd y)"
proof -
  assume k: "0 < k"
  show ?thesis
  proof (cases "k dvd y")
    case True
    then obtain q where q: "y = k * q" by blast
    have "k * q - 1 = (k - 1) + k * (q - 1)" by (simp add: algebra_simps)
    then have "(k * q - 1) div k = q - 1 + (k - 1) div k" using k by (metis div_mult_self2 less_irrefl add.commute)
    with k q show ?thesis by (simp add: div_pos_pos_trivial)
  next
    case False
    then have "y mod k \<noteq> 0" by (simp add: dvd_eq_mod_eq_0)
    then have m: "1 \<le> y mod k" using k pos_mod_sign [of k y] by linarith
    have "y - 1 = (y mod k - 1) + k * (y div k)" by simp
    then have "(y - 1) div k = y div k + (y mod k - 1) div k" using k by (metis div_mult_self2 less_irrefl add.commute)
    moreover have "(y mod k - 1) div k = 0" using m pos_mod_bound [OF k, of y] by (intro div_pos_pos_trivial) simp_all
    ultimately show ?thesis using False by simp
  qed
qed

lemma year_start_next: "year_start (y + 1) = year_start y + 365 + of_bool (is_leap_year y)"
proof -
  define a b c where "a = (y - 1) div 4" "b = (y - 1) div 100" "c = (y - 1) div 400"
  have "y div 4 = a + of_bool (4 dvd y)" "y div 100 = b + of_bool (100 dvd y)" "y div 400 = c + of_bool (400 dvd y)"
    unfolding a_b_c_def by (rule div_pred; simp)+
  then have "year_start (y + 1) =
      365 * (y + 1) + (a + of_bool (4 dvd y)) - (b + of_bool (100 dvd y)) + (c + of_bool (400 dvd y))"
    by (simp only: year_start_def add_diff_cancel_right')
  moreover have "year_start y = 365 * y + a - b + c" by (simp only: year_start_def a_b_c_def)
  moreover have "400 dvd y \<Longrightarrow> 100 dvd y" "100 dvd y \<Longrightarrow> 4 dvd y" by (auto elim: dvd_trans [rotated])
  then have "of_bool (4 dvd y) - of_bool (100 dvd y) + of_bool (400 dvd y) = (of_bool (is_leap_year y) :: int)"
    by (auto simp: leap_dvd)
  ultimately show ?thesis by simp
qed

lemma days_before_month_next:
  "1 \<le> m \<Longrightarrow> days_before_month y (m + 1) = days_before_month y m + days_in_month y m"
  by (simp add: days_before_month_def upto_rec2)

lemma days_before_month_table:
  assumes "1 \<le> m" "m \<le> 12"
  shows "days_before_month y m =
     [0, 31, 59, 90, 120, 151, 181, 212, 243, 273, 304, 334] ! nat (m - 1) + of_bool (2 < m \<and> is_leap_year y)"
proof -
  have first: "days_before_month y 1 = 0" by (simp add: days_before_month_def)
  have prev: "days_before_month y k = days_before_month y (k - 1) + days_in_month y (k - 1)" if "2 \<le> k" for k
    using that days_before_month_next [of "k - 1" y] by simp
  have t2: "days_before_month y 2 = 31" "days_before_month y 3 = 59 + of_bool (is_leap_year y)"
    using prev [of 2] prev [of 3] first by (simp_all add: days_in_month_def month_lengths_def)
  have t4: "days_before_month y 4 = 90 + of_bool (is_leap_year y)" "days_before_month y 5 = 120 + of_bool (is_leap_year y)"
    "days_before_month y 6 = 151 + of_bool (is_leap_year y)" "days_before_month y 7 = 181 + of_bool (is_leap_year y)"
    "days_before_month y 8 = 212 + of_bool (is_leap_year y)" "days_before_month y 9 = 243 + of_bool (is_leap_year y)"
    "days_before_month y 10 = 273 + of_bool (is_leap_year y)" "days_before_month y 11 = 304 + of_bool (is_leap_year y)"
    "days_before_month y 12 = 334 + of_bool (is_leap_year y)"
    using t2(2) prev [of 4] prev [of 5] prev [of 6] prev [of 7] prev [of 8] prev [of 9] prev [of 10] prev [of 11]
      prev [of 12] by (simp_all add: days_in_month_def month_lengths_def)
  from month_cases [OF assms] show ?thesis
    by (elim insertE emptyE) (simp_all add: first t2 t4)
qed

lemma day_count_day: "day_count y m (d + k) = day_count y m d + k"
  by (simp add: day_count_def Let_def)

lemma day_count_month: "day_count (y + 1) (m - 12) d = day_count y m d"
proof -
  have "m - 12 - 1 = (m - 1) + 12 * (- 1)" by simp
  then have "(m - 12 - 1) div 12 = (m - 1) div 12 - 1" "(m - 12 - 1) mod 12 = (m - 1) mod 12"
    by (simp_all only: div_mult_self2 mod_mult_self2)
  then show ?thesis by (simp add: day_count_def)
qed

lemma day_count_in_year:
  "1 \<le> m \<Longrightarrow> m \<le> 12 \<Longrightarrow> day_count y m d = year_start y + days_before_month y m + d - 719528"
  by (simp add: day_count_def div_pos_pos_trivial mod_pos_pos_trivial)

lemma day_count_next_month:
  assumes "1 \<le> m" "m \<le> 12"
  shows "day_count y (m + 1) d = day_count y m d + days_in_month y m"
proof (cases "m = 12")
  case True
  with assms show ?thesis
    using day_count_month [of y 13 d] days_before_month_table [of 12 y] days_before_month_table [of 1 "y + 1"]
    by (simp add: day_count_in_year year_start_next days_in_month_def month_lengths_def)
next
  case False
  with assms show ?thesis by (simp add: day_count_in_year days_before_month_next)
qed

text \<open>The reference counts: it starts at the epoch and every next date is one more.\<close>

lemma day_count_epoch: "day_count 1970 1 1 = 0"
  by (simp add: day_count_def year_start_def days_before_month_def)

lemma day_count_next_date:
  assumes "civil_date y m d" "next_date (y, m, d) = (y', m', d')"
  shows "day_count y' m' d' = day_count y m d + 1"
  using assms day_count_next_month [of m y 1] day_count_month [of y 13 1]
    day_count_day [of y m d 1] day_count_day [of y m 1 "d - 1"]
  by (auto simp: civil_date_def next_date_def split: if_splits)

section \<open>Normalising\<close>

lemma c_int_bind: "Option.bind (c_int x) f = (if in_int x then f x else None)"
  by (simp add: c_int_def)

lemma c_int_simps:
  "c_int x = Some y \<longleftrightarrow> in_int x \<and> y = x" "c_int x = None \<longleftrightarrow> \<not> in_int x" "map_option f (c_int x) = (if in_int x then Some (f x) else None)"
  by (auto simp: c_int_def)

lemma div_step: "0 < (b::int) \<Longrightarrow> (x - b) div b = x div b - 1 \<and> (x + b) div b = x div b + 1"
  using div_add_self2 [of b "x - b"] div_add_self2 [of b x] by simp

text \<open>The loops that run divide; they overflow exactly when the carried field would.\<close>

lemma carry_up_runs:
  assumes "0 < base" "limit \<le> lo" "in_int hi"
  shows "carry_up base (limit + base) lo hi =
    map_option (Pair (limit + (lo - limit) mod base)) (c_int (hi + (lo - limit) div base))"
  using assms
proof (induction "nat (lo - limit)" arbitrary: lo hi rule: less_induct)
  case less
  show ?case
  proof (cases "limit + base \<le> lo")
    case False
    then have "(lo - limit) div base = 0" "(lo - limit) mod base = lo - limit"
      using less.prems by (simp_all add: div_pos_pos_trivial mod_pos_pos_trivial)
    then show ?thesis using False less.prems by (subst carry_up.simps) (simp add: c_int_def)
  next
    case True
    have q: "(lo - base - limit) div base = (lo - limit) div base - 1" "(lo - base - limit) mod base = (lo - limit) mod base"
      using div_step [OF less.prems(1), of "lo - limit"] minus_mod_self2 [of "lo - limit" base] by (simp_all add: algebra_simps)
    have "base * 1 \<le> base * ((lo - limit) div base)"
      using True less.prems(1) zdiv_mono1 [of base "lo - limit" base] by simp
    then have "1 \<le> (lo - limit) div base" using less.prems(1) by simp
    then have over: "\<not> in_int (hi + 1) \<Longrightarrow> \<not> in_int (hi + (lo - limit) div base)"
      using less.prems(3) by (simp add: in_int_def)
    show ?thesis
    proof (cases "in_int (hi + 1)")
      case True
      with \<open>limit + base \<le> lo\<close> have "carry_up base (limit + base) lo hi = carry_up base (limit + base) (lo - base) (hi + 1)"
        using less.prems(1) by (subst carry_up.simps) (simp add: c_int_bind)
      also have "\<dots> = map_option (Pair (limit + (lo - base - limit) mod base)) (c_int (hi + 1 + (lo - base - limit) div base))"
        using less.prems True \<open>limit + base \<le> lo\<close> by (intro less.hyps) simp_all
      finally show ?thesis by (simp add: q)
    next
      case False
      then show ?thesis using over True less.prems(1) by (subst carry_up.simps) (simp add: c_int_bind c_int_simps)
    qed
  qed
qed

lemma carry_down_runs:
  assumes "0 < base" "lo < limit + base" "in_int hi"
  shows "carry_down base limit lo hi =
    map_option (Pair (limit + (lo - limit) mod base)) (c_int (hi + (lo - limit) div base))"
  using assms
proof (induction "nat (limit + base - lo)" arbitrary: lo hi rule: less_induct)
  case less
  show ?case
  proof (cases "lo < limit")
    case False
    then have "(lo - limit) div base = 0" "(lo - limit) mod base = lo - limit"
      using less.prems by (simp_all add: div_pos_pos_trivial mod_pos_pos_trivial)
    then show ?thesis using False less.prems by (subst carry_down.simps) (simp add: c_int_def)
  next
    case True
    have q: "(lo + base - limit) div base = (lo - limit) div base + 1" "(lo + base - limit) mod base = (lo - limit) mod base"
      using div_step [OF less.prems(1), of "lo - limit"] mod_add_self2 [of "lo - limit" base] by (simp_all add: algebra_simps)
    have "(lo - limit) div base \<le> - 1" using True less.prems(1) zdiv_mono1 [of "lo - limit" "- 1" base] by (simp add: div_eq_minus1)
    then have over: "\<not> in_int (hi - 1) \<Longrightarrow> \<not> in_int (hi + (lo - limit) div base)"
      using less.prems(3) by (simp add: in_int_def)
    show ?thesis
    proof (cases "in_int (hi - 1)")
      case True
      with \<open>lo < limit\<close> have "carry_down base limit lo hi = carry_down base limit (lo + base) (hi - 1)"
        using less.prems(1) by (subst carry_down.simps) (simp add: c_int_bind)
      also have "\<dots> = map_option (Pair (limit + (lo + base - limit) mod base)) (c_int (hi - 1 + (lo + base - limit) div base))"
        using less.prems True \<open>lo < limit\<close> by (intro less.hyps) simp_all
      finally show ?thesis by (simp add: q)
    next
      case False
      then show ?thesis using over True less.prems(1) by (subst carry_down.simps) (simp add: c_int_bind c_int_simps)
    qed
  qed
qed

text \<open>A pair of carry loops divides: the low part lands in \<open>[limit, limit + base)\<close>.\<close>

lemma carry_both:
  assumes "0 < base" "in_int hi" "stop = limit + base"
  shows "Option.bind (carry_up base stop lo hi) (\<lambda>(lo, hi). Option.bind (carry_down base limit lo hi) f) =
    (if in_int (hi + (lo - limit) div base) then f (limit + (lo - limit) mod base, hi + (lo - limit) div base) else None)"
proof (cases "limit \<le> lo")
  case True
  have "limit \<le> limit + (lo - limit) mod base" using assms(1) by simp
  then have "carry_down base limit (limit + (lo - limit) mod base) h = Some (limit + (lo - limit) mod base, h)" for h
    by (subst carry_down.simps) simp
  then show ?thesis using carry_up_runs [OF assms(1) True assms(2)] by (simp add: assms(3) c_int_def)
next
  case False
  then have "carry_up base stop lo hi = Some (lo, hi)" using assms by (subst carry_up.simps) simp
  moreover have "lo < limit + base" using False assms(1) by simp
  ultimately show ?thesis using carry_down_runs [OF assms(1) _ assms(2)] by (simp add: c_int_def)
qed

lemma day_count_back:
  assumes "1 \<le> m" "m \<le> 12"
  shows "day_count y (m + 1) (d - days_in_month y m) = day_count y m d"
  using day_count_next_month [OF assms, of y "d - days_in_month y m"]
    day_count_day [of y m "d - days_in_month y m" "days_in_month y m"] by simp

lemma day_count_wrap: "day_count (y + 1) 1 d = day_count y 13 d"
  using day_count_month [of y 13 d] by simp

lemma day_up_runs:
  assumes "1 \<le> m" "m \<le> 12" "in_int y"
  shows "case day_up y m d of
      None \<Rightarrow> day_count (2 ^ 31) 1 1 \<le> day_count y m d
    | Some (y', m', d') \<Rightarrow> day_count y' m' d' = day_count y m d \<and> 1 \<le> m' \<and> m' \<le> 12 \<and>
        d' \<le> days_in_month y' m' \<and> (1 \<le> d' \<or> d' = d) \<and> in_int y'"
  using assms
proof (induction y m d rule: day_up.induct)
  case (1 y m d)
  have *: "day_up y m d = (if days_in_month y m < d
      then if m = 12 then Option.bind (c_int (y + 1)) (\<lambda>y'. day_up y' 1 (d - days_in_month y m))
           else day_up y (m + 1) (d - days_in_month y m)
      else Some (y, m, d))"
    using 1(3,4) by (subst day_up.simps) auto
  consider (stop) "d \<le> days_in_month y m" | (wrap) "days_in_month y m < d" "m = 12" "in_int (y + 1)"
    | (over) "days_in_month y m < d" "m = 12" "\<not> in_int (y + 1)" | (next_month) "days_in_month y m < d" "m < 12"
    using 1(4) by linarith
  then show ?case
  proof cases
    case stop
    with 1(3-5) * show ?thesis by simp
  next
    case wrap
    then have s: "day_up y m d = day_up (y + 1) 1 (d - days_in_month y m)" using * by (simp add: c_int_bind)
    have c: "day_count (y + 1) 1 (d - days_in_month y m) = day_count y m d"
      using day_count_back [OF 1(3,4), of y d] day_count_wrap [of y] wrap by simp
    have "1 \<le> d - days_in_month y m" using wrap by simp
    then show ?thesis using 1(1) [OF _ refl refl _, of "y + 1"] 1(3,4) wrap
      unfolding s c by (auto simp: c_int_simps split: option.splits)
  next
    case over
    then have "y = 2 ^ 31 - 1" using 1(5) by (simp add: in_int_def)
    then have y: "2 ^ 31 = y + 1" by simp
    have "day_count (y + 1) 1 1 \<le> day_count y m d"
      using day_count_back [OF 1(3,4), of y d] day_count_wrap [of y "d - days_in_month y m"] over
        day_count_day [of "y + 1" 1 1 "d - days_in_month y m - 1"] by simp
    then show ?thesis using over * unfolding y by (simp add: c_int_bind)
  next
    case next_month
    then have s: "day_up y m d = day_up y (m + 1) (d - days_in_month y m)" using * by simp
    have "1 \<le> d - days_in_month y m" using next_month by simp
    then show ?thesis using 1(2) [OF _ refl refl] 1(3-5) next_month
      unfolding s day_count_back [OF 1(3,4), of y d, symmetric] by (auto split: option.splits)
  qed
qed

lemma day_down_runs:
  assumes "1 \<le> m" "m \<le> 12" "d \<le> days_in_month y m" "in_int y"
  shows "case day_down y m d of
      None \<Rightarrow> day_count y m d < day_count (- (2 ^ 31)) 1 1
    | Some (y', m', d') \<Rightarrow> day_count y' m' d' = day_count y m d \<and> civil_date y' m' d' \<and> in_int y'"
  using assms
proof (induction y m d rule: day_down.induct)
  case (1 y m d)
  have *: "day_down y m d = (if d < 1
      then if m = 1 then Option.bind (c_int (y - 1)) (\<lambda>y'. day_down y' 12 (d + days_in_month y' 12))
           else day_down y (m - 1) (d + days_in_month y (m - 1))
      else Some (y, m, d))"
    using 1(3,4) by (subst day_down.simps) (auto simp: Let_def)
  consider (stop) "1 \<le> d" | (wrap) "d < 1" "m = 1" "in_int (y - 1)" | (under) "d < 1" "m = 1" "\<not> in_int (y - 1)"
    | (previous) "d < 1" "1 < m"
    using 1(3) by linarith
  then show ?case
  proof cases
    case stop
    with 1(3-6) * show ?thesis by (simp add: civil_date_def)
  next
    case wrap
    then have s: "day_down y m d = day_down (y - 1) 12 (d + days_in_month (y - 1) 12)" using * by (simp add: c_int_bind)
    have c: "day_count (y - 1) 12 (d + days_in_month (y - 1) 12) = day_count y m d"
      using day_count_back [of 12 "y - 1" "d + days_in_month (y - 1) 12"] day_count_wrap [of "y - 1"] wrap by simp
    show ?thesis using 1(1) [OF _ refl, of "y - 1"] wrap unfolding s c by (auto simp: c_int_simps split: option.splits)
  next
    case under
    then have "y = - (2 ^ 31)" using 1(6) by (simp add: in_int_def)
    then have y: "- (2 ^ 31) = y" by simp
    have "day_count y m d < day_count y 1 1" using under day_count_day [of y 1 1 "d - 1"] by simp
    then show ?thesis using under * unfolding y by (simp add: c_int_bind)
  next
    case previous
    then have s: "day_down y m d = day_down y (m - 1) (d + days_in_month y (m - 1))" using * by simp
    have c: "day_count y (m - 1) (d + days_in_month y (m - 1)) = day_count y m d"
      using day_count_back [of "m - 1" y "d + days_in_month y (m - 1)"] 1(4) previous by simp
    show ?thesis using 1(2) [OF _ refl] 1(4,6) previous unfolding s c by (auto split: option.splits)
  qed
qed

text \<open>Seconds since the epoch of any date-time, its fields in range or not; and being in range.\<close>

definition instant :: "datetime \<Rightarrow> int" where
  "instant dt =
     day_count (year dt) (month dt) (day dt) * 86400 + hour dt * 3600 + minute dt * 60 + second dt"

definition civil :: "datetime \<Rightarrow> bool" where
  "civil dt \<longleftrightarrow> civil_date (year dt) (month dt) (day dt) \<and> 0 \<le> hour dt \<and> hour dt < 24 \<and>
     0 \<le> minute dt \<and> minute dt < 60 \<and> 0 \<le> second dt \<and> second dt < 60"

section \<open>The day algorithms\<close>

lemma u32_div:
  "0 \<le> a \<Longrightarrow> a < 2 ^ 32 \<Longrightarrow> 0 \<le> b \<Longrightarrow> b < 2 ^ 32 \<Longrightarrow> (word_of_int a :: u32) div word_of_int b = word_of_int (a div b)"
  by (simp add: word_div_def uint_word_of_int_eq take_bit_int_eq_self)

lemma u32_div_numeral:
  "0 \<le> a \<Longrightarrow> a < 2 ^ 32 \<Longrightarrow> (numeral b :: int) < 2 ^ 32 \<Longrightarrow>
   (word_of_int a :: u32) div numeral b = word_of_int (a div numeral b)"
  using u32_div [of a "numeral b"] by simp

lemma u32_le_2: "0 \<le> m \<Longrightarrow> m < 2 ^ 32 \<Longrightarrow> (word_of_int m :: u32) \<le> 2 \<longleftrightarrow> m \<le> 2"
  by (simp add: word_le_def uint_word_of_int_eq take_bit_int_eq_self)

lemma uint_u32: "0 \<le> a \<Longrightarrow> a < 2 ^ 32 \<Longrightarrow> uint (word_of_int a :: u32) = a"
  by (simp add: uint_word_of_int_eq take_bit_int_eq_self)

lemma era_div: "0 < k \<Longrightarrow> k dvd 400 \<Longrightarrow> (y::int) div k = 400 div k * (y div 400) + y mod 400 div k"
proof -
  assume k: "0 < k" "k dvd 400"
  then obtain q where q: "400 = k * q" by blast
  have "400 * t = k * (q * t)" for t using q by (simp only: mult.assoc [symmetric])
  then have "y = y mod 400 + k * (q * (y div 400))" by (metis mod_mult_div_eq)
  then have "y div k = q * (y div 400) + y mod 400 div k" using k(1) by (metis div_mult_self2 less_irrefl)
  moreover have "400 div k = q" using q k(1) by (metis nonzero_mult_div_cancel_left less_irrefl)
  ultimately show ?thesis by simp
qed

definition march_offset :: "int \<Rightarrow> int" where
  "march_offset m = (153 * (if 2 < m then m - 3 else m + 9) + 2) div 5"

lemma days_from_civil_words:
  assumes "1 \<le> m" "m \<le> 12" "1 \<le> d" "d \<le> 31"
  shows "days_from_civil y (word_of_int m) (word_of_int d) =
     (let y' = y - of_bool (m \<le> 2)
      in 365 * y' + y' div 4 - y' div 100 + y' div 400 + march_offset m + d - 1 - 719468)"
proof -
  define y' r e where "y' = y - of_bool (m \<le> 2)" "r = y' mod 400" "e = y' div 400"
  have r: "0 \<le> r" "r < 400" unfolding y'_r_e_def by simp_all
  have le: "(word_of_int m :: u32) \<le> 2 \<longleftrightarrow> m \<le> 2" using u32_le_2 [of m] assms by simp
  have lt: "2 < (word_of_int m :: u32) \<longleftrightarrow> 2 < m" using le by (simp add: not_le [symmetric])
  have off: "(153 * ((word_of_int m :: u32) + (if 2 < m then - 3 else 9)) + 2) div 5 = word_of_int (march_offset m)"
    using month_cases [OF assms(1,2)] by (elim insertE emptyE) (simp_all add: march_offset_def)
  have off_b: "0 \<le> march_offset m" "march_offset m \<le> 337"
    using month_cases [OF assms(1,2)] by (elim insertE emptyE; simp add: march_offset_def)+
  have yoe: "y' - e * 400 = r" unfolding y'_r_e_def by (simp add: minus_div_mult_eq_mod)
  have q: "0 \<le> r div 4" "r div 4 < 100" "0 \<le> r div 100" "r div 100 \<le> r div 4"
    using r by (auto intro: zdiv_mono2)
  have doe: "uint ((word_of_int r :: u32) * 365 + word_of_int r div 4 - word_of_int r div 100 +
        (word_of_int (march_offset m) + word_of_int d - 1)) = r * 365 + r div 4 - r div 100 + (march_offset m + d - 1)"
  proof -
    have "(word_of_int r :: u32) * 365 + word_of_int r div 4 - word_of_int r div 100 +
        (word_of_int (march_offset m) + word_of_int d - 1) =
      word_of_int (r * 365 + r div 4 - r div 100 + (march_offset m + d - 1))"
      using r by (simp add: u32_div_numeral)
    moreover have "0 \<le> r * 365 + u - v + (p + d - 1) \<and> r * 365 + u - v + (p + d - 1) < 2 ^ 32"
      if "0 \<le> u" "u < 100" "0 \<le> v" "v \<le> u" "0 \<le> p" "p \<le> 337" for u v p
      using that r assms(3,4) by simp
    ultimately show ?thesis using q off_b by (simp only: uint_u32)
  qed
  have "y' div 4 = 100 * e + r div 4" "y' div 100 = 4 * e + r div 100"
    using era_div [of 4 y'] era_div [of 100 y'] by (simp_all flip: y'_r_e_def)
  moreover have "y' = 400 * e + r" by (simp add: y'_r_e_def)
  ultimately have "e * 146097 + (r * 365 + r div 4 - r div 100) = 365 * y' + y' div 4 - y' div 100 + e"
    by (simp only: distrib_left mult.assoc [symmetric] mult.commute [of e])
  moreover have "days_from_civil y (word_of_int m) (word_of_int d) =
      e * 146097 + (r * 365 + r div 4 - r div 100 + (march_offset m + d - 1)) - 719468"
  proof -
    have "y - (if m \<le> 2 then 1 else 0) = y'" "floor_div y' 400 = e" by (simp_all add: y'_r_e_def floor_div_div)
    then show ?thesis
      unfolding days_from_civil_def Let_def le lt off by (simp only: yoe doe)
  qed
  moreover have "a + (b + (p + d - 1)) - q = c + p + d - 1 - q" if "a + b = c" for a b c p q :: int
    using that by simp
  ultimately show ?thesis unfolding Let_def by (simp only: flip: y'_r_e_def(1,3))
qed

lemma days_from_civil_count:
  assumes "1 \<le> m" "m \<le> 12" "1 \<le> d" "d \<le> 31"
  shows "days_from_civil y (word_of_int m) (word_of_int d) = day_count y m d"
proof -
  define z where "z = y - of_bool (m \<le> 2)"
  have z: "365 * z + z div 4 - z div 100 + z div 400 =
      year_start y - (if m \<le> 2 then 365 else - of_bool (is_leap_year y))"
  proof (cases "m \<le> 2")
    case True
    then show ?thesis by (simp add: z_def year_start_def)
  next
    case False
    then show ?thesis using year_start_next [of y] by (simp add: z_def year_start_def [of "y + 1"])
  qed
  have "march_offset m - (if m \<le> 2 then 365 else - of_bool (is_leap_year y)) + 59 = days_before_month y m - 1 + 1"
    unfolding days_before_month_table [OF assms(1,2)]
    using month_cases [OF assms(1,2)] by (elim insertE emptyE; simp add: march_offset_def)
  moreover have "days_from_civil y (word_of_int m) (word_of_int d) =
      year_start y - (if m \<le> 2 then 365 else - of_bool (is_leap_year y)) + march_offset m + d - 1 - 719468"
    unfolding days_from_civil_words [OF assms] Let_def z_def [symmetric] by (simp only: z)
  ultimately show ?thesis
    unfolding day_count_in_year [OF assms(1,2)] by linarith
qed

lemma year_of_era:
  assumes "0 \<le> doe" "doe < 146097"
  obtains yoe r where "(doe - doe div 1460 + doe div 36524 - doe div 146096) div 365 = yoe"
    "0 \<le> yoe" "yoe < 400" "doe = 365 * yoe + yoe div 4 - yoe div 100 + r" "0 \<le> r" "r \<le> 365"
    "r = 365 \<Longrightarrow> is_leap_year (yoe + 1)"
proof (cases "doe = 146096")
  case True
  then show ?thesis by (intro that [of 399 365]) (simp_all add: leap_dvd)
next
  case False
  define c s1 where "c = doe div 36524" "s1 = doe mod 36524"
  define q s2 where "q = s1 div 1461" "s2 = s1 mod 1461"
  define j where "j = (if s2 div 365 = 4 then 3 else s2 div 365)"
  define r where "r = s2 - 365 * j"
  have doe: "doe = 36524 * c + s1" "0 \<le> s1" "s1 < 36524" unfolding c_s1_def by simp_all
  have s1: "s1 = 1461 * q + s2" "0 \<le> s2" "s2 < 1461" unfolding q_s2_def by simp_all
  obtain k t where k: "s2 div 365 = k" "s2 = 365 * k + t" "0 \<le> t" "t < 365" by (metis mult_div_mod_eq pos_mod_bound pos_mod_sign zero_less_numeral)
  have c: "0 \<le> c" "c \<le> 3" using doe assms False by linarith+
  have q: "0 \<le> q" "q \<le> 24" using s1 doe by linarith+
  have j: "0 \<le> j" "j \<le> 3" "0 \<le> r" "r \<le> 365" "r = 365 \<Longrightarrow> j = 3 \<and> q \<noteq> 24"
    using k s1 doe(3) by (auto simp: j_def r_def split: if_splits)
  have eq: "doe = 36524 * c + 1461 * q + 365 * j + r" using doe s1 by (simp add: r_def)
  let ?b = "24 * c + q + 365 * j + r"
  have d1460: "doe div 1460 = 25 * c + q + (if ?b < 1460 then 0 else 1)"
    using eq c q j by (intro int_div_pos_eq [where r = "if ?b < 1460 then ?b else ?b - 1460"]) auto
  have d36524: "doe div 36524 = c" by (simp add: c_s1_def)
  have d146096: "doe div 146096 = 0" using assms False by (intro div_pos_pos_trivial) simp_all
  let ?x = "if ?b < 1460 then r else r - 1"
  have "doe - doe div 1460 + doe div 36524 - doe div 146096 = 365 * (100 * c + 4 * q + j) + ?x"
    unfolding d1460 d36524 d146096 using eq by simp
  moreover have "0 \<le> ?x" "?x < 365" using c q j by (cases "r = 365"; auto)+
  ultimately have "(doe - doe div 1460 + doe div 36524 - doe div 146096) div 365 = 100 * c + 4 * q + j"
    by (intro int_div_pos_eq [where r = ?x]) simp_all
  moreover have y4: "(100 * c + 4 * q + j) div 4 = 25 * c + q"
    using c q j by (intro int_div_pos_eq [where r = j]) simp_all
  moreover have y100: "(100 * c + 4 * q + j) div 100 = c"
    using c q j by (intro int_div_pos_eq [where r = "4 * q + j"]) simp_all
  moreover have "is_leap_year (100 * c + 4 * q + j + 1)" if "r = 365"
  proof -
    have 4: "100 * c + 4 * q + j + 1 = 4 * (25 * c + q + 1)" using j(5) [OF that] by simp
    have "(4 * (25 * c + q + 1)) mod 100 = 4 * q + 4"
      using q c j(5) [OF that] by (intro int_mod_pos_eq [where q = c]) simp_all
    then have "\<not> 100 dvd 4 * (25 * c + q + 1)" using q by (simp add: dvd_eq_mod_eq_0)
    then show ?thesis unfolding leap_dvd 4 by simp
  qed
  ultimately show ?thesis
    using c q j eq by (intro that [of "100 * c + 4 * q + j" r]) (simp_all only: y4 y100, auto)
qed

lemma month_of_year_table:
  "list_all (\<lambda>r. let mp = (5 * r + 2) div 153; d = r - (153 * mp + 2) div 5 + 1; m = (if mp < 10 then mp + 3 else mp - 9)
     in 0 \<le> mp \<and> mp \<le> 11 \<and> 1 \<le> d \<and> (d \<le> month_lengths ! nat (m - 1) \<or> r = 365 \<and> m = 2 \<and> d = 29)) [0..365]"
  by code_simp


lemma month_of_year:
  assumes "0 \<le> r" "r \<le> 365"
  obtains m d where "1 \<le> m" "m \<le> 12" "1 \<le> d" "d \<le> month_lengths ! nat (m - 1) \<or> r = 365 \<and> m = 2 \<and> d = 29"
    "(5 * r + 2) div 153 = (if 2 < m then m - 3 else m + 9)" "r = march_offset m + d - 1" "d \<le> 31"
proof -
  define mp where "mp = (5 * r + 2) div 153"
  define d where "d = r - (153 * mp + 2) div 5 + 1"
  define m where "m = (if mp < 10 then mp + 3 else mp - 9)"
  have "r \<in> set [0..365]" using assms by simp
  with month_of_year_table
  have *: "0 \<le> mp \<and> mp \<le> 11 \<and> 1 \<le> d \<and> (d \<le> month_lengths ! nat (m - 1) \<or> r = 365 \<and> m = 2 \<and> d = 29)"
    unfolding list_all_iff Let_def mp_def d_def m_def by blast
  then have m: "1 \<le> m" "m \<le> 12" "mp = (if 2 < m then m - 3 else m + 9)" by (auto simp: m_def)
  moreover have "month_lengths ! nat (m - 1) \<le> 31"
    using month_cases [OF m(1,2)] by (elim insertE emptyE) (simp_all add: month_lengths_def)
  moreover have "r = march_offset m + d - 1" unfolding d_def march_offset_def m(3) [symmetric] by simp
  ultimately show ?thesis using * by (intro that [of m d, OF m(1,2) _ _ m(3) [unfolded mp_def]]) auto
qed

lemma civil_from_days_words:
  assumes "0 \<le> doe" "doe < 146097" "z + 719468 = 146097 * era + doe"
    "(doe - doe div 1460 + doe div 36524 - doe div 146096) div 365 = yoe" "0 \<le> yoe" "yoe < 400"
    "doe = 365 * yoe + yoe div 4 - yoe div 100 + r" "0 \<le> r" "r \<le> 365"
    "1 \<le> m" "m \<le> 12" "(5 * r + 2) div 153 = (if 2 < m then m - 3 else m + 9)" "r = march_offset m + d - 1"
  shows "civil_from_days z = (yoe + era * 400 + of_bool (m \<le> 2), word_of_int m, word_of_int d)"
proof -
  define mp where "mp = (5 * r + 2) div 153"
  let ?w = "word_of_int :: int \<Rightarrow> u32"
  have era: "(z + 719468) div 146097 = era" "z + 719468 - era * 146097 = doe"
    using assms(1-3) by (auto intro: int_div_pos_eq)
  have zless2p: "146097 < (2 :: int) ^ 32" by simp
  have bound: "0 \<le> doe - doe div 1460 + doe div 36524 - doe div 146096" "doe - doe div 1460 + doe div 36524 - doe div 146096 < 2 ^ 32"
  proof -
    have "0 \<le> doe div 1460" "doe div 1460 \<le> doe" "0 \<le> doe div 36524" "doe div 36524 \<le> doe" "0 \<le> doe div 146096"
      "doe div 146096 \<le> doe div 36524" using assms(1) zdiv_mono2 [of doe 1 1460] zdiv_mono2 [of doe 1 36524] by (auto intro: zdiv_mono2)
    then show "0 \<le> doe - doe div 1460 + doe div 36524 - doe div 146096" "doe - doe div 1460 + doe div 36524 - doe div 146096 < 2 ^ 32"
      using assms(1,2) zless2p by linarith+
  qed
  have 1: "(?w doe - ?w doe div 1460 + ?w doe div 36524 - ?w doe div 146096) div 365 = ?w yoe"
  proof -
    have "?w doe - ?w doe div 1460 + ?w doe div 36524 - ?w doe div 146096 =
        ?w (doe - doe div 1460 + doe div 36524 - doe div 146096)"
      using assms(1,2) by (simp add: u32_div_numeral)
    then have "(?w doe - ?w doe div 1460 + ?w doe div 36524 - ?w doe div 146096) div 365 =
        ?w ((doe - doe div 1460 + doe div 36524 - doe div 146096) div 365)"
      by (simp only:) (rule u32_div_numeral [OF bound], simp)
    then show ?thesis by (simp only: assms(4))
  qed
  have 2: "?w doe - (365 * ?w yoe + ?w yoe div 4 - ?w yoe div 100) = ?w r"
  proof -
    have "r = doe - (365 * yoe + yoe div 4 - yoe div 100)" using assms(7) by simp
    then show ?thesis using assms(5,6) by (simp add: u32_div_numeral)
  qed
  have 3: "(5 * ?w r + 2) div 153 = ?w mp"
    using u32_div_numeral [of "5 * r + 2"] assms(8,9) by (simp add: mp_def)
  have mp: "0 \<le> mp" "mp \<le> 11" "mp = (if 2 < m then m - 3 else m + 9)" using assms(10,11,12) by (auto simp: mp_def)
  have 4: "?w r - (153 * ?w mp + 2) div 5 + 1 = ?w d"
    using mp u32_div_numeral [of "153 * mp + 2"] by (simp add: assms(13) march_offset_def)
  have 5: "(if ?w mp < 10 then ?w mp + 3 else ?w mp - 9) = ?w m"
    using mp assms(10,11) by (auto simp: word_less_def uint_u32)
  have 6: "?w m \<le> 2 \<longleftrightarrow> m \<le> 2" using u32_le_2 [of m] assms(10,11) by simp
  have "floor_div (z + 719468) 146097 = era" by (simp add: floor_div_div era)
  moreover have "uint (?w yoe) = yoe" using assms(5,6) by (simp add: uint_u32)
  ultimately show ?thesis
    unfolding civil_from_days_def Let_def by (simp only: era 1 2 3 4 5 6 of_bool_def)
qed


lemma civil_from_days_spec:
  obtains y m d where "civil_from_days z = (y, word_of_int m, word_of_int d)" "civil_date y m d" "day_count y m d = z"
proof -
  define era doe where "era = (z + 719468) div 146097" "doe = (z + 719468) mod 146097"
  have z: "0 \<le> doe" "doe < 146097" "z + 719468 = 146097 * era + doe" by (simp_all add: era_doe_def)
  from year_of_era [OF z(1,2)] obtain yoe r where y:
    "(doe - doe div 1460 + doe div 36524 - doe div 146096) div 365 = yoe" "0 \<le> yoe" "yoe < 400"
    "doe = 365 * yoe + yoe div 4 - yoe div 100 + r" "0 \<le> r" "r \<le> 365" "r = 365 \<Longrightarrow> is_leap_year (yoe + 1)" by blast
  from month_of_year [OF y(5,6)] obtain m d where m: "1 \<le> m" "m \<le> 12" "1 \<le> d"
    "d \<le> month_lengths ! nat (m - 1) \<or> r = 365 \<and> m = 2 \<and> d = 29"
    "(5 * r + 2) div 153 = (if 2 < m then m - 3 else m + 9)" "r = march_offset m + d - 1" "d \<le> 31" by blast
  let ?y = "yoe + era * 400 + of_bool (m \<le> 2)"
  have leap: "is_leap_year (yoe + era * 400 + 1) \<longleftrightarrow> is_leap_year (yoe + 1)"
  proof -
    have "k dvd yoe + 1 + era * 400 \<longleftrightarrow> k dvd yoe + 1" if "k dvd 400" for k
      using that by (simp add: dvd_add_left_iff)
    from this [of 4] this [of 100] this [of 400] show ?thesis by (simp add: leap_dvd algebra_simps)
  qed
  have "civil_date ?y m d"
    using m leap y(7) by (auto simp: civil_date_def days_in_month_def month_lengths_def)
  moreover have "day_count ?y m d = z"
  proof -
    let ?y' = "yoe + era * 400"
    have "?y' div 4 = 100 * era + yoe div 4" "?y' div 100 = 4 * era + yoe div 100" "?y' div 400 = era"
      using era_div [of 4 ?y'] era_div [of 100 ?y'] y(2,3) by simp_all
    then have "day_count ?y m d =
        365 * ?y' + (100 * era + yoe div 4) - (4 * era + yoe div 100) + era + march_offset m + d - 1 - 719468"
      using days_from_civil_words [OF m(1,2,3,7), of ?y] days_from_civil_count [OF m(1,2,3,7), of ?y]
      by (simp only: Let_def add_diff_cancel_right')
    also have "\<dots> = 146097 * era + (365 * yoe + yoe div 4 - yoe div 100 + (march_offset m + d - 1)) - 719468"
      by (simp only: algebra_simps)
    finally show ?thesis using z(3) y(4) m(6) by linarith
  qed
  ultimately show ?thesis by (intro that [OF civil_from_days_words [OF z y(1-6) m(1,2,5,6)]])
qed

text \<open>A day count is the count of one date: the algorithms are inverse to each other.\<close>

lemma year_start_mono: "y < y' \<Longrightarrow> year_start y + 365 + of_bool (is_leap_year y) \<le> year_start y'"
proof (induction y' rule: int_gr_induct)
  case base
  show ?case by (simp add: year_start_next)
next
  case (step i)
  then show ?case by (simp add: year_start_next)
qed

lemma days_before_month_mono:
  assumes "m < m'" "1 \<le> m" "m' \<le> 12"
  shows "days_before_month y m + days_in_month y m \<le> days_before_month y m'"
  using assms
proof (induction m' rule: int_gr_induct)
  case base
  then show ?case by (simp add: days_before_month_next)
next
  case (step i)
  then show ?case using month_length_bounds [of i y] by (simp add: days_before_month_next)
qed

lemma day_of_year_bounds:
  assumes "civil_date y m d"
  shows "1 \<le> days_before_month y m + d" "days_before_month y m + d \<le> 365 + of_bool (is_leap_year y)"
proof -
  have "days_before_month y m + days_in_month y m \<le> 365 + of_bool (is_leap_year y)"
    using assms days_before_month_mono [of m 12 y] days_before_month_table [of 12 y]
    by (cases "m = 12") (auto simp: civil_date_def days_in_month_def month_lengths_def)
  then show "days_before_month y m + d \<le> 365 + of_bool (is_leap_year y)" using assms by (simp add: civil_date_def)
  show "1 \<le> days_before_month y m + d"
    using assms days_before_month_mono [of 1 m y] days_before_month_table [of 1 y] month_length_bounds [of 1 y]
    by (cases "m = 1") (auto simp: civil_date_def)
qed

lemma day_count_inj:
  assumes "civil_date y m d" "civil_date y' m' d'" "day_count y m d = day_count y' m' d'"
  shows "y = y' \<and> m = m' \<and> d = d'"
proof -
  have m: "1 \<le> m" "m \<le> 12" "1 \<le> m'" "m' \<le> 12" using assms by (auto simp: civil_date_def)
  have eq: "year_start y + (days_before_month y m + d) = year_start y' + (days_before_month y' m' + d')"
    using assms(3) m by (simp add: day_count_in_year)
  note b = day_of_year_bounds [OF assms(1)] day_of_year_bounds [OF assms(2)]
  have y: "y = y'"
    using eq b year_start_mono [of y y'] year_start_mono [of y' y]
    by (cases y y' rule: linorder_cases) linarith+
  moreover have "m = m'"
    using eq y assms(1,2) m days_before_month_mono [of m m' y] days_before_month_mono [of m' m y]
    by (cases m m' rule: linorder_cases) (auto simp: civil_date_def)
  ultimately show ?thesis using eq by simp
qed


lemma civil_from_days_count:
  assumes "civil_date y m d"
  shows "civil_from_days (day_count y m d) = (y, word_of_int m, word_of_int d)"
  using civil_from_days_spec [of "day_count y m d"] day_count_inj [OF assms] by metis

section \<open>When normalising returns, and what\<close>

lemma year_start_linear: "y \<le> y' \<Longrightarrow> year_start y + 365 * (y' - y) \<le> year_start y'"
proof (induction y' rule: int_ge_induct)
  case (step i)
  then show ?case by (simp add: year_start_next)
qed simp

text \<open>The fields of a date-time are C integers. They can be carried when every carried field is one
  again, and the date reached lies in a year of the type.\<close>

definition int_fields :: "datetime \<Rightarrow> bool" where
  "int_fields dt \<longleftrightarrow> in_int (year dt) \<and> in_int (month dt) \<and> in_int (day dt) \<and> in_int (hour dt) \<and>
     in_int (minute dt) \<and> in_int (second dt)"

definition date_in_range :: "int \<Rightarrow> bool" where
  "date_in_range n \<longleftrightarrow> day_count (- (2 ^ 31)) 1 1 \<le> n \<and> n < day_count (2 ^ 31) 1 1"

definition carries_fit :: "datetime \<Rightarrow> bool" where
  "carries_fit dt \<longleftrightarrow>
     (let mi = minute dt + second dt div 60;
          h = hour dt + mi div 60;
          d = day dt + h div 24
      in in_int mi \<and> in_int h \<and> in_int d \<and> in_int (year dt + (month dt - 1) div 12) \<and>
         date_in_range (day_count (year dt) (month dt) d))"

lemma civil_day_count_range:
  assumes "civil_date y m d" "in_int y"
  shows "date_in_range (day_count y m d)"
proof -
  have b: "1 \<le> days_before_month y m + d" "days_before_month y m + d \<le> 365 + of_bool (is_leap_year y)"
    using day_of_year_bounds [OF assms(1)] by (auto split: if_splits)
  have y: "- (2 ^ 31) \<le> y" "y + 1 \<le> 2 ^ 31" using assms(2) by (simp_all add: in_int_def)
  have dc: "day_count y m d = year_start y + (days_before_month y m + d) - 719528"
    using assms(1) by (simp add: civil_date_def day_count_in_year)
  have first: "day_count k 1 1 = year_start k + 1 - 719528" for k
    using days_before_month_table [of 1 k] by (simp add: day_count_in_year)
  have mono: "year_start a \<le> year_start b" if "a \<le> b" for a b using year_start_linear [OF that] that by simp
  from mono [OF y(1)] mono [OF y(2)] have "year_start (- (2 ^ 31)) \<le> year_start y" "year_start (y + 1) \<le> year_start (2 ^ 31)" .
  then show ?thesis
    unfolding date_in_range_def first dc using b year_start_next [of y] by simp
qed

lemma normalize_runs:
  assumes "int_fields dt"
  shows "case normalize_datetime dt of
      None \<Rightarrow> \<not> carries_fit dt
    | Some r \<Rightarrow> carries_fit dt \<and> instant r = instant dt \<and> civil r \<and> int_fields r \<and>
        time_only r = time_only dt \<and> precision r = precision dt"
proof -
  define mi where "mi = minute dt + second dt div 60"
  define h where "h = hour dt + mi div 60"
  define d where "d = day dt + h div 24"
  define y m where "y = year dt + (month dt - 1) div 12" "m = 1 + (month dt - 1) mod 12"
  note defs = mi_def h_def d_def y_m_def
  have n: "normalize_datetime dt =
      (if in_int mi \<and> in_int h \<and> in_int d \<and> in_int y
       then do { (y, m, d) \<leftarrow> day_up y m d; (y, m, d) \<leftarrow> day_down y m d;
              Some (dt\<lparr>year := y, month := m, day := d, hour := h mod 24, minute := mi mod 60, second := second dt mod 60\<rparr>) }
       else None)"
    using assms unfolding normalize_datetime_def int_fields_def
    by (simp add: carry_both flip: defs)
  have fit: "carries_fit dt \<longleftrightarrow> in_int mi \<and> in_int h \<and> in_int d \<and> in_int y \<and> date_in_range (day_count (year dt) (month dt) d)"
    by (simp add: carries_fit_def Let_def defs)
  have m: "1 \<le> m" "m \<le> 12" by (simp_all add: y_m_def)
  have month: "day_count y m k = day_count (year dt) (month dt) k" for k
    by (simp add: day_count_def y_m_def)
  have clock: "h div 24 * 86400 + (h mod 24 * 3600 + (mi mod 60 * 60 + second dt mod 60)) = hour dt * 3600 + (minute dt * 60 + second dt)"
    using mod_mult_div_eq [of h 24] mod_mult_div_eq [of mi 60] mod_mult_div_eq [of "second dt" 60]
    unfolding h_def mi_def by linarith
  have small: "in_int k" if "0 \<le> k" "k < 100" for k using that by (simp add: in_int_def)
  show ?thesis
  proof (cases "in_int mi \<and> in_int h \<and> in_int d \<and> in_int y")
    case False
    then show ?thesis by (auto simp: n fit)
  next
    case True
    show ?thesis
    proof (cases "day_up y m d")
      case None
      then have "\<not> carries_fit dt" using day_up_runs [OF m, of y d] True by (simp add: fit month date_in_range_def)
      with None True show ?thesis by (simp add: n)
    next
      case (Some r)
      obtain y1 m1 d1 where r: "r = (y1, m1, d1)" by (cases r)
      have up: "day_count y1 m1 d1 = day_count y m d" "1 \<le> m1" "m1 \<le> 12" "d1 \<le> days_in_month y1 m1" "in_int y1"
        using day_up_runs [OF m, of y d] True Some r by auto
      show ?thesis
      proof (cases "day_down y1 m1 d1")
        case None
        then have "\<not> carries_fit dt" using day_down_runs [OF up(2-5)] up(1) by (simp add: fit month date_in_range_def)
        with None True Some r show ?thesis by (simp add: n)
      next
        case down: (Some q)
        obtain y2 m2 d2 where q: "q = (y2, m2, d2)" by (cases q)
        have dn: "day_count y2 m2 d2 = day_count y m d" "civil_date y2 m2 d2" "in_int y2"
          using day_down_runs [OF up(2-5)] down q up(1) by auto
        have "carries_fit dt" using civil_day_count_range [OF dn(2,3)] dn(1) True by (simp add: fit month)
        moreover have "in_int m2" "in_int d2"
          using dn(2) month_length_bounds [of m2 y2] by (auto simp: civil_date_def intro!: small)
        moreover have "day_count (year dt) (month dt) d = day_count (year dt) (month dt) (day dt) + h div 24"
          by (simp add: d_def day_count_day)
        ultimately show ?thesis using True Some r down q dn month clock by (simp add: n instant_def civil_def int_fields_def small)
      qed
    qed
  qed
qed

lemma normalize_some:
  assumes "int_fields dt" "normalize_datetime dt = Some r"
  shows "instant r = instant dt" "civil r" "int_fields r" "time_only r = time_only dt" "precision r = precision dt"
  using normalize_runs [OF assms(1)] assms(2) by simp_all

lemma normalize_returns:
  assumes "int_fields dt" "carries_fit dt"
  obtains r where "normalize_datetime dt = Some r"
  using normalize_runs [OF assms(1)] assms(2) by (cases "normalize_datetime dt") simp_all

section \<open>Instants\<close>

lemma zone_timegm_instant:
  assumes "1 \<le> month dt" "1 \<le> day dt"
  shows "zone_timegm dt = instant dt"
proof -
  let ?m = "(month dt - 1) mod 12"
  have "days_from_civil (year dt + (month dt - 1) div 12) (word_of_int (?m + 1)) (word_of_int 1) =
      day_count (year dt + (month dt - 1) div 12) (?m + 1) 1"
    by (rule days_from_civil_count) simp_all
  also have "\<dots> = day_count (year dt) (month dt) 1" by (simp add: day_count_def)
  finally have "days_from_civil (year dt + (month dt - 1) div 12) (word_of_int ?m + 1) 1 + day dt - 1 =
      day_count (year dt) (month dt) (day dt)"
    using day_count_day [of "year dt" "month dt" 1 "day dt - 1"] by simp
  then have "zone_timegm dt = day_count (year dt) (month dt) (day dt) * 86400 + hour dt * 3600 + minute dt * 60 + second dt"
    using assms unfolding zone_timegm_def gb_timegm_def zone_fill_tm_def Let_def
    by (simp only: tm.simps if_True fst_conv floor_div_div minus_div_mult_eq_mod diff_add_cancel zero_less_numeral)
  then show ?thesis by (simp only: instant_def)
qed

lemma int_cast_id: "- (2 ^ 31) \<le> x \<Longrightarrow> x < 2 ^ 31 \<Longrightarrow> int_cast x = x"
  by (simp add: int_cast_def signed_take_bit_int_eq_self)

lemma sdiv_nonneg: "0 \<le> a \<Longrightarrow> 0 < b \<Longrightarrow> (a::int) sdiv b = a div b"
  by (simp add: signed_divide_int_def sgn_if)

lemma smod_nonneg: "0 \<le> a \<Longrightarrow> 0 < b \<Longrightarrow> (a::int) smod b = a mod b"
  by (simp add: signed_modulo_int_def sgn_if)

lemma zone_civil_instant:
  assumes "civil dt" "- (2 ^ 31) \<le> year dt - 1900" "year dt - 1900 < 2 ^ 31"
  shows "zone_civil_from_epoch_utc (instant dt) p =
    dt\<lparr>time_only := False, precision := (if p < PREC_HOUR then PREC_SECOND else p)\<rparr>"
proof -
  define rem where "rem = hour dt * 3600 + minute dt * 60 + second dt"
  let ?days = "day_count (year dt) (month dt) (day dt)"
  have c: "civil_date (year dt) (month dt) (day dt)" and t: "0 \<le> hour dt" "hour dt < 24" "0 \<le> minute dt"
    "minute dt < 60" "0 \<le> second dt" "second dt < 60" using assms(1) by (auto simp: civil_def)
  have rem: "0 \<le> rem" "rem < 86400" using t by (simp_all add: rem_def)
  have inst: "instant dt = 86400 * ?days + rem" by (simp add: instant_def rem_def)
  then have "instant dt div 86400 = ?days" using rem by (intro int_div_pos_eq) simp_all
  then have "floor_div (instant dt) 86400 = ?days" by (simp add: floor_div_div)
  moreover have "rem div 3600 = hour dt" "rem mod 3600 = minute dt * 60 + second dt"
    using t by (auto simp: rem_def intro: int_div_pos_eq int_mod_pos_eq)
  moreover have "(minute dt * 60 + second dt) div 60 = minute dt" "rem mod 60 = second dt"
    using t by (auto simp: rem_def intro: int_div_pos_eq int_mod_pos_eq [of _ _ "hour dt * 60 + minute dt"])
  moreover have "uint (word_of_int (month dt) :: u32) = month dt" "uint (word_of_int (day dt) :: u32) = day dt"
    using c month_length_bounds [of "month dt" "year dt"] by (auto simp: civil_date_def intro!: uint_u32)
  ultimately show ?thesis
    using rem t assms(2,3) inst by (simp add: zone_civil_from_epoch_utc_def gb_gmtime_def Let_def
        civil_from_days_count [OF c] sdiv_nonneg smod_nonneg int_cast_id)
qed

lemma hms_inj:
  assumes "h * 3600 + mi * 60 + s = h' * 3600 + mi' * 60 + s'" "0 \<le> mi \<and> mi < 60" "0 \<le> s \<and> s < 60"
    "0 \<le> mi' \<and> mi' < 60" "0 \<le> s' \<and> s' < (60 :: int)"
  shows "h = h' \<and> mi = mi' \<and> s = s'"
proof -
  obtain u v where uv: "u = 60 * h + mi" "v = 60 * h' + mi'" by simp
  then have "60 * u + s = 60 * v + s'" using assms(1) by simp
  then have "u = v" using assms(3,5) by linarith
  then have "h = h'" using uv assms(2,4) by linarith
  with \<open>u = v\<close> uv assms(1) show ?thesis by simp
qed

lemma civil_instant_eq:
  assumes "civil a" "civil b" "instant a = instant b" "time_only a = time_only b" "precision a = precision b"
  shows "a = b"
proof -
  define rem where "rem dt = hour dt * 3600 + minute dt * 60 + second dt" for dt :: datetime
  have r: "0 \<le> rem dt \<and> rem dt < 86400" if "civil dt" for dt :: datetime using that by (auto simp: rem_def civil_def)
  have i: "instant dt = 86400 * day_count (year dt) (month dt) (day dt) + rem dt" for dt :: datetime
    by (simp add: instant_def rem_def)
  have "day_count (year a) (month a) (day a) = day_count (year b) (month b) (day b)"
    using i [of a] i [of b] assms(3) r [OF assms(1)] r [OF assms(2)] by linarith
  moreover from this have "rem a = rem b" using i [of a] i [of b] assms(3) by simp
  then have "hour a = hour b \<and> minute a = minute b \<and> second a = second b"
    using assms(1,2) unfolding rem_def civil_def by (intro hms_inj) simp_all
  ultimately show ?thesis
    using day_count_inj [of "year a" "month a" "day a" "year b" "month b" "day b"] assms
    by (intro datetime.equality) (simp_all add: civil_def)
qed

lemma normalize_fixed: "civil dt \<Longrightarrow> normalize_datetime dt = Some dt"
  by (simp add: civil_def civil_date_def normalize_datetime_def carry_up.simps carry_down.simps day_up.simps day_down.simps)

text \<open>Fields below a billion can always be carried.\<close>

lemma day_count_linear:
  assumes "\<bar>y\<bar> \<le> 1200000000" "1 \<le> m" "m \<le> 12" "\<bar>d\<bar> \<le> 2000000000"
  shows "date_in_range (day_count y m d)"
proof -
  have b: "0 \<le> days_before_month y m" "days_before_month y m \<le> 335"
    using days_before_month_table [OF assms(2,3)] month_cases [OF assms(2,3)] by auto
  have y: "- 1200000000 \<le> y" "y \<le> 1200000000" using assms(1) by simp_all
  have s: "year_start (- 1200000000) = - 438291000001" "year_start 1200000000 = 438290999999" by (simp_all add: year_start_def)
  have "year_start (- 1200000000) \<le> year_start y" "year_start y \<le> year_start 1200000000"
    using year_start_linear [OF y(1)] year_start_linear [OF y(2)] y by simp_all
  moreover have "day_count (- (2 ^ 31)) 1 1 = - 784353015833" "day_count (2 ^ 31) 1 1 = 784351576777" by code_simp+
  ultimately show ?thesis
    using b assms(4) unfolding date_in_range_def s day_count_in_year [OF assms(2,3)] abs_le_iff by simp
qed

lemma ordinary_fields_fit:
  assumes "\<bar>year dt\<bar> \<le> 10 ^ 9" "\<bar>month dt\<bar> \<le> 10 ^ 9" "\<bar>day dt\<bar> \<le> 10 ^ 9" "\<bar>hour dt\<bar> \<le> 10 ^ 9"
    "\<bar>minute dt\<bar> \<le> 10 ^ 9" "\<bar>second dt\<bar> \<le> 10 ^ 9"
  shows "int_fields dt \<and> carries_fit dt"
proof -
  define mi where "mi = minute dt + second dt div 60"
  define h where "h = hour dt + mi div 60"
  define d where "d = day dt + h div 24"
  define y m where "y = year dt + (month dt - 1) div 12" "m = 1 + (month dt - 1) mod 12"
  have m: "1 \<le> m" "m \<le> 12" by (simp_all add: y_m_def)
  have mi: "\<bar>mi\<bar> \<le> 1100000000" using assms(5,6) unfolding mi_def abs_le_iff by (auto; linarith)
  then have h: "\<bar>h\<bar> \<le> 1100000000" using assms(4) unfolding h_def abs_le_iff by (auto; linarith)
  then have d: "\<bar>d\<bar> \<le> 1100000000" using assms(3) unfolding d_def abs_le_iff by (auto; linarith)
  have y: "\<bar>y\<bar> \<le> 1100000000" using assms(1,2) unfolding y_m_def abs_le_iff by (auto; linarith)
  have "date_in_range (day_count y m d)" using y d by (intro day_count_linear [OF _ m]) simp_all
  moreover have "day_count y m d = day_count (year dt) (month dt) d" by (simp add: day_count_def y_m_def)
  ultimately have "carries_fit dt"
    using mi h d y unfolding abs_le_iff by (simp add: carries_fit_def Let_def in_int_def flip: mi_def h_def d_def y_m_def(1))
  then show ?thesis using assms unfolding abs_le_iff by (simp add: int_fields_def in_int_def)
qed

section \<open>The weekday\<close>

lemma weekday_count:
  assumes "civil_date y m d" "1 \<le> y"
  shows "datetime_weekday_iso y m d = (day_count y m d + 3) mod 7 + 1"
    "dt_day_of_week y m d = (day_count y m d + 4) mod 7"
proof -
  have m: "1 \<le> m" "m \<le> 12" "1 \<le> d" "d \<le> 31"
    using assms month_length_bounds [of m y] by (auto simp: civil_date_def)
  define z where "z = y - of_bool (m < 3)"
  have "0 \<le> z" using assms(2) by (simp add: z_def)
  then have div: "z sdiv k = z div k" if "0 < k" for k using that by (simp add: sdiv_nonneg)
  define v where "v = z + z div 4 - z div 100 + z div 400"
  have b: "0 \<le> v"
  proof -
    have "z div 100 \<le> z" "0 \<le> z div 4" "0 \<le> z div 400"
      using \<open>0 \<le> z\<close> zdiv_mono2 [of z 1 100] by (simp_all add: pos_imp_zdiv_nonneg_iff)
    then show ?thesis unfolding v_def by linarith
  qed
  have "day_count y m d = 364 * z + v + march_offset m + d - 1 - 719468"
    using days_from_civil_words [OF m, of y] days_from_civil_count [OF m, of y]
    by (simp add: v_def z_def Let_def)
  moreover define t where "t = sakamoto_offsets ! nat (m - 1)"
  have "0 \<le> t \<and> 7 dvd march_offset m - t - 719465"
    using month_cases [OF m(1,2)] unfolding t_def
    by (elim insertE emptyE) (simp_all add: march_offset_def sakamoto_offsets_def)
  then obtain k where t: "0 \<le> t" "march_offset m - t - 719465 = 7 * k" by blast
  ultimately have "day_count y m d + 4 = v + t + d + 7 * (52 * z + k)" by simp
  then have n: "(day_count y m d + 4) mod 7 = (v + t + d) mod 7" by (metis mod_mult_self2)
  have "dt_day_of_week y m d = (v + t + d) smod 7"
  proof -
    have "(if m < 3 then y - 1 else y) = z" by (simp add: z_def)
    then show ?thesis
      unfolding dt_day_of_week_def Let_def t_def v_def by (simp only: div zero_less_numeral)
  qed
  also have "\<dots> = (v + t + d) mod 7" using b t(1) m(3) by (intro smod_nonneg) simp_all
  finally show w: "dt_day_of_week y m d = (day_count y m d + 4) mod 7" using n by simp
  have "datetime_weekday_iso y m d = (let w = dt_day_of_week y m d in if w = 0 then 7 else w)"
    by (simp add: datetime_weekday_iso_def dt_day_of_week_def Let_def)
  also have "\<dots> = (day_count y m d + 3) mod 7 + 1"
  proof -
    let ?a = "day_count y m d + 3"
    have "day_count y m d + 4 = ?a + 1" by simp
    then have "(day_count y m d + 4) mod 7 = (?a mod 7 + 1) mod 7" by (simp only: mod_add_left_eq)
    moreover have "0 \<le> ?a mod 7" "?a mod 7 < 7" by simp_all
    ultimately show ?thesis unfolding w Let_def by (cases "?a mod 7 = 6") (simp_all only:, simp_all add: mod_pos_pos_trivial)
  qed
  finally show "datetime_weekday_iso y m d = (day_count y m d + 3) mod 7 + 1" .
qed

lemma weekday_before_year_1: "datetime_weekday_iso (- 4) 1 1 = - 5"
  by code_simp

section \<open>Named zones\<close>

text \<open>The instants whose civil time in the zone is \<open>dt\<close>.\<close>

definition zone_instants :: "(int \<Rightarrow> int option) \<Rightarrow> datetime \<Rightarrow> int set" where
  "zone_instants offset dt = {t. offset t = Some (instant dt - t)}"

lemma zone_choose_cases:
  "zone_choose v0 v1 c0 c1 =
     (if v0 \<and> v1 then (1, min c0 c1, min c0 c1, max c0 c1)
      else if v0 then (0, c0, c0, c0) else if v1 then (0, c1, c1, c1) else (2, max c0 c1, min c0 c1, max c0 c1))"
  by (simp add: zone_choose_def Let_def min_def max_def)

lemma zone_resolve_choose:
  assumes "civil dt" "offset (instant dt - 86400) = Some before" "offset (instant dt + 86400) = Some after"
  shows "zone_resolve_instants offset dt =
    zone_choose (instant dt - before \<in> zone_instants offset dt)
      (before \<noteq> after \<and> instant dt - after \<in> zone_instants offset dt) (instant dt - before) (instant dt - after)"
proof -
  have "zone_timegm dt = instant dt" using assms(1) by (intro zone_timegm_instant) (auto simp: civil_def civil_date_def)
  then show ?thesis using assms(2,3) by (simp add: zone_resolve_instants_def zone_candidate_def zone_instants_def Let_def)
qed

lemma zone_instants_found:
  assumes "\<And>t. t \<in> zone_instants offset dt \<Longrightarrow> offset t = Some before \<or> offset t = Some after"
  shows "zone_instants offset dt =
    (if instant dt - before \<in> zone_instants offset dt then {instant dt - before} else {}) \<union>
    (if instant dt - after \<in> zone_instants offset dt then {instant dt - after} else {})"
    (is "?Z = ?R")
proof (rule set_eqI)
  fix t
  have "t = instant dt - before \<or> t = instant dt - after" if "t \<in> ?Z"
    using assms [OF that] that by (auto simp: zone_instants_def)
  then show "t \<in> ?Z \<longleftrightarrow> t \<in> ?R" by (auto split: if_splits)
qed

text \<open>C16. Resolving a civil time in a named zone, as built for Windows, is exact: the answer says whether
  no, one or two instants read as that civil time there, names those instants, and picks the earlier of
  two. When there is none, the two candidates lie on either side of the gap: the clocks of the zone show
  the earlier instant as that far before the civil time, and the later as that far after it, as the two
  instants are apart; the later is chosen. The zone's offsets are those of the zone database; it is
  assumed, as the code does, that they stay within a day and that around the civil time the zone uses
  only the offsets it has a day before and a day after.\<close>

theorem zone_resolution_exact:
  assumes "civil dt" "offset (instant dt - 86400) = Some before" "offset (instant dt + 86400) = Some after"
    and "\<And>t off. offset t = Some off \<Longrightarrow> \<bar>off\<bar> \<le> 86400"
    and "\<And>t. \<bar>t - instant dt\<bar> \<le> 86400 \<Longrightarrow> offset t = Some before \<or> offset t = Some after"
    and "zone_resolve_instants offset dt = (kind, chosen, earlier, later)"
  shows "kind = 0 \<and> zone_instants offset dt = {chosen} \<and> earlier = chosen \<and> later = chosen \<or>
    kind = 1 \<and> zone_instants offset dt = {earlier, later} \<and> earlier < later \<and> chosen = earlier \<or>
    kind = 2 \<and> zone_instants offset dt = {} \<and> earlier < later \<and> chosen = later \<and>
      map_option ((+) earlier) (offset earlier) = Some (instant dt - (later - earlier)) \<and>
      map_option ((+) later) (offset later) = Some (instant dt + (later - earlier))"
proof -
  let ?Z = "zone_instants offset dt"
  have "offset t = Some before \<or> offset t = Some after" if "t \<in> ?Z" for t
    using that assms(4) [of t "instant dt - t"] by (intro assms(5)) (auto simp: zone_instants_def)
  then have Z: "?Z = (if instant dt - before \<in> ?Z then {instant dt - before} else {}) \<union>
      (if instant dt - after \<in> ?Z then {instant dt - after} else {})"
    by (rule zone_instants_found)
  obtain b a where ba: "b \<longleftrightarrow> instant dt - before \<in> ?Z" "a \<longleftrightarrow> instant dt - after \<in> ?Z" by blast
  have r: "zone_choose b (before \<noteq> after \<and> a) (instant dt - before) (instant dt - after) = (kind, chosen, earlier, later)"
    using assms(6) zone_resolve_choose [OF assms(1-3)] by (simp add: ba)
  have near: "\<bar>before\<bar> \<le> 86400" "\<bar>after\<bar> \<le> 86400" using assms(4) [OF assms(2)] assms(4) [OF assms(3)] by simp_all
  have "offset (instant dt - before) = Some after" if "\<not> b"
    using that assms(5) [of "instant dt - before"] near by (auto simp: ba zone_instants_def)
  moreover have "offset (instant dt - after) = Some before" if "\<not> a"
    using that assms(5) [of "instant dt - after"] near by (auto simp: ba zone_instants_def)
  moreover have "after < before \<or> before < after" if "\<not> a" "\<not> b"
    using that assms(5) [of "instant dt - before"] near by (auto simp: ba zone_instants_def)
  moreover have "before = after \<longrightarrow> a = b" by (simp add: ba)
  ultimately show ?thesis using r Z unfolding ba [symmetric]
    by (cases b; cases a) (auto simp: zone_choose_cases min_def max_def split: if_splits)
qed

text \<open>New York's clocks on 2 November 2025: -4 hours up to 06:00 UTC, -5 hours from then on.\<close>

lemma zone_resolution_exact_witness:
  "let fall_back = (\<lambda>t. Some (if t < 1762063200 then - 14400 else - 18000) :: int option);
       dt = \<lparr>year = 2025, month = 11, day = 2, hour = 1, minute = 30, second = 0, time_only = False, precision = 6\<rparr>
   in zone_resolve_instants fall_back dt = (1, 1762061400, 1762061400, 1762065000) \<and>
      zone_instants fall_back dt = {1762061400, 1762065000}"
proof -
  let ?f = "\<lambda>t. Some (if t < 1762063200 then - 14400 else - 18000) :: int option"
  let ?dt = "\<lparr>year = 2025, month = 11, day = 2, hour = 1, minute = 30, second = 0, time_only = False, precision = 6\<rparr>"
  have i: "instant ?dt = 1762047000" by code_simp
  have c: "civil ?dt" by code_simp
  have z: "zone_timegm ?dt = 1762047000"
    using i zone_timegm_instant [of ?dt] by simp
  have r: "zone_resolve_instants ?f ?dt = (1, 1762061400, 1762061400, 1762065000)"
    unfolding zone_resolve_instants_def z by (simp add: zone_candidate_def zone_choose_def)
  show ?thesis
    using zone_resolution_exact [of ?dt ?f "- 14400" "- 18000", OF c _ _ _ _ r] r
    by (simp add: i)
qed

section \<open>The claims\<close>

text \<open>C14. Normalising a date-time whose fields are any C integers returns, without a signed overflow,
  exactly when the carries fit: the minute, hour, day and year with what is carried into them are C
  integers and the date reached lies in a year of the type (fields of at most a billion in size always
  do). It then keeps the instant the date-time denotes and ends with a real calendar date and a time of
  day in range; it leaves the time-only flag and the precision alone, and changes nothing when done
  again. Otherwise the code overflows, which C leaves undefined.\<close>

theorem normalize_keeps_instant:
  assumes "int_fields dt"
  shows "case normalize_datetime dt of
      None \<Rightarrow> \<not> carries_fit dt
    | Some r \<Rightarrow> carries_fit dt \<and> instant r = instant dt \<and> civil r \<and> int_fields r \<and>
        time_only r = time_only dt \<and> precision r = precision dt \<and> normalize_datetime r = Some r"
  using normalize_runs [OF assms] normalize_fixed by (auto split: option.splits)

lemma normalize_keeps_instant_witness:
  "let dt = \<lparr>year = 2023, month = 14, day = 31, hour = 25, minute = 61, second = -70, time_only = False, precision = 6\<rparr>;
       late = dt\<lparr>year := 2147483647\<rparr>
   in normalize_datetime dt = Some
        \<lparr>year = 2024, month = 3, day = 3, hour = 1, minute = 59, second = 50, time_only = False, precision = 6\<rparr> \<and>
      carries_fit dt \<and> normalize_datetime late = None \<and> \<not> carries_fit late"
proof -
  let ?dt = "\<lparr>year = 2023, month = 14, day = 31, hour = 25, minute = 61, second = -70, time_only = False, precision = 6\<rparr>"
  have "int_fields ?dt" "normalize_datetime ?dt = Some
      \<lparr>year = 2024, month = 3, day = 3, hour = 1, minute = 59, second = 50, time_only = False, precision = 6\<rparr>"
    "int_fields (?dt\<lparr>year := 2147483647\<rparr>)" "normalize_datetime (?dt\<lparr>year := 2147483647\<rparr>) = None" by code_simp+
  then show ?thesis
    using normalize_keeps_instant [of ?dt] normalize_keeps_instant [of "?dt\<lparr>year := 2147483647\<rparr>"] by simp
qed

text \<open>C15. The two calendars of the program agree: going through the instant (the day algorithms of the
  platform layer, there and back) gives the date-time that the carry loops of the evaluator give, for
  every month and day from 1 on, in or out of range, whenever the loops return without overflow and the
  years given and reached less 1900 fit the C library's field. The way through the instant forgets
  that a value was time-only and raises a precision coarser than the hour to the second.\<close>

theorem calendars_agree:
  assumes "1 \<le> month dt" "1 \<le> day dt" "int_fields dt" "in_int (year dt - 1900)"
    and "normalize_datetime dt = Some r" "in_int (year r - 1900)"
  shows "zone_civil_from_epoch_utc (zone_timegm dt) (precision dt) =
    r\<lparr>time_only := False, precision := (if precision dt < PREC_HOUR then PREC_SECOND else precision dt)\<rparr>"
  using zone_civil_instant [of r "precision dt"] normalize_some [OF assms(3,5)] assms(6)
    zone_timegm_instant [OF assms(1,2)] by (simp add: in_int_def)

lemma calendars_agree_witness:
  "let dt = \<lparr>year = 2023, month = 14, day = 31, hour = 25, minute = 61, second = -70, time_only = False, precision = 3\<rparr>
   in zone_civil_from_epoch_utc (zone_timegm dt) 3 =
      \<lparr>year = 2024, month = 3, day = 3, hour = 1, minute = 59, second = 50, time_only = False, precision = 6\<rparr>"
proof -
  let ?dt = "\<lparr>year = 2023, month = 14, day = 31, hour = 25, minute = 61, second = -70, time_only = False, precision = 3\<rparr>"
  let ?r = "\<lparr>year = 2024, month = 3, day = 3, hour = 1, minute = 59, second = 50, time_only = False, precision = 3\<rparr>"
  have "normalize_datetime ?dt = Some ?r" by code_simp
  then show ?thesis using calendars_agree [of ?dt ?r] by (simp add: int_fields_def in_int_def)
qed

text \<open>The weekday of every date from year 1 on is its day count modulo 7 (1 January 1970 was a
  Thursday), ISO and Sunday-based numbering alike. Before year 1 the C division rounds the other way
  and the formula leaves its range: 1 January of the year -4 has weekday -5.\<close>

theorem weekday_is_day_count:
  assumes "civil_date y m d" "1 \<le> y"
  shows "datetime_weekday_iso y m d = (day_count y m d + 3) mod 7 + 1 \<and>
    dt_day_of_week y m d = (day_count y m d + 4) mod 7 \<and> datetime_weekday_iso (- 4) 1 1 = - 5"
  using weekday_count [OF assms] weekday_before_year_1 by simp

lemma weekday_is_day_count_witness:
  "datetime_weekday_iso 2026 2 28 = 6 \<and> dt_day_of_week 2026 2 28 = 6"
proof -
  have "civil_date 2026 2 28" "day_count 2026 2 28 = 20512" by code_simp+
  then show ?thesis using weekday_is_day_count [of 2026 2 28] by simp
qed

text \<open>The day number the platform layer computes counts the dates of the calendar: 0 on 1 January
  1970, one more on each next date, and turning a day number into a date gives back the date.\<close>

theorem day_numbers_count:
  assumes "civil_date y m d" "next_date (y, m, d) = (y', m', d')"
  shows "days_from_civil 1970 1 1 = 0 \<and>
    days_from_civil y' (word_of_int m') (word_of_int d') = days_from_civil y (word_of_int m) (word_of_int d) + 1 \<and>
    civil_from_days (days_from_civil y (word_of_int m) (word_of_int d)) = (y, word_of_int m, word_of_int d)"
proof -
  have range: "1 \<le> m \<and> m \<le> 12 \<and> 1 \<le> d \<and> d \<le> 31" if "civil_date y m d" for y m d
    using that month_length_bounds [of m y] by (auto simp: civil_date_def)
  have "civil_date y' m' d'"
    using assms month_length_bounds [of m' y'] by (auto simp: civil_date_def next_date_def split: if_splits)
  note c = days_from_civil_count [of 1 1 1970] range [OF assms(1)] range [OF this]
  show ?thesis
    using c day_count_epoch days_from_civil_count [of m d y] days_from_civil_count [of m' d' y']
      day_count_next_date [OF assms] civil_from_days_count [OF assms(1)] by simp
qed

lemma day_numbers_count_witness:
  "days_from_civil 2024 3 1 = days_from_civil 2024 2 29 + 1 \<and> civil_from_days (days_from_civil 2024 2 29) = (2024, 2, 29)"
proof -
  have "civil_date 2024 2 29" "next_date (2024, 2, 29) = (2024, 3, 1)" by code_simp+
  from day_numbers_count [OF this] show ?thesis by simp
qed

end
