(* ===== verification/Datetime_Props.thy ===== *)
theory Datetime_Props
  imports Datetime Civil_Props
begin

text \<open>
  What the readers, printers and arithmetic of \<^verbatim>\<open>Datetime\<close> promise: the strict reader is the inverse of
  printing, zone suffixes denote instants, months move before the clock with the day clamped, and
  a difference added back gives the date-time it came from. A text is handled by its spans:
  \<open>written_parse\<close> and \<open>written_at\<close> say what a span of digits reads as, in both directions.
\<close>

section \<open>Digits\<close>

fun fixed_digits :: "nat \<Rightarrow> nat \<Rightarrow> string" where
  "fixed_digits 0 n = []"
| "fixed_digits (Suc w) n = fixed_digits w (n div 10) @ [char_of (48 + n mod 10)]"

lemma fixed_digits_length [simp]: "length (fixed_digits w n) = w"
  by (induction w arbitrary: n) auto

lemma fixed_digits_0: "fixed_digits w 0 = replicate w CHR ''0''"
proof (induction w)
  case (Suc w)
  have "char_of (48 :: nat) = CHR ''0''" by code_simp
  with Suc show ?case by (simp add: replicate_append_same)
qed simp

lemma decimal_fixed:
  "n < 10 ^ w \<Longrightarrow> 0 < w \<Longrightarrow> length (decimal n) \<le> w \<and> replicate (w - length (decimal n)) CHR ''0'' @ decimal n = fixed_digits w n"
proof (induction w arbitrary: n)
  case 0
  then show ?case by simp
next
  case (Suc w)
  show ?case
  proof (cases "n < 10")
    case True
    then show ?thesis by (simp add: decimal.simps [of n] fixed_digits_0)
  next
    case False
    then have d: "decimal n = decimal (n div 10) @ [char_of (48 + n mod 10)]" by (simp add: decimal.simps [of n])
    have "n div 10 < 10 ^ w" using Suc.prems(1) by (simp add: less_mult_imp_div_less mult.commute)
    moreover have "0 < w" using Suc.prems(1) False by (cases w) auto
    ultimately show ?thesis using Suc.IH [of "n div 10"] d by (auto simp: Suc_diff_le)
  qed
qed

lemma fmt_0d_fixed: "0 \<le> v \<Longrightarrow> v < 10 ^ w \<Longrightarrow> 0 < w \<Longrightarrow> fmt_0d w v = fixed_digits w (nat v)"
proof -
  assume v: "0 \<le> v" "v < 10 ^ w" "0 < w"
  then have "nat v < 10 ^ w" by (simp add: nat_less_iff)
  from decimal_fixed [OF this v(3)] v(1) show ?thesis by (simp add: fmt_0d_def Let_def)
qed

definition span_value :: "string \<Rightarrow> int" where
  "span_value s = foldl (\<lambda>v c. v * 10 + digit_value c) 0 s"

lemma span_value_snoc: "span_value (s @ [c]) = span_value s * 10 + digit_value c"
  by (simp add: span_value_def)

lemma digit_value_nat: "digit_value c = int (of_char c) - 48"
  by (simp add: digit_value_def of_nat_of_char)

lemma digit_char: "isdigit (char_of (48 + n mod 10 :: nat))" "digit_value (char_of (48 + n mod 10 :: nat)) = int (n mod 10)"
proof -
  have "n mod 10 < 10" by simp
  then have "of_char (char_of (48 + n mod 10 :: nat)) = 48 + n mod 10" by simp
  then show "isdigit (char_of (48 + n mod 10 :: nat))" "digit_value (char_of (48 + n mod 10 :: nat)) = int (n mod 10)"
    by (simp_all add: isdigit_def digit_value_nat Let_def)
qed

lemma fixed_digits_digits: "list_all isdigit (fixed_digits w n)"
  by (induction w arbitrary: n) (simp_all add: digit_char(1))

lemma fixed_digits_value: "n < 10 ^ w \<Longrightarrow> span_value (fixed_digits w n) = int n"
proof (induction w arbitrary: n)
  case 0
  then show ?case by (simp add: span_value_def)
next
  case (Suc w)
  then have "n div 10 < 10 ^ w" by (simp add: less_mult_imp_div_less mult.commute)
  moreover have "int (n div 10) * 10 + int (n mod 10) = int (n div 10 * 10 + n mod 10)" by (simp only: of_nat_add of_nat_mult of_nat_numeral)
  ultimately show ?case using Suc.IH by (simp add: span_value_snoc digit_char(2))
qed

lemma digit_of: "isdigit c \<Longrightarrow> 0 \<le> digit_value c \<and> digit_value c < 10 \<and> char_of (48 + nat (digit_value c)) = c"
proof -
  assume c: "isdigit c"
  have v: "digit_value c = int (of_char c) - 48" by (rule digit_value_nat)
  from c have b: "48 \<le> (of_char c :: nat)" "(of_char c :: nat) \<le> 57" by (auto simp: isdigit_def Let_def)
  then have "48 + nat (digit_value c) = of_char c" by (simp add: v)
  then have "char_of (48 + nat (digit_value c)) = c" by simp
  with b v show ?thesis by simp
qed

lemma span_value_fixed:
  "list_all isdigit s \<Longrightarrow> 0 \<le> span_value s \<and> span_value s < 10 ^ length s \<and> fixed_digits (length s) (nat (span_value s)) = s"
proof (induction s rule: rev_induct)
  case Nil
  then show ?case by (simp add: span_value_def)
next
  case (snoc c s)
  let ?v = "span_value s" and ?d = "digit_value c"
  from snoc have s: "0 \<le> ?v" "?v < 10 ^ length s" "fixed_digits (length s) (nat ?v) = s" and c: "isdigit c" by auto
  note d = digit_of [OF c]
  have "?v * 10 + ?d < 10 * 10 ^ length s" using s d by simp
  moreover have "nat (?v * 10 + ?d) div 10 = nat ?v \<and> nat (?v * 10 + ?d) mod 10 = nat ?d"
  proof -
    have "nat (?v * 10 + ?d) = nat ?v * 10 + nat ?d" using s d by (simp add: nat_add_distrib nat_mult_distrib)
    moreover have "nat ?d < 10" using d by linarith
    ultimately show ?thesis by simp
  qed
  ultimately show ?case using s d by (simp add: span_value_snoc)
qed

text \<open>A span of the text.\<close>

definition span :: "string \<Rightarrow> nat \<Rightarrow> nat \<Rightarrow> string" where
  "span text s w = take w (drop s text)"

lemma span_map: "s + w \<le> length text \<Longrightarrow> span text s w = map (\<lambda>i. text ! (s + i)) [0..<w]"
  by (rule nth_equalityI) (auto simp: span_def)

lemma all_digits_span: "s + w \<le> length text \<Longrightarrow> all_digits text s w \<longleftrightarrow> list_all isdigit (span text s w)"
  by (simp add: all_digits_def span_map list_all_iff)

lemma parse_int_span_value: "s + w \<le> length text \<Longrightarrow> parse_int_span text s w = span_value (span text s w)"
  by (simp add: parse_int_span_def span_map span_value_def foldl_map)

lemma parse_written:
  assumes "span text s w = fmt_0d w v" "0 \<le> v" "v < 10 ^ w" "0 < w" "s + w \<le> length text"
  shows "all_digits text s w" "parse_int_span text s w = v"
proof -
  have n: "nat v < 10 ^ w" using assms(2,3) by (simp add: nat_less_iff)
  show "all_digits text s w" using assms by (simp add: all_digits_span fmt_0d_fixed fixed_digits_digits)
  show "parse_int_span text s w = v"
    using assms fixed_digits_value [OF n] by (simp add: parse_int_span_value fmt_0d_fixed)
qed

lemma written_parse:
  assumes "all_digits text s w" "s + w \<le> length text" "0 < w"
  shows "span text s w = fmt_0d w (parse_int_span text s w)" "0 \<le> parse_int_span text s w"
    "parse_int_span text s w < 10 ^ w"
proof -
  have "length (span text s w) = w" using assms(2) by (simp add: span_def)
  with span_value_fixed [of "span text s w"] assms(1,2)
  have *: "0 \<le> span_value (span text s w)" "span_value (span text s w) < 10 ^ w"
    "fixed_digits w (nat (span_value (span text s w))) = span text s w"
    by (simp_all add: all_digits_span)
  show "0 \<le> parse_int_span text s w" "parse_int_span text s w < 10 ^ w"
    using * assms(2) by (simp_all add: parse_int_span_value)
  show "span text s w = fmt_0d w (parse_int_span text s w)"
    using * assms(2,3) by (simp add: parse_int_span_value fmt_0d_fixed)
qed


section \<open>ISO text\<close>

text \<open>A date-time is canonical when it passes the calendar check, its year has four digits and the
  fields below its precision are those a reader gives them.\<close>

definition canonical_date :: "datetime \<Rightarrow> bool" where
  "canonical_date d \<longleftrightarrow> \<not> time_only d \<and> PREC_YEAR \<le> precision d \<and> precision d \<le> PREC_SECOND \<and>
     0 \<le> year d \<and> year d \<le> 9999 \<and> date_parts_fault d = None \<and> datetime_apply_lens d (precision d) = d"

lemma fmt_0d_length: "0 \<le> v \<Longrightarrow> v < 10 ^ w \<Longrightarrow> 0 < w \<Longrightarrow> length (fmt_0d w v) = w"
  by (simp add: fmt_0d_fixed)

lemma fmt_2: "0 \<le> v \<Longrightarrow> v \<le> 99 \<Longrightarrow> length (fmt_0d 2 v) = 2"
  by (simp add: fmt_0d_length)

lemma fmt_4: "0 \<le> v \<Longrightarrow> v \<le> 9999 \<Longrightarrow> length (fmt_0d 4 v) = 4"
  by (simp add: fmt_0d_length)

lemma day_fault_None:
  "day_fault d = None \<longleftrightarrow> 1 \<le> day d \<and> day d \<le> days_in_month (year d) (month d)"
  by (auto simp: day_fault_def days_in_month_def is_leap_year_def Let_def)

lemma time_fault_None:
  "time_fault d = None \<longleftrightarrow> (PREC_HOUR \<le> precision d \<longrightarrow> 0 \<le> hour d \<and> hour d < 24) \<and>
     (PREC_MINUTE \<le> precision d \<longrightarrow> 0 \<le> minute d \<and> minute d < 60) \<and>
     (PREC_SECOND \<le> precision d \<longrightarrow> 0 \<le> second d \<and> second d < 60)"
  by (auto simp: time_fault_def)

lemma date_fault_None:
  "\<not> time_only d \<Longrightarrow> date_parts_fault d = None \<longleftrightarrow>
     1 \<le> month d \<and> month d \<le> 12 \<and> (PREC_DAY \<le> precision d \<longrightarrow> day_fault d = None) \<and> time_fault d = None"
  by (auto simp: date_parts_fault_def split: option.splits)

lemma time_only_fault_None:
  "time_only d \<Longrightarrow> date_parts_fault d = None \<longleftrightarrow> 0 \<le> hour d \<and> hour d < 24 \<and> time_fault d = None"
  by (auto simp: date_parts_fault_def)

lemma lens_fixed:
  "datetime_apply_lens d (precision d) = d \<longleftrightarrow>
     (precision d < PREC_SECOND \<longrightarrow> second d = 0) \<and> (precision d < PREC_MINUTE \<longrightarrow> minute d = 0) \<and>
     (precision d < PREC_HOUR \<longrightarrow> hour d = 0) \<and>
     (\<not> time_only d \<longrightarrow> (precision d < PREC_DAY \<longrightarrow> day d = 1) \<and> (precision d < PREC_MONTH \<longrightarrow> month d = 1))"
  by (cases d) (auto simp: datetime_apply_lens_def Let_def)

lemma canonical_fields:
  assumes "canonical_date d"
  shows "0 \<le> year d" "year d \<le> 9999" "1 \<le> month d" "month d \<le> 12" "1 \<le> day d" "day d \<le> 31"
    "0 \<le> hour d" "hour d \<le> 23" "0 \<le> minute d" "minute d \<le> 59" "0 \<le> second d" "second d \<le> 59"
proof -
  have *: "1 \<le> month d \<and> month d \<le> 12 \<and> (PREC_DAY \<le> precision d \<longrightarrow> day_fault d = None) \<and> time_fault d = None"
    "datetime_apply_lens d (precision d) = d" "\<not> time_only d" "0 \<le> year d" "year d \<le> 9999"
    using assms date_fault_None [of d] by (auto simp: canonical_date_def)
  then show "0 \<le> year d" "year d \<le> 9999" "1 \<le> month d" "month d \<le> 12" by auto
  show "1 \<le> day d" "day d \<le> 31" using * month_length_bounds [of "month d" "year d"]
    by (cases "PREC_DAY \<le> precision d"; auto simp: lens_fixed day_fault_None)+
  show "0 \<le> hour d" "hour d \<le> 23" using * by (cases "PREC_HOUR \<le> precision d"; auto simp: lens_fixed time_fault_None)+
  show "0 \<le> minute d" "minute d \<le> 59" using * by (cases "PREC_MINUTE \<le> precision d"; auto simp: lens_fixed time_fault_None)+
  show "0 \<le> second d" "second d \<le> 59" using * by (cases "PREC_SECOND \<le> precision d"; auto simp: lens_fixed time_fault_None)+
qed

lemma span_written:
  "length pre = s \<Longrightarrow> length mid = w \<Longrightarrow> span (pre @ mid @ post) s w = mid"
  by (simp add: span_def)

lemma written_at:
  assumes "tx = pre @ fmt_0d w v @ post" "length pre = s" "0 \<le> v" "v < 10 ^ w" "0 < w"
  shows "all_digits tx s w" "parse_int_span tx s w = v"
proof -
  have l: "length (fmt_0d w v) = w" using assms by (simp add: fmt_0d_length)
  then have "span tx s w = fmt_0d w v" using assms(1,2) by (simp add: span_written)
  then show "all_digits tx s w" "parse_int_span tx s w = v"
    using parse_written [of tx s w v] assms l by simp_all
qed

text \<open>The full text; every shorter one is a prefix of it.\<close>

lemma strict_reads_written:
  assumes c: "canonical_date d"
  shows "parse_date_value_strict (datetime_string d) = Inr d"
proof -
  note f = canonical_fields [OF c]
  let ?y = "fmt_0d 4 (year d)" and ?m = "fmt_0d 2 (month d)" and ?d = "fmt_0d 2 (day d)"
    and ?h = "fmt_0d 2 (hour d)" and ?mi = "fmt_0d 2 (minute d)" and ?s = "fmt_0d 2 (second d)"
  have l: "length ?y = 4" "length ?m = 2" "length ?d = 2" "length ?h = 2" "length ?mi = 2" "length ?s = 2"
    using f by (simp_all add: fmt_2 fmt_4)
  have y: "all_digits (?y @ r) 0 4" "parse_int_span (?y @ r) 0 4 = year d" for r
    using written_at [of _ "[]" 4 "year d" r 0] f by simp_all
  have m: "all_digits (?y @ a # ?m @ r) 5 2" "parse_int_span (?y @ a # ?m @ r) 5 2 = month d" for a r
    using written_at [of _ "?y @ [a]" 2 "month d" r 5] f l by simp_all
  have dd: "all_digits (?y @ a # ?m @ b # ?d @ r) 8 2" "parse_int_span (?y @ a # ?m @ b # ?d @ r) 8 2 = day d" for a b r
    using written_at [of _ "?y @ a # ?m @ [b]" 2 "day d" r 8] f l by simp_all
  have h: "all_digits (?y @ a # ?m @ b # ?d @ e # ?h @ r) 11 2"
    "parse_int_span (?y @ a # ?m @ b # ?d @ e # ?h @ r) 11 2 = hour d" for a b e r
    using written_at [of _ "?y @ a # ?m @ b # ?d @ [e]" 2 "hour d" r 11] f l by simp_all
  have mi: "all_digits (?y @ a # ?m @ b # ?d @ e # ?h @ g # ?mi @ r) 14 2"
    "parse_int_span (?y @ a # ?m @ b # ?d @ e # ?h @ g # ?mi @ r) 14 2 = minute d" for a b e g r
    using written_at [of _ "?y @ a # ?m @ b # ?d @ e # ?h @ [g]" 2 "minute d" r 14] f l by simp_all
  have s: "all_digits (?y @ a # ?m @ b # ?d @ e # ?h @ g # ?mi @ i # ?s) 17 2"
    "parse_int_span (?y @ a # ?m @ b # ?d @ e # ?h @ g # ?mi @ i # ?s) 17 2 = second d" for a b e g i
    using written_at [of _ "?y @ a # ?m @ b # ?d @ e # ?h @ g # ?mi @ [i]" 2 "second d" "[]" 17] f l by simp_all
  note r = y m dd h mi s y [of "[]", simplified] m [of _ "[]", simplified] dd dd [of _ _ "[]", simplified] h h [of _ _ _ "[]", simplified]
    mi mi [of _ _ _ _ "[]", simplified] s
  have fault: "date_parts_fault d = None" and t: "\<not> time_only d" and p: "1 \<le> precision d" "precision d \<le> 6"
    and lens: "datetime_apply_lens d (precision d) = d" using c by (auto simp: canonical_date_def)
  let ?full = "\<lambda>mo da ho mi se p. \<lparr>year = year d, month = mo, day = da, hour = ho, minute = mi, second = se, time_only = False, precision = p\<rparr>"
  have d: "d = ?full (month d) (day d) (hour d) (minute d) (second d) (precision d)" using t by (intro datetime.equality) simp_all
  note defs = datetime_string_def date_text_def parse_date_value_strict_def no_datetime_def Let_def l r nth_append t
  consider "precision d = 1" | "precision d = 2" | "precision d = 3" | "precision d = 4" | "precision d = 5" | "precision d = 6"
    using p by linarith
  then show ?thesis
  proof cases
    case 1
    then have "parse_date_value_strict (datetime_string d) = Inr (?full 1 1 0 0 0 1)" by (simp add: defs)
    moreover have "d = ?full 1 1 0 0 0 1" using 1 lens [unfolded lens_fixed] t by (intro datetime.equality) simp_all
    ultimately show ?thesis by simp
  next
    case 2
    then have "parse_date_value_strict (datetime_string d) = checked (?full (month d) 1 0 0 0 2)" by (simp add: defs)
    moreover have "d = ?full (month d) 1 0 0 0 2" using 2 lens [unfolded lens_fixed] t by (intro datetime.equality) simp_all
    ultimately show ?thesis using fault by (simp add: checked_def)
  next
    case 3
    then have "parse_date_value_strict (datetime_string d) = checked (?full (month d) (day d) 0 0 0 3)" by (simp add: defs)
    moreover have "d = ?full (month d) (day d) 0 0 0 3" using 3 lens [unfolded lens_fixed] t by (intro datetime.equality) simp_all
    ultimately show ?thesis using fault by (simp add: checked_def)
  next
    case 4
    then have "parse_date_value_strict (datetime_string d) = checked (?full (month d) (day d) (hour d) 0 0 4)" by (simp add: defs)
    moreover have "d = ?full (month d) (day d) (hour d) 0 0 4" using 4 lens [unfolded lens_fixed] t by (intro datetime.equality) simp_all
    ultimately show ?thesis using fault by (simp add: checked_def)
  next
    case 5
    then have "parse_date_value_strict (datetime_string d) = checked (?full (month d) (day d) (hour d) (minute d) 0 5)"
      by (simp add: defs)
    moreover have "d = ?full (month d) (day d) (hour d) (minute d) 0 5" using 5 lens [unfolded lens_fixed] t
      by (intro datetime.equality) simp_all
    ultimately show ?thesis using fault by (simp add: checked_def)
  next
    case 6
    then have "parse_date_value_strict (datetime_string d) =
        checked (?full (month d) (day d) (hour d) (minute d) (second d) 6)" by (simp add: defs)
    moreover have "d = ?full (month d) (day d) (hour d) (minute d) (second d) 6" using 6 t by (intro datetime.equality) simp_all
    ultimately show ?thesis using fault by (simp add: checked_def)
  qed
qed


lemma drop_span: "s + w \<le> length t \<Longrightarrow> drop s t = span t s w @ drop (s + w) t"
  by (simp add: span_def) (metis add.commute append_take_drop_id drop_drop)

lemma drop_char: "s < length t \<Longrightarrow> drop s t = t ! s # drop (Suc s) t"
  by (simp add: Cons_nth_drop_Suc)

lemma strict_reads_only_written:
  assumes "parse_date_value_strict t = Inr d"
  shows "canonical_date d \<and> datetime_string d = t"
proof -
  let ?full = "\<lambda>mo da ho mi se p. \<lparr>year = parse_int_span t 0 4, month = mo, day = da, hour = ho, minute = mi,
      second = se, time_only = False, precision = p\<rparr>"
  let ?y = "parse_int_span t 0 4" and ?m = "parse_int_span t 5 2" and ?d = "parse_int_span t 8 2"
    and ?h = "parse_int_span t 11 2" and ?mi = "parse_int_span t 14 2" and ?s = "parse_int_span t 17 2"
  have y: "all_digits t 0 4" "4 \<le> length t"
    using assms by (auto simp: parse_date_value_strict_def Let_def split: if_splits)
  note wy = written_parse [of t 0 4, OF y(1), simplified, OF y(2)]
  have t4: "t = fmt_0d 4 ?y @ drop 4 t" using drop_span [of 0 4 t] y wy by simp
  have month: "drop 4 t = t ! 4 # fmt_0d 2 ?m @ drop 7 t" if "7 \<le> length t" "all_digits t 5 2"
    using that drop_char [of 4 t] drop_span [of 5 2 t] written_parse(1) [of t 5 2] by simp
  have day: "drop 7 t = t ! 7 # fmt_0d 2 ?d @ drop 10 t" if "10 \<le> length t" "all_digits t 8 2"
    using that drop_char [of 7 t] drop_span [of 8 2 t] written_parse(1) [of t 8 2] by simp
  have hour: "drop 10 t = t ! 10 # fmt_0d 2 ?h @ drop 13 t" if "13 \<le> length t" "all_digits t 11 2"
    using that drop_char [of 10 t] drop_span [of 11 2 t] written_parse(1) [of t 11 2] by simp
  have minute: "drop 13 t = t ! 13 # fmt_0d 2 ?mi @ drop 16 t" if "16 \<le> length t" "all_digits t 14 2"
    using that drop_char [of 13 t] drop_span [of 14 2 t] written_parse(1) [of t 14 2] by simp
  have second: "drop 16 t = t ! 16 # fmt_0d 2 ?s @ drop 19 t" if "19 \<le> length t" "all_digits t 17 2"
    using that drop_char [of 16 t] drop_span [of 17 2 t] written_parse(1) [of t 17 2] by simp
  note defs = canonical_date_def datetime_apply_lens_def Let_def datetime_string_def date_text_def
  consider
      "length t = 4" "d = ?full 1 1 0 0 0 1"
    | "length t = 7" "d = ?full ?m 1 0 0 0 2" "date_parts_fault d = None" "t ! 4 = CHR ''-''" "all_digits t 5 2"
    | "length t = 10" "d = ?full ?m ?d 0 0 0 3" "date_parts_fault d = None" "t ! 4 = CHR ''-''" "all_digits t 5 2"
      "t ! 7 = CHR ''-''" "all_digits t 8 2"
    | "length t = 13" "d = ?full ?m ?d ?h 0 0 4" "date_parts_fault d = None" "t ! 4 = CHR ''-''" "all_digits t 5 2"
      "t ! 7 = CHR ''-''" "all_digits t 8 2" "t ! 10 = CHR '' ''" "all_digits t 11 2"
    | "length t = 16" "d = ?full ?m ?d ?h ?mi 0 5" "date_parts_fault d = None" "t ! 4 = CHR ''-''" "all_digits t 5 2"
      "t ! 7 = CHR ''-''" "all_digits t 8 2" "t ! 10 = CHR '' ''" "all_digits t 11 2" "t ! 13 = CHR '':''" "all_digits t 14 2"
    | "length t = 19" "d = ?full ?m ?d ?h ?mi ?s 6" "date_parts_fault d = None" "t ! 4 = CHR ''-''" "all_digits t 5 2"
      "t ! 7 = CHR ''-''" "all_digits t 8 2" "t ! 10 = CHR '' ''" "all_digits t 11 2" "t ! 13 = CHR '':''" "all_digits t 14 2"
      "t ! 16 = CHR '':''" "all_digits t 17 2"
    using assms y by (auto simp: parse_date_value_strict_def no_datetime_def checked_def Let_def split: if_splits option.splits)
  then show ?thesis
  proof cases
    case 1
    have "date_parts_fault d = None" by (simp add: 1(2) date_fault_None time_fault_None)
    moreover have "t = fmt_0d 4 ?y" using t4 1(1) by simp
    ultimately show ?thesis using 1(2) wy by (simp add: defs)
  next
    case 2
    then have "t = fmt_0d 4 ?y @ ''-'' @ fmt_0d 2 ?m" using t4 month by simp
    then show ?thesis using 2(2,3) wy by (simp add: defs)
  next
    case 3
    then have "t = fmt_0d 4 ?y @ ''-'' @ fmt_0d 2 ?m @ ''-'' @ fmt_0d 2 ?d" using t4 month day by simp
    then show ?thesis using 3(2,3) wy by (simp add: defs)
  next
    case 4
    then have "t = fmt_0d 4 ?y @ ''-'' @ fmt_0d 2 ?m @ ''-'' @ fmt_0d 2 ?d @ '' '' @ fmt_0d 2 ?h"
      using t4 month day hour by simp
    then show ?thesis using 4(2,3) wy by (simp add: defs)
  next
    case 5
    then have "t = fmt_0d 4 ?y @ ''-'' @ fmt_0d 2 ?m @ ''-'' @ fmt_0d 2 ?d @ '' '' @ fmt_0d 2 ?h @ '':'' @ fmt_0d 2 ?mi"
      using t4 month day hour minute by simp
    then show ?thesis using 5(2,3) wy by (simp add: defs)
  next
    case 6
    then have "t = fmt_0d 4 ?y @ ''-'' @ fmt_0d 2 ?m @ ''-'' @ fmt_0d 2 ?d @ '' '' @ fmt_0d 2 ?h @ '':'' @ fmt_0d 2 ?mi
        @ '':'' @ fmt_0d 2 ?s"
      using t4 month day hour minute second by simp
    then show ?thesis using 6(2,3) wy by (simp add: defs)
  qed
qed


lemma strict_iff: "parse_date_value_strict t = Inr d \<longleftrightarrow> canonical_date d \<and> datetime_string d = t"
  using strict_reads_written strict_reads_only_written by blast

section \<open>Zone suffixes\<close>

lemma zone_scan_none:
  "(\<And>i. 11 \<le> i \<Longrightarrow> i < n \<Longrightarrow> buf ! i \<noteq> CHR ''+'' \<and> buf ! i \<noteq> CHR ''-'') \<Longrightarrow> zone_scan buf n = Some (buf, 0)"
  by (induction n) auto

lemma zone_scan_at:
  "(\<And>i. k < i \<Longrightarrow> i < n \<Longrightarrow> buf ! i \<noteq> CHR ''+'' \<and> buf ! i \<noteq> CHR ''-'') \<Longrightarrow>
   11 \<le> k \<Longrightarrow> k < n \<Longrightarrow> zone_scan buf n = zone_scan buf (Suc k)"
proof (induction n)
  case (Suc n)
  then show ?case by (cases "k = n") (auto simp del: zone_scan.simps(2) simp: zone_scan.simps(2) [of buf n])
qed simp

text \<open>From position 11 on an ISO text has digits and colons only.\<close>

definition clock_char :: "char \<Rightarrow> bool" where
  "clock_char c \<longleftrightarrow> isdigit c \<or> c = CHR '':''"

lemma clock_char_other:
  "clock_char c \<Longrightarrow> c \<noteq> CHR ''+'' \<and> c \<noteq> CHR ''-'' \<and> c \<noteq> CHR ''Z'' \<and> c \<noteq> CHR ''z''"
  by (auto simp: clock_char_def isdigit_def Let_def)

lemma fmt_clock: "0 \<le> v \<Longrightarrow> v < 10 ^ w \<Longrightarrow> 0 < w \<Longrightarrow> list_all clock_char (fmt_0d w v)"
  using fixed_digits_digits [of w "nat v"] by (simp add: fmt_0d_fixed list_all_iff clock_char_def)

lemma fmt_clock_2: "0 \<le> v \<Longrightarrow> v \<le> 99 \<Longrightarrow> list_all clock_char (fmt_0d 2 v)"
  by (rule fmt_clock) simp_all

lemma canonical_text:
  assumes "canonical_date d" "PREC_HOUR \<le> precision d"
  obtains clock where "datetime_string d = date_text d @ '' '' @ clock" "length (date_text d) = 10"
    "list_all clock_char clock" "2 \<le> length clock" "length clock \<le> 8" "clock \<noteq> []"
proof -
  note f = canonical_fields [OF assms(1)]
  have colon: "clock_char CHR '':''" by (simp add: clock_char_def)
  have "length (date_text d) = 10" using f by (simp add: date_text_def fmt_2 fmt_4)
  moreover have "fmt_0d 2 (hour d) \<noteq> []" using fmt_2 [of "hour d"] f by auto
  moreover have "precision d = 4 \<or> precision d = 5 \<or> precision d = 6" and "\<not> time_only d"
    using assms by (auto simp: canonical_date_def)
  ultimately show ?thesis
    using f colon that [of "fmt_0d 2 (hour d)"] that [of "fmt_0d 2 (hour d) @ '':'' @ fmt_0d 2 (minute d)"]
      that [of "fmt_0d 2 (hour d) @ '':'' @ fmt_0d 2 (minute d) @ '':'' @ fmt_0d 2 (second d)"]
    by (elim disjE) (simp_all add: datetime_string_def fmt_clock_2 fmt_2)
qed

lemma canonical_day_text:
  "canonical_date d \<Longrightarrow> precision d < PREC_HOUR \<Longrightarrow> 0 < length (datetime_string d) \<and> length (datetime_string d) \<le> 10"
proof -
  assume c: "canonical_date d" and p: "precision d < PREC_HOUR"
  note f = canonical_fields [OF c]
  have "length (fmt_0d 4 (year d)) = 4" "length (fmt_0d 2 (month d)) = 2" "length (fmt_0d 2 (day d)) = 2"
    using f by (simp_all add: fmt_2 fmt_4)
  moreover have "precision d = 1 \<or> precision d = 2 \<or> precision d = 3" and "\<not> time_only d"
    using c p by (auto simp: canonical_date_def)
  ultimately show ?thesis by (elim disjE) (simp_all add: datetime_string_def date_text_def)
qed

lemma strip_scan:
  assumes "11 < length t" "length t < 64" "t ! 10 = CHR '' ''" "t ! (length t - 1) \<noteq> CHR ''Z''" "t ! (length t - 1) \<noteq> CHR ''z''"
  shows "datetime_strip_zone t = zone_scan t (length t)"
proof -
  have "t[10 := CHR '' ''] = t" using assms(3) by (metis list_update_id)
  with assms show ?thesis by (auto simp: datetime_strip_zone_def Let_def)
qed

lemma strip_none:
  assumes "canonical_date d"
  shows "datetime_strip_zone (datetime_string d) = Some (datetime_string d, 0)"
proof (cases "PREC_HOUR \<le> precision d")
  case True
  from canonical_text [OF assms True] obtain clock where t: "datetime_string d = date_text d @ '' '' @ clock"
    "length (date_text d) = 10" "list_all clock_char clock" "2 \<le> length clock" "length clock \<le> 8" "clock \<noteq> []" .
  have c: "clock_char (datetime_string d ! i)" if "11 \<le> i" "i < length (datetime_string d)" for i
    using that t by (auto simp: nth_append list_all_length nth_Cons')
  have l: "11 < length (datetime_string d)" "length (datetime_string d) < 64" using t by simp_all
  have "datetime_strip_zone (datetime_string d) = zone_scan (datetime_string d) (length (datetime_string d))"
    using l t clock_char_other [OF c [of "length (datetime_string d) - 1"]] by (intro strip_scan) (simp_all add: nth_append)
  also have "\<dots> = Some (datetime_string d, 0)"
    by (rule zone_scan_none) (blast dest: clock_char_other [OF c])
  finally show ?thesis .
next
  case False
  with canonical_day_text [OF assms] show ?thesis by (simp add: datetime_strip_zone_def Let_def)
qed

lemma strip_z:
  assumes "canonical_date d" "PREC_HOUR \<le> precision d"
  shows "datetime_strip_zone (datetime_string d @ ''Z'') = Some (datetime_string d, 0)"
proof -
  from canonical_text [OF assms] obtain clock where t: "datetime_string d = date_text d @ '' '' @ clock"
    "length (date_text d) = 10" "list_all clock_char clock" "2 \<le> length clock" "length clock \<le> 8" "clock \<noteq> []" .
  let ?t = "datetime_string d @ ''Z''"
  have "?t ! 10 = CHR '' ''" using t by (simp add: nth_append)
  moreover have "?t[10 := CHR '' ''] = ?t" using calculation by (metis list_update_id)
  moreover have "length ?t = 12 + length clock" "0 < length clock" "length clock \<le> 8" using t by simp_all
  ultimately show ?thesis using t(1,2) by (simp add: datetime_strip_zone_def Let_def nth_append)
qed

lemma zone_scan_sign:
  "11 \<le> length pre \<Longrightarrow> c = CHR ''+'' \<or> c = CHR ''-'' \<Longrightarrow> zone_suffix suffix = (hh, mm) \<Longrightarrow>
   0 \<le> hh \<Longrightarrow> hh \<le> 23 \<Longrightarrow> mm \<le> 59 \<Longrightarrow>
   zone_scan (pre @ c # suffix) (Suc (length pre)) = Some (pre, (hh * 3600 + mm * 60) * (if c = CHR ''-'' then -1 else 1))"
  by (auto simp: nth_append)

lemma strip_offset:
  assumes "canonical_date d" "PREC_HOUR \<le> precision d" "0 \<le> hh" "hh \<le> 23" "0 \<le> mm" "mm \<le> 59"
    "c = CHR ''+'' \<or> c = CHR ''-''"
  shows "datetime_strip_zone (datetime_string d @ c # fmt_0d 2 hh @ '':'' @ fmt_0d 2 mm) =
    Some (datetime_string d, (hh * 3600 + mm * 60) * (if c = CHR ''-'' then -1 else 1))"
proof -
  from canonical_text [OF assms(1,2)] obtain clock where t: "datetime_string d = date_text d @ '' '' @ clock"
    "length (date_text d) = 10" "list_all clock_char clock" "2 \<le> length clock" "length clock \<le> 8" "clock \<noteq> []" .
  let ?suffix = "fmt_0d 2 hh @ '':'' @ fmt_0d 2 mm" and ?n = "length (datetime_string d)"
  let ?t = "datetime_string d @ c # ?suffix"
  have l: "length (fmt_0d 2 hh) = 2" "length (fmt_0d 2 mm) = 2" using assms by (simp_all add: fmt_2)
  have suffix: "list_all clock_char ?suffix"
    using fmt_clock_2 [of hh] fmt_clock_2 [of mm] assms by (simp add: clock_char_def)
  have later: "clock_char (?t ! i)" if i: "?n < i" "i < length ?t" for i
  proof -
    obtain j where "i = Suc (?n + j)" using less_imp_Suc_add [OF i(1)] by blast
    with i(2) suffix show ?thesis by (simp add: nth_append list_all_length)
  qed
  have "zone_scan ?t (length ?t) = zone_scan ?t (Suc ?n)"
  proof (rule zone_scan_at)
    show "?t ! i \<noteq> CHR ''+'' \<and> ?t ! i \<noteq> CHR ''-''" if "?n < i" "i < length ?t" for i
      using clock_char_other [OF later [OF that]] by blast
  qed (use t in simp_all)
  moreover have "zone_suffix ?suffix = (hh, mm)"
    using l written_at [of ?suffix "[]" 2 hh "'':'' @ fmt_0d 2 mm" 0] written_at [of ?suffix "fmt_0d 2 hh @ '':''" 2 mm "[]" 3] assms
    by (simp add: zone_suffix_def nth_append)
  ultimately have "zone_scan ?t (length ?t) = Some (datetime_string d, (hh * 3600 + mm * 60) * (if c = CHR ''-'' then -1 else 1))"
    using zone_scan_sign [of "datetime_string d" c ?suffix hh mm] t(1,2) assms by simp
  moreover have "?t ! (length ?t - 1) \<noteq> CHR ''Z'' \<and> ?t ! (length ?t - 1) \<noteq> CHR ''z''"
    by (rule clock_char_other [OF later, THEN conjunct2, THEN conjunct2]) (use l in simp_all)
  moreover have "?t ! 10 = CHR '' ''" "11 < length ?t" "length ?t < 64" using t l by (simp_all add: nth_append)
  ultimately show ?thesis using strip_scan [of ?t] by simp
qed


section \<open>Arithmetic\<close>

lemma year_bounds:
  assumes "civil_date y m d" "- (365 * 2 ^ 30) \<le> day_count y m d" "day_count y m d \<le> 365 * 2 ^ 30"
  shows "- (2 ^ 31) \<le> y - 1900 \<and> y - 1900 < 2 ^ 31"
proof -
  have b: "1 \<le> days_before_month y m + d" "days_before_month y m + d \<le> 366"
    using day_of_year_bounds [OF assms(1)] by (auto split: if_splits simp: of_bool_def)
  have dc: "day_count y m d = year_start y + (days_before_month y m + d) - 719528"
    using assms(1) by (simp add: civil_date_def day_count_in_year)
  have s: "year_start 1970 = 719527" by (simp add: year_start_def)
  show ?thesis
  proof (cases "y \<le> 1970")
    case True
    from year_start_linear [OF True] True b dc s assms(2) show ?thesis by simp
  next
    case False
    then have "1970 \<le> y" by simp
    from year_start_linear [OF this] this b dc s assms(3) show ?thesis by simp
  qed
qed

lemma zone_civil_any:
  assumes "- (365 * 2 ^ 30) \<le> e div 86400" "e div 86400 \<le> 365 * 2 ^ 30"
  shows "civil (zone_civil_from_epoch_utc e p)" "instant (zone_civil_from_epoch_utc e p) = e"
    "\<not> time_only (zone_civil_from_epoch_utc e p)"
    "precision (zone_civil_from_epoch_utc e p) = (if p < PREC_HOUR then PREC_SECOND else p)"
proof -
  obtain y m d where c: "civil_date y m d" and q: "day_count y m d = e div 86400"
    using civil_from_days_spec [of "e div 86400"] by metis
  define s where "s = e mod 86400"
  let ?n = "\<lparr>year = y, month = m, day = d, hour = s div 3600, minute = s mod 3600 div 60, second = s mod 60, time_only = False, precision = 6\<rparr>"
  have s: "0 \<le> s" "s < 86400" "e = e div 86400 * 86400 + s" by (simp_all add: s_def)
  have "s mod 3600 mod 60 = s mod 60" by (rule mod_mod_cancel) simp
  then have h: "s = s div 3600 * 3600 + s mod 3600 div 60 * 60 + s mod 60"
    using div_mult_mod_eq [of s 3600] div_mult_mod_eq [of "s mod 3600" 60] by linarith
  have "s mod 3600 < 3600" by simp
  then have "s mod 3600 div 60 < 60" by linarith
  moreover have "s div 3600 < 24" using s(2) by linarith
  moreover have "0 \<le> s div 3600" "0 \<le> s mod 3600 div 60" using s(1) by (simp_all add: pos_imp_zdiv_nonneg_iff)
  ultimately have n: "civil ?n" "instant ?n = e"
    using c s(3) h by (simp_all add: civil_def instant_def q)
  have y: "- (2 ^ 31) \<le> year ?n - 1900" "year ?n - 1900 < 2 ^ 31"
    using year_bounds [OF c] assms unfolding q by simp_all
  show "civil (zone_civil_from_epoch_utc e p)" "instant (zone_civil_from_epoch_utc e p) = e"
    "\<not> time_only (zone_civil_from_epoch_utc e p)"
    "precision (zone_civil_from_epoch_utc e p) = (if p < PREC_HOUR then PREC_SECOND else p)"
    using zone_civil_instant [OF n(1) y, of p] n by (simp_all add: civil_def instant_def)
qed


lemma sdiv_smod_floor:
  fixes t :: int
  assumes "0 < k"
  shows "(if t smod k < 0 then (t sdiv k - 1, t smod k + k) else (t sdiv k, t smod k)) = (t div k, t mod k)"
proof (cases "0 \<le> t \<or> k dvd t")
  case True
  have "t smod k = t mod k \<and> t sdiv k = t div k"
  proof (cases "0 \<le> t")
    case False
    then show ?thesis
      using True signed_divide_int_eq_divide_int [of t k] signed_modulo_int_eq_modulo_int [of t k] by simp
  qed (simp add: assms sdiv_nonneg smod_nonneg)
  then show ?thesis using assms by (simp add: not_less)
next
  case False
  then have "t smod k = t mod k - k \<and> t sdiv k = t div k + 1"
    using assms signed_divide_int_eq_divide_int [of t k] signed_modulo_int_eq_modulo_int [of t k] by (auto simp: sgn_if)
  moreover have "t mod k < k" using assms by simp
  ultimately show ?thesis by simp
qed

lemma int_cast_div:
  assumes "- (12 * 2 ^ 31) \<le> t" "t < 12 * 2 ^ 31"
  shows "int_cast (t div 12) = t div 12" "int_cast (t mod 12) = t mod 12"
proof -
  obtain q r where t: "q = t div 12" "r = t mod 12" by blast
  then have "t = 12 * q + r" "0 \<le> r" "r < 12" by simp_all
  then have "- (2 ^ 31) \<le> q \<and> q < 2 ^ 31" using assms by simp
  then have "- (2 ^ 31) \<le> t div 12 \<and> t div 12 < 2 ^ 31" by (simp only: t)
  then show "int_cast (t div 12) = t div 12" "int_cast (t mod 12) = t mod 12"
    by (simp_all add: int_cast_id)
qed

lemma add_months_spec:
  assumes "- (12 * 2 ^ 31) \<le> year dt * 12 + (month dt - 1) + dm" "year dt * 12 + (month dt - 1) + dm < 12 * 2 ^ 31"
  shows "let a = add_months dt (month dt - 1) dm in in_int (year a) \<and> 1 \<le> month a \<and> month a \<le> 12 \<and>
     year a * 12 + month a = year dt * 12 + month dt + dm \<and>
     day a = min (day dt) (days_in_month (year a) (month a)) \<and> hour a = hour dt \<and> minute a = minute dt \<and>
     second a = second dt \<and> time_only a = time_only dt \<and> precision a = precision dt"
proof -
  define t where "t = year dt * 12 + (month dt - 1) + dm"
  have f: "(let y = t sdiv 12; m = t smod 12 in if m < 0 then (y - 1, m + 12) else (y, m)) = (t div 12, t mod 12)"
    using sdiv_smod_floor [of 12 t] by (simp add: Let_def)
  note c = int_cast_div [of t, unfolded t_def, OF assms, folded t_def]
  have a: "add_months dt (month dt - 1) dm =
      (let dt = dt\<lparr>year := t div 12, month := t mod 12 + 1\<rparr>; dim = days_in_month (t div 12) (t mod 12 + 1)
       in if dim < day dt then dt\<lparr>day := dim\<rparr> else dt)"
    using f by (simp add: add_months_def c Let_def flip: t_def split: prod.splits)
  have "0 \<le> t mod 12" "t mod 12 < 12" "t div 12 * 12 + t mod 12 = t" by simp_all
  moreover have "in_int (t div 12)" using c(1) assms unfolding in_int_def t_def by linarith
  ultimately show ?thesis by (simp add: a Let_def t_def min_def)
qed

lemma civil_clamped:
  assumes "civil dt" "1 \<le> month a" "month a \<le> 12" "day a = min (day dt) (days_in_month (year a) (month a))"
    "hour a = hour dt" "minute a = minute dt" "second a = second dt"
  shows "civil a"
  using assms month_length_bounds [of "month a" "year a"] by (auto simp: civil_def civil_date_def)

text \<open>
  The date-time whose months a duration has moved, the day clamped; that the sums made from it are C
  integers; and the date-time these sums make, which is then normalised.
\<close>

definition months_moved :: "datetime \<Rightarrow> duration \<Rightarrow> int \<Rightarrow> datetime" where
  "months_moved dt d sign =
     (let dm = sign * fst (duration_totals d) in if dm = 0 then dt else add_months dt (month dt - 1) dm)"

definition shifted :: "datetime \<Rightarrow> duration \<Rightarrow> int \<Rightarrow> datetime" where
  "shifted a d sign =
     a\<lparr>day := day a + sign * (d_weeks d * 7 + d_days d), hour := hour a + sign * d_hours d,
       minute := minute a + sign * d_minutes d, second := second a + sign * d_seconds d\<rparr>"

definition sums_fit :: "datetime \<Rightarrow> duration \<Rightarrow> int \<Rightarrow> bool" where
  "sums_fit a d sign \<longleftrightarrow>
     in_int (d_weeks d * 7) \<and> in_int (d_weeks d * 7 + d_days d) \<and> in_int (sign * (d_weeks d * 7 + d_days d)) \<and>
     in_int (sign * d_hours d) \<and> in_int (sign * d_minutes d) \<and> in_int (sign * d_seconds d) \<and>
     int_fields (shifted a d sign) \<and> carries_fit (shifted a d sign)"

lemma shifted_instant: "instant (shifted a d sign) = instant a + sign * snd (duration_totals d)"
  by (simp add: instant_def shifted_def day_count_day duration_totals_def algebra_simps)

lemma add_duration_runs:
  assumes "in_int (month dt - 1)" "in_int (year (months_moved dt d sign))" "in_int (month (months_moved dt d sign))"
  shows "case add_duration_to_datetime dt d sign of
      None \<Rightarrow> \<not> sums_fit (months_moved dt d sign) d sign
    | Some r \<Rightarrow> sums_fit (months_moved dt d sign) d sign \<and> civil r \<and> int_fields r \<and>
        instant r = instant (months_moved dt d sign) + sign * snd (duration_totals d) \<and>
        time_only r = time_only (months_moved dt d sign) \<and>
        precision r = (if precision (months_moved dt d sign) < PREC_SECOND \<and> (d_hours d \<noteq> 0 \<or> d_minutes d \<noteq> 0 \<or> d_seconds d \<noteq> 0)
                       then PREC_SECOND else precision (months_moved dt d sign))"
proof -
  define a where "a = months_moved dt d sign"
  define fits where "fits \<longleftrightarrow> in_int (d_weeks d * 7) \<and> in_int (d_weeks d * 7 + d_days d) \<and> in_int (sign * (d_weeks d * 7 + d_days d)) \<and>
     in_int (sign * d_hours d) \<and> in_int (sign * d_minutes d) \<and> in_int (sign * d_seconds d) \<and> int_fields (shifted a d sign)"
  define finish where "finish r = (if precision r < PREC_SECOND \<and> (d_hours d \<noteq> 0 \<or> d_minutes d \<noteq> 0 \<or> d_seconds d \<noteq> 0)
      then r\<lparr>precision := PREC_SECOND\<rparr> else r)" for r :: datetime
  have months: "(if sign * (d_years d * 12 + d_months d) \<noteq> 0 then Option.bind (c_int (month dt - 1)) (\<lambda>m0. Some (add_months dt m0 (sign * (d_years d * 12 + d_months d))))
      else Some dt) = Some a"
    using assms(1) by (simp add: c_int_bind a_def months_moved_def duration_totals_def)
  have run: "add_duration_to_datetime dt d sign = (if fits then map_option finish (normalize_datetime (shifted a d sign)) else None)"
    using assms(2,3) unfolding add_duration_to_datetime_def Let_def months
    by (auto simp: c_int_bind fits_def int_fields_def shifted_def finish_def map_option_case Option.bind_eq_None_conv
        simp flip: a_def split: option.splits)
  have fit: "sums_fit a d sign \<longleftrightarrow> fits \<and> carries_fit (shifted a d sign)"
    by (auto simp: sums_fit_def fits_def)
  have fin: "instant (finish r) = instant r" "civil (finish r) = civil r" "int_fields (finish r) = int_fields r"
    "time_only (finish r) = time_only r" "precision (finish r) = (if precision r < PREC_SECOND \<and> (d_hours d \<noteq> 0 \<or> d_minutes d \<noteq> 0 \<or> d_seconds d \<noteq> 0) then PREC_SECOND else precision r)" for r
    by (simp_all add: finish_def instant_def civil_def int_fields_def)
  have keep: "time_only (shifted a d sign) = time_only a" "precision (shifted a d sign) = precision a" by (simp_all add: shifted_def)
  show ?thesis
  proof (cases fits)
    case False
    then show ?thesis by (simp add: run fit flip: a_def)
  next
    case True
    then have "int_fields (shifted a d sign)" by (simp add: fits_def)
    from normalize_runs [OF this] True show ?thesis unfolding a_def [symmetric]
      by (cases "normalize_datetime (shifted a d sign)") (simp_all add: run fit fin keep shifted_instant)
  qed
qed

text \<open>Durations of ordinary size can be added to ordinary dates.\<close>

lemma ordinary_sums_fit:
  assumes "civil a" "\<bar>year a\<bar> \<le> 10 ^ 9" "sign = 1 \<or> sign = - 1" "\<bar>d_weeks d\<bar> \<le> 10 ^ 8" "\<bar>d_days d\<bar> \<le> 10 ^ 8"
    "\<bar>d_hours d\<bar> \<le> 9 * 10 ^ 8" "\<bar>d_minutes d\<bar> \<le> 9 * 10 ^ 8" "\<bar>d_seconds d\<bar> \<le> 9 * 10 ^ 8"
  shows "sums_fit a d sign"
proof -
  have a: "1 \<le> month a" "month a \<le> 12" "1 \<le> day a" "day a \<le> 31" "0 \<le> hour a" "hour a < 24" "0 \<le> minute a" "minute a < 60"
    "0 \<le> second a" "second a < 60"
    using assms(1) month_length_bounds [of "month a" "year a"] by (auto simp: civil_def civil_date_def)
  note bounds = assms(2,4-8) [unfolded abs_le_iff]
  have "int_fields (shifted a d sign) \<and> carries_fit (shifted a d sign)"
    using a bounds assms(3) unfolding shifted_def
    by (intro ordinary_fields_fit; elim disjE; simp add: abs_le_iff)
  then show ?thesis using bounds assms(3) by (auto simp: sums_fit_def in_int_def)
qed

lemma small_duration:
  assumes "\<bar>s\<bar> \<le> 86400 * 10 ^ 8"
  shows "d_weeks (duration_from_totals 0 s) = 0" "\<bar>d_days (duration_from_totals 0 s)\<bar> \<le> 10 ^ 8"
    "\<bar>d_hours (duration_from_totals 0 s)\<bar> \<le> 9 * 10 ^ 8" "\<bar>d_minutes (duration_from_totals 0 s)\<bar> \<le> 9 * 10 ^ 8"
    "\<bar>d_seconds (duration_from_totals 0 s)\<bar> \<le> 9 * 10 ^ 8"
proof -
  have q: "\<bar>t sdiv k\<bar> \<le> \<bar>t\<bar> div k" "\<bar>t smod k\<bar> < k" if "0 < k" for t k :: int
    using that by (auto simp: signed_divide_int_def signed_modulo_int_def abs_mult sgn_if pos_imp_zdiv_nonneg_iff)
  have cast: "\<bar>int_cast x\<bar> \<le> 900000000" if "\<bar>x\<bar> \<le> 3600" for x
    using that int_cast_id [of x] by (simp add: abs_le_iff)
  have 1: "\<bar>s sdiv 86400\<bar> \<le> 10 ^ 8" using q(1) [of 86400 s] assms by linarith
  have 2: "\<bar>s smod 86400\<bar> < 86400" by (rule q(2)) simp
  have 3: "\<bar>s smod 86400 sdiv 3600\<bar> \<le> 24" using q(1) [of 3600 "s smod 86400"] 2 by linarith
  have 4: "\<bar>s smod 86400 smod 3600\<bar> < 3600" by (rule q(2)) simp
  have 5: "\<bar>s smod 86400 smod 3600 sdiv 60\<bar> \<le> 60" using q(1) [of 60 "s smod 86400 smod 3600"] 4 by linarith
  have 6: "\<bar>s smod 86400 smod 3600 smod 60\<bar> < 60" by (rule q(2)) simp
  show "d_weeks (duration_from_totals 0 s) = 0" by (simp add: duration_from_totals_def Let_def)
  show "\<bar>d_days (duration_from_totals 0 s)\<bar> \<le> 10 ^ 8"
    using 1 int_cast_id [of "s sdiv 86400"] by (simp add: duration_from_totals_def Let_def abs_le_iff)
  show "\<bar>d_hours (duration_from_totals 0 s)\<bar> \<le> 9 * 10 ^ 8" "\<bar>d_minutes (duration_from_totals 0 s)\<bar> \<le> 9 * 10 ^ 8"
    "\<bar>d_seconds (duration_from_totals 0 s)\<bar> \<le> 9 * 10 ^ 8"
    using 3 5 6 by (simp_all add: duration_from_totals_def Let_def cast)
qed

lemma duration_totals_from:
  assumes "\<bar>m\<bar> < 12 * 2 ^ 31" "\<bar>s\<bar> < 86400 * 2 ^ 31"
  shows "duration_totals (duration_from_totals m s) = (m, s)"
proof -
  have range: "- (2 ^ 31) \<le> t sdiv k \<and> t sdiv k < 2 ^ 31" "- k < t smod k \<and> t smod k < k" if tk: "\<bar>t\<bar> < k * 2 ^ 31" "0 < k" for t k :: int
  proof -
    have "k * (\<bar>t\<bar> div k) < k * 2 ^ 31"
      using tk mult_div_mod_eq [of k "\<bar>t\<bar>"] pos_mod_sign [of k "\<bar>t\<bar>"] by linarith
    then have "\<bar>t\<bar> div k < 2 ^ 31" using tk(2) by (simp only: mult_less_cancel_left_pos)
    moreover have "0 \<le> \<bar>t\<bar> div k" using tk by (simp add: pos_imp_zdiv_nonneg_iff)
    ultimately show "- (2 ^ 31) \<le> t sdiv k \<and> t sdiv k < 2 ^ 31"
      using tk(2) by (auto simp: signed_divide_int_def sgn_if)
    show "- k < t smod k \<and> t smod k < k"
    proof -
      obtain r where r: "r = \<bar>t\<bar> mod \<bar>k\<bar>" "0 \<le> r" "r < k" using tk(2) by simp
      have "t smod k = r \<or> t smod k = - r \<or> t smod k = 0" unfolding signed_modulo_int_def r(1) [symmetric] by (simp add: sgn_if)
      then show ?thesis using r(2,3) tk(2) by linarith
    qed
  qed
  let ?r = "s smod 86400" and ?q = "s smod 86400 smod 3600"
  have r: "- 86400 < ?r" "?r < 86400" using range(2) [of s 86400] assms(2) by auto
  have q: "- 3600 < ?q" "?q < 3600" using range(2) [of ?r 3600] r by auto
  have abs: "\<bar>?r\<bar> < 3600 * 2 ^ 31" "\<bar>?q\<bar> < 60 * 2 ^ 31" using r q by (auto simp: abs_less_iff)
  have c: "int_cast (m sdiv 12) = m sdiv 12" "int_cast (m smod 12) = m smod 12" "int_cast (s sdiv 86400) = s sdiv 86400"
    "int_cast (?r sdiv 3600) = ?r sdiv 3600" "int_cast (?q sdiv 60) = ?q sdiv 60" "int_cast (?q smod 60) = ?q smod 60"
    using range [of m 12] range(1) [of s 86400] range(1) [OF abs(1)] range [OF abs(2)] assms
    by (auto intro!: int_cast_id)
  have "m sdiv 12 * 12 + m smod 12 = m" "s sdiv 86400 * 86400 + ?r = s" "?r sdiv 3600 * 3600 + ?q = ?r"
    "?q sdiv 60 * 60 + ?q smod 60 = ?q" by (rule sdiv_mult_smod_eq)+
  then show ?thesis
    unfolding duration_totals_def duration_from_totals_def Let_def by (simp add: c)
qed

lemma year_start_mono_le: "y \<le> y' \<Longrightarrow> year_start y \<le> year_start y'"
  using year_start_linear [of y y'] by simp

lemma canonical_day_count:
  assumes "civil_date y m d" "0 \<le> y" "y \<le> 9999"
  shows "- 719528 \<le> day_count y m d" "day_count y m d \<le> 2932896"
proof -
  have b: "1 \<le> days_before_month y m + d" "days_before_month y m + d \<le> 365 + of_bool (is_leap_year y)"
    using day_of_year_bounds [OF assms(1)] by auto
  have dc: "day_count y m d = year_start y + (days_before_month y m + d) - 719528"
    using assms(1) by (simp add: civil_date_def day_count_in_year)
  have "year_start 0 \<le> year_start y" "year_start (y + 1) \<le> year_start 10000"
    using assms(2,3) by (auto intro: year_start_mono_le)
  moreover have "year_start 0 = -1" "year_start 10000 = 3652424" by (simp_all add: year_start_def)
  ultimately show "- 719528 \<le> day_count y m d" "day_count y m d \<le> 2932896"
    using b dc year_start_next [of y] by linarith+
qed

lemma canonical_civil:
  assumes "canonical_date d"
  shows "civil d"
proof -
  have "day d \<le> days_in_month (year d) (month d)"
    using assms canonical_fields [OF assms] month_length_bounds [of "month d" "year d"]
    by (cases "PREC_DAY \<le> precision d") (auto simp: canonical_date_def date_fault_None day_fault_None lens_fixed)
  with canonical_fields [OF assms] show ?thesis by (simp add: civil_def civil_date_def)
qed


section \<open>The claims\<close>

text \<open>C17. The strict reader accepts exactly the texts that date-times are shown as: it answers a date-time
  if and only if that date-time is canonical (a real calendar date with a four-digit year, the fields
  below its precision at their defaults) and the text is the one it prints as, at every precision from
  the year to the second; everything else is refused.\<close>

theorem strict_reader_inverts_printing:
  "parse_date_value_strict t = Inr d \<longleftrightarrow> canonical_date d \<and> datetime_string d = t"
  by (rule strict_iff)

text \<open>Zone suffixes: a printed date-time reads back as itself, also with Z behind it, and with an
  offset +HH:MM or -HH:MM behind it reads as the real civil date-time whose instant is the offset earlier
  or later, at the same precision.\<close>

theorem zone_suffixes_read_as_utc:
  assumes "canonical_date d" "PREC_HOUR \<le> precision d" "0 \<le> hh" "hh \<le> 23" "0 \<le> mm" "mm \<le> 59"
    "c = CHR ''+'' \<or> c = CHR ''-''"
  shows "parse_date_value (datetime_string d) = Inr d \<and> parse_date_value (datetime_string d @ ''Z'') = Inr d \<and>
    (\<exists>r. parse_date_value (datetime_string d @ c # fmt_0d 2 hh @ '':'' @ fmt_0d 2 mm) = Inr r \<and> civil r \<and>
         instant r = instant d - (hh * 3600 + mm * 60) * (if c = CHR ''-'' then -1 else 1) \<and> precision r = precision d)"
proof -
  define off where "off = (hh * 3600 + mm * 60) * (if c = CHR ''-'' then -1 else 1)"
  let ?r = "zone_civil_from_epoch_utc (zone_timegm d - off) (precision d)"
  note f = canonical_fields [OF assms(1)] and c = canonical_civil [OF assms(1)]
  have strict: "parse_date_value_strict (datetime_string d) = Inr d" using assms(1) by (simp add: strict_iff)
  have e: "zone_timegm d = instant d" using f by (intro zone_timegm_instant) simp_all
  have "- 86400 < off" "off < 86400" using assms(3-6) by (auto simp: off_def)
  moreover have "- 719528 \<le> day_count (year d) (month d) (day d)" "day_count (year d) (month d) (day d) \<le> 2932896"
    using c f by (intro canonical_day_count; simp add: civil_def)+
  ultimately have "- 365 * 2 ^ 30 * 86400 \<le> instant d - off" "instant d - off < 365 * 2 ^ 30 * 86400"
    using f unfolding instant_def by simp_all
  then have b: "- (365 * 2 ^ 30) \<le> (instant d - off) div 86400" "(instant d - off) div 86400 \<le> 365 * 2 ^ 30"
    by linarith+
  have "parse_date_value (datetime_string d @ c # fmt_0d 2 hh @ '':'' @ fmt_0d 2 mm) = Inr (if off \<noteq> 0 then ?r else d)"
    unfolding parse_date_value_def strip_offset [OF assms] by (simp add: strict flip: off_def)
  moreover have "civil ?r" "instant ?r = instant d - off" "precision ?r = precision d"
    using zone_civil_any [OF b, of "precision d"] assms(2) by (simp_all add: e)
  ultimately show ?thesis
    using strip_none [OF assms(1)] strip_z [OF assms(1,2)] c strict
    unfolding off_def [symmetric] by (cases "off = 0") (simp_all add: parse_date_value_def)
qed

lemma zone_suffixes_read_as_utc_witness:
  "\<exists>r. parse_date_value ''2026-03-01 00:30+02:00'' = Inr r \<and> civil r \<and>
     instant r = instant \<lparr>year = 2026, month = 3, day = 1, hour = 0, minute = 30, second = 0, time_only = False, precision = 5\<rparr> - 7200"
proof -
  let ?d = "\<lparr>year = 2026, month = 3, day = 1, hour = 0, minute = 30, second = 0, time_only = False, precision = 5\<rparr>"
  have "canonical_date ?d" by code_simp
  moreover have "datetime_string ?d @ CHR ''+'' # fmt_0d 2 2 @ '':'' @ fmt_0d 2 0 = ''2026-03-01 00:30+02:00''" by code_simp
  ultimately show ?thesis using zone_suffixes_read_as_utc [of ?d 2 0 "CHR ''+''"] by auto
qed

text \<open>C18. The accountant's rule: adding a duration to a civil date-time moves the months first, exactly by
  the duration's years and months, and clamps the day to the length of the month reached; then it moves
  the instant by exactly the weeks, days, hours, minutes and seconds, and the result is a real date. It
  returns so, without a signed overflow, exactly when the sums fit: the month total is that of a year of
  the C type, and the products and sums of the fields and the carries of the normalising that follows
  are C integers. They do for years up to a billion with up to a hundred million weeks and as many days
  and nine hundred million hours, minutes and seconds.\<close>

theorem duration_added_by_calendar_then_clock:
  assumes "civil dt" "in_int (year dt)" "sign = 1 \<or> sign = - 1"
    and "\<bar>year dt * 12 + (month dt - 1) + sign * fst (duration_totals d)\<bar> < 12 * 2 ^ 31"
  shows "let a = months_moved dt d sign
    in civil a \<and> year a * 12 + month a = year dt * 12 + month dt + sign * (d_years d * 12 + d_months d) \<and>
       day a = min (day dt) (days_in_month (year a) (month a)) \<and>
       (case add_duration_to_datetime dt d sign of
          None \<Rightarrow> \<not> sums_fit a d sign
        | Some r \<Rightarrow> sums_fit a d sign \<and> civil r \<and> int_fields r \<and>
            instant r = instant a + sign * ((d_weeks d * 7 + d_days d) * 86400 + d_hours d * 3600 + d_minutes d * 60 + d_seconds d)) \<and>
       (\<bar>year a\<bar> \<le> 10 ^ 9 \<and> \<bar>d_weeks d\<bar> \<le> 10 ^ 8 \<and> \<bar>d_days d\<bar> \<le> 10 ^ 8 \<and> \<bar>d_hours d\<bar> \<le> 9 * 10 ^ 8 \<and>
        \<bar>d_minutes d\<bar> \<le> 9 * 10 ^ 8 \<and> \<bar>d_seconds d\<bar> \<le> 9 * 10 ^ 8 \<longrightarrow> sums_fit a d sign)"
proof -
  let ?dm = "sign * fst (duration_totals d)" and ?a = "months_moved dt d sign"
  have a: "civil ?a \<and> year ?a * 12 + month ?a = year dt * 12 + month dt + ?dm \<and>
      day ?a = min (day dt) (days_in_month (year ?a) (month ?a)) \<and> in_int (year ?a)"
  proof (cases "?dm = 0")
    case True
    then show ?thesis using assms(1,2) by (simp add: months_moved_def civil_def civil_date_def)
  next
    case False
    then have a: "?a = add_months dt (month dt - 1) ?dm" by (simp add: months_moved_def)
    have s: "1 \<le> month ?a" "month ?a \<le> 12" "year ?a * 12 + month ?a = year dt * 12 + month dt + ?dm"
      "day ?a = min (day dt) (days_in_month (year ?a) (month ?a))" "hour ?a = hour dt" "minute ?a = minute dt" "second ?a = second dt" "in_int (year ?a)"
      using add_months_spec [of dt ?dm] assms(4) unfolding a Let_def by simp_all
    then show ?thesis using civil_clamped [OF assms(1) s(1,2,4-7)] by blast
  qed
  have m: "in_int (month dt - 1)" "in_int (month ?a)"
    using a assms(1) by (auto simp: civil_def civil_date_def in_int_def)
  have c: "civil ?a" "year ?a * 12 + month ?a = year dt * 12 + month dt + sign * (d_years d * 12 + d_months d)"
    "day ?a = min (day dt) (days_in_month (year ?a) (month ?a))"
    using a by (simp_all add: duration_totals_def)
  have r: "case add_duration_to_datetime dt d sign of
      None \<Rightarrow> \<not> sums_fit ?a d sign
    | Some r \<Rightarrow> sums_fit ?a d sign \<and> civil r \<and> int_fields r \<and>
        instant r = instant ?a + sign * ((d_weeks d * 7 + d_days d) * 86400 + d_hours d * 3600 + d_minutes d * 60 + d_seconds d)"
    using add_duration_runs [OF m(1) _ m(2)] a by (simp add: duration_totals_def split: option.splits)
  show ?thesis unfolding Let_def using c r ordinary_sums_fit [OF c(1) _ assms(3), of d] by blast
qed

lemma duration_added_by_calendar_then_clock_witness:
  "let dt = \<lparr>year = 2024, month = 1, day = 31, hour = 23, minute = 0, second = 0, time_only = False, precision = 4\<rparr>;
       d = \<lparr>d_years = 0, d_months = 1, d_weeks = 0, d_days = 0, d_hours = 2, d_minutes = 0, d_seconds = 0\<rparr>
   in add_duration_to_datetime dt d 1 = Some
        \<lparr>year = 2024, month = 3, day = 1, hour = 1, minute = 0, second = 0, time_only = False, precision = 6\<rparr> \<and>
      day (months_moved dt d 1) = 29 \<and> civil (months_moved dt d 1) \<and>
      add_duration_to_datetime dt (d\<lparr>d_weeks := 400000000\<rparr>) 1 = None \<and>
      \<not> sums_fit (months_moved dt (d\<lparr>d_weeks := 400000000\<rparr>) 1) (d\<lparr>d_weeks := 400000000\<rparr>) 1"
proof -
  let ?dt = "\<lparr>year = 2024, month = 1, day = 31, hour = 23, minute = 0, second = 0, time_only = False, precision = 4\<rparr>"
  let ?d = "\<lparr>d_years = 0, d_months = 1, d_weeks = 0, d_days = 0, d_hours = 2, d_minutes = 0, d_seconds = 0\<rparr>"
  let ?w = "?d\<lparr>d_weeks := 400000000\<rparr>"
  have "civil ?dt" "in_int (year ?dt)" "add_duration_to_datetime ?dt ?d 1 = Some
        \<lparr>year = 2024, month = 3, day = 1, hour = 1, minute = 0, second = 0, time_only = False, precision = 6\<rparr>"
    "year (months_moved ?dt ?d 1) = 2024" "month (months_moved ?dt ?d 1) = 2" "days_in_month 2024 2 = 29"
    "add_duration_to_datetime ?dt ?w 1 = None" by code_simp+
  then show ?thesis
    using duration_added_by_calendar_then_clock [of ?dt 1 ?d] duration_added_by_calendar_then_clock [of ?dt 1 ?w]
    by (simp add: Let_def duration_totals_def)
qed

text \<open>C19. Subtracting two canonical date-times at second precision gives an exact duration, with no months
  in it, whose seconds are the difference of the instants; adding it to the second date-time gives the
  first again.\<close>

theorem difference_undone_by_addition:
  assumes "canonical_date l" "canonical_date r" "precision l = PREC_SECOND" "precision r = PREC_SECOND"
  shows "\<exists>d. datetime_difference l r = Inr d \<and> duration_totals d = (0, instant l - instant r) \<and>
     add_duration_to_datetime r d 1 = Some l"
proof -
  have e: "zone_timegm x = instant x" if "canonical_date x" for x
    using canonical_fields [OF that] by (intro zone_timegm_instant) simp_all
  have b: "- 719528 * 86400 \<le> instant x \<and> instant x < 2932897 * 86400" if "canonical_date x" for x
    using canonical_fields [OF that] canonical_civil [OF that] canonical_day_count [of "year x" "month x" "day x"]
    by (simp add: instant_def civil_def)
  let ?d = "duration_from_totals 0 (instant l - instant r)"
  have t: "\<not> time_only l" "\<not> time_only r" using assms by (simp_all add: canonical_date_def)
  have d: "datetime_difference l r = Inr ?d" using t e assms(1,2) by (simp add: datetime_difference_def)
  have tot: "duration_totals ?d = (0, instant l - instant r)"
    using b [OF assms(1)] b [OF assms(2)] by (intro duration_totals_from) (auto simp: abs_less_iff)
  have moved: "months_moved r ?d 1 = r" using tot by (simp add: months_moved_def)
  have cr: "civil r" using canonical_civil [OF assms(2)] t by simp
  have y: "0 \<le> year r" "year r \<le> 9999" using canonical_fields [OF assms(2)] by simp_all
  have small: "\<bar>instant l - instant r\<bar> \<le> 86400 * 10 ^ 8" using b [OF assms(1)] b [OF assms(2)] unfolding abs_le_iff by simp
  have parts: "d_weeks ?d = 0" "\<bar>d_days ?d\<bar> \<le> 10 ^ 8" "\<bar>d_hours ?d\<bar> \<le> 9 * 10 ^ 8" "\<bar>d_minutes ?d\<bar> \<le> 9 * 10 ^ 8" "\<bar>d_seconds ?d\<bar> \<le> 9 * 10 ^ 8"
    using small_duration [OF small] by simp_all
  have fit: "sums_fit r ?d 1" using y parts by (intro ordinary_sums_fit [OF cr]) simp_all
  have m: "in_int (month r - 1)" "in_int (year r)" "in_int (month r)"
    using cr y by (auto simp: civil_def civil_date_def in_int_def)
  have "\<exists>x. add_duration_to_datetime r ?d 1 = Some x \<and> civil x \<and> instant x = instant l \<and> time_only x = time_only r \<and> precision x = precision r"
    using add_duration_runs [of r ?d 1] m fit tot assms(4) by (simp add: moved split: option.splits)
  then have "add_duration_to_datetime r ?d 1 = Some l"
    using canonical_civil [OF assms(1)] t assms(3,4) civil_instant_eq [of _ l] by fastforce
  with d tot show ?thesis by blast
qed

lemma difference_undone_by_addition_witness:
  "\<exists>d. datetime_difference
       \<lparr>year = 2026, month = 4, day = 2, hour = 0, minute = 0, second = 0, time_only = False, precision = 6\<rparr>
       \<lparr>year = 2026, month = 2, day = 1, hour = 0, minute = 0, second = 0, time_only = False, precision = 6\<rparr> = Inr d \<and>
     duration_totals d = (0, 60 * 86400)"
proof -
  let ?l = "\<lparr>year = 2026, month = 4, day = 2, hour = 0, minute = 0, second = 0, time_only = False, precision = 6\<rparr>"
  let ?r = "\<lparr>year = 2026, month = 2, day = 1, hour = 0, minute = 0, second = 0, time_only = False, precision = 6\<rparr>"
  have "canonical_date ?l" "canonical_date ?r" "instant ?l - instant ?r = 60 * 86400" by code_simp+
  then show ?thesis using difference_undone_by_addition [of ?l ?r] by auto
qed

end
