(* ===== verification/Addr_Set.thy ===== *)
theory Addr_Set
  imports Prelude
begin

text \<open>
  The open-addressing set of page numbers of \<^verbatim>\<open>src/gsql/store_util.c\<close> (\<^verbatim>\<open>Set\<close>): a table whose
  capacity is a power of two, 0 an empty slot, the largest word a deleted one. Its loops have no
  bound of their own, so they are partial: \<open>None\<close> is a loop that does not end. The invariant
  keeps the table half empty, which makes them end; the abstraction is the set of its members.
\<close>

section \<open>The code\<close>

record addr_set =
  slot :: "u64 list"
  cap :: nat
  fill :: nat

definition TOMBSTONE :: u64 where
  "TOMBSTONE = 0xFFFFFFFFFFFFFFFF"

definition set_hash :: "u64 \<Rightarrow> nat \<Rightarrow> nat" where
  "set_hash x n =
     (let x = x XOR drop_bit 33 x;
          x = x * 0xff51afd7ed558ccd;
          x = x XOR drop_bit 33 x
      in unat x AND (n - 1))"

text \<open>The loop of \<^verbatim>\<open>set_has\<close> and \<^verbatim>\<open>set_del\<close>: the first slot that holds \<open>x\<close> or nothing.\<close>

partial_function (option) probe :: "addr_set \<Rightarrow> u64 \<Rightarrow> nat \<Rightarrow> nat option" where
  "probe s x i =
     (if slot s ! i = x \<or> slot s ! i = 0 then Some i else probe s x ((i + 1) AND (cap s - 1)))"

definition set_has :: "addr_set \<Rightarrow> u64 \<Rightarrow> bool option" where
  "set_has s x =
     (if cap s = 0 then Some False
      else map_option (\<lambda>i. slot s ! i = x) (probe s x (set_hash x (cap s))))"

text \<open>The loop of \<^verbatim>\<open>set_add\<close>, which remembers the first deleted slot it passes.\<close>

partial_function (option) add_loop :: "addr_set \<Rightarrow> u64 \<Rightarrow> nat option \<Rightarrow> nat \<Rightarrow> addr_set option" where
  "add_loop s x tomb i =
     (if slot s ! i = x then Some s
      else let tomb = (if slot s ! i = TOMBSTONE \<and> tomb = None then Some i else tomb)
      in if slot s ! i = 0 then
           Some (s\<lparr>slot := (slot s)[(case tomb of Some t \<Rightarrow> t | None \<Rightarrow> i) := x], fill := fill s + 1\<rparr>)
         else add_loop s x tomb ((i + 1) AND (cap s - 1)))"

text \<open>
  \<^verbatim>\<open>set_grow\<close> calls \<^verbatim>\<open>set_add\<close> on the new table and \<^verbatim>\<open>set_add\<close> calls \<^verbatim>\<open>set_grow\<close>: \<open>add\<close> is the
  \<^verbatim>\<open>set_add\<close> that is called, and the depth of calls is the first argument of \<open>set_add\<close>.
  \<open>alloc n\<close> tells whether \<^verbatim>\<open>calloc\<close> of \<open>n\<close> slots succeeds. An operation answers its return
  value and the set.
\<close>

definition set_grow ::
  "(addr_set \<Rightarrow> u64 \<Rightarrow> (bool \<times> addr_set) option) \<Rightarrow> (nat \<Rightarrow> bool) \<Rightarrow> addr_set \<Rightarrow> (bool \<times> addr_set) option" where
  "set_grow add alloc s =
     (let n = (if cap s \<noteq> 0 then cap s * 2 else 64)
      in if \<not> alloc n then Some (False, s)
         else map_option (\<lambda>t. (True, t))
           (foldl (\<lambda>t x. Option.bind t (\<lambda>t. if x \<noteq> 0 \<and> x \<noteq> TOMBSTONE then map_option snd (add t x) else Some t))
             (Some \<lparr>slot = replicate n 0, cap = n, fill = 0\<rparr>) (slot s)))"

fun set_add :: "nat \<Rightarrow> (nat \<Rightarrow> bool) \<Rightarrow> addr_set \<Rightarrow> u64 \<Rightarrow> (bool \<times> addr_set) option" where
  "set_add 0 alloc s x = None"
| "set_add (Suc depth) alloc s x =
     (case (if cap s < (fill s + 1) * 2 then set_grow (set_add depth alloc) alloc s else Some (True, s)) of
        None \<Rightarrow> None
      | Some (False, s) \<Rightarrow> Some (False, s)
      | Some (True, s) \<Rightarrow> map_option (\<lambda>s. (True, s)) (add_loop s x None (set_hash x (cap s))))"

definition set_del :: "addr_set \<Rightarrow> u64 \<Rightarrow> addr_set option" where
  "set_del s x =
     (if cap s = 0 then Some s
      else map_option (\<lambda>i. if slot s ! i = x then s\<lparr>slot := (slot s)[i := TOMBSTONE]\<rparr> else s)
             (probe s x (set_hash x (cap s))))"

definition set_clear :: addr_set where
  "set_clear = \<lparr>slot = [], cap = 0, fill = 0\<rparr>"

text \<open>\<^verbatim>\<open>U64s\<close>, a growing list of words; \<open>alloc\<close> is \<^verbatim>\<open>realloc\<close>.\<close>

record u64s =
  items :: "u64 list"
  room :: nat

definition u64_push :: "(nat \<Rightarrow> bool) \<Rightarrow> u64s \<Rightarrow> u64 \<Rightarrow> bool \<times> u64s" where
  "u64_push alloc a x =
     (if length (items a) = room a then
        let n = (if room a \<noteq> 0 then room a * 2 else 16)
        in if \<not> alloc n then (False, a) else (True, \<lparr>items = items a @ [x], room = n\<rparr>)
      else (True, a\<lparr>items := items a @ [x]\<rparr>))"

lemma u64_push_appends:
  "length (items a) \<le> room a \<Longrightarrow> u64_push alloc a x = (b, a') \<Longrightarrow>
   length (items a') \<le> room a' \<and> items a' = items a @ (if b then [x] else [])"
  by (auto simp: u64_push_def Let_def split: if_splits)

section \<open>Members and invariant\<close>

definition is_addr :: "u64 \<Rightarrow> bool" where
  "is_addr x \<longleftrightarrow> x \<noteq> 0 \<and> x \<noteq> TOMBSTONE"

definition members :: "addr_set \<Rightarrow> u64 set" where
  "members s = {x \<in> set (slot s). is_addr x}"

text \<open>The \<open>j\<close>-th slot the probe for \<open>x\<close> looks at; \<open>open_until\<close>: it does not stop before.\<close>

definition probe_at :: "nat \<Rightarrow> u64 \<Rightarrow> nat \<Rightarrow> nat" where
  "probe_at c x j = (set_hash x c + j) mod c"

definition reaches :: "u64 list \<Rightarrow> u64 \<Rightarrow> bool" where
  "reaches ss x \<longleftrightarrow>
     (\<exists>j. ss ! probe_at (length ss) x j = x \<and> (\<forall>j' < j. ss ! probe_at (length ss) x j' \<noteq> 0))"

definition once :: "u64 list \<Rightarrow> bool" where
  "once ss \<longleftrightarrow> (\<forall>p < length ss. \<forall>q < length ss. is_addr (ss ! p) \<longrightarrow> ss ! p = ss ! q \<longrightarrow> p = q)"

definition used :: "u64 list \<Rightarrow> nat" where
  "used ss = length (filter (\<lambda>x. x \<noteq> 0) ss)"

definition set_ok :: "addr_set \<Rightarrow> bool" where
  "set_ok s \<longleftrightarrow> length (slot s) = cap s \<and> (cap s = 0 \<or> (\<exists>k. cap s = 2 ^ k)) \<and> used (slot s) \<le> fill s \<and>
     2 * fill s \<le> cap s \<and> once (slot s) \<and> (\<forall>x \<in> members s. reaches (slot s) x)"

section \<open>Probing\<close>

lemma nat_and_mask: "(x::nat) AND (2 ^ k - 1) = x mod 2 ^ k"
  by (simp add: take_bit_eq_mod [symmetric] take_bit_eq_mask mask_eq_exp_minus_1)

lemma set_hash_less: "c = 2 ^ k \<Longrightarrow> set_hash x c < c"
  unfolding set_hash_def Let_def by (simp only: nat_and_mask) simp

lemma probe_at_0: "c = 2 ^ k \<Longrightarrow> probe_at c x 0 = set_hash x c"
  using set_hash_less [of c k x] by (simp add: probe_at_def)

lemma probe_at_Suc: "c = 2 ^ k \<Longrightarrow> (probe_at c x j + 1) AND (c - 1) = probe_at c x (Suc j)"
  by (simp only: nat_and_mask probe_at_def) (simp add: mod_Suc_eq)

lemma probe_at_less: "0 < c \<Longrightarrow> probe_at c x j < c"
  by (simp add: probe_at_def)

lemma probe_at_onto:
  assumes "p < c"
  shows "\<exists>j. probe_at c x j = p"
proof -
  let ?h = "set_hash x c mod c"
  have "?h < c" using assms by simp
  then have "(?h + (p + (c - ?h))) mod c = (p + c) mod c" by simp
  then have "(set_hash x c + (p + (c - ?h))) mod c = (p + c) mod c" by (simp only: mod_add_left_eq)
  then have "(set_hash x c + (p + (c - ?h))) mod c = p" using assms by simp
  then show ?thesis unfolding probe_at_def by blast
qed

text \<open>Where the probe for \<open>x\<close> stops: the first slot with \<open>x\<close> or nothing.\<close>

definition stops_at :: "u64 list \<Rightarrow> u64 \<Rightarrow> nat \<Rightarrow> bool" where
  "stops_at ss x j \<longleftrightarrow> (let c = length ss
     in (ss ! probe_at c x j = x \<or> ss ! probe_at c x j = 0) \<and>
        (\<forall>j' < j. ss ! probe_at c x j' \<noteq> x \<and> ss ! probe_at c x j' \<noteq> 0))"

lemma probe_stops:
  assumes "length (slot s) = cap s" "cap s = 2 ^ k" "stops_at (slot s) x j"
  shows "probe s x (set_hash x (cap s)) = Some (probe_at (cap s) x j)"
proof -
  have "probe s x (probe_at (cap s) x a) = Some (probe_at (cap s) x j)" if "a \<le> j" for a
    using that
  proof (induction rule: inc_induct)
    case base
    show ?case using assms(1,3) by (subst probe.simps) (simp add: stops_at_def Let_def)
  next
    case (step a)
    then show ?case
      using assms(1,3) probe_at_Suc [OF assms(2), of x a] by (subst probe.simps) (simp add: stops_at_def Let_def)
  qed
  from this [of 0] show ?thesis by (simp add: probe_at_0 [OF assms(2)])
qed

lemma used_free:
  assumes "used ss < length ss"
  shows "\<exists>p < length ss. ss ! p = 0"
proof (rule ccontr)
  assume "\<not> ?thesis"
  then have "filter (\<lambda>x. x \<noteq> 0) ss = ss" by (intro filter_True) (auto simp: in_set_conv_nth)
  with assms show False by (simp add: used_def)
qed

lemma stops:
  assumes "used ss < length ss"
  obtains j where "stops_at ss x j"
proof -
  let ?P = "\<lambda>j. ss ! probe_at (length ss) x j = x \<or> ss ! probe_at (length ss) x j = 0"
  from used_free [OF assms] obtain p where "p < length ss" "ss ! p = 0" by blast
  moreover from probe_at_onto [OF this(1), of x] obtain j where "probe_at (length ss) x j = p" by blast
  ultimately have "?P j" by simp
  then have "\<exists>j. ?P j" ..
  then obtain n where "?P n" "\<forall>m < n. \<not> ?P m" unfolding exists_least_iff [of ?P] by blast
  then have "stops_at ss x n" by (auto simp: stops_at_def Let_def)
  then show ?thesis by (rule that)
qed

text \<open>An open table holds \<open>x\<close> exactly where its probe stops.\<close>

lemma stop_member:
  assumes "set_ok s" "is_addr x" "stops_at (slot s) x j" "cap s \<noteq> 0"
  shows "slot s ! probe_at (cap s) x j = x \<longleftrightarrow> x \<in> members s"
proof
  assume "slot s ! probe_at (cap s) x j = x"
  moreover have "probe_at (cap s) x j < length (slot s)" using assms(1,4) by (simp add: set_ok_def probe_at_less)
  ultimately show "x \<in> members s" using assms(2) unfolding members_def by (metis (mono_tags) mem_Collect_eq nth_mem)
next
  assume "x \<in> members s"
  then have "reaches (slot s) x" "length (slot s) = cap s" using assms(1) by (auto simp: set_ok_def)
  then obtain j0 where j0: "slot s ! probe_at (cap s) x j0 = x" "\<forall>j' < j0. slot s ! probe_at (cap s) x j' \<noteq> 0"
    unfolding reaches_def by metis
  have "j \<le> j0"
  proof (rule ccontr)
    assume "\<not> j \<le> j0"
    then show False using j0(1) assms(3) \<open>length (slot s) = cap s\<close> by (auto simp: stops_at_def Let_def)
  qed
  then show "slot s ! probe_at (cap s) x j = x"
    using j0 assms(3) \<open>length (slot s) = cap s\<close> unfolding stops_at_def Let_def by (metis le_neq_implies_less)
qed

lemma set_ok_open: "set_ok s \<Longrightarrow> cap s \<noteq> 0 \<Longrightarrow> used (slot s) < length (slot s)"
  by (auto simp: set_ok_def)

lemma set_has_spec:
  assumes "set_ok s" "is_addr x"
  shows "set_has s x = Some (x \<in> members s)"
proof (cases "cap s = 0")
  case True
  then show ?thesis using assms(1) by (simp add: set_has_def set_ok_def members_def)
next
  case False
  then obtain k where k: "cap s = 2 ^ k" "length (slot s) = cap s" using assms(1) by (auto simp: set_ok_def)
  from stops [OF set_ok_open [OF assms(1) False]] obtain j where j: "stops_at (slot s) x j" .
  show ?thesis
    using probe_stops [OF k(2,1) j] stop_member [OF assms j False] False by (simp add: set_has_def)
qed


section \<open>Deleting\<close>

lemma used_update:
  "p < length ss \<Longrightarrow> used (ss[p := x]) + of_bool (ss ! p \<noteq> 0) = used ss + of_bool (x \<noteq> 0)"
proof (induction ss arbitrary: p)
  case (Cons y ss)
  then show ?case by (cases p) (auto simp: used_def)
qed simp

text \<open>Writing over a slot that was free or deleted, or deleting one, keeps every other chain.\<close>

lemma reaches_update:
  assumes "reaches ss y" "p < length ss" "x \<noteq> 0" "ss ! p \<noteq> y"
  shows "reaches (ss[p := x]) y"
proof -
  obtain j where j: "ss ! probe_at (length ss) y j = y" "\<forall>j' < j. ss ! probe_at (length ss) y j' \<noteq> 0"
    using assms(1) unfolding reaches_def by blast
  have "ss[p := x] ! probe_at (length ss) y j = y" using j(1) assms(4) by (metis nth_list_update_neq)
  moreover have "\<forall>j' < j. ss[p := x] ! probe_at (length ss) y j' \<noteq> 0"
    using j(2) assms(2,3) by (metis nth_list_update_eq nth_list_update_neq)
  ultimately show ?thesis unfolding reaches_def by (metis length_list_update)
qed

lemma tombstone_facts [simp]: "TOMBSTONE \<noteq> 0" "\<not> is_addr 0" "\<not> is_addr TOMBSTONE"
  by (simp_all add: TOMBSTONE_def is_addr_def)

lemma members_nth: "members s = {x. is_addr x \<and> (\<exists>p < length (slot s). slot s ! p = x)}"
  by (auto simp: members_def in_set_conv_nth)

lemma set_update_other: "y \<noteq> x \<Longrightarrow> ss ! p \<noteq> y \<Longrightarrow> y \<in> set (ss[p := x]) \<longleftrightarrow> y \<in> set ss"
proof (induction ss arbitrary: p)
  case (Cons z ss)
  then show ?case by (cases p) auto
qed simp

lemma members_delete:
  assumes "once (slot s)" "p < length (slot s)" "slot s ! p = x" "is_addr x"
  shows "members (s\<lparr>slot := (slot s)[p := TOMBSTONE]\<rparr>) = members s - {x}"
proof -
  have "q \<noteq> p \<Longrightarrow> q < length (slot s) \<Longrightarrow> slot s ! q \<noteq> x" for q using assms unfolding once_def by metis
  then have "x \<notin> set ((slot s)[p := TOMBSTONE])"
    using assms(2,4) by (auto simp: in_set_conv_nth nth_list_update split: if_splits)
  moreover have "is_addr y \<Longrightarrow> y \<noteq> x \<Longrightarrow> y \<in> set ((slot s)[p := TOMBSTONE]) \<longleftrightarrow> y \<in> set (slot s)" for y
    using assms(3) by (intro set_update_other) (auto simp: is_addr_def)
  ultimately show ?thesis by (auto simp: members_def)
qed

lemma once_update:
  assumes "once ss" "is_addr x \<Longrightarrow> x \<notin> set ss" "p < length ss"
  shows "once (ss[p := x])"
  unfolding once_def
proof (intro allI impI)
  fix q r
  assume "q < length (ss[p := x])" "r < length (ss[p := x])" "is_addr (ss[p := x] ! q)" "ss[p := x] ! q = ss[p := x] ! r"
  then show "q = r"
    using assms unfolding once_def by (cases "q = p"; cases "r = p") (auto simp: nth_list_update dest: nth_mem)
qed

lemma set_del_spec:
  assumes "set_ok s" "is_addr x"
  obtains s' where "set_del s x = Some s'" "set_ok s'" "members s' = members s - {x}"
proof (cases "cap s = 0")
  case True
  then have "set_del s x = Some s" "members s = {}" using assms(1) by (auto simp: set_del_def set_ok_def members_def)
  with assms(1) that show ?thesis by simp
next
  case False
  then obtain k where k: "cap s = 2 ^ k" "length (slot s) = cap s" using assms(1) by (auto simp: set_ok_def)
  from stops [OF set_ok_open [OF assms(1) False]] obtain j where j: "stops_at (slot s) x j" .
  note m = stop_member [OF assms j False] and p = probe_stops [OF k(2,1) j]
  let ?p = "probe_at (cap s) x j"
  have lt: "?p < length (slot s)" using k False by (simp add: probe_at_less)
  show ?thesis
  proof (cases "x \<in> members s")
    case True
    then have at: "slot s ! ?p = x" using m by simp
    let ?s = "s\<lparr>slot := (slot s)[?p := TOMBSTONE]\<rparr>"
    have o: "once (slot s)" using assms(1) by (simp add: set_ok_def)
    have "used (slot ?s) = used (slot s)" using used_update [OF lt, of TOMBSTONE] at assms(2) by (simp add: is_addr_def)
    moreover have "once (slot ?s)" using once_update [OF o _ lt, of TOMBSTONE] by simp
    moreover have "members ?s = members s - {x}" by (rule members_delete [OF o lt at assms(2)])
    moreover have "reaches (slot ?s) y" if "y \<in> members ?s" for y
      using that calculation(3) assms(1) at lt by (auto simp: set_ok_def intro!: reaches_update)
    ultimately have "set_ok ?s" using assms(1) by (simp add: set_ok_def)
    moreover have "set_del s x = Some ?s" using False p at by (simp add: set_del_def)
    ultimately show ?thesis using that \<open>members ?s = members s - {x}\<close> by blast
  next
    assume absent: "x \<notin> members s"
    then have "set_del s x = Some s" using False p m by (simp add: set_del_def)
    moreover have "members s - {x} = members s" using absent by blast
    ultimately show ?thesis using assms(1) that by metis
  qed
qed

section \<open>Adding\<close>

text \<open>The slot the loop writes: the first deleted one on the way, or the free one it stops at.\<close>

definition target :: "u64 list \<Rightarrow> u64 \<Rightarrow> nat \<Rightarrow> nat" where
  "target ss x j =
     (case find (\<lambda>j'. ss ! probe_at (length ss) x j' = TOMBSTONE) [0..<j] of
        Some j' \<Rightarrow> j' | None \<Rightarrow> j)"

lemma target_spec:
  assumes "stops_at ss x j" "ss ! probe_at (length ss) x j = 0"
  shows "target ss x j \<le> j" "ss ! probe_at (length ss) x (target ss x j) \<in> {0, TOMBSTONE}"
    "\<forall>j' < target ss x j. ss ! probe_at (length ss) x j' \<noteq> 0"
proof -
  have *: "target ss x j = j \<or> target ss x j < j \<and> ss ! probe_at (length ss) x (target ss x j) = TOMBSTONE"
    by (auto simp: target_def find_Some_iff split: option.splits)
  then show "target ss x j \<le> j" "ss ! probe_at (length ss) x (target ss x j) \<in> {0, TOMBSTONE}"
    using assms(2) by auto
  then show "\<forall>j' < target ss x j. ss ! probe_at (length ss) x j' \<noteq> 0"
    using assms(1) unfolding stops_at_def Let_def by (meson order.strict_trans2)
qed

lemma find_append_case: "find P (xs @ ys) = (case find P xs of Some x \<Rightarrow> Some x | None \<Rightarrow> find P ys)"
  by (induction xs) auto

lemma add_loop_stops:
  assumes "length (slot s) = cap s" "cap s = 2 ^ k" "stops_at (slot s) x j" "is_addr x"
  shows "add_loop s x None (set_hash x (cap s)) =
    Some (if slot s ! probe_at (cap s) x j = x then s
          else s\<lparr>slot := (slot s)[probe_at (cap s) x (target (slot s) x j) := x], fill := fill s + 1\<rparr>)"
proof -
  let ?at = "probe_at (cap s) x"
  let ?tomb = "\<lambda>a. map_option ?at (find (\<lambda>j'. slot s ! ?at j' = TOMBSTONE) [0..<a])"
  have find_Suc: "?tomb (Suc a) = (if slot s ! ?at a = TOMBSTONE \<and> ?tomb a = None then Some (?at a) else ?tomb a)" for a
    by (auto simp: find_append_case split: option.splits)
  have "add_loop s x (?tomb a) (?at a) =
      Some (if slot s ! ?at j = x then s
            else s\<lparr>slot := (slot s)[?at (target (slot s) x j) := x], fill := fill s + 1\<rparr>)" if "a \<le> j" for a
    using that
  proof (induction rule: inc_induct)
    case base
    have "slot s ! ?at j = x \<or> slot s ! ?at j = 0" using assms(1,3) by (simp add: stops_at_def Let_def)
    moreover have "?at (target (slot s) x j) = (case ?tomb j of Some t \<Rightarrow> t | None \<Rightarrow> ?at j)"
      using assms(1) by (auto simp: target_def split: option.splits)
    ultimately show ?case
      using assms(4) by (subst add_loop.simps) (auto simp: is_addr_def Let_def TOMBSTONE_def)
  next
    case (step a)
    then have "slot s ! ?at a \<noteq> x" "slot s ! ?at a \<noteq> 0" using assms(1,3) by (auto simp: stops_at_def Let_def)
    then show ?case
      using step.IH probe_at_Suc [OF assms(2), of x a] find_Suc [of a]
      by (subst add_loop.simps) (simp add: Let_def del: upt_Suc)
  qed
  from this [of 0] show ?thesis by (simp add: probe_at_0 [OF assms(2)])
qed


lemma members_add:
  assumes "p < length (slot s)" "slot s ! p \<in> {0, TOMBSTONE}" "is_addr x"
  shows "members (s\<lparr>slot := (slot s)[p := x], fill := f\<rparr>) = insert x (members s)"
proof -
  have "x \<in> set ((slot s)[p := x])" using assms(1) by (simp add: set_update_memI)
  moreover have "is_addr y \<Longrightarrow> y \<noteq> x \<Longrightarrow> y \<in> set ((slot s)[p := x]) \<longleftrightarrow> y \<in> set (slot s)" for y
    using assms(2) by (intro set_update_other) (auto simp: is_addr_def)
  ultimately show ?thesis using assms(3) by (auto simp: members_def)
qed

text \<open>The part of \<open>set_add\<close> behind the growth check.\<close>

lemma add_loop_spec:
  assumes "set_ok s" "is_addr x" "(fill s + 1) * 2 \<le> cap s"
  obtains s' where "add_loop s x None (set_hash x (cap s)) = Some s'" "set_ok s'" "members s' = insert x (members s)"
    "cap s' = cap s" "fill s' \<le> fill s + 1"
proof -
  have pos: "cap s \<noteq> 0" using assms(3) by simp
  then obtain k where k: "cap s = 2 ^ k" "length (slot s) = cap s" using assms(1) by (auto simp: set_ok_def)
  from stops [OF set_ok_open [OF assms(1) pos]] obtain j where j: "stops_at (slot s) x j" .
  note m = stop_member [OF assms(1,2) j pos] and l = add_loop_stops [OF k(2,1) j assms(2)]
  show ?thesis
  proof (cases "x \<in> members s")
    case True
    then have "add_loop s x None (set_hash x (cap s)) = Some s" using l m by simp
    moreover have "members s = insert x (members s)" using True by blast
    ultimately show ?thesis using assms(1) by (intro that [of s]) simp_all
  next
    assume new: "x \<notin> members s"
    then have "slot s ! probe_at (cap s) x j \<noteq> x" using m by simp
    then have free: "slot s ! probe_at (length (slot s)) x j = 0" using j k(2) by (auto simp: stops_at_def Let_def)
    let ?t = "target (slot s) x j"
    let ?p = "probe_at (cap s) x ?t"
    let ?s = "s\<lparr>slot := (slot s)[?p := x], fill := fill s + 1\<rparr>"
    note t = target_spec [OF j free, unfolded k(2)]
    have lt: "?p < length (slot s)" using k pos by (simp add: probe_at_less)
    have eq: "add_loop s x None (set_hash x (cap s)) = Some ?s" using l new m by simp
    have mem: "members ?s = insert x (members s)" using lt t(2) assms(2) by (intro members_add)
    have "used (slot ?s) \<le> fill ?s" using used_update [OF lt, of x] assms(1,2) by (auto simp: set_ok_def is_addr_def split: if_splits)
    moreover have "once (slot ?s)"
      using once_update [of "slot s" x ?p] assms(1,2) new lt by (simp add: set_ok_def members_def)
    moreover have "reaches (slot ?s) y" if "y \<in> members ?s" for y
    proof (cases "y = x")
      case True
      have "\<forall>j' < ?t. (slot s)[?p := x] ! probe_at (cap s) x j' \<noteq> 0"
        using t(3) lt assms(2) by (metis is_addr_def nth_list_update_eq nth_list_update_neq)
      then show ?thesis using True lt k(2) unfolding reaches_def by (intro exI [of _ ?t]) simp
    next
      case False
      then have y: "y \<in> members s" using that mem by simp
      then have "reaches (slot s) y" "slot s ! ?p \<noteq> y" using assms(1) t(2) by (auto simp: set_ok_def members_def is_addr_def)
      then show ?thesis using reaches_update [of "slot s" y ?p x] lt assms(2) by (simp add: is_addr_def)
    qed
    ultimately have "set_ok ?s" using assms(1,3) k by (auto simp: set_ok_def)
    with eq mem show ?thesis by (intro that [of ?s]) simp_all
  qed
qed

text \<open>A new table of a size that holds the old members with room to spare.\<close>

lemma empty_ok: "set_ok \<lparr>slot = replicate (2 ^ k) 0, cap = 2 ^ k, fill = 0\<rparr>" "members \<lparr>slot = replicate n 0, cap = c, fill = 0\<rparr> = {}"
  by (auto simp: set_ok_def members_def used_def once_def)

lemma set_add_room:
  assumes "set_ok s" "is_addr x" "(fill s + 1) * 2 \<le> cap s"
  obtains s' where "set_add (Suc depth) alloc s x = Some (True, s')" "set_ok s'" "members s' = insert x (members s)"
    "cap s' = cap s" "fill s' \<le> fill s + 1"
  using add_loop_spec [OF assms] assms(3) by (auto simp: not_less)

lemma refill:
  assumes "set_ok t" "2 * (fill t + length (filter is_addr xs)) \<le> cap t"
  obtains t' where "foldl (\<lambda>t x. Option.bind t (\<lambda>t. if x \<noteq> 0 \<and> x \<noteq> TOMBSTONE then map_option snd (set_add (Suc depth) alloc t x) else Some t))
      (Some t) xs = Some t'" "set_ok t'" "members t' = members t \<union> {x \<in> set xs. is_addr x}"
    "cap t' = cap t" "fill t' \<le> fill t + length (filter is_addr xs)"
  using assms
proof (induction xs arbitrary: t thesis)
  case Nil
  then show ?case by simp
next
  case (Cons x xs)
  show ?case
  proof (cases "is_addr x")
    case True
    then have room: "(fill t + 1) * 2 \<le> cap t" using Cons.prems(3) by simp
    from set_add_room [OF Cons.prems(2) True room, of depth alloc] obtain t1 where t1:
      "set_add (Suc depth) alloc t x = Some (True, t1)" "set_ok t1" "members t1 = insert x (members t)" "cap t1 = cap t"
      "fill t1 \<le> fill t + 1" .
    have "2 * (fill t1 + length (filter is_addr xs)) \<le> cap t1" using Cons.prems(3) True t1(4,5) by simp
    from Cons.IH [OF _ t1(2) this] obtain t' where t':
      "foldl (\<lambda>t x. Option.bind t (\<lambda>t. if x \<noteq> 0 \<and> x \<noteq> TOMBSTONE then map_option snd (set_add (Suc depth) alloc t x) else Some t))
        (Some t1) xs = Some t'" "set_ok t'" "members t' = members t1 \<union> {x \<in> set xs. is_addr x}" "cap t' = cap t1"
      "fill t' \<le> fill t1 + length (filter is_addr xs)" by blast
    have "x \<noteq> 0 \<and> x \<noteq> TOMBSTONE" using True by (simp add: is_addr_def)
    then show ?thesis
      using t' t1 True by (intro Cons.prems(1) [of t']) (auto simp del: set_add.simps)
  next
    case False
    then have "2 * (fill t + length (filter is_addr xs)) \<le> cap t" using Cons.prems(3) by simp
    from Cons.IH [OF _ Cons.prems(2) this] obtain t' where t':
      "foldl (\<lambda>t x. Option.bind t (\<lambda>t. if x \<noteq> 0 \<and> x \<noteq> TOMBSTONE then map_option snd (set_add (Suc depth) alloc t x) else Some t))
        (Some t) xs = Some t'" "set_ok t'" "members t' = members t \<union> {x \<in> set xs. is_addr x}" "cap t' = cap t"
      "fill t' \<le> fill t + length (filter is_addr xs)" by blast
    have "\<not> (x \<noteq> 0 \<and> x \<noteq> TOMBSTONE)" using False by (simp add: is_addr_def)
    then show ?thesis
      using t' False by (intro Cons.prems(1) [of t']) (auto simp del: set_add.simps)
  qed
qed


lemma addr_count: "length (filter is_addr ss) \<le> used ss"
  by (induction ss) (auto simp: used_def is_addr_def)

lemma set_grow_spec:
  assumes "set_ok s" "alloc (if cap s \<noteq> 0 then cap s * 2 else 64)" "cap s < (fill s + 1) * 2"
  obtains t where "set_grow (set_add (Suc depth) alloc) alloc s = Some (True, t)" "set_ok t" "members t = members s"
    "(fill t + 1) * 2 \<le> cap t"
proof -
  let ?n = "if cap s \<noteq> 0 then cap s * 2 else 64"
  obtain k where k: "?n = 2 ^ k"
  proof (cases "cap s = 0")
    case True
    then show ?thesis by (intro that [of 6]) simp
  next
    case False
    then obtain k where "cap s = 2 ^ k" using assms(1) by (auto simp: set_ok_def)
    then show ?thesis by (intro that [of "Suc k"]) simp
  qed
  let ?e = "\<lparr>slot = replicate ?n 0, cap = ?n, fill = 0\<rparr>"
  have count: "length (filter is_addr (slot s)) \<le> fill s" using addr_count [of "slot s"] assms(1) by (simp add: set_ok_def)
  have "2 * fill s \<le> cap s" using assms(1) by (simp add: set_ok_def)
  then have room: "2 * (fill s + 1) \<le> ?n" by (cases "cap s = 0") (simp_all, presburger)
  have e: "set_ok ?e" "members ?e = {}" unfolding k by (rule empty_ok)+
  from refill [OF e(1), of "slot s" depth alloc] count room obtain t where t:
    "foldl (\<lambda>t x. Option.bind t (\<lambda>t. if x \<noteq> 0 \<and> x \<noteq> TOMBSTONE then map_option snd (set_add (Suc depth) alloc t x) else Some t))
      (Some ?e) (slot s) = Some t" "set_ok t" "members t = members ?e \<union> {x \<in> set (slot s). is_addr x}"
    "cap t = cap ?e" "fill t \<le> fill ?e + length (filter is_addr (slot s))" by auto
  show ?thesis
  proof (rule that)
    show "set_grow (set_add (Suc depth) alloc) alloc s = Some (True, t)"
      using assms(2) t(1) by (simp add: set_grow_def Let_def del: set_add.simps)
    show "set_ok t" by (rule t(2))
    show "members t = members s" using t(3) unfolding e(2) by (simp add: members_def)
    show "(fill t + 1) * 2 \<le> cap t" using t(4,5) count room by simp
  qed
qed

lemma set_add_spec:
  assumes "set_ok s" "is_addr x"
  obtains s' where "set_add 2 alloc s x = Some (True, s')" "set_ok s'" "members s' = insert x (members s)"
  | "set_add 2 alloc s x = Some (False, s)" "cap s < (fill s + 1) * 2" "\<not> alloc (if cap s \<noteq> 0 then cap s * 2 else 64)"
proof (cases "cap s < (fill s + 1) * 2")
  case True
  show ?thesis
  proof (cases "alloc (if cap s \<noteq> 0 then cap s * 2 else 64)")
    case yes: True
    from set_grow_spec [where alloc = alloc and depth = 0, OF assms(1) yes True] obtain t where t:
      "set_grow (set_add (Suc 0) alloc) alloc s = Some (True, t)" "set_ok t" "members t = members s" "(fill t + 1) * 2 \<le> cap t" .
    from add_loop_spec [OF t(2) assms(2) t(4)] obtain s' where s':
      "add_loop t x None (set_hash x (cap t)) = Some s'" "set_ok s'" "members s' = insert x (members t)" .
    show ?thesis
      by (rule that(1) [of s']) (use True t s' in \<open>simp_all add: numeral_2_eq_2 del: set_add.simps(2) add: set_add.simps(2) [of "Suc 0"]\<close>)
  next
    assume no: "\<not> alloc (if cap s \<noteq> 0 then cap s * 2 else 64)"
    then have "set_add 2 alloc s x = Some (False, s)"
      using True by (simp add: numeral_2_eq_2 set_grow_def)
    then show ?thesis using that(2) True no by blast
  qed
next
  case False
  then have "(fill s + 1) * 2 \<le> cap s" by simp
  from set_add_room [OF assms this, of 1 alloc] show ?thesis using that(1) by (auto simp: numeral_2_eq_2 simp del: set_add.simps)
qed


section \<open>The interface\<close>

text \<open>
  What a user of a set of page numbers relies on: the operations, which may fail to answer, an
  abstraction to a set, and their laws. An addition may be refused, when memory is not
  \<open>plentiful\<close>, and then leaves the set as it was. A user runs a sequence of operations; \<open>run_ops\<close>
  collects their answers, \<open>abstract_run\<close> is the same sequence on a set, given the answers.
\<close>

datatype 'a set_op = OpAdd 'a | OpDel 'a | OpClear

primrec op_step ::
  "'s \<Rightarrow> ('s \<Rightarrow> 'a \<Rightarrow> (bool \<times> 's) option) \<Rightarrow> ('s \<Rightarrow> 'a \<Rightarrow> 's option) \<Rightarrow> 's \<Rightarrow> 'a set_op \<Rightarrow> (bool \<times> 's) option" where
  "op_step new add del s (OpAdd x) = add s x"
| "op_step new add del s (OpDel x) = map_option (\<lambda>s. (True, s)) (del s x)"
| "op_step new add del s OpClear = Some (True, new)"

primrec run_ops ::
  "'s \<Rightarrow> ('s \<Rightarrow> 'a \<Rightarrow> (bool \<times> 's) option) \<Rightarrow> ('s \<Rightarrow> 'a \<Rightarrow> 's option) \<Rightarrow> 's \<Rightarrow> 'a set_op list \<Rightarrow> (bool list \<times> 's) option" where
  "run_ops new add del s [] = Some ([], s)"
| "run_ops new add del s (op # ops) =
     (case op_step new add del s op of
        None \<Rightarrow> None
      | Some (b, s) \<Rightarrow> map_option (\<lambda>(bs, s). (b # bs, s)) (run_ops new add del s ops))"

primrec abstract_step :: "'a set \<Rightarrow> 'a set_op \<Rightarrow> bool \<Rightarrow> 'a set" where
  "abstract_step S (OpAdd x) b = (if b then insert x S else S)"
| "abstract_step S (OpDel x) b = S - {x}"
| "abstract_step S OpClear b = {}"

definition abstract_run :: "'a set \<Rightarrow> 'a set_op list \<Rightarrow> bool list \<Rightarrow> 'a set" where
  "abstract_run S ops bs = foldl (\<lambda>S (op, b). abstract_step S op b) S (zip ops bs)"

primrec op_valid :: "('a \<Rightarrow> bool) \<Rightarrow> 'a set_op \<Rightarrow> bool" where
  "op_valid valid (OpAdd x) = valid x"
| "op_valid valid (OpDel x) = valid x"
| "op_valid valid OpClear = True"

locale page_set =
  fixes new :: 's
    and add :: "'s \<Rightarrow> 'a \<Rightarrow> (bool \<times> 's) option"
    and del :: "'s \<Rightarrow> 'a \<Rightarrow> 's option"
    and has :: "'s \<Rightarrow> 'a \<Rightarrow> bool option"
    and view :: "'s \<Rightarrow> 'a set"
    and ok :: "'s \<Rightarrow> bool"
    and valid :: "'a \<Rightarrow> bool"
    and plentiful :: bool
  assumes ok_empty: "ok new" and view_empty: "view new = {}"
    and has_view: "ok s \<Longrightarrow> valid x \<Longrightarrow> has s x = Some (x \<in> view s)"
    and add_view: "ok s \<Longrightarrow> valid x \<Longrightarrow>
      (\<exists>s'. add s x = Some (True, s') \<and> ok s' \<and> view s' = insert x (view s)) \<or> \<not> plentiful \<and> add s x = Some (False, s)"
    and del_view: "ok s \<Longrightarrow> valid x \<Longrightarrow> \<exists>s'. del s x = Some s' \<and> ok s' \<and> view s' = view s - {x}"
begin

lemma step_refines:
  assumes "ok s" "op_valid valid op"
  shows "\<exists>b s'. op_step new add del s op = Some (b, s') \<and> ok s' \<and> view s' = abstract_step (view s) op b \<and> (plentiful \<longrightarrow> b)"
proof (cases op)
  case (OpAdd x)
  with add_view [of s x] assms show ?thesis by auto
next
  case (OpDel x)
  with del_view [of s x] assms show ?thesis by auto
next
  case OpClear
  then show ?thesis by (intro exI [of _ True] exI [of _ new]) (simp add: ok_empty view_empty)
qed

lemma run_refines:
  assumes "ok s" "list_all (op_valid valid) ops"
  shows "\<exists>bs s'. run_ops new add del s ops = Some (bs, s') \<and> ok s' \<and> length bs = length ops \<and>
    view s' = abstract_run (view s) ops bs \<and> (plentiful \<longrightarrow> False \<notin> set bs)"
  using assms
proof (induction ops arbitrary: s)
  case Nil
  then show ?case by (simp add: abstract_run_def)
next
  case (Cons op ops)
  from step_refines [of s op] Cons.prems obtain b s1 where 1: "op_step new add del s op = Some (b, s1)" "ok s1"
    "view s1 = abstract_step (view s) op b" "plentiful \<longrightarrow> b" by auto
  from Cons.IH [OF 1(2)] Cons.prems obtain bs s' where "run_ops new add del s1 ops = Some (bs, s')" "ok s'"
    "length bs = length ops" "view s' = abstract_run (view s1) ops bs" "plentiful \<longrightarrow> False \<notin> set bs" by auto
  with 1 show ?case by (intro exI [of _ "b # bs"] exI [of _ s']) (simp add: abstract_run_def)
qed

text \<open>After any valid history, a lookup answers whether the abstract set has the element.\<close>

lemma history:
  assumes "list_all (op_valid valid) ops"
  shows "\<exists>bs s'. run_ops new add del new ops = Some (bs, s') \<and> length bs = length ops \<and>
    (plentiful \<longrightarrow> False \<notin> set bs) \<and> (\<forall>x. valid x \<longrightarrow> has s' x = Some (x \<in> abstract_run {} ops bs))"
  using run_refines [OF ok_empty assms] has_view by (auto simp: view_empty)

end

interpretation addr: page_set set_clear "set_add 2 alloc" set_del set_has members set_ok is_addr "\<forall>n. alloc n"
proof
  show "set_ok set_clear" "members set_clear = {}"
    by (simp_all add: set_clear_def set_ok_def members_def used_def once_def)
  show "set_has s x = Some (x \<in> members s)" if "set_ok s" "is_addr x" for s x
    using that by (rule set_has_spec)
  show "(\<exists>s'. set_add 2 alloc s x = Some (True, s') \<and> set_ok s' \<and> members s' = insert x (members s)) \<or>
      \<not> (\<forall>n. alloc n) \<and> set_add 2 alloc s x = Some (False, s)" if "set_ok s" "is_addr x" for s x
    by (rule set_add_spec [OF that, of alloc]) blast+
  show "\<exists>s'. set_del s x = Some s' \<and> set_ok s' \<and> members s' = members s - {x}" if "set_ok s" "is_addr x" for s x
    by (rule set_del_spec [OF that]) blast
qed

text \<open>C20. The page-number set is a set: after any sequence of additions, deletions and clearings of valid
  page numbers every operation has returned (no probe runs for ever), only failed allocations refuse
  an addition, and a lookup answers exactly whether the number is in the set that the accepted
  operations denote.\<close>

theorem page_numbers_form_a_set:
  assumes "list_all (op_valid is_addr) ops"
  shows "\<exists>bs s. run_ops set_clear (set_add 2 alloc) set_del set_clear ops = Some (bs, s) \<and> length bs = length ops \<and>
    ((\<forall>n. alloc n) \<longrightarrow> False \<notin> set bs) \<and>
    (\<forall>x. is_addr x \<longrightarrow> set_has s x = Some (x \<in> abstract_run {} ops bs))"
  using assms by (rule addr.history)

lemma page_numbers_form_a_set_witness:
  "\<exists>bs s. run_ops set_clear (set_add 2 (\<lambda>_. True)) set_del set_clear [OpAdd 5, OpAdd (9 :: u64), OpDel 5, OpAdd 7] = Some (bs, s) \<and>
     set_has s 9 = Some (9 \<in> abstract_run {} [OpAdd 5, OpAdd (9 :: u64), OpDel 5, OpAdd 7] bs)"
proof -
  have v: "is_addr 9" "list_all (op_valid is_addr) [OpAdd 5, OpAdd (9 :: u64), OpDel 5, OpAdd 7]"
    by (simp_all add: is_addr_def TOMBSTONE_def)
  from page_numbers_form_a_set [OF v(2), of "\<lambda>_. True"] v(1) show ?thesis by blast
qed

end
