(* ===== verification/Page_Cache.thy ===== *)
theory Page_Cache
  imports Addr_Set Store_Common
begin

text \<open>
  The page cache of \<^verbatim>\<open>src/gsql/store_util.c\<close> (\<^verbatim>\<open>Cache\<close>) with its pointers: hash chains through
  \<^verbatim>\<open>hnext\<close> and a circular doubly linked list, most recently used first, through \<^verbatim>\<open>prev\<close> and
  \<^verbatim>\<open>next\<close>, which a sentinel inside the cache closes; and the eviction loop of \<^verbatim>\<open>src/gsql/lsm.c\<close>
  that trims it. Addresses are numbers: 0 is NULL, 1 the sentinel. Loops over pointers are
  partial (\<open>None\<close>: they do not end); the invariant makes them end. A page's buffer is its bytes.
\<close>

section \<open>The code\<close>

record cpage =
  pgno :: u64
  ver :: u64
  buf :: bytes
  dirty :: int
  dead :: bool
  hnext :: nat
  pprev :: nat
  pnext :: nat

record cache =
  heap :: "nat \<Rightarrow> cpage"
  bucket :: "nat list"
  nbucket :: nat
  count :: nat

definition LRU :: nat where
  "LRU = 1"

definition key_hash :: "u64 \<Rightarrow> u64 \<Rightarrow> nat \<Rightarrow> nat" where
  "key_hash p v n = set_hash (p XOR v * 0x9E3779B97F4A7C15) n"

text \<open>Assignments through a pointer.\<close>

definition set_next :: "cache \<Rightarrow> nat \<Rightarrow> nat \<Rightarrow> cache" where
  "set_next c a v = c\<lparr>heap := (heap c)(a := (heap c a)\<lparr>pnext := v\<rparr>)\<rparr>"

definition set_prev :: "cache \<Rightarrow> nat \<Rightarrow> nat \<Rightarrow> cache" where
  "set_prev c a v = c\<lparr>heap := (heap c)(a := (heap c a)\<lparr>pprev := v\<rparr>)\<rparr>"

definition set_hnext :: "cache \<Rightarrow> nat \<Rightarrow> nat \<Rightarrow> cache" where
  "set_hnext c a v = c\<lparr>heap := (heap c)(a := (heap c a)\<lparr>hnext := v\<rparr>)\<rparr>"

definition lru_unlink :: "cache \<Rightarrow> nat \<Rightarrow> cache" where
  "lru_unlink c p =
     (let c = set_next c (pprev (heap c p)) (pnext (heap c p))
      in set_prev c (pnext (heap c p)) (pprev (heap c p)))"

definition lru_front :: "cache \<Rightarrow> nat \<Rightarrow> cache" where
  "lru_front c p =
     (let c = set_next c p (pnext (heap c LRU));
          c = set_prev c p LRU;
          c = set_prev c (pnext (heap c LRU)) p
      in set_next c LRU p)"

text \<open>\<open>h\<close> is the memory the cache finds; the buckets are cleared and the sentinel closes on itself.\<close>

definition cache_init :: "(nat \<Rightarrow> cpage) \<Rightarrow> cache" where
  "cache_init h =
     set_next (set_prev \<lparr>heap = h, bucket = replicate 1024 0, nbucket = 1024, count = 0\<rparr> LRU LRU) LRU LRU"

partial_function (option) find_loop :: "(nat \<Rightarrow> cpage) \<Rightarrow> nat \<Rightarrow> u64 \<Rightarrow> u64 \<Rightarrow> nat option" where
  "find_loop h p pg v =
     (if p = 0 then Some 0
      else if pgno (h p) = pg \<and> ver (h p) = v then Some p
      else find_loop h (hnext (h p)) pg v)"

definition cache_find :: "cache \<Rightarrow> u64 \<Rightarrow> u64 \<Rightarrow> nat option" where
  "cache_find c pg v = find_loop (heap c) (bucket c ! key_hash pg v (nbucket c)) pg v"

text \<open>Moving one chain to the new buckets \<open>b\<close> (of which there are \<open>nb\<close>), then all of them.\<close>

partial_function (option) rehash_chain ::
  "nat \<Rightarrow> nat \<Rightarrow> (nat \<Rightarrow> cpage) \<Rightarrow> nat list \<Rightarrow> ((nat \<Rightarrow> cpage) \<times> nat list) option" where
  "rehash_chain nb p h b =
     (if p = 0 then Some (h, b)
      else let n = hnext (h p); i = key_hash (pgno (h p)) (ver (h p)) nb
           in rehash_chain nb n (h(p := (h p)\<lparr>hnext := b ! i\<rparr>)) (b[i := p]))"

definition cache_rehash :: "bool \<Rightarrow> cache \<Rightarrow> cache option" where
  "cache_rehash alloc c =
     (if \<not> alloc then Some c
      else let nb = nbucket c * 2
           in map_option (\<lambda>(h, b). c\<lparr>heap := h, bucket := b, nbucket := nb\<rparr>)
                (foldl (\<lambda>r i. Option.bind r (\<lambda>(h, b). rehash_chain nb (bucket c ! i) h b))
                   (Some (heap c, replicate nb 0)) [0..<nbucket c]))"

text \<open>\<open>p\<close> is the address \<^verbatim>\<open>calloc\<close> gives the new page, 0 when it fails. The answer is the page.\<close>

definition cache_insert :: "bool \<Rightarrow> nat \<Rightarrow> cache \<Rightarrow> u64 \<Rightarrow> u64 \<Rightarrow> bytes \<Rightarrow> (nat \<times> cache) option" where
  "cache_insert alloc p c pg v data =
     Option.bind (if nbucket c < count c then cache_rehash alloc c else Some c)
       (\<lambda>c. if p = 0 then Some (0, c)
            else let i = key_hash pg v (nbucket c);
                     c = c\<lparr>heap := (heap c)(p := \<lparr>pgno = pg, ver = v, buf = data, dirty = 0, dead = False,
                            hnext = bucket c ! i, pprev = 0, pnext = 0\<rparr>)\<rparr>;
                     c = c\<lparr>bucket := (bucket c)[i := p]\<rparr>;
                     c = lru_front c p
                 in Some (p, c\<lparr>count := count c + 1\<rparr>))"

text \<open>The walk of the pointer to the pointer: the page before \<open>p\<close> in its chain.\<close>

partial_function (option) find_before :: "(nat \<Rightarrow> cpage) \<Rightarrow> nat \<Rightarrow> nat \<Rightarrow> nat option" where
  "find_before h q p = (if hnext (h q) = p then Some q else find_before h (hnext (h q)) p)"

definition cache_remove :: "cache \<Rightarrow> nat \<Rightarrow> cache option" where
  "cache_remove c p =
     (let i = key_hash (pgno (heap c p)) (ver (heap c p)) (nbucket c)
      in Option.bind
           (if bucket c ! i = p then Some (c\<lparr>bucket := (bucket c)[i := hnext (heap c p)]\<rparr>)
            else map_option (\<lambda>q. set_hnext c q (hnext (heap c p))) (find_before (heap c) (bucket c ! i) p))
           (\<lambda>c. let c = lru_unlink c p in Some (c\<lparr>count := count c - 1\<rparr>)))"

partial_function (option) cache_free :: "cache \<Rightarrow> cache option" where
  "cache_free c =
     (if pnext (heap c LRU) = LRU then Some c
      else Option.bind (cache_remove c (pnext (heap c LRU))) cache_free)"

text \<open>
  \<^verbatim>\<open>bcache_evict\<close>: from the least recently used page on, pages that are not pinned are removed
  until the blocks fit into \<open>limit\<close>. \<open>block_bytes\<close> reads the size a block's buffer records.
\<close>

partial_function (option) evict_loop ::
  "(bytes \<Rightarrow> nat) \<Rightarrow> nat \<Rightarrow> nat \<Rightarrow> nat \<Rightarrow> cache \<Rightarrow> (nat \<times> cache) option" where
  "evict_loop block_bytes limit p held c =
     (if limit < held \<and> p \<noteq> LRU then
        let q = pprev (heap c p)
        in if dirty (heap c p) = 0 then
             Option.bind (cache_remove c p)
               (evict_loop block_bytes limit q (held - block_bytes (buf (heap c p))))
           else evict_loop block_bytes limit q held c
      else Some (held, c))"

definition bcache_evict :: "(bytes \<Rightarrow> nat) \<Rightarrow> nat \<Rightarrow> nat \<Rightarrow> cache \<Rightarrow> (nat \<times> cache) option" where
  "bcache_evict block_bytes limit held c = evict_loop block_bytes limit (pprev (heap c LRU)) held c"

text \<open>The first branch of \<^verbatim>\<open>block_fetch\<close>: a page that is found becomes the most recently used.\<close>

definition cache_touch :: "cache \<Rightarrow> nat \<Rightarrow> cache" where
  "cache_touch c p = lru_front (lru_unlink c p) p"

text \<open>
  The store's fields the block cache uses. \<open>load\<close> is what reading, checking and parsing the block gave:
  the status of the failure, or the decoded block; \<open>alloc\<close> and \<open>p\<close> are the allocations of
  \<^verbatim>\<open>cache_insert\<close>. The answer is the status, the pinned page (0: none) and the store.
\<close>

record block_store =
  bcache :: cache
  bcache_bytes :: nat
  cache_bytes :: nat
  cache_hits :: nat

definition pin :: "cache \<Rightarrow> nat \<Rightarrow> int \<Rightarrow> cache" where
  "pin c p d = c\<lparr>heap := (heap c)(p := (heap c p)\<lparr>dirty := dirty (heap c p) + d\<rparr>)\<rparr>"

definition evict_store :: "(bytes \<Rightarrow> nat) \<Rightarrow> block_store \<Rightarrow> block_store option" where
  "evict_store block_bytes db =
     map_option (\<lambda>(n, c). db\<lparr>bcache := c, bcache_bytes := n\<rparr>)
       (bcache_evict block_bytes (cache_bytes db) (bcache_bytes db) (bcache db))"

definition block_fetch ::
  "(bytes \<Rightarrow> nat) \<Rightarrow> bool \<Rightarrow> nat \<Rightarrow> gs_status + bytes \<Rightarrow> block_store \<Rightarrow> u64 \<Rightarrow> nat \<Rightarrow>
   (gs_status \<times> nat \<times> block_store) option" where
  "block_fetch block_bytes alloc p load db num bi =
     (let v = of_nat (bi + 1);
          pinned = \<lambda>p db. map_option (\<lambda>db. (GS_OK, p, db))
            (evict_store block_bytes (db\<lparr>bcache := pin (bcache db) p 1\<rparr>))
      in Option.bind (cache_find (bcache db) num v)
        (\<lambda>q. if q \<noteq> 0 then
               pinned q (db\<lparr>cache_hits := cache_hits db + 1, bcache := cache_touch (bcache db) q\<rparr>)
             else (case load of
                 Inl rc \<Rightarrow> Some (rc, 0, db)
               | Inr data \<Rightarrow>
                   Option.bind (cache_insert alloc p (bcache db) num v data)
                     (\<lambda>(q, c). if q = 0 then Some (GS_IO, 0, db\<lparr>bcache := c\<rparr>)
                       else pinned q (db\<lparr>bcache := c, bcache_bytes := bcache_bytes db + block_bytes data\<rparr>)))))"

text \<open>\<^verbatim>\<open>src_unpin\<close>: an iterator leaves its block.\<close>

definition src_unpin :: "block_store \<Rightarrow> nat \<Rightarrow> block_store" where
  "src_unpin db p = (if p \<noteq> 0 then db\<lparr>bcache := pin (bcache db) p (- 1)\<rparr> else db)"

end
