(* ===== verification/Page_Cache_Props.thy ===== *)
theory Page_Cache_Props
  imports "HOL-Library.Sublist" "HOL-Library.Multiset" Page_Cache
begin

text \<open>
  The page cache keeps its promises: \<open>cache_ok c ps\<close> relates a cache to the list of its pages, most
  recently used first. The list is read off the ring (\<open>path\<close>), every page is in the chain of its
  key's bucket (\<open>chain\<close>), and each operation is one operation on the list.
\<close>

section \<open>Paths and chains\<close>

text \<open>The ring from \<open>a\<close> over \<open>xs\<close> to \<open>b\<close>, linked both ways; a hash chain.\<close>

primrec path :: "(nat \<Rightarrow> cpage) \<Rightarrow> nat \<Rightarrow> nat list \<Rightarrow> nat \<Rightarrow> bool" where
  "path h a [] b \<longleftrightarrow> pnext (h a) = b \<and> pprev (h b) = a"
| "path h a (x # xs) b \<longleftrightarrow> pnext (h a) = x \<and> pprev (h x) = a \<and> path h x xs b"

primrec chain :: "(nat \<Rightarrow> cpage) \<Rightarrow> nat \<Rightarrow> nat list \<Rightarrow> bool" where
  "chain h p [] \<longleftrightarrow> p = 0"
| "chain h p (x # xs) \<longleftrightarrow> p = x \<and> x \<noteq> 0 \<and> chain h (hnext (h x)) xs"

lemma path_append: "path h a (xs @ y # ys) b \<longleftrightarrow> path h a xs y \<and> path h y ys b"
  by (induction xs arbitrary: a) auto

lemma path_first: "path h a xs b \<Longrightarrow> pnext (h a) = hd (xs @ [b])"
  by (cases xs) auto

lemma path_last: "path h a xs b \<Longrightarrow> pprev (h b) = last (a # xs)"
  by (induction xs arbitrary: a) auto

lemma path_cong:
  "\<forall>x \<in> set (a # xs). pnext (h' x) = pnext (h x) \<Longrightarrow> \<forall>x \<in> set (xs @ [b]). pprev (h' x) = pprev (h x) \<Longrightarrow>
   path h' a xs b = path h a xs b"
  by (induction xs arbitrary: a) auto

lemma chain_cong: "\<forall>x \<in> set xs. hnext (h' x) = hnext (h x) \<Longrightarrow> chain h' p xs = chain h p xs"
  by (induction xs arbitrary: p) auto

lemma chain_nonzero: "chain h p xs \<Longrightarrow> 0 \<notin> set xs"
  by (induction xs arbitrary: p) auto

text \<open>What an assignment through a pointer changes.\<close>

named_theorems heap_simps \<open>fields after an assignment through a pointer\<close>

lemma set_fields [heap_simps]:
  "pnext (heap (set_next c a v) x) = (if x = a then v else pnext (heap c x))"
  "pprev (heap (set_next c a v) x) = pprev (heap c x)" "hnext (heap (set_next c a v) x) = hnext (heap c x)"
  "pprev (heap (set_prev c a v) x) = (if x = a then v else pprev (heap c x))"
  "pnext (heap (set_prev c a v) x) = pnext (heap c x)" "hnext (heap (set_prev c a v) x) = hnext (heap c x)"
  "hnext (heap (set_hnext c a v) x) = (if x = a then v else hnext (heap c x))"
  "pnext (heap (set_hnext c a v) x) = pnext (heap c x)" "pprev (heap (set_hnext c a v) x) = pprev (heap c x)"
  by (simp_all add: set_next_def set_prev_def set_hnext_def)

text \<open>The content of a page and the bookkeeping of the cache, which the links never touch.\<close>

definition content :: "cache \<Rightarrow> nat \<Rightarrow> u64 \<times> u64 \<times> bytes \<times> int \<times> bool" where
  "content c p = (let q = heap c p in (pgno q, ver q, buf q, dirty q, dead q))"

lemma content_fields:
  "content c' p = content c p \<Longrightarrow> pgno (heap c' p) = pgno (heap c p) \<and> ver (heap c' p) = ver (heap c p) \<and>
     buf (heap c' p) = buf (heap c p) \<and> dirty (heap c' p) = dirty (heap c p)"
  by (simp add: content_def Let_def)

lemma set_content [heap_simps]:
  "content (set_next c a v) x = content c x" "content (set_prev c a v) x = content c x"
  "content (set_hnext c a v) x = content c x"
  "bucket (set_next c a v) = bucket c" "bucket (set_prev c a v) = bucket c" "bucket (set_hnext c a v) = bucket c"
  "nbucket (set_next c a v) = nbucket c" "nbucket (set_prev c a v) = nbucket c" "nbucket (set_hnext c a v) = nbucket c"
  "count (set_next c a v) = count c" "count (set_prev c a v) = count c" "count (set_hnext c a v) = count c"
  by (simp_all add: content_def set_next_def set_prev_def set_hnext_def Let_def)

lemma unlink_fields [heap_simps]:
  assumes "pprev (heap c p) \<noteq> p"
  shows "pnext (heap (lru_unlink c p) x) = (if x = pprev (heap c p) then pnext (heap c p) else pnext (heap c x))"
    "pprev (heap (lru_unlink c p) x) = (if x = pnext (heap c p) then pprev (heap c p) else pprev (heap c x))"
  using assms by (simp_all add: lru_unlink_def Let_def heap_simps)

lemma front_fields [heap_simps]:
  assumes "p \<noteq> LRU"
  shows "pnext (heap (lru_front c p) x) =
      (if x = LRU then p else if x = p then pnext (heap c LRU) else pnext (heap c x))"
    "pprev (heap (lru_front c p) x) =
      (if x = pnext (heap c LRU) then p else if x = p then LRU else pprev (heap c x))"
  using assms by (simp_all add: lru_front_def Let_def heap_simps)

lemma lru_others [heap_simps]:
  "hnext (heap (lru_unlink c p) x) = hnext (heap c x)" "hnext (heap (lru_front c p) x) = hnext (heap c x)"
  "content (lru_unlink c p) x = content c x" "content (lru_front c p) x = content c x"
  "bucket (lru_unlink c p) = bucket c" "bucket (lru_front c p) = bucket c"
  "nbucket (lru_unlink c p) = nbucket c" "nbucket (lru_front c p) = nbucket c"
  "count (lru_unlink c p) = count c" "count (lru_front c p) = count c"
  by (simp_all add: lru_unlink_def lru_front_def Let_def heap_simps)

section \<open>The ring\<close>

lemma unlink_path:
  assumes "path (heap c) a (xs @ p # ys) b" "distinct (xs @ p # ys)" "a \<notin> set (xs @ p # ys)" "b \<notin> set (xs @ p # ys)"
  shows "path (heap (lru_unlink c p)) a (xs @ ys) b"
proof -
  let ?h = "heap (lru_unlink c p)"
  have x: "path (heap c) a xs p" and y: "path (heap c) p ys b" using assms(1) by (simp_all add: path_append)
  have u: "pprev (heap c p) = last (a # xs)" and v: "pnext (heap c p) = hd (ys @ [b])"
    using path_last [OF x] path_first [OF y] by simp_all
  have neq: "pprev (heap c p) \<noteq> p" using u assms(2,3) by (auto split: if_splits dest: last_in_set)
  note f = unlink_fields [OF neq, unfolded u v]
  have right: "path ?h w ys b" if w: "w = last (a # xs)" for w
  proof (cases ys)
    case Nil
    then show ?thesis using w by (simp add: f)
  next
    case (Cons z zs)
    have "path ?h z zs b = path (heap c) z zs b"
      using assms Cons by (intro path_cong) (auto simp: f last_ConsR dest: last_in_set split: if_splits)
    then show ?thesis using y Cons w by (simp add: f)
  qed
  show ?thesis
  proof (cases xs rule: rev_cases)
    case Nil
    then show ?thesis using right by simp
  next
    case (snoc zs w)
    have "path ?h a zs w = path (heap c) a zs w"
      using assms snoc by (intro path_cong) (cases ys; auto simp: f)+
    then show ?thesis using right [of w] x snoc by (simp add: path_append)
  qed
qed

lemma front_path:
  assumes "path (heap c) LRU ps LRU" "distinct ps" "LRU \<notin> set ps" "p \<notin> set ps" "p \<noteq> LRU"
  shows "path (heap (lru_front c p)) LRU (p # ps) LRU"
proof -
  note f = front_fields [OF assms(5), of c, unfolded path_first [OF assms(1)]]
  show ?thesis
  proof (cases ps)
    case Nil
    then show ?thesis using assms by (simp add: f)
  next
    case (Cons z zs)
    have "path (heap (lru_front c p)) z zs LRU = path (heap c) z zs LRU"
      using assms Cons by (intro path_cong) (auto simp: f)
    then show ?thesis using assms Cons by (auto simp: f)
  qed
qed

section \<open>Hash chains\<close>

definition hash_of :: "(nat \<Rightarrow> cpage) \<Rightarrow> nat \<Rightarrow> nat \<Rightarrow> nat" where
  "hash_of h n p = key_hash (pgno (h p)) (ver (h p)) n"

text \<open>Every page of \<open>D\<close> is in exactly the chain of its own bucket.\<close>

definition buckets_ok :: "(nat \<Rightarrow> cpage) \<Rightarrow> nat list \<Rightarrow> nat \<Rightarrow> nat set \<Rightarrow> bool" where
  "buckets_ok h b n D \<longleftrightarrow> length b = n \<and> (\<exists>k. n = 2 ^ k) \<and>
     (\<forall>i < n. \<exists>xs. chain h (b ! i) xs \<and> distinct xs \<and> set xs = {p \<in> D. hash_of h n p = i})"

lemma key_hash_less: "n = 2 ^ k \<Longrightarrow> key_hash p v n < n"
  by (simp only: key_hash_def set_hash_less)

lemma bucketsD:
  assumes "buckets_ok h b n D"
  shows "length b = n" "0 < n" "key_hash p v n < n" "hash_of h n q < n"
    "i < n \<Longrightarrow> \<exists>xs. chain h (b ! i) xs \<and> distinct xs \<and> set xs = {p \<in> D. hash_of h n p = i}"
  using assms key_hash_less by (auto simp: buckets_ok_def hash_of_def)

lemma buckets_cong:
  assumes "buckets_ok h b n D"
    "\<And>p. p \<in> D \<Longrightarrow> hnext (h' p) = hnext (h p) \<and> pgno (h' p) = pgno (h p) \<and> ver (h' p) = ver (h p)"
  shows "buckets_ok h' b n D"
proof -
  have "hash_of h' n p = hash_of h n p" if "p \<in> D" for p using assms(2) [OF that] by (simp add: hash_of_def)
  then have s: "{p \<in> D. hash_of h' n p = i} = {p \<in> D. hash_of h n p = i}" for i by auto
  have "chain h' q xs" if "chain h q xs" "set xs \<subseteq> D" for q xs
    using that assms(2) chain_cong [of xs h' h q] by auto
  then show ?thesis using assms(1) unfolding buckets_ok_def s by (metis (mono_tags, lifting) mem_Collect_eq subsetI)
qed

text \<open>One bucket changes, with the pages that hash to it.\<close>

lemma buckets_update:
  assumes b: "buckets_ok h b n D" and i: "i < n"
    and new: "chain h' q ys" "distinct ys" "set ys = {p \<in> D'. hash_of h' n p = i}"
    and same: "\<And>p. p \<in> D \<and> hash_of h n p \<noteq> i \<or> p \<in> D' \<and> hash_of h' n p \<noteq> i \<Longrightarrow>
      p \<in> D \<and> p \<in> D' \<and> hash_of h' n p = hash_of h n p \<and> hnext (h' p) = hnext (h p)"
  shows "buckets_ok h' (b[i := q]) n D'"
proof -
  have "\<exists>xs. chain h' (b[i := q] ! j) xs \<and> distinct xs \<and> set xs = {p \<in> D'. hash_of h' n p = j}" if j: "j < n" for j
  proof (cases "j = i")
    case True
    then show ?thesis using new i bucketsD(1) [OF b] by auto
  next
    case False
    from bucketsD(5) [OF b j] obtain xs where xs: "chain h (b ! j) xs" "distinct xs" "set xs = {p \<in> D. hash_of h n p = j}" by auto
    have "x \<in> D \<and> hash_of h n x = j \<longleftrightarrow> x \<in> D' \<and> hash_of h' n x = j" for x
      using same [of x] False by (cases "x \<in> D \<and> hash_of h n x \<noteq> i"; cases "x \<in> D' \<and> hash_of h' n x \<noteq> i") auto
    then have "set xs = {p \<in> D'. hash_of h' n p = j}" unfolding xs(3) by blast
    moreover have "chain h' (b ! j) xs" using xs(1) chain_cong [of xs h' h] same False xs(3) by auto
    ultimately show ?thesis using False xs(2) by auto
  qed
  then show ?thesis using b by (auto simp: buckets_ok_def)
qed

lemma find_loop_chain:
  "chain h p xs \<Longrightarrow>
   find_loop h p pg v = Some (case find (\<lambda>x. pgno (h x) = pg \<and> ver (h x) = v) xs of None \<Rightarrow> 0 | Some x \<Rightarrow> x)"
  by (induction xs arbitrary: p) (auto simp: find_loop.simps)

lemma find_before_chain:
  "chain h q (ys @ r # p # zs) \<Longrightarrow> distinct (ys @ r # p # zs) \<Longrightarrow> find_before h q p = Some r"
proof (induction ys arbitrary: q)
  case Nil
  then show ?case by (subst find_before.simps) simp
next
  case (Cons y ys)
  then have "hnext (h y) \<noteq> p" by (cases ys) auto
  then show ?case using Cons by (subst find_before.simps) simp
qed

lemma chain_unlink:
  assumes "hnext (h' r) = hnext (h p)" "\<And>x. x \<noteq> r \<Longrightarrow> hnext (h' x) = hnext (h x)"
  shows "chain h q (ys @ r # p # zs) \<Longrightarrow> distinct (ys @ r # p # zs) \<Longrightarrow> chain h' q (ys @ r # zs)"
proof (induction ys arbitrary: q)
  case Nil
  then have "\<forall>x \<in> set zs. hnext (h' x) = hnext (h x)" by (intro ballI assms(2)) auto
  from chain_cong [OF this] show ?case using Nil assms(1) by auto
next
  case (Cons y ys)
  then show ?case using assms(2) [of y] by auto
qed

section \<open>The invariant\<close>

definition cache_ok :: "cache \<Rightarrow> nat list \<Rightarrow> bool" where
  "cache_ok c ps \<longleftrightarrow> distinct ps \<and> 0 \<notin> set ps \<and> LRU \<notin> set ps \<and> path (heap c) LRU ps LRU \<and>
     buckets_ok (heap c) (bucket c) (nbucket c) (set ps) \<and> count c = length ps"

lemma cache_okD:
  assumes "cache_ok c ps"
  shows "distinct ps" "0 \<notin> set ps" "LRU \<notin> set ps" "path (heap c) LRU ps LRU"
    "buckets_ok (heap c) (bucket c) (nbucket c) (set ps)" "count c = length ps"
  using assms by (simp_all add: cache_ok_def)

lemma hash_of_content: "content c' p = content c q \<Longrightarrow> hash_of (heap c') n p = hash_of (heap c) n q"
  by (simp add: hash_of_def content_def Let_def)

lemma cache_init_ok: "cache_ok (cache_init h) []"
proof -
  have "buckets_ok g (replicate 1024 0) 1024 {}" for g
    unfolding buckets_ok_def by (intro conjI allI impI exI [of _ "10 :: nat"] exI [of _ "[]"]) simp_all
  then show ?thesis by (simp add: cache_ok_def cache_init_def heap_simps)
qed

lemma cache_find_spec:
  assumes "cache_ok c ps"
  obtains q where "cache_find c pg v = Some q"
    "q = 0 \<and> (\<forall>x \<in> set ps. \<not> (pgno (heap c x) = pg \<and> ver (heap c x) = v)) \<or>
     q \<in> set ps \<and> pgno (heap c q) = pg \<and> ver (heap c q) = v"
proof -
  let ?i = "key_hash pg v (nbucket c)"
  note b = bucketsD [OF cache_okD(5) [OF assms]]
  from b(5) [OF b(3)] obtain xs where xs: "chain (heap c) (bucket c ! ?i) xs"
    "set xs = {p \<in> set ps. hash_of (heap c) (nbucket c) p = ?i}" by blast
  show ?thesis
  proof (cases "find (\<lambda>x. pgno (heap c x) = pg \<and> ver (heap c x) = v) xs")
    case None
    then have "\<forall>x \<in> set ps. \<not> (pgno (heap c x) = pg \<and> ver (heap c x) = v)"
      using xs(2) by (auto simp: find_None_iff hash_of_def)
    moreover have "cache_find c pg v = Some 0" using None find_loop_chain [OF xs(1), of pg v] by (simp add: cache_find_def)
    ultimately show ?thesis using that by blast
  next
    case (Some q)
    then have "q \<in> set xs \<and> pgno (heap c q) = pg \<and> ver (heap c q) = v" by (auto simp: find_Some_iff)
    moreover have "cache_find c pg v = Some q" using Some find_loop_chain [OF xs(1), of pg v] by (simp add: cache_find_def)
    ultimately show ?thesis using that xs(2) by blast
  qed
qed

section \<open>Moving, removing, inserting\<close>

lemma ring_unlink:
  assumes "cache_ok c ps" "p \<in> set ps"
  shows "path (heap (lru_unlink c p)) LRU (remove1 p ps) LRU"
proof -
  from split_list_first [OF assms(2)] obtain xs ys where ps: "ps = xs @ p # ys" "p \<notin> set xs" by blast
  have "path (heap (lru_unlink c p)) LRU (xs @ ys) LRU"
    by (rule unlink_path) (use cache_okD [OF assms(1)] in \<open>simp_all add: ps\<close>)
  then show ?thesis using ps by (simp add: remove1_append)
qed

lemma buckets_links:
  "buckets_ok (heap c) b n D \<Longrightarrow> \<forall>p. hnext (heap c' p) = hnext (heap c p) \<Longrightarrow> \<forall>p. content c' p = content c p \<Longrightarrow>
   buckets_ok (heap c') b n D"
  by (rule buckets_cong) (auto dest: content_fields)

lemma cache_touch_ok:
  assumes "cache_ok c ps" "p \<in> set ps"
  shows "cache_ok (cache_touch c p) (p # remove1 p ps)" "content (cache_touch c p) x = content c x"
proof -
  note k = cache_okD [OF assms(1)]
  have s: "set (p # remove1 p ps) = set ps" using assms(2) k(1) by auto
  have "path (heap (cache_touch c p)) LRU (p # remove1 p ps) LRU" unfolding cache_touch_def
    by (rule front_path [OF ring_unlink [OF assms]]) (use k assms(2) in auto)
  moreover have "buckets_ok (heap (cache_touch c p)) (bucket c) (nbucket c) (set ps)"
    by (rule buckets_links [OF k(5)]) (simp_all add: cache_touch_def heap_simps)
  ultimately show "cache_ok (cache_touch c p) (p # remove1 p ps)"
    unfolding cache_ok_def s using k assms(2) length_pos_if_in_set [OF assms(2)]
    by (auto simp: cache_touch_def heap_simps length_remove1)
qed (simp add: cache_touch_def heap_simps)

text \<open>The chain part of a removal: \<open>c1\<close> is the cache with \<open>p\<close> out of its bucket.\<close>

lemma unchain:
  assumes b: "buckets_ok (heap c) (bucket c) (nbucket c) D" and p: "p \<in> D"
  obtains c1 where
    "(let i = key_hash (pgno (heap c p)) (ver (heap c p)) (nbucket c)
      in if bucket c ! i = p then Some (c\<lparr>bucket := (bucket c)[i := hnext (heap c p)]\<rparr>)
         else map_option (\<lambda>q. set_hnext c q (hnext (heap c p))) (find_before (heap c) (bucket c ! i) p)) = Some c1"
    "buckets_ok (heap c1) (bucket c1) (nbucket c1) (D - {p})" "\<forall>x. content c1 x = content c x"
    "\<forall>x. pnext (heap c1 x) = pnext (heap c x)" "\<forall>x. pprev (heap c1 x) = pprev (heap c x)" "count c1 = count c"
    "nbucket c1 = nbucket c"
proof -
  define i where "i = hash_of (heap c) (nbucket c) p"
  note bd = bucketsD [OF b]
  have i: "i < nbucket c" unfolding i_def by (rule bd(4))
  from bd(5) [OF i] obtain xs where xs: "chain (heap c) (bucket c ! i) xs" "distinct xs"
    "set xs = {x \<in> D. hash_of (heap c) (nbucket c) x = i}" by blast
  have "p \<in> set xs" using p xs(3) i_def by simp
  then obtain us zs where us: "xs = us @ p # zs" by (auto dest: split_list)
  show ?thesis
  proof (cases us rule: rev_cases)
    case Nil
    let ?c = "c\<lparr>bucket := (bucket c)[i := hnext (heap c p)]\<rparr>"
    have "buckets_ok (heap c) ((bucket c)[i := hnext (heap c p)]) (nbucket c) (D - {p})"
      by (rule buckets_update [OF b i]) (use xs us Nil in \<open>auto simp: i_def\<close>)
    then show ?thesis using xs(1) us Nil by (intro that [of ?c]) (auto simp: content_def i_def hash_of_def Let_def)
  next
    case (snoc vs r)
    let ?c = "set_hnext c r (hnext (heap c p))"
    have q: "xs = vs @ r # p # zs" using snoc us by simp
    have r: "find_before (heap c) (bucket c ! i) p = Some r"
      by (rule find_before_chain [OF xs(1) [unfolded q] xs(2) [unfolded q]])
    have ne: "bucket c ! i \<noteq> p" using xs(1,2) unfolding q by (cases vs) auto
    have ch: "chain (heap ?c) (bucket c ! i) (vs @ r # zs)"
      by (rule chain_unlink [OF _ _ xs(1) [unfolded q] xs(2) [unfolded q]]) (simp_all add: heap_simps)
    have hc: "hash_of (heap ?c) m x = hash_of (heap c) m x" for m x by (rule hash_of_content) (simp add: heap_simps)
    have rD: "hash_of (heap c) (nbucket c) r = i" using xs(3) q by auto
    have sD: "set (vs @ r # zs) = {x \<in> D - {p}. hash_of (heap ?c) (nbucket c) x = i}"
      using xs(2,3) unfolding q hc by auto
    have "buckets_ok (heap ?c) ((bucket c)[i := bucket c ! i]) (nbucket c) (D - {p})"
      by (rule buckets_update [OF b i ch _ sD]) (use xs(2) q rD in \<open>auto simp: hc heap_simps i_def\<close>)
    then show ?thesis using r ne by (intro that [of ?c]) (auto simp: heap_simps i_def hash_of_def Let_def)
  qed
qed

lemma cache_remove_ok:
  assumes "cache_ok c ps" "p \<in> set ps"
  obtains c' where "cache_remove c p = Some c'" "cache_ok c' (remove1 p ps)" "\<forall>x. content c' x = content c x"
proof -
  note k = cache_okD [OF assms(1)]
  obtain c1 where c1: "(let i = key_hash (pgno (heap c p)) (ver (heap c p)) (nbucket c)
      in if bucket c ! i = p then Some (c\<lparr>bucket := (bucket c)[i := hnext (heap c p)]\<rparr>)
         else map_option (\<lambda>q. set_hnext c q (hnext (heap c p))) (find_before (heap c) (bucket c ! i) p)) = Some c1"
    "buckets_ok (heap c1) (bucket c1) (nbucket c1) (set ps - {p})" "\<forall>x. content c1 x = content c x"
    "\<forall>x. pnext (heap c1 x) = pnext (heap c x)" "\<forall>x. pprev (heap c1 x) = pprev (heap c x)" "count c1 = count c"
    by (rule unchain [OF k(5) assms(2)])
  have r: "cache_remove c p = Some (let c = lru_unlink c1 p in c\<lparr>count := count c - 1\<rparr>)" (is "_ = Some ?c'")
    using c1(1) by (simp add: cache_remove_def Let_def)
  have h: "heap ?c' = heap (lru_unlink c1 p)" by (simp add: Let_def)
  have "pnext (heap (lru_unlink c1 p) x) = pnext (heap (lru_unlink c p) x) \<and>
      pprev (heap (lru_unlink c1 p) x) = pprev (heap (lru_unlink c p) x)" for x
    using c1(4,5) by (simp add: lru_unlink_def Let_def heap_simps)
  then have "path (heap ?c') LRU (remove1 p ps) LRU"
    unfolding h using ring_unlink [OF assms] path_cong [of LRU _ "heap (lru_unlink c1 p)" "heap (lru_unlink c p)"] by simp
  moreover have "buckets_ok (heap ?c') (bucket c1) (nbucket c1) (set ps - {p})"
    unfolding h by (rule buckets_links [OF c1(2)]) (simp_all add: heap_simps)
  ultimately have "cache_ok ?c' (remove1 p ps)"
    using k assms(2) c1(6) by (auto simp: cache_ok_def Let_def heap_simps length_remove1 set_remove1_eq dest: in_set_remove1 notin_set_remove1)
  moreover have "content ?c' x = content c x" for x
    using c1(3) lru_others(3) [of c1 p x] by (simp add: content_def Let_def)
  ultimately show ?thesis using r by (intro that [of ?c']) simp_all
qed

lemma cache_free_ok:
  "cache_ok c ps \<Longrightarrow> \<exists>c'. cache_free c = Some c' \<and> cache_ok c' []"
proof (induction ps arbitrary: c)
  case Nil
  then show ?case using path_first [OF cache_okD(4) [OF Nil]] by (subst cache_free.simps) simp
next
  case (Cons p ps)
  from cache_remove_ok [OF Cons.prems, of p] obtain c' where c': "cache_remove c p = Some c'" "cache_ok c' ps" by auto
  have "pnext (heap c LRU) = p" "p \<noteq> LRU" using cache_okD [OF Cons.prems] by auto
  then show ?case using c' Cons.IH [OF c'(2)] by (subst cache_free.simps) simp
qed

section \<open>Growing\<close>

definition only_hnext :: "(nat \<Rightarrow> cpage) \<Rightarrow> (nat \<Rightarrow> cpage) \<Rightarrow> bool" where
  "only_hnext h h' \<longleftrightarrow> (\<forall>x. pgno (h' x) = pgno (h x) \<and> ver (h' x) = ver (h x) \<and> buf (h' x) = buf (h x) \<and>
     dirty (h' x) = dirty (h x) \<and> dead (h' x) = dead (h x) \<and> pnext (h' x) = pnext (h x) \<and> pprev (h' x) = pprev (h x))"

lemma only_hnext_hash: "only_hnext h h' \<Longrightarrow> hash_of h' n x = hash_of h n x"
  by (simp add: only_hnext_def hash_of_def)

lemma only_hnext_trans: "only_hnext h h1 \<Longrightarrow> only_hnext h1 h2 \<Longrightarrow> only_hnext h h2"
  by (simp add: only_hnext_def)

lemma only_hnext_step: "only_hnext h (h(p := (h p)\<lparr>hnext := v\<rparr>))"
  by (simp add: only_hnext_def)

text \<open>Putting one page at the head of its bucket.\<close>

lemma push_page:
  assumes b: "buckets_ok h b n D" and p: "p \<notin> D" "p \<noteq> 0"
    and h': "\<And>x. x \<noteq> p \<Longrightarrow> h' x = h x" "hnext (h' p) = b ! i" "hash_of h' n p = i"
  shows "buckets_ok h' (b[i := p]) n (insert p D)"
proof -
  have i: "i < n" unfolding h'(3) [symmetric] using bucketsD(3) [OF b] by (simp add: hash_of_def)
  have same: "hash_of h' n x = hash_of h n x" if "x \<noteq> p" for x using h'(1) [OF that] by (simp add: hash_of_def)
  from bucketsD(5) [OF b i] obtain xs where xs: "chain h (b ! i) xs" "distinct xs" "set xs = {x \<in> D. hash_of h n x = i}" by blast
  have "p \<notin> set xs" using xs(3) p by simp
  then have "\<forall>x \<in> set xs. hnext (h' x) = hnext (h x)" using h'(1) by metis
  from chain_cong [OF this, of "b ! i"] have ch: "chain h' p (p # xs)" using xs(1) p(2) h'(2) by simp
  have d: "distinct (p # xs)" using xs(2) \<open>p \<notin> set xs\<close> by simp
  have ne: "x \<noteq> p" if "x \<in> D" for x using that p(1) by blast
  have e: "set (p # xs) = {x \<in> insert p D. hash_of h' n x = i}" using xs(3) h'(3) same [OF ne] by auto
  show ?thesis
  proof (rule buckets_update [OF b i ch d e])
    fix x assume "x \<in> D \<and> hash_of h n x \<noteq> i \<or> x \<in> insert p D \<and> hash_of h' n x \<noteq> i"
    then have "x \<noteq> p" "x \<in> D" using h'(3) p(1) by auto
    then show "x \<in> D \<and> x \<in> insert p D \<and> hash_of h' n x = hash_of h n x \<and> hnext (h' x) = hnext (h x)"
      using same h'(1) by simp
  qed
qed

lemma rehash_chain_ok:
  "chain h p xs \<Longrightarrow> distinct xs \<Longrightarrow> buckets_ok h b nb D \<Longrightarrow> set xs \<inter> D = {} \<Longrightarrow>
   \<exists>h' b'. rehash_chain nb p h b = Some (h', b') \<and> buckets_ok h' b' nb (D \<union> set xs) \<and> only_hnext h h' \<and>
     (\<forall>x. x \<notin> set xs \<longrightarrow> hnext (h' x) = hnext (h x))"
proof (induction xs arbitrary: h p b D)
  case Nil
  then show ?case by (subst rehash_chain.simps) (simp add: only_hnext_def)
next
  case (Cons x xs)
  define i where "i = hash_of h nb x"
  define h1 where "h1 = h(x := (h x)\<lparr>hnext := b ! i\<rparr>)"
  have px: "p = x" "x \<noteq> 0" "x \<notin> D" "x \<notin> set xs" using Cons.prems by auto
  have o1: "only_hnext h h1" unfolding h1_def by (rule only_hnext_step)
  have r: "rehash_chain nb p h b = rehash_chain nb (hnext (h x)) h1 (b[i := x])"
    using px by (subst rehash_chain.simps) (simp add: h1_def i_def hash_of_def Let_def)
  have b1: "buckets_ok h1 (b[i := x]) nb (insert x D)"
    by (rule push_page [OF Cons.prems(3) px(3,2)]) (simp_all add: only_hnext_hash [OF o1] i_def, simp_all add: h1_def i_def)
  have "\<forall>y \<in> set xs. hnext (h1 y) = hnext (h y)" using px(4) by (auto simp: h1_def)
  then have "chain h1 (hnext (h x)) xs" using Cons.prems(1) chain_cong [of xs h1 h] by simp
  from Cons.IH [OF this _ b1] Cons.prems obtain h' b' where
    "rehash_chain nb (hnext (h x)) h1 (b[i := x]) = Some (h', b')" "buckets_ok h' b' nb (insert x D \<union> set xs)"
    "only_hnext h1 h'" "\<forall>y. y \<notin> set xs \<longrightarrow> hnext (h' y) = hnext (h1 y)" by auto
  then show ?case using r only_hnext_trans [OF o1] by (auto simp: h1_def)
qed

lemma rehash_fold:
  assumes b: "buckets_ok h b n D" and z: "0 < nb" "nb = 2 ^ k"
  shows "m \<le> n \<Longrightarrow> \<exists>h' b'. foldl (\<lambda>r i. Option.bind r (\<lambda>(h, b'). rehash_chain nb (b ! i) h b')) (Some (h, replicate nb 0)) [0..<m] = Some (h', b') \<and>
      buckets_ok h' b' nb {p \<in> D. hash_of h n p < m} \<and> only_hnext h h' \<and>
      (\<forall>x \<in> D. m \<le> hash_of h n x \<longrightarrow> hnext (h' x) = hnext (h x))"
proof (induction m)
  case 0
  have "buckets_ok h (replicate nb 0) nb {}" using z by (auto simp: buckets_ok_def intro: exI [of _ "[]"])
  then show ?case by (simp add: only_hnext_def)
next
  case (Suc m)
  then obtain h1 b1 where 1: "foldl (\<lambda>r i. Option.bind r (\<lambda>(h, b'). rehash_chain nb (b ! i) h b')) (Some (h, replicate nb 0)) [0..<m] = Some (h1, b1)"
    "buckets_ok h1 b1 nb {p \<in> D. hash_of h n p < m}" "only_hnext h h1"
    "\<forall>x \<in> D. m \<le> hash_of h n x \<longrightarrow> hnext (h1 x) = hnext (h x)" by auto
  from bucketsD(5) [OF b, of m] Suc.prems obtain xs where
    xs: "chain h (b ! m) xs" "distinct xs" "set xs = {p \<in> D. hash_of h n p = m}" by auto
  have "\<forall>x \<in> set xs. hnext (h1 x) = hnext (h x)" using xs(3) 1(4) by simp
  from chain_cong [OF this] have c1: "chain h1 (b ! m) xs" using xs(1) by simp
  have dj: "set xs \<inter> {p \<in> D. hash_of h n p < m} = {}" using xs(3) by auto
  obtain h2 b2 where 2: "rehash_chain nb (b ! m) h1 b1 = Some (h2, b2)"
    "buckets_ok h2 b2 nb ({p \<in> D. hash_of h n p < m} \<union> set xs)" "only_hnext h1 h2"
    "\<forall>x. x \<notin> set xs \<longrightarrow> hnext (h2 x) = hnext (h1 x)" using rehash_chain_ok [OF c1 xs(2) 1(2) dj] by blast
  have D: "{p \<in> D. hash_of h n p < m} \<union> set xs = {p \<in> D. hash_of h n p < Suc m}"
    unfolding xs(3) less_Suc_eq by blast
  have "hnext (h2 x) = hnext (h x)" if "x \<in> D" "Suc m \<le> hash_of h n x" for x
  proof -
    have "x \<notin> set xs" "m \<le> hash_of h n x" using that xs(3) by auto
    then show ?thesis using 1(4) 2(4) that(1) by metis
  qed
  then show ?case using 2(2) unfolding D
    using 1(1) 2(1) only_hnext_trans [OF 1(3) 2(3)] by auto
qed

lemma content_only_hnext: "only_hnext (heap c) (heap c') \<Longrightarrow> content c' x = content c x"
  by (simp add: only_hnext_def content_def Let_def)

lemma cache_rehash_ok:
  assumes "cache_ok c ps"
  obtains c' where "cache_rehash alloc c = Some c'" "cache_ok c' ps" "\<forall>x. content c' x = content c x"
proof (cases alloc)
  case True
  note k = cache_okD [OF assms]
  obtain m where m: "nbucket c = 2 ^ m" using k(5) by (auto simp: buckets_ok_def)
  from rehash_fold [OF k(5), of "nbucket c * 2" "Suc m" "nbucket c"] m
  obtain h' b' where f: "foldl (\<lambda>r i. Option.bind r (\<lambda>(h, b'). rehash_chain (nbucket c * 2) (bucket c ! i) h b')) (Some (heap c, replicate (nbucket c * 2) 0)) [0..<nbucket c] = Some (h', b')"
    "buckets_ok h' b' (nbucket c * 2) {p \<in> set ps. hash_of (heap c) (nbucket c) p < nbucket c}" "only_hnext (heap c) h'" by auto
  let ?c = "c\<lparr>heap := h', bucket := b', nbucket := nbucket c * 2\<rparr>"
  have D: "{p \<in> set ps. hash_of (heap c) (nbucket c) p < nbucket c} = set ps" using bucketsD(4) [OF k(5)] by auto
  have "path h' LRU ps LRU" using k(4) f(3) path_cong [of LRU ps h' "heap c" LRU] by (simp add: only_hnext_def)
  then have "cache_ok ?c ps" using k f(2) D by (simp add: cache_ok_def)
  moreover have "content ?c x = content c x" for x using f(3) by (intro content_only_hnext) simp
  ultimately show ?thesis using f(1) True by (intro that [of ?c]) (simp_all add: cache_rehash_def Let_def)
qed (use assms that in \<open>auto simp: cache_rehash_def\<close>)

lemma cache_insert_ok:
  assumes "cache_ok c ps" "p \<noteq> LRU" "p \<notin> set ps"
  obtains c' where "cache_insert alloc p c pg v data = Some (p, c')" "\<forall>x. x \<noteq> p \<longrightarrow> content c' x = content c x"
    "if p = 0 then cache_ok c' ps else cache_ok c' (p # ps) \<and> content c' p = (pg, v, data, 0, False)"
proof -
  obtain c1 where c1: "(if nbucket c < count c then cache_rehash alloc c else Some c) = Some c1" "cache_ok c1 ps"
    "\<forall>x. content c1 x = content c x"
    using cache_rehash_ok [OF assms(1), of alloc] assms(1) by (metis (full_types))
  note k = cache_okD [OF c1(2)]
  show ?thesis
  proof (cases "p = 0")
    case True
    then show ?thesis using c1 by (intro that [of c1]) (simp_all add: cache_insert_def)
  next
    case False
    define i where "i = key_hash pg v (nbucket c1)"
    define c2 where "c2 = c1\<lparr>heap := (heap c1)(p := \<lparr>pgno = pg, ver = v, buf = data, dirty = 0, dead = False,
       hnext = bucket c1 ! i, pprev = 0, pnext = 0\<rparr>), bucket := (bucket c1)[i := p]\<rparr>"
    have r: "cache_insert alloc p c pg v data = Some (p, (lru_front c2 p)\<lparr>count := count c1 + 1\<rparr>)" (is "_ = Some (p, ?c)")
      unfolding cache_insert_def c1(1) by (simp add: False Let_def i_def c2_def heap_simps)
    have "buckets_ok (heap c2) (bucket c2) (nbucket c2) (insert p (set ps))"
      using push_page [OF k(5) assms(3) False, of "heap c2" i] by (simp add: c2_def hash_of_def i_def)
    then have "buckets_ok (heap ?c) (bucket c2) (nbucket c2) (insert p (set ps))"
      by (rule buckets_links) (simp_all add: heap_simps content_def lru_front_def set_next_def set_prev_def Let_def)
    moreover have "path (heap c2) LRU ps LRU"
      using k(4) assms(2,3) path_cong [of LRU ps "heap c2" "heap c1" LRU] by (auto simp: c2_def)
    then have "path (heap ?c) LRU (p # ps) LRU" using front_path [of c2 ps p] k assms(2,3) by simp
    ultimately have "cache_ok ?c (p # ps)"
      using k assms False by (simp add: cache_ok_def heap_simps c2_def)
    moreover have "content ?c x = content c2 x" for x using lru_others(4) [of c2 p x] by (simp add: content_def Let_def)
    moreover have "content c2 x = (if x = p then (pg, v, data, 0, False) else content c1 x)" for x
      by (simp add: c2_def content_def Let_def)
    ultimately show ?thesis using r c1(3) False by (intro that [of ?c]) simp_all
  qed
qed

section \<open>Eviction\<close>

text \<open>The block cache as a list of entries, most recently used first: number, version, data, pins, dead.\<close>

type_synonym entry = "u64 \<times> u64 \<times> bytes \<times> int \<times> bool"

fun entry_key :: "entry \<Rightarrow> u64 \<times> u64" where "entry_key (pg, v, b, d, x) = (pg, v)"
fun entry_data :: "entry \<Rightarrow> bytes" where "entry_data (pg, v, b, d, x) = b"
fun entry_pins :: "entry \<Rightarrow> int" where "entry_pins (pg, v, b, d, x) = d"
fun entry_pin :: "int \<Rightarrow> entry \<Rightarrow> entry" where "entry_pin k (pg, v, b, d, x) = (pg, v, b, d + k, x)"

definition entries :: "block_store \<Rightarrow> nat list \<Rightarrow> entry list" where
  "entries db ps = map (content (bcache db)) ps"

definition total_bytes :: "(bytes \<Rightarrow> nat) \<Rightarrow> entry list \<Rightarrow> nat" where
  "total_bytes block_bytes es = sum_list (map (block_bytes \<circ> entry_data) es)"

lemma content_parts:
  "entry_key (content c x) = (pgno (heap c x), ver (heap c x))" "entry_data (content c x) = buf (heap c x)"
  "entry_pins (content c x) = dirty (heap c x)"
  by (simp_all add: content_def Let_def)

text \<open>From the least recently used entry on: unpinned entries go while the total is over the limit.\<close>

fun evict_rev :: "(bytes \<Rightarrow> nat) \<Rightarrow> nat \<Rightarrow> nat \<Rightarrow> entry list \<Rightarrow> nat \<times> entry list" where
  "evict_rev block_bytes limit held [] = (held, [])"
| "evict_rev block_bytes limit held (e # es) =
     (if limit < held then
        if entry_pins e = 0 then evict_rev block_bytes limit (held - block_bytes (entry_data e)) es
        else (case evict_rev block_bytes limit held es of (held, es) \<Rightarrow> (held, e # es))
      else (held, e # es))"

lemma evict_rev_total:
  "evict_rev bb limit (total_bytes bb es + k) es = (held', es') \<Longrightarrow> held' = total_bytes bb es' + k"
proof (induction es arbitrary: k held' es')
  case (Cons e es)
  let ?b = "bb (entry_data e)"
  have t: "total_bytes bb (e # xs) = ?b + total_bytes bb xs" for xs by (simp add: total_bytes_def)
  have m: "?b + total_bytes bb es + k - ?b = total_bytes bb es + k" "?b + total_bytes bb es + k = total_bytes bb es + (?b + k)" by simp_all
  obtain h r where r: "evict_rev bb limit (total_bytes bb es + (?b + k)) es = (h, r)" by fastforce
  show ?case using Cons.prems Cons.IH [of k held' es'] Cons.IH [OF r]
    unfolding evict_rev.simps t m(1) by (simp add: m(2) r t split: if_splits) (auto simp: t)
qed (simp add: total_bytes_def)

lemma evict_rev_fits:
  "evict_rev bb limit held es = (held', es') \<Longrightarrow> held' \<le> limit \<or> (\<forall>e \<in> set es'. entry_pins e \<noteq> 0)"
proof (induction es arbitrary: held held' es')
  case (Cons e es)
  obtain h r where r: "evict_rev bb limit held es = (h, r)" by fastforce
  show ?case using Cons.prems Cons.IH [OF r] Cons.IH [of "held - bb (entry_data e)" held' es'] r by (auto split: if_splits)
qed simp

lemma evict_rev_keeps:
  "evict_rev bb limit held es = (held', es') \<Longrightarrow>
   subseq es' es \<and> (\<forall>e \<in> set es. entry_pins e \<noteq> 0 \<longrightarrow> e \<in> set es')"
proof (induction es arbitrary: held held' es')
  case (Cons e es)
  then show ?case by (cases "evict_rev bb limit held es") (auto split: if_splits)
qed simp

lemma evict_loop_ok:
  "cache_ok c (rev rs @ ks) \<Longrightarrow>
   \<exists>held' c' rs'. evict_loop bb limit (hd (rs @ [LRU])) held c = Some (held', c') \<and> cache_ok c' (rev rs' @ ks) \<and>
     (\<forall>x. content c' x = content c x) \<and> subseq rs' rs \<and>
     evict_rev bb limit held (map (content c) rs) = (held', map (content c) rs')"
proof (induction rs arbitrary: c ks held)
  case Nil
  then show ?case by (subst evict_loop.simps) auto
next
  case (Cons p rs)
  note k = cache_okD [OF Cons.prems]
  have p: "p \<noteq> LRU" "p \<in> set (rev (p # rs) @ ks)" using k(3) by auto
  have prev: "pprev (heap c p) = hd (rs @ [LRU])"
    using k(4) path_last [of "heap c" LRU "rev rs" p] by (simp add: path_append last_rev split: if_splits)
  have cont: "buf (heap c p) = entry_data (content c p)" "dirty (heap c p) = entry_pins (content c p)"
    by (simp_all add: content_parts)
  show ?case
  proof (cases "limit < held \<and> entry_pins (content c p) = 0")
    case True
    from cache_remove_ok [OF Cons.prems p(2)] obtain c1 where c1: "cache_remove c p = Some c1"
      "cache_ok c1 (remove1 p (rev (p # rs) @ ks))" "\<forall>x. content c1 x = content c x" by metis
    have "remove1 p (rev (p # rs) @ ks) = rev rs @ ks" using k(1) by (simp add: remove1_append)
    with Cons.IH [of c1 ks "held - bb (entry_data (content c p))"] c1(2,3) show ?thesis
      using True p(1) c1(1) prev by (subst evict_loop.simps) (auto simp: cont)
  next
    case False
    from Cons.IH [of c "p # ks" held] Cons.prems obtain held' c' rs' where
      "evict_loop bb limit (hd (rs @ [LRU])) held c = Some (held', c')" "cache_ok c' (rev rs' @ p # ks)"
      "\<forall>x. content c' x = content c x" "subseq rs' rs"
      "evict_rev bb limit held (map (content c) rs) = (held', map (content c) rs')" by auto
    then show ?thesis
    proof (cases "limit < held")
      case True
      with False \<open>subseq rs' rs\<close> \<open>cache_ok c' (rev rs' @ p # ks)\<close> \<open>\<forall>x. content c' x = content c x\<close>
        \<open>evict_loop bb limit (hd (rs @ [LRU])) held c = Some (held', c')\<close>
        \<open>evict_rev bb limit held (map (content c) rs) = (held', map (content c) rs')\<close>
      show ?thesis using p(1) prev
        by (subst evict_loop.simps) (auto simp: cont intro!: exI [of _ "p # rs'"])
    next
      case no: False
      then show ?thesis using Cons.prems by (subst evict_loop.simps) (auto intro!: exI [of _ "p # rs"])
    qed
  qed
qed

section \<open>The block cache\<close>

definition store_ok :: "(bytes \<Rightarrow> nat) \<Rightarrow> block_store \<Rightarrow> nat list \<Rightarrow> bool" where
  "store_ok block_bytes db ps \<longleftrightarrow> cache_ok (bcache db) ps \<and> distinct (map entry_key (entries db ps)) \<and>
     bcache_bytes db = total_bytes block_bytes (entries db ps) \<and> (\<forall>e \<in> set (entries db ps). 0 \<le> entry_pins e)"

text \<open>What a fetch does to the list: to the front and pinned, from the cache or loaded; then eviction.\<close>

definition lru_evict :: "(bytes \<Rightarrow> nat) \<Rightarrow> nat \<Rightarrow> entry list \<Rightarrow> entry list" where
  "lru_evict block_bytes limit es = rev (snd (evict_rev block_bytes limit (total_bytes block_bytes es) (rev es)))"

definition lru_fetch ::
  "(bytes \<Rightarrow> nat) \<Rightarrow> nat \<Rightarrow> bool \<Rightarrow> gs_status + bytes \<Rightarrow> u64 \<times> u64 \<Rightarrow> entry list \<Rightarrow> gs_status \<times> bool \<times> entry list" where
  "lru_fetch block_bytes limit mem load k es =
     (case (find (\<lambda>e. entry_key e = k) es, load) of
        (Some e, _) \<Rightarrow> (GS_OK, True, lru_evict block_bytes limit (entry_pin 1 e # remove1 e es))
      | (None, Inl rc) \<Rightarrow> (rc, False, es)
      | (None, Inr data) \<Rightarrow>
          if \<not> mem then (GS_IO, False, es)
          else (GS_OK, True, lru_evict block_bytes limit ((fst k, snd k, data, 1, False) # es)))"

lemma pin_fields:
  "content (pin c p d) x = (if x = p then entry_pin d (content c x) else content c x)"
  "cache_ok c ps \<Longrightarrow> cache_ok (pin c p d) ps"
proof -
  let ?h = "heap (pin c p d)"
  have h: "hnext (?h x) = hnext (heap c x) \<and> pnext (?h x) = pnext (heap c x) \<and> pprev (?h x) = pprev (heap c x) \<and>
      pgno (?h x) = pgno (heap c x) \<and> ver (?h x) = ver (heap c x)" for x
    by (simp add: pin_def)
  show "content (pin c p d) x = (if x = p then entry_pin d (content c x) else content c x)"
    by (simp add: content_def pin_def Let_def)
  assume ok: "cache_ok c ps"
  have "path ?h LRU ps LRU" using cache_okD(4) [OF ok] path_cong [of LRU ps ?h "heap c" LRU] h by simp
  moreover have "buckets_ok ?h (bucket c) (nbucket c) (set ps)"
    by (rule buckets_cong [OF cache_okD(5) [OF ok]]) (use h in auto)
  ultimately show "cache_ok (pin c p d) ps" using ok by (simp add: cache_ok_def pin_def)
qed

lemma distinct_map_remove1: "distinct (map f xs) \<Longrightarrow> distinct (map f (remove1 x xs))"
  by (induction xs) (use set_remove1_subset in \<open>fastforce+\<close>)

lemma map_remove1_inj: "inj_on f (insert x (set xs)) \<Longrightarrow> map f (remove1 x xs) = remove1 (f x) (map f xs)"
  by (induction xs) (auto simp: inj_on_def)

lemma subseq_distinct: "subseq xs ys \<Longrightarrow> distinct ys \<Longrightarrow> distinct xs"
  by (auto simp: subseq_conv_nths)

lemma subseq_set: "subseq xs ys \<Longrightarrow> set xs \<subseteq> set ys"
  using set_nths_subset by (fastforce simp: subseq_conv_nths)

lemma subseq_rev: "subseq xs ys \<Longrightarrow> subseq (rev xs) (rev ys)"
  by (induction rule: list_emb.induct) (auto intro: subseq_rev_drop_many list_emb_append_mono)

lemma evict_store_ok:
  assumes "cache_ok (bcache db) ps" "bcache_bytes db = total_bytes bb (entries db ps)"
  obtains db' ps' where "evict_store bb db = Some db'" "cache_ok (bcache db') ps'" "subseq ps' ps"
    "entries db' ps' = lru_evict bb (cache_bytes db) (entries db ps)" "bcache_bytes db' = total_bytes bb (entries db' ps')"
    "\<forall>x. content (bcache db') x = content (bcache db) x" "cache_bytes db' = cache_bytes db"
proof -
  note k = cache_okD [OF assms(1)]
  have last: "pprev (heap (bcache db) LRU) = hd (rev ps @ [LRU])"
    using path_last [OF k(4)] by (simp add: hd_append hd_rev)
  have tot: "total_bytes bb (rev es) = total_bytes bb es" for es
    by (simp add: total_bytes_def rev_map [symmetric])
  from evict_loop_ok [of "bcache db" "rev ps" "[]" bb "cache_bytes db" "bcache_bytes db"] assms(1)
  obtain held' c' rs' where e: "bcache_evict bb (cache_bytes db) (bcache_bytes db) (bcache db) = Some (held', c')"
    "cache_ok c' (rev rs')" "\<forall>x. content c' x = content (bcache db) x" "subseq rs' (rev ps)"
    "evict_rev bb (cache_bytes db) (bcache_bytes db) (map (content (bcache db)) (rev ps)) = (held', map (content (bcache db)) rs')"
    by (auto simp: bcache_evict_def last)
  have en: "map (content (bcache db)) (rev ps) = rev (entries db ps)" by (simp add: entries_def rev_map)
  have "subseq (rev rs') ps" using e(4) by (metis rev_rev_ident subseq_rev)
  moreover have "held' = total_bytes bb (map (content (bcache db)) rs')"
    using evict_rev_total [of bb "cache_bytes db" "rev (entries db ps)" 0 held'] e(5) assms(2) en by (simp add: tot)
  moreover have "lru_evict bb (cache_bytes db) (entries db ps) = rev (map (content (bcache db)) rs')"
    unfolding lru_evict_def using e(5) by (simp only: en assms(2)) simp
  moreover have "content c' = content (bcache db)" using e(3) by (intro ext) simp
  ultimately show ?thesis using e(1,2)
    by (intro that [of "db\<lparr>bcache := c', bcache_bytes := held'\<rparr>" "rev rs'"])
      (simp_all add: evict_store_def entries_def rev_map tot [unfolded rev_map] flip: rev_map)
qed

lemma store_key_inj:
  assumes "store_ok bb db ps" "x \<in> set ps" "y \<in> set ps"
    "entry_key (content (bcache db) x) = entry_key (content (bcache db) y)"
  shows "x = y"
  using assms cache_okD(1) [of "bcache db" ps]
  by (auto simp: store_ok_def entries_def distinct_map inj_on_def)

text \<open>Pinning the page at the front and evicting: the common end of both branches of a fetch.\<close>

lemma pin_and_evict:
  assumes ok: "cache_ok (bcache db) (q # ps)" and keys: "distinct (map entry_key (entries db (q # ps)))"
    and bytes: "bcache_bytes db = total_bytes bb (entries db (q # ps))"
    and pins: "\<forall>e \<in> set (entries db (q # ps)). 0 \<le> entry_pins e"
  obtains db' ps' where "evict_store bb (db\<lparr>bcache := pin (bcache db) q 1\<rparr>) = Some db'" "store_ok bb db' ps'" "q \<in> set ps'"
    "entries db' ps' = lru_evict bb (cache_bytes db) (entry_pin 1 (content (bcache db) q) # entries db ps)"
    "entry_key (content (bcache db') q) = entry_key (content (bcache db) q)" "cache_bytes db' = cache_bytes db"
proof -
  let ?db = "db\<lparr>bcache := pin (bcache db) q 1\<rparr>"
  have q: "q \<notin> set ps" "distinct ps" using cache_okD(1) [OF ok] by auto
  have pk: "entry_key (entry_pin 1 e) = entry_key e" "entry_data (entry_pin 1 e) = entry_data e" "entry_pins (entry_pin 1 e) = entry_pins e + 1" for e
    by (cases e, simp)+
  have map_pin: "map (content (pin (bcache db) q 1)) ps = map (content (bcache db)) ps"
    using q by (auto simp: pin_fields)
  have es: "entries ?db (q # ps) = entry_pin 1 (content (bcache db) q) # entries db ps"
    using map_pin by (simp add: entries_def pin_fields)
  have ok': "cache_ok (bcache ?db) (q # ps)" using pin_fields(2) [OF ok] by simp
  have bytes': "bcache_bytes ?db = total_bytes bb (entries ?db (q # ps))"
    using bytes unfolding es by (simp add: total_bytes_def entries_def pk)
  obtain db' ps' where e: "evict_store bb ?db = Some db'" "cache_ok (bcache db') ps'" "subseq ps' (q # ps)"
    "entries db' ps' = lru_evict bb (cache_bytes db) (entries ?db (q # ps))" "bcache_bytes db' = total_bytes bb (entries db' ps')"
    "\<forall>x. content (bcache db') x = content (pin (bcache db) q 1) x" "cache_bytes db' = cache_bytes db"
    using evict_store_ok [OF ok' bytes'] by auto
  have en: "entries db' xs = entries ?db xs" for xs using e(6) by (simp add: entries_def)
  have sub: "subseq (entries db' ps') (entries ?db (q # ps))" unfolding en unfolding entries_def by (rule subseq_map [OF e(3)])
  have pos: "\<forall>e \<in> set (entries ?db (q # ps)). 0 \<le> entry_pins e" using pins unfolding es by (simp add: entries_def pk)
  have "map entry_key (entries ?db (q # ps)) = map entry_key (entries db (q # ps))" unfolding es by (simp add: entries_def pk)
  from keys [folded this] have "distinct (map entry_key (entries ?db (q # ps)))" .
  then have "distinct (map entry_key (entries db' ps'))" by (rule subseq_distinct [OF subseq_map [OF sub, of entry_key]])
  moreover have "\<forall>e \<in> set (entries db' ps'). 0 \<le> entry_pins e" using pos subseq_set [OF sub] by blast
  ultimately have "store_ok bb db' ps'" using e(2,5) by (simp add: store_ok_def)
  moreover have "q \<in> set ps'"
  proof -
    have "entry_pin 1 (content (bcache db) q) \<in> set (entries db' ps')"
      unfolding e(4) lru_evict_def es
      using evict_rev_keeps [of bb "cache_bytes db" _ "rev (entry_pin 1 (content (bcache db) q) # entries db ps)"]
        pins by (simp add: pk entries_def) (metis (no_types, lifting) pk(3) add_nonneg_eq_0_iff in_set_conv_decomp prod.collapse zero_neq_one zero_le_one)
    then obtain x where x: "x \<in> set ps'" "content (bcache db') x = entry_pin 1 (content (bcache db) q)"
      by (auto simp: entries_def)
    have "x \<in> set (q # ps)" using x(1) subseq_set [OF e(3)] by blast
    moreover have "entry_key (content (bcache db) x) = entry_key (content (bcache db) q)"
      using x(2) e(6) by (cases "x = q") (auto simp: pin_fields pk)
    ultimately have "x = q" using keys by (simp add: entries_def image_iff) metis
    then show ?thesis using x(1) by simp
  qed
  ultimately show ?thesis using e es by (intro that [of db' ps']) (simp_all add: pin_fields pk)
qed

lemma find_entry:
  assumes "cache_ok (bcache db) ps"
  obtains q where "cache_find (bcache db) (fst k) (snd k) = Some q"
    "q = 0 \<and> find (\<lambda>e. entry_key e = k) (entries db ps) = None \<or>
     q \<in> set ps \<and> q \<noteq> 0 \<and> entry_key (content (bcache db) q) = k"
proof -
  obtain q where q: "cache_find (bcache db) (fst k) (snd k) = Some q"
    "q = 0 \<and> (\<forall>x \<in> set ps. \<not> (pgno (heap (bcache db) x) = fst k \<and> ver (heap (bcache db) x) = snd k)) \<or>
     q \<in> set ps \<and> pgno (heap (bcache db) q) = fst k \<and> ver (heap (bcache db) q) = snd k"
    by (rule cache_find_spec [OF assms])
  have "q \<in> set ps \<Longrightarrow> q \<noteq> 0" using cache_okD(2) [OF assms] by metis
  with q show ?thesis by (intro that) (auto simp: find_None_iff entries_def content_parts prod_eq_iff)
qed

lemma find_unique:
  assumes "store_ok bb db ps" "q \<in> set ps"
  shows "find (\<lambda>e. entry_key e = entry_key (content (bcache db) q)) (entries db ps) = Some (content (bcache db) q)"
    "map (content (bcache db)) (remove1 q ps) = remove1 (content (bcache db) q) (entries db ps)"
proof -
  let ?P = "\<lambda>e. entry_key e = entry_key (content (bcache db) q)"
  have "find ?P (entries db ps) \<noteq> None" using assms(2) by (auto simp: find_None_iff entries_def)
  then obtain e where e: "find ?P (entries db ps) = Some e" by auto
  then have "e \<in> set (entries db ps) \<and> ?P e" by (auto simp: find_Some_iff)
  then obtain x where "x \<in> set ps" "e = content (bcache db) x" "?P (content (bcache db) x)" by (auto simp: entries_def)
  with store_key_inj [OF assms(1) _ assms(2)] e show "find ?P (entries db ps) = Some (content (bcache db) q)" by metis
  have "inj_on (content (bcache db)) (insert q (set ps))"
    using store_key_inj [OF assms(1)] assms(2) by (auto simp: inj_on_def)
  then show "map (content (bcache db)) (remove1 q ps) = remove1 (content (bcache db) q) (entries db ps)"
    unfolding entries_def by (rule map_remove1_inj)
qed

lemma fetch_hit:
  assumes ok: "store_ok bb db ps" and q: "q \<in> set ps"
  obtains db' ps' where
    "evict_store bb (db\<lparr>cache_hits := n, bcache := pin (cache_touch (bcache db) q) q 1\<rparr>) = Some db'"
    "store_ok bb db' ps'" "q \<in> set ps'" "cache_bytes db' = cache_bytes db"
    "entries db' ps' = lru_evict bb (cache_bytes db) (entry_pin 1 (content (bcache db) q) # remove1 (content (bcache db) q) (entries db ps))"
    "entry_key (content (bcache db') q) = entry_key (content (bcache db) q)"
proof -
  let ?db = "db\<lparr>cache_hits := n, bcache := cache_touch (bcache db) q\<rparr>"
  have c: "cache_ok (bcache db) ps" and keys: "distinct (map entry_key (entries db ps))" using ok by (auto simp: store_ok_def)
  note t = cache_touch_ok [OF c q]
  have es: "entries ?db xs = entries db xs" for xs using t(2) by (simp add: entries_def)
  have rm: "entries db (remove1 q ps) = remove1 (content (bcache db) q) (entries db ps)"
    using find_unique(2) [OF ok q] by (simp add: entries_def)
  have ms: "mset (entries db (q # remove1 q ps)) = mset (entries db ps)"
    unfolding entries_def mset_map using q by (intro arg_cong [of _ _ "image_mset _"]) simp
  have "distinct (map entry_key (entries ?db (q # remove1 q ps)))"
    using keys ms unfolding es by (metis mset_eq_imp_distinct_iff mset_map)
  moreover have "bcache_bytes ?db = total_bytes bb (entries ?db (q # remove1 q ps))"
    unfolding es total_bytes_def using ms ok by (simp add: store_ok_def total_bytes_def) (metis mset_map sum_mset_sum_list)
  moreover have "\<forall>e \<in> set (entries ?db (q # remove1 q ps)). 0 \<le> entry_pins e"
    unfolding es using ok mset_eq_setD [OF ms] by (simp add: store_ok_def)
  moreover have "cache_ok (bcache ?db) (q # remove1 q ps)" using t(1) by simp
  ultimately obtain db' ps' where e: "evict_store bb (?db\<lparr>bcache := pin (bcache ?db) q 1\<rparr>) = Some db'" "store_ok bb db' ps'" "q \<in> set ps'"
    "entries db' ps' = lru_evict bb (cache_bytes ?db) (entry_pin 1 (content (bcache ?db) q) # entries ?db (remove1 q ps))"
    "entry_key (content (bcache db') q) = entry_key (content (bcache ?db) q)" "cache_bytes db' = cache_bytes ?db"
    by (metis pin_and_evict)
  from e(1,4-6) show ?thesis by (intro that [OF _ e(2,3)]) (simp_all add: es rm t(2))
qed

lemma fetch_miss:
  assumes ok: "store_ok bb db ps" and p: "p \<noteq> LRU" "p \<notin> set ps" "p \<noteq> 0"
    and new: "find (\<lambda>e. entry_key e = (pg, v)) (entries db ps) = None"
    and c: "cache_insert alloc p (bcache db) pg v data = Some (p, c')" "\<forall>x. x \<noteq> p \<longrightarrow> content c' x = content (bcache db) x"
      "cache_ok c' (p # ps)" "content c' p = (pg, v, data, 0, False)"
  obtains db' ps' where
    "evict_store bb (db\<lparr>bcache_bytes := bcache_bytes db + bb data, bcache := pin c' p 1\<rparr>) = Some db'"
    "store_ok bb db' ps'" "p \<in> set ps'" "cache_bytes db' = cache_bytes db"
    "entries db' ps' = lru_evict bb (cache_bytes db) ((pg, v, data, 1, False) # entries db ps)"
    "entry_key (content (bcache db') p) = (pg, v)"
proof -
  let ?db = "db\<lparr>bcache_bytes := bcache_bytes db + bb data, bcache := c'\<rparr>"
  have es: "entries ?db ps = entries db ps" using c(2) p(2) by (auto simp: entries_def)
  then have es1: "entries ?db (p # ps) = (pg, v, data, 0, False) # entries db ps" using c(4) by (simp add: entries_def)
  have "distinct (map entry_key (entries ?db (p # ps)))"
    using ok new unfolding es1 by (auto simp: store_ok_def find_None_iff)
  moreover have "bcache_bytes ?db = total_bytes bb (entries ?db (p # ps))"
    using ok unfolding es1 by (simp add: store_ok_def total_bytes_def)
  moreover have "\<forall>e \<in> set (entries ?db (p # ps)). 0 \<le> entry_pins e"
    using ok unfolding es1 by (simp add: store_ok_def)
  moreover have "cache_ok (bcache ?db) (p # ps)" using c(3) by simp
  ultimately obtain db' ps' where e: "evict_store bb (?db\<lparr>bcache := pin (bcache ?db) p 1\<rparr>) = Some db'" "store_ok bb db' ps'" "p \<in> set ps'"
    "entries db' ps' = lru_evict bb (cache_bytes ?db) (entry_pin 1 (content (bcache ?db) p) # entries ?db ps)"
    "entry_key (content (bcache db') p) = entry_key (content (bcache ?db) p)" "cache_bytes db' = cache_bytes ?db"
    by (metis pin_and_evict)
  from e(1,4-6) show ?thesis by (intro that [OF _ e(2,3)]) (simp_all add: es c(4))
qed

lemma block_fetch_refines:
  assumes ok: "store_ok bb db ps" and p: "p \<noteq> LRU" "p \<notin> set ps"
  shows "\<exists>rc q db' ps'. block_fetch bb alloc p load db num bi = Some (rc, q, db') \<and> store_ok bb db' ps' \<and>
    lru_fetch bb (cache_bytes db) (p \<noteq> 0) load (num, of_nat (bi + 1)) (entries db ps) = (rc, q \<noteq> 0, entries db' ps') \<and>
    cache_bytes db' = cache_bytes db \<and> (q \<noteq> 0 \<longrightarrow> q \<in> set ps' \<and> entry_key (content (bcache db') q) = (num, of_nat (bi + 1)))"
proof -
  define v where "v = (of_nat (bi + 1) :: u64)"
  have cok: "cache_ok (bcache db) ps" using ok by (simp add: store_ok_def)
  obtain q where q: "cache_find (bcache db) num v = Some q"
    "q = 0 \<and> find (\<lambda>e. entry_key e = (num, v)) (entries db ps) = None \<or>
     q \<in> set ps \<and> q \<noteq> 0 \<and> entry_key (content (bcache db) q) = (num, v)"
    using find_entry [OF cok, of "(num, v)"] by auto
  note bf = block_fetch_def [of bb alloc p load db num bi, folded v_def, unfolded Let_def, folded v_def, unfolded q(1)]
  show ?thesis unfolding v_def [symmetric]
  proof (cases "q = 0")
    case False
    then have h: "q \<in> set ps" "entry_key (content (bcache db) q) = (num, v)" using q(2) by auto
    from fetch_hit [OF ok h(1), of "cache_hits db + 1"] obtain db' ps' where e:
      "evict_store bb (db\<lparr>cache_hits := cache_hits db + 1, bcache := pin (cache_touch (bcache db) q) q 1\<rparr>) = Some db'"
      "store_ok bb db' ps'" "q \<in> set ps'" "cache_bytes db' = cache_bytes db"
      "entries db' ps' = lru_evict bb (cache_bytes db) (entry_pin 1 (content (bcache db) q) # remove1 (content (bcache db) q) (entries db ps))"
      "entry_key (content (bcache db') q) = entry_key (content (bcache db) q)" by metis
    show "\<exists>rc q db' ps'. block_fetch bb alloc p load db num bi = Some (rc, q, db') \<and> store_ok bb db' ps' \<and>
      lru_fetch bb (cache_bytes db) (p \<noteq> 0) load (num, v) (entries db ps) = (rc, q \<noteq> 0, entries db' ps') \<and>
      cache_bytes db' = cache_bytes db \<and> (q \<noteq> 0 \<longrightarrow> q \<in> set ps' \<and> entry_key (content (bcache db') q) = (num, v))"
      using e False h(2) find_unique(1) [OF ok h(1)]
      by (intro exI [of _ GS_OK] exI [of _ q] exI [of _ db'] exI [of _ ps']) (simp add: bf lru_fetch_def)
  next
    case True
    then have none: "find (\<lambda>e. entry_key e = (num, v)) (entries db ps) = None" using q(2) by auto
    show "\<exists>rc q db' ps'. block_fetch bb alloc p load db num bi = Some (rc, q, db') \<and> store_ok bb db' ps' \<and>
      lru_fetch bb (cache_bytes db) (p \<noteq> 0) load (num, v) (entries db ps) = (rc, q \<noteq> 0, entries db' ps') \<and>
      cache_bytes db' = cache_bytes db \<and> (q \<noteq> 0 \<longrightarrow> q \<in> set ps' \<and> entry_key (content (bcache db') q) = (num, v))"
    proof (cases load)
      case (Inl rc)
      then show ?thesis using True none ok
        by (intro exI [of _ rc] exI [of _ 0] exI [of _ db] exI [of _ ps]) (simp add: bf [unfolded Inl] lru_fetch_def)
    next
      case (Inr data)
      obtain c' where c: "cache_insert alloc p (bcache db) num v data = Some (p, c')" "\<forall>x. x \<noteq> p \<longrightarrow> content c' x = content (bcache db) x"
        "if p = 0 then cache_ok c' ps else cache_ok c' (p # ps) \<and> content c' p = (num, v, data, 0, False)"
        by (rule cache_insert_ok [OF cok p])
      show ?thesis
      proof (cases "p = 0")
        case no: True
        have "0 \<notin> set ps" using cache_okD(2) [OF cok] .
        then have "\<forall>x \<in> set ps. content c' x = content (bcache db) x" using c(2) no by metis
        then have es: "entries (db\<lparr>bcache := c'\<rparr>) ps = entries db ps" by (simp add: entries_def)
        then have "store_ok bb (db\<lparr>bcache := c'\<rparr>) ps" using ok c(3) no by (simp add: store_ok_def)
        then show ?thesis using True none no c(1) Inr es
          by (intro exI [of _ GS_IO] exI [of _ 0] exI [of _ "db\<lparr>bcache := c'\<rparr>"] exI [of _ ps]) (simp add: bf [unfolded Inr no] lru_fetch_def)
      next
        case False
        with c(3) have c3: "cache_ok c' (p # ps)" "content c' p = (num, v, data, 0, False)" by simp_all
        obtain db' ps' where e:
          "evict_store bb (db\<lparr>bcache_bytes := bcache_bytes db + bb data, bcache := pin c' p 1\<rparr>) = Some db'"
          "store_ok bb db' ps'" "p \<in> set ps'" "cache_bytes db' = cache_bytes db"
          "entries db' ps' = lru_evict bb (cache_bytes db) ((num, v, data, 1, False) # entries db ps)"
          "entry_key (content (bcache db') p) = (num, v)"
          by (rule fetch_miss [OF ok p False none c(1,2) c3])
        then show ?thesis using True none False c(1) Inr
          by (intro exI [of _ GS_OK] exI [of _ p] exI [of _ db'] exI [of _ ps']) (simp add: bf [unfolded Inr] lru_fetch_def)
      qed
    qed
  qed
qed

lemma lru_fetch_pinned:
  assumes "lru_fetch bb limit mem load k xs = (rc, True, es')" "\<forall>x \<in> set xs. 0 \<le> entry_pins x"
  obtains e es where "es' = lru_evict bb limit (e # es)"
    "\<forall>x \<in> set xs. entry_pins x \<noteq> 0 \<longrightarrow>
       (\<exists>y \<in> set (e # es). entry_pins y \<noteq> 0 \<and> entry_key y = entry_key x \<and> entry_data y = entry_data x)"
proof (cases "find (\<lambda>e. entry_key e = k) xs")
  case None
  then obtain d where "es' = lru_evict bb limit ((fst k, snd k, d, 1, False) # xs)"
    using assms(1) by (auto simp: lru_fetch_def split: sum.splits if_splits)
  then show ?thesis by (rule that) auto
next
  case (Some e)
  then have e: "e \<in> set xs" by (auto simp: find_Some_iff)
  have p: "entry_pins (entry_pin 1 e) = entry_pins e + 1" "entry_key (entry_pin 1 e) = entry_key e"
    "entry_data (entry_pin 1 e) = entry_data e" by (cases e; simp)+
  have "x = e \<or> x \<in> set (remove1 e xs)" if "x \<in> set xs" for x using that by (auto intro: in_set_remove1 [THEN iffD2])
  then have "\<exists>y \<in> set (entry_pin 1 e # remove1 e xs). entry_pins y \<noteq> 0 \<and> entry_key y = entry_key x \<and> entry_data y = entry_data x"
    if "x \<in> set xs" "entry_pins x \<noteq> 0" for x
    using that p assms(2) e by (cases "x = e") fastforce+
  moreover have "es' = lru_evict bb limit (entry_pin 1 e # remove1 e xs)" using assms(1) Some by (simp add: lru_fetch_def)
  ultimately show ?thesis by (intro that) blast+
qed

lemma lru_evict_spec:
  "total_bytes bb (lru_evict bb limit es) \<le> limit \<or> (\<forall>e \<in> set (lru_evict bb limit es). entry_pins e \<noteq> 0)"
  "e \<in> set es \<Longrightarrow> entry_pins e \<noteq> 0 \<Longrightarrow> e \<in> set (lru_evict bb limit es)"
proof -
  obtain n r where r: "evict_rev bb limit (total_bytes bb es) (rev es) = (n, r)" by fastforce
  have t: "total_bytes bb (rev xs) = total_bytes bb xs" for xs by (simp add: total_bytes_def rev_map [symmetric])
  have "n = total_bytes bb r" using evict_rev_total [of bb limit "rev es" 0 n r] r t by simp
  with evict_rev_fits [OF r] evict_rev_keeps [OF r] r
  show "total_bytes bb (lru_evict bb limit es) \<le> limit \<or> (\<forall>e \<in> set (lru_evict bb limit es). entry_pins e \<noteq> 0)"
    "e \<in> set es \<Longrightarrow> entry_pins e \<noteq> 0 \<Longrightarrow> e \<in> set (lru_evict bb limit es)"
    by (auto simp: lru_evict_def t)
qed

section \<open>Properties\<close>

text \<open>C21. The block cache is a least-recently-used list: a fetch ends, keeps the hash table, the ring and the
  byte account consistent, and does to the list of cached blocks exactly what the list model does (a
  cached block to the front and pinned, a missing one loaded or the failure answered, then eviction
  from the far end); the page it hands out is the requested block and is in the cache.\<close>

theorem block_cache_is_lru_list:
  assumes "store_ok bb db ps" "p \<noteq> LRU" "p \<notin> set ps"
  shows "\<exists>rc q db' ps'. block_fetch bb alloc p load db num bi = Some (rc, q, db') \<and> store_ok bb db' ps' \<and>
    lru_fetch bb (cache_bytes db) (p \<noteq> 0) load (num, of_nat (bi + 1)) (entries db ps) = (rc, q \<noteq> 0, entries db' ps') \<and>
    (q \<noteq> 0 \<longrightarrow> q \<in> set ps' \<and> entry_key (content (bcache db') q) = (num, of_nat (bi + 1)))"
  using block_fetch_refines [OF assms, of alloc load num bi] by blast

text \<open>A new store's cache.\<close>

definition new_store :: "nat \<Rightarrow> block_store" where
  "new_store limit = \<lparr>bcache = cache_init (\<lambda>_. undefined), bcache_bytes = 0, cache_bytes = limit, cache_hits = 0\<rparr>"

lemma new_store_ok: "store_ok bb (new_store n) []"
  by (simp add: store_ok_def new_store_def cache_init_ok entries_def total_bytes_def)

lemma block_cache_is_lru_list_witness:
  "\<exists>rc q db' ps'. block_fetch length True 2 (Inr [7, 8]) (new_store 100) 3 0 = Some (rc, q, db') \<and> store_ok length db' ps' \<and>
     (GS_OK, True, [(3, 1, [7, 8], 1, False)]) = (rc, q \<noteq> 0, entries db' ps')"
proof -
  have "lru_fetch length (cache_bytes (new_store 100)) ((2 :: nat) \<noteq> 0) (Inr [7, 8]) (3, of_nat (0 + 1)) (entries (new_store 100) []) =
      (GS_OK, True, [(3, 1, [7, 8], 1, False)])"
    by (simp add: lru_fetch_def lru_evict_def entries_def total_bytes_def new_store_def)
  from block_cache_is_lru_list [OF new_store_ok [of length 100], of 2 True "Inr [7, 8]" 3 0, unfolded this]
  show ?thesis by (auto simp: LRU_def)
qed

text \<open>C22. Eviction is safe and sufficient: after a fetch that hands out a block the cache fits into its limit or
  every block left in it is pinned, the account is the sum of the blocks' sizes, and no block that was
  pinned before has left the cache.\<close>

theorem eviction_spares_pinned:
  assumes "store_ok bb db ps" "p \<noteq> LRU" "p \<notin> set ps" "block_fetch bb alloc p load db num bi = Some (rc, q, db')" "q \<noteq> 0"
  shows "\<exists>ps'. store_ok bb db' ps' \<and>
    (total_bytes bb (entries db' ps') \<le> cache_bytes db \<or> (\<forall>e \<in> set (entries db' ps'). entry_pins e \<noteq> 0)) \<and>
    (\<forall>e \<in> set (entries db ps). entry_pins e \<noteq> 0 \<longrightarrow>
       (\<exists>e' \<in> set (entries db' ps'). entry_key e' = entry_key e \<and> entry_data e' = entry_data e))"
proof -
  let ?k = "(num, of_nat (bi + 1)) :: u64 \<times> u64"
  obtain ps' where ps': "store_ok bb db' ps'"
    "lru_fetch bb (cache_bytes db) (p \<noteq> 0) load ?k (entries db ps) = (rc, True, entries db' ps')"
    using block_fetch_refines [OF assms(1-3), of alloc load num bi] assms(4,5) by auto
  obtain e es where e: "entries db' ps' = lru_evict bb (cache_bytes db) (e # es)"
    "\<forall>x \<in> set (entries db ps). entry_pins x \<noteq> 0 \<longrightarrow>
       (\<exists>y \<in> set (e # es). entry_pins y \<noteq> 0 \<and> entry_key y = entry_key x \<and> entry_data y = entry_data x)"
    by (rule lru_fetch_pinned [OF ps'(2)]) (use assms(1) in \<open>simp add: store_ok_def\<close>)
  from lru_evict_spec(1) [of bb "cache_bytes db" "e # es"] lru_evict_spec(2) [of _ "e # es" bb "cache_bytes db"] e ps'(1) show ?thesis by (metis (no_types, lifting))
qed

lemma eviction_spares_pinned_witness:
  "\<exists>rc q db'. block_fetch length True 2 (Inr [7, 8]) (new_store 1) 3 0 = Some (rc, q, db') \<and> q \<noteq> 0 \<and>
     (\<exists>ps'. store_ok length db' ps' \<and>
       (total_bytes length (entries db' ps') \<le> 1 \<or> (\<forall>e \<in> set (entries db' ps'). entry_pins e \<noteq> 0)))"
proof -
  note ok = new_store_ok [of length 1]
  have p: "(2 :: nat) \<noteq> LRU" "2 \<notin> set []" by (simp_all add: LRU_def)
  have "lru_fetch length 1 True (Inr [7, 8]) (3, of_nat (0 + 1)) (entries (new_store 1) []) =
      (GS_OK, True, [(3, 1, [7, 8], 1, False)])"
    by (simp add: lru_fetch_def lru_evict_def entries_def total_bytes_def)
  with block_fetch_refines [OF ok p, of True "Inr [7, 8]" 3 0] obtain rc q db' where
    f: "block_fetch length True 2 (Inr [7, 8]) (new_store 1) 3 0 = Some (rc, q, db')" "q \<noteq> 0"
    by (auto simp: new_store_def)
  from eviction_spares_pinned [OF ok p f] f show ?thesis by (auto simp: new_store_def)
qed

end
