(* ===== verification/Io_Sim.thy ===== *)
theory Io_Sim
  imports "HOL-Library.List_Lexorder" "HOL-Library.Char_ord" Store_Common
begin

text \<open>
  The simulated I/O layer of \<^verbatim>\<open>src/gsql/io_sim.c\<close>: files in memory as a durable image plus the
  operations pending since each was made durable, numbered operations, faults, a crash point, and
  the disk a crash leaves (\<^verbatim>\<open>gsql_io_sim_crash_image\<close>). Names are lists in the order of the code's
  arrays, a directory made by \<^verbatim>\<open>mkdir\<close> has the inode \<open>None\<close> (\<^verbatim>\<open>DIR_INODE\<close>), offsets and sizes
  are natural numbers. Memory is not exhausted: the \<^verbatim>\<open>ENOMEM\<close> answers are left out.
\<close>

section \<open>State\<close>

type_synonym names = "(string \<times> nat option) list"

record inode =
  durable :: bytes
  view :: bytes
  lock_holder :: "nat option"

datatype pend =
    P_WRITE nat nat bytes
  | P_TRUNC nat nat
  | P_CREATE "nat option" string
  | P_RENAME string string
  | P_REMOVE string

datatype op_kind =
    K_OPEN | K_READ | K_WRITE | K_SYNC | K_SIZE | K_TRUNC | K_CLOSE | K_RENAME | K_REMOVE | K_SYNC_DIR
  | K_LOCK | K_MKDIR | K_LIST

datatype io_fault = FAIL_SYNC | FAIL_WRITE | FAIL_READ

datatype io_flag = IO_CREATE | IO_EXCLUSIVE | IO_READ_ONLY

datatype crash_mode = CRASH_PROCESS | CRASH_POWER | CRASH_TORN

text \<open>\<open>files\<close> counts the handles given out; a handle's number stands for its address.\<close>

record sim =
  inodes :: "inode list"
  durable_names :: names
  view_names :: names
  made :: names
  pend :: "pend list"
  ops :: nat
  crash_at :: nat
  crashed :: bool
  kinds :: "op_kind list"
  fail_in :: "io_fault \<Rightarrow> nat"
  seed :: u64
  rng :: u64
  clock_ms :: u64
  files :: nat

record sim_file =
  file_id :: nat
  file_inode :: nat
  read_only :: bool

definition gsql_io_sim :: sim where
  "gsql_io_sim =
     \<lparr>inodes = [], durable_names = [], view_names = [], made = [], pend = [], ops = 0, crash_at = 0,
      crashed = False, kinds = [], fail_in = (\<lambda>_. 0), seed = 1, rng = 0x6a09e667f3bcc908, clock_ms = 0, files = 0\<rparr>"

section \<open>Helpers\<close>

definition splitmix :: "u64 \<Rightarrow> u64 \<times> u64" where
  "splitmix st =
     (let st = st + 0x9E3779B97F4A7C15;
          z = st;
          z = (z XOR drop_bit 30 z) * 0xBF58476D1CE4E5B9;
          z = (z XOR drop_bit 27 z) * 0x94D049BB133111EB
      in (z XOR drop_bit 31 z, st))"

definition dir_len :: "string \<Rightarrow> nat" where
  "dir_len path = (case strrchr_slash path of Some n \<Rightarrow> n | None \<Rightarrow> 0)"

definition same_dir :: "string \<Rightarrow> string \<Rightarrow> bool" where
  "same_dir a b \<longleftrightarrow> dir_len a = dir_len b \<and> take (dir_len a) a = take (dir_len a) b"

definition trim_slashes :: "string \<Rightarrow> string" where
  "trim_slashes dir = rev (dropWhile (\<lambda>c. c = CHR ''/'') (rev dir))"

definition in_dir :: "string \<Rightarrow> string \<Rightarrow> bool" where
  "in_dir path dir \<longleftrightarrow>
     (let l = dir_len path; dl = length (trim_slashes dir) in l = dl \<and> take l path = take l dir)"

definition buf_reserve :: "bytes \<Rightarrow> nat \<Rightarrow> bytes" where
  "buf_reserve b n = (if n \<le> length b then b else b @ replicate (n - length b) 0)"

definition buf_write :: "bytes \<Rightarrow> nat \<Rightarrow> bytes \<Rightarrow> bytes" where
  "buf_write b off src =
     (if src = [] then b
      else poke off src (buf_reserve b (off + length src)))"

definition buf_truncate :: "bytes \<Rightarrow> nat \<Rightarrow> bytes" where
  "buf_truncate b n = take n (if length b < n then buf_reserve b n else b)"

fun names_find :: "names \<Rightarrow> string \<Rightarrow> nat option" where
  "names_find [] path = None"
| "names_find ((p, _) # ns) path = (if p = path then Some 0 else map_option Suc (names_find ns path))"

definition names_set :: "names \<Rightarrow> string \<Rightarrow> nat option \<Rightarrow> names" where
  "names_set ns path ino =
     (case names_find ns path of
        Some i \<Rightarrow> ns[i := (fst (ns ! i), ino)]
      | None \<Rightarrow> ns @ [(path, ino)])"

definition names_del :: "names \<Rightarrow> string \<Rightarrow> names" where
  "names_del ns path =
     (case names_find ns path of
        None \<Rightarrow> ns
      | Some i \<Rightarrow> butlast (ns[i := last ns]))"

definition names_copy :: "names \<Rightarrow> names" where
  "names_copy ns = foldl (\<lambda>d (p, i). names_set d p i) [] ns"

fun is_data :: "pend \<Rightarrow> bool" where
  "is_data (P_WRITE _ _ _) = True"
| "is_data (P_TRUNC _ _) = True"
| "is_data _ = False"

text \<open>The inode field, 0 where the code leaves it zeroed.\<close>

fun pend_inode :: "pend \<Rightarrow> nat" where
  "pend_inode (P_WRITE i _ _) = i"
| "pend_inode (P_TRUNC i _) = i"
| "pend_inode _ = 0"

fun ns_dir_path :: "pend \<Rightarrow> string" where
  "ns_dir_path (P_RENAME p q) = q"
| "ns_dir_path (P_CREATE i p) = p"
| "ns_dir_path (P_REMOVE p) = p"
| "ns_dir_path _ = []"

definition SECTOR :: nat where "SECTOR = 512"

text \<open>The first sectors of a torn write: \<open>src\<close> is what is left to write, from \<open>pos\<close> on.\<close>

primrec torn_write :: "nat \<Rightarrow> bytes \<Rightarrow> nat \<Rightarrow> bytes \<Rightarrow> bytes" where
  "torn_write 0 b pos src = b"
| "torn_write (Suc k) b pos src =
     (if src = [] then b
      else let boundary = (pos div SECTOR + 1) * SECTOR;
               stop = (if boundary < pos + length src then boundary else pos + length src);
               m = stop - pos
           in torn_write k (buf_write b pos (take m src)) stop (drop m src))"

text \<open>\<open>sectors = None\<close> applies the whole operation.\<close>

fun apply_data :: "bytes \<Rightarrow> pend \<Rightarrow> nat option \<Rightarrow> bytes" where
  "apply_data b (P_TRUNC _ n) sectors = buf_truncate b n"
| "apply_data b (P_WRITE _ off src) sectors =
     (case sectors of None \<Rightarrow> buf_write b off src | Some k \<Rightarrow> torn_write k b off src)"
| "apply_data b _ sectors = b"

fun sector_count :: "pend \<Rightarrow> nat" where
  "sector_count (P_WRITE _ off src) =
     (if src = [] then 0 else (off + length src - 1) div SECTOR - off div SECTOR + 1)"
| "sector_count _ = 0"

fun apply_name :: "names \<Rightarrow> pend \<Rightarrow> names" where
  "apply_name ns (P_CREATE ino p) = (if names_find ns p \<noteq> None then ns else names_set ns p ino)"
| "apply_name ns (P_RENAME p q) =
     (case names_find ns p of
        None \<Rightarrow> ns
      | Some i \<Rightarrow> let ino = snd (ns ! i) in names_set (names_del ns p) q ino)"
| "apply_name ns (P_REMOVE p) = names_del ns p"
| "apply_name ns _ = ns"

text \<open>Every operation passes through \<^verbatim>\<open>tick\<close> first.\<close>

definition tick :: "op_kind \<Rightarrow> sim \<Rightarrow> io_code \<times> sim" where
  "tick kind s =
     (let s = s\<lparr>ops := ops s + 1, kinds := kinds s @ [kind]\<rparr>
      in if crashed s then (IO_CRASHED, s)
         else if crash_at s \<noteq> 0 \<and> crash_at s \<le> ops s then (IO_CRASHED, s\<lparr>crashed := True\<rparr>)
         else (IO_OK, s))"

definition fault_fires :: "sim \<Rightarrow> io_fault \<Rightarrow> bool \<times> sim" where
  "fault_fires s f =
     (if fail_in s f = 0 then (False, s)
      else let n = fail_in s f - 1 in (n = 0, s\<lparr>fail_in := (fail_in s)(f := n)\<rparr>))"

definition set_inode :: "sim \<Rightarrow> nat \<Rightarrow> inode \<Rightarrow> sim" where
  "set_inode s i x = s\<lparr>inodes := (inodes s)[i := x]\<rparr>"

section \<open>The operations\<close>

text \<open>The end of \<^verbatim>\<open>sim_open\<close>: a handle on the inode.\<close>

definition new_file :: "nat \<Rightarrow> io_flag set \<Rightarrow> sim \<Rightarrow> io_code \<times> sim_file option \<times> sim" where
  "new_file ino fl s =
     (IO_OK, Some \<lparr>file_id = files s, file_inode = ino, read_only = (IO_READ_ONLY \<in> fl)\<rparr>, s\<lparr>files := files s + 1\<rparr>)"

definition sim_open :: "string \<Rightarrow> io_flag set \<Rightarrow> sim \<Rightarrow> io_code \<times> sim_file option \<times> sim" where
  "sim_open path fl s =
     (let (rc, s) = tick K_OPEN s
      in if rc \<noteq> IO_OK then (rc, None, s)
      else case names_find (view_names s) path of
        None \<Rightarrow>
          if IO_CREATE \<notin> fl then (ENOENT, None, s)
          else let ino = length (inodes s)
               in new_file ino fl
                    (s\<lparr>inodes := inodes s @ [\<lparr>durable = [], view = [], lock_holder = None\<rparr>],
                       pend := pend s @ [P_CREATE (Some ino) path],
                       view_names := names_set (view_names s) path (Some ino)\<rparr>)
      | Some i \<Rightarrow>
          (case snd (view_names s ! i) of
             None \<Rightarrow> (EISDIR, None, s)
           | Some ino \<Rightarrow>
               if IO_CREATE \<in> fl \<and> IO_EXCLUSIVE \<in> fl then (EEXIST, None, s) else new_file ino fl s))"

definition sim_read_at :: "sim_file \<Rightarrow> nat \<Rightarrow> nat \<Rightarrow> sim \<Rightarrow> io_code \<times> bytes \<times> sim" where
  "sim_read_at f off n s =
     (let (rc, s) = tick K_READ s
      in if rc \<noteq> IO_OK then (rc, [], s)
      else let (fires, s) = fault_fires s FAIL_READ
      in if fires then (EIO, [], s)
      else let b = view (inodes s ! file_inode f)
           in if length b \<le> off then (IO_OK, [], s) else (IO_OK, take n (drop off b), s))"

definition sim_write_at :: "sim_file \<Rightarrow> nat \<Rightarrow> bytes \<Rightarrow> sim \<Rightarrow> io_code \<times> sim" where
  "sim_write_at f off buf s =
     (let (rc, s) = tick K_WRITE s
      in if rc \<noteq> IO_OK then (rc, s)
      else if read_only f then (EBADF, s)
      else let (fires, s) = fault_fires s FAIL_WRITE
      in if fires then (ENOSPC, s)
      else if buf = [] then (IO_OK, s)
      else let ino = file_inode f; x = inodes s ! ino;
               s = s\<lparr>pend := pend s @ [P_WRITE ino off buf]\<rparr>
           in (IO_OK, set_inode s ino (x\<lparr>view := buf_write (view x) off buf\<rparr>)))"

text \<open>The loop of \<^verbatim>\<open>sim_sync\<close>: what stays pending, the seed, the durable image.\<close>

fun sync_loop :: "bool \<Rightarrow> nat \<Rightarrow> pend list \<Rightarrow> u64 \<Rightarrow> bytes \<Rightarrow> pend list \<times> u64 \<times> bytes" where
  "sync_loop failed ino [] sd d = ([], sd, d)"
| "sync_loop failed ino (p # ps) sd d =
     (if \<not> is_data p \<or> pend_inode p \<noteq> ino then
        let (ps, sd, d) = sync_loop failed ino ps sd d in (p # ps, sd, d)
      else if \<not> failed then sync_loop failed ino ps sd (apply_data d p None)
      else let (z, sd) = splitmix sd
           in sync_loop failed ino ps sd (if z AND 1 \<noteq> 0 then apply_data d p None else d))"

definition sim_sync :: "sim_file \<Rightarrow> sim \<Rightarrow> io_code \<times> sim" where
  "sim_sync f s =
     (let (rc, s) = tick K_SYNC s
      in if rc \<noteq> IO_OK then (rc, s)
      else let (failed, s) = fault_fires s FAIL_SYNC;
               ino = file_inode f; x = inodes s ! ino;
               (ps, sd, d) = sync_loop failed ino (pend s) (seed s) (durable x);
               s = set_inode (s\<lparr>pend := ps, seed := sd\<rparr>) ino (x\<lparr>durable := d\<rparr>)
           in (if failed then EIO else IO_OK, s))"

definition sim_size :: "sim_file \<Rightarrow> sim \<Rightarrow> io_code \<times> nat \<times> sim" where
  "sim_size f s =
     (let (rc, s) = tick K_SIZE s
      in if rc \<noteq> IO_OK then (rc, 0, s) else (IO_OK, length (view (inodes s ! file_inode f)), s))"

definition sim_truncate :: "sim_file \<Rightarrow> nat \<Rightarrow> sim \<Rightarrow> io_code \<times> sim" where
  "sim_truncate f n s =
     (let (rc, s) = tick K_TRUNC s
      in if rc \<noteq> IO_OK then (rc, s)
      else if read_only f then (EBADF, s)
      else let ino = file_inode f; x = inodes s ! ino;
               s = s\<lparr>pend := pend s @ [P_TRUNC ino n]\<rparr>
           in (IO_OK, set_inode s ino (x\<lparr>view := buf_truncate (view x) n\<rparr>)))"

definition sim_close :: "sim_file \<Rightarrow> sim \<Rightarrow> io_code \<times> sim" where
  "sim_close f s =
     (let (rc, s) = tick K_CLOSE s; ino = file_inode f; x = inodes s ! ino
      in (rc, if lock_holder x = Some (file_id f) then set_inode s ino (x\<lparr>lock_holder := None\<rparr>) else s))"

definition sim_rename :: "string \<Rightarrow> string \<Rightarrow> sim \<Rightarrow> io_code \<times> sim" where
  "sim_rename from to s =
     (let (rc, s) = tick K_RENAME s
      in if rc \<noteq> IO_OK then (rc, s)
      else if \<not> same_dir from to then (EXDEV, s)
      else case names_find (view_names s) from of
        None \<Rightarrow> (ENOENT, s)
      | Some i \<Rightarrow>
          let ino = snd (view_names s ! i)
          in if ino = None then (EISDIR, s)
             else if from = to then (IO_OK, s)
             else (IO_OK, s\<lparr>pend := pend s @ [P_RENAME from to],
                           view_names := names_set (names_del (view_names s) from) to ino\<rparr>))"

definition sim_remove :: "string \<Rightarrow> sim \<Rightarrow> io_code \<times> sim" where
  "sim_remove path s =
     (let (rc, s) = tick K_REMOVE s
      in if rc \<noteq> IO_OK then (rc, s)
      else case names_find (view_names s) path of
        None \<Rightarrow> (ENOENT, s)
      | Some i \<Rightarrow>
          if snd (view_names s ! i) = None then (EISDIR, s)
          else (IO_OK, s\<lparr>pend := pend s @ [P_REMOVE path], view_names := names_del (view_names s) path\<rparr>))"

text \<open>The loop of \<^verbatim>\<open>sim_sync_dir\<close>.\<close>

fun sync_dir_loop :: "string \<Rightarrow> pend list \<Rightarrow> names \<Rightarrow> pend list \<times> names" where
  "sync_dir_loop dir [] ns = ([], ns)"
| "sync_dir_loop dir (p # ps) ns =
     (if is_data p \<or> \<not> in_dir (ns_dir_path p) dir then
        let (ps, ns) = sync_dir_loop dir ps ns in (p # ps, ns)
      else sync_dir_loop dir ps (apply_name ns p))"

definition sim_sync_dir :: "string \<Rightarrow> sim \<Rightarrow> io_code \<times> sim" where
  "sim_sync_dir dir s =
     (let (rc, s) = tick K_SYNC_DIR s
      in if rc \<noteq> IO_OK then (rc, s)
      else let (ps, ns) = sync_dir_loop dir (pend s) (durable_names s)
           in (IO_OK, s\<lparr>pend := ps, durable_names := ns\<rparr>))"

definition sim_lock :: "sim_file \<Rightarrow> bool \<Rightarrow> sim \<Rightarrow> io_code \<times> sim" where
  "sim_lock f nonblocking s =
     (let (rc, s) = tick K_LOCK s
      in if rc \<noteq> IO_OK then (rc, s)
      else let ino = file_inode f; x = inodes s ! ino
           in if lock_holder x \<noteq> None \<and> lock_holder x \<noteq> Some (file_id f)
              then (if nonblocking then EWOULDBLOCK else EDEADLK, s)
              else (IO_OK, set_inode s ino (x\<lparr>lock_holder := Some (file_id f)\<rparr>)))"

text \<open>\<^verbatim>\<open>strncmp(p, dir, dl) == 0 && p[dl] == '/'\<close>.\<close>

definition beneath :: "string \<Rightarrow> string \<Rightarrow> bool" where
  "beneath dir p \<longleftrightarrow> take (length dir + 1) p = dir @ ''/''"

definition has_beneath :: "sim \<Rightarrow> string \<Rightarrow> bool" where
  "has_beneath s dir \<longleftrightarrow> list_ex (\<lambda>(p, _). beneath dir p) (view_names s)"

definition sim_mkdir :: "string \<Rightarrow> sim \<Rightarrow> io_code \<times> sim" where
  "sim_mkdir path s =
     (let (rc, s) = tick K_MKDIR s
      in if rc \<noteq> IO_OK then (rc, s)
      else if names_find (view_names s) path \<noteq> None \<or> has_beneath s path then (EEXIST, s)
      else (IO_OK, s\<lparr>pend := pend s @ [P_CREATE None path], view_names := names_set (view_names s) path None,
                     made := names_set (made s) path (Some 0)\<rparr>))"

text \<open>The names directly in a directory, each once, in the order found.\<close>

fun list_names :: "string \<Rightarrow> names \<Rightarrow> string list \<Rightarrow> string list" where
  "list_names dir [] acc = acc"
| "list_names dir ((p, _) # ns) acc =
     (if dir \<noteq> [] \<and> \<not> beneath dir p then list_names dir ns acc
      else let rest = (if dir \<noteq> [] then drop (length dir + 1) p else p);
               name = takeWhile (\<lambda>c. c \<noteq> CHR ''/'') rest
           in list_names dir ns (if name \<in> set acc \<or> name = [] then acc else acc @ [name]))"

text \<open>\<^verbatim>\<open>gsql_io_walk_names\<close> of \<^verbatim>\<open>src/gsql/io.c\<close>: \<open>each\<close> answers \<open>IO_OK\<close> to go on.\<close>

primrec walk_loop :: "(string \<Rightarrow> 'c \<Rightarrow> io_code \<times> 'c) \<Rightarrow> string list \<Rightarrow> 'c \<Rightarrow> io_code \<times> 'c" where
  "walk_loop each [] c = (IO_OK, c)"
| "walk_loop each (n # ns) c = (let (rc, c) = each n c in if rc \<noteq> IO_OK then (rc, c) else walk_loop each ns c)"

definition gsql_io_walk_names :: "string list \<Rightarrow> (string \<Rightarrow> 'c \<Rightarrow> io_code \<times> 'c) \<Rightarrow> 'c \<Rightarrow> io_code \<times> 'c" where
  "gsql_io_walk_names names each c = walk_loop each (sort names) c"

definition sim_list :: "string \<Rightarrow> (string \<Rightarrow> 'c \<Rightarrow> io_code \<times> 'c) \<Rightarrow> 'c \<Rightarrow> sim \<Rightarrow> io_code \<times> 'c \<times> sim" where
  "sim_list dir each c s =
     (let (rc, s) = tick K_LIST s
      in if rc \<noteq> IO_OK then (rc, c, s)
      else let dir = trim_slashes dir; self = names_find (view_names s) dir
      in if (case self of Some i \<Rightarrow> snd (view_names s ! i) \<noteq> None | None \<Rightarrow> False) then (ENOTDIR, c, s)
      else let names = list_names dir (view_names s) []
      in if names = [] \<and> self = None \<and> dir \<noteq> [] then (ENOENT, c, s)
      else let (rc, c) = gsql_io_walk_names names each c in (rc, c, s))"

fun random_bytes :: "nat \<Rightarrow> u64 \<Rightarrow> bytes \<times> u64" where
  "random_bytes n r =
     (if n = 0 then ([], r)
      else let (z, r) = splitmix r; (bs, r) = random_bytes (n - 8) r in (take n (put_le 8 z) @ bs, r))"

declare random_bytes.simps [simp del]

definition sim_random :: "nat \<Rightarrow> sim \<Rightarrow> bytes \<times> sim" where
  "sim_random n s = (let (bs, r) = random_bytes n (rng s) in (bs, s\<lparr>rng := r\<rparr>))"

definition sim_now_ms :: "sim \<Rightarrow> u64" where
  "sim_now_ms s = clock_ms s"

definition sim_sleep_ms :: "u64 \<Rightarrow> sim \<Rightarrow> sim" where
  "sim_sleep_ms ms s = s\<lparr>clock_ms := clock_ms s + ms\<rparr>"

section \<open>The harness\<close>

definition gsql_io_sim_crash_at :: "nat \<Rightarrow> sim \<Rightarrow> sim" where
  "gsql_io_sim_crash_at n s = s\<lparr>crash_at := n\<rparr>"

definition gsql_io_sim_seed :: "u64 \<Rightarrow> sim \<Rightarrow> sim" where
  "gsql_io_sim_seed sd s = s\<lparr>seed := sd\<rparr>"

definition gsql_io_sim_fail :: "io_fault \<Rightarrow> nat \<Rightarrow> sim \<Rightarrow> sim" where
  "gsql_io_sim_fail f n s = s\<lparr>fail_in := (fail_in s)(f := n)\<rparr>"

definition gsql_io_sim_fault_armed :: "sim \<Rightarrow> io_fault \<Rightarrow> bool" where
  "gsql_io_sim_fault_armed s f \<longleftrightarrow> fail_in s f \<noteq> 0"

text \<open>The numbers of the flushes, at most \<open>max\<close> of them, and how many there were.\<close>

definition gsql_io_sim_flush_points :: "sim \<Rightarrow> nat \<Rightarrow> nat list \<times> nat" where
  "gsql_io_sim_flush_points s mx =
     (let at = map fst (filter (\<lambda>(i, k). k = K_SYNC \<or> k = K_SYNC_DIR) (enumerate 1 (kinds s)))
      in (take mx at, length at))"

definition gsql_io_sim_contents :: "sim \<Rightarrow> string \<Rightarrow> bytes option" where
  "gsql_io_sim_contents s path =
     (case names_find (view_names s) path of
        None \<Rightarrow> None
      | Some i \<Rightarrow> (case snd (view_names s ! i) of None \<Rightarrow> None | Some ino \<Rightarrow> Some (view (inodes s ! ino))))"

definition gsql_io_sim_file_count :: "sim \<Rightarrow> nat" where
  "gsql_io_sim_file_count s = length (filter (\<lambda>(_, ino). ino \<noteq> None) (view_names s))"

section \<open>The disk a crash leaves\<close>

text \<open>The choice of the survivors: names are applied at once, data collected.\<close>

fun survivors :: "pend list \<Rightarrow> u64 \<Rightarrow> names \<Rightarrow> pend list \<Rightarrow> u64 \<times> names \<times> pend list" where
  "survivors [] r ns data = (r, ns, data)"
| "survivors (p # ps) r ns data =
     (let (z, r) = splitmix r
      in if z AND 1 = 0 then survivors ps r ns data
         else if is_data p then survivors ps r ns (data @ [p])
         else survivors ps r (apply_name ns p) data)"

text \<open>The shuffle, from place \<open>i\<close> down.\<close>

primrec shuffle :: "nat \<Rightarrow> u64 \<Rightarrow> 'a list \<Rightarrow> u64 \<times> 'a list" where
  "shuffle 0 r d = (r, d)"
| "shuffle (Suc i) r d =
     (if i = 0 then (r, d)
      else let (z, r) = splitmix r; j = unat z mod Suc i
           in shuffle i r (d[i := d ! j, j := d ! i]))"

fun pick_torn :: "pend list \<Rightarrow> nat \<Rightarrow> nat option" where
  "pick_torn [] pick = None"
| "pick_torn (p # ps) pick =
     (if 2 \<le> sector_count p then
        if pick = 0 then Some 0 else map_option Suc (pick_torn ps (pick - 1))
      else map_option Suc (pick_torn ps pick))"

text \<open>The place of the write that tears and the sectors it keeps.\<close>

definition choose_torn :: "crash_mode \<Rightarrow> pend list \<Rightarrow> u64 \<Rightarrow> (nat \<times> nat) option" where
  "choose_torn mode data r =
     (let candidates = length (filter (\<lambda>p. 2 \<le> sector_count p) data)
      in if mode \<noteq> CRASH_TORN \<or> candidates = 0 then None
         else let (z, r) = splitmix r
              in map_option (\<lambda>i. (i, unat (fst (splitmix r)) mod sector_count (data ! i)))
                   (pick_torn data (unat z mod candidates)))"

definition apply_one :: "(nat \<times> nat) option \<Rightarrow> bytes list \<Rightarrow> nat \<times> pend \<Rightarrow> bytes list" where
  "apply_one torn ds = (\<lambda>(i, p).
     ds[pend_inode p := apply_data (ds ! pend_inode p) p
          (case torn of Some (t, keep) \<Rightarrow> if i = t then Some keep else None | None \<Rightarrow> None)])"

definition apply_all :: "(nat \<times> nat) option \<Rightarrow> pend list \<Rightarrow> bytes list \<Rightarrow> bytes list" where
  "apply_all torn data ds = foldl (apply_one torn) ds (enumerate 0 data)"

lemma names_find_nth: "names_find ns p = Some i \<Longrightarrow> i < length ns \<and> fst (ns ! i) = p"
  by (induction ns arbitrary: i) (auto split: if_splits)

lemma names_find_None: "names_find ns p = None \<longleftrightarrow> p \<notin> fst ` set ns"
  by (induction ns p rule: names_find.induct) (auto split: if_splits)

function drop_beneath :: "string \<Rightarrow> nat \<Rightarrow> names \<Rightarrow> names" where
  "drop_beneath dir i ns =
     (if i < length ns then
        if beneath dir (fst (ns ! i)) then drop_beneath dir i (names_del ns (fst (ns ! i)))
        else drop_beneath dir (i + 1) ns
      else ns)"
  by pat_completeness auto
termination
proof (relation "measure (\<lambda>(dir, i, ns). length ns - i)")
  fix dir i and ns :: names
  assume i: "i < length ns"
  obtain j where "names_find ns (fst (ns ! i)) = Some j"
    using i names_find_None [of ns "fst (ns ! i)"] by fastforce
  then show "((dir, i, names_del ns (fst (ns ! i))), dir, i, ns) \<in> measure (\<lambda>(dir, i, ns). length ns - i)"
    using i by (simp add: names_del_def)
qed simp_all

declare drop_beneath.simps [simp del]

text \<open>The directories made by \<^verbatim>\<open>mkdir\<close>: the names and the directories of the new disk.\<close>

primrec keep_made :: "names \<Rightarrow> names \<Rightarrow> names \<Rightarrow> names \<times> names" where
  "keep_made [] ns md = (ns, md)"
| "keep_made (d # ds) ns md =
     (if names_find ns (fst d) \<noteq> None then keep_made ds ns (names_set md (fst d) (Some 0))
      else keep_made ds (drop_beneath (fst d) 0 ns) md)"

fun mode_value :: "crash_mode \<Rightarrow> u64" where
  "mode_value CRASH_PROCESS = 1"
| "mode_value CRASH_POWER = 2"
| "mode_value CRASH_TORN = 3"

text \<open>The contents by inode, and the names, of the disk.\<close>

definition crash_disk :: "sim \<Rightarrow> crash_mode \<Rightarrow> u64 \<Rightarrow> bytes list \<times> names" where
  "crash_disk s mode sd =
     (if mode = CRASH_PROCESS then (map view (inodes s), names_copy (view_names s))
      else let (r, ns, data) = survivors (pend s) (sd XOR 0xA0761D6478BD642F) (names_copy (durable_names s)) [];
               (r, data) = shuffle (length data) r data
           in (apply_all (choose_torn mode data r) data (map durable (inodes s)), ns))"

definition gsql_io_sim_crash_image :: "sim \<Rightarrow> crash_mode \<Rightarrow> u64 \<Rightarrow> sim" where
  "gsql_io_sim_crash_image s mode sd =
     (let (ds, ns) = crash_disk s mode sd;
          (ns, md) = keep_made (made s) ns []
      in gsql_io_sim\<lparr>inodes := map (\<lambda>d. \<lparr>durable = d, view = d, lock_holder = None\<rparr>) ds,
           durable_names := ns, view_names := names_copy ns, made := md,
           rng := rng s XOR (sd * 0x9E3779B97F4A7C15) XOR 0xbb67ae8584caa73b XOR push_bit 56 (mode_value mode)\<rparr>)"

end
