(* ===== verification/Io_Ops.thy ===== *)
theory Io_Ops
  imports Io_Sim
begin

text \<open>
  The I/O layer as the table of functions the store calls through (\<^verbatim>\<open>GsqlIoOps\<close> of
  \<^verbatim>\<open>src/gsql/io_internal.h\<close>), over any world \<open>'w\<close>; the layer of \<^verbatim>\<open>src/gsql/io_sim.c\<close> is \<open>sim_ops\<close>.
\<close>

record ('w, 'f, 'c) io_ops =
  op_open :: "string \<Rightarrow> io_flag set \<Rightarrow> 'w \<Rightarrow> io_code \<times> 'f option \<times> 'w"
  op_read_at :: "'f \<Rightarrow> nat \<Rightarrow> nat \<Rightarrow> 'w \<Rightarrow> io_code \<times> bytes \<times> 'w"
  op_write_at :: "'f \<Rightarrow> nat \<Rightarrow> bytes \<Rightarrow> 'w \<Rightarrow> io_code \<times> 'w"
  op_sync :: "'f \<Rightarrow> 'w \<Rightarrow> io_code \<times> 'w"
  op_size :: "'f \<Rightarrow> 'w \<Rightarrow> io_code \<times> nat \<times> 'w"
  op_truncate :: "'f \<Rightarrow> nat \<Rightarrow> 'w \<Rightarrow> io_code \<times> 'w"
  op_close :: "'f \<Rightarrow> 'w \<Rightarrow> io_code \<times> 'w"
  op_rename :: "string \<Rightarrow> string \<Rightarrow> 'w \<Rightarrow> io_code \<times> 'w"
  op_remove :: "string \<Rightarrow> 'w \<Rightarrow> io_code \<times> 'w"
  op_sync_dir :: "string \<Rightarrow> 'w \<Rightarrow> io_code \<times> 'w"
  op_lock :: "'f \<Rightarrow> bool \<Rightarrow> 'w \<Rightarrow> io_code \<times> 'w"
  op_random :: "nat \<Rightarrow> 'w \<Rightarrow> bytes \<times> 'w"
  op_mkdir :: "string \<Rightarrow> 'w \<Rightarrow> io_code \<times> 'w"
  op_list :: "string \<Rightarrow> (string \<Rightarrow> 'c \<Rightarrow> io_code \<times> 'c) \<Rightarrow> 'c \<Rightarrow> 'w \<Rightarrow> io_code \<times> 'c \<times> 'w"
  op_now_ms :: "'w \<Rightarrow> u64 \<times> 'w"
  op_sleep_ms :: "u64 \<Rightarrow> 'w \<Rightarrow> 'w"

definition sim_ops :: "(sim, sim_file, 'c) io_ops" where
  "sim_ops = \<lparr>op_open = sim_open, op_read_at = sim_read_at, op_write_at = sim_write_at, op_sync = sim_sync,
     op_size = sim_size, op_truncate = sim_truncate, op_close = sim_close, op_rename = sim_rename,
     op_remove = sim_remove, op_sync_dir = sim_sync_dir, op_lock = sim_lock, op_random = sim_random,
     op_mkdir = sim_mkdir, op_list = sim_list, op_now_ms = (\<lambda>s. (sim_now_ms s, s)), op_sleep_ms = sim_sleep_ms\<rparr>"

end
