(* ===== verification/Lease.thy ===== *)
theory Lease
  imports Io_Ops Chars
begin

text \<open>
  The lease of \<^verbatim>\<open>src/gsql/lease.c\<close>: one sector beside the database that its owner renews and that an
  opener on another machine watches. The I/O layer is the table of functions the code calls through
  (\<^verbatim>\<open>GsqlIoOps\<close>), over any world \<open>'w\<close>, so the lease runs on every layer; the
  fenced layer is \<open>fenced_ops\<close>. Character arrays are their
  bytes, NULs included. The measured time of a renewal (\<^verbatim>\<open>renew_us_max\<close>) is left out; the watch is
  partial, \<open>None\<close> a watch that does not end.
\<close>

section \<open>The record\<close>

record lease_rec =
  tok :: bytes
  counter :: u64
  pid :: u64
  machine :: bytes
  boot :: bytes
  host :: bytes

datatype lease_state = L_ABSENT | L_UNREADABLE | L_READ

definition LEASE_SIZE :: nat where "LEASE_SIZE = 512"
definition LEASE_FORMAT :: u64 where "LEASE_FORMAT = 1"
definition ID_N :: nat where "ID_N = 40"
definition HOST_N :: nat where "HOST_N = 64"

definition LEASE_MAGIC :: bytes where
  "LEASE_MAGIC = [0x47, 0x53, 0x51, 0x4C, 0x4C, 0x45, 0x41, 0x53]"

definition zero_rec :: lease_rec where
  "zero_rec = \<lparr>tok = replicate 16 0, counter = 0, pid = 0, machine = replicate (ID_N + 1) 0,
     boot = replicate (ID_N + 1) 0, host = replicate (HOST_N + 1) 0\<rparr>"

text \<open>A C string in an array, and the array a C string of at most \<open>n\<close> characters leaves.\<close>

definition cstr :: "bytes \<Rightarrow> bytes" where
  "cstr a = takeWhile (\<lambda>b. b \<noteq> 0) a"

definition text_of :: "bytes \<Rightarrow> string" where
  "text_of a = map (\<lambda>b. char_of (unat b)) (cstr a)"

definition fill_array :: "nat \<Rightarrow> string \<Rightarrow> bytes" where
  "fill_array n s = (let b = take n (map (\<lambda>c. of_nat (of_char c)) s) in b @ replicate (n + 1 - length b) 0)"

text \<open>
  \<^verbatim>\<open>identify\<close>: what the system answers (the host name, the process, the first lines of the identity
  files, empty where there is none) and a test's machine.
\<close>

record who =
  w_host :: string
  w_pid :: u64
  w_machine_id :: string
  w_dbus_id :: string
  w_boot_id :: string

definition identify :: "who \<Rightarrow> string option \<Rightarrow> lease_rec \<Rightarrow> lease_rec" where
  "identify w test r =
     (let r = r\<lparr>pid := w_pid w\<rparr>
      in case test of
        Some t \<Rightarrow> r\<lparr>machine := fill_array ID_N t, boot := fill_array ID_N t, host := fill_array HOST_N t\<rparr>
      | None \<Rightarrow>
          let h = fill_array HOST_N (w_host w);
              a = fill_array ID_N (w_machine_id w);
              a = (if a ! 0 = 0 then fill_array ID_N (w_dbus_id w) else a);
              a = (if a ! 0 = 0 then map (\<lambda>c. of_nat (of_char c)) ''host:'' @ take (ID_N - 5) h @ [0] else a)
          in r\<lparr>machine := a, boot := fill_array ID_N (w_boot_id w), host := h\<rparr>)"

definition same_boot :: "lease_rec \<Rightarrow> lease_rec \<Rightarrow> bool" where
  "same_boot a b \<longleftrightarrow> boot a ! 0 \<noteq> 0 \<and> cstr (machine a) = cstr (machine b) \<and> cstr (boot a) = cstr (boot b)"

text \<open>The text \<^verbatim>\<open>snprintf\<close> leaves in an array of \<open>n\<close>.\<close>

definition describe :: "lease_rec \<Rightarrow> nat \<Rightarrow> string" where
  "describe r n =
     take (n - 1) (''host '' @ text_of (if host r ! 0 \<noteq> 0 then host r else machine r) @ '' (pid '' @
       decimal (unat (pid r)) @ '')'')"

definition lease_encode :: "lease_rec \<Rightarrow> bytes" where
  "lease_encode r =
     (let s = replicate LEASE_SIZE 0;
          s = poke 0 LEASE_MAGIC s;
          s = poke 8 (put_le 8 LEASE_FORMAT) s;
          s = poke 16 (tok r) s;
          s = poke 32 (put_le 8 (counter r)) s;
          s = poke 40 (put_le 8 (pid r)) s;
          s = poke 48 (machine r) s;
          s = poke (48 + ID_N + 1) (boot r) s;
          s = poke (48 + 2 * (ID_N + 1)) (host r) s
      in poke (LEASE_SIZE - 8) (put_le 8 (ucast (crc32c (take (LEASE_SIZE - 8) s)) :: u64)) s)"

definition lease_decode :: "bytes \<Rightarrow> lease_rec option" where
  "lease_decode s =
     (if peek 0 8 s \<noteq> LEASE_MAGIC \<or> get_le (peek 8 8 s) \<noteq> LEASE_FORMAT then None
      else if get_le (peek (LEASE_SIZE - 8) 8 s) \<noteq> (ucast (crc32c (take (LEASE_SIZE - 8) s)) :: u64) then None
      else Some \<lparr>tok = peek 16 16 s, counter = get_le (peek 32 8 s), pid = get_le (peek 40 8 s),
        machine = (peek 48 (ID_N + 1) s)[ID_N := 0], boot = (peek (48 + ID_N + 1) (ID_N + 1) s)[ID_N := 0],
        host = (peek (48 + 2 * (ID_N + 1)) (HOST_N + 1) s)[HOST_N := 0]\<rparr>)"

section \<open>Reading and writing it\<close>

record lease =
  path :: string
  renew_ms :: u32
  trust_ms :: u32
  dead_ms :: u32
  settle_ms :: u32
  race_ms :: u32
  mine :: lease_rec
  confirmed :: u64
  fenced :: bool
  holder :: string
  renewals :: nat

text \<open>
  \<open>r\<close> and \<open>st\<close> are what the caller's record and state hold before; the answer is the code, the
  record, the sector as read, and the state.
\<close>

definition lease_read ::
  "('w, 'f, 'c) io_ops \<Rightarrow> string \<Rightarrow> lease_rec \<Rightarrow> lease_state \<Rightarrow> 'w \<Rightarrow> io_code \<times> lease_rec \<times> bytes \<times> lease_state \<times> 'w" where
  "lease_read io p r st w =
     (let (rc, f, w) = op_open io p {IO_READ_ONLY} w;
          raw = replicate LEASE_SIZE 0
      in if rc = ENOENT then (IO_OK, r, raw, L_ABSENT, w)
         else if rc \<noteq> IO_OK then (rc, r, raw, st, w)
         else let (rc, bs, w) = op_read_at io (the f) 0 LEASE_SIZE w;
                  raw = poke 0 bs raw;
                  (_, w) = op_close io (the f) w
              in if rc \<noteq> IO_OK then (rc, r, raw, st, w)
                 else case (if length bs = LEASE_SIZE then lease_decode raw else None) of
                   Some r \<Rightarrow> (IO_OK, r, raw, L_READ, w)
                 | None \<Rightarrow> (IO_OK, r, raw, L_UNREADABLE, w))"

definition lease_write :: "('w, 'f, 'c) io_ops \<Rightarrow> lease \<Rightarrow> bool \<Rightarrow> 'w \<Rightarrow> io_code \<times> 'w" where
  "lease_write io l create w =
     (let s = lease_encode (mine l);
          (rc, f, w) = op_open io (path l) (if create then {IO_CREATE, IO_EXCLUSIVE} else {IO_CREATE}) w
      in if rc \<noteq> IO_OK then (rc, w)
      else let (rc, w) = op_write_at io (the f) 0 s w;
               (rc, w) = (if rc = IO_OK then op_sync io (the f) w else (rc, w));
               (c, w) = op_close io (the f) w;
               rc = (if rc = IO_OK then c else rc)
           in if rc = IO_OK \<and> create then op_sync_dir io (gs_dirname (path l)) w else (rc, w))"

definition ours :: "lease \<Rightarrow> lease_rec \<Rightarrow> bool" where
  "ours l r \<longleftrightarrow> tok r = tok (mine l)"

definition fence :: "lease \<Rightarrow> lease_rec \<Rightarrow> lease" where
  "fence l r = l\<lparr>fenced := True, holder := describe r (HOST_N + 48)\<rparr>"

section \<open>Letting go\<close>

definition gs_lease_close :: "('w, 'f, 'c) io_ops \<Rightarrow> lease \<Rightarrow> bool \<Rightarrow> 'w \<Rightarrow> 'w" where
  "gs_lease_close io l clean w =
     (if clean \<and> \<not> fenced l then
        let (rc, r, raw, st, w) = lease_read io (path l) zero_rec L_ABSENT w
        in if rc = IO_OK \<and> st = L_READ \<and> ours l r then
             let (rc, w) = op_remove io (path l) w
             in if rc = IO_OK then snd (op_sync_dir io (gs_dirname (path l)) w) else w
           else w
      else w)"

section \<open>Taking it\<close>

record lease_options =
  opt_machine :: "string option"
  opt_lock_local :: bool
  opt_renew_ms :: u32
  opt_trust_ms :: u32
  opt_dead_ms :: u32
  opt_settle_ms :: u32
  opt_race_ms :: u32

definition gs_lease_lock_name :: "string \<Rightarrow> lease_options option \<Rightarrow> string" where
  "gs_lease_lock_name dbpath opt =
     (case opt of
        Some opt \<Rightarrow>
          (case opt_machine opt of
             Some m \<Rightarrow> if opt_lock_local opt then gs_path_with dbpath (take (ID_N + 7) (''.lock.'' @ m)) else gs_path_with dbpath ''.lock''
           | None \<Rightarrow> gs_path_with dbpath ''.lock'')
      | None \<Rightarrow> gs_path_with dbpath ''.lock'')"

definition refuse :: "lease_rec \<Rightarrow> lease_state \<Rightarrow> nat \<Rightarrow> gs_status \<times> string" where
  "refuse r st n =
     (GS_ELSEWHERE, if st = L_READ then describe r n else take (n - 1) ''another machine (its lease is being written)'')"

definition nap :: "('w, 'f, 'c) io_ops \<Rightarrow> u64 \<Rightarrow> 'w \<Rightarrow> 'w" where
  "nap io ms w = op_sleep_ms io ms w"

text \<open>How the watch ended: an I/O error, a refusal naming a record, or a lease that stood still.\<close>

datatype watch = Failed io_code | Moved lease_rec lease_state | Still

text \<open>The check both in the watch and before writing: the sector is read again and compared.\<close>

definition look_again ::
  "('w, 'f, 'c) io_ops \<Rightarrow> string \<Rightarrow> lease_rec \<Rightarrow> lease_state \<Rightarrow> bytes \<Rightarrow> 'w \<Rightarrow> watch \<times> 'w" where
  "look_again io p r st raw w =
     (let (rc, r2, again, st2, w) = lease_read io p zero_rec L_ABSENT w
      in if rc \<noteq> IO_OK then (Failed rc, w)
         else if st2 = L_ABSENT \<or> raw \<noteq> again then
           (Moved (if st2 = L_READ then r2 else r) (if st2 = L_READ then L_READ else st), w)
         else (Still, w))"

partial_function (option) watch_loop ::
  "('w, 'f, 'c) io_ops \<Rightarrow> lease \<Rightarrow> u64 \<Rightarrow> u64 \<Rightarrow> lease_rec \<Rightarrow> lease_state \<Rightarrow> bytes \<Rightarrow> 'w \<Rightarrow> (watch \<times> 'w) option" where
  "watch_loop io l start step r st raw w =
     (let (t, w) = op_now_ms io w
      in if t - start < ucast (dead_ms l) then
           (let w = nap io step w;
                (res, w) = look_again io (path l) r st raw w
            in if res = Still then watch_loop io l start step r st raw w else Some (res, w))
         else Some (Still, w))"

text \<open>The ends of \<^verbatim>\<open>gs_lease_take\<close>: taken, failed, refused.\<close>

definition taken :: "('w, 'f, 'c) io_ops \<Rightarrow> lease \<Rightarrow> 'w \<Rightarrow> gs_status \<times> lease option \<times> string \<times> 'w" where
  "taken io l w = (let (t, w) = op_now_ms io w in (GS_OK, Some (l\<lparr>confirmed := t\<rparr>), [], w))"

definition take_failed :: "('w, 'f, 'c) io_ops \<Rightarrow> lease \<Rightarrow> io_code \<Rightarrow> 'w \<Rightarrow> gs_status \<times> lease option \<times> string \<times> 'w" where
  "take_failed io l rc w = (gs_io_status rc, None, [], gs_lease_close io l False w)"

definition take_refused ::
  "('w, 'f, 'c) io_ops \<Rightarrow> lease \<Rightarrow> lease_rec \<Rightarrow> lease_state \<Rightarrow> nat \<Rightarrow> 'w \<Rightarrow> gs_status \<times> lease option \<times> string \<times> 'w" where
  "take_refused io l r st n w =
     (let (rc, why) = refuse r st n in (rc, None, why, gs_lease_close io l False w))"

text \<open>Step 4: the lease stood still; it is read once more, written, and read after settling.\<close>

definition take_over ::
  "('w, 'f, 'c) io_ops \<Rightarrow> lease \<Rightarrow> nat \<Rightarrow> lease_rec \<Rightarrow> lease_state \<Rightarrow> bytes \<Rightarrow> 'w \<Rightarrow> gs_status \<times> lease option \<times> string \<times> 'w" where
  "take_over io l n r st raw w =
     (let (res, w) = look_again io (path l) r st raw w
      in case res of
        Failed rc \<Rightarrow> take_failed io l rc w
      | Moved r2 st2 \<Rightarrow> take_refused io l r2 st2 n w
      | Still \<Rightarrow>
          let l = (if st = L_READ then l\<lparr>mine := (mine l)\<lparr>counter := counter r + 1\<rparr>\<rparr> else l);
              w = (if race_ms l \<noteq> 0 then nap io (ucast (race_ms l)) w else w);
              (rc, w) = lease_write io l False w
          in if rc \<noteq> IO_OK then take_failed io l rc w
          else let w = nap io (ucast (settle_ms l)) w;
                   (rc, r2, again, st2, w) = lease_read io (path l) zero_rec L_ABSENT w
               in if rc \<noteq> IO_OK then take_failed io l rc w
                  else if st2 \<noteq> L_READ \<or> \<not> ours l r2 then take_refused io l r2 st2 n w
                  else taken io l w)"

text \<open>Steps 2 to 4, with the record and the sector as read.\<close>

definition take_from ::
  "('w, 'f, 'c) io_ops \<Rightarrow> lease \<Rightarrow> nat \<Rightarrow> lease_rec \<Rightarrow> lease_state \<Rightarrow> bytes \<Rightarrow> 'w \<Rightarrow>
   (gs_status \<times> lease option \<times> string \<times> 'w) option" where
  "take_from io l n r st raw w =
     (if st = L_READ \<and> same_boot r (mine l) then
        let l = l\<lparr>mine := (mine l)\<lparr>counter := counter r + 1\<rparr>\<rparr>;
            (rc, w) = lease_write io l False w
        in Some (if rc \<noteq> IO_OK then take_failed io l rc w else taken io l w)
      else
        let (start, w) = op_now_ms io w;
            step = (if renew_ms l div 4 \<noteq> 0 then ucast (renew_ms l div 4) else 1)
        in map_option (\<lambda>(res, w).
             case res of
               Failed rc \<Rightarrow> take_failed io l rc w
             | Moved r2 st2 \<Rightarrow> take_refused io l r2 st2 n w
             | Still \<Rightarrow> take_over io l n r st raw w)
           (watch_loop io l start step r st raw w))"

definition new_lease :: "who \<Rightarrow> string \<Rightarrow> lease_options option \<Rightarrow> bytes \<Rightarrow> lease" where
  "new_lease me dbpath opt rnd =
     (let pick = (\<lambda>sel d. case opt of Some o1 \<Rightarrow> (if sel o1 \<noteq> 0 then sel o1 else d) | None \<Rightarrow> (d :: u32));
          m = identify me (Option.bind opt opt_machine) zero_rec
      in \<lparr>path = gs_path_with dbpath ''.lease'', renew_ms = pick opt_renew_ms 1000, trust_ms = pick opt_trust_ms 4000,
          dead_ms = pick opt_dead_ms 12000, settle_ms = pick opt_settle_ms 2000,
          race_ms = (case opt of Some o1 \<Rightarrow> opt_race_ms o1 | None \<Rightarrow> 0),
          mine = m\<lparr>tok := rnd, counter := 1\<rparr>, confirmed = 0, fenced = False, holder = [], renewals = 0\<rparr>)"

text \<open>\<open>n\<close> is the room for the refusal's text.\<close>

definition gs_lease_take ::
  "('w, 'f, 'c) io_ops \<Rightarrow> who \<Rightarrow> string \<Rightarrow> lease_options option \<Rightarrow> nat \<Rightarrow> 'w \<Rightarrow>
   (gs_status \<times> lease option \<times> string \<times> 'w) option" where
  "gs_lease_take io me dbpath opt n w =
     (let (rnd, w) = op_random io 16 w;
          l = new_lease me dbpath opt rnd;
          (rc, r, raw, st, w) = lease_read io (path l) zero_rec L_ABSENT w
      in if rc \<noteq> IO_OK then Some (take_failed io l rc w)
      else if st = L_ABSENT then
        let w = (if race_ms l \<noteq> 0 then nap io (ucast (race_ms l)) w else w);
            (rc, w) = lease_write io l True w
        in if rc = IO_OK then Some (taken io l w)
           else if rc \<noteq> EEXIST then Some (take_failed io l rc w)
           else let (rc, r, raw, st, w) = lease_read io (path l) r st w
                in if rc \<noteq> IO_OK then Some (take_failed io l rc w) else take_from io l n r st raw w
      else take_from io l n r st raw w)"

section \<open>Keeping it\<close>

definition renew :: "('w, 'f, 'c) io_ops \<Rightarrow> lease \<Rightarrow> 'w \<Rightarrow> gs_status \<times> lease \<times> 'w" where
  "renew io l w =
     (if fenced l then (GS_FENCED, l, w)
      else let (t0, w) = op_now_ms io w;
               (rc, r, raw, st, w) = lease_read io (path l) zero_rec L_ABSENT w
      in if rc \<noteq> IO_OK then (gs_io_status rc, l, w)
      else if st = L_READ \<and> \<not> ours l r then (GS_FENCED, fence l r, w)
      else let l = l\<lparr>mine := (mine l)\<lparr>counter := counter (mine l) + 1\<rparr>\<rparr>;
               ok = (\<lambda>l w. (GS_OK, l\<lparr>confirmed := t0, renewals := renewals l + 1\<rparr>, w))
      in if st = L_ABSENT then
           let (rc, w) = lease_write io l True w
           in if rc = EEXIST then
                let (rc, r, raw, st, w) = lease_read io (path l) r st w
                in if rc \<noteq> IO_OK then (gs_io_status rc, l, w)
                   else if st \<noteq> L_READ \<or> \<not> ours l r then
                     (GS_FENCED, if st = L_READ then fence l r else l\<lparr>fenced := True, holder := ''another machine''\<rparr>, w)
                   else ok l w
              else if rc \<noteq> IO_OK then (gs_io_status rc, l, w) else ok l w
         else let (rc, w) = lease_write io l False w
              in if rc \<noteq> IO_OK then (gs_io_status rc, l, w) else ok l w)"

text \<open>The answer holds the time until the next renewal is due.\<close>

definition gs_lease_keep :: "('w, 'f, 'c) io_ops \<Rightarrow> lease \<Rightarrow> bool \<Rightarrow> 'w \<Rightarrow> gs_status \<times> u64 \<times> lease \<times> 'w" where
  "gs_lease_keep io l force w =
     (let (rc, l, w) =
            (if fenced l then (GS_FENCED, l, w)
             else if force then renew io l w
             else let (t, w) = op_now_ms io w
                  in if ucast (renew_ms l) \<le> t - confirmed l then renew io l w else (GS_OK, l, w));
          (t, w) = op_now_ms io w;
          age = t - confirmed l
      in (rc, if ucast (renew_ms l) \<le> age then 0 else ucast (renew_ms l) - age, l, w))"

definition fence_check :: "('w, 'f, 'c) io_ops \<Rightarrow> lease \<Rightarrow> 'w \<Rightarrow> io_code \<times> lease \<times> 'w" where
  "fence_check io l w =
     (if fenced l then (IO_FENCED, l, w)
      else let (t, w) = op_now_ms io w
      in if t - confirmed l < ucast (trust_ms l) then (IO_OK, l, w)
      else let (rc, l, w) = renew io l w
      in (if rc = GS_FENCED then IO_FENCED else if rc = GS_OK then IO_OK else EIO, l, w))"

definition gs_lease_describe :: "('w, 'f, 'c) io_ops \<Rightarrow> string \<Rightarrow> nat \<Rightarrow> 'w \<Rightarrow> string \<times> 'w" where
  "gs_lease_describe io dir n w =
     (let (rc, r, raw, st, w) = lease_read io (dir @ ''/db.lease'') zero_rec L_ABSENT w
      in (if rc = IO_OK \<and> st = L_READ then describe r n
          else take (n - 1) ''another machine (its lease could not be read)'', w))"

section \<open>The fenced layer\<close>

text \<open>The world of the fenced layer: the lease and the inner layer's world.\<close>

definition guarded :: "('w, 'f, 'c) io_ops \<Rightarrow> ('w \<Rightarrow> io_code \<times> 'w) \<Rightarrow> lease \<times> 'w \<Rightarrow> io_code \<times> lease \<times> 'w" where
  "guarded io act = (\<lambda>(l, w).
     let (rc, l, w) = fence_check io l w
     in if rc \<noteq> IO_OK then (rc, l, w) else let (rc, w) = act w in (rc, l, w))"

definition passed :: "('w \<Rightarrow> 'a \<times> 'w) \<Rightarrow> lease \<times> 'w \<Rightarrow> 'a \<times> lease \<times> 'w" where
  "passed act = (\<lambda>(l, w). let (a, w) = act w in (a, l, w))"

definition f_open :: "('w, 'f, 'c) io_ops \<Rightarrow> string \<Rightarrow> io_flag set \<Rightarrow> lease \<times> 'w \<Rightarrow> io_code \<times> 'f option \<times> lease \<times> 'w" where
  "f_open io p fl = (\<lambda>(l, w).
     let (rc, l, w) = (if IO_CREATE \<in> fl then fence_check io l w else (IO_OK, l, w))
     in if rc \<noteq> IO_OK then (rc, None, l, w) else let (rc, f, w) = op_open io p fl w in (rc, f, l, w))"

definition fenced_ops :: "('w, 'f, 'c) io_ops \<Rightarrow> (lease \<times> 'w, 'f, 'c) io_ops" where
  "fenced_ops io = \<lparr>op_open = f_open io,
     op_read_at = (\<lambda>f off n (l, w). let (rc, b, w) = op_read_at io f off n w in (rc, b, l, w)),
     op_write_at = (\<lambda>f off b. guarded io (op_write_at io f off b)),
     op_sync = (\<lambda>f. passed (op_sync io f)),
     op_size = (\<lambda>f (l, w). let (rc, n, w) = op_size io f w in (rc, n, l, w)),
     op_truncate = (\<lambda>f n. guarded io (op_truncate io f n)),
     op_close = (\<lambda>f. passed (op_close io f)),
     op_rename = (\<lambda>a b. guarded io (op_rename io a b)),
     op_remove = (\<lambda>p. guarded io (op_remove io p)),
     op_sync_dir = (\<lambda>d. passed (op_sync_dir io d)),
     op_lock = (\<lambda>f nb. passed (op_lock io f nb)),
     op_random = (\<lambda>n. passed (op_random io n)),
     op_mkdir = (\<lambda>p. guarded io (op_mkdir io p)),
     op_list = (\<lambda>d each c (l, w). let (rc, c, w) = op_list io d each c w in (rc, c, l, w)),
     op_now_ms = passed (op_now_ms io),
     op_sleep_ms = (\<lambda>ms (l, w). (l, op_sleep_ms io ms w))\<rparr>"

end
