(* ===== verification/Io_Sim_Props.thy ===== *)
theory Io_Sim_Props
  imports "HOL-Library.Multiset" "HOL-Library.Sublist" Io_Sim
begin

text \<open>
  The durability contract of \<^verbatim>\<open>include/gsql_io.h\<close> for the simulated layer: what is flushed survives
  every crash, what is not survives as whole sectors of a selection of the writes, a crash of the
  process alone loses nothing, and after the crash point nothing happens. A file is looked at byte by
  byte (\<open>byte_at\<close>), a list of names as the map it denotes.
\<close>

section \<open>Bytes\<close>

definition byte_at :: "bytes \<Rightarrow> nat \<Rightarrow> byte option" where
  "byte_at b j = (if j < length b then Some (b ! j) else None)"

lemma byte_at_eqI: "(\<And>j. byte_at a j = byte_at b j) \<Longrightarrow> a = b"
proof (rule nth_equalityI)
  assume *: "\<And>j. byte_at a j = byte_at b j"
  show "length a = length b"
    using * [of "length a"] * [of "length b"] by (auto simp: byte_at_def split: if_splits)
  fix j assume "j < length a"
  then show "a ! j = b ! j" using * [of j] by (auto simp: byte_at_def split: if_splits)
qed

text \<open>What an operation does to the byte at \<open>j\<close>.\<close>

fun point :: "pend \<Rightarrow> nat \<Rightarrow> byte option \<Rightarrow> byte option" where
  "point (P_WRITE _ off src) j x =
     (if off \<le> j \<and> j < off + length src then Some (src ! (j - off))
      else if src \<noteq> [] \<and> j < off + length src \<and> x = None then Some 0 else x)"
| "point (P_TRUNC _ n) j x = (if n \<le> j then None else if x = None then Some 0 else x)"
| "point _ j x = x"

lemma byte_at_write: "byte_at (buf_write b off src) j = point (P_WRITE i off src) j (byte_at b j)"
  by (cases "src = []") (auto simp: byte_at_def buf_write_def buf_reserve_def poke_def nth_append min_def)

lemma byte_at_truncate: "byte_at (buf_truncate b n) j = point (P_TRUNC i n) j (byte_at b j)"
  by (auto simp: byte_at_def buf_truncate_def buf_reserve_def nth_append)

lemma byte_at_apply: "byte_at (apply_data b p None) j = point p j (byte_at b j)"
proof (cases p)
  case (P_WRITE i off src)
  then show ?thesis using byte_at_write [of b off src j i] by simp
next
  case (P_TRUNC i n)
  then show ?thesis using byte_at_truncate [of b n j i] by simp
qed simp_all

text \<open>A torn write reaches the sectors below \<open>pos div SECTOR + k\<close>.\<close>

lemma byte_at_torn:
  "byte_at (torn_write k b pos src) j =
     (if k \<noteq> 0 \<and> j div SECTOR < pos div SECTOR + k then point (P_WRITE i pos src) j (byte_at b j) else byte_at b j)"
proof (induction k arbitrary: b pos src)
  case (Suc k)
  show ?case
  proof (cases "src = []")
    case True
    then show ?thesis by auto
  next
    case False
    define edge where "edge = (pos div SECTOR + 1) * SECTOR"
    define stop where "stop = (if edge < pos + length src then edge else pos + length src)"
    have S: "0 < SECTOR" by (simp add: SECTOR_def)
    have pn: "pos < edge" using dividend_less_div_times [OF S, of pos] by (simp add: edge_def)
    have dv: "edge div SECTOR = pos div SECTOR + 1" unfolding edge_def using S by simp
    have jd: "j div SECTOR < pos div SECTOR + 1 \<longleftrightarrow> j < edge"
      unfolding edge_def using S by (simp add: less_mult_imp_div_less div_less_iff_less_mult)
    have m: "pos < stop" "stop \<le> pos + length src" using pn False by (auto simp: stop_def)
    have t: "torn_write (Suc k) b pos src = torn_write k (buf_write b pos (take (stop - pos) src)) stop (drop (stop - pos) src)"
      using False by (simp add: Let_def stop_def edge_def)
    show ?thesis
    proof (cases "stop = edge")
      case True
      then have sd: "stop div SECTOR + k = pos div SECTOR + Suc k" using dv by simp
      have jn: "j < edge \<Longrightarrow> j div SECTOR < pos div SECTOR + Suc k" using jd by linarith
      show ?thesis unfolding t Suc.IH sd byte_at_write [of _ _ _ _ i] using m jn jd True
        by (cases "k = 0") (auto simp: min_def)
    next
      case no: False
      then have e: "stop = pos + length src" "pos + length src \<le> edge" by (auto simp: stop_def split: if_splits)
      have "point (P_WRITE i pos src) j (byte_at b j) = byte_at b j" if "\<not> j div SECTOR < pos div SECTOR + Suc k"
      proof -
        have "edge \<le> j" using that jd by linarith
        then show ?thesis using e by simp
      qed
      then show ?thesis unfolding t Suc.IH using e by (auto simp: byte_at_write [of _ _ _ _ i])
    qed
  qed
qed simp

text \<open>A list of whole operations.\<close>

definition apply_ops :: "pend list \<Rightarrow> bytes \<Rightarrow> bytes" where
  "apply_ops ps b = foldl (\<lambda>b p. apply_data b p None) b ps"

lemma apply_ops_simps [simp]:
  "apply_ops [] b = b" "apply_ops (p # ps) b = apply_ops ps (apply_data b p None)"
  "apply_ops (ps @ qs) b = apply_ops qs (apply_ops ps b)"
  by (simp_all add: apply_ops_def)

lemma byte_at_ops: "byte_at (apply_ops ps b) j = fold (\<lambda>p. point p j) ps (byte_at b j)"
  by (induction ps arbitrary: b) (simp_all add: byte_at_apply)

section \<open>Names\<close>

lemma names_find_map:
  "names_find ns p = None \<longleftrightarrow> map_of ns p = None"
  "names_find ns p = Some i \<Longrightarrow> map_of ns p = Some (snd (ns ! i))"
  by (induction ns p arbitrary: i rule: names_find.induct) (auto split: if_splits)

lemma map_of_names_set [simp]: "map_of (names_set ns p x) = (map_of ns)(p \<mapsto> x)"
proof (cases "names_find ns p")
  case None
  then show ?thesis by (auto simp: names_set_def names_find_map map_add_def fun_eq_iff split: option.splits)
next
  case (Some i)
  have "map_of (ns[i := (fst (ns ! i), x)]) = (map_of ns)(p \<mapsto> x)" using Some
    by (induction ns p arbitrary: i rule: names_find.induct) (auto split: if_splits simp: fun_eq_iff)
  then show ?thesis using Some by (simp add: names_set_def)
qed

lemma names_set_keys: "distinct (map fst ns) \<Longrightarrow> distinct (map fst (names_set ns p x))"
  by (auto simp: names_set_def names_find_None map_update dest: names_find_nth split: option.splits)
    (metis length_map list_update_id names_find_nth nth_map)

lemma mset_swap_out: "i < length ns \<Longrightarrow> mset (butlast (ns[i := last ns])) = mset ns - {#ns ! i#}"
proof (cases ns rule: rev_cases)
  case (snoc ys z)
  assume "i < length ns"
  with snoc consider "i < length ys" | "i = length ys" by fastforce
  then show ?thesis using snoc by cases (simp_all add: list_update_append mset_update nth_append)
qed simp

lemma names_del_set:
  assumes "distinct (map fst ns)"
  shows "distinct (map fst (names_del ns p))" "set (names_del ns p) = {x \<in> set ns. fst x \<noteq> p}"
proof -
  have "distinct (map fst (names_del ns p)) \<and> set (names_del ns p) = {x \<in> set ns. fst x \<noteq> p}"
  proof (cases "names_find ns p")
    case None
    then have "fst x \<noteq> p" if "x \<in> set ns" for x using that names_find_None [of ns p] by blast
    then show ?thesis using assms None by (auto simp: names_del_def)
  next
    case (Some i)
    note i = names_find_nth [OF Some]
    have ms: "mset (names_del ns p) = mset ns - {#ns ! i#}" using Some i by (simp add: names_del_def mset_swap_out)
    have "mset (map fst (names_del ns p)) = mset (map fst ns) - {#p#}"
      using i by (simp add: ms image_mset_Diff)
    then have d: "distinct (map fst (names_del ns p))"
      using assms by (metis distinct_remove1 mset_eq_imp_distinct_iff mset_remove1)
    have dn: "distinct ns" using assms by (simp add: distinct_map)
    have "set (names_del ns p) = set ns - {ns ! i}"
      using ms dn i by (metis mset_eq_setD mset_remove1 set_remove1_eq)
    also have "\<dots> = {x \<in> set ns. fst x \<noteq> p}"
    proof -
      have "x = ns ! i" if "x \<in> set ns" "fst x = p" for x
        using that i assms by (metis (no_types, lifting) distinct_map inj_onD nth_mem)
      then show ?thesis using i by auto
    qed
    finally show ?thesis using d by simp
  qed
  then show "distinct (map fst (names_del ns p))" "set (names_del ns p) = {x \<in> set ns. fst x \<noteq> p}" by simp_all
qed

lemma map_of_names_del [simp]:
  assumes "distinct (map fst ns)"
  shows "map_of (names_del ns p) = (map_of ns)(p := None)"
proof
  fix q
  have "map_of (names_del ns p) q = Some x \<longleftrightarrow> ((map_of ns)(p := None)) q = Some x" for x
    using names_del_set [OF assms, of p] assms by (auto simp: map_of_eq_Some_iff)
  then show "map_of (names_del ns p) q = ((map_of ns)(p := None)) q"
    by (metis not_Some_eq)
qed

lemma names_copy_id: "distinct (map fst ns) \<Longrightarrow> names_copy ns = ns"
proof (induction ns rule: rev_induct)
  case (snoc x ns)
  have "names_copy (ns @ [x]) = names_set (names_copy ns) (fst x) (snd x)" by (simp add: names_copy_def case_prod_beta)
  moreover have "names_find ns (fst x) = None" using snoc.prems by (simp add: names_find_None)
  ultimately show ?case using snoc by (simp add: names_set_def)
qed (simp add: names_copy_def)

section \<open>The disk a crash leaves\<close>

lemma subseq_mset: "subseq xs ys \<Longrightarrow> mset xs \<subseteq># mset ys"
  by (induction rule: list_emb.induct) (auto simp: subset_mset.le_iff_add intro: exI)

lemma survivors_spec:
  "survivors ps r ns data = (r', ns', data') \<Longrightarrow>
   \<exists>qs. subseq qs ps \<and> data' = data @ filter is_data qs \<and> ns' = foldl apply_name ns (filter (\<lambda>p. \<not> is_data p) qs)"
proof (induction ps arbitrary: r ns data)
  case (Cons p ps)
  obtain z r1 where z: "splitmix r = (z, r1)" by fastforce
  show ?case
  proof (cases "z AND 1 = 0")
    case True
    then have "survivors ps r1 ns data = (r', ns', data')" using Cons.prems z by simp
    from Cons.IH [OF this] obtain qs where "subseq qs ps" "data' = data @ filter is_data qs"
      "ns' = foldl apply_name ns (filter (\<lambda>p. \<not> is_data p) qs)" by blast
    then show ?thesis by (intro exI [of _ qs]) auto
  next
    case False
    have "survivors ps r1 (if is_data p then ns else apply_name ns p) (if is_data p then data @ [p] else data) = (r', ns', data')"
      using Cons.prems z False by (simp split: if_splits)
    from Cons.IH [OF this] obtain qs where q: "subseq qs ps"
      "data' = (if is_data p then data @ [p] else data) @ filter is_data qs"
      "ns' = foldl apply_name (if is_data p then ns else apply_name ns p) (filter (\<lambda>p. \<not> is_data p) qs)" by blast
    then show ?thesis by (intro exI [of _ "p # qs"]) auto
  qed
qed (auto intro: exI [of _ "[]"])

lemma shuffle_mset: "i \<le> length d \<Longrightarrow> shuffle i r d = (r', d') \<Longrightarrow> mset d' = mset d"
proof (induction i arbitrary: r d)
  case (Suc i)
  obtain z r1 where z: "splitmix r = (z, r1)" by fastforce
  show ?case
  proof (cases "i = 0")
    case False
    define j where "j = unat z mod Suc i"
    have "j < Suc i" by (simp add: j_def)
    then have j: "j < length d" "i < length d" using Suc.prems(1) by simp_all
    have "mset d' = mset (d[i := d ! j, j := d ! i])"
      by (rule Suc.IH [of _ r1]) (use Suc.prems z False in \<open>simp_all add: j_def Let_def\<close>)
    then show ?thesis using mset_swap [OF j] by simp
  qed (use Suc.prems in simp)
qed simp

text \<open>Applying data operations to all inodes: inode \<open>i\<close> gets the operations on \<open>i\<close>, in order.\<close>

definition data_of :: "nat \<Rightarrow> pend list \<Rightarrow> pend list" where
  "data_of i ps = filter (\<lambda>p. is_data p \<and> pend_inode p = i) ps"

lemma fold_whole:
  assumes "i < length ds" "\<forall>p \<in> set ps. is_data p" "\<forall>x \<in> set (enumerate n ps). \<forall>t k. torn = Some (t, k) \<longrightarrow> fst x \<noteq> t"
  shows "foldl (apply_one torn) ds (enumerate n ps) ! i = apply_ops (data_of i ps) (ds ! i)"
    and "length (foldl (apply_one torn) ds (enumerate n ps)) = length ds"
proof -
  have "foldl (apply_one torn) ds (enumerate n ps) ! i = apply_ops (data_of i ps) (ds ! i) \<and>
      length (foldl (apply_one torn) ds (enumerate n ps)) = length ds"
    using assms
  proof (induction ps arbitrary: n ds)
    case (Cons p ps)
    have one: "apply_one torn ds (n, p) = ds[pend_inode p := apply_data (ds ! pend_inode p) p None]"
      using Cons.prems(3) by (cases torn) (auto simp: apply_one_def)
    show ?case using Cons.IH [of "apply_one torn ds (n, p)" "Suc n"] Cons.prems one
      by (cases "pend_inode p = i") (auto simp: data_of_def)
  qed (simp add: data_of_def)
  then show "foldl (apply_one torn) ds (enumerate n ps) ! i = apply_ops (data_of i ps) (ds ! i)"
    "length (foldl (apply_one torn) ds (enumerate n ps)) = length ds" by simp_all
qed

lemma pick_torn_bound: "pick_torn ps k = Some i \<Longrightarrow> i < length ps"
  by (induction ps k arbitrary: i rule: pick_torn.induct) (auto split: if_splits)

lemma choose_torn_bound: "choose_torn mode data r = Some (t, k) \<Longrightarrow> t < length data \<and> mode = CRASH_TORN"
  by (auto simp: choose_torn_def Let_def case_prod_beta dest: pick_torn_bound split: if_splits)

text \<open>A torn operation, by its border; one that is not a write is applied whole.\<close>

lemma torn_data:
  assumes "is_data p"
  obtains k where "\<And>j. byte_at (apply_data b p (Some keep)) j = (if j div SECTOR < k then point p j (byte_at b j) else byte_at b j)"
  | "\<And>j. byte_at (apply_data b p (Some keep)) j = point p j (byte_at b j)"
proof (cases p)
  case (P_WRITE i off src)
  show ?thesis
    by (rule that(1) [of "if keep = 0 then 0 else off div SECTOR + keep"])
      (simp add: P_WRITE byte_at_torn [of keep b off src _ i] del: point.simps)
next
  case (P_TRUNC i n)
  show ?thesis by (rule that(2)) (simp add: P_TRUNC byte_at_truncate [of b n _ i] del: point.simps)
qed (use assms in simp_all)

lemma data_of_append: "data_of i (ps @ qs) = data_of i ps @ data_of i qs"
  by (simp add: data_of_def)

text \<open>
  What a power failure leaves of an inode: the operations \<open>ps\<close>, selected from those pending, in some
  order; one of them may be torn at a sector border, from which on the disk looks as without it.
\<close>

lemma crash_disk_data:
  assumes cd: "crash_disk s mode sd = (ds, ns)" and mode: "mode \<noteq> CRASH_PROCESS" and i: "i < length (inodes s)"
  shows "length ds = length (inodes s)"
    "\<exists>ps qs k. mset ps \<subseteq># mset (data_of i (pend s)) \<and>
       (qs = ps \<or> mode = CRASH_TORN \<and> (\<exists>us p vs. ps = us @ p # vs \<and> qs = us @ vs)) \<and>
       (\<forall>j. byte_at (ds ! i) j = byte_at (apply_ops (if j div SECTOR < k then ps else qs) (durable (inodes s ! i))) j)"
proof -
  let ?d = "map durable (inodes s)"
  let ?b = "durable (inodes s ! i)"
  obtain r ns' data r' d' where sv: "survivors (pend s) (sd XOR 0xA0761D6478BD642F) (names_copy (durable_names s)) [] = (r, ns', data)"
    and sh: "shuffle (length data) r data = (r', d')" by (metis surj_pair)
  then have ds: "ds = apply_all (choose_torn mode d' r') d' ?d" using cd mode by (simp add: crash_disk_def)
  obtain qs where q: "subseq qs (pend s)" "data = filter is_data qs" using survivors_spec [OF sv] by auto
  have md: "mset d' = mset data" using shuffle_mset [OF _ sh] by simp
  have isd: "\<forall>p \<in> set d'. is_data p" using mset_eq_setD [OF md] q(2) by simp
  have sub: "mset (data_of i d') \<subseteq># mset (data_of i (pend s))"
  proof -
    have "data_of i data = data_of i qs" unfolding q(2) data_of_def filter_filter by (rule filter_cong) auto
    then have "mset (data_of i d') = mset (data_of i qs)" using md by (metis data_of_def mset_filter)
    also have "\<dots> \<subseteq># mset (data_of i (pend s))"
      unfolding data_of_def by (rule subseq_mset [OF subseq_filter [OF q(1)]])
    finally show ?thesis .
  qed
  have len: "i < length ?d" "?d ! i = ?b" using i by simp_all
  have "length ds = length (inodes s) \<and> (\<exists>ps qs k. mset ps \<subseteq># mset (data_of i (pend s)) \<and>
       (qs = ps \<or> mode = CRASH_TORN \<and> (\<exists>us p vs. ps = us @ p # vs \<and> qs = us @ vs)) \<and>
       (\<forall>j. byte_at (ds ! i) j = byte_at (apply_ops (if j div SECTOR < k then ps else qs) ?b) j))"
  proof (cases "choose_torn mode d' r'")
    case None
    have "ds ! i = apply_ops (data_of i d') ?b \<and> length ds = length ?d"
      using fold_whole [OF len(1) isd, of 0 None] len by (simp add: ds None apply_all_def)
    then show ?thesis using sub by (intro conjI exI [of _ "data_of i d'"]) simp_all
  next
    case (Some tk)
    obtain t keep where tk: "tk = (t, keep)" by fastforce
    have t: "t < length d'" "mode = CRASH_TORN" using choose_torn_bound Some tk by blast+
    define us vs p where "us = take t d'" and "vs = drop (Suc t) d'" and "p = d' ! t"
    have d': "d' = us @ p # vs" "length us = t" using t id_take_nth_drop [OF t(1)] by (simp_all add: us_def vs_def p_def)
    have en: "enumerate 0 d' = enumerate 0 us @ (t, p) # enumerate (Suc t) vs"
      unfolding d'(1) using d'(2) by (simp add: enumerate_append_eq)
    have isd': "\<forall>p \<in> set us. is_data p" "\<forall>p \<in> set vs. is_data p" "is_data p" using isd d'(1) by auto
    let ?tk = "Some (t, keep)"
    define d1 where "d1 = foldl (apply_one ?tk) ?d (enumerate 0 us)"
    define d2 where "d2 = apply_one ?tk d1 (t, p)"
    have d1: "d1 ! i = apply_ops (data_of i us) ?b" "length d1 = length ?d"
      unfolding d1_def using fold_whole [OF len(1) isd'(1), of 0 ?tk] len d'(2) by (auto simp: in_set_enumerate_eq)
    have d2: "d2 = d1[pend_inode p := apply_data (d1 ! pend_inode p) p (Some keep)]" by (simp add: d2_def apply_one_def)
    have i2: "i < length d2" using d1(2) len(1) d2 by simp
    have ds2: "ds ! i = apply_ops (data_of i vs) (d2 ! i)" "length ds = length d2"
      using fold_whole [OF i2 isd'(2), of "Suc t" ?tk]
      by (auto simp: ds Some tk apply_all_def en d1_def d2_def in_set_enumerate_eq)
    have l: "length ds = length (inodes s)" using ds2(2) d2 d1(2) by simp
    show ?thesis
    proof (cases "pend_inode p = i")
      case False
      then have "ds ! i = apply_ops (data_of i d') ?b"
        unfolding ds2(1) d2 d'(1) by (simp add: d1(1) data_of_def)
      then show ?thesis using sub l by (intro conjI exI [of _ "data_of i d'"]) simp_all
    next
      case True
      let ?b1 = "apply_ops (data_of i us) ?b"
      have dd: "data_of i d' = data_of i us @ p # data_of i vs" unfolding d'(1) using True isd'(3) by (simp add: data_of_def)
      have ba: "byte_at (ds ! i) j = fold (\<lambda>p. point p j) (data_of i vs) (byte_at (apply_data ?b1 p (Some keep)) j)" for j
        unfolding ds2(1) d2 using True i2 d1 d2 by (simp add: byte_at_ops)
      show ?thesis
      proof (rule torn_data [OF isd'(3), of ?b1 keep])
        fix k assume k: "\<And>j. byte_at (apply_data ?b1 p (Some keep)) j = (if j div SECTOR < k then point p j (byte_at ?b1 j) else byte_at ?b1 j)"
        have "byte_at (ds ! i) j = byte_at (apply_ops (if j div SECTOR < k then data_of i us @ p # data_of i vs else data_of i us @ data_of i vs) ?b) j" for j
          unfolding ba k by (simp add: byte_at_ops byte_at_apply)
        then show ?thesis using sub l t(2) unfolding dd
          by (intro conjI exI [of _ "data_of i us @ p # data_of i vs"] exI [of _ "data_of i us @ data_of i vs"] exI [of _ k]) auto
      next
        assume k: "\<And>j. byte_at (apply_data ?b1 p (Some keep)) j = point p j (byte_at ?b1 j)"
        have "byte_at (ds ! i) j = byte_at (apply_ops (data_of i d') ?b) j" for j
          unfolding ba k dd by (simp add: byte_at_ops byte_at_apply)
        then show ?thesis using sub l by (intro conjI exI [of _ "data_of i d'"]) simp_all
      qed
    qed
  qed
  then show "length ds = length (inodes s)"
    "\<exists>ps qs k. mset ps \<subseteq># mset (data_of i (pend s)) \<and>
       (qs = ps \<or> mode = CRASH_TORN \<and> (\<exists>us p vs. ps = us @ p # vs \<and> qs = us @ vs)) \<and>
       (\<forall>j. byte_at (ds ! i) j = byte_at (apply_ops (if j div SECTOR < k then ps else qs) ?b) j)" by simp_all
qed

section \<open>Names as maps\<close>

type_synonym name_map = "string \<Rightarrow> nat option option"

fun name_op :: "pend \<Rightarrow> name_map \<Rightarrow> name_map" where
  "name_op (P_CREATE x p) m = (if m p = None then m(p \<mapsto> x) else m)"
| "name_op (P_RENAME p q) m = (case m p of None \<Rightarrow> m | Some x \<Rightarrow> (m(p := None))(q \<mapsto> x))"
| "name_op (P_REMOVE p) m = m(p := None)"
| "name_op _ m = m"

lemma map_of_apply_name:
  assumes "distinct (map fst ns)"
  shows "map_of (apply_name ns p) = name_op p (map_of ns)" "distinct (map fst (apply_name ns p))"
proof -
  have "map_of (apply_name ns p) = name_op p (map_of ns) \<and> distinct (map fst (apply_name ns p))"
  proof (cases p)
    case (P_CREATE x q)
    then show ?thesis using assms names_set_keys [OF assms] names_find_map(1) [of ns q]
      by (cases "map_of ns q = None") (simp_all del: map_of_eq_None_iff not_None_eq)
  next
    case (P_RENAME q r)
    show ?thesis
    proof (cases "names_find ns q")
      case None
      then have "map_of ns q = None" using names_find_map(1) [of ns q] by simp
      then show ?thesis using assms None P_RENAME by (simp del: map_of_eq_None_iff)
    next
      case (Some i)
      have "map_of ns q = Some (snd (ns ! i))" by (rule names_find_map(2) [OF Some])
      then show ?thesis using assms Some P_RENAME names_del_set(1) [OF assms]
        by (simp add: Let_def names_set_keys map_of_names_del del: map_of_eq_Some_iff)
    qed
  next
    case (P_REMOVE q)
    then show ?thesis using assms names_del_set(1) [OF assms] by (simp add: map_of_names_del)
  qed (use assms in simp_all)
  then show "map_of (apply_name ns p) = name_op p (map_of ns)" "distinct (map fst (apply_name ns p))" by simp_all
qed

lemma map_of_apply_names:
  "distinct (map fst ns) \<Longrightarrow>
   map_of (foldl apply_name ns ps) = fold name_op ps (map_of ns) \<and> distinct (map fst (foldl apply_name ns ps))"
  by (induction ps arbitrary: ns) (simp_all add: map_of_apply_name)

text \<open>The directory of a path, as text; an operation on names works in one directory.\<close>

definition dir_of :: "string \<Rightarrow> string" where
  "dir_of path = take (dir_len path) path"

definition op_dir :: "pend \<Rightarrow> string" where
  "op_dir p = dir_of (ns_dir_path p)"

fun op_ok :: "pend \<Rightarrow> bool" where
  "op_ok (P_RENAME p q) = (dir_of p = dir_of q)"
| "op_ok _ = True"

lemma strrchr_slash_less: "strrchr_slash p = Some n \<Longrightarrow> n < length p"
  by (induction p arbitrary: n) (auto split: option.splits if_splits)

lemma dir_len_le: "dir_len p \<le> length p"
  by (auto simp: dir_len_def dest: strrchr_slash_less split: option.splits)

lemma length_dir_of: "length (dir_of p) = dir_len p"
  using dir_len_le [of p] by (simp add: dir_of_def)

lemma same_dir_of: "same_dir a b \<longleftrightarrow> dir_of a = dir_of b"
proof
  show "same_dir a b \<Longrightarrow> dir_of a = dir_of b" by (auto simp: same_dir_def dir_of_def)
  assume *: "dir_of a = dir_of b"
  then have "dir_len a = dir_len b" using length_dir_of [of a] length_dir_of [of b] by simp
  then show "same_dir a b" using * by (simp add: same_dir_def dir_of_def)
qed

lemma in_dir_of: "in_dir p d \<longleftrightarrow> dir_of p = trim_slashes d"
proof -
  have t: "take (length (trim_slashes d)) d = trim_slashes d"
  proof -
    let ?P = "\<lambda>c. c = CHR ''/''"
    have "d = trim_slashes d @ rev (takeWhile ?P (rev d))"
      unfolding trim_slashes_def rev_append [symmetric] by simp
    then show ?thesis by (metis append_eq_conv_conj)
  qed
  show ?thesis
  proof
    assume "in_dir p d"
    then have "dir_len p = length (trim_slashes d)" "take (dir_len p) p = take (dir_len p) d"
      by (auto simp: in_dir_def Let_def)
    then show "dir_of p = trim_slashes d" using t by (simp add: dir_of_def)
  next
    assume e: "dir_of p = trim_slashes d"
    then have "dir_len p = length (trim_slashes d)" using length_dir_of [of p] by simp
    then show "in_dir p d" using e t by (simp add: in_dir_def Let_def dir_of_def)
  qed
qed

lemma name_op_elsewhere: "op_ok p \<Longrightarrow> is_data p \<or> op_dir p \<noteq> dir_of q \<Longrightarrow> name_op p m q = m q"
  by (cases p) (auto simp: op_dir_def split: option.splits)

lemma name_op_agrees:
  assumes "op_ok p" "\<And>q. dir_of q = D \<Longrightarrow> m q = m' q" "dir_of q = D"
  shows "name_op p m q = name_op p m' q"
  using assms(1,3) assms(2) [of "ns_dir_path p"] assms(2) [of q] assms(2)
  by (cases p) (auto split: option.splits)

lemma name_ops_in_dir:
  assumes "\<forall>p \<in> set ps. op_ok p" "\<And>q. dir_of q = D \<Longrightarrow> m q = m' q" "dir_of q = D"
  shows "fold name_op ps m q = fold name_op (filter (\<lambda>p. \<not> is_data p \<and> op_dir p = D) ps) m' q"
  using assms
proof (induction ps arbitrary: m m')
  case (Cons p ps)
  show ?case
  proof (cases "\<not> is_data p \<and> op_dir p = D")
    case True
    have "name_op p m q = name_op p m' q" if "dir_of q = D" for q
      using name_op_agrees [of p D m m' q] Cons.prems that by simp
    then show ?thesis using Cons True by simp
  next
    case False
    have "name_op p m q = m' q" if "dir_of q = D" for q
      using name_op_elsewhere [of p q m] Cons.prems False that by auto
    then show ?thesis using Cons.IH [of "name_op p m" m'] Cons.prems False by auto
  qed
qed simp

lemma name_ops_none:
  assumes "\<forall>p \<in> set ps. op_ok p" "\<forall>p \<in> set ps. is_data p \<or> op_dir p \<noteq> dir_of q"
  shows "fold name_op ps m q = m q"
  using assms by (induction ps arbitrary: m) (simp_all add: name_op_elsewhere)

lemma sync_dir_loop_spec:
  "sync_dir_loop dir ps ns =
     (filter (\<lambda>p. is_data p \<or> op_dir p \<noteq> trim_slashes dir) ps,
      foldl apply_name ns (filter (\<lambda>p. \<not> is_data p \<and> op_dir p = trim_slashes dir) ps))"
  by (induction ps arbitrary: ns) (auto simp: in_dir_of op_dir_def)

text \<open>Flushing a directory moves its operations to the durable names and changes nothing else.\<close>

lemma sync_dir_names:
  assumes "\<forall>p \<in> set ps. op_ok p"
  shows "fold name_op (filter (\<lambda>p. is_data p \<or> op_dir p \<noteq> D) ps)
      (fold name_op (filter (\<lambda>p. \<not> is_data p \<and> op_dir p = D) ps) m) q = fold name_op ps m q"
proof (cases "dir_of q = D")
  case True
  have "fold name_op ps m q = fold name_op (filter (\<lambda>p. \<not> is_data p \<and> op_dir p = D) ps) m q"
    by (rule name_ops_in_dir) (use assms True in simp_all)
  then show ?thesis using assms True by (subst name_ops_none) auto
next
  case False
  let ?m = "fold name_op (filter (\<lambda>p. \<not> is_data p \<and> op_dir p = D) ps) m"
  have m: "?m r = m r" if "dir_of r = dir_of q" for r
    by (rule name_ops_none) (use assms False that in auto)
  have "fold name_op (filter (\<lambda>p. is_data p \<or> op_dir p \<noteq> D) ps) ?m q =
      fold name_op (filter (\<lambda>p. \<not> is_data p \<and> op_dir p = dir_of q) (filter (\<lambda>p. is_data p \<or> op_dir p \<noteq> D) ps)) m q"
    by (rule name_ops_in_dir) (use assms m in auto)
  also have "filter (\<lambda>p. \<not> is_data p \<and> op_dir p = dir_of q) (filter (\<lambda>p. is_data p \<or> op_dir p \<noteq> D) ps) =
      filter (\<lambda>p. \<not> is_data p \<and> op_dir p = dir_of q) ps"
    unfolding filter_filter by (rule filter_cong) (use False in auto)
  also have "fold name_op \<dots> m q = fold name_op ps m q"
    by (rule name_ops_in_dir [symmetric]) (use assms in simp_all)
  finally show ?thesis .
qed

section \<open>Histories\<close>

datatype sim_call =
    Open string "io_flag set" | Read sim_file nat nat | Write sim_file nat bytes | Sync sim_file | Size sim_file
  | Truncate sim_file nat | Close sim_file | Rename string string | Remove string | SyncDir string
  | Lock sim_file bool | Mkdir string | ListDir string | Random nat | Sleep u64 | CrashAt nat | Seed u64 | Fail io_fault nat

primrec call :: "sim_call \<Rightarrow> sim \<Rightarrow> io_code \<times> sim" where
  "call (Open p fl) s = (let (rc, f, s) = sim_open p fl s in (rc, s))"
| "call (Read f off n) s = (let (rc, b, s) = sim_read_at f off n s in (rc, s))"
| "call (Write f off b) s = sim_write_at f off b s"
| "call (Sync f) s = sim_sync f s"
| "call (Size f) s = (let (rc, n, s) = sim_size f s in (rc, s))"
| "call (Truncate f n) s = sim_truncate f n s"
| "call (Close f) s = sim_close f s"
| "call (Rename p q) s = sim_rename p q s"
| "call (Remove p) s = sim_remove p s"
| "call (SyncDir d) s = sim_sync_dir d s"
| "call (Lock f nb) s = sim_lock f nb s"
| "call (Mkdir p) s = sim_mkdir p s"
| "call (ListDir d) s = (let (rc, _, s) = sim_list d (\<lambda>_ c. (IO_OK, c)) () s in (rc, s))"
| "call (Random n) s = (IO_OK, snd (sim_random n s))"
| "call (Sleep ms) s = (IO_OK, sim_sleep_ms ms s)"
| "call (CrashAt n) s = (IO_OK, gsql_io_sim_crash_at n s)"
| "call (Seed sd) s = (IO_OK, gsql_io_sim_seed sd s)"
| "call (Fail f n) s = (IO_OK, gsql_io_sim_fail f n s)"

text \<open>A handle names an inode that exists.\<close>

fun call_ok :: "sim_call \<Rightarrow> sim \<Rightarrow> bool" where
  "call_ok (Read f _ _) s = (file_inode f < length (inodes s))"
| "call_ok (Write f _ _) s = (file_inode f < length (inodes s))"
| "call_ok (Sync f) s = (file_inode f < length (inodes s))"
| "call_ok (Size f) s = (file_inode f < length (inodes s))"
| "call_ok (Truncate f _) s = (file_inode f < length (inodes s))"
| "call_ok (Close f) s = (file_inode f < length (inodes s))"
| "call_ok (Lock f _) s = (file_inode f < length (inodes s))"
| "call_ok _ s = True"

text \<open>The states of a history; \<open>lossy\<close> allows flushes that fail.\<close>

inductive reachable :: "bool \<Rightarrow> sim \<Rightarrow> bool" for lossy where
  start: "reachable lossy gsql_io_sim"
| step: "reachable lossy s \<Longrightarrow> call_ok c s \<Longrightarrow> call c s = (rc, s') \<Longrightarrow> (\<exists>f. c = Sync f) \<longrightarrow> rc = EIO \<longrightarrow> lossy \<Longrightarrow>
    reachable lossy s'"

text \<open>What a call does to the disk, without numbers, faults and clocks.\<close>

type_synonym disk = "inode list \<times> names \<times> names \<times> names \<times> pend list"

definition disk :: "sim \<Rightarrow> disk" where
  "disk s = (inodes s, durable_names s, view_names s, made s, pend s)"

inductive disk_step :: "bool \<Rightarrow> disk \<Rightarrow> disk \<Rightarrow> bool" for lossy where
  stay: "disk_step lossy d d"
| create: "map_of vn p = None \<Longrightarrow> disk_step lossy (xs, dn, vn, md, ps)
    (xs @ [\<lparr>durable = [], view = [], lock_holder = None\<rparr>], dn, names_set vn p (Some (length xs)), md,
     ps @ [P_CREATE (Some (length xs)) p])"
| overwrite: "i < length xs \<Longrightarrow> disk_step lossy (xs, dn, vn, md, ps)
    (xs[i := (xs ! i)\<lparr>view := buf_write (view (xs ! i)) off src\<rparr>], dn, vn, md, ps @ [P_WRITE i off src])"
| truncate: "i < length xs \<Longrightarrow> disk_step lossy (xs, dn, vn, md, ps)
    (xs[i := (xs ! i)\<lparr>view := buf_truncate (view (xs ! i)) n\<rparr>], dn, vn, md, ps @ [P_TRUNC i n])"
| flush: "i < length xs \<Longrightarrow> qs = data_of i ps \<or> lossy \<and> subseq qs (data_of i ps) \<Longrightarrow>
    disk_step lossy (xs, dn, vn, md, ps)
    (xs[i := (xs ! i)\<lparr>durable := apply_ops qs (durable (xs ! i))\<rparr>], dn, vn, md,
     filter (\<lambda>p. \<not> (is_data p \<and> pend_inode p = i)) ps)"
| rename: "map_of vn p = Some (Some i) \<Longrightarrow> dir_of p = dir_of q \<Longrightarrow> disk_step lossy (xs, dn, vn, md, ps)
    (xs, dn, names_set (names_del vn p) q (Some i), md, ps @ [P_RENAME p q])"
| remove: "map_of vn p = Some (Some i) \<Longrightarrow> disk_step lossy (xs, dn, vn, md, ps)
    (xs, dn, names_del vn p, md, ps @ [P_REMOVE p])"
| mkdir: "map_of vn p = None \<Longrightarrow> disk_step lossy (xs, dn, vn, md, ps)
    (xs, dn, names_set vn p None, names_set md p (Some 0), ps @ [P_CREATE None p])"
| flush_dir: "disk_step lossy (xs, dn, vn, md, ps)
    (xs, foldl apply_name dn (filter (\<lambda>p. \<not> is_data p \<and> op_dir p = D) ps), vn, md,
     filter (\<lambda>p. is_data p \<or> op_dir p \<noteq> D) ps)"
| lock: "i < length xs \<Longrightarrow> disk_step lossy (xs, dn, vn, md, ps)
    (xs[i := (xs ! i)\<lparr>lock_holder := h\<rparr>], dn, vn, md, ps)"

lemma tick_disk:
  assumes "tick k s = (rc, s')"
  shows "inodes s' = inodes s" "durable_names s' = durable_names s" "view_names s' = view_names s" "made s' = made s"
    "pend s' = pend s" "crashed s \<Longrightarrow> crashed s'" "crashed s \<Longrightarrow> rc = IO_CRASHED" "rc = IO_OK \<or> rc = IO_CRASHED"
  using assms by (auto simp: tick_def Let_def split: if_splits)

lemma fault_disk:
  assumes "fault_fires s f = (b, s')"
  shows "inodes s' = inodes s" "durable_names s' = durable_names s" "view_names s' = view_names s" "made s' = made s"
    "pend s' = pend s" "crashed s' = crashed s"
  using assms by (auto simp: fault_fires_def Let_def split: if_splits)

lemma sync_loop_spec:
  "sync_loop failed i ps sd d = (ps', sd', d') \<Longrightarrow>
   ps' = filter (\<lambda>p. \<not> (is_data p \<and> pend_inode p = i)) ps \<and>
   (\<exists>qs. (qs = data_of i ps \<or> failed \<and> subseq qs (data_of i ps)) \<and> d' = apply_ops qs d)"
proof (induction failed i ps sd d arbitrary: ps' sd' d' rule: sync_loop.induct)
  case (1 failed i sd d)
  then show ?case by (simp add: data_of_def exI [of _ "[]"])
next
  case (2 failed i p ps sd d)
  consider (other) "\<not> is_data p \<or> pend_inode p \<noteq> i" | (flush) "is_data p" "pend_inode p = i" "\<not> failed"
    | (lossy) "is_data p" "pend_inode p = i" failed by blast
  then show ?case
  proof cases
    case other
    obtain ps1 sd1 d1 where r: "sync_loop failed i ps sd d = (ps1, sd1, d1)" by (metis surj_pair)
    with 2(1) [OF other r] 2(4) other show ?thesis by (auto simp: data_of_def)
  next
    case flush
    with 2 show ?thesis by (force simp: data_of_def)
  next
    case lossy
    obtain z sd1 where z: "splitmix sd = (z, sd1)" by fastforce
    let ?b = "z AND 1 \<noteq> 0"
    have r: "sync_loop failed i ps sd1 (if ?b then apply_data d p None else d) = (ps', sd', d')" using 2(4) lossy z by simp
    have n: "\<not> (\<not> is_data p \<or> pend_inode p \<noteq> i)" "\<not> \<not> failed" using lossy by simp_all
    from 2(3) [OF n refl z [symmetric] r] obtain qs where q: "ps' = filter (\<lambda>p. \<not> (is_data p \<and> pend_inode p = i)) ps"
      "subseq qs (data_of i ps)" "d' = apply_ops qs (if ?b then apply_data d p None else d)" by auto
    then show ?thesis using lossy
      by (intro conjI exI [of _ "if ?b then p # qs else qs"]) (auto simp: data_of_def)
  qed
qed

text \<open>Every call is a step of the disk, and from the crash point on none changes it.\<close>

lemmas op_defs = sim_open_def new_file_def sim_read_at_def sim_write_at_def sim_size_def sim_truncate_def sim_close_def
  sim_rename_def sim_remove_def sim_sync_dir_def sim_lock_def sim_mkdir_def sim_list_def sim_random_def sim_sleep_ms_def
  gsql_io_sim_crash_at_def gsql_io_sim_seed_def gsql_io_sim_fail_def

lemma open_step: "call (Open p fl) s = (rc, s') \<Longrightarrow> disk_step l (disk s) (disk s')"
proof -
  assume c: "call (Open p fl) s = (rc, s')"
  obtain r s1 where t: "tick K_OPEN s = (r, s1)" by fastforce
  note d = tick_disk [OF t]
  show ?thesis
  proof (cases "r = IO_OK \<and> names_find (view_names s1) p = None \<and> IO_CREATE \<in> fl")
    case True
    then have "disk s' = (inodes s @ [\<lparr>durable = [], view = [], lock_holder = None\<rparr>], durable_names s,
        names_set (view_names s) p (Some (length (inodes s))), made s, pend s @ [P_CREATE (Some (length (inodes s))) p])"
      using c t d by (auto simp: sim_open_def new_file_def disk_def Let_def)
    moreover have "map_of (view_names s) p = None" using True d names_find_map(1) by metis
    ultimately show ?thesis by (simp only: disk_def disk_step.create)
  next
    case False
    then have "disk s' = disk s" using c t d
      by (auto simp: sim_open_def new_file_def disk_def Let_def split: option.splits if_splits)
    then show ?thesis by (simp add: disk_step.stay)
  qed
qed

lemma sync_step:
  assumes "sim_sync f s = (rc, s')" "file_inode f < length (inodes s)" "rc = EIO \<longrightarrow> l"
  shows "disk_step l (disk s) (disk s')"
proof -
  obtain r s1 where t: "tick K_SYNC s = (r, s1)" by fastforce
  obtain b s2 where u: "fault_fires s1 FAIL_SYNC = (b, s2)" by fastforce
  note d = tick_disk [OF t] fault_disk [OF u]
  let ?i = "file_inode f"
  obtain ps sd dd where y: "sync_loop b ?i (pend s2) (seed s2) (durable (inodes s2 ! ?i)) = (ps, sd, dd)" by (metis surj_pair)
  show ?thesis
  proof (cases "r = IO_OK")
    case False
    then show ?thesis using assms t d by (auto simp: sim_sync_def disk_def intro: disk_step.stay)
  next
    case True
    from sync_loop_spec [OF y] obtain qs where q: "ps = filter (\<lambda>p. \<not> (is_data p \<and> pend_inode p = ?i)) (pend s)"
      "qs = data_of ?i (pend s) \<or> b \<and> subseq qs (data_of ?i (pend s))" "dd = apply_ops qs (durable (inodes s ! ?i))"
      using d by auto
    have "disk s' = ((inodes s)[?i := (inodes s ! ?i)\<lparr>durable := dd\<rparr>], durable_names s, view_names s, made s, ps)"
      using assms(1) True t u y d by (auto simp: sim_sync_def disk_def set_inode_def Let_def)
    moreover have "rc = (if b then EIO else IO_OK)" using assms(1) True t u y by (auto simp: sim_sync_def Let_def)
    ultimately show ?thesis using disk_step.flush [OF assms(2), of qs "pend s" l] q assms(3) by (auto simp: disk_def)
  qed
qed

lemma named_file: "names_find ns p = Some i \<Longrightarrow> snd (ns ! i) = Some j \<Longrightarrow> map_of ns p = Some (Some j)"
  using names_find_map(2) by fastforce

lemma call_step:
  assumes c: "call c s = (rc, s')" and ok: "call_ok c s" and l: "(\<exists>f. c = Sync f) \<longrightarrow> rc = EIO \<longrightarrow> l"
  shows "disk_step l (disk s) (disk s')"
proof (cases c)
  case (Open p fl)
  then show ?thesis using open_step c by simp
next
  case (Sync f)
  then show ?thesis using sync_step [of f s rc s' l] c ok l by simp
next
  case (Write f off b)
  obtain r s1 where t: "tick K_WRITE s = (r, s1)" by fastforce
  obtain z s2 where u: "fault_fires s1 FAIL_WRITE = (z, s2)" by fastforce
  note d = tick_disk [OF t] fault_disk [OF u]
  show ?thesis
    using c ok t u d disk_step.overwrite [of "file_inode f" "inodes s" l "durable_names s" "view_names s" "made s" "pend s" off b]
    by (auto simp: Write sim_write_at_def set_inode_def disk_def Let_def intro: disk_step.stay split: if_splits)
next
  case (Truncate f n)
  obtain r s1 where t: "tick K_TRUNC s = (r, s1)" by fastforce
  show ?thesis
    using c ok t tick_disk [OF t] disk_step.truncate [of "file_inode f" "inodes s" l "durable_names s" "view_names s" "made s" "pend s" n]
    by (auto simp: Truncate sim_truncate_def set_inode_def disk_def Let_def intro: disk_step.stay split: if_splits)
next
  case (Rename p q)
  obtain r s1 where t: "tick K_RENAME s = (r, s1)" by fastforce
  show ?thesis
    using c t tick_disk [OF t] disk_step.rename [of "view_names s" p _ q l "inodes s" "durable_names s" "made s" "pend s"]
    by (auto simp: Rename sim_rename_def disk_def Let_def same_dir_of intro: disk_step.stay
        dest: named_file split: if_splits option.splits)
next
  case (Remove p)
  obtain r s1 where t: "tick K_REMOVE s = (r, s1)" by fastforce
  show ?thesis
    using c t tick_disk [OF t] disk_step.remove [of "view_names s" p _ l "inodes s" "durable_names s" "made s" "pend s"]
    by (auto simp: Remove sim_remove_def disk_def Let_def intro: disk_step.stay dest: named_file split: if_splits option.splits)
next
  case (SyncDir D)
  obtain r s1 where t: "tick K_SYNC_DIR s = (r, s1)" by fastforce
  show ?thesis
    using c t tick_disk [OF t] disk_step.flush_dir [of l "inodes s" "durable_names s" "view_names s" "made s" "pend s" "trim_slashes D"]
    by (auto simp: SyncDir sim_sync_dir_def disk_def sync_dir_loop_spec intro: disk_step.stay split: if_splits)
next
  case (Mkdir p)
  obtain r s1 where t: "tick K_MKDIR s = (r, s1)" by fastforce
  show ?thesis
    using c t tick_disk [OF t] disk_step.mkdir [of "view_names s" p l "inodes s" "durable_names s" "made s" "pend s"]
    by (auto simp: Mkdir sim_mkdir_def disk_def names_find_map(1) intro: disk_step.stay split: if_splits)
next
  case (Lock f nb)
  obtain r s1 where t: "tick K_LOCK s = (r, s1)" by fastforce
  show ?thesis
    using c ok t tick_disk [OF t] disk_step.lock [of "file_inode f" "inodes s" l "durable_names s" "view_names s" "made s" "pend s" "Some (file_id f)"]
    by (auto simp: Lock sim_lock_def set_inode_def disk_def Let_def intro: disk_step.stay split: if_splits)
next
  case (Close f)
  obtain r s1 where t: "tick K_CLOSE s = (r, s1)" by fastforce
  show ?thesis
    using c ok t tick_disk [OF t] disk_step.lock [of "file_inode f" "inodes s" l "durable_names s" "view_names s" "made s" "pend s" None]
    by (auto simp: Close sim_close_def set_inode_def disk_def Let_def intro: disk_step.stay split: if_splits)
next
  case (Read f off n)
  obtain r s1 where t: "tick K_READ s = (r, s1)" by fastforce
  obtain z s2 where u: "fault_fires s1 FAIL_READ = (z, s2)" by fastforce
  show ?thesis using c t u tick_disk [OF t] fault_disk [OF u]
    by (auto simp: Read sim_read_at_def disk_def Let_def intro: disk_step.stay split: if_splits)
next
  case (Size f)
  obtain r s1 where t: "tick K_SIZE s = (r, s1)" by fastforce
  show ?thesis using c t tick_disk [OF t] by (auto simp: Size sim_size_def disk_def intro: disk_step.stay split: if_splits)
next
  case (ListDir D)
  obtain r s1 where t: "tick K_LIST s = (r, s1)" by fastforce
  show ?thesis using c t tick_disk [OF t]
    by (auto simp: ListDir sim_list_def disk_def Let_def case_prod_beta intro: disk_step.stay split: if_splits)
next
  case (Random n)
  then show ?thesis using c by (auto simp: sim_random_def disk_def case_prod_beta intro: disk_step.stay)
qed (use c in \<open>auto simp: op_defs disk_def intro: disk_step.stay\<close>)

section \<open>The invariant\<close>

text \<open>
  The names the process sees are the durable ones after the pending operations; without a failed
  flush the same holds of every file's bytes.
\<close>

fun names_inv :: "disk \<Rightarrow> bool" where
  "names_inv (xs, dn, vn, md, ps) \<longleftrightarrow> distinct (map fst dn) \<and> distinct (map fst vn) \<and> (\<forall>p \<in> set ps. op_ok p) \<and>
     map_of vn = fold name_op ps (map_of dn) \<and> (\<forall>p i. map_of vn p = Some (Some i) \<longrightarrow> i < length xs)"

fun data_inv :: "disk \<Rightarrow> bool" where
  "data_inv (xs, dn, vn, md, ps) \<longleftrightarrow> (\<forall>i < length xs. view (xs ! i) = apply_ops (data_of i ps) (durable (xs ! i)))"

fun pend_inv :: "disk \<Rightarrow> bool" where
  "pend_inv (xs, dn, vn, md, ps) \<longleftrightarrow> (\<forall>p \<in> set ps. is_data p \<longrightarrow> pend_inode p < length xs)"

lemma fold_name_op_filter:
  "(\<And>p. p \<in> set ps \<Longrightarrow> \<not> P p \<Longrightarrow> is_data p) \<Longrightarrow> fold name_op (filter P ps) m = fold name_op ps m"
proof (induction ps arbitrary: m)
  case (Cons p ps)
  have "name_op p m = m" if "\<not> P p" using Cons.prems [of p] that by (cases p) simp_all
  then show ?case using Cons by simp
qed simp

lemma names_step: "disk_step l d d' \<Longrightarrow> names_inv d \<Longrightarrow> names_inv d'"
proof (induction rule: disk_step.induct)
  case (create vn p xs dn md ps)
  then show ?case by (auto simp: names_set_keys less_Suc_eq split: if_splits)
next
  case (rename vn p i q xs dn md ps)
  then have k: "distinct (map fst vn)" by simp
  from rename show ?case using names_del_set(1) [OF k, of p]
    by (auto simp: names_set_keys map_of_names_del [OF k] simp del: map_of_eq_Some_iff split: if_splits)
next
  case (remove vn p i xs dn md ps)
  then have k: "distinct (map fst vn)" by simp
  from remove show ?case using names_del_set(1) [OF k, of p]
    by (auto simp: map_of_names_del [OF k] simp del: map_of_eq_Some_iff split: if_splits)
next
  case (mkdir vn p xs dn md ps)
  then show ?case by (auto simp: names_set_keys split: if_splits)
next
  case (flush i xs qs ps dn vn md)
  then have "fold name_op (filter (\<lambda>p. \<not> (is_data p \<and> pend_inode p = i)) ps) (map_of dn) = fold name_op ps (map_of dn)"
    by (intro fold_name_op_filter) simp
  then show ?case using flush.prems by simp
next
  case (flush_dir xs dn vn md ps D)
  have m: "map_of (foldl apply_name dn (filter (\<lambda>p. \<not> is_data p \<and> op_dir p = D) ps)) =
      fold name_op (filter (\<lambda>p. \<not> is_data p \<and> op_dir p = D) ps) (map_of dn) \<and>
      distinct (map fst (foldl apply_name dn (filter (\<lambda>p. \<not> is_data p \<and> op_dir p = D) ps)))"
    by (rule map_of_apply_names) (use flush_dir in simp)
  have "fold name_op (filter (\<lambda>p. is_data p \<or> op_dir p \<noteq> D) ps)
      (fold name_op (filter (\<lambda>p. \<not> is_data p \<and> op_dir p = D) ps) (map_of dn)) = fold name_op ps (map_of dn)"
    by (rule ext) (rule sync_dir_names, use flush_dir in simp)
  then show ?case using flush_dir m by simp
qed simp_all

lemma pend_step: "disk_step l d d' \<Longrightarrow> pend_inv d \<Longrightarrow> pend_inv d'"
  by (induction rule: disk_step.induct) (auto simp: less_Suc_eq)

lemma data_of_none: "\<forall>p \<in> set ps. is_data p \<longrightarrow> pend_inode p < n \<Longrightarrow> data_of n ps = []"
  by (auto simp: data_of_def filter_empty_conv)

lemma data_of_cong: "(\<And>p. p \<in> set ps \<Longrightarrow> is_data p \<Longrightarrow> pend_inode p = i \<Longrightarrow> P p) \<Longrightarrow> data_of i (filter P ps) = data_of i ps"
  unfolding data_of_def filter_filter by (rule filter_cong) auto

lemma data_step: "disk_step False d d' \<Longrightarrow> pend_inv d \<Longrightarrow> data_inv d \<Longrightarrow> data_inv d'"
proof (induction rule: disk_step.induct)
  case (create vn p xs dn md ps)
  have "data_of (length xs) ps = []" by (rule data_of_none) (use create in simp)
  moreover have "data_of i [P_CREATE x p] = []" for i x by (simp add: data_of_def)
  ultimately show ?case using create by (auto simp: data_of_append nth_append less_Suc_eq)
next
  case (overwrite i xs dn vn md ps off src)
  then show ?case by (auto simp: data_of_append nth_list_update) (simp_all add: data_of_def)
next
  case (truncate i xs dn vn md ps n)
  then show ?case by (auto simp: data_of_append nth_list_update) (simp_all add: data_of_def)
next
  case (flush i xs qs ps dn vn md)
  have "data_of j (filter (\<lambda>p. \<not> (is_data p \<and> pend_inode p = i)) ps) = (if j = i then [] else data_of j ps)" for j
    by (cases "j = i") (auto simp: data_of_cong, simp add: data_of_def filter_empty_conv)
  then show ?case using flush by (auto simp: nth_list_update)
next
  case (flush_dir xs dn vn md ps D)
  have "data_of j (filter (\<lambda>p. is_data p \<or> op_dir p \<noteq> D) ps) = data_of j ps" for j by (rule data_of_cong) simp
  then show ?case using flush_dir by simp
next
  case (lock i xs dn vn md ps h)
  then show ?case by (auto simp: nth_list_update)
next
  case (rename vn p i q xs dn md ps)
  then show ?case by (simp add: data_of_append) (simp add: data_of_def)
next
  case (remove vn p i xs dn md ps)
  then show ?case by (simp add: data_of_append) (simp add: data_of_def)
next
  case (mkdir vn p xs dn md ps)
  then show ?case by (simp add: data_of_append) (simp add: data_of_def)
qed simp

lemma reachable_inv: "reachable l s \<Longrightarrow> names_inv (disk s) \<and> pend_inv (disk s) \<and> (\<not> l \<longrightarrow> data_inv (disk s))"
proof (induction rule: reachable.induct)
  case start
  then show ?case by (simp add: disk_def gsql_io_sim_def)
next
  case (step s c rc s')
  have "disk_step l (disk s) (disk s')" using call_step [OF step(3,2)] step(4) by blast
  then show ?case using step(5) names_step pend_step data_step by (metis (full_types))
qed

lemma map_field_update: "f x = f (xs ! i) \<Longrightarrow> map f (xs[i := x]) = map f xs"
  by (cases "i < length xs") (simp_all add: map_update list_update_same_conv list_update_beyond)

lemma tick_crashed: "crashed s \<Longrightarrow> tick k s = (IO_CRASHED, s\<lparr>ops := ops s + 1, kinds := kinds s @ [k]\<rparr>)"
  by (simp add: tick_def)

lemma crashed_call:
  assumes "call c s = (rc, s')" "crashed s"
  shows "crashed s' \<and> map view (inodes s') = map view (inodes s) \<and> map durable (inodes s') = map durable (inodes s) \<and>
    durable_names s' = durable_names s \<and> view_names s' = view_names s \<and> pend s' = pend s \<and> made s' = made s"
    "rc = IO_CRASHED \<or> rc = IO_OK"
proof -
  have "rc = IO_CRASHED \<or> rc = IO_OK" "crashed s'" using assms
    by (cases c; auto simp: op_defs sim_sync_def tick_crashed set_inode_def Let_def case_prod_beta split: if_splits)+
  moreover have "map view (inodes s') = map view (inodes s) \<and> map durable (inodes s') = map durable (inodes s) \<and>
    durable_names s' = durable_names s \<and> view_names s' = view_names s \<and> pend s' = pend s \<and> made s' = made s"
    using assms
    by (cases c; auto simp: op_defs sim_sync_def tick_crashed set_inode_def Let_def case_prod_beta map_field_update split: if_splits)
  ultimately show "crashed s' \<and> map view (inodes s') = map view (inodes s) \<and> map durable (inodes s') = map durable (inodes s) \<and>
      durable_names s' = durable_names s \<and> view_names s' = view_names s \<and> pend s' = pend s \<and> made s' = made s"
    "rc = IO_CRASHED \<or> rc = IO_OK" by simp_all
qed

lemma contents_views:
  assumes "map view (inodes s') = map view (inodes s)" "view_names s' = view_names s" "names_inv (disk s)"
  shows "gsql_io_sim_contents s' p = gsql_io_sim_contents s p"
proof -
  have "view (inodes s' ! j) = view (inodes s ! j)" if "names_find (view_names s) p = Some i" "snd (view_names s ! i) = Some j" for i j
  proof -
    have "j < length (inodes s)" using assms(3) named_file [OF that] by (auto simp: disk_def)
    moreover have "length (inodes s') = length (inodes s)" using assms(1) by (metis length_map)
    ultimately show ?thesis using assms(1) by (metis nth_map)
  qed
  then show ?thesis using assms(2) by (auto simp: gsql_io_sim_contents_def split: option.splits)
qed

section \<open>Lost directories\<close>

lemma beneath_iff: "beneath d p \<longleftrightarrow> (\<exists>r. p = d @ ''/'' @ r)"
proof
  assume "beneath d p"
  then have "p = (d @ ''/'') @ drop (length d + 1) p" unfolding beneath_def by (metis append_take_drop_id)
  then show "\<exists>r. p = d @ ''/'' @ r" by (metis append_assoc)
qed (auto simp: beneath_def)

lemma beneath_trans: "beneath a b \<Longrightarrow> beneath b c \<Longrightarrow> beneath a c"
  by (auto simp: beneath_iff)

lemma drop_beneath_keeps:
  "distinct (map fst ns) \<Longrightarrow> distinct (map fst (drop_beneath d i ns)) \<and>
     (\<not> beneath d q \<longrightarrow> map_of (drop_beneath d i ns) q = map_of ns q)"
proof (induction d i ns rule: drop_beneath.induct)
  case (1 d i ns)
  show ?case
  proof (cases "i < length ns")
    case True
    show ?thesis
    proof (cases "beneath d (fst (ns ! i))")
      case b: True
      note k = names_del_set(1) [OF 1(3), of "fst (ns ! i)"]
      have "map_of (names_del ns (fst (ns ! i))) q = map_of ns q" if "\<not> beneath d q"
        using that b map_of_names_del [OF 1(3), of "fst (ns ! i)"] by auto
      then show ?thesis using 1(1) [OF True b k] True b by (subst (1 2) drop_beneath.simps) simp
    next
      case False
      then show ?thesis using 1(2) [OF True False 1(3)] True by (subst (1 2) drop_beneath.simps) simp
    qed
  qed (use 1(3) in \<open>simp add: drop_beneath.simps\<close>)
qed

lemma keep_made_keeps:
  "distinct (map fst ns) \<Longrightarrow> distinct (map fst (fst (keep_made ds ns md))) \<and>
     ((\<forall>m \<in> set ds. beneath (fst m) q \<longrightarrow> names_find ns (fst m) \<noteq> None) \<longrightarrow> map_of (fst (keep_made ds ns md)) q = map_of ns q)"
proof (induction ds arbitrary: ns md)
  case (Cons d ds)
  show ?case
  proof (cases "names_find ns (fst d) = None")
    case False
    then show ?thesis using Cons.IH [OF Cons.prems, of "names_set md (fst d) (Some 0)"] by auto
  next
    case True
    let ?ns = "drop_beneath (fst d) 0 ns"
    note k = drop_beneath_keeps [OF Cons.prems, of "fst d" 0]
    have "map_of (fst (keep_made ds ?ns md)) q = map_of ns q"
      if a: "\<forall>m \<in> set (d # ds). beneath (fst m) q \<longrightarrow> names_find ns (fst m) \<noteq> None"
    proof -
      have q: "\<not> beneath (fst d) q" using a True by auto
      have "names_find ?ns (fst m) \<noteq> None" if "m \<in> set ds" "beneath (fst m) q" for m
      proof -
        have "\<not> beneath (fst d) (fst m)" using q that(2) beneath_trans by blast
        moreover have "names_find ns (fst m) \<noteq> None" using a that by simp
        ultimately show ?thesis using k [of "fst m"] names_find_map(1) by metis
      qed
      then show ?thesis using Cons.IH [of ?ns md] k [of q] q by auto
    qed
    moreover have "distinct (map fst (fst (keep_made ds ?ns md)))" using Cons.IH [of ?ns md] k by blast
    ultimately show ?thesis using True by simp
  qed
qed simp

lemma contents_map:
  "gsql_io_sim_contents s p =
     (case map_of (view_names s) p of Some (Some i) \<Rightarrow> Some (view (inodes s ! i)) | _ \<Rightarrow> None)"
proof (cases "names_find (view_names s) p")
  case None
  then have "map_of (view_names s) p = None" using names_find_map(1) by blast
  then show ?thesis by (simp add: gsql_io_sim_contents_def None del: map_of_eq_None_iff)
next
  case (Some i)
  from names_find_map(2) [OF this] show ?thesis
    by (simp add: gsql_io_sim_contents_def Some split: option.splits del: map_of_eq_Some_iff)
qed

lemma image_contents:
  assumes "crash_disk s mode sd = (ds, ns)" "distinct (map fst ns)"
    "\<forall>m \<in> set (made s). beneath (fst m) p \<longrightarrow> names_find ns (fst m) \<noteq> None"
    "\<forall>i. map_of ns p = Some (Some i) \<longrightarrow> i < length ds"
  shows "gsql_io_sim_contents (gsql_io_sim_crash_image s mode sd) p =
     (case map_of ns p of Some (Some i) \<Rightarrow> Some (ds ! i) | _ \<Rightarrow> None)"
proof -
  obtain ns' md where k: "keep_made (made s) ns [] = (ns', md)" by fastforce
  from keep_made_keeps [OF assms(2), of "made s" "[]" p] k assms(3)
  have n: "distinct (map fst ns')" "map_of ns' p = map_of ns p" by simp_all
  show ?thesis unfolding contents_map
    using assms(1,4) k n by (auto simp: gsql_io_sim_crash_image_def names_copy_id split: option.splits)
qed

lemma crash_names:
  assumes "crash_disk s mode sd = (ds, ns)" "mode \<noteq> CRASH_PROCESS" "distinct (map fst (durable_names s))"
  shows "\<exists>qs. subseq qs (pend s) \<and> ns = foldl apply_name (durable_names s) (filter (\<lambda>p. \<not> is_data p) qs)"
proof -
  obtain r ns' data where sv: "survivors (pend s) (sd XOR 0xA0761D6478BD642F) (names_copy (durable_names s)) [] = (r, ns', data)"
    by (metis surj_pair)
  then have "ns = ns'" using assms(1,2) by (auto simp: crash_disk_def case_prod_beta)
  then show ?thesis using survivors_spec [OF sv] names_copy_id [OF assms(3)] by auto
qed

section \<open>Properties\<close>

text \<open>A name that is durable and that no pending operation of its directory can take away.\<close>

definition settled :: "sim \<Rightarrow> string \<Rightarrow> bool" where
  "settled s p \<longleftrightarrow> names_find (durable_names s) p \<noteq> None \<and> (\<forall>x \<in> set (pend s). is_data x \<or> op_dir x \<noteq> dir_of p)"

lemma settled_map:
  assumes "names_inv (disk s)" "\<forall>x \<in> set (pend s). is_data x \<or> op_dir x \<noteq> dir_of p" "crash_disk s mode sd = (ds, ns)"
  shows "map_of ns p = map_of (durable_names s) p" "map_of (view_names s) p = map_of (durable_names s) p"
    "distinct (map fst ns)"
proof -
  have inv: "distinct (map fst (durable_names s))" "distinct (map fst (view_names s))" "\<forall>x \<in> set (pend s). op_ok x"
    "map_of (view_names s) = fold name_op (pend s) (map_of (durable_names s))" using assms(1) by (simp_all add: disk_def)
  show v: "map_of (view_names s) p = map_of (durable_names s) p"
    unfolding inv(4) by (rule name_ops_none) (use inv(3) assms(2) in simp_all)
  have "map_of ns p = map_of (durable_names s) p \<and> distinct (map fst ns)"
  proof (cases "mode = CRASH_PROCESS")
    case True
    then have "ns = view_names s" using assms(3) names_copy_id [OF inv(2)] by (simp add: crash_disk_def)
    then show ?thesis using v inv(2) by simp
  next
    case False
    from crash_names [OF assms(3) False inv(1)] obtain qs where q: "subseq qs (pend s)"
      "ns = foldl apply_name (durable_names s) (filter (\<lambda>p. \<not> is_data p) qs)" by blast
    have "set (filter (\<lambda>p. \<not> is_data p) qs) \<subseteq> set (pend s)" using set_mset_mono [OF subseq_mset [OF q(1)]] by auto
    then have "fold name_op (filter (\<lambda>p. \<not> is_data p) qs) (map_of (durable_names s)) p = map_of (durable_names s) p"
      by (intro name_ops_none) (use inv(3) assms(2) in auto)
    then show ?thesis using map_of_apply_names [OF inv(1)] q(2) by simp
  qed
  then show "map_of ns p = map_of (durable_names s) p" "distinct (map fst ns)" by simp_all
qed

lemma quiet_data:
  assumes "crash_disk s mode sd = (ds, ns)" "data_inv (disk s)" "i < length (inodes s)" "data_of i (pend s) = []"
  shows "length ds = length (inodes s)" "ds ! i = view (inodes s ! i)"
proof -
  have v: "view (inodes s ! i) = durable (inodes s ! i)" using assms(2-4) by (simp add: disk_def)
  have "length ds = length (inodes s) \<and> ds ! i = view (inodes s ! i)"
  proof (cases "mode = CRASH_PROCESS")
    case True
    then show ?thesis using assms(1,3) by (auto simp: crash_disk_def)
  next
    case False
    from crash_disk_data [OF assms(1) False assms(3)] assms(4) obtain ps qs k where
      "length ds = length (inodes s)" "ps = []" "qs = ps"
      "\<forall>j. byte_at (ds ! i) j = byte_at (apply_ops (if j div SECTOR < k then ps else qs) (durable (inodes s ! i))) j" by auto
    then show ?thesis using v by (auto intro: byte_at_eqI)
  qed
  then show "length ds = length (inodes s)" "ds ! i = view (inodes s ! i)" by simp_all
qed

lemma flushed_survives:
  assumes s: "names_inv (disk s)" "data_inv (disk s)" and q: "data_of i (pend s) = []"
    "\<forall>x \<in> set (pend s). is_data x \<or> op_dir x \<noteq> dir_of path"
    and f: "map_of (view_names s) path = Some (Some i)"
    and m: "\<forall>m \<in> set (made s). beneath (fst m) path \<longrightarrow> settled s (fst m)"
  shows "gsql_io_sim_contents (gsql_io_sim_crash_image s mode sd) path = gsql_io_sim_contents s path"
proof -
  obtain ds ns where cd: "crash_disk s mode sd = (ds, ns)" by fastforce
  note n = settled_map [OF s(1) q(2) cd]
  have i: "i < length (inodes s)" using s(1) f by (auto simp: disk_def)
  note d = quiet_data [OF cd s(2) i q(1)]
  have named: "names_find ns (fst x) \<noteq> None" if "x \<in> set (made s)" "beneath (fst x) path" for x
  proof -
    have "settled s (fst x)" using m that by blast
    then have t: "names_find (durable_names s) (fst x) \<noteq> None" "\<forall>y \<in> set (pend s). is_data y \<or> op_dir y \<noteq> dir_of (fst x)"
      by (auto simp: settled_def)
    from settled_map(1) [OF s(1) t(2) cd] t(1) show ?thesis by (metis names_find_map(1))
  qed
  have "gsql_io_sim_contents (gsql_io_sim_crash_image s mode sd) path =
      (case map_of ns path of Some (Some i) \<Rightarrow> Some (ds ! i) | _ \<Rightarrow> None)"
    by (rule image_contents [OF cd n(3)]) (use named n f d i in auto)
  then show ?thesis unfolding contents_map using f n(1,2) d(2) by simp
qed

lemma sync_flushes:
  assumes "sim_sync f s = (IO_OK, s')"
  shows "data_of (file_inode f) (pend s') = []" "view_names s' = view_names s" "made s' = made s"
    "map view (inodes s') = map view (inodes s)"
proof -
  obtain r s1 where t: "tick K_SYNC s = (r, s1)" by fastforce
  obtain b s2 where u: "fault_fires s1 FAIL_SYNC = (b, s2)" by fastforce
  let ?i = "file_inode f"
  obtain ps sd dd where y: "sync_loop b ?i (pend s2) (seed s2) (durable (inodes s2 ! ?i)) = (ps, sd, dd)" by (metis surj_pair)
  note d = tick_disk [OF t] fault_disk [OF u]
  have "r = IO_OK" using assms t d(8) by (auto simp: sim_sync_def)
  then have s': "s' = set_inode (s2\<lparr>pend := ps, seed := sd\<rparr>) ?i ((inodes s2 ! ?i)\<lparr>durable := dd\<rparr>)"
    using assms t u y by (simp add: sim_sync_def Let_def)
  have "ps = filter (\<lambda>p. \<not> (is_data p \<and> pend_inode p = ?i)) (pend s2)" using sync_loop_spec [OF y] by simp
  then show "data_of ?i (pend s') = []" by (auto simp: s' set_inode_def data_of_def filter_empty_conv)
  show "view_names s' = view_names s" "made s' = made s" "map view (inodes s') = map view (inodes s)"
    using d by (simp_all add: s' set_inode_def map_field_update)
qed

lemma sync_dir_flushes:
  assumes "sim_sync_dir D s = (IO_OK, s')"
  shows "\<forall>x \<in> set (pend s'). is_data x \<or> op_dir x \<noteq> trim_slashes D" "data_of i (pend s') = data_of i (pend s)"
    "view_names s' = view_names s" "inodes s' = inodes s"
proof -
  obtain r s1 where t: "tick K_SYNC_DIR s = (r, s1)" by fastforce
  note d = tick_disk [OF t]
  have "r = IO_OK" using assms t d(8) by (auto simp: sim_sync_dir_def)
  then have s': "s' = s1\<lparr>pend := filter (\<lambda>p. is_data p \<or> op_dir p \<noteq> trim_slashes D) (pend s),
      durable_names := foldl apply_name (durable_names s) (filter (\<lambda>p. \<not> is_data p \<and> op_dir p = trim_slashes D) (pend s))\<rparr>"
    using assms t d by (simp add: sim_sync_dir_def sync_dir_loop_spec)
  show "data_of i (pend s') = data_of i (pend s)" unfolding s' by (simp add: data_of_cong)
  show "\<forall>x \<in> set (pend s'). is_data x \<or> op_dir x \<noteq> trim_slashes D" "view_names s' = view_names s" "inodes s' = inodes s"
    using d by (auto simp: s')
qed

text \<open>C23. Durability: in every history without a failed flush, once the file has been flushed and then its
  directory, every crash -- of the process, of the power, with torn writes, whatever the seed -- leaves
  a disk on which the file has exactly the bytes the process saw, provided every directory the process
  made above it is settled: it is durably named, and nothing that happened to names in its own parent
  directory is still pending (its parent was flushed since).\<close>

theorem flushed_file_survives_crash:
  assumes "reachable False s" "file_inode f < length (inodes s)" "sim_sync f s = (IO_OK, s1)" "sim_sync_dir D s1 = (IO_OK, s2)"
    "in_dir path D" "map_of (view_names s) path = Some (Some (file_inode f))"
    "\<forall>m \<in> set (made s2). beneath (fst m) path \<longrightarrow> settled s2 (fst m)"
  shows "gsql_io_sim_contents (gsql_io_sim_crash_image s2 mode sd) path = gsql_io_sim_contents s path"
proof -
  have r1: "reachable False s1" using reachable.step [OF assms(1), of "Sync f"] assms(2,3) by simp
  have r2: "reachable False s2" using reachable.step [OF r1, of "SyncDir D"] assms(4) by simp
  note a = sync_flushes [OF assms(3)] and b = sync_dir_flushes [OF assms(4)]
  have "gsql_io_sim_contents (gsql_io_sim_crash_image s2 mode sd) path = gsql_io_sim_contents s2 path"
    by (rule flushed_survives [of _ "file_inode f"]) (use reachable_inv [OF r2] a b assms(5-7) in_dir_of in auto)
  also have "\<dots> = gsql_io_sim_contents s path"
    by (rule contents_views) (use a b reachable_inv [OF assms(1)] in auto)
  finally show ?thesis .
qed

definition sample_file :: sim_file where
  "sample_file = \<lparr>file_id = 0, file_inode = 0, read_only = False\<rparr>"

definition sample_sim :: sim where
  "sample_sim = snd (call (Write sample_file 0 [1, 2]) (snd (call (Open ''d/f'' {IO_CREATE}) gsql_io_sim)))"

lemma reachable_call: "reachable l s \<Longrightarrow> call_ok c s \<Longrightarrow> \<forall>f. c \<noteq> Sync f \<Longrightarrow> reachable l (snd (call c s))"
  by (rule reachable.step [of l s c "fst (call c s)"]) auto

lemma sample_reachable: "reachable l sample_sim"
  unfolding sample_sim_def
proof (intro reachable_call reachable.start)
  show "call_ok (Write sample_file 0 [1, 2]) (snd (call (Open ''d/f'' {IO_CREATE}) gsql_io_sim))" by code_simp
qed simp_all

lemma flushed_file_survives_crash_witness:
  "gsql_io_sim_contents (gsql_io_sim_crash_image
     (snd (sim_sync_dir ''d/'' (snd (sim_sync sample_file sample_sim)))) CRASH_TORN 7) ''d/f'' =
   gsql_io_sim_contents sample_sim ''d/f'' \<and> gsql_io_sim_contents sample_sim ''d/f'' = Some [1, 2]"
proof
  let ?s1 = "snd (sim_sync sample_file sample_sim)"
  let ?s2 = "snd (sim_sync_dir ''d/'' ?s1)"
  have 1: "sim_sync sample_file sample_sim = (IO_OK, ?s1)"
    by (rule prod_eqI) (simp, code_simp, simp)
  have 2: "sim_sync_dir ''d/'' ?s1 = (IO_OK, ?s2)"
    by (rule prod_eqI) (simp, code_simp, simp)
  have 3: "file_inode sample_file < length (inodes sample_sim)" "in_dir ''d/f'' ''d/''"
    "map_of (view_names sample_sim) ''d/f'' = Some (Some (file_inode sample_file))" "made ?s2 = []" by code_simp+
  show "gsql_io_sim_contents (gsql_io_sim_crash_image ?s2 CRASH_TORN 7) ''d/f'' = gsql_io_sim_contents sample_sim ''d/f''"
    by (rule flushed_file_survives_crash [OF sample_reachable 3(1) 1 2 3(2,3)]) (simp add: 3(4))
  show "gsql_io_sim_contents sample_sim ''d/f'' = Some [1, 2]" by code_simp
qed

text \<open>C24. A crash of the process loses nothing: in every history (failed flushes included) the disk it leaves
  shows every file as the process saw it, as long as the directories that were made are still named.\<close>

theorem process_crash_loses_nothing:
  assumes "reachable lossy s" "\<forall>m \<in> set (made s). names_find (view_names s) (fst m) \<noteq> None"
  shows "gsql_io_sim_contents (gsql_io_sim_crash_image s CRASH_PROCESS sd) path = gsql_io_sim_contents s path"
proof -
  have inv: "names_inv (disk s)" using reachable_inv [OF assms(1)] by blast
  then have d: "distinct (map fst (view_names s))" and b: "\<forall>i. map_of (view_names s) path = Some (Some i) \<longrightarrow> i < length (inodes s)"
    by (simp_all add: disk_def)
  have cd: "crash_disk s CRASH_PROCESS sd = (map view (inodes s), view_names s)"
    using names_copy_id [OF d] by (simp add: crash_disk_def)
  show ?thesis unfolding contents_map [of s] using image_contents [OF cd d, of path] assms(2) b
    by (auto split: option.splits)
qed

lemma process_crash_loses_nothing_witness:
  "gsql_io_sim_contents (gsql_io_sim_crash_image sample_sim CRASH_PROCESS 3) ''d/f'' = Some [1, 2]"
proof -
  have "made sample_sim = []" "gsql_io_sim_contents sample_sim ''d/f'' = Some [1, 2]" by code_simp+
  then show ?thesis using process_crash_loses_nothing [OF sample_reachable, of 3 "''d/f''"] by simp
qed

text \<open>C25. A write is atomic per sector: what a power failure leaves of an inode's bytes are, in some order,
  some of its pending operations applied whole to the durable image, except that in torn mode one
  of them may reach only the sectors below a border; no sector mixes old and new.\<close>

theorem sectors_never_tear:
  assumes "i < length (inodes s)" "mode \<noteq> CRASH_PROCESS"
  shows "\<exists>ps qs k. mset ps \<subseteq># mset (data_of i (pend s)) \<and>
    (qs = ps \<or> mode = CRASH_TORN \<and> (\<exists>us p vs. ps = us @ p # vs \<and> qs = us @ vs)) \<and>
    (\<forall>j. byte_at (view (inodes (gsql_io_sim_crash_image s mode sd) ! i)) j =
         byte_at (apply_ops (if j div SECTOR < k then ps else qs) (durable (inodes s ! i))) j)"
proof -
  obtain ds ns where cd: "crash_disk s mode sd = (ds, ns)" by fastforce
  note d = crash_disk_data [OF cd assms(2,1)]
  have "view (inodes (gsql_io_sim_crash_image s mode sd) ! i) = ds ! i"
    using d(1) assms(1) by (simp add: gsql_io_sim_crash_image_def cd case_prod_beta)
  then show ?thesis using d(2) by simp
qed

lemma sectors_never_tear_witness:
  "\<exists>ps qs k. mset ps \<subseteq># {#P_WRITE 0 0 [1, 2]#} \<and> (qs = ps \<or> (\<exists>us p vs. ps = us @ p # vs \<and> qs = us @ vs)) \<and>
    (\<forall>j. byte_at (view (inodes (gsql_io_sim_crash_image sample_sim CRASH_TORN 5) ! 0)) j =
         byte_at (apply_ops (if j div SECTOR < k then ps else qs) []) j)"
proof -
  have i: "0 < length (inodes sample_sim)" by code_simp
  have e: "data_of 0 (pend sample_sim) = [P_WRITE 0 0 [1, 2]]" "durable (inodes sample_sim ! 0) = []" by code_simp+
  from sectors_never_tear [OF i, of CRASH_TORN 5] e show ?thesis by auto
qed

primrec run_calls :: "sim_call list \<Rightarrow> sim \<Rightarrow> io_code list \<times> sim" where
  "run_calls [] s = ([], s)"
| "run_calls (c # cs) s = (let (rc, s) = call c s; (rcs, s) = run_calls cs s in (rc # rcs, s))"

fun on_files :: "sim_call \<Rightarrow> bool" where
  "on_files (Random _) = False"
| "on_files (Sleep _) = False"
| "on_files (CrashAt _) = False"
| "on_files (Seed _) = False"
| "on_files (Fail _ _) = False"
| "on_files _ = True"

lemma on_files_crashed: "on_files c \<Longrightarrow> crashed s \<Longrightarrow> call c s = (rc, s') \<Longrightarrow> rc = IO_CRASHED"
  by (cases c) (auto simp: op_defs sim_sync_def tick_crashed Let_def case_prod_beta split: if_splits)

lemma crash_disk_cong:
  "map view (inodes s') = map view (inodes s) \<Longrightarrow> map durable (inodes s') = map durable (inodes s) \<Longrightarrow>
   durable_names s' = durable_names s \<Longrightarrow> view_names s' = view_names s \<Longrightarrow> pend s' = pend s \<Longrightarrow>
   crash_disk s' mode sd = crash_disk s mode sd"
  by (simp add: crash_disk_def)

lemma crashed_run:
  assumes "crashed s" "run_calls cs s = (rcs, s')"
  shows "crashed s' \<and> map view (inodes s') = map view (inodes s) \<and> map durable (inodes s') = map durable (inodes s) \<and>
    durable_names s' = durable_names s \<and> view_names s' = view_names s \<and> pend s' = pend s \<and> made s' = made s"
    "list_all2 (\<lambda>c rc. on_files c \<longrightarrow> rc = IO_CRASHED) cs rcs"
proof -
  have "(crashed s' \<and> map view (inodes s') = map view (inodes s) \<and> map durable (inodes s') = map durable (inodes s) \<and>
    durable_names s' = durable_names s \<and> view_names s' = view_names s \<and> pend s' = pend s \<and> made s' = made s) \<and>
    list_all2 (\<lambda>c rc. on_files c \<longrightarrow> rc = IO_CRASHED) cs rcs"
    using assms
  proof (induction cs arbitrary: s rcs)
    case (Cons c cs)
    obtain rc s1 where c1: "call c s = (rc, s1)" by fastforce
    obtain rcs1 s2 where c2: "run_calls cs s1 = (rcs1, s2)" by fastforce
    have c: "call c s = (rc, s1)" "run_calls cs s1 = (rcs1, s')" "rcs = rc # rcs1"
      using Cons.prems(2) c1 c2 by auto
    note a = crashed_call(1) [OF c(1) Cons.prems(1)]
    from Cons.IH [of s1 rcs1] a c show ?case using on_files_crashed [OF _ Cons.prems(1) c(1)] by auto
  qed simp
  then show "crashed s' \<and> map view (inodes s') = map view (inodes s) \<and> map durable (inodes s') = map durable (inodes s) \<and>
    durable_names s' = durable_names s \<and> view_names s' = view_names s \<and> pend s' = pend s \<and> made s' = made s"
    "list_all2 (\<lambda>c rc. on_files c \<longrightarrow> rc = IO_CRASHED) cs rcs" by simp_all
qed

text \<open>C26. At and after the crash point the world has stopped: whatever is called, and however often, the answer
  of every operation on files is the crash, the process sees the same files and a crash leaves the
  same disk as at the crash point: the crash image is the same in everything but its random numbers
  (drawing some is not an operation on files).\<close>

theorem nothing_after_crash_point:
  assumes "reachable lossy s" "on_files c" "crash_at s \<noteq> 0" "crash_at s \<le> ops s + 1" "call c s = (rc, s1)"
    "run_calls cs s1 = (rcs, s2)"
  shows "rc = IO_CRASHED \<and> list_all2 (\<lambda>c rc. on_files c \<longrightarrow> rc = IO_CRASHED) cs rcs \<and>
    (gsql_io_sim_crash_image s2 mode sd)\<lparr>rng := k\<rparr> = (gsql_io_sim_crash_image s mode sd)\<lparr>rng := k\<rparr> \<and>
    made s2 = made s \<and> gsql_io_sim_contents s2 p = gsql_io_sim_contents s p"
proof -
  define s0 where "s0 = s\<lparr>crashed := True\<rparr>"
  define u where "u k = snd (tick k s0)" for k
  have t: "tick k s = (IO_CRASHED, u k)" "tick k s0 = (IO_CRASHED, u k)" for k
    using assms(3,4) by (simp_all add: tick_def s0_def u_def Let_def)
  have ino: "inodes s0 = inodes s" by (simp add: s0_def)
  have "call c s = call c s0"
    using assms(2) by (cases c) (simp_all add: op_defs sim_sync_def t ino Let_def split del: if_split)
  with assms(5) have c: "call c s0 = (rc, s1)" by simp
  have cr: "crashed s0" by (simp add: s0_def)
  note a = crashed_call(1) [OF c cr]
  have e: "inodes s0 = inodes s" "durable_names s0 = durable_names s" "view_names s0 = view_names s" "pend s0 = pend s" "made s0 = made s"
    by (simp_all add: s0_def)
  have "crashed s1" using a by simp
  note b = crashed_run [OF this assms(6)]
  have v: "map view (inodes s2) = map view (inodes s)" "map durable (inodes s2) = map durable (inodes s)"
    "durable_names s2 = durable_names s" "view_names s2 = view_names s" "pend s2 = pend s" "made s2 = made s"
    using a b(1) e by simp_all
  have inv: "names_inv (disk s)" using reachable_inv [OF assms(1)] by blast
  show ?thesis
    using on_files_crashed [OF assms(2) cr c] b(2) crash_disk_cong [OF v(1-5), of mode sd] contents_views [OF v(1,4) inv] v(6)
    by (simp add: gsql_io_sim_crash_image_def case_prod_beta)
qed

lemma nothing_after_crash_point_witness:
  "fst (call (Remove ''d/f'') (gsql_io_sim_crash_at 3 sample_sim)) = IO_CRASHED \<and>
   gsql_io_sim_contents (snd (run_calls [Sync sample_file, Mkdir ''d'']
     (snd (call (Remove ''d/f'') (gsql_io_sim_crash_at 3 sample_sim))))) ''d/f'' = Some [1, 2]"
proof -
  let ?s = "gsql_io_sim_crash_at 3 sample_sim"
  have r: "reachable True ?s"
    using reachable_call [OF sample_reachable, of "CrashAt 3"] by simp
  have k: "crash_at ?s \<noteq> 0" "crash_at ?s \<le> ops ?s + 1" "gsql_io_sim_contents ?s ''d/f'' = Some [1, 2]" by code_simp+
  from nothing_after_crash_point [OF r _ k(1,2) surjective_pairing surjective_pairing, of "Remove ''d/f''" "[Sync sample_file, Mkdir ''d'']" 0 CRASH_POWER 0 "''d/f''"]
  show ?thesis using k(3) by simp
qed

text \<open>
  The hypothesis on made directories is needed: a rename onto a directory replaces it, where a real
  file system refuses, and a crash then drops what is beneath.
\<close>

lemma rename_replaces_directory:
  "fst (run_calls [Mkdir ''e'', Open ''e/x'' {IO_CREATE}, Open ''f'' {IO_CREATE}, Rename ''f'' ''e'', Remove ''e''] gsql_io_sim) =
     [IO_OK, IO_OK, IO_OK, IO_OK, IO_OK]"
  "gsql_io_sim_contents (snd (run_calls [Mkdir ''e'', Open ''e/x'' {IO_CREATE}, Open ''f'' {IO_CREATE}, Rename ''f'' ''e'', Remove ''e''] gsql_io_sim)) ''e/x'' = Some []"
  "gsql_io_sim_contents (gsql_io_sim_crash_image (snd (run_calls [Mkdir ''e'', Open ''e/x'' {IO_CREATE}, Open ''f'' {IO_CREATE}, Rename ''f'' ''e'', Remove ''e''] gsql_io_sim)) CRASH_PROCESS 1) ''e/x'' = None"
  by code_simp+

end
