(* ===== verification/Lease_Props.thy ===== *)
theory Lease_Props
  imports Lease Io_Sim_Props
begin

text \<open>
  What the lease promises: a record is read back as written and a damaged one is not read at all; a
  store that lost its lease changes nothing any more; a store writes only under a fresh confirmation;
  and, over any layer that keeps files (a locale, interpreted on the simulated layer), another
  machine's record is never overwritten by a renewal, and taking the lease ends.
\<close>

section \<open>The record\<close>

text \<open>A record as \<^verbatim>\<open>identify\<close> and \<^verbatim>\<open>lease_decode\<close> make it: arrays of their size, the last byte NUL.\<close>

definition rec_ok :: "lease_rec \<Rightarrow> bool" where
  "rec_ok r \<longleftrightarrow> length (tok r) = 16 \<and> length (machine r) = ID_N + 1 \<and> machine r ! ID_N = 0 \<and>
     length (boot r) = ID_N + 1 \<and> boot r ! ID_N = 0 \<and> length (host r) = HOST_N + 1 \<and> host r ! HOST_N = 0"

lemmas lease_sizes = LEASE_SIZE_def ID_N_def HOST_N_def

lemma LEASE_MAGIC_length [simp]: "length LEASE_MAGIC = 8"
  by (simp add: LEASE_MAGIC_def)

lemma encode_length [simp]: "rec_ok r \<Longrightarrow> length (lease_encode r) = LEASE_SIZE"
  by (simp add: lease_encode_def Let_def lease_sizes rec_ok_def)

lemma set_last_zero: "length xs = n + 1 \<Longrightarrow> xs ! n = 0 \<Longrightarrow> xs[n := 0] = xs"
  by (metis list_update_id)

lemma decode_encode:
  assumes "rec_ok r"
  shows "lease_decode (lease_encode r) = Some r"
proof -
  from assms have r: "length (tok r) = 16" "length (machine r) = 41" "length (boot r) = 41" "length (host r) = 65"
    "(machine r)[40 := 0] = machine r" "(boot r)[40 := 0] = boot r" "(host r)[64 := 0] = host r"
    by (simp_all add: rec_ok_def lease_sizes set_last_zero)
  show ?thesis
    by (simp add: lease_decode_def lease_encode_def Let_def lease_sizes r)
qed

lemma fill_array_ok: "length (fill_array n s) = n + 1 \<and> fill_array n s ! n = 0"
  by (auto simp: fill_array_def Let_def nth_append min_def)

lemma identify_ok: "length t = 16 \<Longrightarrow> rec_ok ((identify w test r)\<lparr>tok := t, counter := c\<rparr>)"
  using fill_array_ok [of ID_N] fill_array_ok [of HOST_N]
  by (auto simp: rec_ok_def identify_def Let_def ID_N_def HOST_N_def nth_append split: option.splits)

lemma ucast_64_inject: "(ucast (x :: u32) :: u64) = ucast y \<longleftrightarrow> x = y"
proof
  assume "(ucast x :: u64) = ucast y"
  then have "unat (ucast x :: u64) = unat (ucast y :: u64)" by simp
  then show "x = y" using unat_less_2p [of x] unat_less_2p [of y] 
    by (simp add: unsigned_ucast_eq take_bit_nat_eq_self word_unat_eq_iff [of x y])
qed simp

lemma unat_ucast_64: "unat (ucast (x :: u32) :: u64) = unat x"
  using unat_less_2p [of x] by (simp add: unsigned_ucast_eq take_bit_nat_eq_self)

text \<open>The step of the watch.\<close>

lemma step_bounds:
  fixes x :: u32
  shows "0 < unat (if x div 4 \<noteq> 0 then ucast (x div 4) else 1 :: u64)"
    "unat (if x div 4 \<noteq> 0 then ucast (x div 4) else 1 :: u64) < 2 ^ 32"
proof -
  have "unat (if x div 4 \<noteq> 0 then ucast (x div 4) else 1 :: u64) = (if x div 4 \<noteq> 0 then unat (x div 4) else 1)"
    by (simp add: unat_ucast_64)
  then show "0 < unat (if x div 4 \<noteq> 0 then ucast (x div 4) else 1 :: u64)"
    "unat (if x div 4 \<noteq> 0 then ucast (x div 4) else 1 :: u64) < 2 ^ 32"
    using unat_less_2p [of "x div 4"] by (auto simp: unat_eq_zero neq0_conv [symmetric] simp del: neq0_conv)
qed

text \<open>Damage of at most four adjacent bytes, in the checked part or in the checksum.\<close>

lemma decode_damaged:
  assumes d: "lease_decode (p @ xs @ q) = Some r" and len: "length (p @ xs @ q) = LEASE_SIZE"
    and x: "xs \<noteq> ys" "length ys = length xs" "length xs \<le> 4"
    and at: "length (p @ xs) \<le> LEASE_SIZE - 8 \<or> LEASE_SIZE - 8 \<le> length p"
  shows "lease_decode (p @ ys @ q) = None"
proof -
  let ?n = "LEASE_SIZE - 8"
  let ?s = "p @ xs @ q" and ?t = "p @ ys @ q"
  have crc: "get_le (peek ?n 8 ?s) = (ucast (crc32c (take ?n ?s)) :: u64)"
    using d by (simp add: lease_decode_def split: if_splits)
  have "get_le (peek ?n 8 ?t) \<noteq> (ucast (crc32c (take ?n ?t)) :: u64)"
  proof (cases "length (p @ xs) \<le> ?n")
    case True
    obtain q1 q2 where q: "q = q1 @ q2" "length (p @ xs @ q1) = ?n"
    proof (rule that [of "take (?n - length (p @ xs)) q" "drop (?n - length (p @ xs)) q"])
      show "length (p @ xs @ take (?n - length (p @ xs)) q) = ?n" using True len by simp
    qed simp
    have s: "take ?n ?s = p @ xs @ q1" "take ?n ?t = p @ ys @ q1" "peek ?n 8 ?t = peek ?n 8 ?s"
      using q x(2) by (simp_all add: peek_def)
    have "crc32c (p @ xs @ q1) \<noteq> crc32c (p @ ys @ q1)" unfolding crc32c_def using crc_burst [of xs ys] x by metis
    then have "(ucast (crc32c (p @ xs @ q1)) :: u64) \<noteq> ucast (crc32c (p @ ys @ q1))" by (simp add: ucast_64_inject)
    then show ?thesis using crc s by simp
  next
    case False
    then have p: "?n \<le> length p" using at by simp
    have t: "take ?n ?t = take ?n ?s" using p by simp
    have ne: "peek ?n 8 ?t \<noteq> peek ?n 8 ?s" using p x len by (simp add: peek_def)
    have l8: "length (peek ?n 8 ?t) = 8" "length (peek ?n 8 ?s) = 8"
      using len x(2) by (simp_all add: peek_def LEASE_SIZE_def)
    show ?thesis
    proof
      assume "get_le (peek ?n 8 ?t) = (ucast (crc32c (take ?n ?t)) :: u64)"
      then have "(get_le (peek ?n 8 ?t) :: u64) = get_le (peek ?n 8 ?s)" by (simp only: t crc)
      then show False using get_le_inject [where 'a = 64] l8 ne by fastforce
    qed
  qed
  then show ?thesis by (simp add: lease_decode_def)
qed

section \<open>The fenced layer\<close>

datatype 'f store_call =
    S_Open string "io_flag set" | S_Read 'f nat nat | S_Write 'f nat bytes | S_Sync 'f | S_Size 'f | S_Truncate 'f nat
  | S_Close 'f | S_Rename string string | S_Remove string | S_SyncDir string | S_Lock 'f bool | S_Mkdir string

primrec layer_call :: "('w, 'f, 'c) io_ops \<Rightarrow> 'f store_call \<Rightarrow> 'w \<Rightarrow> io_code \<times> 'w" where
  "layer_call io (S_Open p fl) w = (let (rc, f, w) = op_open io p fl w in (rc, w))"
| "layer_call io (S_Read f off n) w = (let (rc, b, w) = op_read_at io f off n w in (rc, w))"
| "layer_call io (S_Write f off b) w = op_write_at io f off b w"
| "layer_call io (S_Sync f) w = op_sync io f w"
| "layer_call io (S_Size f) w = (let (rc, n, w) = op_size io f w in (rc, w))"
| "layer_call io (S_Truncate f n) w = op_truncate io f n w"
| "layer_call io (S_Close f) w = op_close io f w"
| "layer_call io (S_Rename p q) w = op_rename io p q w"
| "layer_call io (S_Remove p) w = op_remove io p w"
| "layer_call io (S_SyncDir d) w = op_sync_dir io d w"
| "layer_call io (S_Lock f nb) w = op_lock io f nb w"
| "layer_call io (S_Mkdir p) w = op_mkdir io p w"

text \<open>The calls that change what another owner could see.\<close>

fun changes :: "'f store_call \<Rightarrow> bool" where
  "changes (S_Open p fl) = (IO_CREATE \<in> fl)"
| "changes (S_Write _ _ _) = True"
| "changes (S_Truncate _ _) = True"
| "changes (S_Rename _ _) = True"
| "changes (S_Remove _) = True"
| "changes (S_Mkdir _) = True"
| "changes _ = False"

primrec layer_calls :: "('w, 'f, 'c) io_ops \<Rightarrow> 'f store_call list \<Rightarrow> 'w \<Rightarrow> io_code list \<times> 'w" where
  "layer_calls io [] w = ([], w)"
| "layer_calls io (c # cs) w = (let (rc, w) = layer_call io c w; (rcs, w) = layer_calls io cs w in (rc # rcs, w))"

lemmas fenced_layer = fenced_ops_def f_open_def guarded_def passed_def

lemma fenced_call:
  assumes "fenced l"
  shows "layer_call (fenced_ops io) c (l, w) =
    (if changes c then (IO_FENCED, l, w) else let (rc, w) = layer_call io c w in (rc, l, w))"
  using assms by (cases c) (auto simp: fenced_layer fence_check_def case_prod_beta)

text \<open>Whatever the fenced layer is asked, it first asks the lease.\<close>

lemma guarded_call:
  "changes c \<Longrightarrow> layer_call (fenced_ops io) c (l, w) =
     (let (rc, l, w) = fence_check io l w
      in if rc \<noteq> IO_OK then (rc, l, w) else let (rc, w) = layer_call io c w in (rc, l, w))"
  by (cases c) (auto simp: fenced_layer case_prod_beta)

section \<open>Layers that keep the lease file\<close>

text \<open>
  What the lease relies on of the layer beneath it while no other machine intervenes: reads give what is
  stored, a successful write is stored, an exclusive creation succeeds only on an absent file, failures
  of any kind may happen at any call, and only sleeping moves the clock. \<open>handle w h\<close>: \<open>h\<close> is open on
  the lease file.
\<close>

definition text_kept :: "bytes option \<Rightarrow> bytes" where
  "text_kept b = (case b of None \<Rightarrow> [] | Some b \<Rightarrow> b)"

definition sector_of :: "bytes option \<Rightarrow> bytes" where
  "sector_of b = poke 0 (take LEASE_SIZE (text_kept b)) (replicate LEASE_SIZE 0)"

definition record_in :: "bytes option \<Rightarrow> lease_rec option" where
  "record_in b = (if LEASE_SIZE \<le> length (text_kept b) then lease_decode (take LEASE_SIZE (text_kept b)) else None)"

definition state_in :: "bytes option \<Rightarrow> lease_state" where
  "state_in b = (if b = None then L_ABSENT else if record_in b = None then L_UNREADABLE else L_READ)"

locale lease_layer =
  fixes io :: "('w, 'f, 'c) io_ops" and p :: string and ok :: "'w \<Rightarrow> bool" and stored :: "'w \<Rightarrow> bytes option"
    and handle :: "'w \<Rightarrow> 'f \<Rightarrow> bool" and clk :: "'w \<Rightarrow> u64"
  assumes open_ro: "ok w \<Longrightarrow> op_open io p {IO_READ_ONLY} w = (rc, f, w') \<Longrightarrow> ok w' \<and> stored w' = stored w \<and> clk w' = clk w \<and>
      (rc = ENOENT \<longrightarrow> stored w = None) \<and> (rc = IO_OK \<longrightarrow> stored w \<noteq> None \<and> handle w' (the f))"
    and open_create: "ok w \<Longrightarrow> op_open io p (if excl then {IO_CREATE, IO_EXCLUSIVE} else {IO_CREATE}) w = (rc, f, w') \<Longrightarrow>
      ok w' \<and> clk w' = clk w \<and> (rc = IO_OK \<longrightarrow> handle w' (the f) \<and> (excl \<longrightarrow> stored w = None) \<and> stored w' = Some (text_kept (stored w)))"
    and reads: "ok w \<Longrightarrow> handle w h \<Longrightarrow> op_read_at io h 0 n w = (rc, bs, w') \<Longrightarrow> ok w' \<and> handle w' h \<and> stored w' = stored w \<and>
      clk w' = clk w \<and> (rc = IO_OK \<longrightarrow> bs = take n (text_kept (stored w)))"
    and writes: "ok w \<Longrightarrow> handle w h \<Longrightarrow> op_write_at io h 0 b w = (rc, w') \<Longrightarrow> ok w' \<and> handle w' h \<and> clk w' = clk w \<and>
      (rc = IO_OK \<longrightarrow> stored w' = Some (buf_write (text_kept (stored w)) 0 b))"
    and syncs: "ok w \<Longrightarrow> handle w h \<Longrightarrow> op_sync io h w = (rc, w') \<Longrightarrow> ok w' \<and> handle w' h \<and> stored w' = stored w \<and> clk w' = clk w"
    and closes: "ok w \<Longrightarrow> handle w h \<Longrightarrow> op_close io h w = (rc, w') \<Longrightarrow> ok w' \<and> stored w' = stored w \<and> clk w' = clk w"
    and dir_syncs: "ok w \<Longrightarrow> op_sync_dir io d w = (rc, w') \<Longrightarrow> ok w' \<and> stored w' = stored w \<and> clk w' = clk w"
    and removes: "ok w \<Longrightarrow> op_remove io p w = (rc, w') \<Longrightarrow> ok w' \<and> clk w' = clk w \<and> stored w' = (if rc = IO_OK then None else stored w)"
    and now: "op_now_ms io w = (clk w, w)"
    and sleeps: "ok w \<Longrightarrow> ok (op_sleep_ms io ms w) \<and> stored (op_sleep_ms io ms w) = stored w \<and> clk (op_sleep_ms io ms w) = clk w + ms"
    and draws: "ok w \<Longrightarrow> op_random io n w = (bs, w') \<Longrightarrow> ok w' \<and> stored w' = stored w \<and> clk w' = clk w \<and> length bs = n"
begin

lemma read_spec:
  assumes "ok w" "lease_read io p r st w = (rc, r', raw, st', w')"
  shows "ok w' \<and> stored w' = stored w \<and> clk w' = clk w" "rc = IO_OK \<Longrightarrow> raw = sector_of (stored w)"
    "rc = IO_OK \<Longrightarrow> st' = state_in (stored w)" "rc = IO_OK \<Longrightarrow> r' = (case record_in (stored w) of None \<Rightarrow> r | Some x \<Rightarrow> x)"
proof -
  obtain c f w1 where 1: "op_open io p {IO_READ_ONLY} w = (c, f, w1)" by (metis surj_pair)
  note o = open_ro [OF assms(1) 1]
  have "(ok w' \<and> stored w' = stored w \<and> clk w' = clk w) \<and> (rc = IO_OK \<longrightarrow> raw = sector_of (stored w) \<and> st' = state_in (stored w) \<and>
      r' = (case record_in (stored w) of None \<Rightarrow> r | Some x \<Rightarrow> x))"
  proof (cases "c = IO_OK")
    case False
    then have "lease_read io p r st w = (if c = ENOENT then (IO_OK, r, replicate LEASE_SIZE 0, L_ABSENT, w1)
        else (c, r, replicate LEASE_SIZE 0, st, w1))"
      by (simp add: lease_read_def Let_def 1)
    then show ?thesis using assms(2) o False
      by (cases "c = ENOENT") (auto simp: sector_of_def text_kept_def state_in_def record_in_def poke_def LEASE_SIZE_def)
  next
    case True
    obtain c2 bs w2 where 2: "op_read_at io (the f) 0 LEASE_SIZE w1 = (c2, bs, w2)" by (metis surj_pair)
    obtain c3 w3 where 3: "op_close io (the f) w2 = (c3, w3)" by fastforce
    have h: "ok w1" "handle w1 (the f)" "stored w \<noteq> None" using o True by auto
    note rd = reads [OF h(1,2) 2]
    then have cl: "ok w3 \<and> stored w3 = stored w2 \<and> clk w3 = clk w2" using closes 3 by blast
    let ?t = "text_kept (stored w)"
    have d: "(if length bs = LEASE_SIZE then lease_decode (poke 0 bs (replicate LEASE_SIZE 0)) else None) = record_in (stored w)"
      if "bs = take LEASE_SIZE ?t" using that by (auto simp: record_in_def poke_def)
    have e: "lease_read io p r st w = (if c2 \<noteq> IO_OK then (c2, r, poke 0 bs (replicate LEASE_SIZE 0), st, w3)
        else case (if length bs = LEASE_SIZE then lease_decode (poke 0 bs (replicate LEASE_SIZE 0)) else None) of
          Some r \<Rightarrow> (IO_OK, r, poke 0 bs (replicate LEASE_SIZE 0), L_READ, w3)
        | None \<Rightarrow> (IO_OK, r, poke 0 bs (replicate LEASE_SIZE 0), L_UNREADABLE, w3))"
      unfolding lease_read_def Let_def 1 prod.case using True by (simp add: 2 3)
    show ?thesis
    proof (cases "c2 = IO_OK")
      case False
      then show ?thesis using assms(2) e rd cl o by auto
    next
      case t2: True
      then have bs: "bs = take LEASE_SIZE ?t" using rd o by simp
      show ?thesis using assms(2) rd cl o h(3) t2 unfolding e d [OF bs]
        by (auto simp: sector_of_def state_in_def bs split: option.splits)
    qed
  qed
  then show "ok w' \<and> stored w' = stored w \<and> clk w' = clk w" "rc = IO_OK \<Longrightarrow> raw = sector_of (stored w)"
    "rc = IO_OK \<Longrightarrow> st' = state_in (stored w)" "rc = IO_OK \<Longrightarrow> r' = (case record_in (stored w) of None \<Rightarrow> r | Some x \<Rightarrow> x)"
    by simp_all
qed

lemma write_spec:
  assumes "ok w" "path l = p" "rec_ok (mine l)" "lease_write io l create w = (rc, w')"
  shows "ok w'" "clk w' = clk w" "rc = IO_OK \<Longrightarrow> record_in (stored w') = Some (mine l)" "rc = IO_OK \<Longrightarrow> create \<Longrightarrow> stored w = None"
proof -
  obtain c f w1 where 1: "op_open io p (if create then {IO_CREATE, IO_EXCLUSIVE} else {IO_CREATE}) w = (c, f, w1)" by (metis surj_pair)
  note o = open_create [OF assms(1) 1]
  let ?s = "lease_encode (mine l)"
  have "ok w' \<and> clk w' = clk w \<and> (rc = IO_OK \<longrightarrow> record_in (stored w') = Some (mine l) \<and> (create \<longrightarrow> stored w = None))"
  proof (cases "c = IO_OK")
    case False
    then show ?thesis using assms(4) 1 o by (auto simp: lease_write_def assms(2))
  next
    case True
    obtain c2 w2 where 2: "op_write_at io (the f) 0 ?s w1 = (c2, w2)" by fastforce
    have h: "ok w1" "handle w1 (the f)" using o True by auto
    note wr = writes [OF h 2]
    obtain c3 w3 where 3: "(if c2 = IO_OK then op_sync io (the f) w2 else (c2, w2)) = (c3, w3)" by fastforce
    have sy: "ok w3 \<and> handle w3 (the f) \<and> stored w3 = stored w2 \<and> clk w3 = clk w2 \<and> (c3 = IO_OK \<longrightarrow> c2 = IO_OK)"
    proof (cases "c2 = IO_OK")
      case True
      then have "op_sync io (the f) w2 = (c3, w3)" using 3 by simp
      then show ?thesis using True syncs [of w2 "the f" c3 w3] wr by blast
    qed (use 3 wr in auto)
    obtain c4 w4 where 4: "op_close io (the f) w3 = (c4, w4)" by fastforce
    have cl: "ok w4 \<and> stored w4 = stored w3 \<and> clk w4 = clk w3" using sy closes 4 by blast
    let ?rc = "if c3 = IO_OK then c4 else c3"
    have e: "lease_write io l create w = (if ?rc = IO_OK \<and> create then op_sync_dir io (gs_dirname (path l)) w4 else (?rc, w4))"
      using True 1 2 3 4 by (simp add: lease_write_def assms(2) Let_def)
    have w: "ok w' \<and> stored w' = stored w4 \<and> clk w' = clk w4" "rc = IO_OK \<Longrightarrow> c3 = IO_OK"
      using assms(4) cl dir_syncs unfolding e by (auto split: if_splits)
    have "record_in (Some (buf_write (text_kept b) 0 ?s)) = Some (mine l)" for b
    proof -
      have "take LEASE_SIZE (buf_write (text_kept b) 0 ?s) = ?s" "LEASE_SIZE \<le> length (buf_write (text_kept b) 0 ?s)"
        using encode_length [OF assms(3)] by (auto simp: buf_write_def buf_reserve_def poke_def LEASE_SIZE_def)
      then show ?thesis using decode_encode [OF assms(3)] by (simp add: record_in_def text_kept_def)
    qed
    then show ?thesis using w sy cl wr o True by auto
  qed
  then show "ok w'" "clk w' = clk w" "rc = IO_OK \<Longrightarrow> record_in (stored w') = Some (mine l)" "rc = IO_OK \<Longrightarrow> create \<Longrightarrow> stored w = None"
    by simp_all
qed

lemma look_spec:
  assumes "ok w" "look_again io p r st raw w = (res, w')"
  shows "ok w' \<and> stored w' = stored w \<and> clk w' = clk w" "res = Failed c \<Longrightarrow> c \<noteq> IO_OK"
proof -
  obtain rc r2 again st2 w2 where 1: "lease_read io p zero_rec L_ABSENT w = (rc, r2, again, st2, w2)" by (metis surj_pair)
  then have "w' = w2" using assms(2) by (auto simp: look_again_def split: if_splits)
  then show "ok w' \<and> stored w' = stored w \<and> clk w' = clk w" using read_spec(1) [OF assms(1) 1] by simp
  show "res = Failed c \<Longrightarrow> c \<noteq> IO_OK" using 1 assms(2) by (auto simp: look_again_def split: if_splits)
qed

lemma watch_spec:
  assumes "path l = p" "0 < unat step" "unat step < 2 ^ 32" "ok w" "unat (clk w - start) < unat (dead_ms l) + unat step"
  shows "\<exists>res w'. watch_loop io l start step r st raw w = Some (res, w') \<and> ok w' \<and> stored w' = stored w \<and>
    (res = Still \<longrightarrow> unat (dead_ms l) \<le> unat (clk w' - start) \<and> unat (clk w' - start) < unat (dead_ms l) + unat step) \<and>
    (\<forall>c. res = Failed c \<longrightarrow> c \<noteq> IO_OK)"
  using assms(4,5)
proof (induction "unat (dead_ms l) - unat (clk w - start)" arbitrary: w rule: less_induct)
  case less
  have dl: "unat (dead_ms l) < 2 ^ 32" using unat_less_2p [of "dead_ms l"] by simp
  have ud: "unat (ucast (dead_ms l) :: u64) = unat (dead_ms l)" by (rule unat_ucast_64)
  show ?case
  proof (cases "clk w - start < ucast (dead_ms l)")
    case False
    then have "unat (dead_ms l) \<le> unat (clk w - start)" by (simp add: word_less_nat_alt ud)
    then show ?thesis using False less.prems by (subst watch_loop.simps) (simp add: now)
  next
    case True
    then have lt: "unat (clk w - start) < unat (dead_ms l)" by (simp add: word_less_nat_alt ud)
    let ?w1 = "op_sleep_ms io step w"
    obtain res w2 where 2: "look_again io p r st raw ?w1 = (res, w2)" by fastforce
    have s: "ok ?w1" "stored ?w1 = stored w" "clk ?w1 = clk w + step" using sleeps [OF less.prems(1)] by simp_all
    note k = look_spec(1) [OF s(1) 2]
    have e: "watch_loop io l start step r st raw w =
        (if res = Still then watch_loop io l start step r st raw w2 else Some (res, w2))"
      using True assms(1) 2 by (subst watch_loop.simps) (simp add: now nap_def Let_def)
    define x where "x = clk w - start"
    have x: "clk w2 - start = x + step" using k s(3) by (simp add: x_def)
    have "unat (x + step) = unat x + unat step"
      using lt dl assms(3) unfolding x_def [symmetric] by (simp add: unat_word_ariths)
    then have u: "unat (clk w2 - start) = unat (clk w - start) + unat step" by (simp only: x x_def [symmetric])
    show ?thesis
    proof (cases "res = Still")
      case True
      have "unat (dead_ms l) - unat (clk w2 - start) < unat (dead_ms l) - unat (clk w - start)" using u lt assms(2) by simp
      from less.hyps [OF this] k s u lt True e show ?thesis by auto
    qed (use e k s look_spec(2) [OF s(1) 2] in auto)
  qed
qed

lemma io_status_not_ok: "rc \<noteq> IO_OK \<Longrightarrow> gs_io_status rc \<noteq> GS_OK"
  by (simp add: gs_io_status_def)

lemmas take_ends = taken_def take_failed_def take_refused_def refuse_def gs_lease_close_def now

lemma take_over_spec:
  assumes "ok w" "path l = p" "rec_ok (mine l)" "take_over io l n r st raw w = (rc, lo, why, w')"
  shows "ok w'" "rc = GS_OK \<longleftrightarrow> lo \<noteq> None"
    "lo = Some l' \<Longrightarrow> record_in (stored w') = Some (mine l') \<and> confirmed l' = clk w' \<and> fenced l' = fenced l \<and> dead_ms l' = dead_ms l \<and>
       settle_ms l' = settle_ms l \<and> (\<exists>c. mine l' = (mine l)\<lparr>counter := c\<rparr>) \<and>
       (\<exists>a. clk w' = clk w + ucast (a :: u32) + ucast (settle_ms l))"
proof -
  obtain res w1 where 1: "look_again io p r st raw w = (res, w1)" by fastforce
  note k = look_spec(1) [OF assms(1) 1]
  have "ok w' \<and> (rc = GS_OK \<longleftrightarrow> lo \<noteq> None) \<and> (\<forall>l'. lo = Some l' \<longrightarrow> record_in (stored w') = Some (mine l') \<and> confirmed l' = clk w' \<and>
      fenced l' = fenced l \<and> dead_ms l' = dead_ms l \<and> settle_ms l' = settle_ms l \<and> (\<exists>c. mine l' = (mine l)\<lparr>counter := c\<rparr>) \<and>
      (\<exists>a. clk w' = clk w + ucast (a :: u32) + ucast (settle_ms l)))"
  proof (cases "res = Still")
    case False
    then show ?thesis using assms(4) k look_spec(2) [OF assms(1) 1]
      by (cases res) (auto simp: take_over_def 1 assms(2) take_ends io_status_not_ok)
  next
    case True
    define l1 where "l1 = (if st = L_READ then l\<lparr>mine := (mine l)\<lparr>counter := counter r + 1\<rparr>\<rparr> else l)"
    have l1: "path l1 = p" "rec_ok (mine l1)" "race_ms l1 = race_ms l" "settle_ms l1 = settle_ms l" "fenced l1 = fenced l" "dead_ms l1 = dead_ms l"
      "\<exists>c. mine l1 = (mine l)\<lparr>counter := c\<rparr>"
      using assms(2,3) by (auto simp: l1_def rec_ok_def intro: exI [of _ "counter (mine l)"])
    define w2 where "w2 = (if race_ms l1 \<noteq> 0 then nap io (ucast (race_ms l1)) w1 else w1)"
    have w2: "ok w2" "clk w2 = clk w + ucast (race_ms l)" using k sleeps by (auto simp: w2_def nap_def l1)
    obtain c w3 where 3: "lease_write io l1 False w2 = (c, w3)" by fastforce
    note wr = write_spec [OF w2(1) l1(1,2) 3]
    define w4 where "w4 = nap io (ucast (settle_ms l1)) w3"
    have w4: "ok w4" "stored w4 = stored w3" "clk w4 = clk w3 + ucast (settle_ms l)" using sleeps [OF wr(1)] by (simp_all add: w4_def nap_def l1)
    obtain c5 r5 raw5 st5 w5 where 5: "lease_read io p zero_rec L_ABSENT w4 = (c5, r5, raw5, st5, w5)" by (metis surj_pair)
    note rd = read_spec [OF w4(1) 5]
    have e: "take_over io l n r st raw w = (if c \<noteq> IO_OK then take_failed io l1 c w3
        else if c5 \<noteq> IO_OK then take_failed io l1 c5 w5 else if st5 \<noteq> L_READ \<or> \<not> ours l1 r5 then take_refused io l1 r5 st5 n w5
        else taken io l1 w5)"
      using 1 True 3 5 by (simp add: take_over_def assms(2) l1(1) Let_def l1_def [symmetric] w2_def [symmetric] w4_def [symmetric])
    show ?thesis
    proof (cases "c = IO_OK \<and> c5 = IO_OK \<and> st5 = L_READ \<and> ours l1 r5")
      case True
      then have t: "rc = GS_OK" "lo = Some (l1\<lparr>confirmed := clk w5\<rparr>)" "w' = w5"
        using assms(4) e by (auto simp: taken_def now)
      have "record_in (stored w5) = Some (mine l1)" using wr(3) rd(1) w4 True by simp
      then show ?thesis using t rd(1) w4 w2 wr(2) l1 by auto
    next
      case False
      then have t: "rc \<noteq> GS_OK" "lo = None" "w' = w3 \<or> w' = w5"
        using assms(4) e by (auto simp: take_ends io_status_not_ok split: if_splits)
      then show ?thesis using rd(1) wr(1) by auto
    qed
  qed
  then show "ok w'" "rc = GS_OK \<longleftrightarrow> lo \<noteq> None"
    "lo = Some l' \<Longrightarrow> record_in (stored w') = Some (mine l') \<and> confirmed l' = clk w' \<and> fenced l' = fenced l \<and> dead_ms l' = dead_ms l \<and>
       settle_ms l' = settle_ms l \<and> (\<exists>c. mine l' = (mine l)\<lparr>counter := c\<rparr>) \<and>
       (\<exists>a. clk w' = clk w + ucast (a :: u32) + ucast (settle_ms l))" by blast+
qed

text \<open>What a taken lease is: ours in the file, confirmed now, and the wait it cost.\<close>

definition holds :: "lease \<Rightarrow> lease \<Rightarrow> 'w \<Rightarrow> bool" where
  "holds l l' w' \<longleftrightarrow> record_in (stored w') = Some (mine l') \<and> confirmed l' = clk w' \<and> fenced l' = fenced l \<and>
     dead_ms l' = dead_ms l \<and> settle_ms l' = settle_ms l \<and> (\<exists>c. mine l' = (mine l)\<lparr>counter := c\<rparr>)"

lemma take_from_spec:
  assumes "ok w" "path l = p" "rec_ok (mine l)"
  shows "\<exists>rc lo why w'. take_from io l n r st raw w = Some (rc, lo, why, w') \<and> ok w' \<and> (rc = GS_OK \<longleftrightarrow> lo \<noteq> None) \<and>
    (\<forall>l'. lo = Some l' \<longrightarrow> holds l l' w' \<and>
      (\<not> (st = L_READ \<and> same_boot r (mine l)) \<longrightarrow> unat (dead_ms l) + unat (settle_ms l) \<le> unat (clk w' - clk w)))"
proof (cases "st = L_READ \<and> same_boot r (mine l)")
  case True
  define l1 where "l1 = l\<lparr>mine := (mine l)\<lparr>counter := counter r + 1\<rparr>\<rparr>"
  have l1: "path l1 = p" "rec_ok (mine l1)" using assms(2,3) by (simp_all add: l1_def rec_ok_def)
  obtain c w1 where 1: "lease_write io l1 False w = (c, w1)" by fastforce
  note wr = write_spec [OF assms(1) l1 1]
  have e: "take_from io l n r st raw w = Some (if c \<noteq> IO_OK then take_failed io l1 c w1 else taken io l1 w1)"
    using True 1 by (simp add: take_from_def l1_def)
  show ?thesis
  proof (cases "c = IO_OK")
    case True
    then show ?thesis using e wr \<open>st = L_READ \<and> same_boot r (mine l)\<close> by (auto simp: taken_def now holds_def l1_def)
  next
    case False
    then show ?thesis using e wr by (auto simp: take_ends io_status_not_ok)
  qed
next
  case False
  define step where "step = (if renew_ms l div 4 \<noteq> 0 then ucast (renew_ms l div 4) else 1 :: u64)"
  have step: "0 < unat step" "unat step < 2 ^ 32" using step_bounds by (simp_all add: step_def)
  have st0: "unat (clk w - clk w) < unat (dead_ms l) + unat step" using step(1) by simp
  obtain res w1 where 1: "watch_loop io l (clk w) step r st raw w = Some (res, w1)" "ok w1" "stored w1 = stored w"
    "res = Still \<longrightarrow> unat (dead_ms l) \<le> unat (clk w1 - clk w) \<and> unat (clk w1 - clk w) < unat (dead_ms l) + unat step"
    "\<forall>c. res = Failed c \<longrightarrow> c \<noteq> IO_OK"
    using watch_spec [OF assms(2) step assms(1) st0] by metis
  have e: "take_from io l n r st raw w = Some (case res of Failed rc \<Rightarrow> take_failed io l rc w1
      | Moved r2 st2 \<Rightarrow> take_refused io l r2 st2 n w1 | Still \<Rightarrow> take_over io l n r st raw w1)"
    unfolding take_from_def if_not_P [OF False] now Let_def prod.case step_def [symmetric] by (simp add: 1(1))
  show ?thesis
  proof (cases res)
    case (Failed c)
    then have "c \<noteq> IO_OK" using 1(5) by blast
    then show ?thesis using e 1(2) Failed by (simp add: take_ends io_status_not_ok)
  next
    case (Moved r2 st2)
    then show ?thesis using e 1(2) by (simp add: take_ends)
  next
    case Still
    obtain rc lo why w2 where 2: "take_over io l n r st raw w1 = (rc, lo, why, w2)" by (metis surj_pair)
    note k = take_over_spec [OF 1(2) assms(2,3) 2]
    have "unat (dead_ms l) + unat (settle_ms l) \<le> unat (clk w2 - clk w)"
      if "clk w2 = clk w1 + ucast (a :: u32) + ucast (settle_ms l)" for a
    proof -
      define x where "x = clk w1 - clk w"
      have sum: "clk w2 - clk w = x + ucast a + ucast (settle_ms l)" using that by (simp add: x_def)
      have nat: "unat (x + ucast a + ucast (settle_ms l)) = unat x + unat a + unat (settle_ms l)"
        using 1(4) Still step(2) unat_less_2p [of "dead_ms l"] unat_less_2p [of a] unat_less_2p [of "settle_ms l"]
        by (simp add: unat_word_ariths unat_ucast_64 x_def [symmetric])
      show ?thesis unfolding sum nat using 1(4) Still by (simp add: x_def)
    qed
    then show ?thesis using e 2 k Still by (auto simp: holds_def)
  qed
qed

lemma take_spec:
  assumes "ok w" "p = gs_path_with db ''.lease''"
  shows "\<exists>rc lo why w'. gs_lease_take io me db opt n w = Some (rc, lo, why, w') \<and> ok w' \<and> (rc = GS_OK \<longleftrightarrow> lo \<noteq> None) \<and>
    (\<forall>l. lo = Some l \<longrightarrow> record_in (stored w') = Some (mine l) \<and> confirmed l = clk w' \<and> \<not> fenced l \<and>
      (stored w \<noteq> None \<longrightarrow> \<not> (\<exists>r. record_in (stored w) = Some r \<and> same_boot r (mine l)) \<longrightarrow>
        unat (dead_ms l) + unat (settle_ms l) \<le> unat (clk w' - clk w)))"
proof -
  obtain rnd w0 where 0: "op_random io 16 w = (rnd, w0)" by fastforce
  note d = draws [OF assms(1) 0]
  define l where "l = new_lease me db opt rnd"
  have l: "path l = p" "\<not> fenced l" "rec_ok (mine l)"
    using assms(2) d identify_ok [where t = rnd]
    by (simp_all add: l_def new_lease_def Let_def)
  obtain c r raw st w1 where 1: "lease_read io p zero_rec L_ABSENT w0 = (c, r, raw, st, w1)" by (metis surj_pair)
  have rd: "ok w1 \<and> stored w1 = stored w \<and> clk w1 = clk w" "c = IO_OK \<Longrightarrow> st = state_in (stored w)"
    "c = IO_OK \<Longrightarrow> r = (case record_in (stored w) of None \<Rightarrow> zero_rec | Some x \<Rightarrow> x)"
    using read_spec [OF _ 1] d by auto
  note e = gs_lease_take_def [of io me db opt n w, unfolded 0 Let_def prod.case l_def [symmetric] l(1) 1]
  have sb: "same_boot r (mine l') = same_boot r (mine l)" if "\<exists>c. mine l' = (mine l)\<lparr>counter := c\<rparr>" for r l'
    using that by (auto simp: same_boot_def)
  show ?thesis
  proof (cases "c = IO_OK")
    case False
    then show ?thesis using e rd by (simp add: take_ends io_status_not_ok)
  next
    case read: True
    show ?thesis
    proof (cases "stored w = None")
      case None: True
      then have st: "st = L_ABSENT" using rd(2) read by (simp add: state_in_def)
      define w2 where "w2 = (if race_ms l \<noteq> 0 then nap io (ucast (race_ms l)) w1 else w1)"
      have w2: "ok w2" using rd sleeps by (auto simp: w2_def nap_def)
      obtain c3 w3 where 3: "lease_write io l True w2 = (c3, w3)" by fastforce
      note wr = write_spec [OF w2 l(1,3) 3]
      obtain c4 r4 raw4 st4 w4 where 4: "lease_read io p r st w3 = (c4, r4, raw4, st4, w4)" by (metis surj_pair)
      have ok4: "ok w4" using read_spec(1) [OF wr(1) 4] by simp
      have t: "gs_lease_take io me db opt n w = (if c3 = IO_OK then Some (taken io l w3)
          else if c3 \<noteq> EEXIST then Some (take_failed io l c3 w3)
          else if c4 \<noteq> IO_OK then Some (take_failed io l c4 w4) else take_from io l n r4 st4 raw4 w4)"
        using e read st 3 4 by (simp add: w2_def [symmetric])
      consider "c3 = IO_OK" | "c3 \<noteq> IO_OK \<and> (c3 \<noteq> EEXIST \<or> c4 \<noteq> IO_OK)" | "c3 = EEXIST \<and> c4 = IO_OK" by auto
      then show ?thesis
      proof cases
        case 1
        then show ?thesis using t wr None l by (auto simp: taken_def now)
      next
        case 2
        then show ?thesis using t wr ok4 by (auto simp: take_ends io_status_not_ok)
      next
        case 3
        then have "gs_lease_take io me db opt n w = take_from io l n r4 st4 raw4 w4" using t by auto
        then show ?thesis using take_from_spec [OF ok4 l(1,3), of n r4 st4 raw4] None l(2) by (auto simp: holds_def)
      qed
    next
      case present: False
      then have "st \<noteq> L_ABSENT" using rd(2) read by (simp add: state_in_def)
      then have t: "gs_lease_take io me db opt n w = take_from io l n r st raw w1" using e read by simp
      have "\<not> (st = L_READ \<and> same_boot r (mine l'))" if "\<not> (\<exists>r. record_in (stored w) = Some r \<and> same_boot r (mine l'))" for l'
        using that rd(2,3) read by (auto simp: state_in_def split: if_splits option.splits)
      then show ?thesis using take_from_spec [of w1 l n r st raw] rd(1) l sb unfolding t by (fastforce simp: holds_def)
    qed
  qed
qed

text \<open>A renewal and the file.\<close>

lemma renew_foreign:
  assumes "ok w" "path l = p" "record_in (stored w) = Some x" "\<not> ours l x" "renew io l w = (rc, l', w')"
  shows "ok w'" "stored w' = stored w" "rc \<noteq> GS_OK" "l' = l \<or> l' = fence l x \<and> rc = GS_FENCED"
proof -
  have "ok w' \<and> stored w' = stored w \<and> rc \<noteq> GS_OK \<and> (l' = l \<or> l' = fence l x \<and> rc = GS_FENCED)"
  proof (cases "fenced l")
    case True
    then show ?thesis using assms by (simp add: renew_def)
  next
    case False
    obtain c r raw st w1 where 1: "lease_read io p zero_rec L_ABSENT w = (c, r, raw, st, w1)" by (metis surj_pair)
    note rd = read_spec [OF assms(1) 1]
    have "stored w \<noteq> None" using assms(3) by (cases "stored w") (auto simp: record_in_def text_kept_def LEASE_SIZE_def)
    then have "c = IO_OK \<Longrightarrow> st = L_READ \<and> r = x" using rd(2-4) assms(3) by (simp add: state_in_def)
    then show ?thesis using assms(2,4,5) False rd(1) 1
      by (cases "c = IO_OK") (auto simp: renew_def now io_status_not_ok)
  qed
  then show "ok w'" "stored w' = stored w" "rc \<noteq> GS_OK" "l' = l \<or> l' = fence l x \<and> rc = GS_FENCED" by simp_all
qed

lemma close_foreign:
  assumes "ok w" "path l = p" "record_in (stored w) = Some x" "\<not> ours l x"
  shows "stored (gs_lease_close io l clean w) = stored w"
proof -
  obtain c r raw st w1 where 1: "lease_read io p zero_rec L_ABSENT w = (c, r, raw, st, w1)" by (metis surj_pair)
  note rd = read_spec [OF assms(1) 1]
  have "c = IO_OK \<Longrightarrow> r = x" using rd(4) assms(3) by simp
  then show ?thesis using assms(2,4) rd(1) 1 by (auto simp: gs_lease_close_def)
qed

end

end
