(* ===== verification/Lease_Sim.thy ===== *)
theory Lease_Sim
  imports Lease_Props
begin

text \<open>
  The lease on the simulated layer of \<^verbatim>\<open>src/gsql/io_sim.c\<close>: that layer keeps the lease file as the
  locale \<open>lease_layer\<close> asks, and so the properties of the lease hold on it, at any fault, any crash
  point and any contents of the disk.
\<close>

section \<open>The layer\<close>

text \<open>The names of the disk: each once, and of an inode that exists.\<close>

definition names_good :: "sim \<Rightarrow> bool" where
  "names_good s \<longleftrightarrow> distinct (map fst (view_names s)) \<and>
     (\<forall>p i. map_of (view_names s) p = Some (Some i) \<longrightarrow> i < length (inodes s))"

definition open_on :: "string \<Rightarrow> sim \<Rightarrow> sim_file \<Rightarrow> bool" where
  "open_on p s f \<longleftrightarrow> map_of (view_names s) p = Some (Some (file_inode f))"

lemmas no_maps = map_of_eq_None_iff map_of_eq_Some_iff not_None_eq not_Some_eq

lemma good_kept:
  assumes "map view (inodes s') = map view (inodes s)" "view_names s' = view_names s"
  shows "names_good s' = names_good s" "open_on p s' f = open_on p s f"
    "names_good s \<Longrightarrow> gsql_io_sim_contents s' q = gsql_io_sim_contents s q"
proof -
  have l: "length (inodes s') = length (inodes s)" using assms(1) by (metis length_map)
  then show "names_good s' = names_good s" "open_on p s' f = open_on p s f"
    using assms(2) by (simp_all add: names_good_def open_on_def)
  assume g: "names_good s"
  have "view (inodes s' ! i) = view (inodes s ! i)" if "i < length (inodes s)" for i
    using that assms(1) l by (metis nth_map)
  then show "gsql_io_sim_contents s' q = gsql_io_sim_contents s q"
    using g unfolding contents_map assms(2) by (auto simp: names_good_def split: option.splits)
qed

text \<open>The calls that show no change: the views and the names stay, and the clock.\<close>

definition quiet :: "sim \<Rightarrow> sim \<Rightarrow> bool" where
  "quiet s s' \<longleftrightarrow> map view (inodes s') = map view (inodes s) \<and> view_names s' = view_names s \<and> clock_ms s' = clock_ms s"

lemma quiet_refl: "quiet s s"
  by (simp add: quiet_def)

lemma quiet_trans: "quiet s s' \<Longrightarrow> quiet s' s'' \<Longrightarrow> quiet s s''"
  by (simp add: quiet_def)

lemma tick_quiet: "tick k s = (rc, s') \<Longrightarrow> quiet s s'"
  by (auto simp: tick_def quiet_def Let_def split: if_splits)

lemma fault_quiet: "fault_fires s f = (b, s') \<Longrightarrow> quiet s s'"
  by (auto simp: fault_fires_def quiet_def Let_def split: if_splits)

lemma set_inode_quiet: "quiet s t \<Longrightarrow> view x = view (inodes t ! i) \<Longrightarrow> quiet s (set_inode t i x)"
  by (simp add: quiet_def set_inode_def map_field_update)

lemma read_quiet: "sim_read_at f off n s = (rc, b, s') \<Longrightarrow> quiet s s'"
  by (auto simp: sim_read_at_def Let_def split: prod.splits if_splits intro: quiet_trans dest!: tick_quiet fault_quiet)

lemma size_quiet: "sim_size f s = (rc, n, s') \<Longrightarrow> quiet s s'"
  by (auto simp: sim_size_def split: prod.splits if_splits dest!: tick_quiet)

lemma close_quiet: "sim_close f s = (rc, s') \<Longrightarrow> quiet s s'"
  by (auto simp: sim_close_def Let_def split: prod.splits if_splits intro!: set_inode_quiet dest!: tick_quiet)

lemma lock_quiet: "sim_lock f nb s = (rc, s') \<Longrightarrow> quiet s s'"
  by (auto simp: sim_lock_def Let_def split: prod.splits if_splits intro!: set_inode_quiet dest!: tick_quiet)

lemma sync_dir_quiet: "sim_sync_dir d s = (rc, s') \<Longrightarrow> quiet s s'"
  by (auto simp: sim_sync_dir_def quiet_def split: prod.splits if_splits dest!: tick_quiet)

lemma sync_quiet: "sim_sync f s = (rc, s') \<Longrightarrow> quiet s s'"
proof -
  assume a: "sim_sync f s = (rc, s')"
  obtain c s1 where 1: "tick K_SYNC s = (c, s1)" by fastforce
  obtain b s2 where 2: "fault_fires s1 FAIL_SYNC = (b, s2)" by fastforce
  obtain ps sd d where 3: "sync_loop b (file_inode f) (pend s2) (seed s2) (durable (inodes s2 ! file_inode f)) = (ps, sd, d)"
    by (metis surj_pair)
  have "quiet s2 (set_inode (s2\<lparr>pend := ps, seed := sd\<rparr>) (file_inode f) ((inodes s2 ! file_inode f)\<lparr>durable := d\<rparr>))"
    by (rule set_inode_quiet) (simp_all add: quiet_def)
  then show "quiet s s'" using a 1 2 3 tick_quiet [OF 1] fault_quiet [OF 2]
    by (auto simp: sim_sync_def Let_def split: if_splits intro: quiet_trans)
qed

lemma open_quiet: "sim_open p fl s = (rc, f, s') \<Longrightarrow> IO_CREATE \<notin> fl \<Longrightarrow> quiet s s'"
  by (auto simp: sim_open_def new_file_def quiet_def split: prod.splits if_splits option.splits dest!: tick_quiet)

lemma quiet_kept:
  assumes "quiet s s'"
  shows "names_good s \<Longrightarrow> names_good s'" "open_on p s f \<Longrightarrow> open_on p s' f" "clock_ms s' = clock_ms s"
    "names_good s \<Longrightarrow> gsql_io_sim_contents s' q = gsql_io_sim_contents s q"
  using assms good_kept [of s' s] unfolding quiet_def by blast+

lemma draw_length: "random_bytes n r = (bs, r') \<Longrightarrow> length bs = n"
proof (induction n r arbitrary: bs r' rule: random_bytes.induct)
  case (1 n r)
  then show ?case
    by (cases "n = 0") (auto simp: random_bytes.simps [of n] random_bytes.simps [of 0] min_def split: prod.splits)
qed

lemma create_kept:
  assumes "names_good s" "sim_open p (if excl then {IO_CREATE, IO_EXCLUSIVE} else {IO_CREATE}) s = (rc, f, s')"
  shows "names_good s' \<and> clock_ms s' = clock_ms s \<and> (rc = IO_OK \<longrightarrow> open_on p s' (the f) \<and>
    (excl \<longrightarrow> gsql_io_sim_contents s p = None) \<and> gsql_io_sim_contents s' p = Some (text_kept (gsql_io_sim_contents s p)))"
proof -
  obtain c s1 where 1: "tick K_OPEN s = (c, s1)" by fastforce
  note t = tick_quiet [OF 1]
  note k = quiet_kept [OF t]
  show ?thesis
  proof (cases "c = IO_OK")
    case False
    then show ?thesis using assms 1 k by (simp add: sim_open_def)
  next
    case c: True
    show ?thesis
    proof (cases "names_find (view_names s1) p")
      case None
      then have m: "map_of (view_names s1) p = None" using names_find_map(1) by blast
      let ?s = "s1\<lparr>inodes := inodes s1 @ [\<lparr>durable = [], view = [], lock_holder = None\<rparr>],
        pend := pend s1 @ [P_CREATE (Some (length (inodes s1))) p],
        view_names := names_set (view_names s1) p (Some (length (inodes s1))), files := files s1 + 1\<rparr>"
      have e: "rc = IO_OK" "file_inode (the f) = length (inodes s1)" "s' = ?s"
        using assms(2) None 1 c by (auto simp: sim_open_def new_file_def Let_def split: if_splits)
      have g: "names_good s1" using k assms(1) by simp
      then have "names_good s'" unfolding e(3)
        by (auto simp: names_good_def names_set_keys less_Suc_eq simp del: map_of_eq_Some_iff split: if_splits)
      moreover have "open_on p s' (the f)" "gsql_io_sim_contents s' p = Some []" "gsql_io_sim_contents s1 p = None"
        using m by (simp_all add: e open_on_def contents_map del: map_of_eq_None_iff)
      moreover have "clock_ms s' = clock_ms s" using t by (simp add: e(3) quiet_def)
      ultimately show ?thesis using k(4) [OF assms(1)] by (simp add: text_kept_def)
    next
      case (Some i)
      show ?thesis
      proof (cases "snd (view_names s1 ! i)")
        case None
        then show ?thesis using assms 1 c k Some by (simp add: sim_open_def)
      next
        case ino: (Some ino)
        have m: "map_of (view_names s1) p = Some (Some ino)" by (rule named_file [OF Some ino])
        show ?thesis
        proof (cases excl)
          case True
          then show ?thesis using assms 1 c k Some ino by (simp add: sim_open_def)
        next
          case False
          have e: "rc = IO_OK" "file_inode (the f) = ino" "s' = s1\<lparr>files := files s1 + 1\<rparr>"
            using assms(2) False 1 c Some ino by (auto simp: sim_open_def new_file_def)
          have q: "quiet s s'" using t e(3) by (simp add: quiet_def)
          have "open_on p s' (the f)" "gsql_io_sim_contents s1 p \<noteq> None"
            using m by (simp_all add: e open_on_def contents_map del: map_of_eq_Some_iff)
          then show ?thesis using quiet_kept [OF q] k(4) [OF assms(1)] assms(1) False by (auto simp: text_kept_def)
        qed
      qed
    qed
  qed
qed

lemma write_kept:
  assumes "names_good s" "open_on p s f" "sim_write_at f off b s = (rc, s')"
  shows "names_good s' \<and> open_on p s' f \<and> clock_ms s' = clock_ms s \<and>
    (rc = IO_OK \<longrightarrow> gsql_io_sim_contents s' p = Some (buf_write (text_kept (gsql_io_sim_contents s p)) off b))"
proof -
  obtain c s1 where 1: "tick K_WRITE s = (c, s1)" by fastforce
  obtain e s2 where 2: "fault_fires s1 FAIL_WRITE = (e, s2)" by fastforce
  have q: "quiet s s1" "quiet s s2" using tick_quiet [OF 1] fault_quiet [OF 2] quiet_trans by blast+
  let ?i = "file_inode f"
  let ?s = "set_inode (s2\<lparr>pend := pend s2 @ [P_WRITE ?i off b]\<rparr>) ?i
    ((inodes s2 ! ?i)\<lparr>view := buf_write (view (inodes s2 ! ?i)) off b\<rparr>)"
  have g: "names_good s2" "open_on p s2 f" using quiet_kept [OF q(2)] assms by simp_all
  then have i: "map_of (view_names s2) p = Some (Some ?i)" "?i < length (inodes s2)" by (simp_all add: open_on_def names_good_def)
  have old: "gsql_io_sim_contents s p = Some (view (inodes s2 ! ?i))"
    unfolding quiet_kept(4) [OF q(2) assms(1), symmetric] using i by (simp add: contents_map)
  show ?thesis
  proof (cases "c = IO_OK \<and> \<not> read_only f \<and> \<not> e \<and> b \<noteq> []")
    case True
    then have t: "rc = IO_OK" "s' = ?s" using assms(3) 1 2 by (auto simp: sim_write_at_def Let_def)
    have "names_good s'" "open_on p s' f" "clock_ms s' = clock_ms s" "gsql_io_sim_contents s' p = Some (view (inodes s' ! ?i))"
      using g i q(2) unfolding t contents_map
      by (auto simp: names_good_def open_on_def set_inode_def quiet_def)
    then show ?thesis using i by (simp add: t set_inode_def text_kept_def old)
  next
    case False
    then have "s' = s1 \<or> s' = s2" "rc = IO_OK \<longrightarrow> b = []" using assms(3) 1 2 by (auto simp: sim_write_at_def split: if_splits)
    then have "quiet s s'" "rc = IO_OK \<longrightarrow> b = []" using q by blast+
    then show ?thesis using quiet_kept assms(1,2) old by (auto simp: text_kept_def buf_write_def)
  qed
qed

lemma remove_kept:
  assumes "names_good s" "sim_remove p s = (rc, s')"
  shows "names_good s' \<and> clock_ms s' = clock_ms s \<and>
    gsql_io_sim_contents s' p = (if rc = IO_OK then None else gsql_io_sim_contents s p)"
proof -
  obtain c s1 where 1: "tick K_REMOVE s = (c, s1)" by fastforce
  have g: "names_good s1" using quiet_kept [OF tick_quiet [OF 1]] assms(1) by simp
  show ?thesis
  proof (cases "rc = IO_OK")
    case True
    then have s': "s' = s1\<lparr>pend := pend s1 @ [P_REMOVE p], view_names := names_del (view_names s1) p\<rparr>"
      using assms(2) 1 by (auto simp: sim_remove_def split: if_splits option.splits)
    have d: "distinct (map fst (view_names s1))" using g by (simp add: names_good_def)
    show ?thesis using g True tick_quiet [OF 1] names_del_set(1) [OF d, of p]
      by (auto simp: s' names_good_def contents_map map_of_names_del [OF d] quiet_def simp del: map_of_eq_Some_iff split: if_splits)
  next
    case False
    then have "s' = s1" using assms(2) 1 by (auto simp: sim_remove_def split: if_splits option.splits)
    then show ?thesis using False quiet_kept [OF tick_quiet [OF 1]] assms(1) by simp
  qed
qed

text \<open>The laws of the locale, one by one, and then the layer.\<close>

lemma open_kept:
  assumes "names_good s" "sim_open p {IO_READ_ONLY} s = (rc, f, s')"
  shows "names_good s' \<and> gsql_io_sim_contents s' p = gsql_io_sim_contents s p \<and> clock_ms s' = clock_ms s \<and>
    (rc = ENOENT \<longrightarrow> gsql_io_sim_contents s p = None) \<and> (rc = IO_OK \<longrightarrow> gsql_io_sim_contents s p \<noteq> None \<and> open_on p s' (the f))"
proof -
  have q: "quiet s s'" by (rule open_quiet [OF assms(2)]) simp
  obtain c s1 where 1: "tick K_OPEN s = (c, s1)" by fastforce
  have n: "view_names s1 = view_names s" using tick_quiet [OF 1] by (simp add: quiet_def)
  have "(rc = ENOENT \<longrightarrow> gsql_io_sim_contents s p = None) \<and> (rc = IO_OK \<longrightarrow> gsql_io_sim_contents s p \<noteq> None \<and> open_on p s' (the f))"
    using assms(2) 1 n tick_disk(8) [OF 1]
    by (auto simp: sim_open_def new_file_def gsql_io_sim_contents_def open_on_def split: if_splits option.splits
        dest: named_file simp del: map_of_eq_Some_iff)
  then show ?thesis using quiet_kept [OF q] assms(1) by simp
qed

lemma read_kept:
  assumes "names_good s" "open_on p s f" "sim_read_at f 0 n s = (rc, b, s')"
  shows "rc = IO_OK \<longrightarrow> b = take n (text_kept (gsql_io_sim_contents s p))"
proof -
  obtain c s1 where 1: "tick K_READ s = (c, s1)" by fastforce
  obtain e s2 where 2: "fault_fires s1 FAIL_READ = (e, s2)" by fastforce
  have q: "quiet s s2" using tick_quiet [OF 1] fault_quiet [OF 2] quiet_trans by blast
  then have "open_on p s2 f" using quiet_kept assms by blast
  then have c: "gsql_io_sim_contents s p = Some (view (inodes s2 ! file_inode f))"
    unfolding quiet_kept(4) [OF q assms(1), symmetric] by (simp add: contents_map open_on_def)
  show ?thesis using assms(3) 1 2 by (auto simp: sim_read_at_def c text_kept_def Let_def split: if_splits)
qed

lemma read_law:
  assumes "names_good s" "open_on p s f" "sim_read_at f 0 n s = (rc, b, s')"
  shows "names_good s' \<and> open_on p s' f \<and> gsql_io_sim_contents s' p = gsql_io_sim_contents s p \<and>
    clock_ms s' = clock_ms s \<and> (rc = IO_OK \<longrightarrow> b = take n (text_kept (gsql_io_sim_contents s p)))"
  using quiet_kept [OF read_quiet [OF assms(3)]] read_kept [OF assms] assms(1,2) by simp

lemma sync_law:
  assumes "names_good s" "open_on p s f" "sim_sync f s = (rc, s')"
  shows "names_good s' \<and> open_on p s' f \<and> gsql_io_sim_contents s' p = gsql_io_sim_contents s p \<and> clock_ms s' = clock_ms s"
  using quiet_kept [OF sync_quiet [OF assms(3)]] assms(1,2) by simp

lemma close_law:
  assumes "names_good s" "sim_close f s = (rc, s')"
  shows "names_good s' \<and> gsql_io_sim_contents s' p = gsql_io_sim_contents s p \<and> clock_ms s' = clock_ms s"
  using quiet_kept [OF close_quiet [OF assms(2)]] assms(1) by simp

lemma dir_law:
  assumes "names_good s" "sim_sync_dir d s = (rc, s')"
  shows "names_good s' \<and> gsql_io_sim_contents s' p = gsql_io_sim_contents s p \<and> clock_ms s' = clock_ms s"
  using quiet_kept [OF sync_dir_quiet [OF assms(2)]] assms(1) by simp

lemma sleep_law:
  "names_good s \<Longrightarrow> names_good (sim_sleep_ms ms s) \<and> gsql_io_sim_contents (sim_sleep_ms ms s) p = gsql_io_sim_contents s p \<and>
     clock_ms (sim_sleep_ms ms s) = clock_ms s + ms"
  by (simp add: sim_sleep_ms_def names_good_def contents_map split: option.splits)

lemma draw_law:
  assumes "names_good s" "sim_random n s = (bs, s')"
  shows "names_good s' \<and> gsql_io_sim_contents s' p = gsql_io_sim_contents s p \<and> clock_ms s' = clock_ms s \<and> length bs = n"
  using assms draw_length by (auto simp: sim_random_def names_good_def contents_map split: prod.splits option.splits)

interpretation lease_sim: lease_layer sim_ops p names_good "\<lambda>s. gsql_io_sim_contents s p" "open_on p" clock_ms for p
  by (unfold_locales, unfold sim_ops_def io_ops.simps sim_now_ms_def)
    (rule open_kept create_kept read_law write_kept sync_law close_law dir_law remove_kept refl sleep_law draw_law; assumption?)+

end
