(* ===== verification/Lease_Take.thy ===== *)
theory Lease_Take
  imports Lease_Sim
begin

text \<open>
  The claims about the lease on the simulated layer. A layer that fails nothing (a locale that extends
  \<open>lease_layer\<close>) lets an unrivalled machine take the lease; once another machine took it, the old
  owner's calls change nothing.
\<close>

section \<open>A layer that fails nothing\<close>

locale lease_layer_up = lease_layer io p ok stored handle clk
  for io :: "('w, 'f, 'c) io_ops" and p ok stored handle clk +
  fixes up :: "'w \<Rightarrow> bool" and writable :: "'f \<Rightarrow> bool"
  assumes up_open: "ok w \<Longrightarrow> up w \<Longrightarrow> op_open io p {IO_READ_ONLY} w = (rc, f, w') \<Longrightarrow>
      up w' \<and> rc = (if stored w = None then ENOENT else IO_OK)"
    and up_create: "ok w \<Longrightarrow> up w \<Longrightarrow> excl \<longrightarrow> stored w = None \<Longrightarrow>
      op_open io p (if excl then {IO_CREATE, IO_EXCLUSIVE} else {IO_CREATE}) w = (rc, f, w') \<Longrightarrow> up w' \<and> rc = IO_OK \<and> writable (the f)"
    and up_read: "up w \<Longrightarrow> op_read_at io h 0 n w = (rc, bs, w') \<Longrightarrow> up w' \<and> rc = IO_OK"
    and up_write: "up w \<Longrightarrow> writable h \<Longrightarrow> op_write_at io h 0 b w = (rc, w') \<Longrightarrow> up w' \<and> rc = IO_OK"
    and up_sync: "up w \<Longrightarrow> op_sync io h w = (rc, w') \<Longrightarrow> up w' \<and> rc = IO_OK"
    and up_close: "up w \<Longrightarrow> op_close io h w = (rc, w') \<Longrightarrow> up w' \<and> rc = IO_OK"
    and up_dir: "up w \<Longrightarrow> op_sync_dir io d w = (rc, w') \<Longrightarrow> up w' \<and> rc = IO_OK"
    and up_sleep: "up w \<Longrightarrow> up (op_sleep_ms io ms w)"
    and up_draw: "up w \<Longrightarrow> op_random io n w = (bs, w') \<Longrightarrow> up w'"
begin

lemma read_up:
  assumes "ok w" "up w" "lease_read io p r st w = (rc, r', raw, st', w')"
  shows "rc = IO_OK" "up w'"
proof -
  obtain c f w1 where 1: "op_open io p {IO_READ_ONLY} w = (c, f, w1)" by (metis surj_pair)
  note o = up_open [OF assms(1,2) 1]
  obtain c2 bs w2 where 2: "op_read_at io (the f) 0 LEASE_SIZE w1 = (c2, bs, w2)" by (metis surj_pair)
  obtain c3 w3 where 3: "op_close io (the f) w2 = (c3, w3)" by fastforce
  have u: "up w1" "c2 = IO_OK" "up w3" using o up_read [OF _ 2] up_close [OF _ 3] by blast+
  have "rc = IO_OK \<and> up w'"
    using assms(3) o u 1 2 3 by (auto simp: lease_read_def Let_def split: if_splits option.splits)
  then show "rc = IO_OK" "up w'" by simp_all
qed

lemma write_up:
  assumes "ok w" "up w" "path l = p" "create \<longrightarrow> stored w = None" "lease_write io l create w = (rc, w')"
  shows "rc = IO_OK" "up w'"
proof -
  obtain c f w1 where 1: "op_open io p (if create then {IO_CREATE, IO_EXCLUSIVE} else {IO_CREATE}) w = (c, f, w1)" by (metis surj_pair)
  note o = up_create [OF assms(1,2,4) 1]
  obtain c2 w2 where 2: "op_write_at io (the f) 0 (lease_encode (mine l)) w1 = (c2, w2)" by fastforce
  obtain c3 w3 where 3: "op_sync io (the f) w2 = (c3, w3)" by fastforce
  obtain c4 w4 where 4: "op_close io (the f) w3 = (c4, w4)" by fastforce
  have u: "c2 = IO_OK" "c3 = IO_OK" "c4 = IO_OK" "up w4"
    using o up_write [OF _ _ 2] up_sync [OF _ 3] up_close [OF _ 4] by blast+
  have "lease_write io l create w = (if create then op_sync_dir io (gs_dirname (path l)) w4 else (IO_OK, w4))"
    using 1 2 3 4 o u by (simp add: lease_write_def assms(3) Let_def)
  then show "rc = IO_OK" "up w'" using assms(5) u up_dir [of w4 "gs_dirname (path l)" rc w'] by (auto split: if_splits)
qed

lemma look_up:
  assumes "ok w" "up w" "stored w \<noteq> None" "raw = sector_of (stored w)" "look_again io p r st raw w = (res, w')"
  shows "res = Still" "up w'"
proof -
  obtain rc r2 again st2 w2 where 1: "lease_read io p zero_rec L_ABSENT w = (rc, r2, again, st2, w2)" by (metis surj_pair)
  note u = read_up [OF assms(1,2) 1]
  have "res = Still \<and> w' = w2"
    using assms(3-5) 1 u(1) read_spec(2,3) [OF assms(1) 1] by (auto simp: look_again_def state_in_def split: if_splits)
  then show "res = Still" "up w'" using u(2) by simp_all
qed

lemma watch_up:
  assumes "path l = p" "0 < unat step" "unat step < 2 ^ 32" "ok w" "unat (clk w - start) < unat (dead_ms l) + unat step"
    "up w" "stored w \<noteq> None" "raw = sector_of (stored w)"
  shows "\<exists>w'. watch_loop io l start step r st raw w = Some (Still, w') \<and> up w'"
  using assms(4-8)
proof (induction "unat (dead_ms l) - unat (clk w - start)" arbitrary: w rule: less_induct)
  case less
  have dl: "unat (dead_ms l) < 2 ^ 32" using unat_less_2p [of "dead_ms l"] by simp
  have ud: "unat (ucast (dead_ms l) :: u64) = unat (dead_ms l)" by (rule unat_ucast_64)
  show ?case
  proof (cases "clk w - start < ucast (dead_ms l)")
    case False
    then show ?thesis using less.prems by (subst watch_loop.simps) (simp add: now)
  next
    case True
    then have lt: "unat (clk w - start) < unat (dead_ms l)" by (simp add: word_less_nat_alt ud)
    let ?w1 = "op_sleep_ms io step w"
    obtain res w2 where 2: "look_again io p r st raw ?w1 = (res, w2)" by fastforce
    have s: "ok ?w1" "stored ?w1 = stored w" "clk ?w1 = clk w + step" "up ?w1"
      using sleeps [OF less.prems(1)] up_sleep [OF less.prems(3)] by simp_all
    have k: "res = Still" "up w2" using look_up [OF s(1,4) _ _ 2] s(2) less.prems by simp_all
    note k2 = look_spec(1) [OF s(1) 2]
    have e: "watch_loop io l start step r st raw w = watch_loop io l start step r st raw w2"
      using True assms(1) 2 k(1) by (subst watch_loop.simps) (simp add: now nap_def Let_def)
    define x where "x = clk w - start"
    have x: "clk w2 - start = x + step" using k2 s(3) by (simp add: x_def)
    have "unat (x + step) = unat x + unat step"
      using lt dl assms(3) unfolding x_def [symmetric] by (simp add: unat_word_ariths)
    then have u: "unat (clk w2 - start) = unat (clk w - start) + unat step" by (simp only: x x_def [symmetric])
    have "unat (dead_ms l) - unat (clk w2 - start) < unat (dead_ms l) - unat (clk w - start)" using u lt assms(2) by simp
    from less.hyps [OF this] show ?thesis using k k2 s u lt less.prems e by auto
  qed
qed

lemma take_over_up:
  assumes "ok w" "path l = p" "rec_ok (mine l)" "up w" "stored w \<noteq> None" "raw = sector_of (stored w)"
  shows "\<exists>l' w'. take_over io l n r st raw w = (GS_OK, Some l', [], w') \<and> up w'"
proof -
  obtain res w1 where 1: "look_again io p r st raw w = (res, w1)" by fastforce
  note k = look_up [OF assms(1,4-6) 1] look_spec(1) [OF assms(1) 1]
  define l1 where "l1 = (if st = L_READ then l\<lparr>mine := (mine l)\<lparr>counter := counter r + 1\<rparr>\<rparr> else l)"
  have l1: "path l1 = p" "rec_ok (mine l1)" using assms(2,3) by (auto simp: l1_def rec_ok_def)
  define w2 where "w2 = (if race_ms l1 \<noteq> 0 then nap io (ucast (race_ms l1)) w1 else w1)"
  have w2: "ok w2" "up w2" using k sleeps up_sleep by (auto simp: w2_def nap_def)
  obtain c w3 where 3: "lease_write io l1 False w2 = (c, w3)" by fastforce
  note wr = write_spec [OF w2(1) l1 3] write_up [OF w2 l1(1) _ 3]
  define w4 where "w4 = nap io (ucast (settle_ms l1)) w3"
  have w4: "ok w4" "stored w4 = stored w3" "up w4" using sleeps [OF wr(1)] up_sleep wr by (simp_all add: w4_def nap_def)
  obtain c5 r5 raw5 st5 w5 where 5: "lease_read io p zero_rec L_ABSENT w4 = (c5, r5, raw5, st5, w5)" by (metis surj_pair)
  note rd = read_spec [OF w4(1) 5] and ru = read_up [OF w4(1,3) 5]
  have ri: "record_in (stored w4) = Some (mine l1)" using wr w4 by simp
  then have "stored w4 \<noteq> None" by (cases "stored w4") (auto simp: record_in_def text_kept_def LEASE_SIZE_def)
  then have "st5 = L_READ" "r5 = mine l1" using ri rd(3,4) ru(1) by (simp_all add: state_in_def)
  then have "take_over io l n r st raw w = taken io l1 w5"
    using 1 3 5 k(1) wr(5) ru(1)
    by (simp add: take_over_def assms(2) l1(1) Let_def l1_def [symmetric] w2_def [symmetric] w4_def [symmetric] ours_def)
  then show ?thesis using ru(2) by (simp add: taken_def now)
qed

lemma take_from_up:
  assumes "ok w" "path l = p" "rec_ok (mine l)" "up w" "stored w \<noteq> None" "raw = sector_of (stored w)"
  shows "\<exists>l' w'. take_from io l n r st raw w = Some (GS_OK, Some l', [], w') \<and> up w'"
proof (cases "st = L_READ \<and> same_boot r (mine l)")
  case True
  define l1 where "l1 = l\<lparr>mine := (mine l)\<lparr>counter := counter r + 1\<rparr>\<rparr>"
  have l1: "path l1 = p" using assms(2) by (simp add: l1_def)
  obtain c w1 where 1: "lease_write io l1 False w = (c, w1)" by fastforce
  note wr = write_up [OF assms(1,4) l1 _ 1]
  show ?thesis using True 1 wr by (simp add: take_from_def l1_def taken_def now)
next
  case False
  define step where "step = (if renew_ms l div 4 \<noteq> 0 then ucast (renew_ms l div 4) else 1 :: u64)"
  have step: "0 < unat step" "unat step < 2 ^ 32"
    using step_bounds by (simp_all add: step_def)
  have st0: "unat (clk w - clk w) < unat (dead_ms l) + unat step" using step(1) by simp
  obtain w1 where 1: "watch_loop io l (clk w) step r st raw w = Some (Still, w1)" "up w1"
    using watch_up [OF assms(2) step assms(1) st0 assms(4-6)] by blast
  obtain res w1' where 2: "watch_loop io l (clk w) step r st raw w = Some (res, w1')" "ok w1'" "stored w1' = stored w"
    using watch_spec [OF assms(2) step assms(1) st0] by metis
  have w1: "ok w1" "stored w1 = stored w" using 1 2 by simp_all
  have "take_from io l n r st raw w = Some (take_over io l n r st raw w1)"
    unfolding take_from_def if_not_P [OF False] now Let_def prod.case step_def [symmetric] by (simp add: 1(1))
  then show ?thesis using take_over_up [OF w1(1) assms(2,3) 1(2)] w1(2) assms(5,6) by auto
qed

lemma take_up:
  assumes "ok w" "p = gs_path_with db ''.lease''" "up w"
  shows "\<exists>l w'. gs_lease_take io me db opt n w = Some (GS_OK, Some l, [], w') \<and> up w'"
proof -
  obtain rnd w0 where 0: "op_random io 16 w = (rnd, w0)" by fastforce
  note d = draws [OF assms(1) 0] and du = up_draw [OF assms(3) 0]
  define l where "l = new_lease me db opt rnd"
  have l: "path l = p" "rec_ok (mine l)"
    using assms(2) d identify_ok [where t = rnd] by (simp_all add: l_def new_lease_def Let_def)
  obtain c r raw st w1 where 1: "lease_read io p zero_rec L_ABSENT w0 = (c, r, raw, st, w1)" by (metis surj_pair)
  have o0: "ok w0" using d by simp
  note rd = read_spec [OF o0 1] and ru = read_up [OF o0 du 1]
  note e = gs_lease_take_def [of io me db opt n w, unfolded 0 Let_def prod.case l_def [symmetric] l(1) 1]
  show ?thesis
  proof (cases "stored w0 = None")
    case None: True
    then have st: "st = L_ABSENT" using rd(3) ru(1) by (simp add: state_in_def)
    define w2 where "w2 = (if race_ms l \<noteq> 0 then nap io (ucast (race_ms l)) w1 else w1)"
    have w2: "ok w2" "up w2" "stored w2 = None" using rd ru sleeps up_sleep None by (auto simp: w2_def nap_def)
    obtain c3 w3 where 3: "lease_write io l True w2 = (c3, w3)" by fastforce
    note wr = write_up [OF w2(1,2) l(1) _ 3]
    then show ?thesis using e ru(1) st 3 w2 by (simp add: w2_def [symmetric] taken_def now)
  next
    case False
    then have "st \<noteq> L_ABSENT" using rd(3) ru(1) by (simp add: state_in_def)
    then have "gs_lease_take io me db opt n w = take_from io l n r st raw w1" using e ru(1) by simp
    then show ?thesis using take_from_up [of w1 l raw n r st] rd(1,2) ru l False by simp
  qed
qed

end

section \<open>The simulated layer without faults\<close>

definition sound_disk :: "string \<Rightarrow> sim \<Rightarrow> bool" where
  "sound_disk p s \<longleftrightarrow> \<not> crashed s \<and> crash_at s = 0 \<and> (\<forall>f. fail_in s f = 0) \<and> map_of (view_names s) p \<noteq> Some None"

lemma tick_sound: "tick k s = (rc, s') \<Longrightarrow> sound_disk p s \<Longrightarrow> sound_disk p s' \<and> rc = IO_OK"
  by (auto simp: tick_def sound_disk_def Let_def)

lemma fault_sound: "fault_fires s f = (b, s') \<Longrightarrow> sound_disk p s \<Longrightarrow> sound_disk p s' \<and> \<not> b"
  by (auto simp: fault_fires_def sound_disk_def)

lemma sound_set_inode [simp]: "sound_disk p (set_inode s i x) = sound_disk p s"
  by (simp add: sound_disk_def set_inode_def)

lemma sound_pend [simp]: "sound_disk p (s\<lparr>pend := ps\<rparr>) = sound_disk p s" "sound_disk p (s\<lparr>seed := sd\<rparr>) = sound_disk p s"
  "sound_disk p (s\<lparr>files := n\<rparr>) = sound_disk p s" "sound_disk p (s\<lparr>durable_names := ns\<rparr>) = sound_disk p s"
  "sound_disk p (s\<lparr>rng := x\<rparr>) = sound_disk p s" "sound_disk p (s\<lparr>inodes := xs\<rparr>) = sound_disk p s"
  "sound_disk p (s\<lparr>clock_ms := t\<rparr>) = sound_disk p s"
  by (simp_all add: sound_disk_def)

lemma open_sound:
  assumes "names_good s" "sound_disk p s" "sim_open p {IO_READ_ONLY} s = (rc, f, s')"
  shows "sound_disk p s' \<and> rc = (if gsql_io_sim_contents s p = None then ENOENT else IO_OK)"
proof -
  obtain c s1 where 1: "tick K_OPEN s = (c, s1)" by fastforce
  note t = tick_sound [OF 1 assms(2)]
  have n: "gsql_io_sim_contents s1 p = gsql_io_sim_contents s p" using quiet_kept(4) [OF tick_quiet [OF 1]] assms(1) by simp
  show ?thesis
  proof (cases "names_find (view_names s1) p")
    case None
    then show ?thesis using assms(3) 1 t n by (auto simp: sim_open_def gsql_io_sim_contents_def)
  next
    case (Some i)
    have "snd (view_names s1 ! i) \<noteq> None"
      using t names_find_map(2) [OF Some] by (auto simp: sound_disk_def)
    then show ?thesis using assms(3) 1 t n Some by (auto simp: sim_open_def new_file_def gsql_io_sim_contents_def)
  qed
qed

lemma create_sound:
  assumes "names_good s" "sound_disk p s" "excl \<longrightarrow> gsql_io_sim_contents s p = None"
    "sim_open p (if excl then {IO_CREATE, IO_EXCLUSIVE} else {IO_CREATE}) s = (rc, f, s')"
  shows "sound_disk p s' \<and> rc = IO_OK \<and> \<not> read_only (the f)"
proof -
  obtain c s1 where 1: "tick K_OPEN s = (c, s1)" by fastforce
  note t = tick_sound [OF 1 assms(2)]
  have n: "gsql_io_sim_contents s1 p = gsql_io_sim_contents s p" using quiet_kept(4) [OF tick_quiet [OF 1]] assms(1) by simp
  show ?thesis
  proof (cases "names_find (view_names s1) p")
    case None
    then show ?thesis using assms(4) 1 t
      by (auto simp: sim_open_def new_file_def Let_def sound_disk_def simp del: map_of_eq_Some_iff split: if_splits)
  next
    case (Some i)
    have "snd (view_names s1 ! i) \<noteq> None"
      using t names_find_map(2) [OF Some] by (auto simp: sound_disk_def)
    then show ?thesis using assms(3,4) 1 t n Some
      by (cases excl) (auto simp: sim_open_def new_file_def gsql_io_sim_contents_def)
  qed
qed

lemma read_sound: "sound_disk p s \<Longrightarrow> sim_read_at f 0 n s = (rc, b, s') \<Longrightarrow> sound_disk p s' \<and> rc = IO_OK"
  by (auto simp: sim_read_at_def Let_def split: prod.splits if_splits dest!: tick_sound fault_sound)

lemma write_sound:
  "sound_disk p s \<Longrightarrow> \<not> read_only f \<Longrightarrow> sim_write_at f 0 b s = (rc, s') \<Longrightarrow> sound_disk p s' \<and> rc = IO_OK"
  by (auto simp: sim_write_at_def Let_def split: prod.splits if_splits dest!: tick_sound fault_sound)

lemma sync_sound: "sound_disk p s \<Longrightarrow> sim_sync f s = (rc, s') \<Longrightarrow> sound_disk p s' \<and> rc = IO_OK"
  by (auto simp: sim_sync_def Let_def split: prod.splits if_splits dest!: tick_sound fault_sound)

lemma close_sound: "sound_disk p s \<Longrightarrow> sim_close f s = (rc, s') \<Longrightarrow> sound_disk p s' \<and> rc = IO_OK"
  by (auto simp: sim_close_def Let_def split: prod.splits if_splits dest!: tick_sound)

lemma dir_sound: "sound_disk p s \<Longrightarrow> sim_sync_dir d s = (rc, s') \<Longrightarrow> sound_disk p s' \<and> rc = IO_OK"
  by (auto simp: sim_sync_dir_def split: prod.splits if_splits dest!: tick_sound)

lemma sleep_sound: "sound_disk p s \<Longrightarrow> sound_disk p (sim_sleep_ms ms s)"
  by (simp add: sim_sleep_ms_def)

lemma draw_sound: "sound_disk p s \<Longrightarrow> sim_random n s = (bs, s') \<Longrightarrow> sound_disk p s'"
  by (auto simp: sim_random_def split: prod.splits)

interpretation lease_sim_up: lease_layer_up sim_ops p names_good "\<lambda>s. gsql_io_sim_contents s p" "open_on p" clock_ms
    "sound_disk p" "\<lambda>f. \<not> read_only f" for p
  by (unfold_locales, unfold sim_ops_def io_ops.simps)
    (rule open_sound create_sound read_sound write_sound sync_sound close_sound dir_sound sleep_sound draw_sound; assumption?)+

section \<open>What the lease promises\<close>

abbreviation sim_io :: "(sim, sim_file, unit) io_ops" where
  "sim_io \<equiv> sim_ops"

lemma lease_read_quiet: "lease_read sim_io p r st s = (rc, r', raw, st', s') \<Longrightarrow> quiet s s'"
  by (auto simp: lease_read_def sim_ops_def Let_def split: prod.splits if_splits option.splits
      dest!: open_quiet read_quiet close_quiet intro: quiet_trans)

lemma record_present: "record_in b = Some r \<Longrightarrow> b \<noteq> None"
  by (cases b) (auto simp: record_in_def text_kept_def LEASE_SIZE_def)

lemma renew_foreign_quiet:
  assumes "names_good s" "record_in (gsql_io_sim_contents s (path l)) = Some x" "\<not> ours l x" "renew sim_io l s = (rc, l', s')"
  shows "quiet s s'"
proof (cases "fenced l")
  case True
  then show ?thesis using assms(4) by (simp add: renew_def quiet_refl)
next
  case False
  obtain c r raw st s1 where 1: "lease_read sim_io (path l) zero_rec L_ABSENT s = (c, r, raw, st, s1)" by (metis surj_pair)
  note rd = lease_sim.read_spec [OF assms(1) 1]
  have "c = IO_OK \<Longrightarrow> st = L_READ \<and> r = x" using rd(3,4) assms(2) record_present [OF assms(2)] by (simp add: state_in_def)
  then have "s' = s1" using assms(3,4) False 1
    by (cases "c = IO_OK") (auto simp: renew_def lease_sim.now Let_def)
  then show ?thesis using lease_read_quiet [OF 1] by simp
qed

lemmas take_sim = lease_sim.take_spec [where ?'a = unit]

text \<open>An owner that lost its lease: the file names another, and the own confirmation has expired.\<close>

definition ousted :: "lease \<Rightarrow> sim \<Rightarrow> bool" where
  "ousted l s \<longleftrightarrow> names_good s \<and> (\<exists>x. record_in (gsql_io_sim_contents s (path l)) = Some x \<and> \<not> ours l x) \<and>
     (fenced l \<or> ucast (trust_ms l) \<le> clock_ms s - confirmed l)"

lemma ousted_quiet: "ousted l s \<Longrightarrow> quiet s s' \<Longrightarrow> ousted l s'"
  using quiet_kept [of s s'] unfolding ousted_def by simp

lemma ousted_check:
  assumes "ousted l s" "fence_check sim_io l s = (rc, l', s')"
  shows "quiet s s' \<and> rc \<noteq> IO_OK \<and> ousted l' s'"
proof (cases "fenced l")
  case True
  then show ?thesis using assms by (simp add: fence_check_def quiet_refl)
next
  case False
  obtain x where x: "record_in (gsql_io_sim_contents s (path l)) = Some x" "\<not> ours l x" and g: "names_good s"
    using assms(1) by (auto simp: ousted_def)
  obtain c l1 s1 where r: "renew sim_io l s = (c, l1, s1)" by (metis surj_pair)
  note f = lease_sim.renew_foreign [OF g refl x r] and q = renew_foreign_quiet [OF g x r]
  have "\<not> clock_ms s - confirmed l < ucast (trust_ms l)" using assms(1) False by (auto simp: ousted_def not_less)
  then have e: "rc \<noteq> IO_OK" "l' = l1" "s' = s1"
    using assms(2) False r f(3) by (auto simp: fence_check_def lease_sim.now split: if_splits)
  have "ousted l s1" by (rule ousted_quiet [OF assms(1) q])
  then have "ousted l1 s1" using f(4) by (auto simp: ousted_def fence_def ours_def)
  then show ?thesis using q e by simp
qed

lemma reading_quiet: "\<not> changes c \<Longrightarrow> layer_call sim_io c s = (rc, s') \<Longrightarrow> quiet s s'"
  by (cases c) (auto simp: sim_ops_def split: prod.splits
    dest!: open_quiet read_quiet sync_quiet size_quiet close_quiet sync_dir_quiet lock_quiet)

lemma reading_passed: "\<not> changes c \<Longrightarrow> layer_call (fenced_ops io) c (l, w) = (let (rc, w) = layer_call io c w in (rc, l, w))"
  by (cases c) (auto simp: fenced_layer case_prod_beta)

lemma ousted_call:
  assumes "ousted l s" "layer_call (fenced_ops sim_io) c (l, s) = (rc, l', s')"
  shows "quiet s s' \<and> ousted l' s' \<and> (changes c \<longrightarrow> rc \<noteq> IO_OK)"
proof (cases "changes c")
  case True
  obtain rc1 l1 s1 where 1: "fence_check sim_io l s = (rc1, l1, s1)" by (metis surj_pair)
  then show ?thesis using ousted_check [OF assms(1) 1] assms(2) True by (simp add: guarded_call)
next
  case False
  then show ?thesis using assms reading_quiet [OF False] ousted_quiet
    by (auto simp: reading_passed split: prod.splits)
qed

lemma ousted_calls:
  assumes "ousted l s" "layer_calls (fenced_ops sim_io) cs (l, s) = (rcs, l', s')"
  shows "quiet s s' \<and> list_all2 (\<lambda>c rc. changes c \<longrightarrow> rc \<noteq> IO_OK) cs rcs"
  using assms
proof (induction cs arbitrary: l s rcs)
  case Nil
  then show ?case by (simp add: quiet_refl)
next
  case (Cons c cs)
  obtain rc l1 s1 where 1: "layer_call (fenced_ops sim_io) c (l, s) = (rc, l1, s1)" by (metis surj_pair)
  obtain rcs1 where 2: "layer_calls (fenced_ops sim_io) cs (l1, s1) = (rcs1, l', s')" "rcs = rc # rcs1"
    using Cons.prems(2) 1 by (auto split: prod.splits)
  show ?case using ousted_call [OF Cons.prems(1) 1] Cons.IH [OF _ 2(1)] 2(2) quiet_trans by auto
qed

text \<open>C32. The lease file's record is read back as it was written, and a sector with up to four adjacent
  bytes changed (anywhere before the checksum or within it) is not read as a record at all.\<close>

theorem lease_record_read_back:
  assumes "rec_ok r" "lease_encode r = p @ xs @ q" "xs \<noteq> ys" "length ys = length xs" "length xs \<le> 4"
    "length (p @ xs) \<le> LEASE_SIZE - 8 \<or> LEASE_SIZE - 8 \<le> length p"
  shows "lease_decode (p @ xs @ q) = Some r \<and> lease_decode (p @ ys @ q) = None"
proof -
  have d: "lease_decode (p @ xs @ q) = Some r" using decode_encode [OF assms(1)] assms(2) by simp
  have "length (p @ xs @ q) = LEASE_SIZE" using encode_length [OF assms(1)] assms(2) by simp
  then show ?thesis using d decode_damaged [OF d _ assms(3-6)] by simp
qed

definition sample_rec :: lease_rec where
  "sample_rec = zero_rec\<lparr>tok := replicate 16 7, counter := 3\<rparr>"

lemma sample_rec_ok: "rec_ok sample_rec"
  by (simp add: sample_rec_def zero_rec_def rec_ok_def ID_N_def HOST_N_def)

lemma lease_record_read_back_witness:
  "\<exists>b q. lease_encode sample_rec = b # q \<and> lease_decode (b # q) = Some sample_rec \<and> lease_decode ((b + 1) # q) = None"
proof -
  have l: "length (lease_encode sample_rec) = 512" using encode_length [OF sample_rec_ok] by (simp add: LEASE_SIZE_def)
  then obtain b q where e: "lease_encode sample_rec = b # q" by (cases "lease_encode sample_rec") auto
  show ?thesis
    using lease_record_read_back [OF sample_rec_ok, of "[]" "[b]" q "[b + 1]"] e by (auto simp: LEASE_SIZE_def)
qed

definition sample_who :: who where
  "sample_who = \<lparr>w_host = ''alpha'', w_pid = 7, w_machine_id = ''a1'', w_dbus_id = [], w_boot_id = ''b1''\<rparr>"

text \<open>A disk with one file, and the lease file of a database.\<close>

definition disk_with :: "string \<Rightarrow> bytes \<Rightarrow> sim" where
  "disk_with p b = gsql_io_sim\<lparr>inodes := [\<lparr>durable = b, view = b, lock_holder = None\<rparr>], view_names := [(p, Some 0)]\<rparr>"

abbreviation sample_path :: string where
  "sample_path \<equiv> gs_path_with ''t/a'' ''.lease''"

lemma disk_with_facts:
  "names_good (disk_with p b)" "sound_disk q (disk_with p b)" "gsql_io_sim_contents (disk_with p b) p = Some b"
  "clock_ms (disk_with p b) = 0"
  by (simp_all add: disk_with_def names_good_def sound_disk_def gsql_io_sim_def gsql_io_sim_contents_def)

text \<open>C31. A store whose lease is fenced changes nothing more, on any layer: of whatever calls it makes only
  those that change nothing reach the layer below, and every other is answered \<open>IO_FENCED\<close>.\<close>

theorem fenced_store_changes_nothing:
  assumes "fenced l"
  shows "\<exists>rcs. layer_calls (fenced_ops io) cs (l, w) = (rcs, l, snd (layer_calls io (filter (\<lambda>c. \<not> changes c) cs) w)) \<and>
    list_all2 (\<lambda>c rc. changes c \<longrightarrow> rc = IO_FENCED) cs rcs"
proof (induction cs arbitrary: w)
  case (Cons c cs)
  obtain rc w1 where 1: "layer_call io c w = (rc, w1)" by fastforce
  show ?case using Cons.IH [of w] Cons.IH [of w1] 1 by (auto simp: fenced_call [OF assms] split: prod.splits)
qed simp

lemma fenced_store_changes_nothing_witness:
  "\<exists>l. fenced l \<and> fst (layer_calls (fenced_ops sim_io) [S_Write sample_file 0 [1], S_Remove ''t/a''] (l, sample_sim)) = [IO_FENCED, IO_FENCED]"
proof -
  let ?l = "fence (new_lease sample_who ''t/a'' None []) zero_rec"
  have "fenced ?l" by (simp add: fence_def)
  then show ?thesis using fenced_store_changes_nothing [of ?l sim_io "[S_Write sample_file 0 [1], S_Remove ''t/a'']" sample_sim]
    by (auto simp: list_all2_Cons1)
qed

text \<open>C28. Where the layer fails nothing and no other machine intervenes, taking the lease ends and succeeds,
  whatever the lease file holds: the file then names the caller, and the lease is confirmed as of now.\<close>

theorem unrivalled_take_succeeds:
  assumes "names_good s" "sound_disk (gs_path_with db ''.lease'') s"
  shows "\<exists>l s'. gs_lease_take sim_io me db opt n s = Some (GS_OK, Some l, [], s') \<and> confirmed l = sim_now_ms s' \<and>
    \<not> fenced l \<and> record_in (gsql_io_sim_contents s' (gs_path_with db ''.lease'')) = Some (mine l)"
proof -
  obtain l s' where 1: "gs_lease_take sim_io me db opt n s = Some (GS_OK, Some l, [], s')"
    using lease_sim_up.take_up [OF assms(1) refl assms(2)] by blast
  then show ?thesis using take_sim [OF assms(1) refl, of me db opt n] by (auto simp: sim_now_ms_def)
qed

lemma unrivalled_take_succeeds_witness:
  "\<exists>l s'. gs_lease_take sim_io sample_who ''t/a'' None 80 (disk_with sample_path [1, 2, 3]) = Some (GS_OK, Some l, [], s') \<and>
     record_in (gsql_io_sim_contents s' sample_path) = Some (mine l)"
  using unrivalled_take_succeeds [OF disk_with_facts(1,2)] by blast

text \<open>C29. Taking the lease always ends, whether the lease file is there or not, at any fault and any crash
  point; it gives a lease exactly where it reports success, and then the file holds the lease's record and
  the lease is confirmed as of now; and a lease file that was there, without a record of this machine's
  boot, costs its whole silence: at least \<open>dead_ms\<close> and \<open>settle_ms\<close> have passed. (The steps of one taking
  run without another machine's between them.)\<close>

theorem take_waits_out_other_machine:
  assumes "names_good s"
  shows "\<exists>rc lo why s'. gs_lease_take sim_io me db opt n s = Some (rc, lo, why, s') \<and> (rc = GS_OK \<longleftrightarrow> lo \<noteq> None) \<and>
    (\<forall>l. lo = Some l \<longrightarrow>
       record_in (gsql_io_sim_contents s' (gs_path_with db ''.lease'')) = Some (mine l) \<and> confirmed l = sim_now_ms s' \<and>
       (\<forall>b. gsql_io_sim_contents s (gs_path_with db ''.lease'') = Some b \<longrightarrow>
          \<not> (\<exists>r. record_in (Some b) = Some r \<and> same_boot r (mine l)) \<longrightarrow>
          unat (dead_ms l) + unat (settle_ms l) \<le> unat (sim_now_ms s' - sim_now_ms s)))"
  using take_sim [OF assms(1) refl, of me db opt n] by (fastforce simp: sim_now_ms_def)

lemma take_waits_out_other_machine_witness:
  "\<exists>rc lo why s'. gs_lease_take sim_io sample_who ''t/a'' None 80 (disk_with sample_path [1, 2, 3]) = Some (rc, lo, why, s') \<and>
     (rc = GS_OK \<longleftrightarrow> lo \<noteq> None)"
  using take_waits_out_other_machine [OF disk_with_facts(1)] by blast

lemma keep_foreign_quiet:
  assumes "names_good s" "record_in (gsql_io_sim_contents s (path l)) = Some x" "\<not> ours l x"
    "gs_lease_keep sim_io l True s = (rc, due, l', s')"
  shows "quiet s s' \<and> rc \<noteq> GS_OK"
proof (cases "fenced l")
  case True
  then show ?thesis using assms(4) by (auto simp: gs_lease_keep_def lease_sim.now quiet_refl Let_def)
next
  case False
  obtain c l1 s1 where r: "renew sim_io l s = (c, l1, s1)" by (metis surj_pair)
  then show ?thesis
    using assms(4) False renew_foreign_quiet [OF assms(1-3) r] lease_sim.renew_foreign(3) [OF assms(1) refl assms(2,3) r]
    by (simp add: gs_lease_keep_def lease_sim.now Let_def)
qed

lemma close_foreign_quiet:
  assumes "names_good s" "record_in (gsql_io_sim_contents s (path l)) = Some x" "\<not> ours l x"
  shows "quiet s (gs_lease_close sim_io l clean s)"
proof -
  obtain c r raw st s1 where 1: "lease_read sim_io (path l) zero_rec L_ABSENT s = (c, r, raw, st, s1)" by (metis surj_pair)
  have "c = IO_OK \<Longrightarrow> r = x" using lease_sim.read_spec(4) [OF assms(1) 1] assms(2) by simp
  then show ?thesis using assms(3) 1 lease_read_quiet [OF 1] quiet_refl by (auto simp: gs_lease_close_def)
qed

text \<open>C30. Another machine's record is never overwritten or removed by the old owner: a forced renewal
  answers fenced or an error, and it and the release leave every file as it is.\<close>

theorem rival_record_is_kept:
  assumes "names_good s" "record_in (gsql_io_sim_contents s (path l)) = Some x" "tok x \<noteq> tok (mine l)"
    "gs_lease_keep sim_io l True s = (rc, due, l', s')"
  shows "rc \<noteq> GS_OK \<and> gsql_io_sim_contents s' q = gsql_io_sim_contents s q \<and>
    gsql_io_sim_contents (gs_lease_close sim_io l clean s) q = gsql_io_sim_contents s q"
proof -
  have o: "\<not> ours l x" using assms(3) by (simp add: ours_def)
  show ?thesis
    using keep_foreign_quiet [OF assms(1,2) o assms(4)] quiet_kept(4) [OF close_foreign_quiet [OF assms(1,2) o] assms(1)]
      quiet_kept(4) [of s s', OF _ assms(1)] by blast
qed

lemma encoded_record: "rec_ok r \<Longrightarrow> record_in (Some (lease_encode r)) = Some r"
  using encode_length [of r] decode_encode [of r] by (simp add: record_in_def text_kept_def)

lemma rival_record_is_kept_witness:
  "gsql_io_sim_contents (gs_lease_close sim_io (new_lease sample_who ''t/a'' None (replicate 16 1)) True
      (disk_with sample_path (lease_encode sample_rec))) sample_path = Some (lease_encode sample_rec)"
proof -
  let ?l = "new_lease sample_who ''t/a'' None (replicate 16 1)" and ?s = "disk_with sample_path (lease_encode sample_rec)"
  have "path ?l = sample_path" "tok sample_rec \<noteq> tok (mine ?l)" by (simp_all add: new_lease_def sample_rec_def)
  moreover obtain rc due l' s' where "gs_lease_keep sim_io ?l True ?s = (rc, due, l', s')" by (metis surj_pair)
  ultimately show ?thesis
    using rival_record_is_kept [of ?s ?l sample_rec] disk_with_facts(1,3) encoded_record [OF sample_rec_ok] by simp
qed

text \<open>C27. An owner that lost its lease is shut out. Suppose another machine took the lease over a lease file
  that was there and not of its own boot, with a \<open>dead_ms\<close> at least the old owner's \<open>trust_ms\<close>; that the
  old owner last confirmed its lease before that taking began, so it did not renew while it went on (the
  taking runs as one sequence of steps, on one clock that does not wrap); and that the two have drawn
  different tokens. Then whatever the old owner calls after the taking, in any number and at any fault,
  changes no file, and no call that would is answered as done. (A write that passed the old owner's check
  before the taking and reaches the disk only after it is outside the model, as no layer of calls sees it:
  it is the residual risk of \<^verbatim>\<open>docs/gsql_lease_design.md\<close>.)\<close>

theorem old_owner_is_shut_out:
  assumes "names_good s" "gsql_io_sim_contents s (gs_path_with db ''.lease'') = Some b"
    and taken: "gs_lease_take sim_io me db opt n s = Some (GS_OK, Some l2, why, s1)"
    and foreign: "\<not> (\<exists>r. record_in (Some b) = Some r \<and> same_boot r (mine l2))"
    and old: "path l = gs_path_with db ''.lease''" "tok (mine l2) \<noteq> tok (mine l)" "trust_ms l \<le> dead_ms l2"
      "confirmed l \<le> sim_now_ms s" "sim_now_ms s \<le> sim_now_ms s1"
    and calls: "layer_calls (fenced_ops sim_io) cs (l, s1) = (rcs, l', s2)"
  shows "gsql_io_sim_contents s2 q = gsql_io_sim_contents s1 q \<and> list_all2 (\<lambda>c rc. changes c \<longrightarrow> rc \<noteq> IO_OK) cs rcs"
proof -
  have t: "names_good s1" "record_in (gsql_io_sim_contents s1 (path l)) = Some (mine l2)"
    "unat (dead_ms l2) + unat (settle_ms l2) \<le> unat (clock_ms s1 - clock_ms s)"
    using take_sim [OF assms(1) refl, of me db opt n] taken foreign assms(2) old(1) by auto
  have "unat (trust_ms l) \<le> unat (dead_ms l2)" using old(3) by (simp add: word_le_nat_alt)
  also have "\<dots> \<le> unat (clock_ms s1 - clock_ms s)" using t(3) by simp
  also have "\<dots> \<le> unat (clock_ms s1 - confirmed l)"
  proof -
    have c: "confirmed l \<le> clock_ms s" "clock_ms s \<le> clock_ms s1" using old(4,5) by (simp_all add: sim_now_ms_def)
    show ?thesis using c unat_sub [OF c(2)] unat_sub [OF order_trans [OF c]] by (simp add: word_le_nat_alt)
  qed
  finally have "ucast (trust_ms l) \<le> clock_ms s1 - confirmed l" by (simp add: word_le_nat_alt unat_ucast_64)
  then have "ousted l s1" using t(1,2) old(2) by (auto simp: ousted_def ours_def)
  from ousted_calls [OF this calls] show ?thesis using quiet_kept(4) t(1) by blast
qed

lemma old_owner_is_shut_out_witness:
  "\<exists>l l2 s1 rcs l' s2. gs_lease_take sim_io sample_who ''t/a'' None 80 (disk_with sample_path []) = Some (GS_OK, Some l2, [], s1) \<and>
     trust_ms l = dead_ms l2 \<and> layer_calls (fenced_ops sim_io) [S_Remove sample_path] (l, s1) = (rcs, l', s2) \<and>
     gsql_io_sim_contents s2 sample_path = gsql_io_sim_contents s1 sample_path \<and> rcs \<noteq> [IO_OK]"
proof -
  let ?s = "disk_with sample_path []"
  obtain l2 s1 where t: "gs_lease_take sim_io sample_who ''t/a'' None 80 ?s = Some (GS_OK, Some l2, [], s1)"
    using lease_sim_up.take_up [OF disk_with_facts(1) refl disk_with_facts(2)] by blast
  define l where "l = l2\<lparr>path := sample_path, trust_ms := dead_ms l2, confirmed := 0, mine := (mine l2)\<lparr>tok := 0 # tok (mine l2)\<rparr>\<rparr>"
  obtain rcs l' s2 where c: "layer_calls (fenced_ops sim_io) [S_Remove sample_path] (l, s1) = (rcs, l', s2)" by (metis surj_pair)
  have "\<not> (\<exists>r. record_in (Some []) = Some r \<and> same_boot r (mine l2))" by (simp add: record_in_def text_kept_def LEASE_SIZE_def)
  from old_owner_is_shut_out [OF disk_with_facts(1,3) t this _ _ _ _ _ c, of sample_path]
  have "gsql_io_sim_contents s2 sample_path = gsql_io_sim_contents s1 sample_path \<and>
      list_all2 (\<lambda>c rc. changes c \<longrightarrow> rc \<noteq> IO_OK) [S_Remove sample_path :: sim_file store_call] rcs"
    by (simp add: l_def sim_now_ms_def disk_with_facts(4))
  then show ?thesis using t c
    by (intro exI [of _ l] exI [of _ l2] exI [of _ s1] exI [of _ rcs] exI [of _ l'] exI [of _ s2]) (auto simp: l_def)
qed

end
