(* ===== verification/Skiplist.thy ===== *)
theory Skiplist
  imports "HOL-Library.List_Lexorder" Store_Common
begin

text \<open>
  The entries of the engine of \<^verbatim>\<open>src/gsql/lsm.c\<close> and its memtable, a skip list over an explicit heap:
  a node's address is its place in \<open>nodes\<close>, the head's is 0. Walking a level is partial, \<open>None\<close> a walk
  that does not end. Memory is not exhausted; sizes and counts are natural numbers; freeing is left out.
\<close>

section \<open>Entries\<close>

record ent =
  e_key :: bytes
  e_seq :: u64
  e_type :: byte
  e_val :: bytes

definition TYPE_DEL :: byte where "TYPE_DEL = 0"
definition TYPE_PUT :: byte where "TYPE_PUT = 1"
definition TYPE_BLOB :: byte where "TYPE_BLOB = 2"

definition ent_cmp :: "bytes \<Rightarrow> u64 \<Rightarrow> bytes \<Rightarrow> u64 \<Rightarrow> int" where
  "ent_cmp ak as bk bs =
     (let c = bytes_cmp ak bk
      in if c \<noteq> 0 then c else if bs < as then -1 else if as < bs then 1 else 0)"

section \<open>The skip list\<close>

definition SK_MAX :: nat where "SK_MAX = 16"

record sk_node = ent +
  n_height :: nat
  nexts :: "nat option list"

record skip =
  nodes :: "sk_node list"
  sk_height :: nat
  sk_rng :: u64
  sk_bytes :: nat
  sk_count :: nat
  trees :: "(u64 \<times> nat) list"
  lasttree :: nat

definition sk_init :: skip where
  "sk_init =
     \<lparr>nodes = [\<lparr>e_key = [], e_seq = 0, e_type = 0, e_val = [], n_height = SK_MAX, nexts = replicate SK_MAX None\<rparr>],
      sk_height = 1, sk_rng = 0x2545F4914F6CDD1D, sk_bytes = 0, sk_count = 0, trees = [], lasttree = 0\<rparr>"

fun tree_index :: "(u64 \<times> nat) list \<Rightarrow> u64 \<Rightarrow> nat option" where
  "tree_index [] i = None"
| "tree_index ((j, _) # ts) i = (if j = i then Some 0 else map_option Suc (tree_index ts i))"

definition bump :: "(u64 \<times> nat) list \<Rightarrow> nat \<Rightarrow> (u64 \<times> nat) list" where
  "bump ts i = ts[i := (fst (ts ! i), snd (ts ! i) + 1)]"

definition sk_count_tree :: "skip \<Rightarrow> u64 \<Rightarrow> skip" where
  "sk_count_tree s i =
     (if lasttree s < length (trees s) \<and> fst (trees s ! lasttree s) = i then s\<lparr>trees := bump (trees s) (lasttree s)\<rparr>
      else case tree_index (trees s) i of
        Some j \<Rightarrow> s\<lparr>trees := bump (trees s) j, lasttree := j\<rparr>
      | None \<Rightarrow> s\<lparr>trees := trees s @ [(i, 1)], lasttree := length (trees s)\<rparr>)"

definition sk_tree_count :: "skip \<Rightarrow> u64 \<Rightarrow> nat" where
  "sk_tree_count s i = (case tree_index (trees s) i of Some j \<Rightarrow> snd (trees s ! j) | None \<Rightarrow> 0)"

text \<open>The walk on one level, and the last node strictly before \<open>(k, q)\<close> at each level from \<open>n - 1\<close> down.\<close>

partial_function (option) sk_walk :: "sk_node list \<Rightarrow> nat \<Rightarrow> bytes \<Rightarrow> u64 \<Rightarrow> nat \<Rightarrow> nat option" where
  "sk_walk ns l k q x =
     (if l < n_height (ns ! x) then
        (case nexts (ns ! x) ! l of
           None \<Rightarrow> Some x
         | Some y \<Rightarrow> if ent_cmp (e_key (ns ! y)) (e_seq (ns ! y)) k q < 0 then sk_walk ns l k q y else Some x)
      else Some x)"

primrec path_from :: "sk_node list \<Rightarrow> bytes \<Rightarrow> u64 \<Rightarrow> nat \<Rightarrow> nat \<Rightarrow> nat list option" where
  "path_from ns k q 0 x = Some []"
| "path_from ns k q (Suc l) x =
     Option.bind (sk_walk ns l k q x) (\<lambda>x. map_option (\<lambda>prev. prev @ [x]) (path_from ns k q l x))"

definition sk_path :: "skip \<Rightarrow> bytes \<Rightarrow> u64 \<Rightarrow> nat list option" where
  "sk_path s k q = path_from (nodes s) k q SK_MAX 0"

definition sk_ge :: "skip \<Rightarrow> bytes \<Rightarrow> u64 \<Rightarrow> nat option option" where
  "sk_ge s k q = map_option (\<lambda>prev. nexts (nodes s ! (prev ! 0)) ! 0) (sk_path s k q)"

definition sk_lt :: "skip \<Rightarrow> bytes \<Rightarrow> u64 \<Rightarrow> nat option option" where
  "sk_lt s k q = map_option (\<lambda>prev. if prev ! 0 = 0 then None else Some (prev ! 0)) (sk_path s k q)"

text \<open>The height of a new node.\<close>

function draw_height :: "nat \<Rightarrow> u64 \<Rightarrow> nat \<times> u64" where
  "draw_height h r =
     (if h < SK_MAX then
        let r = r * 6364136223846793005 + 1442695040888963407
        in if drop_bit 62 r = 0 then draw_height (h + 1) r else (h, r)
      else (h, r))"
  by auto
termination by (relation "measure (\<lambda>(h, r). SK_MAX - h)") auto

declare draw_height.simps [simp del]

primrec link_levels :: "nat \<Rightarrow> nat \<Rightarrow> nat list \<Rightarrow> sk_node list \<Rightarrow> sk_node list" where
  "link_levels 0 a prev ns = ns"
| "link_levels (Suc l) a prev ns =
     (let ns = link_levels l a prev ns; p = prev ! l;
          ns = ns[a := (ns ! a)\<lparr>nexts := (nexts (ns ! a))[l := nexts (ns ! p) ! l]\<rparr>]
      in ns[p := (ns ! p)\<lparr>nexts := (nexts (ns ! p))[l := Some a]\<rparr>])"

definition sk_replace :: "skip \<Rightarrow> nat \<Rightarrow> ent \<Rightarrow> skip" where
  "sk_replace s a e =
     s\<lparr>nodes := (nodes s)[a := (nodes s ! a)\<lparr>e_val := e_val e, e_type := e_type e\<rparr>],
       sk_bytes := sk_bytes s - length (e_val (nodes s ! a)) + length (e_val e)\<rparr>"

definition sk_add :: "skip \<Rightarrow> nat list \<Rightarrow> ent \<Rightarrow> skip" where
  "sk_add s prev e =
     (let (h, r) = draw_height 1 (sk_rng s);
          n = \<lparr>e_key = e_key e, e_seq = e_seq e, e_type = e_type e, e_val = e_val e, n_height = h,
               nexts = replicate h None\<rparr>;
          s = s\<lparr>nodes := link_levels h (length (nodes s)) prev (nodes s @ [n]),
                sk_height := max (sk_height s) h, sk_rng := r,
                sk_bytes := sk_bytes s + length (e_key e) + length (e_val e) + 48 + h * 8,
                sk_count := sk_count s + 1\<rparr>
      in if 8 \<le> length (e_key e) then sk_count_tree s (get_be (take 8 (e_key e))) else s)"

definition sk_insert :: "skip \<Rightarrow> ent \<Rightarrow> bool \<Rightarrow> skip option" where
  "sk_insert s e replace =
     map_option (\<lambda>prev.
       case nexts (nodes s ! (prev ! 0)) ! 0 of
         Some a \<Rightarrow>
           if replace \<and> e_seq (nodes s ! a) = e_seq e \<and> e_key (nodes s ! a) = e_key e then sk_replace s a e
           else sk_add s prev e
       | None \<Rightarrow> sk_add s prev e)
     (sk_path s (e_key e) (e_seq e))"

definition sk_ent :: "sk_node \<Rightarrow> ent" where
  "sk_ent n = ent.truncate n"

section \<open>The order\<close>

text \<open>\<open>bytes_cmp\<close> is the lexicographic order; entries are ordered by key, a key's newest version first.\<close>

lemma bytes_cmp_less: "bytes_cmp a b < 0 \<longleftrightarrow> a < b"
proof (induction a arbitrary: b)
  case Nil
  show ?case by (cases b) simp_all
next
  case (Cons x a)
  show ?case by (cases b) (auto simp: bytes_cmp_Cons Cons)
qed

definition key_lt :: "bytes \<times> u64 \<Rightarrow> bytes \<times> u64 \<Rightarrow> bool" where
  "key_lt a b \<longleftrightarrow> fst a < fst b \<or> fst a = fst b \<and> snd b < snd a"

lemma ent_cmp_less: "ent_cmp ak as bk bs < 0 \<longleftrightarrow> key_lt (ak, as) (bk, bs)"
  using bytes_cmp_less [of ak bk] bytes_cmp_eq_0 [of ak bk] by (auto simp: ent_cmp_def key_lt_def Let_def)

lemma key_lt_trans: "key_lt a b \<Longrightarrow> key_lt b c \<Longrightarrow> key_lt a c"
  by (auto simp: key_lt_def)

lemma key_lt_irrefl [simp]: "\<not> key_lt a a"
  by (simp add: key_lt_def)

lemma key_lt_linear: "key_lt a b \<or> a = b \<or> key_lt b a"
  by (cases a; cases b) (auto simp: key_lt_def)

definition key_of :: "('a ent_scheme) \<Rightarrow> bytes \<times> u64" where
  "key_of e = (e_key e, e_seq e)"

lemma not_key_lt: "\<not> key_lt b a \<longleftrightarrow> key_lt a b \<or> a = b"
  using key_lt_linear [of a b] key_lt_trans [of a b a] by auto

section \<open>Chains\<close>

fun chain :: "sk_node list \<Rightarrow> nat \<Rightarrow> nat \<Rightarrow> nat list \<Rightarrow> bool" where
  "chain ns l x [] \<longleftrightarrow> nexts (ns ! x) ! l = None"
| "chain ns l x (y # ys) \<longleftrightarrow> nexts (ns ! x) ! l = Some y \<and> chain ns l y ys"

lemma level_append: "chain ns l x (xs @ y # ys) \<Longrightarrow> chain ns l y ys"
  by (induction xs arbitrary: x) auto

lemma level_cong: "chain ns l x xs \<Longrightarrow> (\<And>y. y \<in> set (x # xs) \<Longrightarrow> nexts (ns' ! y) ! l = nexts (ns ! y) ! l) \<Longrightarrow> chain ns' l x xs"
  by (induction xs arbitrary: x) auto

lemma level_next: "chain ns l x (xs @ ys) \<Longrightarrow> nexts (ns ! last (x # xs)) ! l = (case ys of [] \<Rightarrow> None | y # _ \<Rightarrow> Some y)"
  by (induction xs arbitrary: x) (auto split: list.splits)

lemma level_insert:
  assumes "chain ns l x (xs @ ys)" "last (x # xs) = p" "distinct (x # xs @ ys)" "a \<notin> set (x # xs @ ys)"
    "nexts (ns' ! p) ! l = Some a" "nexts (ns' ! a) ! l = nexts (ns ! p) ! l"
    "\<And>y. y \<in> set (x # xs @ ys) \<Longrightarrow> y \<noteq> p \<Longrightarrow> nexts (ns' ! y) ! l = nexts (ns ! y) ! l"
  shows "chain ns' l x (xs @ a # ys)"
  using assms
proof (induction xs arbitrary: x)
  case Nil
  then have "chain ns' l a ys"
  proof (cases ys)
    case (Cons y zs)
    have "chain ns' l y zs" by (rule level_cong [of ns]) (use Nil Cons in auto)
    then show ?thesis using Nil Cons by simp
  qed simp
  then show ?case using Nil by simp
next
  case (Cons y xs)
  have "x \<noteq> p" using Cons.prems(2,3) by (metis Cons_eq_appendI distinct.simps(2) last_ConsR last_in_set list.distinct(1) append_Cons Un_iff set_append)
  have "chain ns' l y (xs @ a # ys)" by (rule Cons.IH) (use Cons.prems in auto)
  then show ?case using Cons.prems(1) Cons.prems(7) [of x] \<open>x \<noteq> p\<close> by simp
qed

text \<open>A walk ends at the last node of its level before \<open>(k, q)\<close>.\<close>

lemma walk_ends:
  assumes "chain ns l x (xs @ ys)" "\<forall>a \<in> set (x # xs). l < n_height (ns ! a)"
    "\<forall>a \<in> set xs. key_lt (key_of (ns ! a)) (k, q)" "\<forall>a \<in> set ys. \<not> key_lt (key_of (ns ! a)) (k, q)"
  shows "sk_walk ns l k q x = Some (last (x # xs))"
  using assms
proof (induction xs arbitrary: x)
  case Nil
  then show ?case by (subst sk_walk.simps) (auto simp: ent_cmp_less key_of_def split: option.splits elim: chain.elims)
next
  case (Cons y xs)
  then have "sk_walk ns l k q y = Some (last (y # xs))" by simp
  then show ?case using Cons.prems by (subst sk_walk.simps) (simp add: ent_cmp_less key_of_def)
qed

end
