(* ===== verification/Skiplist_Props.thy ===== *)
theory Skiplist_Props
  imports Skiplist
begin

text \<open>
  The skip list of \<^verbatim>\<open>src/gsql/lsm.c\<close> is the sorted list of its entries: \<open>ord\<close> lists the addresses in
  order, every level's chain is the part of \<open>ord\<close> tall enough for it, and insertion and the two
  searches are those on the list.
\<close>

section \<open>The invariant\<close>

definition levels_ok :: "sk_node list \<Rightarrow> nat list \<Rightarrow> bool" where
  "levels_ok ns ord \<longleftrightarrow> (\<forall>l < SK_MAX. chain ns l 0 (filter (\<lambda>a. l < n_height (ns ! a)) ord))"

definition nodes_ok :: "sk_node list \<Rightarrow> nat list \<Rightarrow> bool" where
  "nodes_ok ns ord \<longleftrightarrow> ns \<noteq> [] \<and> n_height (ns ! 0) = SK_MAX \<and> distinct ord \<and> set ord = {1..<length ns} \<and>
     (\<forall>a \<in> set ord. 1 \<le> n_height (ns ! a) \<and> n_height (ns ! a) \<le> SK_MAX) \<and>
     (\<forall>a < length ns. length (nexts (ns ! a)) = n_height (ns ! a))"

definition sk_sorted :: "sk_node list \<Rightarrow> nat list \<Rightarrow> bool" where
  "sk_sorted ns ord \<longleftrightarrow> sorted_wrt (\<lambda>a b. \<not> key_lt (key_of (ns ! b)) (key_of (ns ! a))) ord"

definition sk_ok :: "sk_node list \<Rightarrow> nat list \<Rightarrow> bool" where
  "sk_ok ns ord \<longleftrightarrow> nodes_ok ns ord \<and> levels_ok ns ord \<and> sk_sorted ns ord"

definition holds :: "skip \<Rightarrow> ent list \<Rightarrow> bool" where
  "holds s es \<longleftrightarrow> (\<exists>ord. sk_ok (nodes s) ord \<and> es = map (\<lambda>a. sk_ent (nodes s ! a)) ord)"

lemma sk_ent_simps [simp]:
  "e_key (sk_ent n) = e_key n" "e_seq (sk_ent n) = e_seq n" "e_type (sk_ent n) = e_type n" "e_val (sk_ent n) = e_val n"
  "key_of (sk_ent n) = key_of n"
  by (simp_all add: sk_ent_def ent.defs key_of_def)

text \<open>The split of a sorted list at \<open>(k, q)\<close>.\<close>

definition before :: "bytes \<times> u64 \<Rightarrow> ent list \<Rightarrow> ent list" where
  "before t es = takeWhile (\<lambda>e. key_lt (key_of e) t) es"

definition from_on :: "bytes \<times> u64 \<Rightarrow> ent list \<Rightarrow> ent list" where
  "from_on t es = dropWhile (\<lambda>e. key_lt (key_of e) t) es"

definition split_at :: "sk_node list \<Rightarrow> bytes \<times> u64 \<Rightarrow> nat list \<Rightarrow> nat list \<times> nat list" where
  "split_at ns t ord = (takeWhile (\<lambda>a. key_lt (key_of (ns ! a)) t) ord, dropWhile (\<lambda>a. key_lt (key_of (ns ! a)) t) ord)"

lemma split_at:
  assumes "split_at ns t ord = (A, B)" "sk_sorted ns ord"
  shows "ord = A @ B" "\<forall>a \<in> set A. key_lt (key_of (ns ! a)) t" "\<forall>a \<in> set B. \<not> key_lt (key_of (ns ! a)) t"
proof -
  let ?P = "\<lambda>a. key_lt (key_of (ns ! a)) t"
  have AB: "A = takeWhile ?P ord" "B = dropWhile ?P ord" using assms(1) by (simp_all add: split_at_def)
  then show "ord = A @ B" "\<forall>a \<in> set A. ?P a" by (auto dest: set_takeWhileD)
  have "sk_sorted ns B" unfolding AB(2) using assms(2) sorted_wrt_drop by (simp add: sk_sorted_def dropWhile_eq_drop)
  show "\<forall>a \<in> set B. \<not> ?P a"
  proof (cases B)
    case (Cons b bs)
    then have nb: "\<not> ?P b" using AB(2) by (metis hd_dropWhile list.sel(1) list.discI)
    have "\<not> ?P a" if "a \<in> set bs" for a
    proof -
      have "\<not> key_lt (key_of (ns ! a)) (key_of (ns ! b))" using \<open>sk_sorted ns B\<close> Cons that by (simp add: sk_sorted_def)
      then show ?thesis using nb key_lt_trans not_key_lt by metis
    qed
    then show ?thesis using Cons nb by simp
  qed simp
qed

lemma split_entries:
  assumes "split_at ns t ord = (A, B)"
  shows "before t (map (\<lambda>a. sk_ent (ns ! a)) ord) = map (\<lambda>a. sk_ent (ns ! a)) A"
    "from_on t (map (\<lambda>a. sk_ent (ns ! a)) ord) = map (\<lambda>a. sk_ent (ns ! a)) B"
  using assms by (auto simp: split_at_def before_def from_on_def takeWhile_map dropWhile_map comp_def)

section \<open>Searching\<close>

definition path_of :: "sk_node list \<Rightarrow> nat list \<Rightarrow> nat \<Rightarrow> nat" where
  "path_of ns A l = last (0 # filter (\<lambda>a. l < n_height (ns ! a)) A)"

lemma path_of_cases: "path_of ns A l = 0 \<or> path_of ns A l \<in> set A \<and> l < n_height (ns ! path_of ns A l)"
proof -
  have "last (0 # filter (\<lambda>a. l < n_height (ns ! a)) A) \<in> set (0 # filter (\<lambda>a. l < n_height (ns ! a)) A)" by (rule last_in_set) simp
  then show ?thesis by (auto simp: path_of_def)
qed

lemma path_from_spec:
  assumes "nodes_ok ns (A @ B)" "levels_ok ns (A @ B)" "\<forall>a \<in> set A. key_lt (key_of (ns ! a)) (k, q)"
    "\<forall>a \<in> set B. \<not> key_lt (key_of (ns ! a)) (k, q)" "n \<le> SK_MAX" "x = path_of ns A n"
  shows "path_from ns k q n x = Some (map (path_of ns A) [0..<n])"
  using assms(5,6)
proof (induction n arbitrary: x)
  case (Suc l)
  let ?f = "filter (\<lambda>a. l < n_height (ns ! a))"
  define fA where "fA = ?f A"
  have mem: "\<forall>a \<in> set fA. a \<in> set A \<and> l < n_height (ns ! a)" by (simp add: fA_def)
  have ch: "chain ns l 0 (fA @ ?f B)" using assms(2) Suc.prems by (simp add: levels_ok_def fA_def)
  have h0: "l < n_height (ns ! 0)" using assms(1) Suc.prems by (simp add: nodes_ok_def)
  obtain us vs where s: "0 # fA = us @ x # vs"
  proof (cases "x = 0")
    case True
    then show ?thesis using that [of "[]" fA] by simp
  next
    case False
    then have "x \<in> set fA" using path_of_cases [of ns A "Suc l"] Suc.prems(2) by (auto simp: fA_def)
    then obtain us vs where "fA = us @ x # vs" by (meson split_list)
    then show ?thesis using that [of "0 # us" vs] by simp
  qed
  have "chain ns l x (vs @ ?f B) \<and> set vs \<subseteq> set fA \<and> (x = 0 \<or> x \<in> set fA)"
  proof (cases us)
    case Nil
    then show ?thesis using s ch by simp
  next
    case (Cons u us')
    then have "fA = us' @ x # vs" using s by simp
    then show ?thesis using ch level_append [of ns l 0 us' x "vs @ ?f B"] by auto
  qed
  note x = this
  have "sk_walk ns l k q x = Some (last (x # vs))"
    by (rule walk_ends [of ns l x vs "?f B"]) (use x mem h0 assms(3,4) in auto)
  also have "last (x # vs) = last (0 # fA)" unfolding s by simp
  also have "\<dots> = path_of ns A l" by (simp add: path_of_def fA_def)
  finally have w: "sk_walk ns l k q x = Some (path_of ns A l)" .
  have "path_from ns k q l (path_of ns A l) = Some (map (path_of ns A) [0..<l])" by (rule Suc.IH) (use Suc.prems in simp_all)
  then show ?case using w by simp
qed simp

lemma sk_path_spec:
  assumes "sk_ok (nodes s) ord" "split_at (nodes s) (k, q) ord = (A, B)"
  shows "sk_path s k q = Some (map (path_of (nodes s) A) [0..<SK_MAX])"
proof -
  note sp = split_at [OF assms(2)]
  have o: "nodes_ok (nodes s) ord" "levels_ok (nodes s) ord" "sk_sorted (nodes s) ord" using assms(1) by (simp_all add: sk_ok_def)
  have "filter (\<lambda>a. SK_MAX < n_height (nodes s ! a)) A = []"
  proof -
    have "set A \<subseteq> set ord" unfolding sp(1) [OF o(3)] by simp
    moreover have "\<forall>a \<in> set ord. n_height (nodes s ! a) \<le> SK_MAX" using o(1) unfolding nodes_ok_def by blast
    ultimately show ?thesis unfolding filter_empty_conv by (meson in_mono leD)
  qed
  then have "path_of (nodes s) A SK_MAX = 0" by (simp add: path_of_def)
  then show ?thesis unfolding sk_path_def
    by (intro path_from_spec [OF o(1,2) [unfolded sp(1) [OF o(3)]] sp(2,3) [OF o(3)]]) simp_all
qed

lemma path_0:
  assumes "sk_ok ns ord" "ord = A @ B"
  shows "path_of ns A 0 = last (0 # A)" "nexts (ns ! path_of ns A 0) ! 0 = (case B of [] \<Rightarrow> None | b # _ \<Rightarrow> Some b)"
proof -
  have "0 < n_height (ns ! a)" if "a \<in> set ord" for a
  proof -
    have "1 \<le> n_height (ns ! a)" using assms(1) that unfolding sk_ok_def nodes_ok_def by blast
    then show ?thesis by simp
  qed
  then have f: "filter (\<lambda>a. 0 < n_height (ns ! a)) A = A" "filter (\<lambda>a. 0 < n_height (ns ! a)) ord = ord"
    using assms(2) by (auto simp: filter_id_conv)
  then show p: "path_of ns A 0 = last (0 # A)" by (simp add: path_of_def)
  have "chain ns 0 0 (A @ B)" using assms f(2) by (auto simp: sk_ok_def levels_ok_def SK_MAX_def dest: spec [of _ 0])
  then show "nexts (ns ! path_of ns A 0) ! 0 = (case B of [] \<Rightarrow> None | b # _ \<Rightarrow> Some b)"
    using level_next p by metis
qed

lemma map_nth_0: "map (f :: nat \<Rightarrow> 'a) [0..<SK_MAX] ! 0 = f 0"
  by (simp add: SK_MAX_def)

definition first_of :: "'a list \<Rightarrow> 'a option" where
  "first_of xs = (case xs of [] \<Rightarrow> None | x # _ \<Rightarrow> Some x)"

definition last_of :: "'a list \<Rightarrow> 'a option" where
  "last_of xs = (if xs = [] then None else Some (last xs))"

lemma sk_ge_spec:
  assumes "holds s es"
  shows "\<exists>r. sk_ge s k q = Some r \<and> map_option (\<lambda>a. sk_ent (nodes s ! a)) r = first_of (from_on (k, q) es)"
proof -
  obtain ord where o: "sk_ok (nodes s) ord" "es = map (\<lambda>a. sk_ent (nodes s ! a)) ord" using assms by (auto simp: holds_def)
  obtain A B where s: "split_at (nodes s) (k, q) ord = (A, B)" by fastforce
  have ab: "ord = A @ B" using split_at(1) [OF s] o(1) by (simp add: sk_ok_def)
  show ?thesis
    using sk_path_spec [OF o(1) s] path_0(2) [OF o(1) ab] split_entries(2) [OF s]
    by (auto simp: sk_ge_def map_nth_0 o(2) first_of_def split: list.splits)
qed

lemma sk_lt_spec:
  assumes "holds s es"
  shows "\<exists>r. sk_lt s k q = Some r \<and> map_option (\<lambda>a. sk_ent (nodes s ! a)) r = last_of (before (k, q) es)"
proof -
  obtain ord where o: "sk_ok (nodes s) ord" "es = map (\<lambda>a. sk_ent (nodes s ! a)) ord" using assms by (auto simp: holds_def)
  obtain A B where s: "split_at (nodes s) (k, q) ord = (A, B)" by fastforce
  have ab: "ord = A @ B" using split_at(1) [OF s] o(1) by (simp add: sk_ok_def)
  have "0 \<notin> set A" using o(1) ab unfolding sk_ok_def nodes_ok_def by (metis Un_iff atLeastLessThan_iff not_one_le_zero set_append)
  then have "A = [] \<or> last A \<noteq> 0" using last_in_set by metis
  then show ?thesis
    using sk_path_spec [OF o(1) s] path_0(1) [OF o(1) ab] split_entries(1) [OF s]
    by (auto simp: sk_lt_def map_nth_0 o(2) last_of_def last_map)
qed

section \<open>Inserting\<close>

lemma link_length [simp]: "length (link_levels n a prev ns) = length ns"
  by (induction n) (simp_all add: Let_def)

lemma link_other: "y \<noteq> a \<Longrightarrow> \<forall>l < n. prev ! l \<noteq> y \<Longrightarrow> link_levels n a prev ns ! y = ns ! y"
  by (induction n) (simp_all add: Let_def)

text \<open>Linking changes only the \<open>nexts\<close> of nodes, and those as listed.\<close>

lemma link_spec:
  assumes "a < length ns" "\<forall>l < n. prev ! l < length ns \<and> prev ! l \<noteq> a \<and> l < length (nexts (ns ! (prev ! l)))" "n \<le> length (nexts (ns ! a))"
    "y < length ns"
  shows "sk_ent (link_levels n a prev ns ! y) = sk_ent (ns ! y)" "n_height (link_levels n a prev ns ! y) = n_height (ns ! y)"
    "length (nexts (link_levels n a prev ns ! y)) = length (nexts (ns ! y))"
    "nexts (link_levels n a prev ns ! y) ! l =
      (if y = a \<and> l < n then nexts (ns ! (prev ! l)) ! l else if l < n \<and> y = prev ! l then Some a else nexts (ns ! y) ! l)"
proof -
  have "\<forall>y < length ns. sk_ent (link_levels n a prev ns ! y) = sk_ent (ns ! y) \<and> n_height (link_levels n a prev ns ! y) = n_height (ns ! y) \<and>
      length (nexts (link_levels n a prev ns ! y)) = length (nexts (ns ! y)) \<and>
      (\<forall>l. nexts (link_levels n a prev ns ! y) ! l =
        (if y = a \<and> l < n then nexts (ns ! (prev ! l)) ! l else if l < n \<and> y = prev ! l then Some a else nexts (ns ! y) ! l))"
    using assms(1-3)
  proof (induction n)
    case (Suc n)
    let ?m = "link_levels n a prev ns" and ?p = "prev ! n"
    have IH: "\<forall>y < length ns. sk_ent (?m ! y) = sk_ent (ns ! y) \<and> n_height (?m ! y) = n_height (ns ! y) \<and>
      length (nexts (?m ! y)) = length (nexts (ns ! y)) \<and> (\<forall>l. nexts (?m ! y) ! l =
        (if y = a \<and> l < n then nexts (ns ! (prev ! l)) ! l else if l < n \<and> y = prev ! l then Some a else nexts (ns ! y) ! l))"
      using Suc by simp
    have p: "?p < length ns" "?p \<noteq> a" "n < length (nexts (ns ! ?p))" "n < length (nexts (ns ! a))" using Suc.prems by auto
    define m1 where "m1 = ?m[a := (?m ! a)\<lparr>nexts := (nexts (?m ! a))[n := nexts (?m ! ?p) ! n]\<rparr>]"
    have e: "link_levels (Suc n) a prev ns = m1[?p := (m1 ! ?p)\<lparr>nexts := (nexts (m1 ! ?p))[n := Some a]\<rparr>]"
      by (simp add: Let_def m1_def)
    have l1: "length m1 = length ns" by (simp add: m1_def)
    have m1: "m1 ! a = (?m ! a)\<lparr>nexts := (nexts (?m ! a))[n := nexts (ns ! ?p) ! n]\<rparr>" "\<And>y. y \<noteq> a \<Longrightarrow> m1 ! y = ?m ! y"
      using Suc.prems(1) IH p(1,2) by (simp_all add: m1_def)
    show ?case
    proof (intro allI impI)
      fix y assume y: "y < length ns"
      consider "y = a" | "y = ?p" | "y \<noteq> a" "y \<noteq> ?p" by blast
      then show "sk_ent (link_levels (Suc n) a prev ns ! y) = sk_ent (ns ! y) \<and> n_height (link_levels (Suc n) a prev ns ! y) = n_height (ns ! y) \<and>
          length (nexts (link_levels (Suc n) a prev ns ! y)) = length (nexts (ns ! y)) \<and> (\<forall>l. nexts (link_levels (Suc n) a prev ns ! y) ! l =
          (if y = a \<and> l < Suc n then nexts (ns ! (prev ! l)) ! l else if l < Suc n \<and> y = prev ! l then Some a else nexts (ns ! y) ! l))"
      proof cases
        case 1
        then have "link_levels (Suc n) a prev ns ! y = m1 ! a" using e p(2) by simp
        then show ?thesis using IH Suc.prems(1) p(4) 1
          by (auto simp: m1(1) sk_ent_def ent.defs nth_list_update less_Suc_eq)
      next
        case 2
        then have "link_levels (Suc n) a prev ns ! y = (?m ! ?p)\<lparr>nexts := (nexts (?m ! ?p))[n := Some a]\<rparr>" using e p(1,2) l1 m1(2) by simp
        then show ?thesis using IH p 2
          by (auto simp: sk_ent_def ent.defs nth_list_update less_Suc_eq)
      next
        case 3
        then have "link_levels (Suc n) a prev ns ! y = ?m ! y" using e m1(2) by simp
        then show ?thesis using IH y 3 by (auto simp: less_Suc_eq)
      qed
    qed
  qed simp
  then show "sk_ent (link_levels n a prev ns ! y) = sk_ent (ns ! y)" "n_height (link_levels n a prev ns ! y) = n_height (ns ! y)"
    "length (nexts (link_levels n a prev ns ! y)) = length (nexts (ns ! y))"
    "nexts (link_levels n a prev ns ! y) ! l =
      (if y = a \<and> l < n then nexts (ns ! (prev ! l)) ! l else if l < n \<and> y = prev ! l then Some a else nexts (ns ! y) ! l)"
    using assms(4) by blast+
qed

lemma draw_height_bounds: "1 \<le> h \<Longrightarrow> h \<le> SK_MAX \<Longrightarrow> draw_height h r = (h', r') \<Longrightarrow> 1 \<le> h' \<and> h' \<le> SK_MAX"
proof (induction h r rule: draw_height.induct)
  case (1 h r)
  show ?case using "1.prems" "1.IH" by (subst (asm) draw_height.simps) (auto simp: Let_def split: if_splits)
qed

lemma nodes_range:
  assumes "nodes_ok ns ord"
  shows "a \<in> set ord \<Longrightarrow> a < length ns" "a \<in> set ord \<Longrightarrow> a \<noteq> 0" "0 < length ns"
  using assms by (auto simp: nodes_ok_def)

lemma path_of_ok:
  assumes "nodes_ok ns (A @ B)" "l < SK_MAX"
  shows "path_of ns A l < length ns" "l < length (nexts (ns ! path_of ns A l))"
proof -
  have "path_of ns A l < length ns \<and> l < n_height (ns ! path_of ns A l)"
    using path_of_cases [of ns A l] nodes_range [OF assms(1)] assms by (auto simp: nodes_ok_def)
  then show "path_of ns A l < length ns" "l < length (nexts (ns ! path_of ns A l))"
    using assms(1) by (simp_all add: nodes_ok_def)
qed

lemma add_ok:
  assumes ok: "sk_ok ns (A @ B)" and A: "\<forall>x \<in> set A. key_lt (key_of (ns ! x)) (key_of n)"
    and B: "\<forall>x \<in> set B. \<not> key_lt (key_of (ns ! x)) (key_of n)"
    and n: "1 \<le> n_height n" "n_height n \<le> SK_MAX" "length (nexts n) = n_height n"
    and ns': "ns' = link_levels (n_height n) (length ns) (map (path_of ns A) [0..<SK_MAX]) (ns @ [n])"
  shows "sk_ok ns' (A @ length ns # B)"
    "map (\<lambda>x. sk_ent (ns' ! x)) (A @ length ns # B) = map (\<lambda>x. sk_ent (ns ! x)) A @ sk_ent n # map (\<lambda>x. sk_ent (ns ! x)) B"
proof -
  let ?a = "length ns" and ?prev = "map (path_of ns A) [0..<SK_MAX]" and ?h = "n_height n"
  have no: "nodes_ok ns (A @ B)" and lo: "levels_ok ns (A @ B)" and so: "sk_sorted ns (A @ B)" using ok by (simp_all add: sk_ok_def)
  note rng = nodes_range [OF no]
  have pl: "?prev ! l = path_of ns A l" if "l < ?h" for l using that n(2) by simp
  have pre: "\<forall>l < ?h. ?prev ! l < length (ns @ [n]) \<and> ?prev ! l \<noteq> ?a \<and> l < length (nexts ((ns @ [n]) ! (?prev ! l)))"
  proof (intro allI impI)
    fix l assume "l < ?h"
    then have "l < SK_MAX" "?prev ! l = path_of ns A l" using n(2) by simp_all
    then show "?prev ! l < length (ns @ [n]) \<and> ?prev ! l \<noteq> ?a \<and> l < length (nexts ((ns @ [n]) ! (?prev ! l)))"
      using path_of_ok [OF no, of l] by (simp add: nth_append)
  qed
  have len: "?a < length (ns @ [n])" "?h \<le> length (nexts ((ns @ [n]) ! ?a))" using n(3) by simp_all
  note link = link_spec [OF len(1) pre len(2)]
  have old: "sk_ent (ns' ! x) = sk_ent (ns ! x)" "n_height (ns' ! x) = n_height (ns ! x)" "length (nexts (ns' ! x)) = length (nexts (ns ! x))"
    "nexts (ns' ! x) ! l = (if l < ?h \<and> x = path_of ns A l then Some ?a else nexts (ns ! x) ! l)" if "x < ?a" for x l
    using link [of x] that pl by (auto simp: ns' nth_append)
  have new: "sk_ent (ns' ! ?a) = sk_ent n" "n_height (ns' ! ?a) = ?h" "length (nexts (ns' ! ?a)) = ?h"
    "l < ?h \<Longrightarrow> nexts (ns' ! ?a) ! l = nexts (ns ! path_of ns A l) ! l" for l
    using link [of ?a] pl n(3) path_of_ok(1) [OF no] n(2) by (auto simp: ns' nth_append)
  have ab: "x < ?a" if "x \<in> set A \<union> set B" for x using rng(1) that by auto
  have key: "key_of (ns' ! x) = key_of (ns ! x)" if "x < ?a" for x using old(1) [OF that] sk_ent_simps(5) by metis
  have keyn: "key_of (ns' ! ?a) = key_of n" using new(1) sk_ent_simps(5) by metis
  show "map (\<lambda>x. sk_ent (ns' ! x)) (A @ ?a # B) = map (\<lambda>x. sk_ent (ns ! x)) A @ sk_ent n # map (\<lambda>x. sk_ent (ns ! x)) B"
    using old(1) new(1) ab by simp
  have "sk_sorted ns' (A @ ?a # B)"
  proof -
    have "sk_sorted ns A" "sk_sorted ns B" "\<forall>x \<in> set A. \<forall>y \<in> set B. \<not> key_lt (key_of (ns ! y)) (key_of (ns ! x))"
      using so by (simp_all add: sk_sorted_def sorted_wrt_append)
    moreover have "\<not> key_lt (key_of n) (key_of (ns ! x))" if "x \<in> set A" for x using A that not_key_lt by blast
    moreover have "sk_sorted ns' A \<longleftrightarrow> sk_sorted ns A" "sk_sorted ns' B \<longleftrightarrow> sk_sorted ns B"
      using key ab by (auto simp: sk_sorted_def elim!: sorted_wrt_mono_rel [rotated])
    ultimately show ?thesis using B ab by (auto simp: sk_sorted_def sorted_wrt_append key keyn)
  qed
  moreover have "nodes_ok ns' (A @ ?a # B)"
  proof -
    have "length ns' = Suc ?a" "n_height (ns' ! 0) = SK_MAX" using no old(2) [OF rng(3)] by (simp_all add: ns' nodes_ok_def)
    moreover have "distinct (A @ ?a # B)" "set (A @ ?a # B) = {1..<Suc ?a}" using no ab by (auto simp: nodes_ok_def Suc_le_eq)
    moreover have "1 \<le> n_height (ns' ! x) \<and> n_height (ns' ! x) \<le> SK_MAX" if "x \<in> set (A @ ?a # B)" for x
    proof (cases "x = ?a")
      case False
      then have x: "x \<in> set (A @ B)" using that by simp
      have "\<forall>x \<in> set (A @ B). 1 \<le> n_height (ns ! x) \<and> n_height (ns ! x) \<le> SK_MAX" using no unfolding nodes_ok_def by blast
      then show ?thesis using bspec [OF _ x] old(2) [OF rng(1) [OF x]] by simp
    qed (use new(2) n in simp)
    moreover have "length (nexts (ns' ! x)) = n_height (ns' ! x)" if "x < Suc ?a" for x
      using that no old(2,3) [of x] new(2,3) by (cases "x = ?a") (simp_all add: nodes_ok_def)
    ultimately show ?thesis by (auto simp: nodes_ok_def)
  qed
  moreover have "levels_ok ns' (A @ ?a # B)" unfolding levels_ok_def
  proof (intro allI impI)
    fix l assume l: "l < SK_MAX"
    let ?f = "filter (\<lambda>x. l < n_height (ns ! x))"
    have f: "filter (\<lambda>x. l < n_height (ns' ! x)) A = ?f A" "filter (\<lambda>x. l < n_height (ns' ! x)) B = ?f B"
      using old(2) ab by (auto intro: filter_cong)
    have ch: "chain ns l 0 (?f A @ ?f B)" using lo l by (simp add: levels_ok_def)
    have all: "x < ?a" if "x \<in> set (0 # ?f A @ ?f B)" for x using that ab rng(3) by auto
    show "chain ns' l 0 (filter (\<lambda>x. l < n_height (ns' ! x)) (A @ ?a # B))"
    proof (cases "l < ?h")
      case True
      have "chain ns' l 0 (?f A @ ?a # ?f B)"
      proof (rule level_insert [OF ch])
        show "last (0 # ?f A) = path_of ns A l" by (simp add: path_of_def)
        have "distinct (A @ B)" "0 \<notin> set (A @ B)" using no rng(2) unfolding nodes_ok_def by blast+
        then show "distinct (0 # ?f A @ ?f B)" by auto
        show "?a \<notin> set (0 # ?f A @ ?f B)" using all by blast
        show "nexts (ns' ! path_of ns A l) ! l = Some ?a" using old(4) [OF path_of_ok(1) [OF no l]] True by simp
        show "nexts (ns' ! ?a) ! l = nexts (ns ! path_of ns A l) ! l" using new(4) [OF True] .
        show "nexts (ns' ! y) ! l = nexts (ns ! y) ! l" if "y \<in> set (0 # ?f A @ ?f B)" "y \<noteq> path_of ns A l" for y
          using old(4) [OF all [OF that(1)]] that(2) by simp
      qed
      then show ?thesis using True f new(2) by simp
    next
      case False
      have "chain ns' l 0 (?f A @ ?f B)" by (rule level_cong [OF ch]) (use old(4) all False in auto)
      then show ?thesis using False f new(2) by simp
    qed
  qed
  ultimately show "sk_ok ns' (A @ ?a # B)" by (simp add: sk_ok_def)
qed

text \<open>Insertion on the list.\<close>

definition put_in :: "ent \<Rightarrow> bool \<Rightarrow> ent list \<Rightarrow> ent list" where
  "put_in e replace es =
     (let rest = from_on (key_of e) es
      in before (key_of e) es @ e # (if replace \<and> rest \<noteq> [] \<and> key_of (hd rest) = key_of e then tl rest else rest))"

lemma count_tree_nodes [simp]: "nodes (sk_count_tree s i) = nodes s" "sk_count (sk_count_tree s i) = sk_count s"
  by (simp_all add: sk_count_tree_def split: option.splits)

lemma sk_add_nodes:
  assumes "draw_height 1 (sk_rng s) = (h, r)"
  shows "nodes (sk_add s prev e) = link_levels h (length (nodes s)) prev
    (nodes s @ [\<lparr>e_key = e_key e, e_seq = e_seq e, e_type = e_type e, e_val = e_val e, n_height = h, nexts = replicate h None\<rparr>])"
  using assms by (simp add: sk_add_def Let_def)

lemma replace_ok:
  assumes "sk_ok ns ord" "a \<in> set ord" "ns' = ns[a := (ns ! a)\<lparr>e_val := v, e_type := t\<rparr>]"
  shows "sk_ok ns' ord"
proof -
  have a: "a < length ns" using nodes_range(1) assms(1,2) by (auto simp: sk_ok_def)
  have x: "ns' ! x = (if x = a then (ns ! a)\<lparr>e_val := v, e_type := t\<rparr> else ns ! x)" for x using a by (simp add: assms(3))
  have n: "n_height (ns' ! x) = n_height (ns ! x)" "nexts (ns' ! x) = nexts (ns ! x)" "key_of (ns' ! x) = key_of (ns ! x)" for x
    by (simp_all add: x key_of_def)
  have "chain ns' l x xs = chain ns l x xs" for l x xs by (induction xs arbitrary: x) (simp_all add: n)
  moreover have "length ns' = length ns" "ns' \<noteq> [] \<longleftrightarrow> ns \<noteq> []" by (simp_all add: assms(3))
  ultimately show ?thesis using assms(1) unfolding sk_ok_def nodes_ok_def levels_ok_def sk_sorted_def n by simp
qed

theorem sk_insert_spec:
  assumes "holds s es" "sk_count s = length es"
  shows "\<exists>s'. sk_insert s e replace = Some s' \<and> holds s' (put_in e replace es) \<and> sk_count s' = length (put_in e replace es)"
proof -
  obtain ord where o: "sk_ok (nodes s) ord" "es = map (\<lambda>a. sk_ent (nodes s ! a)) ord" using assms by (auto simp: holds_def)
  let ?ns = "nodes s"
  obtain A B where sp: "split_at ?ns (key_of e) ord = (A, B)" by fastforce
  have so: "sk_sorted ?ns ord" using o(1) by (simp add: sk_ok_def)
  note ab = split_at [OF sp so]
  have ok: "sk_ok ?ns (A @ B)" using o(1) ab(1) by simp
  have path: "sk_path s (e_key e) (e_seq e) = Some (map (path_of ?ns A) [0..<SK_MAX])"
    using sk_path_spec [OF o(1)] sp by (simp add: key_of_def)
  have nxt: "nexts (?ns ! (map (path_of ?ns A) [0..<SK_MAX] ! 0)) ! 0 = (case B of [] \<Rightarrow> None | b # _ \<Rightarrow> Some b)"
    using path_0(2) [OF o(1) ab(1)] by (simp add: map_nth_0)
  have es: "before (key_of e) es = map (\<lambda>a. sk_ent (?ns ! a)) A" "from_on (key_of e) es = map (\<lambda>a. sk_ent (?ns ! a)) B"
    using split_entries [OF sp] by (simp_all add: o(2))
  have lab: "length es = length A + length B" using o(2) ab(1) by simp
  let ?prev = "map (path_of ?ns A) [0..<SK_MAX]"
  have add: "holds (sk_add s ?prev e) (before (key_of e) es @ e # from_on (key_of e) es) \<and> sk_count (sk_add s ?prev e) = Suc (length es)"
  proof -
    obtain h r where h: "draw_height 1 (sk_rng s) = (h, r)" by fastforce
    let ?n = "\<lparr>e_key = e_key e, e_seq = e_seq e, e_type = e_type e, e_val = e_val e, n_height = h, nexts = replicate h None\<rparr>"
    have hb: "1 \<le> h" "h \<le> SK_MAX" using draw_height_bounds [OF _ _ h] by (simp_all add: SK_MAX_def)
    have k: "key_of ?n = key_of e" "sk_ent ?n = e" by (simp_all add: key_of_def sk_ent_def ent.defs)
    have "sk_ok (nodes (sk_add s ?prev e)) (A @ length ?ns # B)"
      "map (\<lambda>x. sk_ent (nodes (sk_add s ?prev e) ! x)) (A @ length ?ns # B) = map (\<lambda>x. sk_ent (?ns ! x)) A @ e # map (\<lambda>x. sk_ent (?ns ! x)) B"
      using add_ok [OF ok, of ?n "nodes (sk_add s ?prev e)"] ab(2,3) hb k sk_add_nodes [OF h, of ?prev e] by simp_all
    then have "holds (sk_add s ?prev e) (before (key_of e) es @ e # from_on (key_of e) es)"
      unfolding holds_def es by metis
    moreover have "sk_count (sk_add s ?prev e) = Suc (length es)" using assms(2) h by (simp add: sk_add_def Let_def)
    ultimately show ?thesis by simp
  qed
  show ?thesis
  proof (cases B)
    case Nil
    then have i: "sk_insert s e replace = Some (sk_add s ?prev e)" using path nxt by (simp add: sk_insert_def)
    then show ?thesis using add es(1,2) lab Nil by (simp add: put_in_def)
  next
    case (Cons b B')
    let ?hit = "replace \<and> key_of (?ns ! b) = key_of e"
    have i: "sk_insert s e replace = Some (if ?hit then sk_replace s b e else sk_add s ?prev e)"
      using path nxt Cons by (auto simp: sk_insert_def key_of_def)
    show ?thesis
    proof (cases ?hit)
      case False
      then have "put_in e replace es = before (key_of e) es @ e # from_on (key_of e) es"
        using Cons by (auto simp: put_in_def es(2) Let_def)
      then show ?thesis using i False add lab es by simp
    next
      case True
      have bo: "b \<in> set ord" "distinct ord" using ab(1) Cons o(1) by (auto simp: sk_ok_def nodes_ok_def)
      have len: "b < length ?ns" using nodes_range(1) bo o(1) by (auto simp: sk_ok_def)
      let ?s = "sk_replace s b e"
      have "sk_ok (nodes ?s) ord" by (rule replace_ok [OF o(1) bo(1)]) (simp add: sk_replace_def)
      moreover have "map (\<lambda>a. sk_ent (nodes ?s ! a)) ord = map (\<lambda>a. sk_ent (?ns ! a)) A @ e # map (\<lambda>a. sk_ent (?ns ! a)) B'"
      proof -
        have "sk_ent (nodes ?s ! x) = (if x = b then e else sk_ent (?ns ! x))" for x
          using len True by (cases e) (auto simp: sk_replace_def nth_list_update sk_ent_def ent.defs key_of_def)
        then show ?thesis using ab(1) Cons bo(2) by auto
      qed
      ultimately have "holds ?s (put_in e replace es)"
        using True Cons unfolding holds_def put_in_def es by (auto simp: Let_def)
      then show ?thesis using i True lab Cons assms(2) es by (auto simp: put_in_def sk_replace_def)
    qed
  qed
qed

lemma sk_init_holds: "holds sk_init [] \<and> sk_count sk_init = 0"
  by (auto simp: holds_def sk_ok_def nodes_ok_def levels_ok_def sk_sorted_def sk_init_def intro: exI [of _ "[]"])

section \<open>What a memtable holds\<close>

primrec sk_inserts :: "(ent \<times> bool) list \<Rightarrow> skip \<Rightarrow> skip option" where
  "sk_inserts [] s = Some s"
| "sk_inserts (x # xs) s = Option.bind (sk_insert s (fst x) (snd x)) (sk_inserts xs)"

definition put_all :: "(ent \<times> bool) list \<Rightarrow> ent list \<Rightarrow> ent list" where
  "put_all xs es = foldl (\<lambda>es (e, replace). put_in e replace es) es xs"

lemma inserts_hold:
  "holds s es \<Longrightarrow> sk_count s = length es \<Longrightarrow>
   \<exists>s'. sk_inserts xs s = Some s' \<and> holds s' (put_all xs es) \<and> sk_count s' = length (put_all xs es)"
proof (induction xs arbitrary: s es)
  case (Cons x xs)
  obtain s1 where 1: "sk_insert s (fst x) (snd x) = Some s1" "holds s1 (put_in (fst x) (snd x) es)"
    "sk_count s1 = length (put_in (fst x) (snd x) es)"
    using sk_insert_spec [OF Cons.prems] by blast
  show ?case using Cons.IH [OF 1(2,3)] 1(1) by (simp add: put_all_def case_prod_beta)
qed (simp add: put_all_def)

lemma inserted_memtable:
  "\<exists>s. sk_inserts xs sk_init = Some s \<and> holds s (put_all xs []) \<and> sk_count s = length (put_all xs [])"
  using inserts_hold [of sk_init "[]" xs] sk_init_holds by simp

lemma holds_sorted: "holds s es \<Longrightarrow> sorted_wrt (\<lambda>a b. \<not> key_lt (key_of b) (key_of a)) es"
  by (auto simp: holds_def sk_ok_def sk_sorted_def sorted_wrt_map)

text \<open>C33. The memtable is the sorted list of its entries: whatever is inserted, every operation ends, the
  entries stand in order (a key's newest version first; with \<open>replace\<close> one of the same key and sequence
  is overwritten), and the two searches give the first entry at or after a position and the last before it.\<close>

theorem memtable_is_sorted_list:
  "\<exists>s. sk_inserts xs sk_init = Some s \<and> sk_count s = length (put_all xs []) \<and>
     sorted_wrt (\<lambda>a b. \<not> key_lt (key_of b) (key_of a)) (put_all xs []) \<and>
     (\<exists>r. sk_ge s k q = Some r \<and> map_option (\<lambda>a. sk_ent (nodes s ! a)) r = first_of (from_on (k, q) (put_all xs []))) \<and>
     (\<exists>r. sk_lt s k q = Some r \<and> map_option (\<lambda>a. sk_ent (nodes s ! a)) r = last_of (before (k, q) (put_all xs [])))"
proof -
  obtain s where s: "sk_inserts xs sk_init = Some s" "holds s (put_all xs [])" "sk_count s = length (put_all xs [])"
    using inserted_memtable by blast
  then show ?thesis using sk_ge_spec [OF s(2)] sk_lt_spec [OF s(2)] holds_sorted [OF s(2)] by (intro exI [of _ s]) simp
qed

lemma put_in_set: "set (put_in e False es) = insert e (set es)"
proof -
  have "set (before (key_of e) es @ from_on (key_of e) es) = set es" by (simp add: before_def from_on_def)
  then show ?thesis by (auto simp: put_in_def Let_def)
qed

lemma put_all_set: "set (put_all (map (\<lambda>e. (e, False)) es) acc) = set es \<union> set acc"
  by (induction es arbitrary: acc) (auto simp: put_all_def put_in_set)

text \<open>The newest version of a key: on a sorted list, the first entry at or after \<open>(k, q)\<close>.\<close>

definition newest :: "bytes \<Rightarrow> u64 \<Rightarrow> ent set \<Rightarrow> ent \<Rightarrow> bool" where
  "newest k q E e \<longleftrightarrow> e \<in> E \<and> e_key e = k \<and> e_seq e \<le> q \<and> (\<forall>x \<in> E. e_key x = k \<longrightarrow> e_seq x \<le> q \<longrightarrow> e_seq x \<le> e_seq e)"

lemma first_is_newest:
  assumes "sorted_wrt (\<lambda>a b. \<not> key_lt (key_of b) (key_of a)) es"
  shows "case first_of (from_on (k, q) es) of
      Some e \<Rightarrow> if e_key e = k then newest k q (set es) e else \<not> (\<exists>x \<in> set es. e_key x = k \<and> e_seq x \<le> q)
    | None \<Rightarrow> \<not> (\<exists>x \<in> set es. e_key x = k \<and> e_seq x \<le> q)"
proof -
  let ?P = "\<lambda>e. key_lt (key_of e) (k, q)"
  have in_from: "x \<in> set (from_on (k, q) es)" if "x \<in> set es" "\<not> ?P x" for x
  proof -
    have "es = before (k, q) es @ from_on (k, q) es" by (simp add: before_def from_on_def)
    moreover have "x \<notin> set (before (k, q) es)" using that(2) by (auto simp: before_def dest: set_takeWhileD)
    ultimately show ?thesis using that(1) by (metis Un_iff set_append)
  qed
  have old: "\<not> ?P x" if "e_key x = k" "e_seq x \<le> q" for x using that by (auto simp: key_lt_def key_of_def)
  show ?thesis
  proof (cases "from_on (k, q) es")
    case Nil
    then show ?thesis using in_from old by (auto simp: first_of_def)
  next
    case (Cons e rest)
    have e: "e \<in> set es" "\<not> ?P e"
      using Cons hd_dropWhile [of ?P es] set_dropWhileD [of e ?P es] by (auto simp: from_on_def)
    have le: "\<not> key_lt (key_of x) (key_of e)" if "x \<in> set es" "e_key x = k" "e_seq x \<le> q" for x
    proof -
      have "x \<in> set (e # rest)" using in_from [OF that(1) old [OF that(2,3)]] Cons by simp
      moreover have "sorted_wrt (\<lambda>a b. \<not> key_lt (key_of b) (key_of a)) (e # rest)"
        using sorted_wrt_drop [OF assms] Cons by (metis dropWhile_eq_drop from_on_def)
      ultimately show ?thesis by auto
    qed
    have seq: "e_seq e \<le> q" if "e_key e = k" using e(2) that by (auto simp: key_lt_def key_of_def not_less)
    have "newest k q (set es) e" if "e_key e = k"
      using that e(1) seq le by (auto simp: newest_def key_lt_def key_of_def not_less)
    moreover have False if "e_key e \<noteq> k" "x \<in> set es" "e_key x = k" "e_seq x \<le> q" for x
    proof -
      have "\<not> e_key e < k" using e(2) by (auto simp: key_lt_def key_of_def)
      moreover have "\<not> k < e_key e" using le [OF that(2-4)] that(3) by (auto simp: key_lt_def key_of_def)
      ultimately show False using that(1) by simp
    qed
    ultimately show ?thesis using Cons by (auto simp: first_of_def)
  qed
qed

text \<open>C34. A read of the memtable at sequence \<open>q\<close> finds the key's newest version that is not newer than \<open>q\<close>,
  and finds another key or nothing exactly where none was inserted, in whatever order the versions came.\<close>

theorem memtable_reads_newest:
  "\<exists>s r. sk_inserts (map (\<lambda>e. (e, False)) es) sk_init = Some s \<and> sk_ge s k q = Some r \<and>
     (case r of
        Some a \<Rightarrow> if e_key (nodes s ! a) = k then newest k q (set es) (sk_ent (nodes s ! a)) else \<not> (\<exists>x. x \<in> set es \<and> e_key x = k \<and> e_seq x \<le> q)
      | None \<Rightarrow> \<not> (\<exists>x. x \<in> set es \<and> e_key x = k \<and> e_seq x \<le> q))"
proof -
  let ?xs = "map (\<lambda>e. (e, False)) es"
  obtain s where s: "sk_inserts ?xs sk_init = Some s" "holds s (put_all ?xs [])"
    using inserted_memtable by blast
  obtain r where r: "sk_ge s k q = Some r" "map_option (\<lambda>a. sk_ent (nodes s ! a)) r = first_of (from_on (k, q) (put_all ?xs []))"
    using sk_ge_spec [OF s(2)] by blast
  have "set (put_all ?xs []) = set es" by (simp add: put_all_set)
  then show ?thesis using s(1) r first_is_newest [OF holds_sorted [OF s(2)], of k q]
    by (cases r) (auto simp: r(2) [symmetric] intro!: exI [of _ s])
qed

end
