(* ===== verification/Sorted_File.thy ===== *)
theory Sorted_File
  imports Io_Ops Skiplist Chars
begin

text \<open>
  The sorted files of \<^verbatim>\<open>src/gsql/lsm.c\<close>, written and read through the I/O layer: headers, blocks of
  entries, the index, the Bloom filter, the footer, and the blob files of long values. A builder and
  a file record are the code's without the cache of read handles: reading is given the open handle.
  Lengths and offsets are natural numbers, but sums the code compares in 64 bits are kept modulo
  \<open>2 ^ 64\<close>; memory is not exhausted.
\<close>

section \<open>Headers and blocks\<close>

definition SEAL :: nat where "SEAL = 28"
definition FHDR :: nat where "FHDR = 64"
definition FOOTER :: nat where "FOOTER = 64"
definition TRAIL :: nat where "TRAIL = 4 + SEAL + 4"
definition BLOB_PTR :: nat where "BLOB_PTR = 24"
definition FK_SORTED :: byte where "FK_SORTED = 1"
definition FK_BLOB :: byte where "FK_BLOB = 2"
definition GS_FORMAT_MAJOR :: u16 where "GS_FORMAT_MAJOR = 1"
definition GS_FORMAT_MINOR :: u16 where "GS_FORMAT_MINOR = 0"

definition BLOB_REC :: "nat \<Rightarrow> nat" where
  "BLOB_REC n = n + SEAL"

text \<open>The part of the store the files depend on.\<close>

record engine =
  db_path :: string
  db_identity :: bytes
  db_block :: nat
  db_vsep :: nat
  db_next_file :: u64
  db_failed :: bool

definition fhdr_build :: "bytes \<Rightarrow> byte \<Rightarrow> u64 \<Rightarrow> bytes" where
  "fhdr_build ident kind num =
     (let p = replicate FHDR 0;
          p = poke 0 GS_MAGIC p;
          p = poke 8 (put_le 2 GS_FORMAT_MAJOR) p;
          p = poke 10 (put_le 2 GS_FORMAT_MINOR) p;
          p = poke 12 [kind] p;
          p = poke 16 ident p;
          p = poke 32 (put_le 8 num) p
      in poke 60 (put_le 4 (crc32c (take 60 p))) p)"

definition fhdr_check :: "bytes \<Rightarrow> byte \<Rightarrow> u64 \<Rightarrow> bytes \<Rightarrow> gs_status" where
  "fhdr_check ident kind num p =
     (if peek 0 8 p \<noteq> GS_MAGIC \<or> get_le (peek 60 4 p) \<noteq> crc32c (take 60 p) then GS_CORRUPT
      else if get_le (peek 8 2 p) \<noteq> GS_FORMAT_MAJOR then GS_FORMAT
      else if (p ! 13) AND 1 \<noteq> 0 then GS_FORMAT
      else if (p ! 13) AND NOT 1 \<noteq> 0 \<and> get_le (peek 10 2 p) \<le> GS_FORMAT_MINOR then GS_CORRUPT
      else if p ! 12 \<noteq> kind \<or> peek 16 16 p \<noteq> ident \<or> get_le (peek 32 8 p) \<noteq> num then GS_CORRUPT
      else GS_OK)"

definition seal_block :: "bytes \<Rightarrow> nat \<Rightarrow> bytes" where
  "seal_block blk count =
     (let blk = blk @ put_le 4 (of_nat count :: u32) @ replicate SEAL 0
      in blk @ put_le 4 (crc32c blk))"

definition check_block :: "bytes \<Rightarrow> gs_status" where
  "check_block b =
     (if length b < TRAIL then GS_CORRUPT
      else if get_le (peek (length b - 4) 4 b) = crc32c (take (length b - 4) b) then GS_OK else GS_CORRUPT)"

section \<open>The Bloom filter\<close>

definition key_hash64 :: "bytes \<Rightarrow> u64" where
  "key_hash64 k =
     (let h = foldl (\<lambda>h b. (h XOR ucast b) * 1099511628211) 1469598103934665603 k;
          h = h XOR drop_bit 33 h;
          h = h * 0xff51afd7ed558ccd
      in h XOR drop_bit 33 h)"

definition bloom_step :: "u64 \<Rightarrow> u64" where
  "bloom_step h = drop_bit 33 h OR push_bit 31 h"

definition bloom_bit :: "u64 \<Rightarrow> nat \<Rightarrow> nat \<Rightarrow> nat" where
  "bloom_bit h j bits = unat ((h + of_nat j * bloom_step h) mod of_nat bits)"

definition set_bit_at :: "nat \<Rightarrow> bytes \<Rightarrow> bytes" where
  "set_bit_at i bs = bs[i div 8 := bs ! (i div 8) OR push_bit (i mod 8) 1]"

primrec set_probes :: "u64 \<Rightarrow> nat \<Rightarrow> nat \<Rightarrow> bytes \<Rightarrow> bytes" where
  "set_probes h bits 0 bs = bs"
| "set_probes h bits (Suc j) bs = set_bit_at (bloom_bit h j bits) (set_probes h bits j bs)"

definition bloom_build :: "u64 list \<Rightarrow> nat \<times> bytes" where
  "bloom_build hashes =
     (let bits = length hashes * 10 + 64
      in (bits, foldl (\<lambda>bs h. set_probes h bits 7 bs) (replicate (bits div 8 + 1) 0) hashes))"

primrec probes_set :: "u64 \<Rightarrow> nat \<Rightarrow> bytes \<Rightarrow> nat \<Rightarrow> bool" where
  "probes_set h bits bs 0 \<longleftrightarrow> True"
| "probes_set h bits bs (Suc j) \<longleftrightarrow>
     probes_set h bits bs j \<and> bs ! (bloom_bit h j bits div 8) AND push_bit (bloom_bit h j bits mod 8) 1 \<noteq> 0"

definition bloom_may :: "bytes \<Rightarrow> nat \<Rightarrow> bytes \<Rightarrow> bool" where
  "bloom_may bloom bits k = probes_set (key_hash64 k) bits bloom 7"

section \<open>Writing a sorted file\<close>

definition file_name :: "engine \<Rightarrow> u64 \<Rightarrow> string" where
  "file_name db num = gs_path_with (db_path db) (''.'' @ decimal (unat num) @ ''.sst'')"

definition blob_name :: "engine \<Rightarrow> u64 \<Rightarrow> string" where
  "blob_name db num = gs_path_with (db_path db) (''.'' @ decimal (unat num) @ ''.blob'')"

record 'f builder =
  b_file :: "'f option"
  b_num :: u64
  b_off :: nat
  b_entries :: nat
  b_block :: bytes
  b_index :: bytes
  b_ents :: nat
  b_last :: bytes
  b_lastseq :: u64
  b_hashes :: "u64 list"
  b_smallest :: bytes
  b_small_seq :: u64
  b_rc :: gs_status
  b_bfile :: "'f option"
  b_bnum :: u64
  b_boff :: nat
  b_blobs :: "(u64 \<times> nat) list"
  b_track :: "u64 list"

definition new_builder :: "'f builder" where
  "new_builder =
     \<lparr>b_file = None, b_num = 0, b_off = 0, b_entries = 0, b_block = [], b_index = [], b_ents = 0, b_last = [],
      b_lastseq = 0, b_hashes = [], b_smallest = [], b_small_seq = 0, b_rc = GS_OK, b_bfile = None, b_bnum = 0,
      b_boff = 0, b_blobs = [], b_track = []\<rparr>"

definition bld_write :: "('w, 'f, 'c) io_ops \<Rightarrow> bytes \<Rightarrow> 'f builder \<Rightarrow> 'w \<Rightarrow> 'f builder \<times> 'w" where
  "bld_write io p b w =
     (if b_rc b \<noteq> GS_OK then (b, w)
      else let (rc, w) = op_write_at io (the (b_file b)) (b_off b) p w
           in if rc \<noteq> IO_OK then (b\<lparr>b_rc := gs_io_status rc\<rparr>, w) else (b\<lparr>b_off := b_off b + length p\<rparr>, w))"

text \<open>A new file, created and emptied (\<^verbatim>\<open>bld_open\<close> and \<^verbatim>\<open>bld_blob\<close>): the status, the handle.\<close>

definition fresh_file :: "('w, 'f, 'c) io_ops \<Rightarrow> string \<Rightarrow> 'w \<Rightarrow> gs_status \<times> 'f option \<times> 'w" where
  "fresh_file io name w =
     (let (rc, f, w) = op_open io name {IO_CREATE} w
      in if rc \<noteq> IO_OK then (gs_io_status rc, None, w)
      else let (rc, w) = op_truncate io (the f) 0 w in (gs_io_status rc, f, w))"

definition bld_open :: "('w, 'f, 'c) io_ops \<Rightarrow> engine \<Rightarrow> 'w \<Rightarrow> 'f builder \<times> engine \<times> 'w" where
  "bld_open io db w =
     (let b = new_builder\<lparr>b_num := db_next_file db\<rparr>;
          db = db\<lparr>db_next_file := db_next_file db + 1\<rparr>;
          name = file_name db (b_num b);
          (rc, f, w) = fresh_file io name w;
          (f, w) = (if rc \<noteq> GS_OK \<and> f \<noteq> None then (None, snd (op_remove io name (snd (op_close io (the f) w)))) else (f, w));
          b = b\<lparr>b_file := f, b_rc := rc\<rparr>;
          (b, w) = (if rc = GS_OK then bld_write io (fhdr_build (db_identity db) FK_SORTED (b_num b)) b w else (b, w))
      in (b, db, w))"

definition index_entry :: "bytes \<Rightarrow> u64 \<Rightarrow> nat \<Rightarrow> nat \<Rightarrow> bytes" where
  "index_entry k q off n =
     varint_put (of_nat (length k)) @ k @ put_le 8 q @ put_le 8 (of_nat off :: u64) @ put_le 4 (of_nat n :: u32)"

definition bld_finish_block :: "('w, 'f, 'c) io_ops \<Rightarrow> 'f builder \<Rightarrow> 'w \<Rightarrow> 'f builder \<times> 'w" where
  "bld_finish_block io b w =
     (if b_ents b = 0 then (b, w)
      else let blk = seal_block (b_block b) (b_ents b);
               b = b\<lparr>b_index := b_index b @ index_entry (b_last b) (b_lastseq b) (b_off b) (length blk)\<rparr>;
               (b, w) = bld_write io blk b w
           in (b\<lparr>b_block := [], b_ents := 0\<rparr>, w))"

fun blob_note :: "(u64 \<times> nat) list \<Rightarrow> u64 \<Rightarrow> nat \<Rightarrow> (u64 \<times> nat) list" where
  "blob_note [] num n = [(num, n)]"
| "blob_note ((i, m) # bs) num n = (if i = num then (i, m + n) # bs else (i, m) # blob_note bs num n)"

definition bld_ref :: "u64 \<Rightarrow> nat \<Rightarrow> 'f builder \<Rightarrow> 'f builder" where
  "bld_ref num n b = b\<lparr>b_blobs := blob_note (b_blobs b) num n\<rparr>"

text \<open>The blob file of a builder, opened at the first long value.\<close>

definition blob_file :: "('w, 'f, 'c) io_ops \<Rightarrow> 'f builder \<Rightarrow> engine \<Rightarrow> 'w \<Rightarrow> gs_status \<times> 'f builder \<times> engine \<times> 'w" where
  "blob_file io b db w =
     (if b_bfile b \<noteq> None then (GS_OK, b, db, w)
      else let num = db_next_file db;
               db = db\<lparr>db_next_file := num + 1\<rparr>;
               b = b\<lparr>b_bnum := num, b_track := b_track b @ [num]\<rparr>;
               (rc, f, w) = fresh_file io (blob_name db num) w
      in if rc \<noteq> GS_OK then
           let w = (if f \<noteq> None then snd (op_close io (the f) w) else w);
               (_, w) = op_remove io (blob_name db num) w
           in (rc, b\<lparr>b_bfile := None\<rparr>, db, w)
         else let (rc, w) = op_write_at io (the f) 0 (fhdr_build (db_identity db) FK_BLOB num) w
              in if rc \<noteq> IO_OK then (gs_io_status rc, b\<lparr>b_bfile := f\<rparr>, db, w)
                 else (GS_OK, b\<lparr>b_bfile := f, b_boff := FHDR\<rparr>, db, w))"

definition blob_ptr :: "u64 \<Rightarrow> nat \<Rightarrow> bytes \<Rightarrow> bytes" where
  "blob_ptr num off v =
     put_le 8 num @ put_le 8 (of_nat off :: u64) @ put_le 4 (of_nat (length v) :: u32) @
       put_le 4 (crc32c_extend_portable (crc32c (replicate SEAL 0)) v)"

definition bld_blob ::
  "('w, 'f, 'c) io_ops \<Rightarrow> bytes \<Rightarrow> 'f builder \<Rightarrow> engine \<Rightarrow> 'w \<Rightarrow> gs_status \<times> bytes \<times> 'f builder \<times> engine \<times> 'w" where
  "bld_blob io v b db w =
     (let (rc, b, db, w) = blob_file io b db w
      in if rc \<noteq> GS_OK then (rc, [], b, db, w)
      else let (rc, w) = op_write_at io (the (b_bfile b)) (b_boff b) (replicate SEAL 0) w;
               (rc, w) = (if rc = IO_OK then op_write_at io (the (b_bfile b)) (b_boff b + SEAL) v w else (rc, w))
           in if rc \<noteq> IO_OK then (gs_io_status rc, [], b, db, w)
              else let p = blob_ptr (b_bnum b) (b_boff b) v;
                       b = b\<lparr>b_boff := b_boff b + BLOB_REC (length v)\<rparr>
                   in (GS_OK, p, bld_ref (b_bnum b) (BLOB_REC (length v)) b, db, w))"

text \<open>The entry as stored, and the block's new bytes.\<close>

definition stored_entry :: "ent \<Rightarrow> bytes" where
  "stored_entry e =
     varint_put (of_nat (length (e_key e))) @ e_key e @ put_le 8 (e_seq e) @ [e_type e] @
       varint_put (of_nat (length (e_val e))) @ e_val e"

definition bld_append :: "('w, 'f, 'c) io_ops \<Rightarrow> ent \<Rightarrow> 'f builder \<Rightarrow> engine \<Rightarrow> 'w \<Rightarrow> 'f builder \<times> 'w" where
  "bld_append io e b db w =
     (let b = (if b_entries b = 0 then b\<lparr>b_smallest := e_key e, b_small_seq := e_seq e\<rparr> else b);
          b = (if b_entries b = 0 \<or> b_last b \<noteq> e_key e then b\<lparr>b_hashes := b_hashes b @ [key_hash64 (e_key e)]\<rparr> else b);
          b = b\<lparr>b_block := b_block b @ stored_entry e, b_last := e_key e, b_lastseq := e_seq e,
                b_ents := b_ents b + 1, b_entries := b_entries b + 1\<rparr>
      in if db_block db \<le> length (b_block b) then bld_finish_block io b w else (b, w))"

definition bld_add :: "('w, 'f, 'c) io_ops \<Rightarrow> ent \<Rightarrow> 'f builder \<Rightarrow> engine \<Rightarrow> 'w \<Rightarrow> 'f builder \<times> engine \<times> 'w" where
  "bld_add io e b db w =
     (if b_rc b \<noteq> GS_OK then (b, db, w)
      else if e_type e = TYPE_PUT \<and> db_vsep db \<noteq> 0 \<and> db_vsep db \<le> length (e_val e) then
        let (rc, p, b, db, w) = bld_blob io (e_val e) b db w
        in if rc \<noteq> GS_OK then (b\<lparr>b_rc := rc\<rparr>, db, w)
           else let (b, w) = bld_append io (e\<lparr>e_type := TYPE_BLOB, e_val := p\<rparr>) b db w in (b, db, w)
      else let b = (if e_type e = TYPE_BLOB \<and> length (e_val e) = BLOB_PTR
                    then bld_ref (get_le (peek 0 8 (e_val e))) (BLOB_REC (unat (get_le (peek 16 4 (e_val e)) :: u32))) b
                    else b);
               (b, w) = bld_append io e b db w
           in (b, db, w))"

definition flush_file :: "('w, 'f, 'c) io_ops \<Rightarrow> engine \<Rightarrow> 'f \<Rightarrow> 'w \<Rightarrow> gs_status \<times> engine \<times> 'w" where
  "flush_file io db f w =
     (let (rc, w) = op_sync io f w
      in if rc \<noteq> IO_OK then (GS_IO, db\<lparr>db_failed := True\<rparr>, w) else (GS_OK, db, w))"

text \<open>What the manifest keeps of a file.\<close>

record file_meta =
  m_num :: u64
  m_size :: nat
  m_entries :: nat
  m_smallest :: bytes
  m_largest :: bytes
  m_small_seq :: u64
  m_large_seq :: u64
  m_seq_over :: u64
  m_blobs :: "(u64 \<times> nat) list"
  m_own_blob :: u64

definition footer :: "nat \<Rightarrow> nat \<Rightarrow> nat \<Rightarrow> nat \<Rightarrow> nat \<Rightarrow> bytes" where
  "footer ioff isz boff bsz entries =
     (let p = replicate FOOTER 0;
          p = poke 0 (put_le 8 (of_nat ioff :: u64)) p;
          p = poke 8 (put_le 4 (of_nat isz :: u32)) p;
          p = poke 12 (put_le 8 (of_nat boff :: u64)) p;
          p = poke 20 (put_le 4 (of_nat bsz :: u32)) p;
          p = poke 24 (put_le 8 (of_nat entries :: u64)) p
      in poke 60 (put_le 4 (crc32c (take 60 p))) p)"

definition built_meta :: "'f builder \<Rightarrow> file_meta" where
  "built_meta b =
     \<lparr>m_num = b_num b, m_size = b_off b, m_entries = b_entries b, m_smallest = b_smallest b, m_largest = b_last b,
      m_small_seq = b_small_seq b, m_large_seq = b_lastseq b, m_seq_over = 0, m_blobs = b_blobs b, m_own_blob = b_bnum b\<rparr>"

text \<open>The writes of \<^verbatim>\<open>bld_close\<close>: index, Bloom filter and footer.\<close>

definition bld_tail :: "('w, 'f, 'c) io_ops \<Rightarrow> 'f builder \<Rightarrow> 'w \<Rightarrow> 'f builder \<times> 'w" where
  "bld_tail io b w =
     (let (b, w) = bld_finish_block io b w;
          ioff = b_off b;
          index = seal_block (b_index b) (b_entries b);
          (b, w) = bld_write io index b w;
          (bits, bloom) = bloom_build (b_hashes b);
          boff = b_off b;
          bloom = seal_block bloom bits;
          (b, w) = bld_write io bloom b w
      in bld_write io (footer ioff (length index) boff (length bloom) (b_entries b)) b w)"

definition bld_close :: "('w, 'f, 'c) io_ops \<Rightarrow> 'f builder \<Rightarrow> engine \<Rightarrow> 'w \<Rightarrow> gs_status \<times> file_meta option \<times> engine \<times> 'w" where
  "bld_close io b db w =
     (let (b, w) = bld_tail io b w;
          (rc, db, w) = (if b_rc b = GS_OK \<and> b_bfile b \<noteq> None then flush_file io db (the (b_bfile b)) w else (b_rc b, db, w));
          (rc, db, w) = (if rc = GS_OK then flush_file io db (the (b_file b)) w else (rc, db, w));
          w = (if b_bfile b \<noteq> None then snd (op_close io (the (b_bfile b)) w) else w)
      in if rc = GS_OK \<and> b_entries b \<noteq> 0 then (rc, Some (built_meta b), db, w)
         else let w = snd (op_close io (the (b_file b)) w);
                  w = snd (op_remove io (file_name db (b_num b)) w);
                  w = (if b_bnum b \<noteq> 0 then snd (op_remove io (blob_name db (b_bnum b)) w) else w)
              in (rc, None, db, w))"

section \<open>Reading a sorted file\<close>

definition read_exact :: "('w, 'f, 'c) io_ops \<Rightarrow> 'f \<Rightarrow> nat \<Rightarrow> nat \<Rightarrow> 'w \<Rightarrow> gs_status \<times> bytes \<times> 'w" where
  "read_exact io f off n w =
     (let (rc, b, w) = op_read_at io f off n w
      in if rc \<noteq> IO_OK then (gs_io_status rc, b, w) else (if length b = n then GS_OK else GS_CORRUPT, b, w))"

record idx_entry =
  i_last :: bytes
  i_lastseq :: u64
  i_off :: nat
  i_size :: nat

text \<open>A sum of the code, in 64 bits.\<close>

definition wrap :: "nat \<Rightarrow> nat" where
  "wrap n = n mod 2 ^ 64"

definition get_nat :: "nat \<Rightarrow> nat \<Rightarrow> bytes \<Rightarrow> nat" where
  "get_nat off n b = unat (get_le (peek off n b) :: u64)"

text \<open>The loop over the index; it is partial because a length that wraps can move backwards.\<close>

partial_function (option) index_loop :: "bytes \<Rightarrow> nat \<Rightarrow> nat \<Rightarrow> nat \<Rightarrow> idx_entry list \<Rightarrow> (gs_status \<times> idx_entry list) option" where
  "index_loop ib stop ioff at acc =
     (if stop \<le> at then Some (GS_OK, acc)
      else case varint_get (peek at (stop - at) ib) of
        None \<Rightarrow> Some (GS_CORRUPT, acc)
      | Some (kn, a) \<Rightarrow>
          if stop < wrap (at + a + unat kn + 20) then Some (GS_CORRUPT, acc)
          else let k = peek (at + a) (unat kn) ib; at = wrap (at + a + unat kn);
                   e = \<lparr>i_last = k, i_lastseq = get_le (peek at 8 ib), i_off = get_nat (at + 8) 8 ib, i_size = get_nat (at + 16) 4 ib\<rparr>
               in if i_off e < FHDR \<or> ioff < wrap (i_off e + i_size e) then Some (GS_CORRUPT, acc @ [e])
                  else index_loop ib stop ioff (at + 20) (acc @ [e]))"

text \<open>What an opened file keeps: the index and the Bloom filter.\<close>

record loaded =
  l_index :: "idx_entry list"
  l_bloom :: bytes
  l_bits :: nat

definition load_index :: "bytes \<Rightarrow> bytes \<Rightarrow> nat \<Rightarrow> (gs_status \<times> loaded option) option" where
  "load_index ib bb ioff =
     map_option (\<lambda>(rc, es).
       if rc \<noteq> GS_OK then (rc, None)
       else let bits = get_nat (length bb - TRAIL) 4 bb
            in if bits div 8 + 1 \<noteq> length bb - TRAIL then (GS_CORRUPT, None)
               else (GS_OK, Some \<lparr>l_index = es, l_bloom = bb, l_bits = bits\<rparr>))
     (index_loop ib (length ib - TRAIL) ioff 0 [])"

text \<open>The reads of \<^verbatim>\<open>file_open\<close>: the status, the index block, the Bloom block, where the index begins.\<close>

definition file_parts ::
  "('w, 'f, 'c) io_ops \<Rightarrow> engine \<Rightarrow> u64 \<Rightarrow> 'f \<Rightarrow> 'w \<Rightarrow> gs_status \<times> bytes \<times> bytes \<times> nat \<times> 'w" where
  "file_parts io db num f w =
     (let (_, n, w) = op_size io f w
      in if n < FHDR + FOOTER then (GS_CORRUPT, [], [], 0, w)
      else let (rc, hd, w) = read_exact io f 0 FHDR w;
               rc = (if rc = GS_OK then fhdr_check (db_identity db) FK_SORTED num hd else rc)
      in if rc \<noteq> GS_OK then (rc, [], [], 0, w)
      else let (rc, foot, w) = read_exact io f (n - FOOTER) FOOTER w
      in if rc \<noteq> GS_OK then (rc, [], [], 0, w)
      else if get_le (peek 60 4 foot) \<noteq> crc32c (take 60 foot) then (GS_CORRUPT, [], [], 0, w)
      else let ioff = get_nat 0 8 foot; isz = get_nat 8 4 foot; boff = get_nat 12 8 foot; bsz = get_nat 20 4 foot
      in if n < wrap (ioff + isz) \<or> n < wrap (boff + bsz) then (GS_CORRUPT, [], [], 0, w)
      else let (rc, ib, w) = read_exact io f ioff isz w;
               rc = (if rc = GS_OK then check_block ib else rc)
      in if rc \<noteq> GS_OK then (rc, [], [], 0, w)
      else let (rc, bb, w) = read_exact io f boff bsz w;
               rc = (if rc = GS_OK then check_block bb else rc)
      in (rc, ib, bb, ioff, w))"

definition file_open ::
  "('w, 'f, 'c) io_ops \<Rightarrow> engine \<Rightarrow> u64 \<Rightarrow> 'f \<Rightarrow> 'w \<Rightarrow> (gs_status \<times> loaded option \<times> 'w) option" where
  "file_open io db num f w =
     (let (rc, ib, bb, ioff, w) = file_parts io db num f w
      in if rc \<noteq> GS_OK then Some (rc, None, w) else map_option (\<lambda>(rc, l). (rc, l, w)) (load_index ib bb ioff))"

text \<open>The entries of a block: at most \<open>count\<close> of them from \<open>at\<close> on; \<open>None\<close> for damage.\<close>

primrec parse_loop :: "bytes \<Rightarrow> nat \<Rightarrow> nat \<Rightarrow> nat \<Rightarrow> ent list \<Rightarrow> (nat \<times> ent list) option" where
  "parse_loop raw stop 0 at acc = Some (at, acc)"
| "parse_loop raw stop (Suc count) at acc =
     (if stop \<le> at then Some (at, acc)
      else case varint_get (peek at (stop - at) raw) of
        None \<Rightarrow> None
      | Some (kn, a) \<Rightarrow>
          if stop < wrap (at + a + unat kn + 9) then None
          else let k = peek (at + a) (unat kn) raw; at = wrap (at + a + unat kn);
                   q = get_le (peek at 8 raw); t = raw ! (at + 8); at = at + 9
          in case varint_get (peek at (stop - at) raw) of
               None \<Rightarrow> None
             | Some (vn, a) \<Rightarrow>
                 if stop < wrap (at + a + unat vn) then None
                 else parse_loop raw stop count (wrap (at + a + unat vn))
                        (acc @ [\<lparr>e_key = k, e_seq = q, e_type = t, e_val = peek (at + a) (unat vn) raw\<rparr>]))"

definition block_parse :: "bytes \<Rightarrow> nat \<Rightarrow> gs_status \<times> ent list" where
  "block_parse raw count =
     (case parse_loop raw (length raw - TRAIL) count 0 [] of
        None \<Rightarrow> (GS_CORRUPT, [])
      | Some (at, es) \<Rightarrow> if length es = count \<and> at = length raw - TRAIL then (GS_OK, es) else (GS_CORRUPT, []))"

definition block_of :: "bytes \<Rightarrow> gs_status \<times> ent list" where
  "block_of raw =
     (if check_block raw \<noteq> GS_OK then (GS_CORRUPT, [])
      else let count = get_nat (length raw - TRAIL) 4 raw
           in if length raw < count then (GS_CORRUPT, []) else block_parse raw count)"

definition block_read :: "('w, 'f, 'c) io_ops \<Rightarrow> idx_entry \<Rightarrow> 'f \<Rightarrow> 'w \<Rightarrow> gs_status \<times> ent list \<times> 'w" where
  "block_read io ie f w =
     (let (rc, raw, w) = read_exact io f (i_off ie) (i_size ie) w
      in if rc \<noteq> GS_OK then (rc, [], w) else let (rc, es) = block_of raw in (rc, es, w))"

definition eseq :: "file_meta \<Rightarrow> u64 \<Rightarrow> u64" where
  "eseq m q = (if m_seq_over m \<noteq> 0 then m_seq_over m else q)"

section \<open>Blob values\<close>

text \<open>\<open>f = None\<close>: the store knows no such blob file. \<open>checked\<close>: its header has been read.\<close>

definition blob_read ::
  "('w, 'f, 'c) io_ops \<Rightarrow> engine \<Rightarrow> bytes \<Rightarrow> 'f option \<Rightarrow> bool \<Rightarrow> 'w \<Rightarrow> gs_status \<times> bytes \<times> bool \<times> 'w" where
  "blob_read io db p f checked w =
     (if length p \<noteq> BLOB_PTR then (GS_CORRUPT, [], checked, w)
      else let num = get_le (peek 0 8 p); off = get_nat 8 8 p; len = get_nat 16 4 p; crc = get_le (peek 20 4 p)
      in case f of
        None \<Rightarrow> (GS_CORRUPT, [], checked, w)
      | Some f \<Rightarrow>
          let (rc, w) = (if checked then (GS_OK, w)
                else let (rc, hd, w) = read_exact io f 0 FHDR w
                     in (if rc = GS_OK then fhdr_check (db_identity db) FK_BLOB num hd else rc, w))
          in if rc \<noteq> GS_OK then (rc, [], checked, w)
             else if off < FHDR then (GS_CORRUPT, [], True, w)
             else let (rc, b, w) = read_exact io f off (BLOB_REC len) w
                  in if rc \<noteq> GS_OK then (rc, [], True, w)
                     else if crc32c b \<noteq> crc then (GS_CORRUPT, [], True, w)
                     else (GS_OK, drop SEAL b, True, w))"

definition val_copy ::
  "('w, 'f, 'c) io_ops \<Rightarrow> engine \<Rightarrow> ent \<Rightarrow> 'f option \<Rightarrow> bool \<Rightarrow> 'w \<Rightarrow> gs_status \<times> bytes \<times> bool \<times> 'w" where
  "val_copy io db e f checked w =
     (if e_type e = TYPE_BLOB then blob_read io db (e_val e) f checked w else (GS_OK, e_val e, checked, w))"

end
