(* ===== verification/Sorted_File_Props.thy ===== *)
theory Sorted_File_Props
  imports Sorted_File
begin

text \<open>
  A sorted file is read back as it was written: its header, every block, the index and the Bloom
  filter. The bytes of a file are described by what the builder was given (\<open>file_image\<close>).
\<close>

lemmas file_sizes = SEAL_def FHDR_def FOOTER_def TRAIL_def BLOB_PTR_def

section \<open>Headers\<close>

lemma fhdr_build_length [simp]: "length ident = 16 \<Longrightarrow> length (fhdr_build ident kind num) = FHDR"
  by (simp add: fhdr_build_def Let_def file_sizes)

lemma nth_poke_in:
  "off + length bs \<le> length p \<Longrightarrow> i < length p \<Longrightarrow> poke off bs p ! i = (if off \<le> i \<and> i < off + length bs then bs ! (i - off) else p ! i)"
  by (auto simp: poke_def nth_append min_def)

lemma fhdr_checks:
  assumes "length ident = 16" "length ident' = 16"
  shows "fhdr_check ident' kind' num' (fhdr_build ident kind num) =
    (if kind' = kind \<and> ident' = ident \<and> num' = num then GS_OK else GS_CORRUPT)"
proof -
  let ?p = "fhdr_build ident kind num"
  have one: "?p ! 12 = kind" "?p ! 13 = 0"
    using assms by (simp_all add: fhdr_build_def Let_def file_sizes nth_poke_in)
  have "peek 0 8 ?p = GS_MAGIC" "get_le (peek 60 4 ?p) = crc32c (take 60 ?p)" "get_le (peek 8 2 ?p) = GS_FORMAT_MAJOR"
    "peek 16 16 ?p = ident" "get_le (peek 32 8 ?p) = num"
    using assms by (simp_all add: fhdr_build_def Let_def file_sizes)
  then show ?thesis using one by (auto simp: fhdr_check_def)
qed

section \<open>Blocks\<close>

lemma seal_length [simp]: "length (seal_block b n) = length b + TRAIL"
  by (simp add: seal_block_def Let_def file_sizes)

lemma seal_checks [simp]: "check_block (seal_block b n) = GS_OK"
  by (simp add: check_block_def seal_block_def Let_def file_sizes peek_def)

lemma get_le_32:
  fixes v :: u32
  shows "unat (get_le (put_le 4 v) :: u64) = unat v"
proof -
  have "(ucast (drop_bit (8 * i) v) :: byte) = ucast (drop_bit (8 * i) (ucast v :: u64))" if "i < 4" for i
    by (rule bit_word_eqI) (use that in \<open>auto simp: bit_simps dest: bit_imp_le_length\<close>)
  then have "put_le 4 v = put_le 4 (ucast v :: u64)" by (simp add: put_le_def)
  then have "get_le (put_le 4 v) = take_bit 32 (ucast v :: u64)" by (simp add: get_le_put_le)
  also have "\<dots> = ucast v" by (rule bit_word_eqI) (auto simp: bit_simps dest: bit_imp_le_length)
  finally show ?thesis using unat_less_2p [of v] by (simp add: unsigned_ucast_eq take_bit_nat_eq_self)
qed

lemma get_nat_32: "peek off 4 b = put_le 4 (of_nat n :: u32) \<Longrightarrow> n < 2 ^ 32 \<Longrightarrow> get_nat off 4 b = n"
  by (simp add: get_nat_def get_le_32 unat_of_nat take_bit_nat_eq_self)

lemma get_nat_64: "peek off 8 b = put_le 8 (of_nat n :: u64) \<Longrightarrow> n < 2 ^ 64 \<Longrightarrow> get_nat off 8 b = n"
  by (simp add: get_nat_def unat_of_nat take_bit_nat_eq_self)

lemma seal_count: "n < 2 ^ 32 \<Longrightarrow> get_nat (length (seal_block b n) - TRAIL) 4 (seal_block b n) = n"
  by (rule get_nat_32) (simp_all add: seal_block_def Let_def peek_def file_sizes)

lemma seal_prefix: "seal_block b n = b @ drop (length b) (seal_block b n)"
  by (simp add: seal_block_def Let_def)

lemma peek_at: "peek (length xs) n (xs @ ys) = take n ys"
  by (simp add: peek_def)

lemma peek_mid: "peek (length xs) (length ys) (xs @ ys @ zs) = ys"
  by (simp add: peek_def)

lemma wrap_id: "n < 2 ^ 64 \<Longrightarrow> wrap n = n"
  by (simp add: wrap_def)

lemma unat_of_nat_64: "n < 2 ^ 64 \<Longrightarrow> unat (of_nat n :: u64) = n"
  by (simp add: unat_of_nat take_bit_nat_eq_self)

definition entries_bytes :: "ent list \<Rightarrow> bytes" where
  "entries_bytes es = concat (map stored_entry es)"

lemma parse_step:
  assumes raw: "raw = pre @ stored_entry e @ post @ tr" and stop: "stop = length (pre @ stored_entry e @ post)" and small: "stop < 2 ^ 64"
  shows "parse_loop raw stop (Suc c) (length pre) acc = parse_loop raw stop c (length (pre @ stored_entry e)) (acc @ [e])"
proof -
  let ?k = "e_key e" and ?v = "e_val e"
  let ?kn = "of_nat (length ?k) :: u64" and ?vn = "of_nat (length ?v) :: u64"
  let ?mid = "put_le 8 (e_seq e) @ [e_type e]"
  have len: "length (stored_entry e) = length (varint_put ?kn) + length ?k + 9 + length (varint_put ?vn) + length ?v"
    by (simp add: stored_entry_def)
  have kn: "unat ?kn = length ?k" and vn: "unat ?vn = length ?v"
    using stop small len by (auto intro!: unat_of_nat_64)
  have r1: "raw = pre @ varint_put ?kn @ ?k @ ?mid @ varint_put ?vn @ ?v @ post @ tr" using raw by (simp add: stored_entry_def)
  define at1 where "at1 = length pre + length (varint_put ?kn) + length ?k"
  have p0: "peek (length pre) (stop - length pre) raw = varint_put ?kn @ ?k @ ?mid @ varint_put ?vn @ ?v @ post"
    unfolding r1 peek_at using stop len by simp
  have p1: "peek (length pre + length (varint_put ?kn)) (length ?k) raw = ?k"
    using peek_mid [of "pre @ varint_put ?kn" ?k] r1 by simp
  have p2: "peek at1 8 raw = put_le 8 (e_seq e)" "raw ! (at1 + 8) = e_type e"
    "peek (at1 + 9) (stop - (at1 + 9)) raw = varint_put ?vn @ ?v @ post"
    "peek (at1 + 9 + length (varint_put ?vn)) (length ?v) raw = ?v"
  proof -
    have r2: "raw = (pre @ varint_put ?kn @ ?k) @ put_le 8 (e_seq e) @ [e_type e] @ varint_put ?vn @ ?v @ post @ tr" using r1 by simp
    have a1: "at1 = length (pre @ varint_put ?kn @ ?k)" by (simp add: at1_def)
    show "peek at1 8 raw = put_le 8 (e_seq e)"
      using peek_mid [of "pre @ varint_put ?kn @ ?k" "put_le 8 (e_seq e)"] unfolding r2 a1 by simp
    show "raw ! (at1 + 8) = e_type e" unfolding r2 a1 by (simp add: nth_append)
    have r3: "raw = (pre @ varint_put ?kn @ ?k @ ?mid) @ varint_put ?vn @ ?v @ post @ tr" using r1 by simp
    have a2: "at1 + 9 = length (pre @ varint_put ?kn @ ?k @ ?mid)" by (simp add: at1_def)
    show "peek (at1 + 9) (stop - (at1 + 9)) raw = varint_put ?vn @ ?v @ post"
      unfolding a2 unfolding r3 peek_at using stop len by simp
    show "peek (at1 + 9 + length (varint_put ?vn)) (length ?v) raw = ?v"
      using peek_mid [of "pre @ varint_put ?kn @ ?k @ ?mid @ varint_put ?vn" ?v] unfolding r3 by (simp add: at1_def ac_simps)
  qed
  have w1: "wrap (length pre + length (varint_put ?kn) + length ?k + 9) = at1 + 9" "wrap (length pre + length (varint_put ?kn) + length ?k) = at1"
    "wrap (at1 + 9 + length (varint_put ?vn) + length ?v) = length pre + length (stored_entry e)"
    using stop small len by (simp_all add: wrap_id at1_def)
  have lt: "length pre < stop" "at1 + 9 \<le> stop" "length pre + length (stored_entry e) \<le> stop" using stop len by (simp_all add: at1_def)
  show ?thesis
    using lt w1 p0 p1 p2 by (simp add: kn vn Let_def) (cases e; simp)
qed

lemma parse_entries:
  "raw = pre @ entries_bytes es @ tr \<Longrightarrow> stop = length (pre @ entries_bytes es) \<Longrightarrow> stop < 2 ^ 64 \<Longrightarrow>
   parse_loop raw stop (length es) (length pre) acc = Some (stop, acc @ es)"
proof (induction es arbitrary: pre acc)
  case (Cons e es)
  have "parse_loop raw stop (Suc (length es)) (length pre) acc = parse_loop raw stop (length es) (length (pre @ stored_entry e)) (acc @ [e])"
    by (rule parse_step [of _ _ _ "entries_bytes es" tr]) (use Cons.prems in \<open>simp_all add: entries_bytes_def\<close>)
  then show ?case using Cons.IH [of "pre @ stored_entry e" "acc @ [e]"] Cons.prems by (simp add: entries_bytes_def)
qed (simp add: entries_bytes_def)

definition data_block :: "ent list \<Rightarrow> bytes" where
  "data_block es = seal_block (entries_bytes es) (length es)"

lemma stored_nonempty: "1 \<le> length (stored_entry e)"
  by (simp add: stored_entry_def)

lemma length_entries: "length es \<le> length (entries_bytes es)"
proof (induction es)
  case (Cons e es)
  then show ?case using stored_nonempty [of e] by (simp add: entries_bytes_def)
qed (simp add: entries_bytes_def)

lemma block_of_data:
  assumes "length (data_block es) < 2 ^ 32"
  shows "block_of (data_block es) = (GS_OK, es)"
proof -
  let ?b = "data_block es"
  have n: "length es < 2 ^ 32" using assms length_entries [of es] by (simp add: data_block_def)
  have c: "get_nat (length ?b - TRAIL) 4 ?b = length es" unfolding data_block_def by (rule seal_count [OF n])
  have "length es \<le> length ?b" using length_entries [of es] by (simp add: data_block_def)
  moreover have "parse_loop ?b (length ?b - TRAIL) (length es) 0 [] = Some (length ?b - TRAIL, es)"
    using parse_entries [of ?b "[]" es "drop (length (entries_bytes es)) ?b" "length ?b - TRAIL" "[]"] assms seal_prefix
    by (simp add: data_block_def)
  ultimately show ?thesis by (simp add: block_of_def c block_parse_def) (simp add: data_block_def)
qed

section \<open>The index\<close>

text \<open>A file's blocks \<open>bs\<close>, the first at \<open>off\<close>: the index as written and as read.\<close>

fun index_bytes :: "nat \<Rightarrow> ent list list \<Rightarrow> bytes" where
  "index_bytes off [] = []"
| "index_bytes off (es # bs) =
     index_entry (e_key (last es)) (e_seq (last es)) off (length (data_block es)) @ index_bytes (off + length (data_block es)) bs"

fun index_of :: "nat \<Rightarrow> ent list list \<Rightarrow> idx_entry list" where
  "index_of off [] = []"
| "index_of off (es # bs) =
     \<lparr>i_last = e_key (last es), i_lastseq = e_seq (last es), i_off = off, i_size = length (data_block es)\<rparr> #
     index_of (off + length (data_block es)) bs"

definition blocks_bytes :: "ent list list \<Rightarrow> bytes" where
  "blocks_bytes bs = concat (map data_block bs)"

lemma blocks_bytes_simps [simp]:
  "blocks_bytes [] = []" "blocks_bytes (es # bs) = data_block es @ blocks_bytes bs"
  "blocks_bytes (bs @ cs) = blocks_bytes bs @ blocks_bytes cs"
  by (simp_all add: blocks_bytes_def)

lemma index_bytes_snoc:
  "index_bytes off (bs @ [es]) =
     index_bytes off bs @ index_entry (e_key (last es)) (e_seq (last es)) (off + length (blocks_bytes bs)) (length (data_block es))"
  by (induction bs arbitrary: off) (simp_all add: add.assoc)

lemma index_step:
  assumes ib: "ib = pre @ index_entry k q off n @ post @ tr" and stop: "stop = length (pre @ index_entry k q off n @ post)"
    and small: "stop < 2 ^ 64" "off + n < 2 ^ 64" "n < 2 ^ 32" and range: "FHDR \<le> off" "off + n \<le> ioff"
  shows "index_loop ib stop ioff (length pre) acc =
    index_loop ib stop ioff (length (pre @ index_entry k q off n)) (acc @ [\<lparr>i_last = k, i_lastseq = q, i_off = off, i_size = n\<rparr>])"
proof -
  let ?kn = "of_nat (length k) :: u64"
  have len: "length (index_entry k q off n) = length (varint_put ?kn) + length k + 20" by (simp add: index_entry_def)
  have kn: "unat ?kn = length k" using stop small len by (auto intro!: unat_of_nat_64)
  define at1 where "at1 = length pre + length (varint_put ?kn) + length k"
  have p0: "peek (length pre) (stop - length pre) ib = varint_put ?kn @ drop (length (varint_put ?kn)) (index_entry k q off n @ post)"
    unfolding ib peek_at using stop by (simp add: index_entry_def)
  have p1: "peek (length pre + length (varint_put ?kn)) (length k) ib = k"
    using peek_mid [of "pre @ varint_put ?kn" k] by (simp add: ib index_entry_def)
  have p2: "peek at1 8 ib = put_le 8 q" "peek (at1 + 8) 8 ib = put_le 8 (of_nat off :: u64)" "peek (at1 + 16) 4 ib = put_le 4 (of_nat n :: u32)"
    using peek_mid [of "pre @ varint_put ?kn @ k" "put_le 8 q"] peek_mid [of "pre @ varint_put ?kn @ k @ put_le 8 q" "put_le 8 (of_nat off :: u64)"]
      peek_mid [of "pre @ varint_put ?kn @ k @ put_le 8 q @ put_le 8 (of_nat off :: u64)" "put_le 4 (of_nat n :: u32)"]
    by (simp_all add: ib index_entry_def at1_def ac_simps)
  have g: "get_nat (at1 + 8) 8 ib = off" "get_nat (at1 + 16) 4 ib = n"
    using p2 small by (auto intro!: get_nat_64 get_nat_32)
  have w: "wrap (length pre + length (varint_put ?kn) + length k + 20) = at1 + 20" "wrap (length pre + length (varint_put ?kn) + length k) = at1"
    "wrap (off + n) = off + n"
    using stop small len by (simp_all add: wrap_id at1_def)
  have lt: "length pre < stop" "at1 + 20 \<le> stop" "length pre + length (index_entry k q off n) = at1 + 20"
    using stop len by (simp_all add: at1_def)
  show ?thesis
    by (subst index_loop.simps) (use lt w p0 p1 p2(1) g range in \<open>simp add: kn Let_def\<close>)
qed

lemma index_entries:
  "ib = pre @ index_bytes off bs @ tr \<Longrightarrow> stop = length (pre @ index_bytes off bs) \<Longrightarrow> stop < 2 ^ 64 \<Longrightarrow>
   off + length (blocks_bytes bs) \<le> ioff \<Longrightarrow> ioff < 2 ^ 32 \<Longrightarrow> FHDR \<le> off \<Longrightarrow>
   index_loop ib stop ioff (length pre) acc = Some (GS_OK, acc @ index_of off bs)"
proof (induction bs arbitrary: pre off acc)
  case Nil
  then show ?case by (subst index_loop.simps) simp
next
  case (Cons es bs)
  let ?ie = "index_entry (e_key (last es)) (e_seq (last es)) off (length (data_block es))"
  let ?off = "off + length (data_block es)"
  have "index_loop ib stop ioff (length pre) acc = index_loop ib stop ioff (length (pre @ ?ie))
      (acc @ [\<lparr>i_last = e_key (last es), i_lastseq = e_seq (last es), i_off = off, i_size = length (data_block es)\<rparr>])"
    by (rule index_step [of _ _ _ _ _ _ "index_bytes ?off bs" tr]) (use Cons.prems in simp_all)
  also have "\<dots> = Some (GS_OK, (acc @ [\<lparr>i_last = e_key (last es), i_lastseq = e_seq (last es), i_off = off, i_size = length (data_block es)\<rparr>])
      @ index_of ?off bs)"
    by (rule Cons.IH) (use Cons.prems in simp_all)
  finally show ?case by simp
qed

section \<open>The Bloom filter\<close>

definition bit_on :: "nat \<Rightarrow> bytes \<Rightarrow> bool" where
  "bit_on i bs \<longleftrightarrow> bit (bs ! (i div 8)) (i mod 8)"

lemma bit_on_test: "bs ! (i div 8) AND 2 ^ (i mod 8) = 0 \<longleftrightarrow> \<not> bit_on i bs"
  by (simp add: bit_on_def bit_iff_and_push_bit_not_eq_0)

lemma set_bit_length [simp]: "length (set_bit_at i bs) = length bs"
  by (simp add: set_bit_at_def)

lemma bit_on_set: "i div 8 < length bs \<Longrightarrow> bit_on j (set_bit_at i bs) \<longleftrightarrow> j = i \<or> bit_on j bs"
proof -
  assume i: "i div 8 < length bs"
  have "j = i \<longleftrightarrow> j div 8 = i div 8 \<and> j mod 8 = i mod 8" by (metis mult_div_mod_eq)
  then show ?thesis using i
    by (cases "j div 8 = i div 8") (auto simp: bit_on_def set_bit_at_def bit_simps)
qed

lemma bloom_bit_less: "0 < bits \<Longrightarrow> bits < 2 ^ 64 \<Longrightarrow> bloom_bit h j bits < bits"
  by (simp add: bloom_bit_def unat_mod unat_of_nat_64)

lemma set_probes_length [simp]: "length (set_probes h bits n bs) = length bs"
  by (induction n) simp_all

lemma probes_bits:
  assumes "0 < bits" "bits < 2 ^ 64" "bits div 8 < length bs"
  shows "bit_on i (set_probes h bits n bs) \<longleftrightarrow> (\<exists>j < n. i = bloom_bit h j bits) \<or> bit_on i bs"
proof (induction n)
  case (Suc n)
  have "bloom_bit h n bits div 8 \<le> bits div 8" using bloom_bit_less [OF assms(1,2), of h n] by (intro div_le_mono) simp
  then have "bloom_bit h n bits div 8 < length (set_probes h bits n bs)" using assms(3) by simp
  then show ?case using Suc by (auto simp: bit_on_set less_Suc_eq)
qed simp

lemma probes_set_bits: "probes_set h bits bs n \<longleftrightarrow> (\<forall>j < n. bit_on (bloom_bit h j bits) bs)"
  by (induction n) (auto simp: bit_on_test less_Suc_eq)

lemma bloom_fold:
  assumes "0 < bits" "bits < 2 ^ 64" "bits div 8 < length bs"
  shows "length (foldl (\<lambda>bs h. set_probes h bits n bs) bs hs) = length bs \<and>
    (bit_on i (foldl (\<lambda>bs h. set_probes h bits n bs) bs hs) \<longleftrightarrow> (\<exists>h \<in> set hs. \<exists>j < n. i = bloom_bit h j bits) \<or> bit_on i bs)"
  using assms(3)
proof (induction hs arbitrary: bs)
  case (Cons h hs)
  then show ?case using probes_bits [OF assms(1,2) Cons.prems, of i h n] by auto
qed simp

lemma bloom_has_keys:
  assumes "bloom_build hs = (bits, bloom)" "key_hash64 k \<in> set hs" "bits < 2 ^ 64"
  shows "bloom_may (bloom @ tr) bits k"
proof -
  have b: "0 < bits" "bits div 8 < length (replicate (bits div 8 + 1) (0 :: byte))" using assms(1) by (auto simp: bloom_build_def Let_def)
  have e: "bloom = foldl (\<lambda>bs h. set_probes h bits 7 bs) (replicate (bits div 8 + 1) 0) hs"
    using assms(1) by (auto simp: bloom_build_def Let_def)
  have l: "length bloom = bits div 8 + 1" unfolding e using bloom_fold [OF b(1) assms(3) b(2), of 7 hs] by simp
  have "bit_on (bloom_bit (key_hash64 k) j bits) (bloom @ tr)" if "j < 7" for j
  proof -
    let ?i = "bloom_bit (key_hash64 k) j bits"
    have "?i div 8 \<le> bits div 8" using bloom_bit_less [OF b(1) assms(3), of "key_hash64 k" j] by (intro div_le_mono) simp
    moreover have "bit_on ?i bloom" unfolding e using bloom_fold [OF b(1) assms(3) b(2), of 7 hs ?i] assms(2) that by blast
    ultimately show ?thesis by (simp add: bit_on_def nth_append l)
  qed
  then show ?thesis by (simp add: bloom_may_def probes_set_bits)
qed

lemma bloom_length: "bloom_build hs = (bits, bloom) \<Longrightarrow> length bloom = bits div 8 + 1"
proof -
  have l: "length (foldl (\<lambda>bs h. set_probes h n 7 bs) b hs) = length b" for n b by (induction hs arbitrary: b) simp_all
  show "bloom_build hs = (bits, bloom) \<Longrightarrow> length bloom = bits div 8 + 1" by (auto simp: bloom_build_def Let_def l)
qed

end
