(* ===== verification/Sorted_File_Disk.thy ===== *)
theory Sorted_File_Disk
  imports Sorted_File_Props Lease_Take
begin

text \<open>
  Sorted files on a disk: over any layer whose open file keeps what is written to it (a locale,
  interpreted on the simulated layer), the builder leaves the bytes \<open>file_image\<close> and the reader
  finds in them the index, the Bloom filter and every block.
\<close>

section \<open>Files of a layer\<close>

text \<open>\<open>fits w f c\<close>: the handle \<open>f\<close> is open on a file of the contents \<open>c\<close>.\<close>

locale file_layer =
  fixes io :: "('w, 'f, 'c) io_ops" and fits :: "'w \<Rightarrow> 'f \<Rightarrow> bytes \<Rightarrow> bool"
  assumes writes_at: "fits w f c \<Longrightarrow> op_write_at io f off b w = (IO_OK, w') \<Longrightarrow> fits w' f (buf_write c off b)"
    and syncs: "fits w f c \<Longrightarrow> op_sync io f w = (rc, w') \<Longrightarrow> fits w' f c"

text \<open>A layer that fails no call while it is \<open>up\<close>. \<open>free p w\<close>: no directory has the name.\<close>

locale file_layer_up = file_layer io fits for io :: "('w, 'f, 'c) io_ops" and fits +
  fixes up :: "'w \<Rightarrow> bool" and free :: "string \<Rightarrow> 'w \<Rightarrow> bool" and writable :: "'f \<Rightarrow> bool"
  assumes up_opens: "up w \<Longrightarrow> free p w \<Longrightarrow> op_open io p {IO_CREATE} w = (rc, h, w') \<Longrightarrow>
      up w' \<and> rc = IO_OK \<and> h \<noteq> None \<and> writable (the h) \<and> (\<exists>c. fits w' (the h) c)"
    and up_truncates: "up w \<Longrightarrow> writable f \<Longrightarrow> fits w f c \<Longrightarrow> op_truncate io f 0 w = (rc, w') \<Longrightarrow> up w' \<and> rc = IO_OK \<and> fits w' f []"
    and up_writes: "up w \<Longrightarrow> writable f \<Longrightarrow> op_write_at io f off b w = (rc, w') \<Longrightarrow> up w' \<and> rc = IO_OK"
    and up_syncs: "up w \<Longrightarrow> op_sync io f w = (rc, w') \<Longrightarrow> up w' \<and> rc = IO_OK"

text \<open>
  A layer to read from: the calls that change no file are \<open>steady\<close>, they keep the contents of every open
  handle and of every name (\<open>stored\<close>); one that succeeds answers with the contents, and while the layer
  is \<open>up\<close> none fails.
\<close>

definition steady :: "('w \<Rightarrow> bool) \<Rightarrow> ('w \<Rightarrow> bool) \<Rightarrow> ('w \<Rightarrow> 'f \<Rightarrow> bytes \<Rightarrow> bool) \<Rightarrow> (string \<Rightarrow> 'w \<Rightarrow> bytes option) \<Rightarrow> 'w \<Rightarrow> 'w \<Rightarrow> bool" where
  "steady ok up fits stored w w' \<longleftrightarrow> ok w' \<and> (up w \<longrightarrow> up w') \<and> (\<forall>f c. fits w f c \<longrightarrow> fits w' f c) \<and> (\<forall>p. stored p w' = stored p w)"

locale reads_layer =
  fixes io :: "('w, 'f, 'c) io_ops" and fits :: "'w \<Rightarrow> 'f \<Rightarrow> bytes \<Rightarrow> bool" and ok up :: "'w \<Rightarrow> bool" and stored :: "string \<Rightarrow> 'w \<Rightarrow> bytes option"
  assumes ro_read: "ok w \<Longrightarrow> op_read_at io f off n w = (rc, b, w') \<Longrightarrow> steady ok up fits stored w w' \<and> (up w \<longrightarrow> rc = IO_OK) \<and>
      (\<forall>c. fits w f c \<and> rc = IO_OK \<longrightarrow> b = take n (drop off c))"
    and ro_size: "ok w \<Longrightarrow> op_size io f w = (rc, n, w') \<Longrightarrow> steady ok up fits stored w w' \<and> (up w \<longrightarrow> rc = IO_OK) \<and>
      (\<forall>c. fits w f c \<longrightarrow> n = (if rc = IO_OK then length c else 0))"
    and ro_close: "ok w \<Longrightarrow> op_close io f w = (rc, w') \<Longrightarrow> steady ok up fits stored w w'"
    and ro_open: "ok w \<Longrightarrow> IO_CREATE \<notin> fl \<Longrightarrow> op_open io p fl w = (rc, h, w') \<Longrightarrow> steady ok up fits stored w w' \<and>
      (\<forall>c. stored p w = Some c \<longrightarrow> (up w \<longrightarrow> rc = IO_OK) \<and> (rc = IO_OK \<longrightarrow> fits w' (the h) c))"

lemma steady_trans: "steady ok up fits stored w w' \<Longrightarrow> steady ok up fits stored w' w'' \<Longrightarrow> steady ok up fits stored w w''"
  by (simp add: steady_def)

lemma steady_refl: "ok w \<Longrightarrow> steady ok up fits stored w w"
  by (simp add: steady_def)

lemma steady_fits: "steady ok up fits stored w w' \<Longrightarrow> fits w f c \<Longrightarrow> fits w' f c"
  by (simp add: steady_def)

lemma steady_ok: "steady ok up fits stored w w' \<Longrightarrow> ok w'" "steady ok up fits stored w w' \<Longrightarrow> up w \<Longrightarrow> up w'"
  by (simp_all add: steady_def)

lemma buf_write_end: "buf_write c (length c) b = c @ b"
  by (auto simp: buf_write_def buf_reserve_def poke_def)

section \<open>What the builder has written\<close>

definition hashes_of :: "ent list \<Rightarrow> u64 set" where
  "hashes_of es = (\<lambda>e. key_hash64 (e_key e)) ` set es"

text \<open>The blocks \<open>bs\<close> are in the file of contents \<open>c\<close>, the entries \<open>cur\<close> in the block being filled.\<close>

definition building :: "bytes \<Rightarrow> ent list list \<Rightarrow> ent list \<Rightarrow> 'f builder \<Rightarrow> bytes \<Rightarrow> bool" where
  "building ident bs cur b c \<longleftrightarrow> length ident = 16 \<and> b_rc b = GS_OK \<and> c = fhdr_build ident FK_SORTED (b_num b) @ blocks_bytes bs \<and>
     b_off b = length c \<and> b_index b = index_bytes FHDR bs \<and>
     b_block b = entries_bytes cur \<and> b_ents b = length cur \<and> b_entries b = length (concat bs @ cur) \<and>
     (concat bs @ cur \<noteq> [] \<longrightarrow> b_last b = e_key (last (concat bs @ cur)) \<and> b_lastseq b = e_seq (last (concat bs @ cur)) \<and>
        b_smallest b = e_key (hd (concat bs @ cur)) \<and> b_small_seq b = e_seq (hd (concat bs @ cur))) \<and>
     [] \<notin> set bs \<and> hashes_of (concat bs @ cur) \<subseteq> set (b_hashes b) \<and> length (b_hashes b) \<le> b_entries b \<and> b_bfile b = None"

lemma entries_snoc: "entries_bytes (es @ [e]) = entries_bytes es @ stored_entry e"
  by (simp add: entries_bytes_def)

lemma last_concat_block: "cur \<noteq> [] \<Longrightarrow> last (concat bs @ cur) = last cur"
  by simp

context file_layer
begin

lemma write_spec:
  assumes "fits w (the (b_file b)) c" "b_off b = length c" "bld_write io p b w = (b', w')" "b_rc b' = GS_OK"
  shows "b' = b\<lparr>b_off := length (c @ p)\<rparr>" "fits w' (the (b_file b)) (c @ p)" "b_rc b = GS_OK"
proof -
  obtain rc w1 where 1: "op_write_at io (the (b_file b)) (b_off b) p w = (rc, w1)" by fastforce
  have ok: "b_rc b = GS_OK" using assms(3,4) by (auto simp: bld_write_def split: if_splits)
  have rc: "rc = IO_OK" using assms(3,4) ok 1 by (cases "rc = IO_OK") (auto simp: bld_write_def gs_io_status_def split: if_splits)
  then show "b' = b\<lparr>b_off := length (c @ p)\<rparr>" "b_rc b = GS_OK" using assms(2,3) ok 1 by (auto simp: bld_write_def)
  have "w' = w1" using assms(3) ok 1 rc by (simp add: bld_write_def)
  then show "fits w' (the (b_file b)) (c @ p)" using writes_at [OF assms(1)] 1 rc assms(2) buf_write_end by metis
qed

lemma finish_spec:
  assumes "building ident bs cur b c" "fits w (the (b_file b)) c" "bld_finish_block io b w = (b', w')" "b_rc b' = GS_OK"
  shows "\<exists>c' bs'. building ident bs' [] b' c' \<and> fits w' (the (b_file b)) c' \<and> concat bs' = concat bs @ cur \<and>
    b_file b' = b_file b \<and> b_num b' = b_num b"
proof (cases "cur = []")
  case True
  then have "b' = b" "w' = w" using assms(1,3) by (simp_all add: bld_finish_block_def building_def)
  then show ?thesis using assms(1,2) True by auto
next
  case False
  note B = assms(1) [unfolded building_def]
  let ?blk = "data_block cur"
  let ?b1 = "b\<lparr>b_index := b_index b @ index_entry (b_last b) (b_lastseq b) (b_off b) (length ?blk)\<rparr>"
  obtain b2 w2 where 2: "bld_write io ?blk ?b1 w = (b2, w2)" by fastforce
  have e: "b' = b2\<lparr>b_block := [], b_ents := 0\<rparr>" "w' = w2"
    using assms(3) B False 2 by (auto simp: bld_finish_block_def data_block_def Let_def)
  have o: "b_off ?b1 = length c" "fits w (the (b_file ?b1)) c" "b_rc b2 = GS_OK" using B assms(2,4) e by auto
  note ws = write_spec [OF o(2,1) 2 o(3)]
  have i: "b_index ?b1 = index_bytes FHDR (bs @ [cur])"
    using B False by (simp add: index_bytes_snoc)
  have "building ident (bs @ [cur]) [] b' (c @ ?blk)"
    using B False i ws(1) by (simp add: building_def e entries_bytes_def)
  then show ?thesis using ws(1,2) e by (intro exI [of _ "c @ ?blk"] exI [of _ "bs @ [cur]"]) simp
qed

lemma append_spec:
  assumes "building ident bs cur b c" "fits w (the (b_file b)) c" "bld_append io e b db w = (b', w')" "b_rc b' = GS_OK"
  shows "\<exists>c' bs' cur'. building ident bs' cur' b' c' \<and> fits w' (the (b_file b)) c' \<and> concat bs' @ cur' = concat bs @ cur @ [e] \<and>
    b_file b' = b_file b \<and> b_num b' = b_num b"
proof -
  note B = assms(1) [unfolded building_def]
  let ?es = "concat bs @ cur"
  define b1 where "b1 = (if b_entries b = 0 then b\<lparr>b_smallest := e_key e, b_small_seq := e_seq e\<rparr> else b)"
  define b2 where "b2 = (if b_entries b1 = 0 \<or> b_last b1 \<noteq> e_key e then b1\<lparr>b_hashes := b_hashes b1 @ [key_hash64 (e_key e)]\<rparr> else b1)"
  define b3 where "b3 = b2\<lparr>b_block := b_block b2 @ stored_entry e, b_last := e_key e, b_lastseq := e_seq e,
    b_ents := b_ents b2 + 1, b_entries := b_entries b2 + 1\<rparr>"
  have run: "bld_append io e b db w = (if db_block db \<le> length (b_block b3) then bld_finish_block io b3 w else (b3, w))"
    by (simp add: bld_append_def b1_def b2_def b3_def Let_def)
  have f: "b_file b3 = b_file b" "b_num b3 = b_num b" "b_bfile b3 = b_bfile b" "length (b_hashes b3) \<le> length (b_hashes b) + 1" by (simp_all add: b1_def b2_def b3_def)
  have h: "hashes_of (?es @ [e]) \<subseteq> set (b_hashes b2)"
  proof (cases "b_entries b = 0 \<or> b_last b \<noteq> e_key e")
    case True
    then show ?thesis using B by (auto simp: b1_def b2_def hashes_of_def)
  next
    case False
    then have "?es \<noteq> []" "e_key (last ?es) = e_key e" using B by auto
    then have "key_hash64 (e_key e) \<in> hashes_of ?es" unfolding hashes_of_def using last_in_set [of ?es] by (metis imageI)
    then show ?thesis using B False by (auto simp: b1_def b2_def hashes_of_def)
  qed
  have s: "b_smallest b3 = e_key (hd (?es @ [e])) \<and> b_small_seq b3 = e_seq (hd (?es @ [e]))"
  proof -
    obtain es where es: "es = ?es" by simp
    have "b_entries b = length es \<and> (es \<noteq> [] \<longrightarrow> b_smallest b = e_key (hd es) \<and> b_small_seq b = e_seq (hd es))"
      using B unfolding es by blast
    then show ?thesis unfolding es [symmetric] by (cases es) (simp_all add: b1_def b2_def b3_def)
  qed
  have parts: "b_rc b3 = GS_OK" "b_off b3 = length c" "b_index b3 = index_bytes FHDR bs" "b_block b3 = entries_bytes (cur @ [e])"
    "b_ents b3 = length (cur @ [e])" "b_entries b3 = length (?es @ [e])" "b_last b3 = e_key e" "b_lastseq b3 = e_seq e" "b_hashes b3 = b_hashes b2"
    using B by (auto simp: b1_def b2_def b3_def entries_snoc)
  have "building ident bs (cur @ [e]) b3 c"
    using B h s parts f unfolding building_def append_assoc [symmetric] by simp
  note b3 = this
  have fits: "fits w (the (b_file b3)) c" using assms(2) f by simp
  show ?thesis
  proof (cases "db_block db \<le> length (b_block b3)")
    case True
    then have "bld_finish_block io b3 w = (b', w')" using assms(3) run by simp
    from finish_spec [OF b3 fits this assms(4)] show ?thesis using f by (metis append_Nil2 append_assoc)
  next
    case False
    then have "b' = b3" "w' = w" using assms(3) run by simp_all
    then show ?thesis using b3 fits f by (intro exI [of _ c] exI [of _ bs] exI [of _ "cur @ [e]"]) simp
  qed
qed

end

text \<open>Entries that stay in the sorted file: no value long enough for a blob file.\<close>

definition stays :: "engine \<Rightarrow> ent \<Rightarrow> bool" where
  "stays db e \<longleftrightarrow> \<not> (e_type e = TYPE_PUT \<and> db_vsep db \<noteq> 0 \<and> db_vsep db \<le> length (e_val e))"

primrec bld_adds :: "('w, 'f, 'c) io_ops \<Rightarrow> ent list \<Rightarrow> 'f builder \<Rightarrow> engine \<Rightarrow> 'w \<Rightarrow> 'f builder \<times> engine \<times> 'w" where
  "bld_adds io [] b db w = (b, db, w)"
| "bld_adds io (e # es) b db w = (let (b, db, w) = bld_add io e b db w in bld_adds io es b db w)"

lemma bld_write_rc: "b_rc b \<noteq> GS_OK \<Longrightarrow> bld_write io p b w = (b, w)"
  by (simp add: bld_write_def)

lemma bld_adds_rc: "b_rc b \<noteq> GS_OK \<Longrightarrow> bld_adds io es b db w = (b, db, w)"
  by (induction es) (simp_all add: bld_add_def)

lemma building_ref: "building ident bs cur (bld_ref n m b) c = building ident bs cur b c" "b_file (bld_ref n m b) = b_file b" "b_num (bld_ref n m b) = b_num b"
  by (simp_all add: building_def bld_ref_def)

context file_layer
begin

lemma adds_spec:
  assumes "building ident bs cur b c" "fits w (the (b_file b)) c" "\<forall>e \<in> set es. stays db e"
    "bld_adds io es b db w = (b', db', w')" "b_rc b' = GS_OK"
  shows "\<exists>c' bs' cur'. building ident bs' cur' b' c' \<and> fits w' (the (b_file b)) c' \<and> concat bs' @ cur' = concat bs @ cur @ es \<and>
    b_file b' = b_file b \<and> b_num b' = b_num b \<and> db' = db"
  using assms
proof (induction es arbitrary: bs cur b c w)
  case Nil
  then show ?case by auto
next
  case (Cons e es)
  define b0 where "b0 = (if e_type e = TYPE_BLOB \<and> length (e_val e) = BLOB_PTR
    then bld_ref (get_le (peek 0 8 (e_val e))) (BLOB_REC (unat (get_le (peek 16 4 (e_val e)) :: u32))) b else b)"
  have b0: "building ident bs cur b0 c" "b_file b0 = b_file b" "b_num b0 = b_num b" using Cons.prems(1) by (simp_all add: b0_def building_ref)
  obtain b1 w1 where 1: "bld_append io e b0 db w = (b1, w1)" by fastforce
  have "b_rc b = GS_OK" "stays db e" using Cons.prems by (simp_all add: building_def)
  then have add: "bld_add io e b db w = (b1, db, w1)" 
  proof -
    assume ok: "b_rc b = GS_OK" and st: "stays db e"
    have n: "\<not> b_rc b \<noteq> GS_OK" using ok by simp
    show ?thesis unfolding bld_add_def if_not_P [OF n] if_not_P [OF st [unfolded stays_def]] b0_def [symmetric] Let_def 1 by simp
  qed
  then have rest: "bld_adds io es b1 db w1 = (b', db', w')" using Cons.prems(4) by simp
  have ok: "b_rc b1 = GS_OK"
  proof (rule ccontr)
    assume f: "b_rc b1 \<noteq> GS_OK"
    show False using rest Cons.prems(5) f unfolding bld_adds_rc [OF f, of io es db w1] by simp
  qed
  have fits: "fits w (the (b_file b0)) c" using Cons.prems(2) b0 by simp
  obtain c1 bs1 cur1 where 2: "building ident bs1 cur1 b1 c1" "fits w1 (the (b_file b0)) c1" "concat bs1 @ cur1 = concat bs @ cur @ [e]" "b_file b1 = b_file b0" "b_num b1 = b_num b0"
    using append_spec [OF b0(1) fits 1 ok] by blast
  have fits1: "fits w1 (the (b_file b1)) c1" using 2 by simp
  have "\<forall>e \<in> set es. stays db e" using Cons.prems(3) by simp
  note IH = Cons.IH [OF 2(1) fits1 this rest Cons.prems(5)]
  have eq: "concat bs1 @ cur1 @ es = concat bs @ cur @ e # es" using 2(3) by (metis append.assoc append_Cons append_Nil)
  show ?case using IH 2(4,5) b0(2,3) unfolding eq by simp
qed

end

section \<open>The whole file\<close>

text \<open>The bytes of a file of the blocks \<open>bs\<close> with the key hashes \<open>hs\<close>.\<close>

definition index_block :: "ent list list \<Rightarrow> bytes" where
  "index_block bs = seal_block (index_bytes FHDR bs) (length (concat bs))"

definition bloom_block :: "u64 list \<Rightarrow> bytes" where
  "bloom_block hs = seal_block (snd (bloom_build hs)) (fst (bloom_build hs))"

definition file_image :: "bytes \<Rightarrow> u64 \<Rightarrow> ent list list \<Rightarrow> u64 list \<Rightarrow> bytes" where
  "file_image ident num bs hs =
     (let c = fhdr_build ident FK_SORTED num @ blocks_bytes bs
      in c @ index_block bs @ bloom_block hs @
           footer (length c) (length (index_block bs)) (length (c @ index_block bs)) (length (bloom_block hs)) (length (concat bs)))"

text \<open>What the finished builder knows of the file, and so its record in the manifest.\<close>

definition built_as :: "ent list \<Rightarrow> nat \<Rightarrow> 'f builder \<Rightarrow> 'f builder \<Rightarrow> bool" where
  "built_as es n b b' \<longleftrightarrow> b_num b' = b_num b \<and> b_off b' = n \<and> b_entries b' = length es \<and>
     (es \<noteq> [] \<longrightarrow> b_last b' = e_key (last es) \<and> b_lastseq b' = e_seq (last es) \<and> b_smallest b' = e_key (hd es) \<and> b_small_seq b' = e_seq (hd es))"

context file_layer
begin

lemma tail_spec:
  assumes "building ident bs cur b c" "fits w (the (b_file b)) c" "bld_tail io b w = (b', w')" "b_rc b' = GS_OK"
  shows "\<exists>bs' hs. fits w' (the (b_file b)) (file_image ident (b_num b) bs' hs) \<and> concat bs' = concat bs @ cur \<and> [] \<notin> set bs' \<and>
    hashes_of (concat bs') \<subseteq> set hs \<and> length hs \<le> length (concat bs') \<and> b_bfile b' = None \<and> b_file b' = b_file b \<and>
    built_as (concat bs') (length (file_image ident (b_num b) bs' hs)) b b'"
proof -
  let ?h = "fhdr_build ident FK_SORTED (b_num b)"
  obtain b1 w1 where 1: "bld_finish_block io b w = (b1, w1)" by fastforce
  define ix where "ix = seal_block (b_index b1) (b_entries b1)"
  obtain b2 w2 where 2: "bld_write io ix b1 w1 = (b2, w2)" by fastforce
  define bl where "bl = seal_block (snd (bloom_build (b_hashes b2))) (fst (bloom_build (b_hashes b2)))"
  obtain b3 w3 where 3: "bld_write io bl b2 w2 = (b3, w3)" by fastforce
  define ft where "ft = footer (b_off b1) (length ix) (b_off b2) (length bl) (b_entries b3)"
  have 4: "bld_write io ft b3 w3 = (b', w')"
    using assms(3) 1 2 3 by (simp add: bld_tail_def ix_def bl_def ft_def case_prod_beta Let_def)
  have ok: "b_rc b3 = GS_OK" "b_rc b2 = GS_OK" "b_rc b1 = GS_OK"
    using 2 3 4 assms(4) bld_write_rc by (metis Pair_inject)+
  obtain c1 bs1 where f: "building ident bs1 [] b1 c1" "fits w1 (the (b_file b)) c1" "concat bs1 = concat bs @ cur" "b_file b1 = b_file b" "b_num b1 = b_num b"
    using finish_spec [OF assms(1,2) 1 ok(3)] by blast
  note B = f(1) [unfolded building_def append_Nil2]
  have F1: "fits w1 (the (b_file b1)) c1" "b_off b1 = length c1" using f B by simp_all
  note W2 = write_spec [OF F1 2 ok(2)]
  have F2: "fits w2 (the (b_file b2)) (c1 @ ix)" "b_off b2 = length (c1 @ ix)" using W2 by simp_all
  note W3 = write_spec [OF F2 3 ok(1)]
  have F3: "fits w3 (the (b_file b3)) ((c1 @ ix) @ bl)" "b_off b3 = length ((c1 @ ix) @ bl)" using W2 W3 by simp_all
  note W4 = write_spec [OF F3 4 assms(4)]
  have b': "b' = b1\<lparr>b_off := length (((c1 @ ix) @ bl) @ ft)\<rparr>" using W2(1) W3(1) W4(1) by simp
  have c1: "c1 = ?h @ blocks_bytes bs1" using B f(5) by simp
  have im: "((c1 @ ix) @ bl) @ ft = file_image ident (b_num b) bs1 (b_hashes b1)"
    using F1(2) F2(2) W2(1) W3(1) B
    by (simp add: file_image_def Let_def c1 [symmetric] ix_def bl_def ft_def index_block_def bloom_block_def add.assoc)
  have "built_as (concat bs1) (length (file_image ident (b_num b) bs1 (b_hashes b1))) b b'"
    using B f(5) unfolding b' im built_as_def by simp
  moreover have "fits w' (the (b_file b)) (file_image ident (b_num b) bs1 (b_hashes b1))"
    using W4(2) W2(1) W3(1) f(4) unfolding im by simp
  ultimately show ?thesis using B f b' by (intro exI [of _ bs1] exI [of _ "b_hashes b1"]) simp
qed

end

section \<open>Reading it\<close>

lemma footer_fields:
  assumes "ioff < 2 ^ 64" "isz < 2 ^ 32" "boff < 2 ^ 64" "bsz < 2 ^ 32"
  shows "get_nat 0 8 (footer ioff isz boff bsz n) = ioff" "get_nat 8 4 (footer ioff isz boff bsz n) = isz"
    "get_nat 12 8 (footer ioff isz boff bsz n) = boff" "get_nat 20 4 (footer ioff isz boff bsz n) = bsz"
    "get_le (peek 60 4 (footer ioff isz boff bsz n)) = crc32c (take 60 (footer ioff isz boff bsz n))"
    "length (footer ioff isz boff bsz n) = FOOTER"
proof -
  show "length (footer ioff isz boff bsz n) = FOOTER" by (simp add: footer_def Let_def FOOTER_def)
  show "get_le (peek 60 4 (footer ioff isz boff bsz n)) = crc32c (take 60 (footer ioff isz boff bsz n))"
    by (simp add: footer_def Let_def FOOTER_def)
  show "get_nat 0 8 (footer ioff isz boff bsz n) = ioff" by (rule get_nat_64 [OF _ assms(1)]) (simp add: footer_def Let_def FOOTER_def)
  show "get_nat 8 4 (footer ioff isz boff bsz n) = isz" by (rule get_nat_32 [OF _ assms(2)]) (simp add: footer_def Let_def FOOTER_def)
  show "get_nat 12 8 (footer ioff isz boff bsz n) = boff" by (rule get_nat_64 [OF _ assms(3)]) (simp add: footer_def Let_def FOOTER_def)
  show "get_nat 20 4 (footer ioff isz boff bsz n) = bsz" by (rule get_nat_32 [OF _ assms(4)]) (simp add: footer_def Let_def FOOTER_def)
qed

lemma bloom_bits_small:
  assumes "length (bloom_block hs) < 2 ^ 29"
  shows "fst (bloom_build hs) < 2 ^ 32"
proof -
  obtain bits bloom where b: "bloom_build hs = (bits, bloom)" by fastforce
  then have "bits div 8 < 2 ^ 29" using assms bloom_length [OF b] by (simp add: bloom_block_def)
  then show ?thesis using b by simp
qed

lemma load_image:
  assumes "length (index_block bs) + length (bloom_block hs) + FHDR + length (blocks_bytes bs) < 2 ^ 29"
  shows "load_index (index_block bs) (bloom_block hs) (FHDR + length (blocks_bytes bs)) =
    Some (GS_OK, Some \<lparr>l_index = index_of FHDR bs, l_bloom = bloom_block hs, l_bits = fst (bloom_build hs)\<rparr>)"
proof -
  let ?ib = "index_bytes FHDR bs"
  have ix: "index_loop (index_block bs) (length (index_block bs) - TRAIL) (FHDR + length (blocks_bytes bs)) 0 [] = Some (GS_OK, index_of FHDR bs)"
  proof -
    have eq: "index_block bs = [] @ ?ib @ drop (length ?ib) (index_block bs)" unfolding index_block_def using seal_prefix by (metis append_Nil)
    have "length (index_block bs) - TRAIL = length ([] @ ?ib)" by (simp add: index_block_def)
    then have "index_loop (index_block bs) (length (index_block bs) - TRAIL) (FHDR + length (blocks_bytes bs)) (length ([] :: bytes)) [] =
        Some (GS_OK, [] @ index_of FHDR bs)"
      by (rule index_entries [OF eq]) (use assms in simp_all)
    then show ?thesis by simp
  qed
  obtain bits bloom where b: "bloom_build hs = (bits, bloom)" by fastforce
  have small: "bits < 2 ^ 32" using bloom_bits_small [of hs] assms b by simp
  have bb: "bloom_block hs = seal_block bloom bits" by (simp add: bloom_block_def b)
  have g: "get_nat (length (bloom_block hs) - TRAIL) 4 (bloom_block hs) = bits" unfolding bb by (rule seal_count [OF small])
  have l: "length (bloom_block hs) - TRAIL = bits div 8 + 1" unfolding bb using bloom_length [OF b] by simp
  show ?thesis unfolding load_index_def ix option.map prod.case g unfolding l b by simp
qed

lemma index_of_nth:
  "i < length bs \<Longrightarrow> index_of off bs ! i =
     \<lparr>i_last = e_key (last (bs ! i)), i_lastseq = e_seq (last (bs ! i)), i_off = off + length (blocks_bytes (take i bs)),
      i_size = length (data_block (bs ! i))\<rparr>"
  by (induction bs arbitrary: off i) (auto simp: nth_Cons' take_Cons' add.assoc gr0_conv_Suc)

lemma index_of_length [simp]: "length (index_of off bs) = length bs"
  by (induction bs arbitrary: off) simp_all

lemma blocks_split: "i < length bs \<Longrightarrow> blocks_bytes bs = blocks_bytes (take i bs) @ data_block (bs ! i) @ blocks_bytes (drop (Suc i) bs)"
  by (metis blocks_bytes_simps(2,3) id_take_nth_drop)

context reads_layer
begin

abbreviation calm :: "'w \<Rightarrow> 'w \<Rightarrow> bool" where
  "calm \<equiv> steady ok up fits stored"

lemma exact_spec:
  assumes "ok w" "read_exact io f off n w = (rc, x, w')"
  shows "calm w w'" "fits w f (pre @ b @ post) \<Longrightarrow> off = length pre \<Longrightarrow> n = length b \<Longrightarrow> rc = GS_OK \<Longrightarrow> x = b"
    "fits w f (pre @ b @ post) \<Longrightarrow> off = length pre \<Longrightarrow> n = length b \<Longrightarrow> up w \<Longrightarrow> rc = GS_OK"
proof -
  obtain c y w1 where 1: "op_read_at io f off n w = (c, y, w1)" by (metis prod_cases3)
  note r = ro_read [OF assms(1) 1]
  show "calm w w'" using r assms(2) 1 by (simp add: read_exact_def split: if_splits)
  show "fits w f (pre @ b @ post) \<Longrightarrow> off = length pre \<Longrightarrow> n = length b \<Longrightarrow> rc = GS_OK \<Longrightarrow> x = b"
    using r assms(2) 1 by (cases "c = IO_OK") (auto simp: read_exact_def gs_io_status_def split: if_splits)
  show "fits w f (pre @ b @ post) \<Longrightarrow> off = length pre \<Longrightarrow> n = length b \<Longrightarrow> up w \<Longrightarrow> rc = GS_OK"
    using r assms(2) 1 by (auto simp: read_exact_def split: if_splits)
qed

lemma calm_ok: "calm w w' \<Longrightarrow> ok w'" "calm w w' \<Longrightarrow> up w \<Longrightarrow> up w'"
  and calm_fits: "calm w w' \<Longrightarrow> fits w f c \<Longrightarrow> fits w' f c"
  and calm_stored: "calm w w' \<Longrightarrow> stored p w' = stored p w"
  and calm_trans: "calm w w' \<Longrightarrow> calm w' w'' \<Longrightarrow> calm w w''"
  and calm_refl: "ok w \<Longrightarrow> calm w w"
  by (simp_all add: steady_def)

text \<open>A read after calls that changed nothing since \<open>w0\<close>.\<close>

lemma exact_after:
  assumes "calm w0 w" "fits w0 f c" "read_exact io f off n w = (rc, x, w')" "c = pre @ b @ post" "off = length pre" "n = length b"
  shows "calm w0 w'" "rc = GS_OK \<Longrightarrow> x = b" "up w0 \<Longrightarrow> rc = GS_OK"
proof -
  have w: "ok w" "fits w f (pre @ b @ post)" using calm_ok(1) calm_fits assms(1,2,4) by blast+
  note e = exact_spec [OF w(1) assms(3)]
  show "calm w0 w'" by (rule calm_trans [OF assms(1) e(1)])
  show "rc = GS_OK \<Longrightarrow> x = b" by (rule e(2) [OF w(2) assms(5,6)])
  show "up w0 \<Longrightarrow> rc = GS_OK" by (rule e(3) [OF w(2) assms(5,6)]) (rule calm_ok(2) [OF assms(1)])
qed

lemma parts_image:
  assumes "ok w" "fits w f (file_image ident num bs hs)" "db_identity db = ident" "length ident = 16"
    "length (file_image ident num bs hs) < 2 ^ 29" "file_parts io db num f w = (rc, ib, bb, ioff, w')"
  shows "calm w w'" "rc = GS_OK \<Longrightarrow> ib = index_block bs \<and> bb = bloom_block hs \<and> ioff = FHDR + length (blocks_bytes bs)"
    "up w \<Longrightarrow> rc = GS_OK"
proof -
  let ?c = "file_image ident num bs hs" and ?h = "fhdr_build ident FK_SORTED num"
  let ?ix = "index_block bs" and ?bl = "bloom_block hs"
  let ?io = "FHDR + length (blocks_bytes bs)"
  define ft where "ft = footer ?io (length ?ix) (?io + length ?ix) (length ?bl) (length (concat bs))"
  have c: "?c = ?h @ blocks_bytes bs @ ?ix @ ?bl @ ft" using assms(4) by (simp add: file_image_def Let_def ft_def)
  have n: "length ?c = ?io + length ?ix + length ?bl + FOOTER" using assms(4) unfolding c ft_def by (simp add: footer_def Let_def FOOTER_def)
  have small: "?io < 2 ^ 64" "length ?ix < 2 ^ 32" "?io + length ?ix < 2 ^ 64" "length ?bl < 2 ^ 32"
    "?io + length ?ix + length ?bl < 2 ^ 64" using assms(5) n by simp_all
  note F = footer_fields [OF small(1,2,3,4), of "length (concat bs)", folded ft_def]
  have hd: "fhdr_check ident FK_SORTED num ?h = GS_OK" by (simp add: fhdr_checks [OF assms(4,4)])
  have chk: "check_block ?ix = GS_OK" "check_block ?bl = GS_OK" by (simp_all add: index_block_def bloom_block_def)
  have big: "\<not> length ?c < FHDR + FOOTER" "\<not> (length ?c < ?io + length ?ix \<or> length ?c < ?io + length ?ix + length ?bl)" using n by simp_all
  have small0: "(0 :: nat) < FHDR + FOOTER" by (simp add: FHDR_def)
  have goal: "calm w w' \<and> (rc = GS_OK \<longrightarrow> ib = ?ix \<and> bb = ?bl \<and> ioff = ?io) \<and> (up w \<longrightarrow> rc = GS_OK)"
  proof -
    obtain k n1 w1 where 1: "op_size io f w = (k, n1, w1)" by (metis prod_cases3)
    note z = ro_size [OF assms(1) 1]
    show ?thesis
    proof (cases "k = IO_OK")
      case False
      then have "n1 = 0" "\<not> up w" using z assms(2) by auto
      then show ?thesis using assms(6) z small0 by (simp add: file_parts_def 1)
    next
      case True
      then have n1: "n1 = length ?c" using z assms(2) by auto
      obtain r2 x2 w2 where 2: "read_exact io f 0 FHDR w1 = (r2, x2, w2)" by (metis prod_cases3)
      have c2: "?c = [] @ ?h @ blocks_bytes bs @ ?ix @ ?bl @ ft" "0 = length ([] :: bytes)" "FHDR = length ?h" using assms(4) c by simp_all
      note e2 = exact_after [OF z [THEN conjunct1] assms(2) 2 c2]
      obtain r3 x3 w3 where 3: "read_exact io f (length ?c - FOOTER) FOOTER w2 = (r3, x3, w3)" by (metis prod_cases3)
      have c3: "?c = (?h @ blocks_bytes bs @ ?ix @ ?bl) @ ft @ []" "length ?c - FOOTER = length (?h @ blocks_bytes bs @ ?ix @ ?bl)" "FOOTER = length ft"
        using assms(4) c n F(6) by simp_all
      note e3 = exact_after [OF e2(1) assms(2) 3 c3]
      obtain r4 x4 w4 where 4: "read_exact io f ?io (length ?ix) w3 = (r4, x4, w4)" by (metis prod_cases3)
      have c4: "?c = (?h @ blocks_bytes bs) @ ?ix @ ?bl @ ft" "?io = length (?h @ blocks_bytes bs)" using assms(4) c by simp_all
      note e4 = exact_after [OF e3(1) assms(2) 4 c4 refl]
      obtain r5 x5 w5 where 5: "read_exact io f (?io + length ?ix) (length ?bl) w4 = (r5, x5, w5)" by (metis prod_cases3)
      have c5: "?c = (?h @ blocks_bytes bs @ ?ix) @ ?bl @ ft" "?io + length ?ix = length (?h @ blocks_bytes bs @ ?ix)" using assms(4) c by simp_all
      note e5 = exact_after [OF e4(1) assms(2) 5 c5 refl]
      have n0: "\<not> (GS_OK \<noteq> GS_OK)" by simp
      note u1 = 1 prod.case n1 Let_def if_not_P [OF big(1)] 2
      show ?thesis
      proof (cases "r2 = GS_OK")
        case False
        have "file_parts io db num f w = (r2, [], [], 0, w2)" unfolding file_parts_def u1 using False by simp
        then show ?thesis using assms(6) e2 False by auto
      next
        case r2: True
        have A: "(if r2 = GS_OK then fhdr_check (db_identity db) FK_SORTED num x2 else r2) = GS_OK"
          using r2 e2(2) hd assms(3) by simp
        note u2 = u1 A if_not_P [OF n0] 3
        show ?thesis
        proof (cases "r3 = GS_OK")
          case False
          have "file_parts io db num f w = (r3, [], [], 0, w3)" unfolding file_parts_def u2 using False by simp
          then show ?thesis using assms(6) e3 False by auto
        next
          case r3: True
          have B: "\<not> get_le (peek 60 4 x3) \<noteq> crc32c (take 60 x3)" using e3(2) [OF r3] F(5) by simp
          have n1': "\<not> r3 \<noteq> GS_OK" using r3 by simp
          note u3 = u2 if_not_P [OF n1'] if_not_P [OF B] e3(2) [OF r3] F(1-4) wrap_id [OF small(3)] wrap_id [OF small(5)] if_not_P [OF big(2)] 4
          show ?thesis
          proof (cases "r4 = GS_OK")
            case False
            have "file_parts io db num f w = (r4, [], [], 0, w4)" unfolding file_parts_def u3 using False F(5) by simp
            then show ?thesis using assms(6) e4 False by auto
          next
            case r4: True
            have C: "(if r4 = GS_OK then check_block x4 else r4) = GS_OK" using e4(2) [OF r4] r4 chk by simp
            note u4 = u3 C if_not_P [OF n0] e4(2) [OF r4] 5
            have "file_parts io db num f w = (if r5 = GS_OK then check_block x5 else r5, ?ix, x5, ?io, w5)" unfolding file_parts_def u4 using F(5) r4 chk by simp
            then show ?thesis using assms(6) e5 chk by auto
          qed
        qed
      qed
    qed
  qed
  then show "calm w w'" "rc = GS_OK \<Longrightarrow> ib = ?ix \<and> bb = ?bl \<and> ioff = ?io" "up w \<Longrightarrow> rc = GS_OK" by simp_all
qed

end

text \<open>The scan of a file, block after block.\<close>

primrec read_blocks :: "('w, 'f, 'c) io_ops \<Rightarrow> 'f \<Rightarrow> idx_entry list \<Rightarrow> 'w \<Rightarrow> gs_status \<times> ent list \<times> 'w" where
  "read_blocks io f [] w = (GS_OK, [], w)"
| "read_blocks io f (ie # ies) w =
     (let (rc, es, w) = block_read io ie f w
      in if rc \<noteq> GS_OK then (rc, [], w)
         else let (rc, rest, w) = read_blocks io f ies w in (rc, es @ rest, w))"

context reads_layer
begin

lemma file_open_image:
  assumes "ok w" "fits w f (file_image ident num bs hs)" "db_identity db = ident" "length ident = 16"
    "length (file_image ident num bs hs) < 2 ^ 29"
  shows "\<exists>rc l w'. file_open io db num f w = Some (rc, l, w') \<and> calm w w' \<and> (up w \<longrightarrow> rc = GS_OK) \<and>
    (rc = GS_OK \<longrightarrow> l = Some \<lparr>l_index = index_of FHDR bs, l_bloom = bloom_block hs, l_bits = fst (bloom_build hs)\<rparr>)"
proof -
  obtain rc ib bb ioff w' where 1: "file_parts io db num f w = (rc, ib, bb, ioff, w')" by (metis surj_pair)
  note p = parts_image [OF assms 1]
  have "length (file_image ident num bs hs) = FHDR + length (blocks_bytes bs) + length (index_block bs) + length (bloom_block hs) + FOOTER"
    using assms(4) by (simp add: file_image_def Let_def footer_def FOOTER_def)
  then have "length (index_block bs) + length (bloom_block hs) + FHDR + length (blocks_bytes bs) < 2 ^ 29" using assms(5) by simp
  note ld = load_image [OF this]
  show ?thesis using p by (cases "rc = GS_OK") (auto simp: file_open_def 1 ld)
qed

lemma block_in_image:
  assumes "ok w" "fits w f c" "c = hdr @ blocks_bytes bs @ rest" "length c < 2 ^ 32" "i < length bs"
    "read_exact io f (i_off (index_of (length hdr) bs ! i)) (i_size (index_of (length hdr) bs ! i)) w = (rc, raw, w')"
  shows "calm w w'" "up w \<Longrightarrow> rc = GS_OK" "rc = GS_OK \<Longrightarrow> raw = data_block (bs ! i)" "block_of (data_block (bs ! i)) = (GS_OK, bs ! i)"
proof -
  let ?p = "hdr @ blocks_bytes (take i bs)"
  have c: "c = ?p @ data_block (bs ! i) @ blocks_bytes (drop (Suc i) bs) @ rest" using assms(3) blocks_split [OF assms(5)] by simp
  have r: "read_exact io f (length ?p) (length (data_block (bs ! i))) w = (rc, raw, w')"
    using assms(6) by (simp add: index_of_nth [OF assms(5)])
  note e = exact_spec [OF assms(1) r]
  show "calm w w'" by (rule e(1))
  show "up w \<Longrightarrow> rc = GS_OK" "rc = GS_OK \<Longrightarrow> raw = data_block (bs ! i)" using e(2,3) assms(2) c by blast+
  have "length (data_block (bs ! i)) < 2 ^ 32" using c assms(4) by (metis add_lessD1 le_add2 le_less_trans length_append)
  then show "block_of (data_block (bs ! i)) = (GS_OK, bs ! i)" by (rule block_of_data)
qed

lemma read_blocks_drop:
  assumes "ok w" "up w" "fits w f c" "c = hdr @ blocks_bytes bs @ rest" "length c < 2 ^ 32"
  shows "\<exists>w'. read_blocks io f (drop i (index_of (length hdr) bs)) w = (GS_OK, concat (drop i bs), w')"
  using assms(1-3)
proof (induction "length bs - i" arbitrary: i w)
  case 0
  then show ?case by simp
next
  case (Suc n)
  then have i: "i < length bs" by simp
  let ?ie = "index_of (length hdr) bs ! i"
  obtain rc raw w1 where 1: "read_exact io f (i_off ?ie) (i_size ?ie) w = (rc, raw, w1)" by (metis prod_cases3)
  note b = block_in_image [OF Suc.prems(1,3) assms(4,5) i 1]
  have w1: "ok w1" "up w1" "fits w1 f c" using b(1) Suc.prems calm_ok calm_fits by blast+
  have rd: "block_read io ?ie f w = (GS_OK, bs ! i, w1)" using b(2-4) Suc.prems(2) by (simp add: block_read_def 1)
  have "n = length bs - Suc i" using Suc.hyps(2) by simp
  then obtain w2 where 2: "read_blocks io f (drop (Suc i) (index_of (length hdr) bs)) w1 = (GS_OK, concat (drop (Suc i) bs), w2)"
    using Suc.hyps(1) [OF _ w1] by blast
  have "drop i bs = bs ! i # drop (Suc i) bs" "drop i (index_of (length hdr) bs) = ?ie # drop (Suc i) (index_of (length hdr) bs)"
    using i by (simp_all add: Cons_nth_drop_Suc)
  then show ?case using rd 2 by simp
qed

end

section \<open>A layer that fails nothing\<close>

text \<open>The builder writes on: no failure, the layer up, the handle kept.\<close>

definition goes_on :: "('w \<Rightarrow> bool) \<Rightarrow> ('f \<Rightarrow> bool) \<Rightarrow> 'f builder \<Rightarrow> 'w \<Rightarrow> bool" where
  "goes_on up writable b w \<longleftrightarrow> b_rc b = GS_OK \<and> up w \<and> writable (the (b_file b))"

lemma goes_on_fields [simp]:
  "goes_on up wr (b\<lparr>b_off := n\<rparr>) w = goes_on up wr b w" "goes_on up wr (b\<lparr>b_index := i\<rparr>) w = goes_on up wr b w"
  "goes_on up wr (b\<lparr>b_block := x, b_ents := m\<rparr>) w = goes_on up wr b w" "goes_on up wr (bld_ref u m b) w = goes_on up wr b w"
  "goes_on up wr (b\<lparr>b_hashes := hs\<rparr>) w = goes_on up wr b w" "goes_on up wr (b\<lparr>b_smallest := x, b_small_seq := q\<rparr>) w = goes_on up wr b w"
  "goes_on up wr (b\<lparr>b_block := x, b_last := k, b_lastseq := q, b_ents := m, b_entries := n\<rparr>) w = goes_on up wr b w"
  by (simp_all add: goes_on_def bld_ref_def)

context file_layer_up
begin

lemma write_on: "goes_on up writable b w \<Longrightarrow> bld_write io p b w = (b', w') \<Longrightarrow> goes_on up writable b' w'"
  by (auto simp: bld_write_def goes_on_def dest: up_writes split: prod.splits if_splits)

lemma finish_on: "goes_on up writable b w \<Longrightarrow> bld_finish_block io b w = (b', w') \<Longrightarrow> goes_on up writable b' w'"
  by (auto simp: bld_finish_block_def Let_def split: prod.splits if_splits dest!: write_on [rotated])

lemma append_on: "goes_on up writable b w \<Longrightarrow> bld_append io e b db w = (b', w') \<Longrightarrow> goes_on up writable b' w'"
  by (auto simp: bld_append_def Let_def split: if_splits dest!: finish_on [rotated])

lemma adds_on:
  "goes_on up writable b w \<Longrightarrow> \<forall>e \<in> set es. stays db e \<Longrightarrow> bld_adds io es b db w = (b', db', w') \<Longrightarrow> goes_on up writable b' w'"
proof (induction es arbitrary: b w)
  case (Cons e es)
  obtain b1 d1 w1 where 1: "bld_add io e b db w = (b1, d1, w1)" by (metis prod_cases3)
  have "goes_on up writable b1 w1 \<and> d1 = db" using 1 Cons.prems(1,2)
    by (auto simp: bld_add_def stays_def Let_def goes_on_def [of _ _ b] split: prod.splits if_splits)
      (metis append_on goes_on_def goes_on_fields(4))+
  then show ?case using Cons.IH [of b1 w1] Cons.prems 1 by simp
qed simp

lemma tail_on: "goes_on up writable b w \<Longrightarrow> bld_tail io b w = (b', w') \<Longrightarrow> goes_on up writable b' w'"
  by (auto simp: bld_tail_def Let_def split: prod.splits dest!: write_on [rotated] finish_on [rotated])

lemma open_spec:
  assumes "up w" "free (file_name db (db_next_file db)) w" "length (db_identity db) = 16" "bld_open io db w = (b, db', w')"
  shows "db' = db\<lparr>db_next_file := db_next_file db + 1\<rparr>" "b_num b = db_next_file db" "goes_on up writable b w'"
    "building (db_identity db) [] [] b (fhdr_build (db_identity db) FK_SORTED (b_num b))"
    "fits w' (the (b_file b)) (fhdr_build (db_identity db) FK_SORTED (b_num b))"
proof -
  have n: "file_name (db\<lparr>db_next_file := x\<rparr>) y = file_name db y" for x y by (simp add: file_name_def)
  obtain rc f w1 where 1: "op_open io (file_name db (db_next_file db)) {IO_CREATE} w = (rc, f, w1)" by (metis prod_cases3)
  then obtain c where o: "up w1" "rc = IO_OK" "f \<noteq> None" "writable (the f)" "fits w1 (the f) c" using up_opens [OF assms(1,2) 1] by blast
  obtain rc2 w2 where 2: "op_truncate io (the f) 0 w1 = (rc2, w2)" by fastforce
  note t = up_truncates [OF o(1,4,5) 2]
  have fr: "fresh_file io (file_name db (db_next_file db)) w = (GS_OK, f, w2)"
    using 1 2 o t by (simp add: fresh_file_def gs_io_status_def)
  let ?b = "new_builder\<lparr>b_num := db_next_file db, b_file := f, b_rc := GS_OK\<rparr>"
  let ?h = "fhdr_build (db_identity db) FK_SORTED (db_next_file db)"
  obtain b3 w3 where 3: "bld_write io ?h ?b w2 = (b3, w3)" by fastforce
  have e: "b = b3" "w' = w3" "db' = db\<lparr>db_next_file := db_next_file db + 1\<rparr>"
    using assms(4) 3 by (simp_all add: bld_open_def n fr Let_def)
  then show "db' = db\<lparr>db_next_file := db_next_file db + 1\<rparr>" by simp
  have g0: "goes_on up writable ?b w2" using t o(4) by (simp add: goes_on_def)
  show g: "goes_on up writable b w'" using write_on [OF g0 3] e by simp
  have f0: "fits w2 (the (b_file ?b)) []" "b_off ?b = length ([] :: bytes)" using t by (simp_all add: new_builder_def)
  have ok3: "b_rc b3 = GS_OK" using g e by (simp add: goes_on_def)
  note ws = write_spec [OF f0 3 ok3]
  show "b_num b = db_next_file db" using ws(1) e by simp
  show "fits w' (the (b_file b)) (fhdr_build (db_identity db) FK_SORTED (b_num b))" using ws e by simp
  show "building (db_identity db) [] [] b (fhdr_build (db_identity db) FK_SORTED (b_num b))"
    using ws(1) e assms(3) by (simp add: building_def new_builder_def entries_bytes_def hashes_of_def)
qed

end

text \<open>A bound on the size of the file.\<close>

definition weight :: "ent list \<Rightarrow> nat" where
  "weight es = (\<Sum>e\<leftarrow>es. 2 * length (e_key e) + length (e_val e) + 128)"

lemma weight_simps [simp]: "weight [] = 0" "weight (e # es) = 2 * length (e_key e) + length (e_val e) + 128 + weight es"
  "weight (es @ fs) = weight es + weight fs"
  by (simp_all add: weight_def)

lemma weight_length: "128 * length es \<le> weight es"
  by (induction es) simp_all

lemma entries_weight: "length (entries_bytes es) + (\<Sum>e\<leftarrow>es. length (e_key e)) + 98 * length es \<le> weight es"
proof (induction es)
  case (Cons e es)
  have "length (stored_entry e) \<le> length (e_key e) + length (e_val e) + 29"
    using varint_put_length [of "of_nat (length (e_key e))"] varint_put_length [of "of_nat (length (e_val e))"]
    by (simp add: stored_entry_def)
  then show ?case using Cons by (simp add: entries_bytes_def)
qed (simp add: entries_bytes_def)

lemma block_weight: "es \<noteq> [] \<Longrightarrow> length (data_block es) + length (index_entry (e_key (last es)) q off n) + 2 * length es \<le> weight es"
proof -
  assume a: "es \<noteq> []"
  then have "length (e_key (last es)) \<le> (\<Sum>e\<leftarrow>es. length (e_key e))" by (intro member_le_sum_list) auto
  moreover have "length (index_entry (e_key (last es)) q off n) \<le> length (e_key (last es)) + 30"
    using varint_put_length [of "of_nat (length (e_key (last es)))"] by (simp add: index_entry_def)
  moreover have "1 \<le> length es" using a by (simp add: Suc_leI)
  ultimately show ?thesis using entries_weight [of es] by (simp add: data_block_def TRAIL_def SEAL_def)
qed

lemma blocks_weight: "[] \<notin> set bs \<Longrightarrow> length (blocks_bytes bs) + length (index_bytes off bs) + 2 * length (concat bs) \<le> weight (concat bs)"
proof (induction bs arbitrary: off)
  case (Cons es bs)
  have "length (blocks_bytes bs) + length (index_bytes (off + length (data_block es)) bs) + 2 * length (concat bs) \<le> weight (concat bs)"
    using Cons by simp
  moreover have "es \<noteq> []" using Cons.prems by auto
  ultimately show ?case using block_weight [of es "e_seq (last es)" off "length (data_block es)"] by simp
qed simp

lemma image_weight:
  assumes "[] \<notin> set bs" "length hs \<le> length (concat bs)" "length ident = 16"
  shows "length (file_image ident num bs hs) \<le> weight (concat bs) + 256"
proof -
  have "length (bloom_block hs) = (10 * length hs + 64) div 8 + 1 + TRAIL"
    using bloom_length [of hs] by (cases "bloom_build hs") (auto simp: bloom_block_def bloom_build_def Let_def)
  then have "length (bloom_block hs) \<le> 2 * length hs + 45" by (simp add: TRAIL_def SEAL_def)
  moreover have "length (index_block bs) = length (index_bytes FHDR bs) + 36" by (simp add: index_block_def TRAIL_def SEAL_def)
  moreover have "length (file_image ident num bs hs) = FHDR + length (blocks_bytes bs) + length (index_block bs) + length (bloom_block hs) + FOOTER"
    using assms(3) by (simp add: file_image_def Let_def footer_def FOOTER_def)
  ultimately show ?thesis using blocks_weight [OF assms(1), of FHDR] assms(2) by (simp add: FHDR_def FOOTER_def)
qed

context file_layer_up
begin

lemma close_spec:
  assumes "building ident bs cur b c" "fits w (the (b_file b)) c" "goes_on up writable b w" "concat bs @ cur \<noteq> []"
  shows "\<exists>m w' bs' hs. bld_close io b db w = (GS_OK, Some m, db, w') \<and> up w' \<and>
    fits w' (the (b_file b)) (file_image ident (b_num b) bs' hs) \<and> concat bs' = concat bs @ cur \<and> [] \<notin> set bs' \<and>
    hashes_of (concat bs') \<subseteq> set hs \<and> length hs \<le> length (concat bs') \<and>
    m_num m = b_num b \<and> m_size m = length (file_image ident (b_num b) bs' hs) \<and> m_entries m = length (concat bs') \<and>
    m_smallest m = e_key (hd (concat bs')) \<and> m_small_seq m = e_seq (hd (concat bs')) \<and>
    m_largest m = e_key (last (concat bs')) \<and> m_large_seq m = e_seq (last (concat bs')) \<and> m_seq_over m = 0"
proof -
  obtain b1 w1 where 1: "bld_tail io b w = (b1, w1)" by fastforce
  have on: "goes_on up writable b1 w1" using tail_on [OF assms(3) 1] .
  then have ok: "b_rc b1 = GS_OK" by (simp add: goes_on_def)
  obtain bs' hs where t: "fits w1 (the (b_file b)) (file_image ident (b_num b) bs' hs)" "concat bs' = concat bs @ cur" "[] \<notin> set bs'"
      "hashes_of (concat bs') \<subseteq> set hs" "length hs \<le> length (concat bs')" "b_bfile b1 = None" "b_file b1 = b_file b"
      "built_as (concat bs') (length (file_image ident (b_num b) bs' hs)) b b1"
    using tail_spec [OF assms(1,2) 1 ok] by blast
  obtain rc w2 where 2: "op_sync io (the (b_file b)) w1 = (rc, w2)" by fastforce
  have s: "rc = IO_OK" "up w2" "fits w2 (the (b_file b)) (file_image ident (b_num b) bs' hs)"
    using up_syncs [OF _ 2] syncs [OF t(1) 2] on by (simp_all add: goes_on_def)
  have ne: "concat bs' \<noteq> []" unfolding t(2) by (rule assms(4))
  have len: "length (concat bs') \<noteq> 0" using ne by simp
  note bu = t(8) [unfolded built_as_def]
  have cl: "bld_close io b db w = (GS_OK, Some (built_meta b1), db, w2)"
    using bu len unfolding bld_close_def 1 prod.case Let_def t(6,7) ok
    by (simp add: flush_file_def 2 s(1) del: concat_eq_Nil_conv length_concat length_0_conv)
  show ?thesis
    by (rule exI [of _ "built_meta b1"], rule exI [of _ w2], rule exI [of _ bs'], rule exI [of _ hs])
      (use cl s t(2-5) bu ne in \<open>simp add: built_meta_def del: concat_eq_Nil_conv length_concat\<close>)
qed

end

end
