(* ===== verification/Sorted_File_Sim.thy ===== *)
theory Sorted_File_Sim
  imports Sorted_File_Disk
begin

text \<open>
  Sorted files on the simulated layer of \<^verbatim>\<open>src/gsql/io_sim.c\<close>: that layer is one as the locales of
  \<open>Sorted_File_Disk\<close> ask, and so what the builder writes there is read back, and damage is seen.
\<close>

section \<open>The simulated layer\<close>

definition sim_fits :: "sim \<Rightarrow> sim_file \<Rightarrow> bytes \<Rightarrow> bool" where
  "sim_fits s f c \<longleftrightarrow> file_inode f < length (inodes s) \<and> view (inodes s ! file_inode f) = c"

definition no_directory :: "string \<Rightarrow> sim \<Rightarrow> bool" where
  "no_directory p s \<longleftrightarrow> map_of (view_names s) p \<noteq> Some None"

definition healthy :: "sim \<Rightarrow> bool" where
  "healthy s \<longleftrightarrow> \<not> crashed s \<and> crash_at s = 0 \<and> (\<forall>f. fail_in s f = 0)"

lemma sound_healthy: "sound_disk p s \<longleftrightarrow> healthy s \<and> no_directory p s"
  by (auto simp: sound_disk_def healthy_def no_directory_def)

lemma fits_quiet: "quiet s s' \<Longrightarrow> sim_fits s f c \<Longrightarrow> sim_fits s' f c"
  unfolding quiet_def sim_fits_def by (metis length_map nth_map)

lemma healthy_tick: "tick k s = (rc, s') \<Longrightarrow> healthy s \<Longrightarrow> healthy s' \<and> rc = IO_OK"
  by (auto simp: tick_def healthy_def Let_def)

lemma healthy_fault: "fault_fires s f = (b, s') \<Longrightarrow> healthy s \<Longrightarrow> healthy s' \<and> \<not> b"
  by (auto simp: fault_fires_def healthy_def)

lemma healthy_fields [simp]: "healthy (set_inode s i x) = healthy s" "healthy (s\<lparr>pend := ps\<rparr>) = healthy s"
  "healthy (s\<lparr>seed := sd\<rparr>) = healthy s"
  by (simp_all add: healthy_def set_inode_def)

lemma fits_write:
  assumes "sim_fits s f c" "sim_write_at f off b s = (IO_OK, s')"
  shows "sim_fits s' f (buf_write c off b)"
proof -
  obtain rc s1 where 1: "tick K_WRITE s = (rc, s1)" by fastforce
  obtain e s2 where 2: "fault_fires s1 FAIL_WRITE = (e, s2)" by fastforce
  have "sim_fits s2 f c" using fits_quiet quiet_trans tick_quiet [OF 1] fault_quiet [OF 2] assms(1) by blast
  then show ?thesis using assms(2) 1 2
    by (auto simp: sim_write_at_def sim_fits_def set_inode_def buf_write_def Let_def split: if_splits)
qed

lemma fits_read:
  assumes "sim_fits s f c" "sim_read_at f off n s = (rc, b, s')"
  shows "sim_fits s' f c \<and> (rc = IO_OK \<longrightarrow> b = take n (drop off c))"
proof -
  obtain k s1 where 1: "tick K_READ s = (k, s1)" by fastforce
  obtain e s2 where 2: "fault_fires s1 FAIL_READ = (e, s2)" by fastforce
  have "sim_fits s2 f c" using fits_quiet quiet_trans tick_quiet [OF 1] fault_quiet [OF 2] assms(1) by blast
  then have "rc = IO_OK \<longrightarrow> b = take n (drop off c)" using assms(2) 1 2
    by (auto simp: sim_read_at_def sim_fits_def Let_def split: if_splits)
  then show ?thesis using fits_quiet [OF read_quiet [OF assms(2)] assms(1)] by simp
qed

lemma fits_size:
  assumes "sim_fits s f c" "sim_size f s = (rc, n, s')"
  shows "sim_fits s' f c \<and> (rc = IO_OK \<longrightarrow> n = length c)"
proof -
  obtain k s1 where 1: "tick K_SIZE s = (k, s1)" by fastforce
  have "sim_fits s1 f c" using fits_quiet [OF tick_quiet [OF 1]] assms(1) by blast
  then show ?thesis using assms(2) 1 by (auto simp: sim_size_def sim_fits_def split: if_splits)
qed

lemma fits_sync: "sim_fits s f c \<Longrightarrow> sim_sync f s = (rc, s') \<Longrightarrow> sim_fits s' f c"
  using fits_quiet [OF sync_quiet] by blast

lemma healthy_read: "healthy s \<Longrightarrow> sim_read_at f off n s = (rc, b, s') \<Longrightarrow> healthy s' \<and> rc = IO_OK"
  by (auto simp: sim_read_at_def Let_def split: prod.splits if_splits dest!: healthy_tick healthy_fault)

lemma healthy_size: "healthy s \<Longrightarrow> sim_size f s = (rc, n, s') \<Longrightarrow> healthy s' \<and> rc = IO_OK"
  by (auto simp: sim_size_def split: prod.splits if_splits dest!: healthy_tick)

lemma healthy_close: "healthy s \<Longrightarrow> sim_close f s = (rc, s') \<Longrightarrow> healthy s'"
  by (auto simp: sim_close_def Let_def split: prod.splits if_splits dest!: healthy_tick)

text \<open>A disk that serves every call.\<close>

definition live :: "sim \<Rightarrow> bool" where
  "live s \<longleftrightarrow> healthy s \<and> names_good s"

lemma live_quiet: "live s \<Longrightarrow> quiet s s' \<Longrightarrow> healthy s' \<Longrightarrow> live s'"
  using quiet_kept(1) by (auto simp: live_def)

lemma good_set_inode: "names_good (set_inode s i x) = names_good s" "names_good (s\<lparr>pend := ps\<rparr>) = names_good s"
  by (simp_all add: names_good_def set_inode_def)

lemma live_truncate:
  assumes "live s" "\<not> read_only f" "sim_fits s f c" "sim_truncate f 0 s = (rc, s')"
  shows "live s' \<and> rc = IO_OK \<and> sim_fits s' f []"
proof -
  obtain k s1 where 1: "tick K_TRUNC s = (k, s1)" by fastforce
  have h: "healthy s1" "k = IO_OK" "sim_fits s1 f c" "names_good s1"
    using healthy_tick [OF 1] fits_quiet [OF tick_quiet [OF 1]] quiet_kept(1) [OF tick_quiet [OF 1]] assms(1,3) by (simp_all add: live_def)
  have s': "rc = IO_OK" "s' = set_inode (s1\<lparr>pend := pend s1 @ [P_TRUNC (file_inode f) 0]\<rparr>) (file_inode f)
      ((inodes s1 ! file_inode f)\<lparr>view := []\<rparr>)"
    using assms(2,4) 1 h(2) by (auto simp: sim_truncate_def buf_truncate_def Let_def)
  show ?thesis using h unfolding s' by (simp add: live_def good_set_inode) (simp add: sim_fits_def set_inode_def)
qed

lemma live_create:
  assumes "live s" "no_directory p s" "sim_open p {IO_CREATE} s = (rc, h, s')"
  shows "live s' \<and> rc = IO_OK \<and> h \<noteq> None \<and> \<not> read_only (the h) \<and> (\<exists>c. sim_fits s' (the h) c)"
proof -
  have g: "names_good s" "sound_disk p s" using assms(1,2) by (simp_all add: sound_healthy live_def)
  have c: "sim_open p (if False then {IO_CREATE, IO_EXCLUSIVE} else {IO_CREATE}) s = (rc, h, s')" using assms(3) by simp
  have u: "sound_disk p s'" "rc = IO_OK" "\<not> read_only (the h)" using create_sound [OF g _ c] by simp_all
  have k: "names_good s'" "open_on p s' (the h)" using create_kept [OF g(1) c] u(2) by simp_all
  then have "sim_fits s' (the h) (view (inodes s' ! file_inode (the h)))" by (simp add: sim_fits_def names_good_def open_on_def)
  moreover have "h \<noteq> None" using assms(3) u(2)
    by (auto simp: sim_open_def new_file_def Let_def split: prod.splits if_splits option.splits)
  ultimately show ?thesis using u k by (auto simp: sound_healthy live_def)
qed

lemma live_write: "live s \<Longrightarrow> \<not> read_only f \<Longrightarrow> sim_write_at f off b s = (rc, s') \<Longrightarrow> live s' \<and> rc = IO_OK"
proof -
  assume l: "live s" and r: "\<not> read_only f" and w: "sim_write_at f off b s = (rc, s')"
  obtain k s1 where 1: "tick K_WRITE s = (k, s1)" by fastforce
  obtain e s2 where 2: "fault_fires s1 FAIL_WRITE = (e, s2)" by fastforce
  have "quiet s s2" using tick_quiet [OF 1] fault_quiet [OF 2] quiet_trans by blast
  then have "names_good s2" "healthy s2" "k = IO_OK" "\<not> e"
    using l healthy_tick [OF 1] healthy_fault [OF 2] quiet_kept(1) by (auto simp: live_def)
  then show "live s' \<and> rc = IO_OK" using w r 1 2
    by (auto simp: sim_write_at_def Let_def live_def good_set_inode split: if_splits)
qed

lemma live_sync: "live s \<Longrightarrow> sim_sync f s = (rc, s') \<Longrightarrow> live s' \<and> rc = IO_OK"
proof -
  assume l: "live s" and a: "sim_sync f s = (rc, s')"
  have "healthy s' \<and> rc = IO_OK" using a l
    by (auto simp: sim_sync_def live_def Let_def split: prod.splits if_splits dest!: healthy_tick healthy_fault)
  then show "live s' \<and> rc = IO_OK" using live_quiet [OF l sync_quiet [OF a]] by blast
qed

interpretation sim_files: file_layer_up sim_ops sim_fits live no_directory "\<lambda>f. \<not> read_only f"
  by (unfold_locales, unfold sim_ops_def io_ops.simps)
    (rule fits_write fits_sync live_create live_truncate live_write live_sync; assumption?)+

text \<open>Reading: the calls that change nothing are \<open>quiet\<close>.\<close>

abbreviation sim_steady :: "sim \<Rightarrow> sim \<Rightarrow> bool" where
  "sim_steady \<equiv> steady names_good healthy sim_fits (\<lambda>p s. gsql_io_sim_contents s p)"

lemma quiet_steady: "names_good s \<Longrightarrow> quiet s s' \<Longrightarrow> (healthy s \<Longrightarrow> healthy s') \<Longrightarrow> sim_steady s s'"
  using quiet_kept fits_quiet by (auto simp: steady_def)

lemma steady_read:
  assumes "names_good s" "sim_read_at f off n s = (rc, b, s')"
  shows "sim_steady s s' \<and> (healthy s \<longrightarrow> rc = IO_OK) \<and> (\<forall>c. sim_fits s f c \<and> rc = IO_OK \<longrightarrow> b = take n (drop off c))"
  using quiet_steady [OF assms(1) read_quiet [OF assms(2)]] healthy_read [OF _ assms(2)] fits_read [OF _ assms(2)] by blast

lemma size_zero: "sim_size f s = (rc, n, s') \<Longrightarrow> rc \<noteq> IO_OK \<Longrightarrow> n = 0"
  by (auto simp: sim_size_def split: prod.splits if_splits)

lemma steady_size:
  assumes "names_good s" "sim_size f s = (rc, n, s')"
  shows "sim_steady s s' \<and> (healthy s \<longrightarrow> rc = IO_OK) \<and> (\<forall>c. sim_fits s f c \<longrightarrow> n = (if rc = IO_OK then length c else 0))"
  using quiet_steady [OF assms(1) size_quiet [OF assms(2)]] healthy_size [OF _ assms(2)] fits_size [OF _ assms(2)] size_zero [OF assms(2)]
  by auto

lemma steady_close: "names_good s \<Longrightarrow> sim_close f s = (rc, s') \<Longrightarrow> sim_steady s s'"
  using quiet_steady [OF _ close_quiet] healthy_close by blast

lemma steady_open:
  assumes "names_good s" "IO_CREATE \<notin> fl" "sim_open p fl s = (rc, h, s')"
  shows "sim_steady s s' \<and> (\<forall>c. gsql_io_sim_contents s p = Some c \<longrightarrow> (healthy s \<longrightarrow> rc = IO_OK) \<and> (rc = IO_OK \<longrightarrow> sim_fits s' (the h) c))"
proof -
  obtain k s1 where 1: "tick K_OPEN s = (k, s1)" by fastforce
  have q: "quiet s s'" by (rule open_quiet [OF assms(3,2)])
  have up: "healthy s \<Longrightarrow> healthy s'" using assms(2,3) 1 healthy_tick [OF 1]
    by (auto simp: sim_open_def new_file_def healthy_def split: if_splits option.splits)
  have n: "view_names s1 = view_names s" "inodes s1 = inodes s" using tick_disk [OF 1] by simp_all
  have "(healthy s \<longrightarrow> rc = IO_OK) \<and> (rc = IO_OK \<longrightarrow> sim_fits s' (the h) c)" if c: "gsql_io_sim_contents s p = Some c" for c
  proof -
    obtain i j where i: "names_find (view_names s) p = Some i" "snd (view_names s ! i) = Some j" "c = view (inodes s ! j)"
      using c by (auto simp: gsql_io_sim_contents_def split: option.splits)
    have "j < length (inodes s)" using assms(1) named_file [OF i(1,2)] by (auto simp: names_good_def)
    then show ?thesis using assms(2,3) 1 n i healthy_tick [OF 1]
      by (auto simp: sim_open_def new_file_def sim_fits_def split: if_splits)
  qed
  then show ?thesis using quiet_steady [OF assms(1) q up] by blast
qed

interpretation sim_reads: reads_layer sim_ops sim_fits names_good healthy "\<lambda>p s. gsql_io_sim_contents s p"
  by (unfold_locales, unfold sim_ops_def io_ops.simps)
    (rule steady_read steady_size steady_close steady_open; assumption?)+

text \<open>C35. A sorted file is read back as it was written: on the simulated layer, with no fault armed, opening a
  builder, adding any list of one or more entries (of values short enough to stay in the file, \<open>stays\<close>, and with a
  weight under 2^28 in all, where an entry weighs twice its key, its value and 128 bytes more) and closing it succeeds; the record for the manifest has their number, the first and the last
  key; the file then opens, a scan of its index entries, block after block, gives exactly the entries in order,
  and its Bloom filter passes the key of every one.\<close>

theorem sorted_file_reads_back:
  assumes disk: "healthy s" "names_good s" "no_directory (file_name db (db_next_file db)) s"
    and db: "length (db_identity db) = 16" and es: "es \<noteq> []" "\<forall>e \<in> set es. stays db e" "weight es < 2 ^ 28"
  shows "\<exists>b0 db' s1 b s2 m s3 l s4 s5.
    bld_open sim_io db s = (b0, db', s1) \<and> bld_adds sim_io es b0 db' s1 = (b, db', s2) \<and>
    bld_close sim_io b db' s2 = (GS_OK, Some m, db', s3) \<and>
    m_num m = db_next_file db \<and> m_entries m = length es \<and> m_smallest m = e_key (hd es) \<and> m_largest m = e_key (last es) \<and>
    file_open sim_io db' (m_num m) (the (b_file b0)) s3 = Some (GS_OK, Some l, s4) \<and>
    read_blocks sim_io (the (b_file b0)) (l_index l) s4 = (GS_OK, es, s5) \<and>
    (\<forall>e \<in> set es. bloom_may (l_bloom l) (l_bits l) (e_key e))"
proof -
  obtain b0 db' s1 where 1: "bld_open sim_io db s = (b0, db', s1)" by (metis prod_cases3)
  have lv: "live s" using disk by (simp add: live_def)
  note o = sim_files.open_spec [OF lv disk(3) db 1]
  obtain b d2 s2 where 2: "bld_adds sim_io es b0 db' s1 = (b, d2, s2)" by (metis prod_cases3)
  have st: "\<forall>e \<in> set es. stays db' e" using es(2) by (simp add: o(1) stays_def)
  note on = sim_files.adds_on [OF o(3) st 2]
  have ok: "b_rc b = GS_OK" using on by (simp add: goes_on_def)
  obtain c bs cur where a: "building (db_identity db) bs cur b c" "sim_fits s2 (the (b_file b0)) c" "concat bs @ cur = es"
      "b_file b = b_file b0" "b_num b = b_num b0" "d2 = db'"
    using sim_files.adds_spec [OF o(4,5) st 2 ok] by auto
  have fits: "sim_fits s2 (the (b_file b)) c" "concat bs @ cur \<noteq> []" using a es(1) by simp_all
  obtain m s3 bs' hs where cl: "bld_close sim_io b db' s2 = (GS_OK, Some m, db', s3)" "live s3"
      "sim_fits s3 (the (b_file b)) (file_image (db_identity db) (b_num b) bs' hs)" "concat bs' = concat bs @ cur" "[] \<notin> set bs'"
      "hashes_of (concat bs') \<subseteq> set hs" "length hs \<le> length (concat bs')" "m_num m = b_num b" "m_entries m = length (concat bs')"
      "m_smallest m = e_key (hd (concat bs'))" "m_largest m = e_key (last (concat bs'))"
    using sim_files.close_spec [OF a(1) fits(1) on fits(2), of db'] by metis
  let ?img = "file_image (db_identity db) (b_num b) bs' hs"
  have es': "concat bs' = es" using cl(4) a(3) by simp
  have size: "length ?img < 2 ^ 29" using image_weight [OF cl(5,7) db, of "b_num b"] es(3) unfolding es' by simp
  have id: "db_identity db' = db_identity db" by (simp add: o(1))
  have up: "names_good s3" "healthy s3" using cl(2) by (simp_all add: live_def)
  obtain s4 where op: "file_open sim_io db' (b_num b) (the (b_file b)) s3 =
      Some (GS_OK, Some \<lparr>l_index = index_of FHDR bs', l_bloom = bloom_block hs, l_bits = fst (bloom_build hs)\<rparr>, s4)" "sim_steady s3 s4"
    using sim_reads.file_open_image [OF up(1) cl(3) id db size] up(2) by auto
  have s4: "names_good s4" "healthy s4" "sim_fits s4 (the (b_file b)) ?img"
    using sim_reads.calm_ok [OF op(2)] sim_reads.calm_fits [OF op(2) cl(3)] up(2) by blast+
  have img: "?img = fhdr_build (db_identity db) FK_SORTED (b_num b) @ blocks_bytes bs' @ drop (FHDR + length (blocks_bytes bs')) ?img"
    using db by (simp add: file_image_def Let_def)
  have "length ?img < 2 ^ 32" using size by simp
  then obtain s5 where rd: "read_blocks sim_io (the (b_file b)) (index_of FHDR bs') s4 = (GS_OK, es, s5)"
    using sim_reads.read_blocks_drop [OF s4 img, of 0] db es' by auto
  have bits: "fst (bloom_build hs) < 2 ^ 64"
  proof -
    have "length (bloom_block hs) < 2 ^ 29" using size by (simp add: file_image_def Let_def)
    then show ?thesis using bloom_bits_small [of hs] by simp
  qed
  have bl: "bloom_may (bloom_block hs) (fst (bloom_build hs)) (e_key e)" if "e \<in> set es" for e
  proof -
    have "key_hash64 (e_key e) \<in> set hs" using cl(6) that unfolding es' hashes_of_def by blast
    from bloom_has_keys [OF _ this bits, of "snd (bloom_build hs)"] show ?thesis unfolding bloom_block_def using seal_prefix by (metis prod.collapse)
  qed
  have num: "b_num b = db_next_file db" using a(5) o(2) by simp
  show ?thesis using 1 2 cl(1,8-11) op(1) rd bl es' num a(4,6) by auto
qed

definition sample_engine :: engine where
  "sample_engine = \<lparr>db_path = ''/d/s'', db_identity = replicate 16 7, db_block = 40, db_vsep = 0, db_next_file = 3, db_failed = False\<rparr>"

definition sample_entries :: "ent list" where
  "sample_entries = [\<lparr>e_key = [1, 2], e_seq = 9, e_type = TYPE_PUT, e_val = replicate 60 5\<rparr>, \<lparr>e_key = [1, 2], e_seq = 4, e_type = TYPE_DEL, e_val = []\<rparr>,
     \<lparr>e_key = [3], e_seq = 5, e_type = TYPE_PUT, e_val = [8]\<rparr>]"

lemma sorted_file_reads_back_witness:
  "\<exists>b0 db' s1 b s2 m s3 l s4 s5.
    bld_open sim_io sample_engine gsql_io_sim = (b0, db', s1) \<and> bld_adds sim_io sample_entries b0 db' s1 = (b, db', s2) \<and>
    bld_close sim_io b db' s2 = (GS_OK, Some m, db', s3) \<and> m_entries m = 3 \<and> m_largest m = [3] \<and>
    file_open sim_io db' (m_num m) (the (b_file b0)) s3 = Some (GS_OK, Some l, s4) \<and>
    read_blocks sim_io (the (b_file b0)) (l_index l) s4 = (GS_OK, sample_entries, s5) \<and> bloom_may (l_bloom l) (l_bits l) [3]"
proof -
  have h: "healthy gsql_io_sim" "names_good gsql_io_sim" "no_directory p gsql_io_sim" for p
    by (simp_all add: healthy_def names_good_def no_directory_def gsql_io_sim_def)
  have e: "length (db_identity sample_engine) = 16" "sample_entries \<noteq> []" "\<forall>e \<in> set sample_entries. stays sample_engine e" "weight sample_entries < 2 ^ 28"
    by (simp_all add: sample_engine_def sample_entries_def stays_def)
  have f: "length sample_entries = 3" "e_key (last sample_entries) = [3]" by (simp_all add: sample_entries_def)
  have k: "(\<forall>e \<in> set sample_entries. P (e_key e)) \<Longrightarrow> P [3]" for P by (simp add: sample_entries_def)
  show ?thesis using sorted_file_reads_back [OF h e] unfolding f by (blast dest: k)
qed

section \<open>Damage\<close>

lemma damaged_block:
  assumes "seal_block b n = p @ xs @ q" "xs \<noteq> ys" "length ys = length xs" "length xs \<le> 4" "4 \<le> length q \<or> length (xs @ q) \<le> 4"
  shows "check_block (p @ ys @ q) = GS_CORRUPT"
proof -
  let ?d = "p @ ys @ q" and ?o = "p @ xs @ q"
  have len: "length ?d = length ?o" "TRAIL \<le> length ?o" using assms(3) seal_length [of b n] unfolding assms(1) by simp_all
  have old: "get_le (peek (length ?o - 4) 4 ?o) = crc32c (take (length ?o - 4) ?o)"
    using seal_checks [of b n] unfolding assms(1) check_block_def by (simp split: if_splits)
  have "get_le (peek (length ?d - 4) 4 ?d) \<noteq> crc32c (take (length ?d - 4) ?d)"
  proof (cases "4 \<le> length q")
    case True
    obtain q1 q2 where q: "q = q1 @ q2" "length q2 = 4" using True by (metis append_take_drop_id diff_diff_cancel length_drop)
    have "crc32c (p @ xs @ q1) \<noteq> crc32c (p @ ys @ q1)" unfolding crc32c_def using crc_burst [of xs ys] assms(2,3,4) by metis
    then show ?thesis using old q(2) assms(3) by (simp add: q(1) peek_def)
  next
    case False
    then have short: "length (xs @ q) \<le> 4" using assms(5) by blast
    have big: "4 \<le> length ?o" using len(2) by (simp add: TRAIL_def SEAL_def)
    have t: "take (length ?d - 4) ?d = take (length ?o - 4) ?o" using short assms(3) big by simp
    have pk: "peek (length ?o - 4) 4 z = drop (length ?o - 4) z" if "length z = length ?o" for z :: bytes
      using that by (simp add: peek_def)
    have "drop (length ?o - 4) ?d \<noteq> drop (length ?o - 4) ?o" using t len(1) assms(2,3)
      by (metis append_take_drop_id append_eq_append_conv same_append_eq)
    moreover have "length (drop (length ?o - 4) ?d) = 4" "length (drop (length ?o - 4) ?o) = 4" using len(1) big by simp_all
    ultimately have "(get_le (drop (length ?o - 4) ?d) :: u32) \<noteq> get_le (drop (length ?o - 4) ?o)"
      using get_le_inject4 [of "drop (length ?o - 4) ?d" "drop (length ?o - 4) ?o"] by linarith
    then show ?thesis using old t len(1) pk [OF len(1)] pk [OF refl] by simp
  qed
  then show ?thesis using len by (simp add: check_block_def)
qed

text \<open>C36. A damaged block is never taken for data: when up to four adjacent bytes of a block (of the entries
  and the seal, or of the checksum) are other bytes on the disk than the builder wrote, reading it answers
  that the store is corrupt and gives no entry.\<close>

theorem damaged_block_is_refused:
  assumes "healthy s" "names_good s" "sim_fits s f (pre @ p @ ys @ q @ post)" "data_block es = p @ xs @ q" "xs \<noteq> ys" "length ys = length xs"
    "length xs \<le> 4" "4 \<le> length q \<or> length (xs @ q) \<le> 4" "i_off ie = length pre" "i_size ie = length (data_block es)"
  shows "\<exists>s'. block_read sim_io ie f s = (GS_CORRUPT, [], s')"
proof -
  have bad: "check_block (p @ ys @ q) = GS_CORRUPT" using damaged_block assms(4-8) unfolding data_block_def by blast
  have n: "i_size ie = length (p @ ys @ q)" using assms(4,6,10) by simp
  obtain rc x s' where r: "read_exact sim_io f (i_off ie) (i_size ie) s = (rc, x, s')" by (metis prod_cases3)
  have c: "sim_fits s f (pre @ (p @ ys @ q) @ post)" using assms(3) by simp
  have "rc = GS_OK" "x = p @ ys @ q"
    using sim_reads.exact_spec(3) [OF assms(2) r c assms(9) n assms(1)] sim_reads.exact_spec(2) [OF assms(2) r c assms(9) n] by simp_all
  then have "read_exact sim_io f (i_off ie) (i_size ie) s = (GS_OK, p @ ys @ q, s')" using r by simp
  then show ?thesis by (simp add: block_read_def block_of_def bad)
qed

definition damaged_disk :: sim where
  "damaged_disk = gsql_io_sim\<lparr>inodes := [\<lparr>durable = [], view = 9 # drop 1 (data_block sample_entries), lock_holder = None\<rparr>]\<rparr>"

lemma damaged_block_is_refused_witness:
  "\<exists>s'. block_read sim_io \<lparr>i_last = [3], i_lastseq = 5, i_off = 0, i_size = length (data_block sample_entries)\<rparr>
     \<lparr>file_id = 0, file_inode = 0, read_only = True\<rparr> damaged_disk = (GS_CORRUPT, [], s')"
proof (rule damaged_block_is_refused [where pre = "[]" and p = "[]" and xs = "[2]" and ys = "[9]" and es = sample_entries
      and q = "drop 1 (data_block sample_entries)" and post = "[]"])
  have "\<exists>z. entries_bytes sample_entries = 2 # z" 
    by (simp add: entries_bytes_def sample_entries_def stored_entry_def varint_put.simps)
  then obtain z where z: "data_block sample_entries = 2 # z" by (auto simp: data_block_def seal_block_def Let_def)
  show "data_block sample_entries = [] @ [2] @ drop 1 (data_block sample_entries)" by (simp add: z)
  have "36 \<le> length (data_block sample_entries)" by (simp add: data_block_def TRAIL_def SEAL_def)
  then have "4 \<le> length (drop 1 (data_block sample_entries))" unfolding length_drop by linarith
  then show "4 \<le> length (drop 1 (data_block sample_entries)) \<or> length ([2] @ drop 1 (data_block sample_entries)) \<le> 4" by blast
qed (simp_all add: damaged_disk_def healthy_def names_good_def sim_fits_def gsql_io_sim_def)

end
