(* ===== verification/Store_Reads.thy ===== *)
theory Store_Reads
  imports "HOL-Library.Monad_Syntax" Sorted_File Page_Cache_Props
begin

text \<open>
  The read paths of the engine of \<^verbatim>\<open>src/gsql/lsm.c\<close>: read handles, opened sorted files, the block cache,
  blob values, and the iterators (\<^verbatim>\<open>Src\<close>) over the memtable and over sorted files. The store's state is
  \<open>db\<close>: the world of the I/O layer and what the code keeps in \<^verbatim>\<open>GsStore\<close> and in its \<^verbatim>\<open>FileMeta\<close>s. The
  block cache is the list of entries that \<open>Page_Cache_Props\<close> shows the code's pointers implement, and the
  list of open handles is kept as a list too, both most recently used first. A function is partial
  (\<open>None\<close>: it does not return) where a loop of the code may run forever.
\<close>

section \<open>The store\<close>

record ('w, 'f) db =
  world :: 'w
  eng :: engine
  hnds :: "(string \<times> 'f) list"
  max_open :: nat
  opened :: "u64 \<Rightarrow> loaded option"
  blocks_cached :: "entry list"
  cache_room :: nat
  blob_checked :: "(u64 \<times> bool) list"

text \<open>Closing the least recently used handles until one more fits.\<close>

function hnd_make_room :: "('w, 'f, 'c) io_ops \<Rightarrow> nat \<Rightarrow> (string \<times> 'f) list \<Rightarrow> 'w \<Rightarrow> (string \<times> 'f) list \<times> 'w" where
  "hnd_make_room io n hs w =
     (if n \<le> length hs \<and> hs \<noteq> [] then hnd_make_room io n (butlast hs) (snd (op_close io (snd (last hs)) w)) else (hs, w))"
  by auto
termination by (relation "measure (\<lambda>(io, n, hs, w). length hs)") auto

declare hnd_make_room.simps [simp del]

definition hnd_get :: "('w, 'f, 'c) io_ops \<Rightarrow> string \<Rightarrow> io_flag set \<Rightarrow> ('w, 'f) db \<Rightarrow> io_code \<times> 'f option \<times> ('w, 'f) db" where
  "hnd_get io name fl d =
     (case map_of (hnds d) name of
        Some f \<Rightarrow> (IO_OK, Some f, d\<lparr>hnds := (name, f) # filter (\<lambda>h. fst h \<noteq> name) (hnds d)\<rparr>)
      | None \<Rightarrow>
          let (hs, w) = hnd_make_room io (max_open d) (hnds d) (world d);
              (rc, f, w) = op_open io name fl w
          in if rc \<noteq> IO_OK then (rc, None, d\<lparr>hnds := hs, world := w\<rparr>)
             else (IO_OK, Some (the f), d\<lparr>hnds := (name, the f) # hs, world := w\<rparr>))"

text \<open>The status of a read whose file does not open (\<^verbatim>\<open>file_fd\<close> and \<^verbatim>\<open>blob_read\<close>).\<close>

definition fd_status :: "io_code \<Rightarrow> gs_status" where
  "fd_status rc = (if rc = ENOENT then GS_CORRUPT else gs_io_status rc)"

definition file_fd :: "('w, 'f, 'c) io_ops \<Rightarrow> file_meta \<Rightarrow> ('w, 'f) db \<Rightarrow> gs_status \<times> 'f option \<times> ('w, 'f) db" where
  "file_fd io m d =
     (let (rc, f, d) = hnd_get io (file_name (eng d) (m_num m)) {IO_READ_ONLY} d
      in (if rc \<noteq> IO_OK then fd_status rc else GS_OK, f, d))"

text \<open>\<^verbatim>\<open>file_close\<close>: the handle is closed, what was read of the file forgotten.\<close>

definition file_close :: "('w, 'f, 'c) io_ops \<Rightarrow> file_meta \<Rightarrow> ('w, 'f) db \<Rightarrow> ('w, 'f) db" where
  "file_close io m d =
     (let name = file_name (eng d) (m_num m); d = d\<lparr>opened := (opened d)(m_num m := None)\<rparr>
      in case map_of (hnds d) name of
           Some f \<Rightarrow> d\<lparr>hnds := filter (\<lambda>h. fst h \<noteq> name) (hnds d), world := snd (op_close io f (world d))\<rparr>
         | None \<Rightarrow> d)"

text \<open>\<^verbatim>\<open>file_open\<close>, which keeps what it read in the \<^verbatim>\<open>FileMeta\<close>.\<close>

definition file_load :: "('w, 'f, 'c) io_ops \<Rightarrow> file_meta \<Rightarrow> ('w, 'f) db \<Rightarrow> (gs_status \<times> ('w, 'f) db) option" where
  "file_load io m d =
     (if opened d (m_num m) \<noteq> None then Some (GS_OK, d)
      else let (rc, f, d) = file_fd io m d
      in if rc \<noteq> GS_OK then Some (rc, d)
      else let (rc, ib, bb, ioff, w) = file_parts io (eng d) (m_num m) (the f) (world d); d = d\<lparr>world := w\<rparr>
      in if rc \<noteq> GS_OK then Some (rc, d)
      else do {
        (rc, l) \<leftarrow> load_index ib bb ioff;
        Some (rc, if rc = GS_OK then d\<lparr>opened := (opened d)(m_num m := l)\<rparr> else file_close io m d)
      })"

definition file_index :: "('w, 'f) db \<Rightarrow> file_meta \<Rightarrow> idx_entry list" where
  "file_index d m = (case opened d (m_num m) of Some l \<Rightarrow> l_index l | None \<Rightarrow> [])"

text \<open>The size of a block in the cache: the block, its entry table and its bytes (64-bit sizes).\<close>

definition cached_size :: "bytes \<Rightarrow> nat" where
  "cached_size raw = 32 + get_nat (length raw - TRAIL) 4 raw * 48 + length raw"

text \<open>The second branch of \<^verbatim>\<open>block_fetch\<close>: the block read from the file, checked and parsed.\<close>

definition block_load :: "('w, 'f, 'c) io_ops \<Rightarrow> file_meta \<Rightarrow> nat \<Rightarrow> ('w, 'f) db \<Rightarrow> (gs_status + bytes) \<times> ('w, 'f) db" where
  "block_load io m bi d =
     (let ie = file_index d m ! bi; (rc, f, d) = file_fd io m d
      in if rc \<noteq> GS_OK then (Inl rc, d)
         else let (rc, raw, w) = read_exact io (the f) (i_off ie) (i_size ie) (world d);
                  d = d\<lparr>world := w\<rparr>; rc = (if rc = GS_OK then fst (block_of raw) else rc)
              in (if rc \<noteq> GS_OK then Inl rc else Inr raw, d))"

definition block_key :: "file_meta \<Rightarrow> nat \<Rightarrow> u64 \<times> u64" where
  "block_key m bi = (m_num m, of_nat (bi + 1))"

text \<open>\<^verbatim>\<open>block_fetch\<close> on the list of cached blocks: the status, the pinned entry's key, the block's entries.\<close>

definition fetch_block :: "('w, 'f, 'c) io_ops \<Rightarrow> file_meta \<Rightarrow> nat \<Rightarrow> ('w, 'f) db \<Rightarrow> gs_status \<times> (u64 \<times> u64) option \<times> ent list \<times> ('w, 'f) db" where
  "fetch_block io m bi d =
     (case find (\<lambda>e. entry_key e = block_key m bi) (blocks_cached d) of
        Some e \<Rightarrow>
          (GS_OK, Some (block_key m bi), snd (block_of (entry_data e)),
           d\<lparr>blocks_cached := lru_evict cached_size (cache_room d) (entry_pin 1 e # remove1 e (blocks_cached d))\<rparr>)
      | None \<Rightarrow>
          let (load, d) = block_load io m bi d
          in case load of
               Inl rc \<Rightarrow> (rc, None, [], d)
             | Inr raw \<Rightarrow>
                 (GS_OK, Some (block_key m bi), snd (block_of raw),
                  d\<lparr>blocks_cached := lru_evict cached_size (cache_room d)
                       ((fst (block_key m bi), snd (block_key m bi), raw, 1, False) # blocks_cached d)\<rparr>))"

definition unpin_block :: "u64 \<times> u64 \<Rightarrow> ('w, 'f) db \<Rightarrow> ('w, 'f) db" where
  "unpin_block k d = d\<lparr>blocks_cached := map (\<lambda>e. if entry_key e = k then entry_pin (- 1) e else e) (blocks_cached d)\<rparr>"

text \<open>A value, through the handle of its blob file (\<^verbatim>\<open>blob_read\<close>, \<^verbatim>\<open>val_copy\<close>).\<close>

definition value_of :: "('w, 'f, 'c) io_ops \<Rightarrow> ent \<Rightarrow> ('w, 'f) db \<Rightarrow> gs_status \<times> bytes \<times> ('w, 'f) db" where
  "value_of io e d =
     (if e_type e \<noteq> TYPE_BLOB then (GS_OK, e_val e, d)
      else if length (e_val e) \<noteq> BLOB_PTR then (GS_CORRUPT, [], d)
      else let num = get_le (peek 0 8 (e_val e))
      in case map_of (blob_checked d) num of
           None \<Rightarrow> (GS_CORRUPT, [], d)
         | Some checked \<Rightarrow>
             let (rc, f, d) = hnd_get io (blob_name (eng d) num) {} d
             in if rc \<noteq> IO_OK then (fd_status rc, [], d)
                else let (rc, v, checked, w) = blob_read io (eng d) (e_val e) f checked (world d)
                     in (rc, v, d\<lparr>world := w, blob_checked := map (\<lambda>b. if fst b = num then (num, checked) else b) (blob_checked d)\<rparr>))"

section \<open>Iterators\<close>

text \<open>A source: a skip list, or sorted files whose entries follow one another.\<close>

datatype src_kind = SK skip | FILES "file_meta list"

record src =
  s_kind :: src_kind
  s_node :: "nat option"
  s_fi :: nat
  s_bi :: nat
  s_blk :: "ent list"
  s_pin :: "(u64 \<times> u64) option"
  s_priv :: bool
  s_ei :: nat
  s_valid :: bool
  s_rc :: gs_status
  s_steps :: nat
  s_stepped :: nat
  s_ra :: "bytes option"
  s_ra_off :: nat
  s_ra_file :: u64

definition new_src :: "src_kind \<Rightarrow> bool \<Rightarrow> src" where
  "new_src kd priv =
     \<lparr>s_kind = kd, s_node = None, s_fi = 0, s_bi = 0, s_blk = [], s_pin = None, s_priv = priv, s_ei = 0, s_valid = False,
      s_rc = GS_OK, s_steps = 0, s_stepped = 0, s_ra = None, s_ra_off = 0, s_ra_file = 0\<rparr>"

definition src_unpin_db :: "src \<Rightarrow> ('w, 'f) db \<Rightarrow> src \<times> ('w, 'f) db" where
  "src_unpin_db s d = (s\<lparr>s_pin := None, s_blk := []\<rparr>, case s_pin s of None \<Rightarrow> d | Some k \<Rightarrow> unpin_block k d)"

definition src_reset :: "src \<Rightarrow> ('w, 'f) db \<Rightarrow> src \<times> ('w, 'f) db" where
  "src_reset s d =
     (let (s, d) = src_unpin_db s d
      in (s\<lparr>s_valid := False, s_ra := None, s_ra_off := 0, s_ra_file := 0, s_steps := 0, s_stepped := 0\<rparr>, d))"

fun files_of :: "src_kind \<Rightarrow> file_meta list" where
  "files_of (FILES ms) = ms"
| "files_of (SK sk) = []"

definition src_load :: "('w, 'f, 'c) io_ops \<Rightarrow> nat \<Rightarrow> nat \<Rightarrow> src \<Rightarrow> ('w, 'f) db \<Rightarrow> (gs_status \<times> src \<times> ('w, 'f) db) option" where
  "src_load io fi bi s d =
     (let (s, d) = src_unpin_db s d; m = files_of (s_kind s) ! fi
      in do {
        (rc, d) \<leftarrow> file_load io m d;
        let (rc, pn, blk, d) = (if rc = GS_OK then fetch_block io m bi d else (rc, None, [], d));
        Some (if rc \<noteq> GS_OK then (rc, s\<lparr>s_rc := rc, s_valid := False\<rparr>, d)
              else (GS_OK, s\<lparr>s_pin := pn, s_blk := blk, s_fi := fi, s_bi := bi\<rparr>, d))
      })"

definition READ_AHEAD :: nat where "READ_AHEAD = 131072"

text \<open>A difference of the code, in 64 bits.\<close>

definition wrap_minus :: "nat \<Rightarrow> nat \<Rightarrow> nat" where
  "wrap_minus a b = (a + 2 ^ 64 - b) mod 2 ^ 64"

text \<open>Where the read ahead from \<open>off\<close> ends: \<open>ies\<close> are the blocks that follow.\<close>

fun ahead_end :: "idx_entry list \<Rightarrow> nat \<Rightarrow> nat \<Rightarrow> nat" where
  "ahead_end [] off stop = stop"
| "ahead_end (ie # ies) off stop =
     (if wrap_minus (wrap (i_off ie + i_size ie)) off \<le> READ_AHEAD then ahead_end ies off (wrap (i_off ie + i_size ie)) else stop)"

text \<open>Bytes of the block \<open>bi\<close> and of those after it into the source's own buffer, unless they are there.\<close>

definition read_ahead :: "('w, 'f, 'c) io_ops \<Rightarrow> file_meta \<Rightarrow> nat \<Rightarrow> src \<Rightarrow> ('w, 'f) db \<Rightarrow> gs_status \<times> src \<times> ('w, 'f) db" where
  "read_ahead io m bi s d =
     (let ie = file_index d m ! bi
      in if s_ra s \<noteq> None \<and> s_ra_file s = m_num m \<and> s_ra_off s \<le> i_off ie \<and>
            wrap (i_off ie + i_size ie) \<le> wrap (s_ra_off s + length (the (s_ra s))) then (GS_OK, s, d)
         else let stop = ahead_end (drop (bi + 1) (file_index d m)) (i_off ie) (wrap (i_off ie + i_size ie));
                  n = wrap_minus stop (i_off ie);
                  (rc, f, d) = file_fd io m d
         in if rc \<noteq> GS_OK then (rc, s\<lparr>s_ra := Some [], s_rc := rc, s_valid := False\<rparr>, d)
         else let (rc, b, w) = read_exact io (the f) (i_off ie) n (world d); d = d\<lparr>world := w\<rparr>
              in if rc \<noteq> GS_OK then (rc, s\<lparr>s_ra := Some [], s_rc := rc, s_valid := False\<rparr>, d)
                 else (GS_OK, s\<lparr>s_ra := Some b, s_ra_off := i_off ie, s_ra_file := m_num m\<rparr>, d))"

definition src_load_ahead :: "('w, 'f, 'c) io_ops \<Rightarrow> nat \<Rightarrow> nat \<Rightarrow> src \<Rightarrow> ('w, 'f) db \<Rightarrow> (gs_status \<times> src \<times> ('w, 'f) db) option" where
  "src_load_ahead io fi bi s d =
     (let m = files_of (s_kind s) ! fi
      in do {
        (rc, d) \<leftarrow> file_load io m d;
        if rc \<noteq> GS_OK then Some (rc, s\<lparr>s_rc := rc, s_valid := False\<rparr>, d)
        else if find (\<lambda>e. entry_key e = block_key m bi) (blocks_cached d) \<noteq> None then src_load io fi bi s d
        else let (rc, s, d) = read_ahead io m bi s d
        in if rc \<noteq> GS_OK then Some (rc, s, d)
        else let ie = file_index d m ! bi;
                 (rc, es) = block_of (peek (i_off ie - s_ra_off s) (i_size ie) (the (s_ra s)));
                 (s, d) = src_unpin_db s d
             in Some (if rc \<noteq> GS_OK then (rc, s\<lparr>s_rc := rc, s_valid := False\<rparr>, d)
                      else (GS_OK, s\<lparr>s_blk := es, s_fi := fi, s_bi := bi\<rparr>, d))
      })"

text \<open>The current entry.\<close>

definition src_ent :: "src \<Rightarrow> ent" where
  "src_ent s =
     (case s_kind s of
        SK sk \<Rightarrow> sk_ent (nodes sk ! the (s_node s))
      | FILES ms \<Rightarrow> let e = s_blk s ! s_ei s in e\<lparr>e_seq := eseq (ms ! s_fi s) (e_seq e)\<rparr>)"

text \<open>The binary searches of \<^verbatim>\<open>src_seek\<close> and \<^verbatim>\<open>lookup\<close>: the first place from \<open>lo\<close> on, before \<open>hi\<close>, that is not \<open>below\<close>.\<close>

function lower_bound :: "(nat \<Rightarrow> bool) \<Rightarrow> nat \<Rightarrow> nat \<Rightarrow> nat" where
  "lower_bound below lo hi =
     (if lo < hi then
        let mid = (lo + hi) div 2
        in if below mid then lower_bound below (mid + 1) hi else lower_bound below lo mid
      else lo)"
  by auto
termination by (relation "measure (\<lambda>(below, lo, hi). hi - lo)") auto

declare lower_bound.simps [simp del]

text \<open>The first entry at or after \<open>(k, q)\<close>: the search from the file \<open>fi\<close> on.\<close>

primrec seek_files :: "('w, 'f, 'c) io_ops \<Rightarrow> bytes \<Rightarrow> u64 \<Rightarrow> nat list \<Rightarrow> src \<Rightarrow> ('w, 'f) db \<Rightarrow> (src \<times> ('w, 'f) db) option" where
  "seek_files io k q [] s d = Some (s, d)"
| "seek_files io k q (fi # fis) s d =
     (let m = files_of (s_kind s) ! fi
      in do {
        (rc, d) \<leftarrow> file_load io m d;
        let s = s\<lparr>s_rc := rc\<rparr>;
        if rc \<noteq> GS_OK then Some (s, d)
        else let ix = file_index d m;
                 bi = lower_bound (\<lambda>i. ent_cmp (i_last (ix ! i)) (eseq m (i_lastseq (ix ! i))) k q < 0) 0 (length ix)
        in if bi = length ix then seek_files io k q fis s d
        else do {
          (rc, s, d) \<leftarrow> src_load io fi bi s d;
          if rc \<noteq> GS_OK then Some (s, d)
          else let b = s_blk s;
                   ei = lower_bound (\<lambda>i. ent_cmp (e_key (b ! i)) (eseq m (e_seq (b ! i))) k q < 0) 0 (length b)
          in if ei < length b then Some (s\<lparr>s_ei := ei, s_valid := True\<rparr>, d) else seek_files io k q fis s d
        }
      })"

definition src_seek :: "('w, 'f, 'c) io_ops \<Rightarrow> bytes \<Rightarrow> u64 \<Rightarrow> src \<Rightarrow> ('w, 'f) db \<Rightarrow> (src \<times> ('w, 'f) db) option" where
  "src_seek io k q s d =
     (let s = s\<lparr>s_valid := False, s_steps := 0, s_stepped := 0\<rparr>
      in case s_kind s of
           SK sk \<Rightarrow> do { n \<leftarrow> sk_ge sk k q; Some (s\<lparr>s_node := n, s_valid := (n \<noteq> None)\<rparr>, d) }
         | FILES ms \<Rightarrow>
             let (s, d) = src_unpin_db s d;
                 fi = lower_bound (\<lambda>i. ent_cmp (m_largest (ms ! i)) (eseq (ms ! i) (m_large_seq (ms ! i))) k q < 0) 0 (length ms)
             in seek_files io k q [fi..<length ms] s d)"

text \<open>The loop of \<^verbatim>\<open>src_next\<close> over the blocks that follow, from block \<open>bi\<close> of file \<open>fi\<close> on.\<close>

partial_function (option) next_loop :: "('w, 'f, 'c) io_ops \<Rightarrow> nat \<Rightarrow> nat \<Rightarrow> src \<Rightarrow> ('w, 'f) db \<Rightarrow> (src \<times> ('w, 'f) db) option" where
  "next_loop io fi bi s d =
     (let ms = files_of (s_kind s); ix = file_index d (ms ! fi)
      in if length ix \<le> bi then
           if length ms \<le> fi + 1 then Some (s\<lparr>s_valid := False\<rparr>, d)
           else do {
             (rc, d) \<leftarrow> file_load io (ms ! (fi + 1)) d;
             let s = s\<lparr>s_rc := rc\<rparr>;
             if rc \<noteq> GS_OK then Some (s\<lparr>s_valid := False\<rparr>, d) else next_loop io (fi + 1) 0 s d
           }
         else let s = s\<lparr>s_steps := s_steps s + 1, s_stepped := s_stepped s + i_size (ix ! bi)\<rparr>
         in do {
           (rc, s, d) \<leftarrow> (if 2 \<le> s_steps s \<and> cache_room d div 2 < s_stepped s then src_load_ahead io fi bi s d else src_load io fi bi s d);
           if rc \<noteq> GS_OK then Some (s, d)
           else if s_blk s \<noteq> [] then Some (s\<lparr>s_ei := 0\<rparr>, d)
           else next_loop io fi (bi + 1) s d
         })"

definition src_next :: "('w, 'f, 'c) io_ops \<Rightarrow> src \<Rightarrow> ('w, 'f) db \<Rightarrow> (src \<times> ('w, 'f) db) option" where
  "src_next io s d =
     (if \<not> s_valid s then Some (s, d)
      else case s_kind s of
        SK sk \<Rightarrow> let n = nexts (nodes sk ! the (s_node s)) ! 0 in Some (s\<lparr>s_node := n, s_valid := (n \<noteq> None)\<rparr>, d)
      | FILES ms \<Rightarrow>
          let s = s\<lparr>s_ei := s_ei s + 1\<rparr>
          in if s_ei s < length (s_blk s) then Some (s, d) else next_loop io (s_fi s) (s_bi s + 1) s d)"

text \<open>
  The last entry before \<open>(k, q)\<close>: one step back from the block \<open>bi\<close> of the file \<open>fi\<close> (the file and the
  block, no block in a file that has none; nothing at the beginning or after a failure), and the loop.
\<close>

definition back_step :: "('w, 'f, 'c) io_ops \<Rightarrow> nat \<Rightarrow> nat \<Rightarrow> src \<Rightarrow> ('w, 'f) db \<Rightarrow> ((nat \<times> nat option) option \<times> src \<times> ('w, 'f) db) option" where
  "back_step io fi bi s d =
     (if 0 < bi then Some (Some (fi, Some (bi - 1)), s, d)
      else if fi = 0 then let (s, d) = src_unpin_db (s\<lparr>s_valid := False\<rparr>) d in Some (None, s, d)
      else let m = files_of (s_kind s) ! (fi - 1)
      in do {
        (rc, d) \<leftarrow> file_load io m d;
        let s = s\<lparr>s_rc := rc\<rparr>;
        if rc \<noteq> GS_OK then Some (None, s\<lparr>s_valid := False\<rparr>, d)
        else let n = length (file_index d m) in Some (Some (fi - 1, if n = 0 then None else Some (n - 1)), s, d)
      })"

partial_function (option) back_loop :: "('w, 'f, 'c) io_ops \<Rightarrow> nat \<Rightarrow> nat \<Rightarrow> src \<Rightarrow> ('w, 'f) db \<Rightarrow> (src \<times> ('w, 'f) db) option" where
  "back_loop io fi bi s d = do {
     (r, s, d) \<leftarrow> back_step io fi bi s d;
     case r of
       None \<Rightarrow> Some (s, d)
     | Some (fi, None) \<Rightarrow> back_loop io fi 0 s d
     | Some (fi, Some bi) \<Rightarrow> do {
         (rc, s, d) \<leftarrow> src_load io fi bi s d;
         if rc \<noteq> GS_OK then Some (s, d)
         else if s_blk s \<noteq> [] then Some (s\<lparr>s_ei := length (s_blk s) - 1, s_valid := True\<rparr>, d)
         else back_loop io fi bi s d
       } }"

text \<open>The very last entry: the blocks of the file \<open>fi\<close>, then the files, from the last on.\<close>

primrec last_block :: "('w, 'f, 'c) io_ops \<Rightarrow> nat \<Rightarrow> nat list \<Rightarrow> src \<Rightarrow> ('w, 'f) db \<Rightarrow> (bool \<times> src \<times> ('w, 'f) db) option" where
  "last_block io fi [] s d = Some (False, s, d)"
| "last_block io fi (bi # bis) s d = do {
     (rc, s, d) \<leftarrow> src_load io fi bi s d;
     if rc \<noteq> GS_OK then Some (True, s, d)
     else if s_blk s \<noteq> [] then Some (True, s\<lparr>s_ei := length (s_blk s) - 1, s_valid := True\<rparr>, d)
     else last_block io fi bis s d }"

primrec last_file :: "('w, 'f, 'c) io_ops \<Rightarrow> nat list \<Rightarrow> src \<Rightarrow> ('w, 'f) db \<Rightarrow> (src \<times> ('w, 'f) db) option" where
  "last_file io [] s d = Some (s, d)"
| "last_file io (fi # fis) s d =
     (let m = files_of (s_kind s) ! fi
      in do {
        (rc, d) \<leftarrow> file_load io m d;
        let s = s\<lparr>s_rc := rc\<rparr>;
        if rc \<noteq> GS_OK then Some (s, d)
        else do {
          (found, s, d) \<leftarrow> last_block io fi (rev [0..<length (file_index d m)]) s d;
          if found then Some (s, d) else last_file io fis s d
        }
      })"

definition src_seek_lt :: "('w, 'f, 'c) io_ops \<Rightarrow> bytes \<Rightarrow> u64 \<Rightarrow> src \<Rightarrow> ('w, 'f) db \<Rightarrow> (src \<times> ('w, 'f) db) option" where
  "src_seek_lt io k q s d =
     (case s_kind s of
        SK sk \<Rightarrow> do { n \<leftarrow> sk_lt sk k q; Some (s\<lparr>s_node := n, s_valid := (n \<noteq> None)\<rparr>, d) }
      | FILES ms \<Rightarrow> do {
          (s, d) \<leftarrow> src_seek io k q (s\<lparr>s_valid := False\<rparr>) d;
          if s_rc s \<noteq> GS_OK then Some (s, d)
          else if s_valid s then
            if 0 < s_ei s then Some (s\<lparr>s_ei := s_ei s - 1\<rparr>, d) else back_loop io (s_fi s) (s_bi s) s d
          else last_file io (rev [0..<length ms]) s d
        })"

end
