(* ===== verification/Store_Reads_Props.thy ===== *)
theory Store_Reads_Props
  imports Store_Reads Sorted_File_Disk
begin

text \<open>
  Reading sorted files through handles, the opened index and the block cache gives what the files hold:
  \<open>shelf\<close> lists the files by their number, each with its blocks and key hashes, and \<open>db_ok\<close> is the store's
  invariant over it. A source over files is a position in the list of their entries.
\<close>

section \<open>The store's invariant\<close>

type_synonym shelf = "u64 \<Rightarrow> (ent list list \<times> u64 list) option"

definition loaded_of :: "ent list list \<Rightarrow> u64 list \<Rightarrow> loaded" where
  "loaded_of bs hs = \<lparr>l_index = index_of FHDR bs, l_bloom = bloom_block hs, l_bits = fst (bloom_build hs)\<rparr>"

text \<open>A cached block is a block of its file.\<close>

definition cached_ok :: "ent list list \<Rightarrow> entry \<Rightarrow> bool" where
  "cached_ok bs e \<longleftrightarrow> (\<exists>i < length bs. snd (entry_key e) = of_nat (i + 1) \<and> entry_data e = data_block (bs ! i))"

definition shelf_ok :: "shelf \<Rightarrow> (string \<Rightarrow> 'w \<Rightarrow> bytes option) \<Rightarrow> ('w, 'f) db \<Rightarrow> bool" where
  "shelf_ok C stored d \<longleftrightarrow> (\<forall>num bs hs. C num = Some (bs, hs) \<longrightarrow>
     stored (file_name (eng d) num) (world d) = Some (file_image (db_identity (eng d)) num bs hs) \<and>
     length (file_image (db_identity (eng d)) num bs hs) < 2 ^ 29 \<and>
     (\<forall>l. opened d num = Some l \<longrightarrow> l = loaded_of bs hs) \<and>
     (\<forall>e \<in> set (blocks_cached d). fst (entry_key e) = num \<longrightarrow> cached_ok bs e))"

definition hnds_ok :: "('w \<Rightarrow> 'f \<Rightarrow> bytes \<Rightarrow> bool) \<Rightarrow> (string \<Rightarrow> 'w \<Rightarrow> bytes option) \<Rightarrow> (string \<times> 'f) list \<Rightarrow> 'w \<Rightarrow> bool" where
  "hnds_ok fits stored hs w \<longleftrightarrow> (\<forall>n f c. (n, f) \<in> set hs \<longrightarrow> stored n w = Some c \<longrightarrow> fits w f c)"

definition db_ok :: "('w \<Rightarrow> 'f \<Rightarrow> bytes \<Rightarrow> bool) \<Rightarrow> ('w \<Rightarrow> bool) \<Rightarrow> (string \<Rightarrow> 'w \<Rightarrow> bytes option) \<Rightarrow> shelf \<Rightarrow> ('w, 'f) db \<Rightarrow> bool" where
  "db_ok fits ok stored C d \<longleftrightarrow> ok (world d) \<and> length (db_identity (eng d)) = 16 \<and> hnds_ok fits stored (hnds d) (world d) \<and> shelf_ok C stored d"

text \<open>What a read leaves of the store.\<close>

definition kept :: "shelf \<Rightarrow> ('w, 'f) db \<Rightarrow> ('w, 'f) db \<Rightarrow> bool" where
  "kept C d d' \<longleftrightarrow> eng d' = eng d \<and> cache_room d' = cache_room d \<and> map fst (blob_checked d') = map fst (blob_checked d) \<and>
     (\<forall>num. C num \<noteq> None \<longrightarrow> opened d num \<noteq> None \<longrightarrow> opened d' num \<noteq> None)"

lemma kept_trans: "kept C d d' \<Longrightarrow> kept C d' d'' \<Longrightarrow> kept C d d''"
  by (simp add: kept_def)

lemma kept_refl: "kept C d d"
  by (simp add: kept_def)

lemma lru_evict_set: "set (lru_evict bb limit es) \<subseteq> set es"
proof -
  obtain h r where r: "evict_rev bb limit (total_bytes bb es) (rev es) = (h, r)" by fastforce
  have "subseq r (rev es)" using evict_rev_keeps [OF r] by blast
  then have "set r \<subseteq> set (rev es)" by (metis notin_set_nthsI subseq_conv_nths subsetI)
  then show ?thesis by (simp add: lru_evict_def r)
qed

lemma cached_pin [simp]: "cached_ok bs (entry_pin k e) = cached_ok bs e" "entry_key (entry_pin k e) = entry_key e" "entry_data (entry_pin k e) = entry_data e"
  by (cases e; simp add: cached_ok_def)+

lemma shelf_cached:
  assumes "shelf_ok C stored d" "\<And>e bs hs. e \<in> set es \<Longrightarrow> C (fst (entry_key e)) = Some (bs, hs) \<Longrightarrow> cached_ok bs e"
  shows "shelf_ok C stored (d\<lparr>blocks_cached := es\<rparr>)"
  using assms by (auto simp: shelf_ok_def)

lemma cached_in: "shelf_ok C stored d \<Longrightarrow> e \<in> set (blocks_cached d) \<Longrightarrow> C (fst (entry_key e)) = Some (bs, hs) \<Longrightarrow> cached_ok bs e"
  by (auto simp: shelf_ok_def)

context reads_layer
begin

abbreviation good :: "shelf \<Rightarrow> ('w, 'f) db \<Rightarrow> bool" where
  "good \<equiv> db_ok fits ok stored"

text \<open>A read of the store: the world goes on, the invariant and what was loaded stay.\<close>

definition reads :: "shelf \<Rightarrow> ('w, 'f) db \<Rightarrow> ('w, 'f) db \<Rightarrow> bool" where
  "reads C d d' \<longleftrightarrow> good C d' \<and> kept C d d' \<and> calm (world d) (world d')"

lemma reads_trans: "reads C d d' \<Longrightarrow> reads C d' d'' \<Longrightarrow> reads C d d''"
  using kept_trans calm_trans unfolding reads_def by blast

lemma reads_refl: "good C d \<Longrightarrow> reads C d d"
  using kept_refl calm_refl unfolding reads_def db_ok_def by blast

lemma reads_up: "reads C d d' \<Longrightarrow> up (world d) \<Longrightarrow> up (world d')"
  unfolding reads_def using calm_ok(2) by blast

lemma hnds_calm: "hnds_ok fits stored hs w \<Longrightarrow> calm w w' \<Longrightarrow> hnds_ok fits stored hs w'"
  unfolding hnds_ok_def using calm_fits calm_stored by metis

lemma good_world:
  assumes "good C d" "calm (world d) w" "hnds_ok fits stored hs w"
  shows "reads C d (d\<lparr>hnds := hs, world := w\<rparr>)"
  using assms calm_ok(1) [OF assms(2)] calm_stored [OF assms(2)] unfolding reads_def db_ok_def shelf_ok_def kept_def by simp

lemma good_step: "good C d \<Longrightarrow> calm (world d) w \<Longrightarrow> reads C d (d\<lparr>world := w\<rparr>)"
  using good_world [of C d w "hnds d"] hnds_calm [of "hnds d" "world d" w] by (simp add: db_ok_def)

lemma room_spec:
  "ok w \<Longrightarrow> hnds_ok fits stored hs w \<Longrightarrow> hnd_make_room io n hs w = (hs', w') \<Longrightarrow>
   calm w w' \<and> hnds_ok fits stored hs' w' \<and> set hs' \<subseteq> set hs"
proof (induction hs arbitrary: w rule: rev_induct)
  case Nil
  then show ?case using calm_refl by (simp add: hnd_make_room.simps)
next
  case (snoc h hs w)
  show ?case
  proof (cases "n \<le> length (hs @ [h])")
    case True
    obtain rc w1 where c: "op_close io (snd h) w = (rc, w1)" by fastforce
    have w1: "calm w w1" using ro_close [OF snoc.prems(1) c] .
    have "hnds_ok fits stored hs w1" using hnds_calm [OF snoc.prems(2) w1] by (simp add: hnds_ok_def)
    moreover have "hnd_make_room io n hs w1 = (hs', w')" using snoc.prems(3) True c by (simp add: hnd_make_room.simps [of io n "hs @ [h]"])
    ultimately have "calm w1 w' \<and> hnds_ok fits stored hs' w' \<and> set hs' \<subseteq> set hs" using snoc.IH calm_ok(1) [OF w1] by blast
    then show ?thesis using calm_trans [OF w1] by auto
  next
    case False
    then have "hs' = hs @ [h]" "w' = w" using snoc.prems(3) by (auto simp: hnd_make_room.simps [of io n "hs @ [h]"])
    then show ?thesis using snoc.prems calm_refl by simp
  qed
qed

lemma hnd_get_spec:
  assumes "good C d" "IO_CREATE \<notin> fl" "hnd_get io name fl d = (rc, f, d')"
  shows "reads C d d'" "stored name (world d) = Some c \<Longrightarrow> rc = IO_OK \<Longrightarrow> fits (world d') (the f) c"
    "stored name (world d) = Some c \<Longrightarrow> up (world d) \<Longrightarrow> rc = IO_OK" "opened d' = opened d" "blocks_cached d' = blocks_cached d"
proof -
  have g: "ok (world d)" "hnds_ok fits stored (hnds d) (world d)" using assms(1) by (simp_all add: db_ok_def)
  have "reads C d d' \<and> (\<forall>c. stored name (world d) = Some c \<longrightarrow> (rc = IO_OK \<longrightarrow> fits (world d') (the f) c) \<and> (up (world d) \<longrightarrow> rc = IO_OK)) \<and>
      opened d' = opened d \<and> blocks_cached d' = blocks_cached d"
  proof (cases "map_of (hnds d) name")
    case (Some h)
    then have e: "rc = IO_OK" "f = Some h" "d' = d\<lparr>hnds := (name, h) # filter (\<lambda>x. fst x \<noteq> name) (hnds d)\<rparr>"
      using assms(3) by (simp_all add: hnd_get_def)
    have h: "(name, h) \<in> set (hnds d)" by (rule map_of_SomeD [OF Some])
    then have "hnds_ok fits stored (hnds d') (world d)" using g(2) e(3) by (auto simp: hnds_ok_def)
    then have "reads C d d'" using good_world [OF assms(1) calm_refl [OF g(1)], of "hnds d'"] e(3) by simp
    then show ?thesis using e g(2) h by (auto simp: hnds_ok_def)
  next
    case None
    obtain hs w1 where 1: "hnd_make_room io (max_open d) (hnds d) (world d) = (hs, w1)" by fastforce
    obtain r h w2 where 2: "op_open io name fl w1 = (r, h, w2)" by (metis prod_cases3)
    note m = room_spec [OF g 1]
    have ok1: "ok w1" using m calm_ok(1) by blast
    note o = ro_open [OF ok1 assms(2) 2]
    have c2: "calm (world d) w2" using calm_trans m o by blast
    have st: "stored name w1 = stored name (world d)" using m calm_stored by blast
    have up1: "up (world d) \<Longrightarrow> up w1" using m calm_ok(2) by blast
    have hs2: "hnds_ok fits stored hs w2" using m o hnds_calm by blast
    show ?thesis
    proof (cases "r = IO_OK")
      case False
      then have e: "rc = r" "d' = d\<lparr>hnds := hs, world := w2\<rparr>" using assms(3) None 1 2 by (simp_all add: hnd_get_def)
      then show ?thesis using good_world [OF assms(1) c2 hs2] o st up1 False by auto
    next
      case True
      then have e: "rc = IO_OK" "f = Some (the h)" "d' = d\<lparr>hnds := (name, the h) # hs, world := w2\<rparr>" using assms(3) None 1 2 True by (auto simp: hnd_get_def)
      have "hnds_ok fits stored ((name, the h) # hs) w2"
        using hs2 o st True calm_stored [of w1 w2 name] unfolding hnds_ok_def by auto
      then show ?thesis using good_world [OF assms(1) c2, of "(name, the h) # hs"] o st e True by auto
    qed
  qed
  then show "reads C d d'" "stored name (world d) = Some c \<Longrightarrow> rc = IO_OK \<Longrightarrow> fits (world d') (the f) c"
    "stored name (world d) = Some c \<Longrightarrow> up (world d) \<Longrightarrow> rc = IO_OK" "opened d' = opened d" "blocks_cached d' = blocks_cached d" by blast+
qed

lemma fd_status_ok: "fd_status rc = GS_OK \<longleftrightarrow> rc = IO_OK"
  by (cases rc) (auto simp: fd_status_def gs_io_status_def)

lemma file_fd_spec:
  assumes "good C d" "C (m_num m) = Some (bs, hs)" "file_fd io m d = (rc, f, d')"
  shows "reads C d d'" "rc = GS_OK \<Longrightarrow> fits (world d') (the f) (file_image (db_identity (eng d)) (m_num m) bs hs)"
    "up (world d) \<Longrightarrow> rc = GS_OK" "opened d' = opened d" "blocks_cached d' = blocks_cached d"
proof -
  obtain r h d1 where 1: "hnd_get io (file_name (eng d) (m_num m)) {IO_READ_ONLY} d = (r, h, d1)" by (metis prod_cases3)
  have e: "rc = (if r \<noteq> IO_OK then fd_status r else GS_OK)" "f = h" "d' = d1" using assms(3) 1 by (simp_all add: file_fd_def)
  have st: "stored (file_name (eng d) (m_num m)) (world d) = Some (file_image (db_identity (eng d)) (m_num m) bs hs)"
    using assms(1,2) by (simp add: db_ok_def shelf_ok_def)
  have nc: "IO_CREATE \<notin> {IO_READ_ONLY}" by simp
  note h = hnd_get_spec [OF assms(1) nc 1]
  show "reads C d d'" "opened d' = opened d" "blocks_cached d' = blocks_cached d" using h(1,4,5) e(3) by simp_all
  show "rc = GS_OK \<Longrightarrow> fits (world d') (the f) (file_image (db_identity (eng d)) (m_num m) bs hs)"
    using h(2) [OF st] e fd_status_ok by (auto split: if_splits)
  show "up (world d) \<Longrightarrow> rc = GS_OK" using h(3) [OF st] e by simp
qed

lemma file_load_spec:
  assumes "good C d" "C (m_num m) = Some (bs, hs)"
  shows "\<exists>rc d'. file_load io m d = Some (rc, d') \<and> reads C d d' \<and> (up (world d) \<longrightarrow> rc = GS_OK) \<and>
    (rc = GS_OK \<longrightarrow> opened d' (m_num m) = Some (loaded_of bs hs)) \<and> blocks_cached d' = blocks_cached d"
proof (cases "opened d (m_num m)")
  case (Some l)
  then have "l = loaded_of bs hs" using assms by (simp add: db_ok_def shelf_ok_def)
  then show ?thesis using Some reads_refl [OF assms(1)] by (simp add: file_load_def)
next
  case None
  obtain r f d1 where 1: "file_fd io m d = (r, f, d1)" by (metis prod_cases3)
  note fd = file_fd_spec [OF assms 1]
  show ?thesis
  proof (cases "r = GS_OK")
    case False
    then show ?thesis using None 1 fd by (auto simp: file_load_def)
  next
    case True
    let ?img = "file_image (db_identity (eng d)) (m_num m) bs hs"
    obtain rc ib bb ioff w where 2: "file_parts io (eng d1) (m_num m) (the f) (world d1) = (rc, ib, bb, ioff, w)" by (metis surj_pair)
    have g1: "good C d1" "eng d1 = eng d" using fd(1) by (simp_all add: reads_def kept_def)
    have a: "ok (world d1)" "fits (world d1) (the f) ?img" "db_identity (eng d1) = db_identity (eng d)" "length (db_identity (eng d)) = 16" "length ?img < 2 ^ 29"
      using g1 fd(2) [OF True] assms by (simp_all add: db_ok_def shelf_ok_def)
    note p = parts_image [OF a 2]
    have r2: "reads C d (d1\<lparr>world := w\<rparr>)" using reads_trans [OF fd(1) good_step [OF g1(1) p(1)]] .
    have up: "up (world d) \<Longrightarrow> rc = GS_OK" using p(3) reads_up [OF fd(1)] by blast
    show ?thesis
    proof (cases "rc = GS_OK")
      case False
      then have "file_load io m d = Some (rc, d1\<lparr>world := w\<rparr>)" using None 1 2 True by (simp add: file_load_def)
      then show ?thesis using r2 up False fd(5) by auto
    next
      case ok: True
      have "length ?img = FHDR + length (blocks_bytes bs) + length (index_block bs) + length (bloom_block hs) + FOOTER"
        using a(4) by (simp add: file_image_def Let_def footer_def FOOTER_def)
      then have "length (index_block bs) + length (bloom_block hs) + FHDR + length (blocks_bytes bs) < 2 ^ 29" using a(5) by simp
      note ld = load_image [OF this, folded loaded_of_def]
      let ?d = "d1\<lparr>world := w, opened := (opened d1)(m_num m := Some (loaded_of bs hs))\<rparr>"
      have "file_load io m d = Some (GS_OK, ?d)" using None 1 2 True ok p(2) ld by (simp add: file_load_def)
      moreover have "reads C d ?d" using r2 assms(2) unfolding reads_def db_ok_def shelf_ok_def kept_def by auto
      ultimately show ?thesis using fd(5) by simp
    qed
  qed
qed

text \<open>The bytes of a block, read through its index entry.\<close>

lemma image_blocks: "length ident = 16 \<Longrightarrow> \<exists>rest. file_image ident num bs hs = fhdr_build ident FK_SORTED num @ blocks_bytes bs @ rest"
  by (simp add: file_image_def Let_def)

lemma blocks_many: "length bs \<le> length (blocks_bytes bs)"
proof (induction bs)
  case (Cons es bs)
  have "1 \<le> length (data_block es)" by (simp add: data_block_def TRAIL_def)
  then show ?case using Cons by simp
qed simp

lemma good_file:
  assumes "good C d" "C (m_num m) = Some (bs, hs)"
  shows "length bs < 2 ^ 29" "\<And>i. i < length bs \<Longrightarrow> block_of (data_block (bs ! i)) = (GS_OK, bs ! i)"
    "opened d (m_num m) \<noteq> None \<Longrightarrow> opened d (m_num m) = Some (loaded_of bs hs) \<and> file_index d m = index_of FHDR bs"
proof -
  let ?img = "file_image (db_identity (eng d)) (m_num m) bs hs"
  have i: "length (db_identity (eng d)) = 16" "length ?img < 2 ^ 29" using assms by (simp_all add: db_ok_def shelf_ok_def)
  obtain rest where r: "?img = fhdr_build (db_identity (eng d)) FK_SORTED (m_num m) @ blocks_bytes bs @ rest" using image_blocks [OF i(1)] by blast
  have l: "length (blocks_bytes bs) < 2 ^ 29" using i(2) unfolding r by simp
  then show "length bs < 2 ^ 29" using blocks_many [of bs] by simp
  show "block_of (data_block (bs ! j)) = (GS_OK, bs ! j)" if j: "j < length bs" for j
  proof -
    have "length (data_block (bs ! j)) < 2 ^ 32" using l blocks_split [OF j] by simp
    then show ?thesis by (rule block_of_data)
  qed
  show "opened d (m_num m) \<noteq> None \<Longrightarrow> opened d (m_num m) = Some (loaded_of bs hs) \<and> file_index d m = index_of FHDR bs"
  proof -
    assume "opened d (m_num m) \<noteq> None"
    then obtain l where l: "opened d (m_num m) = Some l" by blast
    have "l = loaded_of bs hs" using assms l unfolding db_ok_def shelf_ok_def by blast
    then show ?thesis using l by (simp add: file_index_def loaded_of_def)
  qed
qed

lemma file_bytes:
  assumes "good C d" "C (m_num m) = Some (bs, hs)" "file_fd io m d = (GS_OK, f, d1)"
    "read_exact io (the f) off n (world d1) = (rc, x, w)" "blocks_bytes bs = pre @ b @ post" "off = FHDR + length pre" "n = length b"
  shows "reads C d (d1\<lparr>world := w\<rparr>)" "rc = GS_OK \<Longrightarrow> x = b" "up (world d) \<Longrightarrow> rc = GS_OK"
proof -
  let ?img = "file_image (db_identity (eng d)) (m_num m) bs hs"
  have id: "length (db_identity (eng d)) = 16" using assms(1) by (simp add: db_ok_def)
  let ?h = "fhdr_build (db_identity (eng d)) FK_SORTED (m_num m)"
  obtain rest where r: "?img = ?h @ blocks_bytes bs @ rest" using image_blocks [OF id] by blast
  note fd = file_fd_spec [OF assms(1-3)]
  have g1: "good C d1" using fd(1) by (simp add: reads_def)
  then have ok1: "ok (world d1)" by (simp add: db_ok_def)
  have "fits (world d1) (the f) ?img" using fd(2) by simp
  then have ft: "fits (world d1) (the f) ((?h @ pre) @ b @ post @ rest)" unfolding r assms(5) by simp
  have off: "off = length (?h @ pre)" using assms(6) id by simp
  note e = exact_spec [OF ok1 assms(4)]
  show "reads C d (d1\<lparr>world := w\<rparr>)" using reads_trans [OF fd(1) good_step [OF g1 e(1)]] .
  show "rc = GS_OK \<Longrightarrow> x = b" by (rule e(2) [OF ft off assms(7)])
  show "up (world d) \<Longrightarrow> rc = GS_OK" using e(3) [OF ft off assms(7)] reads_up [OF fd(1)] by blast
qed

lemma block_load_spec:
  assumes "good C d" "C (m_num m) = Some (bs, hs)" "opened d (m_num m) \<noteq> None" "i < length bs" "block_load io m i d = (r, d')"
  shows "reads C d d'" "blocks_cached d' = blocks_cached d" "case r of Inl rc \<Rightarrow> rc \<noteq> GS_OK \<and> \<not> up (world d) | Inr raw \<Rightarrow> raw = data_block (bs ! i)"
proof -
  note g = good_file [OF assms(1,2)]
  define ie where "ie = index_of FHDR bs ! i"
  have ie: "file_index d m ! i = ie" using g(3) assms(3) by (simp add: ie_def)
  have at: "i_off ie = FHDR + length (blocks_bytes (take i bs))" "i_size ie = length (data_block (bs ! i))"
    using index_of_nth [OF assms(4), of FHDR] by (simp_all add: ie_def)
  obtain rc f d1 where 1: "file_fd io m d = (rc, f, d1)" by (metis prod_cases3)
  note fd = file_fd_spec [OF assms(1,2) 1]
  have "reads C d d' \<and> blocks_cached d' = blocks_cached d \<and> (case r of Inl rc \<Rightarrow> rc \<noteq> GS_OK \<and> \<not> up (world d) | Inr raw \<Rightarrow> raw = data_block (bs ! i))"
  proof (cases "rc = GS_OK")
    case False
    then have "r = Inl rc" "d' = d1" using assms(5) 1 ie by (auto simp: block_load_def Let_def)
    then show ?thesis using fd False by auto
  next
    case True
    obtain rc2 raw w where 2: "read_exact io (the f) (i_off ie) (i_size ie) (world d1) = (rc2, raw, w)" by (metis prod_cases3)
    note b = file_bytes [OF assms(1,2) 1 [unfolded True] 2 blocks_split [OF assms(4)] at]
    show ?thesis
    proof (cases "rc2 = GS_OK")
      case False
      then have "r = Inl rc2" "d' = d1\<lparr>world := w\<rparr>" using assms(5) 1 2 True ie by (auto simp: block_load_def Let_def)
      then show ?thesis using b fd(5) False by auto
    next
      case ok: True
      have "r = Inr raw" "d' = d1\<lparr>world := w\<rparr>" using assms(5) 1 2 True ok ie b(2) g(2) [OF assms(4)] by (auto simp: block_load_def Let_def)
      then show ?thesis using b fd(5) ok by auto
    qed
  qed
  then show "reads C d d'" "blocks_cached d' = blocks_cached d" "case r of Inl rc \<Rightarrow> rc \<noteq> GS_OK \<and> \<not> up (world d) | Inr raw \<Rightarrow> raw = data_block (bs ! i)"
    by blast+
qed

lemma reads_cached:
  assumes "reads C d d'" "\<And>e bs hs. e \<in> set es \<Longrightarrow> C (fst (entry_key e)) = Some (bs, hs) \<Longrightarrow> cached_ok bs e"
  shows "reads C d (d'\<lparr>blocks_cached := es\<rparr>)"
proof -
  have "shelf_ok C stored (d'\<lparr>blocks_cached := es\<rparr>)" using assms by (intro shelf_cached) (simp_all add: reads_def db_ok_def)
  then show ?thesis using assms(1) unfolding reads_def db_ok_def kept_def by auto
qed

lemma fetch_spec:
  assumes "good C d" "C (m_num m) = Some (bs, hs)" "opened d (m_num m) \<noteq> None" "i < length bs" "fetch_block io m i d = (rc, pn, es, d')"
  shows "reads C d d'" "rc = GS_OK \<Longrightarrow> es = bs ! i" "up (world d) \<Longrightarrow> rc = GS_OK"
proof -
  note g = good_file [OF assms(1,2)]
  have sh: "shelf_ok C stored d" using assms(1) by (simp add: db_ok_def)
  have "reads C d d' \<and> (rc = GS_OK \<longrightarrow> es = bs ! i) \<and> (up (world d) \<longrightarrow> rc = GS_OK)"
  proof (cases "find (\<lambda>e. entry_key e = block_key m i) (blocks_cached d)")
    case (Some e)
    then have e: "entry_key e = block_key m i" "e \<in> set (blocks_cached d)" by (auto simp: find_Some_iff)
    then have "cached_ok bs e" using cached_in [OF sh e(2)] assms(2) by (simp add: block_key_def)
    then obtain j where j: "j < length bs" "(of_nat (i + 1) :: u64) = of_nat (j + 1)" "entry_data e = data_block (bs ! j)"
      using e(1) by (auto simp: cached_ok_def block_key_def)
    have "i + 1 = j + 1"
    proof -
      have "i + 1 < 2 ^ 64" "j + 1 < 2 ^ 64" using g(1) assms(4) j(1) by simp_all
      then show ?thesis using j(2) unat_of_nat_64 by metis
    qed
    then have jd: "block_of (entry_data e) = (GS_OK, bs ! i)" using j(3) g(2) [OF assms(4)] by simp
    have r: "rc = GS_OK" "es = bs ! i"
      "d' = d\<lparr>blocks_cached := lru_evict cached_size (cache_room d) (entry_pin 1 e # remove1 e (blocks_cached d))\<rparr>"
      using assms(5) Some jd by (simp_all add: fetch_block_def)
    have "cached_ok bs' x" if x: "x \<in> set (lru_evict cached_size (cache_room d) (entry_pin 1 e # remove1 e (blocks_cached d)))"
      and c: "C (fst (entry_key x)) = Some (bs', hs')" for x bs' hs'
    proof -
      have "x = entry_pin 1 e \<or> x \<in> set (blocks_cached d)"
        using x lru_evict_set [of cached_size "cache_room d" "entry_pin 1 e # remove1 e (blocks_cached d)"] notin_set_remove1 by fastforce
      then show ?thesis
      proof
        assume x: "x = entry_pin 1 e"
        then show ?thesis using cached_in [OF sh e(2)] c by simp
      next
        assume "x \<in> set (blocks_cached d)"
        then show ?thesis using cached_in [OF sh _ c] by blast
      qed
    qed
    then have "reads C d d'" unfolding r(3) using reads_cached [OF reads_refl [OF assms(1)]] by blast
    then show ?thesis using r by simp
  next
    case None
    obtain l d1 where 1: "block_load io m i d = (l, d1)" by fastforce
    note b = block_load_spec [OF assms(1-4) 1]
    show ?thesis
    proof (cases l)
      case (Inl c)
      then show ?thesis using b assms(5) None 1 by (auto simp: fetch_block_def)
    next
      case (Inr raw)
      then have raw: "raw = data_block (bs ! i)" using b(3) by simp
      let ?new = "(fst (block_key m i), snd (block_key m i), raw, 1, False) # blocks_cached d1"
      have r: "rc = GS_OK" "es = bs ! i" "d' = d1\<lparr>blocks_cached := lru_evict cached_size (cache_room d1) ?new\<rparr>"
        using assms(5) None 1 Inr raw g(2) [OF assms(4)] by (auto simp: fetch_block_def)
      have "cached_ok bs' x" if x: "x \<in> set (lru_evict cached_size (cache_room d1) ?new)" and c: "C (fst (entry_key x)) = Some (bs', hs')" for x bs' hs'
      proof -
        have "x \<in> set ?new" using x lru_evict_set [of cached_size "cache_room d1" ?new] by blast
        then consider "x = (m_num m, of_nat (i + 1), raw, 1, False)" | "x \<in> set (blocks_cached d)" using b(2) by (auto simp: block_key_def)
        then show ?thesis
        proof cases
          case 1
          then show ?thesis using c assms(2,4) raw by (auto simp: cached_ok_def)
        next
          case 2
          then show ?thesis using cached_in [OF sh 2 c] by simp
        qed
      qed
      then have "reads C d d'" unfolding r(3) using reads_cached [OF b(1)] by blast
      then show ?thesis using r by simp
    qed
  qed
  then show "reads C d d'" "rc = GS_OK \<Longrightarrow> es = bs ! i" "up (world d) \<Longrightarrow> rc = GS_OK" by blast+
qed

lemma unpin_reads: "good C d \<Longrightarrow> reads C d (snd (src_unpin_db s d))"
proof -
  assume g: "good C d"
  have sh: "shelf_ok C stored d" using g by (simp add: db_ok_def)
  have "reads C d (unpin_block k d)" for k
    unfolding unpin_block_def
  proof (rule reads_cached [OF reads_refl [OF g]])
    fix e bs hs
    assume "e \<in> set (map (\<lambda>e. if entry_key e = k then entry_pin (- 1) e else e) (blocks_cached d))" "C (fst (entry_key e)) = Some (bs, hs)"
    then obtain x where x: "x \<in> set (blocks_cached d)" "e = x \<or> e = entry_pin (- 1) x" "C (fst (entry_key x)) = Some (bs, hs)"
    proof -
      assume e: "e \<in> set (map (\<lambda>e. if entry_key e = k then entry_pin (- 1) e else e) (blocks_cached d))"
        and c: "C (fst (entry_key e)) = Some (bs, hs)" and th: "\<And>x. x \<in> set (blocks_cached d) \<Longrightarrow> e = x \<or> e = entry_pin (- 1) x \<Longrightarrow>
          C (fst (entry_key x)) = Some (bs, hs) \<Longrightarrow> thesis"
      obtain x where x: "x \<in> set (blocks_cached d)" "e = (if entry_key x = k then entry_pin (- 1) x else x)" using e unfolding set_map image_def by blast
      then have "entry_key e = entry_key x" by simp
      then show thesis using th [OF x(1)] x(2) c by (auto split: if_splits)
    qed
    then show "cached_ok bs e" using cached_in [OF sh x(1,3)] by auto
  qed
  then show ?thesis using reads_refl [OF g] by (simp add: src_unpin_db_def split: option.splits)
qed

end

end
