(* ===== verification/Source_Props.thy ===== *)
theory Source_Props
  imports Store_Reads_Props Skiplist_Props
begin

text \<open>
  An iterator of \<^verbatim>\<open>src/gsql/lsm.c\<close> is a place in a sorted list: seeking goes to the first entry at or
  after a key, or to the last before it, and stepping goes to the next, whether the list is a skip list
  or sorted files, and whether a block comes from the cache, from its file or from the bytes read ahead.
\<close>

section \<open>Binary search\<close>

lemma lower_bound_spec:
  assumes "\<And>i j. i < j \<Longrightarrow> j < n \<Longrightarrow> below j \<Longrightarrow> below i" "hi \<le> n" "lo \<le> hi" "\<forall>i < lo. below i" "\<forall>i. hi \<le> i \<and> i < n \<longrightarrow> \<not> below i"
  shows "lo \<le> lower_bound below lo hi \<and> lower_bound below lo hi \<le> hi \<and> (\<forall>i < lower_bound below lo hi. below i) \<and>
    (\<forall>i. lower_bound below lo hi \<le> i \<and> i < n \<longrightarrow> \<not> below i)"
  using assms(2-5)
proof (induction "hi - lo" arbitrary: lo hi rule: less_induct)
  case less
  show ?case
  proof (cases "lo < hi")
    case True
    define mid where "mid = (lo + hi) div 2"
    have m: "lo \<le> mid" "mid < hi" using True by (simp_all add: mid_def)
    show ?thesis
    proof (cases "below mid")
      case b: True
      have "\<forall>i < mid + 1. below i"
      proof (intro allI impI)
        fix i assume i: "i < mid + 1"
        show "below i"
        proof (cases "i = mid")
          case False
          have "i < mid" "mid < n" using i False m less.prems(1) by simp_all
          then show ?thesis using assms(1) [of i mid] b by blast
        qed (use b in simp)
      qed
      moreover have "hi - (mid + 1) < hi - lo" "mid + 1 \<le> hi" using m by simp_all
      ultimately show ?thesis using less.hyps [of hi "mid + 1"] less.prems b m True mid_def by (subst (1 2 3 4) lower_bound.simps) simp
    next
      case b: False
      have "\<forall>i. mid \<le> i \<and> i < n \<longrightarrow> \<not> below i"
      proof (intro allI impI)
        fix i assume i: "mid \<le> i \<and> i < n"
        show "\<not> below i" using assms(1) [of mid i] b i by (cases "i = mid") auto
      qed
      moreover have "mid - lo < hi - lo" "mid \<le> n" using m less.prems(1) by simp_all
      ultimately have "lo \<le> lower_bound below lo mid \<and> lower_bound below lo mid \<le> mid \<and> (\<forall>i < lower_bound below lo mid. below i) \<and>
          (\<forall>i. lower_bound below lo mid \<le> i \<and> i < n \<longrightarrow> \<not> below i)" using less.hyps [of mid lo] less.prems m by blast
      then show ?thesis using b m True mid_def by (subst (1 2 3 4) lower_bound.simps) simp
    qed
  next
    case False
    then show ?thesis using less.prems by (subst (1 2 3 4) lower_bound.simps) simp
  qed
qed

lemma lower_bound_list:
  assumes "\<And>i j. i < j \<Longrightarrow> j < n \<Longrightarrow> below j \<Longrightarrow> below i"
  shows "lower_bound below 0 n \<le> n" "i < lower_bound below 0 n \<Longrightarrow> below i" "lower_bound below 0 n \<le> i \<Longrightarrow> i < n \<Longrightarrow> \<not> below i"
proof -
  have "0 \<le> lower_bound below 0 n \<and> lower_bound below 0 n \<le> n \<and> (\<forall>i < lower_bound below 0 n. below i) \<and>
      (\<forall>i. lower_bound below 0 n \<le> i \<and> i < n \<longrightarrow> \<not> below i)"
    by (rule lower_bound_spec) (use assms in auto)
  then show "lower_bound below 0 n \<le> n" "i < lower_bound below 0 n \<Longrightarrow> below i" "lower_bound below 0 n \<le> i \<Longrightarrow> i < n \<Longrightarrow> \<not> below i"
    by blast+
qed

section \<open>The entries of files\<close>

definition blocks_at :: "shelf \<Rightarrow> file_meta \<Rightarrow> ent list list" where
  "blocks_at C m = fst (the (C (m_num m)))"

text \<open>An entry with the sequence its file gives it.\<close>

definition stamped :: "file_meta \<Rightarrow> ent \<Rightarrow> ent" where
  "stamped m e = e\<lparr>e_seq := eseq m (e_seq e)\<rparr>"

definition ents :: "shelf \<Rightarrow> file_meta \<Rightarrow> ent list" where
  "ents C m = map (stamped m) (concat (blocks_at C m))"

definition stream :: "shelf \<Rightarrow> file_meta list \<Rightarrow> ent list" where
  "stream C ms = concat (map (ents C) ms)"

text \<open>A file of the manifest: it has entries, in blocks none of them empty, and its record has the first and the last.\<close>

definition file_wf :: "shelf \<Rightarrow> file_meta \<Rightarrow> bool" where
  "file_wf C m \<longleftrightarrow> C (m_num m) \<noteq> None \<and> blocks_at C m \<noteq> [] \<and> [] \<notin> set (blocks_at C m) \<and>
     m_smallest m = e_key (hd (concat (blocks_at C m))) \<and> m_largest m = e_key (last (concat (blocks_at C m))) \<and>
     m_large_seq m = e_seq (last (concat (blocks_at C m)))"

definition sorted_ents :: "ent list \<Rightarrow> bool" where
  "sorted_ents es \<longleftrightarrow> sorted_wrt (\<lambda>a b. \<not> key_lt (key_of b) (key_of a)) es"

text \<open>Where the entry \<open>ei\<close> of the block \<open>bi\<close> of the file \<open>fi\<close> is in the stream.\<close>

definition place :: "shelf \<Rightarrow> file_meta list \<Rightarrow> nat \<Rightarrow> nat \<Rightarrow> nat \<Rightarrow> nat" where
  "place C ms fi bi ei = length (stream C (take fi ms)) + length (concat (take bi (blocks_at C (ms ! fi)))) + ei"

lemma stream_simps [simp]: "stream C [] = []" "stream C (m # ms) = ents C m @ stream C ms" "stream C (xs @ ys) = stream C xs @ stream C ys"
  by (simp_all add: stream_def)

lemma stream_split: "fi < length ms \<Longrightarrow> stream C ms = stream C (take fi ms) @ ents C (ms ! fi) @ stream C (drop (Suc fi) ms)"
  by (metis stream_simps(2,3) id_take_nth_drop)

lemma concat_split: "bi < length bs \<Longrightarrow> concat bs = concat (take bi bs) @ bs ! bi @ concat (drop (Suc bi) bs)"
  by (metis concat.simps(2) concat_append id_take_nth_drop)

lemma place_split:
  assumes "fi < length ms" "bi < length (blocks_at C (ms ! fi))"
  shows "\<exists>pre post. stream C ms = pre @ map (stamped (ms ! fi)) (blocks_at C (ms ! fi) ! bi) @ post \<and> length pre = place C ms fi bi 0"
proof -
  have "ents C (ms ! fi) = map (stamped (ms ! fi)) (concat (take bi (blocks_at C (ms ! fi)))) @
      map (stamped (ms ! fi)) (blocks_at C (ms ! fi) ! bi) @ map (stamped (ms ! fi)) (concat (drop (Suc bi) (blocks_at C (ms ! fi))))"
    unfolding ents_def concat_split [OF assms(2)] by simp
  then have "stream C ms = (stream C (take fi ms) @ map (stamped (ms ! fi)) (concat (take bi (blocks_at C (ms ! fi))))) @
      map (stamped (ms ! fi)) (blocks_at C (ms ! fi) ! bi) @
      map (stamped (ms ! fi)) (concat (drop (Suc bi) (blocks_at C (ms ! fi)))) @ stream C (drop (Suc fi) ms)"
    using stream_split [OF assms(1), of C] by simp
  moreover have "length (stream C (take fi ms) @ map (stamped (ms ! fi)) (concat (take bi (blocks_at C (ms ! fi))))) = place C ms fi bi 0"
    by (simp add: place_def)
  ultimately show ?thesis by blast
qed

lemma place_nth:
  assumes "fi < length ms" "bi < length (blocks_at C (ms ! fi))" "ei < length (blocks_at C (ms ! fi) ! bi)"
  shows "place C ms fi bi ei < length (stream C ms)" "stream C ms ! place C ms fi bi ei = stamped (ms ! fi) (blocks_at C (ms ! fi) ! bi ! ei)"
proof -
  obtain pre post where p: "stream C ms = pre @ map (stamped (ms ! fi)) (blocks_at C (ms ! fi) ! bi) @ post" "length pre = place C ms fi bi 0"
    using place_split [OF assms(1,2)] by blast
  have e: "place C ms fi bi ei = length pre + ei" using p(2) by (simp add: place_def)
  show "place C ms fi bi ei < length (stream C ms)" unfolding e p(1) using assms(3) by simp
  show "stream C ms ! place C ms fi bi ei = stamped (ms ! fi) (blocks_at C (ms ! fi) ! bi ! ei)"
    unfolding e p(1) using assms(3) by (simp add: nth_append)
qed

lemma place_block: "bi < length (blocks_at C (ms ! fi)) \<Longrightarrow> place C ms fi bi (length (blocks_at C (ms ! fi) ! bi)) = place C ms fi (Suc bi) 0"
  by (simp add: place_def take_Suc_conv_app_nth)

lemma place_file: "fi < length ms \<Longrightarrow> place C ms fi (length (blocks_at C (ms ! fi))) 0 = place C ms (Suc fi) 0 0"
  by (simp add: place_def take_Suc_conv_app_nth ents_def)

lemma place_end: "place C ms (length ms) 0 0 = length (stream C ms)"
  by (simp add: place_def)

section \<open>Loading a block\<close>

text \<open>The bytes read ahead are bytes of their file.\<close>

definition ahead_ok :: "shelf \<Rightarrow> src \<Rightarrow> bool" where
  "ahead_ok C s \<longleftrightarrow> (\<forall>b. s_ra s = Some b \<longrightarrow> b \<noteq> [] \<longrightarrow> (\<forall>bs hs. C (s_ra_file s) = Some (bs, hs) \<longrightarrow>
     (\<exists>pre post. blocks_bytes bs = pre @ b @ post \<and> s_ra_off s = FHDR + length pre)))"

lemma slice_inside:
  assumes "pre @ b @ post = P @ x @ Q" "length pre \<le> length P" "length P + length x \<le> length pre + length b"
  shows "take (length x) (drop (length P - length pre) b) = x"
proof -
  have "x = take (length x) (drop (length P) (pre @ b @ post))" unfolding assms(1) by simp
  also have "\<dots> = take (length x) (drop (length P - length pre) b)" using assms(2,3) by simp
  finally show ?thesis by simp
qed

lemma wrap_minus_id: "b \<le> a \<Longrightarrow> a < 2 ^ 64 \<Longrightarrow> wrap_minus a b = a - b"
proof -
  assume a: "b \<le> a" "a < 2 ^ 64"
  have "a + 2 ^ 64 - b = (a - b) + 2 ^ 64" using a by simp
  then have "wrap_minus a b = (a - b) mod 2 ^ 64" unfolding wrap_minus_def by (simp only: mod_add_self2)
  then show ?thesis using a by simp
qed

lemma ahead_end_spec:
  "off + length (blocks_bytes bs) < 2 ^ 64 \<Longrightarrow>
   \<exists>j \<le> length bs. ahead_end (index_of off bs) from off = off + length (blocks_bytes (take j bs))"
proof (induction bs arbitrary: off)
  case (Cons es bs)
  have w: "wrap (off + length (data_block es)) = off + length (data_block es)" using Cons.prems by (simp add: wrap_id)
  have "off + length (data_block es) + length (blocks_bytes bs) < 2 ^ 64" using Cons.prems by simp
  then obtain j where j: "j \<le> length bs" "ahead_end (index_of (off + length (data_block es)) bs) from (off + length (data_block es)) =
      off + length (data_block es) + length (blocks_bytes (take j bs))" using Cons.IH by blast
  show ?case
  proof (cases "wrap_minus (off + length (data_block es)) from \<le> READ_AHEAD")
    case True
    then show ?thesis using j by (intro exI [of _ "Suc j"]) (simp add: w)
  next
    case False
    then show ?thesis by (intro exI [of _ 0]) (simp add: w)
  qed
qed simp

lemma index_of_drop: "i \<le> length bs \<Longrightarrow> drop i (index_of off bs) = index_of (off + length (blocks_bytes (take i bs))) (drop i bs)"
proof (induction i arbitrary: off bs)
  case (Suc i)
  then show ?case by (cases bs) (simp_all add: add.assoc)
qed simp

text \<open>What loading the block \<open>bi\<close> of the file \<open>fi\<close> leaves of a source.\<close>

definition at_block :: "shelf \<Rightarrow> src \<Rightarrow> nat \<Rightarrow> nat \<Rightarrow> bool" where
  "at_block C s fi bi \<longleftrightarrow> s_fi s = fi \<and> s_bi s = bi \<and> s_blk s = blocks_at C (files_of (s_kind s) ! fi) ! bi"

definition same_src :: "src \<Rightarrow> src \<Rightarrow> bool" where
  "same_src s s' \<longleftrightarrow> s_kind s' = s_kind s \<and> s_priv s' = s_priv s"

definition block_loaded :: "shelf \<Rightarrow> src \<Rightarrow> nat \<Rightarrow> nat \<Rightarrow> gs_status \<Rightarrow> src \<Rightarrow> bool" where
  "block_loaded C s fi bi rc s' \<longleftrightarrow> same_src s s' \<and> ahead_ok C s' \<and>
     (if rc = GS_OK then at_block C s' fi bi \<and> s_valid s' = s_valid s \<and> s_rc s' = s_rc s else s_rc s' = rc \<and> \<not> s_valid s')"

context reads_layer
begin

lemma src_load_spec:
  assumes "good C d" "ahead_ok C s" "C (m_num (files_of (s_kind s) ! fi)) = Some (bs, hs)" "bi < length bs"
  shows "\<exists>rc s' d'. src_load io fi bi s d = Some (rc, s', d') \<and> reads C d d' \<and> (up (world d) \<longrightarrow> rc = GS_OK) \<and>
    block_loaded C s fi bi rc s' \<and> (rc = GS_OK \<longrightarrow> opened d' (m_num (files_of (s_kind s) ! fi)) \<noteq> None)"
proof -
  let ?m = "files_of (s_kind s) ! fi"
  obtain s0 d0 where 0: "src_unpin_db s d = (s0, d0)" by fastforce
  have s0: "s0 = s\<lparr>s_pin := None, s_blk := []\<rparr>" using 0 by (simp add: src_unpin_db_def)
  have r0: "reads C d d0" using unpin_reads [OF assms(1), of s] 0 by simp
  then have g0: "good C d0" by (simp add: reads_def)
  obtain rc d1 where 1: "file_load io ?m d0 = Some (rc, d1)" "reads C d0 d1" "up (world d0) \<longrightarrow> rc = GS_OK"
    "rc = GS_OK \<longrightarrow> opened d1 (m_num ?m) = Some (loaded_of bs hs)"
    using file_load_spec [OF g0 assms(3)] by blast
  have r1: "reads C d d1" using reads_trans [OF r0 1(2)] .
  have g1: "good C d1" using r1 by (simp add: reads_def)
  have k: "files_of (s_kind s0) ! fi = ?m" by (simp add: s0)
  show ?thesis
  proof (cases "rc = GS_OK")
    case False
    then show ?thesis using 0 1(1,3) k r1 reads_up [OF r0] assms(2)
      by (auto simp: src_load_def s0 block_loaded_def same_src_def ahead_ok_def)
  next
    case True
    obtain c pn es d2 where 2: "fetch_block io ?m bi d1 = (c, pn, es, d2)" by (metis surj_pair)
    have op: "opened d1 (m_num ?m) \<noteq> None" using 1(4) True by simp
    note f = fetch_spec [OF g1 assms(3) op assms(4) 2]
    have op2: "opened d2 (m_num ?m) \<noteq> None" using f(1) op assms(3) by (simp add: reads_def kept_def)
    have run: "src_load io fi bi s d = Some (if c \<noteq> GS_OK then (c, s0\<lparr>s_rc := c, s_valid := False\<rparr>, d2)
        else (GS_OK, s0\<lparr>s_pin := pn, s_blk := es, s_fi := fi, s_bi := bi\<rparr>, d2))"
      using 0 1(1) k True 2 by (simp add: src_load_def)
    have up: "up (world d) \<longrightarrow> c = GS_OK" using f(3) reads_up [OF r1] by blast
    have st: "block_loaded C s fi bi c (if c \<noteq> GS_OK then s0\<lparr>s_rc := c, s_valid := False\<rparr> else s0\<lparr>s_pin := pn, s_blk := es, s_fi := fi, s_bi := bi\<rparr>)"
      using f(2) assms(2,3) by (simp add: block_loaded_def same_src_def ahead_ok_def at_block_def blocks_at_def s0)
    show ?thesis using run reads_trans [OF r1 f(1)] up st op2
      by (cases "c = GS_OK") auto
  qed
qed

lemma file_small:
  assumes "good C d" "C (m_num m) = Some (bs, hs)"
  shows "FHDR + length (blocks_bytes bs) < 2 ^ 32"
proof -
  have i: "length (db_identity (eng d)) = 16" "length (file_image (db_identity (eng d)) (m_num m) bs hs) < 2 ^ 29"
    using assms by (simp_all add: db_ok_def shelf_ok_def)
  then show ?thesis by (simp add: file_image_def Let_def)
qed

text \<open>After reading ahead the buffer holds the block.\<close>

lemma read_ahead_spec:
  assumes "good C d" "ahead_ok C s" "C (m_num m) = Some (bs, hs)" "opened d (m_num m) \<noteq> None" "bi < length bs"
    "read_ahead io m bi s d = (rc, s', d')"
  shows "reads C d d'" "up (world d) \<Longrightarrow> rc = GS_OK" "ahead_ok C s'" "rc \<noteq> GS_OK \<Longrightarrow> s_rc s' = rc \<and> \<not> s_valid s'"
    "rc = GS_OK \<Longrightarrow> s' = s\<lparr>s_ra := s_ra s', s_ra_off := s_ra_off s', s_ra_file := s_ra_file s'\<rparr>" "same_src s s'"
    "rc = GS_OK \<Longrightarrow> peek (i_off (index_of FHDR bs ! bi) - s_ra_off s') (i_size (index_of FHDR bs ! bi)) (the (s_ra s')) = data_block (bs ! bi)"
proof -
  define ie where "ie = index_of FHDR bs ! bi"
  let ?P = "blocks_bytes (take bi bs)" and ?x = "data_block (bs ! bi)" and ?Q = "blocks_bytes (drop (Suc bi) bs)"
  have ix: "file_index d m = index_of FHDR bs" using good_file(3) [OF assms(1,3,4)] by simp
  have off: "i_off ie = FHDR + length ?P" "i_size ie = length ?x"
    using index_of_nth [OF assms(5), of FHDR] by (simp_all add: ie_def)
  have bb: "blocks_bytes bs = ?P @ ?x @ ?Q" by (rule blocks_split [OF assms(5)])
  have small: "FHDR + length ?P + length ?x + length ?Q < 2 ^ 32" using file_small [OF assms(1,3)] unfolding bb by simp
  have w1: "wrap (i_off ie + i_size ie) = i_off ie + i_size ie" by (rule wrap_id) (use small off in simp)
  have xne: "0 < length ?x" by (simp add: data_block_def TRAIL_def)
  have "reads C d d' \<and> (up (world d) \<longrightarrow> rc = GS_OK) \<and> ahead_ok C s' \<and> (rc \<noteq> GS_OK \<longrightarrow> s_rc s' = rc \<and> \<not> s_valid s') \<and>
    (rc = GS_OK \<longrightarrow> s' = s\<lparr>s_ra := s_ra s', s_ra_off := s_ra_off s', s_ra_file := s_ra_file s'\<rparr>) \<and> same_src s s' \<and>
    (rc = GS_OK \<longrightarrow> peek (i_off ie - s_ra_off s') (i_size ie) (the (s_ra s')) = ?x)"
  proof (cases "s_ra s \<noteq> None \<and> s_ra_file s = m_num m \<and> s_ra_off s \<le> i_off ie \<and> wrap (i_off ie + i_size ie) \<le> wrap (s_ra_off s + length (the (s_ra s)))")
    case True
    then have r: "rc = GS_OK" "s' = s" "d' = d" using assms(6) ix by (auto simp: read_ahead_def ie_def Let_def)
    obtain b where b: "s_ra s = Some b" using True by auto
    have le: "i_off ie + i_size ie \<le> s_ra_off s + length b"
    proof -
      have "wrap (s_ra_off s + length b) \<le> s_ra_off s + length b" by (simp add: wrap_def)
      then show ?thesis using True w1 b by simp
    qed
    have "b \<noteq> []"
    proof
      assume "b = []"
      then have "i_off ie + i_size ie \<le> i_off ie" using le True by simp
      then show False using xne off(2) by linarith
    qed
    then obtain pre post where p: "blocks_bytes bs = pre @ b @ post" "s_ra_off s = FHDR + length pre"
      using assms(2,3) True b unfolding ahead_ok_def by metis
    have "take (length ?x) (drop (length ?P - length pre) b) = ?x"
    proof (rule slice_inside)
      show "pre @ b @ post = ?P @ ?x @ ?Q" using p(1) bb by simp
      show "length pre \<le> length ?P" "length ?P + length ?x \<le> length pre + length b" using True le off p(2) by simp_all
    qed
    then have "peek (i_off ie - s_ra_off s) (i_size ie) b = ?x" using off p(2) by (simp add: peek_def)
    then show ?thesis using r b assms(1,2) reads_refl by (simp add: same_src_def)
  next
    case False
    let ?rest = "drop (Suc bi) bs"
    obtain rc1 f d1 where 1: "file_fd io m d = (rc1, f, d1)" by (metis prod_cases3)
    define n where "n = wrap_minus (ahead_end (drop (bi + 1) (index_of FHDR bs)) (i_off ie) (wrap (i_off ie + i_size ie))) (i_off ie)"
    note fd = file_fd_spec [OF assms(1,3) 1]
    obtain rc2 b w where 2: "read_exact io (the f) (i_off ie) n (world d1) = (rc2, b, w)" by (metis prod_cases3)
    have run: "(rc, s', d') = (if rc1 \<noteq> GS_OK then (rc1, s\<lparr>s_ra := Some [], s_rc := rc1, s_valid := False\<rparr>, d1)
        else if rc2 \<noteq> GS_OK then (rc2, s\<lparr>s_ra := Some [], s_rc := rc2, s_valid := False\<rparr>, d1\<lparr>world := w\<rparr>)
        else (GS_OK, s\<lparr>s_ra := Some b, s_ra_off := i_off ie, s_ra_file := m_num m\<rparr>, d1\<lparr>world := w\<rparr>))"
      using assms(6) unfolding read_ahead_def ix Let_def ie_def [symmetric] if_not_P [OF False] 1 prod.case n_def [symmetric] 2 by (simp split: if_splits)
    show ?thesis
    proof (cases "rc1 = GS_OK")
      case False
      then show ?thesis using run fd by (auto simp: ahead_ok_def same_src_def)
    next
      case ok1: True
      have "drop (bi + 1) (index_of FHDR bs) = index_of (i_off ie + i_size ie) ?rest"
        using index_of_drop [of "Suc bi" bs FHDR] assms(5) off by (simp add: take_Suc_conv_app_nth add.assoc)
      moreover obtain j where "ahead_end (index_of (i_off ie + i_size ie) ?rest) (i_off ie) (i_off ie + i_size ie) =
          i_off ie + i_size ie + length (blocks_bytes (take j ?rest))"
      proof -
        have "i_off ie + i_size ie + length (blocks_bytes ?rest) < 2 ^ 64" using small off by simp
        from ahead_end_spec [OF this] show thesis using that by blast
      qed
      ultimately have n: "n = wrap_minus (i_off ie + i_size ie + length (blocks_bytes (take j ?rest))) (i_off ie)" by (simp add: n_def w1)
      have q: "?Q = blocks_bytes (take j ?rest) @ blocks_bytes (drop j ?rest)" by (metis append_take_drop_id blocks_bytes_simps(3))
      have "i_off ie + i_size ie + length (blocks_bytes (take j ?rest)) < 2 ^ 64" using small off unfolding q by simp
      then have n': "n = length (?x @ blocks_bytes (take j ?rest))" using wrap_minus_id off(2) unfolding n by simp
      have bb': "blocks_bytes bs = ?P @ (?x @ blocks_bytes (take j ?rest)) @ blocks_bytes (drop j ?rest)" using bb q by simp
      note fb = file_bytes [OF assms(1,3) 1 [unfolded ok1] 2 bb' off(1) n']
      show ?thesis
      proof (cases "rc2 = GS_OK")
        case False
        then show ?thesis using run ok1 fb by (auto simp: ahead_ok_def same_src_def)
      next
        case ok2: True
        have b: "b = ?x @ blocks_bytes (take j ?rest)" by (rule fb(2) [OF ok2])
        have s': "rc = GS_OK" "s' = s\<lparr>s_ra := Some b, s_ra_off := i_off ie, s_ra_file := m_num m\<rparr>" "d' = d1\<lparr>world := w\<rparr>"
          using run ok1 ok2 by simp_all
        have "ahead_ok C s'" using bb' b off(1) assms(3) unfolding ahead_ok_def s'(2) by auto
        moreover have "peek (i_off ie - i_off ie) (i_size ie) b = ?x" using off(2) b by (simp add: peek_def)
        ultimately show ?thesis using s' fb(1) by (simp add: same_src_def)
      qed
    qed
  qed
  then show "reads C d d'" "up (world d) \<Longrightarrow> rc = GS_OK" "ahead_ok C s'" "rc \<noteq> GS_OK \<Longrightarrow> s_rc s' = rc \<and> \<not> s_valid s'"
    "rc = GS_OK \<Longrightarrow> s' = s\<lparr>s_ra := s_ra s', s_ra_off := s_ra_off s', s_ra_file := s_ra_file s'\<rparr>" "same_src s s'"
    "rc = GS_OK \<Longrightarrow> peek (i_off (index_of FHDR bs ! bi) - s_ra_off s') (i_size (index_of FHDR bs ! bi)) (the (s_ra s')) = ?x"
    unfolding ie_def by blast+
qed

lemma src_load_ahead_spec:
  assumes "good C d" "ahead_ok C s" "C (m_num (files_of (s_kind s) ! fi)) = Some (bs, hs)" "bi < length bs"
  shows "\<exists>rc s' d'. src_load_ahead io fi bi s d = Some (rc, s', d') \<and> reads C d d' \<and> (up (world d) \<longrightarrow> rc = GS_OK) \<and>
    block_loaded C s fi bi rc s' \<and> (rc = GS_OK \<longrightarrow> opened d' (m_num (files_of (s_kind s) ! fi)) \<noteq> None)"
proof -
  let ?m = "files_of (s_kind s) ! fi"
  obtain rc d1 where 1: "file_load io ?m d = Some (rc, d1)" "reads C d d1" "up (world d) \<longrightarrow> rc = GS_OK"
    "rc = GS_OK \<longrightarrow> opened d1 (m_num ?m) = Some (loaded_of bs hs)"
    using file_load_spec [OF assms(1,3)] by blast
  have g1: "good C d1" using 1(2) by (simp add: reads_def)
  show ?thesis
  proof (cases "rc = GS_OK")
    case False
    then show ?thesis using 1 assms(2) by (auto simp: src_load_ahead_def block_loaded_def same_src_def ahead_ok_def)
  next
    case True
    have op: "opened d1 (m_num ?m) \<noteq> None" using 1(4) True by simp
    show ?thesis
    proof (cases "find (\<lambda>e. entry_key e = block_key ?m bi) (blocks_cached d1) \<noteq> None")
      case cached: True
      have "src_load_ahead io fi bi s d = src_load io fi bi s d1" using 1(1) True cached by (simp add: src_load_ahead_def)
      then show ?thesis using src_load_spec [OF g1 assms(2-4)] reads_trans [OF 1(2)] reads_up [OF 1(2)] by metis
    next
      case nc: False
      obtain r2 s2 d2 where 2: "read_ahead io ?m bi s d1 = (r2, s2, d2)" by (metis prod_cases3)
      note ra = read_ahead_spec [OF g1 assms(2,3) op assms(4) 2]
      have r2: "reads C d d2" "up (world d) \<longrightarrow> r2 = GS_OK" using reads_trans [OF 1(2) ra(1)] ra(2) reads_up [OF 1(2)] by blast+
      have g2: "good C d2" and op2: "opened d2 (m_num ?m) \<noteq> None" using ra(1) op assms(3) by (simp_all add: reads_def kept_def)
      have ix: "file_index d2 ?m = index_of FHDR bs" using good_file(3) [OF g2 assms(3) op2] by simp
      show ?thesis
      proof (cases "r2 = GS_OK")
        case False
        have "src_load_ahead io fi bi s d = Some (r2, s2, d2)" using 1(1) True nc 2 False by (simp add: src_load_ahead_def)
        then show ?thesis using r2 ra(3,4,6) False by (simp add: block_loaded_def)
      next
        case ok2: True
        obtain s3 d3 where 3: "src_unpin_db s2 d2 = (s3, d3)" by fastforce
        have pk: "block_of (peek (i_off (index_of FHDR bs ! bi) - s_ra_off s2) (i_size (index_of FHDR bs ! bi)) (the (s_ra s2))) = (GS_OK, bs ! bi)"
          unfolding ra(7) [OF ok2] by (rule good_file(2) [OF g1 assms(3,4)])
        have run: "src_load_ahead io fi bi s d = Some (GS_OK, s3\<lparr>s_blk := bs ! bi, s_fi := fi, s_bi := bi\<rparr>, d3)"
          using 1(1) True nc 2 ok2 3 pk by (simp add: src_load_ahead_def ix)
        have s3: "s3 = s2\<lparr>s_pin := None, s_blk := []\<rparr>" using 3 by (simp add: src_unpin_db_def)
        have r3: "reads C d2 d3" using unpin_reads [OF g2, of s2] 3 by simp
        have op3: "opened d3 (m_num ?m) \<noteq> None" using r3 op2 assms(3) by (simp add: reads_def kept_def)
        have "s_valid s2 = s_valid s" "s_rc s2 = s_rc s" using ra(5) [OF ok2] by (metis src.select_convs(9,10) src.surjective src.update_convs(13-15))+
        then have "block_loaded C s fi bi GS_OK (s3\<lparr>s_blk := bs ! bi, s_fi := fi, s_bi := bi\<rparr>)"
          using ra(3,6) assms(3) by (simp add: block_loaded_def same_src_def ahead_ok_def at_block_def blocks_at_def s3)
        then show ?thesis using run reads_trans [OF r2(1) r3] op3 by auto
      qed
    qed
  qed
qed

end

section \<open>Where a source stands\<close>

text \<open>\<open>L\<close> is the list a source reads; \<open>p\<close> where it stands in it, at the end when it is not valid.\<close>

fun src_list :: "shelf \<Rightarrow> src_kind \<Rightarrow> ent list \<Rightarrow> bool" where
  "src_list C (SK sk) L \<longleftrightarrow> holds sk L"
| "src_list C (FILES ms) L \<longleftrightarrow> (\<forall>m \<in> set ms. file_wf C m) \<and> L = stream C ms \<and> sorted_ents L"

definition in_file :: "shelf \<Rightarrow> file_meta list \<Rightarrow> src \<Rightarrow> ('w, 'f) db \<Rightarrow> nat \<Rightarrow> bool" where
  "in_file C ms s d p \<longleftrightarrow> s_fi s < length ms \<and> s_bi s < length (blocks_at C (ms ! s_fi s)) \<and> at_block C s (s_fi s) (s_bi s) \<and>
     s_ei s < length (s_blk s) \<and> p = place C ms (s_fi s) (s_bi s) (s_ei s) \<and> opened d (m_num (ms ! s_fi s)) \<noteq> None"

definition in_skip :: "skip \<Rightarrow> ent list \<Rightarrow> nat option \<Rightarrow> nat \<Rightarrow> bool" where
  "in_skip sk L n p \<longleftrightarrow> (\<exists>ord. sk_ok (nodes sk) ord \<and> L = map (\<lambda>a. sk_ent (nodes sk ! a)) ord \<and> n = (if p < length ord then Some (ord ! p) else None))"

definition src_at :: "shelf \<Rightarrow> src \<Rightarrow> ('w, 'f) db \<Rightarrow> ent list \<Rightarrow> nat \<Rightarrow> bool" where
  "src_at C s d L p \<longleftrightarrow> src_list C (s_kind s) L \<and> ahead_ok C s \<and> s_rc s = GS_OK \<and> p \<le> length L \<and> s_valid s = (p < length L) \<and>
     (case s_kind s of SK sk \<Rightarrow> in_skip sk L (s_node s) p | FILES ms \<Rightarrow> s_valid s \<longrightarrow> in_file C ms s d p)"

lemma src_list_sorted: "src_list C kd L \<Longrightarrow> sorted_ents L"
  by (cases kd) (auto simp: sorted_ents_def holds_sorted)

lemma before_length: "sorted_ents L \<Longrightarrow> i < length L \<Longrightarrow> key_lt (key_of (L ! i)) t \<longleftrightarrow> i < length (before t L)"
proof -
  assume s: "sorted_ents L" and i: "i < length L"
  let ?P = "\<lambda>e. key_lt (key_of e) t"
  have l: "length (before t L) \<le> length L" by (simp add: before_def length_takeWhile_le)
  show ?thesis
  proof
    assume k: "?P (L ! i)"
    show "i < length (before t L)"
    proof (rule ccontr)
      assume n: "\<not> i < length (before t L)"
      then have b: "length (before t L) < length L" using i by simp
      then have nb: "\<not> ?P (L ! length (before t L))" unfolding before_def by (rule nth_length_takeWhile)
      show False
      proof (cases "i = length (before t L)")
        case False
        then have "\<not> key_lt (key_of (L ! i)) (key_of (L ! length (before t L)))"
          using s n i unfolding sorted_ents_def sorted_wrt_iff_nth_less by auto
        then show False using nb k key_lt_trans not_key_lt by metis
      qed (use nb k in simp)
    qed
  next
    assume b: "i < length (before t L)"
    then have "L ! i = before t L ! i" unfolding before_def by (simp add: takeWhile_nth)
    then have "L ! i \<in> set (takeWhile ?P L)" using b unfolding before_def by (metis nth_mem)
    then show "?P (L ! i)" by (rule set_takeWhileD [THEN conjunct2])
  qed
qed

lemma before_le: "length (before t L) \<le> length L"
  by (simp add: before_def length_takeWhile_le)

lemma key_at:
  assumes "fi < length ms" "bi < length (blocks_at C (ms ! fi))" "ei < length (blocks_at C (ms ! fi) ! bi)"
  shows "(e_key (blocks_at C (ms ! fi) ! bi ! ei), eseq (ms ! fi) (e_seq (blocks_at C (ms ! fi) ! bi ! ei))) =
    key_of (stream C ms ! place C ms fi bi ei)"
  unfolding place_nth(2) [OF assms] by (simp add: stamped_def key_of_def)

lemma last_entry: "bs \<noteq> [] \<Longrightarrow> [] \<notin> set bs \<Longrightarrow> last (concat bs) = last (bs ! (length bs - 1))"
  by (induction bs rule: rev_induct) (auto simp: nth_append)

text \<open>The last entry of a block, and of a file, and its place.\<close>

lemma block_last:
  assumes "file_wf C (ms ! fi)" "fi < length ms" "bi < length (blocks_at C (ms ! fi))"
  shows "(e_key (last (blocks_at C (ms ! fi) ! bi)), eseq (ms ! fi) (e_seq (last (blocks_at C (ms ! fi) ! bi)))) =
      key_of (stream C ms ! (place C ms fi (Suc bi) 0 - 1))"
    "place C ms fi bi 0 < place C ms fi (Suc bi) 0" "place C ms fi (Suc bi) 0 \<le> length (stream C ms)"
proof -
  let ?b = "blocks_at C (ms ! fi) ! bi"
  have ne: "?b \<noteq> []" using assms(1,3) unfolding file_wf_def by (metis nth_mem)
  then have l: "length ?b - 1 < length ?b" by simp
  have p: "place C ms fi (Suc bi) 0 = place C ms fi bi 0 + length ?b" using place_block [OF assms(3)] by (simp add: place_def)
  then have "place C ms fi (Suc bi) 0 - 1 = place C ms fi bi (length ?b - 1)" using l by (simp add: place_def)
  then show "(e_key (last ?b), eseq (ms ! fi) (e_seq (last ?b))) = key_of (stream C ms ! (place C ms fi (Suc bi) 0 - 1))"
    using key_at [OF assms(2,3) l] ne by (simp add: last_conv_nth)
  show "place C ms fi bi 0 < place C ms fi (Suc bi) 0" using p ne by simp
  have "place C ms fi bi (length ?b - 1) < length (stream C ms)" by (rule place_nth(1) [OF assms(2,3) l])
  then show "place C ms fi (Suc bi) 0 \<le> length (stream C ms)" using p ne by (simp add: place_def)
qed

lemma file_last:
  assumes "file_wf C (ms ! fi)" "fi < length ms"
  shows "(m_largest (ms ! fi), eseq (ms ! fi) (m_large_seq (ms ! fi))) = key_of (stream C ms ! (place C ms (Suc fi) 0 0 - 1))"
    "place C ms fi 0 0 < place C ms (Suc fi) 0 0" "place C ms (Suc fi) 0 0 \<le> length (stream C ms)"
proof -
  let ?bs = "blocks_at C (ms ! fi)"
  have wf: "?bs \<noteq> []" "[] \<notin> set ?bs" using assms(1) by (simp_all add: file_wf_def)
  then have l: "length ?bs - 1 < length ?bs" "Suc (length ?bs - 1) = length ?bs" by simp_all
  note b = block_last [OF assms l(1), unfolded l(2) place_file [OF assms(2)]]
  show "(m_largest (ms ! fi), eseq (ms ! fi) (m_large_seq (ms ! fi))) = key_of (stream C ms ! (place C ms (Suc fi) 0 0 - 1))"
    using b(1) assms(1) last_entry [OF wf] by (simp add: file_wf_def)
  have "place C ms fi 0 0 \<le> place C ms fi (length ?bs - 1) 0" by (simp add: place_def)
  then show "place C ms fi 0 0 < place C ms (Suc fi) 0 0" "place C ms (Suc fi) 0 0 \<le> length (stream C ms)" using b(2,3) by simp_all
qed

lemma place_mono: "fi \<le> fj \<Longrightarrow> place C ms fi 0 0 \<le> place C ms fj 0 0"
proof -
  assume "fi \<le> fj"
  then have "take fj ms = take fi ms @ take (fj - fi) (drop fi ms)" by (metis le_add_diff_inverse take_add)
  then show ?thesis by (simp add: place_def)
qed

lemma place_mono_block: "bi \<le> bj \<Longrightarrow> place C ms fi bi 0 \<le> place C ms fi bj 0"
proof -
  assume "bi \<le> bj"
  then have "take bj bs = take bi bs @ take (bj - bi) (drop bi bs)" for bs :: "ent list list" by (metis le_add_diff_inverse take_add)
  then show ?thesis by (simp add: place_def)
qed

text \<open>The three searches of \<^verbatim>\<open>src_seek\<close> find the place where \<open>t\<close> belongs.\<close>

lemma file_search:
  assumes "\<forall>m \<in> set ms. file_wf C m" "sorted_ents (stream C ms)"
    "fi = lower_bound (\<lambda>i. ent_cmp (m_largest (ms ! i)) (eseq (ms ! i) (m_large_seq (ms ! i))) k q < 0) 0 (length ms)"
  shows "fi \<le> length ms" "place C ms fi 0 0 \<le> length (before (k, q) (stream C ms))"
    "fi < length ms \<Longrightarrow> length (before (k, q) (stream C ms)) < place C ms (Suc fi) 0 0"
    "fi = length ms \<Longrightarrow> length (before (k, q) (stream C ms)) = length (stream C ms)"
proof -
  let ?b = "length (before (k, q) (stream C ms))"
  let ?below = "\<lambda>i. ent_cmp (m_largest (ms ! i)) (eseq (ms ! i) (m_large_seq (ms ! i))) k q < 0"
  have below: "?below i \<longleftrightarrow> place C ms (Suc i) 0 0 \<le> ?b" if i: "i < length ms" for i
  proof -
    have wf: "file_wf C (ms ! i)" using assms(1) i by simp
    note l = file_last [OF wf i]
    have "?below i \<longleftrightarrow> key_lt (key_of (stream C ms ! (place C ms (Suc i) 0 0 - 1))) (k, q)" unfolding ent_cmp_less l(1) [symmetric] ..
    also have "\<dots> \<longleftrightarrow> place C ms (Suc i) 0 0 - 1 < ?b" by (rule before_length [OF assms(2)]) (use l(2,3) in simp)
    also have "\<dots> \<longleftrightarrow> place C ms (Suc i) 0 0 \<le> ?b" using l(2) by auto
    finally show ?thesis .
  qed
  have mono: "?below i" if "i < j" "j < length ms" "?below j" for i j
  proof -
    have "place C ms (Suc i) 0 0 \<le> place C ms (Suc j) 0 0" using that(1) by (intro place_mono) simp
    then show ?thesis using below [of i] below [of j] that by simp
  qed
  have lb: "fi \<le> length ms" "\<And>i. i < fi \<Longrightarrow> ?below i" "\<And>i. fi \<le> i \<Longrightarrow> i < length ms \<Longrightarrow> \<not> ?below i"
    unfolding assms(3) using lower_bound_list [of "length ms" ?below] mono by blast+
  show f: "fi \<le> length ms" by (rule lb(1))
  show p: "place C ms fi 0 0 \<le> ?b"
  proof (cases fi)
    case (Suc j)
    then show ?thesis using lb(2) [of j] below [of j] f by simp
  qed (simp add: place_def)
  show "fi < length ms \<Longrightarrow> ?b < place C ms (Suc fi) 0 0" using lb(3) [of fi] below [of fi] by simp
  show "fi = length ms \<Longrightarrow> ?b = length (stream C ms)" using p before_le [of "(k, q)" "stream C ms"] place_end [of C ms] by simp
qed

lemma block_search:
  assumes "file_wf C (ms ! fi)" "sorted_ents (stream C ms)" "fi < length ms"
    "place C ms fi 0 0 \<le> length (before (k, q) (stream C ms))" "length (before (k, q) (stream C ms)) < place C ms (Suc fi) 0 0"
    "bi = lower_bound (\<lambda>i. ent_cmp (e_key (last (blocks_at C (ms ! fi) ! i))) (eseq (ms ! fi) (e_seq (last (blocks_at C (ms ! fi) ! i)))) k q < 0) 0
       (length (blocks_at C (ms ! fi)))"
  shows "bi < length (blocks_at C (ms ! fi))" "place C ms fi bi 0 \<le> length (before (k, q) (stream C ms))"
    "length (before (k, q) (stream C ms)) < place C ms fi (Suc bi) 0"
proof -
  let ?b = "length (before (k, q) (stream C ms))" and ?n = "length (blocks_at C (ms ! fi))"
  let ?below = "\<lambda>i. ent_cmp (e_key (last (blocks_at C (ms ! fi) ! i))) (eseq (ms ! fi) (e_seq (last (blocks_at C (ms ! fi) ! i)))) k q < 0"
  have below: "?below i \<longleftrightarrow> place C ms fi (Suc i) 0 \<le> ?b" if i: "i < ?n" for i
  proof -
    note l = block_last [OF assms(1,3) i]
    have "?below i \<longleftrightarrow> key_lt (key_of (stream C ms ! (place C ms fi (Suc i) 0 - 1))) (k, q)" unfolding ent_cmp_less l(1) [symmetric] ..
    also have "\<dots> \<longleftrightarrow> place C ms fi (Suc i) 0 - 1 < ?b" by (rule before_length [OF assms(2)]) (use l(2,3) in simp)
    also have "\<dots> \<longleftrightarrow> place C ms fi (Suc i) 0 \<le> ?b" using l(2) by auto
    finally show ?thesis .
  qed
  have mono: "?below i" if "i < j" "j < ?n" "?below j" for i j
  proof -
    have "place C ms fi (Suc i) 0 \<le> place C ms fi (Suc j) 0" using that(1) by (intro place_mono_block) simp
    then show ?thesis using below [of i] below [of j] that by simp
  qed
  have lb: "bi \<le> ?n" "\<And>i. i < bi \<Longrightarrow> ?below i" "\<And>i. bi \<le> i \<Longrightarrow> i < ?n \<Longrightarrow> \<not> ?below i"
    unfolding assms(6) using lower_bound_list [of ?n ?below] mono by blast+
  show p: "place C ms fi bi 0 \<le> ?b"
  proof (cases bi)
    case (Suc j)
    then show ?thesis using lb(1) lb(2) [of j] below [of j] by simp
  qed (use assms(4) in simp)
  show b: "bi < ?n"
  proof (rule ccontr)
    assume "\<not> bi < ?n"
    then have "bi = ?n" using lb(1) by simp
    then show False using p assms(5) place_file [OF assms(3)] by simp
  qed
  show "?b < place C ms fi (Suc bi) 0" using lb(3) [of bi] below [of bi] b by simp
qed

lemma entry_search:
  assumes "sorted_ents (stream C ms)" "fi < length ms" "bi < length (blocks_at C (ms ! fi))"
    "place C ms fi bi 0 \<le> length (before (k, q) (stream C ms))" "length (before (k, q) (stream C ms)) < place C ms fi (Suc bi) 0"
    "b = blocks_at C (ms ! fi) ! bi" "ei = lower_bound (\<lambda>i. ent_cmp (e_key (b ! i)) (eseq (ms ! fi) (e_seq (b ! i))) k q < 0) 0 (length b)"
  shows "ei < length b" "place C ms fi bi ei = length (before (k, q) (stream C ms))"
proof -
  let ?b = "length (before (k, q) (stream C ms))"
  let ?below = "\<lambda>i. ent_cmp (e_key (b ! i)) (eseq (ms ! fi) (e_seq (b ! i))) k q < 0"
  have pl: "place C ms fi bi i = place C ms fi bi 0 + i" for i by (simp add: place_def)
  have pb: "place C ms fi (Suc bi) 0 = place C ms fi bi 0 + length b" using place_block [OF assms(3)] assms(6) pl [of "length b"] by simp
  have below: "?below i \<longleftrightarrow> place C ms fi bi 0 + i < ?b" if i: "i < length b" for i
  proof -
    note k = key_at [OF assms(2,3), of i, folded assms(6), OF i] and n = place_nth(1) [OF assms(2,3), of i, folded assms(6), OF i]
    show ?thesis using before_length [OF assms(1) n, of "(k, q)"] unfolding ent_cmp_less k pl [of i] .
  qed
  have mono: "?below i" if "i < j" "j < length b" "?below j" for i j using below [of i] below [of j] that by simp
  have lb: "ei \<le> length b" "\<And>i. i < ei \<Longrightarrow> ?below i" "\<And>i. ei \<le> i \<Longrightarrow> i < length b \<Longrightarrow> \<not> ?below i"
    unfolding assms(7) by (rule lower_bound_list, rule mono, assumption+)+
  define x where "x = ?b - place C ms fi bi 0"
  have x: "x < length b" "?b = place C ms fi bi 0 + x" using assms(4,5) pb by (simp_all add: x_def)
  have "\<not> ?below x" using below [OF x(1)] x(2) by simp
  then have "ei \<le> x" using lb(2) [of x] by (cases "x < ei") auto
  moreover have "x \<le> ei"
  proof (rule ccontr)
    assume "\<not> x \<le> ei"
    then have "ei < length b" "place C ms fi bi 0 + ei < ?b" using x by simp_all
    then show False using lb(3) [of ei] below [of ei] by simp
  qed
  ultimately show "ei < length b" "place C ms fi bi ei = ?b" using x pl [of ei] by simp_all
qed

section \<open>Seeking and stepping\<close>

lemma in_skip_ge:
  assumes "holds sk L"
  shows "\<exists>n. sk_ge sk k q = Some n \<and> in_skip sk L n (length (before (k, q) L)) \<and> (n \<noteq> None) = (length (before (k, q) L) < length L)"
proof -
  obtain ord where o: "sk_ok (nodes sk) ord" "L = map (\<lambda>a. sk_ent (nodes sk ! a)) ord" using assms by (auto simp: holds_def)
  obtain A B where s: "split_at (nodes sk) (k, q) ord = (A, B)" by fastforce
  have ab: "ord = A @ B" using split_at(1) [OF s] o(1) by (simp add: sk_ok_def)
  have b: "length (before (k, q) L) = length A" using split_entries(1) [OF s] by (simp add: o(2))
  have "sk_ge sk k q = Some (if length A < length ord then Some (ord ! length A) else None)"
    using sk_path_spec [OF o(1) s] path_0(2) [OF o(1) ab] by (cases B) (simp_all add: sk_ge_def map_nth_0 ab)
  then show ?thesis using o unfolding in_skip_def b by auto
qed

lemma in_skip_lt:
  assumes "holds sk L"
  shows "\<exists>n. sk_lt sk k q = Some n \<and> (if before (k, q) L = [] then n = None else n \<noteq> None \<and> in_skip sk L n (length (before (k, q) L) - 1))"
proof -
  obtain ord where o: "sk_ok (nodes sk) ord" "L = map (\<lambda>a. sk_ent (nodes sk ! a)) ord" using assms by (auto simp: holds_def)
  obtain A B where s: "split_at (nodes sk) (k, q) ord = (A, B)" by fastforce
  have ab: "ord = A @ B" using split_at(1) [OF s] o(1) by (simp add: sk_ok_def)
  have b: "length (before (k, q) L) = length A" "before (k, q) L = [] \<longleftrightarrow> A = []" using split_entries(1) [OF s] by (simp_all add: o(2))
  have "0 \<notin> set A" using o(1) ab unfolding sk_ok_def nodes_ok_def by (metis Un_iff atLeastLessThan_iff not_one_le_zero set_append)
  then have la: "A = [] \<or> last A \<noteq> 0" using last_in_set by metis
  have p: "sk_lt sk k q = Some (if A = [] then None else Some (last A))"
    using sk_path_spec [OF o(1) s] path_0(1) [OF o(1) ab] la by (auto simp: sk_lt_def map_nth_0)
  show ?thesis
  proof (cases "A = []")
    case True
    then show ?thesis using p b by simp
  next
    case False
    then have "0 < length A" by simp
    then have "length A - 1 < length ord" unfolding ab length_append by linarith
    moreover have "last A = ord ! (length A - 1)" using False by (simp add: ab nth_append last_conv_nth)
    ultimately have "in_skip sk L (Some (last A)) (length (before (k, q) L) - 1)" using o unfolding in_skip_def b by auto
    then show ?thesis using p b False by simp
  qed
qed

lemma in_skip_next:
  assumes "in_skip sk L (Some a) p"
  shows "p < length L" "in_skip sk L (nexts (nodes sk ! a) ! 0) (p + 1)" "sk_ent (nodes sk ! a) = L ! p"
proof -
  obtain ord where o: "sk_ok (nodes sk) ord" "L = map (\<lambda>a. sk_ent (nodes sk ! a)) ord" "Some a = (if p < length ord then Some (ord ! p) else None)"
    using assms by (auto simp: in_skip_def)
  then have a: "p < length ord" "a = ord ! p" by (auto split: if_splits)
  then show "p < length L" "sk_ent (nodes sk ! a) = L ! p" using o(2) by simp_all
  have ab: "ord = take (Suc p) ord @ drop (Suc p) ord" by simp
  have "last (0 # take (Suc p) ord) = a" using a by (simp add: take_Suc_conv_app_nth)
  then have "nexts (nodes sk ! a) ! 0 = (case drop (Suc p) ord of [] \<Rightarrow> None | b # _ \<Rightarrow> Some b)"
    using path_0 [OF o(1) ab] by simp
  also have "\<dots> = (if p + 1 < length ord then Some (ord ! (p + 1)) else None)"
    by (cases "Suc p < length ord") (simp_all add: Cons_nth_drop_Suc [symmetric])
  finally show "in_skip sk L (nexts (nodes sk ! a) ! 0) (p + 1)" using o(1,2) by (auto simp: in_skip_def)
qed

lemma in_skip_end: "in_skip sk L n p \<Longrightarrow> (n \<noteq> None) = (p < length L)"
  by (auto simp: in_skip_def split: if_splits)

lemma src_ent_at: "src_at C s d L p \<Longrightarrow> s_valid s \<Longrightarrow> p < length L \<and> src_ent s = L ! p"
proof -
  assume a: "src_at C s d L p" and v: "s_valid s"
  then have p: "p < length L" by (simp add: src_at_def)
  show ?thesis
  proof (cases "s_kind s")
    case (SK sk)
    then have k: "in_skip sk L (s_node s) p" using a by (simp add: src_at_def)
    then obtain n where n: "s_node s = Some n" using in_skip_end p by blast
    then show ?thesis using in_skip_next(3) k p SK by (auto simp: src_ent_def)
  next
    case (FILES ms)
    then have k: "in_file C ms s d p" "L = stream C ms" using a v by (simp_all add: src_at_def)
    let ?fi = "s_fi s" and ?bi = "s_bi s"
    have f: "?fi < length ms" "?bi < length (blocks_at C (ms ! ?fi))" "s_blk s = blocks_at C (ms ! ?fi) ! ?bi" "s_ei s < length (s_blk s)"
      "p = place C ms ?fi ?bi (s_ei s)" using k(1) FILES by (auto simp: in_file_def at_block_def)
    show ?thesis using place_nth [OF f(1,2), of "s_ei s"] f(3-5) k(2) p FILES by (simp add: src_ent_def stamped_def Let_def)
  qed
qed

text \<open>The outcome of an operation that goes to \<open>p\<close>: there, or a failure that invalidates the source.\<close>

definition went :: "shelf \<Rightarrow> src \<Rightarrow> ent list \<Rightarrow> nat \<Rightarrow> src \<Rightarrow> ('w, 'f) db \<Rightarrow> bool" where
  "went C s L p s' d' \<longleftrightarrow> same_src s s' \<and> ahead_ok C s' \<and> (if s_rc s' = GS_OK then src_at C s' d' L p else \<not> s_valid s')"

lemma went_block:
  assumes "block_loaded C s0 fi bi rc s1" "same_src s s0" "s_kind s = FILES ms" "src_list C (FILES ms) L" "fi < length ms" "bi < length (blocks_at C (ms ! fi))"
    "s_rc s0 = GS_OK" "opened d (m_num (ms ! fi)) \<noteq> None" "ei < length (blocks_at C (ms ! fi) ! bi)" "rc = GS_OK" "p = place C ms fi bi ei"
  shows "went C s L p (s1\<lparr>s_ei := ei, s_valid := True\<rparr>) d"
proof -
  have L: "L = stream C ms" using assms(4) by simp
  have k: "s_kind s1 = FILES ms" "s_rc s1 = GS_OK" "at_block C s1 fi bi" "ahead_ok C s1" "s_priv s1 = s_priv s"
    using assms(1,2,3,7,10) by (simp_all add: block_loaded_def same_src_def)
  have p: "p < length L" using place_nth(1) [OF assms(5,6,9)] L assms(11) by simp
  have "in_file C ms (s1\<lparr>s_ei := ei, s_valid := True\<rparr>) d p"
    using k(1,3) assms(5,6,8,9,11) by (simp add: in_file_def at_block_def)
  then show ?thesis using k p assms(3,4) by (auto simp: went_def src_at_def same_src_def ahead_ok_def)
qed

context reads_layer
begin

lemma src_at_reads: "src_at C s d L p \<Longrightarrow> reads C d d' \<Longrightarrow> src_at C s d' L p"
  unfolding src_at_def reads_def kept_def in_file_def by (auto simp: file_wf_def split: src_kind.splits)

lemma wf_file: "src_list C (FILES ms) L \<Longrightarrow> fi < length ms \<Longrightarrow> file_wf C (ms ! fi) \<and> (\<exists>bs hs. C (m_num (ms ! fi)) = Some (bs, hs) \<and> blocks_at C (ms ! fi) = bs)"
proof -
  assume "src_list C (FILES ms) L" "fi < length ms"
  then have w: "file_wf C (ms ! fi)" by simp
  then obtain x where "C (m_num (ms ! fi)) = Some x" by (auto simp: file_wf_def)
  then show ?thesis using w by (cases x) (simp add: blocks_at_def)
qed

lemma seek_spec:
  assumes "good C d" "src_list C (s_kind s) L" "ahead_ok C s" "s_rc s = GS_OK"
  shows "\<exists>s' d'. src_seek io k q s d = Some (s', d') \<and> reads C d d' \<and> (up (world d) \<longrightarrow> s_rc s' = GS_OK) \<and> went C s L (length (before (k, q) L)) s' d'"
proof (cases "s_kind s")
  case (SK sk)
  then have "holds sk L" using assms(2) by simp
  from in_skip_ge [OF this] obtain n where n: "sk_ge sk k q = Some n" "in_skip sk L n (length (before (k, q) L))"
    "(n \<noteq> None) = (length (before (k, q) L) < length L)" by blast
  let ?s = "s\<lparr>s_valid := False, s_steps := 0, s_stepped := 0, s_node := n, s_valid := (n \<noteq> None)\<rparr>"
  have "src_seek io k q s d = Some (?s, d)" using n(1) SK by (simp add: src_seek_def)
  moreover have "went C s L (length (before (k, q) L)) ?s d"
    using n assms(2-4) SK before_le [of "(k, q)" L] by (auto simp: went_def src_at_def same_src_def ahead_ok_def)
  ultimately show ?thesis using reads_refl [OF assms(1)] assms(4) by auto
next
  case (FILES ms)
  let ?p = "length (before (k, q) L)"
  have L: "src_list C (FILES ms) L" "L = stream C ms" "\<forall>m \<in> set ms. file_wf C m" "sorted_ents (stream C ms)" using assms(2) FILES by auto
  define s1 where "s1 = s\<lparr>s_valid := False, s_steps := 0, s_stepped := 0\<rparr>"
  obtain s2 d2 where 2: "src_unpin_db s1 d = (s2, d2)" by fastforce
  have s2: "s2 = s1\<lparr>s_pin := None, s_blk := []\<rparr>" using 2 by (simp add: src_unpin_db_def)
  have r2: "reads C d d2" using unpin_reads [OF assms(1), of s1] 2 by simp
  then have g2: "good C d2" by (simp add: reads_def)
  define fi where "fi = lower_bound (\<lambda>i. ent_cmp (m_largest (ms ! i)) (eseq (ms ! i) (m_large_seq (ms ! i))) k q < 0) 0 (length ms)"
  note fs = file_search [OF L(3,4) fi_def, folded L(2)]
  have run: "src_seek io k q s d = seek_files io k q [fi..<length ms] s2 d2"
    using 2 FILES by (simp add: src_seek_def s1_def fi_def Let_def)
  have k2: "s_kind s2 = FILES ms" "same_src s s2" "ahead_ok C s2" "s_rc s2 = GS_OK" "\<not> s_valid s2"
    using assms(3,4) FILES by (simp_all add: s2 s1_def same_src_def ahead_ok_def)
  show ?thesis
  proof (cases "fi < length ms")
    case False
    then have e: "src_seek io k q s d = Some (s2, d2)" using run by simp
    have "?p = length L" using fs(1,4) False by simp
    then have "went C s L ?p s2 d2" using k2 L by (simp add: went_def src_at_def)
    then show ?thesis using e r2 k2(4) by blast
  next
    case True
    let ?m = "ms ! fi"
    obtain bs hs where c: "C (m_num ?m) = Some (bs, hs)" "blocks_at C ?m = bs" and wf: "file_wf C ?m" using wf_file [OF L(1) True] by blast
    obtain rc d3 where 3: "file_load io ?m d2 = Some (rc, d3)" "reads C d2 d3" "up (world d2) \<longrightarrow> rc = GS_OK"
      "rc = GS_OK \<longrightarrow> opened d3 (m_num ?m) = Some (loaded_of bs hs)"
      using file_load_spec [OF g2 c(1)] by blast
    have r3: "reads C d d3" and g3: "good C d3" using reads_trans [OF r2 3(2)] by (simp_all add: reads_def)
    have seq: "[fi..<length ms] = fi # [Suc fi..<length ms]" using True by (simp add: upt_conv_Cons)
    show ?thesis
    proof (cases "rc = GS_OK")
      case False
      have "src_seek io k q s d = Some (s2\<lparr>s_rc := rc\<rparr>, d3)" using run seq 3(1) k2(1) False by simp
      moreover have "went C s L ?p (s2\<lparr>s_rc := rc\<rparr>) d3" using False k2 by (simp add: went_def same_src_def ahead_ok_def)
      moreover have "\<not> up (world d)" using False 3(3) reads_up [OF r2] by blast
      ultimately show ?thesis using r3 by auto
    next
      case ok: True
      have op: "opened d3 (m_num ?m) \<noteq> None" using 3(4) ok by simp
      have ix: "file_index d3 ?m = index_of FHDR bs" using good_file(3) [OF g3 c(1) op] by simp
      define bi where "bi = lower_bound (\<lambda>i. ent_cmp (e_key (last (bs ! i))) (eseq ?m (e_seq (last (bs ! i)))) k q < 0) 0 (length bs)"
      have bi: "lower_bound (\<lambda>i. ent_cmp (i_last (index_of FHDR bs ! i)) (eseq ?m (i_lastseq (index_of FHDR bs ! i))) k q < 0) 0 (length bs) = bi"
        unfolding bi_def
      proof -
        have lb: "lower_bound f lo hi = lower_bound g lo hi" if "\<And>i. i < hi \<Longrightarrow> f i = g i" for f g lo hi
          using that
        proof (induction "hi - lo" arbitrary: lo hi rule: less_induct)
          case less
          show ?case
          proof (cases "lo < hi")
            case True
            then have m: "(lo + hi) div 2 < hi" "hi - ((lo + hi) div 2 + 1) < hi - lo" "(lo + hi) div 2 - lo < hi - lo" by auto
            show ?thesis using less.hyps [OF m(2) less.prems] less.hyps [OF m(3)] less.prems m(1)
              by (subst (1 2) lower_bound.simps) (auto simp: Let_def)
          qed (simp add: lower_bound.simps)
        qed
        show "lower_bound (\<lambda>i. ent_cmp (i_last (index_of FHDR bs ! i)) (eseq ?m (i_lastseq (index_of FHDR bs ! i))) k q < 0) 0 (length bs) =
            lower_bound (\<lambda>i. ent_cmp (e_key (last (bs ! i))) (eseq ?m (e_seq (last (bs ! i)))) k q < 0) 0 (length bs)"
          by (rule lb) (simp add: index_of_nth)
      qed
      have pf: "place C ms fi 0 0 \<le> length (before (k, q) (stream C ms))" "length (before (k, q) (stream C ms)) < place C ms (Suc fi) 0 0"
        using fs(2,3) True L(2) by simp_all
      note b = block_search [OF wf L(4) True pf bi_def [folded c(2)], unfolded c(2)]
      have k3: "s_kind (s2\<lparr>s_rc := GS_OK\<rparr>) = FILES ms" "ahead_ok C (s2\<lparr>s_rc := GS_OK\<rparr>)" using k2 by (simp_all add: ahead_ok_def)
      have c3: "C (m_num (files_of (s_kind (s2\<lparr>s_rc := GS_OK\<rparr>)) ! fi)) = Some (bs, hs)" using c(1) k3(1) by simp
      obtain r4 s4 d4 where 4: "src_load io fi bi (s2\<lparr>s_rc := GS_OK\<rparr>) d3 = Some (r4, s4, d4)" "reads C d3 d4" "up (world d3) \<longrightarrow> r4 = GS_OK"
          "block_loaded C (s2\<lparr>s_rc := GS_OK\<rparr>) fi bi r4 s4" "r4 = GS_OK \<longrightarrow> opened d4 (m_num ?m) \<noteq> None"
        using src_load_spec [OF g3 k3(2) c3 b(1)] k3(1) by auto
      have r4: "reads C d d4" using reads_trans [OF r3 4(2)] .
      have sm: "same_src s (s2\<lparr>s_rc := GS_OK\<rparr>)" using k2(2) by (simp add: same_src_def)
      have nb: "bi \<noteq> length bs" using b(1) by simp
      show ?thesis
      proof (cases "r4 = GS_OK")
        case False
        have "src_seek io k q s d = Some (s4, d4)" using run seq 3(1) k2(1) ok ix bi 4(1) False nb by simp
        moreover have "went C s L ?p s4 d4" using False 4(4) sm by (simp add: went_def block_loaded_def same_src_def)
        moreover have "\<not> up (world d)" using False 4(3) reads_up [OF r3] by blast
        ultimately show ?thesis using r4 by blast
      next
        case ok4: True
        have blk: "s_blk s4 = bs ! bi" using 4(4) ok4 k3(1) c(2) by (simp add: block_loaded_def at_block_def same_src_def)
        define ei where "ei = lower_bound (\<lambda>i. ent_cmp (e_key (bs ! bi ! i)) (eseq ?m (e_seq (bs ! bi ! i))) k q < 0) 0 (length (bs ! bi))"
        have cb: "bs ! bi = blocks_at C ?m ! bi" by (simp add: c(2))
        note e = entry_search [OF L(4) True b(1) [folded c(2)] b(2,3) cb ei_def]
        have "src_seek io k q s d = Some (s4\<lparr>s_ei := ei, s_valid := True\<rparr>, d4)"
          using run seq 3(1) k2(1) ok ix bi 4(1) ok4 nb blk e(1) by (simp add: ei_def Let_def)
        moreover have "went C s L ?p (s4\<lparr>s_ei := ei, s_valid := True\<rparr>) d4"
          by (rule went_block [OF 4(4) sm FILES L(1) True b(1) [folded c(2)] _ _ e(1) [unfolded cb] ok4])
            (use 4(5) ok4 e(2) L(2) in simp_all)
        ultimately show ?thesis using r4 4(4) ok4 by (auto simp: block_loaded_def)
      qed
    qed
  qed
qed

text \<open>A block loaded, by whichever way: the source then stands in it.\<close>

lemma load_went:
  assumes ld: "\<exists>rc s' d'. ld = Some (rc, s', d') \<and> reads C d d' \<and> (up (world d) \<longrightarrow> rc = GS_OK) \<and>
        block_loaded C s0 fi bi rc s' \<and> (rc = GS_OK \<longrightarrow> opened d' (m_num (ms ! fi)) \<noteq> None)"
    and s: "same_src s s0" "s_kind s = FILES ms" "src_list C (FILES ms) L" "s_rc s0 = GS_OK" and i: "fi < length ms" "bi < length (blocks_at C (ms ! fi))"
  shows "\<exists>rc s' d'. ld = Some (rc, s', d') \<and> reads C d d' \<and> (up (world d) \<longrightarrow> rc = GS_OK) \<and>
    (if rc = GS_OK then s_blk s' = blocks_at C (ms ! fi) ! bi \<and> s_blk s' \<noteq> [] \<and> s_valid s' = s_valid s0 \<and> s_rc s' = GS_OK \<and>
       (\<forall>ei < length (s_blk s'). went C s L (place C ms fi bi ei) (s'\<lparr>s_ei := ei, s_valid := True\<rparr>) d')
     else s_rc s' \<noteq> GS_OK \<and> went C s L p s' d')"
proof -
  have wf: "file_wf C (ms ! fi)" using wf_file [OF s(3) i(1)] by blast
  obtain rc s' d' where l: "ld = Some (rc, s', d')" "reads C d d'" "up (world d) \<longrightarrow> rc = GS_OK" "block_loaded C s0 fi bi rc s'"
    "rc = GS_OK \<longrightarrow> opened d' (m_num (ms ! fi)) \<noteq> None" using ld by blast
  show ?thesis
  proof (cases "rc = GS_OK")
    case False
    then have "went C s L p s' d'" "s_rc s' \<noteq> GS_OK" using l(4) s(1) by (simp_all add: went_def block_loaded_def same_src_def)
    then show ?thesis using l False by auto
  next
    case True
    have k: "s_kind s' = FILES ms" using l(4) s(1,2) by (simp add: block_loaded_def same_src_def)
    have b: "s_blk s' = blocks_at C (ms ! fi) ! bi" "s_valid s' = s_valid s0" "s_rc s' = GS_OK"
      using l(4) True k s(4) by (simp_all add: block_loaded_def at_block_def)
    have ne: "s_blk s' \<noteq> []" using wf i(2) unfolding b(1) file_wf_def by (metis nth_mem)
    have "went C s L (place C ms fi bi ei) (s'\<lparr>s_ei := ei, s_valid := True\<rparr>) d'" if "ei < length (s_blk s')" for ei
      by (rule went_block [OF l(4) s(1,2,3) i s(4) _ _ True refl]) (use l(5) True that b(1) in simp_all)
    then show ?thesis using l(1-3) True b ne by auto
  qed
qed

lemma valid_set: "s_valid s \<Longrightarrow> s\<lparr>s_ei := ei, s_valid := True\<rparr> = s\<lparr>s_ei := ei\<rparr>"
  by (cases s) simp

lemma next_in_file:
  assumes "good C d" "s_kind s = FILES ms" "src_list C (FILES ms) L" "ahead_ok C s" "s_rc s = GS_OK" "s_valid s" "fi < length ms"
    "opened d (m_num (ms ! fi)) \<noteq> None" "bi < length (blocks_at C (ms ! fi))"
  shows "\<exists>s' d'. next_loop io fi bi s d = Some (s', d') \<and> reads C d d' \<and> (up (world d) \<longrightarrow> s_rc s' = GS_OK) \<and> went C s L (place C ms fi bi 0) s' d'"
proof -
  obtain bs hs where c: "C (m_num (ms ! fi)) = Some (bs, hs)" "blocks_at C (ms ! fi) = bs" using wf_file [OF assms(3,7)] by blast
  have ix: "file_index d (ms ! fi) = index_of FHDR bs" using good_file(3) [OF assms(1) c(1) assms(8)] by simp
  define s1 where "s1 = s\<lparr>s_steps := s_steps s + 1, s_stepped := s_stepped s + i_size (index_of FHDR bs ! bi)\<rparr>"
  have s1: "same_src s s1" "ahead_ok C s1" "s_rc s1 = GS_OK" "s_valid s1" "files_of (s_kind s1) ! fi = ms ! fi"
    using assms(2,4-6) by (simp_all add: s1_def same_src_def ahead_ok_def)
  define ld where "ld = (if 2 \<le> s_steps s1 \<and> cache_room d div 2 < s_stepped s1 then src_load_ahead io fi bi s1 d else src_load io fi bi s1 d)"
  have ld: "\<exists>rc s' d'. ld = Some (rc, s', d') \<and> reads C d d' \<and> (up (world d) \<longrightarrow> rc = GS_OK) \<and>
      block_loaded C s1 fi bi rc s' \<and> (rc = GS_OK \<longrightarrow> opened d' (m_num (ms ! fi)) \<noteq> None)"
    unfolding ld_def using src_load_ahead_spec [OF assms(1) s1(2), of fi bs hs bi] src_load_spec [OF assms(1) s1(2), of fi bs hs bi] c assms(9) s1(5) by simp
  obtain rc s' d' where l: "ld = Some (rc, s', d')" "reads C d d'" "up (world d) \<longrightarrow> rc = GS_OK"
    "if rc = GS_OK then s_blk s' = blocks_at C (ms ! fi) ! bi \<and> s_blk s' \<noteq> [] \<and> s_valid s' = s_valid s1 \<and> s_rc s' = GS_OK \<and>
       (\<forall>ei < length (s_blk s'). went C s L (place C ms fi bi ei) (s'\<lparr>s_ei := ei, s_valid := True\<rparr>) d')
     else s_rc s' \<noteq> GS_OK \<and> went C s L (place C ms fi bi 0) s' d'"
    using load_went [OF ld s1(1) assms(2,3) s1(3) assms(7,9)] by blast
  have nl: "\<not> length (file_index d (ms ! fi)) \<le> bi" using assms(9) ix c(2) by simp
  have f: "files_of (s_kind s) = ms" using assms(2) by simp
  have run: "next_loop io fi bi s d = Option.bind ld (\<lambda>(rc, s, d). if rc \<noteq> GS_OK then Some (s, d)
      else if s_blk s \<noteq> [] then Some (s\<lparr>s_ei := 0\<rparr>, d) else next_loop io fi (bi + 1) s d)"
    by (subst next_loop.simps) (simp add: f if_not_P [OF nl] Let_def nl ld_def s1_def ix [symmetric])
  show ?thesis
  proof (cases "rc = GS_OK")
    case False
    then show ?thesis using l run by auto
  next
    case True
    then have ne: "s_blk s' \<noteq> []" "s_valid s'" "s_rc s' = GS_OK" using l(4) s1(4) by auto
    then have r: "next_loop io fi bi s d = Some (s'\<lparr>s_ei := 0\<rparr>, d')" "s_valid s'" "0 < length (s_blk s')" "s_rc s' = GS_OK"
      using l(1) run True by simp_all
    then have "went C s L (place C ms fi bi 0) (s'\<lparr>s_ei := 0\<rparr>) d'" using l(4) True valid_set [OF r(2), of 0] by metis
    then show ?thesis using r l(2) by auto
  qed
qed

lemma next_loop_spec:
  assumes "good C d" "s_kind s = FILES ms" "src_list C (FILES ms) L" "ahead_ok C s" "s_rc s = GS_OK" "s_valid s" "fi < length ms"
    "opened d (m_num (ms ! fi)) \<noteq> None" "bi \<le> length (blocks_at C (ms ! fi))"
  shows "\<exists>s' d'. next_loop io fi bi s d = Some (s', d') \<and> reads C d d' \<and> (up (world d) \<longrightarrow> s_rc s' = GS_OK) \<and> went C s L (place C ms fi bi 0) s' d'"
proof (cases "bi < length (blocks_at C (ms ! fi))")
  case True
  then show ?thesis using next_in_file [OF assms(1-8)] by blast
next
  case False
  then have bi: "bi = length (blocks_at C (ms ! fi))" using assms(9) by simp
  have pl: "place C ms fi bi 0 = place C ms (Suc fi) 0 0" using place_file [OF assms(7)] bi by simp
  obtain bs hs where c: "C (m_num (ms ! fi)) = Some (bs, hs)" "blocks_at C (ms ! fi) = bs" using wf_file [OF assms(3,7)] by blast
  have nl: "length (file_index d (ms ! fi)) \<le> bi" using good_file(3) [OF assms(1) c(1) assms(8)] bi c(2) by simp
  have f: "files_of (s_kind s) = ms" using assms(2) by simp
  show ?thesis
  proof (cases "length ms \<le> fi + 1")
    case True
    then have "Suc fi = length ms" using assms(7) by simp
    then have "place C ms fi bi 0 = length L" using place_end [of C ms] assms(3) pl by simp
    moreover have "next_loop io fi bi s d = Some (s\<lparr>s_valid := False\<rparr>, d)" using True nl by (subst next_loop.simps) (simp add: f)
    moreover have "went C s L (length L) (s\<lparr>s_valid := False\<rparr>) d" using assms(2-5) by (auto simp: went_def src_at_def same_src_def ahead_ok_def)
    ultimately show ?thesis using reads_refl [OF assms(1)] assms(5) by auto
  next
    case more: False
    then have i: "Suc fi < length ms" by simp
    let ?m = "ms ! Suc fi"
    obtain bs' hs' where c': "C (m_num ?m) = Some (bs', hs')" "blocks_at C ?m = bs'" "file_wf C ?m" using wf_file [OF assms(3) i] by blast
    obtain rc d1 where 1: "file_load io ?m d = Some (rc, d1)" "reads C d d1" "up (world d) \<longrightarrow> rc = GS_OK"
      "rc = GS_OK \<longrightarrow> opened d1 (m_num ?m) = Some (loaded_of bs' hs')" using file_load_spec [OF assms(1) c'(1)] by blast
    let ?s = "s\<lparr>s_rc := rc\<rparr>"
    have run: "next_loop io fi bi s d = (if rc \<noteq> GS_OK then Some (?s\<lparr>s_valid := False\<rparr>, d1) else next_loop io (Suc fi) 0 ?s d1)"
      using more nl 1(1) by (subst next_loop.simps) (simp add: f)
    show ?thesis
    proof (cases "rc = GS_OK")
      case False
      then have "went C s L p (?s\<lparr>s_valid := False\<rparr>) d1" for p using assms(4) by (simp add: went_def same_src_def ahead_ok_def)
      then show ?thesis using run False 1 by auto
    next
      case True
      have s: "?s = s" using True assms(5) by simp
      have g: "good C d1" using 1(2) by (simp add: reads_def)
      have op: "opened d1 (m_num ?m) \<noteq> None" using 1(4) True by simp
      have "0 < length (blocks_at C ?m)" using c'(3) by (simp add: file_wf_def)
      from next_in_file [OF g assms(2-6) i op this] obtain s' d' where n: "next_loop io (Suc fi) 0 s d1 = Some (s', d')" "reads C d1 d'"
        "up (world d1) \<longrightarrow> s_rc s' = GS_OK" "went C s L (place C ms (Suc fi) 0 0) s' d'" by blast
      have "next_loop io fi bi s d = Some (s', d')" using run n(1) unfolding s using True by simp
      then show ?thesis using n(2-4) reads_trans [OF 1(2)] reads_up [OF 1(2)] pl by auto
    qed
  qed
qed

lemma next_spec:
  assumes "good C d" "src_at C s d L p" "s_valid s"
  shows "\<exists>s' d'. src_next io s d = Some (s', d') \<and> reads C d d' \<and> (up (world d) \<longrightarrow> s_rc s' = GS_OK) \<and> went C s L (p + 1) s' d'"
proof (cases "s_kind s")
  case (SK sk)
  then have k: "in_skip sk L (s_node s) p" "p < length L" using assms(2,3) by (simp_all add: src_at_def)
  then obtain n where n: "s_node s = Some n" using in_skip_end by blast
  note x = in_skip_next [OF k(1) [unfolded n]]
  let ?n = "nexts (nodes sk ! n) ! 0"
  have "src_next io s d = Some (s\<lparr>s_node := ?n, s_valid := (?n \<noteq> None)\<rparr>, d)" using assms(3) SK n by (simp add: src_next_def Let_def)
  moreover have "went C s L (p + 1) (s\<lparr>s_node := ?n, s_valid := (?n \<noteq> None)\<rparr>) d"
    using assms(2) SK x(1,2) in_skip_end [OF x(2)] by (auto simp: went_def src_at_def same_src_def ahead_ok_def)
  ultimately show ?thesis using reads_refl [OF assms(1)] assms(2) by (auto simp: src_at_def)
next
  case (FILES ms)
  let ?fi = "s_fi s" and ?bi = "s_bi s"
  have a: "src_list C (FILES ms) L" "ahead_ok C s" "s_rc s = GS_OK" "in_file C ms s d p" using assms(2,3) FILES by (auto simp: src_at_def)
  then have f: "?fi < length ms" "?bi < length (blocks_at C (ms ! ?fi))" "s_blk s = blocks_at C (ms ! ?fi) ! ?bi" "s_ei s < length (s_blk s)"
    "p = place C ms ?fi ?bi (s_ei s)" "opened d (m_num (ms ! ?fi)) \<noteq> None" using FILES by (auto simp: in_file_def at_block_def)
  let ?s = "s\<lparr>s_ei := s_ei s + 1\<rparr>"
  show ?thesis
  proof (cases "s_ei s + 1 < length (s_blk s)")
    case True
    have p: "p + 1 = place C ms ?fi ?bi (s_ei s + 1)" using f(5) by (simp add: place_def)
    then have "p + 1 < length L" using place_nth(1) [OF f(1,2)] True f(3) a(1) by simp
    then have "went C s L (p + 1) ?s d" using a f p True assms(3) FILES
      by (auto simp: went_def src_at_def same_src_def ahead_ok_def in_file_def at_block_def)
    moreover have "src_next io s d = Some (?s, d)" using True assms(3) FILES by (simp add: src_next_def)
    ultimately show ?thesis using reads_refl [OF assms(1)] a(3) by auto
  next
    case False
    then have e: "s_ei s + 1 = length (blocks_at C (ms ! ?fi) ! ?bi)" using f(3,4) by simp
    have p: "p + 1 = place C ms ?fi (Suc ?bi) 0" using place_block [OF f(2)] f(5) e by (simp add: place_def)
    have run: "src_next io s d = next_loop io ?fi (Suc ?bi) ?s d" using False assms(3) FILES by (simp add: src_next_def)
    have s: "s_kind ?s = FILES ms" "ahead_ok C ?s" "s_rc ?s = GS_OK" "s_valid ?s" using FILES a assms(3) by (simp_all add: ahead_ok_def)
    have "Suc ?bi \<le> length (blocks_at C (ms ! ?fi))" using f(2) by simp
    from next_loop_spec [OF assms(1) s(1) a(1) s(2-4) f(1,6) this] show ?thesis
      unfolding run p by (auto simp: went_def same_src_def)
  qed
qed

end

section \<open>The last entry before a key\<close>

text \<open>The outcome of \<^verbatim>\<open>src_seek_lt\<close>, \<open>b\<close> entries being before the key.\<close>

definition went_lt :: "shelf \<Rightarrow> src \<Rightarrow> ent list \<Rightarrow> nat \<Rightarrow> src \<Rightarrow> ('w, 'f) db \<Rightarrow> bool" where
  "went_lt C s L b s' d' \<longleftrightarrow> same_src s s' \<and> ahead_ok C s' \<and> (if s_rc s' = GS_OK \<and> b \<noteq> 0 then src_at C s' d' L (b - 1) \<and> s_valid s' else \<not> s_valid s')"

lemma went_to_lt: "went C s L (b - 1) (s'\<lparr>s_valid := True\<rparr>) d' \<Longrightarrow> s_rc s' = GS_OK \<Longrightarrow> b \<noteq> 0 \<Longrightarrow> went_lt C s L b (s'\<lparr>s_valid := True\<rparr>) d'"
  by (simp add: went_def went_lt_def)

lemma failed_lt: "went C s L p s' d' \<Longrightarrow> s_rc s' \<noteq> GS_OK \<Longrightarrow> went_lt C s L b s' d'"
  by (simp add: went_def went_lt_def)

context reads_layer
begin

text \<open>The block \<open>bi\<close>, entered at its end.\<close>

lemma enter_back:
  assumes "good C d" "s_kind s = FILES ms" "src_list C (FILES ms) L" "ahead_ok C s0" "same_src s s0" "s_rc s0 = GS_OK" "fi < length ms"
    "bi < length (blocks_at C (ms ! fi))"
  shows "\<exists>rc s' d'. src_load io fi bi s0 d = Some (rc, s', d') \<and> reads C d d' \<and> (up (world d) \<longrightarrow> rc = GS_OK) \<and>
    (if rc = GS_OK then s_blk s' \<noteq> [] \<and> s_rc s' = GS_OK \<and> went_lt C s L (place C ms fi (Suc bi) 0) (s'\<lparr>s_ei := length (s_blk s') - 1, s_valid := True\<rparr>) d'
     else s_rc s' = rc \<and> went_lt C s L b s' d')"
proof -
  obtain bs hs where c: "C (m_num (ms ! fi)) = Some (bs, hs)" "blocks_at C (ms ! fi) = bs" using wf_file [OF assms(3,7)] by blast
  have k: "files_of (s_kind s0) ! fi = ms ! fi" using assms(2,5) by (simp add: same_src_def)
  have ld: "\<exists>rc s' d'. src_load io fi bi s0 d = Some (rc, s', d') \<and> reads C d d' \<and> (up (world d) \<longrightarrow> rc = GS_OK) \<and>
      block_loaded C s0 fi bi rc s' \<and> (rc = GS_OK \<longrightarrow> opened d' (m_num (ms ! fi)) \<noteq> None)"
    using src_load_spec [OF assms(1,4), of fi bs hs bi] c assms(8) k by simp
  obtain rc s' d' where l: "src_load io fi bi s0 d = Some (rc, s', d')" "reads C d d'" "up (world d) \<longrightarrow> rc = GS_OK" "block_loaded C s0 fi bi rc s'"
    "if rc = GS_OK then s_blk s' = blocks_at C (ms ! fi) ! bi \<and> s_blk s' \<noteq> [] \<and> s_valid s' = s_valid s0 \<and> s_rc s' = GS_OK \<and>
       (\<forall>ei < length (s_blk s'). went C s L (place C ms fi bi ei) (s'\<lparr>s_ei := ei, s_valid := True\<rparr>) d')
     else s_rc s' \<noteq> GS_OK \<and> went C s L 0 s' d'"
    using ld load_went [OF ld assms(5,2,3,6,7,8), of 0] by (metis option.inject prod.inject)
  show ?thesis
  proof (cases "rc = GS_OK")
    case False
    then show ?thesis using l failed_lt by (auto simp: block_loaded_def)
  next
    case True
    then have b: "s_blk s' = blocks_at C (ms ! fi) ! bi" "s_blk s' \<noteq> []" "s_rc s' = GS_OK" using l(5) by auto
    let ?e = "length (s_blk s') - 1"
    have e: "?e < length (s_blk s')" using b(2) by simp
    have p: "place C ms fi (Suc bi) 0 - 1 = place C ms fi bi ?e" "place C ms fi (Suc bi) 0 \<noteq> 0"
    proof -
      have "place C ms fi (Suc bi) 0 = place C ms fi bi 0 + length (s_blk s')"
        using place_block [OF assms(8)] unfolding b(1) by (simp only: place_def)
      moreover have "place C ms fi bi ?e = place C ms fi bi 0 + ?e" by (simp only: place_def)
      ultimately show "place C ms fi (Suc bi) 0 - 1 = place C ms fi bi ?e" "place C ms fi (Suc bi) 0 \<noteq> 0" using e by linarith+
    qed
    have "went C s L (place C ms fi bi ?e) (s'\<lparr>s_ei := ?e, s_valid := True\<rparr>) d'" using l(5) True e by auto
    then have "went_lt C s L (place C ms fi (Suc bi) 0) (s'\<lparr>s_ei := ?e, s_valid := True\<rparr>) d'" using b(3) p by (simp add: went_def went_lt_def)
    then show ?thesis using l(1-3) True b by auto
  qed
qed

lemma back_loop_spec:
  assumes "good C d" "s_kind s = FILES ms" "src_list C (FILES ms) L" "ahead_ok C s" "s_rc s = GS_OK" "fi < length ms" "bi \<le> length (blocks_at C (ms ! fi))"
  shows "\<exists>s' d'. back_loop io fi bi s d = Some (s', d') \<and> reads C d d' \<and> (up (world d) \<longrightarrow> s_rc s' = GS_OK) \<and> went_lt C s L (place C ms fi bi 0) s' d'"
proof -
  have same: "same_src s s" by (simp add: same_src_def)
  show ?thesis
  proof (cases "0 < bi")
    case True
    then have bj: "bi - 1 < length (blocks_at C (ms ! fi))" "Suc (bi - 1) = bi" using assms(7) by simp_all
    obtain rc s' d' where e: "src_load io fi (bi - 1) s d = Some (rc, s', d')" "reads C d d'" "up (world d) \<longrightarrow> rc = GS_OK"
      "if rc = GS_OK then s_blk s' \<noteq> [] \<and> s_rc s' = GS_OK \<and> went_lt C s L (place C ms fi bi 0) (s'\<lparr>s_ei := length (s_blk s') - 1, s_valid := True\<rparr>) d'
       else s_rc s' = rc \<and> went_lt C s L (place C ms fi bi 0) s' d'"
      using enter_back [OF assms(1-4) same assms(5,6) bj(1), unfolded bj(2)] by blast
    have "back_loop io fi bi s d = (if rc \<noteq> GS_OK then Some (s', d') else if s_blk s' \<noteq> [] then Some (s'\<lparr>s_ei := length (s_blk s') - 1, s_valid := True\<rparr>, d')
        else back_loop io fi (bi - 1) s' d')"
      using True e(1) by (subst back_loop.simps) (simp add: back_step_def)
    then show ?thesis using e by (cases "rc = GS_OK") auto
  next
    case False
    then have b0: "bi = 0" by simp
    show ?thesis
    proof (cases "fi = 0")
      case True
      obtain s1 d1 where 1: "src_unpin_db (s\<lparr>s_valid := False\<rparr>) d = (s1, d1)" by fastforce
      have "back_loop io fi bi s d = Some (s1, d1)" using True b0 1 by (subst back_loop.simps) (simp add: back_step_def)
      moreover have "reads C d d1" using unpin_reads [OF assms(1), of "s\<lparr>s_valid := False\<rparr>"] 1 by simp
      moreover have "s1 = s\<lparr>s_valid := False, s_pin := None, s_blk := []\<rparr>" using 1 by (simp add: src_unpin_db_def)
      moreover have "place C ms fi bi 0 = 0" using True b0 by (simp add: place_def)
      ultimately show ?thesis using assms(4,5) by (auto simp: went_lt_def same_src_def ahead_ok_def)
    next
      case fi: False
      then have i: "fi - 1 < length ms" "Suc (fi - 1) = fi" using assms(6) by simp_all
      let ?m = "ms ! (fi - 1)"
      obtain bs hs where c: "C (m_num ?m) = Some (bs, hs)" "blocks_at C ?m = bs" "file_wf C ?m" using wf_file [OF assms(3) i(1)] by blast
      have pl: "place C ms fi bi 0 = place C ms (fi - 1) (length bs) 0" using place_file [OF i(1), of C] i(2) c(2) b0 by simp
      have ne: "bs \<noteq> []" using c(2,3) by (simp add: file_wf_def)
      obtain rc d1 where 1: "file_load io ?m d = Some (rc, d1)" "reads C d d1" "up (world d) \<longrightarrow> rc = GS_OK"
        "rc = GS_OK \<longrightarrow> opened d1 (m_num ?m) = Some (loaded_of bs hs)" using file_load_spec [OF assms(1) c(1)] by blast
      have k: "files_of (s_kind s) ! (fi - 1) = ?m" using assms(2) by simp
      show ?thesis
      proof (cases "rc = GS_OK")
        case False
        have "back_loop io fi bi s d = Some (s\<lparr>s_rc := rc, s_valid := False\<rparr>, d1)"
          using fi b0 1(1) k False by (subst back_loop.simps) (simp add: back_step_def)
        moreover have "went_lt C s L p (s\<lparr>s_rc := rc, s_valid := False\<rparr>) d1" for p using assms(4) False by (simp add: went_lt_def same_src_def ahead_ok_def)
        ultimately show ?thesis using 1(2,3) False by auto
      next
        case True
        have g1: "good C d1" using 1(2) by (simp add: reads_def)
        have op: "opened d1 (m_num ?m) \<noteq> None" using 1(4) True by simp
        have ix: "length (file_index d1 ?m) = length bs" using good_file(3) [OF g1 c(1) op] by simp
        have s: "s\<lparr>s_rc := GS_OK\<rparr> = s" using assms(5) by simp
        have bj: "length bs - 1 < length (blocks_at C ?m)" "Suc (length bs - 1) = length bs" using ne c(2) by simp_all
        obtain r2 s' d' where e: "src_load io (fi - 1) (length bs - 1) s d1 = Some (r2, s', d')" "reads C d1 d'" "up (world d1) \<longrightarrow> r2 = GS_OK"
          "if r2 = GS_OK then s_blk s' \<noteq> [] \<and> s_rc s' = GS_OK \<and> went_lt C s L (place C ms fi bi 0) (s'\<lparr>s_ei := length (s_blk s') - 1, s_valid := True\<rparr>) d'
           else s_rc s' = r2 \<and> went_lt C s L (place C ms fi bi 0) s' d'"
          using enter_back [OF g1 assms(2-4) same assms(5) i(1) bj(1), unfolded bj(2), folded pl] by blast
        have "back_loop io fi bi s d = (if r2 \<noteq> GS_OK then Some (s', d') else if s_blk s' \<noteq> [] then Some (s'\<lparr>s_ei := length (s_blk s') - 1, s_valid := True\<rparr>, d')
            else back_loop io (fi - 1) (length bs - 1) s' d')"
        proof -
          have "file_index d1 ?m \<noteq> []" using ix ne by auto
          then have "back_step io fi bi s d = Some (Some (fi - 1, Some (length bs - 1)), s, d1)"
            using fi b0 1(1) k True ix s by (simp add: back_step_def Let_def)
          then show ?thesis using e(1) by (subst back_loop.simps) simp
        qed
        then show ?thesis using e reads_trans [OF 1(2) e(2)] reads_up [OF 1(2)] by (cases "r2 = GS_OK") auto
      qed
    qed
  qed
qed

lemma seek_lt_spec:
  assumes "good C d" "src_list C (s_kind s) L" "ahead_ok C s" "s_rc s = GS_OK"
  shows "\<exists>s' d'. src_seek_lt io k q s d = Some (s', d') \<and> reads C d d' \<and> (up (world d) \<longrightarrow> s_rc s' = GS_OK) \<and>
    went_lt C s L (length (before (k, q) L)) s' d'"
proof (cases "s_kind s")
  case (SK sk)
  then have "holds sk L" using assms(2) by simp
  from in_skip_lt [OF this] obtain n where n: "sk_lt sk k q = Some n"
    "if before (k, q) L = [] then n = None else n \<noteq> None \<and> in_skip sk L n (length (before (k, q) L) - 1)" by blast
  let ?s = "s\<lparr>s_node := n, s_valid := (n \<noteq> None)\<rparr>"
  have run: "src_seek_lt io k q s d = Some (?s, d)" using n(1) SK by (simp add: src_seek_lt_def)
  have "went_lt C s L (length (before (k, q) L)) ?s d"
  proof (cases "before (k, q) L = []")
    case True
    then show ?thesis using n(2) assms(3) by (simp add: went_lt_def same_src_def ahead_ok_def)
  next
    case False
    then have nn: "n \<noteq> None" "in_skip sk L n (length (before (k, q) L) - 1)" using n(2) by simp_all
    then show ?thesis using False assms(2-4) SK in_skip_end [OF nn(2)] by (auto simp: went_lt_def src_at_def same_src_def ahead_ok_def)
  qed
  then show ?thesis using run reads_refl [OF assms(1)] assms(4) by auto
next
  case (FILES ms)
  let ?b = "length (before (k, q) L)"
  let ?s = "s\<lparr>s_valid := False\<rparr>"
  have L: "src_list C (FILES ms) L" "L = stream C ms" using assms(2) FILES by auto
  have a: "src_list C (s_kind ?s) L" "ahead_ok C ?s" "s_rc ?s = GS_OK" using assms by (simp_all add: ahead_ok_def)
  from seek_spec [OF assms(1) a, of k q] obtain s1 d1 where 1: "src_seek io k q ?s d = Some (s1, d1)" "reads C d d1" "up (world d) \<longrightarrow> s_rc s1 = GS_OK"
    "went C ?s L ?b s1 d1" by blast
  have w1: "went C s L ?b s1 d1" using 1(4) by (simp add: went_def same_src_def)
  have g1: "good C d1" using 1(2) by (simp add: reads_def)
  show ?thesis
  proof (cases "s_rc s1 = GS_OK")
    case False
    then have "src_seek_lt io k q s d = Some (s1, d1)" using 1(1) FILES by (simp add: src_seek_lt_def)
    then show ?thesis using 1(2,3) failed_lt [OF w1 False] by auto
  next
    case True
    then have at: "src_at C s1 d1 L ?b" and same: "same_src s s1" using w1 by (simp_all add: went_def)
    have k1: "s_kind s1 = FILES ms" "ahead_ok C s1" using same FILES at by (simp_all add: same_src_def src_at_def)
    show ?thesis
    proof (cases "s_valid s1")
      case v: True
      then have f: "in_file C ms s1 d1 ?b" using at k1(1) unfolding src_at_def by auto
      let ?fi = "s_fi s1" and ?bi = "s_bi s1"
      have p: "?fi < length ms" "?bi < length (blocks_at C (ms ! ?fi))" "?b = place C ms ?fi ?bi (s_ei s1)" using f by (simp_all add: in_file_def)
      show ?thesis
      proof (cases "0 < s_ei s1")
        case ei: True
        let ?s1 = "s1\<lparr>s_ei := s_ei s1 - 1\<rparr>"
        have "src_seek_lt io k q s d = Some (?s1, d1)" using 1(1) FILES True v ei by (simp add: src_seek_lt_def)
        moreover have b: "?b \<noteq> 0" "?b - 1 = place C ms ?fi ?bi (s_ei s1 - 1)" using p(3) ei by (simp_all add: place_def)
        moreover have "in_file C ms ?s1 d1 (?b - 1)" using f ei unfolding b(2) by (auto simp: in_file_def at_block_def)
        then have "src_at C ?s1 d1 L (?b - 1)" using at k1 v b(1) by (auto simp: src_at_def ahead_ok_def)
        ultimately show ?thesis using 1(2,3) True v same k1(2) by (auto simp: went_lt_def same_src_def ahead_ok_def)
      next
        case False
        have run: "src_seek_lt io k q s d = back_loop io ?fi ?bi s1 d1" using 1(1) FILES True v False by (simp add: src_seek_lt_def)
        have pb: "?b = place C ms ?fi ?bi 0" using p(3) False by simp
        have "?bi \<le> length (blocks_at C (ms ! ?fi))" using p(2) by simp
        from back_loop_spec [OF g1 k1(1) L(1) k1(2) True p(1) this] obtain s' d' where "back_loop io ?fi ?bi s1 d1 = Some (s', d')" "reads C d1 d'"
          "up (world d1) \<longrightarrow> s_rc s' = GS_OK" "went_lt C s1 L (place C ms ?fi ?bi 0) s' d'" by blast
        then show ?thesis using run pb reads_trans [OF 1(2)] reads_up [OF 1(2)] same by (auto simp: went_lt_def same_src_def)
      qed
    next
      case nv: False
      then have b: "?b = length L" using at by (simp add: src_at_def)
      have run: "src_seek_lt io k q s d = last_file io (rev [0..<length ms]) s1 d1" using 1(1) FILES True nv by (simp add: src_seek_lt_def)
      show ?thesis
      proof (cases "ms = []")
        case none: True
        then have "?b = 0" using b L(2) by simp
        moreover have "src_seek_lt io k q s d = Some (s1, d1)" using run none by simp
        ultimately show ?thesis using 1(2,3) same k1(2) nv by (auto simp: went_lt_def)
      next
        case some: False
        define fi where "fi = length ms - 1"
        have i: "fi < length ms" "length ms = Suc fi" using some by (simp_all add: fi_def)
        let ?m = "ms ! fi"
        obtain bs hs where c: "C (m_num ?m) = Some (bs, hs)" "blocks_at C ?m = bs" "file_wf C ?m" using wf_file [OF L(1) i(1)] by blast
        have ne: "bs \<noteq> []" using c(2,3) by (simp add: file_wf_def)
        define bi where "bi = length bs - 1"
        have bi: "bi < length (blocks_at C ?m)" "length bs = Suc bi" using ne c(2) by (simp_all add: bi_def)
        have pl: "?b = place C ms fi (Suc bi) 0" using b L(2) place_end [of C ms] place_file [OF i(1), of C] bi(2) i(2) c(2) by simp
        obtain rc d2 where 2: "file_load io ?m d1 = Some (rc, d2)" "reads C d1 d2" "up (world d1) \<longrightarrow> rc = GS_OK"
          "rc = GS_OK \<longrightarrow> opened d2 (m_num ?m) = Some (loaded_of bs hs)" using file_load_spec [OF g1 c(1)] by blast
        have r2: "reads C d d2" and g2: "good C d2" using reads_trans [OF 1(2) 2(2)] by (simp_all add: reads_def)
        have seq: "rev [0..<length ms] = fi # rev [0..<fi]" "rev [0..<length bs] = bi # rev [0..<bi]" using i(2) bi(2) by simp_all
        have kf: "files_of (s_kind s1) ! fi = ?m" using k1(1) by simp
        show ?thesis
        proof (cases "rc = GS_OK")
          case False
          have "src_seek_lt io k q s d = Some (s1\<lparr>s_rc := rc\<rparr>, d2)" using run seq(1) 2(1) kf False by simp
          moreover have "went_lt C s L ?b (s1\<lparr>s_rc := rc\<rparr>) d2" using same k1(2) nv False by (simp add: went_lt_def same_src_def ahead_ok_def)
          moreover have "\<not> up (world d)" using 2(3) False reads_up [OF 1(2)] by blast
          ultimately show ?thesis using r2 by auto
        next
          case ok: True
          have op: "opened d2 (m_num ?m) \<noteq> None" using 2(4) ok by simp
          have ix: "length (file_index d2 ?m) = length bs" using good_file(3) [OF g2 c(1) op] by simp
          have s1: "s1\<lparr>s_rc := GS_OK\<rparr> = s1" using True by simp
          obtain r3 s' d' where e: "src_load io fi bi s1 d2 = Some (r3, s', d')" "reads C d2 d'" "up (world d2) \<longrightarrow> r3 = GS_OK"
            "if r3 = GS_OK then s_blk s' \<noteq> [] \<and> s_rc s' = GS_OK \<and> went_lt C s L ?b (s'\<lparr>s_ei := length (s_blk s') - 1, s_valid := True\<rparr>) d'
             else s_rc s' = r3 \<and> went_lt C s L ?b s' d'"
            using enter_back [OF g2 FILES L(1) k1(2) same True i(1) bi(1), folded pl] by blast
          have "src_seek_lt io k q s d = (if r3 \<noteq> GS_OK then Some (s', d') else if s_blk s' \<noteq> [] then Some (s'\<lparr>s_ei := length (s_blk s') - 1, s_valid := True\<rparr>, d')
              else Option.bind (last_block io fi (rev [0..<bi]) s' d') (\<lambda>(found, s, d). if found then Some (s, d) else last_file io (rev [0..<fi]) s d))"
            using run seq 2(1) kf ok ix e(1) s1 by simp
          then show ?thesis using e reads_trans [OF r2 e(2)] reads_up [OF r2] by (cases "r3 = GS_OK") auto
        qed
      qed
    qed
  qed
qed

end

end
