(* ===== verification/Source_Sim.thy ===== *)
theory Source_Sim
  imports Source_Props Sorted_File_Sim
begin

text \<open>
  Scans with the iterators of \<^verbatim>\<open>src/gsql/lsm.c\<close>, over the layers that keep what is stored and, by the
  interpretation of \<open>Sorted_File_Sim\<close>, over the simulated one: a scan gives the entries from its key on, in
  order, and a scan that fails says so.
\<close>

section \<open>Scans\<close>

text \<open>At most \<open>n\<close> entries, from where the source stands.\<close>

primrec src_scan :: "('w, 'f, 'c) io_ops \<Rightarrow> nat \<Rightarrow> src \<Rightarrow> ('w, 'f) db \<Rightarrow> (ent list \<times> src \<times> ('w, 'f) db) option" where
  "src_scan io 0 s d = Some ([], s, d)"
| "src_scan io (Suc n) s d =
     (if \<not> s_valid s then Some ([], s, d)
      else do { (s', d) \<leftarrow> src_next io s d; (es, t, d) \<leftarrow> src_scan io n s' d; Some (src_ent s # es, t, d) })"

lemma drop_before: "sorted_ents L \<Longrightarrow> drop (length (before t L)) L = filter (\<lambda>e. \<not> key_lt (key_of e) t) L"
proof (induction L)
  case (Cons e L)
  have s: "sorted_ents L" "\<And>x. x \<in> set L \<Longrightarrow> \<not> key_lt (key_of x) (key_of e)" using Cons.prems by (auto simp: sorted_ents_def)
  show ?case
  proof (cases "key_lt (key_of e) t")
    case True
    then show ?thesis using Cons.IH [OF s(1)] by (simp add: before_def)
  next
    case False
    have "\<not> key_lt (key_of x) t" if "x \<in> set L" for x using s(2) [OF that] False not_key_lt key_lt_trans by metis
    then show ?thesis using False by (simp add: before_def)
  qed
qed (simp add: before_def)

lemma before_filter: "sorted_ents L \<Longrightarrow> before t L = filter (\<lambda>e. key_lt (key_of e) t) L"
proof (induction L)
  case (Cons e L)
  have s: "sorted_ents L" "\<And>x. x \<in> set L \<Longrightarrow> \<not> key_lt (key_of x) (key_of e)" using Cons.prems by (auto simp: sorted_ents_def)
  show ?case
  proof (cases "key_lt (key_of e) t")
    case True
    then show ?thesis using Cons.IH [OF s(1)] by (simp add: before_def)
  next
    case False
    have "\<not> key_lt (key_of x) t" if "x \<in> set L" for x using s(2) [OF that] False not_key_lt key_lt_trans by metis
    then show ?thesis using False by (simp add: before_def)
  qed
qed (simp add: before_def)

context reads_layer
begin

lemma scan_spec:
  assumes "good C d" "went C s0 L p s d" "length L - p < n"
  shows "\<exists>es s' d'. src_scan io n s d = Some (es, s', d') \<and> reads C d d' \<and> prefix es (drop p L) \<and> (s_rc s' = GS_OK \<longrightarrow> es = drop p L) \<and>
    (up (world d) \<longrightarrow> s_rc s = GS_OK \<longrightarrow> s_rc s' = GS_OK) \<and> \<not> s_valid s'"
  using assms
proof (induction n arbitrary: s0 p s d)
  case (Suc n)
  show ?case
  proof (cases "s_valid s")
    case False
    then have "s_rc s = GS_OK \<Longrightarrow> length L \<le> p" using Suc.prems(2) by (auto simp: went_def src_at_def split: if_splits)
    then show ?thesis using False reads_refl [OF Suc.prems(1)] by auto
  next
    case True
    then have at: "src_at C s d L p" using Suc.prems(2) by (auto simp: went_def split: if_splits)
    have p: "p < length L" "src_ent s = L ! p" using src_ent_at [OF at True] by simp_all
    obtain s1 d1 where 1: "src_next io s d = Some (s1, d1)" "reads C d d1" "up (world d) \<longrightarrow> s_rc s1 = GS_OK" "went C s L (p + 1) s1 d1"
      using next_spec [OF Suc.prems(1) at True] by blast
    have g1: "good C d1" using 1(2) by (simp add: reads_def)
    have "length L - (p + 1) < n" using Suc.prems(3) p(1) by simp
    from Suc.IH [OF g1 1(4) this] obtain es s' d' where i: "src_scan io n s1 d1 = Some (es, s', d')" "reads C d1 d'" "prefix es (drop (p + 1) L)"
      "s_rc s' = GS_OK \<longrightarrow> es = drop (p + 1) L" "up (world d1) \<longrightarrow> s_rc s1 = GS_OK \<longrightarrow> s_rc s' = GS_OK" "\<not> s_valid s'" by blast
    have dp: "drop p L = L ! p # drop (p + 1) L" using p(1) by (simp add: Cons_nth_drop_Suc)
    have "src_scan io (Suc n) s d = Some (L ! p # es, s', d')" using True 1(1) i(1) p(2) by simp
    then show ?thesis unfolding dp using i(2-6) 1(3) reads_trans [OF 1(2) i(2)] reads_up [OF 1(2)] by auto
  qed
qed simp

lemma range_scan:
  assumes "good C d" "src_list C (s_kind s) L" "ahead_ok C s" "s_rc s = GS_OK" "length L < n"
  shows "\<exists>s1 d1 es s2 d2. src_seek io k q s d = Some (s1, d1) \<and> src_scan io n s1 d1 = Some (es, s2, d2) \<and> good C d2 \<and>
    prefix es (filter (\<lambda>e. \<not> key_lt (key_of e) (k, q)) L) \<and> (s_rc s2 = GS_OK \<longrightarrow> es = filter (\<lambda>e. \<not> key_lt (key_of e) (k, q)) L) \<and>
    (up (world d) \<longrightarrow> s_rc s2 = GS_OK)"
proof -
  from seek_spec [OF assms(1-4), of k q] obtain s1 d1 where 1: "src_seek io k q s d = Some (s1, d1)" "reads C d d1"
    "up (world d) \<longrightarrow> s_rc s1 = GS_OK" "went C s L (length (before (k, q) L)) s1 d1" by blast
  have g1: "good C d1" using 1(2) by (simp add: reads_def)
  have "length L - length (before (k, q) L) < n" using assms(5) by simp
  from scan_spec [OF g1 1(4) this] obtain es s2 d2 where 2: "src_scan io n s1 d1 = Some (es, s2, d2)" "reads C d1 d2"
    "prefix es (drop (length (before (k, q) L)) L)" "s_rc s2 = GS_OK \<longrightarrow> es = drop (length (before (k, q) L)) L"
    "up (world d1) \<longrightarrow> s_rc s1 = GS_OK \<longrightarrow> s_rc s2 = GS_OK" by blast
  have "good C d2" using 2(2) by (simp add: reads_def)
  then show ?thesis using 1(1,3) 2(1,3-5) reads_up [OF 1(2)] drop_before [OF src_list_sorted [OF assms(2)]] by metis
qed

lemma last_before:
  assumes "good C d" "src_list C (s_kind s) L" "ahead_ok C s" "s_rc s = GS_OK"
  shows "\<exists>s' d'. src_seek_lt io k q s d = Some (s', d') \<and> good C d' \<and> (up (world d) \<longrightarrow> s_rc s' = GS_OK) \<and>
    (s_rc s' = GS_OK \<longrightarrow> (if filter (\<lambda>e. key_lt (key_of e) (k, q)) L = [] then \<not> s_valid s'
       else s_valid s' \<and> src_ent s' = last (filter (\<lambda>e. key_lt (key_of e) (k, q)) L))) \<and> (s_rc s' \<noteq> GS_OK \<longrightarrow> \<not> s_valid s')"
proof -
  let ?b = "before (k, q) L"
  from seek_lt_spec [OF assms, of k q] obtain s' d' where 1: "src_seek_lt io k q s d = Some (s', d')" "reads C d d'"
    "up (world d) \<longrightarrow> s_rc s' = GS_OK" "went_lt C s L (length ?b) s' d'" by blast
  have g: "good C d'" using 1(2) by (simp add: reads_def)
  have v: "s_valid s' \<and> src_ent s' = last ?b" if "s_rc s' = GS_OK" "?b \<noteq> []"
  proof -
    have w: "src_at C s' d' L (length ?b - 1)" "s_valid s'" using 1(4) that by (auto simp: went_lt_def split: if_splits)
    have "?b = take (length ?b) L" unfolding before_def by (rule takeWhile_eq_take)
    then have "last ?b = L ! (length ?b - 1)" using that(2) before_le [of "(k, q)" L]
      by (metis One_nat_def diff_less last_conv_nth length_greater_0_conv less_one nth_take)
    then show ?thesis using src_ent_at [OF w] w(2) by simp
  qed
  have n: "\<not> s_valid s'" if "s_rc s' \<noteq> GS_OK \<or> ?b = []" using 1(4) that by (auto simp: went_lt_def split: if_splits)
  show ?thesis using 1(1,3) g v n unfolding before_filter [OF src_list_sorted [OF assms(2)], symmetric] by auto
qed

end

section \<open>On the simulated layer\<close>

abbreviation sim_good :: "shelf \<Rightarrow> (sim, sim_file) db \<Rightarrow> bool" where
  "sim_good \<equiv> db_ok sim_fits names_good (\<lambda>p s. gsql_io_sim_contents s p)"

text \<open>C37. A scan reads what is stored. A source over the memtable, or over sorted files on the simulated disk
  read through handles that come and go, the block cache and the read ahead, is moved to a key and stepped
  to its end: it gives the entries at or after that key, each of them once and in order. If the layer fails
  on the way the scan says so and what it gave is the beginning of that list, so an end without an error is
  the end of the data; and on a layer that does not fail there is no error.\<close>

theorem scan_reads_the_store:
  assumes "sim_good C d" "src_list C (s_kind s) L" "ahead_ok C s" "s_rc s = GS_OK" "length L < n"
  shows "\<exists>s1 d1 es s2 d2. src_seek sim_io k q s d = Some (s1, d1) \<and> src_scan sim_io n s1 d1 = Some (es, s2, d2) \<and> sim_good C d2 \<and>
    prefix es (filter (\<lambda>e. \<not> key_lt (key_of e) (k, q)) L) \<and> (s_rc s2 = GS_OK \<longrightarrow> es = filter (\<lambda>e. \<not> key_lt (key_of e) (k, q)) L) \<and>
    (healthy (world d) \<longrightarrow> s_rc s2 = GS_OK)"
  using sim_reads.range_scan [OF assms] .

text \<open>A store with one sorted file, the file of \<open>sample_entries\<close>.\<close>

definition stored_meta :: file_meta where
  "stored_meta =
     \<lparr>m_num = 3, m_size = 0, m_entries = 3, m_smallest = [1, 2], m_largest = [3], m_small_seq = 9, m_large_seq = 5, m_seq_over = 0,
      m_blobs = [], m_own_blob = 0\<rparr>"

definition stored_hashes :: "u64 list" where
  "stored_hashes = map (\<lambda>e. key_hash64 (e_key e)) sample_entries"

definition stored_image :: bytes where
  "stored_image = file_image (db_identity sample_engine) 3 [sample_entries] stored_hashes"

definition stored_db :: "(sim, sim_file) db" where
  "stored_db =
     \<lparr>world = gsql_io_sim\<lparr>inodes := [\<lparr>durable = [], view = stored_image, lock_holder = None\<rparr>], view_names := [(file_name sample_engine 3, Some 0)]\<rparr>,
      eng = sample_engine, hnds = [], max_open = 1, opened = (\<lambda>_. None), blocks_cached = [], cache_room = 4096, blob_checked = []\<rparr>"

definition stored_shelf :: shelf where
  "stored_shelf = [3 \<mapsto> ([sample_entries], stored_hashes)]"

lemma stored_good: "sim_good stored_shelf stored_db" "healthy (world stored_db)"
proof -
  have "weight (concat [sample_entries]) < 2 ^ 28" "length (db_identity sample_engine) = 16" "[] \<notin> set [sample_entries]"
    "length stored_hashes \<le> length (concat [sample_entries])"
    by (simp_all add: sample_entries_def sample_engine_def stored_hashes_def)
  then have "length stored_image < 2 ^ 29" unfolding stored_image_def using image_weight [of "[sample_entries]" stored_hashes "db_identity sample_engine" 3] by simp
  then show "sim_good stored_shelf stored_db" "healthy (world stored_db)"
    by (simp_all add: db_ok_def shelf_ok_def hnds_ok_def stored_db_def stored_shelf_def stored_image_def healthy_def names_good_def gsql_io_sim_def
        gsql_io_sim_contents_def sample_engine_def)
qed

lemma stored_list: "src_list stored_shelf (FILES [stored_meta]) sample_entries"
  by (simp add: file_wf_def blocks_at_def stored_shelf_def stored_meta_def ents_def stamped_def eseq_def sample_entries_def sorted_ents_def key_lt_def key_of_def)

lemma new_src_fields [simp]: "s_kind (new_src kd p) = kd" "s_rc (new_src kd p) = GS_OK" "ahead_ok C (new_src kd p)"
  by (simp_all add: new_src_def ahead_ok_def)

lemma scan_reads_the_store_witness:
  "\<exists>s1 d1 s2 d2. src_seek sim_io [1, 2] 8 (new_src (FILES [stored_meta]) False) stored_db = Some (s1, d1) \<and>
     src_scan sim_io 4 s1 d1 = Some (drop 1 sample_entries, s2, d2) \<and> s_rc s2 = GS_OK"
proof -
  have f: "filter (\<lambda>e. \<not> key_lt (key_of e) ([1, 2], 8)) sample_entries = drop 1 sample_entries"
    by (simp add: sample_entries_def key_lt_def key_of_def)
  have "length sample_entries < 4" by (simp add: sample_entries_def)
  from scan_reads_the_store [OF stored_good(1), of "new_src (FILES [stored_meta]) False", unfolded new_src_fields(1,2), OF stored_list new_src_fields(3) refl this, of "[1, 2]" 8]
  show ?thesis using stored_good(2) unfolding f by blast
qed

text \<open>C38. Reading backwards: a source moved before a key stands at the last entry before it, whether that is
  in the block the search ended in, in the one before, in the file before or at the very end; it stands
  nowhere when there is none, and after a failure, which it reports.\<close>

theorem seek_lt_finds_the_last_before:
  assumes "sim_good C d" "src_list C (s_kind s) L" "ahead_ok C s" "s_rc s = GS_OK"
  shows "\<exists>s' d'. src_seek_lt sim_io k q s d = Some (s', d') \<and> sim_good C d' \<and> (healthy (world d) \<longrightarrow> s_rc s' = GS_OK) \<and>
    (s_rc s' = GS_OK \<longrightarrow> (if filter (\<lambda>e. key_lt (key_of e) (k, q)) L = [] then \<not> s_valid s'
       else s_valid s' \<and> src_ent s' = last (filter (\<lambda>e. key_lt (key_of e) (k, q)) L))) \<and> (s_rc s' \<noteq> GS_OK \<longrightarrow> \<not> s_valid s')"
  using sim_reads.last_before [OF assms] .

lemma seek_lt_finds_the_last_before_witness:
  "\<exists>s' d'. src_seek_lt sim_io [3] 5 (new_src (FILES [stored_meta]) False) stored_db = Some (s', d') \<and> src_ent s' = sample_entries ! 1"
proof -
  have f: "filter (\<lambda>e. key_lt (key_of e) ([3], 5)) sample_entries = take 2 sample_entries" "take 2 sample_entries \<noteq> []" "last (take 2 sample_entries) = sample_entries ! 1"
    by (simp_all add: sample_entries_def key_lt_def key_of_def)
  from seek_lt_finds_the_last_before [OF stored_good(1), of "new_src (FILES [stored_meta]) False", unfolded new_src_fields(1,2), OF stored_list new_src_fields(3) refl, of "[3]" 5]
  show ?thesis using stored_good(2) f by auto
qed

end
