(* ===== verification/Engine_Reads.thy ===== *)
theory Engine_Reads
  imports Store_Reads
begin

text \<open>
  Reading a transaction's view of the engine of \<^verbatim>\<open>src/gsql/lsm.c\<close>: the version a transaction holds (the
  memtable, a frozen one, the levels of sorted files), its own buffer and spilled runs, point reads
  (\<open>lookup\<close>) and the merging cursor. Statistics are left out.
\<close>

section \<open>Versions and transactions\<close>

definition LEVELS :: nat where "LEVELS = 7"

record tables =
  v_mem :: skip
  v_imm :: "skip option"
  v_files :: "file_meta list list"

text \<open>A tree a transaction has met (its id, 0 if there is none, and a count of changes), a savepoint, and what a
  key was before a change (\<^verbatim>\<open>TreeRef\<close>, \<^verbatim>\<open>SpMark\<close>, \<^verbatim>\<open>UndoEnt\<close>).\<close>

record tree_ref =
  tr_name :: bytes
  tr_id :: u64
  tr_mods :: nat

record sp_mark =
  sp_undo_at :: nat
  sp_ids :: "u64 list"
  sp_nretired :: nat

record txn =
  t_write :: bool
  t_snap :: u64
  t_v :: tables
  t_buf :: skip
  t_retired :: "u64 list"
  t_trees :: "tree_ref list"
  t_cursors :: "nat list"
  t_next_id :: u64
  t_failed :: gs_status
  t_runs :: "file_meta list"
  t_spills :: nat
  t_undo :: "(bytes \<times> bytes option) list"
  t_undo_bytes :: nat
  t_undo_lost :: bool
  t_marks :: "sp_mark list"

text \<open>The sources of a transaction, the newest first; \<open>True\<close> marks its own.\<close>

definition opt_list :: "'a option \<Rightarrow> 'a list" where
  "opt_list x = (case x of None \<Rightarrow> [] | Some y \<Rightarrow> [y])"

definition source_kinds :: "txn \<Rightarrow> (src_kind \<times> bool) list" where
  "source_kinds t =
     (if t_write t then (SK (t_buf t), True) # map (\<lambda>m. (FILES [m], True)) (rev (t_runs t)) else []) @
     (SK (v_mem (t_v t)), False) # map (\<lambda>sk. (SK sk, False)) (opt_list (v_imm (t_v t))) @
     map (\<lambda>m. (FILES [m], False)) (rev (v_files (t_v t) ! 0)) @
     concat (map (\<lambda>l. if v_files (t_v t) ! l \<noteq> [] then [(FILES (v_files (t_v t) ! l), False)] else []) [1..<LEVELS])"

definition txn_sources :: "txn \<Rightarrow> src list" where
  "txn_sources t = map (\<lambda>(kd, priv). new_src kd priv) (source_kinds t)"

section \<open>Point reads\<close>

text \<open>The newest version of a key in a skip list, at or below \<open>q\<close>.\<close>

definition sk_get :: "skip \<Rightarrow> bytes \<Rightarrow> u64 \<Rightarrow> ent option option" where
  "sk_get sk k q = map_option (\<lambda>n. case n of None \<Rightarrow> None | Some a \<Rightarrow> if e_key (nodes sk ! a) = k then Some (sk_ent (nodes sk ! a)) else None) (sk_ge sk k q)"

text \<open>Whether a file's range of keys has \<open>k\<close>.\<close>

definition in_range :: "file_meta \<Rightarrow> bytes \<Rightarrow> bool" where
  "in_range m k \<longleftrightarrow> \<not> (bytes_cmp k (m_smallest m) < 0 \<or> 0 < bytes_cmp k (m_largest m))"

text \<open>
  The newest version of \<open>k\<close>, at or below \<open>q\<close>, in one file whose range has it (the code twice, in
  \<^verbatim>\<open>file_lookup\<close> and \<^verbatim>\<open>lookup\<close>): a deletion as it is, a value read from its blob file if it is there.
\<close>

definition file_find :: "('w, 'f, 'c) io_ops \<Rightarrow> file_meta \<Rightarrow> bytes \<Rightarrow> u64 \<Rightarrow> ('w, 'f) db \<Rightarrow> (gs_status \<times> ent option \<times> ('w, 'f) db) option" where
  "file_find io m k q d = do {
     (rc, d) \<leftarrow> file_load io m d;
     if rc \<noteq> GS_OK then Some (rc, None, d)
     else if \<not> bloom_may (l_bloom (the (opened d (m_num m)))) (l_bits (the (opened d (m_num m)))) k then Some (GS_OK, None, d)
     else do {
       (s, d) \<leftarrow> src_seek io k q (new_src (FILES [m]) False) d;
       if s_rc s \<noteq> GS_OK then Some (s_rc s, None, snd (src_reset s d))
       else if \<not> s_valid s \<or> e_key (src_ent s) \<noteq> k then Some (GS_OK, None, snd (src_reset s d))
       else if e_type (src_ent s) = TYPE_DEL then Some (GS_OK, Some (src_ent s), snd (src_reset s d))
       else let (rc, v, d) = value_of io (src_ent s) d
       in Some (rc, if rc = GS_OK then Some ((src_ent s)\<lparr>e_val := v, e_type := TYPE_PUT\<rparr>) else None, snd (src_reset s d))
     } }"

definition file_lookup :: "('w, 'f, 'c) io_ops \<Rightarrow> file_meta \<Rightarrow> bytes \<Rightarrow> u64 \<Rightarrow> ('w, 'f) db \<Rightarrow> (gs_status \<times> ent option \<times> ('w, 'f) db) option" where
  "file_lookup io m k q d = (if \<not> in_range m k then Some (GS_OK, None, d) else file_find io m k q d)"

text \<open>The first of the files that has the key.\<close>

primrec files_lookup :: "('w, 'f, 'c) io_ops \<Rightarrow> bytes \<Rightarrow> u64 \<Rightarrow> file_meta list \<Rightarrow> ('w, 'f) db \<Rightarrow> (gs_status \<times> ent option \<times> ('w, 'f) db) option" where
  "files_lookup io k q [] d = Some (GS_OK, None, d)"
| "files_lookup io k q (m # ms) d = do {
     (rc, r, d) \<leftarrow> file_lookup io m k q d;
     if rc \<noteq> GS_OK \<or> r \<noteq> None then Some (rc, r, d) else files_lookup io k q ms d }"

text \<open>The files of level \<open>l\<close> a read of \<open>k\<close> looks at: all of level 0, the newest first; of another the first
  whose largest key is not below \<open>k\<close>.\<close>

definition level_files :: "nat \<Rightarrow> file_meta list \<Rightarrow> bytes \<Rightarrow> file_meta list" where
  "level_files l ms k =
     (if l = 0 then rev ms
      else let i = lower_bound (\<lambda>j. bytes_cmp (m_largest (ms ! j)) k < 0) 0 (length ms) in if i < length ms then [ms ! i] else [])"

definition found_answer :: "ent \<Rightarrow> gs_status \<times> ent option" where
  "found_answer e = (if e_type e = TYPE_DEL then (GS_NOT_FOUND, None) else (GS_OK, Some e))"

text \<open>The answer of a search in files, or what comes after it when they have nothing.\<close>

definition or_else ::
  "(gs_status \<times> ent option \<times> ('w, 'f) db) option \<Rightarrow> (('w, 'f) db \<Rightarrow> (gs_status \<times> ent option \<times> ('w, 'f) db) option) \<Rightarrow>
   (gs_status \<times> ent option \<times> ('w, 'f) db) option" where
  "or_else f g = do {
     (rc, r, d) \<leftarrow> f;
     if rc \<noteq> GS_OK then Some (rc, None, d)
     else case r of Some e \<Rightarrow> Some (fst (found_answer e), snd (found_answer e), d) | None \<Rightarrow> g d }"

definition lookup :: "('w, 'f, 'c) io_ops \<Rightarrow> txn \<Rightarrow> bytes \<Rightarrow> ('w, 'f) db \<Rightarrow> (gs_status \<times> ent option \<times> ('w, 'f) db) option" where
  "lookup io t k d =
     or_else (map_option (\<lambda>r. (GS_OK, r, d)) (if t_write t then sk_get (t_buf t) k (- 1) else Some None)) (\<lambda>d.
     or_else (if t_write t then files_lookup io k (- 1) (rev (t_runs t)) d else Some (GS_OK, None, d)) (\<lambda>d.
     or_else (map_option (\<lambda>r. (GS_OK, r, d)) (sk_get (v_mem (t_v t)) k (t_snap t))) (\<lambda>d.
     or_else (map_option (\<lambda>r. (GS_OK, r, d)) (case v_imm (t_v t) of None \<Rightarrow> Some None | Some sk \<Rightarrow> sk_get sk k (t_snap t))) (\<lambda>d.
     or_else (files_lookup io k (t_snap t) (concat (map (\<lambda>l. level_files l (v_files (t_v t) ! l) k) [0..<LEVELS])) d) (\<lambda>d.
     Some (GS_NOT_FOUND, None, d))))))"

end
