(* ===== verification/Engine_Reads_Props.thy ===== *)
theory Engine_Reads_Props
  imports Engine_Reads Source_Sim
begin

text \<open>
  A point read answers with the newest version of a key that its transaction sees. Every part of the store
  a transaction reads (its buffer and runs, the memtables, the levels of files) is a sorted list, and
  \<open>seen\<close> is what it sees of them, the newest part first; \<open>lookup\<close> finds in it, or says why it could not:
  a failure of the layer is never taken for a key that is not there.
\<close>

section \<open>Values\<close>

text \<open>\<open>v\<close> is the value of an entry: its own bytes, or the record its pointer leads to in its blob file.\<close>

definition blob_holds :: "(string \<Rightarrow> 'w \<Rightarrow> bytes option) \<Rightarrow> ('w, 'f) db \<Rightarrow> bytes \<Rightarrow> bytes \<Rightarrow> bool" where
  "blob_holds stored d p v \<longleftrightarrow>
     (\<exists>hdr mid rec post. stored (blob_name (eng d) (get_le (peek 0 8 p))) (world d) = Some (hdr @ mid @ rec @ post) \<and>
        length p = BLOB_PTR \<and> get_le (peek 0 8 p) \<in> set (map fst (blob_checked d)) \<and> length hdr = FHDR \<and>
        fhdr_check (db_identity (eng d)) FK_BLOB (get_le (peek 0 8 p)) hdr = GS_OK \<and> get_nat 8 8 p = length (hdr @ mid) \<and>
        length rec = BLOB_REC (get_nat 16 4 p) \<and> crc32c rec = get_le (peek 20 4 p) \<and> v = drop SEAL rec)"

definition value_is :: "(string \<Rightarrow> 'w \<Rightarrow> bytes option) \<Rightarrow> ('w, 'f) db \<Rightarrow> ent \<Rightarrow> bytes \<Rightarrow> bool" where
  "value_is stored d e v \<longleftrightarrow> (if e_type e = TYPE_BLOB then blob_holds stored d (e_val e) v else v = e_val e)"

context reads_layer
begin

lemma blob_read_spec:
  assumes "ok w" "fits w f (hdr @ mid @ rec @ post)" "length p = BLOB_PTR" "length hdr = FHDR"
    "fhdr_check (db_identity db) FK_BLOB (get_le (peek 0 8 p)) hdr = GS_OK" "get_nat 8 8 p = length (hdr @ mid)"
    "length rec = BLOB_REC (get_nat 16 4 p)" "crc32c rec = get_le (peek 20 4 p)" "blob_read io db p (Some f) ck w = (rc, x, ck', w')"
  shows "calm w w'" "rc = GS_OK \<Longrightarrow> x = drop SEAL rec" "up w \<Longrightarrow> rc = GS_OK"
proof -
  obtain r0 y w0 where 0: "read_exact io f 0 FHDR w = (r0, y, w0)" by (metis prod_cases3)
  have c0: "hdr @ mid @ rec @ post = [] @ hdr @ mid @ rec @ post" by simp
  note h = exact_after [OF calm_refl [OF assms(1)] assms(2) 0 c0 _ assms(4) [symmetric], unfolded list.size(3), OF refl]
  define rA where "rA = (if ck then GS_OK else if r0 = GS_OK then fhdr_check (db_identity db) FK_BLOB (get_le (peek 0 8 p)) y else r0)"
  define wA where "wA = (if ck then w else w0)"
  have A: "calm w wA" "up w \<Longrightarrow> rA = GS_OK" using h calm_refl [OF assms(1)] assms(5) by (auto simp: rA_def wA_def)
  obtain rB b wB where B: "read_exact io f (get_nat 8 8 p) (BLOB_REC (get_nat 16 4 p)) wA = (rB, b, wB)" by (metis prod_cases3)
  have cB: "hdr @ mid @ rec @ post = (hdr @ mid) @ rec @ post" by simp
  note e = exact_after [OF A(1) assms(2) B cB assms(6) assms(7) [symmetric]]
  have off: "\<not> get_nat 8 8 p < FHDR" using assms(4,6) by simp
  have run: "(rc, x, ck', w') = (if rA \<noteq> GS_OK then (rA, [], ck, wA) else if rB \<noteq> GS_OK then (rB, [], True, wB)
      else if crc32c b \<noteq> get_le (peek 20 4 p) then (GS_CORRUPT, [], True, wB) else (GS_OK, drop SEAL b, True, wB))"
    using assms(3,9) 0 B off by (auto simp: blob_read_def Let_def rA_def wA_def split: if_splits)
  show "calm w w'" "rc = GS_OK \<Longrightarrow> x = drop SEAL rec" "up w \<Longrightarrow> rc = GS_OK"
    using run A e assms(8) by (auto split: if_splits)
qed

lemma value_is_reads: "reads C d d' \<Longrightarrow> value_is stored d' e v = value_is stored d e v"
  using calm_stored [of "world d" "world d'"] by (simp add: value_is_def blob_holds_def reads_def kept_def)

lemma hnd_get_some: "hnd_get io name fl d = (IO_OK, f, d') \<Longrightarrow> f \<noteq> None"
proof -
  assume a: "hnd_get io name fl d = (IO_OK, f, d')"
  show ?thesis
  proof (cases "map_of (hnds d) name")
    case None
    then show ?thesis using a by (auto simp: hnd_get_def Let_def split: prod.splits if_splits)
  next
    case (Some h)
    then have "Some h = f" using a by (simp add: hnd_get_def)
    then show ?thesis by auto
  qed
qed

lemma value_of_spec:
  assumes "good C d" "value_is stored d e v" "value_of io e d = (rc, x, d')"
  shows "reads C d d'" "rc = GS_OK \<Longrightarrow> x = v" "up (world d) \<Longrightarrow> rc = GS_OK"
proof -
  have "reads C d d' \<and> (rc = GS_OK \<longrightarrow> x = v) \<and> (up (world d) \<longrightarrow> rc = GS_OK)"
  proof (cases "e_type e = TYPE_BLOB")
    case False
    then show ?thesis using assms reads_refl by (simp add: value_of_def value_is_def)
  next
    case True
    let ?p = "e_val e" and ?num = "get_le (peek 0 8 (e_val e))"
    obtain hdr mid rec post where b: "stored (blob_name (eng d) ?num) (world d) = Some (hdr @ mid @ rec @ post)"
      "length ?p = BLOB_PTR" "?num \<in> set (map fst (blob_checked d))" "length hdr = FHDR"
      "fhdr_check (db_identity (eng d)) FK_BLOB ?num hdr = GS_OK" "get_nat 8 8 ?p = length (hdr @ mid)"
      "length rec = BLOB_REC (get_nat 16 4 ?p)" "crc32c rec = get_le (peek 20 4 ?p)" "v = drop SEAL rec"
      using assms(2) unfolding value_is_def blob_holds_def if_P [OF True] by blast
    obtain ck where ck: "map_of (blob_checked d) ?num = Some ck" using b(3) by (metis list.set_map map_of_eq_None_iff not_None_eq)
    obtain r h d1 where 1: "hnd_get io (blob_name (eng d) ?num) {} d = (r, h, d1)" by (metis prod_cases3)
    have nc: "IO_CREATE \<notin> {}" by simp
    note g = hnd_get_spec [OF assms(1) nc 1]
    show ?thesis
    proof (cases "r = IO_OK")
      case False
      then have "rc = fd_status r" "d' = d1" using assms(3) True b(2) ck 1 by (simp_all add: value_of_def Let_def)
      then show ?thesis using g(1) g(3) [OF b(1)] False fd_status_ok by auto
    next
      case ok: True
      obtain f where f: "h = Some f" using hnd_get_some 1 ok by blast
      obtain r2 y ck' w where 2: "blob_read io (eng d1) ?p (Some f) ck (world d1) = (r2, y, ck', w)" by (metis prod_cases4)
      have d: "rc = r2" "x = y" "d' = d1\<lparr>world := w, blob_checked := map (\<lambda>b. if fst b = ?num then (?num, ck') else b) (blob_checked d1)\<rparr>"
        using assms(3) True b(2) ck 1 ok f 2 by (simp_all add: value_of_def Let_def)
      have e1: "eng d1 = eng d" "good C d1" using g(1) by (simp_all add: reads_def kept_def)
      have ft: "fits (world d1) f (hdr @ mid @ rec @ post)" using g(2) [OF b(1) ok] f by simp
      have ok1: "ok (world d1)" using e1(2) by (simp add: db_ok_def)
      note s = blob_read_spec [OF ok1 ft b(2,4) b(5) [folded e1(1)] b(6-8) 2]
      have "reads C d (d1\<lparr>world := w\<rparr>)" using reads_trans [OF g(1) good_step [OF e1(2) s(1)]] .
      moreover have "map fst (map (\<lambda>b. if fst b = ?num then (?num, ck') else b) (blob_checked d1)) = map fst (blob_checked d1)" by simp
      ultimately have "reads C d d'" using e1(1) unfolding d(3) reads_def kept_def db_ok_def shelf_ok_def by auto
      then show ?thesis using s(2,3) b(9) d(1,2) reads_up [OF g(1)] by auto
    qed
  qed
  then show "reads C d d'" "rc = GS_OK \<Longrightarrow> x = v" "up (world d) \<Longrightarrow> rc = GS_OK" by blast+
qed

end

section \<open>No error says that a key is absent\<close>

lemma io_status_present [simp]: "gs_io_status c \<noteq> GS_NOT_FOUND" "fd_status c \<noteq> GS_NOT_FOUND"
  by (simp_all add: gs_io_status_def fd_status_def)

lemma check_present [simp]: "fhdr_check i kd n p \<noteq> GS_NOT_FOUND" "check_block b \<noteq> GS_NOT_FOUND" "fst (block_of raw) \<noteq> GS_NOT_FOUND"
  by (simp_all add: fhdr_check_def check_block_def block_of_def block_parse_def Let_def split: option.splits prod.splits)

lemma exact_present: "read_exact io f off n w = (rc, x, w') \<Longrightarrow> rc \<noteq> GS_NOT_FOUND"
  by (auto simp: read_exact_def Let_def split: prod.splits if_splits)

lemma fd_present: "file_fd io m d = (rc, f, d') \<Longrightarrow> rc \<noteq> GS_NOT_FOUND"
  by (auto simp: file_fd_def Let_def split: prod.splits if_splits)

lemma parts_present: "file_parts io db num f w = (rc, x) \<Longrightarrow> rc \<noteq> GS_NOT_FOUND"
  by (auto simp: file_parts_def Let_def split: prod.splits if_splits dest: exact_present)

lemma index_present: "index_loop ib stop ioff at acc = Some r \<Longrightarrow> fst r \<noteq> GS_NOT_FOUND"
  by (erule index_loop.raw_induct [rotated]) (auto simp: Let_def split: if_splits option.splits prod.splits)

lemma index_status: "load_index ib bb ioff = Some (rc, l) \<Longrightarrow> rc \<noteq> GS_NOT_FOUND"
  by (auto simp: load_index_def Let_def dest!: index_present split: if_splits)

lemma load_present: "file_load io m d = Some (rc, d') \<Longrightarrow> rc \<noteq> GS_NOT_FOUND"
  by (auto simp: file_load_def Let_def bind_eq_Some_conv dest: fd_present parts_present index_status split: if_splits prod.splits)

lemma fetch_present: "fetch_block io m bi d = (rc, x) \<Longrightarrow> rc \<noteq> GS_NOT_FOUND"
  by (auto simp: fetch_block_def block_load_def Let_def dest: fd_present exact_present split: option.splits prod.splits if_splits sum.splits)

lemma src_load_present: "src_load io fi bi s d = Some (rc, s', d') \<Longrightarrow> rc \<noteq> GS_NOT_FOUND \<and> (s_rc s \<noteq> GS_NOT_FOUND \<longrightarrow> s_rc s' \<noteq> GS_NOT_FOUND)"
  by (auto simp: src_load_def src_unpin_db_def Let_def bind_eq_Some_conv dest: load_present fetch_present split: if_splits prod.splits)

lemma seek_files_present: "seek_files io k q fis s d = Some (s', d') \<Longrightarrow> s_rc s \<noteq> GS_NOT_FOUND \<Longrightarrow> s_rc s' \<noteq> GS_NOT_FOUND"
proof (induction fis arbitrary: s d)
  case (Cons fi fis)
  obtain rc d1 where 1: "file_load io (files_of (s_kind s) ! fi) d = Some (rc, d1)" using Cons.prems(1) by (auto simp: bind_eq_Some_conv Let_def)
  have p: "rc \<noteq> GS_NOT_FOUND" by (rule load_present [OF 1])
  let ?s = "s\<lparr>s_rc := rc\<rparr>"
  have IH: "seek_files io k q fis t e = Some (s', d') \<Longrightarrow> s_rc t \<noteq> GS_NOT_FOUND \<Longrightarrow> s_rc s' \<noteq> GS_NOT_FOUND" for t e
    by (rule Cons.IH)
  show ?case using Cons.prems(1) p unfolding seek_files.simps(2) Let_def 1 bind.simps prod.case
    by (auto simp: bind_eq_Some_conv Let_def dest: src_load_present IH split: if_splits)
qed simp

lemma seek_present: "src_seek io k q s d = Some (s', d') \<Longrightarrow> s_rc s \<noteq> GS_NOT_FOUND \<Longrightarrow> s_rc s' \<noteq> GS_NOT_FOUND"
  by (auto simp: src_seek_def src_unpin_db_def Let_def bind_eq_Some_conv dest: seek_files_present split: src_kind.splits)

lemma blob_present: "blob_read io db p f ck w = (rc, x) \<Longrightarrow> rc \<noteq> GS_NOT_FOUND"
  by (auto simp: blob_read_def Let_def dest: exact_present split: option.splits prod.splits if_splits)

lemma value_present: "value_of io e d = (rc, x) \<Longrightarrow> rc \<noteq> GS_NOT_FOUND"
  by (auto simp: value_of_def Let_def dest: blob_present split: option.splits prod.splits if_splits)

lemma find_present: "file_find io m k q d = Some (rc, x) \<Longrightarrow> rc \<noteq> GS_NOT_FOUND"
proof
  assume a: "file_find io m k q d = Some (rc, x)" and nf: "rc = GS_NOT_FOUND"
  have n: "s_rc (new_src kd p) \<noteq> GS_NOT_FOUND" for kd p by simp
  obtain r1 d1 where 1: "file_load io m d = Some (r1, d1)" using a by (auto simp: file_find_def bind_eq_Some_conv)
  then have "r1 = GS_OK" "bloom_may (l_bloom (the (opened d1 (m_num m)))) (l_bits (the (opened d1 (m_num m)))) k"
    using a nf load_present [OF 1] by (auto simp: file_find_def split: if_splits)
  then obtain s d2 where 2: "src_seek io k q (new_src (FILES [m]) False) d1 = Some (s, d2)" using a 1 by (auto simp: file_find_def bind_eq_Some_conv)
  have "s_rc s \<noteq> GS_NOT_FOUND" by (rule seek_present [OF 2 n])
  then show False using a nf 1 2 load_present [OF 1] by (auto simp: file_find_def Let_def dest: value_present split: if_splits prod.splits)
qed

lemma files_present: "files_lookup io k q ms d = Some (rc, x) \<Longrightarrow> rc \<noteq> GS_NOT_FOUND"
  by (induction ms arbitrary: d) (auto simp: file_lookup_def bind_eq_Some_conv dest: find_present split: if_splits)

section \<open>Searching sorted lists\<close>

lemma find_filter: "find P (filter Q xs) = find (\<lambda>x. Q x \<and> P x) xs"
  by (induction xs) auto

lemma find_append: "find P (xs @ ys) = (case find P xs of None \<Rightarrow> find P ys | Some x \<Rightarrow> Some x)"
  by (induction xs) auto

abbreviation version_at :: "bytes \<Rightarrow> u64 \<Rightarrow> ent \<Rightarrow> bool" where
  "version_at k q e \<equiv> e_key e = k \<and> e_seq e \<le> q"

lemma not_before: "\<not> key_lt (key_of e) (k, q) \<longleftrightarrow> k < e_key e \<or> version_at k q e"
  by (auto simp: key_lt_def key_of_def not_less order_le_less)

lemma find_first:
  assumes "sorted_ents F" "\<forall>e \<in> set F. \<not> key_lt (key_of e) (k, q)"
  shows "find (version_at k q) F = (case F of [] \<Rightarrow> None | e # es \<Rightarrow> if e_key e = k then Some e else None)"
proof (cases F)
  case (Cons e es)
  show ?thesis
  proof (cases "e_key e = k")
    case True
    then show ?thesis using assms(2) not_before [of e k q] Cons by auto
  next
    case False
    then have lt: "k < e_key e" using assms(2) not_before [of e k q] Cons by auto
    have "e_key x \<noteq> k" if "x \<in> set es" for x
    proof
      assume "e_key x = k"
      then have "key_lt (key_of x) (key_of e)" using lt by (simp add: key_lt_def key_of_def)
      then show False using assms(1) that Cons by (auto simp: sorted_ents_def)
    qed
    then have "find (version_at k q) F = None" using False Cons by (auto simp: find_None_iff)
    then show ?thesis using Cons False by simp
  qed
qed simp

lemma sorted_filter: "sorted_ents L \<Longrightarrow> sorted_ents (filter P L)"
  by (simp add: sorted_ents_def sorted_wrt_filter)

lemma find_from:
  assumes "sorted_ents L"
  shows "find (version_at k q) L = (let p = length (before (k, q) L) in if p < length L \<and> e_key (L ! p) = k then Some (L ! p) else None)"
proof -
  let ?p = "length (before (k, q) L)" and ?Q = "\<lambda>e. \<not> key_lt (key_of e) (k, q)"
  have f: "filter ?Q L = drop ?p L" by (rule drop_before [OF assms, symmetric])
  have eq: "(\<lambda>e. ?Q e \<and> version_at k q e) = version_at k q" using not_before by auto
  have "find (version_at k q) L = find (version_at k q) (filter ?Q L)" by (simp only: find_filter eq)
  also have "\<dots> = (case filter ?Q L of [] \<Rightarrow> None | e # es \<Rightarrow> if e_key e = k then Some e else None)"
    by (rule find_first) (use sorted_filter [OF assms] in auto)
  also have "\<dots> = (if ?p < length L \<and> e_key (L ! ?p) = k then Some (L ! ?p) else None)"
    unfolding f by (cases "?p < length L") (simp_all add: Cons_nth_drop_Suc [symmetric])
  finally show ?thesis by (simp add: Let_def)
qed

lemma sk_get_spec: "holds sk L \<Longrightarrow> sk_get sk k q = Some (find (version_at k q) L)"
proof -
  assume h: "holds sk L"
  obtain n where n: "sk_ge sk k q = Some n" "in_skip sk L n (length (before (k, q) L))" "(n \<noteq> None) = (length (before (k, q) L) < length L)"
    using in_skip_ge [OF h] by blast
  have s: "sorted_ents L" using h by (simp add: sorted_ents_def holds_sorted)
  show ?thesis
  proof (cases n)
    case None
    then show ?thesis using n unfolding find_from [OF s] by (simp add: sk_get_def)
  next
    case (Some a)
    then show ?thesis using n in_skip_next(3) [of sk L a] sk_ent_simps(1) [of "nodes sk ! a"] unfolding find_from [OF s]
      by (auto simp: sk_get_def Let_def)
  qed
qed

section \<open>One file\<close>

text \<open>A file as the manifest has it: sorted, with a filter that knows its keys.\<close>

definition file_ok :: "shelf \<Rightarrow> file_meta \<Rightarrow> bool" where
  "file_ok C m \<longleftrightarrow> file_wf C m \<and> sorted_ents (ents C m) \<and> hashes_of (concat (blocks_at C m)) \<subseteq> set (snd (the (C (m_num m))))"

lemma file_okD: "file_ok C m \<Longrightarrow> \<exists>bs hs. C (m_num m) = Some (bs, hs) \<and> blocks_at C m = bs \<and> hashes_of (concat bs) \<subseteq> set hs"
proof -
  assume o: "file_ok C m"
  then obtain x where "C (m_num m) = Some x" by (auto simp: file_ok_def file_wf_def)
  then show ?thesis using o by (cases x) (simp add: file_ok_def blocks_at_def)
qed

lemma file_list: "file_ok C m \<Longrightarrow> src_list C (FILES [m]) (ents C m)"
  by (simp add: file_ok_def)

lemma ents_keys: "e \<in> set (ents C m) \<longleftrightarrow> (\<exists>x \<in> set (concat (blocks_at C m)). e = stamped m x)"
  by (auto simp: ents_def)

lemma stamped_fields [simp]: "e_key (stamped m e) = e_key e" "e_type (stamped m e) = e_type e" "e_val (stamped m e) = e_val e"
  by (simp_all add: stamped_def)

lemma wf_entries: "file_wf C m \<Longrightarrow> concat (blocks_at C m) \<noteq> []"
  by (cases "blocks_at C m") (auto simp: file_wf_def)

lemma file_range: "file_ok C m \<Longrightarrow> e \<in> set (ents C m) \<Longrightarrow> in_range m (e_key e)"
proof -
  assume o: "file_ok C m" and e: "e \<in> set (ents C m)"
  let ?c = "concat (blocks_at C m)"
  have ne: "?c \<noteq> []" using o wf_entries by (simp add: file_ok_def)
  have s: "sorted_wrt (\<lambda>a b. \<not> key_lt (key_of (stamped m b)) (key_of (stamped m a))) ?c"
    using o by (simp add: file_ok_def ents_def sorted_ents_def sorted_wrt_map)
  obtain i where i: "i < length ?c" "e = stamped m (?c ! i)" using e unfolding ents_keys by (metis in_set_conv_nth)
  have le: "e_key (?c ! j) \<le> e_key (?c ! k)" if "j \<le> k" "k < length ?c" for j k
  proof (cases "j = k")
    case False
    then have "\<not> key_lt (key_of (stamped m (?c ! k))) (key_of (stamped m (?c ! j)))" using s that by (simp add: sorted_wrt_iff_nth_less)
    then show ?thesis by (auto simp: key_lt_def key_of_def not_less)
  qed simp
  have "e_key (?c ! 0) \<le> e_key (?c ! i)" "e_key (?c ! i) \<le> e_key (?c ! (length ?c - 1))" using le [of 0 i] le [of i "length ?c - 1"] i by simp_all
  then have "m_smallest m \<le> e_key e" "e_key e \<le> m_largest m"
    using o i(2) ne by (simp_all add: file_ok_def file_wf_def hd_conv_nth last_conv_nth)
  then show ?thesis using bytes_cmp_less [of "e_key e" "m_smallest m"] bytes_cmp_less [of "m_largest m" "e_key e"] bytes_cmp_swap [of "m_largest m" "e_key e"]
    by (auto simp: in_range_def not_less)
qed

context reads_layer
begin

text \<open>\<open>r\<close> is the entry \<open>e\<close>, with its value.\<close>

definition got :: "('w, 'f) db \<Rightarrow> ent \<Rightarrow> ent \<Rightarrow> bool" where
  "got d e r \<longleftrightarrow> (if e_type e = TYPE_DEL then r = e else \<exists>v. value_is stored d e v \<and> r = e\<lparr>e_val := v, e_type := TYPE_PUT\<rparr>)"

definition searched :: "shelf \<Rightarrow> ('w, 'f) db \<Rightarrow> (gs_status \<times> ent option \<times> ('w, 'f) db) option \<Rightarrow> ent option \<Rightarrow> bool" where
  "searched C d f x \<longleftrightarrow> (\<exists>rc r d'. f = Some (rc, r, d') \<and> reads C d d' \<and> (up (world d) \<longrightarrow> rc = GS_OK) \<and> rc \<noteq> GS_NOT_FOUND \<and>
     (rc = GS_OK \<longrightarrow> (case x of None \<Rightarrow> r = None | Some e \<Rightarrow> \<exists>y. r = Some y \<and> got d e y)))"

lemma got_reads: "reads C d d' \<Longrightarrow> got d' e r = got d e r"
  by (simp add: got_def value_is_reads)

lemma reset_reads: "good C d \<Longrightarrow> reads C d (snd (src_reset s d))"
  using unpin_reads [of C d s] by (cases "src_unpin_db s d") (simp add: src_reset_def)

lemma file_find_spec:
  assumes "good C d" "file_ok C m" "\<forall>e \<in> set (ents C m). e_type e \<noteq> TYPE_DEL \<longrightarrow> (\<exists>v. value_is stored d e v)"
  shows "searched C d (file_find io m k q d) (find (version_at k q) (ents C m))"
proof -
  let ?L = "ents C m" and ?F = "find (version_at k q) (ents C m)"
  obtain bs hs where c: "C (m_num m) = Some (bs, hs)" "blocks_at C m = bs" "hashes_of (concat bs) \<subseteq> set hs" using file_okD [OF assms(2)] by blast
  obtain rc d1 where 1: "file_load io m d = Some (rc, d1)" "reads C d d1" "up (world d) \<longrightarrow> rc = GS_OK"
    "rc = GS_OK \<longrightarrow> opened d1 (m_num m) = Some (loaded_of bs hs)" using file_load_spec [OF assms(1) c(1)] by blast
  have g1: "good C d1" using 1(2) by (simp add: reads_def)
  have sorted: "sorted_ents ?L" using assms(2) by (simp add: file_ok_def)
  show ?thesis
  proof (cases "rc = GS_OK")
    case False
    then show ?thesis using 1 load_present [OF 1(1)] by (auto simp: searched_def file_find_def)
  next
    case ok: True
    then have l: "the (opened d1 (m_num m)) = loaded_of bs hs" using 1(4) by simp
    show ?thesis
    proof (cases "bloom_may (bloom_block hs) (fst (bloom_build hs)) k")
      case False
      have "?F = None"
      proof (rule ccontr)
        assume "?F \<noteq> None"
        then obtain e where "e \<in> set ?L" "e_key e = k" by (auto simp: find_None_iff)
        then obtain x where "x \<in> set (concat bs)" "e = stamped m x" "e_key e = k" unfolding ents_keys c(2) by blast
        then have h: "key_hash64 k \<in> set hs" using c(3) by (auto simp: hashes_of_def)
        have "length (file_image (db_identity (eng d)) (m_num m) bs hs) < 2 ^ 29" using assms(1) c(1) by (simp add: db_ok_def shelf_ok_def)
        then have "length (bloom_block hs) < 2 ^ 29" by (simp add: file_image_def Let_def)
        then have bits: "fst (bloom_build hs) < 2 ^ 64" using bloom_bits_small [of hs] by simp
        have "bloom_build hs = (fst (bloom_build hs), snd (bloom_build hs))" by simp
        from bloom_has_keys [OF this h bits] have "bloom_may (bloom_block hs) (fst (bloom_build hs)) k"
          unfolding bloom_block_def using seal_prefix by metis
        then show False using False by simp
      qed
      moreover have "file_find io m k q d = Some (GS_OK, None, d1)" using 1(1) ok l False by (simp add: file_find_def loaded_of_def)
      ultimately show ?thesis using 1(2) by (auto simp: searched_def)
    next
      case may: True
      let ?s = "new_src (FILES [m]) False" and ?p = "length (before (k, q) ?L)"
      obtain s d2 where 2: "src_seek io k q ?s d1 = Some (s, d2)" "reads C d1 d2" "up (world d1) \<longrightarrow> s_rc s = GS_OK" "went C ?s ?L ?p s d2"
        using seek_spec [OF g1, of ?s ?L k q] file_list [OF assms(2)] by auto
      have np: "s_rc s \<noteq> GS_NOT_FOUND" by (rule seek_present [OF 2(1)]) simp
      have r2: "reads C d d2" and g2: "good C d2" using reads_trans [OF 1(2) 2(2)] by (simp_all add: reads_def)
      have up2: "up (world d) \<Longrightarrow> up (world d1)" by (rule reads_up [OF 1(2)])
      have rr: "reads C d (snd (src_reset s d2))" by (rule reads_trans [OF r2 reset_reads [OF g2]])
      have ff: "?F = (if ?p < length ?L \<and> e_key (?L ! ?p) = k then Some (?L ! ?p) else None)" using find_from [OF sorted, of k q] by (simp add: Let_def)
      let ?rest = "if s_rc s \<noteq> GS_OK then Some (s_rc s, None, snd (src_reset s d2))
         else if \<not> s_valid s \<or> e_key (src_ent s) \<noteq> k then Some (GS_OK, None, snd (src_reset s d2))
         else if e_type (src_ent s) = TYPE_DEL then Some (GS_OK, Some (src_ent s), snd (src_reset s d2))
         else let (rc, v, d) = value_of io (src_ent s) d2
           in Some (rc, if rc = GS_OK then Some ((src_ent s)\<lparr>e_val := v, e_type := TYPE_PUT\<rparr>) else None, snd (src_reset s d))"
      have run: "file_find io m k q d = ?rest" using 1(1) ok l may 2(1) by (simp add: file_find_def loaded_of_def)
      show ?thesis
      proof (cases "s_rc s = GS_OK")
        case False
        then show ?thesis using run rr 2(3) up2 np by (auto simp: searched_def)
      next
        case s: True
        then have at: "src_at C s d2 ?L ?p" using 2(4) by (simp add: went_def)
        show ?thesis
        proof (cases "?p < length ?L \<and> e_key (?L ! ?p) = k")
          case False
          have "\<not> s_valid s \<or> e_key (src_ent s) \<noteq> k"
          proof (cases "s_valid s")
            case True
            then show ?thesis using src_ent_at [OF at True] False by auto
          qed simp
          then have "file_find io m k q d = Some (GS_OK, None, snd (src_reset s d2))" using run s by simp
          then show ?thesis using rr False unfolding ff by (auto simp: searched_def)
        next
          case True
          then have v: "s_valid s" "src_ent s = ?L ! ?p" using at src_ent_at [OF at] by (auto simp: src_at_def)
          let ?e = "?L ! ?p"
          show ?thesis
          proof (cases "e_type ?e = TYPE_DEL")
            case del: True
            then have "file_find io m k q d = Some (GS_OK, Some ?e, snd (src_reset s d2))" using run s v True by simp
            then show ?thesis using rr True del unfolding ff by (auto simp: searched_def got_def)
          next
            case put: False
            have "?e \<in> set ?L" using True by simp
            then obtain x where x: "value_is stored d ?e x" using assms(3) put by blast
            then have x2: "value_is stored d2 ?e x" using value_is_reads [OF r2] by simp
            obtain c3 y d3 where 3: "value_of io ?e d2 = (c3, y, d3)" by (metis prod_cases3)
            note w = value_of_spec [OF g2 x2 3]
            have g3: "good C d3" using w(1) by (simp add: reads_def)
            have "reads C d (snd (src_reset s d3))" by (rule reads_trans [OF reads_trans [OF r2 w(1)] reset_reads [OF g3]])
            moreover have "file_find io m k q d = Some (c3, if c3 = GS_OK then Some (?e\<lparr>e_val := y, e_type := TYPE_PUT\<rparr>) else None, snd (src_reset s d3))"
              using run s v True put 3 by simp
            moreover have "got d ?e (?e\<lparr>e_val := y, e_type := TYPE_PUT\<rparr>)" if "c3 = GS_OK" using x w(2) [OF that] put by (auto simp: got_def)
            moreover have "up (world d) \<longrightarrow> c3 = GS_OK" using w(3) reads_up [OF r2] by blast
            ultimately show ?thesis using True value_present [OF 3] unfolding ff by (auto simp: searched_def)
          qed
        qed
      qed
    qed
  qed
qed

lemma values_reads: "reads C d d' \<Longrightarrow> (\<exists>v. value_is stored d' e v) = (\<exists>v. value_is stored d e v)"
  by (simp add: value_is_reads)

lemma searched_reads: "reads C d d1 \<Longrightarrow> searched C d1 f x \<Longrightarrow> searched C d f x"
proof -
  assume r: "reads C d d1" and s: "searched C d1 f x"
  obtain rc y d' where "f = Some (rc, y, d')" "reads C d1 d'" "up (world d1) \<longrightarrow> rc = GS_OK" "rc \<noteq> GS_NOT_FOUND"
     "rc = GS_OK \<longrightarrow> (case x of None \<Rightarrow> y = None | Some e \<Rightarrow> \<exists>z. y = Some z \<and> got d1 e z)"
    using s unfolding searched_def by auto
  then show ?thesis unfolding searched_def using reads_trans [OF r] reads_up [OF r] got_reads [OF r]
    by (intro exI [of _ rc] exI [of _ y] exI [of _ d']) (auto split: option.splits)
qed

text \<open>The first of several files that has it.\<close>

lemma files_lookup_spec:
  assumes "good C d" "\<forall>m \<in> set ms. file_ok C m \<and> (\<forall>e \<in> set (ents C m). e_type e \<noteq> TYPE_DEL \<longrightarrow> (\<exists>v. value_is stored d e v))"
  shows "searched C d (files_lookup io k q ms d) (find (version_at k q) (stream C ms))"
  using assms
proof (induction ms arbitrary: d)
  case Nil
  then show ?case using reads_refl by (auto simp: searched_def)
next
  case (Cons m ms)
  have m: "file_ok C m" "\<forall>e \<in> set (ents C m). e_type e \<noteq> TYPE_DEL \<longrightarrow> (\<exists>v. value_is stored d e v)" using Cons.prems(2) by simp_all
  have "searched C d (file_lookup io m k q d) (find (version_at k q) (ents C m))"
  proof (cases "in_range m k")
    case True
    then show ?thesis using file_find_spec [OF Cons.prems(1) m] by (simp add: file_lookup_def)
  next
    case False
    have "find (version_at k q) (ents C m) = None" using False file_range [OF m(1)] by (auto simp: find_None_iff)
    then show ?thesis using False reads_refl [OF Cons.prems(1)] by (auto simp: file_lookup_def searched_def)
  qed
  then obtain rc r d1 where 1: "file_lookup io m k q d = Some (rc, r, d1)" "reads C d d1" "up (world d) \<longrightarrow> rc = GS_OK" "rc \<noteq> GS_NOT_FOUND"
    "rc = GS_OK \<longrightarrow> (case find (version_at k q) (ents C m) of None \<Rightarrow> r = None | Some e \<Rightarrow> \<exists>y. r = Some y \<and> got d e y)"
    by (auto simp: searched_def)
  show ?case
  proof (cases "rc = GS_OK \<and> r = None")
    case True
    have g1: "good C d1" using 1(2) by (simp add: reads_def)
    have "searched C d1 (files_lookup io k q ms d1) (find (version_at k q) (stream C ms))"
      by (rule Cons.IH [OF g1]) (use Cons.prems(2) values_reads [OF 1(2)] in simp)
    then have "searched C d (files_lookup io k q ms d1) (find (version_at k q) (stream C ms))" by (rule searched_reads [OF 1(2)])
    moreover have "find (version_at k q) (ents C m) = None" using 1(5) True by (auto split: option.splits)
    ultimately show ?thesis using 1(1) True by (simp add: find_append)
  next
    case False
    then show ?thesis using 1 by (auto simp: searched_def find_append split: option.splits)
  qed
qed

end

section \<open>Levels\<close>

definition apart :: "file_meta list \<Rightarrow> bool" where
  "apart ms \<longleftrightarrow> sorted_wrt (\<lambda>a b. m_largest a < m_smallest b) ms"

lemma in_range_order: "in_range m k \<longleftrightarrow> m_smallest m \<le> k \<and> k \<le> m_largest m"
  using bytes_cmp_less [of k "m_smallest m"] bytes_cmp_less [of "m_largest m" k] bytes_cmp_swap [of "m_largest m" k]
  by (auto simp: in_range_def not_less)

lemma file_nonempty: "file_ok C m \<Longrightarrow> m_smallest m \<le> m_largest m"
proof -
  assume o: "file_ok C m"
  then have "ents C m \<noteq> []" using wf_entries by (simp add: file_ok_def ents_def)
  then obtain e where "e \<in> set (ents C m)" using last_in_set by blast
  then show ?thesis using file_range [OF o] unfolding in_range_order by (meson order_trans)
qed

lemma find_out_of_range: "file_ok C m \<Longrightarrow> \<not> in_range m k \<Longrightarrow> find (version_at k q) (ents C m) = None"
  using file_range by (auto simp: find_None_iff)

lemma find_stream_None: "(\<And>m. m \<in> set ms \<Longrightarrow> find P (ents C m) = None) \<Longrightarrow> find P (stream C ms) = None"
  by (induction ms) (auto simp: find_append)

lemma level_find:
  assumes "0 < l" "apart ms" "\<forall>m \<in> set ms. file_ok C m"
  shows "find (version_at k q) (stream C (level_files l ms k)) = find (version_at k q) (stream C ms)"
proof -
  let ?below = "\<lambda>j. bytes_cmp (m_largest (ms ! j)) k < 0"
  define i where "i = lower_bound ?below 0 (length ms)"
  have lt: "m_largest (ms ! a) < m_smallest (ms ! b)" if "a < b" "b < length ms" for a b
    using assms(2) that by (simp add: apart_def sorted_wrt_iff_nth_less)
  have se: "m_smallest (ms ! a) \<le> m_largest (ms ! a)" if "a < length ms" for a using assms(3) nth_mem [OF that] file_nonempty by blast
  have mono: "?below a" if ab: "a < b" "b < length ms" "?below b" for a b
  proof -
    have "m_largest (ms ! b) < k" using ab(3) unfolding bytes_cmp_less .
    then have "m_largest (ms ! a) < k" using lt [OF ab(1,2)] se [OF ab(2)] by order
    then show ?thesis unfolding bytes_cmp_less .
  qed
  have b: "i \<le> length ms" "\<And>a. a < i \<Longrightarrow> ?below a" "\<And>a. i \<le> a \<Longrightarrow> a < length ms \<Longrightarrow> \<not> ?below a"
    unfolding i_def by (rule lower_bound_list, rule mono, assumption+)+
  have none: "find (version_at k q) (ents C (ms ! a)) = None" if a: "a < length ms" "a \<noteq> i" for a
  proof (rule find_out_of_range)
    show "file_ok C (ms ! a)" using assms(3) a(1) by simp
    show "\<not> in_range (ms ! a) k"
    proof (cases "a < i")
      case True
      then show ?thesis using b(2) [OF True] unfolding bytes_cmp_less in_range_order by auto
    next
      case False
      then have "i < a" using a(2) by simp
      then have "k < m_smallest (ms ! a)" using lt [OF _ a(1), of i] b(3) [of i] a(1) unfolding bytes_cmp_less by (meson le_less_trans less_trans not_le order_refl)
      then show ?thesis unfolding in_range_order by auto
    qed
  qed
  have before: "find (version_at k q) (stream C (take j ms)) = None" if j: "j \<le> i" "j \<le> length ms" for j
  proof (rule find_stream_None)
    fix m assume "m \<in> set (take j ms)"
    then obtain a where "a < j" "m = ms ! a" using j(2) by (auto simp: in_set_conv_nth)
    then show "find (version_at k q) (ents C m) = None" using none [of a] j by simp
  qed
  show ?thesis
  proof (cases "i < length ms")
    case True
    have after: "find (version_at k q) (stream C (drop (Suc i) ms)) = None"
    proof (rule find_stream_None)
      fix m assume "m \<in> set (drop (Suc i) ms)"
      then obtain a where "a < length ms - Suc i" "m = ms ! (Suc i + a)" by (auto simp: in_set_conv_nth)
      then show "find (version_at k q) (ents C m) = None" using none [of "Suc i + a"] by simp
    qed
    have "level_files l ms k = [ms ! i]" using True assms(1) by (simp add: level_files_def Let_def i_def)
    then show ?thesis using before [of i] after True by (simp add: stream_split [OF True, of C] find_append split: option.split)
  next
    case False
    then have "level_files l ms k = []" using assms(1) by (simp add: level_files_def Let_def i_def)
    then show ?thesis using before [of "length ms"] False by simp
  qed
qed

lemma stream_concat: "stream C (concat mss) = concat (map (stream C) mss)"
  by (induction mss) simp_all

lemma find_concat_cong:
  "(\<And>l. l \<in> set ls \<Longrightarrow> find P (f l) = find P (g l)) \<Longrightarrow> find P (concat (map f ls)) = find P (concat (map g ls))"
  by (induction ls) (auto simp: find_append split: option.split)

section \<open>What a transaction sees\<close>

text \<open>
  What a transaction reads: its own entries \<open>B\<close> and runs, the memtable's \<open>M\<close>, the frozen memtable's \<open>I\<close>
  and the files of every level, the newest first.
\<close>

definition level_list :: "shelf \<Rightarrow> tables \<Rightarrow> nat \<Rightarrow> ent list" where
  "level_list C v l = stream C (if l = 0 then rev (v_files v ! 0) else v_files v ! l)"

definition seen :: "shelf \<Rightarrow> txn \<Rightarrow> ent list \<Rightarrow> ent list \<Rightarrow> ent list \<Rightarrow> ent list" where
  "seen C t B M I =
     (if t_write t then B @ stream C (rev (t_runs t)) else []) @
     filter (\<lambda>e. e_seq e \<le> t_snap t) (M @ I @ concat (map (level_list C (t_v t)) [0..<LEVELS]))"

definition txn_files :: "txn \<Rightarrow> file_meta set" where
  "txn_files t = (if t_write t then set (t_runs t) else {}) \<union> (\<Union>l < LEVELS. set (v_files (t_v t) ! l))"

definition in_memory :: "ent list \<Rightarrow> bool" where
  "in_memory L \<longleftrightarrow> (\<forall>e \<in> set L. e_type e = TYPE_PUT \<or> e_type e = TYPE_DEL)"

definition txn_ok :: "(string \<Rightarrow> 'w \<Rightarrow> bytes option) \<Rightarrow> shelf \<Rightarrow> txn \<Rightarrow> ent list \<Rightarrow> ent list \<Rightarrow> ent list \<Rightarrow> ('w, 'f) db \<Rightarrow> bool" where
  "txn_ok stored C t B M I d \<longleftrightarrow>
     (t_write t \<longrightarrow> holds (t_buf t) B) \<and> holds (v_mem (t_v t)) M \<and> (case v_imm (t_v t) of None \<Rightarrow> I = [] | Some sk \<Rightarrow> holds sk I) \<and>
     in_memory B \<and> in_memory M \<and> in_memory I \<and> length (v_files (t_v t)) = LEVELS \<and> (\<forall>l. 0 < l \<and> l < LEVELS \<longrightarrow> apart (v_files (t_v t) ! l)) \<and>
     (\<forall>m \<in> txn_files t. file_ok C m \<and> (\<forall>e \<in> set (ents C m). e_type e \<noteq> TYPE_DEL \<longrightarrow> (\<exists>v. value_is stored d e v)))"

text \<open>Of the versions of a key, those found first are the newest.\<close>

definition newest_first :: "ent list \<Rightarrow> bool" where
  "newest_first V \<longleftrightarrow> sorted_wrt (\<lambda>a b. e_key a = e_key b \<longrightarrow> e_seq b \<le> e_seq a) V"

lemma newest_found:
  assumes "newest_first V" "find (\<lambda>e. e_key e = k) V = Some e" "x \<in> set V" "e_key x = k"
  shows "e_seq x \<le> e_seq e"
proof -
  obtain i where i: "i < length V" "e_key (V ! i) = k" "e = V ! i" "\<forall>j < i. e_key (V ! j) \<noteq> k" using assms(2) by (auto simp: find_Some_iff)
  obtain j where j: "j < length V" "x = V ! j" using assms(3) by (auto simp: in_set_conv_nth)
  have "i \<le> j" using i(4) j(2) assms(4) by (metis leI)
  then show ?thesis using assms(1,4) i j by (cases "i = j") (auto simp: newest_first_def sorted_wrt_iff_nth_less)
qed

context reads_layer
begin

definition answered :: "shelf \<Rightarrow> ('w, 'f) db \<Rightarrow> (gs_status \<times> ent option \<times> ('w, 'f) db) option \<Rightarrow> ent option \<Rightarrow> bool" where
  "answered C d f x \<longleftrightarrow> (\<exists>rc r d'. f = Some (rc, r, d') \<and> reads C d d' \<and> (up (world d) \<longrightarrow> rc = GS_OK \<or> rc = GS_NOT_FOUND) \<and>
     (rc = GS_NOT_FOUND \<longrightarrow> r = None \<and> (case x of None \<Rightarrow> True | Some e \<Rightarrow> e_type e = TYPE_DEL)) \<and>
     (rc = GS_OK \<longrightarrow> (\<exists>e y. x = Some e \<and> e_type e \<noteq> TYPE_DEL \<and> r = Some y \<and> got d e y)) \<and> (rc \<noteq> GS_OK \<longrightarrow> r = None))"

lemma answered_reads: "reads C d d1 \<Longrightarrow> answered C d1 f x \<Longrightarrow> answered C d f x"
proof -
  assume r: "reads C d d1" and a: "answered C d1 f x"
  obtain rc y d' where "f = Some (rc, y, d')" "reads C d1 d'" "up (world d1) \<longrightarrow> rc = GS_OK \<or> rc = GS_NOT_FOUND"
     "rc = GS_NOT_FOUND \<longrightarrow> y = None \<and> (case x of None \<Rightarrow> True | Some e \<Rightarrow> e_type e = TYPE_DEL)"
     "rc = GS_OK \<longrightarrow> (\<exists>e z. x = Some e \<and> e_type e \<noteq> TYPE_DEL \<and> y = Some z \<and> got d1 e z)" "rc \<noteq> GS_OK \<longrightarrow> y = None"
    using a unfolding answered_def by auto
  then show ?thesis unfolding answered_def using reads_trans [OF r] reads_up [OF r] got_reads [OF r] by (intro exI [of _ rc] exI [of _ y] exI [of _ d']) auto
qed

lemma or_else_spec:
  assumes "searched C d f x" "\<And>d1. reads C d d1 \<Longrightarrow> x = None \<Longrightarrow> answered C d1 (g d1) z"
  shows "answered C d (or_else f g) (case x of None \<Rightarrow> z | Some e \<Rightarrow> Some e)"
proof -
  obtain rc r d1 where 1: "f = Some (rc, r, d1)" "reads C d d1" "up (world d) \<longrightarrow> rc = GS_OK" "rc \<noteq> GS_NOT_FOUND"
    "rc = GS_OK \<longrightarrow> (case x of None \<Rightarrow> r = None | Some e \<Rightarrow> \<exists>y. r = Some y \<and> got d e y)" using assms(1) by (auto simp: searched_def)
  show ?thesis
  proof (cases "rc = GS_OK")
    case False
    then show ?thesis using 1(1-4) by (auto simp: or_else_def answered_def)
  next
    case ok: True
    show ?thesis
    proof (cases x)
      case None
      then have "or_else f g = g d1" using 1(1,5) ok by (simp add: or_else_def)
      then show ?thesis using answered_reads [OF 1(2) assms(2) [OF 1(2) None]] None by simp
    next
      case (Some e)
      then obtain y where y: "r = Some y" "got d e y" using 1(5) ok by auto
      have "e_type y = TYPE_DEL \<longleftrightarrow> e_type e = TYPE_DEL" using y(2) by (auto simp: got_def TYPE_PUT_def TYPE_DEL_def split: if_splits)
      then have "or_else f g = Some (if e_type e = TYPE_DEL then GS_NOT_FOUND else GS_OK, if e_type e = TYPE_DEL then None else Some y, d1)"
        using 1(1) ok y(1) by (simp add: or_else_def found_answer_def)
      then show ?thesis using Some 1(2) y(2) by (auto simp: answered_def)
    qed
  qed
qed

lemma memory_searched:
  assumes "good C d" "in_memory L" "x = find (version_at k q) L"
  shows "searched C d (map_option (\<lambda>r. (GS_OK, r, d)) (Some x)) x"
proof -
  have "got d e e" if "x = Some e" for e
  proof -
    have "e \<in> set L" using that assms(3) by (auto simp: find_Some_iff)
    then have "e_type e = TYPE_PUT \<or> e_type e = TYPE_DEL" using assms(2) by (simp add: in_memory_def)
    then show ?thesis by (auto simp: got_def value_is_def TYPE_BLOB_def TYPE_PUT_def TYPE_DEL_def)
  qed
  then show ?thesis using reads_refl [OF assms(1)] by (auto simp: searched_def split: option.split)
qed

lemma nothing_searched: "good C d \<Longrightarrow> searched C d (Some (GS_OK, None, d)) None"
  using reads_refl by (auto simp: searched_def)

lemma lookup_spec:
  assumes "good C d" "txn_ok stored C t B M I d"
  shows "answered C d (lookup io t k d) (find (\<lambda>e. e_key e = k) (seen C t B M I))"
proof -
  let ?q = "t_snap t" and ?v = "t_v t"
  have o: "t_write t \<Longrightarrow> holds (t_buf t) B" "holds (v_mem ?v) M" "case v_imm ?v of None \<Rightarrow> I = [] | Some sk \<Rightarrow> holds sk I"
    "in_memory B" "in_memory M" "in_memory I" "length (v_files ?v) = LEVELS" "\<And>l. 0 < l \<Longrightarrow> l < LEVELS \<Longrightarrow> apart (v_files ?v ! l)"
    "\<And>m. m \<in> txn_files t \<Longrightarrow> file_ok C m \<and> (\<forall>e \<in> set (ents C m). e_type e \<noteq> TYPE_DEL \<longrightarrow> (\<exists>v. value_is stored d e v))"
    using assms(2) by (simp_all add: txn_ok_def)
  have lf: "m \<in> txn_files t" if "l < LEVELS" "m \<in> set (v_files ?v ! l)" for l m using that by (auto simp: txn_files_def)
  let ?fs = "concat (map (\<lambda>l. level_files l (v_files ?v ! l) k) [0..<LEVELS])"
  have sub: "m \<in> txn_files t" if m: "m \<in> set ?fs" for m
  proof -
    obtain l where l: "l < LEVELS" "m \<in> set (level_files l (v_files ?v ! l) k)" using m by auto
    then have "m \<in> set (v_files ?v ! l)" by (auto simp: level_files_def Let_def split: if_splits)
    then show ?thesis using lf l(1) by blast
  qed
  have lv: "find (version_at k ?q) (stream C ?fs) = find (version_at k ?q) (concat (map (level_list C ?v) [0..<LEVELS]))"
    unfolding stream_concat map_map comp_def
  proof (rule find_concat_cong)
    fix l assume "l \<in> set [0..<LEVELS]"
    then have l: "l < LEVELS" by simp
    show "find (version_at k ?q) (stream C (level_files l (v_files ?v ! l) k)) = find (version_at k ?q) (level_list C ?v l)"
    proof (cases "l = 0")
      case True
      then show ?thesis by (simp add: level_files_def level_list_def)
    next
      case False
      then show ?thesis using level_find [of l "v_files ?v ! l" C k ?q] o(8) [of l] o(9) lf [OF l] l by (simp add: level_list_def)
    qed
  qed
  define x1 where "x1 = (if t_write t then find (version_at k (- 1)) B else None)"
  define x2 where "x2 = (if t_write t then find (version_at k (- 1)) (stream C (rev (t_runs t))) else None)"
  define x3 where "x3 = find (version_at k ?q) M"
  define x4 where "x4 = find (version_at k ?q) I"
  define x5 where "x5 = find (version_at k ?q) (concat (map (level_list C ?v) [0..<LEVELS]))"
  have top: "version_at k (- 1) = (\<lambda>e. e_key e = k)" by (rule ext) (simp add: word_order.extremum)
  have vis: "(\<lambda>e. e_seq e \<le> ?q \<and> e_key e = k) = version_at k ?q" by auto
  have whole: "find (\<lambda>e. e_key e = k) (seen C t B M I) =
      (case x1 of None \<Rightarrow> (case x2 of None \<Rightarrow> (case x3 of None \<Rightarrow> (case x4 of None \<Rightarrow> (case x5 of None \<Rightarrow> None | Some e \<Rightarrow> Some e) | Some e \<Rightarrow> Some e)
        | Some e \<Rightarrow> Some e) | Some e \<Rightarrow> Some e) | Some e \<Rightarrow> Some e)"
    unfolding seen_def x1_def x2_def x3_def x4_def x5_def top
    by (cases "t_write t") (simp_all add: find_append find_filter vis split: option.split)
  have s1: "searched C d' (map_option (\<lambda>r. (GS_OK, r, d')) (if t_write t then sk_get (t_buf t) k (- 1) else Some None)) x1" if "good C d'" for d'
  proof (cases "t_write t")
    case True
    then show ?thesis using memory_searched [OF that o(4) x1_def [unfolded if_P [OF True]]] sk_get_spec [OF o(1) [OF True], of k "- 1"] x1_def by simp
  next
    case False
    then show ?thesis using nothing_searched [OF that] by (simp add: x1_def)
  qed
  have s2: "searched C d' (if t_write t then files_lookup io k (- 1) (rev (t_runs t)) d' else Some (GS_OK, None, d')) x2" if "reads C d d'" for d'
  proof -
    have g: "good C d'" using that by (simp add: reads_def)
    have "file_ok C m \<and> (\<forall>e \<in> set (ents C m). e_type e \<noteq> TYPE_DEL \<longrightarrow> (\<exists>v. value_is stored d' e v))" if "t_write t" "m \<in> set (rev (t_runs t))" for m
      using o(9) [of m] values_reads [OF \<open>reads C d d'\<close>] that by (simp add: txn_files_def)
    then show ?thesis using files_lookup_spec [OF g, of "rev (t_runs t)" k "- 1"] nothing_searched [OF g] by (simp add: x2_def)
  qed
  have s3: "searched C d' (map_option (\<lambda>r. (GS_OK, r, d')) (sk_get (v_mem ?v) k ?q)) x3" if "good C d'" for d'
    using memory_searched [OF that o(5) x3_def] sk_get_spec [OF o(2), of k ?q] x3_def by simp
  have s4: "searched C d' (map_option (\<lambda>r. (GS_OK, r, d')) (case v_imm ?v of None \<Rightarrow> Some None | Some sk \<Rightarrow> sk_get sk k ?q)) x4" if "good C d'" for d'
  proof (cases "v_imm ?v")
    case None
    then show ?thesis using nothing_searched [OF that] o(3) by (simp add: x4_def)
  next
    case (Some sk)
    then show ?thesis using memory_searched [OF that o(6) x4_def] sk_get_spec [of sk I k ?q] o(3) x4_def by simp
  qed
  have s5: "searched C d' (files_lookup io k ?q ?fs d') x5" if "reads C d d'" for d'
  proof -
    have g: "good C d'" using that by (simp add: reads_def)
    have "\<forall>m \<in> set ?fs. file_ok C m \<and> (\<forall>e \<in> set (ents C m). e_type e \<noteq> TYPE_DEL \<longrightarrow> (\<exists>v. value_is stored d' e v))"
      using sub o(9) values_reads [OF that] by blast
    from files_lookup_spec [OF g this, of k ?q] show ?thesis unfolding lv x5_def [symmetric] .
  qed
  have gd: "good C d'" if "reads C d d'" for d' using that by (simp add: reads_def)
  have none: "answered C d' (Some (GS_NOT_FOUND, None, d')) None" if "good C d'" for d' using reads_refl [OF that] by (auto simp: answered_def)
  show ?thesis unfolding whole lookup_def
    by (intro or_else_spec s1 s2 s3 s4 s5 none assms(1)) (use gd reads_trans in blast)+
qed

end

context reads_layer
begin

lemma point_read:
  assumes "good C d" "txn_ok stored C t B M I d" "newest_first (seen C t B M I)"
  shows "\<exists>rc r d'. lookup io t k d = Some (rc, r, d') \<and> good C d' \<and> (up (world d) \<longrightarrow> rc = GS_OK \<or> rc = GS_NOT_FOUND) \<and>
    (rc = GS_OK \<longrightarrow> (\<exists>e v. e \<in> set (seen C t B M I) \<and> e_key e = k \<and> (\<forall>x \<in> set (seen C t B M I). e_key x = k \<longrightarrow> e_seq x \<le> e_seq e) \<and>
       e_type e \<noteq> TYPE_DEL \<and> value_is stored d e v \<and> r = Some (e\<lparr>e_val := v, e_type := TYPE_PUT\<rparr>))) \<and>
    (rc = GS_NOT_FOUND \<longrightarrow> (\<forall>x \<in> set (seen C t B M I). e_key x = k \<longrightarrow>
       (\<exists>e \<in> set (seen C t B M I). e_key e = k \<and> e_type e = TYPE_DEL \<and> e_seq x \<le> e_seq e))) \<and>
    (rc \<noteq> GS_OK \<longrightarrow> r = None)"
proof -
  let ?V = "seen C t B M I"
  let ?f = "find (\<lambda>e. e_key e = k) ?V"
  obtain rc r d' where a: "lookup io t k d = Some (rc, r, d')" "reads C d d'" "up (world d) \<longrightarrow> rc = GS_OK \<or> rc = GS_NOT_FOUND"
     "rc = GS_NOT_FOUND \<longrightarrow> r = None \<and> (case ?f of None \<Rightarrow> True | Some e \<Rightarrow> e_type e = TYPE_DEL)"
     "rc = GS_OK \<longrightarrow> (\<exists>e y. ?f = Some e \<and> e_type e \<noteq> TYPE_DEL \<and> r = Some y \<and> got d e y)" "rc \<noteq> GS_OK \<longrightarrow> r = None"
    using lookup_spec [OF assms(1,2), of k] unfolding answered_def by auto
  have f: "e \<in> set ?V \<and> e_key e = k \<and> (\<forall>x \<in> set ?V. e_key x = k \<longrightarrow> e_seq x \<le> e_seq e)" if "?f = Some e" for e
    using that newest_found [OF assms(3) that] by (auto simp: find_Some_iff)
  have "good C d'" using a(2) by (simp add: reads_def)
  moreover have "\<exists>e v. e \<in> set ?V \<and> e_key e = k \<and> (\<forall>x \<in> set ?V. e_key x = k \<longrightarrow> e_seq x \<le> e_seq e) \<and> e_type e \<noteq> TYPE_DEL \<and>
      value_is stored d e v \<and> r = Some (e\<lparr>e_val := v, e_type := TYPE_PUT\<rparr>)" if "rc = GS_OK"
    using a(5) that f by (auto simp: got_def)
  moreover have "\<exists>e \<in> set ?V. e_key e = k \<and> e_type e = TYPE_DEL \<and> e_seq x \<le> e_seq e" if "rc = GS_NOT_FOUND" "x \<in> set ?V" "e_key x = k" for x
  proof (cases ?f)
    case None
    then show ?thesis using that(2,3) by (auto simp: find_None_iff)
  next
    case (Some e)
    then show ?thesis using a(4) that f [OF Some] by auto
  qed
  ultimately show ?thesis using a(1,3,6) by auto
qed

end

section \<open>On the simulated layer\<close>

abbreviation sim_txn_ok :: "shelf \<Rightarrow> txn \<Rightarrow> ent list \<Rightarrow> ent list \<Rightarrow> ent list \<Rightarrow> (sim, sim_file) db \<Rightarrow> bool" where
  "sim_txn_ok \<equiv> txn_ok (\<lambda>p s. gsql_io_sim_contents s p)"

text \<open>C39. A point read answers with the newest version its transaction sees: of the entries of its own buffer
  and runs, and of those up to its snapshot in the memtables and in every level of files, the one of the
  key with the highest sequence. The key is reported absent exactly when there is none or the newest is a
  deletion; a failing layer gives an error and is never taken for absence, and a layer that does not fail
  gives no error. The value is the entry's, or the one its pointer leads to in its blob file.\<close>

theorem point_read_finds_newest:
  assumes "sim_good C d" "sim_txn_ok C t B M I d" "newest_first (seen C t B M I)"
  shows "\<exists>rc r d'. lookup sim_io t k d = Some (rc, r, d') \<and> sim_good C d' \<and> (healthy (world d) \<longrightarrow> rc = GS_OK \<or> rc = GS_NOT_FOUND) \<and>
    (rc = GS_OK \<longrightarrow> (\<exists>e v. e \<in> set (seen C t B M I) \<and> e_key e = k \<and> (\<forall>x \<in> set (seen C t B M I). e_key x = k \<longrightarrow> e_seq x \<le> e_seq e) \<and>
       e_type e \<noteq> TYPE_DEL \<and> value_is (\<lambda>p s. gsql_io_sim_contents s p) d e v \<and> r = Some (e\<lparr>e_val := v, e_type := TYPE_PUT\<rparr>))) \<and>
    (rc = GS_NOT_FOUND \<longrightarrow> (\<forall>x \<in> set (seen C t B M I). e_key x = k \<longrightarrow>
       (\<exists>e \<in> set (seen C t B M I). e_key e = k \<and> e_type e = TYPE_DEL \<and> e_seq x \<le> e_seq e))) \<and>
    (rc \<noteq> GS_OK \<longrightarrow> r = None)"
  using sim_reads.point_read [OF assms] .

text \<open>A reader of the store of \<open>stored_db\<close>, between the two versions of the key \<open>[1, 2]\<close>.\<close>

definition sample_reader :: txn where
  "sample_reader =
     \<lparr>t_write = False, t_snap = 8, t_v = \<lparr>v_mem = sk_init, v_imm = None, v_files = [stored_meta] # replicate 6 []\<rparr>, t_buf = sk_init, t_retired = [],
      t_trees = [], t_cursors = [], t_next_id = 0, t_failed = GS_OK, t_runs = [], t_spills = 0, t_undo = [], t_undo_bytes = 0,
      t_undo_lost = False, t_marks = []\<rparr>"

lemma sample_reader_ok: "sim_txn_ok stored_shelf sample_reader [] [] [] stored_db" "seen stored_shelf sample_reader [] [] [] = drop 1 sample_entries"
proof -
  have six: "{..<LEVELS} = {0, 1, 2, 3, 4, 5, 6}" by (auto simp: LEVELS_def)
  have files: "txn_files sample_reader = {stored_meta}" by (simp add: txn_files_def sample_reader_def six)
  have "file_ok stored_shelf stored_meta" using stored_list
    by (auto simp: file_ok_def blocks_at_def stored_shelf_def stored_meta_def hashes_of_def stored_hashes_def)
  moreover have "ents stored_shelf stored_meta = sample_entries" using stored_list by simp
  then have "\<exists>v. value_is (\<lambda>p s. gsql_io_sim_contents s p) stored_db e v" if "e \<in> set (ents stored_shelf stored_meta)" for e
    using that by (auto simp: value_is_def sample_entries_def TYPE_BLOB_def TYPE_PUT_def TYPE_DEL_def)
  moreover have "\<forall>l. 0 < l \<and> l < LEVELS \<longrightarrow> apart (v_files (t_v sample_reader) ! l)"
  proof (intro allI impI)
    fix l :: nat assume l: "0 < l \<and> l < LEVELS"
    then have "l - 1 < 6" unfolding LEVELS_def by linarith
    then have "replicate 6 [] ! (l - 1) = ([] :: file_meta list)" by (rule nth_replicate)
    then show "apart (v_files (t_v sample_reader) ! l)" using l by (simp add: sample_reader_def nth_Cons' apart_def)
  qed
  moreover have "length (v_files (t_v sample_reader)) = LEVELS" by (simp add: sample_reader_def LEVELS_def)
  ultimately show "sim_txn_ok stored_shelf sample_reader [] [] [] stored_db"
    unfolding txn_ok_def files using sk_init_holds by (auto simp: sample_reader_def in_memory_def)
  show "seen stored_shelf sample_reader [] [] [] = drop 1 sample_entries"
  proof -
    have "ents stored_shelf stored_meta = sample_entries" using stored_list by simp
    then have "seen stored_shelf sample_reader [] [] [] = filter (\<lambda>e. e_seq e \<le> 8) sample_entries"
      by (simp add: seen_def sample_reader_def level_list_def LEVELS_def upt_rec)
    then show ?thesis by (simp add: sample_entries_def)
  qed
qed

lemma point_read_finds_newest_witness:
  "\<exists>d'. lookup sim_io sample_reader [3] stored_db = Some (GS_OK, Some \<lparr>e_key = [3], e_seq = 5, e_type = TYPE_PUT, e_val = [8]\<rparr>, d')"
proof -
  have n: "newest_first (drop 1 sample_entries)" by (simp add: newest_first_def sample_entries_def)
  have s: "set (drop 1 sample_entries) = {\<lparr>e_key = [1, 2], e_seq = 4, e_type = TYPE_DEL, e_val = []\<rparr>, \<lparr>e_key = [3], e_seq = 5, e_type = TYPE_PUT, e_val = [8]\<rparr>}"
    by (simp add: sample_entries_def)
  from point_read_finds_newest [OF stored_good(1) sample_reader_ok(1), unfolded sample_reader_ok(2), OF n, of "[3]"] stored_good(2)
  show ?thesis unfolding s by (auto simp: value_is_def TYPE_BLOB_def TYPE_PUT_def TYPE_DEL_def)
qed

end
