(* ===== verification/Spec2Isabelle.thy ===== *)
theory Spec2Isabelle
  imports Serialize_Walk Key_Back Wire Version_Props Lexer_Literals Datetime_Props Page_Cache_Props Lease_Take Skiplist_Props Sorted_File_Sim Source_Sim Engine_Reads_Props
begin

text \<open>
  A verification library for gBASIC (\<^verbatim>\<open>src/\<close>), an interpreted BASIC with built-in dates, money and
  a database, and for G-SQL, its embedded storage engine (\<^verbatim>\<open>src/gsql/\<close>). What is modelled is the code
  whose results must be exact: the lexer, numbers, the calendar, the stored forms of values and keys,
  the wire protocol, and of the engine the version store, the memtable, sorted files, the block
  cache, the lease between machines, and the simulated disk the engine is tested on.

  Parts and theories (definitions first, properties in the theory named after them):

  \<^item> \<open>Prelude\<close>: byte and word layouts, \<^verbatim>\<open>memcmp\<close>, rule collections.
  \<^item> \<open>Crc32c\<close>, \<open>Varint\<close>, \<open>Store_Common\<close>: \<^verbatim>\<open>gsql/store_common.c\<close>; the table-driven checksum is the
    bitwise one and detects every burst of four bytes; variable-length integers; headers, page seals,
    status codes, path helpers.
  \<^item> \<open>Numbers\<close>, \<open>Values\<close>: the exact and binary numbers, strings, money and other values of \<^verbatim>\<open>eval.c\<close>.
  \<^item> \<open>Serialize\<close>, \<open>V3_Fields\<close>, \<open>V3_Codec\<close>, \<open>Serialize_Props\<close>, \<open>Serialize_Walk\<close>: the value serializer of
    \<^verbatim>\<open>eval.c\<close> and the store's walker over it in \<^verbatim>\<open>gsql/v3.c\<close>; what is written is read back, and the
    walker accepts it.
  \<^item> \<open>Key_Codec\<close>, \<open>Key_Order\<close>, \<open>Key_Props\<close>, \<open>Key_Back\<close>: \<^verbatim>\<open>gsql/key.c\<close>; byte order of keys is value order.
  \<^item> \<open>Wire\<close>: \<^verbatim>\<open>gsql/wire.c\<close>, frames and their reassembly from any chunks.
  \<^item> \<open>Version\<close>, \<open>Version_Props\<close>: \<^verbatim>\<open>gsql/version.c\<close>, the history of rows, refined to the list of commits.
  \<^item> \<open>Chars\<close>, \<open>Lexer\<close>, \<open>Lexer_Props\<close>, \<open>Lexer_Total\<close>, \<open>Lexer_Literals\<close>: all of \<^verbatim>\<open>lexer.c\<close>; spans and lines,
    that the end is reached, longest numbers, string literals.
  \<^item> \<open>Civil\<close>, \<open>Civil_Props\<close>, \<open>Datetime\<close>, \<open>Datetime_Props\<close>: the calendar, date-times and durations of
    \<^verbatim>\<open>eval.c\<close> and the calendar of \<^verbatim>\<open>platform_win32.c\<close>.
  \<^item> \<open>Addr_Set\<close>, \<open>Page_Cache\<close>, \<open>Page_Cache_Props\<close>: \<^verbatim>\<open>gsql/store_util.c\<close> and the block cache of
    \<^verbatim>\<open>gsql/lsm.c\<close>: hash sets refined to sets, the chained LRU ring refined to a list.
  \<^item> \<open>Io_Sim\<close>, \<open>Io_Sim_Props\<close>, \<open>Io_Ops\<close>: \<^verbatim>\<open>gsql/io_sim.c\<close>, files in memory with faults, a crash point and
    crash images, and the table of operations everything above calls through.
  \<^item> \<open>Lease\<close>, \<open>Lease_Props\<close>, \<open>Lease_Sim\<close>, \<open>Lease_Take\<close>: \<^verbatim>\<open>gsql/lease.c\<close>. Its lemmas are proved over any
    layer that keeps files (locales \<open>lease_layer\<close>, \<open>lease_layer_up\<close>), interpreted on the simulated disk.
  \<^item> \<open>Skiplist\<close>, \<open>Skiplist_Props\<close>: the memtable of \<^verbatim>\<open>gsql/lsm.c\<close>, a skip list over a heap of nodes, refined
    to the sorted list of its entries.
  \<^item> \<open>Sorted_File\<close>, \<open>Sorted_File_Props\<close>: the sorted and blob files of \<^verbatim>\<open>gsql/lsm.c\<close>.

  Conventions: fallible code answers with the code's status or a sum; loops that may not end are
  \<open>partial_function (option)\<close>, and the properties state that they do end; words keep their width where
  the code may wrap, other sizes are natural numbers; memory allocation does not fail unless a
  parameter says so, and freeing is left out. \<open>set_add\<close> of \<open>Addr_Set\<close> recurses twice at most (one
  growth); everything else is structural or has a measure.

  Not modelled: the grammar (generated by Bison) and the tree-walking evaluator over it with its
  built-ins, I/O, actors and C doubles; SQL parsing, planning and execution; the owner process and
  client; system calls, platform wrappers and the library modules (spreadsheets, XML, zip, mail,
  network, windows). Of the engine, the manifest, the log, transactions, flush and compaction scheduling,
  recovery, backup and the cache of read handles.
\<close>

end
